(* ===== verification/KrabPrelude.thy ===== *)
theory KrabPrelude
  imports Main "HOL-Library.Word" "HOL-Library.AList" "HOL-Library.Sublist"
begin

text \<open>
  Shared vocabulary of the development: the machine integers the code uses, time,
  the part of the Rust standard library the components call (saturating arithmetic,
  decimal printing and parsing, string slicing), and hash maps as association lists.

  The environment of a process maps variable names to values.
  A \<open>HashMap<String, V>\<close> is an association list with distinct keys. The iteration order
  of a hash map is unspecified, so nothing that is proved depends on the order of that list,
  except where the source sorts the keys first.
  \<open>Instant\<close>, \<open>SystemTime\<close> and \<open>Duration\<close> are natural numbers of nanoseconds; the panic of
  \<open>Instant + Duration\<close> beyond the range of the platform clock (about 292 billion years) is
  not modelled.
\<close>

subsection \<open>Types\<close>

type_synonym u8 = "8 word"
type_synonym u16 = "16 word"
type_synonym u32 = "32 word"
type_synonym u64 = "64 word"
type_synonym duration = nat
type_synonym instant = nat
type_synonym environment = "string \<Rightarrow> string option"
type_synonym 'v hashmap = "(string \<times> 'v) list"

named_theorems krab_defs "definitions unfolded by the component proofs"
named_theorems krab_inv "preservation of the invariants of the components"

subsection \<open>Time\<close>

abbreviation (input) nanos_per_sec :: nat where "nanos_per_sec \<equiv> 1000000000"
abbreviation (input) nanos_per_milli :: nat where "nanos_per_milli \<equiv> 1000000"

definition from_secs :: "nat \<Rightarrow> duration" where
  "from_secs s = s * nanos_per_sec"

definition from_millis :: "nat \<Rightarrow> duration" where
  "from_millis ms = ms * nanos_per_milli"

definition as_secs :: "duration \<Rightarrow> nat" where
  "as_secs d = d div nanos_per_sec"

definition as_millis :: "duration \<Rightarrow> nat" where
  "as_millis d = d div nanos_per_milli"

text \<open>\<open>Instant::saturating_duration_since\<close>: zero when the other instant is later.\<close>

definition saturating_duration_since :: "instant \<Rightarrow> instant \<Rightarrow> duration" where
  "saturating_duration_since now earlier = now - earlier"

text \<open>The largest \<open>Duration\<close>, and its saturating product with an integer.\<close>

definition duration_max :: duration where
  "duration_max = (2 ^ 64 - 1) * nanos_per_sec + (nanos_per_sec - 1)"

definition duration_saturating_mul :: "duration \<Rightarrow> nat \<Rightarrow> duration" where
  "duration_saturating_mul d k = min (d * k) duration_max"

lemma as_secs_mono: "a \<le> b \<Longrightarrow> as_secs a \<le> as_secs b"
  by (simp add: as_secs_def div_le_mono)

lemma as_secs_0 [simp]: "as_secs 0 = 0"
  by (simp add: as_secs_def)

subsection \<open>Saturating arithmetic on machine integers\<close>

definition saturating_add :: "'a::len word \<Rightarrow> 'a word \<Rightarrow> 'a word" where
  "saturating_add a b = (if unat a + unat b < 2 ^ LENGTH('a) then a + b else - 1)"

definition saturating_sub :: "'a::len word \<Rightarrow> 'a word \<Rightarrow> 'a word" where
  "saturating_sub a b = (if b \<le> a then a - b else 0)"

definition saturating_mul :: "'a::len word \<Rightarrow> 'a word \<Rightarrow> 'a word" where
  "saturating_mul a b = (if unat a * unat b < 2 ^ LENGTH('a) then a * b else - 1)"

lemma unat_minus_one_word: "unat (- 1 :: 'a::len word) = 2 ^ LENGTH('a) - 1"
  by (simp add: unsigned_minus_1_eq_mask mask_eq_exp_minus_1)

lemma unat_saturating_add:
  "unat (saturating_add a b) = min (unat a + unat b) (2 ^ LENGTH('a) - 1)"
  for a b :: "'a::len word"
  by (auto simp: saturating_add_def unat_word_ariths unat_minus_one_word)

lemma unat_saturating_sub:
  "unat (saturating_sub a b) = unat a - unat b"
  by (auto simp: saturating_sub_def unat_sub word_le_nat_alt)

lemma unat_saturating_mul:
  "unat (saturating_mul a b) = min (unat a * unat b) (2 ^ LENGTH('a) - 1)"
  for a b :: "'a::len word"
  by (auto simp: saturating_mul_def unat_word_ariths unat_minus_one_word)

lemmas unat_saturating = unat_saturating_add unat_saturating_sub unat_saturating_mul

lemma unat_lt_u32: "unat (x :: u32) < 2 ^ 32"
proof -
  have "unat x < 2 ^ LENGTH(32)" by (rule unsigned_less)
  then show ?thesis by simp
qed

lemma unat_lt_u64: "unat (x :: u64) < 2 ^ 64"
proof -
  have "unat x < 2 ^ LENGTH(64)" by (rule unsigned_less)
  then show ?thesis by simp
qed

lemma unat_inc_less:
  fixes a b :: "'a::len word"
  assumes "a < b"
  shows "unat (a + 1) = Suc (unat a)"
proof -
  have "unat b < 2 ^ LENGTH('a)" by (rule unsigned_less)
  with assms have "Suc (unat a) < 2 ^ LENGTH('a)" unfolding word_less_nat_alt by linarith
  then show ?thesis by (simp add: unat_word_ariths)
qed

subsection \<open>Decimal numbers\<close>

text \<open>
  \<open>to_string\<close> of an unsigned integer, and \<open>str::parse\<close> for an unsigned type with the given
  largest value: an optional plus sign, at least one digit, digits only, no overflow.
\<close>

definition digit_char :: "nat \<Rightarrow> char" where
  "digit_char d = char_of (48 + d)"

definition digit_val :: "char \<Rightarrow> nat option" where
  "digit_val c = (let k = of_char c :: nat in if 48 \<le> k \<and> k \<le> 57 then Some (k - 48) else None)"

fun show_nat :: "nat \<Rightarrow> string" where
  "show_nat n = (if n < 10 then [digit_char n] else show_nat (n div 10) @ [digit_char (n mod 10)])"

declare show_nat.simps [simp del]

fun parse_digits :: "nat \<Rightarrow> string \<Rightarrow> nat option" where
  "parse_digits acc [] = Some acc"
| "parse_digits acc (c # cs) =
     (case digit_val c of None \<Rightarrow> None | Some d \<Rightarrow> parse_digits (10 * acc + d) cs)"

definition parse_unsigned :: "nat \<Rightarrow> string \<Rightarrow> nat option" where
  "parse_unsigned bound s =
     (let body = (case s of c # cs \<Rightarrow> if c = CHR ''+'' then cs else s | [] \<Rightarrow> [])
      in if body = [] then None
         else case parse_digits 0 body of
                None \<Rightarrow> None
              | Some n \<Rightarrow> if n \<le> bound then Some n else None)"

lemma digit_val_digit_char [simp]: "d < 10 \<Longrightarrow> digit_val (digit_char d) = Some d"
  by (simp add: digit_val_def digit_char_def of_char_of)

lemma parse_digits_append:
  "parse_digits acc (xs @ ys) =
     (case parse_digits acc xs of None \<Rightarrow> None | Some n \<Rightarrow> parse_digits n ys)"
  by (induction acc xs rule: parse_digits.induct) (auto split: option.splits)

lemma parse_digits_show_nat: "parse_digits 0 (show_nat n) = Some n"
proof (induction n rule: show_nat.induct)
  case (1 n)
  show ?case
  proof (cases "n < 10")
    case True
    then show ?thesis by (simp add: show_nat.simps [of n])
  next
    case False
    with "1.IH" show ?thesis by (simp add: show_nat.simps [of n] parse_digits_append)
  qed
qed

lemma show_nat_nonempty [simp]: "show_nat n \<noteq> []"
  by (subst show_nat.simps) simp

lemma digit_char_not_plus: "d < 10 \<Longrightarrow> digit_char d \<noteq> CHR ''+''"
  by (auto simp: digit_char_def dest!: arg_cong [where f = "of_char :: char \<Rightarrow> nat"])

lemma hd_show_nat: "\<exists>d < 10. hd (show_nat n) = digit_char d"
proof (induction n rule: show_nat.induct)
  case (1 n)
  then show ?case by (cases "n < 10") (auto simp: show_nat.simps [of n])
qed

lemma parse_unsigned_show_nat:
  assumes "n \<le> bound"
  shows "parse_unsigned bound (show_nat n) = Some n"
proof -
  obtain c cs where s: "show_nat n = c # cs"
    by (cases "show_nat n") auto
  with hd_show_nat [of n] have "c \<noteq> CHR ''+''"
    by (auto dest: digit_char_not_plus)
  with s assms parse_digits_show_nat [of n] show ?thesis
    by (simp add: parse_unsigned_def)
qed

definition parse_u64 :: "string \<Rightarrow> u64 option" where
  "parse_u64 s = map_option of_nat (parse_unsigned (2 ^ 64 - 1) s)"

definition parse_u16 :: "string \<Rightarrow> u16 option" where
  "parse_u16 s = map_option of_nat (parse_unsigned (2 ^ 16 - 1) s)"

definition show_word :: "'a::len word \<Rightarrow> string" where
  "show_word w = show_nat (unat w)"

lemma parse_u64_show_word [simp]: "parse_u64 (show_word (v :: u64)) = Some v"
  using unat_lt_u64 [of v] by (simp add: parse_u64_def show_word_def parse_unsigned_show_nat)

lemma parse_u16_show_word [simp]: "parse_u16 (show_word (v :: u16)) = Some v"
proof -
  have "unat v < 2 ^ LENGTH(16)" by (rule unsigned_less)
  then show ?thesis by (simp add: parse_u16_def show_word_def parse_unsigned_show_nat)
qed

subsection \<open>Strings\<close>

text \<open>
  A \<open>String\<close> is its list of bytes. The functions of \<open>str\<close> that look at single characters are
  used by the code for ASCII characters only, which a byte list sees the same way; \<open>trim\<close>
  removes ASCII white space (the Unicode spaces beyond ASCII are not single bytes).
\<close>

definition is_ws :: "char \<Rightarrow> bool" where
  "is_ws c = (let k = of_char c :: nat in k = 32 \<or> (9 \<le> k \<and> k \<le> 13))"

definition trim_start :: "string \<Rightarrow> string" where
  "trim_start s = dropWhile is_ws s"

definition trim_end :: "string \<Rightarrow> string" where
  "trim_end s = rev (dropWhile is_ws (rev s))"

definition trim :: "string \<Rightarrow> string" where
  "trim s = trim_end (trim_start s)"

definition ascii_lower :: "string \<Rightarrow> string" where
  "ascii_lower s = map (\<lambda>c. let k = of_char c :: nat in if 65 \<le> k \<and> k \<le> 90 then char_of (k + 32) else c) s"

definition ascii_upper :: "string \<Rightarrow> string" where
  "ascii_upper s = map (\<lambda>c. let k = of_char c :: nat in if 97 \<le> k \<and> k \<le> 122 then char_of (k - 32) else c) s"

definition eq_ignore_ascii_case :: "string \<Rightarrow> string \<Rightarrow> bool" where
  "eq_ignore_ascii_case a b = (ascii_lower a = ascii_lower b)"

definition starts_with :: "string \<Rightarrow> string \<Rightarrow> bool" where
  "starts_with s pre = prefix pre s"

definition ends_with :: "string \<Rightarrow> string \<Rightarrow> bool" where
  "ends_with s suf = suffix suf s"

definition strip_prefix :: "string \<Rightarrow> string \<Rightarrow> string option" where
  "strip_prefix pre s = (if prefix pre s then Some (drop (length pre) s) else None)"

definition strip_suffix :: "string \<Rightarrow> string \<Rightarrow> string option" where
  "strip_suffix suf s = (if suffix suf s then Some (take (length s - length suf) s) else None)"

text \<open>\<open>str::split\<close> on a character: always at least one piece, empty pieces kept.\<close>

fun split_on :: "(char \<Rightarrow> bool) \<Rightarrow> string \<Rightarrow> string list" where
  "split_on p [] = [[]]"
| "split_on p (c # cs) =
     (if p c then [] # split_on p cs
      else case split_on p cs of [] \<Rightarrow> [[c]] | w # ws \<Rightarrow> (c # w) # ws)"

text \<open>\<open>split_once\<close> and \<open>rsplit_once\<close> on a character.\<close>

fun split_once :: "char \<Rightarrow> string \<Rightarrow> (string \<times> string) option" where
  "split_once d [] = None"
| "split_once d (c # cs) =
     (if c = d then Some ([], cs)
      else map_option (\<lambda>(a, b). (c # a, b)) (split_once d cs))"

definition rsplit_once :: "char \<Rightarrow> string \<Rightarrow> (string \<times> string) option" where
  "rsplit_once d s = map_option (\<lambda>(a, b). (rev b, rev a)) (split_once d (rev s))"

text \<open>\<open>split_once\<close> on a string, and \<open>contains\<close>.\<close>

fun split_seq :: "string \<Rightarrow> string \<Rightarrow> (string \<times> string) option" where
  "split_seq d [] = (if d = [] then Some ([], []) else None)"
| "split_seq d (c # cs) =
     (if prefix d (c # cs) then Some ([], drop (length d) (c # cs))
      else map_option (\<lambda>(a, b). (c # a, b)) (split_seq d cs))"

definition str_contains :: "string \<Rightarrow> string \<Rightarrow> bool" where
  "str_contains s d = (split_seq d s \<noteq> None)"

fun join :: "string \<Rightarrow> string list \<Rightarrow> string" where
  "join sep [] = []"
| "join sep [w] = w"
| "join sep (w # v # ws) = w @ sep @ join sep (v # ws)"

lemma ascii_lower_idem: "ascii_lower (ascii_lower s) = ascii_lower s"
  by (induction s) (simp_all add: ascii_lower_def Let_def)

lemma dropWhile_none: "\<forall>c \<in> set s. \<not> p c \<Longrightarrow> dropWhile p s = s"
  by (cases s) auto

lemma trim_id: "\<forall>c \<in> set s. \<not> is_ws c \<Longrightarrow> trim s = s"
  by (simp add: trim_def trim_start_def trim_end_def dropWhile_none)

lemma trim_idem: "trim (trim s) = trim s"
proof -
  let ?u = "dropWhile is_ws s"
  have idem: "dropWhile p (dropWhile p xs) = dropWhile p xs" for p and xs :: string by (induction xs) auto
  obtain w where w: "?u = trim s @ w"
    unfolding trim_def trim_start_def trim_end_def
    by (metis rev_append rev_rev_ident takeWhile_dropWhile_id)
  have "dropWhile is_ws (trim s) = trim s"
  proof (cases "trim s")
    case (Cons c t)
    then have "\<not> is_ws c" using w hd_dropWhile [of is_ws s] by (metis append_Cons list.distinct(1) list.sel(1))
    then show ?thesis using Cons by simp
  qed simp
  moreover have "dropWhile is_ws (rev (trim s)) = rev (trim s)"
    unfolding trim_def [of s] trim_end_def by (simp add: idem)
  ultimately show ?thesis unfolding trim_def [of "trim s"] trim_start_def trim_end_def by simp
qed

lemma not_is_ws_digit_char [simp]: "d < 10 \<Longrightarrow> \<not> is_ws (digit_char d)"
  by (simp add: is_ws_def digit_char_def of_char_of Let_def)

lemma set_show_nat: "c \<in> set (show_nat n) \<Longrightarrow> \<exists>d < 10. c = digit_char d"
proof (induction n rule: show_nat.induct)
  case (1 n)
  show ?case
  proof (cases "n < 10")
    case True
    with "1.prems" show ?thesis by (auto simp: show_nat.simps [of n])
  next
    case False
    with "1.prems" consider "c \<in> set (show_nat (n div 10))" | "c = digit_char (n mod 10)"
      by (auto simp: show_nat.simps [of n])
    then show ?thesis
    proof cases
      case 1
      then show ?thesis by (rule "1.IH" [OF False])
    next
      case 2
      then show ?thesis by (intro exI [of _ "n mod 10"]) simp
    qed
  qed
qed

lemma trim_show_word [simp]: "trim (show_word w) = show_word w"
  by (rule trim_id) (auto simp: show_word_def dest: set_show_nat)

lemma strip_prefix_Some: "strip_prefix pre s = Some r \<longleftrightarrow> s = pre @ r"
  by (auto simp: strip_prefix_def prefix_def)

lemma strip_prefix_append [simp]: "strip_prefix pre (pre @ r) = Some r"
  by (simp add: strip_prefix_Some)

lemma split_on_nonempty [simp]: "split_on p s \<noteq> []"
  by (induction s) (auto split: list.splits)

lemma split_on_append:
  assumes "p c"
  shows "split_on p (a @ c # b) = split_on p a @ split_on p b"
proof (induction a)
  case Nil
  with assms show ?case by simp
next
  case (Cons x a)
  then show ?case by (cases "split_on p a") (auto split: list.splits)
qed

lemma split_on_none: "\<forall>c \<in> set s. \<not> p c \<Longrightarrow> split_on p s = [s]"
  by (induction s) auto

lemma split_on_join:
  assumes "\<forall>w \<in> set ws. d \<notin> set w" and "ws \<noteq> []"
  shows "split_on (\<lambda>c. c = d) (join [d] ws) = ws"
  using assms
proof (induction ws)
  case Nil
  then show ?case by simp
next
  case (Cons w ws)
  then have w: "split_on (\<lambda>c. c = d) w = [w]" by (intro split_on_none) auto
  show ?case
  proof (cases ws)
    case Nil
    with w show ?thesis by simp
  next
    case (Cons v vs)
    with Cons.IH Cons.prems w show ?thesis by (simp add: split_on_append)
  qed
qed

lemma split_once_Some: "split_once d s = Some (a, b) \<longleftrightarrow> s = a @ d # b \<and> d \<notin> set a"
proof (induction s arbitrary: a)
  case Nil
  then show ?case by simp
next
  case (Cons c s)
  then show ?case by (cases a) auto
qed

lemma split_once_None: "split_once d s = None \<longleftrightarrow> d \<notin> set s"
  by (induction s) auto

lemma rsplit_once_Some: "rsplit_once d s = Some (a, b) \<longleftrightarrow> s = a @ d # b \<and> d \<notin> set b"
proof -
  have "rsplit_once d s = Some (a, b) \<longleftrightarrow> split_once d (rev s) = Some (rev b, rev a)"
    by (auto simp: rsplit_once_def)
  also have "\<dots> \<longleftrightarrow> s = a @ d # b \<and> d \<notin> set b"
    by (auto simp: split_once_Some rev_eq_append_conv)
  finally show ?thesis .
qed

subsection \<open>Hash maps\<close>

abbreviation hm_get :: "'v hashmap \<Rightarrow> string \<Rightarrow> 'v option" where
  "hm_get \<equiv> map_of"

abbreviation hm_insert :: "string \<Rightarrow> 'v \<Rightarrow> 'v hashmap \<Rightarrow> 'v hashmap" where
  "hm_insert \<equiv> AList.update"

abbreviation hm_remove :: "string \<Rightarrow> 'v hashmap \<Rightarrow> 'v hashmap" where
  "hm_remove \<equiv> AList.delete"

abbreviation hm_keys :: "'v hashmap \<Rightarrow> string list" where
  "hm_keys \<equiv> map fst"

definition hm_contains :: "'v hashmap \<Rightarrow> string \<Rightarrow> bool" where
  "hm_contains m k = (map_of m k \<noteq> None)"

lemma hm_contains_iff [simp]: "hm_contains m k \<longleftrightarrow> k \<in> fst ` set m"
  by (auto simp: hm_contains_def map_of_eq_None_iff)

lemma hm_get_insert: "hm_get (hm_insert k v m) k' = (if k' = k then Some v else hm_get m k')"
  by (simp add: update_conv)

lemma hm_get_remove: "hm_get (hm_remove k m) k' = (if k' = k then None else hm_get m k')"
  by (simp add: delete_conv)

lemma hm_keys_insert: "fst ` set (hm_insert k v m) = insert k (fst ` set m)"
  using dom_update [of k v m] by (simp add: dom_map_of_conv_image_fst)

lemma hm_keys_remove: "fst ` set (hm_remove k m) = fst ` set m - {k}"
  by (auto simp: AList.delete_eq)

lemma length_hm_insert_mem: "k \<in> fst ` set m \<Longrightarrow> length (hm_insert k v m) = length m"
  by (induction m) auto

lemma length_hm_insert_fresh: "k \<notin> fst ` set m \<Longrightarrow> length (hm_insert k v m) = Suc (length m)"
  by (induction m) auto

lemma length_hm_insert_le: "length (hm_insert k v m) \<le> Suc (length m)"
  by (induction m) auto

lemma length_hm_remove_le: "length (hm_remove k m) \<le> length m"
  by (simp add: AList.delete_eq)

lemma length_hm_remove_mem:
  "distinct (hm_keys m) \<Longrightarrow> k \<in> fst ` set m \<Longrightarrow> Suc (length (hm_remove k m)) = length m"
  by (induction m) (auto simp: AList.delete_idem)

lemmas hm_simps = hm_get_insert hm_get_remove hm_keys_insert hm_keys_remove

lemma hm_get_filter:
  assumes "distinct (hm_keys m)"
  shows "hm_get (filter (\<lambda>(k, v). P k v) m) x =
           (case hm_get m x of None \<Rightarrow> None | Some v \<Rightarrow> if P x v then Some v else None)"
  using assms
proof (induction m)
  case Nil
  then show ?case by simp
next
  case (Cons kv m)
  obtain k v where kv: "kv = (k, v)" by (cases kv)
  with Cons have "k \<notin> fst ` set m" by simp
  then have "hm_get m k = None" by (simp add: map_of_eq_None_iff)
  with Cons kv show ?case by auto
qed

subsection \<open>Lists\<close>

lemma find_append: "find P (xs @ ys) = (case find P xs of Some x \<Rightarrow> Some x | None \<Rightarrow> find P ys)"
  by (induction xs) auto

end
