(* ===== verification/Float64.thy ===== *)
theory Float64
  imports KrabPrelude Complex_Main "HOL-Library.Log_Nat"
begin

text \<open>
  A finite double is a rational; \<open>f64_round\<close> rounds a positive rational in the normal range to
  53 significant bits, ties to even. The code divides and compares integers below \<open>2 ^ 64\<close>, so
  neither overflow nor subnormal results occur.
\<close>

datatype f64 = Finite rat | PosInfinity | NegInfinity | NaN

definition round_half_even :: "rat \<Rightarrow> int" where
  "round_half_even q =
     (let f = \<lfloor>q\<rfloor>; r = q - of_int f
      in if r < 1 / 2 then f else if 1 / 2 < r then f + 1 else if even f then f else f + 1)"

definition pow2 :: "int \<Rightarrow> rat" where
  "pow2 e = (if 0 \<le> e then 2 ^ nat e else 1 / 2 ^ nat (- e))"

definition f64_round :: "rat \<Rightarrow> rat" where
  "f64_round q =
     (if q \<le> 0 then 0
      else let (a, b) = quotient_of q;
               e0 = int (floorlog 2 (nat a)) - int (floorlog 2 (nat b));
               e = (if q < pow2 e0 then e0 - 1 else e0);
               ulp = pow2 (e - 52)
           in of_int (round_half_even (q / ulp)) * ulp)"

definition f64_of_u64 :: "nat \<Rightarrow> rat" where
  "f64_of_u64 n = f64_round (of_nat n)"

definition f64_div :: "rat \<Rightarrow> rat \<Rightarrow> rat" where
  "f64_div a b = f64_round (a / b)"

text \<open>\<open>x >= y\<close> for a finite left operand; every comparison with NaN is false.\<close>

fun f64_ge :: "rat \<Rightarrow> f64 \<Rightarrow> bool" where
  "f64_ge x (Finite y) = (y \<le> x)"
| "f64_ge x PosInfinity = False"
| "f64_ge x NegInfinity = True"
| "f64_ge x NaN = False"


text \<open>Integers up to 53 bits convert exactly.\<close>

lemma round_half_even_of_int [simp]: "round_half_even (of_int k) = k"
  by (simp add: round_half_even_def Let_def)

lemma pow2_neg: "0 \<le> k \<Longrightarrow> pow2 (- k) = 1 / 2 ^ nat k"
  by (cases "k = 0") (simp_all add: pow2_def)

lemma quotient_of_of_nat [simp]: "quotient_of (of_nat n) = (int n, 1)"
  by (simp add: of_nat_rat quotient_of_Fract normalize_def)

lemma f64_of_u64_exact:
  assumes "n < 2 ^ 53"
  shows "f64_of_u64 n = of_nat n"
proof (cases "n = 0")
  case True
  then show ?thesis by (simp add: f64_of_u64_def f64_round_def)
next
  case False
  have "floorlog 2 n \<le> 53"
    using assms by (intro floorlog_leI) simp_all
  moreover define e0 where "e0 = int (floorlog 2 n) - int (floorlog 2 (nat 1))"
  moreover define e where "e = (if (of_nat n :: rat) < pow2 e0 then e0 - 1 else e0)"
  ultimately have e: "0 \<le> 52 - e" by (simp add: floorlog_def)
  have ulp: "pow2 (e - 52) = 1 / 2 ^ nat (52 - e)"
    using pow2_neg [OF e] by simp
  have "(of_nat n :: rat) / pow2 (e - 52) = of_int (int n * 2 ^ nat (52 - e))"
    by (simp add: ulp)
  then have "round_half_even ((of_nat n :: rat) / pow2 (e - 52)) = int n * 2 ^ nat (52 - e)"
    by (simp only: round_half_even_of_int)
  then have "of_int (round_half_even ((of_nat n :: rat) / pow2 (e - 52))) * pow2 (e - 52) = of_nat n"
    by (simp add: ulp)
  moreover have "\<not> (of_nat n :: rat) \<le> 0" using False by simp
  ultimately show ?thesis
    unfolding f64_of_u64_def f64_round_def quotient_of_of_nat Let_def prod.case nat_int
      e0_def [symmetric] e_def [symmetric] by simp
qed

end
