(* ===== verification/CircuitBreaker.thy ===== *)
theory CircuitBreaker
  imports Float64
begin

text \<open>
  The circuit breaker of \<open>krab_core/src/resilience.rs\<close>: the two trip policies, the ring buffer
  of per-second samples behind the failure-rate policy, and the three-state machine with its
  cooldown and probe budget. Every read of the clock is an argument. \<open>SharedCircuitBreaker\<close>
  runs each operation under one mutex, so a use of it by several tasks is a sequence of the
  operations; \<open>cb_run\<close> is that sequence.

  The lemmas show the ring buffer to count exactly the samples of the window, the machine to
  keep its well-formedness invariant, and what each state admits and refuses.
\<close>

subsection \<open>State\<close>

datatype circuit_state = Closed | Open | HalfOpen

datatype trip_policy =
    ConsecutiveFailures (failure_threshold: u32)
  | FailureRate (failure_rate_threshold: f64) (policy_window_secs: u32) (min_samples: u32)

record circuit_breaker_config =
  cfg_open_cooldown :: duration
  cfg_half_open_max_probes :: u32
  cfg_trip_policy :: trip_policy

definition default_config :: circuit_breaker_config where
  "default_config = \<lparr>cfg_open_cooldown = from_secs 30, cfg_half_open_max_probes = 1,
     cfg_trip_policy = ConsecutiveFailures 5\<rparr>"

record rate_bucket =
  second :: nat
  successes :: u32
  failures :: u32

record rate_window =
  epoch :: "instant option"
  buckets :: "rate_bucket list"
  window_secs :: nat

record circuit_breaker =
  open_cooldown :: duration
  half_open_max_probes :: u32
  cb_policy :: trip_policy
  cb_state :: circuit_state
  consecutive_failures :: u32
  opened_at :: "instant option"
  half_open_probes :: u32
  window :: "rate_window option"

subsection \<open>The ring buffer\<close>

definition bucket_default :: rate_bucket where
  "bucket_default = \<lparr>second = 0, successes = 0, failures = 0\<rparr>"

definition window_new :: "u32 \<Rightarrow> rate_window" where
  "window_new w = (let n = unat (max w 1)
     in \<lparr>epoch = None, buckets = replicate n bucket_default, window_secs = n\<rparr>)"

definition current_second :: "rate_window \<Rightarrow> instant \<Rightarrow> nat \<times> rate_window" where
  "current_second w now =
     (let e = (case epoch w of Some e \<Rightarrow> e | None \<Rightarrow> now)
      in (as_secs (saturating_duration_since now e), w\<lparr>epoch := Some e\<rparr>))"

definition bump_bucket :: "rate_bucket \<Rightarrow> nat \<Rightarrow> bool \<Rightarrow> rate_bucket" where
  "bump_bucket b s success =
     (let b' = (if second b \<noteq> s then \<lparr>second = s, successes = 0, failures = 0\<rparr> else b)
      in if success then b'\<lparr>successes := saturating_add (successes b') 1\<rparr>
         else b'\<lparr>failures := saturating_add (failures b') 1\<rparr>)"

definition window_record :: "rate_window \<Rightarrow> instant \<Rightarrow> bool \<Rightarrow> rate_window" where
  "window_record w now success =
     (let (s, w') = current_second w now; index = s mod window_secs w'
      in w'\<lparr>buckets := (buckets w')[index := bump_bucket (buckets w' ! index) s success]\<rparr>)"

definition window_totals :: "rate_window \<Rightarrow> instant \<Rightarrow> (nat \<times> nat) \<times> rate_window" where
  "window_totals w now =
     (let (current, w') = current_second w now;
          oldest_valid = current - (window_secs w' - 1);
          live = filter (\<lambda>b. oldest_valid \<le> second b \<and> second b \<le> current) (buckets w')
      in ((sum_list (map (\<lambda>b. unat (successes b)) live),
           sum_list (map (\<lambda>b. unat (failures b)) live)), w'))"

definition window_reset :: "rate_window \<Rightarrow> rate_window" where
  "window_reset w = w\<lparr>buckets := map (\<lambda>_. bucket_default) (buckets w), epoch := None\<rparr>"

subsection \<open>The breaker\<close>

definition from_config :: "circuit_breaker_config \<Rightarrow> circuit_breaker" where
  "from_config c =
     \<lparr>open_cooldown = cfg_open_cooldown c, half_open_max_probes = cfg_half_open_max_probes c,
      cb_policy = cfg_trip_policy c, cb_state = Closed, consecutive_failures = 0,
      opened_at = None, half_open_probes = 0,
      window = (case cfg_trip_policy c of
                  FailureRate _ w _ \<Rightarrow> Some (window_new w)
                | ConsecutiveFailures _ \<Rightarrow> None)\<rparr>"

definition cb_new :: "u32 \<Rightarrow> duration \<Rightarrow> u32 \<Rightarrow> circuit_breaker" where
  "cb_new threshold cooldown probes =
     from_config \<lparr>cfg_open_cooldown = cooldown, cfg_half_open_max_probes = probes,
                  cfg_trip_policy = ConsecutiveFailures threshold\<rparr>"

definition allow_request :: "circuit_breaker \<Rightarrow> instant \<Rightarrow> bool \<times> circuit_breaker" where
  "allow_request cb now =
     (case cb_state cb of
        Closed \<Rightarrow> (True, cb)
      | Open \<Rightarrow>
          (case opened_at cb of
             Some t \<Rightarrow>
               if open_cooldown cb \<le> saturating_duration_since now t
               then (True, cb\<lparr>cb_state := HalfOpen, half_open_probes := 1\<rparr>)
               else (False, cb)
           | None \<Rightarrow> (False, cb))
      | HalfOpen \<Rightarrow>
          if half_open_probes cb < half_open_max_probes cb
          then (True, cb\<lparr>half_open_probes := half_open_probes cb + 1\<rparr>)
          else (False, cb))"

definition close_and_reset :: "circuit_breaker \<Rightarrow> circuit_breaker" where
  "close_and_reset cb =
     cb\<lparr>cb_state := Closed, consecutive_failures := 0, half_open_probes := 0, opened_at := None,
        window := map_option window_reset (window cb)\<rparr>"

definition record_success :: "circuit_breaker \<Rightarrow> instant \<Rightarrow> circuit_breaker" where
  "record_success cb now =
     (case cb_state cb of
        Closed \<Rightarrow> cb\<lparr>consecutive_failures := 0,
                     window := map_option (\<lambda>w. window_record w now True) (window cb)\<rparr>
      | _ \<Rightarrow> close_and_reset cb)"

definition trip_open :: "circuit_breaker \<Rightarrow> instant \<Rightarrow> circuit_breaker" where
  "trip_open cb now = cb\<lparr>cb_state := Open, opened_at := Some now, half_open_probes := 0\<rparr>"

definition should_trip :: "circuit_breaker \<Rightarrow> instant \<Rightarrow> bool \<times> circuit_breaker" where
  "should_trip cb now =
     (case cb_policy cb of
        ConsecutiveFailures threshold \<Rightarrow> (threshold \<le> consecutive_failures cb, cb)
      | FailureRate rate _ min_n \<Rightarrow>
          (case window cb of
             None \<Rightarrow> (False, cb)
           | Some w \<Rightarrow>
               let ((s, f), w') = window_totals w now; total = s + f; cb' = cb\<lparr>window := Some w'\<rparr>
               in if total < unat min_n \<or> total = 0 then (False, cb')
                  else (f64_ge (f64_div (f64_of_u64 f) (f64_of_u64 total)) rate, cb')))"

definition record_failure :: "circuit_breaker \<Rightarrow> instant \<Rightarrow> circuit_breaker" where
  "record_failure cb0 now =
     (let cb = cb0\<lparr>consecutive_failures := saturating_add (consecutive_failures cb0) 1\<rparr>
      in case cb_state cb of
           Closed \<Rightarrow>
             let cb1 = cb\<lparr>window := map_option (\<lambda>w. window_record w now False) (window cb)\<rparr>;
                 (trip, cb2) = should_trip cb1 now
             in if trip then trip_open cb2 now else cb2
         | HalfOpen \<Rightarrow> trip_open cb now
         | Open \<Rightarrow> cb)"

text \<open>One operation of the shared breaker under its lock, and a sequence of them.\<close>

datatype cb_op = Allow | Success | Failure

fun cb_step :: "circuit_breaker \<Rightarrow> instant \<times> cb_op \<Rightarrow> circuit_breaker" where
  "cb_step cb (now, Allow) = snd (allow_request cb now)"
| "cb_step cb (now, Success) = record_success cb now"
| "cb_step cb (now, Failure) = record_failure cb now"

fun cb_run :: "circuit_breaker \<Rightarrow> (instant \<times> cb_op) list \<Rightarrow> circuit_breaker" where
  "cb_run cb [] = cb"
| "cb_run cb (e # es) = cb_run (cb_step cb e) es"

lemma cb_run_append: "cb_run cb (es @ fs) = cb_run (cb_run cb es) fs"
  by (induction cb es rule: cb_run.induct) auto


subsection \<open>The ring buffer counts the samples of the window\<close>

text \<open>
  A history is the list of \<open>(second, success)\<close> samples recorded so far, seconds counted from the
  epoch. \<open>ring_rel n hist bs\<close> relates it to the \<open>n\<close> buckets: a bucket whose second belongs to
  its slot holds the counts of that second, and no sample of the slot is later than it.
\<close>

definition sample_count :: "(nat \<times> bool) list \<Rightarrow> nat \<Rightarrow> bool \<Rightarrow> nat" where
  "sample_count hist s b = length (filter (\<lambda>x. x = (s, b)) hist)"

definition bucket_count :: "rate_bucket \<Rightarrow> bool \<Rightarrow> nat" where
  "bucket_count k b = unat (if b then successes k else failures k)"

definition slot_rel :: "nat \<Rightarrow> (nat \<times> bool) list \<Rightarrow> nat \<Rightarrow> rate_bucket \<Rightarrow> bool" where
  "slot_rel n hist i k \<longleftrightarrow>
     (\<forall>b. bucket_count k b = (if second k mod n = i then sample_count hist (second k) b else 0)) \<and>
     (\<forall>(s, b) \<in> set hist. s mod n = i \<longrightarrow> s \<le> second k \<and> second k mod n = i) \<and>
     (second k = 0 \<or> second k \<in> fst ` set hist)"

definition ring_rel :: "nat \<Rightarrow> (nat \<times> bool) list \<Rightarrow> rate_bucket list \<Rightarrow> bool" where
  "ring_rel n hist bs \<longleftrightarrow> 0 < n \<and> length bs = n \<and> (\<forall>i < n. slot_rel n hist i (bs ! i))"

lemma sample_count_le: "sample_count hist s b \<le> length hist"
  by (simp add: sample_count_def)

lemma sample_count_0: "(s, b) \<notin> set hist \<Longrightarrow> sample_count hist s b = 0"
  by (auto simp: sample_count_def filter_empty_conv)

lemma sample_count_snoc:
  "sample_count (hist @ [(s, b)]) s' b' = sample_count hist s' b' + (if (s, b) = (s', b') then 1 else 0)"
  unfolding sample_count_def by (cases "(s, b) = (s', b')") simp_all

lemma slot_rel_default: "slot_rel n [] i bucket_default"
  by (simp add: slot_rel_def bucket_count_def bucket_default_def sample_count_def)

lemma ring_rel_empty: "0 < n \<Longrightarrow> ring_rel n [] (replicate n bucket_default)"
  by (simp add: ring_rel_def slot_rel_default)

lemma slot_rel_second_le:
  assumes "slot_rel n hist i k" and "\<forall>x \<in> set hist. fst x \<le> s"
  shows "second k \<le> s"
  using assms by (auto simp: slot_rel_def)

lemma bucket_count_bump:
  assumes "bucket_count k b < 2 ^ 32 - 1"
  shows "bucket_count (bump_bucket k s success) b =
           (if second k = s then bucket_count k b else 0) + (if b = success then 1 else 0)"
  using assms by (auto simp: bucket_count_def bump_bucket_def unat_saturating_add)

lemma second_bump [simp]: "second (bump_bucket k s success) = s"
  by (simp add: bump_bucket_def)

lemma slot_rel_bump:
  assumes k: "slot_rel n hist (s mod n) k"
    and late: "\<forall>x \<in> set hist. fst x \<le> s"
    and small: "length hist < 2 ^ 32 - 1"
  shows "slot_rel n (hist @ [(s, success)]) (s mod n) (bump_bucket k s success)"
proof -
  have none: "sample_count hist s b = 0" if "second k \<noteq> s" for b
  proof (rule sample_count_0)
    show "(s, b) \<notin> set hist"
      using k that slot_rel_second_le [OF k late] by (fastforce simp: slot_rel_def)
  qed
  have "bucket_count k b < 2 ^ 32 - 1" for b
    using k small sample_count_le [of hist "second k" b] by (auto simp: slot_rel_def)
  then have "bucket_count (bump_bucket k s success) b = sample_count (hist @ [(s, success)]) s b" for b
    using k none by (auto simp: bucket_count_bump sample_count_snoc slot_rel_def)
  with late show ?thesis by (force simp: slot_rel_def)
qed

lemma slot_rel_other:
  assumes "slot_rel n hist i k" and "s mod n \<noteq> i"
  shows "slot_rel n (hist @ [(s, success)]) i k"
  using assms by (force simp: slot_rel_def sample_count_snoc)

lemma ring_rel_record:
  assumes "ring_rel n hist bs" and "\<forall>x \<in> set hist. fst x \<le> s" and "length hist < 2 ^ 32 - 1"
  shows "ring_rel n (hist @ [(s, success)])
           (bs[s mod n := bump_bucket (bs ! (s mod n)) s success])"
  using assms slot_rel_bump slot_rel_other
  by (auto simp: ring_rel_def nth_list_update)


lemma mod_inj_on_window:
  assumes "s \<in> {cur - (n - 1)..cur}" and "s' \<in> {cur - (n - 1)..cur}"
    and "s mod n = s' mod n" and "0 < (n::nat)"
  shows "s = s'"
proof -
  have *: "a = b" if "a \<le> b" "b - a < n" "a mod n = b mod n" for a b :: nat
    using that mod_eq_dvd_iff_nat [of a b n] by (auto dest: dvd_imp_le)
  have d: "s' - s < n" "s - s' < n"
    using assms(1,2,4) unfolding atLeastAtMost_iff by arith+
  show ?thesis
  proof (cases "s \<le> s'")
    case True
    then show ?thesis using d(1) assms(3) by (rule *)
  next
    case False
    then have "s' \<le> s" by simp
    from * [OF this d(2) assms(3) [symmetric]] show ?thesis by simp
  qed
qed

lemma slot_contribution:
  assumes k: "slot_rel n hist i k" and n: "0 < n" and cur: "second k \<le> cur"
  defines "lo \<equiv> cur - (n - 1)"
  shows "(if lo \<le> second k then bucket_count k b else 0) =
           (\<Sum>s | s \<in> {lo..cur} \<and> s mod n = i. sample_count hist s b)" (is "_ = sum ?c ?S")
proof (cases "lo \<le> second k \<and> second k mod n = i")
  case True
  with cur have "?S = {second k}"
    using mod_inj_on_window [of _ cur n "second k"] n by (auto simp: lo_def)
  with True k show ?thesis by (simp add: slot_rel_def)
next
  case False
  have "?c s = 0" if "s \<in> ?S" for s
  proof (rule sample_count_0)
    show "(s, b) \<notin> set hist"
      using that False k by (auto simp: slot_rel_def)
  qed
  moreover have "(if lo \<le> second k then bucket_count k b else 0) = 0"
    using False k by (auto simp: slot_rel_def)
  ultimately show ?thesis by simp
qed

lemma sum_sample_count:
  "(\<Sum>s\<in>{lo..cur}. sample_count hist s b) =
     length (filter (\<lambda>(s, b'). lo \<le> s \<and> s \<le> cur \<and> b' = b) hist)"
proof (induction hist rule: rev_induct)
  case Nil
  then show ?case by (simp add: sample_count_def)
next
  case (snoc x hist)
  obtain s b' where x: "x = (s, b')" by (cases x)
  have "(\<Sum>t\<in>{lo..cur}. if (s, b') = (t, b) then 1 else 0) =
          (if lo \<le> s \<and> s \<le> cur \<and> b' = b then 1 else (0::nat))"
    by (cases "b' = b") auto
  with snoc show ?case by (simp add: x sample_count_snoc sum.distrib)
qed

lemma ring_total:
  assumes rel: "ring_rel n hist bs" and late: "\<forall>x \<in> set hist. fst x \<le> cur"
  shows "sum_list (map (\<lambda>k. bucket_count k b)
           (filter (\<lambda>k. cur - (n - 1) \<le> second k \<and> second k \<le> cur) bs)) =
         length (filter (\<lambda>(s, b'). cur - (n - 1) \<le> s \<and> s \<le> cur \<and> b' = b) hist)" (is "?l = _")
proof -
  let ?lo = "cur - (n - 1)" and ?c = "\<lambda>s. sample_count hist s b"
  from rel have n: "0 < n" and len: "length bs = n"
    by (auto simp: ring_rel_def)
  have slot: "slot_rel n hist i (bs ! i)" if "i < n" for i
    using rel that by (simp add: ring_rel_def)
  have sec: "second (bs ! i) \<le> cur" if "i < n" for i
    using slot_rel_second_le [OF slot [OF that] late] .
  have "?l = sum_list (map (\<lambda>k. if ?lo \<le> second k \<and> second k \<le> cur
                              then bucket_count k b else 0) bs)"
    by (rule sum_list_map_filter')
  also have "\<dots> = (\<Sum>i = 0..<n. if ?lo \<le> second (bs ! i) \<and> second (bs ! i) \<le> cur
                            then bucket_count (bs ! i) b else 0)"
    by (simp add: sum_list_sum_nth len)
  also have "\<dots> = (\<Sum>i = 0..<n. \<Sum>s | s \<in> {?lo..cur} \<and> s mod n = i. ?c s)"
  proof (rule sum.cong)
    fix i assume "i \<in> {0..<n}"
    then have i: "i < n" by simp
    show "(if ?lo \<le> second (bs ! i) \<and> second (bs ! i) \<le> cur then bucket_count (bs ! i) b else 0) =
            (\<Sum>s | s \<in> {?lo..cur} \<and> s mod n = i. ?c s)"
      using slot_contribution [OF slot [OF i] n sec [OF i]] sec [OF i] by simp
  qed simp
  also have "\<dots> = sum ?c {?lo..cur}"
    using n by (intro sum.group) auto
  finally show ?thesis by (simp add: sum_sample_count)
qed


text \<open>
  The window after a list of timed samples, and the abstract count: the samples of the last
  \<open>n\<close> seconds, seconds counted from the first sample.
\<close>

definition window_after :: "rate_window \<Rightarrow> (instant \<times> bool) list \<Rightarrow> rate_window" where
  "window_after w es = fold (\<lambda>(t, b) w. window_record w t b) es w"

definition window_epoch :: "(instant \<times> bool) list \<Rightarrow> instant \<Rightarrow> instant" where
  "window_epoch es now = (case es of [] \<Rightarrow> now | e # _ \<Rightarrow> fst e)"

definition samples_in_window :: "nat \<Rightarrow> (instant \<times> bool) list \<Rightarrow> instant \<Rightarrow> bool \<Rightarrow> nat" where
  "samples_in_window n es now b =
     (let t0 = window_epoch es now; sec = (\<lambda>t. as_secs (t - t0))
      in length (filter (\<lambda>(t, b'). b' = b \<and> sec now - (n - 1) \<le> sec t) es))"

definition window_rel :: "nat \<Rightarrow> (instant \<times> bool) list \<Rightarrow> rate_window \<Rightarrow> bool" where
  "window_rel n es w \<longleftrightarrow>
     window_secs w = n \<and> epoch w = (case es of [] \<Rightarrow> None | e # _ \<Rightarrow> Some (fst e)) \<and>
     ring_rel n (map (\<lambda>(t, b). (as_secs (t - window_epoch es 0), b)) es) (buckets w)"

lemma window_after_snoc:
  "window_after w (es @ [(t, b)]) = window_record (window_after w es) t b"
  by (simp add: window_after_def)

lemma window_epoch_snoc [simp]: "window_epoch (es @ [e]) 0 = window_epoch es (fst e)"
  by (cases es) (simp_all add: window_epoch_def)

lemma window_epoch_nonempty: "es \<noteq> [] \<Longrightarrow> window_epoch es a = window_epoch es b"
  by (cases es) (simp_all add: window_epoch_def)

lemma window_rel_new: "window_rel (unat (max ws 1)) [] (window_new ws)"
proof -
  have "max ws 1 \<noteq> 0" by (simp add: max_def) (use word_gt_0 in fastforce)
  then have "0 < unat (max ws 1)" by (simp add: unat_gt_0 del: max_less_iff_conj)
  then show ?thesis by (simp add: window_rel_def window_new_def ring_rel_empty Let_def)
qed

lemma window_rel_record:
  assumes rel: "window_rel n es w" and late: "\<forall>x \<in> set es. fst x \<le> t"
    and small: "length es < 2 ^ 32 - 1"
  shows "window_rel n (es @ [(t, b)]) (window_record w t b)"
proof -
  let ?t0 = "window_epoch es t"
  let ?hist = "map (\<lambda>(t, b). (as_secs (t - ?t0), b)) es"
  have "ring_rel n ?hist (buckets w)"
    using rel window_epoch_nonempty [of es 0 t] by (cases "es = []") (auto simp: window_rel_def)
  moreover have "\<forall>x \<in> set ?hist. fst x \<le> as_secs (t - ?t0)"
    using late by (auto intro!: as_secs_mono diff_le_mono)
  ultimately have "ring_rel n (?hist @ [(as_secs (t - ?t0), b)])
      ((buckets w)[as_secs (t - ?t0) mod n :=
         bump_bucket (buckets w ! (as_secs (t - ?t0) mod n)) (as_secs (t - ?t0)) b])"
    using small by (intro ring_rel_record) simp_all
  moreover have "epoch w = (case es of [] \<Rightarrow> None | e # _ \<Rightarrow> Some ?t0)" "window_secs w = n"
    using rel by (auto simp: window_rel_def window_epoch_def split: list.splits)
  ultimately show ?thesis
    by (cases es) (simp_all add: window_rel_def window_record_def current_second_def Let_def
                     saturating_duration_since_def window_epoch_def)
qed

lemma window_rel_after:
  assumes "sorted (map fst es)" and "length es < 2 ^ 32"
  shows "window_rel (unat (max ws 1)) es (window_after (window_new ws) es)"
  using assms
proof (induction es rule: rev_induct)
  case Nil
  show ?case by (simp add: window_after_def window_rel_new)
next
  case (snoc e es)
  obtain t b where e: "e = (t, b)" by (cases e)
  from snoc.prems e have "\<forall>x \<in> set es. fst x \<le> t" and "length es < 2 ^ 32 - 1" and "sorted (map fst es)"
    by (auto simp: sorted_append)
  with snoc.IH show ?case
    unfolding e window_after_snoc by (intro window_rel_record) auto
qed

lemma window_totals_count:
  assumes rel: "window_rel n es w" and late: "\<forall>x \<in> set es. fst x \<le> now"
  shows "fst (window_totals w now) = (samples_in_window n es now True, samples_in_window n es now False)"
proof -
  let ?t0 = "window_epoch es now"
  let ?hist = "map (\<lambda>(t, b). (as_secs (t - ?t0), b)) es" and ?cur = "as_secs (now - ?t0)"
  have ring: "ring_rel n ?hist (buckets w)"
    using rel window_epoch_nonempty [of es 0 now] by (cases "es = []") (auto simp: window_rel_def)
  have late': "\<forall>x \<in> set ?hist. fst x \<le> ?cur"
    using late by (auto intro!: as_secs_mono diff_le_mono)
  have cnt: "length (filter (\<lambda>(s, b'). ?cur - (n - 1) \<le> s \<and> s \<le> ?cur \<and> b' = b) ?hist) =
          samples_in_window n es now b" for b
    using late by (auto simp: samples_in_window_def Let_def filter_map o_def split_def
                    intro!: arg_cong [where f = length] filter_cong as_secs_mono diff_le_mono)
  have "sum_list (map (\<lambda>k. unat (successes k))
           (filter (\<lambda>k. ?cur - (n - 1) \<le> second k \<and> second k \<le> ?cur) (buckets w))) =
          samples_in_window n es now True"
    using ring_total [OF ring late', of True] unfolding cnt by (simp add: bucket_count_def)
  moreover have "sum_list (map (\<lambda>k. unat (failures k))
           (filter (\<lambda>k. ?cur - (n - 1) \<le> second k \<and> second k \<le> ?cur) (buckets w))) =
          samples_in_window n es now False"
    using ring_total [OF ring late', of False] unfolding cnt by (simp add: bucket_count_def)
  moreover have "current_second w now = (?cur, w\<lparr>epoch := Some ?t0\<rparr>)" "window_secs w = n"
    using rel by (auto simp: window_rel_def current_second_def saturating_duration_since_def
                    window_epoch_def Let_def split: list.splits)
  ultimately show ?thesis by (simp add: window_totals_def Let_def)
qed


subsection \<open>The state machine\<close>

definition window_ok :: "u32 \<Rightarrow> rate_window \<Rightarrow> bool" where
  "window_ok ws w \<longleftrightarrow> window_secs w = unat (max ws 1) \<and> length (buckets w) = window_secs w"

definition cb_inv :: "circuit_breaker \<Rightarrow> bool" where
  "cb_inv cb \<longleftrightarrow>
     (case cb_state cb of
        Closed \<Rightarrow> opened_at cb = None \<and> half_open_probes cb = 0
      | Open \<Rightarrow> opened_at cb \<noteq> None \<and> half_open_probes cb = 0
      | HalfOpen \<Rightarrow> opened_at cb \<noteq> None \<and> 1 \<le> half_open_probes cb \<and>
                    half_open_probes cb \<le> max 1 (half_open_max_probes cb)) \<and>
     (case cb_policy cb of
        ConsecutiveFailures n \<Rightarrow> window cb = None \<and>
          (cb_state cb = Closed \<longrightarrow> consecutive_failures cb = 0 \<or> consecutive_failures cb < n)
      | FailureRate _ ws _ \<Rightarrow> \<exists>w. window cb = Some w \<and> window_ok ws w)"

lemma window_ok_record [simp]: "window_ok ws (window_record w t b) = window_ok ws w"
  by (simp add: window_ok_def window_record_def current_second_def Let_def)

lemma window_ok_reset [simp]: "window_ok ws (window_reset w) = window_ok ws w"
  by (simp add: window_ok_def window_reset_def)

lemma window_ok_totals [simp]: "window_ok ws (snd (window_totals w t)) = window_ok ws w"
  by (simp add: window_ok_def window_totals_def current_second_def Let_def)

lemma window_ok_totals_eq: "window_totals w t = (c, w') \<Longrightarrow> window_ok ws w' = window_ok ws w"
  using window_ok_totals [of ws w t] by simp

lemma window_ok_new [simp]: "window_ok ws (window_new ws)"
  by (simp add: window_ok_def window_new_def Let_def)

lemma probe_step: "p < m \<Longrightarrow> 1 \<le> p + 1 \<and> p + 1 \<le> max 1 m" for p m :: u32
proof -
  assume "p < m"
  then have p: "unat p < unat m" by (simp add: word_less_nat_alt)
  then have "unat (p + 1) = unat p + 1"
    using unat_lt_u32 [of m] by (simp add: unat_word_ariths)
  with p show ?thesis by (simp add: word_le_nat_alt le_max_iff_disj)
qed

lemmas cb_defs = allow_request_def record_success_def record_failure_def should_trip_def
  trip_open_def close_and_reset_def

lemma allow_request_inv [krab_inv]: "cb_inv cb \<Longrightarrow> cb_inv (snd (allow_request cb now))"
  using probe_step [of "half_open_probes cb" "half_open_max_probes cb"]
  by (auto simp: cb_inv_def allow_request_def split: circuit_state.splits option.splits
        trip_policy.splits)

lemma record_success_inv [krab_inv]: "cb_inv cb \<Longrightarrow> cb_inv (record_success cb now)"
  by (auto simp: cb_inv_def record_success_def close_and_reset_def
        split: circuit_state.splits trip_policy.splits)

lemma should_trip_frame:
  assumes "should_trip cb now = (trip, cb')"
  shows "cb_state cb' = cb_state cb" and "cb_policy cb' = cb_policy cb"
    and "consecutive_failures cb' = consecutive_failures cb"
    and "half_open_probes cb' = half_open_probes cb" and "opened_at cb' = opened_at cb"
    and "half_open_max_probes cb' = half_open_max_probes cb"
    and "open_cooldown cb' = open_cooldown cb"
    and "window cb' = (case cb_policy cb of ConsecutiveFailures _ \<Rightarrow> window cb
           | FailureRate _ _ _ \<Rightarrow> map_option (\<lambda>w. snd (window_totals w now)) (window cb))"
  using assms
  by (auto simp: should_trip_def Let_def split: trip_policy.splits option.splits prod.splits if_splits)

lemma record_failure_inv [krab_inv]: "cb_inv cb \<Longrightarrow> cb_inv (record_failure cb now)"
  by (auto simp: cb_inv_def record_failure_def trip_open_def Let_def should_trip_def
          window_ok_totals_eq
        split: circuit_state.splits trip_policy.splits prod.splits option.splits if_splits)

lemma cb_step_inv [krab_inv]: "cb_inv cb \<Longrightarrow> cb_inv (cb_step cb e)"
  by (induction cb e rule: cb_step.induct) (auto intro: krab_inv)

lemma from_config_inv: "cb_inv (from_config c)"
  by (simp add: cb_inv_def from_config_def split: trip_policy.splits)

lemma cb_run_keeps_inv: "cb_inv cb \<Longrightarrow> cb_inv (cb_run cb es)"
  by (induction cb es rule: cb_run.induct) (auto intro: krab_inv)


subsection \<open>What the breaker guarantees\<close>

text \<open>The admissions a sequence of operations returns, one per \<open>Allow\<close>.\<close>

fun cb_admissions :: "circuit_breaker \<Rightarrow> (instant \<times> cb_op) list \<Rightarrow> bool list" where
  "cb_admissions cb [] = []"
| "cb_admissions cb ((now, Allow) # es) =
     fst (allow_request cb now) # cb_admissions (cb_step cb (now, Allow)) es"
| "cb_admissions cb ((now, Success) # es) = cb_admissions (cb_step cb (now, Success)) es"
| "cb_admissions cb ((now, Failure) # es) = cb_admissions (cb_step cb (now, Failure)) es"

definition trailing_failures :: "bool list \<Rightarrow> nat" where
  "trailing_failures bs = length (takeWhile Not (rev bs))"

definition outcome_ops :: "(instant \<times> bool) list \<Rightarrow> (instant \<times> cb_op) list" where
  "outcome_ops es = map (\<lambda>(t, b). (t, if b then Success else Failure)) es"

lemma trailing_failures_simps [simp]:
  "trailing_failures [] = 0"
  "trailing_failures (bs @ [True]) = 0"
  "trailing_failures (bs @ [False]) = Suc (trailing_failures bs)"
  by (simp_all add: trailing_failures_def)

lemma outcome_ops_snoc:
  "outcome_ops (es @ [(t, b)]) = outcome_ops es @ [(t, if b then Success else Failure)]"
  by (simp add: outcome_ops_def)

lemma consecutive_step:
  assumes "cb_policy cb = ConsecutiveFailures n" and "cb_state cb \<noteq> HalfOpen"
  shows "cb_policy (record_failure cb t) = ConsecutiveFailures n"
    and "consecutive_failures (record_failure cb t) = saturating_add (consecutive_failures cb) 1"
    and "cb_state (record_failure cb t) =
           (if cb_state cb = Open \<or> n \<le> saturating_add (consecutive_failures cb) 1 then Open else Closed)"
    and "cb_policy (record_success cb t) = ConsecutiveFailures n"
    and "consecutive_failures (record_success cb t) = 0"
    and "cb_state (record_success cb t) = Closed"
  using assms by (auto simp: cb_defs Let_def split: circuit_state.splits)

lemma consecutive_run:
  fixes n :: u32 and cooldown :: duration and probes :: u32
  assumes "0 < n"
  defines "cb \<equiv> \<lambda>es. cb_run (cb_new n cooldown probes) (outcome_ops es)"
  shows "cb_policy (cb es) = ConsecutiveFailures n \<and>
    unat (consecutive_failures (cb es)) = min (trailing_failures (map snd es)) (2 ^ 32 - 1) \<and>
    cb_state (cb es) = (if unat n \<le> trailing_failures (map snd es) then Open else Closed)"
proof (induction es rule: rev_induct)
  case Nil
  from assms(1) have "0 < unat n" by (simp add: unat_gt_0 word_gt_0)
  then show ?case by (simp add: cb_def outcome_ops_def cb_new_def from_config_def)
next
  case (snoc e es)
  obtain t b where e: "e = (t, b)" by (cases e)
  have step: "cb (es @ [e]) = (if b then record_success (cb es) t else record_failure (cb es) t)"
    by (simp add: cb_def e outcome_ops_snoc cb_run_append)
  have "0 < unat n" and "unat n < 2 ^ 32"
    using assms(1) unat_lt_u32 [of n] by (simp_all add: unat_gt_0 word_gt_0)
  with snoc.IH show ?case
    unfolding step using consecutive_step [of "cb es" n t]
    by (cases b) (auto simp: e word_le_nat_alt unat_saturating_add split: if_splits)
qed

text \<open>
  for a consecutive-failure breaker with a positive threshold, any history of outcomes leaves
  the circuit open exactly when the failures since the last success are at least the threshold.
\<close>

theorem consecutive_failures_trip_exactly:
  assumes "0 < threshold"
  shows "cb_state (cb_run (cb_new threshold cooldown probes) (outcome_ops es)) =
           (if unat threshold \<le> trailing_failures (map snd es) then Open else Closed)"
  using consecutive_run [OF assms] by blast

theorem consecutive_failures_trip_exactly_witness:
  "cb_state (cb_run (cb_new 2 10 1) (outcome_ops [(0, False), (1, True), (2, False), (3, False)])) = Open"
  using consecutive_failures_trip_exactly
    [of 2 10 1 "[(0, False), (1, True), (2, False), (3, False)]"]
  by (simp add: trailing_failures_def)

definition rate_trips :: "f64 \<Rightarrow> u32 \<Rightarrow> nat \<Rightarrow> nat \<Rightarrow> bool" where
  "rate_trips rate min_n s f \<longleftrightarrow>
     unat min_n \<le> s + f \<and> f64_ge (f64_div (f64_of_u64 f) (f64_of_u64 (s + f))) rate"

text \<open>
  C1: the failure-rate breaker. From a closed breaker whose window holds the samples \<open>es\<close>, a
  failure at \<open>now\<close> opens the circuit exactly when the window has at least
  \<open>min_samples\<close> samples and the rounded quotient of failures by samples, counted over the last
  \<open>window_secs\<close> seconds with the new failure included, reaches the threshold.
\<close>

theorem failure_rate_trips_exactly:
  assumes "cb_policy cb = FailureRate rate ws min_n" and "cb_state cb = Closed"
    and "window cb = Some (window_after (window_new ws) es)"
    and "sorted (map fst es @ [now])" and "length es < 2 ^ 32 - 1"
  defines "n \<equiv> unat (max ws 1)" and "es' \<equiv> es @ [(now, False)]"
  shows "cb_state (record_failure cb now) =
           (if rate_trips rate min_n (samples_in_window n es' now True) (samples_in_window n es' now False)
            then Open else Closed)"
proof -
  let ?w = "window_after (window_new ws) es'"
  from assms have "window_rel n es' ?w"
    by (simp add: n_def) (rule window_rel_after, auto simp: sorted_append)
  moreover from assms have late: "\<forall>x \<in> set es'. fst x \<le> now"
    by (auto simp: sorted_append)
  ultimately obtain w' where tot: "window_totals ?w now =
      ((samples_in_window n es' now True, samples_in_window n es' now False), w')"
    using window_totals_count by (metis prod.collapse)
  have "0 < samples_in_window n es' now False"
    by (simp add: samples_in_window_def es'_def Let_def)
  with assms tot show ?thesis
    by (simp add: record_failure_def should_trip_def trip_open_def rate_trips_def Let_def
          window_after_snoc linorder_not_less [symmetric] split: if_splits)
qed


lemma rate_trips_half: "rate_trips (Finite (1 / 2)) 2 1 1"
  by code_simp

lemma not_rate_trips_third: "\<not> rate_trips (Finite (1 / 2)) 2 2 1"
  by code_simp

theorem failure_rate_trips_exactly_witness:
  "cb_state (record_failure (record_success (from_config
      \<lparr>cfg_open_cooldown = 5, cfg_half_open_max_probes = 1,
       cfg_trip_policy = FailureRate (Finite (1 / 2)) 10 2\<rparr>) 0) (from_secs 1)) = Open"
  (is "cb_state (record_failure ?cb _) = Open")
proof -
  have "cb_policy ?cb = FailureRate (Finite (1 / 2)) 10 2" "cb_state ?cb = Closed"
    "window ?cb = Some (window_after (window_new 10) [(0, True)])"
    by (simp_all add: record_success_def from_config_def window_after_def)
  then have "cb_state (record_failure ?cb (from_secs 1)) =
      (if rate_trips (Finite (1 / 2)) 2
            (samples_in_window (unat (max 10 (1 :: u32))) ([(0, True)] @ [(from_secs 1, False)]) (from_secs 1) True)
            (samples_in_window (unat (max 10 (1 :: u32))) ([(0, True)] @ [(from_secs 1, False)]) (from_secs 1) False)
       then Open else Closed)"
    by (rule failure_rate_trips_exactly) simp_all
  then show ?thesis
    using rate_trips_half
    by (simp add: samples_in_window_def window_epoch_def from_secs_def as_secs_def Let_def)
qed

lemma open_step:
  assumes "cb_state cb = Open" and "opened_at cb = Some t0" and "op \<noteq> Success"
    and "op = Allow \<longrightarrow> t - t0 < open_cooldown cb"
  shows "cb_state (cb_step cb (t, op)) = Open" and "opened_at (cb_step cb (t, op)) = Some t0"
    and "open_cooldown (cb_step cb (t, op)) = open_cooldown cb"
    and "op = Allow \<Longrightarrow> \<not> fst (allow_request cb t)"
  using assms
  by (cases op; simp add: allow_request_def record_failure_def saturating_duration_since_def Let_def)+

lemma open_run:
  assumes "cb_state cb = Open" and "opened_at cb = Some t0"
    and "\<forall>(t, op) \<in> set es. op \<noteq> Success \<and> (op = Allow \<longrightarrow> t - t0 < open_cooldown cb)"
  shows "cb_state (cb_run cb es) = Open \<and> opened_at (cb_run cb es) = Some t0 \<and>
         open_cooldown (cb_run cb es) = open_cooldown cb \<and> True \<notin> set (cb_admissions cb es)"
  using assms
proof (induction es arbitrary: cb)
  case Nil
  then show ?case by simp
next
  case (Cons e es)
  obtain t op where e: "e = (t, op)" by (cases e)
  from Cons.prems e have op: "op \<noteq> Success" "op = Allow \<longrightarrow> t - t0 < open_cooldown cb" by auto
  note st = open_step [OF Cons.prems(1,2) op]
  have "cb_state (cb_run (cb_step cb e) es) = Open \<and> opened_at (cb_run (cb_step cb e) es) = Some t0 \<and>
        open_cooldown (cb_run (cb_step cb e) es) = open_cooldown (cb_step cb e) \<and>
        True \<notin> set (cb_admissions (cb_step cb e) es)"
    using Cons.prems(3) st(1-3) by (intro Cons.IH) (auto simp: e)
  with st(3,4) show ?case by (cases op) (auto simp: e)
qed

text \<open>
  an open circuit admits nothing before its cooldown: whatever failures and requests arrive,
  every request made while less than \<open>open_cooldown\<close> has elapsed since \<open>opened_at\<close> is refused
  and the circuit stays open with the same opening time; and it is not stuck, because the next
  request is admitted as a probe as soon as the cooldown has elapsed.
\<close>

theorem open_refuses_until_cooldown:
  assumes "cb_state cb = Open" and "opened_at cb = Some t0"
    and "\<forall>(t, op) \<in> set es. op \<noteq> Success \<and> (op = Allow \<longrightarrow> t - t0 < open_cooldown cb)"
  shows "True \<notin> set (cb_admissions cb es) \<and> cb_state (cb_run cb es) = Open \<and>
         opened_at (cb_run cb es) = Some t0 \<and>
         fst (allow_request (cb_run cb es) now) = (open_cooldown cb \<le> now - t0)"
  using open_run [OF assms]
  by (auto simp: allow_request_def saturating_duration_since_def)

theorem open_refuses_until_cooldown_witness:
  "fst (allow_request (cb_run (record_failure (cb_new 1 10 1) 5) [(7, Allow), (9, Failure)]) 15)"
  using open_refuses_until_cooldown
    [of "record_failure (cb_new 1 10 1) 5" 5 "[(7, Allow), (9, Failure)]" 15]
  by (simp add: record_failure_def cb_new_def from_config_def should_trip_def trip_open_def
        saturating_add_def Let_def)

definition probes_left :: "circuit_breaker \<Rightarrow> nat" where
  "probes_left cb =
     (case cb_state cb of
        Closed \<Rightarrow> 0
      | Open \<Rightarrow> unat (max 1 (half_open_max_probes cb))
      | HalfOpen \<Rightarrow> unat (half_open_max_probes cb) - unat (half_open_probes cb))"

lemma allow_uses_a_probe:
  assumes "cb_state cb \<noteq> Closed"
  shows "cb_state (snd (allow_request cb t)) \<noteq> Closed \<and>
         half_open_max_probes (snd (allow_request cb t)) = half_open_max_probes cb \<and>
         (if fst (allow_request cb t) then 1 else 0) + probes_left (snd (allow_request cb t))
           \<le> probes_left cb"
proof -
  have "unat (p + 1) = unat p + 1" if "p < m" for p m :: u32
    using that unat_lt_u32 [of m] by (simp add: unat_word_ariths word_less_nat_alt)
  moreover have "unat (max 1 m) = max 1 (unat m)" for m :: u32
    by (simp add: max_def word_le_nat_alt)
  ultimately show ?thesis
    using assms by (auto simp: allow_request_def probes_left_def word_less_nat_alt
                      split: circuit_state.splits option.splits)
qed

lemma probes_admitted_le:
  assumes "cb_state cb \<noteq> Closed"
  shows "length (filter id (cb_admissions cb (map (\<lambda>t. (t, Allow)) ts))) \<le> probes_left cb"
  using assms
proof (induction ts arbitrary: cb)
  case Nil
  then show ?case by simp
next
  case (Cons t ts)
  from allow_uses_a_probe [OF Cons.prems, of t] Cons.IH [of "snd (allow_request cb t)"]
  show ?case by (auto split: if_splits)
qed

text \<open>
  the probe budget. From the moment a circuit is open and until an outcome is recorded,
  however many requests arrive and whenever they arrive, at most
  \<open>max 1 half_open_max_probes\<close> of them are admitted; with a budget of 0 one probe is still
  admitted, because the request that ends the cooldown is admitted without consulting it.
\<close>

theorem probe_budget:
  assumes "cb_state cb = Open"
  shows "length (filter id (cb_admissions cb (map (\<lambda>t. (t, Allow)) ts)))
           \<le> max 1 (unat (half_open_max_probes cb))"
  using probes_admitted_le [of cb ts] assms
  by (simp add: probes_left_def max_def word_le_nat_alt split: if_splits)

theorem probe_budget_witness:
  "length (filter id (cb_admissions (record_failure (cb_new 1 10 0) 5)
     (map (\<lambda>t. (t, Allow)) [7, 15, 15, 30]))) \<le> 1"
  using probe_budget [of "record_failure (cb_new 1 10 0) 5" "[7, 15, 15, 30]"]
  by (simp add: record_failure_def cb_new_def from_config_def should_trip_def trip_open_def
        saturating_add_def Let_def)

lemma zero_probe_budget_admits_one:
  "cb_admissions (record_failure (cb_new 1 10 0) 5) [(7, Allow), (15, Allow), (15, Allow)] =
     [False, True, False]"
  by (simp add: record_failure_def cb_new_def from_config_def should_trip_def trip_open_def
        allow_request_def saturating_duration_since_def saturating_add_def Let_def)

text \<open>
  every breaker, whatever its configuration and whatever sequence of operations is run on
  it, is well formed: the state, the opening time and the probe counter agree, the probe counter
  stays within its budget, the ring buffer has one bucket per second of the window, and a closed
  consecutive-failure breaker is below its threshold.
\<close>

theorem breaker_always_well_formed:
  "cb_inv (cb_run (from_config c) es)"
  by (intro cb_run_keeps_inv from_config_inv)

end
