(* ===== verification/KvStore.thy ===== *)
theory KvStore
  imports KrabPrelude
begin

text \<open>
  The \<open>DistributedStore\<close> trait of \<open>krab_core/src/store.rs\<close> as an interface. A trait object is a
  record of its operations over a state \<open>'st\<close>; a result is an error or a value. The locale
  \<open>distributed_store\<close> states what the trait documents, through \<open>look\<close>: the value a reader at a
  time finds under a key. A bounded store may drop other keys on a write; \<open>durable_store\<close> does
  not. The lemmas for the users of the trait, the fixed-window counters, are proved here once.

  Operations that write take the time of their own clock reading and the time they finish.
\<close>

datatype store_error = NotAnInteger | Unavailable

record 'st store_ops =
  op_get :: "'st \<Rightarrow> instant \<Rightarrow> string \<Rightarrow> (store_error + string option) \<times> 'st"
  op_set :: "'st \<Rightarrow> instant \<Rightarrow> instant \<Rightarrow> string \<Rightarrow> string \<Rightarrow> duration \<Rightarrow> (store_error + unit) \<times> 'st"
  op_incr :: "'st \<Rightarrow> instant \<Rightarrow> instant \<Rightarrow> string \<Rightarrow> u64 \<Rightarrow> (store_error + u64) \<times> 'st"
  op_expire :: "'st \<Rightarrow> instant \<Rightarrow> string \<Rightarrow> duration \<Rightarrow> (store_error + unit) \<times> 'st"
  op_delete :: "'st \<Rightarrow> string \<Rightarrow> (store_error + bool) \<times> 'st"
  op_keys_with_prefix :: "'st \<Rightarrow> instant \<Rightarrow> string \<Rightarrow> store_error + string list"
  op_set_if_absent ::
    "'st \<Rightarrow> instant \<Rightarrow> instant \<Rightarrow> string \<Rightarrow> string \<Rightarrow> duration \<Rightarrow> (store_error + bool) \<times> 'st"
  op_incr_with_ttl ::
    "'st \<Rightarrow> instant \<Rightarrow> instant \<Rightarrow> string \<Rightarrow> u64 \<Rightarrow> duration \<Rightarrow> (store_error + u64) \<times> 'st"

text \<open>The default body of \<open>incr_with_ttl\<close>: two calls, with the clock read again by the second.\<close>

definition default_incr_with_ttl ::
  "'st store_ops \<Rightarrow> 'st \<Rightarrow> instant \<Rightarrow> instant \<Rightarrow> string \<Rightarrow> u64 \<Rightarrow> duration \<Rightarrow> (store_error + u64) \<times> 'st" where
  "default_incr_with_ttl ops st now ts key delta ttl =
     (case op_incr ops st now ts key delta of
        (Inl e, st1) \<Rightarrow> (Inl e, st1)
      | (Inr value, st1) \<Rightarrow>
          if value = delta then
            case op_expire ops st1 ts key ttl of
              (Inl e, st2) \<Rightarrow> (Inl e, st2)
            | (Inr _, st2) \<Rightarrow> (Inr value, st2)
          else (Inr value, st1))"

text \<open>Whether something written at \<open>now\<close> with this time to live is still there at \<open>t\<close>.\<close>

definition alive :: "instant \<Rightarrow> duration \<Rightarrow> instant \<Rightarrow> bool" where
  "alive now ttl t \<longleftrightarrow> ttl = 0 \<or> t < now + ttl"

subsection \<open>The contract\<close>

locale distributed_store =
  fixes ops :: "'st store_ops"
    and inv :: "'st \<Rightarrow> bool"
    and look :: "'st \<Rightarrow> instant \<Rightarrow> string \<Rightarrow> string option"
  assumes look_earlier: "look st t k = Some v \<Longrightarrow> t' \<le> t \<Longrightarrow> look st t' k = Some v"
    and get_result: "inv st \<Longrightarrow> fst (op_get ops st now k) = Inr (look st now k)"
    and get_look: "inv st \<Longrightarrow> now \<le> t \<Longrightarrow> look (snd (op_get ops st now k)) t k' = look st t k'"
    and get_inv: "inv st \<Longrightarrow> inv (snd (op_get ops st now k))"
    and set_result: "inv st \<Longrightarrow> fst (op_set ops st now ts k v ttl) = Inr ()"
    and set_look: "inv st \<Longrightarrow> ts \<le> t \<Longrightarrow>
      look (snd (op_set ops st now ts k v ttl)) t k = (if alive now ttl t then Some v else None)"
    and set_other: "inv st \<Longrightarrow> ts \<le> t \<Longrightarrow> k' \<noteq> k \<Longrightarrow>
      look (snd (op_set ops st now ts k v ttl)) t k' = look st t k' \<or> look (snd (op_set ops st now ts k v ttl)) t k' = None"
    and set_inv: "inv st \<Longrightarrow> inv (snd (op_set ops st now ts k v ttl))"
    and delete_result: "inv st \<Longrightarrow> \<exists>b. fst (op_delete ops st k) = Inr b \<and> (look st t k \<noteq> None \<longrightarrow> b)"
    and delete_look: "inv st \<Longrightarrow>
      look (snd (op_delete ops st k)) t k' = (if k' = k then None else look st t k')"
    and delete_inv: "inv st \<Longrightarrow> inv (snd (op_delete ops st k))"
    and keys_result: "inv st \<Longrightarrow> \<exists>ks. op_keys_with_prefix ops st now p = Inr ks \<and> distinct ks \<and>
      set ks = {k. prefix p k \<and> look st now k \<noteq> None}"
    and absent_result: "inv st \<Longrightarrow>
      fst (op_set_if_absent ops st now ts k v ttl) = Inr (look st now k = None)"
    and absent_lost: "inv st \<Longrightarrow> look st now k \<noteq> None \<Longrightarrow>
      snd (op_set_if_absent ops st now ts k v ttl) = st"
    and absent_look: "inv st \<Longrightarrow> look st now k = None \<Longrightarrow> ts \<le> t \<Longrightarrow>
      look (snd (op_set_if_absent ops st now ts k v ttl)) t k = (if alive now ttl t then Some v else None)"
    and absent_other: "inv st \<Longrightarrow> ts \<le> t \<Longrightarrow> k' \<noteq> k \<Longrightarrow>
      look (snd (op_set_if_absent ops st now ts k v ttl)) t k' = look st t k' \<or> look (snd (op_set_if_absent ops st now ts k v ttl)) t k' = None"
    and absent_inv: "inv st \<Longrightarrow> inv (snd (op_set_if_absent ops st now ts k v ttl))"
    and incr_new: "inv st \<Longrightarrow> look st now k = None \<Longrightarrow>
      fst (op_incr_with_ttl ops st now ts k d ttl) = Inr d"
    and incr_new_look: "inv st \<Longrightarrow> look st now k = None \<Longrightarrow> ts \<le> t \<Longrightarrow>
      look (snd (op_incr_with_ttl ops st now ts k d ttl)) t k =
        (if alive now ttl t then Some (show_word d) else None)"
    and incr_old: "inv st \<Longrightarrow> look st now k = Some v \<Longrightarrow> parse_u64 v = Some c \<Longrightarrow>
      fst (op_incr_with_ttl ops st now ts k d ttl) = Inr (saturating_add c d)"
    and incr_old_look: "inv st \<Longrightarrow> look st now k = Some v \<Longrightarrow> parse_u64 v = Some c \<Longrightarrow> ts \<le> t \<Longrightarrow>
      look (snd (op_incr_with_ttl ops st now ts k d ttl)) t k =
        map_option (\<lambda>_. show_word (saturating_add c d)) (look st t k)"
    and incr_not_a_number: "inv st \<Longrightarrow> look st now k = Some v \<Longrightarrow> parse_u64 v = None \<Longrightarrow>
      op_incr_with_ttl ops st now ts k d ttl = (Inl NotAnInteger, st)"
    and incr_other: "inv st \<Longrightarrow> ts \<le> t \<Longrightarrow> k' \<noteq> k \<Longrightarrow>
      look (snd (op_incr_with_ttl ops st now ts k d ttl)) t k' = look st t k' \<or> look (snd (op_incr_with_ttl ops st now ts k d ttl)) t k' = None"
    and incr_inv: "inv st \<Longrightarrow> inv (snd (op_incr_with_ttl ops st now ts k d ttl))"

text \<open>
  Fixed-window counters, for every client of the trait: the first increment of a missing key starts
  at the delta, each later one adds to it, and the count stands until the horizon of its time to
  live.
\<close>

context distributed_store
begin

lemma look_gone_later:
  assumes "look st now k = None" and "now \<le> t"
  shows "look st t k = None"
  using look_earlier [of st t k _ now] assms by (metis not_Some_eq)

lemma counter_starts:
  assumes "inv st" and "look st now k = None" and "ts \<le> h" and "alive now ttl h"
  shows "fst (op_incr_with_ttl ops st now ts k d ttl) = Inr d"
    and "look (snd (op_incr_with_ttl ops st now ts k d ttl)) h k = Some (show_word d)"
  using incr_new [OF assms(1,2)] incr_new_look [OF assms(1-3)] assms(4) by simp_all

lemma counter_counts:
  assumes "inv st" and "look st h k = Some (show_word c)" and "now \<le> h" and "ts \<le> h"
  shows "fst (op_incr_with_ttl ops st now ts k d ttl) = Inr (saturating_add c d)"
    and "look (snd (op_incr_with_ttl ops st now ts k d ttl)) h k = Some (show_word (saturating_add c d))"
proof -
  have l: "look st now k = Some (show_word c)" by (rule look_earlier [OF assms(2,3)])
  show "fst (op_incr_with_ttl ops st now ts k d ttl) = Inr (saturating_add c d)"
    by (rule incr_old [OF assms(1) l]) simp
  show "look (snd (op_incr_with_ttl ops st now ts k d ttl)) h k = Some (show_word (saturating_add c d))"
    using incr_old_look [OF assms(1) l _ assms(4), of c d] assms(2) by simp
qed

end

locale durable_store = distributed_store +
  assumes set_keeps: "inv st \<Longrightarrow> ts \<le> t \<Longrightarrow> k' \<noteq> k \<Longrightarrow>
      look (snd (op_set ops st now ts k v ttl)) t k' = look st t k'"
    and absent_keeps: "inv st \<Longrightarrow> ts \<le> t \<Longrightarrow> k' \<noteq> k \<Longrightarrow>
      look (snd (op_set_if_absent ops st now ts k v ttl)) t k' = look st t k'"
    and incr_keeps: "inv st \<Longrightarrow> ts \<le> t \<Longrightarrow> k' \<noteq> k \<Longrightarrow>
      look (snd (op_incr_with_ttl ops st now ts k d ttl)) t k' = look st t k'"

end
