(* ===== verification/MemStore.thy ===== *)
theory MemStore
  imports KvStore
begin

text \<open>
  The in-process key-value store of \<open>krab_core/src/store.rs\<close> (\<open>MemoryStore\<close>): the map of entries
  with optional expiry, the queue of insertion order behind the capacity cap, the periodic sweep
  and every operation of the \<open>DistributedStore\<close> trait.

  Each operation runs inside one write-lock section, except \<open>get\<close>, whose read section and
  reaping section are separate (\<open>get_read\<close> and \<open>get_reap\<close>): another task can run between them.
  An operation takes the clock reading \<open>now\<close> it makes itself and the reading \<open>ts\<close> the sweep
  makes at its end. Eviction reads the clock only for the label it logs.
\<close>

subsection \<open>State\<close>

record mem_entry =
  entry_value :: string
  expires_at :: "instant option"

record mem_store =
  entries :: "mem_entry hashmap"
  order :: "string list"
  writes_since_sweep :: nat
  evictions :: nat
  max_entries :: nat

definition is_expired :: "mem_entry \<Rightarrow> instant \<Rightarrow> bool" where
  "is_expired e now = (case expires_at e of Some ts \<Rightarrow> ts \<le> now | None \<Rightarrow> False)"

definition SWEEP_EVERY_N_WRITES :: nat where
  "SWEEP_EVERY_N_WRITES = 256"

definition DEFAULT_MAX_ENTRIES :: nat where
  "DEFAULT_MAX_ENTRIES = 100000"

text \<open>The cap, from the value of \<open>KRAB_MEMORY_STORE_MAX_ENTRIES\<close> if it is set.\<close>

definition default_max_entries :: "string option \<Rightarrow> nat" where
  "default_max_entries env =
     (case Option.bind env (\<lambda>raw. parse_unsigned (2 ^ 64 - 1) (trim raw)) of
        Some n \<Rightarrow> n | None \<Rightarrow> DEFAULT_MAX_ENTRIES)"

definition with_max_entries :: "nat \<Rightarrow> mem_store" where
  "with_max_entries n =
     \<lparr>entries = [], order = [], writes_since_sweep = 0, evictions = 0, max_entries = n\<rparr>"

subsection \<open>Sweep and eviction\<close>

text \<open>\<open>order.retain\<close>: drops ghosts and every slot after the first of a key.\<close>

fun compact_order :: "mem_entry hashmap \<Rightarrow> string list \<Rightarrow> string list \<Rightarrow> string list" where
  "compact_order ents seen [] = []"
| "compact_order ents seen (k # ks) =
     (if hm_contains ents k \<and> k \<notin> set seen then k # compact_order ents (k # seen) ks
      else compact_order ents seen ks)"

definition sweep_if_due :: "mem_store \<Rightarrow> instant \<Rightarrow> mem_store" where
  "sweep_if_due st now =
     (if writes_since_sweep st + 1 < SWEEP_EVERY_N_WRITES
      then st\<lparr>writes_since_sweep := writes_since_sweep st + 1\<rparr>
      else let live = filter (\<lambda>(k, e). \<not> is_expired e now) (entries st)
           in st\<lparr>writes_since_sweep := 0, entries := live, order := compact_order live [] (order st)\<rparr>)"

fun evict_loop :: "nat \<Rightarrow> mem_entry hashmap \<Rightarrow> string list \<Rightarrow> nat \<Rightarrow> mem_entry hashmap \<times> string list \<times> nat" where
  "evict_loop cap ents [] n = (ents, [], n)"
| "evict_loop cap ents (candidate # rest) n =
     (if length ents < cap then (ents, candidate # rest, n)
      else case hm_get ents candidate of
             None \<Rightarrow> evict_loop cap ents rest n
           | Some _ \<Rightarrow> evict_loop cap (hm_remove candidate ents) rest (n + 1))"

definition evict_for_capacity :: "mem_store \<Rightarrow> mem_store" where
  "evict_for_capacity st =
     (if max_entries st = 0 then st
      else let (ents, ord, n) = evict_loop (max_entries st) (entries st) (order st) (evictions st)
           in st\<lparr>entries := ents, order := ord, evictions := n\<rparr>)"

definition insert_entry :: "mem_store \<Rightarrow> string \<Rightarrow> mem_entry \<Rightarrow> mem_store" where
  "insert_entry st key e =
     (let st1 = (if hm_contains (entries st) key then st
                 else let st' = evict_for_capacity st in st'\<lparr>order := order st' @ [key]\<rparr>)
      in st1\<lparr>entries := hm_insert key e (entries st1)\<rparr>)"

subsection \<open>The operations of the trait\<close>

datatype read_result = Found string | Missing | NeedsReap

definition get_read :: "mem_store \<Rightarrow> instant \<Rightarrow> string \<Rightarrow> read_result" where
  "get_read st now key =
     (case hm_get (entries st) key of
        Some e \<Rightarrow> if is_expired e now then NeedsReap else Found (entry_value e)
      | None \<Rightarrow> Missing)"

definition get_reap :: "mem_store \<Rightarrow> string \<Rightarrow> mem_store" where
  "get_reap st key = st\<lparr>entries := hm_remove key (entries st)\<rparr>"

text \<open>\<open>get\<close> with no other task between its two sections.\<close>

definition mem_get :: "mem_store \<Rightarrow> instant \<Rightarrow> string \<Rightarrow> string option \<times> mem_store" where
  "mem_get st now key =
     (case get_read st now key of
        Found v \<Rightarrow> (Some v, st)
      | Missing \<Rightarrow> (None, st)
      | NeedsReap \<Rightarrow> (None, get_reap st key))"

definition deadline_of :: "instant \<Rightarrow> duration \<Rightarrow> instant option" where
  "deadline_of now ttl = (if ttl = 0 then None else Some (now + ttl))"

definition mem_set :: "mem_store \<Rightarrow> instant \<Rightarrow> instant \<Rightarrow> string \<Rightarrow> string \<Rightarrow> duration \<Rightarrow> mem_store" where
  "mem_set st now ts key value ttl =
     sweep_if_due (insert_entry st key \<lparr>entry_value = value, expires_at = deadline_of now ttl\<rparr>) ts"

definition mem_incr :: "mem_store \<Rightarrow> instant \<Rightarrow> instant \<Rightarrow> string \<Rightarrow> u64 \<Rightarrow> (store_error + u64) \<times> mem_store" where
  "mem_incr st now ts key delta =
     (let (current, st1) =
            (case hm_get (entries st) key of
               Some e \<Rightarrow> if is_expired e now then (Some 0, get_reap st key)
                         else (parse_u64 (entry_value e), st)
             | None \<Rightarrow> (Some 0, st))
      in case current of
           None \<Rightarrow> (Inl NotAnInteger, st)
         | Some c \<Rightarrow>
             let nxt = saturating_add c delta;
                 ttl = Option.bind (hm_get (entries st1) key) expires_at
             in (Inr nxt, sweep_if_due (insert_entry st1 key
                            \<lparr>entry_value = show_word nxt, expires_at = ttl\<rparr>) ts))"

definition mem_incr_with_ttl ::
  "mem_store \<Rightarrow> instant \<Rightarrow> instant \<Rightarrow> string \<Rightarrow> u64 \<Rightarrow> duration \<Rightarrow> (store_error + u64) \<times> mem_store" where
  "mem_incr_with_ttl st now ts key delta ttl =
     (let existing = (case hm_get (entries st) key of
                        Some e \<Rightarrow> if is_expired e now then None else Some e
                      | None \<Rightarrow> None);
          base = (case existing of
                    Some e \<Rightarrow> map_option (\<lambda>v. (v, expires_at e)) (parse_u64 (entry_value e))
                  | None \<Rightarrow> Some (0, deadline_of now ttl))
      in case base of
           None \<Rightarrow> (Inl NotAnInteger, st)
         | Some (current, deadline) \<Rightarrow>
             let nxt = saturating_add current delta
             in (Inr nxt, sweep_if_due (insert_entry st key
                            \<lparr>entry_value = show_word nxt, expires_at = deadline\<rparr>) ts))"

definition mem_expire :: "mem_store \<Rightarrow> instant \<Rightarrow> string \<Rightarrow> duration \<Rightarrow> mem_store" where
  "mem_expire st now key ttl =
     (case hm_get (entries st) key of
        Some e \<Rightarrow> st\<lparr>entries := hm_insert key (e\<lparr>expires_at := deadline_of now ttl\<rparr>) (entries st)\<rparr>
      | None \<Rightarrow> st)"

definition mem_delete :: "mem_store \<Rightarrow> string \<Rightarrow> bool \<times> mem_store" where
  "mem_delete st key =
     (hm_contains (entries st) key, st\<lparr>entries := hm_remove key (entries st)\<rparr>)"

definition mem_keys_with_prefix :: "mem_store \<Rightarrow> instant \<Rightarrow> string \<Rightarrow> string list" where
  "mem_keys_with_prefix st now pre =
     map fst (filter (\<lambda>(k, e). prefix pre k \<and> \<not> is_expired e now) (entries st))"

definition mem_set_if_absent ::
  "mem_store \<Rightarrow> instant \<Rightarrow> instant \<Rightarrow> string \<Rightarrow> string \<Rightarrow> duration \<Rightarrow> bool \<times> mem_store" where
  "mem_set_if_absent st now ts key value ttl =
     (case hm_get (entries st) key of
        Some e \<Rightarrow>
          if \<not> is_expired e now then (False, st)
          else (True, sweep_if_due (insert_entry st key
                        \<lparr>entry_value = value, expires_at = deadline_of now ttl\<rparr>) ts)
      | None \<Rightarrow> (True, sweep_if_due (insert_entry st key
                        \<lparr>entry_value = value, expires_at = deadline_of now ttl\<rparr>) ts))"


subsection \<open>Invariant\<close>

text \<open>
  Keys are unique, every entry has a slot in the queue (so the eviction loop can always make
  room), the cap is respected, and the queue is at most one sweep window longer than the cap.
\<close>

definition store_inv :: "mem_store \<Rightarrow> bool" where
  "store_inv st \<longleftrightarrow>
     distinct (hm_keys (entries st)) \<and> fst ` set (entries st) \<subseteq> set (order st) \<and>
     writes_since_sweep st < SWEEP_EVERY_N_WRITES \<and>
     (0 < max_entries st \<longrightarrow>
        length (entries st) \<le> max_entries st \<and>
        length (order st) \<le> max_entries st + writes_since_sweep st)"

lemma set_compact_order:
  "set (compact_order ents seen ord) = {k \<in> set ord. hm_contains ents k \<and> k \<notin> set seen}"
  by (induction ents seen ord rule: compact_order.induct) auto

lemma distinct_compact_order: "distinct (compact_order ents seen ord)"
  by (induction ents seen ord rule: compact_order.induct) (auto simp: set_compact_order)

lemma keys_filter_subset: "fst ` set (filter P m) \<subseteq> fst ` set m"
  by auto

lemma length_compact_order:
  assumes "distinct (hm_keys ents)"
  shows "length (compact_order ents seen ord) \<le> length ents"
proof -
  have "card (set (compact_order ents seen ord)) \<le> card (set (hm_keys ents))"
    by (rule card_mono) (auto simp: set_compact_order)
  with assms show ?thesis
    by (simp add: distinct_card distinct_compact_order del: set_map)
qed

lemma evict_loop_spec:
  assumes "evict_loop cap ents ord n = (ents', ord', n')" and "0 < cap"
    and "distinct (hm_keys ents)" and "fst ` set ents \<subseteq> set ord"
  shows "distinct (hm_keys ents') \<and> fst ` set ents' \<subseteq> set ord' \<and> fst ` set ents' \<subseteq> fst ` set ents \<and>
         length ents' < cap \<and> length ord' \<le> length ord"
  using assms
proof (induction cap ents ord n rule: evict_loop.induct)
  case (1 cap ents n)
  then show ?case by simp
next
  case (2 cap ents c rest n)
  show ?case
  proof (cases "length ents < cap")
    case True
    with 2 show ?thesis by auto
  next
    case False
    show ?thesis
    proof (cases "hm_get ents c")
      case None
      then have "fst ` set ents \<subseteq> set rest"
        using "2.prems"(4) by (auto simp: map_of_eq_None_iff)
      with "2.IH"(1) [OF False None] "2.prems" False None show ?thesis by (simp add: le_SucI)
    next
      case (Some e)
      have "distinct (hm_keys (hm_remove c ents))"
        using "2.prems"(3) by (rule distinct_delete)
      moreover have "fst ` set (hm_remove c ents) \<subseteq> set rest"
        using "2.prems"(4) by (auto simp: hm_keys_remove)
      moreover have "evict_loop cap (hm_remove c ents) rest (n + 1) = (ents', ord', n')"
        using "2.prems"(1) False Some by simp
      ultimately have "distinct (hm_keys ents') \<and> fst ` set ents' \<subseteq> set ord' \<and>
          fst ` set ents' \<subseteq> fst ` set (hm_remove c ents) \<and> length ents' < cap \<and> length ord' \<le> length rest"
        using "2.prems"(2) by (intro "2.IH"(2) [OF False Some])
      then show ?thesis by (auto simp: hm_keys_remove)
    qed
  qed
qed

lemma evict_loop_get:
  "evict_loop cap ents ord n = (ents', ord', n') \<Longrightarrow> hm_get ents' k = hm_get ents k \<or> hm_get ents' k = None"
proof (induction cap ents ord n rule: evict_loop.induct)
  case (2 cap ents c rest n)
  then show ?case by (fastforce simp: hm_get_remove split: if_splits option.splits)
qed simp

lemma insert_entry_inv:
  assumes "store_inv st"
  shows "distinct (hm_keys (entries (insert_entry st k e)))"
    and "fst ` set (entries (insert_entry st k e)) \<subseteq> set (order (insert_entry st k e))"
    and "0 < max_entries st \<Longrightarrow> length (entries (insert_entry st k e)) \<le> max_entries st"
    and "0 < max_entries st \<Longrightarrow>
           length (order (insert_entry st k e)) \<le> max_entries st + writes_since_sweep st + 1"
    and "writes_since_sweep (insert_entry st k e) = writes_since_sweep st"
    and "max_entries (insert_entry st k e) = max_entries st"
proof -
  obtain ents ord n where ev: "evict_loop (max_entries st) (entries st) (order st) (evictions st) = (ents, ord, n)"
    by (metis prod_cases3)
  note spec = evict_loop_spec [OF ev]
  show "distinct (hm_keys (entries (insert_entry st k e)))"
    and "fst ` set (entries (insert_entry st k e)) \<subseteq> set (order (insert_entry st k e))"
    and "0 < max_entries st \<Longrightarrow> length (entries (insert_entry st k e)) \<le> max_entries st"
    and "0 < max_entries st \<Longrightarrow>
           length (order (insert_entry st k e)) \<le> max_entries st + writes_since_sweep st + 1"
    and "writes_since_sweep (insert_entry st k e) = writes_since_sweep st"
    and "max_entries (insert_entry st k e) = max_entries st"
    using assms spec le_trans [OF length_hm_insert_le [of k e ents]]
    by (auto simp: insert_entry_def evict_for_capacity_def ev store_inv_def Let_def hm_keys_insert
          length_hm_insert_mem distinct_update)
qed


lemma sweep_if_due_inv:
  assumes "distinct (hm_keys (entries st))" and "fst ` set (entries st) \<subseteq> set (order st)"
    and "writes_since_sweep st < SWEEP_EVERY_N_WRITES"
    and "0 < max_entries st \<Longrightarrow> length (entries st) \<le> max_entries st"
    and "0 < max_entries st \<Longrightarrow> length (order st) \<le> max_entries st + writes_since_sweep st + 1"
  shows "store_inv (sweep_if_due st ts)"
proof (cases "writes_since_sweep st + 1 < SWEEP_EVERY_N_WRITES")
  case True
  with assms show ?thesis by (auto simp: sweep_if_due_def store_inv_def)
next
  case False
  let ?live = "filter (\<lambda>(k, e). \<not> is_expired e ts) (entries st)"
  have d: "distinct (hm_keys ?live)" using assms(1) by (rule distinct_map_filter)
  have "length ?live \<le> length (entries st)" by simp
  with length_compact_order [OF d, of "[]" "order st"] assms(4)
  have "0 < max_entries st \<Longrightarrow> length ?live \<le> max_entries st"
    and "0 < max_entries st \<Longrightarrow> length (compact_order ?live [] (order st)) \<le> max_entries st"
    by linarith+
  with False d assms(2) show ?thesis
    by (auto simp: sweep_if_due_def store_inv_def Let_def set_compact_order SWEEP_EVERY_N_WRITES_def)
qed

text \<open>Every write is an insertion followed by the sweep check.\<close>

abbreviation store_write :: "mem_store \<Rightarrow> string \<Rightarrow> mem_entry \<Rightarrow> instant \<Rightarrow> mem_store" where
  "store_write st k e ts \<equiv> sweep_if_due (insert_entry st k e) ts"

lemma store_write_inv [krab_inv]: "store_inv st \<Longrightarrow> store_inv (store_write st k e ts)"
  using insert_entry_inv [of st k e]
  by (intro sweep_if_due_inv) (auto simp: store_inv_def)

lemma get_reap_inv [krab_inv]: "store_inv st \<Longrightarrow> store_inv (get_reap st k)"
  using length_hm_remove_le [of k "entries st"]
  by (auto simp: store_inv_def get_reap_def hm_keys_remove distinct_delete)

lemma with_max_entries_inv: "store_inv (with_max_entries n)"
  by (simp add: store_inv_def with_max_entries_def SWEEP_EVERY_N_WRITES_def)

lemma mem_get_inv [krab_inv]: "store_inv st \<Longrightarrow> store_inv (snd (mem_get st now k))"
  by (auto simp: mem_get_def intro: krab_inv split: read_result.splits)

lemma mem_set_inv [krab_inv]: "store_inv st \<Longrightarrow> store_inv (mem_set st now ts k v ttl)"
  by (simp add: mem_set_def store_write_inv)

lemma mem_incr_inv [krab_inv]: "store_inv st \<Longrightarrow> store_inv (snd (mem_incr st now ts k d))"
  by (auto simp: mem_incr_def Let_def intro: krab_inv split: option.splits prod.splits if_splits)

lemma mem_incr_with_ttl_inv [krab_inv]:
  "store_inv st \<Longrightarrow> store_inv (snd (mem_incr_with_ttl st now ts k d ttl))"
  by (auto simp: mem_incr_with_ttl_def Let_def intro: krab_inv split: option.splits)

lemma mem_expire_inv [krab_inv]: "store_inv st \<Longrightarrow> store_inv (mem_expire st now k ttl)"
  by (auto simp: mem_expire_def store_inv_def hm_keys_insert distinct_update length_hm_insert_mem
        rev_image_eqI split: option.splits dest!: map_of_SomeD)

lemma mem_delete_inv [krab_inv]: "store_inv st \<Longrightarrow> store_inv (snd (mem_delete st k))"
  using get_reap_inv [of st k] by (simp add: mem_delete_def get_reap_def)

lemma mem_set_if_absent_inv [krab_inv]:
  "store_inv st \<Longrightarrow> store_inv (snd (mem_set_if_absent st now ts k v ttl))"
  by (auto simp: mem_set_if_absent_def intro: krab_inv split: option.splits)

lemma store_write_max [simp]: "max_entries (store_write st k e ts) = max_entries st"
  by (auto simp: sweep_if_due_def insert_entry_def evict_for_capacity_def Let_def
        split: prod.splits)

subsection \<open>What readers see\<close>

text \<open>
  The value a reader at time \<open>t\<close> finds: expired entries are absent, reaped or not.
\<close>

definition live :: "mem_store \<Rightarrow> instant \<Rightarrow> string \<Rightarrow> string option" where
  "live st t k =
     (case hm_get (entries st) k of
        Some e \<Rightarrow> if is_expired e t then None else Some (entry_value e) | None \<Rightarrow> None)"

lemma is_expired_mono: "is_expired e ts \<Longrightarrow> ts \<le> t \<Longrightarrow> is_expired e t"
  by (auto simp: is_expired_def split: option.splits)

lemma is_expired_deadline:
  "is_expired \<lparr>entry_value = v, expires_at = deadline_of now ttl\<rparr> t \<longleftrightarrow> ttl \<noteq> 0 \<and> now + ttl \<le> t"
  by (auto simp: is_expired_def deadline_of_def)

lemma live_sweep:
  assumes "distinct (hm_keys (entries st))" and "ts \<le> t"
  shows "live (sweep_if_due st ts) t k = live st t k"
  using assms is_expired_mono
  by (auto simp: live_def sweep_if_due_def Let_def hm_get_filter split: option.splits if_splits)

lemma live_insert_same: "live (insert_entry st k e) t k = (if is_expired e t then None else Some (entry_value e))"
  by (auto simp: live_def insert_entry_def Let_def hm_get_insert)

lemma live_insert_other:
  assumes "k' \<noteq> k"
  shows "live (insert_entry st k e) t k' = live st t k' \<or> live (insert_entry st k e) t k' = None"
    and "max_entries st = 0 \<Longrightarrow> live (insert_entry st k e) t k' = live st t k'"
proof -
  obtain ents ord n where ev: "evict_loop (max_entries st) (entries st) (order st) (evictions st) = (ents, ord, n)"
    by (metis prod_cases3)
  from evict_loop_get [OF ev, of k'] assms
  show "live (insert_entry st k e) t k' = live st t k' \<or> live (insert_entry st k e) t k' = None"
    by (auto simp: live_def insert_entry_def evict_for_capacity_def ev Let_def hm_get_insert)
  show "max_entries st = 0 \<Longrightarrow> live (insert_entry st k e) t k' = live st t k'"
    using assms by (simp add: live_def insert_entry_def evict_for_capacity_def Let_def hm_get_insert)
qed

lemma live_write:
  assumes "store_inv st" and "ts \<le> t"
  shows "live (store_write st k e ts) t k = (if is_expired e t then None else Some (entry_value e))"
    and "k' \<noteq> k \<Longrightarrow> live (store_write st k e ts) t k' \<in> {live st t k', None}"
    and "k' \<noteq> k \<Longrightarrow> max_entries st = 0 \<Longrightarrow> live (store_write st k e ts) t k' = live st t k'"
  using assms insert_entry_inv(1) [of st k e] live_insert_same live_insert_other
  by (auto simp: live_sweep)

lemma live_reap:
  "live (get_reap st k) t k' = (if k' = k then None else live st t k')"
  by (auto simp: live_def get_reap_def hm_get_remove)


subsection \<open>The memory store as a store of the interface\<close>

definition mem_ops :: "mem_store store_ops" where
  "mem_ops =
     \<lparr>op_get = (\<lambda>st now k. apfst Inr (mem_get st now k)),
      op_set = (\<lambda>st now ts k v ttl. (Inr (), mem_set st now ts k v ttl)),
      op_incr = mem_incr,
      op_expire = (\<lambda>st now k ttl. (Inr (), mem_expire st now k ttl)),
      op_delete = (\<lambda>st k. apfst Inr (mem_delete st k)),
      op_keys_with_prefix = (\<lambda>st now p. Inr (mem_keys_with_prefix st now p)),
      op_set_if_absent = (\<lambda>st now ts k v ttl. apfst Inr (mem_set_if_absent st now ts k v ttl)),
      op_incr_with_ttl = mem_incr_with_ttl\<rparr>"

lemma live_earlier: "live st t k = Some v \<Longrightarrow> t' \<le> t \<Longrightarrow> live st t' k = Some v"
  using is_expired_mono by (auto simp: live_def split: option.splits if_splits)

lemma live_get:
  assumes "now \<le> t"
  shows "live (snd (mem_get st now k)) t k' = live st t k'"
proof (cases "get_read st now k")
  case NeedsReap
  then have "live st t k = None"
    using is_expired_mono [OF _ assms] by (auto simp: get_read_def live_def split: option.splits if_splits)
  with NeedsReap show ?thesis by (simp add: mem_get_def live_reap)
qed (simp_all add: mem_get_def)

lemma mem_get_result: "fst (mem_get st now k) = live st now k"
  by (auto simp: mem_get_def get_read_def live_def split: option.splits)

lemma not_expired_deadline:
  "is_expired \<lparr>entry_value = v, expires_at = deadline_of now ttl\<rparr> t = (\<not> alive now ttl t)"
  by (auto simp: is_expired_deadline alive_def)

lemmas live_set = live_write [where e = "\<lparr>entry_value = v, expires_at = deadline_of now ttl\<rparr>" for v now ttl,
    unfolded not_expired_deadline]

lemma mem_set_if_absent_cases:
  "mem_set_if_absent st now ts k v ttl =
     (if live st now k = None
      then (True, store_write st k \<lparr>entry_value = v, expires_at = deadline_of now ttl\<rparr> ts)
      else (False, st))"
  by (auto simp: mem_set_if_absent_def live_def split: option.splits)

lemma mem_incr_with_ttl_cases:
  "mem_incr_with_ttl st now ts k d ttl =
     (case live st now k of
        None \<Rightarrow> (Inr (saturating_add 0 d), store_write st k
                  \<lparr>entry_value = show_word (saturating_add 0 d), expires_at = deadline_of now ttl\<rparr> ts)
      | Some v \<Rightarrow>
          (case parse_u64 v of
             None \<Rightarrow> (Inl NotAnInteger, st)
           | Some c \<Rightarrow> (Inr (saturating_add c d), store_write st k
               \<lparr>entry_value = show_word (saturating_add c d),
                expires_at = expires_at (the (hm_get (entries st) k))\<rparr> ts)))"
  by (auto simp: mem_incr_with_ttl_def live_def Let_def split: option.splits)

lemma saturating_add_0 [simp]: "saturating_add 0 d = (d :: u64)"
  using unat_lt_u64 [of d] by (simp add: saturating_add_def)

lemma live_entry:
  assumes "live st now k = Some v"
  obtains e where "hm_get (entries st) k = Some e" and "entry_value e = v"
    and "\<And>t. live st t k = (if is_expired e t then None else Some v)"
  using assms by (auto simp: live_def split: option.splits if_splits)

lemma mem_incr_old_look:
  assumes "store_inv st" and "live st now k = Some v" and "parse_u64 v = Some c" and "ts \<le> t"
  shows "live (snd (mem_incr_with_ttl st now ts k d ttl)) t k =
           map_option (\<lambda>_. show_word (saturating_add c d)) (live st t k)"
proof -
  obtain e where e: "hm_get (entries st) k = Some e" "\<And>t. live st t k = (if is_expired e t then None else Some v)"
    using live_entry [OF assms(2)] by metis
  have "is_expired \<lparr>entry_value = x, expires_at = expires_at e\<rparr> t = is_expired e t" for x
    by (simp add: is_expired_def)
  with assms e show ?thesis
    by (simp add: mem_incr_with_ttl_cases live_write(1))
qed

lemma mem_incr_other:
  assumes "store_inv st" and "ts \<le> t" and "k' \<noteq> k"
  shows "live (snd (mem_incr_with_ttl st now ts k d ttl)) t k' \<in> {live st t k', None}"
    and "max_entries st = 0 \<Longrightarrow> live (snd (mem_incr_with_ttl st now ts k d ttl)) t k' = live st t k'"
  using live_write [OF assms(1,2)] assms(3)
  by (auto simp: mem_incr_with_ttl_cases split: option.splits)

lemma mem_keys_set:
  assumes "store_inv st"
  shows "distinct (mem_keys_with_prefix st now p)"
    and "set (mem_keys_with_prefix st now p) = {k. prefix p k \<and> live st now k \<noteq> None}"
proof -
  have d: "distinct (hm_keys (entries st))" using assms by (simp add: store_inv_def)
  then show "distinct (mem_keys_with_prefix st now p)"
    by (simp add: mem_keys_with_prefix_def distinct_map_filter)
  have mem: "(k, e) \<in> set (entries st) \<longleftrightarrow> hm_get (entries st) k = Some e" for k e
    using d by simp
  have "k \<in> set (mem_keys_with_prefix st now p) \<longleftrightarrow>
      prefix p k \<and> (\<exists>e. hm_get (entries st) k = Some e \<and> \<not> is_expired e now)" for k
    by (auto simp: mem_keys_with_prefix_def mem [symmetric] image_iff)
  then show "set (mem_keys_with_prefix st now p) = {k. prefix p k \<and> live st now k \<noteq> None}"
    by (auto simp: live_def split: option.splits)
qed

lemma mem_max [simp]:
  "max_entries (snd (mem_get st now k)) = max_entries st"
  "max_entries (mem_set st now ts k v ttl) = max_entries st"
  "max_entries (snd (mem_delete st k)) = max_entries st"
  "max_entries (snd (mem_set_if_absent st now ts k v ttl)) = max_entries st"
  "max_entries (snd (mem_incr_with_ttl st now ts k d ttl)) = max_entries st"
  by (auto simp: mem_get_def get_reap_def mem_set_def mem_delete_def mem_set_if_absent_cases
        mem_incr_with_ttl_cases split: read_result.splits option.splits)

lemma live_delete: "live (snd (mem_delete st k)) t k' = (if k' = k then None else live st t k')"
  using live_reap [of st k] by (simp add: mem_delete_def get_reap_def)

lemma mem_set_other:
  "store_inv st \<Longrightarrow> ts \<le> t \<Longrightarrow> k' \<noteq> k \<Longrightarrow> live (mem_set st now ts k v ttl) t k' \<in> {live st t k', None}"
  using live_write(2) by (simp add: mem_set_def)

lemma mem_absent_other:
  "store_inv st \<Longrightarrow> ts \<le> t \<Longrightarrow> k' \<noteq> k \<Longrightarrow>
     live (snd (mem_set_if_absent st now ts k v ttl)) t k' \<in> {live st t k', None}"
  using live_write(2) by (simp add: mem_set_if_absent_cases)

lemma mem_incr_old:
  "live st now k = Some v \<Longrightarrow> parse_u64 v = Some c \<Longrightarrow>
     fst (mem_incr_with_ttl st now ts k d ttl) = Inr (saturating_add c d)"
  "live st now k = Some v \<Longrightarrow> parse_u64 v = None \<Longrightarrow>
     mem_incr_with_ttl st now ts k d ttl = (Inl NotAnInteger, st)"
  "live st now k = None \<Longrightarrow> fst (mem_incr_with_ttl st now ts k d ttl) = Inr d"
  "store_inv st \<Longrightarrow> live st now k = None \<Longrightarrow> ts \<le> t \<Longrightarrow>
     live (snd (mem_incr_with_ttl st now ts k d ttl)) t k = (if alive now ttl t then Some (show_word d) else None)"
  by (simp_all add: mem_incr_with_ttl_cases live_set)

lemma mem_absent_spec:
  "fst (mem_set_if_absent st now ts k v ttl) = (live st now k = None)"
  "live st now k \<noteq> None \<Longrightarrow> snd (mem_set_if_absent st now ts k v ttl) = st"
  "store_inv st \<Longrightarrow> live st now k = None \<Longrightarrow> ts \<le> t \<Longrightarrow>
     live (snd (mem_set_if_absent st now ts k v ttl)) t k = (if alive now ttl t then Some v else None)"
  by (auto simp: mem_set_if_absent_cases live_set)

lemma mem_set_spec:
  "store_inv st \<Longrightarrow> ts \<le> t \<Longrightarrow>
     live (mem_set st now ts k v ttl) t k = (if alive now ttl t then Some v else None)"
  by (simp add: mem_set_def live_set)

lemma mem_delete_spec: "live st t k \<noteq> None \<Longrightarrow> fst (mem_delete st k)"
  by (auto simp: mem_delete_def live_def hm_contains_def simp del: hm_contains_iff split: option.splits)

lemmas mem_spec = mem_get_result live_get mem_set_spec mem_set_other live_delete mem_keys_set
  mem_absent_spec mem_absent_other mem_incr_old mem_incr_old_look mem_incr_other(1) krab_inv

interpretation mem: distributed_store mem_ops store_inv live
proof unfold_locales
  fix st t k v t'
  show "live st t k = Some v \<Longrightarrow> t' \<le> t \<Longrightarrow> live st t' k = Some v" by (rule live_earlier)
next
  fix st t k
  show "\<exists>b. fst (op_delete mem_ops st k) = Inr b \<and> (live st t k \<noteq> None \<longrightarrow> b)"
    using mem_delete_spec by (simp add: mem_ops_def)
next
  fix st :: mem_store and ts t :: instant and k' k :: string and now v ttl and d :: u64
  show "store_inv st \<Longrightarrow> ts \<le> t \<Longrightarrow> k' \<noteq> k \<Longrightarrow>
      live (snd (op_set mem_ops st now ts k v ttl)) t k' = live st t k' \<or>
      live (snd (op_set mem_ops st now ts k v ttl)) t k' = None"
    using mem_set_other by (simp add: mem_ops_def)
  show "store_inv st \<Longrightarrow> ts \<le> t \<Longrightarrow> k' \<noteq> k \<Longrightarrow>
      live (snd (op_set_if_absent mem_ops st now ts k v ttl)) t k' = live st t k' \<or>
      live (snd (op_set_if_absent mem_ops st now ts k v ttl)) t k' = None"
    using mem_absent_other by (simp add: mem_ops_def)
  show "store_inv st \<Longrightarrow> ts \<le> t \<Longrightarrow> k' \<noteq> k \<Longrightarrow>
      live (snd (op_incr_with_ttl mem_ops st now ts k d ttl)) t k' = live st t k' \<or>
      live (snd (op_incr_with_ttl mem_ops st now ts k d ttl)) t k' = None"
    using mem_incr_other(1) by (simp add: mem_ops_def)
next
  fix st :: mem_store and now :: instant and p :: string
  show "store_inv st \<Longrightarrow> \<exists>ks. op_keys_with_prefix mem_ops st now p = Inr ks \<and> distinct ks \<and>
      set ks = {k. prefix p k \<and> live st now k \<noteq> None}"
    using mem_keys_set by (simp add: mem_ops_def)
qed (simp_all add: mem_ops_def mem_spec)

text \<open>Without a cap nothing is ever evicted.\<close>

abbreviation unlimited_inv :: "mem_store \<Rightarrow> bool" where
  "unlimited_inv st \<equiv> store_inv st \<and> max_entries st = 0"

lemma mem_max_ops [simp]:
  "max_entries (snd (op_get mem_ops st now k)) = max_entries st"
  "max_entries (snd (op_set mem_ops st now ts k v ttl)) = max_entries st"
  "max_entries (snd (op_delete mem_ops st k)) = max_entries st"
  "max_entries (snd (op_set_if_absent mem_ops st now ts k v ttl)) = max_entries st"
  "max_entries (snd (op_incr_with_ttl mem_ops st now ts k d ttl)) = max_entries st"
  by (simp_all add: mem_ops_def)

lemmas mem_laws = mem.get_result mem.get_look mem.get_inv mem.set_result mem.set_look mem.set_inv
  mem.delete_look mem.delete_inv mem.absent_result mem.absent_lost mem.absent_look
  mem.absent_inv mem.incr_new mem.incr_new_look mem.incr_old mem.incr_old_look
  mem.incr_not_a_number mem.incr_inv

interpretation unlimited: durable_store mem_ops unlimited_inv live
proof unfold_locales
  fix st :: mem_store and k' k :: string and now ts t :: instant and v :: string and ttl :: duration and d :: u64
  show "unlimited_inv st \<Longrightarrow> ts \<le> t \<Longrightarrow> k' \<noteq> k \<Longrightarrow>
      live (snd (op_set mem_ops st now ts k v ttl)) t k' = live st t k'"
    by (simp add: mem_ops_def mem_set_def live_write(3))
  show "unlimited_inv st \<Longrightarrow> ts \<le> t \<Longrightarrow> k' \<noteq> k \<Longrightarrow>
      live (snd (op_set_if_absent mem_ops st now ts k v ttl)) t k' = live st t k'"
    by (simp add: mem_ops_def mem_set_if_absent_cases live_write(3))
  show "unlimited_inv st \<Longrightarrow> ts \<le> t \<Longrightarrow> k' \<noteq> k \<Longrightarrow>
      live (snd (op_incr_with_ttl mem_ops st now ts k d ttl)) t k' = live st t k'"
    by (simp add: mem_ops_def mem_incr_other(2))
next
  fix st t k v t'
  show "live st t k = Some v \<Longrightarrow> t' \<le> t \<Longrightarrow> live st t' k = Some v" by (rule live_earlier)
next
  fix st t k
  show "unlimited_inv st \<Longrightarrow> \<exists>b. fst (op_delete mem_ops st k) = Inr b \<and> (live st t k \<noteq> None \<longrightarrow> b)"
    using mem.delete_result by blast
next
  fix st :: mem_store and now :: instant and p :: string
  show "unlimited_inv st \<Longrightarrow> \<exists>ks. op_keys_with_prefix mem_ops st now p = Inr ks \<and> distinct ks \<and>
      set ks = {k. prefix p k \<and> live st now k \<noteq> None}"
    using mem.keys_result by blast
qed (simp_all add: mem_laws mem.set_other mem.absent_other mem.incr_other)


subsection \<open>Guarantees\<close>

text \<open>Everything a task can do to the store in one critical section.\<close>

datatype mem_op =
    OpGetRead instant string
  | OpGetReap string
  | OpSet instant instant string string duration
  | OpIncr instant instant string u64
  | OpIncrWithTtl instant instant string u64 duration
  | OpExpire instant string duration
  | OpDelete string
  | OpSetIfAbsent instant instant string string duration

fun mem_step :: "mem_store \<Rightarrow> mem_op \<Rightarrow> mem_store" where
  "mem_step st (OpGetRead now k) = st"
| "mem_step st (OpGetReap k) = get_reap st k"
| "mem_step st (OpSet now ts k v ttl) = mem_set st now ts k v ttl"
| "mem_step st (OpIncr now ts k d) = snd (mem_incr st now ts k d)"
| "mem_step st (OpIncrWithTtl now ts k d ttl) = snd (mem_incr_with_ttl st now ts k d ttl)"
| "mem_step st (OpExpire now k ttl) = mem_expire st now k ttl"
| "mem_step st (OpDelete k) = snd (mem_delete st k)"
| "mem_step st (OpSetIfAbsent now ts k v ttl) = snd (mem_set_if_absent st now ts k v ttl)"

definition mem_run :: "mem_store \<Rightarrow> mem_op list \<Rightarrow> mem_store" where
  "mem_run = foldl mem_step"

lemma mem_step_inv [krab_inv]: "store_inv st \<Longrightarrow> store_inv (mem_step st op)"
  by (cases op) (auto intro: krab_inv)

lemma mem_run_inv [krab_inv]: "store_inv st \<Longrightarrow> store_inv (mem_run st ops)"
  by (induction ops arbitrary: st) (auto simp: mem_run_def intro: krab_inv)

lemma mem_step_max: "max_entries (mem_step st op) = max_entries st"
  by (cases op) (auto simp: get_reap_def mem_expire_def mem_incr_def Let_def
        split: option.splits prod.splits if_splits)

lemma mem_run_max: "max_entries (mem_run st ops) = max_entries st"
  by (induction ops arbitrary: st) (auto simp: mem_run_def mem_step_max)

text \<open>
  the store never grows past its cap. Whatever sequence of critical sections runs on a store
  built with \<open>cap > 0\<close>, at most \<open>cap\<close> entries are held, every held key has a queue slot, and
  the queue is less than one sweep window (256) longer than the cap.
\<close>

theorem store_respects_capacity:
  assumes "0 < cap"
  defines "st \<equiv> \<lambda>ops. mem_run (with_max_entries cap) ops"
  shows "length (entries (st ops)) \<le> cap \<and> fst ` set (entries (st ops)) \<subseteq> set (order (st ops)) \<and>
         length (order (st ops)) < cap + SWEEP_EVERY_N_WRITES"
proof -
  have "max_entries (st ops) = cap"
    by (simp add: st_def mem_run_max with_max_entries_def)
  moreover have "store_inv (st ops)"
    unfolding st_def by (intro mem_run_inv with_max_entries_inv)
  ultimately show ?thesis using assms(1) by (auto simp: store_inv_def)
qed

theorem store_respects_capacity_witness:
  "length (entries (mem_run (with_max_entries 1)
     [OpSet 0 0 ''a'' ''1'' 0, OpDelete ''a'', OpSet 1 1 ''b'' ''2'' 5, OpSet 2 2 ''c'' ''3'' 0])) \<le> 1"
  using store_respects_capacity
    [of 1 "[OpSet 0 0 ''a'' ''1'' 0, OpDelete ''a'', OpSet 1 1 ''b'' ''2'' 5, OpSet 2 2 ''c'' ''3'' 0]"]
  by simp

fun mem_op_key :: "mem_op \<Rightarrow> string" where
  "mem_op_key (OpGetRead now k) = k"
| "mem_op_key (OpGetReap k) = k"
| "mem_op_key (OpSet now ts k v ttl) = k"
| "mem_op_key (OpIncr now ts k d) = k"
| "mem_op_key (OpIncrWithTtl now ts k d ttl) = k"
| "mem_op_key (OpExpire now k ttl) = k"
| "mem_op_key (OpDelete k) = k"
| "mem_op_key (OpSetIfAbsent now ts k v ttl) = k"

fun mem_op_end :: "mem_op \<Rightarrow> instant" where
  "mem_op_end (OpSet now ts k v ttl) = ts"
| "mem_op_end (OpIncr now ts k d) = ts"
| "mem_op_end (OpIncrWithTtl now ts k d ttl) = ts"
| "mem_op_end (OpSetIfAbsent now ts k v ttl) = ts"
| "mem_op_end _ = 0"

lemma mem_incr_shape:
  "snd (mem_incr st now ts k d) = st \<or>
   (\<exists>st1 e. (st1 = st \<or> st1 = get_reap st k) \<and> snd (mem_incr st now ts k d) = store_write st1 k e ts)"
  by (auto simp: mem_incr_def Let_def split: option.splits)

lemma live_incr_other:
  assumes "store_inv st" and "ts \<le> t" and "k' \<noteq> k"
  shows "(live (snd (mem_incr st now ts k d)) t k' = live st t k' \<or>
          live (snd (mem_incr st now ts k d)) t k' = None) \<and>
         (max_entries st = 0 \<longrightarrow> live (snd (mem_incr st now ts k d)) t k' = live st t k')"
proof -
  have w: "(live (store_write st1 k e ts) t k' = live st t k' \<or> live (store_write st1 k e ts) t k' = None) \<and>
      (max_entries st = 0 \<longrightarrow> live (store_write st1 k e ts) t k' = live st t k')"
    if "st1 = st \<or> st1 = get_reap st k" for st1 e
  proof -
    from that assms have "store_inv st1" "max_entries st1 = max_entries st" "live st1 t k' = live st t k'"
      by (auto simp: live_reap get_reap_inv) (simp add: get_reap_def)
    with live_write(2,3) [of st1 ts t k' k e] assms show ?thesis by auto
  qed
  from mem_incr_shape [of st now ts k d] show ?thesis
  proof
    assume "snd (mem_incr st now ts k d) = st"
    then show ?thesis by simp
  next
    assume "\<exists>st1 e. (st1 = st \<or> st1 = get_reap st k) \<and> snd (mem_incr st now ts k d) = store_write st1 k e ts"
    then obtain st1 e where "st1 = st \<or> st1 = get_reap st k" "snd (mem_incr st now ts k d) = store_write st1 k e ts"
      by blast
    with w [of st1 e] show ?thesis by simp
  qed
qed

lemma mem_step_other:
  assumes "store_inv st" and "k \<noteq> mem_op_key op" and "mem_op_end op \<le> t"
  shows "(live (mem_step st op) t k = live st t k \<or> live (mem_step st op) t k = None) \<and>
         (max_entries st = 0 \<longrightarrow> live (mem_step st op) t k = live st t k)"
proof (cases op)
  case (OpExpire now k0 ttl)
  with assms show ?thesis by (auto simp: mem_expire_def live_def hm_get_insert split: option.splits)
qed (use assms live_write(2,3) [of st _ t k] live_incr_other [of st _ t k] mem_incr_other [of st _ t k]
     in \<open>auto simp: live_reap live_delete mem_set_def mem_set_if_absent_cases\<close>)

lemma mem_run_other:
  assumes "store_inv st" and "max_entries st = 0"
    and "\<forall>op \<in> set ops. k \<noteq> mem_op_key op \<and> mem_op_end op \<le> t"
  shows "live (mem_run st ops) t k = live st t k"
  using assms
proof (induction ops arbitrary: st)
  case Nil
  then show ?case by (simp add: mem_run_def)
next
  case (Cons op ops)
  then have "live (mem_run (mem_step st op) ops) t k = live (mem_step st op) t k"
    by (intro Cons.IH) (auto simp: mem_step_max intro: krab_inv)
  with Cons.prems mem_step_other [of st k op t] show ?case by (simp add: mem_run_def)
qed

text \<open>
  an operation of the in-memory store never makes a value appear or change under a key it was
  not asked to write, whatever it evicts, sweeps or reaps on the way: at any time not before the
  operation ends, another key either reads as before or is gone, and with no cap it reads as
  before.
\<close>

theorem store_frame:
  assumes "store_inv st" and "k \<noteq> mem_op_key op" and "mem_op_end op \<le> t"
  shows "(live (mem_step st op) t k = live st t k \<or> live (mem_step st op) t k = None) \<and>
         (max_entries st = 0 \<longrightarrow> live (mem_step st op) t k = live st t k)"
  using assms by (rule mem_step_other)

theorem store_frame_witness:
  "live (mem_step (mem_set (with_max_entries 0) 0 0 ''a'' ''1'' 0) (OpSet 1 2 ''b'' ''2'' 5)) 2 ''a''
     = live (mem_set (with_max_entries 0) 0 0 ''a'' ''1'' 0) 2 ''a''"
  using store_frame [of "mem_set (with_max_entries 0) 0 0 ''a'' ''1'' 0" "''a''" "OpSet 1 2 ''b'' ''2'' 5" 2]
  by (simp add: mem_set_inv with_max_entries_inv) (simp add: with_max_entries_def)


text \<open>
  the gap between the two sections of \<open>get\<close>. When a reader has found an expired entry and
  another task stores a fresh value under the key before the reader comes back to reap, the reap
  deletes the fresh value: a reader at a time when the value should be alive finds nothing.
\<close>

theorem get_reap_race_loses_fresh_value:
  assumes "store_inv st" and "get_read st now k = NeedsReap"
    and "now \<le> now'" and "now' \<le> ts" and "ts \<le> t" and "alive now' ttl t"
  shows "live (mem_set st now' ts k v ttl) t k = Some v \<and>
         live (get_reap (mem_set st now' ts k v ttl) k) t k = None"
  using assms by (simp add: mem_set_spec live_reap)

theorem get_reap_race_loses_fresh_value_witness:
  "live (get_reap (mem_set (mem_set (with_max_entries 0) 0 0 ''k'' ''old'' 5) 10 10 ''k'' ''new'' 0) ''k'') 11 ''k'' = None"
  using get_reap_race_loses_fresh_value
    [of "mem_set (with_max_entries 0) 0 0 ''k'' ''old'' 5" 10 "''k''" 10 10 11 0 "''new''"]
  by (simp add: mem_set_inv with_max_entries_inv)
    (simp add: get_read_def mem_set_def sweep_if_due_def insert_entry_def evict_for_capacity_def
      with_max_entries_def SWEEP_EVERY_N_WRITES_def is_expired_def deadline_of_def alive_def Let_def)

text \<open>
  eviction order. As long as the queue holds exactly the live keys, once each, a write of a
  new key to a full store drops the key at the front of the queue, the oldest inserted, and
  nothing else.
\<close>

theorem eviction_drops_the_oldest:
  assumes "distinct (hm_keys (entries st))" and "distinct (order st)"
    and "set (order st) = fst ` set (entries st)" and "length (entries st) = max_entries st"
    and "order st = oldest # rest" and "k \<notin> fst ` set (entries st)"
  shows "hm_get (entries (insert_entry st k e)) x =
           (if x = k then Some e else if x = oldest then None else hm_get (entries st) x) \<and>
         order (insert_entry st k e) = rest @ [k]"
proof -
  from assms have "oldest \<in> fst ` set (entries st)" by auto
  then obtain eo where eo: "hm_get (entries st) oldest = Some eo"
    by (auto simp: map_of_eq_None_iff dest: not_None_eq [THEN iffD1] split: option.splits)
       (metis map_of_eq_None_iff not_Some_eq image_eqI fst_conv)
  have len: "length (hm_remove oldest (entries st)) < max_entries st"
    using length_hm_remove_mem [OF assms(1) \<open>oldest \<in> _\<close>] assms(4) by simp
  have "evict_loop (max_entries st) (hm_remove oldest (entries st)) rest n =
          (hm_remove oldest (entries st), rest, n)" for n
    using len by (cases rest) auto
  moreover have "0 < max_entries st" using len by simp
  ultimately show ?thesis
    using assms eo by (auto simp: insert_entry_def evict_for_capacity_def Let_def hm_simps hm_contains_def)
qed

theorem eviction_drops_the_oldest_witness:
  "hm_get (entries (insert_entry (mem_run (with_max_entries 1) [OpSet 0 0 ''a'' ''1'' 0]) ''b''
     \<lparr>entry_value = ''2'', expires_at = None\<rparr>)) ''a'' = None"
  using eviction_drops_the_oldest
    [of "mem_run (with_max_entries 1) [OpSet 0 0 ''a'' ''1'' 0]" "''a''" "[]" "''b''"
        "\<lparr>entry_value = ''2'', expires_at = None\<rparr>" "''a''"]
  by (simp add: mem_run_def mem_set_def sweep_if_due_def insert_entry_def evict_for_capacity_def
      with_max_entries_def SWEEP_EVERY_N_WRITES_def deadline_of_def Let_def hm_contains_def)

text \<open>
  The queue does not always hold each key once: a key deleted and written again keeps its old
  slot, so it is evicted before keys that were inserted earlier than its last insertion.
\<close>

lemma reinserted_key_is_evicted_first:
  "map fst (entries (mem_run (with_max_entries 2)
     [OpSet 0 0 ''a'' ''1'' 0, OpSet 1 1 ''b'' ''2'' 0, OpDelete ''a'', OpSet 2 2 ''a'' ''3'' 0,
      OpSet 3 3 ''c'' ''4'' 0])) = [''b'', ''c'']"
  by (simp add: mem_run_def mem_set_def sweep_if_due_def insert_entry_def evict_for_capacity_def
      with_max_entries_def SWEEP_EVERY_N_WRITES_def deadline_of_def mem_delete_def Let_def hm_contains_def)

end
