(* ===== verification/IsrCache.thy ===== *)
theory IsrCache
  imports MemStore
begin

text \<open>
  The page cache of \<open>krab_core/src/isr.rs\<close> (incremental static regeneration) over any store of
  the interface: policies and staleness, the retention time, the keys, and every operation of
  \<open>IsrCache\<close> with its store errors. \<open>serde_json\<close> and SHA-256 are not part of the repository: their
  functions are the fields of \<open>isr_deps\<close>.

  \<open>wall\<close> is a reading of the system clock, which dates entries; \<open>now\<close> and \<open>ts\<close> are readings of the
  store's monotonic clock. The lemmas about the cache are proved from the contract of the store
  and hold for the in-memory store through its interpretation.
\<close>

subsection \<open>Entries and policies\<close>

datatype isr_policy = Static | Revalidate (max_age: duration) | OnDemand

record isr_entry =
  html :: string
  generated_at :: instant
  policy :: isr_policy
  etag :: string

record isr_deps =
  encode :: "isr_entry \<Rightarrow> string option"
  decode :: "string \<Rightarrow> isr_entry option"
  sha256_hex :: "string \<Rightarrow> string"

datatype isr_error = EncodeFailed | StoreFailed store_error

definition compute_etag :: "isr_deps \<Rightarrow> string \<Rightarrow> string" where
  "compute_etag deps h = ''\"krab-'' @ take 16 (sha256_hex deps h) @ ''\"''"

definition entry_new :: "isr_deps \<Rightarrow> instant \<Rightarrow> string \<Rightarrow> isr_policy \<Rightarrow> isr_entry" where
  "entry_new deps wall h p =
     \<lparr>html = h, generated_at = wall, policy = p, etag = compute_etag deps h\<rparr>"

definition age :: "isr_entry \<Rightarrow> instant \<Rightarrow> duration" where
  "age e wall = wall - generated_at e"

definition is_stale :: "isr_entry \<Rightarrow> instant \<Rightarrow> bool" where
  "is_stale e wall =
     (case policy e of Static \<Rightarrow> False | Revalidate m \<Rightarrow> m < age e wall | OnDemand \<Rightarrow> True)"

definition is_fresh :: "isr_entry \<Rightarrow> instant \<Rightarrow> bool" where
  "is_fresh e wall = (\<not> is_stale e wall)"

definition STALE_RETENTION_FACTOR :: nat where "STALE_RETENTION_FACTOR = 10"
definition MIN_RETENTION :: duration where "MIN_RETENTION = from_secs 3600"
definition RENDER_LEASE_TTL :: duration where "RENDER_LEASE_TTL = from_secs 10"

definition retention_for :: "isr_policy \<Rightarrow> duration" where
  "retention_for p =
     (case p of
        Static \<Rightarrow> 0
      | Revalidate m \<Rightarrow> max (duration_saturating_mul m STALE_RETENTION_FACTOR) MIN_RETENTION
      | OnDemand \<Rightarrow> MIN_RETENTION)"

subsection \<open>Keys\<close>

definition KEY_SEPARATOR :: char where "KEY_SEPARATOR = CHR 0x01"
definition LEASE_SEPARATOR :: char where "LEASE_SEPARATOR = CHR 0x02"
definition DEFAULT_NAMESPACE :: string where "DEFAULT_NAMESPACE = ''krab:isr''"

definition isr_key :: "string \<Rightarrow> string \<Rightarrow> string" where
  "isr_key ns path = ns @ KEY_SEPARATOR # path"

definition lease_key :: "string \<Rightarrow> string \<Rightarrow> string" where
  "lease_key ns path = ns @ LEASE_SEPARATOR # path"

subsection \<open>Operations\<close>

definition isr_put ::
  "isr_deps \<Rightarrow> 'st store_ops \<Rightarrow> string \<Rightarrow> 'st \<Rightarrow> instant \<Rightarrow> instant \<Rightarrow> instant \<Rightarrow> string \<Rightarrow> string \<Rightarrow>
   isr_policy \<Rightarrow> (isr_error + unit) \<times> 'st" where
  "isr_put deps ops ns st wall now ts path h p =
     (let e = entry_new deps wall h p; ttl = retention_for (policy e)
      in case encode deps e of
           None \<Rightarrow> (Inl EncodeFailed, st)
         | Some s \<Rightarrow> apfst (map_sum StoreFailed id) (op_set ops st now ts (isr_key ns path) s ttl))"

definition isr_get ::
  "isr_deps \<Rightarrow> 'st store_ops \<Rightarrow> string \<Rightarrow> 'st \<Rightarrow> instant \<Rightarrow> string \<Rightarrow>
   (store_error + isr_entry option) \<times> 'st" where
  "isr_get deps ops ns st now path =
     (case op_get ops st now (isr_key ns path) of
        (Inl err, st') \<Rightarrow> (Inl err, st')
      | (Inr None, st') \<Rightarrow> (Inr None, st')
      | (Inr (Some raw), st') \<Rightarrow> (Inr (decode deps raw), st'))"

definition isr_invalidate :: "'st store_ops \<Rightarrow> string \<Rightarrow> 'st \<Rightarrow> string \<Rightarrow> (store_error + bool) \<times> 'st" where
  "isr_invalidate ops ns st path = op_delete ops st (isr_key ns path)"

text \<open>The loop of \<open>invalidate_prefix\<close>: the first store error ends it, deletions done so far stay.\<close>

fun delete_matching ::
  "'st store_ops \<Rightarrow> (string \<Rightarrow> bool) \<Rightarrow> 'st \<Rightarrow> string list \<Rightarrow> nat \<Rightarrow> (store_error + nat) \<times> 'st" where
  "delete_matching ops keep st [] removed = (Inr removed, st)"
| "delete_matching ops keep st (k # ks) removed =
     (if keep k then delete_matching ops keep st ks removed
      else case op_delete ops st k of
             (Inl err, st') \<Rightarrow> (Inl err, st')
           | (Inr b, st') \<Rightarrow> delete_matching ops keep st' ks (if b then removed + 1 else removed))"

definition off_boundary :: "string \<Rightarrow> string \<Rightarrow> string \<Rightarrow> bool" where
  "off_boundary pre full_prefix key =
     (if pre = [] \<or> ends_with pre ''/'' then False
      else case strip_prefix full_prefix key of
             Some rest \<Rightarrow> \<not> (rest = [] \<or> starts_with rest ''/'')
           | None \<Rightarrow> True)"

definition isr_invalidate_prefix ::
  "'st store_ops \<Rightarrow> string \<Rightarrow> 'st \<Rightarrow> instant \<Rightarrow> string \<Rightarrow> (store_error + nat) \<times> 'st" where
  "isr_invalidate_prefix ops ns st now pre =
     (let full_prefix = isr_key ns pre
      in case op_keys_with_prefix ops st now full_prefix of
           Inl err \<Rightarrow> (Inl err, st)
         | Inr ks \<Rightarrow> delete_matching ops (off_boundary pre full_prefix) st ks 0)"

definition isr_invalidate_all ::
  "'st store_ops \<Rightarrow> string \<Rightarrow> 'st \<Rightarrow> instant \<Rightarrow> (store_error + nat) \<times> 'st" where
  "isr_invalidate_all ops ns st now = isr_invalidate_prefix ops ns st now []"

definition isr_len :: "'st store_ops \<Rightarrow> string \<Rightarrow> 'st \<Rightarrow> instant \<Rightarrow> store_error + nat" where
  "isr_len ops ns st now = map_sum id length (op_keys_with_prefix ops st now (isr_key ns []))"

definition isr_is_empty :: "'st store_ops \<Rightarrow> string \<Rightarrow> 'st \<Rightarrow> instant \<Rightarrow> store_error + bool" where
  "isr_is_empty ops ns st now = map_sum id (\<lambda>n. n = 0) (isr_len ops ns st now)"

text \<open>\<open>stale_paths\<close>; the \<open>i\<close>-th key is read at \<open>clk i\<close>, a pair of store time and wall time.\<close>

fun stale_loop ::
  "isr_deps \<Rightarrow> 'st store_ops \<Rightarrow> string \<Rightarrow> (nat \<Rightarrow> instant \<times> instant) \<Rightarrow> 'st \<Rightarrow> string list \<Rightarrow> nat \<Rightarrow>
   string list \<Rightarrow> (store_error + string list) \<times> 'st" where
  "stale_loop deps ops ns clk st [] i acc = (Inr acc, st)"
| "stale_loop deps ops ns clk st (k # ks) i acc =
     (case strip_prefix (isr_key ns []) k of
        None \<Rightarrow> stale_loop deps ops ns clk st ks (i + 1) acc
      | Some path \<Rightarrow>
          (case isr_get deps ops ns st (fst (clk i)) path of
             (Inl err, st') \<Rightarrow> (Inl err, st')
           | (Inr None, st') \<Rightarrow> stale_loop deps ops ns clk st' ks (i + 1) acc
           | (Inr (Some e), st') \<Rightarrow>
               stale_loop deps ops ns clk st' ks (i + 1)
                 (if is_stale e (snd (clk i)) then acc @ [path] else acc)))"

definition isr_stale_paths ::
  "isr_deps \<Rightarrow> 'st store_ops \<Rightarrow> string \<Rightarrow> (nat \<Rightarrow> instant \<times> instant) \<Rightarrow> 'st \<Rightarrow> instant \<Rightarrow>
   (store_error + string list) \<times> 'st" where
  "isr_stale_paths deps ops ns clk st now =
     (case op_keys_with_prefix ops st now (isr_key ns []) of
        Inl err \<Rightarrow> (Inl err, st)
      | Inr ks \<Rightarrow> stale_loop deps ops ns clk st ks 0 [])"

definition isr_serve ::
  "isr_deps \<Rightarrow> 'st store_ops \<Rightarrow> string \<Rightarrow> 'st \<Rightarrow> instant \<Rightarrow> instant \<Rightarrow> string \<Rightarrow>
   (store_error + (string \<times> bool) option) \<times> 'st" where
  "isr_serve deps ops ns st wall now path =
     apfst (map_sum id (map_option (\<lambda>e. (html e, is_stale e wall)))) (isr_get deps ops ns st now path)"

datatype isr_serve_outcome = Hit isr_entry | MissAcquired | MissLocked

text \<open>The second half of \<open>serve_or_lease\<close>, after a miss: a store error lets the caller render.\<close>

definition lease_section ::
  "'st store_ops \<Rightarrow> string \<Rightarrow> 'st \<Rightarrow> instant \<Rightarrow> instant \<Rightarrow> string \<Rightarrow> isr_serve_outcome \<times> 'st" where
  "lease_section ops ns st now ts path =
     (case op_set_if_absent ops st now ts (lease_key ns path) ''1'' RENDER_LEASE_TTL of
        (Inr True, st') \<Rightarrow> (MissAcquired, st')
      | (Inr False, st') \<Rightarrow> (MissLocked, st')
      | (Inl _, st') \<Rightarrow> (MissAcquired, st'))"

definition serve_or_lease ::
  "isr_deps \<Rightarrow> 'st store_ops \<Rightarrow> string \<Rightarrow> 'st \<Rightarrow> instant \<Rightarrow> instant \<Rightarrow> instant \<Rightarrow> string \<Rightarrow>
   (store_error + isr_serve_outcome) \<times> 'st" where
  "serve_or_lease deps ops ns st now1 now2 ts path =
     (case isr_get deps ops ns st now1 path of
        (Inl err, st1) \<Rightarrow> (Inl err, st1)
      | (Inr (Some e), st1) \<Rightarrow> (Inr (Hit e), st1)
      | (Inr None, st1) \<Rightarrow> apfst Inr (lease_section ops ns st1 now2 ts path))"

definition release_lease :: "'st store_ops \<Rightarrow> string \<Rightarrow> 'st \<Rightarrow> string \<Rightarrow> (store_error + bool) \<times> 'st" where
  "release_lease ops ns st path = op_delete ops st (lease_key ns path)"


subsection \<open>Keys of different caches and leases do not meet\<close>

lemma isr_key_inject [simp]: "isr_key ns p = isr_key ns p' \<longleftrightarrow> p = p'"
  by (simp add: isr_key_def)

lemma prefix_isr_key: "prefix (isr_key ns pre) (isr_key ns path) \<longleftrightarrow> prefix pre path"
  by (simp add: isr_key_def)

lemma sibling_keys_disjoint:
  assumes "prefix (isr_key ns pre) (isr_key ns' path)"
    and "KEY_SEPARATOR \<notin> set ns" and "KEY_SEPARATOR \<notin> set ns'"
  shows "ns = ns'"
proof -
  obtain r where "ns' @ KEY_SEPARATOR # path = ns @ KEY_SEPARATOR # (pre @ r)"
    using assms(1) by (auto simp: isr_key_def prefix_def)
  then have "split_once KEY_SEPARATOR (ns' @ KEY_SEPARATOR # path) = Some (ns, pre @ r)"
    and "split_once KEY_SEPARATOR (ns' @ KEY_SEPARATOR # path) = Some (ns', path)"
    using assms(2,3) by (simp_all add: split_once_Some)
  then show ?thesis by simp
qed

lemma lease_is_no_entry:
  assumes "LEASE_SEPARATOR \<notin> set ns" and "KEY_SEPARATOR \<notin> set ns'"
  shows "\<not> prefix (isr_key ns pre) (lease_key ns' path)"
proof
  assume "prefix (isr_key ns pre) (lease_key ns' path)"
  then obtain r where "ns' @ LEASE_SEPARATOR # path = ns @ KEY_SEPARATOR # (pre @ r)"
    by (auto simp: isr_key_def lease_key_def prefix_def)
  then obtain us where "ns' = ns @ us \<and> us @ LEASE_SEPARATOR # path = KEY_SEPARATOR # (pre @ r) \<or>
      ns' @ us = ns \<and> LEASE_SEPARATOR # path = us @ KEY_SEPARATOR # (pre @ r)"
    by (auto simp: append_eq_append_conv2)
  with assms show False
    by (cases us) (auto simp: KEY_SEPARATOR_def LEASE_SEPARATOR_def)
qed

lemma off_boundary_key:
  "off_boundary pre (isr_key ns pre) (isr_key ns path) \<longleftrightarrow>
     pre \<noteq> [] \<and> \<not> suffix ''/'' pre \<and> path \<noteq> pre \<and> \<not> prefix (pre @ ''/'') path"
proof (cases "prefix pre path")
  case True
  then obtain r where r: "path = pre @ r" by (auto simp: prefix_def)
  then have "strip_prefix (isr_key ns pre) (isr_key ns path) = Some r"
    by (simp add: strip_prefix_Some isr_key_def)
  with r show ?thesis
    by (cases r) (auto simp: off_boundary_def ends_with_def starts_with_def)
next
  case False
  then have "strip_prefix (isr_key ns pre) (isr_key ns path) = None"
    by (simp add: strip_prefix_def prefix_isr_key)
  moreover have "path \<noteq> pre" "\<not> prefix (pre @ ''/'') path"
    using False by (auto dest: append_prefixD)
  ultimately show ?thesis by (auto simp: off_boundary_def ends_with_def)
qed

subsection \<open>The cache over any store that keeps the contract\<close>

definition codec_ok :: "isr_deps \<Rightarrow> bool" where
  "codec_ok deps \<longleftrightarrow> (\<forall>e. \<exists>s. encode deps e = Some s \<and> decode deps s = Some e)"

definition removed_by :: "string \<Rightarrow> string \<Rightarrow> bool" where
  "removed_by pre path \<longleftrightarrow>
     (if pre = [] \<or> suffix ''/'' pre then prefix pre path
      else path = pre \<or> prefix (pre @ ''/'') path)"

lemma removed_by_prefix: "removed_by pre path \<Longrightarrow> prefix pre path"
  by (auto simp: removed_by_def dest: append_prefixD split: if_splits)

lemma removed_by_iff:
  "removed_by pre path \<longleftrightarrow> prefix pre path \<and> \<not> off_boundary pre (isr_key ns pre) (isr_key ns path)"
  using removed_by_prefix [of pre path] by (auto simp: off_boundary_key removed_by_def)

datatype burst_step = BurstGet instant | BurstLease instant instant

text \<open>
  A cold burst: any interleaving of the two critical sections of \<open>serve_or_lease\<close> by any number
  of callers, none of which has stored the page yet; the result lists the outcomes of the lease
  attempts.
\<close>

fun burst_run ::
  "isr_deps \<Rightarrow> 'st store_ops \<Rightarrow> string \<Rightarrow> string \<Rightarrow> 'st \<Rightarrow> burst_step list \<Rightarrow>
   isr_serve_outcome list" where
  "burst_run deps ops ns path st [] = []"
| "burst_run deps ops ns path st (BurstGet now # bs) =
     burst_run deps ops ns path (snd (isr_get deps ops ns st now path)) bs"
| "burst_run deps ops ns path st (BurstLease now ts # bs) =
     (let (r, st') = lease_section ops ns st now ts path
      in r # burst_run deps ops ns path st' bs)"

fun burst_start :: "burst_step \<Rightarrow> instant" where
  "burst_start (BurstGet now) = now"
| "burst_start (BurstLease now ts) = now"

fun burst_end :: "burst_step \<Rightarrow> instant" where
  "burst_end (BurstGet now) = now"
| "burst_end (BurstLease now ts) = ts"

text \<open>Each step starts when the one before has ended, and ends no earlier than it starts.\<close>

fun burst_ordered :: "instant \<Rightarrow> burst_step list \<Rightarrow> bool" where
  "burst_ordered t0 [] = True"
| "burst_ordered t0 (b # bs) \<longleftrightarrow> t0 \<le> burst_start b \<and> burst_start b \<le> burst_end b \<and> burst_ordered (burst_end b) bs"

fun burst_last :: "instant \<Rightarrow> burst_step list \<Rightarrow> instant" where
  "burst_last t0 [] = t0"
| "burst_last t0 (b # bs) = burst_last (burst_end b) bs"

definition burst_leases :: "burst_step list \<Rightarrow> nat" where
  "burst_leases bs = length (filter (\<lambda>b. case b of BurstLease _ _ \<Rightarrow> True | _ \<Rightarrow> False) bs)"

context distributed_store
begin

lemma isr_get_spec:
  assumes "inv st"
  shows "fst (isr_get deps ops ns st now path) = Inr (Option.bind (look st now (isr_key ns path)) (decode deps))"
    and "inv (snd (isr_get deps ops ns st now path))"
    and "now \<le> t \<Longrightarrow> look (snd (isr_get deps ops ns st now path)) t k = look st t k"
proof -
  obtain r st' where g: "op_get ops st now (isr_key ns path) = (r, st')" by fastforce
  from get_result [OF assms, of now "isr_key ns path"] get_inv [OF assms, of now "isr_key ns path"]
    get_look [OF assms, of now t "isr_key ns path" k] g
  show "fst (isr_get deps ops ns st now path) = Inr (Option.bind (look st now (isr_key ns path)) (decode deps))"
    and "inv (snd (isr_get deps ops ns st now path))"
    and "now \<le> t \<Longrightarrow> look (snd (isr_get deps ops ns st now path)) t k = look st t k"
    by (auto simp: isr_get_def split: option.splits)
qed

lemma isr_put_then_get:
  assumes "inv st" and "codec_ok deps" and "ts \<le> t" and "alive now (retention_for p) t"
  shows "fst (isr_put deps ops ns st wall now ts path h p) = Inr ()"
    and "fst (isr_get deps ops ns (snd (isr_put deps ops ns st wall now ts path h p)) t path) =
           Inr (Some (entry_new deps wall h p))"
proof -
  obtain s where s: "encode deps (entry_new deps wall h p) = Some s" "decode deps s = Some (entry_new deps wall h p)"
    using assms(2) by (auto simp: codec_ok_def)
  have p: "policy (entry_new deps wall h p) = p" by (simp add: entry_new_def)
  note w = set_result [OF assms(1), of now ts "isr_key ns path" s "retention_for p"]
    set_inv [OF assms(1), of now ts "isr_key ns path" s "retention_for p"]
    set_look [OF assms(1,3), of now "isr_key ns path" s "retention_for p"]
  show "fst (isr_put deps ops ns st wall now ts path h p) = Inr ()"
    using w(1) by (simp add: isr_put_def Let_def s p)
  show "fst (isr_get deps ops ns (snd (isr_put deps ops ns st wall now ts path h p)) t path) =
          Inr (Some (entry_new deps wall h p))"
    using w(2,3) assms(4) by (simp add: isr_put_def Let_def s p isr_get_spec(1))
qed

lemma delete_matching_spec:
  assumes "inv st" and "distinct ks" and "\<forall>k \<in> set ks. look st now k \<noteq> None"
  shows "\<exists>st'. delete_matching ops keep st ks n = (Inr (n + length (filter (\<lambda>k. \<not> keep k) ks)), st') \<and>
           inv st' \<and> (\<forall>t k. look st' t k = (if k \<in> set ks \<and> \<not> keep k then None else look st t k))"
  using assms
proof (induction ks arbitrary: st n)
  case Nil
  then show ?case by simp
next
  case (Cons k ks)
  show ?case
  proof (cases "keep k")
    case True
    with Cons.prems Cons.IH [of st n] show ?thesis by auto
  next
    case False
    obtain r st1 where d: "op_delete ops st k = (r, st1)" by fastforce
    have r: "r = Inr True"
      using delete_result [OF Cons.prems(1), of k now] Cons.prems(3) d by auto
    have st1: "inv st1" "\<And>t k'. look st1 t k' = (if k' = k then None else look st t k')"
      using delete_inv [OF Cons.prems(1), of k] delete_look [OF Cons.prems(1)] d by (metis snd_conv)+
    have "\<forall>k' \<in> set ks. look st1 now k' \<noteq> None"
      using Cons.prems(2,3) st1(2) by auto
    with Cons.IH [of st1 "n + 1"] Cons.prems(2) st1 False d r show ?thesis by auto
  qed
qed

lemma isr_invalidate_prefix_spec:
  assumes "inv st"
  obtains st' ks where "isr_invalidate_prefix ops ns st now pre =
      (Inr (length (filter (\<lambda>k. \<not> off_boundary pre (isr_key ns pre) k) ks)), st')"
    and "inv st'" and "distinct ks" and "set ks = {k. prefix (isr_key ns pre) k \<and> look st now k \<noteq> None}"
    and "\<And>t k. look st' t k =
      (if prefix (isr_key ns pre) k \<and> look st now k \<noteq> None \<and> \<not> off_boundary pre (isr_key ns pre) k
       then None else look st t k)"
proof -
  obtain ks where ks: "op_keys_with_prefix ops st now (isr_key ns pre) = Inr ks" "distinct ks"
    "set ks = {k. prefix (isr_key ns pre) k \<and> look st now k \<noteq> None}"
    using keys_result [OF assms] by blast
  from delete_matching_spec [OF assms ks(2), of now "off_boundary pre (isr_key ns pre)" 0] ks
  obtain st' where "delete_matching ops (off_boundary pre (isr_key ns pre)) st ks 0 =
      (Inr (length (filter (\<lambda>k. \<not> off_boundary pre (isr_key ns pre) k) ks)), st')" "inv st'"
    "\<And>t k. look st' t k = (if k \<in> set ks \<and> \<not> off_boundary pre (isr_key ns pre) k then None else look st t k)"
    by auto
  with ks that show thesis by (auto simp: isr_invalidate_prefix_def Let_def)
qed

lemma burst_last_ge: "burst_ordered t0 bs \<Longrightarrow> t0 \<le> burst_last t0 bs"
  by (induction t0 bs rule: burst_last.induct) auto

lemma burst_held:
  assumes "inv st" and "look st (burst_last t0 bs) (lease_key ns path) = Some v" and "burst_ordered t0 bs"
  shows "burst_run deps ops ns path st bs = replicate (burst_leases bs) MissLocked"
  using assms
proof (induction bs arbitrary: st t0)
  case Nil
  then show ?case by (simp add: burst_leases_def)
next
  case (Cons b bs)
  let ?k = "lease_key ns path"
  have late: "burst_start b \<le> burst_last (burst_end b) bs" "burst_ordered (burst_end b) bs"
    using Cons.prems(3) burst_last_ge [of "burst_end b" bs] by auto
  show ?case
  proof (cases b)
    case (BurstGet now)
    have "burst_run deps ops ns path (snd (isr_get deps ops ns st now path)) bs =
        replicate (burst_leases bs) MissLocked"
      using Cons.prems late BurstGet by (intro Cons.IH [of _ now]) (simp_all add: isr_get_spec)
    with BurstGet show ?thesis by (simp add: burst_leases_def)
  next
    case (BurstLease now ts)
    have held: "look st now ?k = Some v"
      using Cons.prems(2) late BurstLease look_earlier [of st "burst_last ts bs" ?k v now] by simp
    then have st: "op_set_if_absent ops st now ts ?k ''1'' RENDER_LEASE_TTL = (Inr False, st)"
      using absent_result [OF Cons.prems(1)] absent_lost [OF Cons.prems(1)]
      by (simp add: prod_eq_iff)
    have "burst_run deps ops ns path st bs = replicate (burst_leases bs) MissLocked"
      using Cons.prems late BurstLease by (intro Cons.IH [of _ ts]) simp_all
    with BurstLease st show ?thesis by (simp add: burst_leases_def lease_section_def)
  qed
qed

lemma burst_one_winner:
  assumes "inv st" and "look st t0 (lease_key ns path) = None" and "burst_ordered t0 bs"
    and "burst_last t0 bs < t0 + RENDER_LEASE_TTL"
  shows "burst_run deps ops ns path st bs =
           (case burst_leases bs of 0 \<Rightarrow> [] | Suc n \<Rightarrow> MissAcquired # replicate n MissLocked)"
  using assms
proof (induction bs arbitrary: st t0)
  case Nil
  then show ?case by (simp add: burst_leases_def)
next
  case (Cons b bs)
  let ?k = "lease_key ns path"
  have o: "t0 \<le> burst_start b" "burst_start b \<le> burst_end b" "burst_ordered (burst_end b) bs"
    using Cons.prems(3) by auto
  show ?case
  proof (cases b)
    case (BurstGet now)
    have "burst_run deps ops ns path (snd (isr_get deps ops ns st now path)) bs =
        (case burst_leases bs of 0 \<Rightarrow> [] | Suc n \<Rightarrow> MissAcquired # replicate n MissLocked)"
      using Cons.prems o BurstGet
      by (intro Cons.IH [of _ now]) (auto simp: isr_get_spec intro: look_gone_later)
    with BurstGet show ?thesis by (simp add: burst_leases_def)
  next
    case (BurstLease now ts)
    have free: "look st now ?k = None"
      using Cons.prems(2) o BurstLease look_gone_later [of st t0 ?k now] by simp
    obtain st1 where st1: "op_set_if_absent ops st now ts ?k ''1'' RENDER_LEASE_TTL = (Inr True, st1)"
      using absent_result [OF Cons.prems(1), of now ts ?k "''1''" RENDER_LEASE_TTL] free
      by (metis prod.collapse)
    have "look st1 (burst_last ts bs) ?k = Some ''1''"
      using absent_look [OF Cons.prems(1) free, of ts "burst_last ts bs" "''1''" RENDER_LEASE_TTL]
        st1 o BurstLease Cons.prems(4) burst_last_ge [of ts bs] by (simp add: alive_def)
    moreover have "inv st1"
      using absent_inv [OF Cons.prems(1), of now ts ?k "''1''" RENDER_LEASE_TTL] st1 by simp
    ultimately have "burst_run deps ops ns path st1 bs = replicate (burst_leases bs) MissLocked"
      using o BurstLease by (intro burst_held) simp_all
    with BurstLease st1 show ?thesis by (simp add: burst_leases_def lease_section_def)
  qed
qed

lemma invalidate_prefix_paths:
  assumes "inv st"
  shows "fst (isr_invalidate_prefix ops ns st now pre) =
           Inr (card {path. removed_by pre path \<and> look st now (isr_key ns path) \<noteq> None})"
    and "now \<le> t \<Longrightarrow> look (snd (isr_invalidate_prefix ops ns st now pre)) t (isr_key ns path) =
           (if removed_by pre path then None else look st t (isr_key ns path))"
    and "\<not> prefix (isr_key ns pre) k \<Longrightarrow>
           look (snd (isr_invalidate_prefix ops ns st now pre)) t k = look st t k"
proof -
  obtain st' ks where i: "isr_invalidate_prefix ops ns st now pre =
      (Inr (length (filter (\<lambda>k. \<not> off_boundary pre (isr_key ns pre) k) ks)), st')"
    and ks: "distinct ks" "set ks = {k. prefix (isr_key ns pre) k \<and> look st now k \<noteq> None}"
    and l: "\<And>t k. look st' t k =
      (if prefix (isr_key ns pre) k \<and> look st now k \<noteq> None \<and> \<not> off_boundary pre (isr_key ns pre) k
       then None else look st t k)"
    by (rule isr_invalidate_prefix_spec [OF assms, of ns now pre]) (rule that)
  let ?R = "{path. removed_by pre path \<and> look st now (isr_key ns path) \<noteq> None}"
  have "set (filter (\<lambda>k. \<not> off_boundary pre (isr_key ns pre) k) ks) = isr_key ns ` ?R"
  proof (intro set_eqI iffI)
    fix k assume "k \<in> set (filter (\<lambda>k. \<not> off_boundary pre (isr_key ns pre) k) ks)"
    moreover from this ks obtain r where "k = isr_key ns (pre @ r)"
      by (auto simp: prefix_def isr_key_def)
    ultimately show "k \<in> isr_key ns ` ?R" using ks by (auto simp: removed_by_iff [of _ _ ns])
  next
    fix k assume "k \<in> isr_key ns ` ?R"
    then show "k \<in> set (filter (\<lambda>k. \<not> off_boundary pre (isr_key ns pre) k) ks)"
      using ks by (auto simp: removed_by_iff [of _ _ ns] prefix_isr_key)
  qed
  then have "length (filter (\<lambda>k. \<not> off_boundary pre (isr_key ns pre) k) ks) = card ?R"
    using ks(1) distinct_card [of "filter (\<lambda>k. \<not> off_boundary pre (isr_key ns pre) k) ks"]
      card_image [of "isr_key ns" ?R] by (simp add: inj_on_def)
  with i show "fst (isr_invalidate_prefix ops ns st now pre) = Inr (card ?R)" by simp
  show "now \<le> t \<Longrightarrow> look (snd (isr_invalidate_prefix ops ns st now pre)) t (isr_key ns path) =
      (if removed_by pre path then None else look st t (isr_key ns path))"
    using i l [of t "isr_key ns path"] look_gone_later [of st now "isr_key ns path" t]
    by (auto simp: removed_by_iff [of _ _ ns] prefix_isr_key)
  show "\<not> prefix (isr_key ns pre) k \<Longrightarrow>
      look (snd (isr_invalidate_prefix ops ns st now pre)) t k = look st t k"
    using i l by simp
qed

end

subsection \<open>Guarantees on the in-memory store\<close>

text \<open>A codec for the witnesses: every field is written with its length in front.\<close>

definition frame :: "string \<Rightarrow> string" where
  "frame s = show_nat (length s) @ '':'' @ s"

definition unframe :: "string \<Rightarrow> (string \<times> string) option" where
  "unframe raw =
     (case split_once CHR '':'' raw of
        None \<Rightarrow> None
      | Some (n, rest) \<Rightarrow>
          map_option (\<lambda>k. (take k rest, drop k rest)) (parse_digits 0 n))"

lemma colon_not_in_show_nat: "CHR '':'' \<notin> set (show_nat n)"
proof
  assume "CHR '':'' \<in> set (show_nat n)"
  then obtain a b where ab: "show_nat n = a @ CHR '':'' # b" by (meson split_list)
  have "parse_digits m (CHR '':'' # b) = None" for m
    by (simp add: digit_val_def)
  then have "parse_digits 0 (show_nat n) = None"
    unfolding ab parse_digits_append by (auto split: option.splits)
  then show False by (simp add: parse_digits_show_nat)
qed

lemma unframe_frame [simp]: "unframe (frame s @ rest) = Some (s, rest)"
proof -
  have "split_once CHR '':'' (frame s @ rest) = Some (show_nat (length s), s @ rest)"
    by (simp add: split_once_Some frame_def colon_not_in_show_nat)
  then show ?thesis by (simp add: unframe_def parse_digits_show_nat)
qed

definition show_policy :: "isr_policy \<Rightarrow> string" where
  "show_policy p = (case p of Static \<Rightarrow> ''s'' | OnDemand \<Rightarrow> ''o'' | Revalidate m \<Rightarrow> ''r'' @ show_nat m)"

definition read_policy :: "string \<Rightarrow> isr_policy option" where
  "read_policy s =
     (case s of
        [] \<Rightarrow> None
      | c # cs \<Rightarrow> if c = CHR ''s'' then Some Static else if c = CHR ''o'' then Some OnDemand
                  else map_option Revalidate (parse_digits 0 cs))"

lemma read_show_policy [simp]: "read_policy (show_policy p) = Some p"
  by (cases p) (simp_all add: read_policy_def show_policy_def parse_digits_show_nat)

definition sample_encode :: "isr_entry \<Rightarrow> string option" where
  "sample_encode e = Some (frame (html e) @ frame (show_nat (generated_at e)) @
     frame (show_policy (policy e)) @ frame (etag e))"

definition sample_decode :: "string \<Rightarrow> isr_entry option" where
  "sample_decode raw =
     Option.bind (unframe raw) (\<lambda>(h, r1). Option.bind (unframe r1) (\<lambda>(g, r2).
     Option.bind (unframe r2) (\<lambda>(p, r3). Option.bind (unframe r3) (\<lambda>(e, r4).
     Option.bind (parse_digits 0 g) (\<lambda>gn. Option.bind (read_policy p) (\<lambda>pp.
       Some \<lparr>html = h, generated_at = gn, policy = pp, etag = e\<rparr>))))))"

definition sample_deps :: isr_deps where
  "sample_deps = \<lparr>encode = sample_encode, decode = sample_decode, sha256_hex = take 64\<rparr>"

lemma sample_codec: "codec_ok sample_deps"
proof -
  have "sample_decode (the (sample_encode e)) = Some e" for e
    using unframe_frame [of "etag e" "[]"]
    by (simp add: sample_decode_def sample_encode_def parse_digits_show_nat)
  then show ?thesis by (simp add: codec_ok_def sample_deps_def sample_encode_def)
qed

lemma retention_for_Revalidate:
  "10 * m \<le> duration_max \<Longrightarrow> retention_for (Revalidate m) = max (10 * m) (from_secs 3600)"
  by (simp add: retention_for_def duration_saturating_mul_def STALE_RETENTION_FACTOR_def
      MIN_RETENTION_def mult.commute)

lemma page_key_after:
  assumes "store_inv st" and "codec_ok deps" and "max_entries st = 0" and "ts \<le> t"
    and "\<forall>op \<in> set others. mem_op_key op \<noteq> isr_key ns path \<and> mem_op_end op \<le> t"
  shows "fst (isr_serve deps mem_ops ns
           (mem_run (snd (isr_put deps mem_ops ns st wall now ts path h p)) others) wall' t path) =
         Inr (if alive now (retention_for p) t then Some (h, is_stale (entry_new deps wall h p) wall') else None)"
proof -
  define e where "e = entry_new deps wall h p"
  have p: "policy e = p" "html e = h" by (simp_all add: e_def entry_new_def)
  obtain s where s: "encode deps e = Some s" "decode deps s = Some e"
    using assms(2) by (auto simp: codec_ok_def)
  define st1 where "st1 = snd (op_set mem_ops st now ts (isr_key ns path) s (retention_for p))"
  have put: "snd (isr_put deps mem_ops ns st wall now ts path h p) = st1"
    by (simp add: isr_put_def Let_def st1_def s p flip: e_def)
  have st1: "store_inv st1" "max_entries st1 = 0"
    using assms mem.set_inv by (simp_all add: st1_def)
  have "live (mem_run st1 others) t (isr_key ns path) = live st1 t (isr_key ns path)"
    using st1 assms(5) by (intro mem_run_other) auto
  also have "\<dots> = (if alive now (retention_for p) t then Some s else None)"
    using mem.set_look [OF assms(1,4)] by (simp add: st1_def)
  finally have "fst (isr_get deps mem_ops ns (mem_run st1 others) t path) =
      Inr (if alive now (retention_for p) t then Some e else None)"
    using mem.isr_get_spec(1) [of "mem_run st1 others"] st1 by (simp add: mem_run_inv s)
  with put show ?thesis
    by (simp add: isr_serve_def apfst_def map_prod_def split_beta p flip: e_def)
qed

text \<open>
  stale-while-revalidate. A page put with \<open>Revalidate m\<close> into an uncapped store is served
  after any traffic on other keys: for all of ten times \<open>m\<close>, and for at least an hour, every
  reader gets the page, marked stale exactly when the wall clock says it is older than \<open>m\<close>; from
  then on every reader misses. So no reader misses before the page is stale.
\<close>

theorem stale_pages_stay_servable:
  assumes "store_inv st" and "max_entries st = 0" and "codec_ok deps" and "10 * m \<le> duration_max"
    and "ts \<le> t" and "\<forall>op \<in> set others. mem_op_key op \<noteq> isr_key ns path \<and> mem_op_end op \<le> t"
  shows "fst (isr_serve deps mem_ops ns
           (mem_run (snd (isr_put deps mem_ops ns st wall now ts path h (Revalidate m))) others) wall' t path) =
         Inr (if t < now + max (10 * m) (from_secs 3600) then Some (h, m < wall' - wall) else None)"
proof -
  have "alive now (retention_for (Revalidate m)) t \<longleftrightarrow> t < now + max (10 * m) (from_secs 3600)"
    by (auto simp: alive_def retention_for_Revalidate [OF assms(4)] from_secs_def)
  then show ?thesis
    using page_key_after [OF assms(1,3,2,5,6)]
    by (simp add: is_stale_def age_def entry_new_def)
qed

theorem stale_pages_stay_servable_witness:
  "fst (isr_serve sample_deps mem_ops ''n'' (mem_run (snd (isr_put sample_deps mem_ops ''n''
      (with_max_entries 0) 7 0 0 ''/a'' ''page'' (Revalidate 5))) [OpSet 1 2 ''x'' ''1'' 0, OpDelete ''y''])
      13 20 ''/a'') = Inr (Some (''page'', True))"
  using stale_pages_stay_servable [of "with_max_entries 0" sample_deps 5 0 20
      "[OpSet 1 2 ''x'' ''1'' 0, OpDelete ''y'']" "''n''" "''/a''" 7 0 "''page''" 13]
  by (simp add: with_max_entries_inv sample_codec duration_max_def from_secs_def isr_key_def KEY_SEPARATOR_def)
    (simp add: with_max_entries_def)

text \<open>
  C2: a cold miss is rendered once. While a page is missing and unleased, the critical sections
  of any number of \<open>serve_or_lease\<close> callers may interleave in any order: within the lease time
  the first lease attempt is granted (\<open>MissAcquired\<close>) and every other one is refused
  (\<open>MissLocked\<close>).
\<close>

theorem cold_burst_renders_once:
  assumes "store_inv st" and "live st t0 (lease_key ns path) = None"
    and "burst_ordered t0 bs" and "burst_last t0 bs < t0 + RENDER_LEASE_TTL"
  shows "burst_run deps mem_ops ns path st bs =
           (case burst_leases bs of 0 \<Rightarrow> [] | Suc n \<Rightarrow> MissAcquired # replicate n MissLocked)"
  using assms by (rule mem.burst_one_winner)

theorem cold_burst_renders_once_witness:
  "burst_run sample_deps mem_ops ''n'' ''/a'' (with_max_entries 8)
     [BurstGet 1, BurstGet 2, BurstLease 3 4, BurstGet 5, BurstLease 6 6, BurstLease 7 9] =
   [MissAcquired, MissLocked, MissLocked]"
  using cold_burst_renders_once [of "with_max_entries 8" 0 "''n''" "''/a''"
      "[BurstGet 1, BurstGet 2, BurstLease 3 4, BurstGet 5, BurstLease 6 6, BurstLease 7 9]" sample_deps]
  by (simp add: with_max_entries_inv burst_leases_def RENDER_LEASE_TTL_def from_secs_def)
    (simp add: with_max_entries_def live_def)

text \<open>
  \<open>invalidate_prefix\<close> respects path segments. It removes exactly the live pages equal to the
  prefix or below it as a directory (any extension, when the prefix is empty or ends in a slash),
  returns their number, and every other page of the cache reads as before.
\<close>

theorem invalidate_prefix_is_segment_aware:
  assumes "store_inv st" and "now \<le> t"
  shows "fst (isr_invalidate_prefix mem_ops ns st now pre) =
           Inr (card {path. removed_by pre path \<and> live st now (isr_key ns path) \<noteq> None}) \<and>
         live (snd (isr_invalidate_prefix mem_ops ns st now pre)) t (isr_key ns path) =
           (if removed_by pre path then None else live st t (isr_key ns path))"
  using mem.invalidate_prefix_paths(1) [OF assms(1)] mem.invalidate_prefix_paths(2) [OF assms] by simp

theorem invalidate_prefix_is_segment_aware_witness:
  "live (snd (isr_invalidate_prefix mem_ops ''n'' (mem_set (with_max_entries 0) 0 0 (isr_key ''n'' ''/ab'') ''x'' 0) 1 ''/a''))
     2 (isr_key ''n'' ''/ab'') = Some ''x''"
  using invalidate_prefix_is_segment_aware
    [of "mem_set (with_max_entries 0) 0 0 (isr_key ''n'' ''/ab'') ''x'' 0" 1 2 "''n''" "''/a''" "''/ab''"]
  by (simp add: mem_set_inv with_max_entries_inv removed_by_def suffix_to_prefix)
    (simp add: mem_set_spec with_max_entries_inv alive_def)

text \<open>
  caches that share one store are isolated. When no namespace contains the key separator,
  \<open>invalidate_all\<close> of one cache empties that cache, and neither a page of another cache nor a
  render lease of any cache is touched.
\<close>

theorem invalidate_all_is_scoped:
  assumes "store_inv st" and "now \<le> t" and "ns \<noteq> ns'"
    and "KEY_SEPARATOR \<notin> set ns" and "KEY_SEPARATOR \<notin> set ns'" and "LEASE_SEPARATOR \<notin> set ns"
  shows "live (snd (isr_invalidate_all mem_ops ns st now)) t (isr_key ns path) = None \<and>
         live (snd (isr_invalidate_all mem_ops ns st now)) t (isr_key ns' path) = live st t (isr_key ns' path) \<and>
         live (snd (isr_invalidate_all mem_ops ns st now)) t (lease_key ns' path) = live st t (lease_key ns' path)"
proof -
  have "\<not> prefix (isr_key ns []) (isr_key ns' path)"
    using sibling_keys_disjoint assms(3,4,5) by blast
  moreover have "\<not> prefix (isr_key ns []) (lease_key ns' path)"
    using lease_is_no_entry assms(5,6) by blast
  ultimately show ?thesis
    using mem.invalidate_prefix_paths(2,3) [OF assms(1)] assms(2)
    by (simp add: isr_invalidate_all_def removed_by_def)
qed

theorem invalidate_all_is_scoped_witness:
  "live (snd (isr_invalidate_all mem_ops ''a'' (mem_set (with_max_entries 0) 0 0 (isr_key ''b'' ''/'') ''x'' 0) 1))
     2 (isr_key ''b'' ''/'') = Some ''x''"
  using invalidate_all_is_scoped
    [of "mem_set (with_max_entries 0) 0 0 (isr_key ''b'' ''/'') ''x'' 0" 1 2 "''a''" "''b''" "''/''"]
  by (simp add: mem_set_inv with_max_entries_inv KEY_SEPARATOR_def LEASE_SEPARATOR_def)
    (simp add: mem_set_spec with_max_entries_inv alive_def)

end
