(* ===== verification/OrchConfig.thy ===== *)
theory OrchConfig
  imports KrabPrelude "HOL-Library.List_Lexorder" "HOL-Library.Char_ord"
begin

text \<open>
  The manifest of the orchestrator, \<open>krab_orchestrator/src/configuration.rs\<close>: service definitions
  with their effective settings, the environment a child receives, and the validation that rejects
  manifests whose services would share a port or a name. The TOML parser is not part of the
  repository, so the model starts at the parsed manifest; the serde defaults are constants.
  \<open>BTreeMap\<close> is an association list with updates by key.
\<close>

subsection \<open>The manifest\<close>

definition PORT_ENV_KEY :: string where "PORT_ENV_KEY = ''KRAB_PORT''"
definition SERVICE_NAME_ENV_KEY :: string where "SERVICE_NAME_ENV_KEY = ''KRAB_SERVICE_NAME''"
definition DEFAULT_POLL_MS :: u64 where "DEFAULT_POLL_MS = 1000"
definition DEFAULT_SETTLE_MS :: u64 where "DEFAULT_SETTLE_MS = 500"
definition DEFAULT_SHUTDOWN_TIMEOUT_MS :: u64 where "DEFAULT_SHUTDOWN_TIMEOUT_MS = 5000"
definition MIN_POLL_MS :: u64 where "MIN_POLL_MS = 50"
definition MIN_SETTLE_MS :: u64 where "MIN_SETTLE_MS = 50"

definition default_restart_backoff_ms :: u64 where "default_restart_backoff_ms = 500"
definition default_max_restart_attempts :: u32 where "default_max_restart_attempts = 5"
definition default_restart_stability_window_ms :: u64 where "default_restart_stability_window_ms = 60000"
definition default_healthcheck_timeout_ms :: u64 where "default_healthcheck_timeout_ms = 1200"
definition default_healthcheck_retries :: u8 where "default_healthcheck_retries = 10"
definition default_healthcheck_interval_ms :: u64 where "default_healthcheck_interval_ms = 250"

record restart_policy_config =
  rp_on_exit :: bool
  rp_backoff_ms :: u64
  rp_max_attempts :: u32
  rp_stability_window_ms :: u64

record health_probe_config =
  hp_url :: string
  hp_timeout_ms :: u64
  hp_retries :: u8
  hp_interval_ms :: u64

record service_definition =
  sd_command :: string
  sd_args :: "string list"
  sd_port :: "u16 option"
  sd_service_name :: "string option"
  sd_env :: "string hashmap"
  sd_cwd :: "string option"
  sd_watch :: bool
  sd_restart_on_exit :: bool
  sd_restart_backoff_ms :: u64
  sd_max_restart_attempts :: u32
  sd_healthcheck_url :: "string option"
  sd_healthcheck_timeout_ms :: u64
  sd_shutdown_timeout_ms :: u64
  sd_depends_on :: "string list"
  sd_startup_dependencies :: "string list"
  sd_restart_policy :: "restart_policy_config option"
  sd_healthcheck :: "health_probe_config option"

record watch_config =
  wc_enabled :: bool
  wc_poll_ms :: u64
  wc_settle_ms :: u64
  wc_paths :: "string list"

record krab_config =
  cfg_services :: "service_definition hashmap"
  cfg_watch :: "watch_config option"

definition effective_poll_interval :: "watch_config \<Rightarrow> duration" where
  "effective_poll_interval w = from_millis (unat (max (wc_poll_ms w) MIN_POLL_MS))"

definition effective_settle :: "watch_config \<Rightarrow> duration" where
  "effective_settle w = from_millis (unat (max (wc_settle_ms w) MIN_SETTLE_MS))"

subsection \<open>Effective settings of a service\<close>

definition effective_service_name :: "service_definition \<Rightarrow> string \<Rightarrow> string" where
  "effective_service_name sd key =
     (case map_option trim (sd_service_name sd) of
        Some v \<Rightarrow> if v \<noteq> [] then v else key
      | None \<Rightarrow> key)"

text \<open>The environment handed to the child: identity first, then the explicit entries over it.\<close>

definition resolved_env :: "service_definition \<Rightarrow> string \<Rightarrow> string hashmap" where
  "resolved_env sd key =
     (let env0 = hm_insert SERVICE_NAME_ENV_KEY (effective_service_name sd key) [];
          env1 = (case sd_port sd of Some port \<Rightarrow> hm_insert PORT_ENV_KEY (show_word port) env0 | None \<Rightarrow> env0)
      in foldl (\<lambda>env (name, value). hm_insert name value env) env1 (sd_env sd))"

definition port_is_unpinned :: "service_definition \<Rightarrow> bool" where
  "port_is_unpinned sd = (sd_port sd = None \<and> \<not> hm_contains (sd_env sd) PORT_ENV_KEY)"

definition effective_restart_on_exit :: "service_definition \<Rightarrow> bool" where
  "effective_restart_on_exit sd =
     (case sd_restart_policy sd of Some p \<Rightarrow> rp_on_exit p | None \<Rightarrow> sd_restart_on_exit sd)"

definition effective_restart_backoff_ms :: "service_definition \<Rightarrow> u64" where
  "effective_restart_backoff_ms sd =
     (case sd_restart_policy sd of Some p \<Rightarrow> rp_backoff_ms p | None \<Rightarrow> sd_restart_backoff_ms sd)"

definition effective_max_restart_attempts :: "service_definition \<Rightarrow> u32" where
  "effective_max_restart_attempts sd =
     (case sd_restart_policy sd of Some p \<Rightarrow> rp_max_attempts p | None \<Rightarrow> sd_max_restart_attempts sd)"

definition effective_restart_stability_window :: "service_definition \<Rightarrow> duration" where
  "effective_restart_stability_window sd =
     from_millis (unat (case sd_restart_policy sd of
        Some p \<Rightarrow> rp_stability_window_ms p | None \<Rightarrow> default_restart_stability_window_ms))"

definition effective_healthcheck_url :: "service_definition \<Rightarrow> string option" where
  "effective_healthcheck_url sd =
     (case sd_healthcheck sd of Some h \<Rightarrow> Some (hp_url h) | None \<Rightarrow> sd_healthcheck_url sd)"

definition effective_healthcheck_timeout_ms :: "service_definition \<Rightarrow> u64" where
  "effective_healthcheck_timeout_ms sd =
     (case sd_healthcheck sd of Some h \<Rightarrow> hp_timeout_ms h | None \<Rightarrow> sd_healthcheck_timeout_ms sd)"

definition effective_healthcheck_retries :: "service_definition \<Rightarrow> u8" where
  "effective_healthcheck_retries sd =
     max (case sd_healthcheck sd of Some h \<Rightarrow> hp_retries h | None \<Rightarrow> default_healthcheck_retries) 1"

definition effective_healthcheck_interval_ms :: "service_definition \<Rightarrow> u64" where
  "effective_healthcheck_interval_ms sd =
     (case sd_healthcheck sd of Some h \<Rightarrow> hp_interval_ms h | None \<Rightarrow> default_healthcheck_interval_ms)"

definition effective_startup_deadline_ms :: "service_definition \<Rightarrow> u64" where
  "effective_startup_deadline_ms sd =
     (let retries = ucast (effective_healthcheck_retries sd) :: u64;
          request_budget = saturating_mul retries (effective_healthcheck_timeout_ms sd);
          retry_gaps = saturating_mul (ucast (saturating_sub (effective_healthcheck_retries sd) 1))
                         (effective_healthcheck_interval_ms sd)
      in max (saturating_add request_budget retry_gaps) (effective_healthcheck_timeout_ms sd))"

subsection \<open>Validation\<close>

text \<open>The explicit port of a probe address; an address that cannot be read has none.\<close>

definition probe_url_port :: "string \<Rightarrow> u16 option" where
  "probe_url_port url =
     (let after_scheme = (case split_seq ''://'' url of Some (_, rest) \<Rightarrow> rest | None \<Rightarrow> url);
          authority = hd (split_on (\<lambda>c. c \<in> {CHR ''/'', CHR ''?'', CHR ''#''}) after_scheme)
      in case (case rsplit_once CHR '']'' authority of
                 Some (_, rest) \<Rightarrow> strip_prefix '':'' rest
               | None \<Rightarrow> map_option snd (rsplit_once CHR '':'' authority)) of
           None \<Rightarrow> None
         | Some host_port \<Rightarrow> parse_u16 host_port)"

datatype config_error =
    PortNotANumber string string
  | PortZero string
  | DuplicatePort string string u16
  | DuplicateIdentity string string string

text \<open>The warning about a probe that addresses another port: service, declared and probed port.\<close>

datatype config_warning = ProbePortDiffers string u16 u16

definition effective_port :: "string \<Rightarrow> service_definition \<Rightarrow> config_error + u16 option" where
  "effective_port key sd =
     (case hm_get (sd_env sd) PORT_ENV_KEY of
        Some raw \<Rightarrow> (case parse_u16 (trim raw) of
                       Some port \<Rightarrow> Inr (Some port) | None \<Rightarrow> Inl (PortNotANumber key raw))
      | None \<Rightarrow> Inr (sd_port sd))"

definition probe_warning :: "string \<Rightarrow> u16 option \<Rightarrow> string option \<Rightarrow> config_warning list" where
  "probe_warning key port url =
     (case (port, url) of
        (Some p, Some u) \<Rightarrow>
          (case probe_url_port u of
             Some q \<Rightarrow> if q \<noteq> p then [ProbePortDiffers key p q] else []
           | None \<Rightarrow> [])
      | _ \<Rightarrow> [])"

fun validate_loop ::
  "service_definition hashmap \<Rightarrow> string list \<Rightarrow> (u16 \<times> string) list \<Rightarrow> (string \<times> string) list \<Rightarrow>
   config_warning list \<Rightarrow> config_error + config_warning list" where
  "validate_loop services [] ports ids ws = Inr ws"
| "validate_loop services (key # names) ports ids ws =
     (let sd = the (hm_get services key)
      in case effective_port key sd of
           Inl e \<Rightarrow> Inl e
         | Inr port \<Rightarrow>
             (if port = Some 0 then Inl (PortZero key)
              else case Option.bind port (map_of ports) of
                Some previous \<Rightarrow> Inl (DuplicatePort previous key (the port))
              | None \<Rightarrow>
                  (let identity = effective_service_name sd key;
                       ports' = (case port of Some p \<Rightarrow> AList.update p key ports | None \<Rightarrow> ports)
                   in case map_of ids identity of
                        Some previous \<Rightarrow> Inl (DuplicateIdentity previous key identity)
                      | None \<Rightarrow> validate_loop services names ports' (AList.update identity key ids)
                          (ws @ probe_warning key port (effective_healthcheck_url sd)))))"

definition validate_service_identity :: "krab_config \<Rightarrow> config_error + config_warning list" where
  "validate_service_identity config =
     validate_loop (cfg_services config) (sort (hm_keys (cfg_services config))) [] [] []"

text \<open>\<open>parse_krab_config\<close>; \<open>toml\<close> is the parser of the manifest.\<close>

datatype manifest_error = ManifestSyntax | ManifestInvalid config_error

definition parse_krab_config ::
  "(string \<Rightarrow> krab_config option) \<Rightarrow> string \<Rightarrow> manifest_error + krab_config" where
  "parse_krab_config toml raw =
     (case toml raw of
        None \<Rightarrow> Inl ManifestSyntax
      | Some config \<Rightarrow>
          (case validate_service_identity config of
             Inl e \<Rightarrow> Inl (ManifestInvalid e)
           | Inr _ \<Rightarrow> Inr config))"

subsection \<open>What validation decides\<close>

definition service_at :: "krab_config \<Rightarrow> string \<Rightarrow> service_definition" where
  "service_at config key = the (hm_get (cfg_services config) key)"

definition bind_port :: "krab_config \<Rightarrow> string \<Rightarrow> u16 option" where
  "bind_port config key =
     (case effective_port key (service_at config key) of Inr p \<Rightarrow> p | Inl _ \<Rightarrow> None)"

definition identity_of :: "krab_config \<Rightarrow> string \<Rightarrow> string" where
  "identity_of config key = effective_service_name (service_at config key) key"

definition port_declared :: "krab_config \<Rightarrow> string \<Rightarrow> bool" where
  "port_declared config key \<longleftrightarrow>
     (\<exists>p. effective_port key (service_at config key) = Inr p \<and> p \<noteq> Some 0)"

definition clash :: "krab_config \<Rightarrow> string \<Rightarrow> string \<Rightarrow> bool" where
  "clash config k k' \<longleftrightarrow>
     bind_port config k \<noteq> None \<and> bind_port config k = bind_port config k' \<or>
     identity_of config k = identity_of config k'"

text \<open>Every declared port is a usable port number, no two services share a port or a name.\<close>

definition distinct_identities :: "krab_config \<Rightarrow> string set \<Rightarrow> bool" where
  "distinct_identities config keys \<longleftrightarrow>
     (\<forall>k \<in> keys. port_declared config k) \<and> pairwise (\<lambda>k k'. \<not> clash config k k') keys"

lemma clash_sym: "clash config k k' \<longleftrightarrow> clash config k' k"
  unfolding clash_def by metis

lemma distinct_identities_insert:
  assumes "k \<notin> keys"
  shows "distinct_identities config (insert k keys) \<longleftrightarrow>
     port_declared config k \<and> distinct_identities config keys \<and> (\<forall>k' \<in> keys. \<not> clash config k k')"
  using assms clash_sym [of config k] by (auto simp: distinct_identities_def pairwise_insert)

lemma fst_set_update: "fst ` set (AList.update k v xs) = insert k (fst ` set xs)"
  by (induction xs) auto

lemma validate_loop_iff:
  assumes "distinct names"
  shows "(\<exists>ws'. validate_loop (cfg_services config) names ports ids ws = Inr ws') \<longleftrightarrow>
     distinct_identities config (set names) \<and>
     (\<forall>k \<in> set names. \<forall>p. bind_port config k = Some p \<longrightarrow> p \<notin> fst ` set ports) \<and>
     (\<forall>k \<in> set names. identity_of config k \<notin> fst ` set ids)"
  using assms
proof (induction names arbitrary: ports ids ws)
  case Nil
  then show ?case by (simp add: distinct_identities_def)
next
  case (Cons k names)
  let ?sd = "service_at config k"
  have sd: "the (hm_get (cfg_services config) k) = ?sd" by (simp add: service_at_def)
  show ?case
  proof (cases "port_declared config k")
    case False
    then have "(\<exists>e. effective_port k ?sd = Inl e) \<or> effective_port k ?sd = Inr (Some 0)"
      by (cases "effective_port k ?sd") (auto simp: port_declared_def)
    with False Cons.prems show ?thesis
      by (auto simp: Let_def sd distinct_identities_insert)
  next
    case True
    then obtain port where port: "effective_port k ?sd = Inr port" "port \<noteq> Some 0" "bind_port config k = port"
      by (auto simp: port_declared_def bind_port_def)
    have id: "effective_service_name ?sd k = identity_of config k" by (simp add: identity_of_def)
    let ?ports = "case port of Some p \<Rightarrow> AList.update p k ports | None \<Rightarrow> ports"
    let ?ids = "AList.update (identity_of config k) k ids"
    have keys: "fst ` set ?ports = fst ` set ports \<union> set_option port"
      by (cases port) (simp_all add: fst_set_update)
    have ids: "fst ` set ?ids = insert (identity_of config k) (fst ` set ids)"
      by (rule fst_set_update)
    have clash: "clash config k k' \<longleftrightarrow> (\<exists>p. port = Some p \<and> bind_port config k' = Some p) \<or>
        identity_of config k' = identity_of config k" for k'
      using port(3) by (cases port) (auto simp: clash_def)
    consider (taken) p where "port = Some p" "p \<in> fst ` set ports"
      | (named) "identity_of config k \<in> fst ` set ids" "\<forall>p. port = Some p \<longrightarrow> p \<notin> fst ` set ports"
      | (free) "identity_of config k \<notin> fst ` set ids" "\<forall>p. port = Some p \<longrightarrow> p \<notin> fst ` set ports"
      by blast
    then show ?thesis
    proof cases
      case taken
      then obtain q where "map_of ports p = Some q" by (auto dest: weak_map_of_SomeI)
      with taken port show ?thesis by (auto simp: Let_def sd)
    next
      case named
      then obtain q where q: "map_of ids (identity_of config k) = Some q" by (auto dest: weak_map_of_SomeI)
      have "Option.bind port (map_of ports) = None"
        using named(2) by (cases port) (simp_all add: map_of_eq_None_iff)
      with q named port id show ?thesis by (simp add: Let_def sd)
    next
      case free
      have "Option.bind port (map_of ports) = None" "map_of ids (identity_of config k) = None"
        using free by (cases port; simp add: map_of_eq_None_iff)+
      then have step: "validate_loop (cfg_services config) (k # names) ports ids ws =
          validate_loop (cfg_services config) names ?ports ?ids
            (ws @ probe_warning k port (effective_healthcheck_url ?sd))"
        using port id by (simp add: Let_def sd)
      have new: "(\<forall>k' \<in> set names. \<forall>p. bind_port config k' = Some p \<longrightarrow> p \<notin> fst ` set ?ports) \<and>
          (\<forall>k' \<in> set names. identity_of config k' \<notin> fst ` set ?ids) \<longleftrightarrow>
          (\<forall>k' \<in> set names. \<not> clash config k k') \<and>
          (\<forall>k' \<in> set names. \<forall>p. bind_port config k' = Some p \<longrightarrow> p \<notin> fst ` set ports) \<and>
          (\<forall>k' \<in> set names. identity_of config k' \<notin> fst ` set ids)"
        unfolding keys ids clash by (cases port) auto
      have "(\<exists>ws'. validate_loop (cfg_services config) (k # names) ports ids ws = Inr ws') \<longleftrightarrow>
          distinct_identities config (set names) \<and>
          (\<forall>k' \<in> set names. \<forall>p. bind_port config k' = Some p \<longrightarrow> p \<notin> fst ` set ?ports) \<and>
          (\<forall>k' \<in> set names. identity_of config k' \<notin> fst ` set ?ids)"
        unfolding step using Cons.prems by (intro Cons.IH) simp
      with new True Cons.prems free port(3) show ?thesis
        by (simp add: distinct_identities_insert)
    qed
  qed
qed

text \<open>
  validation accepts a manifest exactly when every port a child will bind is a number between
  1 and 65535 and no two services share a port or a name; the order in which the services are
  visited does not matter.
\<close>

theorem validation_exact:
  assumes "distinct (hm_keys (cfg_services config))"
  shows "(\<exists>ws. validate_service_identity config = Inr ws) \<longleftrightarrow>
           distinct_identities config (fst ` set (cfg_services config))"
  using validate_loop_iff [of "sort (hm_keys (cfg_services config))" config "[]" "[]" "[]"] assms
  by (simp add: validate_service_identity_def)

theorem validation_exact_witness:
  "\<exists>ws. validate_service_identity \<lparr>cfg_services = [], cfg_watch = None\<rparr> = Inr ws"
  using validation_exact [of "\<lparr>cfg_services = [], cfg_watch = None\<rparr>"]
  by (simp add: distinct_identities_def)

subsection \<open>What a child receives\<close>

lemma hm_get_foldl_insert:
  assumes "distinct (hm_keys xs)"
  shows "hm_get (foldl (\<lambda>env (n, v). hm_insert n v env) env0 xs) x =
           (case hm_get xs x of Some v \<Rightarrow> Some v | None \<Rightarrow> hm_get env0 x)"
  using assms
proof (induction xs arbitrary: env0)
  case Nil
  then show ?case by simp
next
  case (Cons nv xs)
  then have "hm_get xs (fst nv) = None" by (simp add: map_of_eq_None_iff)
  with Cons show ?case by (cases nv) (auto simp: hm_get_insert split: option.splits)
qed

lemma resolved_env_get:
  assumes "distinct (hm_keys (sd_env sd))"
  shows "hm_get (resolved_env sd key) n =
           (case hm_get (sd_env sd) n of
              Some v \<Rightarrow> Some v
            | None \<Rightarrow> if n = PORT_ENV_KEY \<and> sd_port sd \<noteq> None then map_option show_word (sd_port sd)
                      else if n = SERVICE_NAME_ENV_KEY then Some (effective_service_name sd key) else None)"
  using hm_get_foldl_insert [OF assms]
  by (auto simp: resolved_env_def Let_def hm_get_insert PORT_ENV_KEY_def SERVICE_NAME_ENV_KEY_def
      split: option.splits)

lemma injected_port:
  assumes "distinct (hm_keys (sd_env sd))" and "effective_port key sd = Inr p"
  shows "Option.bind (hm_get (resolved_env sd key) PORT_ENV_KEY) (\<lambda>v. parse_u16 (trim v)) = p"
  using assms(2)
  by (auto simp: resolved_env_get [OF assms(1)] effective_port_def PORT_ENV_KEY_def SERVICE_NAME_ENV_KEY_def
      split: option.splits)

text \<open>
  the environment of the children of a valid manifest. The port injected into a child is the
  one that was validated, so it is never 0 and two children never bind the same one; two children
  get different names, unless the manifest overrides \<open>KRAB_SERVICE_NAME\<close> by hand.
\<close>

theorem children_do_not_collide:
  assumes "validate_service_identity config = Inr ws"
    and "distinct (hm_keys (cfg_services config))" and "\<forall>sd \<in> snd ` set (cfg_services config). distinct (hm_keys (sd_env sd))"
    and "hm_get (cfg_services config) a = Some sda" and "hm_get (cfg_services config) b = Some sdb" and "a \<noteq> b"
    and "Option.bind (hm_get (resolved_env sda a) PORT_ENV_KEY) (\<lambda>v. parse_u16 (trim v)) = Some p"
    and "Option.bind (hm_get (resolved_env sdb b) PORT_ENV_KEY) (\<lambda>v. parse_u16 (trim v)) = Some q"
  shows "p \<noteq> 0 \<and> p \<noteq> q \<and>
         (\<not> hm_contains (sd_env sda) SERVICE_NAME_ENV_KEY \<and> \<not> hm_contains (sd_env sdb) SERVICE_NAME_ENV_KEY \<longrightarrow>
          hm_get (resolved_env sda a) SERVICE_NAME_ENV_KEY \<noteq> hm_get (resolved_env sdb b) SERVICE_NAME_ENV_KEY)"
proof -
  have "distinct_identities config (fst ` set (cfg_services config))"
    using validate_loop_iff [of "sort (hm_keys (cfg_services config))" config "[]" "[]" "[]"] assms(1,2)
    by (simp add: validate_service_identity_def)
  moreover have "a \<in> fst ` set (cfg_services config)" "b \<in> fst ` set (cfg_services config)"
    using assms(4,5) by (auto dest: map_of_SomeD intro: rev_image_eqI)
  ultimately have d: "port_declared config a" "port_declared config b" "\<not> clash config a b"
    using assms(6) by (auto simp: distinct_identities_def pairwise_def)
  have at: "service_at config a = sda" "service_at config b = sdb"
    using assms(4,5) by (simp_all add: service_at_def)
  have env: "distinct (hm_keys (sd_env sda))" "distinct (hm_keys (sd_env sdb))"
    using assms(3) map_of_SomeD [OF assms(4)] map_of_SomeD [OF assms(5)] by force+
  obtain pa pb where e: "effective_port a sda = Inr pa" "pa \<noteq> Some 0" "effective_port b sdb = Inr pb"
    using d by (auto simp: port_declared_def at)
  then have "pa = Some p" "pb = Some q"
    using injected_port [OF env(1) e(1)] injected_port [OF env(2) e(3)] assms(7,8) by simp_all
  with d(3) e show ?thesis
    by (simp add: clash_def bind_port_def identity_of_def at resolved_env_get env map_of_eq_None_iff
        PORT_ENV_KEY_def SERVICE_NAME_ENV_KEY_def)
       (auto simp: map_of_eq_None_iff [THEN iffD2])
qed

definition plain_service :: service_definition where
  "plain_service =
     \<lparr>sd_command = ''cargo'', sd_args = [], sd_port = None, sd_service_name = None, sd_env = [], sd_cwd = None,
      sd_watch = False, sd_restart_on_exit = True, sd_restart_backoff_ms = default_restart_backoff_ms,
      sd_max_restart_attempts = default_max_restart_attempts, sd_healthcheck_url = None,
      sd_healthcheck_timeout_ms = default_healthcheck_timeout_ms,
      sd_shutdown_timeout_ms = DEFAULT_SHUTDOWN_TIMEOUT_MS, sd_depends_on = [], sd_startup_dependencies = [],
      sd_restart_policy = None, sd_healthcheck = None\<rparr>"

definition named_twice :: krab_config where
  "named_twice =
     \<lparr>cfg_services = [(''a'', plain_service\<lparr>sd_port := Some 3001, sd_env := [(SERVICE_NAME_ENV_KEY, ''x'')]\<rparr>),
                      (''b'', plain_service\<lparr>sd_port := Some 3002, sd_env := [(SERVICE_NAME_ENV_KEY, ''x'')]\<rparr>)],
      cfg_watch = None\<rparr>"

lemma named_twice_valid: "validate_service_identity named_twice = Inr []"
proof -
  have "sort [''a'', ''b''] = [''a'', ''b'']" by (simp add: Cons_less_Cons)
  then show ?thesis
    by (simp add: validate_service_identity_def named_twice_def plain_service_def effective_port_def Let_def
        PORT_ENV_KEY_def SERVICE_NAME_ENV_KEY_def effective_service_name_def probe_warning_def
        effective_healthcheck_url_def)
qed

theorem children_do_not_collide_witness: "(3001 :: u16) \<noteq> 3002"
  using children_do_not_collide [OF named_twice_valid, of "''a''" _ "''b''" _ 3001 3002]
  by (simp add: named_twice_def plain_service_def resolved_env_def Let_def PORT_ENV_KEY_def
      SERVICE_NAME_ENV_KEY_def)

text \<open>
  validation does not see an override of the name. A manifest whose two services both set
  \<open>KRAB_SERVICE_NAME\<close> in their environment is accepted without a warning, and the two children
  report the same name.
\<close>

theorem name_override_escapes_validation:
  "validate_service_identity named_twice = Inr [] \<and>
   hm_get (resolved_env (service_at named_twice ''a'') ''a'') SERVICE_NAME_ENV_KEY =
   hm_get (resolved_env (service_at named_twice ''b'') ''b'') SERVICE_NAME_ENV_KEY"
  by (simp add: named_twice_valid)
    (simp add: named_twice_def plain_service_def service_at_def resolved_env_def Let_def SERVICE_NAME_ENV_KEY_def)

subsection \<open>The start-up budget\<close>

lemma unat_max_word: "unat (max a b :: 'a::len word) = max (unat a) (unat b)"
  by (simp add: max_def word_le_nat_alt)

lemma saturated_budget:
  "t \<le> a \<Longrightarrow> t \<le> m \<Longrightarrow> max (min (min a m + min b m) m) t = min (a + b) m" for a b m t :: nat
  by (auto simp: min_def max_def)

lemma startup_deadline_value:
  "unat (effective_startup_deadline_ms sd) =
     min (unat (effective_healthcheck_retries sd) * unat (effective_healthcheck_timeout_ms sd) +
          (unat (effective_healthcheck_retries sd) - 1) * unat (effective_healthcheck_interval_ms sd))
         (2 ^ 64 - 1)"
proof -
  let ?r = "effective_healthcheck_retries sd" and ?t = "effective_healthcheck_timeout_ms sd"
  have r1: "1 \<le> unat ?r"
    by (simp add: effective_healthcheck_retries_def unat_max_word)
  have u: "unat (ucast (x :: u8) :: u64) = unat x" for x
  proof -
    have "unat x < 2 ^ LENGTH(8)" by (rule unsigned_less)
    then show ?thesis by (simp add: unsigned_ucast_eq take_bit_nat_eq_self)
  qed
  have "unat ?t \<le> unat ?r * unat ?t" using r1 by simp
  moreover have "unat ?t \<le> 2 ^ 64 - 1" using unat_lt_u64 [of ?t] by simp
  ultimately show ?thesis
    using saturated_budget [of "unat ?t" "unat ?r * unat ?t" "2 ^ 64 - 1"
        "(unat ?r - 1) * unat (effective_healthcheck_interval_ms sd)"]
    by (simp add: effective_startup_deadline_ms_def Let_def unat_max_word unat_saturating u)
qed

text \<open>
  the start-up deadline is the time that all probe attempts and the pauses between them can
  take, computed without wrap-around: it saturates at the largest \<open>u64\<close>.
\<close>

theorem startup_deadline_is_the_probe_budget:
  "unat (effective_startup_deadline_ms sd) =
     min (unat (effective_healthcheck_retries sd) * unat (effective_healthcheck_timeout_ms sd) +
          (unat (effective_healthcheck_retries sd) - 1) * unat (effective_healthcheck_interval_ms sd))
         (2 ^ 64 - 1)"
  by (rule startup_deadline_value)

end
