(* ===== verification/StartupOrder.thy ===== *)
theory StartupOrder
  imports OrchConfig
begin

text \<open>
  The start-up order of the orchestrator: \<open>resolve_startup_order\<close> of \<open>krab_orchestrator/src/main.rs\<close>,
  a depth-first search with temporary and permanent marks. The recursion of the source ends because
  a marked service is never entered twice; here it carries fuel, the number of services, and
  \<open>OutOfFuel\<close> is proved not to occur.
\<close>

datatype order_error =
    DependencyCycle string
  | ServiceNotFound string
  | UnknownDependency string string
  | OutOfFuel

record visit_state =
  vs_temporary :: "bool hashmap"
  vs_permanent :: "bool hashmap"
  vs_order :: "string list"

definition marked :: "bool hashmap \<Rightarrow> string \<Rightarrow> bool" where
  "marked m node = (case hm_get m node of Some b \<Rightarrow> b | None \<Rightarrow> False)"

definition dependencies :: "service_definition \<Rightarrow> string list" where
  "dependencies sd = sd_depends_on sd @ sd_startup_dependencies sd"

definition finish_visit :: "string \<Rightarrow> visit_state \<Rightarrow> visit_state" where
  "finish_visit node st =
     st\<lparr>vs_temporary := hm_insert node False (vs_temporary st),
        vs_permanent := hm_insert node True (vs_permanent st),
        vs_order := (if node \<in> set (vs_order st) then vs_order st else vs_order st @ [node])\<rparr>"

function visit ::
    "service_definition hashmap \<Rightarrow> nat \<Rightarrow> string \<Rightarrow> visit_state \<Rightarrow> order_error + visit_state"
  and visit_deps ::
    "service_definition hashmap \<Rightarrow> nat \<Rightarrow> string \<Rightarrow> string list \<Rightarrow> visit_state \<Rightarrow> order_error + visit_state" where
  "visit services fuel node st =
     (if marked (vs_permanent st) node then Inr st
      else if marked (vs_temporary st) node then Inl (DependencyCycle node)
      else case fuel of
             0 \<Rightarrow> Inl OutOfFuel
           | Suc n \<Rightarrow>
               let st1 = st\<lparr>vs_temporary := hm_insert node True (vs_temporary st)\<rparr>
               in case hm_get services node of
                    None \<Rightarrow> Inl (ServiceNotFound node)
                  | Some service \<Rightarrow>
                      (case visit_deps services n node (dependencies service) st1 of
                         Inl e \<Rightarrow> Inl e
                       | Inr st2 \<Rightarrow> Inr (finish_visit node st2)))"
| "visit_deps services fuel node [] st = Inr st"
| "visit_deps services fuel node (dep # ds) st =
     (if \<not> hm_contains services dep then Inl (UnknownDependency node dep)
      else case visit services fuel dep st of
             Inl e \<Rightarrow> Inl e
           | Inr st' \<Rightarrow> visit_deps services fuel node ds st')"
  by pat_completeness auto

termination
  by (relation "measures [\<lambda>x. case x of Inl (_, n, _) \<Rightarrow> n | Inr (_, n, _) \<Rightarrow> n,
        \<lambda>x. case x of Inl _ \<Rightarrow> 0 | Inr (_, _, _, ds, _) \<Rightarrow> Suc (length ds)]") auto

declare visit.simps [simp del]

fun visit_roots ::
  "service_definition hashmap \<Rightarrow> nat \<Rightarrow> string list \<Rightarrow> visit_state \<Rightarrow> order_error + visit_state" where
  "visit_roots services fuel [] st = Inr st"
| "visit_roots services fuel (name # names) st =
     (case visit services fuel name st of
        Inl e \<Rightarrow> Inl e
      | Inr st' \<Rightarrow> visit_roots services fuel names st')"

definition resolve_startup_order :: "service_definition hashmap \<Rightarrow> order_error + string list" where
  "resolve_startup_order services =
     map_sum id vs_order
       (visit_roots services (length services) (sort (hm_keys services))
          \<lparr>vs_temporary = [], vs_permanent = [], vs_order = []\<rparr>)"

subsection \<open>Dependencies as a relation\<close>

definition dep_rel :: "service_definition hashmap \<Rightarrow> (string \<times> string) set" where
  "dep_rel services = {(a, b). \<exists>sd. hm_get services a = Some sd \<and> b \<in> set (dependencies sd)}"

definition deps_known :: "service_definition hashmap \<Rightarrow> bool" where
  "deps_known services \<longleftrightarrow> (\<forall>(a, b) \<in> dep_rel services. b \<in> fst ` set services)"

text \<open>Every dependency of a listed service is listed before it.\<close>

fun deps_first :: "(string \<times> string) set \<Rightarrow> string set \<Rightarrow> string list \<Rightarrow> bool" where
  "deps_first R seen [] = True"
| "deps_first R seen (x # xs) \<longleftrightarrow> (\<forall>d. (x, d) \<in> R \<longrightarrow> d \<in> seen) \<and> deps_first R (insert x seen) xs"

lemma deps_first_snoc:
  "deps_first R seen (xs @ [x]) \<longleftrightarrow> deps_first R seen xs \<and> (\<forall>d. (x, d) \<in> R \<longrightarrow> d \<in> seen \<union> set xs)"
  by (induction xs arbitrary: seen) auto

lemma deps_first_nth:
  assumes "deps_first R seen xs" and "i < length xs" and "(xs ! i, d) \<in> R"
  shows "d \<in> seen \<union> set (take i xs)"
  using assms
proof (induction xs arbitrary: seen i)
  case Nil
  then show ?case by simp
next
  case (Cons x xs)
  show ?case
  proof (cases i)
    case 0
    with Cons.prems show ?thesis by auto
  next
    case (Suc j)
    with Cons.prems Cons.IH [of "insert x seen" j] show ?thesis by auto
  qed
qed

subsection \<open>The search\<close>

definition tmarks :: "visit_state \<Rightarrow> string set" where
  "tmarks st = {x. marked (vs_temporary st) x}"

definition visit_inv :: "service_definition hashmap \<Rightarrow> visit_state \<Rightarrow> bool" where
  "visit_inv services st \<longleftrightarrow>
     (\<forall>x. marked (vs_permanent st) x \<longleftrightarrow> x \<in> set (vs_order st)) \<and> distinct (vs_order st) \<and>
     deps_first (dep_rel services) {} (vs_order st) \<and> set (vs_order st) \<subseteq> fst ` set services \<and>
     tmarks st \<inter> set (vs_order st) = {} \<and> tmarks st \<subseteq> fst ` set services"

definition honest_error :: "service_definition hashmap \<Rightarrow> order_error \<Rightarrow> bool" where
  "honest_error services e =
     (case e of
        DependencyCycle n \<Rightarrow> (n, n) \<in> (dep_rel services)\<^sup>+
      | UnknownDependency n d \<Rightarrow> (n, d) \<in> dep_rel services \<and> d \<notin> fst ` set services
      | _ \<Rightarrow> False)"

definition visited ::
  "service_definition hashmap \<Rightarrow> visit_state \<Rightarrow> string set \<Rightarrow> order_error + visit_state \<Rightarrow> bool" where
  "visited services st ns r =
     (case r of
        Inl e \<Rightarrow> honest_error services e
      | Inr st' \<Rightarrow> visit_inv services st' \<and> tmarks st' = tmarks st \<and>
                  set (vs_order st) \<subseteq> set (vs_order st') \<and> ns \<subseteq> set (vs_order st'))"

lemma marked_insert [simp]: "marked (hm_insert k b m) x = (if x = k then b else marked m x)"
  by (simp add: marked_def hm_get_insert)

lemma finish_visit_inv:
  assumes "visit_inv services st" and "node \<in> tmarks st" and "\<forall>d. (node, d) \<in> dep_rel services \<longrightarrow> d \<in> set (vs_order st)"
  shows "visit_inv services (finish_visit node st)" and "tmarks (finish_visit node st) = tmarks st - {node}"
    and "set (vs_order (finish_visit node st)) = insert node (set (vs_order st))"
  using assms by (auto simp: visit_inv_def finish_visit_def tmarks_def deps_first_snoc)

lemma visit_correct:
  "visit_inv services st \<Longrightarrow> node \<in> fst ` set services \<Longrightarrow>
   \<forall>x \<in> tmarks st. (x, node) \<in> (dep_rel services)\<^sup>+ \<Longrightarrow> card (fst ` set services - tmarks st) \<le> fuel \<Longrightarrow>
   visited services st {node} (visit services fuel node st)"
  "visit_inv services st \<Longrightarrow> \<forall>x \<in> tmarks st. (x, node) \<in> (dep_rel services)\<^sup>* \<Longrightarrow>
   \<forall>d \<in> set ds. (node, d) \<in> dep_rel services \<Longrightarrow> card (fst ` set services - tmarks st) \<le> fuel \<Longrightarrow>
   visited services st (set ds) (visit_deps services fuel node ds st)"
proof (induction services fuel node st and services fuel node ds st rule: visit_visit_deps.induct)
  case (1 services fuel node st)
  let ?K = "fst ` set services" and ?R = "dep_rel services"
  show ?case
  proof (cases "node \<in> set (vs_order st) \<or> node \<in> tmarks st")
    case True
    with "1.prems" show ?thesis
      by (subst visit.simps) (auto simp: visited_def visit_inv_def honest_error_def tmarks_def)
  next
    case False
    then have u: "\<not> marked (vs_permanent st) node" "\<not> marked (vs_temporary st) node"
      using "1.prems"(1) by (auto simp: visit_inv_def tmarks_def)
    have fin: "finite (?K - tmarks st)" and mem: "node \<in> ?K - tmarks st"
      using False "1.prems"(2) by auto
    obtain n where n: "fuel = Suc n"
      using mem fin "1.prems"(4) by (cases fuel) auto
    obtain sd where sd: "hm_get services node = Some sd"
      using "1.prems"(2) by (auto simp: map_of_eq_None_iff dest: weak_map_of_SomeI)
    let ?st1 = "st\<lparr>vs_temporary := hm_insert node True (vs_temporary st)\<rparr>"
    have t1: "tmarks ?st1 = insert node (tmarks st)" by (auto simp: tmarks_def)
    have R: "(node, d) \<in> ?R \<longleftrightarrow> d \<in> set (dependencies sd)" for d
      by (simp add: dep_rel_def sd)
    have "visited services ?st1 (set (dependencies sd)) (visit_deps services n node (dependencies sd) ?st1)"
    proof (rule "1.IH" [OF u n refl sd])
      show "visit_inv services ?st1"
        using "1.prems"(1,2) False t1 by (auto simp: visit_inv_def)
      show "\<forall>x \<in> tmarks ?st1. (x, node) \<in> ?R\<^sup>*"
        using "1.prems"(3) by (auto simp: t1 intro: trancl_into_rtrancl)
      show "\<forall>d \<in> set (dependencies sd). (node, d) \<in> ?R" by (simp add: R)
      have "?K - tmarks ?st1 = (?K - tmarks st) - {node}" by (auto simp: t1)
      then show "card (?K - tmarks ?st1) \<le> n"
        using fin mem "1.prems"(4) n by (simp add: card_Diff_singleton)
    qed
    moreover have "visit services fuel node st =
        (case visit_deps services n node (dependencies sd) ?st1 of
           Inl e \<Rightarrow> Inl e | Inr st2 \<Rightarrow> Inr (finish_visit node st2))"
      by (subst visit.simps) (simp add: u n sd Let_def)
    moreover have "visited services st {node} (Inr (finish_visit node st2))"
      if "visited services ?st1 (set (dependencies sd)) (Inr st2)" for st2
    proof -
      from that have st2: "visit_inv services st2" "tmarks st2 = insert node (tmarks st)"
        "set (vs_order st) \<subseteq> set (vs_order st2)" "set (dependencies sd) \<subseteq> set (vs_order st2)"
        by (simp_all add: visited_def t1)
      then have "\<forall>d. (node, d) \<in> ?R \<longrightarrow> d \<in> set (vs_order st2)" "node \<in> tmarks st2"
        by (auto simp: R)
      from finish_visit_inv [OF st2(1) this(2,1)] st2 False show ?thesis
        by (auto simp: visited_def)
    qed
    ultimately show ?thesis
      by (cases "visit_deps services n node (dependencies sd) ?st1") (auto simp: visited_def)
  qed
next
  case (2 services fuel node st)
  then show ?case by (simp add: visited_def)
next
  case (3 services fuel node dep ds st)
  let ?R = "dep_rel services"
  have d: "(node, dep) \<in> ?R" using "3.prems"(3) by simp
  show ?case
  proof (cases "hm_contains services dep")
    case False
    with d show ?thesis by (simp add: visited_def honest_error_def)
  next
    case True
    have v: "visited services st {dep} (visit services fuel dep st)"
      using True "3.prems" d by (intro "3.IH"(1)) (auto intro: rtrancl_into_trancl1)
    show ?thesis
    proof (cases "visit services fuel dep st")
      case (Inl e)
      with v True show ?thesis by (simp add: visited_def)
    next
      case (Inr st')
      with v have st': "visit_inv services st'" "tmarks st' = tmarks st" "set (vs_order st) \<subseteq> set (vs_order st')"
        "dep \<in> set (vs_order st')" by (auto simp: visited_def)
      have "visited services st' (set ds) (visit_deps services fuel node ds st')"
        using True Inr st' "3.prems" by (intro "3.IH"(2)) auto
      with True Inr st' show ?thesis by (auto simp: visited_def split: sum.splits)
    qed
  qed
qed

lemma visit_roots_correct:
  assumes "visit_inv services st" and "set names \<subseteq> fst ` set services" and "tmarks st = {}"
    and "card (fst ` set services) \<le> fuel"
  shows "visited services st (set names) (visit_roots services fuel names st)"
  using assms
proof (induction names arbitrary: st)
  case Nil
  then show ?case by (simp add: visited_def)
next
  case (Cons name names)
  have v: "visited services st {name} (visit services fuel name st)"
    using Cons.prems by (intro visit_correct(1)) auto
  show ?case
  proof (cases "visit services fuel name st")
    case (Inl e)
    with v show ?thesis by (simp add: visited_def)
  next
    case (Inr st')
    with v have st': "visit_inv services st'" "tmarks st' = tmarks st" "set (vs_order st) \<subseteq> set (vs_order st')"
      "name \<in> set (vs_order st')" by (auto simp: visited_def)
    have "visited services st' (set names) (visit_roots services fuel names st')"
      using st' Cons.prems by (intro Cons.IH) auto
    with Inr st' show ?thesis by (auto simp: visited_def split: sum.splits)
  qed
qed

lemma resolve_cases:
  shows "case resolve_startup_order services of
           Inl e \<Rightarrow> honest_error services e
         | Inr ord \<Rightarrow> set ord = fst ` set services \<and> distinct ord \<and> deps_first (dep_rel services) {} ord"
proof -
  let ?st = "\<lparr>vs_temporary = [], vs_permanent = [], vs_order = []\<rparr>"
  have "card (fst ` set services) \<le> length services"
    using card_image_le [of "set services" fst] card_length [of services] by simp
  moreover have "visit_inv services ?st" "tmarks ?st = {}"
    by (simp_all add: visit_inv_def tmarks_def marked_def)
  ultimately have "visited services ?st (fst ` set services)
      (visit_roots services (length services) (sort (hm_keys services)) ?st)"
    using visit_roots_correct [of services ?st "sort (hm_keys services)" "length services"] by simp
  then show ?thesis
    by (auto simp: resolve_startup_order_def visited_def visit_inv_def split: sum.splits)
qed

lemma deps_first_no_cycle:
  assumes "deps_first R seen xs" and "\<forall>(a, b) \<in> R. a \<in> seen \<union> set xs" and "distinct xs" and "seen \<inter> set xs = {}"
    and "\<forall>x \<in> seen. \<forall>d. (x, d) \<in> R \<longrightarrow> d \<in> seen" and "acyclic (R \<inter> seen \<times> seen)"
  shows "acyclic R"
  using assms
proof (induction xs arbitrary: seen)
  case Nil
  then have "R \<inter> seen \<times> seen = R" by auto
  with Nil show ?case by simp
next
  case (Cons x xs)
  have x: "\<forall>d. (x, d) \<in> R \<longrightarrow> d \<in> seen" "x \<notin> seen" using Cons.prems by auto
  have "R \<inter> insert x seen \<times> insert x seen = (R \<inter> seen \<times> seen) \<union> (R \<inter> {x} \<times> seen)"
    using x Cons.prems(5) by auto
  moreover have "acyclic ((R \<inter> seen \<times> seen) \<union> (R \<inter> {x} \<times> seen))"
  proof (rule acyclicI, intro allI notI)
    fix y assume c: "(y, y) \<in> ((R \<inter> seen \<times> seen) \<union> (R \<inter> {x} \<times> seen))\<^sup>+" (is "_ \<in> ?S\<^sup>+")
    have into: "(a, b) \<in> ?S\<^sup>+ \<Longrightarrow> b \<in> seen" for a b
      by (induction rule: trancl_induct) auto
    have "(a, b) \<in> ?S\<^sup>+ \<Longrightarrow> a \<in> seen \<Longrightarrow> (a, b) \<in> (R \<inter> seen \<times> seen)\<^sup>+" for a b
    proof (induction rule: trancl_induct)
      case (base z)
      with x(2) show ?case by auto
    next
      case (step z w)
      with x(2) into [of a z] have "(z, w) \<in> R \<inter> seen \<times> seen" by auto
      with step show ?case by (meson trancl_into_trancl)
    qed
    with c into [OF c] Cons.prems(6) show False by (auto simp: acyclic_def)
  qed
  ultimately have "acyclic (R \<inter> insert x seen \<times> insert x seen)" by simp
  then show ?case
    using Cons.prems x by (intro Cons.IH [of "insert x seen"]) auto
qed

text \<open>
  a resolved start-up order lists every service of the manifest exactly once, and each service
  after everything it depends on, through \<open>depends_on\<close> or \<open>startup_dependencies\<close>.
\<close>

theorem startup_order_is_topological:
  assumes "resolve_startup_order services = Inr ord"
  shows "set ord = fst ` set services \<and> distinct ord \<and>
         (\<forall>i d. i < length ord \<and> (ord ! i, d) \<in> dep_rel services \<longrightarrow> d \<in> set (take i ord))"
  using resolve_cases [of services] assms deps_first_nth [of "dep_rel services" "{}" ord] by auto

theorem startup_order_is_topological_witness:
  "set [''a'', ''b''] = fst ` set [(''b'', plain_service\<lparr>sd_depends_on := [''a'']\<rparr>), (''a'', plain_service)]"
proof -
  have "resolve_startup_order [(''b'', plain_service\<lparr>sd_depends_on := [''a'']\<rparr>), (''a'', plain_service)] =
      Inr [''a'', ''b'']"
    by (simp add: resolve_startup_order_def Cons_less_Cons visit.simps marked_def hm_get_insert Let_def
        dependencies_def plain_service_def finish_visit_def)
  from startup_order_is_topological [OF this] show ?thesis by simp
qed

text \<open>
  C3: the search always ends with the right verdict. An order is produced exactly when every
  dependency is a service of the manifest and no service depends on itself, directly or through
  others; the only errors are a real cycle and a really unknown dependency.
\<close>

theorem startup_order_decides_acyclicity:
  "case resolve_startup_order services of
     Inr ord \<Rightarrow> deps_known services \<and> acyclic (dep_rel services)
   | Inl e \<Rightarrow> honest_error services e \<and> \<not> (deps_known services \<and> acyclic (dep_rel services))"
proof -
  have dom: "\<forall>(a, b) \<in> dep_rel services. a \<in> fst ` set services"
    by (auto simp: dep_rel_def dest!: map_of_SomeD intro: rev_image_eqI)
  have good: "deps_known services \<and> acyclic (dep_rel services)" if "resolve_startup_order services = Inr ord" for ord
  proof -
    from that resolve_cases [of services]
    have o: "set ord = fst ` set services" "distinct ord" "deps_first (dep_rel services) {} ord" by auto
    have "b \<in> fst ` set services" if ab: "(a, b) \<in> dep_rel services" for a b
    proof -
      from ab dom o(1) have "a \<in> set ord" by auto
      then obtain i where "i < length ord" "ord ! i = a" by (auto simp: in_set_conv_nth)
      with deps_first_nth [OF o(3), of i b] ab o(1) show ?thesis by (auto dest: in_set_takeD)
    qed
    moreover have "acyclic (dep_rel services)"
    proof (rule deps_first_no_cycle [OF o(3)])
      show "\<forall>(a, b) \<in> dep_rel services. a \<in> {} \<union> set ord" using dom o(1) by simp
    qed (simp_all add: o acyclic_def)
    ultimately show ?thesis by (auto simp: deps_known_def)
  qed
  have bad: "\<not> (deps_known services \<and> acyclic (dep_rel services))" if "honest_error services e" for e
    using that by (auto simp: honest_error_def deps_known_def acyclic_def split: order_error.splits)
  show ?thesis
    using good bad resolve_cases [of services] by (cases "resolve_startup_order services") auto
qed

end
