(* ===== verification/Supervision.thy ===== *)
theory Supervision
  imports StartupOrder
begin

text \<open>
  The supervisor of \<open>krab_orchestrator\<close>: reaping, restart budgets and backoff, termination,
  shutdown and watch restarts (\<open>src/process_runtime.rs\<close>), the initial start and the event loop of
  \<open>run_supervisor\<close> (\<open>src/main.rs\<close>).

  The operating system is a parameter: a child is its process id, \<open>poll\<close> answers \<open>try_wait\<close>, an
  outcome says how \<open>spawn_service_and_wait_ready\<close> ended and when, and \<open>os_child\<close> how a child reacts
  to termination. Each function also returns the events it logs.
\<close>

subsection \<open>Bookkeeping\<close>

type_synonym pid = nat

datatype exit_poll = Exited | Running | WaitFailed

datatype spawn_outcome = Spawned pid instant | SpawnFailed instant

record supervision =
  su_attempts :: u32
  su_started_at :: instant
  su_retry_at :: "instant option"

record sup_state =
  children :: "pid hashmap"
  supervised :: "supervision hashmap"

datatype sup_event =
    ServiceExited string
  | BudgetReset string
  | NotRestartedByPolicy string
  | LimitReached string
  | RestartScheduled string
  | AutoRestarted string
  | AutoRestartFailed string
  | NothingToWatch
  | WatchRestarted string
  | WatchRestartFailed string

definition started_now :: "instant \<Rightarrow> supervision" where
  "started_now now = \<lparr>su_attempts = 0, su_started_at = now, su_retry_at = None\<rparr>"

definition mark_started :: "instant \<Rightarrow> supervision \<Rightarrow> supervision" where
  "mark_started now e = e\<lparr>su_started_at := now, su_retry_at := None\<rparr>"

abbreviation service_of :: "krab_config \<Rightarrow> string \<Rightarrow> service_definition option" where
  "service_of config name \<equiv> hm_get (cfg_services config) name"

subsection \<open>Reaping\<close>

definition reset_budget :: "service_definition \<Rightarrow> instant \<Rightarrow> string \<Rightarrow> supervision \<Rightarrow> supervision \<times> sup_event list" where
  "reset_budget sd now name e =
     (if 0 < su_attempts e \<and>
         effective_restart_stability_window sd \<le> saturating_duration_since now (su_started_at e)
      then (e\<lparr>su_attempts := 0\<rparr>, [BudgetReset name]) else (e, []))"

definition schedule_restart :: "service_definition \<Rightarrow> instant \<Rightarrow> string \<Rightarrow> supervision \<Rightarrow> supervision \<times> sup_event list" where
  "schedule_restart sd now name e =
     (if \<not> effective_restart_on_exit sd then (e\<lparr>su_retry_at := None\<rparr>, [NotRestartedByPolicy name])
      else if effective_max_restart_attempts sd \<le> su_attempts e
      then (e\<lparr>su_retry_at := None\<rparr>, [LimitReached name])
      else (e\<lparr>su_retry_at := Some (now + from_millis (unat (effective_restart_backoff_ms sd)))\<rparr>,
            [RestartScheduled name]))"

definition reap_one ::
  "krab_config \<Rightarrow> instant \<Rightarrow> (pid \<Rightarrow> exit_poll) \<Rightarrow> (string \<Rightarrow> instant) \<Rightarrow> string \<Rightarrow> sup_state \<Rightarrow>
   sup_state \<times> sup_event list" where
  "reap_one config now poll clk name st =
     (case hm_get (children st) name of
        None \<Rightarrow> (st, [])
      | Some child \<Rightarrow>
          (case poll child of
             Running \<Rightarrow> (st, [])
           | WaitFailed \<Rightarrow> (st, [])
           | Exited \<Rightarrow>
               let st1 = st\<lparr>children := hm_remove name (children st)\<rparr>
               in case service_of config name of
                    None \<Rightarrow> (st1, [ServiceExited name])
                  | Some sd \<Rightarrow>
                      let e0 = (case hm_get (supervised st1) name of Some e \<Rightarrow> e | None \<Rightarrow> started_now (clk name));
                          (e1, ev1) = reset_budget sd now name e0;
                          (e2, ev2) = schedule_restart sd now name e1
                      in (st1\<lparr>supervised := hm_insert name e2 (supervised st1)\<rparr>,
                          ServiceExited name # ev1 @ ev2)))"

fun reap_loop ::
  "krab_config \<Rightarrow> instant \<Rightarrow> (pid \<Rightarrow> exit_poll) \<Rightarrow> (string \<Rightarrow> instant) \<Rightarrow> string list \<Rightarrow> sup_state \<Rightarrow>
   sup_state \<times> sup_event list" where
  "reap_loop config now poll clk [] st = (st, [])"
| "reap_loop config now poll clk (name # names) st =
     (let (st1, ev1) = reap_one config now poll clk name st;
          (st2, ev2) = reap_loop config now poll clk names st1
      in (st2, ev1 @ ev2))"

definition reap_exited_children ::
  "krab_config \<Rightarrow> instant \<Rightarrow> (pid \<Rightarrow> exit_poll) \<Rightarrow> (string \<Rightarrow> instant) \<Rightarrow> sup_state \<Rightarrow>
   sup_state \<times> sup_event list" where
  "reap_exited_children config now poll clk st =
     reap_loop config now poll clk (hm_keys (children st)) st"

subsection \<open>Automatic restarts\<close>

definition is_due :: "instant \<Rightarrow> sup_state \<Rightarrow> string \<Rightarrow> bool" where
  "is_due now st name =
     (\<not> hm_contains (children st) name \<and>
      (case Option.bind (hm_get (supervised st) name) su_retry_at of Some at \<Rightarrow> at \<le> now | None \<Rightarrow> False))"

definition spawn_one ::
  "krab_config \<Rightarrow> (string \<Rightarrow> spawn_outcome) \<Rightarrow> string \<Rightarrow> sup_state \<Rightarrow> sup_state \<times> sup_event list" where
  "spawn_one config outcome name st =
     (case service_of config name of
        None \<Rightarrow> (st, [])
      | Some sd \<Rightarrow>
          (case hm_get (supervised st) name of
             None \<Rightarrow> (st, [])
           | Some e \<Rightarrow>
               let attempt = su_attempts e + 1;
                   e1 = e\<lparr>su_attempts := attempt, su_retry_at := None\<rparr>
               in case outcome name of
                    Spawned pid t \<Rightarrow>
                      (st\<lparr>children := hm_insert name pid (children st),
                          supervised := hm_insert name (mark_started t e1) (supervised st)\<rparr>,
                       [AutoRestarted name])
                  | SpawnFailed t \<Rightarrow>
                      if attempt < effective_max_restart_attempts sd
                      then (st\<lparr>supervised := hm_insert name
                              (e1\<lparr>su_retry_at := Some (t + from_millis (unat (effective_restart_backoff_ms sd)))\<rparr>)
                              (supervised st)\<rparr>,
                            [AutoRestartFailed name])
                      else (st\<lparr>supervised := hm_insert name e1 (supervised st)\<rparr>,
                            [AutoRestartFailed name, LimitReached name])))"

fun spawn_loop ::
  "krab_config \<Rightarrow> (string \<Rightarrow> spawn_outcome) \<Rightarrow> string list \<Rightarrow> sup_state \<Rightarrow> sup_state \<times> sup_event list" where
  "spawn_loop config outcome [] st = (st, [])"
| "spawn_loop config outcome (name # names) st =
     (let (st1, ev1) = spawn_one config outcome name st;
          (st2, ev2) = spawn_loop config outcome names st1
      in (st2, ev1 @ ev2))"

definition spawn_due_restarts ::
  "krab_config \<Rightarrow> string list \<Rightarrow> instant \<Rightarrow> (string \<Rightarrow> spawn_outcome) \<Rightarrow> sup_state \<Rightarrow>
   sup_state \<times> sup_event list" where
  "spawn_due_restarts config startup_order now outcome st =
     spawn_loop config outcome (filter (is_due now st) startup_order) st"

text \<open>What the outside does during one tick.\<close>

record tick_env =
  reap_at :: instant
  poll_of :: "pid \<Rightarrow> exit_poll"
  reap_clock :: "string \<Rightarrow> instant"
  due_at :: instant
  outcome_of :: "string \<Rightarrow> spawn_outcome"

definition supervise_children ::
  "krab_config \<Rightarrow> string list \<Rightarrow> tick_env \<Rightarrow> sup_state \<Rightarrow> sup_state \<times> sup_event list" where
  "supervise_children config startup_order env st =
     (let (st1, ev1) = reap_exited_children config (reap_at env) (poll_of env) (reap_clock env) st;
          (st2, ev2) = spawn_due_restarts config startup_order (due_at env) (outcome_of env) st1
      in (st2, ev1 @ ev2))"

subsection \<open>Termination\<close>

definition FORCE_KILL_REAP_TIMEOUT :: duration where
  "FORCE_KILL_REAP_TIMEOUT = from_secs 5"

text \<open>A wait on a child: it ends after some time with a status or an error, or not at all.\<close>

datatype wait_outcome = WaitExit duration | WaitError duration | WaitForever

record os_child =
  already_exited :: bool
  pid_before :: bool
  graceful_wait :: wait_outcome
  pid_after :: bool
  forced_wait :: wait_outcome

datatype kill_signal = GroupSigterm | GroupSigkill | StartKill

datatype stop_result =
    AlreadyExited | StoppedGracefully | StoppedForcefully | ForcedWaitFailed | AbandonedWait

text \<open>\<open>tokio::time::timeout\<close> around a wait: the result and the time it took.\<close>

definition wait_at_most :: "duration \<Rightarrow> wait_outcome \<Rightarrow> bool option \<times> duration" where
  "wait_at_most limit w =
     (case w of
        WaitExit t \<Rightarrow> if t \<le> limit then (Some True, t) else (None, limit)
      | WaitError t \<Rightarrow> if t \<le> limit then (Some False, t) else (None, limit)
      | WaitForever \<Rightarrow> (None, limit))"

text \<open>\<open>terminate_child\<close> on Unix: the result, the signals sent, and the time taken.\<close>

definition terminate_child :: "duration \<Rightarrow> os_child \<Rightarrow> stop_result \<times> kill_signal list \<times> duration" where
  "terminate_child limit c =
     (if already_exited c then (AlreadyExited, [], 0)
      else let sent = (if pid_before c then [GroupSigterm] else []);
               (stopped, t1) = wait_at_most limit (graceful_wait c)
           in if stopped = Some True then (StoppedGracefully, sent, t1)
              else let sent' = sent @ (if pid_after c then [GroupSigkill] else []) @ [StartKill];
                       (reaped, t2) = wait_at_most FORCE_KILL_REAP_TIMEOUT (forced_wait c)
                   in (case reaped of
                         Some True \<Rightarrow> StoppedForcefully
                       | Some False \<Rightarrow> ForcedWaitFailed
                       | None \<Rightarrow> AbandonedWait, sent', t1 + t2))"

definition shutdown_timeout_for :: "krab_config \<Rightarrow> string \<Rightarrow> duration" where
  "shutdown_timeout_for config name =
     from_millis (unat (case service_of config name of
        Some svc \<Rightarrow> sd_shutdown_timeout_ms svc | None \<Rightarrow> DEFAULT_SHUTDOWN_TIMEOUT_MS))"

type_synonym stop_log = "(string \<times> stop_result \<times> kill_signal list \<times> duration) list"

definition shutdown_names :: "string list \<Rightarrow> pid hashmap \<Rightarrow> string list" where
  "shutdown_names startup_order cs =
     filter (hm_contains cs) (rev startup_order) @
     sort (filter (\<lambda>name. name \<notin> set startup_order) (hm_keys cs))"

fun stop_loop :: "krab_config \<Rightarrow> (pid \<Rightarrow> os_child) \<Rightarrow> string list \<Rightarrow> pid hashmap \<Rightarrow> stop_log" where
  "stop_loop config os [] cs = []"
| "stop_loop config os (name # names) cs =
     (case hm_get cs name of
        None \<Rightarrow> stop_loop config os names cs
      | Some child \<Rightarrow>
          (name, terminate_child (shutdown_timeout_for config name) (os child)) # stop_loop config os names cs)"

definition shutdown_children ::
  "krab_config \<Rightarrow> string list \<Rightarrow> (pid \<Rightarrow> os_child) \<Rightarrow> pid hashmap \<Rightarrow> pid hashmap \<times> stop_log" where
  "shutdown_children config startup_order os cs =
     ([], stop_loop config os (shutdown_names startup_order cs) cs)"

subsection \<open>Watch restarts\<close>

definition is_watched :: "krab_config \<Rightarrow> string \<Rightarrow> bool" where
  "is_watched config name = (case service_of config name of Some sd \<Rightarrow> sd_watch sd | None \<Rightarrow> False)"

definition stop_watched :: "string list \<Rightarrow> pid hashmap \<Rightarrow> pid hashmap" where
  "stop_watched names cs = foldl (\<lambda>cs name. if hm_contains cs name then hm_remove name cs else cs) cs (rev names)"

definition restart_one ::
  "krab_config \<Rightarrow> (string \<Rightarrow> spawn_outcome) \<Rightarrow> string \<Rightarrow> sup_state \<Rightarrow> sup_state \<times> sup_event list" where
  "restart_one config outcome name st =
     (case service_of config name of
        None \<Rightarrow> (st, [])
      | Some sd \<Rightarrow>
          (case outcome name of
             Spawned pid t \<Rightarrow>
               (st\<lparr>children := hm_insert name pid (children st),
                   supervised := hm_insert name (started_now t) (supervised st)\<rparr>,
                [WatchRestarted name])
           | SpawnFailed t \<Rightarrow> (st, [WatchRestartFailed name])))"

fun restart_loop ::
  "krab_config \<Rightarrow> (string \<Rightarrow> spawn_outcome) \<Rightarrow> string list \<Rightarrow> sup_state \<Rightarrow> sup_state \<times> sup_event list" where
  "restart_loop config outcome [] st = (st, [])"
| "restart_loop config outcome (name # names) st =
     (let (st1, ev1) = restart_one config outcome name st;
          (st2, ev2) = restart_loop config outcome names st1
      in (st2, ev1 @ ev2))"

definition restart_watched_services ::
  "krab_config \<Rightarrow> string list \<Rightarrow> (string \<Rightarrow> spawn_outcome) \<Rightarrow> sup_state \<Rightarrow> sup_state \<times> sup_event list" where
  "restart_watched_services config startup_order outcome st =
     (let watched = filter (is_watched config) startup_order
      in if watched = [] then (st, [NothingToWatch])
         else restart_loop config outcome watched (st\<lparr>children := stop_watched watched (children st)\<rparr>))"

subsection \<open>Invariant\<close>

text \<open>
  Within budget: never more attempts than allowed, and a pending retry only for a service that is
  down, may be restarted and has budget left.
\<close>

definition entry_ok :: "service_definition \<Rightarrow> bool \<Rightarrow> supervision \<Rightarrow> bool" where
  "entry_ok sd running e \<longleftrightarrow>
     su_attempts e \<le> effective_max_restart_attempts sd \<and>
     (su_retry_at e \<noteq> None \<longrightarrow>
        su_attempts e < effective_max_restart_attempts sd \<and> effective_restart_on_exit sd \<and> \<not> running)"

definition sup_inv :: "krab_config \<Rightarrow> sup_state \<Rightarrow> bool" where
  "sup_inv config st \<longleftrightarrow>
     distinct (hm_keys (children st)) \<and>
     fst ` set (children st) \<subseteq> fst ` set (supervised st) \<and>
     fst ` set (supervised st) \<subseteq> fst ` set (cfg_services config) \<and>
     (\<forall>name e sd. hm_get (supervised st) name = Some e \<and> service_of config name = Some sd \<longrightarrow>
        entry_ok sd (name \<in> fst ` set (children st)) e)"

lemma hm_get_mem: "hm_get m k = Some v \<Longrightarrow> k \<in> fst ` set m"
  by (auto dest: map_of_SomeD intro: rev_image_eqI)

lemma hm_mem_get: "k \<in> fst ` set m \<Longrightarrow> \<exists>v. hm_get m k = Some v"
  by (auto dest: weak_map_of_SomeI)

lemma sup_invD:
  assumes "sup_inv config st"
  shows "distinct (hm_keys (children st))"
    and "fst ` set (children st) \<subseteq> fst ` set (supervised st)"
    and "fst ` set (supervised st) \<subseteq> fst ` set (cfg_services config)"
    and "hm_get (supervised st) name = Some e \<Longrightarrow> service_of config name = Some sd \<Longrightarrow>
      entry_ok sd (name \<in> fst ` set (children st)) e"
  using assms by (simp_all add: sup_inv_def)

lemma sup_inv_child:
  assumes "sup_inv config st" and "hm_get (children st) name = Some c"
  shows "\<exists>e. hm_get (supervised st) name = Some e"
  by (rule hm_mem_get [OF subsetD [OF sup_invD(2) [OF assms(1)] hm_get_mem [OF assms(2)]]])

lemma sup_inv_entry:
  assumes "sup_inv config st" and "hm_get (supervised st) name = Some e"
  shows "\<exists>sd. service_of config name = Some sd \<and> entry_ok sd (name \<in> fst ` set (children st)) e"
proof -
  obtain sd where "service_of config name = Some sd"
    using hm_mem_get [OF subsetD [OF sup_invD(3) [OF assms(1)] hm_get_mem [OF assms(2)]]] by auto
  with sup_invD(4) [OF assms] show ?thesis by simp
qed

lemma reset_schedule_ok:
  assumes "entry_ok sd running e" and "reset_budget sd now name e = (e1, ev1)"
    and "schedule_restart sd now name e1 = (e2, ev2)"
  shows "entry_ok sd False e2"
  using assms by (auto simp: reset_budget_def schedule_restart_def entry_ok_def split: if_splits)

lemma sup_inv_step:
  assumes "sup_inv config st" and "service_of config name = Some sd" and "entry_ok sd running e"
    and "distinct (hm_keys cs)" and "fst ` set cs - {name} \<subseteq> fst ` set (children st)"
    and "name \<in> fst ` set cs \<longrightarrow> running"
  shows "sup_inv config (st\<lparr>children := cs, supervised := hm_insert name e (supervised st)\<rparr>)"
proof -
  have "entry_ok sd' (n \<in> fst ` set cs) e'"
    if "hm_get (hm_insert name e (supervised st)) n = Some e'" "service_of config n = Some sd'" for n e' sd'
  proof (cases "n = name")
    case True
    with that assms(2,3,6) show ?thesis by (auto simp: hm_get_insert entry_ok_def)
  next
    case False
    with that sup_invD(4) [OF assms(1)] have ok: "entry_ok sd' (n \<in> fst ` set (children st)) e'"
      by (simp add: hm_get_insert)
    have "n \<in> fst ` set cs \<Longrightarrow> n \<in> fst ` set (children st)"
      using False assms(5) by (simp add: subset_iff)
    with ok show ?thesis by (auto simp: entry_ok_def)
  qed
  moreover have "name \<in> fst ` set (cfg_services config)" using assms(2) by (rule hm_get_mem)
  moreover have "fst ` set cs \<subseteq> insert name (fst ` set (supervised st))"
    using subset_trans [OF assms(5) sup_invD(2) [OF assms(1)]] by (simp add: Diff_subset_conv)
  ultimately show ?thesis
    using assms(1,4) by (simp add: sup_inv_def hm_keys_insert)
qed

lemma reap_one_inv [krab_inv]:
  assumes "sup_inv config st"
  shows "sup_inv config (fst (reap_one config now poll clk name st))"
proof (cases "hm_get (children st) name")
  case None
  with assms show ?thesis by (simp add: reap_one_def)
next
  case (Some child)
  show ?thesis
  proof (cases "poll child")
    case Exited
    obtain e where e: "hm_get (supervised st) name = Some e" using sup_inv_child [OF assms Some] by blast
    obtain sd where sd: "service_of config name = Some sd" "entry_ok sd (name \<in> fst ` set (children st)) e"
      using sup_inv_entry [OF assms e] by blast
    obtain e1 ev1 e2 ev2 where r: "reset_budget sd now name e = (e1, ev1)" "schedule_restart sd now name e1 = (e2, ev2)"
      by fastforce
    have ok: "entry_ok sd False e2" by (rule reset_schedule_ok [OF sd(2) r])
    have "distinct (hm_keys (hm_remove name (children st)))"
      by (rule distinct_delete [OF sup_invD(1) [OF assms]])
    then have "sup_inv config (st\<lparr>children := hm_remove name (children st), supervised := hm_insert name e2 (supervised st)\<rparr>)"
      by (rule sup_inv_step [OF assms sd(1) ok]) (simp_all add: hm_keys_remove)
    with Some Exited e sd r show ?thesis by (simp add: reap_one_def Let_def)
  qed (use Some assms in \<open>simp_all add: reap_one_def\<close>)
qed

lemma reap_loop_inv [krab_inv]:
  "sup_inv config st \<Longrightarrow> sup_inv config (fst (reap_loop config now poll clk names st))"
proof (induction names arbitrary: st)
  case Nil
  then show ?case by simp
next
  case (Cons name names)
  from Cons.IH [of "fst (reap_one config now poll clk name st)"] reap_one_inv [OF Cons.prems] show ?case
    by (simp add: split_beta Let_def)
qed

lemma spawn_one_inv:
  assumes "sup_inv config st" and "hm_get (supervised st) name = Some e" and "su_retry_at e \<noteq> None"
  shows "sup_inv config (fst (spawn_one config outcome name st))"
proof -
  obtain sd where sd: "service_of config name = Some sd" and
    old: "entry_ok sd (name \<in> fst ` set (children st)) e" "distinct (hm_keys (children st))"
    using sup_inv_entry [OF assms(1,2)] sup_invD(1) [OF assms(1)] by blast
  then have lt: "su_attempts e < effective_max_restart_attempts sd" "effective_restart_on_exit sd"
    "name \<notin> fst ` set (children st)" using assms(3) by (auto simp: entry_ok_def)
  then have le: "su_attempts e + 1 \<le> effective_max_restart_attempts sd"
    using unat_inc_less [OF lt(1)] by (simp add: word_le_nat_alt word_less_nat_alt)
  show ?thesis
  proof (cases "outcome name")
    case (Spawned pid t)
    let ?e = "mark_started t (e\<lparr>su_attempts := su_attempts e + 1, su_retry_at := None\<rparr>)"
    have ok: "entry_ok sd True ?e" using le by (simp add: entry_ok_def mark_started_def)
    have "sup_inv config (st\<lparr>children := hm_insert name pid (children st), supervised := hm_insert name ?e (supervised st)\<rparr>)"
      using old(2) by (intro sup_inv_step [OF assms(1) sd ok]) (simp_all add: hm_keys_insert distinct_update)
    with Spawned assms sd show ?thesis by (simp add: spawn_one_def Let_def)
  next
    case (SpawnFailed t)
    have "sup_inv config (st\<lparr>children := children st, supervised := hm_insert name e' (supervised st)\<rparr>)"
      if "entry_ok sd False e'" for e'
      using old(2) lt(3) by (intro sup_inv_step [OF assms(1) sd that]) simp_all
    with SpawnFailed assms sd lt le show ?thesis by (simp add: spawn_one_def Let_def entry_ok_def)
  qed
qed

lemma spawn_one_other:
  "name' \<noteq> name \<Longrightarrow> hm_get (supervised (fst (spawn_one config outcome name st))) name' = hm_get (supervised st) name'"
  by (auto simp: spawn_one_def Let_def hm_get_insert split: option.splits spawn_outcome.splits)

fun attempted :: "sup_event list \<Rightarrow> string list" where
  "attempted [] = []"
| "attempted (AutoRestarted n # evs) = n # attempted evs"
| "attempted (AutoRestartFailed n # evs) = n # attempted evs"
| "attempted (ev # evs) = attempted evs"

lemma attempted_append [simp]: "attempted (xs @ ys) = attempted xs @ attempted ys"
  by (induction xs rule: attempted.induct) auto

definition attempts_of :: "sup_state \<Rightarrow> string \<Rightarrow> nat" where
  "attempts_of st n = (case hm_get (supervised st) n of Some e \<Rightarrow> unat (su_attempts e) | None \<Rightarrow> 0)"

lemma spawn_one_counts:
  assumes "sup_inv config st" and "hm_get (supervised st) name = Some e" and "su_retry_at e \<noteq> None"
  shows "attempted (snd (spawn_one config outcome name st)) = [name]"
    and "attempts_of (fst (spawn_one config outcome name st)) n =
         attempts_of st n + count_list (attempted (snd (spawn_one config outcome name st))) n"
    and "BudgetReset n \<notin> set (snd (spawn_one config outcome name st))"
proof -
  obtain sd where sd: "service_of config name = Some sd" and ok: "entry_ok sd (name \<in> fst ` set (children st)) e"
    using sup_inv_entry [OF assms(1,2)] by blast
  have "su_attempts e < effective_max_restart_attempts sd" using ok assms(3) by (simp add: entry_ok_def)
  then have "unat (su_attempts e + 1) = Suc (unat (su_attempts e))" by (rule unat_inc_less)
  with assms(2) sd show "attempted (snd (spawn_one config outcome name st)) = [name]"
    and "attempts_of (fst (spawn_one config outcome name st)) n =
         attempts_of st n + count_list (attempted (snd (spawn_one config outcome name st))) n"
    and "BudgetReset n \<notin> set (snd (spawn_one config outcome name st))"
    by (auto simp: spawn_one_def Let_def attempts_of_def hm_get_insert mark_started_def split: spawn_outcome.splits)
qed

lemma spawn_loop_spec:
  assumes "sup_inv config st" and "distinct names"
    and "\<forall>name \<in> set names. \<exists>e. hm_get (supervised st) name = Some e \<and> su_retry_at e \<noteq> None"
  shows "sup_inv config (fst (spawn_loop config outcome names st)) \<and>
         attempted (snd (spawn_loop config outcome names st)) = names \<and>
         attempts_of (fst (spawn_loop config outcome names st)) n = attempts_of st n + count_list names n"
  using assms
proof (induction names arbitrary: st)
  case Nil
  then show ?case by simp
next
  case (Cons name names)
  obtain e where e: "hm_get (supervised st) name = Some e" "su_retry_at e \<noteq> None" using Cons.prems(3) by auto
  let ?st1 = "fst (spawn_one config outcome name st)"
  have "\<forall>n \<in> set names. \<exists>e. hm_get (supervised ?st1) n = Some e \<and> su_retry_at e \<noteq> None"
  proof
    fix n assume n: "n \<in> set names"
    with Cons.prems(2) have "n \<noteq> name" by auto
    with n Cons.prems(3) show "\<exists>e. hm_get (supervised ?st1) n = Some e \<and> su_retry_at e \<noteq> None"
      by (simp add: spawn_one_other)
  qed
  then show ?case
    using Cons.IH [of ?st1] spawn_one_inv [OF Cons.prems(1) e] Cons.prems(2)
      spawn_one_counts(1) [OF Cons.prems(1) e, of outcome] spawn_one_counts(2) [OF Cons.prems(1) e, of outcome n]
    by (simp add: split_beta Let_def)
qed

lemma due_has_retry:
  assumes "is_due now st name"
  shows "\<exists>e. hm_get (supervised st) name = Some e \<and> su_retry_at e \<noteq> None"
  using assms by (auto simp: is_due_def split: option.splits bind_splits)

lemma spawn_due_spec:
  assumes "sup_inv config st" and "distinct startup_order"
  shows "sup_inv config (fst (spawn_due_restarts config startup_order now outcome st))"
    and "attempted (snd (spawn_due_restarts config startup_order now outcome st)) =
         filter (is_due now st) startup_order"
    and "attempts_of (fst (spawn_due_restarts config startup_order now outcome st)) n =
         attempts_of st n + count_list (filter (is_due now st) startup_order) n"
proof -
  have "\<forall>name \<in> set (filter (is_due now st) startup_order). \<exists>e. hm_get (supervised st) name = Some e \<and> su_retry_at e \<noteq> None"
    by (intro ballI due_has_retry [of now]) simp
  from spawn_loop_spec [OF assms(1) distinct_filter [OF assms(2)] this]
  show "sup_inv config (fst (spawn_due_restarts config startup_order now outcome st))"
    and "attempted (snd (spawn_due_restarts config startup_order now outcome st)) =
         filter (is_due now st) startup_order"
    and "attempts_of (fst (spawn_due_restarts config startup_order now outcome st)) n =
         attempts_of st n + count_list (filter (is_due now st) startup_order) n"
    by (simp_all add: spawn_due_restarts_def)
qed

lemma reap_one_counts:
  "attempted (snd (reap_one config now poll clk name st)) = []"
  "BudgetReset n \<notin> set (snd (reap_one config now poll clk name st)) \<Longrightarrow>
     attempts_of (fst (reap_one config now poll clk name st)) n = attempts_of st n"
  by (auto simp: reap_one_def Let_def reset_budget_def schedule_restart_def attempts_of_def hm_get_insert
      started_now_def split: option.splits exit_poll.splits if_splits)

lemma reap_loop_counts:
  "attempted (snd (reap_loop config now poll clk names st)) = []"
  "BudgetReset n \<notin> set (snd (reap_loop config now poll clk names st)) \<Longrightarrow>
     attempts_of (fst (reap_loop config now poll clk names st)) n = attempts_of st n"
  by (induction names arbitrary: st) (simp_all add: split_beta Let_def reap_one_counts)

lemma reap_one_other:
  assumes "n \<noteq> name"
  shows "hm_get (children (fst (reap_one config now poll clk name st))) n = hm_get (children st) n"
    and "hm_get (supervised (fst (reap_one config now poll clk name st))) n = hm_get (supervised st) n"
  using assms by (auto simp: reap_one_def Let_def hm_simps split: option.splits exit_poll.splits prod.splits)

lemma reap_one_reset:
  assumes "BudgetReset n \<in> set (snd (reap_one config now poll clk name st))"
  shows "name = n \<and> (\<exists>c sd. hm_get (children st) n = Some c \<and> poll c = Exited \<and> service_of config n = Some sd \<and>
    (\<forall>e. hm_get (supervised st) n = Some e \<longrightarrow> effective_restart_stability_window sd \<le> now - su_started_at e))"
  using assms
  by (auto simp: reap_one_def Let_def reset_budget_def schedule_restart_def saturating_duration_since_def
      split: option.splits exit_poll.splits if_splits)

text \<open>A budget is given back only to a child found exited after its whole stability window.\<close>

lemma reap_loop_reset:
  assumes "BudgetReset n \<in> set (snd (reap_loop config now poll clk names st))" and "distinct names"
  shows "\<exists>c sd. hm_get (children st) n = Some c \<and> poll c = Exited \<and> service_of config n = Some sd \<and>
    (\<forall>e. hm_get (supervised st) n = Some e \<longrightarrow> effective_restart_stability_window sd \<le> now - su_started_at e)"
  using assms
proof (induction names arbitrary: st)
  case Nil
  then show ?case by simp
next
  case (Cons name names)
  let ?st1 = "fst (reap_one config now poll clk name st)"
  have names: "BudgetReset n \<in> set (snd (reap_loop config now poll clk names st)) \<Longrightarrow> n \<in> set names" for st names
    by (induction names arbitrary: st) (auto simp: split_beta Let_def dest: reap_one_reset)
  consider "BudgetReset n \<in> set (snd (reap_one config now poll clk name st))"
    | "BudgetReset n \<in> set (snd (reap_loop config now poll clk names ?st1))"
    using Cons.prems(1) by (auto simp: split_beta Let_def)
  then show ?case
  proof cases
    case 1
    from reap_one_reset [OF this] show ?thesis by blast
  next
    case 2
    then have "n \<noteq> name" using names [OF 2] Cons.prems(2) by auto
    from Cons.IH [OF 2] Cons.prems(2) show ?thesis by (simp add: reap_one_other [OF \<open>n \<noteq> name\<close>])
  qed
qed

lemma spawn_loop_no_reset: "BudgetReset n \<notin> set (snd (spawn_loop config outcome names st))"
proof (induction names arbitrary: st)
  case Nil
  then show ?case by simp
next
  case (Cons name names)
  have "BudgetReset n \<notin> set (snd (spawn_one config outcome name st))"
    by (simp add: spawn_one_def Let_def split: option.splits spawn_outcome.splits)
  with Cons show ?case by (simp add: split_beta Let_def)
qed

lemma reap_one_cong:
  assumes "hm_get (children st) n = hm_get (children st') n" and "hm_get (supervised st) n = hm_get (supervised st') n"
  shows "hm_get (children (fst (reap_one config now poll clk n st))) n =
           hm_get (children (fst (reap_one config now poll clk n st'))) n"
    and "hm_get (supervised (fst (reap_one config now poll clk n st))) n =
           hm_get (supervised (fst (reap_one config now poll clk n st'))) n"
  using assms by (auto simp: reap_one_def Let_def hm_simps split: option.splits exit_poll.splits prod.splits)

lemma reap_loop_local:
  assumes "distinct names"
  shows "hm_get (children (fst (reap_loop config now poll clk names st))) n =
           (if n \<in> set names then hm_get (children (fst (reap_one config now poll clk n st))) n
            else hm_get (children st) n) \<and>
         hm_get (supervised (fst (reap_loop config now poll clk names st))) n =
           (if n \<in> set names then hm_get (supervised (fst (reap_one config now poll clk n st))) n
            else hm_get (supervised st) n)"
  using assms
proof (induction names arbitrary: st)
  case Nil
  then show ?case by simp
next
  case (Cons name names)
  let ?st1 = "fst (reap_one config now poll clk name st)"
  show ?case
  proof (cases "n = name")
    case True
    with Cons show ?thesis by (simp add: split_beta Let_def)
  next
    case False
    with Cons.IH [of ?st1] Cons.prems reap_one_other [OF False, of config now poll clk st]
      reap_one_cong [of ?st1 n st config now poll clk]
    show ?thesis by (simp add: split_beta Let_def)
  qed
qed

lemma supervise_inv [krab_inv]:
  assumes "sup_inv config st" and "distinct startup_order"
  shows "sup_inv config (fst (supervise_children config startup_order env st))"
  using assms spawn_due_spec(1) reap_loop_inv [OF assms(1)]
  by (simp add: supervise_children_def reap_exited_children_def split_beta Let_def)

lemma supervise_counts:
  assumes "sup_inv config st" and "distinct startup_order"
    and "BudgetReset n \<notin> set (snd (supervise_children config startup_order env st))"
  shows "attempts_of (fst (supervise_children config startup_order env st)) n =
         attempts_of st n + count_list (attempted (snd (supervise_children config startup_order env st))) n"
proof -
  let ?r = "reap_exited_children config (reap_at env) (poll_of env) (reap_clock env) st"
  have "BudgetReset n \<notin> set (snd ?r)"
    using assms(3) by (simp add: supervise_children_def split_beta Let_def)
  then have "attempts_of (fst ?r) n = attempts_of st n" "attempted (snd ?r) = []"
    by (simp_all add: reap_exited_children_def reap_loop_counts)
  moreover have "sup_inv config (fst ?r)"
    using reap_loop_inv [OF assms(1)] by (simp add: reap_exited_children_def)
  ultimately show ?thesis
    using spawn_due_spec(2,3) [OF _ assms(2)] by (simp add: supervise_children_def split_beta Let_def)
qed

lemma stop_watched_subset: "fst ` set (stop_watched names cs) \<subseteq> fst ` set cs"
proof -
  let ?f = "\<lambda>cs name. if hm_contains cs name then hm_remove name cs else cs"
  have f: "fst ` set (?f cs name) \<subseteq> fst ` set cs" for cs :: "pid hashmap" and name
    by (simp add: hm_keys_remove Diff_subset)
  have "fst ` set (foldl ?f cs xs) \<subseteq> fst ` set cs" for xs
  proof (induction xs arbitrary: cs)
    case Nil
    then show ?case by simp
  next
    case (Cons x xs)
    from subset_trans [OF Cons.IH [of "?f cs x"] f] show ?case by simp
  qed
  then show ?thesis by (simp add: stop_watched_def)
qed

lemma stop_watched_distinct: "distinct (hm_keys cs) \<Longrightarrow> distinct (hm_keys (stop_watched names cs))"
proof -
  have "distinct (hm_keys cs) \<Longrightarrow>
      distinct (hm_keys (foldl (\<lambda>cs name. if hm_contains cs name then hm_remove name cs else cs) cs xs))" for xs
    by (induction xs arbitrary: cs) (auto simp: distinct_delete)
  then show "distinct (hm_keys cs) \<Longrightarrow> distinct (hm_keys (stop_watched names cs))" by (simp add: stop_watched_def)
qed

lemma sup_inv_fewer_children:
  assumes "sup_inv config st" and "fst ` set cs \<subseteq> fst ` set (children st)" and "distinct (hm_keys cs)"
  shows "sup_inv config (st\<lparr>children := cs\<rparr>)"
proof -
  have "entry_ok sd (n \<in> fst ` set cs) e"
    if "hm_get (supervised st) n = Some e" "service_of config n = Some sd" for n e sd
  proof (cases "n \<in> fst ` set cs")
    case True
    with subsetD [OF assms(2) True] sup_invD(4) [OF assms(1) that] show ?thesis by simp
  next
    case False
    with sup_invD(4) [OF assms(1) that] show ?thesis by (auto simp: entry_ok_def)
  qed
  moreover have "fst ` set cs \<subseteq> fst ` set (supervised st)"
    by (rule subset_trans [OF assms(2) sup_invD(2) [OF assms(1)]])
  ultimately show ?thesis
    using sup_invD(3) [OF assms(1)] assms(3) by (simp add: sup_inv_def)
qed

lemma restart_one_inv:
  assumes "sup_inv config st"
  shows "sup_inv config (fst (restart_one config outcome name st))"
proof (cases "service_of config name")
  case None
  with assms show ?thesis by (simp add: restart_one_def)
next
  case (Some sd)
  have "sup_inv config (st\<lparr>children := hm_insert name pid (children st),
      supervised := hm_insert name (started_now t) (supervised st)\<rparr>)" for pid t
    using sup_invD(1) [OF assms]
    by (intro sup_inv_step [OF assms Some, of True]) (simp_all add: entry_ok_def started_now_def hm_keys_insert distinct_update)
  with Some assms show ?thesis by (simp add: restart_one_def split: spawn_outcome.splits)
qed

lemma restart_loop_inv:
  "sup_inv config st \<Longrightarrow> sup_inv config (fst (restart_loop config outcome names st))"
  by (induction names arbitrary: st) (simp_all add: split_beta Let_def restart_one_inv)

lemma restart_watched_inv [krab_inv]:
  assumes "sup_inv config st"
  shows "sup_inv config (fst (restart_watched_services config startup_order outcome st))"
  using assms stop_watched_subset stop_watched_distinct [OF sup_invD(1) [OF assms]]
  by (simp add: restart_watched_services_def Let_def restart_loop_inv sup_inv_fewer_children)

lemma restart_loop_counts:
  "attempted (snd (restart_loop config outcome names st)) = []"
  "WatchRestarted n \<notin> set (snd (restart_loop config outcome names st)) \<Longrightarrow>
     attempts_of (fst (restart_loop config outcome names st)) n = attempts_of st n"
proof -
  have 1: "attempted (snd (restart_one config outcome name st)) = []" for name st
    by (simp add: restart_one_def split: option.splits spawn_outcome.splits)
  have 2: "WatchRestarted n \<notin> set (snd (restart_one config outcome name st)) \<Longrightarrow>
      attempts_of (fst (restart_one config outcome name st)) n = attempts_of st n" for name st
    by (auto simp: restart_one_def attempts_of_def hm_get_insert split: option.splits spawn_outcome.splits)
  show "attempted (snd (restart_loop config outcome names st)) = []"
    by (induction names arbitrary: st) (simp_all add: split_beta Let_def 1)
  show "WatchRestarted n \<notin> set (snd (restart_loop config outcome names st)) \<Longrightarrow>
      attempts_of (fst (restart_loop config outcome names st)) n = attempts_of st n"
    by (induction names arbitrary: st) (simp_all add: split_beta Let_def 2)
qed

lemma restart_watched_counts:
  "attempted (snd (restart_watched_services config startup_order outcome st)) = []"
  "WatchRestarted n \<notin> set (snd (restart_watched_services config startup_order outcome st)) \<Longrightarrow>
     attempts_of (fst (restart_watched_services config startup_order outcome st)) n = attempts_of st n"
  using restart_loop_counts(2) [of n config outcome _ "st\<lparr>children := _\<rparr>"]
  by (auto simp: restart_watched_services_def Let_def restart_loop_counts(1) attempts_of_def)

lemma restart_loop_spawned:
  "WatchRestarted n \<in> set (snd (restart_loop config outcome names st)) \<Longrightarrow>
     n \<in> set names \<and> (\<exists>pid t. outcome n = Spawned pid t)"
  by (induction names arbitrary: st)
    (auto simp: split_beta Let_def restart_one_def split: option.splits spawn_outcome.splits)

lemma restart_watched_spawned:
  "WatchRestarted n \<in> set (snd (restart_watched_services config startup_order outcome st)) \<Longrightarrow>
     is_watched config n \<and> (\<exists>pid t. outcome n = Spawned pid t)"
  by (auto simp: restart_watched_services_def Let_def split: if_splits dest!: restart_loop_spawned)

end
