(* ===== verification/SupervisorLoop.thy ===== *)
theory SupervisorLoop
  imports Supervision
begin

text \<open>
  The run of the supervisor, \<open>run_supervisor\<close> of \<open>krab_orchestrator/src/main.rs\<close>: the initial start
  in dependency order, and the event loop as a step relation over its modes (exit supervision only,
  file events, polling). The paths that file events are ignored for are those of
  \<open>src/watch_runtime.rs\<close>. Then the guarantees of supervision, from the lemmas of \<open>Supervision\<close>.
\<close>

subsection \<open>Ignored paths\<close>

text \<open>A path: whether it is absolute, and its components.\<close>

type_synonym fs_path = "bool \<times> string list"

definition is_ignored_dir_name :: "string \<Rightarrow> bool" where
  "is_ignored_dir_name name =
     (name \<in> {''target'', ''.git'', ''node_modules'', ''.idea'', ''.vscode''})"

definition is_ignored_file_name :: "string \<Rightarrow> bool" where
  "is_ignored_file_name name =
     (ends_with name ''~'' \<or> starts_with name ''.#'' \<or>
      (starts_with name ''#'' \<and> ends_with name ''#'') \<or> name = ''4913'' \<or> name = ''.DS_Store'' \<or>
      str_contains name ''___jb_'' \<or> starts_with name ''.goutputstream-'' \<or>
      list_ex (ends_with name) [''.swp'', ''.swo'', ''.swx'', ''.tmp'', ''.bak'', ''.orig''])"

definition strip_cwd :: "fs_path option \<Rightarrow> fs_path \<Rightarrow> fs_path" where
  "strip_cwd cwd path =
     (case cwd of
        None \<Rightarrow> path
      | Some (absolute, comps) \<Rightarrow>
          if absolute = fst path \<and> prefix comps (snd path) then (False, drop (length comps) (snd path))
          else path)"

definition is_ignored_watch_path :: "fs_path option \<Rightarrow> fs_path \<Rightarrow> bool" where
  "is_ignored_watch_path cwd path =
     (let relative = strip_cwd cwd path;
          inspect_dirs = (\<not> fst path \<or> relative \<noteq> path)
      in (inspect_dirs \<and> list_ex is_ignored_dir_name (snd relative)) \<or>
         (snd path \<noteq> [] \<and> is_ignored_file_name (last (snd path))))"

subsection \<open>The initial start\<close>

fun start_loop ::
  "krab_config \<Rightarrow> (string \<Rightarrow> spawn_outcome) \<Rightarrow> string list \<Rightarrow> sup_state \<Rightarrow> (string \<times> sup_state) + sup_state" where
  "start_loop config outcome [] st = Inr st"
| "start_loop config outcome (name # names) st =
     (case service_of config name of
        None \<Rightarrow> start_loop config outcome names st
      | Some service \<Rightarrow>
          (case outcome name of
             Spawned pid t \<Rightarrow>
               start_loop config outcome names
                 (st\<lparr>children := hm_insert name pid (children st),
                     supervised := hm_insert name (started_now t) (supervised st)\<rparr>)
           | SpawnFailed t \<Rightarrow> Inl (name, st)))"

datatype supervisor_error = OrderFailed order_error | StartFailed string stop_log

definition start_supervisor ::
  "krab_config \<Rightarrow> (string \<Rightarrow> spawn_outcome) \<Rightarrow> (pid \<Rightarrow> os_child) \<Rightarrow>
   supervisor_error + string list \<times> sup_state" where
  "start_supervisor config outcome os =
     (case resolve_startup_order (cfg_services config) of
        Inl e \<Rightarrow> Inl (OrderFailed e)
      | Inr startup_order \<Rightarrow>
          (case start_loop config outcome startup_order \<lparr>children = [], supervised = []\<rparr> of
             Inl (name, st) \<Rightarrow>
               Inl (StartFailed name (snd (shutdown_children config startup_order os (children st))))
           | Inr st \<Rightarrow> Inr (startup_order, st)))"

subsection \<open>The event loop\<close>

text \<open>
  In event mode: whether a restart is pending, and its deadline. \<open>Scanning\<close> is the one moment
  between the modes: the first fingerprint of the polling fallback is being taken, and no signal is
  awaited.
\<close>

datatype sup_mode = ExitOnly | Events bool "instant option" | Scanning | Polling u64 | Stopped stop_log

definition effective_watch :: "krab_config \<Rightarrow> watch_config" where
  "effective_watch config =
     (case cfg_watch config of
        Some w \<Rightarrow> w
      | None \<Rightarrow> \<lparr>wc_enabled = False, wc_poll_ms = DEFAULT_POLL_MS, wc_settle_ms = DEFAULT_SETTLE_MS,
                  wc_paths = []\<rparr>)"

abbreviation stopped_from :: "krab_config \<Rightarrow> string list \<Rightarrow> (pid \<Rightarrow> os_child) \<Rightarrow> sup_state \<Rightarrow> sup_mode \<times> sup_state" where
  "stopped_from config startup_order os st \<equiv>
     (Stopped (snd (shutdown_children config startup_order os (children st))),
      st\<lparr>children := fst (shutdown_children config startup_order os (children st))\<rparr>)"

inductive sup_step ::
  "krab_config \<Rightarrow> string list \<Rightarrow> (pid \<Rightarrow> os_child) \<Rightarrow> fs_path option \<Rightarrow>
   sup_mode \<times> sup_state \<Rightarrow> sup_mode \<times> sup_state \<Rightarrow> bool"
  for config :: krab_config and startup_order :: "string list" and os :: "pid \<Rightarrow> os_child"
    and cwd :: "fs_path option" where
  shutdown_signal: "\<forall>log. mode \<noteq> Stopped log \<Longrightarrow> mode \<noteq> Scanning \<Longrightarrow>
    sup_step config startup_order os cwd (mode, st) (stopped_from config startup_order os st)"
| exit_tick: "sup_step config startup_order os cwd (ExitOnly, st)
    (ExitOnly, fst (supervise_children config startup_order env st))"
| event_tick: "sup_step config startup_order os cwd (Events p d, st)
    (Events p d, fst (supervise_children config startup_order env st))"
| ignored_event: "list_all (is_ignored_watch_path cwd) paths \<Longrightarrow>
    sup_step config startup_order os cwd (Events p d, st) (Events p d, st)"
| source_event: "\<not> list_all (is_ignored_watch_path cwd) paths \<Longrightarrow>
    sup_step config startup_order os cwd (Events p d, st)
      (Events True (Some (now + effective_settle (effective_watch config))), st)"
| event_error: "sup_step config startup_order os cwd (Events p d, st) (Events p d, st)"
| deadline: "deadline \<le> now \<Longrightarrow>
    sup_step config startup_order os cwd (Events True (Some deadline), st)
      (Events False None, fst (restart_watched_services config startup_order outcome st))"
| channel_closed: "sup_step config startup_order os cwd (Events p d, st) (Scanning, st)"
| first_scan: "sup_step config startup_order os cwd (Scanning, st) (Polling fingerprint, st)"
| first_scan_failed: "sup_step config startup_order os cwd (Scanning, st) (stopped_from config startup_order os st)"
| poll_unchanged: "sup_step config startup_order os cwd (Polling fingerprint, st)
    (Polling fingerprint, fst (supervise_children config startup_order env st))"
| poll_changed: "current \<noteq> fingerprint \<Longrightarrow>
    sup_step config startup_order os cwd (Polling fingerprint, st)
      (Polling current, fst (restart_watched_services config startup_order outcome
         (fst (supervise_children config startup_order env st))))"

inductive_cases sup_step_stoppedE: "sup_step config startup_order os cwd (Stopped log, st) s'"
inductive_cases sup_step_exitE: "sup_step config startup_order os cwd (ExitOnly, st) s'"
inductive_simps sup_step_deadline: "sup_step config startup_order os cwd (Events p d, st) (Events False None, st')"

text \<open>How the loop is entered: after the initial start, in the mode the manifest and the watcher decide.\<close>

inductive sup_reach ::
  "krab_config \<Rightarrow> string list \<Rightarrow> (pid \<Rightarrow> os_child) \<Rightarrow> fs_path option \<Rightarrow> sup_mode \<times> sup_state \<Rightarrow> bool"
  for config :: krab_config and startup_order :: "string list" and os :: "pid \<Rightarrow> os_child"
    and cwd :: "fs_path option" where
  enter: "start_supervisor config outcome os = Inr (startup_order, st) \<Longrightarrow>
    mode = (if wc_enabled (effective_watch config) then (if event_watcher then Events False None else Scanning)
            else ExitOnly) \<Longrightarrow>
    sup_reach config startup_order os cwd (mode, st)"
| step: "sup_reach config startup_order os cwd s \<Longrightarrow> sup_step config startup_order os cwd s s' \<Longrightarrow>
    sup_reach config startup_order os cwd s'"

subsection \<open>Lemmas on start and shutdown\<close>

lemma start_loop_spec:
  assumes "sup_inv config st" and "distinct names" and "set names \<subseteq> fst ` set (cfg_services config)"
    and "set names \<inter> set (hm_keys (children st)) = {}"
  shows "case start_loop config outcome names st of
           Inl (n, st') \<Rightarrow> \<exists>ys zs. names = ys @ n # zs \<and> hm_keys (children st') = hm_keys (children st) @ ys \<and>
                            (\<exists>t. outcome n = SpawnFailed t)
         | Inr st' \<Rightarrow> sup_inv config st' \<and> hm_keys (children st') = hm_keys (children st) @ names"
  using assms
proof (induction names arbitrary: st)
  case Nil
  then show ?case by simp
next
  case (Cons name names)
  obtain sd where sd: "service_of config name = Some sd" using Cons.prems(3) hm_mem_get [of name] by auto
  show ?case
  proof (cases "outcome name")
    case (SpawnFailed t)
    with sd show ?thesis by auto
  next
    case (Spawned pid t)
    let ?st1 = "st\<lparr>children := hm_insert name pid (children st),
      supervised := hm_insert name (started_now t) (supervised st)\<rparr>"
    have keys: "hm_keys (children ?st1) = hm_keys (children st) @ [name]"
      using Cons.prems(4) by (simp add: update_keys)
    have inv: "sup_inv config ?st1"
      using sup_invD(1) [OF Cons.prems(1)]
      by (intro sup_inv_step [OF Cons.prems(1) sd, of True])
        (simp_all add: entry_ok_def started_now_def hm_keys_insert distinct_update)
    have "case start_loop config outcome names ?st1 of
           Inl (n, st') \<Rightarrow> \<exists>ys zs. names = ys @ n # zs \<and> hm_keys (children st') = hm_keys (children ?st1) @ ys \<and>
                            (\<exists>t. outcome n = SpawnFailed t)
         | Inr st' \<Rightarrow> sup_inv config st' \<and> hm_keys (children st') = hm_keys (children ?st1) @ names"
      using Cons.prems inv keys by (intro Cons.IH) auto
    moreover have "start_loop config outcome (name # names) st = start_loop config outcome names ?st1"
      using sd Spawned by simp
    ultimately show ?thesis
      unfolding keys by (auto split: sum.splits)
  qed
qed

lemma sup_inv_empty: "sup_inv config \<lparr>children = [], supervised = []\<rparr>"
  by (simp add: sup_inv_def)

lemma map_fst_stop_loop:
  "set names \<subseteq> fst ` set cs \<Longrightarrow> map fst (stop_loop config os names cs) = names"
  by (induction names) (auto dest!: hm_mem_get)

lemma set_shutdown_names: "set (shutdown_names startup_order cs) = fst ` set cs"
  by (auto simp: shutdown_names_def)

lemma distinct_shutdown_names:
  "distinct startup_order \<Longrightarrow> distinct (hm_keys cs) \<Longrightarrow> distinct (shutdown_names startup_order cs)"
  by (auto simp: shutdown_names_def)

lemma shutdown_stops:
  "map fst (snd (shutdown_children config startup_order os cs)) = shutdown_names startup_order cs"
  by (simp add: shutdown_children_def map_fst_stop_loop set_shutdown_names)

lemma terminate_time: "snd (snd (terminate_child limit c)) \<le> limit + FORCE_KILL_REAP_TIMEOUT"
  by (auto simp: terminate_child_def Let_def wait_at_most_def split: wait_outcome.splits prod.splits)

lemma stop_loop_times:
  "(n, r, sigs, t) \<in> set (stop_loop config os names cs) \<Longrightarrow>
     t \<le> shutdown_timeout_for config n + FORCE_KILL_REAP_TIMEOUT"
proof (induction names)
  case Nil
  then show ?case by simp
next
  case (Cons name names)
  then show ?case
    using terminate_time [of "shutdown_timeout_for config name"]
    by (auto split: option.splits) (metis snd_conv)
qed

text \<open>\<open>before xs a b\<close>: \<open>a\<close> comes before \<open>b\<close> in the list.\<close>

definition before :: "'a list \<Rightarrow> 'a \<Rightarrow> 'a \<Rightarrow> bool" where
  "before xs a b \<longleftrightarrow> (\<exists>us vs ws. xs = us @ a # vs @ b # ws)"

lemma beforeI: "xs = us @ a # vs @ b # ws \<Longrightarrow> before xs a b"
  unfolding before_def by blast

lemma before_rev:
  assumes "before xs a b"
  shows "before (rev xs) b a"
proof -
  obtain us vs ws where "xs = us @ a # vs @ b # ws" using assms by (auto simp: before_def)
  then have "rev xs = rev ws @ b # rev vs @ a # rev us" by simp
  then show ?thesis by (rule beforeI)
qed

lemma before_filter:
  assumes "before xs a b" and "P a" and "P b"
  shows "before (filter P xs) a b"
proof -
  obtain us vs ws where "xs = us @ a # vs @ b # ws" using assms(1) by (auto simp: before_def)
  then have "filter P xs = filter P us @ a # filter P vs @ b # filter P ws" using assms(2,3) by simp
  then show ?thesis by (rule beforeI)
qed

lemma before_append:
  assumes "before xs a b"
  shows "before (xs @ ys) a b"
proof -
  obtain us vs ws where "xs = us @ a # vs @ b # ws" using assms by (auto simp: before_def)
  then have "xs @ ys = us @ a # vs @ b # (ws @ ys)" by simp
  then show ?thesis by (rule beforeI)
qed

lemma dep_before:
  assumes "deps_first (dep_rel services) {} ord" and "a \<in> set ord" and "(a, d) \<in> dep_rel services"
  shows "before ord d a"
proof -
  from assms(2) obtain i where i: "i < length ord" "ord ! i = a" by (auto simp: in_set_conv_nth)
  then have "d \<in> set (take i ord)" using deps_first_nth [OF assms(1)] assms(3) by auto
  then obtain us vs where "take i ord = us @ d # vs" by (meson split_list)
  moreover have "ord = take i ord @ a # drop (Suc i) ord" using i id_take_nth_drop [of i ord] by simp
  ultimately show ?thesis unfolding before_def by (metis append.assoc append_Cons)
qed

subsection \<open>Guarantees\<close>

text \<open>Any sequence of supervision ticks and watch restarts, with everything they log.\<close>

datatype sup_round = Tick tick_env | WatchRestart "string \<Rightarrow> spawn_outcome"

fun sup_rounds :: "krab_config \<Rightarrow> string list \<Rightarrow> sup_state \<Rightarrow> sup_round list \<Rightarrow> sup_state \<times> sup_event list" where
  "sup_rounds config startup_order st [] = (st, [])"
| "sup_rounds config startup_order st (r # rs) =
     (let (st1, ev1) = (case r of
            Tick env \<Rightarrow> supervise_children config startup_order env st
          | WatchRestart outcome \<Rightarrow> restart_watched_services config startup_order outcome st);
          (st2, ev2) = sup_rounds config startup_order st1 rs
      in (st2, ev1 @ ev2))"

text \<open>
  A service that never earns its budget back during these rounds, read off the inputs: whenever a
  tick finds its child exited, the child had been up for less than the stability window of the
  manifest, and no watch restart brings the service up.
\<close>

definition exits_early :: "krab_config \<Rightarrow> string \<Rightarrow> tick_env \<Rightarrow> sup_state \<Rightarrow> bool" where
  "exits_early config n env st =
     (case (hm_get (children st) n, hm_get (supervised st) n, service_of config n) of
        (Some c, Some e, Some sd) \<Rightarrow>
          poll_of env c \<noteq> Exited \<or> reap_at env - su_started_at e < effective_restart_stability_window sd
      | _ \<Rightarrow> True)"

fun crash_looping :: "krab_config \<Rightarrow> string list \<Rightarrow> string \<Rightarrow> sup_state \<Rightarrow> sup_round list \<Rightarrow> bool" where
  "crash_looping config startup_order n st [] = True"
| "crash_looping config startup_order n st (Tick env # rs) =
     (exits_early config n env st \<and>
      crash_looping config startup_order n (fst (supervise_children config startup_order env st)) rs)"
| "crash_looping config startup_order n st (WatchRestart outcome # rs) =
     ((is_watched config n \<longrightarrow> (case outcome n of SpawnFailed t \<Rightarrow> True | Spawned pid t \<Rightarrow> False)) \<and>
      crash_looping config startup_order n (fst (restart_watched_services config startup_order outcome st)) rs)"

lemma tick_keeps_budget:
  assumes "sup_inv config st" and "exits_early config n env st"
  shows "BudgetReset n \<notin> set (snd (supervise_children config startup_order env st))"
proof
  assume "BudgetReset n \<in> set (snd (supervise_children config startup_order env st))"
  then have "BudgetReset n \<in> set (snd (reap_exited_children config (reap_at env) (poll_of env) (reap_clock env) st))"
    using spawn_loop_no_reset by (auto simp: supervise_children_def spawn_due_restarts_def split_beta Let_def)
  from reap_loop_reset [OF this [unfolded reap_exited_children_def] sup_invD(1) [OF assms(1)]]
  obtain c sd where c: "hm_get (children st) n = Some c" "poll_of env c = Exited" "service_of config n = Some sd"
    and up: "\<And>e. hm_get (supervised st) n = Some e \<Longrightarrow>
      effective_restart_stability_window sd \<le> reap_at env - su_started_at e" by blast
  obtain e where "hm_get (supervised st) n = Some e" using sup_inv_child [OF assms(1) c(1)] by blast
  with c up assms(2) show False by (auto simp: exits_early_def)
qed

lemma crash_looping_attempts:
  assumes "sup_inv config st" and "distinct startup_order" and "crash_looping config startup_order n st rs"
  shows "sup_inv config (fst (sup_rounds config startup_order st rs)) \<and>
         attempts_of (fst (sup_rounds config startup_order st rs)) n =
           attempts_of st n + count_list (attempted (snd (sup_rounds config startup_order st rs))) n"
  using assms
proof (induction rs arbitrary: st)
  case Nil
  then show ?case by simp
next
  case (Cons r rs)
  show ?case
  proof (cases r)
    case (Tick env)
    let ?s1 = "supervise_children config startup_order env st"
    have "sup_inv config (fst ?s1)" by (rule supervise_inv [OF Cons.prems(1,2)])
    moreover have "attempts_of (fst ?s1) n = attempts_of st n + count_list (attempted (snd ?s1)) n"
      using Cons.prems Tick by (intro supervise_counts tick_keeps_budget) simp_all
    ultimately show ?thesis
      using Cons.IH [of "fst ?s1"] Cons.prems Tick by (simp add: split_beta Let_def)
  next
    case (WatchRestart outcome)
    let ?s1 = "restart_watched_services config startup_order outcome st"
    have "sup_inv config (fst ?s1)" by (rule restart_watched_inv [OF Cons.prems(1)])
    moreover have "WatchRestarted n \<notin> set (snd ?s1)"
      using Cons.prems(3) WatchRestart restart_watched_spawned [of n config startup_order outcome st]
      by (auto split: spawn_outcome.splits)
    then have "attempts_of (fst ?s1) n = attempts_of st n + count_list (attempted (snd ?s1)) n"
      by (simp add: restart_watched_counts)
    ultimately show ?thesis
      using Cons.IH [of "fst ?s1"] Cons.prems WatchRestart by (simp add: split_beta Let_def)
  qed
qed

text \<open>
  C4: the restart budget. Whatever the other services do, however restarts fail and whatever watch
  restarts happen in between: a service whose children always exit before their stability window is
  over, and which no source change brings up again, is started automatically at most
  \<open>max_attempts\<close> times, the attempts it had already used included.
\<close>

theorem restart_budget_bounds_crash_loops:
  assumes "sup_inv config st" and "distinct startup_order" and "service_of config n = Some sd"
    and "crash_looping config startup_order n st rs"
  shows "attempts_of st n + count_list (attempted (snd (sup_rounds config startup_order st rs))) n
         \<le> unat (effective_max_restart_attempts sd)"
proof -
  let ?st' = "fst (sup_rounds config startup_order st rs)"
  have c: "sup_inv config ?st'"
    "attempts_of ?st' n = attempts_of st n + count_list (attempted (snd (sup_rounds config startup_order st rs))) n"
    using crash_looping_attempts [OF assms(1,2,4)] by simp_all
  have "attempts_of ?st' n \<le> unat (effective_max_restart_attempts sd)"
    using sup_invD(4) [OF c(1) _ assms(3)]
    by (auto simp: attempts_of_def entry_ok_def word_le_nat_alt split: option.splits)
  with c(2) show ?thesis by simp
qed

text \<open>
  A crash loop: the service exits after a fraction of a second, is started again, exits again, and
  its second restart fails.
\<close>

definition crash_config :: krab_config where
  "crash_config = \<lparr>cfg_services = [(''a'', plain_service)], cfg_watch = None\<rparr>"

definition crash_tick :: "instant \<Rightarrow> spawn_outcome \<Rightarrow> sup_round" where
  "crash_tick now outcome =
     Tick \<lparr>reap_at = now, poll_of = (\<lambda>_. Exited), reap_clock = (\<lambda>_. now), due_at = now, outcome_of = (\<lambda>_. outcome)\<rparr>"

definition crash_rounds :: "sup_round list" where
  "crash_rounds =
     [crash_tick (from_millis 300) (SpawnFailed 0),
      crash_tick (from_secs 60) (Spawned 8 (from_secs 61)),
      crash_tick (from_secs 62) (SpawnFailed 0),
      crash_tick (from_secs 120) (SpawnFailed (from_secs 121)),
      WatchRestart (\<lambda>_. SpawnFailed 0)]"

definition crash_start :: sup_state where
  "crash_start = \<lparr>children = [(''a'', 7)], supervised = [(''a'', started_now 0)]\<rparr>"

lemma plain_policy:
  "effective_restart_on_exit plain_service" "effective_max_restart_attempts plain_service = 5"
  "effective_restart_backoff_ms plain_service = 500" "effective_restart_stability_window plain_service = 60000000000"
  by (simp_all add: effective_restart_on_exit_def effective_max_restart_attempts_def effective_restart_backoff_ms_def
      effective_restart_stability_window_def plain_service_def default_max_restart_attempts_def
      default_restart_backoff_ms_def default_restart_stability_window_ms_def from_millis_def)

lemmas crash_defs = crash_rounds_def crash_tick_def crash_config_def crash_start_def started_now_def mark_started_def
  from_millis_def from_secs_def supervise_children_def reap_exited_children_def
  reap_one_def reset_budget_def schedule_restart_def spawn_due_restarts_def is_due_def spawn_one_def restart_watched_services_def saturating_duration_since_def plain_policy word_le_nat_alt word_less_nat_alt

lemma plain_not_watched: "\<not> is_watched \<lparr>cfg_services = [(''a'', plain_service)], cfg_watch = None\<rparr> ''a''"
  by (simp add: is_watched_def plain_service_def)

lemma crash_rounds_events:
  "snd (sup_rounds crash_config [''a''] crash_start crash_rounds) =
     [ServiceExited ''a'', RestartScheduled ''a'', AutoRestarted ''a'',
      ServiceExited ''a'', RestartScheduled ''a'', AutoRestartFailed ''a'', NothingToWatch]"
  by (simp add: crash_defs plain_not_watched)

lemma crash_rounds_looping: "crash_looping crash_config [''a''] ''a'' crash_start crash_rounds"
  by (simp add: crash_defs plain_not_watched exits_early_def)

theorem restart_budget_bounds_crash_loops_witness:
  "attempts_of crash_start ''a'' + 2 \<le> unat (effective_max_restart_attempts plain_service)"
proof -
  have "sup_inv crash_config crash_start"
    by (simp add: sup_inv_def crash_config_def crash_start_def entry_ok_def started_now_def)
  from restart_budget_bounds_crash_loops [OF this _ _ crash_rounds_looping, of plain_service]
  have "attempts_of crash_start ''a'' +
      count_list (attempted (snd (sup_rounds crash_config [''a''] crash_start crash_rounds))) ''a''
      \<le> unat (effective_max_restart_attempts plain_service)" by (simp add: crash_config_def)
  then show ?thesis unfolding crash_rounds_events by simp
qed

text \<open>
  what a crash leads to. A tick that finds a child exited forgets its handle and decides in one
  step: a service that had been up for its stability window gets its attempts back, and a retry is
  set one backoff later exactly when the policy allows restarts and attempts are left.
\<close>

theorem crash_is_scheduled_or_given_up:
  fixes now :: instant and clk :: "string \<Rightarrow> instant"
  assumes "sup_inv config st" and "hm_get (children st) n = Some c" and "poll c = Exited"
    and "hm_get (supervised st) n = Some e" and "service_of config n = Some sd"
  defines "used \<equiv> (if effective_restart_stability_window sd \<le> now - su_started_at e then 0 else su_attempts e)"
    and "st' \<equiv> fst (reap_exited_children config now poll clk st)"
  shows "hm_get (children st') n = None \<and>
         hm_get (supervised st') n =
           Some (e\<lparr>su_attempts := used,
                   su_retry_at := if effective_restart_on_exit sd \<and> used < effective_max_restart_attempts sd
                                  then Some (now + from_millis (unat (effective_restart_backoff_ms sd))) else None\<rparr>)"
proof -
  have mem: "n \<in> set (hm_keys (children st))" using hm_get_mem [OF assms(2)] by simp
  have zero: "su_attempts e = 0 \<Longrightarrow> e\<lparr>su_attempts := 0\<rparr> = e" by simp
  have "hm_get (children (fst (reap_one config now poll clk n st))) n = None"
    using assms(2-5) by (simp add: reap_one_def Let_def hm_get_remove split_beta)
  moreover have "hm_get (supervised (fst (reap_one config now poll clk n st))) n =
      Some (e\<lparr>su_attempts := used,
              su_retry_at := if effective_restart_on_exit sd \<and> used < effective_max_restart_attempts sd
                             then Some (now + from_millis (unat (effective_restart_backoff_ms sd))) else None\<rparr>)"
    using assms(2-5)
    by (cases "su_attempts e = 0")
      (auto simp: reap_one_def Let_def hm_get_insert reset_budget_def schedule_restart_def used_def
        saturating_duration_since_def zero word_gt_0 not_le not_less)
  ultimately show ?thesis
    using reap_loop_local [OF sup_invD(1) [OF assms(1)], of config now poll clk st n] mem
    by (simp add: st'_def reap_exited_children_def)
qed

theorem crash_is_scheduled_or_given_up_witness:
  "hm_get (children (fst (reap_exited_children \<lparr>cfg_services = [(''a'', plain_service)], cfg_watch = None\<rparr> 100
     (\<lambda>_. Exited) (\<lambda>_. 0) \<lparr>children = [(''a'', 7)], supervised = [(''a'', started_now 0)]\<rparr>))) ''a'' = None"
  using crash_is_scheduled_or_given_up
    [of "\<lparr>cfg_services = [(''a'', plain_service)], cfg_watch = None\<rparr>"
        "\<lparr>children = [(''a'', 7)], supervised = [(''a'', started_now 0)]\<rparr>" "''a''" 7 "\<lambda>_. Exited"
        "started_now 0" plain_service 100 "\<lambda>_. 0"]
  by (simp add: sup_inv_def entry_ok_def started_now_def)

text \<open>
  a tick starts exactly the services whose backoff has elapsed and that have no running child,
  each once, in dependency order.
\<close>

theorem tick_restarts_due_services_in_order:
  assumes "sup_inv config st" and "resolve_startup_order (cfg_services config) = Inr startup_order"
  shows "attempted (snd (supervise_children config startup_order env st)) =
         filter (is_due (due_at env) (fst (reap_exited_children config (reap_at env) (poll_of env) (reap_clock env) st)))
           startup_order"
proof -
  have "distinct startup_order" using resolve_cases [of "cfg_services config"] assms(2) by simp
  with spawn_due_spec(2) [OF reap_loop_inv [OF assms(1)]] show ?thesis
    by (simp add: supervise_children_def reap_exited_children_def split_beta Let_def reap_loop_counts(1))
qed

theorem tick_restarts_due_services_in_order_witness:
  "attempted (snd (supervise_children \<lparr>cfg_services = [], cfg_watch = None\<rparr> []
     \<lparr>reap_at = 0, poll_of = \<lambda>_. Running, reap_clock = \<lambda>_. 0, due_at = 5, outcome_of = \<lambda>_. SpawnFailed 6\<rparr>
     \<lparr>children = [], supervised = []\<rparr>)) = []"
  using tick_restarts_due_services_in_order
    [of "\<lparr>cfg_services = [], cfg_watch = None\<rparr>" "\<lparr>children = [], supervised = []\<rparr>" "[]"
        "\<lparr>reap_at = 0, poll_of = \<lambda>_. Running, reap_clock = \<lambda>_. 0, due_at = 5, outcome_of = \<lambda>_. SpawnFailed 6\<rparr>"]
  by (simp add: sup_inv_empty resolve_startup_order_def)

text \<open>
  How a child has been put down, in terms of how it behaves: one that had exited already is left
  alone; any other gets the group SIGTERM first (if it still has a process id), and either exits
  within its budget or is killed, the whole group with it. It all ends within the budget plus the
  five seconds for the forced kill, even for a child that ignores every signal.
\<close>

definition put_down :: "duration \<Rightarrow> os_child \<Rightarrow> stop_result \<times> kill_signal list \<times> duration \<Rightarrow> bool" where
  "put_down limit c = (\<lambda>(r, sigs, t).
     t \<le> limit + FORCE_KILL_REAP_TIMEOUT \<and>
     (if already_exited c then r = AlreadyExited \<and> sigs = []
      else r \<noteq> AlreadyExited \<and> (pid_before c \<longrightarrow> sigs \<noteq> [] \<and> hd sigs = GroupSigterm) \<and>
           (if r = StoppedGracefully
            then (case graceful_wait c of WaitExit t' \<Rightarrow> t' \<le> limit | _ \<Rightarrow> False)
            else StartKill \<in> set sigs \<and> (pid_after c \<longrightarrow> GroupSigkill \<in> set sigs))))"

lemma terminate_puts_down: "put_down limit c (terminate_child limit c)"
  using terminate_time [of limit c]
  by (auto simp: put_down_def terminate_child_def Let_def wait_at_most_def split: wait_outcome.splits prod.splits if_splits)

text \<open>
  Everything that ran has been stopped: each child exactly once, a service before everything it
  depends on, and each one put down.
\<close>

definition stopped_all :: "krab_config \<Rightarrow> (pid \<Rightarrow> os_child) \<Rightarrow> pid hashmap \<Rightarrow> stop_log \<Rightarrow> bool" where
  "stopped_all config os cs log \<longleftrightarrow>
     distinct (map fst log) \<and> set (map fst log) = fst ` set cs \<and>
     (\<forall>a d. (a, d) \<in> dep_rel (cfg_services config) \<and> a \<in> fst ` set cs \<and> d \<in> fst ` set cs \<longrightarrow>
        before (map fst log) a d) \<and>
     (\<forall>(n, r) \<in> set log. \<exists>c. hm_get cs n = Some c \<and> put_down (shutdown_timeout_for config n) (os c) r)"

lemma stop_loop_puts_down:
  "(n, r) \<in> set (stop_loop config os names cs) \<Longrightarrow>
     \<exists>c. hm_get cs n = Some c \<and> put_down (shutdown_timeout_for config n) (os c) r"
  by (induction names) (auto simp: terminate_puts_down split: option.splits)

lemma shutdown_stops_all:
  assumes "resolve_startup_order (cfg_services config) = Inr startup_order" and "distinct (hm_keys cs)"
  shows "stopped_all config os cs (snd (shutdown_children config startup_order os cs))"
proof -
  let ?log = "snd (shutdown_children config startup_order os cs)"
  from resolve_cases [of "cfg_services config"] assms(1)
  have o: "set startup_order = fst ` set (cfg_services config)" "distinct startup_order"
    "deps_first (dep_rel (cfg_services config)) {} startup_order" by auto
  note names = shutdown_stops [of config startup_order os cs]
  have "before (map fst ?log) a d"
    if "(a, d) \<in> dep_rel (cfg_services config)" "a \<in> fst ` set cs" "d \<in> fst ` set cs" for a d
  proof -
    have "a \<in> set startup_order"
      using that(1) o(1) by (auto simp: dep_rel_def dest: hm_get_mem)
    then have "before (rev startup_order) a d"
      using dep_before [OF o(3) _ that(1)] by (intro before_rev)
    then have "before (filter (hm_contains cs) (rev startup_order)) a d"
      by (rule before_filter) (simp_all add: that)
    then show ?thesis unfolding names shutdown_names_def by (rule before_append)
  qed
  moreover have "\<exists>c. hm_get cs n = Some c \<and> put_down (shutdown_timeout_for config n) (os c) r"
    if "(n, r) \<in> set ?log" for n r
    using that stop_loop_puts_down by (simp add: shutdown_children_def)
  moreover have "distinct (map fst ?log)" "set (map fst ?log) = fst ` set cs"
    unfolding names by (rule distinct_shutdown_names [OF o(2) assms(2)], rule set_shutdown_names)
  ultimately show ?thesis unfolding stopped_all_def by blast
qed

text \<open>
  the initial start is all or nothing. If every service becomes ready, exactly the services of
  the manifest run, started in dependency order, and supervision begins within budget. If one does
  not, the services started before it, and only they, are terminated, the last one first.
\<close>

theorem start_is_all_or_nothing:
  assumes "resolve_startup_order (cfg_services config) = Inr startup_order"
  shows "case start_supervisor config outcome os of
           Inr (ord, st) \<Rightarrow> ord = startup_order \<and> hm_keys (children st) = startup_order \<and> sup_inv config st
         | Inl (StartFailed n log) \<Rightarrow>
             (\<exists>started rest t. startup_order = started @ n # rest \<and> outcome n = SpawnFailed t \<and>
                              map fst log = rev started)
         | Inl (OrderFailed e) \<Rightarrow> False"
proof -
  from resolve_cases [of "cfg_services config"] assms
  have o: "set startup_order = fst ` set (cfg_services config)" "distinct startup_order" by auto
  let ?r = "start_loop config outcome startup_order \<lparr>children = [], supervised = []\<rparr>"
  have spec: "case ?r of
      Inl (n, st') \<Rightarrow> \<exists>ys zs. startup_order = ys @ n # zs \<and> hm_keys (children st') = ys \<and> (\<exists>t. outcome n = SpawnFailed t)
    | Inr st' \<Rightarrow> sup_inv config st' \<and> hm_keys (children st') = startup_order"
    using start_loop_spec [OF sup_inv_empty o(2), of config outcome] o(1)
    by (cases ?r) (simp_all add: split_beta)
  show ?thesis
  proof (cases ?r)
    case (Inr st)
    with spec assms show ?thesis by (simp add: start_supervisor_def)
  next
    case (Inl x)
    then obtain n st where x: "?r = Inl (n, st)" by (cases x) auto
    with spec obtain ys zs t where s: "startup_order = ys @ n # zs" "hm_keys (children st) = ys" "outcome n = SpawnFailed t"
      by auto
    have keys: "fst ` set (children st) = set ys" using s(2) by (metis set_map)
    have p: "hm_contains (children st) = (\<lambda>k. k \<in> set ys)" by (rule ext) (simp add: keys)
    have "filter (\<lambda>k. k \<in> set ys) (rev zs) = []" "n \<notin> set ys" "filter (\<lambda>k. k \<in> set ys) (rev ys) = rev ys"
      using s(1) o(2) by (auto simp: filter_empty_conv filter_id_conv)
    then have "shutdown_names startup_order (children st) = rev ys"
      by (simp add: shutdown_names_def p s(1,2) filter_empty_conv)
    then have "map fst (snd (shutdown_children config startup_order os (children st))) = rev ys"
      by (simp add: shutdown_stops)
    with x assms s show ?thesis by (auto simp: start_supervisor_def)
  qed
qed

theorem start_is_all_or_nothing_witness:
  "case start_supervisor \<lparr>cfg_services = [], cfg_watch = None\<rparr> (\<lambda>_. SpawnFailed 0)
      (\<lambda>_. \<lparr>already_exited = True, pid_before = True, graceful_wait = WaitForever, pid_after = True,
            forced_wait = WaitForever\<rparr>) of
     Inr (ord, st) \<Rightarrow> ord = [] | _ \<Rightarrow> True"
proof -
  have "resolve_startup_order (cfg_services \<lparr>cfg_services = [], cfg_watch = None\<rparr>) = Inr []"
    by (simp add: resolve_startup_order_def)
  from start_is_all_or_nothing [OF this, of "\<lambda>_. SpawnFailed 0"
      "\<lambda>_. \<lparr>already_exited = True, pid_before = True, graceful_wait = WaitForever, pid_after = True,
            forced_wait = WaitForever\<rparr>"]
  show ?thesis by (auto split: sum.splits)
qed

definition loop_inv :: "krab_config \<Rightarrow> sup_mode \<times> sup_state \<Rightarrow> bool" where
  "loop_inv config s \<longleftrightarrow>
     sup_inv config (snd s) \<and>
     (case fst s of Events pending d \<Rightarrow> pending \<longleftrightarrow> d \<noteq> None | _ \<Rightarrow> True)"

lemma stopped_children: "fst (shutdown_children config startup_order os cs) = []"
  by (simp add: shutdown_children_def)

lemma loop_inv_step:
  assumes "sup_step config startup_order os cwd s s'" and "loop_inv config s" and "distinct startup_order"
  shows "loop_inv config s'"
  using assms
  by (cases rule: sup_step.cases)
    (simp_all add: loop_inv_def supervise_inv restart_watched_inv stopped_children sup_inv_fewer_children)

lemma sup_reach_inv:
  assumes "sup_reach config startup_order os cwd s"
  shows "resolve_startup_order (cfg_services config) = Inr startup_order \<and> loop_inv config s"
  using assms
proof induction
  case (enter outcome st mode event_watcher)
  then obtain ord where ord: "resolve_startup_order (cfg_services config) = Inr ord"
    by (auto simp: start_supervisor_def split: sum.splits)
  with enter resolve_cases [of "cfg_services config"] start_loop_spec [OF sup_inv_empty, of ord config outcome]
  show ?case by (auto simp: loop_inv_def start_supervisor_def split: sum.splits)
next
  case (step s s')
  then show ?case using loop_inv_step resolve_cases [of "cfg_services config"] by auto
qed

lemma step_to_stopped:
  assumes "sup_step config startup_order os cwd (mode, st) (Stopped log, st')"
  shows "log = snd (shutdown_children config startup_order os (children st)) \<and> children st' = []"
  using assms by (cases rule: sup_step.cases) (simp_all add: stopped_children)

text \<open>
  C5: the event loop. In every reachable state the restart budgets hold and a restart is pending
  exactly when its settle deadline is set. Whichever step ends the supervisor, a signal or a failed
  first scan, it has stopped every child that ran by then: each one once, dependents before what
  they depend on, each left alone only if it had exited, otherwise asked to stop and killed when it
  did not stop in time; no handle is left.
\<close>

theorem supervisor_leaves_no_child_behind:
  assumes "sup_reach config startup_order os cwd (mode, st)"
  shows "sup_inv config st \<and>
         (\<forall>pending d. mode = Events pending d \<longrightarrow> (pending \<longleftrightarrow> d \<noteq> None)) \<and>
         (\<forall>log st'. sup_step config startup_order os cwd (mode, st) (Stopped log, st') \<longrightarrow>
            stopped_all config os (children st) log \<and> children st' = [])"
proof -
  have inv: "resolve_startup_order (cfg_services config) = Inr startup_order" "sup_inv config st"
    "mode = Events pending d \<Longrightarrow> pending \<longleftrightarrow> d \<noteq> None" for pending d
    using sup_reach_inv [OF assms] by (auto simp: loop_inv_def)
  moreover have "stopped_all config os (children st) log \<and> children st' = []"
    if "sup_step config startup_order os cwd (mode, st) (Stopped log, st')" for log st'
    using step_to_stopped [OF that] shutdown_stops_all [OF inv(1) sup_invD(1) [OF inv(2)], of os] by simp
  ultimately show ?thesis by blast
qed

text \<open>
  Two services, the second needing the first; a signal arrives while both run, and the second
  ignores the polite one.
\<close>

definition two_services :: krab_config where
  "two_services =
     \<lparr>cfg_services = [(''db'', plain_service), (''web'', plain_service\<lparr>sd_depends_on := [''db'']\<rparr>)], cfg_watch = None\<rparr>"

definition two_children :: "pid \<Rightarrow> os_child" where
  "two_children p =
     \<lparr>already_exited = False, pid_before = True,
      graceful_wait = (if p = 2 then WaitForever else WaitExit 3), pid_after = True, forced_wait = WaitExit 1\<rparr>"

definition two_outcomes :: "string \<Rightarrow> spawn_outcome" where
  "two_outcomes n = (if n = ''db'' then Spawned 1 10 else Spawned 2 20)"

definition two_running :: sup_state where
  "two_running =
     \<lparr>children = [(''db'', 1), (''web'', 2)], supervised = [(''db'', started_now 10), (''web'', started_now 20)]\<rparr>"

definition two_log :: stop_log where
  "two_log =
     [(''web'', StoppedForcefully, [GroupSigterm, GroupSigkill, StartKill], shutdown_timeout_for two_services ''web'' + 1),
      (''db'', StoppedGracefully, [GroupSigterm], 3)]"

lemma two_services_order: "resolve_startup_order (cfg_services two_services) = Inr [''db'', ''web'']"
  by code_simp

lemma two_services_start:
  "start_supervisor two_services two_outcomes two_children = Inr ([''db'', ''web''], two_running)"
  unfolding start_supervisor_def two_services_order
  by (simp add: two_services_def two_outcomes_def two_running_def)

lemma two_services_stop:
  "shutdown_children two_services [''db'', ''web''] two_children (children two_running) = ([], two_log)"
  by (simp add: shutdown_children_def shutdown_names_def two_running_def two_log_def terminate_child_def
      wait_at_most_def two_children_def two_services_def Let_def shutdown_timeout_for_def plain_service_def
      DEFAULT_SHUTDOWN_TIMEOUT_MS_def from_millis_def FORCE_KILL_REAP_TIMEOUT_def from_secs_def)

theorem supervisor_leaves_no_child_behind_witness:
  "stopped_all two_services two_children [(''db'', 1), (''web'', 2)] two_log"
proof -
  have "sup_reach two_services [''db'', ''web''] two_children None (ExitOnly, two_running)"
    by (rule sup_reach.enter [OF two_services_start]) (simp add: effective_watch_def two_services_def)
  from supervisor_leaves_no_child_behind [OF this]
  have stops: "sup_step two_services [''db'', ''web''] two_children None (ExitOnly, two_running) (Stopped log, st') \<longrightarrow>
      stopped_all two_services two_children (children two_running) log" for log st'
    by blast
  have "sup_step two_services [''db'', ''web''] two_children None (ExitOnly, two_running)
      (Stopped two_log, two_running\<lparr>children := []\<rparr>)"
    using sup_step.shutdown_signal [of ExitOnly two_services "[''db'', ''web'']" two_children None two_running]
    by (simp add: two_services_stop)
  with stops show ?thesis by (simp add: two_running_def)
qed

end
