(* ===== verification/HealthProbe.thy ===== *)
theory HealthProbe
  imports Supervision CircuitBreaker
begin

text \<open>
  The readiness probe of the orchestrator: \<open>wait_for_service_health\<close> and
  \<open>spawn_service_and_wait_ready\<close> of \<open>krab_orchestrator/src/process_runtime.rs\<close>, with the circuit
  breaker of \<open>krab_core\<close> between the attempts, and the texts of its diagnostics.

  The outside is a function of time: \<open>reply\<close> answers a request sent at an instant and says how long
  the answer takes, \<open>poll\<close> is \<open>try_wait\<close> at an instant, \<open>lag\<close> is what an attempt takes beyond its
  request and its pause. The HTTP client and its time limit are part of \<open>reply\<close>.
\<close>

datatype probe_reply =
    Healthy
  | UnhealthyStatus string "string option"
  | TransportError string

record probe_diagnostics =
  pd_attempts :: nat
  pd_blocked_attempts :: nat
  pd_last_status :: "string option"
  pd_last_error :: "string option"
  pd_last_body_excerpt :: "string option"

definition no_diagnostics :: probe_diagnostics where
  "no_diagnostics = \<lparr>pd_attempts = 0, pd_blocked_attempts = 0, pd_last_status = None, pd_last_error = None,
     pd_last_body_excerpt = None\<rparr>"

definition or_na :: "string option \<Rightarrow> string" where
  "or_na s = (case s of Some v \<Rightarrow> v | None \<Rightarrow> ''n/a'')"

definition describe :: "probe_diagnostics \<Rightarrow> string \<Rightarrow> string \<Rightarrow> nat \<Rightarrow> duration \<Rightarrow> u64 \<Rightarrow> string" where
  "describe d name url retries elapsed startup_deadline_ms =
     ''service '' @ [CHR 0x27] @ name @ [CHR 0x27] @ '' failed readiness probe at '' @ url @ '' after '' @
     show_nat (pd_attempts d) @ ''/'' @ show_nat retries @ '' attempts over '' @ show_nat (as_millis elapsed) @
     '' ms (startup_deadline_ms='' @ show_word startup_deadline_ms @
     '', blocked_attempts='' @ show_nat (pd_blocked_attempts d) @
     '', last_status='' @ or_na (pd_last_status d) @ '', last_error='' @ or_na (pd_last_error d) @
     '', last_body_excerpt='' @ or_na (pd_last_body_excerpt d) @ '')''"

definition is_ascii_alphanumeric :: "char \<Rightarrow> bool" where
  "is_ascii_alphanumeric c =
     (let k = of_char c :: nat in (48 \<le> k \<and> k \<le> 57) \<or> (65 \<le> k \<and> k \<le> 90) \<or> (97 \<le> k \<and> k \<le> 122))"

definition sanitize_artifact_component :: "string \<Rightarrow> string" where
  "sanitize_artifact_component value =
     map (\<lambda>ch. if is_ascii_alphanumeric ch \<or> ch = CHR ''-'' \<or> ch = CHR ''_'' then ch else CHR ''_'') value"

definition log_artifact_name :: "string \<Rightarrow> string \<Rightarrow> string" where
  "log_artifact_name service stream =
     sanitize_artifact_component service @ ''.'' @ sanitize_artifact_component stream @ ''.log''"

definition log_prefix :: "string \<Rightarrow> string \<Rightarrow> string" where
  "log_prefix service stream = ''['' @ service @ ''::'' @ stream @ '']''"

definition PROBE_BODY_EXCERPT_LIMIT :: nat where
  "PROBE_BODY_EXCERPT_LIMIT = 160"

definition compact_excerpt :: "string \<Rightarrow> nat \<Rightarrow> string option" where
  "compact_excerpt input max_len =
     (let compact = join '' '' (filter (\<lambda>w. w \<noteq> []) (split_on is_ws input))
      in if compact = [] then None
         else if length compact \<le> max_len then Some compact
         else Some (take (max_len - 3) compact @ ''...''))"

subsection \<open>The probe loop\<close>

record probe_env =
  reply :: "instant \<Rightarrow> probe_reply \<times> duration"
  alive_at :: "instant \<Rightarrow> exit_poll"
  lag :: "nat \<Rightarrow> duration"

datatype probe_error = ExitedBeforeReady nat | NotReady probe_diagnostics

text \<open>The result, the instants at which requests were sent, and the time the loop ended.\<close>

fun probe_loop ::
  "service_definition \<Rightarrow> probe_env \<Rightarrow> instant \<Rightarrow> nat \<Rightarrow> nat \<Rightarrow> instant \<Rightarrow> circuit_breaker \<Rightarrow> probe_diagnostics \<Rightarrow>
   (probe_error + unit) \<times> instant list \<times> instant" where
  "probe_loop sd env started attempt 0 now circuit d = (Inl (NotReady d), [], now)"
| "probe_loop sd env started attempt (Suc left) now circuit d0 =
     (let d = d0\<lparr>pd_attempts := attempt\<rparr>;
          pause = from_millis (unat (effective_healthcheck_interval_ms sd)) + lag env attempt
      in if alive_at env now = Exited then (Inl (ExitedBeforeReady attempt), [], now)
         else if unat (effective_startup_deadline_ms sd) < as_millis (now - started) mod 2 ^ 64
         then (Inl (NotReady (d\<lparr>pd_last_error := Some (''startup deadline of '' @
                 show_word (effective_startup_deadline_ms sd) @ '' ms elapsed'')\<rparr>)), [], now)
         else let (allowed, circuit1) = allow_request circuit now
              in if \<not> allowed
                 then probe_loop sd env started (attempt + 1) left (now + pause) circuit1
                        (d\<lparr>pd_blocked_attempts := pd_blocked_attempts d + 1,
                           pd_last_error := Some ''blocked by circuit breaker''\<rparr>)
                 else let (answer, took) = reply env now; later = now + took
                      in case answer of
                           Healthy \<Rightarrow> (Inr (), [now], later)
                         | UnhealthyStatus status body \<Rightarrow>
                             apsnd (apfst (Cons now))
                               (probe_loop sd env started (attempt + 1) left (later + pause)
                                 (record_failure circuit1 later)
                                 (d\<lparr>pd_last_status := Some status, pd_last_error := None,
                                    pd_last_body_excerpt := Option.bind body (\<lambda>b. compact_excerpt b PROBE_BODY_EXCERPT_LIMIT)\<rparr>))
                         | TransportError err \<Rightarrow>
                             apsnd (apfst (Cons now))
                               (probe_loop sd env started (attempt + 1) left (later + pause)
                                 (record_failure circuit1 later)
                                 (d\<lparr>pd_last_error := Some err, pd_last_body_excerpt := None\<rparr>)))"

definition wait_for_service_health ::
  "service_definition \<Rightarrow> probe_env \<Rightarrow> instant \<Rightarrow> (probe_error + unit) \<times> instant list \<times> instant" where
  "wait_for_service_health sd env started =
     (case effective_healthcheck_url sd of
        None \<Rightarrow> (Inr (), [], started)
      | Some url \<Rightarrow>
          probe_loop sd env started 1 (unat (effective_healthcheck_retries sd)) started
            (cb_new 3 (from_secs 2) 1) no_diagnostics)"

text \<open>
  \<open>spawn_service_and_wait_ready\<close>: \<open>spawned\<close> is the child the system started, if it could. A child
  that does not become ready is terminated before the error is returned.
\<close>

definition spawn_service_and_wait_ready ::
  "service_definition \<Rightarrow> probe_env \<Rightarrow> (pid \<Rightarrow> os_child) \<Rightarrow> pid option \<Rightarrow> instant \<Rightarrow>
   spawn_outcome \<times> (pid \<times> stop_result \<times> kill_signal list \<times> duration) list" where
  "spawn_service_and_wait_ready sd env os spawned now =
     (case spawned of
        None \<Rightarrow> (SpawnFailed now, [])
      | Some pid \<Rightarrow>
          (case wait_for_service_health sd env now of
             (Inr _, sent, t) \<Rightarrow> (Spawned pid t, [])
           | (Inl err, sent, t) \<Rightarrow>
               let (r, sigs, took) = terminate_child (from_millis (unat (sd_shutdown_timeout_ms sd))) (os pid)
               in (SpawnFailed (t + took), [(pid, r, sigs, took)])))"

subsection \<open>What the probe establishes\<close>

text \<open>
  The shape of a run: the requests are answered unhealthy except possibly the last one, which is
  answered healthy exactly when the loop succeeds.
\<close>

definition probe_shape :: "probe_env \<Rightarrow> nat \<Rightarrow> instant \<Rightarrow> (probe_error + unit) \<times> instant list \<times> instant \<Rightarrow> bool" where
  "probe_shape env left now x \<longleftrightarrow>
     (case x of (r, sent, finish) \<Rightarrow>
        length sent \<le> left \<and> now \<le> finish \<and>
        (case r of
           Inr _ \<Rightarrow> sent \<noteq> [] \<and> fst (reply env (last sent)) = Healthy \<and> alive_at env (last sent) \<noteq> Exited \<and>
                    (\<forall>t \<in> set (butlast sent). fst (reply env t) \<noteq> Healthy)
         | Inl _ \<Rightarrow> \<forall>t \<in> set sent. fst (reply env t) \<noteq> Healthy))"

lemma probe_shape_later:
  "probe_shape env left later x \<Longrightarrow> now \<le> later \<Longrightarrow> probe_shape env (Suc left) now x"
  by (auto simp: probe_shape_def split: prod.splits sum.splits)

lemma probe_shape_cons:
  "probe_shape env left later x \<Longrightarrow> now \<le> later \<Longrightarrow> fst (reply env t) \<noteq> Healthy \<Longrightarrow>
     probe_shape env (Suc left) now (apsnd (apfst (Cons t)) x)"
  by (auto simp: probe_shape_def apsnd_def apfst_def split: prod.splits sum.splits)

lemma probe_loop_shape:
  "probe_shape env left now (probe_loop sd env started attempt left now circuit d)"
proof (induction left arbitrary: attempt now circuit d)
  case 0
  then show ?case by (simp add: probe_shape_def)
next
  case (Suc left)
  obtain allowed circuit1 where a: "allow_request circuit now = (allowed, circuit1)" by fastforce
  obtain answer took where r: "reply env now = (answer, took)" by fastforce
  show ?case
  proof (cases "alive_at env now = Exited \<or>
      unat (effective_startup_deadline_ms sd) < as_millis (now - started) mod 2 ^ 64")
    case True
    then show ?thesis by (auto simp: probe_shape_def Let_def)
  next
    case live: False
    show ?thesis
    proof (cases allowed)
      case False
      with live a show ?thesis by (simp add: Let_def probe_shape_later [OF Suc.IH])
    next
      case True
      with live a r show ?thesis
        by (cases answer) (simp_all add: Let_def probe_shape_cons [OF Suc.IH], simp add: probe_shape_def)
    qed
  qed
qed

text \<open>
  readiness is never assumed. The start of a service is reported as ready only when it declares
  no probe or when a request, sent while its process had not exited, was answered with success; at
  most \<open>retries\<close> requests are sent, the first success ends the probe, and a failed probe had none.
\<close>

theorem readiness_is_observed:
  "case wait_for_service_health sd env started of
     (Inr _, sent, finish) \<Rightarrow>
       effective_healthcheck_url sd = None \<or>
       (sent \<noteq> [] \<and> fst (reply env (last sent)) = Healthy \<and> alive_at env (last sent) \<noteq> Exited \<and>
        length sent \<le> unat (effective_healthcheck_retries sd))
   | (Inl _, sent, finish) \<Rightarrow>
       (\<forall>t \<in> set sent. fst (reply env t) \<noteq> Healthy) \<and> length sent \<le> unat (effective_healthcheck_retries sd)"
proof (cases "effective_healthcheck_url sd")
  case None
  then show ?thesis by (simp add: wait_for_service_health_def)
next
  case (Some url)
  then show ?thesis
    using probe_loop_shape [of env "unat (effective_healthcheck_retries sd)" started sd started 1
        "cb_new 3 (from_secs 2) 1" no_diagnostics]
    by (auto simp: wait_for_service_health_def probe_shape_def split: prod.splits sum.splits)
qed

theorem readiness_is_observed_witness:
  "effective_healthcheck_url plain_service = None"
  using readiness_is_observed [where sd = plain_service and started = 0 and
      env = "\<lparr>reply = \<lambda>t. (TransportError ''refused'', 0), alive_at = \<lambda>t. Running, lag = \<lambda>n. 0\<rparr>"]
  by (simp add: effective_healthcheck_url_def plain_service_def)

subsection \<open>The breaker and the retry budget\<close>

lemma probe_loop_blocked:
  assumes "cb_state circuit = Open" and "opened_at circuit = Some t" and "\<forall>n. lag env n = 0"
    and "now + left * from_millis (unat (effective_healthcheck_interval_ms sd)) < t + open_cooldown circuit
           + from_millis (unat (effective_healthcheck_interval_ms sd))"
    and "t \<le> now"
  shows "\<exists>e finish. probe_loop sd env started attempt left now circuit d = (Inl e, [], finish)"
  using assms
proof (induction left arbitrary: attempt now d)
  case 0
  then show ?case by simp
next
  case (Suc left)
  let ?p = "from_millis (unat (effective_healthcheck_interval_ms sd))"
  have "now + left * ?p < t + open_cooldown circuit" using Suc.prems(4) by simp
  then have "now < t + open_cooldown circuit" by (meson le_add1 le_less_trans)
  with Suc.prems have a: "allow_request circuit now = (False, circuit)"
    by (simp add: allow_request_def saturating_duration_since_def)
  have "\<exists>e finish. probe_loop sd env started (attempt + 1) left (now + ?p) circuit d' = (Inl e, [], finish)" for d'
    using Suc.prems by (intro Suc.IH) simp_all
  with a Suc.prems(3) show ?case by (simp add: Let_def)
qed

lemma probe_loop_refused:
  assumes "alive_at env now = Running" and "lag env attempt = 0" and "allow_request c now = (True, c)"
    and "as_millis (now - started) \<le> 2250" and "2250 \<le> unat (effective_startup_deadline_ms sd)"
    and "reply env now = (TransportError err, 0)"
  shows "\<exists>d'. probe_loop sd env started attempt (Suc left) now c d =
           apsnd (apfst (Cons now)) (probe_loop sd env started (attempt + 1) left
             (now + from_millis (unat (effective_healthcheck_interval_ms sd))) (record_failure c now) d')"
  using assms by (auto simp: Let_def)

text \<open>
  with the default probe settings (ten attempts, 250 ms apart) a service whose port refuses
  connections at first is probed three times only: the third failure opens the breaker for two
  seconds, and the seven attempts that are left fall into that time. The start fails although the
  service may be healthy from then on and its start-up deadline is several seconds away.
\<close>

theorem default_probe_gives_up_after_three_refusals:
  assumes "sd_healthcheck sd = None" and "sd_healthcheck_url sd = Some url"
    and "\<forall>t. alive_at env t = Running" and "\<forall>n. lag env n = 0"
    and "\<forall>k \<in> {0, 1, 2}. \<exists>err. reply env (started + from_millis (k * 250)) = (TransportError err, 0)"
  shows "\<exists>e finish. wait_for_service_health sd env started =
           (Inl e, [started, started + from_millis 250, started + from_millis 500], finish)"
proof -
  have r: "unat (effective_healthcheck_retries sd) = Suc (Suc (Suc 7))"
    and i: "unat (effective_healthcheck_interval_ms sd) = 250"
    using assms(1) by (simp_all add: effective_healthcheck_retries_def default_healthcheck_retries_def
        effective_healthcheck_interval_ms_def default_healthcheck_interval_ms_def max_def word_le_nat_alt)
  have dl: "2250 \<le> unat (effective_startup_deadline_ms sd)"
    unfolding startup_deadline_value r i by simp
  obtain e0 e1 e2 where
    e: "reply env started = (TransportError e0, 0)" "reply env (started + from_millis 250) = (TransportError e1, 0)"
       "reply env (started + from_millis 500) = (TransportError e2, 0)"
    using assms(5) by (auto simp: from_millis_def)
  let ?t = "started + from_millis 500"
  have step: "from_millis 250 + from_millis 250 = from_millis 500" by (simp add: from_millis_def)
  define c3 where "c3 = record_failure (record_failure (record_failure (cb_new 3 (from_secs 2) 1)
      started) (started + from_millis 250)) ?t"
  have c: "allow_request (cb_new 3 (from_secs 2) 1) t = (True, cb_new 3 (from_secs 2) 1)"
    "allow_request (record_failure (cb_new 3 (from_secs 2) 1) started) t =
       (True, record_failure (cb_new 3 (from_secs 2) 1) started)"
    "allow_request (record_failure (record_failure (cb_new 3 (from_secs 2) 1) started) (started + from_millis 250)) t =
       (True, record_failure (record_failure (cb_new 3 (from_secs 2) 1) started) (started + from_millis 250))"
    "cb_state c3 = Open" "opened_at c3 = Some ?t" "open_cooldown c3 = from_secs 2" for t
    by (simp_all add: c3_def allow_request_def record_failure_def should_trip_def cb_new_def from_config_def
        Let_def saturating_add_def trip_open_def word_le_nat_alt)
  have tail: "\<exists>e finish. probe_loop sd env started n 7 (?t + from_millis 250) c3 d = (Inl e, [], finish)" for n d
    by (rule probe_loop_blocked [OF c(4,5) assms(4)]) (simp_all add: i c(6) from_secs_def from_millis_def)
  have ms: "as_millis (from_millis k) = k" for k by (simp add: as_millis_def from_millis_def)
  note al = assms(3) [THEN spec] and lg = assms(4) [THEN spec]
  have early: "as_millis (started - started) \<le> 2250" "as_millis (started + from_millis 250 - started) \<le> 2250"
    "as_millis (?t - started) \<le> 2250" by (simp_all add: ms) (simp add: as_millis_def)
  let ?c0 = "cb_new 3 (from_secs 2) 1"
  obtain d1 where d1: "probe_loop sd env started 1 (Suc (Suc (Suc 7))) started ?c0 no_diagnostics =
      apsnd (apfst (Cons started)) (probe_loop sd env started (1 + 1) (Suc (Suc 7)) (started + from_millis 250)
        (record_failure ?c0 started) d1)"
    using probe_loop_refused [OF al lg c(1) early(1) dl e(1), unfolded i] by blast
  obtain d2 where d2: "probe_loop sd env started (1 + 1) (Suc (Suc 7)) (started + from_millis 250)
        (record_failure ?c0 started) d1 =
      apsnd (apfst (Cons (started + from_millis 250))) (probe_loop sd env started (1 + 1 + 1) (Suc 7) ?t
        (record_failure (record_failure ?c0 started) (started + from_millis 250)) d2)"
    using probe_loop_refused [OF al lg c(2) early(2) dl e(2), unfolded i add.assoc [of started] step] by blast
  obtain d3 where d3: "probe_loop sd env started (1 + 1 + 1) (Suc 7) ?t
        (record_failure (record_failure ?c0 started) (started + from_millis 250)) d2 =
      apsnd (apfst (Cons ?t)) (probe_loop sd env started (1 + 1 + 1 + 1) 7 (?t + from_millis 250) c3 d3)"
    using probe_loop_refused [OF al lg c(3) early(3) dl e(3), unfolded i, folded c3_def] by blast
  obtain x finish where t: "probe_loop sd env started (1 + 1 + 1 + 1) 7 (?t + from_millis 250) c3 d3 = (Inl x, [], finish)"
    using tail by blast
  have "wait_for_service_health sd env started = (Inl x, [started, started + from_millis 250, ?t], finish)"
    unfolding wait_for_service_health_def effective_healthcheck_url_def assms(1,2) r
    by (simp only: option.case d1 d2 d3 t apsnd_conv apfst_conv)
  then show ?thesis by blast
qed

theorem default_probe_gives_up_after_three_refusals_witness:
  "\<exists>e finish. wait_for_service_health (plain_service\<lparr>sd_healthcheck_url := Some ''http://h:1/ready''\<rparr>)
     \<lparr>reply = \<lambda>t. if t < from_millis 600 then (TransportError ''refused'', 0) else (Healthy, 0),
      alive_at = \<lambda>t. Running, lag = \<lambda>n. 0\<rparr> 0 = (Inl e, [0, from_millis 250, from_millis 500], finish)"
  using default_probe_gives_up_after_three_refusals
    [of "plain_service\<lparr>sd_healthcheck_url := Some ''http://h:1/ready''\<rparr>" "''http://h:1/ready''"
        "\<lparr>reply = \<lambda>t. if t < from_millis 600 then (TransportError ''refused'', 0) else (Healthy, 0),
      alive_at = \<lambda>t. Running, lag = \<lambda>n. 0\<rparr>" 0]
  by (simp add: plain_service_def from_millis_def)

end
