(* ===== verification/HttpGuards.thy ===== *)
theory HttpGuards
  imports MemStore Float64
begin

text \<open>
  The guards of the HTTP stack that decide before a handler runs: the client address
  (\<open>extract_client_ip\<close>) and the CSRF check of \<open>krab_core/src/http_security.rs\<close>, the per-address rate
  limit, CORS origins and small helpers of \<open>src/http.rs\<close>. The limiter is a client of the store
  interface and uses its counter lemmas.

  Environment variables are a map from names to values. Headers are a map from lower-case names to
  the first value, where that value is visible ASCII; the address of the socket peer is given.
\<close>

unbundle bit_operations_syntax

subsection \<open>Requests and helpers\<close>

record http_request =
  rq_method :: string
  rq_path :: string
  rq_headers :: "string hashmap"
  rq_peer_ip :: "string option"

definition bool_env :: "environment \<Rightarrow> string \<Rightarrow> bool \<Rightarrow> bool" where
  "bool_env env name fallback =
     (case env name of Some v \<Rightarrow> v = ''1'' \<or> ascii_lower v = ''true'' | None \<Rightarrow> fallback)"

definition u64_env_lenient :: "environment \<Rightarrow> string \<Rightarrow> u64 \<Rightarrow> u64" where
  "u64_env_lenient env name fallback =
     (case env name of
        Some raw \<Rightarrow> (case parse_u64 (trim raw) of Some v \<Rightarrow> v | None \<Rightarrow> fallback)
      | None \<Rightarrow> fallback)"

definition parse_csv_set :: "string \<Rightarrow> string list" where
  "parse_csv_set input = filter (\<lambda>item. item \<noteq> []) (map trim (split_on (\<lambda>c. c = CHR '','') input))"

datatype overload_mode = Queue | Shed

definition overload_mode_from_env :: "environment \<Rightarrow> overload_mode" where
  "overload_mode_from_env env =
     (case env ''KRAB_HTTP_OVERLOAD_MODE'' of
        None \<Rightarrow> Queue
      | Some raw \<Rightarrow>
          let v = ascii_lower (trim raw)
          in if v = [] \<or> v = ''queue'' then Queue else if v = ''shed'' then Shed else Queue)"

definition is_digit :: "char \<Rightarrow> bool" where
  "is_digit c = (digit_val c \<noteq> None)"

definition is_admin_api_path :: "string \<Rightarrow> bool" where
  "is_admin_api_path path =
     (case filter (\<lambda>p. p \<noteq> []) (split_on (\<lambda>c. c = CHR ''/'') path) of
        first # second # rest \<Rightarrow>
          first = ''api'' \<and>
          (second = ''admin'' \<or>
           (starts_with second ''v'' \<and> list_all is_digit (drop 1 second) \<and>
            (case rest of third # _ \<Rightarrow> third = ''admin'' | [] \<Rightarrow> False)))
      | _ \<Rightarrow> False)"

definition compute_cors_origin :: "string \<Rightarrow> string list \<Rightarrow> bool \<Rightarrow> string option" where
  "compute_cors_origin request_origin allowed allow_any_origin =
     (if request_origin = [] then None
      else if allow_any_origin \<and> allowed = [] then Some ''*''
      else if ''*'' \<in> set allowed then Some ''*''
      else if request_origin \<in> set allowed then Some request_origin
      else None)"

subsection \<open>The client address\<close>

text \<open>\<open>IpAddr::from_str\<close> of the standard library.\<close>

definition is_octet :: "string \<Rightarrow> bool" where
  "is_octet w =
     (w \<noteq> [] \<and> length w \<le> 3 \<and> list_all is_digit w \<and> (1 < length w \<longrightarrow> hd w \<noteq> CHR ''0'') \<and>
      (case parse_digits 0 w of Some n \<Rightarrow> n \<le> 255 | None \<Rightarrow> False))"

definition is_ipv4 :: "string \<Rightarrow> bool" where
  "is_ipv4 s = (let ws = split_on (\<lambda>c. c = CHR ''.'') s in length ws = 4 \<and> list_all is_octet ws)"

definition is_hex_digit :: "char \<Rightarrow> bool" where
  "is_hex_digit c =
     (let k = of_char c :: nat in (48 \<le> k \<and> k \<le> 57) \<or> (65 \<le> k \<and> k \<le> 70) \<or> (97 \<le> k \<and> k \<le> 102))"

definition is_hex_group :: "string \<Rightarrow> bool" where
  "is_hex_group w = (w \<noteq> [] \<and> length w \<le> 4 \<and> list_all is_hex_digit w)"

text \<open>The number of 16-bit groups; an IPv4 address may stand for the last two.\<close>

definition ipv6_groups :: "bool \<Rightarrow> string \<Rightarrow> nat option" where
  "ipv6_groups allow_v4 s =
     (if s = [] then Some 0
      else let ws = split_on (\<lambda>c. c = CHR '':'') s
           in if list_all is_hex_group ws then Some (length ws)
              else if allow_v4 \<and> list_all is_hex_group (butlast ws) \<and> is_ipv4 (last ws) then Some (length ws + 1)
              else None)"

definition is_ipv6 :: "string \<Rightarrow> bool" where
  "is_ipv6 s =
     (case split_seq ''::'' s of
        None \<Rightarrow> ipv6_groups True s = Some 8
      | Some (front, back) \<Rightarrow>
          (case (ipv6_groups False front, ipv6_groups True back) of
             (Some m, Some n) \<Rightarrow> m + n \<le> 7
           | _ \<Rightarrow> False))"

definition is_ip_addr :: "string \<Rightarrow> bool" where
  "is_ip_addr s = (is_ipv4 s \<or> is_ipv6 s)"

definition trusted_proxy_hops :: "environment \<Rightarrow> nat" where
  "trusted_proxy_hops env =
     (case env ''KRAB_TRUSTED_PROXY_HOPS'' of
        Some raw \<Rightarrow> (case parse_unsigned (2 ^ 64 - 1) (trim raw) of
                       Some hops \<Rightarrow> if 1 \<le> hops then hops else 1 | None \<Rightarrow> 1)
      | None \<Rightarrow> 1)"

definition forwarded_candidate :: "nat \<Rightarrow> string \<Rightarrow> string" where
  "forwarded_candidate hops value =
     (let entries = map trim (split_on (\<lambda>c. c = CHR '','') value); index = length entries - hops
      in entries ! min index (length entries - 1))"

definition extract_client_ip :: "environment \<Rightarrow> http_request \<Rightarrow> bool \<Rightarrow> string" where
  "extract_client_ip env req trust_proxy_headers =
     (let peer = (case rq_peer_ip req of Some ip \<Rightarrow> ip | None \<Rightarrow> ''unknown'');
          real_ip = (case hm_get (rq_headers req) ''x-real-ip'' of
                       Some v \<Rightarrow> if trim v \<noteq> [] then trim v else peer
                     | None \<Rightarrow> peer)
      in if \<not> trust_proxy_headers then peer
         else case hm_get (rq_headers req) ''x-forwarded-for'' of
                Some v \<Rightarrow>
                  let candidate = forwarded_candidate (trusted_proxy_hops env) v
                  in if is_ip_addr candidate then candidate else real_ip
              | None \<Rightarrow> real_ip)"

subsection \<open>CSRF\<close>

definition CSRF_COOKIE_NAME :: string where "CSRF_COOKIE_NAME = ''krab_csrf_token''"
definition CSRF_HEADER_NAME :: string where "CSRF_HEADER_NAME = ''x-csrf-token''"

definition csrf_protection_enabled :: "environment \<Rightarrow> bool" where
  "csrf_protection_enabled env =
     (bool_env env ''KRAB_CSRF_ENABLED'' False \<or> bool_env env ''KRAB_AUTH_COOKIE_SESSION_ENABLED'' False)"

definition is_unsafe_http_method :: "string \<Rightarrow> bool" where
  "is_unsafe_http_method m = (m \<in> {''POST'', ''PUT'', ''PATCH'', ''DELETE''})"

fun find_cookie :: "string \<Rightarrow> string list \<Rightarrow> string option" where
  "find_cookie name [] = None"
| "find_cookie name (pair # pairs) =
     (case Option.bind (strip_prefix name (trim pair)) (strip_prefix ''='') of
        Some v \<Rightarrow> Some v
      | None \<Rightarrow> find_cookie name pairs)"

definition csrf_cookie_token :: "http_request \<Rightarrow> string option" where
  "csrf_cookie_token req =
     Option.bind (hm_get (rq_headers req) ''cookie'')
       (\<lambda>raw. find_cookie CSRF_COOKIE_NAME (split_on (\<lambda>c. c = CHR '';'') raw))"

definition csrf_header_token :: "http_request \<Rightarrow> string option" where
  "csrf_header_token req = hm_get (rq_headers req) CSRF_HEADER_NAME"

definition byte_at :: "u8 list \<Rightarrow> nat \<Rightarrow> u8" where
  "byte_at bs i = (if i < length bs then bs ! i else 0)"

definition constant_time_eq :: "u8 list \<Rightarrow> u8 list \<Rightarrow> bool" where
  "constant_time_eq left right =
     (foldl (\<lambda>diff i. diff OR unat (byte_at left i XOR byte_at right i))
        (length left XOR length right) [0..<max (length left) (length right)] = 0)"

definition as_bytes :: "string \<Rightarrow> u8 list" where
  "as_bytes s = map of_char s"

datatype guard_result = Pass | Reject nat

definition csrf_protection :: "environment \<Rightarrow> http_request \<Rightarrow> guard_result" where
  "csrf_protection env req =
     (if \<not> csrf_protection_enabled env then Pass
      else if \<not> is_unsafe_http_method (rq_method req) then Pass
      else if hm_get (rq_headers req) ''cookie'' = None then Pass
      else let cookie_token = (case csrf_cookie_token req of Some t \<Rightarrow> t | None \<Rightarrow> []);
               header_token = (case csrf_header_token req of Some t \<Rightarrow> t | None \<Rightarrow> [])
           in if cookie_token = [] \<or> header_token = [] \<or>
                 \<not> constant_time_eq (as_bytes cookie_token) (as_bytes header_token)
              then Reject 403 else Pass)"

subsection \<open>The rate limit\<close>

text \<open>\<open>capacity\<close> and \<open>refill\<close> are doubles built from \<open>u64\<close> settings.\<close>

record rate_config =
  rl_capacity :: rat
  rl_refill_per_sec :: rat
  rl_fail_open :: bool
  rl_trust_proxy :: bool

definition current_window_epoch :: "nat \<Rightarrow> nat \<Rightarrow> nat" where
  "current_window_epoch unix_secs window_secs = unix_secs div max window_secs 1"

definition rate_window_secs :: "rate_config \<Rightarrow> nat" where
  "rate_window_secs cfg =
     max 1 (min 300 (nat \<lceil>f64_div (rl_capacity cfg) (max (rl_refill_per_sec cfg) 1)\<rceil>))"

definition rate_key :: "string \<Rightarrow> nat \<Rightarrow> string" where
  "rate_key client_ip epoch = ''rate:ip:'' @ client_ip @ '':'' @ show_nat epoch"

definition rate_limit ::
  "'st store_ops \<Rightarrow> 'st \<Rightarrow> instant \<Rightarrow> instant \<Rightarrow> nat \<Rightarrow> rate_config \<Rightarrow> string \<Rightarrow> guard_result \<times> 'st" where
  "rate_limit ops st now ts unix_secs cfg client_ip =
     (let window_secs = rate_window_secs cfg;
          key = rate_key client_ip (current_window_epoch unix_secs window_secs);
          (r, st') = op_incr_with_ttl ops st now ts key 1 (from_secs (window_secs + 2));
          allowed = (case r of
                       Inr count \<Rightarrow> f64_of_u64 (unat count) \<le> rl_capacity cfg
                     | Inl _ \<Rightarrow> rl_fail_open cfg)
      in (if allowed then Pass else Reject 429, st'))"

subsection \<open>The limiter over time\<close>

text \<open>
  What happens in one window: requests of one client, each with its clock readings and wall-clock
  second, and anything else that is done to the store at some instant.
\<close>

datatype limiter_event = Hit instant instant nat | Traffic instant mem_op

fun limiter_run :: "rate_config \<Rightarrow> string \<Rightarrow> mem_store \<Rightarrow> limiter_event list \<Rightarrow> guard_result list" where
  "limiter_run cfg ip st [] = []"
| "limiter_run cfg ip st (Hit now ts unix_secs # evs) =
     (let (r, st') = rate_limit mem_ops st now ts unix_secs cfg ip in r # limiter_run cfg ip st' evs)"
| "limiter_run cfg ip st (Traffic t op # evs) = limiter_run cfg ip (mem_step st op) evs"

definition hits :: "limiter_event list \<Rightarrow> nat" where
  "hits evs = length (filter (\<lambda>e. case e of Hit _ _ _ \<Rightarrow> True | Traffic _ _ \<Rightarrow> False) evs)"

text \<open>
  Events in order, all of them between \<open>t0\<close> and the horizon; requests in the given window epoch,
  traffic on other keys.
\<close>

fun in_window :: "rate_config \<Rightarrow> string \<Rightarrow> nat \<Rightarrow> instant \<Rightarrow> instant \<Rightarrow> limiter_event list \<Rightarrow> bool" where
  "in_window cfg ip epoch h t0 [] = True"
| "in_window cfg ip epoch h t0 (Hit now ts unix_secs # evs) \<longleftrightarrow>
     t0 \<le> now \<and> now \<le> ts \<and> ts \<le> h \<and> current_window_epoch unix_secs (rate_window_secs cfg) = epoch \<and>
     in_window cfg ip epoch h ts evs"
| "in_window cfg ip epoch h t0 (Traffic t op # evs) \<longleftrightarrow>
     t0 \<le> t \<and> mem_op_end op \<le> t \<and> t \<le> h \<and> mem_op_key op \<noteq> rate_key ip epoch \<and>
     in_window cfg ip epoch h t evs"

definition verdict :: "rate_config \<Rightarrow> nat \<Rightarrow> guard_result" where
  "verdict cfg n = (if f64_of_u64 n \<le> rl_capacity cfg then Pass else Reject 429)"

lemma rate_limit_outcome:
  assumes "fst (op_incr_with_ttl ops st now ts (rate_key ip epoch) 1 (from_secs (rate_window_secs cfg + 2))) = Inr c"
    and "current_window_epoch unix_secs (rate_window_secs cfg) = epoch"
  shows "rate_limit ops st now ts unix_secs cfg ip =
     (verdict cfg (unat c), snd (op_incr_with_ttl ops st now ts (rate_key ip epoch) 1 (from_secs (rate_window_secs cfg + 2))))"
  using assms by (simp add: rate_limit_def Let_def verdict_def split_beta)

lemma traffic_step:
  assumes "store_inv st" and "max_entries st = 0" and "mem_op_key op \<noteq> k" and "mem_op_end op \<le> t"
  shows "store_inv (mem_step st op)" and "max_entries (mem_step st op) = 0" and "live (mem_step st op) t k = live st t k"
  using assms mem_step_other [OF assms(1), of k op t] by (auto intro: krab_inv simp: mem_step_max)

lemma limiter_counting:
  fixes c :: u64
  assumes "store_inv st" and "max_entries st = 0" and "live st h (rate_key ip epoch) = Some (show_word c)"
    and "in_window cfg ip epoch h t0 evs" and "t0 \<le> h" and "unat c + hits evs < 2 ^ 64"
  shows "limiter_run cfg ip st evs = map (\<lambda>i. verdict cfg (unat c + i)) [1..<Suc (hits evs)]"
  using assms
proof (induction evs arbitrary: st t0 c)
  case Nil
  then show ?case by (simp add: hits_def)
next
  case (Cons ev evs)
  let ?k = "rate_key ip epoch" and ?ttl = "from_secs (rate_window_secs cfg + 2)"
  show ?case
  proof (cases ev)
    case (Hit now ts unix_secs)
    with Cons.prems have t: "now \<le> h" "ts \<le> h" "current_window_epoch unix_secs (rate_window_secs cfg) = epoch"
      by auto
    note inc = mem.counter_counts [OF Cons.prems(1,3) t(1,2), of 1 ?ttl]
    define st1 where "st1 = snd (op_incr_with_ttl mem_ops st now ts ?k 1 ?ttl)"
    have small: "unat c + Suc (hits evs) < 2 ^ 64"
      using Cons.prems(6) Hit by (simp add: hits_def)
    then have c1: "unat (saturating_add c 1) = Suc (unat c)"
      by (simp add: unat_saturating_add)
    have st1: "store_inv st1" "max_entries st1 = 0" "live st1 h ?k = Some (show_word (saturating_add c 1))"
      using inc(2) Cons.prems(1,2) mem.incr_inv by (simp_all add: st1_def)
    have "limiter_run cfg ip st1 evs =
        map (\<lambda>i. verdict cfg (unat (saturating_add c 1) + i)) [1..<Suc (hits evs)]"
      using Cons.prems(4) Hit t(2) small c1 by (intro Cons.IH [OF st1]) auto
    also have "\<dots> = map (\<lambda>i. verdict cfg (unat c + i)) [2..<Suc (Suc (hits evs))]"
      by (simp add: c1 map_Suc_upt [symmetric] numeral_2_eq_2 del: map_Suc_upt upt_Suc)
    finally have rest: "limiter_run cfg ip st1 evs = map (\<lambda>i. verdict cfg (unat c + i)) [2..<Suc (Suc (hits evs))]" .
    have "rate_limit mem_ops st now ts unix_secs cfg ip = (verdict cfg (Suc (unat c)), st1)"
      using rate_limit_outcome [OF inc(1) t(3)] c1 by (simp add: st1_def)
    then have "limiter_run cfg ip st (ev # evs) = verdict cfg (unat c + 1) # limiter_run cfg ip st1 evs"
      using Hit by simp
    moreover have "[1..<Suc (hits (ev # evs))] = 1 # [2..<Suc (Suc (hits evs))]"
      using Hit by (simp add: hits_def upt_conv_Cons numeral_2_eq_2 del: upt_Suc)
    ultimately show ?thesis using rest by simp
  next
    case (Traffic t op)
    with Cons.prems have t: "mem_op_key op \<noteq> ?k" "mem_op_end op \<le> h" by auto
    have "limiter_run cfg ip (mem_step st op) evs = map (\<lambda>i. verdict cfg (unat c + i)) [1..<Suc (hits evs)]"
      using Cons.prems Traffic traffic_step [OF Cons.prems(1,2) t]
      by (intro Cons.IH [of _ _ t]) (auto simp: hits_def)
    with Traffic show ?thesis by (simp add: hits_def)
  qed
qed

lemma limiter_from_fresh:
  assumes "store_inv st" and "max_entries st = 0" and "live st t0 (rate_key ip epoch) = None"
    and "in_window cfg ip epoch h t0 evs" and "h < t0 + from_secs (rate_window_secs cfg + 2)" and "hits evs < 2 ^ 64"
  shows "limiter_run cfg ip st evs = map (verdict cfg) [1..<Suc (hits evs)]"
  using assms
proof (induction evs arbitrary: st t0)
  case Nil
  then show ?case by (simp add: hits_def)
next
  case (Cons ev evs)
  let ?k = "rate_key ip epoch" and ?ttl = "from_secs (rate_window_secs cfg + 2)"
  show ?case
  proof (cases ev)
    case (Hit now ts unix_secs)
    with Cons.prems have t: "t0 \<le> now" "now \<le> ts" "ts \<le> h" "current_window_epoch unix_secs (rate_window_secs cfg) = epoch"
      by auto
    have fresh: "live st now ?k = None" by (rule mem.look_gone_later [OF Cons.prems(3) t(1)])
    have "alive now ?ttl h" using Cons.prems(5) t(1) by (simp add: alive_def)
    note inc = mem.counter_starts [OF Cons.prems(1) fresh t(3) this, of 1]
    define st1 where "st1 = snd (op_incr_with_ttl mem_ops st now ts ?k 1 ?ttl)"
    have st1: "store_inv st1" "max_entries st1 = 0" "live st1 h ?k = Some (show_word (1 :: u64))"
      using inc(2) Cons.prems(1,2) mem.incr_inv by (simp_all add: st1_def)
    have "limiter_run cfg ip st1 evs = map (\<lambda>i. verdict cfg (unat (1 :: u64) + i)) [1..<Suc (hits evs)]"
      using Cons.prems(4,6) Hit t by (intro limiter_counting [OF st1, of _ ts]) (auto simp: hits_def)
    also have "\<dots> = map (verdict cfg) [2..<Suc (Suc (hits evs))]"
      by (simp add: map_Suc_upt [symmetric] numeral_2_eq_2 del: map_Suc_upt upt_Suc)
    finally have rest: "limiter_run cfg ip st1 evs = map (verdict cfg) [2..<Suc (Suc (hits evs))]" .
    have "rate_limit mem_ops st now ts unix_secs cfg ip = (verdict cfg 1, st1)"
      using rate_limit_outcome [OF inc(1) t(4)] by (simp add: st1_def)
    then have "limiter_run cfg ip st (ev # evs) = verdict cfg 1 # limiter_run cfg ip st1 evs"
      using Hit by simp
    moreover have "[1..<Suc (hits (ev # evs))] = 1 # [2..<Suc (Suc (hits evs))]"
      using Hit by (simp add: hits_def upt_conv_Cons numeral_2_eq_2 del: upt_Suc)
    ultimately show ?thesis using rest by simp
  next
    case (Traffic t op)
    with Cons.prems have t: "t0 \<le> t" "mem_op_key op \<noteq> ?k" "mem_op_end op \<le> t" by auto
    have "live st t ?k = None" by (rule mem.look_gone_later [OF Cons.prems(3) t(1)])
    then have "limiter_run cfg ip (mem_step st op) evs = map (verdict cfg) [1..<Suc (hits evs)]"
      using Cons.prems Traffic t traffic_step [OF Cons.prems(1,2) t(2,3)]
      by (intro Cons.IH [of _ t]) (auto simp: hits_def)
    with Traffic show ?thesis by (simp add: hits_def)
  qed
qed

text \<open>
  the rate limit admits exactly its capacity. In one window the first \<open>C\<close> requests of a client
  address pass and every later one is answered 429, in any interleaving with other traffic on an
  uncapped store, as long as the window's counter was not there before and the requests arrive
  within its time to live.
\<close>

theorem rate_limit_admits_exactly_capacity:
  assumes "store_inv st" and "max_entries st = 0" and "live st t0 (rate_key ip epoch) = None"
    and "in_window cfg ip epoch h t0 evs" and "h < t0 + from_secs (rate_window_secs cfg + 2)"
    and "rl_capacity cfg = f64_of_u64 C" and "C < 2 ^ 53" and "hits evs < 2 ^ 53"
  shows "limiter_run cfg ip st evs =
           replicate (min C (hits evs)) Pass @ replicate (hits evs - C) (Reject 429)"
proof -
  have "limiter_run cfg ip st evs = map (verdict cfg) [1..<Suc (hits evs)]"
    using assms by (intro limiter_from_fresh) auto
  also have "\<dots> = map (\<lambda>n. if n \<le> C then Pass else Reject 429) [1..<Suc (hits evs)]"
    using assms(6-8) by (intro map_cong) (auto simp: verdict_def f64_of_u64_exact)
  also have "\<dots> = replicate (min C (hits evs)) Pass @ replicate (hits evs - C) (Reject 429)"
    by (rule nth_equalityI) (auto simp: nth_append simp del: upt_Suc)
  finally show ?thesis .
qed

theorem rate_limit_admits_exactly_capacity_witness:
  "limiter_run \<lparr>rl_capacity = f64_of_u64 1, rl_refill_per_sec = f64_of_u64 1, rl_fail_open = True, rl_trust_proxy = False\<rparr>
     ''::1'' (with_max_entries 0) [Hit 1 2 0, Traffic 3 (OpSet 3 3 ''x'' ''y'' 0), Hit 4 4 0] = [Pass, Reject 429]"
proof -
  let ?cfg = "\<lparr>rl_capacity = f64_of_u64 1, rl_refill_per_sec = f64_of_u64 1, rl_fail_open = True, rl_trust_proxy = False\<rparr>"
  have "0 < rate_window_secs ?cfg" by (simp add: rate_window_secs_def)
  then show ?thesis
    using rate_limit_admits_exactly_capacity [of "with_max_entries 0" 0 "''::1''" 0 ?cfg 5
      "[Hit 1 2 0, Traffic 3 (OpSet 3 3 ''x'' ''y'' 0), Hit 4 4 0]" 1]
    by (simp add: with_max_entries_inv current_window_epoch_def rate_key_def hits_def from_secs_def)
      (simp add: with_max_entries_def live_def)
qed

subsection \<open>Forwarded addresses\<close>

lemma forwarded_candidate_suffix:
  assumes "hops = length trusted" and "0 < hops" and "\<forall>w \<in> set trusted. CHR '','' \<notin> set w"
  shows "forwarded_candidate hops (client @ CHR '','' # join [CHR '',''] trusted) = trim (hd trusted)"
proof -
  have ne: "trusted \<noteq> []" using assms(1,2) by auto
  have "split_on (\<lambda>c. c = CHR '','') (client @ CHR '','' # join [CHR '',''] trusted) =
      split_on (\<lambda>c. c = CHR '','') client @ trusted"
    using split_on_append [of "\<lambda>c. c = CHR '',''" "CHR '',''" client] split_on_join [OF assms(3) ne] by simp
  with assms(1) ne show ?thesis
    by (cases trusted) (simp_all add: forwarded_candidate_def Let_def nth_append)
qed

text \<open>
  forwarded headers cannot be spoofed past the trusted proxies. Without proxy trust the socket
  peer decides alone. With it, whatever a client put in front, the address is the one that the
  outermost of the trusted proxies appended, whenever that is an IP address.
\<close>

theorem client_ip_cannot_be_spoofed:
  assumes "length trusted = trusted_proxy_hops env" and "\<forall>w \<in> set trusted. CHR '','' \<notin> set w"
    and "is_ip_addr (trim (hd trusted))"
    and "hm_get (rq_headers req) ''x-forwarded-for'' = Some (client @ CHR '','' # join [CHR '',''] trusted)"
  shows "extract_client_ip env req True = trim (hd trusted) \<and>
         extract_client_ip env req False = (case rq_peer_ip req of Some ip \<Rightarrow> ip | None \<Rightarrow> ''unknown'')"
proof -
  have "0 < trusted_proxy_hops env" by (auto simp: trusted_proxy_hops_def split: option.splits)
  with forwarded_candidate_suffix [OF assms(1) [symmetric] _ assms(2), of client] assms(3,4)
  show ?thesis by (simp add: extract_client_ip_def Let_def)
qed

theorem client_ip_cannot_be_spoofed_witness:
  "extract_client_ip (\<lambda>_. None)
     \<lparr>rq_method = ''GET'', rq_path = ''/'', rq_headers = [(''x-forwarded-for'', ''6.6.6.6, 9.9.9.9'')], rq_peer_ip = None\<rparr> True =
   ''9.9.9.9''"
  using client_ip_cannot_be_spoofed [of "['' 9.9.9.9'']" "\<lambda>_. None"
      "\<lparr>rq_method = ''GET'', rq_path = ''/'', rq_headers = [(''x-forwarded-for'', ''6.6.6.6, 9.9.9.9'')], rq_peer_ip = None\<rparr>"
      "''6.6.6.6''"]
  by (simp add: trusted_proxy_hops_def trim_def trim_start_def trim_end_def is_ws_def is_ip_addr_def is_ipv4_def
      is_octet_def is_digit_def digit_val_def)

subsection \<open>CSRF\<close>

lemma foldl_or_zero: "foldl (\<lambda>diff i. diff OR f i) d xs = 0 \<longleftrightarrow> d = (0 :: nat) \<and> (\<forall>i \<in> set xs. f i = 0)"
  by (induction xs arbitrary: d) (auto simp: or_eq_0_iff)

lemma xor_zero_iff: "a XOR b = 0 \<longleftrightarrow> a = b" for a b :: "'a::semiring_bit_operations"
proof
  assume "a XOR b = 0"
  then have "(a XOR b) XOR b = 0 XOR b" by simp
  then show "a = b" by (simp add: xor.assoc)
qed simp

lemma constant_time_eq_iff: "constant_time_eq xs ys \<longleftrightarrow> xs = ys"
proof
  assume a: "constant_time_eq xs ys"
  then have len: "length xs = length ys"
    and "\<forall>i \<in> set [0..<length xs]. unat (byte_at xs i XOR byte_at ys i) = 0"
    by (simp_all add: constant_time_eq_def foldl_or_zero xor_zero_iff)
  then have "byte_at xs i = byte_at ys i" if "i < length xs" for i
    using that by (auto simp: unat_eq_zero xor_zero_iff)
  with len show "xs = ys" by (intro nth_equalityI) (simp_all add: byte_at_def)
next
  assume "xs = ys"
  then show "constant_time_eq xs ys" unfolding constant_time_eq_def foldl_or_zero by simp
qed

lemma as_bytes_inject: "as_bytes s = as_bytes t \<longleftrightarrow> s = t"
proof -
  have "inj (of_char :: char \<Rightarrow> u8)"
  proof (rule injI)
    fix x y :: char
    assume "(of_char x :: u8) = of_char y"
    then have "unat (of_nat (of_char x) :: u8) = unat (of_nat (of_char y) :: u8)" by (simp only: of_nat_of_char)
    moreover have "unat (of_nat (of_char z) :: u8) = of_char z" for z :: char
      using nat_of_char_less_256 [of z] by (simp add: unsigned_of_nat take_bit_nat_eq_self)
    ultimately show "x = y" by simp
  qed
  then show ?thesis by (simp add: as_bytes_def inj_map_eq_map)
qed

text \<open>
  the double-submit check. With protection on, an unsafe request that carries cookies passes
  exactly when the cookie token and the header token are equal and not empty; every other request,
  safe or without ambient credentials, passes; and the constant-time comparison is equality.
\<close>

theorem csrf_passes_iff_tokens_match:
  assumes "csrf_protection_enabled env"
  shows "csrf_protection env req = Pass \<longleftrightarrow>
           \<not> is_unsafe_http_method (rq_method req) \<or> hm_get (rq_headers req) ''cookie'' = None \<or>
           (\<exists>token. token \<noteq> [] \<and> csrf_cookie_token req = Some token \<and> csrf_header_token req = Some token)"
  using assms
  by (auto simp: csrf_protection_def Let_def constant_time_eq_iff as_bytes_inject split: option.splits)

theorem csrf_passes_iff_tokens_match_witness:
  "csrf_protection (\<lambda>n. if n = ''KRAB_CSRF_ENABLED'' then Some ''true'' else None)
     \<lparr>rq_method = ''GET'', rq_path = ''/'', rq_headers = [], rq_peer_ip = None\<rparr> = Pass"
  using csrf_passes_iff_tokens_match [of "\<lambda>n. if n = ''KRAB_CSRF_ENABLED'' then Some ''true'' else None"
      "\<lparr>rq_method = ''GET'', rq_path = ''/'', rq_headers = [], rq_peer_ip = None\<rparr>"]
  by (simp add: csrf_protection_enabled_def bool_env_def is_unsafe_http_method_def ascii_lower_def)

end
