(* ===== verification/ServiceConfig.thy ===== *)
theory ServiceConfig
  imports KrabPrelude Complex_Main
begin

text \<open>
  The configuration of a service, \<open>krab_core/src/config.rs\<close>: reading the environment, the policy on
  where secrets may come from, and the start-up validation outside \<open>dev\<close>. The environment and the
  file system are functions, the JSON parser is a parameter \<open>parse_json\<close>.
\<close>

subsection \<open>Secrets and their sources\<close>

datatype secret_severity = IssueError | IssueWarning

record secret_issue =
  si_var_name :: string
  si_policy_rule :: string
  si_severity :: secret_severity
  si_reason :: string

definition show_issue :: "secret_issue \<Rightarrow> string" where
  "show_issue i =
     ''['' @ (case si_severity i of IssueError \<Rightarrow> ''ERROR'' | IssueWarning \<Rightarrow> ''WARN'') @ ''] '' @
     si_var_name i @ '' ('' @ si_policy_rule i @ ''): '' @ si_reason i"

definition has_errors :: "secret_issue list \<Rightarrow> bool" where
  "has_errors issues = list_ex (\<lambda>i. si_severity i = IssueError) issues"

definition is_clean :: "secret_issue list \<Rightarrow> bool" where
  "is_clean issues = (issues = [])"

datatype deploy_env = Dev | Staging | Prod | Unknown string

definition env_as_str :: "deploy_env \<Rightarrow> string" where
  "env_as_str e = (case e of Dev \<Rightarrow> ''dev'' | Staging \<Rightarrow> ''staging'' | Prod \<Rightarrow> ''prod'' | Unknown v \<Rightarrow> v)"

definition deploy_env_from :: "environment \<Rightarrow> deploy_env" where
  "deploy_env_from env =
     (case env ''KRAB_ENVIRONMENT'' of
        Some v \<Rightarrow>
          if eq_ignore_ascii_case v ''dev'' \<or> eq_ignore_ascii_case v ''local'' then Dev
          else if eq_ignore_ascii_case v ''staging'' then Staging
          else if eq_ignore_ascii_case v ''prod'' \<or> eq_ignore_ascii_case v ''production'' then Prod
          else Unknown v
      | None \<Rightarrow> Dev)"

definition env_non_empty :: "environment \<Rightarrow> string \<Rightarrow> string option" where
  "env_non_empty env name =
     (case map_option trim (env name) of Some v \<Rightarrow> if v \<noteq> [] then Some v else None | None \<Rightarrow> None)"

abbreviation FILE :: string where "FILE \<equiv> ''_FILE''"
abbreviation VAULT_REF :: string where "VAULT_REF \<equiv> ''_VAULT_REF''"

definition unresolved_vault :: "string \<Rightarrow> deploy_env \<Rightarrow> secret_issue list" where
  "unresolved_vault var e =
     [\<lparr>si_var_name = var,
       si_policy_rule = (if e = Staging then ''UNRESOLVED_VAULT_REF_IN_STAGING'' else ''UNRESOLVED_VAULT_REF_IN_PROD''),
       si_severity = IssueError,
       si_reason = var @ ''_VAULT_REF is set in '' @
         (if e = Staging then ''staging'' else [CHR 0x27] @ env_as_str e @ [CHR 0x27]) @
         '', but runtime vault resolution is not configured; materialize the secret before startup''\<rparr>]"

definition inline_secret :: "string \<Rightarrow> deploy_env \<Rightarrow> secret_issue list" where
  "inline_secret var e =
     [if e = Staging
      then \<lparr>si_var_name = var, si_policy_rule = ''INLINE_SECRET_IN_STAGING'', si_severity = IssueWarning,
            si_reason = var @ '' is set as an inline env var in staging; prefer *_FILE or *_VAULT_REF for secret sourcing''\<rparr>
      else \<lparr>si_var_name = var, si_policy_rule = ''INLINE_SECRET_IN_PROD'', si_severity = IssueError,
            si_reason = var @ '' is set as an inline env var in '' @ [CHR 0x27] @ env_as_str e @ [CHR 0x27] @
              ''; only *_FILE or *_VAULT_REF sourcing is allowed''\<rparr>]"

definition check_secret_source :: "environment \<Rightarrow> string \<Rightarrow> deploy_env \<Rightarrow> secret_issue list" where
  "check_secret_source env var e =
     (let has_inline = env_non_empty env var \<noteq> None;
          has_file = env_non_empty env (var @ FILE) \<noteq> None;
          has_vault = env_non_empty env (var @ VAULT_REF) \<noteq> None
      in if \<not> has_inline \<and> \<not> has_file \<and> \<not> has_vault then []
         else let has_secure = has_file \<or> has_vault
              in case e of
                   Dev \<Rightarrow> []
                 | _ \<Rightarrow> (if has_vault then unresolved_vault var e else []) @
                        (if has_inline \<and> \<not> has_secure then inline_secret var e else []))"

datatype read_error = FileUnreadable string | FileEmpty string | VaultUnresolved string

definition read_env_or_file ::
  "environment \<Rightarrow> (string \<Rightarrow> string option) \<Rightarrow> string \<Rightarrow> read_error + string option" where
  "read_env_or_file env fs name =
     (case env_non_empty env name of
        Some value \<Rightarrow> Inr (Some value)
      | None \<Rightarrow>
          (case env_non_empty env (name @ FILE) of
             Some path \<Rightarrow>
               (case fs path of
                  None \<Rightarrow> Inl (FileUnreadable path)
                | Some raw \<Rightarrow> if trim raw = [] then Inl (FileEmpty path) else Inr (Some (trim raw)))
           | None \<Rightarrow>
               (case env_non_empty env (name @ VAULT_REF) of
                  Some vault_ref \<Rightarrow> Inl (VaultUnresolved vault_ref)
                | None \<Rightarrow> Inr None)))"

subsection \<open>Algorithm allowlists and provider bundles\<close>

definition allowlist_entries :: "string \<Rightarrow> string list" where
  "allowlist_entries raw = map ascii_upper (filter (\<lambda>a. a \<noteq> []) (map trim (split_on (\<lambda>c. c = CHR '','') raw)))"

definition hmac_name :: "string \<Rightarrow> bool" where
  "hmac_name upper = starts_with upper ''HS''"

definition asymmetric_name :: "string \<Rightarrow> bool" where
  "asymmetric_name upper =
     (\<not> hmac_name upper \<and> (starts_with upper ''RS'' \<or> starts_with upper ''PS'' \<or> starts_with upper ''ES'' \<or> upper = ''EDDSA''))"

definition jwt_allowlist_mixes_hmac_and_asymmetric :: "string \<Rightarrow> bool" where
  "jwt_allowlist_mixes_hmac_and_asymmetric raw =
     (list_ex hmac_name (allowlist_entries raw) \<and> list_ex asymmetric_name (allowlist_entries raw))"

definition jwt_allowlist_is_hmac_only :: "string option \<Rightarrow> bool" where
  "jwt_allowlist_is_hmac_only raw =
     (case raw of
        None \<Rightarrow> True
      | Some r \<Rightarrow> \<not> list_ex asymmetric_name (allowlist_entries r) \<and> list_ex hmac_name (allowlist_entries r))"

datatype json =
    JNull
  | JBool bool
  | JInt int
  | JFloat rat
  | JString string
  | JArray "json list"
  | JObject "(string \<times> json) list"

definition json_str :: "json \<Rightarrow> string \<Rightarrow> string option" where
  "json_str j key =
     (case j of
        JObject members \<Rightarrow> (case map_of members key of Some (JString s) \<Rightarrow> Some s | _ \<Rightarrow> None)
      | _ \<Rightarrow> None)"

definition trimmed_str :: "json \<Rightarrow> string \<Rightarrow> string" where
  "trimmed_str j key = (case json_str j key of Some v \<Rightarrow> trim v | None \<Rightarrow> [])"

record outside =
  out_env :: environment
  out_fs :: "string \<Rightarrow> string option"
  out_json :: "string \<Rightarrow> json option"

definition provider_bundle_uses_jwks :: "outside \<Rightarrow> bool" where
  "provider_bundle_uses_jwks w =
     (case read_env_or_file (out_env w) (out_fs w) ''KRAB_JWT_PROVIDERS_JSON'' of
        Inr (Some raw) \<Rightarrow>
          (case out_json w raw of
             Some (JArray providers) \<Rightarrow> list_ex (\<lambda>p. trimmed_str p ''jwks_url'' \<noteq> []) providers
           | _ \<Rightarrow> False)
      | _ \<Rightarrow> False)"

subsection \<open>Settings\<close>

record http_config =
  hc_auth_mode :: string
  hc_service_auth_scope :: string
  hc_rate_limit_capacity :: u64
  hc_rate_limit_refill_per_sec :: u64
  hc_rate_limit_fail_open :: bool
  hc_auth_fail_window_secs :: u64
  hc_auth_fail_threshold :: u64
  hc_trust_proxy_headers :: bool
  hc_cors_origins :: "string list"
  hc_cors_allow_any_origin :: bool

definition env_or :: "environment \<Rightarrow> string \<Rightarrow> string \<Rightarrow> string" where
  "env_or env name fallback = (case env name of Some v \<Rightarrow> v | None \<Rightarrow> fallback)"

definition env_u64 :: "environment \<Rightarrow> string \<Rightarrow> u64 \<Rightarrow> u64" where
  "env_u64 env name fallback = (case Option.bind (env name) parse_u64 of Some v \<Rightarrow> v | None \<Rightarrow> fallback)"

definition env_flag :: "environment \<Rightarrow> string \<Rightarrow> bool option" where
  "env_flag env name = map_option (\<lambda>v. v = ''1'' \<or> eq_ignore_ascii_case v ''true'') (env name)"

definition http_config_from_env :: "environment \<Rightarrow> http_config" where
  "http_config_from_env env =
     \<lparr>hc_auth_mode = env_or env ''KRAB_AUTH_MODE'' ''jwt'',
      hc_service_auth_scope = env_or env ''KRAB_SERVICE_AUTH_SCOPE'' ''service:internal'',
      hc_rate_limit_capacity = env_u64 env ''KRAB_RATE_LIMIT_CAPACITY'' 120,
      hc_rate_limit_refill_per_sec = env_u64 env ''KRAB_RATE_LIMIT_REFILL_PER_SEC'' 60,
      hc_rate_limit_fail_open =
        (case env_flag env ''KRAB_RATE_LIMIT_FAIL_OPEN'' of Some b \<Rightarrow> b | None \<Rightarrow> deploy_env_from env = Dev),
      hc_auth_fail_window_secs =
        (case Option.bind (env ''KRAB_AUTH_FAILURE_WINDOW_SECS'') parse_u64 of
           Some v \<Rightarrow> if 0 < v then v else 60 | None \<Rightarrow> 60),
      hc_auth_fail_threshold = env_u64 env ''KRAB_AUTH_FAILURE_THRESHOLD'' 100,
      hc_trust_proxy_headers = (case env_flag env ''KRAB_TRUST_PROXY_HEADERS'' of Some b \<Rightarrow> b | None \<Rightarrow> False),
      hc_cors_origins =
        (case env ''KRAB_CORS_ORIGINS'' of
           Some v \<Rightarrow> filter (\<lambda>s. s \<noteq> []) (map trim (split_on (\<lambda>c. c = CHR '','') v)) | None \<Rightarrow> []),
      hc_cors_allow_any_origin = (deploy_env_from env = Dev)\<rparr>"

record service_config =
  sc_environment :: deploy_env
  sc_service_name :: string
  sc_host :: string
  sc_port :: u16
  sc_log_filter :: string
  sc_http :: http_config

datatype port_error = InvalidPort string

definition parse_port_from_env :: "environment \<Rightarrow> u16 \<Rightarrow> port_error + u16" where
  "parse_port_from_env env default_port =
     (case env ''KRAB_PORT'' of
        Some raw \<Rightarrow>
          if trim raw = [] then Inr default_port
          else (case parse_u16 (trim raw) of Some p \<Rightarrow> Inr p | None \<Rightarrow> Inl (InvalidPort (trim raw)))
      | None \<Rightarrow> Inr default_port)"

definition from_env_checked :: "environment \<Rightarrow> string \<Rightarrow> u16 \<Rightarrow> port_error + service_config" where
  "from_env_checked env default_service_name default_port =
     map_sum id (\<lambda>port.
       \<lparr>sc_environment = deploy_env_from env,
        sc_service_name = env_or env ''KRAB_SERVICE_NAME'' default_service_name,
        sc_host = env_or env ''KRAB_HOST'' ''127.0.0.1'',
        sc_port = port,
        sc_log_filter = env_or env ''RUST_LOG'' ''info'',
        sc_http = http_config_from_env env\<rparr>)
       (parse_port_from_env env default_port)"

subsection \<open>Start-up validation\<close>

datatype validate_error =
    CorsNotConfigured
  | StaticAuthMode
  | BearerTokenSet
  | JwksUrlNotHttps
  | InlineJwtSecret
  | ProviderConfigMissing
  | BundleUnreadable read_error
  | BundleNotJson
  | BundleNotArray
  | ProviderIncomplete string
  | ProviderJwksUrlNotHttps string
  | MixedAlgorithmFamilies string
  | HmacOnlyAllowlistWithJwks "string option"
  | UnsupportedAuthMode string
  | SecretsPolicyViolation secret_issue

definition set_non_empty :: "environment \<Rightarrow> string \<Rightarrow> bool" where
  "set_non_empty env name = (trim (env_or env name []) \<noteq> [])"

fun check_providers :: "nat \<Rightarrow> json list \<Rightarrow> validate_error + unit" where
  "check_providers i [] = Inr ()"
| "check_providers i (p # ps) =
     (let name = (case json_str p ''name'' of Some n \<Rightarrow> n | None \<Rightarrow> ''#'' @ show_nat i);
          url = trimmed_str p ''jwks_url''
      in if trimmed_str p ''issuer'' = [] \<or> trimmed_str p ''audience'' = [] then Inl (ProviderIncomplete name)
         else if url \<noteq> [] \<and> \<not> starts_with url ''https://'' then Inl (ProviderJwksUrlNotHttps name)
         else check_providers (i + 1) ps)"

definition require_issuer_and_audience_in_provider_bundle :: "outside \<Rightarrow> validate_error + unit" where
  "require_issuer_and_audience_in_provider_bundle w =
     (case read_env_or_file (out_env w) (out_fs w) ''KRAB_JWT_PROVIDERS_JSON'' of
        Inr None \<Rightarrow> Inr ()
      | Inl err \<Rightarrow> Inl (BundleUnreadable err)
      | Inr (Some raw) \<Rightarrow>
          (case out_json w raw of
             None \<Rightarrow> Inl BundleNotJson
           | Some (JArray providers) \<Rightarrow> check_providers 0 providers
           | Some _ \<Rightarrow> Inl BundleNotArray))"

text \<open>The checks of \<open>jwt\<close> and \<open>oidc\<close> mode, in the order of the source.\<close>

definition validate_jwt :: "outside \<Rightarrow> validate_error + unit" where
  "validate_jwt w =
     (let env = out_env w; has = set_non_empty env;
          has_jwks_url = has ''KRAB_OIDC_JWKS_URL'';
          has_inline = has ''KRAB_JWT_KEYS_JSON'' \<or> has ''KRAB_JWT_SECRET'';
          has_file = has ''KRAB_JWT_KEYS_JSON_FILE'' \<or> has ''KRAB_JWT_SECRET_FILE'';
          has_vault_ref = has ''KRAB_JWT_KEYS_JSON_VAULT_REF'' \<or> has ''KRAB_JWT_SECRET_VAULT_REF'';
          has_provider_bundle = has ''KRAB_JWT_PROVIDERS_JSON'' \<or> has ''KRAB_JWT_PROVIDERS_JSON_FILE'' \<or>
            has ''KRAB_JWT_PROVIDERS_JSON_VAULT_REF'';
          has_fallback_provider_tuple = (has_inline \<or> has_file \<or> has_jwks_url) \<and>
            has ''KRAB_OIDC_ISSUER'' \<and> has ''KRAB_OIDC_AUDIENCE'';
          allowlist = env_non_empty env ''KRAB_JWT_ALLOWED_ALGS''
      in if has ''KRAB_BEARER_TOKEN'' then Inl BearerTokenSet
         else if has_jwks_url \<and> \<not> starts_with (trim (env_or env ''KRAB_OIDC_JWKS_URL'' [])) ''https://'' then Inl JwksUrlNotHttps
         else if has_inline \<and> \<not> (has_file \<or> has_vault_ref) then Inl InlineJwtSecret
         else if \<not> has_provider_bundle \<and> \<not> has_fallback_provider_tuple then Inl ProviderConfigMissing
         else case (if has_provider_bundle then require_issuer_and_audience_in_provider_bundle w else Inr ()) of
                Inl e \<Rightarrow> Inl e
              | Inr _ \<Rightarrow>
                  (case allowlist of
                     Some raw \<Rightarrow> if jwt_allowlist_mixes_hmac_and_asymmetric raw then Inl (MixedAlgorithmFamilies raw)
                                 else if jwt_allowlist_is_hmac_only allowlist \<and> (has_jwks_url \<or> provider_bundle_uses_jwks w)
                                 then Inl (HmacOnlyAllowlistWithJwks allowlist) else Inr ()
                   | None \<Rightarrow> if jwt_allowlist_is_hmac_only allowlist \<and> (has_jwks_url \<or> provider_bundle_uses_jwks w)
                             then Inl (HmacOnlyAllowlistWithJwks allowlist) else Inr ()))"

definition validate :: "outside \<Rightarrow> service_config \<Rightarrow> validate_error + unit" where
  "validate w cfg =
     (if sc_environment cfg = Dev then Inr ()
      else if hc_cors_origins (sc_http cfg) = [] then Inl CorsNotConfigured
      else let mode = hc_auth_mode (sc_http cfg)
           in if eq_ignore_ascii_case mode ''static'' then Inl StaticAuthMode
              else if eq_ignore_ascii_case mode ''jwt'' \<or> eq_ignore_ascii_case mode ''oidc'' then validate_jwt w
              else Inl (UnsupportedAuthMode mode))"

definition SECRET_VARS :: "string list" where
  "SECRET_VARS = [''DATABASE_URL'', ''KRAB_REDIS_URL'', ''KRAB_SMTP_PASSWORD'', ''KRAB_JWT_SECRET'',
     ''KRAB_JWT_KEYS_JSON'', ''KRAB_JWT_PROVIDERS_JSON'', ''KRAB_BEARER_TOKEN'']"

definition static_token_issue :: "deploy_env \<Rightarrow> secret_issue" where
  "static_token_issue e =
     \<lparr>si_var_name = ''KRAB_BEARER_TOKEN'', si_policy_rule = ''STATIC_TOKEN_IN_NON_DEV'', si_severity = IssueError,
      si_reason = ''KRAB_BEARER_TOKEN must be unset in '' @ [CHR 0x27] @ env_as_str e @ [CHR 0x27] @
        '' environment; static bearer tokens are only allowed in dev''\<rparr>"

definition validate_secrets_sources :: "environment \<Rightarrow> service_config \<Rightarrow> secret_issue list" where
  "validate_secrets_sources env cfg =
     concat (map (\<lambda>var. check_secret_source env var (sc_environment cfg)) SECRET_VARS) @
     (if sc_environment cfg \<noteq> Dev \<and> env_non_empty env ''KRAB_BEARER_TOKEN'' \<noteq> None
      then [static_token_issue (sc_environment cfg)] else [])"

definition validate_all :: "outside \<Rightarrow> service_config \<Rightarrow> validate_error + secret_issue list" where
  "validate_all w cfg =
     (case validate w cfg of
        Inl e \<Rightarrow> Inl e
      | Inr _ \<Rightarrow>
          let report = validate_secrets_sources (out_env w) cfg
          in if has_errors report
             then Inl (SecretsPolicyViolation (hd (filter (\<lambda>i. si_severity i = IssueError) report)))
             else Inr report)"

subsection \<open>Lemmas\<close>

lemma set_non_empty_iff: "set_non_empty env name \<longleftrightarrow> env_non_empty env name \<noteq> None"
  by (auto simp: set_non_empty_def env_non_empty_def env_or_def trim_def trim_start_def trim_end_def split: option.splits)

lemma check_secret_source_errors:
  "has_errors (check_secret_source env var e) \<longleftrightarrow>
     e \<noteq> Dev \<and>
     (env_non_empty env (var @ VAULT_REF) \<noteq> None \<or>
      e \<noteq> Staging \<and> env_non_empty env var \<noteq> None \<and> env_non_empty env (var @ FILE) = None)"
  by (cases e) (auto simp: check_secret_source_def has_errors_def unresolved_vault_def inline_secret_def Let_def)

lemma check_providers_ok:
  "check_providers i ps = Inr () \<Longrightarrow> p \<in> set ps \<Longrightarrow>
     trimmed_str p ''issuer'' \<noteq> [] \<and> trimmed_str p ''audience'' \<noteq> [] \<and>
     (trimmed_str p ''jwks_url'' \<noteq> [] \<longrightarrow> prefix ''https://'' (trimmed_str p ''jwks_url''))"
proof (induction i ps rule: check_providers.induct)
  case (1 i)
  then show ?case by simp
next
  case (2 i q ps)
  then show ?case by (auto simp: Let_def starts_with_def split: if_splits)
qed

lemma has_errors_append [simp]: "has_errors (xs @ ys) \<longleftrightarrow> has_errors xs \<or> has_errors ys"
  by (auto simp: has_errors_def)

lemma has_errors_concat: "has_errors (concat xss) \<longleftrightarrow> (\<exists>xs \<in> set xss. has_errors xs)"
  by (auto simp: has_errors_def list_ex_iff)

lemma bundle_checked:
  assumes "require_issuer_and_audience_in_provider_bundle w = Inr ()"
    and "set_non_empty (out_env w) ''KRAB_JWT_PROVIDERS_JSON'' \<or> set_non_empty (out_env w) ''KRAB_JWT_PROVIDERS_JSON_FILE'' \<or>
      set_non_empty (out_env w) ''KRAB_JWT_PROVIDERS_JSON_VAULT_REF''"
  shows "\<exists>raw ps. read_env_or_file (out_env w) (out_fs w) ''KRAB_JWT_PROVIDERS_JSON'' = Inr (Some raw) \<and>
    out_json w raw = Some (JArray ps) \<and> check_providers 0 ps = Inr ()"
proof -
  have "read_env_or_file (out_env w) (out_fs w) ''KRAB_JWT_PROVIDERS_JSON'' \<noteq> Inr None"
    using assms(2) by (auto simp: read_env_or_file_def set_non_empty_iff split: option.splits)
  with assms(1) show ?thesis
    by (auto simp: require_issuer_and_audience_in_provider_bundle_def split: sum.splits option.splits json.splits)
qed

subsection \<open>Guarantees\<close>

definition KEY_SOURCES :: "string list" where
  "KEY_SOURCES = [''KRAB_OIDC_JWKS_URL'', ''KRAB_JWT_KEYS_JSON_FILE'', ''KRAB_JWT_SECRET_FILE'',
     ''KRAB_JWT_KEYS_JSON'', ''KRAB_JWT_SECRET'']"

text \<open>
  C10: what a service that starts outside \<open>dev\<close> has been checked for. CORS origins are listed; tokens
  are verified, not compared with a static secret; there is a key source together with an issuer
  and an audience, or a provider bundle in which every provider names both; the exception is a bundle
  that is an empty array, for which neither is required (what then happens is
  \<open>empty_bundle_accepts_any_issuer\<close> in \<open>JwtVerify\<close>). Key sets are fetched
  over TLS only; the algorithm list does not mix key families; and no secret comes from an
  unresolved vault reference, nor, outside staging, from an inline variable alone.
\<close>

theorem validated_service_is_locked_down:
  assumes "validate_all w cfg = Inr report" and "sc_environment cfg \<noteq> Dev"
  shows "hc_cors_origins (sc_http cfg) \<noteq> [] \<and>
         (eq_ignore_ascii_case (hc_auth_mode (sc_http cfg)) ''jwt'' \<or> eq_ignore_ascii_case (hc_auth_mode (sc_http cfg)) ''oidc'') \<and>
         env_non_empty (out_env w) ''KRAB_BEARER_TOKEN'' = None \<and>
         (env_non_empty (out_env w) ''KRAB_OIDC_ISSUER'' \<noteq> None \<and> env_non_empty (out_env w) ''KRAB_OIDC_AUDIENCE'' \<noteq> None \<and>
          (\<exists>v \<in> set KEY_SOURCES. env_non_empty (out_env w) v \<noteq> None) \<or>
          (\<exists>raw ps. read_env_or_file (out_env w) (out_fs w) ''KRAB_JWT_PROVIDERS_JSON'' = Inr (Some raw) \<and>
             out_json w raw = Some (JArray ps) \<and> ps \<noteq> [] \<and>
             (\<forall>p \<in> set ps. trimmed_str p ''issuer'' \<noteq> [] \<and> trimmed_str p ''audience'' \<noteq> [] \<and>
                (trimmed_str p ''jwks_url'' \<noteq> [] \<longrightarrow> prefix ''https://'' (trimmed_str p ''jwks_url'')))) \<or>
          (\<exists>raw. read_env_or_file (out_env w) (out_fs w) ''KRAB_JWT_PROVIDERS_JSON'' = Inr (Some raw) \<and>
             out_json w raw = Some (JArray []))) \<and>
         (\<forall>url. env_non_empty (out_env w) ''KRAB_OIDC_JWKS_URL'' = Some url \<longrightarrow> prefix ''https://'' url) \<and>
         (\<forall>raw. env_non_empty (out_env w) ''KRAB_JWT_ALLOWED_ALGS'' = Some raw \<longrightarrow>
            \<not> jwt_allowlist_mixes_hmac_and_asymmetric raw) \<and>
         (\<forall>var \<in> set SECRET_VARS. env_non_empty (out_env w) (var @ VAULT_REF) = None \<and>
            (sc_environment cfg \<noteq> Staging \<longrightarrow>
               env_non_empty (out_env w) var = None \<or> env_non_empty (out_env w) (var @ FILE) \<noteq> None))"
proof -
  have v: "validate w cfg = Inr ()" and e: "\<not> has_errors (validate_secrets_sources (out_env w) cfg)"
    using assms(1) by (auto simp: validate_all_def Let_def split: sum.splits if_splits)
  have secrets: "env_non_empty (out_env w) (var @ VAULT_REF) = None \<and>
      (sc_environment cfg \<noteq> Staging \<longrightarrow> env_non_empty (out_env w) var = None \<or> env_non_empty (out_env w) (var @ FILE) \<noteq> None)"
    if "var \<in> set SECRET_VARS" for var
  proof -
    have "\<not> has_errors (check_secret_source (out_env w) var (sc_environment cfg))"
      using e that by (auto simp: validate_secrets_sources_def has_errors_concat)
    with assms(2) show ?thesis by (auto simp: check_secret_source_errors)
  qed
  have cors: "hc_cors_origins (sc_http cfg) \<noteq> [] \<and>
      (eq_ignore_ascii_case (hc_auth_mode (sc_http cfg)) ''jwt'' \<or> eq_ignore_ascii_case (hc_auth_mode (sc_http cfg)) ''oidc'')"
    and j: "validate_jwt w = Inr ()"
    using v assms(2) by (auto simp: validate_def Let_def split: if_splits)
  have bearer: "env_non_empty (out_env w) ''KRAB_BEARER_TOKEN'' = None"
    and jwks: "env_non_empty (out_env w) ''KRAB_OIDC_JWKS_URL'' \<noteq> None \<Longrightarrow>
      prefix ''https://'' (trim (env_or (out_env w) ''KRAB_OIDC_JWKS_URL'' []))"
    and mixes: "env_non_empty (out_env w) ''KRAB_JWT_ALLOWED_ALGS'' = Some raw \<Longrightarrow>
      \<not> jwt_allowlist_mixes_hmac_and_asymmetric raw" for raw
    using j by (auto simp: validate_jwt_def Let_def set_non_empty_iff starts_with_def split: if_splits sum.splits option.splits)
  have provs: "env_non_empty (out_env w) ''KRAB_OIDC_ISSUER'' \<noteq> None \<and> env_non_empty (out_env w) ''KRAB_OIDC_AUDIENCE'' \<noteq> None \<and>
      (\<exists>v \<in> set KEY_SOURCES. env_non_empty (out_env w) v \<noteq> None) \<or>
      (\<exists>raw ps. read_env_or_file (out_env w) (out_fs w) ''KRAB_JWT_PROVIDERS_JSON'' = Inr (Some raw) \<and>
        out_json w raw = Some (JArray ps) \<and> check_providers 0 ps = Inr ())"
  proof (cases "set_non_empty (out_env w) ''KRAB_JWT_PROVIDERS_JSON'' \<or> set_non_empty (out_env w) ''KRAB_JWT_PROVIDERS_JSON_FILE'' \<or>
      set_non_empty (out_env w) ''KRAB_JWT_PROVIDERS_JSON_VAULT_REF''")
    case True
    then have "require_issuer_and_audience_in_provider_bundle w = Inr ()"
      using j by (auto simp: validate_jwt_def Let_def split: if_splits sum.splits)
    from bundle_checked [OF this True] show ?thesis ..
  next
    case False
    then show ?thesis
      using j by (auto simp: validate_jwt_def Let_def set_non_empty_iff KEY_SOURCES_def split: if_splits sum.splits)
  qed
  have url: "url = trim (env_or (out_env w) ''KRAB_OIDC_JWKS_URL'' [])"
    if "env_non_empty (out_env w) ''KRAB_OIDC_JWKS_URL'' = Some url" for url
    using that by (auto simp: env_non_empty_def env_or_def split: option.splits if_splits)
  have "\<forall>url. env_non_empty (out_env w) ''KRAB_OIDC_JWKS_URL'' = Some url \<longrightarrow> prefix ''https://'' url"
    using url jwks by auto
  moreover have "\<forall>p \<in> set ps. trimmed_str p ''issuer'' \<noteq> [] \<and> trimmed_str p ''audience'' \<noteq> [] \<and>
      (trimmed_str p ''jwks_url'' \<noteq> [] \<longrightarrow> prefix ''https://'' (trimmed_str p ''jwks_url''))"
    if "check_providers 0 ps = Inr ()" for ps
    using check_providers_ok [OF that] by blast
  moreover from provs have "env_non_empty (out_env w) ''KRAB_OIDC_ISSUER'' \<noteq> None \<and> env_non_empty (out_env w) ''KRAB_OIDC_AUDIENCE'' \<noteq> None \<and>
      (\<exists>v \<in> set KEY_SOURCES. env_non_empty (out_env w) v \<noteq> None) \<or>
      (\<exists>raw ps. read_env_or_file (out_env w) (out_fs w) ''KRAB_JWT_PROVIDERS_JSON'' = Inr (Some raw) \<and>
        out_json w raw = Some (JArray ps) \<and> ps \<noteq> [] \<and> check_providers 0 ps = Inr ()) \<or>
      (\<exists>raw. read_env_or_file (out_env w) (out_fs w) ''KRAB_JWT_PROVIDERS_JSON'' = Inr (Some raw) \<and> out_json w raw = Some (JArray []))"
    by blast
  ultimately show ?thesis using cors bearer mixes secrets by meson
qed

definition sample_env :: environment where
  "sample_env = map_of [(''KRAB_ENVIRONMENT'', ''prod''), (''KRAB_CORS_ORIGINS'', ''https://a''),
     (''KRAB_OIDC_JWKS_URL'', ''https://id/keys''), (''KRAB_OIDC_ISSUER'', ''https://id''),
     (''KRAB_OIDC_AUDIENCE'', ''api''), (''KRAB_JWT_ALLOWED_ALGS'', ''RS256'')]"

definition sample_outside :: outside where
  "sample_outside = \<lparr>out_env = sample_env, out_fs = \<lambda>_. None, out_json = \<lambda>_. None\<rparr>"

definition sample_config :: service_config where
  "sample_config = \<lparr>sc_environment = Prod, sc_service_name = ''s'', sc_host = ''h'', sc_port = 1, sc_log_filter = ''info'',
     sc_http = http_config_from_env sample_env\<rparr>"

lemma trim_plain:
  "list_all (\<lambda>c. \<not> is_ws c) s \<Longrightarrow> trim s = s"
  by (rule trim_id) (simp add: list_all_iff)

lemma sample_valid: "validate_all sample_outside sample_config = Inr []"
  by code_simp

lemma sample_no_bundle:
  "read_env_or_file (out_env sample_outside) (out_fs sample_outside) ''KRAB_JWT_PROVIDERS_JSON'' = Inr None"
  by code_simp

theorem validated_service_is_locked_down_witness:
  "hc_cors_origins (sc_http sample_config) \<noteq> [] \<and> env_non_empty sample_env ''KRAB_OIDC_ISSUER'' \<noteq> None \<and>
   env_non_empty sample_env ''KRAB_OIDC_AUDIENCE'' \<noteq> None \<and> env_non_empty sample_env ''KRAB_BEARER_TOKEN'' = None"
  using validated_service_is_locked_down [OF sample_valid] sample_no_bundle by (simp add: sample_config_def sample_outside_def)

text \<open>
  the rule against inline secrets can be sidestepped. When a secret is given inline and as a
  file, the policy of \<open>prod\<close> reports nothing, because a secure source is present, while the reader
  takes the inline value.
\<close>

theorem inline_secret_passes_beside_a_file:
  assumes "env_non_empty env var = Some v" and "env_non_empty env (var @ FILE) = Some path"
    and "env_non_empty env (var @ VAULT_REF) = None"
  shows "check_secret_source env var e = [] \<and> read_env_or_file env fs var = Inr (Some v)"
  using assms by (cases e) (simp_all add: check_secret_source_def read_env_or_file_def Let_def)

theorem inline_secret_passes_beside_a_file_witness:
  "read_env_or_file (\<lambda>n. if n = ''S'' then Some ''inline'' else if n = ''S_FILE'' then Some ''/f'' else None)
     (\<lambda>_. Some ''file'') ''S'' = Inr (Some ''inline'')"
  using inline_secret_passes_beside_a_file
    [of "\<lambda>n. if n = ''S'' then Some ''inline'' else if n = ''S_FILE'' then Some ''/f'' else None" "''S''"
        "''inline''" "''/f''" Prod "\<lambda>_. Some ''file''"]
  by (simp add: env_non_empty_def trim_plain is_ws_def)

text \<open>
  In staging an inline secret is a warning by the secrets policy, but an inline JWT secret stops
  the start.
\<close>

lemma staging_rejects_inline_jwt_secret:
  assumes "sc_environment cfg = Staging" and "hc_cors_origins (sc_http cfg) \<noteq> []"
    and "hc_auth_mode (sc_http cfg) = ''jwt''"
    and "out_env w = (\<lambda>n. if n = ''KRAB_JWT_SECRET'' then Some ''k'' else None)"
  shows "validate w cfg = Inl InlineJwtSecret \<and>
         \<not> has_errors (check_secret_source (out_env w) ''KRAB_JWT_SECRET'' Staging)"
  using assms
  by (simp add: validate_def validate_jwt_def Let_def eq_ignore_ascii_case_def ascii_lower_def set_non_empty_iff
      env_non_empty_def trim_plain is_ws_def has_errors_def check_secret_source_def inline_secret_def)

end
