(* ===== verification/JwksSource.thy ===== *)
theory JwksSource
  imports ServiceConfig "HOL-Library.List_Lexorder" "HOL-Library.Char_ord"
begin

text \<open>
  Remote key sets of identity providers, \<open>krab_core/src/jwks.rs\<close>, and the algorithm families of
  \<open>krab_core/src/http_auth.rs\<close>: the cached key set, when it is fetched, how an answer replaces it,
  and the retirement times of keys.

  An HTTP answer is a value (status, declared length, chunks, whether the transfer broke); \<open>None\<close>
  stands for a request that failed. The JSON and JWK parsers are the record \<open>jwk_lib\<close>; keys are a
  type variable. Fetches of several requests interleave: \<open>jwks_step\<close>.
\<close>

subsection \<open>Algorithms\<close>

datatype algorithm = HS256 | HS384 | HS512 | RS256 | RS384 | RS512 | ES256 | ES384 | PS256 | PS384 | PS512 | EdDSA

datatype jwt_family = Hmac | Rsa | Ec | Ed

definition family_of :: "algorithm \<Rightarrow> jwt_family" where
  "family_of a =
     (case a of
        HS256 \<Rightarrow> Hmac | HS384 \<Rightarrow> Hmac | HS512 \<Rightarrow> Hmac
      | RS256 \<Rightarrow> Rsa | RS384 \<Rightarrow> Rsa | RS512 \<Rightarrow> Rsa | PS256 \<Rightarrow> Rsa | PS384 \<Rightarrow> Rsa | PS512 \<Rightarrow> Rsa
      | ES256 \<Rightarrow> Ec | ES384 \<Rightarrow> Ec
      | EdDSA \<Rightarrow> Ed)"

definition all_families :: "jwt_family list" where
  "all_families = [Hmac, Rsa, Ec, Ed]"

definition representative :: "jwt_family \<Rightarrow> algorithm" where
  "representative f = (case f of Hmac \<Rightarrow> HS256 | Rsa \<Rightarrow> RS256 | Ec \<Rightarrow> ES256 | Ed \<Rightarrow> EdDSA)"

subsection \<open>Settings\<close>

definition DEFAULT_REFRESH_SECS :: u64 where "DEFAULT_REFRESH_SECS = 300"
definition MIN_REFRESH_SECS :: u64 where "MIN_REFRESH_SECS = 30"
definition DEFAULT_MIN_REFETCH_SECS :: u64 where "DEFAULT_MIN_REFETCH_SECS = 30"
definition MIN_REFETCH_FLOOR_SECS :: u64 where "MIN_REFETCH_FLOOR_SECS = 1"
definition DEFAULT_TIMEOUT_MS :: u64 where "DEFAULT_TIMEOUT_MS = 3000"
definition MAX_JWKS_BYTES :: nat where "MAX_JWKS_BYTES = 1024 * 1024"

record jwks_settings =
  js_refresh_every :: duration
  js_min_refetch :: duration
  js_timeout :: duration

definition secs_setting :: "environment \<Rightarrow> string \<Rightarrow> u64 \<Rightarrow> u64" where
  "secs_setting env name fallback =
     (case Option.bind (env name) (\<lambda>v. parse_u64 (trim v)) of Some n \<Rightarrow> n | None \<Rightarrow> fallback)"

definition jwks_settings_from_env :: "environment \<Rightarrow> jwks_settings" where
  "jwks_settings_from_env env =
     \<lparr>js_refresh_every = from_secs (unat (max (secs_setting env ''KRAB_OIDC_JWKS_REFRESH_SECS'' DEFAULT_REFRESH_SECS) MIN_REFRESH_SECS)),
      js_min_refetch = from_secs (unat (max (secs_setting env ''KRAB_OIDC_JWKS_MIN_REFETCH_SECS'' DEFAULT_MIN_REFETCH_SECS)
                                         MIN_REFETCH_FLOOR_SECS)),
      js_timeout = from_millis (unat (max (secs_setting env ''KRAB_OIDC_JWKS_TIMEOUT_MS'' DEFAULT_TIMEOUT_MS) 100))\<rparr>"

definition url_allowed :: "string \<Rightarrow> deploy_env \<Rightarrow> bool" where
  "url_allowed url e = (let u = trim url in starts_with u ''https://'' \<or> e = Dev \<and> starts_with u ''http://'')"

subsection \<open>The cached key set\<close>

record 'k jwks_keys =
  jk_keys :: "(jwt_family \<times> 'k) list hashmap"
  jk_loaded :: bool

record 'k jwks_source =
  jw_url :: string
  jw_settings :: jwks_settings
  jw_keys :: "'k jwks_keys"
  jw_last_attempt :: "instant option"
  jw_last_success :: "instant option"

definition jwks_new :: "string \<Rightarrow> jwks_settings \<Rightarrow> 'k jwks_source" where
  "jwks_new url settings =
     \<lparr>jw_url = url, jw_settings = settings, jw_keys = \<lparr>jk_keys = [], jk_loaded = False\<rparr>,
      jw_last_attempt = None, jw_last_success = None\<rparr>"

definition jwks_loaded :: "'k jwks_source \<Rightarrow> bool" where
  "jwks_loaded src = jk_loaded (jw_keys src)"

definition has_kid :: "'k jwks_source \<Rightarrow> string \<Rightarrow> bool" where
  "has_kid src kid = hm_contains (jk_keys (jw_keys src)) kid"

definition jwks_kids :: "'k jwks_source \<Rightarrow> string list" where
  "jwks_kids src = sort (hm_keys (jk_keys (jw_keys src)))"

definition jwks_key :: "'k jwks_source \<Rightarrow> string \<Rightarrow> jwt_family \<Rightarrow> 'k option" where
  "jwks_key src kid family =
     Option.bind (hm_get (jk_keys (jw_keys src)) kid)
       (\<lambda>ks. map_option snd (find (\<lambda>(f, k). f = family) ks))"

definition may_refetch :: "'k jwks_source \<Rightarrow> instant \<Rightarrow> bool" where
  "may_refetch src now =
     (case jw_last_attempt src of
        None \<Rightarrow> True
      | Some t \<Rightarrow> js_min_refetch (jw_settings src) \<le> saturating_duration_since now t)"

definition fetch_needed :: "'k jwks_source \<Rightarrow> instant \<Rightarrow> string option \<Rightarrow> bool" where
  "fetch_needed src now kid =
     ((\<not> jwks_loaded src \<or> (case kid of Some k \<Rightarrow> \<not> has_kid src k | None \<Rightarrow> False)) \<and> may_refetch src now)"

definition periodic_refresh_due :: "'k jwks_source \<Rightarrow> instant \<Rightarrow> bool" where
  "periodic_refresh_due src now =
     ((case jw_last_success src of
         Some t \<Rightarrow> js_refresh_every (jw_settings src) \<le> saturating_duration_since now t
       | None \<Rightarrow> False) \<and> may_refetch src now)"

definition refresh_needed :: "'k jwks_source \<Rightarrow> instant \<Rightarrow> string option \<Rightarrow> bool \<Rightarrow> bool" where
  "refresh_needed src now kid periodic = (fetch_needed src now kid \<or> periodic \<and> periodic_refresh_due src now)"

subsection \<open>Fetching\<close>

datatype key_params = RsaParams | EcParams | OkpParams | OctParams

record jwk =
  jwk_params :: key_params
  jwk_key_id :: "string option"
  jwk_raw :: json

record 'k jwk_lib =
  lib_key_set :: "string \<Rightarrow> json list option"
  lib_jwk :: "json \<Rightarrow> jwk option"
  lib_key :: "jwk \<Rightarrow> 'k option"

record jwks_answer =
  an_status :: nat
  an_length :: "nat option"
  an_chunks :: "string list"
  an_broken :: bool

datatype fetch_error = SendFailed | BadStatus nat | TooLarge | TransferBroken | NotAKeySet | NoUsableKeys

fun read_chunks :: "string \<Rightarrow> string list \<Rightarrow> bool \<Rightarrow> fetch_error + string" where
  "read_chunks body [] broken = (if broken then Inl TransferBroken else Inr body)"
| "read_chunks body (c # cs) broken =
     (if length body + length c \<le> MAX_JWKS_BYTES then read_chunks (body @ c) cs broken else Inl TooLarge)"

definition parse_key :: "'k jwk_lib \<Rightarrow> json \<Rightarrow> jwk option" where
  "parse_key lib raw = (if json_str raw ''use'' = Some ''enc'' then None else lib_jwk lib raw)"

definition key_family :: "key_params \<Rightarrow> jwt_family option" where
  "key_family params = (case params of RsaParams \<Rightarrow> Some Rsa | EcParams \<Rightarrow> Some Ec | OkpParams \<Rightarrow> Some Ed | OctParams \<Rightarrow> None)"

definition usable_key :: "'k jwk_lib \<Rightarrow> nat \<Rightarrow> json \<Rightarrow> (string \<times> jwt_family \<times> 'k) option" where
  "usable_key lib i raw =
     (case parse_key lib raw of
        None \<Rightarrow> None
      | Some j \<Rightarrow>
          (case key_family (jwk_params j) of
             None \<Rightarrow> None
           | Some family \<Rightarrow>
               (case lib_key lib j of
                  None \<Rightarrow> None
                | Some key \<Rightarrow> Some (case jwk_key_id j of Some k \<Rightarrow> k | None \<Rightarrow> ''#'' @ show_nat i, family, key))))"

definition push_key :: "string \<Rightarrow> jwt_family \<times> 'k \<Rightarrow> (jwt_family \<times> 'k) list hashmap \<Rightarrow> (jwt_family \<times> 'k) list hashmap" where
  "push_key kid fk keys = hm_insert kid ((case hm_get keys kid of Some ks \<Rightarrow> ks | None \<Rightarrow> []) @ [fk]) keys"

fun collect_keys :: "'k jwk_lib \<Rightarrow> nat \<Rightarrow> json list \<Rightarrow> (jwt_family \<times> 'k) list hashmap \<Rightarrow> (jwt_family \<times> 'k) list hashmap" where
  "collect_keys lib i [] keys = keys"
| "collect_keys lib i (raw # raws) keys =
     collect_keys lib (i + 1) raws
       (case usable_key lib i raw of None \<Rightarrow> keys | Some (kid, family, key) \<Rightarrow> push_key kid (family, key) keys)"

definition fetch_and_replace ::
  "'k jwk_lib \<Rightarrow> 'k jwks_source \<Rightarrow> instant \<Rightarrow> jwks_answer option \<Rightarrow> (fetch_error + nat) \<times> 'k jwks_source" where
  "fetch_and_replace lib src now answer =
     (case answer of
        None \<Rightarrow> (Inl SendFailed, src)
      | Some a \<Rightarrow>
          if \<not> (200 \<le> an_status a \<and> an_status a < 300) then (Inl (BadStatus (an_status a)), src)
          else if (case an_length a of Some n \<Rightarrow> MAX_JWKS_BYTES < n | None \<Rightarrow> False) then (Inl TooLarge, src)
          else case read_chunks [] (an_chunks a) (an_broken a) of
                 Inl e \<Rightarrow> (Inl e, src)
               | Inr body \<Rightarrow>
                   (case lib_key_set lib body of
                      None \<Rightarrow> (Inl NotAKeySet, src)
                    | Some raws \<Rightarrow>
                        let keys = collect_keys lib 0 raws []
                        in if keys = [] then (Inl NoUsableKeys, src)
                           else (Inr (length keys),
                                 src\<lparr>jw_keys := \<lparr>jk_keys = keys, jk_loaded = True\<rparr>, jw_last_success := Some now\<rparr>)))"

definition stamp_attempt :: "'k jwks_source \<Rightarrow> instant \<Rightarrow> 'k jwks_source" where
  "stamp_attempt src now = src\<lparr>jw_last_attempt := Some now\<rparr>"

definition fetch_locked ::
  "'k jwk_lib \<Rightarrow> 'k jwks_source \<Rightarrow> instant \<Rightarrow> instant \<Rightarrow> jwks_answer option \<Rightarrow> (fetch_error + nat) \<times> 'k jwks_source" where
  "fetch_locked lib src start end answer =
     (let (r, src') = fetch_and_replace lib (stamp_attempt src start) end answer
      in (r, stamp_attempt src' end))"

text \<open>A request that meets no other: the key set is fetched if it is needed.\<close>

definition refresh_if_needed ::
  "'k jwk_lib \<Rightarrow> 'k jwks_source \<Rightarrow> string option \<Rightarrow> bool \<Rightarrow> instant \<Rightarrow> instant \<Rightarrow> jwks_answer option \<Rightarrow>
     (fetch_error + nat) option \<times> 'k jwks_source" where
  "refresh_if_needed lib src kid periodic start end answer =
     (if \<not> refresh_needed src start kid periodic then (None, src)
      else let (r, src') = fetch_locked lib src start end answer in (Some r, src'))"

subsection \<open>Fetches of concurrent requests\<close>

text \<open>
  Requests are numbered. One that needs a fetch waits for \<open>fetch_lock\<close>; with the lock it looks
  again. The scheduled refresh takes the lock without asking. \<open>sys_demand\<close> logs the start times of
  the fetches made on demand, newest first. The clock never goes back.
\<close>

record 'k jwks_system =
  sys_source :: "'k jwks_source"
  sys_now :: instant
  sys_waiting :: "(nat \<times> string option \<times> bool) list"
  sys_fetching :: "nat option"
  sys_demand :: "instant list"

inductive jwks_step :: "'k jwk_lib \<Rightarrow> 'k jwks_system \<Rightarrow> 'k jwks_system \<Rightarrow> bool" for lib where
  tick: "sys_now s \<le> now \<Longrightarrow> jwks_step lib s (s\<lparr>sys_now := now\<rparr>)"
| queue: "refresh_needed (sys_source s) (sys_now s) kid periodic \<Longrightarrow> rid \<notin> fst ` set (sys_waiting s) \<Longrightarrow>
     jwks_step lib s (s\<lparr>sys_waiting := (rid, kid, periodic) # sys_waiting s\<rparr>)"
| leave: "(rid, kid, periodic) \<in> set (sys_waiting s) \<Longrightarrow> sys_fetching s = None \<Longrightarrow>
     \<not> refresh_needed (sys_source s) (sys_now s) kid periodic \<Longrightarrow>
     jwks_step lib s (s\<lparr>sys_waiting := filter (\<lambda>w. fst w \<noteq> rid) (sys_waiting s)\<rparr>)"
| fetch: "(rid, kid, periodic) \<in> set (sys_waiting s) \<Longrightarrow> sys_fetching s = None \<Longrightarrow>
     refresh_needed (sys_source s) (sys_now s) kid periodic \<Longrightarrow>
     jwks_step lib s
       (s\<lparr>sys_waiting := filter (\<lambda>w. fst w \<noteq> rid) (sys_waiting s), sys_fetching := Some rid,
          sys_source := stamp_attempt (sys_source s) (sys_now s), sys_demand := sys_now s # sys_demand s\<rparr>)"
| scheduled: "sys_fetching s = None \<Longrightarrow>
     jwks_step lib s (s\<lparr>sys_fetching := Some rid, sys_source := stamp_attempt (sys_source s) (sys_now s)\<rparr>)"
| answered: "sys_fetching s = Some rid \<Longrightarrow>
     fetch_and_replace lib (sys_source s) (sys_now s) answer = (r, src) \<Longrightarrow>
     jwks_step lib s (s\<lparr>sys_fetching := None, sys_source := stamp_attempt src (sys_now s)\<rparr>)"

inductive jwks_reach :: "'k jwk_lib \<Rightarrow> string \<Rightarrow> jwks_settings \<Rightarrow> 'k jwks_system \<Rightarrow> bool" for lib url settings where
  start: "jwks_reach lib url settings
     \<lparr>sys_source = jwks_new url settings, sys_now = now, sys_waiting = [], sys_fetching = None, sys_demand = []\<rparr>"
| step: "jwks_reach lib url settings s \<Longrightarrow> jwks_step lib s s' \<Longrightarrow> jwks_reach lib url settings s'"

lemma fetch_and_replace_unchanged [simp]:
  assumes "fetch_and_replace lib src now answer = (r, src')"
  shows "jw_last_attempt src' = jw_last_attempt src \<and> jw_settings src' = jw_settings src \<and>
         (jwks_loaded src \<longrightarrow> jwks_loaded src')"
  using assms
  by (auto simp: fetch_and_replace_def Let_def jwks_loaded_def split: option.splits if_splits sum.splits)

text \<open>
  Every fetch on demand starts at least \<open>g\<close> after the one before it, and the last one is covered by
  the stamp.
\<close>

definition spaced :: "duration \<Rightarrow> 'k jwks_system \<Rightarrow> bool" where
  "spaced g s \<longleftrightarrow>
     js_min_refetch (jw_settings (sys_source s)) = g \<and> sorted_wrt (\<lambda>x y. y + g \<le> x) (sys_demand s) \<and>
     (case jw_last_attempt (sys_source s) of
        None \<Rightarrow> sys_demand s = []
      | Some t \<Rightarrow> t \<le> sys_now s \<and> (\<forall>x \<in> set (sys_demand s). x \<le> t))"

lemma refresh_needed_may: "refresh_needed src now kid periodic \<Longrightarrow> may_refetch src now"
  by (auto simp: refresh_needed_def fetch_needed_def periodic_refresh_due_def)

lemma spaced_step: "jwks_step lib s s' \<Longrightarrow> spaced g s \<Longrightarrow> 0 < g \<Longrightarrow> spaced g s'"
proof (induction rule: jwks_step.cases)
  case (fetch rid kid periodic s)
  then have m: "may_refetch (sys_source s) (sys_now s)" by (auto dest: refresh_needed_may)
  have "\<forall>x \<in> set (sys_demand s). x + g \<le> sys_now s"
  proof (cases "jw_last_attempt (sys_source s)")
    case None
    with fetch show ?thesis by (simp add: spaced_def)
  next
    case (Some t)
    with m fetch have "g \<le> sys_now s - t" and "\<forall>x \<in> set (sys_demand s). x \<le> t"
      by (auto simp: spaced_def may_refetch_def saturating_duration_since_def)
    with fetch show ?thesis by auto
  qed
  with fetch show ?case by (auto simp: spaced_def stamp_attempt_def)
qed (auto simp: spaced_def stamp_attempt_def split: option.splits)

lemma spaced_reach:
  assumes "jwks_reach lib url settings s" and "0 < js_min_refetch settings"
  shows "spaced (js_min_refetch settings) s"
  using assms
proof (induction rule: jwks_reach.induct)
  case (start now)
  then show ?case by (simp add: spaced_def jwks_new_def)
next
  case (step s s')
  then show ?case by (blast intro: spaced_step)
qed

lemma spaced_count:
  fixes a g :: nat
  assumes "sorted_wrt (\<lambda>x y. y + g \<le> x) ts" and "\<forall>t \<in> set ts. a \<le> t \<and> t < a + d" and "0 < g"
  shows "length ts \<le> d div g + 1"
proof -
  have "ts \<noteq> [] \<longrightarrow> a + (length ts - 1) * g \<le> hd ts"
    using assms(1,2)
  proof (induction ts)
    case Nil
    then show ?case by simp
  next
    case (Cons t ts)
    show ?case
    proof (cases ts)
      case Nil
      with Cons show ?thesis by simp
    next
      case (Cons u us)
      have "a + (length ts - 1) * g \<le> hd ts" using Cons.IH Cons.prems Cons by simp
      moreover have "hd ts + g \<le> t" using Cons.prems(1) Cons by simp
      moreover have "length ts = Suc (length ts - 1)" using Cons by simp
      then have "length ts * g = (length ts - 1) * g + g" by (metis add.commute mult_Suc)
      ultimately show ?thesis by simp
    qed
  qed
  moreover have "ts \<noteq> [] \<longrightarrow> hd ts < a + d" using assms(2) by auto
  ultimately have "ts \<noteq> [] \<longrightarrow> (length ts - 1) * g \<le> d" by auto
  then have "ts \<noteq> [] \<longrightarrow> length ts - 1 \<le> d div g" using assms(3) by (simp add: less_eq_div_iff_mult_less_eq)
  then show ?thesis by (cases ts) auto
qed

lemma sorted_wrt_filter_keep: "sorted_wrt P xs \<Longrightarrow> sorted_wrt P (filter Q xs)"
  by (induction xs) auto

lemma refetch_floor: "from_secs 1 \<le> js_min_refetch (jwks_settings_from_env env)"
proof -
  have "1 \<le> unat (max x MIN_REFETCH_FLOOR_SECS)" for x :: u64
    by (simp add: MIN_REFETCH_FLOOR_SECS_def max_def word_le_nat_alt)
  then show ?thesis by (simp add: jwks_settings_from_env_def from_secs_def)
qed

subsection \<open>Guarantees\<close>

text \<open>
  tokens with made-up key ids cannot turn the service into a request amplifier. However the
  requests interleave, and whatever they ask for, the fetches made on demand in any stretch of time
  \<open>d\<close> are at most one for each refetch gap and one more; the gap is at least a second in every
  environment. Requests queued behind a fetch do not fetch again.
\<close>

theorem on_demand_fetches_are_rate_limited:
  assumes "jwks_reach lib url (jwks_settings_from_env env) s"
  shows "from_secs 1 \<le> js_min_refetch (jwks_settings_from_env env) \<and>
         length (filter (\<lambda>t. a \<le> t \<and> t < a + d) (sys_demand s)) \<le>
           d div js_min_refetch (jwks_settings_from_env env) + 1"
proof -
  have g: "0 < js_min_refetch (jwks_settings_from_env env)"
    using refetch_floor [of env] by (simp add: from_secs_def)
  have "sorted_wrt (\<lambda>x y. y + js_min_refetch (jwks_settings_from_env env) \<le> x) (sys_demand s)"
    using spaced_reach [OF assms g] by (simp add: spaced_def)
  then have "length (filter (\<lambda>t. a \<le> t \<and> t < a + d) (sys_demand s)) \<le>
      d div js_min_refetch (jwks_settings_from_env env) + 1"
    using g by (intro spaced_count) (auto intro: sorted_wrt_filter_keep)
  with refetch_floor show ?thesis by blast
qed

theorem on_demand_fetches_are_rate_limited_witness:
  "length (filter (\<lambda>t. 5 \<le> t \<and> t < 5 + 7) ([] :: instant list)) \<le>
     7 div js_min_refetch (jwks_settings_from_env (\<lambda>_. None)) + 1"
  using on_demand_fetches_are_rate_limited
    [OF jwks_reach.start [where lib = "\<lparr>lib_key_set = \<lambda>_. None, lib_jwk = \<lambda>_. None, lib_key = \<lambda>_. None :: nat option\<rparr>"
        and url = "''u''" and settings = "jwks_settings_from_env (\<lambda>_. None)" and now = 0], of 5 7]
  by simp

definition asymmetric :: "(jwt_family \<times> 'k) list hashmap \<Rightarrow> bool" where
  "asymmetric keys = list_all (\<lambda>(kid, ks). list_all (\<lambda>(f, k). f \<noteq> Hmac) ks) keys"

lemma asymmetric_get: "asymmetric keys \<Longrightarrow> hm_get keys kid = Some ks \<Longrightarrow> list_all (\<lambda>(f, k). f \<noteq> Hmac) ks"
  using map_of_SomeD [of keys kid ks] by (auto simp: asymmetric_def list_all_iff)

lemma asymmetric_insert:
  "asymmetric keys \<Longrightarrow> list_all (\<lambda>(f, k). f \<noteq> Hmac) ks \<Longrightarrow> asymmetric (hm_insert kid ks keys)"
  by (induction keys) (auto simp: asymmetric_def)

lemma push_key_asymmetric: "asymmetric keys \<Longrightarrow> f \<noteq> Hmac \<Longrightarrow> asymmetric (push_key kid (f, k) keys)"
  unfolding push_key_def
  by (rule asymmetric_insert) (auto split: option.splits dest: asymmetric_get)

lemma usable_key_family: "usable_key lib i raw = Some (kid, f, k) \<Longrightarrow> f \<noteq> Hmac"
  by (auto simp: usable_key_def key_family_def split: option.splits key_params.splits)

lemma collect_keys_asymmetric: "asymmetric keys \<Longrightarrow> asymmetric (collect_keys lib i raws keys)"
proof (induction lib i raws keys rule: collect_keys.induct)
  case (1 lib i keys)
  then show ?case by simp
next
  case (2 lib i raw raws keys)
  have "asymmetric (case usable_key lib i raw of None \<Rightarrow> keys | Some (kid, f, k) \<Rightarrow> push_key kid (f, k) keys)"
    using "2.prems" by (auto split: option.splits intro!: push_key_asymmetric dest: usable_key_family)
  from "2.IH" [OF this] show ?case by simp
qed

lemma jwks_key_asymmetric: "asymmetric (jk_keys (jw_keys src)) \<Longrightarrow> jwks_key src kid Hmac = None"
proof -
  assume a: "asymmetric (jk_keys (jw_keys src))"
  have "find (\<lambda>(f, k). f = Hmac) ks = None" if "hm_get (jk_keys (jw_keys src)) kid = Some ks" for ks
    using asymmetric_get [OF a that] by (auto simp: find_None_iff list_all_iff)
  then show ?thesis by (auto simp: jwks_key_def split: bind_splits)
qed

text \<open>
  C9: a failed fetch keeps serving the last good key set; a successful one replaces it by the keys
  of the answer, at least one, and never makes a symmetric key available, whatever the identity
  provider publishes; a loaded set stays loaded.
\<close>

theorem published_keys_survive_failures_and_are_asymmetric:
  assumes "fetch_locked lib src start end answer = (r, src')"
  shows "case r of
           Inl e \<Rightarrow> jw_keys src' = jw_keys src \<and> jw_last_success src' = jw_last_success src
         | Inr n \<Rightarrow> jwks_loaded src' \<and> 0 < n \<and> length (jwks_kids src') = n \<and> (\<forall>kid. jwks_key src' kid Hmac = None)"
proof -
  obtain src1 where f: "fetch_and_replace lib (stamp_attempt src start) end answer = (r, src1)"
    and src': "src' = stamp_attempt src1 end"
    using assms by (auto simp: fetch_locked_def Let_def split: prod.splits)
  have same [simp]: "jw_keys (stamp_attempt x t) = jw_keys x" "jw_last_success (stamp_attempt x t) = jw_last_success x"
    for x :: "'a jwks_source" and t by (simp_all add: stamp_attempt_def)
  show ?thesis
  proof (cases r)
    case (Inl e)
    with f src' show ?thesis
      by (auto simp: fetch_and_replace_def Let_def split: option.splits if_splits sum.splits)
  next
    case (Inr n)
    with f obtain raws where k: "jw_keys src1 = \<lparr>jk_keys = collect_keys lib 0 raws [], jk_loaded = True\<rparr>"
      and n: "collect_keys lib 0 raws [] \<noteq> []" "n = length (collect_keys lib 0 raws [])"
      by (auto simp: fetch_and_replace_def Let_def split: option.splits if_splits sum.splits)
    have "asymmetric (collect_keys lib 0 raws [])"
      by (rule collect_keys_asymmetric) (simp add: asymmetric_def)
    then have "jwks_key src' kid Hmac = None" for kid
      using k src' by (intro jwks_key_asymmetric) simp
    with Inr k n src' show ?thesis by (auto simp: jwks_loaded_def jwks_kids_def)
  qed
qed

definition sample_lib :: "nat jwk_lib" where
  "sample_lib = \<lparr>lib_key_set = \<lambda>body. Some [JNull],
     lib_jwk = \<lambda>j. Some \<lparr>jwk_params = OctParams, jwk_key_id = None, jwk_raw = j\<rparr>, lib_key = \<lambda>j. Some 0\<rparr>"

theorem published_keys_survive_failures_and_are_asymmetric_witness:
  "jw_keys (snd (fetch_locked sample_lib (jwks_new ''u'' (jwks_settings_from_env (\<lambda>_. None))) 1 2
     (Some \<lparr>an_status = 200, an_length = None, an_chunks = [''x''], an_broken = False\<rparr>))) =
   \<lparr>jk_keys = [], jk_loaded = False\<rparr>"
proof -
  let ?src = "jwks_new ''u'' (jwks_settings_from_env (\<lambda>_. None)) :: nat jwks_source"
    and ?answer = "Some \<lparr>an_status = 200, an_length = None, an_chunks = [''x''], an_broken = False\<rparr>"
  have "fetch_locked sample_lib ?src 1 2 ?answer = (Inl NoUsableKeys, stamp_attempt (stamp_attempt ?src 1) 2)"
    by (simp add: fetch_locked_def fetch_and_replace_def MAX_JWKS_BYTES_def sample_lib_def usable_key_def parse_key_def
        json_str_def key_family_def Let_def)
  from published_keys_survive_failures_and_are_asymmetric [OF this] this show ?thesis by (simp add: jwks_new_def)
qed

end
