(* ===== verification/JwtPolicy.thy ===== *)
theory JwtPolicy
  imports HttpGuards JwksSource
begin

text \<open>
  Claims, providers and the authorisation policy of \<open>krab_core/src/http_auth.rs\<close>: the algorithm
  allowlist, the keys and providers read from the environment, what a token grants, and
  \<open>AuthPolicy::enforce\<close>.

  HTTP statuses are numbers. Deserialisation by serde is the record \<open>auth_parsers\<close>. A JSON object
  is an association list; the claims as an object are the extra claims over the named fields.
\<close>

subsection \<open>Data\<close>

record auth_context =
  ac_subject :: "string option"
  ac_issuer :: "string option"
  ac_provider :: "string option"
  ac_token_id :: "string option"
  ac_token_use :: "string option"
  ac_tenant_id :: "string option"
  ac_scopes :: "string list"
  ac_roles :: "string list"

record jwt_claims =
  cl_sub :: "string option"
  cl_iss :: "string option"
  cl_aud :: "json option"
  cl_exp :: "int option"
  cl_jti :: "string option"
  cl_token_use :: "string option"
  cl_tid :: "string option"
  cl_tenant_id :: "string option"
  cl_scope :: "string option"
  cl_scp :: "json option"
  cl_roles :: "string list option"
  cl_role :: "string option"
  cl_extra :: "json hashmap"

record jwt_provider =
  pv_name :: "string option"
  pv_issuer :: "string option"
  pv_audience :: "string option"
  pv_keys :: "string hashmap"
  pv_required_claims :: "json hashmap"
  pv_jwks_url :: "string option"
  pv_key_not_after :: "string hashmap"

record route_policy =
  rp_prefix :: string
  rp_all_scopes :: "string list"
  rp_any_scopes :: "string list"
  rp_all_roles :: "string list"
  rp_any_roles :: "string list"
  rp_allow_subjects :: "string list"
  rp_require_tenant_match :: bool

record auth_parsers =
  ps_string_map :: "string \<Rightarrow> string hashmap option"
  ps_value_map :: "string \<Rightarrow> json hashmap option"
  ps_providers :: "string \<Rightarrow> jwt_provider list option"
  ps_policies :: "string \<Rightarrow> route_policy list option"
  ps_show_json :: "json \<Rightarrow> string"

subsection \<open>Algorithms\<close>

definition algorithm_names :: "(string \<times> algorithm) list" where
  "algorithm_names =
     [(''HS256'', HS256), (''HS384'', HS384), (''HS512'', HS512), (''RS256'', RS256), (''RS384'', RS384),
      (''RS512'', RS512), (''ES256'', ES256), (''ES384'', ES384), (''PS256'', PS256), (''PS384'', PS384),
      (''PS512'', PS512), (''EDDSA'', EdDSA)]"

definition parse_jwt_algorithm :: "string \<Rightarrow> algorithm option" where
  "parse_jwt_algorithm alg = map_of algorithm_names (ascii_upper (trim alg))"

definition is_hmac_algorithm :: "algorithm \<Rightarrow> bool" where
  "is_hmac_algorithm alg = (alg \<in> {HS256, HS384, HS512})"

fun collect_algorithms :: "string list \<Rightarrow> algorithm list \<Rightarrow> algorithm list" where
  "collect_algorithms [] acc = acc"
| "collect_algorithms (alg # algs) acc =
     (case parse_jwt_algorithm alg of
        None \<Rightarrow> collect_algorithms algs acc
      | Some a \<Rightarrow> collect_algorithms algs (if a \<in> set acc then acc else acc @ [a]))"

definition configured_jwt_algorithms :: "environment \<Rightarrow> nat + algorithm list" where
  "configured_jwt_algorithms env =
     (case env ''KRAB_JWT_ALLOWED_ALGS'' of
        None \<Rightarrow> Inr [HS256]
      | Some raw \<Rightarrow>
          let algorithms = collect_algorithms (parse_csv_set raw) []
          in if algorithms = [] then Inl 503
             else if list_ex is_hmac_algorithm algorithms \<and> list_ex (\<lambda>a. \<not> is_hmac_algorithm a) algorithms then Inl 503
             else Inr algorithms)"

definition jwt_algorithm_allowed :: "environment \<Rightarrow> string \<Rightarrow> bool" where
  "jwt_algorithm_allowed env alg =
     (case parse_jwt_algorithm alg of
        None \<Rightarrow> False
      | Some candidate \<Rightarrow>
          (case configured_jwt_algorithms env of Inr allowed \<Rightarrow> candidate \<in> set allowed | Inl _ \<Rightarrow> False))"

text \<open>The \<open>Debug\<close> form of an algorithm.\<close>

definition debug_algorithm :: "algorithm \<Rightarrow> string" where
  "debug_algorithm a =
     (case a of
        HS256 \<Rightarrow> ''HS256'' | HS384 \<Rightarrow> ''HS384'' | HS512 \<Rightarrow> ''HS512'' | RS256 \<Rightarrow> ''RS256'' | RS384 \<Rightarrow> ''RS384''
      | RS512 \<Rightarrow> ''RS512'' | ES256 \<Rightarrow> ''ES256'' | ES384 \<Rightarrow> ''ES384'' | PS256 \<Rightarrow> ''PS256'' | PS384 \<Rightarrow> ''PS384''
      | PS512 \<Rightarrow> ''PS512'' | EdDSA \<Rightarrow> ''EdDSA'')"

definition jwt_leeway_secs :: "environment \<Rightarrow> u64" where
  "jwt_leeway_secs env = env_u64 env ''KRAB_JWT_LEEWAY_SECS'' 30"

definition require_kid :: "environment \<Rightarrow> bool" where
  "require_kid env = bool_env env ''KRAB_JWT_REQUIRE_KID'' False"

subsection \<open>Keys and providers from the environment\<close>

datatype load_error = ReadFailed read_error | BadJson

definition read_secret :: "outside \<Rightarrow> string \<Rightarrow> load_error + string option" where
  "read_secret w name = map_sum ReadFailed id (read_env_or_file (out_env w) (out_fs w) name)"

definition secret_keys :: "outside \<Rightarrow> load_error + string hashmap" where
  "secret_keys w =
     (case read_secret w ''KRAB_JWT_SECRET'' of
        Inl e \<Rightarrow> Inl e
      | Inr None \<Rightarrow> Inr []
      | Inr (Some secret) \<Rightarrow> Inr [(''default'', secret)])"

definition load_rotation_keys :: "auth_parsers \<Rightarrow> outside \<Rightarrow> load_error + string hashmap" where
  "load_rotation_keys ps w =
     (case read_secret w ''KRAB_JWT_KEYS_JSON'' of
        Inl e \<Rightarrow> Inl e
      | Inr (Some json) \<Rightarrow>
          (case ps_string_map ps json of
             None \<Rightarrow> Inl BadJson
           | Some parsed \<Rightarrow> if parsed \<noteq> [] then Inr parsed else secret_keys w)
      | Inr None \<Rightarrow> secret_keys w)"

definition usable_provider :: "jwt_provider \<Rightarrow> bool" where
  "usable_provider p =
     (pv_keys p \<noteq> [] \<or> (case pv_jwks_url p of Some u \<Rightarrow> trim u \<noteq> [] | None \<Rightarrow> False))"

definition load_key_not_after :: "auth_parsers \<Rightarrow> environment \<Rightarrow> load_error + string hashmap" where
  "load_key_not_after ps env =
     (case env ''KRAB_JWT_KEY_NOT_AFTER_JSON'' of
        Some raw \<Rightarrow>
          if trim raw = [] then Inr []
          else (case ps_value_map ps raw of
                  None \<Rightarrow> Inl BadJson
                | Some parsed \<Rightarrow>
                    Inr (map (\<lambda>(kid, v). (kid, case v of JString s \<Rightarrow> s | other \<Rightarrow> ps_show_json ps other)) parsed))
      | None \<Rightarrow> Inr [])"

definition default_keys :: "auth_parsers \<Rightarrow> outside \<Rightarrow> string option \<Rightarrow> load_error + string hashmap" where
  "default_keys ps w jwks_url =
     (if jwks_url = None then load_rotation_keys ps w
      else case read_secret w ''KRAB_JWT_KEYS_JSON'' of
             Inl e \<Rightarrow> Inl e
           | Inr (Some _) \<Rightarrow> load_rotation_keys ps w
           | Inr None \<Rightarrow>
               (case read_secret w ''KRAB_JWT_SECRET'' of
                  Inl e \<Rightarrow> Inl e
                | Inr (Some _) \<Rightarrow> load_rotation_keys ps w
                | Inr None \<Rightarrow> Inr []))"

definition default_provider :: "auth_parsers \<Rightarrow> outside \<Rightarrow> load_error + jwt_provider list" where
  "default_provider ps w =
     (let env = out_env w;
          jwks_url = (case env ''KRAB_OIDC_JWKS_URL'' of Some u \<Rightarrow> if trim u \<noteq> [] then Some u else None | None \<Rightarrow> None)
      in case load_key_not_after ps env of
           Inl e \<Rightarrow> Inl e
         | Inr not_after \<Rightarrow>
             (case default_keys ps w jwks_url of
                Inl e \<Rightarrow> Inl e
              | Inr keys \<Rightarrow>
                  Inr [\<lparr>pv_name = Some ''default'', pv_issuer = env ''KRAB_OIDC_ISSUER'',
                        pv_audience = env ''KRAB_OIDC_AUDIENCE'', pv_keys = keys, pv_required_claims = [],
                        pv_jwks_url = jwks_url, pv_key_not_after = not_after\<rparr>]))"

definition load_jwt_providers :: "auth_parsers \<Rightarrow> outside \<Rightarrow> load_error + jwt_provider list" where
  "load_jwt_providers ps w =
     (case read_secret w ''KRAB_JWT_PROVIDERS_JSON'' of
        Inl e \<Rightarrow> Inl e
      | Inr (Some raw) \<Rightarrow>
          (case ps_providers ps raw of
             None \<Rightarrow> Inl BadJson
           | Some parsed \<Rightarrow>
               let providers = filter usable_provider parsed
               in if providers \<noteq> [] then Inr providers else default_provider ps w)
      | Inr None \<Rightarrow> default_provider ps w)"

definition select_key :: "environment \<Rightarrow> string hashmap \<Rightarrow> string option \<Rightarrow> string option" where
  "select_key env keys kid =
     (case kid of
        Some k \<Rightarrow> hm_get keys k
      | None \<Rightarrow>
          if require_kid env then None
          else case hm_get keys ''default'' of
                 Some v \<Rightarrow> Some v
               | None \<Rightarrow> (case sort (hm_keys keys) of k # _ \<Rightarrow> hm_get keys k | [] \<Rightarrow> None))"

subsection \<open>What a token grants\<close>

definition as_str :: "json \<Rightarrow> string option" where
  "as_str j = (case j of JString s \<Rightarrow> Some s | _ \<Rightarrow> None)"

fun first_some :: "'a option list \<Rightarrow> 'a option" where
  "first_some [] = None"
| "first_some (Some x # xs) = Some x"
| "first_some (None # xs) = first_some xs"

definition tenant_from_claims :: "jwt_claims \<Rightarrow> string option" where
  "tenant_from_claims c =
     first_some [cl_tenant_id c, cl_tid c,
       Option.bind (hm_get (cl_extra c) ''tenant_id'') as_str, Option.bind (hm_get (cl_extra c) ''tid'') as_str]"

fun after_tenants :: "string list \<Rightarrow> string option" where
  "after_tenants [] = None"
| "after_tenants (segment # rest) =
     (if segment = ''tenants'' then (case rest of t # _ \<Rightarrow> Some t | [] \<Rightarrow> None) else after_tenants rest)"

definition path_segments :: "string \<Rightarrow> string list" where
  "path_segments path = filter (\<lambda>p. p \<noteq> []) (split_on (\<lambda>c. c = CHR ''/'') path)"

definition tenant_from_path :: "string \<Rightarrow> string option" where
  "tenant_from_path path = after_tenants (path_segments path)"

definition split_whitespace :: "string \<Rightarrow> string list" where
  "split_whitespace s = filter (\<lambda>w. w \<noteq> []) (split_on is_ws s)"

definition scopes_from_claims :: "jwt_claims \<Rightarrow> string list" where
  "scopes_from_claims c =
     (case cl_scope c of
        Some scope \<Rightarrow> split_whitespace scope
      | None \<Rightarrow>
          (case cl_scp c of
             Some (JString scope) \<Rightarrow> split_whitespace scope
           | Some (JArray values) \<Rightarrow> List.map_filter as_str values
           | _ \<Rightarrow> []))"

definition roles_from_claims :: "jwt_claims \<Rightarrow> string list" where
  "roles_from_claims c =
     (case cl_roles c of Some roles \<Rightarrow> roles | None \<Rightarrow> (case cl_role c of Some role \<Rightarrow> [role] | None \<Rightarrow> []))"

definition opt_str :: "string option \<Rightarrow> json" where
  "opt_str v = (case v of Some s \<Rightarrow> JString s | None \<Rightarrow> JNull)"

definition opt_json :: "json option \<Rightarrow> json" where
  "opt_json v = (case v of Some j \<Rightarrow> j | None \<Rightarrow> JNull)"

definition claims_obj :: "jwt_claims \<Rightarrow> json hashmap" where
  "claims_obj c =
     cl_extra c @
     [(''sub'', opt_str (cl_sub c)), (''iss'', opt_str (cl_iss c)), (''aud'', opt_json (cl_aud c)),
      (''exp'', opt_json (map_option JInt (cl_exp c))), (''jti'', opt_str (cl_jti c)),
      (''token_use'', opt_str (cl_token_use c)), (''tid'', opt_str (cl_tid c)), (''tenant_id'', opt_str (cl_tenant_id c)),
      (''scope'', opt_str (cl_scope c)), (''scp'', opt_json (cl_scp c)),
      (''roles'', opt_json (map_option (\<lambda>rs. JArray (map JString rs)) (cl_roles c))), (''role'', opt_str (cl_role c))]"

fun check_required :: "jwt_claims \<Rightarrow> json hashmap \<Rightarrow> nat + unit" where
  "check_required c [] = Inr ()"
| "check_required c ((k, v) # required) =
     (case first_some [hm_get (claims_obj c) k, hm_get (cl_extra c) k] of
        None \<Rightarrow> Inl 401
      | Some found \<Rightarrow> if found \<noteq> v then Inl 401 else check_required c required)"

definition audience_matches :: "json option \<Rightarrow> string \<Rightarrow> bool" where
  "audience_matches aud expected =
     (case aud of
        Some (JString a) \<Rightarrow> a = expected
      | Some (JArray values) \<Rightarrow> list_ex (\<lambda>v. as_str v = Some expected) values
      | _ \<Rightarrow> False)"

definition validate_provider_claims :: "jwt_claims \<Rightarrow> jwt_provider \<Rightarrow> nat + unit" where
  "validate_provider_claims c p =
     (if (case pv_issuer p of Some expected \<Rightarrow> cl_iss c \<noteq> Some expected | None \<Rightarrow> False) then Inl 401
      else if (case pv_audience p of Some expected \<Rightarrow> \<not> audience_matches (cl_aud c) expected | None \<Rightarrow> False) then Inl 401
      else check_required c (pv_required_claims p))"

end
