(* ===== verification/AuthPolicy.thy ===== *)
theory AuthPolicy
  imports JwtPolicy
begin

text \<open>
  Failure reasons and the authorisation policy of \<open>krab_core/src/http_auth.rs\<close>:
  \<open>AuthFailureReason\<close>, \<open>AuthFailure\<close>, \<open>AuthPolicy::from_env\<close> and \<open>AuthPolicy::enforce\<close>. A
  malformed policy variable is \<open>None\<close>.
\<close>

subsection \<open>Reasons\<close>

datatype auth_failure_reason =
    MissingCredentials
  | MalformedToken
  | AlgorithmRejected
  | UnknownKey
  | KeyRetired
  | InvalidSignature
  | Expired
  | ClaimsRejected
  | RefreshTokenRejected
  | PolicyDenied
  | Revoked
  | CredentialMismatch
  | ProviderUnavailable
  | Misconfigured

definition all_reasons :: "auth_failure_reason list" where
  "all_reasons =
     [MissingCredentials, MalformedToken, AlgorithmRejected, UnknownKey, KeyRetired, InvalidSignature, Expired,
      ClaimsRejected, RefreshTokenRejected, PolicyDenied, Revoked, CredentialMismatch, ProviderUnavailable,
      Misconfigured]"

definition reason_as_str :: "auth_failure_reason \<Rightarrow> string" where
  "reason_as_str r =
     (case r of
        MissingCredentials \<Rightarrow> ''missing_credentials''
      | MalformedToken \<Rightarrow> ''malformed_token''
      | AlgorithmRejected \<Rightarrow> ''algorithm_rejected''
      | UnknownKey \<Rightarrow> ''unknown_key''
      | KeyRetired \<Rightarrow> ''key_retired''
      | InvalidSignature \<Rightarrow> ''invalid_signature''
      | Expired \<Rightarrow> ''expired''
      | ClaimsRejected \<Rightarrow> ''claims_rejected''
      | RefreshTokenRejected \<Rightarrow> ''refresh_token_rejected''
      | PolicyDenied \<Rightarrow> ''policy_denied''
      | Revoked \<Rightarrow> ''revoked''
      | CredentialMismatch \<Rightarrow> ''credential_mismatch''
      | ProviderUnavailable \<Rightarrow> ''provider_unavailable''
      | Misconfigured \<Rightarrow> ''misconfigured'')"

text \<open>\<open>Iterator::position\<close>.\<close>

fun position :: "('a \<Rightarrow> bool) \<Rightarrow> 'a list \<Rightarrow> nat option" where
  "position p [] = None"
| "position p (x # xs) = (if p x then Some 0 else map_option Suc (position p xs))"

definition slot :: "auth_failure_reason \<Rightarrow> nat" where
  "slot r = (case position (\<lambda>x. x = r) all_reasons of Some i \<Rightarrow> i | None \<Rightarrow> length all_reasons - 1)"

definition specificity :: "auth_failure_reason \<Rightarrow> u8" where
  "specificity r =
     (case r of Expired \<Rightarrow> 4 | ClaimsRejected \<Rightarrow> 4 | KeyRetired \<Rightarrow> 3 | InvalidSignature \<Rightarrow> 2 | UnknownKey \<Rightarrow> 1 | _ \<Rightarrow> 0)"

record auth_failure =
  af_status :: nat
  af_reason :: auth_failure_reason

definition failure_new :: "nat \<Rightarrow> auth_failure_reason \<Rightarrow> auth_failure" where
  "failure_new status r = \<lparr>af_status = status, af_reason = r\<rparr>"

definition unauthorized :: "auth_failure_reason \<Rightarrow> auth_failure" where
  "unauthorized r = failure_new 401 r"

subsection \<open>The policy\<close>

record auth_policy =
  ap_required_scopes :: "string list"
  ap_required_roles :: "string list"
  ap_admin_scope :: string
  ap_admin_role :: string
  ap_require_tenant_claim :: bool
  ap_require_tenant_match :: bool
  ap_route_policies :: "route_policy list option"
  ap_required_claims :: "json hashmap option"

definition try_load_route_policies :: "auth_parsers \<Rightarrow> environment \<Rightarrow> route_policy list option" where
  "try_load_route_policies ps env =
     (case env ''KRAB_AUTH_ROUTE_POLICIES_JSON'' of Some raw \<Rightarrow> ps_policies ps raw | None \<Rightarrow> Some [])"

definition load_route_policies :: "auth_parsers \<Rightarrow> environment \<Rightarrow> route_policy list" where
  "load_route_policies ps env = (case try_load_route_policies ps env of Some rps \<Rightarrow> rps | None \<Rightarrow> [])"

definition env_csv :: "environment \<Rightarrow> string \<Rightarrow> string list" where
  "env_csv env name = (case env name of Some v \<Rightarrow> parse_csv_set v | None \<Rightarrow> [])"

definition auth_policy_from_env :: "auth_parsers \<Rightarrow> environment \<Rightarrow> auth_policy" where
  "auth_policy_from_env ps env =
     \<lparr>ap_required_scopes = env_csv env ''KRAB_AUTH_REQUIRED_SCOPES'',
      ap_required_roles = env_csv env ''KRAB_AUTH_REQUIRED_ROLES'',
      ap_admin_scope = env_or env ''KRAB_AUTH_ADMIN_SCOPE'' ''admin'',
      ap_admin_role = env_or env ''KRAB_AUTH_ADMIN_ROLE'' ''admin'',
      ap_require_tenant_claim = bool_env env ''KRAB_AUTH_REQUIRE_TENANT_CLAIM'' False,
      ap_require_tenant_match = bool_env env ''KRAB_AUTH_REQUIRE_TENANT_MATCH'' True,
      ap_route_policies = try_load_route_policies ps env,
      ap_required_claims =
        (case env ''KRAB_AUTH_REQUIRED_CLAIMS_JSON'' of Some raw \<Rightarrow> ps_value_map ps raw | None \<Rightarrow> Some [])\<rparr>"

definition has_admin_entitlement :: "auth_policy \<Rightarrow> auth_context \<Rightarrow> bool" where
  "has_admin_entitlement pol ctx =
     (ap_admin_scope pol \<in> set (ac_scopes ctx) \<or> ap_admin_role pol \<in> set (ac_roles ctx))"

definition enforce_route ::
  "route_policy \<Rightarrow> string \<Rightarrow> jwt_claims \<Rightarrow> string option \<Rightarrow> string list \<Rightarrow> string list \<Rightarrow> nat + unit" where
  "enforce_route rp path c tenant scopes roles =
     (if \<not> list_all (\<lambda>s. s \<in> set scopes) (rp_all_scopes rp) then Inl 401
      else if rp_any_scopes rp \<noteq> [] \<and> \<not> list_ex (\<lambda>s. s \<in> set scopes) (rp_any_scopes rp) then Inl 401
      else if \<not> list_all (\<lambda>r. r \<in> set roles) (rp_all_roles rp) then Inl 401
      else if rp_any_roles rp \<noteq> [] \<and> \<not> list_ex (\<lambda>r. r \<in> set roles) (rp_any_roles rp) then Inl 401
      else if rp_allow_subjects rp \<noteq> [] \<and>
              (case cl_sub c of None \<Rightarrow> True | Some subject \<Rightarrow> subject \<notin> set (rp_allow_subjects rp)) then Inl 401
      else if rp_require_tenant_match rp \<and>
              (case tenant_from_path path of None \<Rightarrow> True | Some t \<Rightarrow> tenant \<noteq> Some t) then Inl 401
      else Inr ())"

fun enforce_routes ::
  "route_policy list \<Rightarrow> string \<Rightarrow> jwt_claims \<Rightarrow> string option \<Rightarrow> string list \<Rightarrow> string list \<Rightarrow> nat + unit" where
  "enforce_routes [] path c tenant scopes roles = Inr ()"
| "enforce_routes (rp # rps) path c tenant scopes roles =
     (if starts_with path (rp_prefix rp)
      then case enforce_route rp path c tenant scopes roles of
             Inl e \<Rightarrow> Inl e
           | Inr _ \<Rightarrow> enforce_routes rps path c tenant scopes roles
      else enforce_routes rps path c tenant scopes roles)"

definition enforce ::
  "auth_policy \<Rightarrow> string \<Rightarrow> jwt_claims \<Rightarrow> string option \<Rightarrow> string list \<Rightarrow> string list \<Rightarrow> nat + unit" where
  "enforce pol path c tenant scopes roles =
     (if \<not> list_all (\<lambda>s. s \<in> set scopes) (ap_required_scopes pol) then Inl 401
      else if \<not> list_all (\<lambda>r. r \<in> set roles) (ap_required_roles pol) then Inl 401
      else if is_admin_api_path path \<and> ap_admin_scope pol \<notin> set scopes \<and> ap_admin_role pol \<notin> set roles then Inl 401
      else if ap_require_tenant_claim pol \<and> tenant = None then Inl 401
      else if ap_require_tenant_match pol \<and>
              (case tenant_from_path path of Some t \<Rightarrow> tenant \<noteq> Some t | None \<Rightarrow> False) then Inl 401
      else case ap_route_policies pol of
             None \<Rightarrow> Inl 500
           | Some rps \<Rightarrow>
               (case enforce_routes rps path c tenant scopes roles of
                  Inl e \<Rightarrow> Inl e
                | Inr _ \<Rightarrow>
                    (case ap_required_claims pol of
                       None \<Rightarrow> Inl 401
                     | Some required \<Rightarrow> check_required c required)))"

subsection \<open>Lemmas\<close>

lemma check_required_ok:
  "check_required c required = Inr () \<longleftrightarrow> (\<forall>(k, v) \<in> set required. hm_get (claims_obj c) k = Some v)"
proof (induction c required rule: check_required.induct)
  case (1 c)
  then show ?case by simp
next
  case (2 c k v required)
  have sub: "hm_get (claims_obj c) k = None \<Longrightarrow> hm_get (cl_extra c) k = None"
    by (auto simp: claims_obj_def map_add_def split: option.splits)
  show ?case
  proof (cases "hm_get (claims_obj c) k")
    case None
    then show ?thesis using sub by simp
  next
    case (Some found)
    with 2 show ?thesis by auto
  qed
qed

lemma check_required_status: "check_required c required = Inl e \<Longrightarrow> e = 401"
  by (induction c required rule: check_required.induct) (auto split: option.splits if_splits)

lemma enforce_routes_ok:
  "enforce_routes rps path c tenant scopes roles = Inr () \<longleftrightarrow>
     (\<forall>rp \<in> set rps. prefix (rp_prefix rp) path \<longrightarrow> enforce_route rp path c tenant scopes roles = Inr ())"
  by (induction rps path c tenant scopes roles rule: enforce_routes.induct)
    (auto simp: starts_with_def split: sum.splits)

lemma enforce_route_status: "enforce_route rp path c tenant scopes roles = Inl e \<Longrightarrow> e = 401"
  by (auto simp: enforce_route_def split: if_splits)

lemma enforce_routes_status: "enforce_routes rps path c tenant scopes roles = Inl e \<Longrightarrow> e = 401"
  by (induction rps path c tenant scopes roles rule: enforce_routes.induct)
    (auto dest: enforce_route_status split: sum.splits if_splits)

lemma enforce_status: "enforce pol path c tenant scopes roles = Inl e \<Longrightarrow> e = 401 \<or> e = 500 \<and> ap_route_policies pol = None"
  by (auto simp: enforce_def dest: check_required_status enforce_routes_status split: if_splits option.splits sum.splits)

lemma enforce_ok:
  "enforce pol path c tenant scopes roles = Inr () \<longleftrightarrow>
     set (ap_required_scopes pol) \<subseteq> set scopes \<and> set (ap_required_roles pol) \<subseteq> set roles \<and>
     (is_admin_api_path path \<longrightarrow> ap_admin_scope pol \<in> set scopes \<or> ap_admin_role pol \<in> set roles) \<and>
     (ap_require_tenant_claim pol \<longrightarrow> tenant \<noteq> None) \<and>
     (ap_require_tenant_match pol \<longrightarrow> (\<forall>t. tenant_from_path path = Some t \<longrightarrow> tenant = Some t)) \<and>
     (\<exists>rps required. ap_route_policies pol = Some rps \<and> ap_required_claims pol = Some required \<and>
        (\<forall>rp \<in> set rps. prefix (rp_prefix rp) path \<longrightarrow> enforce_route rp path c tenant scopes roles = Inr ()) \<and>
        (\<forall>(k, v) \<in> set required. hm_get (claims_obj c) k = Some v))"
  unfolding enforce_routes_ok [symmetric] check_required_ok [symmetric]
  by (auto simp: enforce_def list_all_iff split: option.splits sum.splits)

lemma slot_less: "slot r < 14"
  by (cases r) (simp_all add: slot_def all_reasons_def)

lemma slot_inject: "slot r = slot r' \<longleftrightarrow> r = r'"
  by (cases r; cases r') (simp_all add: slot_def all_reasons_def)

end
