(* ===== verification/RetirementTime.thy ===== *)
theory RetirementTime
  imports KrabPrelude
begin

text \<open>
  When a key stops verifying: \<open>parse_not_after\<close> of \<open>krab_core/src/jwks.rs\<close> reads RFC 3339 or Unix
  seconds, with its own calendar arithmetic. The specification is the calendar itself: \<open>next_day\<close>
  walks it day by day from 1970-01-01.

  \<open>i64\<close> values are integers; the sum of the last line wraps at 64 bits as in a release build (a
  debug build panics there). All steps before it are ring operations or small, so one wrap is enough.
\<close>

subsection \<open>The calendar arithmetic\<close>

definition days_in_month :: "int \<Rightarrow> nat \<Rightarrow> nat" where
  "days_in_month year month =
     (if month = 2 \<and> (year mod 4 = 0 \<and> year mod 100 \<noteq> 0 \<or> year mod 400 = 0) then 29
      else if month = 2 then 28
      else if month \<in> {4, 6, 9, 11} then 30
      else 31)"

definition days_from_civil :: "int \<Rightarrow> nat \<Rightarrow> nat \<Rightarrow> int" where
  "days_from_civil year0 month0 day =
     (let year = (if month0 \<le> 2 then year0 - 1 else year0);
          era = year div 400;
          yoe = year - era * 400;
          month = int month0;
          mp = (month + 9) mod 12;
          doy = (153 * mp + 2) div 5 + int day - 1;
          doe = yoe * 365 + yoe div 4 - yoe div 100 + doy
      in era * 146097 + doe - 719468)"

subsection \<open>Parsing\<close>

definition wrap_i64 :: "int \<Rightarrow> int" where
  "wrap_i64 x = (x + 2 ^ 63) mod 2 ^ 64 - 2 ^ 63"

definition parse_i64 :: "string \<Rightarrow> int option" where
  "parse_i64 s =
     (case s of
        c # cs \<Rightarrow>
          if c = CHR ''-'' then
            (if cs = [] then None
             else case parse_digits 0 cs of
                    Some n \<Rightarrow> if n \<le> 2 ^ 63 then Some (- int n) else None | None \<Rightarrow> None)
          else map_option int (parse_unsigned (2 ^ 63 - 1) s)
      | [] \<Rightarrow> None)"

definition parse_u32 :: "string \<Rightarrow> nat option" where
  "parse_u32 s = parse_unsigned (2 ^ 32 - 1) s"

text \<open>\<open>split_once\<close> at the first of several characters, and \<open>splitn(3, c)\<close>.\<close>

fun split_at_first :: "(char \<Rightarrow> bool) \<Rightarrow> string \<Rightarrow> (string \<times> string) option" where
  "split_at_first p [] = None"
| "split_at_first p (c # cs) =
     (if p c then Some ([], cs) else map_option (\<lambda>(a, b). (c # a, b)) (split_at_first p cs))"

text \<open>The three pieces of \<open>splitn(3, c)\<close>, when there are three.\<close>

definition three_parts :: "char \<Rightarrow> string \<Rightarrow> (string \<times> string \<times> string) option" where
  "three_parts c s =
     Option.bind (split_once c s) (\<lambda>(a, rest). map_option (\<lambda>(b, d). (a, b, d)) (split_once c rest))"

definition parse_offset :: "string \<Rightarrow> (string \<times> int) option" where
  "parse_offset rest =
     (case strip_suffix ''Z'' rest of
        Some t \<Rightarrow> Some (t, 0)
      | None \<Rightarrow>
          (case strip_suffix ''z'' rest of
             Some t \<Rightarrow> Some (t, 0)
           | None \<Rightarrow>
               Option.bind (split_at_first (\<lambda>c. c = CHR ''+'' \<or> c = CHR ''-'') (rev rest)) (\<lambda>(back, front).
               Option.bind (split_once (CHR '':'') (rev back)) (\<lambda>(oh, om).
               Option.bind (parse_i64 oh) (\<lambda>h.
               Option.bind (parse_i64 om) (\<lambda>m.
                 Some (rev front, (if rest ! length front = CHR ''-'' then - 1 else 1) * (h * 3600 + m * 60))))))))"

definition parse_not_after :: "string \<Rightarrow> int option" where
  "parse_not_after raw0 =
     (let raw = trim raw0
      in case parse_i64 raw of
           Some secs \<Rightarrow> Some secs
         | None \<Rightarrow>
             Option.bind (split_at_first (\<lambda>c. c = CHR ''T'' \<or> c = CHR ''t'' \<or> c = CHR '' '') raw) (\<lambda>(date, rest).
             Option.bind (three_parts (CHR ''-'') date) (\<lambda>(ys, ms, ds).
             Option.bind (parse_i64 ys) (\<lambda>year.
             Option.bind (parse_u32 ms) (\<lambda>month.
             Option.bind (parse_u32 ds) (\<lambda>day.
             Option.bind (parse_offset rest) (\<lambda>(time0, offset_secs).
             Option.bind (three_parts (CHR '':'') (hd (split_on (\<lambda>c. c = CHR ''.'') time0))) (\<lambda>(hs, mins, ss).
             Option.bind (parse_i64 hs) (\<lambda>hour.
             Option.bind (parse_i64 mins) (\<lambda>minute.
             Option.bind (parse_i64 ss) (\<lambda>second.
               if \<not> (1 \<le> month \<and> month \<le> 12) \<or> day < 1 \<or> days_in_month year month < day \<or>
                  23 < hour \<or> 59 < minute \<or> 60 < second
               then None
               else Some (wrap_i64 (days_from_civil year month day * 86400 + hour * 3600 + minute * 60 + second
                                    - offset_secs)))))))))))))"

subsection \<open>The calendar, day by day\<close>

type_synonym date = "int \<times> nat \<times> nat"

definition next_day :: "date \<Rightarrow> date" where
  "next_day = (\<lambda>(y, m, d).
     if d < days_in_month y m then (y, m, d + 1) else if m < 12 then (y, m + 1, 1) else (y + 1, 1, 1))"

definition epoch_day :: date where
  "epoch_day = (1970, 1, 1)"

definition valid_date :: "date \<Rightarrow> bool" where
  "valid_date = (\<lambda>(y, m, d). 1 \<le> m \<and> m \<le> 12 \<and> 1 \<le> d \<and> d \<le> days_in_month y m)"

text \<open>Days before the first of March of a year, counted from 0000-03-01.\<close>

definition year_start :: "int \<Rightarrow> int" where
  "year_start y = 365 * y + y div 4 - y div 100 + y div 400"

lemma div_shift: "(Y - e * (c * k)) div k = Y div k - e * c" if "k \<noteq> 0" for Y e c k :: int
proof -
  have "Y - e * (c * k) = Y + (- (e * c)) * k" by (simp add: algebra_simps)
  then show ?thesis using div_mult_self1 [OF that, of Y "- (e * c)"] by (simp only:)
qed

lemma days_from_civil_year_start:
  "days_from_civil y m d =
     year_start (if m \<le> 2 then y - 1 else y) + (153 * ((int m + 9) mod 12) + 2) div 5 + int d - 1 - 719468"
proof -
  have e: "(Y div 400) * 146097 + ((Y - (Y div 400) * 400) * 365 + (Y - (Y div 400) * 400) div 4 - (Y - (Y div 400) * 400) div 100)
    = year_start Y" for Y :: int
    using div_shift [of 4 Y "Y div 400" 100] div_shift [of 100 Y "Y div 400" 4]
    by (simp add: year_start_def algebra_simps)
  show ?thesis unfolding days_from_civil_def Let_def using e [of "if m \<le> 2 then y - 1 else y"] by simp
qed

lemma div_step: "y div k = (y - 1) div k + (if y mod k = 0 then 1 else 0)" if "0 < k" for y k :: int
proof (cases "y mod k = 0")
  case True
  have "y - 1 = k * (y div k - 1) + (k - 1)" using True div_mult_mod_eq [of y k] by (simp add: algebra_simps)
  with that have "(y - 1) div k = y div k - 1" by (intro int_div_pos_eq [of _ _ _ "k - 1"]) auto
  with True show ?thesis by simp
next
  case False
  have "0 \<le> y mod k" and "y mod k < k" using that by simp_all
  moreover have "y - 1 = k * (y div k) + (y mod k - 1)" by (simp add: algebra_simps)
  ultimately have "(y - 1) div k = y div k"
    using False by (intro int_div_pos_eq [of _ _ _ "y mod k - 1"]) linarith+
  with False show ?thesis by simp
qed

lemma leap_sum:
  fixes y a b c :: int
  assumes "a = a' + (if p then 1 else 0)" and "b = b' + (if q then 1 else 0)" and "c = c' + (if r then 1 else 0)"
    and "r \<longrightarrow> q" and "q \<longrightarrow> p"
  shows "365 * y + a - b + c = 365 * (y - 1) + a' - b' + c' + 365 + (if p \<and> \<not> q \<or> r then 1 else 0)"
  using assms by auto

lemma year_start_step:
  "year_start y = year_start (y - 1) + 365 + (if y mod 4 = 0 \<and> y mod 100 \<noteq> 0 \<or> y mod 400 = 0 then 1 else 0)"
  unfolding year_start_def by (rule leap_sum; (rule div_step; simp)?; presburger?)

lemma month_cases:
  assumes "1 \<le> m" and "m \<le> (12 :: nat)"
  shows "m = 1 \<or> m = 2 \<or> m = 3 \<or> m = 4 \<or> m = 5 \<or> m = 6 \<or> m = 7 \<or> m = 8 \<or> m = 9 \<or> m = 10 \<or> m = 11 \<or> m = 12"
  using assms by presburger

lemma days_from_civil_next:
  assumes "valid_date (y, m, d)" and "next_day (y, m, d) = (y', m', d')"
  shows "days_from_civil y' m' d' = days_from_civil y m d + 1"
proof -
  have m: "1 \<le> m" "m \<le> 12" and d: "d \<le> days_in_month y m" using assms(1) by (auto simp: valid_date_def)
  show ?thesis
  proof (cases "d < days_in_month y m")
    case True
    with assms(2) show ?thesis by (auto simp: next_day_def days_from_civil_year_start)
  next
    case False
    with d have d: "d = days_in_month y m" by simp
    with assms(2) have n: "(y', m', d') = (if m < 12 then (y, m + 1, 1) else (y + 1, 1, 1))"
      by (auto simp: next_day_def split: if_splits)
    from month_cases [OF m] n d year_start_step [of y] show ?thesis
      by (elim disjE; simp add: days_from_civil_year_start days_in_month_def)
  qed
qed

lemma valid_next_day: "valid_date x \<Longrightarrow> valid_date (next_day x)"
  by (cases x) (auto simp: valid_date_def next_day_def days_in_month_def)

lemma valid_after: "valid_date ((next_day ^^ n) epoch_day)"
  by (induction n) (auto simp: valid_next_day, simp add: valid_date_def epoch_day_def days_in_month_def)

lemma days_after_epoch: "(next_day ^^ n) epoch_day = (y, m, d) \<Longrightarrow> days_from_civil y m d = int n"
proof (induction n arbitrary: y m d)
  case 0
  then show ?case by (auto simp: epoch_day_def days_from_civil_year_start year_start_def)
next
  case (Suc n)
  obtain y0 m0 d0 where e: "(next_day ^^ n) epoch_day = (y0, m0, d0)" by (metis prod_cases3)
  with Suc.prems have "next_day (y0, m0, d0) = (y, m, d)" by simp
  moreover have "valid_date (y0, m0, d0)" using valid_after [of n] e by simp
  ultimately show ?case using days_from_civil_next Suc.IH [OF e] by simp
qed

subsection \<open>Written times\<close>

definition pad2 :: "nat \<Rightarrow> string" where
  "pad2 n = (if n < 10 then CHR ''0'' # show_nat n else show_nat n)"

definition clock_text :: "nat \<Rightarrow> nat \<Rightarrow> nat \<Rightarrow> string" where
  "clock_text h mi sec = pad2 h @ '':'' @ pad2 mi @ '':'' @ pad2 sec"

definition utc_text :: "nat \<Rightarrow> nat \<Rightarrow> nat \<Rightarrow> nat \<Rightarrow> nat \<Rightarrow> nat \<Rightarrow> string" where
  "utc_text y m d h mi sec = (show_nat y @ ''-'' @ pad2 m @ ''-'' @ pad2 d) @ ''T'' @ clock_text h mi sec @ ''Z''"

definition digit :: "char \<Rightarrow> bool" where
  "digit c = (digit_val c \<noteq> None)"

lemma digit_show_nat: "list_all digit (show_nat n)"
  by (auto simp: list_all_iff digit_def dest: set_show_nat)

lemma digit_pad2: "list_all digit (pad2 n)"
  using digit_show_nat [of n] by (simp add: pad2_def digit_def digit_val_def)

lemma not_digit:
  "\<not> digit (CHR ''-'')" "\<not> digit (CHR '':'')" "\<not> digit (CHR ''T'')" "\<not> digit (CHR ''t'')" "\<not> digit (CHR '' '')"
  "\<not> digit (CHR ''Z'')" "\<not> digit (CHR ''.'')" "\<not> digit (CHR ''+'')"
  by (simp_all add: digit_def digit_val_def)

lemma digits_free: "list_all digit s \<Longrightarrow> \<not> digit x \<Longrightarrow> x \<notin> set s"
  by (auto simp: list_all_iff)

lemmas show_nat_free = digits_free [OF digit_show_nat]
lemmas pad2_free = digits_free [OF digit_pad2]

lemma parse_digits_pad2 [simp]: "parse_digits 0 (pad2 n) = Some n"
proof -
  have "parse_digits 0 (CHR ''0'' # s) = parse_digits 0 s" for s by (simp add: digit_val_def)
  then show ?thesis by (simp add: pad2_def parse_digits_show_nat del: parse_digits.simps)
qed

lemma unsigned_field:
  assumes "parse_digits 0 s = Some n" and "list_all digit s" and "s \<noteq> []" and "n \<le> bound"
  shows "parse_unsigned bound s = Some n"
proof -
  obtain c cs where "s = c # cs" using assms(3) by (cases s) auto
  moreover from this assms(2) have "c \<noteq> CHR ''+''" using not_digit by auto
  ultimately show ?thesis using assms(1,4) by (simp add: parse_unsigned_def)
qed

lemma signed_field:
  assumes "parse_digits 0 s = Some n" and "list_all digit s" and "s \<noteq> []" and "n \<le> 2 ^ 63 - 1"
  shows "parse_i64 s = Some (int n)"
proof -
  obtain c cs where s: "s = c # cs" using assms(3) by (cases s) auto
  moreover from this assms(2) have "c \<noteq> CHR ''-''" using not_digit by auto
  ultimately have "parse_i64 s = map_option int (parse_unsigned (2 ^ 63 - 1) s)" by (simp add: parse_i64_def)
  with unsigned_field [OF assms] show ?thesis by simp
qed

lemma pad2_nonempty [simp]: "pad2 n \<noteq> []"
  by (simp add: pad2_def)

lemma parse_pad2 [simp]: "n \<le> 99 \<Longrightarrow> parse_i64 (pad2 n) = Some (int n)"
  by (rule signed_field [OF parse_digits_pad2 digit_pad2]) simp_all

lemma parse_u32_pad2 [simp]: "n \<le> 99 \<Longrightarrow> parse_u32 (pad2 n) = Some n"
  unfolding parse_u32_def by (rule unsigned_field [OF parse_digits_pad2 digit_pad2]) simp_all

lemma parse_i64_show [simp]: "n \<le> 2 ^ 63 - 1 \<Longrightarrow> parse_i64 (show_nat n) = Some (int n)"
  by (rule signed_field [OF parse_digits_show_nat digit_show_nat]) simp_all

lemma split_at_first_mem: "\<forall>c \<in> set a. \<not> p c \<Longrightarrow> p x \<Longrightarrow> split_at_first p (a @ x # b) = Some (a, b)"
  by (induction a) auto

lemma split_once_field: "d \<notin> set a \<Longrightarrow> split_once d (a @ d # b) = Some (a, b)"
  by (simp add: split_once_Some)

lemma three_parts_fields: "c \<notin> set a \<Longrightarrow> c \<notin> set b \<Longrightarrow> three_parts c (a @ c # b @ c # d) = Some (a, b, d)"
  by (simp add: three_parts_def split_once_field)

lemma parse_digits_bad: "c \<in> set s \<Longrightarrow> digit_val c = None \<Longrightarrow> parse_digits acc s = None"
  by (induction acc s rule: parse_digits.induct) (auto split: option.splits)

lemma wrap_i64_id: "- (2 ^ 63) \<le> x \<Longrightarrow> x < 2 ^ 63 \<Longrightarrow> wrap_i64 x = x"
  by (simp add: wrap_i64_def)

lemma digit_not_ws: "digit c \<Longrightarrow> \<not> is_ws c"
  by (auto simp: digit_def digit_val_def is_ws_def Let_def split: if_splits)

lemma digits_not_ws: "list_all digit s \<Longrightarrow> c \<in> set s \<Longrightarrow> \<not> is_ws c"
  by (auto simp: list_all_iff digit_not_ws)

lemma trim_utc_text: "trim (utc_text y m d h mi sec) = utc_text y m d h mi sec"
proof (rule trim_id, rule ballI)
  fix c
  have sep: "\<not> is_ws (CHR ''-'')" "\<not> is_ws (CHR ''T'')" "\<not> is_ws (CHR '':'')" "\<not> is_ws (CHR ''Z'')"
    by (simp_all add: is_ws_def)
  assume "c \<in> set (utc_text y m d h mi sec)"
  then consider "c \<in> set (show_nat y)" | n where "c \<in> set (pad2 n)" | "c \<in> {CHR ''-'', CHR ''T'', CHR '':'', CHR ''Z''}"
    unfolding utc_text_def clock_text_def set_append list.set by blast
  then show "\<not> is_ws c"
    by cases (use sep digits_not_ws digit_show_nat digit_pad2 in blast)+
qed

lemma utc_text_not_a_number: "parse_i64 (utc_text y m d h mi sec) = None"
proof -
  obtain c cs where s: "show_nat y = c # cs" by (cases "show_nat y") auto
  with digit_show_nat [of y] have "digit c" by simp
  then have c: "c \<noteq> CHR ''-''" "c \<noteq> CHR ''+''" using not_digit by auto
  have "parse_digits 0 (utc_text y m d h mi sec) = None"
    by (rule parse_digits_bad [of "CHR ''T''"]) (simp_all add: utc_text_def digit_val_def)
  with s c show ?thesis by (simp add: parse_i64_def parse_unsigned_def utc_text_def)
qed

lemma parse_offset_utc: "parse_offset (t @ ''Z'') = Some (t, 0)"
  by (simp add: parse_offset_def strip_suffix_def)

lemma clock_text_parts:
  "hd (split_on (\<lambda>c. c = CHR ''.'') (clock_text h mi sec)) = clock_text h mi sec"
  "three_parts (CHR '':'') (clock_text h mi sec) = Some (pad2 h, pad2 mi, pad2 sec)"
proof -
  have "CHR ''.'' \<notin> set (clock_text h mi sec)"
    by (simp add: clock_text_def pad2_free [OF not_digit(7)])
  then show "hd (split_on (\<lambda>c. c = CHR ''.'') (clock_text h mi sec)) = clock_text h mi sec"
    by (subst split_on_none) auto
  show "three_parts (CHR '':'') (clock_text h mi sec) = Some (pad2 h, pad2 mi, pad2 sec)"
    using three_parts_fields [OF pad2_free [OF not_digit(2)] pad2_free [OF not_digit(2)]]
    by (simp add: clock_text_def)
qed

lemma date_text_parts:
  "split_at_first (\<lambda>c. c = CHR ''T'' \<or> c = CHR ''t'' \<or> c = CHR '' '') (utc_text y m d h mi sec) =
     Some (show_nat y @ ''-'' @ pad2 m @ ''-'' @ pad2 d, clock_text h mi sec @ ''Z'')"
  "three_parts (CHR ''-'') (show_nat y @ ''-'' @ pad2 m @ ''-'' @ pad2 d) = Some (show_nat y, pad2 m, pad2 d)"
proof -
  show "split_at_first (\<lambda>c. c = CHR ''T'' \<or> c = CHR ''t'' \<or> c = CHR '' '') (utc_text y m d h mi sec) =
     Some (show_nat y @ ''-'' @ pad2 m @ ''-'' @ pad2 d, clock_text h mi sec @ ''Z'')"
    unfolding utc_text_def append_Cons append_Nil
    by (rule split_at_first_mem)
      (use show_nat_free not_digit pad2_free in \<open>auto simp: list_all_iff\<close>)
  show "three_parts (CHR ''-'') (show_nat y @ ''-'' @ pad2 m @ ''-'' @ pad2 d) = Some (show_nat y, pad2 m, pad2 d)"
    using three_parts_fields [OF show_nat_free [OF not_digit(1)] pad2_free [OF not_digit(1)]] by simp
qed

lemma days_from_civil_bounds:
  assumes "0 \<le> y" and "y \<le> 10 ^ 9" and "1 \<le> m" and "m \<le> 12" and "d \<le> 31"
  shows "- (10 ^ 6) \<le> days_from_civil y m d \<and> days_from_civil y m d \<le> 10 ^ 12"
proof -
  define Y where "Y = (if m \<le> 2 then y - 1 else y)"
  have Y: "- 1 \<le> Y" "Y \<le> 10 ^ 9" using assms(1,2) by (auto simp: Y_def)
  have "- 1 \<le> Y div 4" "- 1 \<le> Y div 100" "- 1 \<le> Y div 400"
    using zdiv_mono1 [OF Y(1), of 4] zdiv_mono1 [OF Y(1), of 100] zdiv_mono1 [OF Y(1), of 400] by simp_all
  moreover have "Y div 4 \<le> 10 ^ 9" "Y div 100 \<le> Y div 4" "Y div 400 \<le> 10 ^ 9" using Y by linarith+
  ultimately have "- 400 \<le> year_start Y \<and> year_start Y \<le> 368 * 10 ^ 9"
    using Y by (simp add: year_start_def)
  moreover have "0 \<le> (153 * ((int m + 9) mod 12) + 2) div 5" "(153 * ((int m + 9) mod 12) + 2) div 5 \<le> 400"
    using pos_mod_bound [of 12 "int m + 9"] by (simp_all add: pos_imp_zdiv_nonneg_iff)
  ultimately show ?thesis
    using assms(5) unfolding days_from_civil_year_start Y_def [symmetric] by simp
qed

lemma days_valid: "valid_date (int y, m, d) \<longleftrightarrow> 1 \<le> m \<and> m \<le> 12 \<and> 1 \<le> d \<and> d \<le> days_in_month (int y) m"
  by (simp add: valid_date_def)

text \<open>
  written retirement times are read by the calendar. A UTC time is accepted exactly when the date
  exists and the clock fields are in range, and its value counts the days of the calendar from
  1970-01-01: the date reached after \<open>n\<close> steps of \<open>next_day\<close> counts \<open>n\<close> days.
\<close>

theorem not_after_follows_the_calendar:
  assumes "y \<le> 10 ^ 9" and "m \<le> 99" and "d \<le> 99" and "h \<le> 99" and "mi \<le> 99" and "sec \<le> 99"
  shows "parse_not_after (utc_text y m d h mi sec) =
           (if valid_date (int y, m, d) \<and> h \<le> 23 \<and> mi \<le> 59 \<and> sec \<le> 60
            then Some (days_from_civil (int y) m d * 86400 + int (h * 3600 + mi * 60 + sec)) else None) \<and>
         ((next_day ^^ n) epoch_day = (int y, m, d) \<longrightarrow>
            valid_date (int y, m, d) \<and> days_from_civil (int y) m d = int n)"
proof -
  let ?t = "days_from_civil (int y) m d * 86400 + int h * 3600 + int mi * 60 + int sec"
  have "wrap_i64 ?t = ?t" if v: "valid_date (int y, m, d)"
  proof -
    have "days_in_month (int y) m \<le> 31" by (simp add: days_in_month_def)
    with v have "- (10 ^ 6) \<le> days_from_civil (int y) m d \<and> days_from_civil (int y) m d \<le> 10 ^ 12"
      using assms(1) by (intro days_from_civil_bounds) (auto simp: days_valid)
    with assms(4-6) show ?thesis by (intro wrap_i64_id) simp_all
  qed
  with assms have "parse_not_after (utc_text y m d h mi sec) =
      (if valid_date (int y, m, d) \<and> h \<le> 23 \<and> mi \<le> 59 \<and> sec \<le> 60 then Some ?t else None)"
    by (auto simp: parse_not_after_def trim_utc_text utc_text_not_a_number date_text_parts date_text_parts(2) [simplified]
        clock_text_parts parse_offset_utc parse_offset_utc [simplified] days_valid)
  moreover have "?t = days_from_civil (int y) m d * 86400 + int (h * 3600 + mi * 60 + sec)" by simp
  ultimately show ?thesis using valid_after [of n] days_after_epoch [of n "int y" m d] by auto
qed

theorem not_after_follows_the_calendar_witness:
  "parse_not_after (utc_text 1970 1 2 0 0 5) = Some 86405 \<and> parse_not_after (utc_text 2026 2 30 0 0 0) = None"
  using not_after_follows_the_calendar [of 1970 1 2 0 0 5 1] not_after_follows_the_calendar [of 2026 2 30 0 0 0 0]
  by (simp add: next_day_def epoch_day_def days_in_month_def valid_date_def)

text \<open>Negative clock fields pass the range check, which has no lower bounds.\<close>

lemma negative_hour_is_accepted: "parse_not_after ''1970-01-01T-5:00:00Z'' = Some (- 18000)"
  by (simp add: parse_not_after_def Let_def trim_id is_ws_def parse_i64_def parse_unsigned_def digit_val_def
      three_parts_def parse_u32_def parse_offset_def strip_suffix_def suffix_to_prefix days_in_month_def
      days_from_civil_def wrap_i64_def)

end
