(* ===== verification/JwtVerify.thy ===== *)
theory JwtVerify
  imports AuthPolicy RetirementTime
begin

text \<open>
  Verification of bearer tokens, \<open>krab_core/src/http_auth.rs\<close>: the key cache
  \<open>JwtVerifierCache\<close>, the search for a key that verifies (\<open>authorize_jwt_detailed\<close>) and the static
  token. The functions of the \<open>jsonwebtoken\<close> and \<open>reqwest\<close> crates that are called are the record
  \<open>verify_lib\<close>; keys are a type variable.
\<close>

subsection \<open>The key cache\<close>

datatype decode_error = ExpiredSignature | SignatureMismatch | OtherError

record validation =
  va_alg :: algorithm
  va_algorithms :: "algorithm list"
  va_leeway :: u64

record 'k verify_lib =
  vl_header :: "string \<Rightarrow> (algorithm \<times> string option) option"
  vl_material :: "algorithm \<Rightarrow> string \<Rightarrow> 'k option"
  vl_client :: "string \<Rightarrow> bool"
  vl_decode :: "string \<Rightarrow> 'k \<Rightarrow> validation \<Rightarrow> int \<Rightarrow> decode_error + jwt_claims"

record 'k verifier_cache =
  vc_providers :: "jwt_provider list"
  vc_keys :: "((nat \<times> string \<times> jwt_family) \<times> 'k) list"
  vc_jwks :: "'k jwks_source option list"
  vc_retire_at :: "int hashmap list"
  vc_load_failed :: bool
  vc_background :: bool

definition failed_cache :: "'k verifier_cache" where
  "failed_cache = \<lparr>vc_providers = [], vc_keys = [], vc_jwks = [], vc_retire_at = [], vc_load_failed = True,
     vc_background = False\<rparr>"

definition provider_static_keys ::
  "'k verify_lib \<Rightarrow> nat \<Rightarrow> jwt_provider \<Rightarrow> ((nat \<times> string \<times> jwt_family) \<times> 'k) list" where
  "provider_static_keys lib i p =
     concat (map (\<lambda>(kid, material).
       List.map_filter (\<lambda>family. map_option (\<lambda>k. ((i, kid, family), k)) (vl_material lib (representative family) material))
         all_families) (pv_keys p))"

definition provider_source ::
  "'k verify_lib \<Rightarrow> jwks_settings \<Rightarrow> deploy_env \<Rightarrow> jwt_provider \<Rightarrow> 'k jwks_source option option" where
  "provider_source lib settings e p =
     (case map_option trim (pv_jwks_url p) of
        Some url \<Rightarrow>
          if url \<noteq> [] then
            if \<not> url_allowed url e then None
            else if vl_client lib url then Some (Some (jwks_new url settings)) else None
          else Some None
      | None \<Rightarrow> Some None)"

fun retire_times :: "string hashmap \<Rightarrow> int hashmap option" where
  "retire_times [] = Some []"
| "retire_times ((kid, raw) # rest) =
     (case parse_not_after raw of
        None \<Rightarrow> None
      | Some t \<Rightarrow> map_option (\<lambda>m. (kid, t) # m) (retire_times rest))"

fun build_cache ::
  "'k verify_lib \<Rightarrow> jwks_settings \<Rightarrow> deploy_env \<Rightarrow> nat \<Rightarrow> jwt_provider list \<Rightarrow>
     (((nat \<times> string \<times> jwt_family) \<times> 'k) list \<times> 'k jwks_source option list \<times> int hashmap list) option" where
  "build_cache lib settings e i [] = Some ([], [], [])"
| "build_cache lib settings e i (p # ps) =
     (case provider_source lib settings e p of
        None \<Rightarrow> None
      | Some source \<Rightarrow>
          (case retire_times (pv_key_not_after p) of
             None \<Rightarrow> None
           | Some retire \<Rightarrow>
               map_option (\<lambda>(ks, js, rs). (provider_static_keys lib i p @ ks, source # js, retire # rs))
                 (build_cache lib settings e (i + 1) ps)))"

definition from_providers :: "'k verify_lib \<Rightarrow> environment \<Rightarrow> jwt_provider list \<Rightarrow> 'k verifier_cache" where
  "from_providers lib env providers =
     (case build_cache lib (jwks_settings_from_env env) (deploy_env_from env) 0 providers of
        None \<Rightarrow> failed_cache
      | Some (ks, js, rs) \<Rightarrow>
          \<lparr>vc_providers = providers, vc_keys = ks, vc_jwks = js, vc_retire_at = rs, vc_load_failed = False,
           vc_background = False\<rparr>)"

definition cache_from_env :: "'k verify_lib \<Rightarrow> auth_parsers \<Rightarrow> outside \<Rightarrow> 'k verifier_cache" where
  "cache_from_env lib ps w =
     (case load_jwt_providers ps w of Inr providers \<Rightarrow> from_providers lib (out_env w) providers | Inl _ \<Rightarrow> failed_cache)"

definition uses_jwks :: "'k verifier_cache \<Rightarrow> bool" where
  "uses_jwks cache = list_ex (\<lambda>s. s \<noteq> None) (vc_jwks cache)"

definition remote_source :: "'k verifier_cache \<Rightarrow> nat \<Rightarrow> 'k jwks_source option" where
  "remote_source cache i = (if i < length (vc_jwks cache) then vc_jwks cache ! i else None)"

definition decoding_key :: "'k verifier_cache \<Rightarrow> nat \<Rightarrow> string \<Rightarrow> algorithm \<Rightarrow> 'k option" where
  "decoding_key cache i kid alg =
     (case map_of (vc_keys cache) (i, kid, family_of alg) of
        Some key \<Rightarrow> Some key
      | None \<Rightarrow> Option.bind (remote_source cache i) (\<lambda>src. jwks_key src kid (family_of alg)))"

definition default_first :: "string list \<Rightarrow> string list" where
  "default_first kids = (if ''default'' \<in> set kids then ''default'' # remove1 ''default'' kids else kids)"

definition candidate_kids ::
  "environment \<Rightarrow> 'k verifier_cache \<Rightarrow> nat \<Rightarrow> jwt_provider \<Rightarrow> string option \<Rightarrow> string list" where
  "candidate_kids env cache i p kid =
     (case kid of
        Some k \<Rightarrow>
          if hm_contains (pv_keys p) k \<or> (case remote_source cache i of Some src \<Rightarrow> has_kid src k | None \<Rightarrow> False)
          then [k] else []
      | None \<Rightarrow>
          if require_kid env then []
          else default_first (sort (hm_keys (pv_keys p)) @
                 (case remote_source cache i of Some src \<Rightarrow> jwks_kids src | None \<Rightarrow> [])))"

definition is_retired :: "'k verifier_cache \<Rightarrow> nat \<Rightarrow> string \<Rightarrow> int \<Rightarrow> bool" where
  "is_retired cache i kid now =
     (case (if i < length (vc_retire_at cache) then hm_get (vc_retire_at cache ! i) kid else None) of
        Some t \<Rightarrow> t \<le> now | None \<Rightarrow> False)"

definition remote_unavailable :: "'k verifier_cache \<Rightarrow> nat \<Rightarrow> bool" where
  "remote_unavailable cache i = (case remote_source cache i of Some src \<Rightarrow> \<not> jwks_loaded src | None \<Rightarrow> False)"

text \<open>\<open>prepare_for_kid\<close>: every remote key set in turn; the i-th may be fetched with the i-th answer.\<close>

type_synonym fetch_times = "instant \<times> instant \<times> jwks_answer option"

definition prepare_for_kid ::
  "'k jwk_lib \<Rightarrow> 'k verifier_cache \<Rightarrow> string option \<Rightarrow> (nat \<Rightarrow> fetch_times) \<Rightarrow> 'k verifier_cache" where
  "prepare_for_kid jlib cache kid answers =
     cache\<lparr>vc_jwks := map (\<lambda>(i, s). map_option (\<lambda>src.
        case answers i of (t0, t1, an) \<Rightarrow> snd (refresh_if_needed jlib src kid (\<not> vc_background cache) t0 t1 an)) s)
        (List.enumerate 0 (vc_jwks cache))\<rparr>"

subsection \<open>Verifying a token\<close>

definition MAX_KIDLESS_KEY_TRIALS :: nat where "MAX_KIDLESS_KEY_TRIALS = 8"

text \<open>
  The mutable locals of the search. \<open>vs_tried\<close> is not in the code: it records the provider and key
  of every signature verification, in reverse order.
\<close>

record verify_state =
  vs_failure :: auth_failure_reason
  vs_remote_unavailable :: bool
  vs_kidless_trials :: nat
  vs_tried :: "(nat \<times> string) list"

datatype search = Accepted jwt_claims string | Capped | Exhausted

definition note_reason :: "auth_failure_reason \<Rightarrow> verify_state \<Rightarrow> verify_state" where
  "note_reason r st = (if specificity (vs_failure st) < specificity r then st\<lparr>vs_failure := r\<rparr> else st)"

definition provider_label :: "jwt_provider \<Rightarrow> string" where
  "provider_label p = (case pv_name p of Some n \<Rightarrow> n | None \<Rightarrow> ''provider'')"

definition decode_reason :: "decode_error \<Rightarrow> auth_failure_reason" where
  "decode_reason e = (case e of ExpiredSignature \<Rightarrow> Expired | SignatureMismatch \<Rightarrow> InvalidSignature | OtherError \<Rightarrow> MalformedToken)"

definition count_trial :: "nat \<Rightarrow> string \<Rightarrow> string option \<Rightarrow> verify_state \<Rightarrow> verify_state" where
  "count_trial i k kid st =
     st\<lparr>vs_kidless_trials := vs_kidless_trials st + (if kid = None then 1 else 0), vs_tried := (i, k) # vs_tried st\<rparr>"

fun try_kids ::
  "'k verify_lib \<Rightarrow> 'k verifier_cache \<Rightarrow> string \<Rightarrow> string option \<Rightarrow> validation \<Rightarrow> int \<Rightarrow> nat \<Rightarrow> jwt_provider \<Rightarrow>
     string list \<Rightarrow> verify_state \<Rightarrow> search \<times> verify_state" where
  "try_kids lib cache bearer kid va now i p [] st = (Exhausted, st)"
| "try_kids lib cache bearer kid va now i p (k # ks) st =
     (if is_retired cache i k now then try_kids lib cache bearer kid va now i p ks (note_reason KeyRetired st)
      else case decoding_key cache i k (va_alg va) of
             None \<Rightarrow> try_kids lib cache bearer kid va now i p ks st
           | Some key \<Rightarrow>
               if kid = None \<and> MAX_KIDLESS_KEY_TRIALS \<le> vs_kidless_trials st then (Capped, st)
               else
                 let st1 = count_trial i k kid st
                 in case vl_decode lib bearer key va now of
                      Inl e \<Rightarrow> try_kids lib cache bearer kid va now i p ks (note_reason (decode_reason e) st1)
                    | Inr claims \<Rightarrow>
                        (case validate_provider_claims claims p of
                           Inl _ \<Rightarrow> try_kids lib cache bearer kid va now i p ks (note_reason ClaimsRejected st1)
                         | Inr _ \<Rightarrow> (Accepted claims (provider_label p), st1)))"

fun try_providers ::
  "'k verify_lib \<Rightarrow> environment \<Rightarrow> 'k verifier_cache \<Rightarrow> string \<Rightarrow> string option \<Rightarrow> validation \<Rightarrow> int \<Rightarrow> nat \<Rightarrow>
     jwt_provider list \<Rightarrow> verify_state \<Rightarrow> search \<times> verify_state" where
  "try_providers lib env cache bearer kid va now i [] st = (Exhausted, st)"
| "try_providers lib env cache bearer kid va now i (p # ps) st =
     (let kids = candidate_kids env cache i p kid;
          st1 = (if kids = [] \<and> remote_unavailable cache i then st\<lparr>vs_remote_unavailable := True\<rparr> else st)
      in case try_kids lib cache bearer kid va now i p kids st1 of
           (Exhausted, st2) \<Rightarrow> try_providers lib env cache bearer kid va now (i + 1) ps st2
         | (r, st2) \<Rightarrow> (r, st2))"

definition bearer_token :: "http_request \<Rightarrow> string option" where
  "bearer_token req = Option.bind (hm_get (rq_headers req) ''authorization'') (strip_prefix ''Bearer '')"

definition search_start :: verify_state where
  "search_start = \<lparr>vs_failure = UnknownKey, vs_remote_unavailable = False, vs_kidless_trials = 0, vs_tried = []\<rparr>"

definition search_failure :: "verify_state \<Rightarrow> auth_failure" where
  "search_failure st =
     (if vs_failure st = UnknownKey \<and> vs_remote_unavailable st then failure_new 503 ProviderUnavailable
      else unauthorized (vs_failure st))"

definition grant :: "auth_policy \<Rightarrow> string \<Rightarrow> jwt_claims \<Rightarrow> string \<Rightarrow> auth_failure + auth_context" where
  "grant pol path claims provider_name =
     (if cl_token_use claims = Some ''refresh'' then Inl (unauthorized RefreshTokenRejected)
      else
        let scopes = scopes_from_claims claims; roles = roles_from_claims claims; tenant = tenant_from_claims claims
        in case enforce pol path claims tenant scopes roles of
             Inl status \<Rightarrow> Inl (failure_new status (if status = 500 then Misconfigured else PolicyDenied))
           | Inr _ \<Rightarrow>
               Inr \<lparr>ac_subject = cl_sub claims, ac_issuer = cl_iss claims, ac_provider = Some provider_name,
                    ac_token_id = cl_jti claims, ac_token_use = cl_token_use claims, ac_tenant_id = tenant,
                    ac_scopes = scopes, ac_roles = roles\<rparr>)"

definition authorize_jwt_detailed ::
  "'k verify_lib \<Rightarrow> environment \<Rightarrow> http_request \<Rightarrow> string \<Rightarrow> 'k verifier_cache \<Rightarrow> auth_policy \<Rightarrow> int \<Rightarrow>
     auth_failure + auth_context" where
  "authorize_jwt_detailed lib env req path cache pol now =
     (case bearer_token req of
        None \<Rightarrow> Inl (unauthorized MissingCredentials)
      | Some bearer \<Rightarrow>
          (case vl_header lib bearer of
             None \<Rightarrow> Inl (unauthorized MalformedToken)
           | Some (alg, kid) \<Rightarrow>
               (case configured_jwt_algorithms env of
                  Inl status \<Rightarrow> Inl (failure_new status Misconfigured)
                | Inr allowed_algs \<Rightarrow>
                    if alg \<notin> set allowed_algs \<or> \<not> jwt_algorithm_allowed env (debug_algorithm alg)
                    then Inl (unauthorized AlgorithmRejected)
                    else if vc_load_failed cache then Inl (failure_new 503 Misconfigured)
                    else
                      let va = \<lparr>va_alg = alg, va_algorithms = allowed_algs, va_leeway = jwt_leeway_secs env\<rparr>
                      in case try_providers lib env cache bearer kid va now 0 (vc_providers cache) search_start of
                           (Accepted claims provider_name, _) \<Rightarrow> grant pol path claims provider_name
                         | (_, st) \<Rightarrow> Inl (search_failure st))))"

definition authorize_with_jwt_cached ::
  "'k verify_lib \<Rightarrow> auth_parsers \<Rightarrow> environment \<Rightarrow> http_request \<Rightarrow> string \<Rightarrow> 'k verifier_cache \<Rightarrow> int \<Rightarrow>
     nat + auth_context" where
  "authorize_with_jwt_cached lib ps env req path cache now =
     map_sum af_status id (authorize_jwt_detailed lib env req path cache (auth_policy_from_env ps env) now)"

definition authorize_with_jwt ::
  "'k verify_lib \<Rightarrow> auth_parsers \<Rightarrow> outside \<Rightarrow> http_request \<Rightarrow> string \<Rightarrow> int \<Rightarrow> nat + auth_context" where
  "authorize_with_jwt lib ps w req path now =
     authorize_with_jwt_cached lib ps (out_env w) req path (cache_from_env lib ps w) now"

subsection \<open>The static token\<close>

definition static_context :: auth_context where
  "static_context =
     \<lparr>ac_subject = Some ''static-token-client'', ac_issuer = Some ''krab.static'', ac_provider = Some ''static'',
      ac_token_id = None, ac_token_use = None, ac_tenant_id = None, ac_scopes = [], ac_roles = []\<rparr>"

definition authorize_static_detailed :: "outside \<Rightarrow> http_request \<Rightarrow> auth_failure + auth_context" where
  "authorize_static_detailed w req =
     (case read_env_or_file (out_env w) (out_fs w) ''KRAB_BEARER_TOKEN'' of
        Inr (Some token) \<Rightarrow>
          if trim token = [] then Inl (failure_new 503 ProviderUnavailable)
          else (case hm_get (rq_headers req) ''authorization'' of
                  None \<Rightarrow> Inl (unauthorized MissingCredentials)
                | Some presented \<Rightarrow>
                    if \<not> constant_time_eq (as_bytes presented) (as_bytes (''Bearer '' @ token))
                    then Inl (unauthorized CredentialMismatch) else Inr static_context)
      | _ \<Rightarrow> Inl (failure_new 503 ProviderUnavailable))"

subsection \<open>What the search finds\<close>

text \<open>Key \<open>k\<close> of provider \<open>p\<close> at index \<open>i\<close> verifies the token, and the provider accepts the claims.\<close>

definition verifies ::
  "'k verify_lib \<Rightarrow> 'k verifier_cache \<Rightarrow> string \<Rightarrow> validation \<Rightarrow> int \<Rightarrow> nat \<Rightarrow> jwt_provider \<Rightarrow> string \<Rightarrow> jwt_claims \<Rightarrow> bool" where
  "verifies lib cache bearer va now i p k claims \<longleftrightarrow>
     \<not> is_retired cache i k now \<and>
     (\<exists>key. decoding_key cache i k (va_alg va) = Some key \<and> vl_decode lib bearer key va now = Inr claims) \<and>
     validate_provider_claims claims p = Inr ()"

lemma note_reason_same [simp]:
  "vs_remote_unavailable (note_reason r st) = vs_remote_unavailable st"
  "vs_kidless_trials (note_reason r st) = vs_kidless_trials st"
  "vs_tried (note_reason r st) = vs_tried st"
  by (simp_all add: note_reason_def)

lemma try_kids_accepted:
  "try_kids lib cache bearer kid va now i p ks st = (Accepted claims n, st') \<Longrightarrow>
     (\<exists>k \<in> set ks. verifies lib cache bearer va now i p k claims) \<and> n = provider_label p"
  by (induction lib cache bearer kid va now i p ks st rule: try_kids.induct)
    (auto simp: verifies_def Let_def split: if_splits option.splits sum.splits)

lemma try_providers_accepted:
  "try_providers lib env cache bearer kid va now i ps st = (Accepted claims n, st') \<Longrightarrow>
     \<exists>j < length ps. \<exists>k \<in> set (candidate_kids env cache (i + j) (ps ! j) kid).
       verifies lib cache bearer va now (i + j) (ps ! j) k claims \<and> n = provider_label (ps ! j)"
proof (induction lib env cache bearer kid va now i ps st rule: try_providers.induct)
  case (1 lib env cache bearer kid va now i st)
  then show ?case by simp
next
  case (2 lib env cache bearer kid va now i p ps st)
  define st1 where "st1 = (if candidate_kids env cache i p kid = [] \<and> remote_unavailable cache i
    then st\<lparr>vs_remote_unavailable := True\<rparr> else st)"
  obtain r st2 where t: "try_kids lib cache bearer kid va now i p (candidate_kids env cache i p kid) st1 = (r, st2)"
    by (cases "try_kids lib cache bearer kid va now i p (candidate_kids env cache i p kid) st1")
  show ?case
  proof (cases r)
    case (Accepted c m)
    with "2.prems" t have "c = claims" "m = n" by (auto simp: st1_def [symmetric])
    with try_kids_accepted [OF t [unfolded Accepted]] show ?thesis
      by (intro exI [of _ 0]) auto
  next
    case Capped
    with "2.prems" t show ?thesis by (auto simp: st1_def [symmetric])
  next
    case Exhausted
    with "2.prems" t have "try_providers lib env cache bearer kid va now (i + 1) ps st2 = (Accepted claims n, st')"
      by (auto simp: st1_def [symmetric])
    with "2.IH" [OF refl st1_def t [symmetric] Exhausted]
    obtain j where "j < length ps" "\<exists>k \<in> set (candidate_kids env cache (i + 1 + j) (ps ! j) kid).
        verifies lib cache bearer va now (i + 1 + j) (ps ! j) k claims \<and> n = provider_label (ps ! j)"
      by auto
    then show ?thesis by (intro exI [of _ "Suc j"]) simp
  qed
qed

text \<open>Every verification is logged; without a \<open>kid\<close> the trials are counted and capped.\<close>

definition trials_ok :: "string option \<Rightarrow> verify_state \<Rightarrow> bool" where
  "trials_ok kid st \<longleftrightarrow>
     (kid = None \<longrightarrow> length (vs_tried st) = vs_kidless_trials st \<and> vs_kidless_trials st \<le> MAX_KIDLESS_KEY_TRIALS)"

lemma try_kids_trials:
  "try_kids lib cache bearer kid va now i p ks st = (r, st') \<Longrightarrow> trials_ok kid st \<Longrightarrow> trials_ok kid st'"
  by (induction lib cache bearer kid va now i p ks st rule: try_kids.induct)
    (auto simp: trials_ok_def count_trial_def Let_def split: if_splits option.splits sum.splits)

lemma candidate_named: "candidate_kids env cache i p (Some k) \<in> {[], [k]}"
  by (simp add: candidate_kids_def)

lemma try_kids_named:
  assumes "try_kids lib cache bearer (Some k) va now i p [k] st = (r, st')"
  shows "(r = Exhausted \<or> (\<exists>c n. r = Accepted c n)) \<and>
     ((\<exists>c n. r = Accepted c n) \<longleftrightarrow> (\<exists>c. verifies lib cache bearer va now i p k c)) \<and>
     (vs_tried st' = vs_tried st \<or> vs_tried st' = (i, k) # vs_tried st)"
  using assms
  by (auto simp: verifies_def count_trial_def Let_def split: if_splits option.splits sum.splits)

lemma ex_index_Cons:
  "(\<exists>j < length (p # ps). P (i + j) ((p # ps) ! j)) \<longleftrightarrow> P i p \<or> (\<exists>j < length ps. P (Suc i + j) (ps ! j))"
proof
  assume "\<exists>j < length (p # ps). P (i + j) ((p # ps) ! j)"
  then obtain j where "j < length (p # ps)" "P (i + j) ((p # ps) ! j)" by blast
  then show "P i p \<or> (\<exists>j < length ps. P (Suc i + j) (ps ! j))" by (cases j) auto
next
  assume "P i p \<or> (\<exists>j < length ps. P (Suc i + j) (ps ! j))"
  then show "\<exists>j < length (p # ps). P (i + j) ((p # ps) ! j)"
    by (elim disjE exE conjE) (rule exI [of _ 0], simp, rule_tac x = "Suc j" in exI, simp)
qed

lemma try_providers_named:
  "try_providers lib env cache bearer (Some k) va now i ps st = (r, st') \<Longrightarrow>
     length (vs_tried st') \<le> length (vs_tried st) + length ps \<and>
     ((\<exists>c n. r = Accepted c n) \<longleftrightarrow>
        (\<exists>j < length ps. candidate_kids env cache (i + j) (ps ! j) (Some k) = [k] \<and>
           (\<exists>c. verifies lib cache bearer va now (i + j) (ps ! j) k c)))"
proof (induction ps arbitrary: i st)
  case Nil
  then show ?case by simp
next
  case (Cons p ps)
  let ?ks = "candidate_kids env cache i p (Some k)"
  define st1 where "st1 = (if ?ks = [] \<and> remote_unavailable cache i then st\<lparr>vs_remote_unavailable := True\<rparr> else st)"
  have [simp]: "vs_tried st1 = vs_tried st" by (simp add: st1_def)
  obtain r1 st2 where t: "try_kids lib cache bearer (Some k) va now i p ?ks st1 = (r1, st2)"
    by (cases "try_kids lib cache bearer (Some k) va now i p ?ks st1")
  have first: "(r1 = Exhausted \<or> (\<exists>c n. r1 = Accepted c n)) \<and> length (vs_tried st2) \<le> length (vs_tried st) + 1 \<and>
      ((\<exists>c n. r1 = Accepted c n) \<longleftrightarrow> ?ks = [k] \<and> (\<exists>c. verifies lib cache bearer va now i p k c))"
  proof (cases "?ks = []")
    case True
    with t have "r1 = Exhausted" and "vs_tried st2 = vs_tried st1" by auto
    with True show ?thesis by simp
  next
    case False
    with candidate_named [of env cache i p k] have ks: "?ks = [k]" by simp
    from try_kids_named [OF t [unfolded ks]] ks show ?thesis by auto
  qed
  define found where "found = (\<lambda>j q. candidate_kids env cache j q (Some k) = [k] \<and>
    (\<exists>c. verifies lib cache bearer va now j q k c))"
  have goal: "length (vs_tried st') \<le> length (vs_tried st) + length (p # ps) \<and>
      ((\<exists>c n. r = Accepted c n) \<longleftrightarrow> found i p \<or> (\<exists>j < length ps. found (Suc i + j) (ps ! j)))"
  proof (cases "\<exists>c n. r1 = Accepted c n")
    case True
    with Cons.prems t have "r = r1" "st' = st2" by (auto simp: st1_def [symmetric])
    with True first show ?thesis unfolding found_def by auto
  next
    case False
    with first have e: "r1 = Exhausted" by blast
    with Cons.prems t have "try_providers lib env cache bearer (Some k) va now (Suc i) ps st2 = (r, st')"
      by (auto simp: st1_def [symmetric])
    from Cons.IH [OF this] have "length (vs_tried st') \<le> length (vs_tried st2) + length ps"
      and "(\<exists>c n. r = Accepted c n) \<longleftrightarrow> (\<exists>j < length ps. found (Suc i + j) (ps ! j))"
      unfolding found_def by blast+
    moreover have "\<not> found i p" using first False unfolding found_def by blast
    ultimately show ?thesis using first by auto
  qed
  then show ?case using ex_index_Cons [of p ps found i] unfolding found_def by simp
qed

lemma try_providers_trials:
  "try_providers lib env cache bearer kid va now i ps st = (r, st') \<Longrightarrow> trials_ok kid st \<Longrightarrow> trials_ok kid st'"
proof (induction ps arbitrary: i st)
  case Nil
  then show ?case by simp
next
  case (Cons p ps)
  define st1 where "st1 = (if candidate_kids env cache i p kid = [] \<and> remote_unavailable cache i
    then st\<lparr>vs_remote_unavailable := True\<rparr> else st)"
  have 1: "trials_ok kid st1" using Cons.prems(2) by (simp add: trials_ok_def st1_def)
  obtain r1 st2 where t: "try_kids lib cache bearer kid va now i p (candidate_kids env cache i p kid) st1 = (r1, st2)"
    by (cases "try_kids lib cache bearer kid va now i p (candidate_kids env cache i p kid) st1")
  note 2 = try_kids_trials [OF t 1]
  show ?case
    using Cons.prems(1) t 2 Cons.IH [of "Suc i" st2] by (cases r1) (auto simp: st1_def [symmetric])
qed

text \<open>
  what a token costs, and what its key id means. A token without a \<open>kid\<close> costs at most eight
  signature verifications over all providers and keys. A token that names a \<open>kid\<close> costs at most one
  per provider, and it is accepted exactly when some provider that knows this key verifies it: a key
  of another name, or of a provider that does not accept the claims, never decides.
\<close>

theorem token_search_is_bounded_and_exact:
  assumes "try_providers lib env cache bearer kid va now 0 (vc_providers cache) search_start = (r, st)"
  shows "case kid of
           None \<Rightarrow> length (vs_tried st) \<le> 8
         | Some k \<Rightarrow>
             length (vs_tried st) \<le> length (vc_providers cache) \<and>
             ((\<exists>claims n. r = Accepted claims n) \<longleftrightarrow>
                (\<exists>i < length (vc_providers cache).
                   candidate_kids env cache i (vc_providers cache ! i) (Some k) = [k] \<and>
                   (\<exists>claims. verifies lib cache bearer va now i (vc_providers cache ! i) k claims)))"
proof (cases kid)
  case None
  have "trials_ok kid search_start" by (simp add: trials_ok_def search_start_def)
  from try_providers_trials [OF assms this] None show ?thesis by (simp add: trials_ok_def MAX_KIDLESS_KEY_TRIALS_def)
next
  case (Some k)
  from try_providers_named [OF assms [unfolded Some]] Some show ?thesis by (simp add: search_start_def)
qed

definition sample_claims :: jwt_claims where
  "sample_claims = \<lparr>cl_sub = Some ''ann'', cl_iss = Some ''https://id'', cl_aud = Some (JString ''api''), cl_exp = Some 9,
     cl_jti = Some ''t1'', cl_token_use = None, cl_tid = None, cl_tenant_id = Some ''acme'', cl_scope = Some ''read'',
     cl_scp = None, cl_roles = None, cl_role = None, cl_extra = []\<rparr>"

definition sample_verify_lib :: "nat verify_lib" where
  "sample_verify_lib = \<lparr>vl_header = \<lambda>t. Some (HS256, Some ''k1''), vl_material = \<lambda>a m. if a = HS256 then Some 7 else None,
     vl_client = \<lambda>u. True, vl_decode = \<lambda>t key va now. if key = 7 then Inr sample_claims else Inl SignatureMismatch\<rparr>"

definition sample_provider :: jwt_provider where
  "sample_provider = \<lparr>pv_name = None, pv_issuer = Some ''https://id'', pv_audience = Some ''api'',
     pv_keys = [(''k1'', ''secret'')], pv_required_claims = [], pv_jwks_url = None, pv_key_not_after = []\<rparr>"

definition sample_cache :: "nat verifier_cache" where
  "sample_cache = from_providers sample_verify_lib (\<lambda>_. None) [sample_provider]"

definition sample_policy :: auth_policy where
  "sample_policy = \<lparr>ap_required_scopes = [''read''], ap_required_roles = [], ap_admin_scope = ''admin'', ap_admin_role = ''admin'',
     ap_require_tenant_claim = True, ap_require_tenant_match = True, ap_route_policies = Some [],
     ap_required_claims = Some []\<rparr>"

definition sample_request :: http_request where
  "sample_request = \<lparr>rq_method = ''GET'', rq_path = ''/tenants/acme'', rq_headers = [(''authorization'', ''Bearer t'')],
     rq_peer_ip = None\<rparr>"

lemma sample_search:
  "try_providers sample_verify_lib (\<lambda>_. None) sample_cache ''t'' (Some ''k1'')
     \<lparr>va_alg = HS256, va_algorithms = [HS256], va_leeway = 30\<rparr> 0 0 (vc_providers sample_cache) search_start =
   (Accepted sample_claims ''provider'', search_start\<lparr>vs_tried := [(0, ''k1'')]\<rparr>)"
  by (simp add: sample_cache_def from_providers_def provider_source_def sample_provider_def provider_static_keys_def
      all_families_def representative_def sample_verify_lib_def List.map_filter_def candidate_kids_def remote_source_def
      is_retired_def decoding_key_def family_of_def Let_def count_trial_def validate_provider_claims_def sample_claims_def
      audience_matches_def provider_label_def search_start_def)

theorem token_search_is_bounded_and_exact_witness:
  "\<exists>i < length (vc_providers sample_cache).
     \<exists>claims. verifies sample_verify_lib sample_cache ''t'' \<lparr>va_alg = HS256, va_algorithms = [HS256], va_leeway = 30\<rparr> 0 i
                (vc_providers sample_cache ! i) ''k1'' claims"
  using token_search_is_bounded_and_exact [OF sample_search] by auto

subsection \<open>What acceptance means\<close>

lemma configured_one_family:
  assumes "configured_jwt_algorithms env = Inr allowed" and "a \<in> set allowed" and "b \<in> set allowed"
  shows "is_hmac_algorithm a = is_hmac_algorithm b"
  using assms
  by (auto simp: configured_jwt_algorithms_def Let_def list_ex_iff is_hmac_algorithm_def split: option.splits if_splits)

text \<open>The allowlist as its documentation puts it: HS256 alone unless the variable lists names, in any case.\<close>

definition algorithm_permitted :: "environment \<Rightarrow> algorithm \<Rightarrow> bool" where
  "algorithm_permitted env alg =
     (case env ''KRAB_JWT_ALLOWED_ALGS'' of
        None \<Rightarrow> alg = HS256
      | Some raw \<Rightarrow> list_ex (\<lambda>name. ascii_upper (trim name) = ascii_upper (debug_algorithm alg)) (split_on (\<lambda>c. c = CHR '','') raw))"

lemma parsed_algorithm_name: "parse_jwt_algorithm name = Some a \<Longrightarrow> ascii_upper (trim name) = ascii_upper (debug_algorithm a)"
proof -
  have "list_all (\<lambda>(n, b). n = ascii_upper (debug_algorithm b)) algorithm_names" by code_simp
  then show "parse_jwt_algorithm name = Some a \<Longrightarrow> ascii_upper (trim name) = ascii_upper (debug_algorithm a)"
    by (auto simp: parse_jwt_algorithm_def list_all_iff dest!: map_of_SomeD)
qed

lemma collected_algorithm:
  "a \<in> set (collect_algorithms names acc) \<Longrightarrow> a \<in> set acc \<or> (\<exists>name \<in> set names. parse_jwt_algorithm name = Some a)"
  by (induction names acc rule: collect_algorithms.induct) (auto split: option.splits if_splits)

lemma configured_permitted:
  assumes "configured_jwt_algorithms env = Inr allowed" and "alg \<in> set allowed"
  shows "algorithm_permitted env alg"
proof (cases "env ''KRAB_JWT_ALLOWED_ALGS''")
  case (Some raw)
  then have "alg \<in> set (collect_algorithms (parse_csv_set raw) [])"
    using assms by (simp add: configured_jwt_algorithms_def Let_def split: if_splits)
  then obtain name where name: "name \<in> set (parse_csv_set raw)" "parse_jwt_algorithm name = Some alg"
    using collected_algorithm by fastforce
  then obtain piece where "piece \<in> set (split_on (\<lambda>c. c = CHR '','') raw)" "name = trim piece"
    by (auto simp: parse_csv_set_def)
  then show ?thesis
    using Some parsed_algorithm_name [OF name(2)] by (auto simp: algorithm_permitted_def list_ex_iff trim_idem)
qed (use assms in \<open>auto simp: configured_jwt_algorithms_def algorithm_permitted_def\<close>)

lemma validate_provider_claims_ok:
  assumes "validate_provider_claims c p = Inr ()"
  shows "(\<forall>iss. pv_issuer p = Some iss \<longrightarrow> cl_iss c = Some iss) \<and>
         (\<forall>aud. pv_audience p = Some aud \<longrightarrow> audience_matches (cl_aud c) aud) \<and>
         (\<forall>(k, v) \<in> set (pv_required_claims p). hm_get (claims_obj c) k = Some v)"
  using assms by (auto simp: validate_provider_claims_def check_required_ok split: if_splits option.splits)

lemma grant_ok:
  assumes "grant pol path c n = Inr ctx"
  shows "cl_token_use c \<noteq> Some ''refresh''"
    and "enforce pol path c (tenant_from_claims c) (scopes_from_claims c) (roles_from_claims c) = Inr ()"
    and "ctx = \<lparr>ac_subject = cl_sub c, ac_issuer = cl_iss c, ac_provider = Some n, ac_token_id = cl_jti c,
           ac_token_use = cl_token_use c, ac_tenant_id = tenant_from_claims c, ac_scopes = scopes_from_claims c,
           ac_roles = roles_from_claims c\<rparr>"
  using assms by (auto simp: grant_def Let_def split: if_splits sum.splits)

lemma candidate_named_mem: "k \<in> set (candidate_kids env cache i p kid) \<Longrightarrow> kid = None \<and> \<not> require_kid env \<or> kid = Some k"
  by (cases kid) (auto simp: candidate_kids_def split: if_splits)

lemma authorize_accepts:
  assumes "authorize_jwt_detailed lib env req path cache pol now = Inr ctx"
  obtains bearer alg kid allowed i k claims where
    "bearer_token req = Some bearer" "vl_header lib bearer = Some (alg, kid)"
    "configured_jwt_algorithms env = Inr allowed" "alg \<in> set allowed" "\<not> vc_load_failed cache"
    "i < length (vc_providers cache)" "k \<in> set (candidate_kids env cache i (vc_providers cache ! i) kid)"
    "verifies lib cache bearer \<lparr>va_alg = alg, va_algorithms = allowed, va_leeway = jwt_leeway_secs env\<rparr> now i
       (vc_providers cache ! i) k claims"
    "grant pol path claims (provider_label (vc_providers cache ! i)) = Inr ctx"
proof -
  obtain bearer alg kid allowed where 1: "bearer_token req = Some bearer" "vl_header lib bearer = Some (alg, kid)"
    "configured_jwt_algorithms env = Inr allowed" "alg \<in> set allowed" "\<not> vc_load_failed cache"
    using assms by (auto simp: authorize_jwt_detailed_def split: option.splits sum.splits if_splits)
  let ?va = "\<lparr>va_alg = alg, va_algorithms = allowed, va_leeway = jwt_leeway_secs env\<rparr>"
  obtain r st where t: "try_providers lib env cache bearer kid ?va now 0 (vc_providers cache) search_start = (r, st)"
    by (cases "try_providers lib env cache bearer kid ?va now 0 (vc_providers cache) search_start")
  with 1 assms obtain claims n where a: "r = Accepted claims n" and g: "grant pol path claims n = Inr ctx"
    by (cases r) (auto simp: authorize_jwt_detailed_def Let_def split: if_splits)
  from try_providers_accepted [OF t [unfolded a]] obtain i k where
    2: "i < length (vc_providers cache)" "k \<in> set (candidate_kids env cache i (vc_providers cache ! i) kid)"
      "verifies lib cache bearer ?va now i (vc_providers cache ! i) k claims" "n = provider_label (vc_providers cache ! i)"
    by auto
  show ?thesis by (rule that [OF 1 2(1-3) g [unfolded 2(4)]])
qed

text \<open>
  C7: an accepted token has been verified, in every configuration. Its algorithm is on the allowlist of the
  environment (HS256 alone when none is given), which has a single family; a provider's key, the one the token names
  if it names one, has not been retired and verified its signature and expiry; the provider's issuer,
  audience and required claims match; it is no refresh token; the policy holds, so admin paths have the admin scope or role
  and tenant paths the token's tenant; and the caller's identity consists of the claims of that token.
\<close>

theorem accepted_token_is_verified:
  assumes "authorize_jwt_detailed lib env req path cache pol now = Inr ctx"
  shows "\<exists>bearer alg kid allowed i k key claims.
     bearer_token req = Some bearer \<and> vl_header lib bearer = Some (alg, kid) \<and>
     configured_jwt_algorithms env = Inr allowed \<and> alg \<in> set allowed \<and> algorithm_permitted env alg \<and>
     (\<forall>a \<in> set allowed. is_hmac_algorithm a = is_hmac_algorithm alg) \<and>
     i < length (vc_providers cache) \<and> (kid = None \<and> \<not> require_kid env \<or> kid = Some k) \<and>
     \<not> is_retired cache i k now \<and> decoding_key cache i k alg = Some key \<and>
     vl_decode lib bearer key \<lparr>va_alg = alg, va_algorithms = allowed, va_leeway = jwt_leeway_secs env\<rparr> now = Inr claims \<and>
     (\<forall>iss. pv_issuer (vc_providers cache ! i) = Some iss \<longrightarrow> cl_iss claims = Some iss) \<and>
     (\<forall>aud. pv_audience (vc_providers cache ! i) = Some aud \<longrightarrow> audience_matches (cl_aud claims) aud) \<and>
     (\<forall>(c, v) \<in> set (pv_required_claims (vc_providers cache ! i)). hm_get (claims_obj claims) c = Some v) \<and>
     cl_token_use claims \<noteq> Some ''refresh'' \<and>
     (is_admin_api_path path \<longrightarrow> has_admin_entitlement pol ctx) \<and>
     (ap_require_tenant_match pol \<longrightarrow> (\<forall>t. tenant_from_path path = Some t \<longrightarrow> ac_tenant_id ctx = Some t)) \<and>
     enforce pol path claims (ac_tenant_id ctx) (ac_scopes ctx) (ac_roles ctx) = Inr () \<and>
     ac_subject ctx = cl_sub claims \<and> ac_issuer ctx = cl_iss claims \<and> ac_token_id ctx = cl_jti claims"
proof -
  obtain bearer alg kid allowed i k claims where
    1: "bearer_token req = Some bearer" "vl_header lib bearer = Some (alg, kid)"
    and 2: "configured_jwt_algorithms env = Inr allowed" "alg \<in> set allowed"
    and 3: "i < length (vc_providers cache)" "k \<in> set (candidate_kids env cache i (vc_providers cache ! i) kid)"
    and v: "verifies lib cache bearer \<lparr>va_alg = alg, va_algorithms = allowed, va_leeway = jwt_leeway_secs env\<rparr> now i
       (vc_providers cache ! i) k claims"
    and g: "grant pol path claims (provider_label (vc_providers cache ! i)) = Inr ctx"
    by (rule authorize_accepts [OF assms])
  have e: "enforce pol path claims (ac_tenant_id ctx) (ac_scopes ctx) (ac_roles ctx) = Inr ()"
    using grant_ok(2,3) [OF g] by simp
  have admin: "is_admin_api_path path \<longrightarrow> has_admin_entitlement pol ctx"
    and tenant: "ap_require_tenant_match pol \<longrightarrow> (\<forall>t. tenant_from_path path = Some t \<longrightarrow> ac_tenant_id ctx = Some t)"
    using e unfolding enforce_ok has_admin_entitlement_def by auto
  have family: "\<forall>a \<in> set allowed. is_hmac_algorithm a = is_hmac_algorithm alg"
    using configured_one_family [OF 2(1) _ 2(2)] by blast
  from v obtain key where d: "\<not> is_retired cache i k now" "decoding_key cache i k alg = Some key"
    "vl_decode lib bearer key \<lparr>va_alg = alg, va_algorithms = allowed, va_leeway = jwt_leeway_secs env\<rparr> now = Inr claims"
    "validate_provider_claims claims (vc_providers cache ! i) = Inr ()"
    by (auto simp: verifies_def)
  note claims = validate_provider_claims_ok [OF d(4)]
  have "cl_token_use claims \<noteq> Some ''refresh''" "ac_subject ctx = cl_sub claims" "ac_issuer ctx = cl_iss claims" "ac_token_id ctx = cl_jti claims"
    using grant_ok(1,3) [OF g] by simp_all
  with 1 2 configured_permitted [OF 2] 3(1) candidate_named_mem [OF 3(2)] family d(1-3) conjunct1 [OF claims]
    conjunct1 [OF conjunct2 [OF claims]] conjunct2 [OF conjunct2 [OF claims]] admin tenant e
  show ?thesis
    by - (rule exI [of _ bearer], rule exI [of _ alg], rule exI [of _ kid], rule exI [of _ allowed], rule exI [of _ i],
      rule exI [of _ k], rule exI [of _ key], rule exI [of _ claims], intro conjI; assumption)
qed

definition sample_context :: auth_context where
  "sample_context = \<lparr>ac_subject = Some ''ann'', ac_issuer = Some ''https://id'', ac_provider = Some ''provider'',
     ac_token_id = Some ''t1'', ac_token_use = None, ac_tenant_id = Some ''acme'', ac_scopes = [''read''], ac_roles = []\<rparr>"

lemma sample_grant: "grant sample_policy ''/tenants/acme'' sample_claims ''provider'' = Inr sample_context"
  by code_simp

lemma sample_allowed: "jwt_algorithm_allowed (\<lambda>_. None) (debug_algorithm HS256)"
  by code_simp

lemma sample_accepts:
  "authorize_jwt_detailed sample_verify_lib (\<lambda>_. None) sample_request ''/tenants/acme'' sample_cache sample_policy 0 =
     Inr sample_context"
proof -
  have b: "bearer_token sample_request = Some ''t''"
    by (simp add: bearer_token_def sample_request_def strip_prefix_def)
  have c: "\<not> vc_load_failed sample_cache"
    by (simp add: sample_cache_def from_providers_def provider_source_def sample_provider_def)
  have l: "jwt_leeway_secs (\<lambda>_. None) = 30" by (simp add: jwt_leeway_secs_def env_u64_def)
  have h: "vl_header sample_verify_lib ''t'' = Some (HS256, Some ''k1'')" by (simp add: sample_verify_lib_def)
  have a: "configured_jwt_algorithms (\<lambda>_. None) = Inr [HS256]" by (simp add: configured_jwt_algorithms_def)
  show ?thesis
    unfolding authorize_jwt_detailed_def b option.case h prod.case a sum.case l
    using c sample_allowed sample_search sample_grant by simp
qed

theorem accepted_token_is_verified_witness:
  "\<exists>alg kid i k key. vl_header sample_verify_lib ''t'' = Some (alg, kid) \<and> algorithm_permitted (\<lambda>_. None) alg \<and>
     i < length (vc_providers sample_cache) \<and> \<not> is_retired sample_cache i k 0 \<and> decoding_key sample_cache i k alg = Some (key :: nat)"
proof -
  obtain bearer alg kid i k key where "bearer_token sample_request = Some bearer" "vl_header sample_verify_lib bearer = Some (alg, kid)"
    "algorithm_permitted (\<lambda>_. None) alg" "i < length (vc_providers sample_cache)" "\<not> is_retired sample_cache i k 0"
    "decoding_key sample_cache i k alg = Some (key :: nat)"
    using accepted_token_is_verified [OF sample_accepts] by (elim exE conjE) (rule that)
  moreover have "bearer_token sample_request = Some ''t''"
    by (simp add: bearer_token_def sample_request_def strip_prefix_def)
  ultimately show ?thesis by (intro exI conjI) simp_all
qed

text \<open>
  A bundle that is an empty array passes validation without an issuer and an audience, and the gate then falls back
  to its default provider, which has the mounted key and demands neither of a token.
\<close>

definition empty_bundle_env :: environment where
  "empty_bundle_env = map_of [(''KRAB_ENVIRONMENT'', ''prod''), (''KRAB_CORS_ORIGINS'', ''https://a''),
     (''KRAB_JWT_PROVIDERS_JSON_FILE'', ''/b''), (''KRAB_JWT_SECRET_FILE'', ''/s'')]"

definition empty_bundle_world :: outside where
  "empty_bundle_world =
     \<lparr>out_env = empty_bundle_env, out_fs = map_of [(''/b'', ''[]''), (''/s'', ''k1'')],
      out_json = (\<lambda>raw. if raw = ''[]'' then Some (JArray []) else None)\<rparr>"

definition empty_bundle_parsers :: auth_parsers where
  "empty_bundle_parsers =
     \<lparr>ps_string_map = \<lambda>_. None, ps_value_map = \<lambda>_. None, ps_providers = (\<lambda>raw. if raw = ''[]'' then Some [] else None),
      ps_policies = \<lambda>_. None, ps_show_json = \<lambda>_. []\<rparr>"

lemma empty_bundle_accepts_any_issuer:
  "validate_all empty_bundle_world (sample_config\<lparr>sc_http := http_config_from_env empty_bundle_env\<rparr>) = Inr [] \<and>
   load_jwt_providers empty_bundle_parsers empty_bundle_world =
     Inr [\<lparr>pv_name = Some ''default'', pv_issuer = None, pv_audience = None, pv_keys = [(''default'', ''k1'')],
           pv_required_claims = [], pv_jwks_url = None, pv_key_not_after = []\<rparr>]"
proof
  show "validate_all empty_bundle_world (sample_config\<lparr>sc_http := http_config_from_env empty_bundle_env\<rparr>) = Inr []"
    by code_simp
  show "load_jwt_providers empty_bundle_parsers empty_bundle_world =
     Inr [\<lparr>pv_name = Some ''default'', pv_issuer = None, pv_audience = None, pv_keys = [(''default'', ''k1'')],
           pv_required_claims = [], pv_jwks_url = None, pv_key_not_after = []\<rparr>]"
    by code_simp
qed

end
