(* ===== verification/AuthGate.thy ===== *)
theory AuthGate
  imports JwtVerify
begin

text \<open>
  The authentication gate in front of every handler: open and public paths, \<open>auth_middleware\<close> and
  \<open>service_auth_middleware\<close> of \<open>krab_core/src/http_auth.rs\<close>, with the fields of \<open>RuntimeState\<close>
  (\<open>src/http_runtime.rs\<close>) they use, and the readiness verdict. The gate is a client of the store
  interface (revocations and failure counts), of the verifier and of the remote key sets.

  \<open>gate_clock\<close> holds the clock readings of one request in the order they are taken.
\<close>

subsection \<open>Open paths\<close>

definition FRAMEWORK_OPEN_PATHS :: "string list" where
  "FRAMEWORK_OPEN_PATHS = [''/health'', ''/ready'']"

definition LEGACY_APP_OPEN_PATHS :: "string list" where
  "LEGACY_APP_OPEN_PATHS =
     [''/'', ''/contact'', ''/api/contact'', ''/api/v1/auth/login'', ''/api/v1/auth/refresh'', ''/api/v1/auth/revoke'',
      ''/api/v1/auth/jwks'', ''/api/v1/auth/capabilities'', ''/api/v1/auth/status'', ''/api/status'',
      ''/data/dashboard'', ''/rpc/version'', ''/rpc/now'', ''/asset-manifest.json'', ''/blog/*'', ''/pkg/*'']"

definition METRICS_OPEN_PATHS :: "string list" where
  "METRICS_OPEN_PATHS = [''/metrics'', ''/metrics/prometheus'']"

definition metrics_public :: "environment \<Rightarrow> bool" where
  "metrics_public env = bool_env env ''KRAB_METRICS_PUBLIC'' False"

fun add_missing :: "string list \<Rightarrow> string list \<Rightarrow> string list" where
  "add_missing patterns [] = patterns"
| "add_missing patterns (path # paths) =
     add_missing (if path \<in> set patterns then patterns else patterns @ [path]) paths"

definition auth_open_path_patterns :: "environment \<Rightarrow> string list" where
  "auth_open_path_patterns env =
     (let patterns =
            (case env ''KRAB_AUTH_OPEN_PATHS'' of
               Some raw \<Rightarrow> parse_csv_set raw
             | None \<Rightarrow> FRAMEWORK_OPEN_PATHS @
                 (if bool_env env ''KRAB_AUTH_LEGACY_OPEN_PATHS'' True then LEGACY_APP_OPEN_PATHS else []))
      in if metrics_public env then add_missing patterns METRICS_OPEN_PATHS else patterns)"

definition pattern_matches :: "string \<Rightarrow> string \<Rightarrow> bool" where
  "pattern_matches path pattern =
     (case strip_suffix ''*'' pattern of Some pre \<Rightarrow> starts_with path pre | None \<Rightarrow> path = pattern)"

definition path_matches_patterns :: "string \<Rightarrow> string list \<Rightarrow> bool" where
  "path_matches_patterns path patterns = list_ex (pattern_matches path) patterns"

subsection \<open>The runtime state\<close>

record ('st, 'k) runtime_state =
  rt_store :: 'st
  rt_jwt_verifier_cache :: "'k verifier_cache"
  rt_auth_policy :: auth_policy
  rt_auth_mode :: string
  rt_service_auth_scope :: string
  rt_trust_proxy_headers :: bool
  rt_auth_fail_window_secs :: u64
  rt_auth_fail_threshold :: u64
  rt_auth_open_paths :: "string list"
  rt_auth_open_paths_explicit :: bool
  rt_public_paths :: "string list"
  rt_code_public_paths :: "string list"
  rt_auth_failures_total :: u64
  rt_auth_failure_reasons :: "u64 list"
  rt_readiness_status :: bool

text \<open>\<open>spawned\<close>: whether a background refresh could be scheduled.\<close>

definition from_store ::
  "'k verify_lib \<Rightarrow> auth_parsers \<Rightarrow> outside \<Rightarrow> bool \<Rightarrow> 'st \<Rightarrow> ('st, 'k) runtime_state" where
  "from_store lib ps w spawned store =
     (let env = out_env w; cfg = http_config_from_env env; cache = cache_from_env lib ps w
      in \<lparr>rt_store = store,
          rt_jwt_verifier_cache = cache\<lparr>vc_background := uses_jwks cache \<and> spawned\<rparr>,
          rt_auth_policy = auth_policy_from_env ps env,
          rt_auth_mode = hc_auth_mode cfg,
          rt_service_auth_scope = hc_service_auth_scope cfg,
          rt_trust_proxy_headers = hc_trust_proxy_headers cfg,
          rt_auth_fail_window_secs = hc_auth_fail_window_secs cfg,
          rt_auth_fail_threshold = hc_auth_fail_threshold cfg,
          rt_auth_open_paths = auth_open_path_patterns env,
          rt_auth_open_paths_explicit = (env ''KRAB_AUTH_OPEN_PATHS'' \<noteq> None),
          rt_public_paths = env_csv env ''KRAB_AUTH_PUBLIC_PATHS'',
          rt_code_public_paths = [],
          rt_auth_failures_total = 0,
          rt_auth_failure_reasons = replicate 14 0,
          rt_readiness_status = True\<rparr>)"

definition with_public_paths :: "('st, 'k) runtime_state \<Rightarrow> string list \<Rightarrow> ('st, 'k) runtime_state" where
  "with_public_paths rt paths = rt\<lparr>rt_code_public_paths := add_missing (rt_code_public_paths rt) paths\<rparr>"

definition is_public_path :: "('st, 'k) runtime_state \<Rightarrow> string \<Rightarrow> bool" where
  "is_public_path rt path =
     (path_matches_patterns path (rt_public_paths rt) \<or>
      \<not> rt_auth_open_paths_explicit rt \<and> path_matches_patterns path (rt_code_public_paths rt))"

text \<open>\<open>RuntimeState::build_store\<close> and \<open>try_new\<close>: which store a service gets, or why it does not start.\<close>

datatype store_choice = MemoryBackend | RedisBackend string

datatype store_init_error = RedisUrlUnreadable read_error | RedisInitFailed string | RedisNotCompiled

definition build_store ::
  "bool \<Rightarrow> (string \<Rightarrow> bool) \<Rightarrow> outside \<Rightarrow> store_init_error + store_choice" where
  "build_store redis_feature redis_ok w =
     (case read_env_or_file (out_env w) (out_fs w) ''KRAB_REDIS_URL'' of
        Inl e \<Rightarrow> Inl (RedisUrlUnreadable e)
      | Inr url0 \<Rightarrow>
          (case (case map_option trim url0 of Some u \<Rightarrow> if u \<noteq> [] then Some u else None | None \<Rightarrow> None) of
             None \<Rightarrow> Inr MemoryBackend
           | Some url \<Rightarrow>
               if redis_feature then (if redis_ok url then Inr (RedisBackend url) else Inl (RedisInitFailed url))
               else Inl RedisNotCompiled))"

definition store_for_new :: "bool \<Rightarrow> (string \<Rightarrow> bool) \<Rightarrow> outside \<Rightarrow> store_choice" where
  "store_for_new redis_feature redis_ok w =
     (case build_store redis_feature redis_ok w of Inr s \<Rightarrow> s | Inl _ \<Rightarrow> MemoryBackend)"

definition store_for_try_new :: "bool \<Rightarrow> (string \<Rightarrow> bool) \<Rightarrow> outside \<Rightarrow> store_init_error + store_choice" where
  "store_for_try_new redis_feature redis_ok w =
     (case build_store redis_feature redis_ok w of
        Inr s \<Rightarrow> Inr s
      | Inl e \<Rightarrow> if deploy_env_from (out_env w) = Dev then Inr MemoryBackend else Inl e)"

subsection \<open>The gate\<close>

datatype gate_result = Forward "auth_context option" | Deny nat

record gate_clock =
  gc_unix_secs :: nat
  gc_pre_check :: instant
  gc_fetches :: "nat \<Rightarrow> fetch_times"
  gc_verify :: int
  gc_revocation :: instant
  gc_count_now :: instant
  gc_count_done :: instant

definition auth_fail_key :: "string \<Rightarrow> nat \<Rightarrow> string" where
  "auth_fail_key client_ip epoch = ''auth:fail:'' @ client_ip @ '':'' @ show_nat epoch"

definition revoked_key :: "string \<Rightarrow> string" where
  "revoked_key token_id = ''auth:revoked:'' @ token_id"

definition token_header :: "'k verify_lib \<Rightarrow> http_request \<Rightarrow> (algorithm \<times> string option) option" where
  "token_header lib req = Option.bind (bearer_token req) (vl_header lib)"

definition kidless_bearer :: "'k verify_lib \<Rightarrow> http_request \<Rightarrow> bool" where
  "kidless_bearer lib req = (case token_header lib req of Some (alg, kid) \<Rightarrow> kid = None | None \<Rightarrow> False)"

definition over_budget :: "u64 \<Rightarrow> store_error + string option \<Rightarrow> bool" where
  "over_budget threshold r =
     (case r of
        Inr (Some count) \<Rightarrow> (case parse_u64 (trim count) of Some c \<Rightarrow> threshold < c | None \<Rightarrow> False)
      | _ \<Rightarrow> False)"

definition jwt_mode :: "string \<Rightarrow> bool" where
  "jwt_mode mode = (eq_ignore_ascii_case mode ''jwt'' \<or> eq_ignore_ascii_case mode ''oidc'')"

text \<open>The key cache of a request: remote key sets may be fetched first.\<close>

definition request_cache ::
  "'k verify_lib \<Rightarrow> 'k jwk_lib \<Rightarrow> ('st, 'k) runtime_state \<Rightarrow> http_request \<Rightarrow> gate_clock \<Rightarrow> 'k verifier_cache" where
  "request_cache lib jlib rt req ck =
     (let cache = rt_jwt_verifier_cache rt
      in if uses_jwks cache then prepare_for_kid jlib cache (Option.bind (token_header lib req) snd) (gc_fetches ck)
         else cache)"

definition authenticate ::
  "'k verify_lib \<Rightarrow> 'k jwk_lib \<Rightarrow> outside \<Rightarrow> ('st, 'k) runtime_state \<Rightarrow> http_request \<Rightarrow> gate_clock \<Rightarrow>
     (auth_failure + auth_context) \<times> ('st, 'k) runtime_state" where
  "authenticate lib jlib w rt req ck =
     (if jwt_mode (rt_auth_mode rt) then
        let cache = request_cache lib jlib rt req ck
        in (authorize_jwt_detailed lib (out_env w) req (rq_path req) cache (rt_auth_policy rt) (gc_verify ck),
            rt\<lparr>rt_jwt_verifier_cache := cache\<rparr>)
      else (authorize_static_detailed w req, rt))"

definition check_revocation ::
  "'st store_ops \<Rightarrow> ('st, 'k) runtime_state \<Rightarrow> gate_clock \<Rightarrow> auth_failure + auth_context \<Rightarrow>
     (auth_failure + auth_context) \<times> ('st, 'k) runtime_state" where
  "check_revocation ops rt ck authorized =
     (case authorized of
        Inl f \<Rightarrow> (Inl f, rt)
      | Inr ctx \<Rightarrow>
          (case ac_token_id ctx of
             None \<Rightarrow> (Inr ctx, rt)
           | Some token_id \<Rightarrow>
               let (r, st) = op_get ops (rt_store rt) (gc_revocation ck) (revoked_key token_id)
               in ((case r of
                      Inr (Some _) \<Rightarrow> Inl (unauthorized Revoked)
                    | Inr None \<Rightarrow> Inr ctx
                    | Inl _ \<Rightarrow> Inl (failure_new 503 ProviderUnavailable)),
                   rt\<lparr>rt_store := st\<rparr>)))"

definition count_metrics :: "auth_failure_reason \<Rightarrow> ('st, 'k) runtime_state \<Rightarrow> ('st, 'k) runtime_state" where
  "count_metrics reason rt =
     rt\<lparr>rt_auth_failures_total := rt_auth_failures_total rt + 1,
        rt_auth_failure_reasons :=
          (rt_auth_failure_reasons rt)[slot reason := rt_auth_failure_reasons rt ! slot reason + 1]\<rparr>"

definition answer_failure ::
  "'st store_ops \<Rightarrow> ('st, 'k) runtime_state \<Rightarrow> gate_clock \<Rightarrow> string \<Rightarrow> auth_failure \<Rightarrow>
     gate_result \<times> ('st, 'k) runtime_state" where
  "answer_failure ops rt0 ck auth_key f =
     (let rt = count_metrics (af_reason f) rt0
      in if af_status f \<noteq> 401 then (Deny (af_status f), rt)
         else
           let (r, st) = op_incr_with_ttl ops (rt_store rt) (gc_count_now ck) (gc_count_done ck) auth_key 1
                           (from_secs (unat (rt_auth_fail_window_secs rt + 2)))
           in (Deny (case r of
                       Inl _ \<Rightarrow> 503
                     | Inr failures \<Rightarrow> if rt_auth_fail_threshold rt < failures then 429 else af_status f),
               rt\<lparr>rt_store := st\<rparr>))"

definition auth_key_of :: "outside \<Rightarrow> ('st, 'k) runtime_state \<Rightarrow> http_request \<Rightarrow> gate_clock \<Rightarrow> string" where
  "auth_key_of w rt req ck =
     auth_fail_key (extract_client_ip (out_env w) req (rt_trust_proxy_headers rt))
       (current_window_epoch (gc_unix_secs ck) (unat (rt_auth_fail_window_secs rt)))"

definition is_open :: "('st, 'k) runtime_state \<Rightarrow> string \<Rightarrow> bool" where
  "is_open rt path = (path_matches_patterns path (rt_auth_open_paths rt) \<or> is_public_path rt path)"

definition auth_middleware ::
  "'k verify_lib \<Rightarrow> 'k jwk_lib \<Rightarrow> 'st store_ops \<Rightarrow> outside \<Rightarrow> ('st, 'k) runtime_state \<Rightarrow> http_request \<Rightarrow> gate_clock \<Rightarrow>
     gate_result \<times> ('st, 'k) runtime_state" where
  "auth_middleware lib jlib ops w rt req ck =
     (if is_open rt (rq_path req) then (Forward None, rt)
      else
        let auth_key = auth_key_of w rt req ck;
            (pre, st0) = (if kidless_bearer lib req then op_get ops (rt_store rt) (gc_pre_check ck) auth_key
                          else (Inr None, rt_store rt));
            rt0 = rt\<lparr>rt_store := st0\<rparr>
        in if over_budget (rt_auth_fail_threshold rt) pre then (Deny 429, rt0)
           else
             let (verified, rt1) = authenticate lib jlib w rt0 req ck;
                 (authorized, rt2) = check_revocation ops rt1 ck verified
             in case authorized of
                  Inr ctx \<Rightarrow>
                    if is_admin_api_path (rq_path req) \<and> \<not> has_admin_entitlement (rt_auth_policy rt2) ctx
                    then (Deny 403, rt2) else (Forward (Some ctx), rt2)
                | Inl f \<Rightarrow> answer_failure ops rt2 ck auth_key f)"

subsection \<open>Service routes and readiness\<close>

definition is_internal_service_path :: "string \<Rightarrow> bool" where
  "is_internal_service_path path = (starts_with path ''/internal'' \<or> starts_with path ''/api/internal'')"

definition service_auth_middleware ::
  "('st, 'k) runtime_state \<Rightarrow> http_request \<Rightarrow> auth_context option \<Rightarrow> gate_result" where
  "service_auth_middleware rt req ext =
     (if \<not> is_internal_service_path (rq_path req) then Forward ext
      else if (case ext of Some ctx \<Rightarrow> rt_service_auth_scope rt \<in> set (ac_scopes ctx) | None \<Rightarrow> False)
      then Forward ext else Deny 403)"

record dependency_status =
  ds_name :: string
  ds_ready :: bool
  ds_critical :: bool
  ds_latency_ms :: "u64 option"
  ds_detail :: "string option"

record readiness_payload =
  rd_status :: string
  rd_uptime_seconds :: nat
  rd_dependencies :: "dependency_status list"

definition readiness_with_dependencies ::
  "('st, 'k) runtime_state \<Rightarrow> duration \<Rightarrow> dependency_status list \<Rightarrow> (nat \<times> readiness_payload) \<times> ('st, 'k) runtime_state" where
  "readiness_with_dependencies rt uptime deps =
     (let has_critical_failure = list_ex (\<lambda>d. ds_critical d \<and> \<not> ds_ready d) deps;
          has_non_critical_failure = list_ex (\<lambda>d. \<not> ds_critical d \<and> \<not> ds_ready d) deps;
          status = (if has_critical_failure then ''not_ready'' else if has_non_critical_failure then ''degraded'' else ''ready'');
          code = (if has_critical_failure then 503 else 200)
      in ((code, \<lparr>rd_status = status, rd_uptime_seconds = as_secs uptime, rd_dependencies = deps\<rparr>),
          rt\<lparr>rt_readiness_status := \<not> has_critical_failure\<rparr>))"

subsection \<open>Lemmas\<close>

lemma matches_append [simp]:
  "path_matches_patterns path (xs @ ys) \<longleftrightarrow> path_matches_patterns path xs \<or> path_matches_patterns path ys"
  by (simp add: path_matches_patterns_def)

lemma matches_mem: "pat \<in> set pats \<Longrightarrow> pattern_matches path pat \<Longrightarrow> path_matches_patterns path pats"
  by (auto simp: path_matches_patterns_def list_ex_iff)

lemma matches_add_missing:
  "path_matches_patterns path (add_missing xs ys) \<longleftrightarrow> path_matches_patterns path xs \<or> path_matches_patterns path ys"
  by (induction xs ys rule: add_missing.induct) (auto simp: path_matches_patterns_def list_ex_iff)

lemma matches_metrics: "path_matches_patterns path METRICS_OPEN_PATHS \<longleftrightarrow> path \<in> {''/metrics'', ''/metrics/prometheus''}"
  by (auto simp: path_matches_patterns_def METRICS_OPEN_PATHS_def pattern_matches_def strip_suffix_def suffix_to_prefix)

text \<open>
  which paths are served without authentication. The operator's list, when it is set, is the whole
  list, even when it is empty, and routes declared in code count for nothing then; otherwise the
  probes, the deprecated application routes unless they are switched off, and the routes declared in
  code are open. The metrics endpoints are open only on request, and the operator's public paths
  always.
\<close>

theorem unauthenticated_paths_are_exactly_these:
  "is_open (with_public_paths (from_store lib ps w spawned st) code_paths) path \<longleftrightarrow>
     (case out_env w ''KRAB_AUTH_OPEN_PATHS'' of
        Some raw \<Rightarrow> path_matches_patterns path (parse_csv_set raw)
      | None \<Rightarrow>
          path_matches_patterns path FRAMEWORK_OPEN_PATHS \<or>
          bool_env (out_env w) ''KRAB_AUTH_LEGACY_OPEN_PATHS'' True \<and> path_matches_patterns path LEGACY_APP_OPEN_PATHS \<or>
          path_matches_patterns path code_paths) \<or>
     metrics_public (out_env w) \<and> path \<in> {''/metrics'', ''/metrics/prometheus''} \<or>
     path_matches_patterns path (env_csv (out_env w) ''KRAB_AUTH_PUBLIC_PATHS'')"
proof -
  have nil: "path_matches_patterns path [] = False" by (simp add: path_matches_patterns_def)
  show ?thesis
    by (auto simp: is_open_def is_public_path_def with_public_paths_def from_store_def Let_def auth_open_path_patterns_def
        matches_add_missing matches_metrics nil split: option.splits)
qed

lemma redis_intent_is_honoured_outside_dev:
  assumes "read_env_or_file (out_env w) (out_fs w) ''KRAB_REDIS_URL'' = Inr (Some url)" and "trim url \<noteq> []"
    and "deploy_env_from (out_env w) \<noteq> Dev" and "store_for_try_new feature ok w = Inr choice"
  shows "choice = RedisBackend (trim url)"
  using assms by (auto simp: store_for_try_new_def build_store_def split: if_splits)

lemma search_status: "search_failure st = f \<Longrightarrow> af_status f \<in> {401, 503}"
  by (auto simp: search_failure_def failure_new_def unauthorized_def)

lemma grant_status: "grant pol path c n = Inl f \<Longrightarrow> af_status f \<in> {401, 500}"
  by (auto simp: grant_def Let_def unauthorized_def failure_new_def dest: enforce_status split: if_splits sum.splits)

lemma configured_status: "configured_jwt_algorithms env = Inl e \<Longrightarrow> e = 503"
  by (auto simp: configured_jwt_algorithms_def Let_def split: option.splits if_splits)

lemma authorize_status:
  assumes "authorize_jwt_detailed lib env req path cache pol now = Inl f"
  shows "af_status f \<in> {401, 500, 503}"
proof -
  have s: "af_status (search_failure st) \<in> {401, 500, 503}" for st
    using search_status [of st] by auto
  have g: "grant pol path c n = Inl f \<Longrightarrow> af_status f \<in> {401, 500, 503}" for c n
    using grant_status by blast
  show ?thesis
    using assms s g
    by (auto simp: authorize_jwt_detailed_def Let_def unauthorized_def failure_new_def dest!: configured_status
        split: option.splits sum.splits if_splits prod.splits search.splits)
qed

lemma static_status: "authorize_static_detailed w req = Inl f \<Longrightarrow> af_status f \<in> {401, 500, 503}"
  by (auto simp: authorize_static_detailed_def unauthorized_def failure_new_def split: sum.splits option.splits if_splits)

lemma authenticate_frame:
  assumes "authenticate lib jlib w rt req ck = (v, rt1)"
  shows "rt_store rt1 = rt_store rt" and "rt_auth_policy rt1 = rt_auth_policy rt"
    and "rt_auth_fail_threshold rt1 = rt_auth_fail_threshold rt"
    and "rt_auth_fail_window_secs rt1 = rt_auth_fail_window_secs rt"
    and "v = Inl f \<Longrightarrow> af_status f \<in> {401, 500, 503}"
  using assms
  by (auto simp: authenticate_def Let_def split: if_splits dest: authorize_status static_status)

lemma auth_key_not_revocation: "auth_fail_key ip e \<noteq> revoked_key t"
  by (simp add: auth_fail_key_def revoked_key_def)

lemma check_revocation_frame:
  assumes "check_revocation mem_ops rt ck v = (a, rt')" and "store_inv (rt_store rt)"
  shows "store_inv (rt_store rt')" and "gc_revocation ck \<le> t \<Longrightarrow> live (rt_store rt') t k = live (rt_store rt) t k"
    and "rt_auth_policy rt' = rt_auth_policy rt" and "rt_auth_fail_threshold rt' = rt_auth_fail_threshold rt"
    and "rt_auth_fail_window_secs rt' = rt_auth_fail_window_secs rt"
    and "a = Inl f \<Longrightarrow> v = Inl f \<or> f = unauthorized Revoked"
    and "a = Inr ctx \<Longrightarrow> v = Inr ctx \<and>
      (\<forall>t. ac_token_id ctx = Some t \<longrightarrow> live (rt_store rt) (gc_revocation ck) (revoked_key t) = None)"
  using assms(1) mem.get_inv [OF assms(2)] mem.get_look [OF assms(2)] mem.get_result [OF assms(2)] assms(2)
  by (auto simp: check_revocation_def Let_def split_beta split: sum.splits option.splits)

text \<open>The store after the look at the failure budget.\<close>

definition pre_check :: "'k verify_lib \<Rightarrow> outside \<Rightarrow> (mem_store, 'k) runtime_state \<Rightarrow> http_request \<Rightarrow> gate_clock \<Rightarrow>
    (store_error + string option) \<times> mem_store" where
  "pre_check lib w rt req ck =
     (if kidless_bearer lib req then op_get mem_ops (rt_store rt) (gc_pre_check ck) (auth_key_of w rt req ck)
      else (Inr None, rt_store rt))"

lemma pre_check_frame:
  assumes "pre_check lib w rt req ck = (pre, st0)" and "store_inv (rt_store rt)"
  shows "store_inv st0" and "gc_pre_check ck \<le> t \<Longrightarrow> live st0 t k = live (rt_store rt) t k"
    and "over_budget threshold pre \<Longrightarrow> kidless_bearer lib req \<and>
      over_budget threshold (Inr (live (rt_store rt) (gc_pre_check ck) (auth_key_of w rt req ck)))"
    and "kidless_bearer lib req \<Longrightarrow> pre = Inr (live (rt_store rt) (gc_pre_check ck) (auth_key_of w rt req ck))"
proof -
  have p: "pre = fst (pre_check lib w rt req ck)" "st0 = snd (pre_check lib w rt req ck)" using assms(1) by simp_all
  show "store_inv st0" and "gc_pre_check ck \<le> t \<Longrightarrow> live st0 t k = live (rt_store rt) t k"
    using p mem.get_inv [OF assms(2)] mem.get_look [OF assms(2)] assms(2) by (auto simp: pre_check_def)
  show k: "kidless_bearer lib req \<Longrightarrow> pre = Inr (live (rt_store rt) (gc_pre_check ck) (auth_key_of w rt req ck))"
    using p mem.get_result [OF assms(2)] by (simp add: pre_check_def)
  show "kidless_bearer lib req \<and> over_budget threshold (Inr (live (rt_store rt) (gc_pre_check ck) (auth_key_of w rt req ck)))"
    if "over_budget threshold pre"
  proof (cases "kidless_bearer lib req")
    case True
    with k that show ?thesis by simp
  next
    case False
    with p that show ?thesis by (simp add: pre_check_def over_budget_def)
  qed
qed

text \<open>The stages of the gate on a closed path.\<close>

lemma gate_stages:
  assumes "auth_middleware lib jlib mem_ops w rt req ck = (r, rt')" and "\<not> is_open rt (rq_path req)"
  obtains pre st0 where "pre_check lib w rt req ck = (pre, st0)" and
      "over_budget (rt_auth_fail_threshold rt) pre" "r = Deny 429" "rt' = rt\<lparr>rt_store := st0\<rparr>"
    | pre st0 v rt1 a rt2 where "pre_check lib w rt req ck = (pre, st0)" and
      "\<not> over_budget (rt_auth_fail_threshold rt) pre"
      "authenticate lib jlib w (rt\<lparr>rt_store := st0\<rparr>) req ck = (v, rt1)" "check_revocation mem_ops rt1 ck v = (a, rt2)"
      "(case a of
          Inr ctx \<Rightarrow> (if is_admin_api_path (rq_path req) \<and> \<not> has_admin_entitlement (rt_auth_policy rt2) ctx
                      then (Deny 403, rt2) else (Forward (Some ctx), rt2))
        | Inl f \<Rightarrow> answer_failure mem_ops rt2 ck (auth_key_of w rt req ck) f) = (r, rt')"
proof -
  obtain pre st0 where p: "pre_check lib w rt req ck = (pre, st0)" by (cases "pre_check lib w rt req ck")
  show ?thesis
  proof (cases "over_budget (rt_auth_fail_threshold rt) pre")
    case True
    with assms p show ?thesis
      by (intro that(1)) (auto simp: auth_middleware_def pre_check_def Let_def)
  next
    case False
    obtain v rt1 where v: "authenticate lib jlib w (rt\<lparr>rt_store := st0\<rparr>) req ck = (v, rt1)"
      by (cases "authenticate lib jlib w (rt\<lparr>rt_store := st0\<rparr>) req ck")
    obtain a rt2 where a: "check_revocation mem_ops rt1 ck v = (a, rt2)" by (cases "check_revocation mem_ops rt1 ck v")
    show ?thesis
      by (rule that(2) [OF p False v a]) (use assms p False v a in \<open>simp add: auth_middleware_def pre_check_def Let_def\<close>)
  qed
qed

text \<open>
  C6: what the gate lets through. A request reaches a handler without an identity only on an open or
  public path. On every other path it carries the identity that verification produced in this very
  request, with the key sets as they are after the fetches it needed; its token was not revoked when the store was asked; and on an admin path it holds the admin
  scope or role, which the static token never does.
\<close>

theorem gate_forwards_only_verified_callers:
  assumes "auth_middleware lib jlib mem_ops w rt req ck = (Forward ext, rt')" and "store_inv (rt_store rt)"
    and "gc_pre_check ck \<le> gc_revocation ck"
  shows "is_open rt (rq_path req) \<and> ext = None \<or>
     (\<exists>ctx. ext = Some ctx \<and>
        (if jwt_mode (rt_auth_mode rt)
         then authorize_jwt_detailed lib (out_env w) req (rq_path req) (request_cache lib jlib rt req ck) (rt_auth_policy rt)
                (gc_verify ck) = Inr ctx
         else authorize_static_detailed w req = Inr ctx \<and> \<not> is_admin_api_path (rq_path req)) \<and>
        (\<forall>jti. ac_token_id ctx = Some jti \<longrightarrow> live (rt_store rt) (gc_revocation ck) (revoked_key jti) = None) \<and>
        (is_admin_api_path (rq_path req) \<longrightarrow> has_admin_entitlement (rt_auth_policy rt) ctx))"
proof (cases "is_open rt (rq_path req)")
  case True
  with assms(1) show ?thesis by (simp add: auth_middleware_def)
next
  case False
  from gate_stages [OF assms(1) False] show ?thesis
  proof cases
    case (2 pre st0 v rt1 a rt2)
    note pre = pre_check_frame [OF 2(1) assms(2)]
    note auth = authenticate_frame [OF 2(3)]
    have inv: "store_inv (rt_store rt1)" using pre(1) auth(1) by simp
    note rev = check_revocation_frame [OF 2(4) inv]
    obtain ctx where ctx: "a = Inr ctx" "ext = Some ctx"
      and adm: "is_admin_api_path (rq_path req) \<longrightarrow> has_admin_entitlement (rt_auth_policy rt) ctx"
      using 2(5) rev(3) auth(2) by (auto simp: answer_failure_def Let_def split_beta split: sum.splits if_splits)
    have v: "v = Inr ctx" and live: "\<forall>t. ac_token_id ctx = Some t \<longrightarrow> live (rt_store rt) (gc_revocation ck) (revoked_key t) = None"
      using rev(7) [OF ctx(1)] pre(2) [OF assms(3)] auth(1) by simp_all
    have mode: "if jwt_mode (rt_auth_mode rt)
         then authorize_jwt_detailed lib (out_env w) req (rq_path req) (request_cache lib jlib rt req ck) (rt_auth_policy rt)
                (gc_verify ck) = Inr ctx
         else authorize_static_detailed w req = Inr ctx"
      using 2(3) v by (auto simp: authenticate_def Let_def request_cache_def split: if_splits)
    have "authorize_static_detailed w req = Inr ctx \<Longrightarrow> ctx = static_context"
      by (auto simp: authorize_static_detailed_def split: sum.splits option.splits if_splits)
    then have "authorize_static_detailed w req = Inr ctx \<Longrightarrow> \<not> is_admin_api_path (rq_path req)"
      using adm by (auto simp: has_admin_entitlement_def static_context_def)
    with mode live adm ctx(2) show ?thesis by auto
  qed simp
qed

definition sample_world :: outside where
  "sample_world = \<lparr>out_env = \<lambda>_. None, out_fs = \<lambda>_. None, out_json = \<lambda>_. None\<rparr>"

definition sample_runtime :: "(mem_store, nat) runtime_state" where
  "sample_runtime =
     \<lparr>rt_store = with_max_entries 0, rt_jwt_verifier_cache = sample_cache, rt_auth_policy = sample_policy,
      rt_auth_mode = ''jwt'', rt_service_auth_scope = ''service:internal'', rt_trust_proxy_headers = False,
      rt_auth_fail_window_secs = 60, rt_auth_fail_threshold = 0, rt_auth_open_paths = [''/health''],
      rt_auth_open_paths_explicit = True, rt_public_paths = [], rt_code_public_paths = [],
      rt_auth_failures_total = 0, rt_auth_failure_reasons = replicate 14 0, rt_readiness_status = True\<rparr>"

definition sample_clock :: gate_clock where
  "sample_clock = \<lparr>gc_unix_secs = 0, gc_pre_check = 1, gc_fetches = \<lambda>_. (1, 1, None), gc_verify = 0, gc_revocation = 2,
     gc_count_now = 3, gc_count_done = 3\<rparr>"

lemma sample_not_open: "\<not> is_open sample_runtime (rq_path sample_request)"
  by (simp add: is_open_def is_public_path_def sample_runtime_def sample_request_def path_matches_patterns_def
      pattern_matches_def strip_suffix_def suffix_to_prefix)

lemma sample_cache_plain: "\<not> uses_jwks sample_cache"
  by (simp add: uses_jwks_def sample_cache_def from_providers_def provider_source_def sample_provider_def)

lemma sample_empty: "live (with_max_entries 0) t k = None"
  by (simp add: with_max_entries_def live_def)

lemma sample_forwarded: "\<exists>rt'. auth_middleware sample_verify_lib sample_lib mem_ops sample_world sample_runtime
     sample_request sample_clock = (Forward (Some sample_context), rt')"
proof -
  have kid: "\<not> kidless_bearer sample_verify_lib sample_request"
    by (simp add: kidless_bearer_def token_header_def bearer_token_def sample_request_def strip_prefix_def sample_verify_lib_def)
  have path: "rq_path sample_request = ''/tenants/acme''" "\<not> is_admin_api_path ''/tenants/acme''"
    by (simp_all add: sample_request_def is_admin_api_path_def)
  have fields: "rt_auth_mode sample_runtime = ''jwt''" "rt_jwt_verifier_cache sample_runtime = sample_cache"
    "rt_auth_policy sample_runtime = sample_policy" "rt_store sample_runtime = with_max_entries 0"
    "out_env sample_world = (\<lambda>_. None)" "gc_verify sample_clock = 0" "ac_token_id sample_context = Some ''t1''"
    by (simp_all add: sample_runtime_def sample_world_def sample_clock_def sample_context_def)
  have same: "sample_runtime\<lparr>rt_store := with_max_entries 0\<rparr> = sample_runtime" by (simp add: sample_runtime_def)
  have mode: "jwt_mode ''jwt''" by (simp add: jwt_mode_def eq_ignore_ascii_case_def)
  have auth: "authenticate sample_verify_lib sample_lib sample_world sample_runtime sample_request sample_clock =
      (Inr sample_context, sample_runtime\<lparr>rt_jwt_verifier_cache := sample_cache\<rparr>)"
    by (simp add: authenticate_def request_cache_def Let_def fields mode sample_cache_plain path sample_accepts)
  have get: "fst (op_get mem_ops (with_max_entries 0) t k) = Inr None" for t k
    using mem.get_result [OF with_max_entries_inv, of 0 t k] sample_empty by simp
  show ?thesis
    using sample_not_open kid auth path get
    by (simp add: auth_middleware_def over_budget_def check_revocation_def Let_def split_beta fields same)
qed

theorem gate_forwards_only_verified_callers_witness:
  "live (with_max_entries 0) 2 (revoked_key ''t1'') = None \<and>
     authorize_jwt_detailed sample_verify_lib (\<lambda>_. None) sample_request ''/tenants/acme''
       (request_cache sample_verify_lib sample_lib sample_runtime sample_request sample_clock) sample_policy 0 =
     Inr sample_context"
proof -
  obtain rt' where "auth_middleware sample_verify_lib sample_lib mem_ops sample_world sample_runtime sample_request sample_clock =
      (Forward (Some sample_context), rt')"
    using sample_forwarded by blast
  from gate_forwards_only_verified_callers [OF this] sample_not_open show ?thesis
    by (simp add: sample_runtime_def sample_clock_def with_max_entries_inv sample_world_def sample_request_def
        sample_context_def jwt_mode_def eq_ignore_ascii_case_def)
qed

subsection \<open>Who pays for failures\<close>

lemma answer_failure_bills:
  assumes "answer_failure mem_ops rt ck k f = (r, rt')" and "store_inv (rt_store rt)"
    and "live (rt_store rt) h k = Some (show_word c)" and "gc_count_now ck \<le> h" and "gc_count_done ck \<le> h"
  shows "if af_status f = 401
     then live (rt_store rt') h k = Some (show_word (saturating_add c 1)) \<and>
          r = Deny (if rt_auth_fail_threshold rt < saturating_add c 1 then 429 else 401)
     else live (rt_store rt') h k = Some (show_word c) \<and> r = Deny (af_status f)"
  using assms(1,3) mem.counter_counts [OF assms(2-5), of 1]
  by (auto simp: answer_failure_def count_metrics_def Let_def split_beta split: if_splits)

text \<open>
  C8: who pays for a failed authentication. Let \<open>c\<close> be the failures of a client address counted in
  the current window, whose counter exists already (the failure that opens a window is not covered),
  and let the store be the in-memory one. A request that is let through, that lacks the admin entitlement (403), or that
  fails because of the service itself (500, 503) leaves the count alone. Any other failure adds one,
  and is answered 401, or 429 as soon as the count is over the threshold. From a client over the
  threshold, a token without a key id is answered 429 without being verified, and is not counted.
\<close>

theorem failed_authentication_is_billed:
  assumes "auth_middleware lib jlib mem_ops w rt req ck = (r, rt')" and "store_inv (rt_store rt)"
    and "\<not> is_open rt (rq_path req)" and "live (rt_store rt) h (auth_key_of w rt req ck) = Some (show_word c)"
    and "gc_pre_check ck \<le> h" and "gc_revocation ck \<le> h" and "gc_count_now ck \<le> h" and "gc_count_done ck \<le> h"
  shows "if kidless_bearer lib req \<and> rt_auth_fail_threshold rt < c
     then r = Deny 429 \<and> live (rt_store rt') h (auth_key_of w rt req ck) = Some (show_word c) \<and>
          rt_jwt_verifier_cache rt' = rt_jwt_verifier_cache rt
     else case r of
            Forward ext \<Rightarrow> live (rt_store rt') h (auth_key_of w rt req ck) = Some (show_word c)
          | Deny code \<Rightarrow>
              code \<in> {403, 500, 503} \<and> live (rt_store rt') h (auth_key_of w rt req ck) = Some (show_word c) \<or>
              code = (if rt_auth_fail_threshold rt < saturating_add c 1 then 429 else 401) \<and>
              live (rt_store rt') h (auth_key_of w rt req ck) = Some (show_word (saturating_add c 1))"
proof -
  let ?k = "auth_key_of w rt req ck"
  have now: "live (rt_store rt) (gc_pre_check ck) ?k = Some (show_word c)"
    by (rule mem.look_earlier [OF assms(4,5)])
  from gate_stages [OF assms(1,3)] show ?thesis
  proof cases
    case (1 pre st0)
    note pre = pre_check_frame [OF 1(1) assms(2)]
    from pre(3) [OF 1(2)] now have "kidless_bearer lib req \<and> rt_auth_fail_threshold rt < c"
      by (simp add: over_budget_def)
    with 1 pre(2) [OF assms(5)] assms(4) show ?thesis by simp
  next
    case (2 pre st0 v rt1 a rt2)
    note pre = pre_check_frame [OF 2(1) assms(2)]
    note auth = authenticate_frame [OF 2(3)]
    have inv: "store_inv (rt_store rt1)" using pre(1) auth(1) by simp
    note rev = check_revocation_frame [OF 2(4) inv]
    have not_over: "\<not> (kidless_bearer lib req \<and> rt_auth_fail_threshold rt < c)"
      using 2(2) pre(4) now by (auto simp: over_budget_def)
    have live2: "live (rt_store rt2) h ?k = Some (show_word c)"
      using rev(2) [OF assms(6)] pre(2) [OF assms(5)] auth(1) assms(4) by simp
    show ?thesis
    proof (cases a)
      case (Inr ctx)
      with 2(5) live2 not_over show ?thesis by (auto split: if_splits)
    next
      case (Inl f)
      then have s: "af_status f \<in> {401, 500, 503}"
        using rev(6) [of f] auth(5) by (auto simp: unauthorized_def failure_new_def)
      have "answer_failure mem_ops rt2 ck ?k f = (r, rt')" using 2(5) Inl by simp
      from answer_failure_bills [OF this rev(1) live2 assms(7,8)] s not_over rev(4) auth(3) show ?thesis
        by (auto split: if_splits)
    qed
  qed
qed

definition kidless_lib :: "nat verify_lib" where
  "kidless_lib = sample_verify_lib\<lparr>vl_header := \<lambda>t. Some (HS256, None)\<rparr>"

definition sample_key :: string where
  "sample_key = auth_key_of sample_world sample_runtime sample_request sample_clock"

definition busy_runtime :: "(mem_store, nat) runtime_state" where
  "busy_runtime = sample_runtime\<lparr>rt_store := snd (op_set mem_ops (with_max_entries 0) 0 0 sample_key (show_word (1 :: u64)) 0)\<rparr>"

theorem failed_authentication_is_billed_witness:
  "fst (auth_middleware kidless_lib sample_lib mem_ops sample_world busy_runtime sample_request sample_clock) = Deny 429"
proof -
  obtain r rt' where m: "auth_middleware kidless_lib sample_lib mem_ops sample_world busy_runtime sample_request sample_clock = (r, rt')"
    by (cases "auth_middleware kidless_lib sample_lib mem_ops sample_world busy_runtime sample_request sample_clock")
  have inv: "store_inv (rt_store busy_runtime)"
    by (simp add: busy_runtime_def mem.set_inv with_max_entries_inv)
  have key: "auth_key_of sample_world busy_runtime sample_request sample_clock = sample_key"
    by (simp add: busy_runtime_def sample_key_def auth_key_of_def)
  have live: "live (rt_store busy_runtime) 5 (auth_key_of sample_world busy_runtime sample_request sample_clock) =
      Some (show_word (1 :: u64))"
    unfolding key by (simp add: busy_runtime_def mem.set_look with_max_entries_inv alive_def)
  have closed: "\<not> is_open busy_runtime (rq_path sample_request)"
    using sample_not_open by (simp add: busy_runtime_def is_open_def is_public_path_def)
  have kid: "kidless_bearer kidless_lib sample_request"
    by (simp add: kidless_bearer_def token_header_def bearer_token_def sample_request_def strip_prefix_def kidless_lib_def)
  have "rt_auth_fail_threshold busy_runtime < 1"
    by (simp add: busy_runtime_def sample_runtime_def)
  with failed_authentication_is_billed [OF m inv closed live] kid m show ?thesis
    by (simp add: sample_clock_def)
qed

end
