(* ===== verification/Credentials.thy ===== *)
theory Credentials
  imports JwtPolicy
begin

text \<open>
  Password credentials: \<open>krab_core/src/credentials.rs\<close>. The \<open>argon2\<close> crate is a parameter: what it
  parses from a PHC string, whether a password verifies against a parsed hash, and the hash it makes.
\<close>

record phc =
  ph_algorithm :: string
  ph_salt :: "string option"
  ph_hash :: "string option"

record hash_lib =
  hl_parse :: "string \<Rightarrow> phc option"
  hl_verify :: "string \<Rightarrow> phc \<Rightarrow> bool"
  hl_hash :: "string \<Rightarrow> string \<Rightarrow> string option"

datatype credential_error =
    InvalidStoredHash
  | NotAHash string
  | CredentialsNotJson
  | HashingFailed

text \<open>\<open>hash_password\<close>; the second argument is the salt drawn from the operating system.\<close>

definition hash_password :: "hash_lib \<Rightarrow> string \<Rightarrow> string \<Rightarrow> credential_error + string" where
  "hash_password lib password salt = (case hl_hash lib password salt of Some h \<Rightarrow> Inr h | None \<Rightarrow> Inl HashingFailed)"

definition is_valid_password_hash :: "hash_lib \<Rightarrow> string \<Rightarrow> bool" where
  "is_valid_password_hash lib value =
     (case hl_parse lib value of
        None \<Rightarrow> False
      | Some parsed \<Rightarrow>
          ph_algorithm parsed \<in> {''argon2d'', ''argon2i'', ''argon2id''} \<and> ph_salt parsed \<noteq> None \<and> ph_hash parsed \<noteq> None)"

definition verify_password :: "hash_lib \<Rightarrow> string \<Rightarrow> string \<Rightarrow> credential_error + bool" where
  "verify_password lib password hash =
     (case hl_parse lib hash of None \<Rightarrow> Inl InvalidStoredHash | Some parsed \<Rightarrow> Inr (hl_verify lib password parsed))"

type_synonym credential_store = "string hashmap"

definition credentials_from_map :: "hash_lib \<Rightarrow> string hashmap \<Rightarrow> credential_error + credential_store" where
  "credentials_from_map lib users =
     (case find (\<lambda>(username, hash). \<not> is_valid_password_hash lib hash) users of
        Some (username, _) \<Rightarrow> Inl (NotAHash username)
      | None \<Rightarrow> Inr users)"

definition credentials_from_json :: "hash_lib \<Rightarrow> auth_parsers \<Rightarrow> string \<Rightarrow> credential_error + credential_store" where
  "credentials_from_json lib ps raw =
     (case ps_string_map ps raw of
        None \<Rightarrow> Inl CredentialsNotJson
      | Some users \<Rightarrow> credentials_from_map lib users)"

text \<open>
  \<open>EnvHashCredentialStore::verify\<close>. An unknown user is checked against a dummy hash and the result is
  dropped; the value is the same as for a wrong password.
\<close>

definition credentials_verify :: "hash_lib \<Rightarrow> credential_store \<Rightarrow> string \<Rightarrow> string \<Rightarrow> credential_error + string option" where
  "credentials_verify lib users username password =
     (case hm_get users username of
        Some hash \<Rightarrow>
          (case verify_password lib password hash of
             Inl e \<Rightarrow> Inl e
           | Inr ok \<Rightarrow> Inr (if ok then Some username else None))
      | None \<Rightarrow> Inr None)"

subsection \<open>A store that was built answers\<close>

lemma credentials_from_map_valid:
  assumes "credentials_from_map lib users = Inr store" and "hm_get store username = Some hash"
  shows "is_valid_password_hash lib hash"
proof -
  have s: "store = users" "\<forall>p \<in> set users. is_valid_password_hash lib (snd p)"
    using assms(1) by (auto simp: credentials_from_map_def find_None_iff split: option.splits)
  then show ?thesis using assms(2) by (auto dest!: map_of_SomeD)
qed

lemma credentials_verify_exact:
  assumes "credentials_from_map lib users = Inr store"
  shows "credentials_verify lib store username password =
    Inr (case hm_get store username of
           Some hash \<Rightarrow> if hl_verify lib password (the (hl_parse lib hash)) then Some username else None
         | None \<Rightarrow> None)"
proof (cases "hm_get store username")
  case None
  then show ?thesis by (simp add: credentials_verify_def)
next
  case (Some hash)
  then obtain parsed where "hl_parse lib hash = Some parsed"
    using credentials_from_map_valid [OF assms Some] by (auto simp: is_valid_password_hash_def split: option.splits)
  with Some show ?thesis by (simp add: credentials_verify_def verify_password_def)
qed

end
