(* ===== verification/TokenService.thy ===== *)
theory TokenService
  imports AuthGate Credentials
begin

text \<open>
  The token service \<open>service_auth/src/main.rs\<close>: signing configuration and key ring, login, refresh,
  revocation, the published key list, and the start-up checks. It is a client of the store interface and
  of the credential store; the \<open>jsonwebtoken\<close> crate is a parameter.

  Time is one clock: an instant is a reading of the monotonic clock in nanoseconds and \<open>epoch_secs w\<close> is
  the wall clock at that instant, \<open>w\<close> nanoseconds after 1970 at instant zero and never stepped.
\<close>

definition INSECURE_DEV_JWT_SECRET :: string where
  "INSECURE_DEV_JWT_SECRET = ''krab-insecure-dev-secret-change-me''"

definition INSECURE_DEV_BOOTSTRAP_PASSWORD :: string where
  "INSECURE_DEV_BOOTSTRAP_PASSWORD = ''change-me''"

subsection \<open>Integers and time\<close>

text \<open>The value an \<open>i64\<close> keeps of an integer: casts and additions wrap.\<close>

definition wrap_i64 :: "int \<Rightarrow> int" where
  "wrap_i64 x = (x + 2 ^ 63) mod 2 ^ 64 - 2 ^ 63"

definition epoch_secs :: "nat \<Rightarrow> instant \<Rightarrow> int" where
  "epoch_secs w t = int (as_secs (w + t))"

definition ttl_from_exp :: "nat \<Rightarrow> instant \<Rightarrow> int \<Rightarrow> duration" where
  "ttl_from_exp w t until = (let now = epoch_secs w t in from_secs (if until \<le> now then 1 else nat (until - now)))"

subsection \<open>Configuration\<close>

record signing_config =
  sc_issuer :: string
  sc_audience :: string
  sc_access_ttl_secs :: u64
  sc_refresh_ttl_secs :: u64

record key_ring =
  kr_active_kid :: string
  kr_keys :: "string hashmap"

definition signing_config_from_env :: "environment \<Rightarrow> signing_config" where
  "signing_config_from_env env =
     \<lparr>sc_issuer = env_or env ''KRAB_OIDC_ISSUER'' ''krab.auth'',
      sc_audience = env_or env ''KRAB_OIDC_AUDIENCE'' ''krab.services'',
      sc_access_ttl_secs = env_u64 env ''KRAB_AUTH_ACCESS_TTL_SECS'' 900,
      sc_refresh_ttl_secs = env_u64 env ''KRAB_AUTH_REFRESH_TTL_SECS'' 604800\<rparr>"

datatype ring_error = RingUnreadable read_error | RingNotJson | RingEmpty

text \<open>A \<open>BTreeMap\<close> iterates in the order of its keys.\<close>

definition btree_keys :: "string hashmap \<Rightarrow> string list" where
  "btree_keys m = sort (remdups (hm_keys m))"

definition active_kid :: "environment \<Rightarrow> string hashmap \<Rightarrow> string" where
  "active_kid env keys =
     (case env ''KRAB_JWT_ACTIVE_KID'' of
        Some kid \<Rightarrow> if hm_contains keys kid then kid else hd (btree_keys keys)
      | None \<Rightarrow> hd (btree_keys keys))"

definition key_ring_from_env :: "auth_parsers \<Rightarrow> outside \<Rightarrow> ring_error + key_ring" where
  "key_ring_from_env ps w =
     (let read = read_env_or_file (out_env w) (out_fs w);
          keys =
            (case read ''KRAB_JWT_KEYS_JSON'' of
               Inl e \<Rightarrow> Inl (RingUnreadable e)
             | Inr (Some raw) \<Rightarrow> (case ps_string_map ps raw of None \<Rightarrow> Inl RingNotJson | Some m \<Rightarrow> Inr m)
             | Inr None \<Rightarrow>
                 (case read ''KRAB_JWT_SECRET'' of
                    Inl e \<Rightarrow> Inl (RingUnreadable e)
                  | Inr s \<Rightarrow> Inr [(''default'', case s of Some v \<Rightarrow> v | None \<Rightarrow> INSECURE_DEV_JWT_SECRET)]))
      in case keys of
           Inl e \<Rightarrow> Inl e
         | Inr m \<Rightarrow> if m = [] then Inl RingEmpty else Inr \<lparr>kr_active_kid = active_kid (out_env w) m, kr_keys = m\<rparr>)"

subsection \<open>Tokens\<close>

record token_claims =
  tc_sub :: string
  tc_iss :: string
  tc_aud :: string
  tc_iat :: int
  tc_nbf :: int
  tc_exp :: int
  tc_jti :: string
  tc_token_use :: string
  tc_tenant_id :: "string option"
  tc_scope :: string
  tc_roles :: "string list"

text \<open>
  \<open>tl_header\<close> is \<open>decode_header\<close> with the key id; \<open>tl_decode\<close> verifies an HS256 token under a secret,
  with the audience, issuer and leeway of the validation and the time of the check.
\<close>

record token_lib =
  tl_header :: "string \<Rightarrow> string option option"
  tl_decode :: "string \<Rightarrow> string \<Rightarrow> string \<Rightarrow> string \<Rightarrow> nat \<Rightarrow> int \<Rightarrow> token_claims option"
  tl_encode :: "string \<Rightarrow> string \<Rightarrow> token_claims \<Rightarrow> string option"

definition LEEWAY :: nat where
  "LEEWAY = 30"

fun try_secrets :: "token_lib \<Rightarrow> string \<Rightarrow> signing_config \<Rightarrow> int \<Rightarrow> string list \<Rightarrow> token_claims option" where
  "try_secrets lib token cfg now [] = None"
| "try_secrets lib token cfg now (secret # secrets) =
     (case tl_decode lib token secret (sc_audience cfg) (sc_issuer cfg) LEEWAY now of
        Some claims \<Rightarrow> Some claims
      | None \<Rightarrow> try_secrets lib token cfg now secrets)"

definition decode_with_key_ring :: "token_lib \<Rightarrow> string \<Rightarrow> key_ring \<Rightarrow> signing_config \<Rightarrow> int \<Rightarrow> token_claims option" where
  "decode_with_key_ring lib token ring cfg now =
     (case tl_header lib token of
        None \<Rightarrow> None
      | Some kid \<Rightarrow>
          try_secrets lib token cfg now
            (case kid of
               Some k \<Rightarrow> (case hm_get (kr_keys ring) k of Some secret \<Rightarrow> [secret] | None \<Rightarrow> [])
             | None \<Rightarrow> map (\<lambda>k. the (hm_get (kr_keys ring) k)) (btree_keys (kr_keys ring))))"

record token_pair =
  tp_access_token :: string
  tp_refresh_token :: string
  tp_expires_in :: u64
  tp_refresh_expires_in :: u64
  tp_kid :: string

text \<open>What the service holds besides its store, and the responses of its handlers.\<close>

record token_app =
  ta_credentials :: credential_store
  ta_signing :: signing_config
  ta_ring :: "ring_error + key_ring"

datatype token_response =
    Tokens token_pair
  | Refused nat string
  | Revoked string

text \<open>The clock readings of one request, in the order they are taken.\<close>

record token_clock =
  tk_decode :: instant
  tk_used :: instant
  tk_revoked :: instant
  tk_ttl :: instant
  tk_mark :: instant
  tk_mark_done :: instant
  tk_issue :: instant
  tk_live :: instant
  tk_live_done :: instant

definition live_key :: "string \<Rightarrow> string" where
  "live_key jti = ''auth:refresh:live:'' @ jti"

definition used_key :: "string \<Rightarrow> string" where
  "used_key jti = ''auth:refresh:used:'' @ jti"

definition claims_of ::
  "signing_config \<Rightarrow> int \<Rightarrow> u64 \<Rightarrow> string \<Rightarrow> string \<Rightarrow> string \<Rightarrow> string option \<Rightarrow> string list \<Rightarrow> string list \<Rightarrow> token_claims" where
  "claims_of cfg now ttl use jti subject tenant scopes roles =
     \<lparr>tc_sub = subject, tc_iss = sc_issuer cfg, tc_aud = sc_audience cfg, tc_iat = now, tc_nbf = now,
      tc_exp = wrap_i64 (now + wrap_i64 (int (unat ttl))), tc_jti = jti, tc_token_use = use, tc_tenant_id = tenant,
      tc_scope = (if scopes = [] then ''user'' else join '' '' scopes),
      tc_roles = (if roles = [] then [''user''] else roles)\<rparr>"

text \<open>\<open>issue_token_pair\<close>; \<open>ids\<close> are the two random token ids. \<open>None\<close> is an error.\<close>

definition issue_token_pair ::
  "'st store_ops \<Rightarrow> token_lib \<Rightarrow> token_app \<Rightarrow> nat \<Rightarrow> token_clock \<Rightarrow> string \<times> string \<Rightarrow> string \<Rightarrow> string option \<Rightarrow>
     string list \<Rightarrow> string list \<Rightarrow> 'st \<Rightarrow> token_pair option \<times> 'st" where
  "issue_token_pair ops lib app w ck ids subject tenant scopes roles st =
     (case ta_ring app of
        Inl _ \<Rightarrow> (None, st)
      | Inr ring \<Rightarrow>
          (case hm_get (kr_keys ring) (kr_active_kid ring) of
             None \<Rightarrow> (None, st)
           | Some secret \<Rightarrow>
               let cfg = ta_signing app; now = epoch_secs w (tk_issue ck); kid = kr_active_kid ring;
                   access = claims_of cfg now (sc_access_ttl_secs cfg) ''access'' (fst ids) subject tenant scopes roles;
                   refresh = claims_of cfg now (sc_refresh_ttl_secs cfg) ''refresh'' (snd ids) subject tenant scopes roles
               in case (tl_encode lib kid secret access, tl_encode lib kid secret refresh) of
                    (Some access_token, Some refresh_token) \<Rightarrow>
                      let (r, st') = op_set ops st (tk_live ck) (tk_live_done ck) (live_key (snd ids)) ''1''
                                       (from_secs (unat (max 1 (sc_refresh_ttl_secs cfg))))
                      in (case r of
                            Inl _ \<Rightarrow> (None, st')
                          | Inr _ \<Rightarrow>
                              (Some \<lparr>tp_access_token = access_token, tp_refresh_token = refresh_token,
                                     tp_expires_in = sc_access_ttl_secs cfg, tp_refresh_expires_in = sc_refresh_ttl_secs cfg,
                                     tp_kid = kid\<rparr>, st'))
                  | _ \<Rightarrow> (None, st)))"

subsection \<open>Handlers\<close>

record login_request =
  lr_username :: string
  lr_password :: string
  lr_tenant_id :: "string option"
  lr_scopes :: "string list"
  lr_roles :: "string list"

definition answer_pair :: "string \<Rightarrow> token_pair option \<times> 'st \<Rightarrow> token_response \<times> 'st" where
  "answer_pair err r = (case r of (Some pair, st) \<Rightarrow> (Tokens pair, st) | (None, st) \<Rightarrow> (Refused 503 err, st))"

definition login_handler ::
  "'st store_ops \<Rightarrow> token_lib \<Rightarrow> hash_lib \<Rightarrow> token_app \<Rightarrow> nat \<Rightarrow> token_clock \<Rightarrow> string \<times> string \<Rightarrow> login_request \<Rightarrow>
     'st \<Rightarrow> token_response \<times> 'st" where
  "login_handler ops lib hl app w ck ids payload st =
     (case credentials_verify hl (ta_credentials app) (trim (lr_username payload)) (trim (lr_password payload)) of
        Inl _ \<Rightarrow> (Refused 503 ''auth_config_error'', st)
      | Inr None \<Rightarrow> (Refused 401 ''invalid_credentials'', st)
      | Inr (Some _) \<Rightarrow>
          answer_pair ''token_issuance_failed''
            (issue_token_pair ops lib app w ck ids (trim (lr_username payload)) (lr_tenant_id payload) (lr_scopes payload)
               (lr_roles payload) st))"

text \<open>The checks of \<open>refresh_handler\<close> up to the last read, and the rest of it, which marks the token as used.\<close>

definition refresh_checks ::
  "'st store_ops \<Rightarrow> token_lib \<Rightarrow> token_app \<Rightarrow> nat \<Rightarrow> token_clock \<Rightarrow> string \<Rightarrow> 'st \<Rightarrow> (token_response + token_claims) \<times> 'st" where
  "refresh_checks ops lib app w ck token st =
     (case ta_ring app of
        Inl _ \<Rightarrow> (Inl (Refused 503 ''signing_keys_unavailable''), st)
      | Inr ring \<Rightarrow>
          (case decode_with_key_ring lib token ring (ta_signing app) (epoch_secs w (tk_decode ck)) of
             None \<Rightarrow> (Inl (Refused 401 ''invalid_refresh_token''), st)
           | Some claims \<Rightarrow>
               if tc_token_use claims \<noteq> ''refresh'' then (Inl (Refused 401 ''token_use_mismatch''), st)
               else
                 let (used, st1) = op_get ops st (tk_used ck) (used_key (tc_jti claims))
                 in (case used of
                       Inl _ \<Rightarrow> (Inl (Refused 503 ''store_unavailable''), st1)
                     | Inr (Some _) \<Rightarrow> (Inl (Refused 401 ''refresh_token_already_used''), st1)
                     | Inr None \<Rightarrow>
                         let (revoked, st2) = op_get ops st1 (tk_revoked ck) (revoked_key (tc_jti claims))
                         in (case revoked of
                               Inl _ \<Rightarrow> (Inl (Refused 503 ''store_unavailable''), st2)
                             | Inr (Some _) \<Rightarrow> (Inl (Refused 401 ''refresh_token_revoked''), st2)
                             | Inr None \<Rightarrow> (Inr claims, st2)))))"

definition refresh_commit ::
  "'st store_ops \<Rightarrow> token_lib \<Rightarrow> token_app \<Rightarrow> nat \<Rightarrow> token_clock \<Rightarrow> string \<times> string \<Rightarrow> token_claims \<Rightarrow> 'st \<Rightarrow>
     token_response \<times> 'st" where
  "refresh_commit ops lib app w ck ids claims st =
     (let (r, st1) = op_set ops st (tk_mark ck) (tk_mark_done ck) (used_key (tc_jti claims)) ''1''
                       (ttl_from_exp w (tk_ttl ck) (tc_exp claims))
      in (case r of
            Inl _ \<Rightarrow> (Refused 503 ''store_unavailable'', st1)
          | Inr _ \<Rightarrow>
              answer_pair ''refresh_failed''
                (issue_token_pair ops lib app w ck ids (tc_sub claims) (tc_tenant_id claims) (split_whitespace (tc_scope claims))
                   (tc_roles claims) st1)))"

definition refresh_handler ::
  "'st store_ops \<Rightarrow> token_lib \<Rightarrow> token_app \<Rightarrow> nat \<Rightarrow> token_clock \<Rightarrow> string \<times> string \<Rightarrow> string \<Rightarrow> 'st \<Rightarrow>
     token_response \<times> 'st" where
  "refresh_handler ops lib app w ck ids token st =
     (case refresh_checks ops lib app w ck token st of
        (Inl r, st1) \<Rightarrow> (r, st1)
      | (Inr claims, st1) \<Rightarrow> refresh_commit ops lib app w ck ids claims st1)"

definition revoke_handler ::
  "'st store_ops \<Rightarrow> token_lib \<Rightarrow> token_app \<Rightarrow> nat \<Rightarrow> token_clock \<Rightarrow> string \<Rightarrow> 'st \<Rightarrow> token_response \<times> 'st" where
  "revoke_handler ops lib app w ck token st =
     (case ta_ring app of
        Inl _ \<Rightarrow> (Refused 503 ''signing_keys_unavailable'', st)
      | Inr ring \<Rightarrow>
          (case decode_with_key_ring lib token ring (ta_signing app) (epoch_secs w (tk_decode ck)) of
             None \<Rightarrow> (Refused 401 ''invalid_token'', st)
           | Some claims \<Rightarrow>
               let ttl = ttl_from_exp w (tk_ttl ck) (tc_exp claims);
                   (r, st1) = op_set ops st (tk_mark ck) (tk_mark_done ck) (revoked_key (tc_jti claims)) ''1'' ttl
               in (case r of
                     Inl _ \<Rightarrow> (Refused 503 ''store_unavailable'', st1)
                   | Inr _ \<Rightarrow>
                       if tc_token_use claims = ''refresh'' then
                         let (r', st2) = op_set ops st1 (tk_live ck) (tk_live_done ck) (used_key (tc_jti claims)) ''1'' ttl
                         in (case r' of
                               Inl _ \<Rightarrow> (Refused 503 ''store_unavailable'', st2)
                             | Inr _ \<Rightarrow> (Revoked (tc_token_use claims), st2))
                       else (Revoked (tc_token_use claims), st1))))"

text \<open>\<open>jwks_handler\<close>: the ids of the keys, never their secrets.\<close>

record jwk_descriptor =
  jd_kty :: string
  jd_kid :: string
  jd_alg :: string
  jd_use :: string

definition jwks_handler :: "token_app \<Rightarrow> nat + jwk_descriptor list" where
  "jwks_handler app =
     (case ta_ring app of
        Inl _ \<Rightarrow> Inl 503
      | Inr ring \<Rightarrow> Inr (map (\<lambda>kid. \<lparr>jd_kty = ''oct'', jd_kid = kid, jd_alg = ''HS256'', jd_use = ''sig''\<rparr>) (btree_keys (kr_keys ring))))"

subsection \<open>What the handlers do to the store\<close>

lemma keys_differ [simp]:
  "used_key a \<noteq> live_key b" "live_key b \<noteq> used_key a" "used_key a \<noteq> revoked_key b" "revoked_key b \<noteq> used_key a"
  "live_key a \<noteq> revoked_key b" "revoked_key b \<noteq> live_key a"
  "used_key a = used_key b \<longleftrightarrow> a = b" "revoked_key a = revoked_key b \<longleftrightarrow> a = b"
  by (simp_all add: used_key_def live_key_def revoked_key_def)

definition in_order :: "instant \<Rightarrow> token_clock \<Rightarrow> bool" where
  "in_order t0 ck =
     (t0 \<le> tk_decode ck \<and> tk_decode ck \<le> tk_used ck \<and> tk_used ck \<le> tk_revoked ck \<and> tk_revoked ck \<le> tk_ttl ck \<and>
      tk_ttl ck \<le> tk_mark ck \<and> tk_mark ck \<le> tk_mark_done ck \<and> tk_mark_done ck \<le> tk_issue ck \<and>
      tk_issue ck \<le> tk_live ck \<and> tk_live ck \<le> tk_live_done ck)"

lemma in_orderD:
  assumes "in_order t0 ck"
  shows "t0 \<le> tk_decode ck" "t0 \<le> tk_used ck" "t0 \<le> tk_revoked ck" "tk_ttl ck \<le> tk_mark ck" "tk_mark ck \<le> tk_mark_done ck"
    "tk_mark_done ck \<le> tk_live_done ck" "tk_live ck \<le> tk_live_done ck" "t0 \<le> tk_live_done ck" "tk_ttl ck \<le> tk_live ck"
    "tk_used ck \<le> tk_revoked ck" "t0 \<le> tk_ttl ck" "t0 \<le> tk_mark_done ck"
  using assms unfolding in_order_def by linarith+

text \<open>A marker written under the lifetime of a token stands until the token expires.\<close>

lemma marker_alive:
  assumes "tk \<le> now" and "epoch_secs w t < until"
  shows "alive now (ttl_from_exp w tk until) t"
proof (cases "until \<le> epoch_secs w tk")
  case True
  have "t < tk"
  proof (rule ccontr)
    assume "\<not> t < tk"
    then have "epoch_secs w tk \<le> epoch_secs w t" by (simp add: epoch_secs_def as_secs_mono)
    with True assms(2) show False by simp
  qed
  then show ?thesis using assms(1) by (simp add: alive_def)
next
  case False
  define s where "s = nat (until - epoch_secs w tk)"
  have s: "int s = until - epoch_secs w tk" using False by (simp add: s_def)
  have "int ((w + t) div nanos_per_sec) < int s + int ((w + tk) div nanos_per_sec)"
    using assms(2) s by (simp add: epoch_secs_def as_secs_def)
  then have "(w + t) div nanos_per_sec < (w + tk) div nanos_per_sec + s" by linarith
  then have "t < tk + s * nanos_per_sec" by (simp add: div_less_iff_less_mult)
  then show ?thesis using False assms(1) by (simp add: alive_def ttl_from_exp_def Let_def s_def [symmetric] from_secs_def)
qed

context durable_store
begin

lemma get_cases:
  assumes "inv st"
  obtains st1 where "op_get ops st now k = (Inr (look st now k), st1)" "inv st1"
    "\<And>t k'. now \<le> t \<Longrightarrow> look st1 t k' = look st t k'"
  by (rule that [of "snd (op_get ops st now k)"])
     (use get_result [OF assms] get_inv [OF assms] get_look [OF assms] in \<open>simp_all add: prod_eq_iff\<close>)

lemma set_cases:
  assumes "inv st"
  obtains st1 where "op_set ops st now ts k v ttl = (Inr (), st1)" "inv st1"
    "\<And>t. ts \<le> t \<Longrightarrow> look st1 t k = (if alive now ttl t then Some v else None)"
    "\<And>t k'. ts \<le> t \<Longrightarrow> k' \<noteq> k \<Longrightarrow> look st1 t k' = look st t k'"
  by (rule that [of "snd (op_set ops st now ts k v ttl)"])
     (use set_result [OF assms] set_inv [OF assms] set_look [OF assms] set_keeps [OF assms] in \<open>simp_all add: prod_eq_iff\<close>)

lemma issue_frame:
  assumes "inv st" and i: "issue_token_pair ops lib app w ck ids subject tenant scopes roles st = (r, st')"
  shows "inv st' \<and> (\<forall>t k. tk_live_done ck \<le> t \<and> k \<noteq> live_key (snd ids) \<longrightarrow> look st' t k = look st t k)"
proof -
  obtain st1 where s: "op_set ops st (tk_live ck) (tk_live_done ck) (live_key (snd ids)) ''1''
      (from_secs (unat (max 1 (sc_refresh_ttl_secs (ta_signing app))))) = (Inr (), st1)" "inv st1"
    "\<And>t k'. tk_live_done ck \<le> t \<Longrightarrow> k' \<noteq> live_key (snd ids) \<Longrightarrow> look st1 t k' = look st t k'"
    by (rule set_cases [OF assms(1)]) (rule that)
  have "st' = st \<or> st' = st1"
    using i s(1) by (auto simp: issue_token_pair_def Let_def split: sum.splits option.splits)
  with s(2,3) assms(1) show ?thesis by auto
qed

lemma answer_pair_state: "answer_pair e r = (resp, st') \<Longrightarrow> st' = snd r"
  by (auto simp: answer_pair_def split: prod.splits option.splits)

lemma login_frame:
  assumes "inv st" and "login_handler ops lib hl app w ck ids payload st = (r, st')"
  shows "inv st' \<and> (\<forall>t k. tk_live_done ck \<le> t \<and> k \<noteq> live_key (snd ids) \<longrightarrow> look st' t k = look st t k)"
proof -
  let ?i = "issue_token_pair ops lib app w ck ids (trim (lr_username payload)) (lr_tenant_id payload) (lr_scopes payload) (lr_roles payload) st"
  have "st' = st \<or> st' = snd ?i"
    using assms(2) by (auto simp: login_handler_def split: sum.splits option.splits dest: answer_pair_state)
  then show ?thesis using issue_frame [OF assms(1) prod.collapse [symmetric], of lib app w ck ids] assms(1) by metis
qed

lemma refresh_checks_spec:
  assumes "inv st" and ord: "tk_used ck \<le> tk_revoked ck" and "refresh_checks ops lib app w ck token st = (r, st')"
  shows "inv st' \<and> (\<forall>t k. tk_revoked ck \<le> t \<longrightarrow> look st' t k = look st t k) \<and>
      r = (case ta_ring app of
             Inl _ \<Rightarrow> Inl (Refused 503 ''signing_keys_unavailable'')
           | Inr ring \<Rightarrow>
               (case decode_with_key_ring lib token ring (ta_signing app) (epoch_secs w (tk_decode ck)) of
                  None \<Rightarrow> Inl (Refused 401 ''invalid_refresh_token'')
                | Some claims \<Rightarrow>
                    if tc_token_use claims \<noteq> ''refresh'' then Inl (Refused 401 ''token_use_mismatch'')
                    else if look st (tk_used ck) (used_key (tc_jti claims)) \<noteq> None
                      then Inl (Refused 401 ''refresh_token_already_used'')
                    else if look st (tk_revoked ck) (revoked_key (tc_jti claims)) \<noteq> None
                      then Inl (Refused 401 ''refresh_token_revoked'')
                    else Inr claims))"
proof (cases "ta_ring app")
  case (Inl e)
  then show ?thesis using assms by (simp add: refresh_checks_def)
next
  case ring: (Inr ring)
  show ?thesis
  proof (cases "decode_with_key_ring lib token ring (ta_signing app) (epoch_secs w (tk_decode ck))")
    case None
    then show ?thesis using assms ring by (simp add: refresh_checks_def)
  next
    case (Some claims)
    obtain st1 where g1: "op_get ops st (tk_used ck) (used_key (tc_jti claims)) = (Inr (look st (tk_used ck) (used_key (tc_jti claims))), st1)"
      "inv st1" "\<And>t k'. tk_used ck \<le> t \<Longrightarrow> look st1 t k' = look st t k'"
      by (rule get_cases [OF assms(1)]) (rule that)
    obtain st2 where g2: "op_get ops st1 (tk_revoked ck) (revoked_key (tc_jti claims)) = (Inr (look st1 (tk_revoked ck) (revoked_key (tc_jti claims))), st2)"
      "inv st2" "\<And>t k'. tk_revoked ck \<le> t \<Longrightarrow> look st2 t k' = look st1 t k'"
      by (rule get_cases [OF g1(2)]) (rule that)
    show ?thesis
      using assms ring Some g1 g2
      by (cases "look st (tk_used ck) (used_key (tc_jti claims))"; cases "look st (tk_revoked ck) (revoked_key (tc_jti claims))")
         (auto simp: refresh_checks_def split: if_splits)
  qed
qed

lemma refresh_commit_spec:
  assumes "inv st" and ord: "tk_mark_done ck \<le> tk_live_done ck"
    and c: "refresh_commit ops lib app w ck ids claims st = (r, st')"
  shows "inv st' \<and>
    (\<forall>t. tk_live_done ck \<le> t \<longrightarrow> look st' t (used_key (tc_jti claims)) =
       (if alive (tk_mark ck) (ttl_from_exp w (tk_ttl ck) (tc_exp claims)) t then Some ''1'' else None)) \<and>
    (\<forall>t k. tk_live_done ck \<le> t \<and> k \<noteq> live_key (snd ids) \<and> k \<noteq> used_key (tc_jti claims) \<longrightarrow> look st' t k = look st t k)"
proof -
  obtain st1 where s: "op_set ops st (tk_mark ck) (tk_mark_done ck) (used_key (tc_jti claims)) ''1''
      (ttl_from_exp w (tk_ttl ck) (tc_exp claims)) = (Inr (), st1)" "inv st1"
    "\<And>t. tk_mark_done ck \<le> t \<Longrightarrow> look st1 t (used_key (tc_jti claims)) =
       (if alive (tk_mark ck) (ttl_from_exp w (tk_ttl ck) (tc_exp claims)) t then Some ''1'' else None)"
    "\<And>t k'. tk_mark_done ck \<le> t \<Longrightarrow> k' \<noteq> used_key (tc_jti claims) \<Longrightarrow> look st1 t k' = look st t k'"
    by (rule set_cases [OF assms(1)]) (rule that)
  let ?i = "issue_token_pair ops lib app w ck ids (tc_sub claims) (tc_tenant_id claims) (split_whitespace (tc_scope claims)) (tc_roles claims) st1"
  have st': "st' = snd ?i" using c s(1) by (auto simp: refresh_commit_def dest: answer_pair_state)
  note i = issue_frame [OF s(2) prod.collapse [symmetric], of lib app w ck ids "tc_sub claims" "tc_tenant_id claims" "split_whitespace (tc_scope claims)" "tc_roles claims"]
  show ?thesis unfolding st' using i s(3,4) ord by auto
qed

lemma revoke_spec:
  assumes "inv st" and ord: "tk_mark_done ck \<le> tk_live_done ck" and "tk_mark ck \<le> tk_live ck"
    and r: "revoke_handler ops lib app w ck token st = (r, st')"
  shows "inv st' \<and>
    ((\<forall>t k. tk_live_done ck \<le> t \<longrightarrow> look st' t k = look st t k) \<and> (\<forall>u. r \<noteq> Revoked u) \<or>
     (\<exists>ring claims. ta_ring app = Inr ring \<and> r = Revoked (tc_token_use claims) \<and>
        decode_with_key_ring lib token ring (ta_signing app) (epoch_secs w (tk_decode ck)) = Some claims \<and>
        (\<forall>t. tk_live_done ck \<le> t \<longrightarrow> look st' t (revoked_key (tc_jti claims)) =
           (if alive (tk_mark ck) (ttl_from_exp w (tk_ttl ck) (tc_exp claims)) t then Some ''1'' else None)) \<and>
        (\<forall>t. tk_live_done ck \<le> t \<longrightarrow> look st' t (used_key (tc_jti claims)) =
           (if tc_token_use claims = ''refresh''
            then if alive (tk_live ck) (ttl_from_exp w (tk_ttl ck) (tc_exp claims)) t then Some ''1'' else None
            else look st t (used_key (tc_jti claims)))) \<and>
        (\<forall>t k. tk_live_done ck \<le> t \<and> k \<noteq> revoked_key (tc_jti claims) \<and> k \<noteq> used_key (tc_jti claims) \<longrightarrow> look st' t k = look st t k)))"
proof (cases "ta_ring app")
  case (Inl e)
  then show ?thesis using assms by (auto simp: revoke_handler_def)
next
  case ring: (Inr ring)
  show ?thesis
  proof (cases "decode_with_key_ring lib token ring (ta_signing app) (epoch_secs w (tk_decode ck))")
    case None
    then show ?thesis using assms ring by (auto simp: revoke_handler_def)
  next
    case (Some claims)
    let ?ttl = "ttl_from_exp w (tk_ttl ck) (tc_exp claims)"
    obtain st1 where s1: "op_set ops st (tk_mark ck) (tk_mark_done ck) (revoked_key (tc_jti claims)) ''1'' ?ttl = (Inr (), st1)" "inv st1"
      "\<And>t. tk_mark_done ck \<le> t \<Longrightarrow> look st1 t (revoked_key (tc_jti claims)) = (if alive (tk_mark ck) ?ttl t then Some ''1'' else None)"
      "\<And>t k'. tk_mark_done ck \<le> t \<Longrightarrow> k' \<noteq> revoked_key (tc_jti claims) \<Longrightarrow> look st1 t k' = look st t k'"
      by (rule set_cases [OF assms(1)]) (rule that)
    obtain st2 where s2: "op_set ops st1 (tk_live ck) (tk_live_done ck) (used_key (tc_jti claims)) ''1'' ?ttl = (Inr (), st2)" "inv st2"
      "\<And>t. tk_live_done ck \<le> t \<Longrightarrow> look st2 t (used_key (tc_jti claims)) = (if alive (tk_live ck) ?ttl t then Some ''1'' else None)"
      "\<And>t k'. tk_live_done ck \<le> t \<Longrightarrow> k' \<noteq> used_key (tc_jti claims) \<Longrightarrow> look st2 t k' = look st1 t k'"
      by (rule set_cases [OF s1(2)]) (rule that)
    have "r = Revoked (tc_token_use claims)" "st' = (if tc_token_use claims = ''refresh'' then st2 else st1)"
      using r ring Some s1(1) s2(1) by (auto simp: revoke_handler_def Let_def split: if_splits)
    then show ?thesis using ring Some s1(2-4) s2(2-4) ord by auto
  qed
qed

end

subsection \<open>The service over time\<close>

text \<open>
  What happens to the store: calls of the service, and anything else done to the store (the gate counts
  failures and reads markers, other services keep their data there).
\<close>

datatype token_call =
    CallLogin token_clock "string \<times> string" login_request
  | CallRefresh token_clock "string \<times> string" string
  | CallRevoke token_clock string
  | CallStore instant mem_op

definition token_step :: "token_lib \<Rightarrow> hash_lib \<Rightarrow> token_app \<Rightarrow> nat \<Rightarrow> mem_store \<Rightarrow> token_call \<Rightarrow> mem_store" where
  "token_step lib hl app w st call =
     (case call of
        CallLogin ck ids payload \<Rightarrow> snd (login_handler mem_ops lib hl app w ck ids payload st)
      | CallRefresh ck ids token \<Rightarrow> snd (refresh_handler mem_ops lib app w ck ids token st)
      | CallRevoke ck token \<Rightarrow> snd (revoke_handler mem_ops lib app w ck token st)
      | CallStore t op \<Rightarrow> mem_step st op)"

definition token_run :: "token_lib \<Rightarrow> hash_lib \<Rightarrow> token_app \<Rightarrow> nat \<Rightarrow> token_call list \<Rightarrow> mem_store \<Rightarrow> mem_store" where
  "token_run lib hl app w calls st = foldl (token_step lib hl app w) st calls"

definition call_end :: "token_call \<Rightarrow> instant" where
  "call_end call =
     (case call of CallLogin ck _ _ \<Rightarrow> tk_live_done ck | CallRefresh ck _ _ \<Rightarrow> tk_live_done ck
      | CallRevoke ck _ \<Rightarrow> tk_live_done ck | CallStore t op \<Rightarrow> max t (mem_op_end op))"

definition call_from :: "instant \<Rightarrow> token_call \<Rightarrow> bool" where
  "call_from t0 call =
     (case call of CallLogin ck _ _ \<Rightarrow> in_order t0 ck | CallRefresh ck _ _ \<Rightarrow> in_order t0 ck
      | CallRevoke ck _ \<Rightarrow> in_order t0 ck | CallStore t op \<Rightarrow> t0 \<le> t)"

fun one_after_another :: "instant \<Rightarrow> token_call list \<Rightarrow> bool" where
  "one_after_another t0 [] = True"
| "one_after_another t0 (call # calls) = (call_from t0 call \<and> one_after_another (call_end call) calls)"

definition last_end :: "instant \<Rightarrow> token_call list \<Rightarrow> instant" where
  "last_end t0 calls = foldl (\<lambda>_. call_end) t0 calls"

text \<open>Token ids are unique: a token with this id expires no earlier. Nobody else writes its markers.\<close>

definition id_until :: "token_lib \<Rightarrow> token_app \<Rightarrow> nat \<Rightarrow> string \<Rightarrow> int \<Rightarrow> token_clock \<Rightarrow> string \<Rightarrow> bool" where
  "id_until lib app w j e ck token =
     (\<forall>r claims. ta_ring app = Inr r \<longrightarrow>
        decode_with_key_ring lib token r (ta_signing app) (epoch_secs w (tk_decode ck)) = Some claims \<longrightarrow>
        tc_jti claims = j \<longrightarrow> e \<le> tc_exp claims)"

definition honours_id :: "token_lib \<Rightarrow> token_app \<Rightarrow> nat \<Rightarrow> string \<Rightarrow> int \<Rightarrow> token_call \<Rightarrow> bool" where
  "honours_id lib app w j e call =
     (case call of
        CallLogin ck ids payload \<Rightarrow> True
      | CallRefresh ck ids token \<Rightarrow> id_until lib app w j e ck token
      | CallRevoke ck token \<Rightarrow> id_until lib app w j e ck token
      | CallStore t op \<Rightarrow> mem_op_key op \<notin> {used_key j, revoked_key j})"

definition marked :: "nat \<Rightarrow> string \<Rightarrow> int \<Rightarrow> instant \<Rightarrow> mem_store \<Rightarrow> bool" where
  "marked w k e t0 st = (\<forall>t \<ge> t0. epoch_secs w t < e \<longrightarrow> live st t k \<noteq> None)"

lemma markedI_written:
  assumes "\<And>t. t1 \<le> t \<Longrightarrow> live st t k = (if alive now (ttl_from_exp w tk until) t then Some v else None)"
    and "tk \<le> now" and "e \<le> until"
  shows "marked w k e t1 st"
  unfolding marked_def using assms(1,3) marker_alive [OF assms(2), of w _ until] by (metis option.distinct(1) order_less_le_trans)

lemma marked_kept:
  assumes "marked w k e t0 st" and "t0 \<le> t1" and "\<And>t. t1 \<le> t \<Longrightarrow> live st' t k = live st t k"
  shows "marked w k e t1 st'"
  using assms by (simp add: marked_def)

lemma refresh_keeps_marks:
  assumes "unlimited_inv st" and "in_order t0 ck" and "marked w k e t0 st" and k: "k \<in> {used_key j, revoked_key j}"
    and "honours_id lib app w j e (CallRefresh ck ids token)" and r: "refresh_handler mem_ops lib app w ck ids token st = (r, st')"
  shows "unlimited_inv st' \<and> marked w k e (tk_live_done ck) st'"
proof -
  note o = in_orderD [OF assms(2)]
  obtain c st1 where c: "refresh_checks mem_ops lib app w ck token st = (c, st1)" by fastforce
  note cs = unlimited.refresh_checks_spec [OF assms(1) o(10) c]
  have order: "tk_revoked ck \<le> tk_live_done ck" using assms(2) by (simp add: in_order_def)
  have m1: "marked w k e (tk_live_done ck) st1"
    using assms(3) o(8) by (rule marked_kept) (use cs order in simp)
  show ?thesis
  proof (cases c)
    case (Inl x)
    then show ?thesis using r c cs m1 by (simp add: refresh_handler_def)
  next
    case (Inr claims)
    then have commit: "refresh_commit mem_ops lib app w ck ids claims st1 = (r, st')" using r c by (simp add: refresh_handler_def)
    note s = unlimited.refresh_commit_spec [OF conjunct1 [OF cs] o(6) commit]
    have dec: "\<exists>ring. ta_ring app = Inr ring \<and> decode_with_key_ring lib token ring (ta_signing app) (epoch_secs w (tk_decode ck)) = Some claims"
      using cs Inr by (auto split: sum.splits option.splits if_splits)
    have "marked w k e (tk_live_done ck) st'"
    proof (cases "k = used_key (tc_jti claims)")
      case True
      then have "e \<le> tc_exp claims" using assms(5) dec k by (auto simp: honours_id_def id_until_def)
      with s True o(4) show ?thesis by (intro markedI_written [of "tk_live_done ck" st' k "tk_mark ck" w "tk_ttl ck" "tc_exp claims" "''1''"]) auto
    next
      case False
      then show ?thesis using m1 s k by (intro marked_kept [OF m1 order_refl]) auto
    qed
    then show ?thesis using s by blast
  qed
qed

lemma revoke_keeps_marks:
  assumes "unlimited_inv st" and "in_order t0 ck" and "marked w k e t0 st" and k: "k \<in> {used_key j, revoked_key j}"
    and "honours_id lib app w j e (CallRevoke ck token)" and r: "revoke_handler mem_ops lib app w ck token st = (r, st')"
  shows "unlimited_inv st' \<and> marked w k e (tk_live_done ck) st'"
proof -
  note o = in_orderD [OF assms(2)]
  have ml: "tk_mark ck \<le> tk_live ck" using assms(2) by (simp add: in_order_def)
  note s = unlimited.revoke_spec [OF assms(1) o(6) ml r]
  have m1: "marked w k e (tk_live_done ck) st" using assms(3) o(8) by (rule marked_kept) simp
  from conjunct2 [OF s] have "marked w k e (tk_live_done ck) st'"
  proof (elim disjE exE conjE)
    assume "\<forall>t k. tk_live_done ck \<le> t \<longrightarrow> live st' t k = live st t k"
    then show ?thesis by (intro marked_kept [OF m1 order_refl]) simp
  next
    fix ring claims
    assume ring: "ta_ring app = Inr ring" and d: "decode_with_key_ring lib token ring (ta_signing app) (epoch_secs w (tk_decode ck)) = Some claims"
      and rev: "\<forall>t. tk_live_done ck \<le> t \<longrightarrow> live st' t (revoked_key (tc_jti claims)) =
           (if alive (tk_mark ck) (ttl_from_exp w (tk_ttl ck) (tc_exp claims)) t then Some ''1'' else None)"
      and used: "\<forall>t. tk_live_done ck \<le> t \<longrightarrow> live st' t (used_key (tc_jti claims)) =
           (if tc_token_use claims = ''refresh''
            then if alive (tk_live ck) (ttl_from_exp w (tk_ttl ck) (tc_exp claims)) t then Some ''1'' else None
            else live st t (used_key (tc_jti claims)))"
      and other: "\<forall>t k. tk_live_done ck \<le> t \<and> k \<noteq> revoked_key (tc_jti claims) \<and> k \<noteq> used_key (tc_jti claims) \<longrightarrow> live st' t k = live st t k"
    show ?thesis
    proof (cases "tc_jti claims = j")
      case False
      then show ?thesis using k other by (intro marked_kept [OF m1 order_refl]) auto
    next
      case True
      then have e: "e \<le> tc_exp claims" using assms(5) ring d by (simp add: honours_id_def id_until_def)
      consider "k = revoked_key j" | "k = used_key j" "tc_token_use claims = ''refresh''" | "k = used_key j" "tc_token_use claims \<noteq> ''refresh''"
        using k by auto
      then show ?thesis
      proof cases
        case 1
        with rev True o(4) e show ?thesis
          by (intro markedI_written [of "tk_live_done ck" st' k "tk_mark ck" w "tk_ttl ck" "tc_exp claims" "''1''"]) auto
      next
        case 2
        with used True o(9) e show ?thesis
          by (intro markedI_written [of "tk_live_done ck" st' k "tk_live ck" w "tk_ttl ck" "tc_exp claims" "''1''"]) auto
      next
        case 3
        with used True show ?thesis by (intro marked_kept [OF m1 order_refl]) auto
      qed
    qed
  qed
  then show ?thesis using s by blast
qed

lemma step_keeps_marks:
  assumes inv: "unlimited_inv st" and from_t: "call_from t0 call" and m: "marked w k e t0 st"
    and k: "k \<in> {used_key j, revoked_key j}" and ok: "honours_id lib app w j e call"
  shows "unlimited_inv (token_step lib hl app w st call) \<and> marked w k e (call_end call) (token_step lib hl app w st call)"
proof (cases call)
  case (CallLogin ck ids payload)
  have "unlimited_inv (snd (login_handler mem_ops lib hl app w ck ids payload st)) \<and>
      (\<forall>t k. tk_live_done ck \<le> t \<and> k \<noteq> live_key (snd ids) \<longrightarrow> live (snd (login_handler mem_ops lib hl app w ck ids payload st)) t k = live st t k)"
    by (rule unlimited.login_frame [OF inv prod.collapse [symmetric]])
  moreover have "t0 \<le> tk_live_done ck" using from_t CallLogin in_orderD(8) by (simp add: call_from_def)
  ultimately show ?thesis
    using marked_kept [OF m, of "tk_live_done ck"] k CallLogin by (auto simp: token_step_def call_end_def)
next
  case (CallRefresh ck ids token)
  then show ?thesis
    using refresh_keeps_marks [OF inv _ m k _ prod.collapse [symmetric]] from_t ok
    by (simp add: token_step_def call_end_def call_from_def)
next
  case (CallRevoke ck token)
  then show ?thesis
    using revoke_keeps_marks [OF inv _ m k _ prod.collapse [symmetric]] from_t ok
    by (simp add: token_step_def call_end_def call_from_def)
next
  case (CallStore t op)
  have ne: "k \<noteq> mem_op_key op" using ok k CallStore by (auto simp: honours_id_def id_until_def)
  have "live (mem_step st op) t' k = live st t' k" if "mem_op_end op \<le> t'" for t'
    using mem_step_other [of st k op t'] inv ne that by simp
  then have "marked w k e (call_end call) (mem_step st op)"
    using m from_t CallStore by (intro marked_kept [OF m]) (auto simp: call_end_def call_from_def)
  then show ?thesis using inv CallStore by (simp add: token_step_def mem_step_inv mem_step_max)
qed

lemma run_keeps_marks:
  assumes "k \<in> {used_key j, revoked_key j}"
  shows "unlimited_inv st \<Longrightarrow> one_after_another t0 calls \<Longrightarrow> marked w k e t0 st \<Longrightarrow> \<forall>call \<in> set calls. honours_id lib app w j e call \<Longrightarrow>
    unlimited_inv (token_run lib hl app w calls st) \<and> marked w k e (last_end t0 calls) (token_run lib hl app w calls st)"
proof (induction calls arbitrary: st t0)
  case (Cons call calls)
  have s: "unlimited_inv (token_step lib hl app w st call)" "marked w k e (call_end call) (token_step lib hl app w st call)"
    using step_keeps_marks [OF Cons.prems(1) _ Cons.prems(3) assms, of call lib app hl] Cons.prems by simp_all
  show ?case using Cons.IH [OF s(1) _ s(2)] Cons.prems by (simp add: token_run_def last_end_def)
qed (simp add: token_run_def last_end_def)

lemma marked_refresh_refused:
  assumes "unlimited_inv st" and "in_order t0 ck" and "ta_ring app = Inr r"
    and "decode_with_key_ring lib token r (ta_signing app) (epoch_secs w (tk_decode ck)) = Some claims"
    and "marked w (used_key (tc_jti claims)) e t0 st \<or> marked w (revoked_key (tc_jti claims)) e t0 st"
    and "epoch_secs w (tk_revoked ck) < e"
  shows "\<exists>code st'. refresh_handler mem_ops lib app w ck ids token st = (Refused 401 code, st')"
proof -
  note o = in_orderD [OF assms(2)]
  obtain c st1 where c: "refresh_checks mem_ops lib app w ck token st = (c, st1)" by fastforce
  have "epoch_secs w (tk_used ck) \<le> epoch_secs w (tk_revoked ck)"
    using o(10) by (simp add: epoch_secs_def as_secs_mono)
  then have "live st (tk_used ck) (used_key (tc_jti claims)) \<noteq> None \<or> live st (tk_revoked ck) (revoked_key (tc_jti claims)) \<noteq> None"
    using assms(5,6) o(2,3) by (auto simp: marked_def)
  then have "\<exists>code. c = Inl (Refused 401 code)"
    using unlimited.refresh_checks_spec [OF assms(1) o(10) c] assms(3,4) by auto
  then show ?thesis using c by (auto simp: refresh_handler_def)
qed

lemma refresh_success:
  assumes "unlimited_inv st" and "in_order t0 ck"
    and "refresh_handler mem_ops lib app w ck ids token st = (Tokens pair, st')"
  obtains r claims st1 where "ta_ring app = Inr r"
    "decode_with_key_ring lib token r (ta_signing app) (epoch_secs w (tk_decode ck)) = Some claims"
    "tc_token_use claims = ''refresh''" "live st (tk_used ck) (used_key (tc_jti claims)) = None"
    "live st (tk_revoked ck) (revoked_key (tc_jti claims)) = None" "unlimited_inv st1"
    "refresh_commit mem_ops lib app w ck ids claims st1 = (Tokens pair, st')"
proof -
  note o = in_orderD [OF assms(2)]
  obtain c st1 where c: "refresh_checks mem_ops lib app w ck token st = (c, st1)" by fastforce
  note s = unlimited.refresh_checks_spec [OF assms(1) o(10) c]
  show ?thesis
  proof (cases c)
    case (Inl x)
    then have "x = Tokens pair" using assms(3) c by (simp add: refresh_handler_def)
    then show ?thesis using Inl s by (auto split: sum.splits option.splits if_splits)
  next
    case (Inr claims)
    then obtain r where "ta_ring app = Inr r"
      "decode_with_key_ring lib token r (ta_signing app) (epoch_secs w (tk_decode ck)) = Some claims"
      "tc_token_use claims = ''refresh''" "live st (tk_used ck) (used_key (tc_jti claims)) = None"
      "live st (tk_revoked ck) (revoked_key (tc_jti claims)) = None"
      using s by (auto split: sum.splits option.splits if_splits)
    then show ?thesis using Inr s assms(3) c by (intro that [of r claims st1]) (simp_all add: refresh_handler_def)
  qed
qed

subsection \<open>A sample service\<close>

text \<open>One key; the refresh token \<open>''r1''\<close> is alice's and runs out in the thousandth second.\<close>

definition sample_claims :: token_claims where
  "sample_claims =
     \<lparr>tc_sub = ''alice'', tc_iss = ''i'', tc_aud = ''a'', tc_iat = 0, tc_nbf = 0, tc_exp = 1000, tc_jti = ''j1'',
      tc_token_use = ''refresh'', tc_tenant_id = Some ''t'', tc_scope = ''user'', tc_roles = [''user'']\<rparr>"

definition sample_token_lib :: token_lib where
  "sample_token_lib =
     \<lparr>tl_header = (\<lambda>_. Some (Some ''k'')),
      tl_decode = (\<lambda>token secret aud iss leeway now.
        if token = ''r1'' \<and> secret = ''s'' \<and> now \<le> 1000 + int leeway then Some sample_claims else None),
      tl_encode = (\<lambda>kid secret claims. Some (tc_jti claims))\<rparr>"

definition sample_token_app :: token_app where
  "sample_token_app =
     \<lparr>ta_credentials = [(''alice'', ''h'')],
      ta_signing = \<lparr>sc_issuer = ''i'', sc_audience = ''a'', sc_access_ttl_secs = 900, sc_refresh_ttl_secs = 1000\<rparr>,
      ta_ring = Inr \<lparr>kr_active_kid = ''k'', kr_keys = [(''k'', ''s'')]\<rparr>\<rparr>"

definition sample_token_clock :: "instant \<Rightarrow> token_clock" where
  "sample_token_clock t =
     \<lparr>tk_decode = t, tk_used = t, tk_revoked = t, tk_ttl = t, tk_mark = t, tk_mark_done = t, tk_issue = t, tk_live = t,
      tk_live_done = t\<rparr>"

definition sample_hash_lib :: hash_lib where
  "sample_hash_lib =
     \<lparr>hl_parse = (\<lambda>s. if s = ''h'' then Some \<lparr>ph_algorithm = ''argon2id'', ph_salt = Some ''x'', ph_hash = Some ''y''\<rparr> else None),
      hl_verify = (\<lambda>password _. password = ''pw''), hl_hash = (\<lambda>_ _. Some ''h'')\<rparr>"

lemma sample_decodes:
  "decode_with_key_ring sample_token_lib ''r1'' \<lparr>kr_active_kid = ''k'', kr_keys = [(''k'', ''s'')]\<rparr> (ta_signing sample_token_app) now =
     (if now \<le> 1030 then Some sample_claims else None)"
  "ta_ring sample_token_app = Inr \<lparr>kr_active_kid = ''k'', kr_keys = [(''k'', ''s'')]\<rparr>"
  by (simp_all add: decode_with_key_ring_def sample_token_lib_def sample_token_app_def LEEWAY_def)

lemma sample_times:
  "tk_decode (sample_token_clock t) = t" "tk_revoked (sample_token_clock t) = t" "tk_live_done (sample_token_clock t) = t"
  "tk_issue (sample_token_clock t) = t" "tk_used (sample_token_clock t) = t"
  by (simp_all add: sample_token_clock_def)

lemma sample_in_order: "in_order t0 (sample_token_clock t) \<longleftrightarrow> t0 \<le> t"
  by (auto simp: in_order_def sample_token_clock_def)

lemma sample_honours: "id_until sample_token_lib sample_token_app w ''j1'' 1000 ck ''r1''"
  by (simp add: id_until_def sample_decodes sample_claims_def)

lemma sample_pair_issued:
  assumes "unlimited_inv st"
  shows "\<exists>pair st'. issue_token_pair mem_ops sample_token_lib sample_token_app w ck ids subject tenant scopes roles st = (Some pair, st')"
proof -
  obtain st1 where "op_set mem_ops st (tk_live ck) (tk_live_done ck) (live_key (snd ids)) ''1'' (from_secs 1000) = (Inr (), st1)"
    by (rule unlimited.set_cases [OF assms]) (rule that)
  then show ?thesis by (simp add: issue_token_pair_def sample_token_app_def sample_token_lib_def claims_of_def Let_def)
qed

lemma unlimited_empty: "unlimited_inv (with_max_entries 0)"
  by (rule conjI [OF with_max_entries_inv]) (simp add: with_max_entries_def)

lemma sample_refreshes:
  assumes inv: "unlimited_inv st" and "epoch_secs 0 t \<le> 1030"
    and "live st t (used_key ''j1'') = None" and "live st t (revoked_key ''j1'') = None"
  shows "\<exists>pair st'. refresh_handler mem_ops sample_token_lib sample_token_app 0 (sample_token_clock t) ids ''r1'' st = (Tokens pair, st')"
proof -
  let ?ck = "sample_token_clock t"
  obtain c st1 where c: "refresh_checks mem_ops sample_token_lib sample_token_app 0 ?ck ''r1'' st = (c, st1)" by fastforce
  have "tk_used ?ck \<le> tk_revoked ?ck" by (simp add: sample_token_clock_def)
  from unlimited.refresh_checks_spec [OF inv this c] have s: "unlimited_inv st1" "c = Inr sample_claims"
    using assms(2-4) by (simp_all add: sample_decodes sample_times) (simp_all add: sample_claims_def)
  obtain st2 where m: "op_set mem_ops st1 (tk_mark ?ck) (tk_mark_done ?ck) (used_key (tc_jti sample_claims)) ''1''
      (ttl_from_exp 0 (tk_ttl ?ck) (tc_exp sample_claims)) = (Inr (), st2)" "unlimited_inv st2"
    by (rule unlimited.set_cases [OF s(1)]) (rule that)
  obtain pair st3 where "issue_token_pair mem_ops sample_token_lib sample_token_app 0 ?ck ids (tc_sub sample_claims)
      (tc_tenant_id sample_claims) (split_whitespace (tc_scope sample_claims)) (tc_roles sample_claims) st2 = (Some pair, st3)"
    using sample_pair_issued [OF m(2)] by blast
  with c s m show ?thesis by (simp add: refresh_handler_def refresh_commit_def answer_pair_def)
qed

lemma sample_refreshed:
  "\<exists>pair st'. refresh_handler mem_ops sample_token_lib sample_token_app 0 (sample_token_clock 5) (''a2'', ''r2'') ''r1'' (with_max_entries 0) =
     (Tokens pair, st')"
  by (rule sample_refreshes [OF unlimited_empty]) (simp_all add: epoch_secs_def as_secs_def sample_empty)

lemma sample_revoked:
  "\<exists>st'. revoke_handler mem_ops sample_token_lib sample_token_app 0 (sample_token_clock 5) ''r1'' (with_max_entries 0) =
     (token_response.Revoked ''refresh'', st')"
proof -
  let ?ck = "sample_token_clock 5"
  let ?set = "\<lambda>st k. op_set mem_ops st (tk_mark ?ck) (tk_mark_done ?ck) k ''1'' (ttl_from_exp 0 (tk_ttl ?ck) (tc_exp sample_claims))"
  obtain st1 where m: "?set (with_max_entries 0) (revoked_key (tc_jti sample_claims)) = (Inr (), st1)" "unlimited_inv st1"
    by (rule unlimited.set_cases [OF unlimited_empty]) (rule that)
  obtain st2 where n: "?set st1 (used_key (tc_jti sample_claims)) = (Inr (), st2)"
    by (rule unlimited.set_cases [OF m(2)]) (rule that)
  have times: "tk_live ?ck = tk_mark ?ck" "tk_live_done ?ck = tk_mark_done ?ck" "epoch_secs 0 (tk_decode ?ck) \<le> 1030"
    "tc_token_use sample_claims = ''refresh''"
    by (simp_all add: sample_token_clock_def epoch_secs_def as_secs_def sample_claims_def)
  show ?thesis using m n by (simp add: revoke_handler_def sample_decodes times Let_def)
qed

subsection \<open>Single use\<close>

text \<open>
  C17: a refresh token is exchanged at most once while it has not expired. Once it has bought a pair of
  tokens, then after any sequence of logins, refreshes, revocations and other use of the store, presenting
  it again, or any token with its id, before its expiry is refused. (The in-memory store has no cap.)
\<close>

theorem refresh_token_is_single_use:
  assumes "unlimited_inv st" and "in_order t0 ck"
    and "refresh_handler mem_ops lib app w ck ids token st = (Tokens pair, st1)"
    and "ta_ring app = Inr r"
    and "decode_with_key_ring lib token r (ta_signing app) (epoch_secs w (tk_decode ck)) = Some claims"
    and "one_after_another (tk_live_done ck) calls"
    and "\<forall>call \<in> set calls. honours_id lib app w (tc_jti claims) (tc_exp claims) call"
    and "in_order (last_end (tk_live_done ck) calls) ck2"
    and "decode_with_key_ring lib token2 r (ta_signing app) (epoch_secs w (tk_decode ck2)) = Some claims2"
    and "tc_jti claims2 = tc_jti claims" and "epoch_secs w (tk_revoked ck2) < tc_exp claims"
  shows "\<exists>code st3. refresh_handler mem_ops lib app w ck2 ids2 token2 (token_run lib hl app w calls st1) = (Refused 401 code, st3)"
proof -
  note o = in_orderD [OF assms(2)]
  obtain st0 where c: "unlimited_inv st0" "refresh_commit mem_ops lib app w ck ids claims st0 = (Tokens pair, st1)"
    using refresh_success [OF assms(1-3)] assms(4,5) by (metis option.inject sum.inject(2))
  note s = unlimited.refresh_commit_spec [OF c(1) o(6) c(2)]
  have "marked w (used_key (tc_jti claims)) (tc_exp claims) (tk_live_done ck) st1"
    using s o(4) by (intro markedI_written [of _ st1 _ "tk_mark ck" w "tk_ttl ck" "tc_exp claims" "''1''"]) auto
  with run_keeps_marks [of "used_key (tc_jti claims)" "tc_jti claims" st1 "tk_live_done ck" calls w "tc_exp claims" lib app hl] s assms(6,7)
  have "unlimited_inv (token_run lib hl app w calls st1)"
    "marked w (used_key (tc_jti claims2)) (tc_exp claims) (last_end (tk_live_done ck) calls) (token_run lib hl app w calls st1)"
    by (simp_all add: assms(10))
  with assms(11) show ?thesis by (intro marked_refresh_refused [OF _ assms(8,4,9)]) simp_all
qed

lemma refresh_token_is_single_use_witness:
  "\<exists>code st3. refresh_handler mem_ops sample_token_lib sample_token_app 0 (sample_token_clock 9) (''a4'', ''r4'') ''r1''
     (token_run sample_token_lib sample_hash_lib sample_token_app 0
       [CallRefresh (sample_token_clock 6) (''a3'', ''r3'') ''r1'', CallRevoke (sample_token_clock 8) ''r1'']
       (snd (refresh_handler mem_ops sample_token_lib sample_token_app 0 (sample_token_clock 5) (''a2'', ''r2'') ''r1'' (with_max_entries 0)))) =
     (Refused 401 code, st3)"
proof -
  obtain pair st where first: "refresh_handler mem_ops sample_token_lib sample_token_app 0 (sample_token_clock 5) (''a2'', ''r2'') ''r1''
      (with_max_entries 0) = (Tokens pair, st)"
    using sample_refreshed by blast
  show ?thesis unfolding first snd_conv
    by (rule refresh_token_is_single_use [OF unlimited_empty _ first sample_decodes(2), of 0 sample_claims _ _ _ sample_claims])
       (simp_all add: sample_decodes sample_in_order sample_honours honours_id_def last_end_def call_end_def call_from_def
          sample_claims_def epoch_secs_def sample_times as_secs_def)
qed

text \<open>
  C18: a revocation is effective everywhere until the token expires. Once \<open>revoke_handler\<close> has answered
  for a token, and after any further logins, refreshes and revocations one after another, and any other use
  of the store that leaves the markers of this token alone, the refresh endpoint refuses the token's id, and
  the authentication gate of any service on the same store refuses a caller who presents it. (The store is the
  in-memory one without a limit on its entries; a token with the same id lives at least as long as this one.)
\<close>

theorem revocation_is_effective:
  assumes "unlimited_inv st" and "in_order t0 ck"
    and "revoke_handler mem_ops lib app w ck token st = (Revoked use, st1)"
    and "ta_ring app = Inr r"
    and "decode_with_key_ring lib token r (ta_signing app) (epoch_secs w (tk_decode ck)) = Some claims"
    and "one_after_another (tk_live_done ck) calls"
    and "\<forall>call \<in> set calls. honours_id lib app w (tc_jti claims) (tc_exp claims) call"
    and "rt_store rt = token_run lib hl app w calls st1"
    and "ac_token_id ctx = Some (tc_jti claims)" and "last_end (tk_live_done ck) calls \<le> gc_revocation gk"
    and "epoch_secs w (gc_revocation gk) < tc_exp claims"
    and "in_order (last_end (tk_live_done ck) calls) ck2"
    and "decode_with_key_ring lib token2 r (ta_signing app) (epoch_secs w (tk_decode ck2)) = Some claims2"
    and "tc_jti claims2 = tc_jti claims" and "epoch_secs w (tk_revoked ck2) < tc_exp claims"
  shows "fst (check_revocation mem_ops rt gk (Inr ctx)) = Inl (unauthorized auth_failure_reason.Revoked) \<and>
    (\<exists>code st3. refresh_handler mem_ops lib app w ck2 ids2 token2 (rt_store rt) = (Refused 401 code, st3))"
proof -
  note o = in_orderD [OF assms(2)]
  have ml: "tk_mark ck \<le> tk_live ck" using assms(2) by (simp add: in_order_def)
  note s = unlimited.revoke_spec [OF assms(1) o(6) ml assms(3)]
  have rev: "\<forall>t. tk_live_done ck \<le> t \<longrightarrow> live st1 t (revoked_key (tc_jti claims)) =
      (if alive (tk_mark ck) (ttl_from_exp w (tk_ttl ck) (tc_exp claims)) t then Some ''1'' else None)"
    using s assms(4,5) by auto
  have "marked w (revoked_key (tc_jti claims)) (tc_exp claims) (tk_live_done ck) st1"
    using rev o(4) by (intro markedI_written [of _ st1 _ "tk_mark ck" w "tk_ttl ck" "tc_exp claims" "''1''"]) auto
  with run_keeps_marks [of "revoked_key (tc_jti claims)" "tc_jti claims" st1 "tk_live_done ck" calls w "tc_exp claims" lib app hl] s assms(6,7)
  have run: "unlimited_inv (rt_store rt)"
    "marked w (revoked_key (tc_jti claims)) (tc_exp claims) (last_end (tk_live_done ck) calls) (rt_store rt)"
    by (simp_all add: assms(8))
  have refused: "\<exists>code st3. refresh_handler mem_ops lib app w ck2 ids2 token2 (rt_store rt) = (Refused 401 code, st3)"
    using run assms(14,15) by (intro marked_refresh_refused [OF run(1) assms(12,4,13)]) simp_all
  obtain v where "live (rt_store rt) (gc_revocation gk) (revoked_key (tc_jti claims)) = Some v"
    using run(2) assms(10,11) by (auto simp: marked_def)
  then have "fst (op_get mem_ops (rt_store rt) (gc_revocation gk) (revoked_key (tc_jti claims))) = Inr (Some v)"
    using unlimited.get_result [OF run(1)] by simp
  then have "fst (check_revocation mem_ops rt gk (Inr ctx)) = Inl (unauthorized auth_failure_reason.Revoked)"
    by (cases "op_get mem_ops (rt_store rt) (gc_revocation gk) (revoked_key (tc_jti claims))")
       (simp add: check_revocation_def assms(9))
  with refused show ?thesis by blast
qed

lemma revocation_is_effective_witness:
  "fst (check_revocation mem_ops
      (sample_runtime\<lparr>rt_store := token_run sample_token_lib sample_hash_lib sample_token_app 0
         [CallRefresh (sample_token_clock 6) (''a3'', ''r3'') ''r1'']
         (snd (revoke_handler mem_ops sample_token_lib sample_token_app 0 (sample_token_clock 5) ''r1'' (with_max_entries 0)))\<rparr>)
      (sample_clock\<lparr>gc_revocation := 7\<rparr>) (Inr (sample_context\<lparr>ac_token_id := Some ''j1''\<rparr>))) =
    Inl (unauthorized auth_failure_reason.Revoked)"
proof -
  obtain st where first: "revoke_handler mem_ops sample_token_lib sample_token_app 0 (sample_token_clock 5) ''r1'' (with_max_entries 0) =
      (token_response.Revoked ''refresh'', st)"
    using sample_revoked by blast
  show ?thesis unfolding first snd_conv
    by (rule conjunct1 [OF revocation_is_effective [OF unlimited_empty _ first sample_decodes(2), where ?t0.0 = 0 and claims = sample_claims
            and ?calls = "[CallRefresh (sample_token_clock 6) (''a3'', ''r3'') ''r1'']" and ?ck2.0 = "sample_token_clock 8" and ?token2.0 = "''r1''" and ?claims2.0 = sample_claims]])
       (simp_all add: sample_decodes sample_in_order sample_honours honours_id_def last_end_def call_end_def call_from_def
          sample_claims_def epoch_secs_def sample_times as_secs_def sample_clock_def sample_runtime_def sample_context_def)
qed


subsection \<open>Who gets tokens\<close>

text \<open>The pair is signed with the active key and says what it should of the subject.\<close>

definition signed_for ::
  "token_lib \<Rightarrow> token_app \<Rightarrow> int \<Rightarrow> string \<times> string \<Rightarrow> string \<Rightarrow> string option \<Rightarrow> string list \<Rightarrow> string list \<Rightarrow> token_pair \<Rightarrow> bool" where
  "signed_for lib app now ids subject tenant scopes roles pair =
     (case ta_ring app of
        Inl _ \<Rightarrow> False
      | Inr ring \<Rightarrow>
          (case hm_get (kr_keys ring) (kr_active_kid ring) of
             None \<Rightarrow> False
           | Some secret \<Rightarrow>
               tl_encode lib (kr_active_kid ring) secret
                 (claims_of (ta_signing app) now (sc_access_ttl_secs (ta_signing app)) ''access'' (fst ids) subject tenant scopes roles) =
                 Some (tp_access_token pair) \<and>
               tl_encode lib (kr_active_kid ring) secret
                 (claims_of (ta_signing app) now (sc_refresh_ttl_secs (ta_signing app)) ''refresh'' (snd ids) subject tenant scopes roles) =
                 Some (tp_refresh_token pair)))"

lemma issued_signed:
  assumes "answer_pair e (issue_token_pair ops lib app w ck ids subject tenant scopes roles st) = (Tokens pair, st')"
  shows "signed_for lib app (epoch_secs w (tk_issue ck)) ids subject tenant scopes roles pair"
  using assms
  by (auto simp: answer_pair_def issue_token_pair_def signed_for_def Let_def split_beta split: prod.splits option.splits sum.splits)

lemma refresh_answers_tokens:
  assumes "refresh_handler ops lib app w ck ids token st = (Tokens pair, st')"
  obtains ring claims st1 st2 where "ta_ring app = Inr ring"
    "decode_with_key_ring lib token ring (ta_signing app) (epoch_secs w (tk_decode ck)) = Some claims"
    "tc_token_use claims = ''refresh''"
    "answer_pair ''refresh_failed'' (issue_token_pair ops lib app w ck ids (tc_sub claims) (tc_tenant_id claims)
       (split_whitespace (tc_scope claims)) (tc_roles claims) st2) = (Tokens pair, st')"
proof -
  obtain c st1 where c: "refresh_checks ops lib app w ck token st = (c, st1)" by fastforce
  obtain claims where k: "c = Inr claims" "refresh_commit ops lib app w ck ids claims st1 = (Tokens pair, st')"
  proof (cases c)
    case (Inl x)
    then have "x = Tokens pair" using assms c by (simp add: refresh_handler_def)
    then have False
      using c Inl by (auto simp: refresh_checks_def Let_def split_beta split: sum.splits option.splits if_splits)
    then show ?thesis ..
  next
    case (Inr claims)
    then show ?thesis using assms c by (intro that [of claims]) (simp_all add: refresh_handler_def)
  qed
  obtain ring where r: "ta_ring app = Inr ring"
    "decode_with_key_ring lib token ring (ta_signing app) (epoch_secs w (tk_decode ck)) = Some claims" "tc_token_use claims = ''refresh''"
    using c k(1) by (auto simp: refresh_checks_def Let_def split_beta split: sum.splits option.splits if_splits)
  obtain st2 where "answer_pair ''refresh_failed'' (issue_token_pair ops lib app w ck ids (tc_sub claims) (tc_tenant_id claims)
       (split_whitespace (tc_scope claims)) (tc_roles claims) st2) = (Tokens pair, st')"
    using k(2) by (auto simp: refresh_commit_def split_beta split: sum.splits)
  with r show ?thesis by (rule that)
qed

text \<open>
  What a token of a caller has to say, field by field: who it is for, which service issued it to whom,
  when, what it may be used for, and the tenant, scopes and roles granted, where no scope and no role
  stand for the one \<open>user\<close>. A pair is granted when both its tokens are signed, under the active key of
  the ring, over such claims.
\<close>

definition names_caller ::
  "signing_config \<Rightarrow> int \<Rightarrow> string \<Rightarrow> string \<Rightarrow> string \<Rightarrow> string option \<Rightarrow> string list \<Rightarrow> string list \<Rightarrow> token_claims \<Rightarrow> bool" where
  "names_caller cfg now use jti subject tenant scopes roles c \<longleftrightarrow>
     tc_sub c = subject \<and> tc_tenant_id c = tenant \<and>
     tc_scope c = (if scopes = [] then ''user'' else join '' '' scopes) \<and>
     tc_roles c = (if roles = [] then [''user''] else roles) \<and>
     tc_token_use c = use \<and> tc_jti c = jti \<and> tc_iss c = sc_issuer cfg \<and> tc_aud c = sc_audience cfg \<and>
     tc_iat c = now \<and> tc_nbf c = now"

definition granted_pair ::
  "token_lib \<Rightarrow> token_app \<Rightarrow> int \<Rightarrow> string \<times> string \<Rightarrow> string \<Rightarrow> string option \<Rightarrow> string list \<Rightarrow> string list \<Rightarrow> token_pair \<Rightarrow> bool" where
  "granted_pair lib app now ids subject tenant scopes roles pair \<longleftrightarrow>
     (\<exists>ring secret access refresh. ta_ring app = Inr ring \<and> hm_get (kr_keys ring) (kr_active_kid ring) = Some secret \<and>
        names_caller (ta_signing app) now ''access'' (fst ids) subject tenant scopes roles access \<and>
        names_caller (ta_signing app) now ''refresh'' (snd ids) subject tenant scopes roles refresh \<and>
        tl_encode lib (kr_active_kid ring) secret access = Some (tp_access_token pair) \<and>
        tl_encode lib (kr_active_kid ring) secret refresh = Some (tp_refresh_token pair))"

lemma claims_name_caller: "names_caller cfg now use jti subject tenant scopes roles
    (claims_of cfg now ttl use jti subject tenant scopes roles)"
  by (simp add: names_caller_def claims_of_def)

lemma signed_granted:
  assumes "signed_for lib app now ids subject tenant scopes roles pair"
  shows "granted_pair lib app now ids subject tenant scopes roles pair"
  using assms
  by (auto simp: signed_for_def granted_pair_def split: sum.splits option.splits)
    (intro exI conjI, rule claims_name_caller, rule claims_name_caller, assumption+)

text \<open>
  C19: tokens are answered only to a caller who has proved something, and they name nobody else. Login
  answers tokens only when the password presented verifies against the stored hash of the user name
  presented; both tokens are then signed by the active key and name that user as their subject. Refresh
  answers only for a token of use \<open>refresh\<close> that decodes under the ring, and both new tokens name the
  same subject and tenant, its roles and the words of its scope (where there is no role or no word, the
  one \<open>user\<close>). Tenant, scopes and roles of a login are those of the request: nothing checks them.
\<close>

theorem tokens_only_for_the_caller:
  "(\<forall>pair st'. login_handler ops lib hl app w ck ids payload st = (Tokens pair, st') \<longrightarrow>
      (\<exists>hash parsed. hm_get (ta_credentials app) (trim (lr_username payload)) = Some hash \<and> hl_parse hl hash = Some parsed \<and>
         hl_verify hl (trim (lr_password payload)) parsed) \<and>
      granted_pair lib app (epoch_secs w (tk_issue ck)) ids (trim (lr_username payload)) (lr_tenant_id payload) (lr_scopes payload)
        (lr_roles payload) pair) \<and>
   (\<forall>pair st'. refresh_handler ops lib app w ck ids token st = (Tokens pair, st') \<longrightarrow>
      (\<exists>ring claims. ta_ring app = Inr ring \<and>
         decode_with_key_ring lib token ring (ta_signing app) (epoch_secs w (tk_decode ck)) = Some claims \<and>
         tc_token_use claims = ''refresh'' \<and>
         granted_pair lib app (epoch_secs w (tk_issue ck)) ids (tc_sub claims) (tc_tenant_id claims)
           (split_whitespace (tc_scope claims)) (tc_roles claims) pair))"
proof (intro conjI allI impI)
  fix pair st'
  assume l: "login_handler ops lib hl app w ck ids payload st = (Tokens pair, st')"
  then show "\<exists>hash parsed. hm_get (ta_credentials app) (trim (lr_username payload)) = Some hash \<and> hl_parse hl hash = Some parsed \<and>
      hl_verify hl (trim (lr_password payload)) parsed"
    by (auto simp: login_handler_def credentials_verify_def verify_password_def split: sum.splits option.splits if_splits)
  from l show "granted_pair lib app (epoch_secs w (tk_issue ck)) ids (trim (lr_username payload)) (lr_tenant_id payload)
      (lr_scopes payload) (lr_roles payload) pair"
    by (auto simp: login_handler_def intro: signed_granted issued_signed split: sum.splits option.splits)
next
  fix pair st'
  assume "refresh_handler ops lib app w ck ids token st = (Tokens pair, st')"
  then show "\<exists>ring claims. ta_ring app = Inr ring \<and>
      decode_with_key_ring lib token ring (ta_signing app) (epoch_secs w (tk_decode ck)) = Some claims \<and>
      tc_token_use claims = ''refresh'' \<and>
      granted_pair lib app (epoch_secs w (tk_issue ck)) ids (tc_sub claims) (tc_tenant_id claims)
        (split_whitespace (tc_scope claims)) (tc_roles claims) pair"
    by (rule refresh_answers_tokens) (intro exI conjI signed_granted issued_signed; assumption)
qed


definition sample_login :: login_request where
  "sample_login = \<lparr>lr_username = ''alice '', lr_password = ''pw'', lr_tenant_id = Some ''t'', lr_scopes = [''a'', ''b''], lr_roles = []\<rparr>"

lemma sample_login_answered:
  "\<exists>pair st'. login_handler mem_ops sample_token_lib sample_hash_lib sample_token_app 0 (sample_token_clock 5) (''a2'', ''r2'') sample_login
     (with_max_entries 0) = (Tokens pair, st')"
proof -
  have trimmed: "trim ''alice '' = ''alice''" "trim ''pw'' = ''pw''" by code_simp+
  obtain pair st' where "issue_token_pair mem_ops sample_token_lib sample_token_app 0 (sample_token_clock 5) (''a2'', ''r2'') ''alice'' (Some ''t'')
      [''a'', ''b''] [] (with_max_entries 0) = (Some pair, st')"
    using sample_pair_issued [OF unlimited_empty] by blast
  moreover have "credentials_verify sample_hash_lib (ta_credentials sample_token_app) ''alice'' ''pw'' = Inr (Some ''alice'')"
    by (simp add: sample_token_app_def credentials_verify_def verify_password_def sample_hash_lib_def)
  ultimately show ?thesis by (simp add: login_handler_def sample_login_def trimmed answer_pair_def)
qed

lemma tokens_only_for_the_caller_witness:
  "(\<exists>pair. granted_pair sample_token_lib sample_token_app 0 (''a2'', ''r2'') ''alice'' (Some ''t'') [''a'', ''b''] [] pair) \<and>
   (\<exists>ring claims pair. ta_ring sample_token_app = Inr ring \<and>
      decode_with_key_ring sample_token_lib ''r1'' ring (ta_signing sample_token_app) 0 = Some claims \<and>
      granted_pair sample_token_lib sample_token_app 0 (''a2'', ''r2'') (tc_sub claims) (tc_tenant_id claims)
        (split_whitespace (tc_scope claims)) (tc_roles claims) pair)"
proof -
  have t: "trim ''alice '' = ''alice''" by code_simp
  note caller = tokens_only_for_the_caller [of mem_ops sample_token_lib sample_hash_lib sample_token_app 0 "sample_token_clock 5"
      "(''a2'', ''r2'')" sample_login "with_max_entries 0" "''r1''"]
  obtain pair st' where "login_handler mem_ops sample_token_lib sample_hash_lib sample_token_app 0 (sample_token_clock 5) (''a2'', ''r2'')
      sample_login (with_max_entries 0) = (Tokens pair, st')" using sample_login_answered by blast
  moreover obtain pair2 st2 where "refresh_handler mem_ops sample_token_lib sample_token_app 0 (sample_token_clock 5) (''a2'', ''r2'') ''r1''
      (with_max_entries 0) = (Tokens pair2, st2)" using sample_refreshed by blast
  ultimately show ?thesis
    using caller unfolding sample_login_def by (simp add: t sample_times epoch_secs_def as_secs_def) blast
qed


subsection \<open>Login, then refresh\<close>

text \<open>What the signing library does: it signs, and a token it made is read back under the same secret until it expires.\<close>

definition signs :: "token_lib \<Rightarrow> bool" where
  "signs lib = (\<forall>kid secret c. \<exists>token. tl_encode lib kid secret c = Some token)"

definition reads_back :: "token_lib \<Rightarrow> string \<Rightarrow> string \<Rightarrow> token_claims \<Rightarrow> bool" where
  "reads_back lib kid secret c =
     (\<forall>token. tl_encode lib kid secret c = Some token \<longrightarrow>
        tl_header lib token = Some (Some kid) \<and>
        (\<forall>leeway now. 0 \<le> tc_exp c \<and> now \<le> tc_exp c + int leeway \<longrightarrow>
           tl_decode lib token secret (tc_aud c) (tc_iss c) leeway now = Some c))"

definition is_word :: "string \<Rightarrow> bool" where
  "is_word s = (s \<noteq> [] \<and> (\<forall>c \<in> set s. \<not> is_ws c))"

lemma split_whitespace_join:
  assumes "\<forall>w \<in> set ws. is_word w"
  shows "split_whitespace (join '' '' ws) = ws"
proof -
  have "is_ws CHR '' ''" by (simp add: is_ws_def)
  then have "ws \<noteq> [] \<Longrightarrow> split_on is_ws (join '' '' ws) = ws"
    using assms
  proof (induction ws rule: induct_list012)
    case (3 w v ws)
    then show ?case by (simp add: is_word_def split_on_append split_on_none)
  qed (simp_all add: is_word_def split_on_none)
  then show ?thesis using assms by (cases ws) (auto simp: split_whitespace_def is_word_def filter_id_conv)
qed

lemma issue_answers:
  assumes "unlimited_inv st" and "signs lib" and "ta_ring app = Inr ring" and "hm_get (kr_keys ring) (kr_active_kid ring) = Some secret"
  shows "\<exists>pair st'. issue_token_pair mem_ops lib app w ck ids subject tenant scopes roles st = (Some pair, st')"
proof -
  obtain st1 where "op_set mem_ops st (tk_live ck) (tk_live_done ck) (live_key (snd ids)) ''1''
      (from_secs (unat (max 1 (sc_refresh_ttl_secs (ta_signing app))))) = (Inr (), st1)"
    by (rule unlimited.set_cases [OF assms(1)]) (rule that)
  moreover have "\<exists>token. tl_encode lib (kr_active_kid ring) secret c = Some token" for c using assms(2) unfolding signs_def by blast
  then obtain enc where "\<And>c. tl_encode lib (kr_active_kid ring) secret c = Some (enc c)" by metis
  ultimately show ?thesis using assms(3,4) by (simp add: issue_token_pair_def Let_def)
qed

text \<open>
  a login's refresh token works and renews exactly what the login granted. Presented before it expires,
  unused and unrevoked, it is answered with a new pair for the same subject, tenant, scopes and roles, provided
  the scopes asked for were words.
\<close>

theorem login_then_refresh:
  assumes "signs lib" and login: "login_handler ops lib hl app w ck ids payload st = (Tokens pair, st1)"
    and "\<forall>s \<in> set (lr_scopes payload). is_word s"
    and "unlimited_inv st2" and "in_order t0 ck2"
    and "live st2 (tk_used ck2) (used_key (snd ids)) = None" and "live st2 (tk_revoked ck2) (revoked_key (snd ids)) = None"
    and c_def: "c = claims_of (ta_signing app) (epoch_secs w (tk_issue ck)) (sc_refresh_ttl_secs (ta_signing app)) ''refresh''
      (snd ids) (trim (lr_username payload)) (lr_tenant_id payload) (lr_scopes payload) (lr_roles payload)"
    and "0 \<le> tc_exp c" and "epoch_secs w (tk_decode ck2) \<le> tc_exp c"
    and ring: "ta_ring app = Inr ring" "hm_get (kr_keys ring) (kr_active_kid ring) = Some secret"
    and "reads_back lib (kr_active_kid ring) secret c"
  shows "\<exists>pair2 st3. refresh_handler mem_ops lib app w ck2 ids2 (tp_refresh_token pair) st2 = (Tokens pair2, st3) \<and>
    signed_for lib app (epoch_secs w (tk_issue ck2)) ids2 (trim (lr_username payload)) (lr_tenant_id payload) (lr_scopes payload)
      (lr_roles payload) pair2"
proof -
  note o = in_orderD [OF assms(5)]
  have c: "tc_jti c = snd ids" "tc_token_use c = ''refresh''" "tc_aud c = sc_audience (ta_signing app)"
    "tc_iss c = sc_issuer (ta_signing app)" "tc_sub c = trim (lr_username payload)" "tc_tenant_id c = lr_tenant_id payload"
    "tc_roles c = (if lr_roles payload = [] then [''user''] else lr_roles payload)"
    by (simp_all add: c_def claims_of_def)
  have "split_whitespace ''user'' = [''user'']" by code_simp
  then have scope: "split_whitespace (tc_scope c) = (if lr_scopes payload = [] then [''user''] else lr_scopes payload)"
    using split_whitespace_join [OF assms(3)] by (simp add: c_def claims_of_def)
  have "signed_for lib app (epoch_secs w (tk_issue ck)) ids (trim (lr_username payload)) (lr_tenant_id payload)
      (lr_scopes payload) (lr_roles payload) pair"
    using login by (auto simp: login_handler_def intro: issued_signed split: sum.splits option.splits)
  then have k: "tl_encode lib (kr_active_kid ring) secret c = Some (tp_refresh_token pair)"
    using ring by (simp add: signed_for_def c_def)
  have "tl_header lib (tp_refresh_token pair) = Some (Some (kr_active_kid ring))"
    "tl_decode lib (tp_refresh_token pair) secret (tc_aud c) (tc_iss c) LEEWAY (epoch_secs w (tk_decode ck2)) = Some c"
    using assms(9,10,13) k unfolding reads_back_def by (metis add_increasing2 of_nat_0_le_iff)+
  then have dec: "decode_with_key_ring lib (tp_refresh_token pair) ring (ta_signing app) (epoch_secs w (tk_decode ck2)) = Some c"
    using ring(2) c(3,4) by (simp add: decode_with_key_ring_def)
  obtain r st3 where checks: "refresh_checks mem_ops lib app w ck2 (tp_refresh_token pair) st2 = (r, st3)" by fastforce
  have r: "unlimited_inv st3" "r = Inr c"
    using unlimited.refresh_checks_spec [OF assms(4) o(10) checks] ring(1) dec c(1,2) assms(6,7) by simp_all
  obtain st4 where mark: "op_set mem_ops st3 (tk_mark ck2) (tk_mark_done ck2) (used_key (tc_jti c)) ''1''
      (ttl_from_exp w (tk_ttl ck2) (tc_exp c)) = (Inr (), st4)" "unlimited_inv st4"
    by (rule unlimited.set_cases [OF r(1)]) (rule that)
  obtain pair2 st5 where pair: "issue_token_pair mem_ops lib app w ck2 ids2 (tc_sub c) (tc_tenant_id c) (split_whitespace (tc_scope c))
      (tc_roles c) st4 = (Some pair2, st5)"
    using issue_answers [OF mark(2) assms(1) ring] by blast
  then have done': "answer_pair ''refresh_failed'' (issue_token_pair mem_ops lib app w ck2 ids2 (tc_sub c) (tc_tenant_id c)
      (split_whitespace (tc_scope c)) (tc_roles c) st4) = (Tokens pair2, st5)"
    by (simp add: answer_pair_def)
  have grant: "claims_of cfg now ttl use jti (tc_sub c) (tc_tenant_id c) (split_whitespace (tc_scope c)) (tc_roles c) =
      claims_of cfg now ttl use jti (trim (lr_username payload)) (lr_tenant_id payload) (lr_scopes payload) (lr_roles payload)"
    for cfg now ttl use jti
    by (simp add: claims_of_def c scope)
  show ?thesis
    using checks r(2) mark(1) done' issued_signed [OF done']
    by (simp add: refresh_handler_def refresh_commit_def signed_for_def ring grant)
qed

text \<open>A library that reads back the refresh token of the sample login.\<close>

definition renewing_lib :: token_lib where
  "renewing_lib = sample_token_lib\<lparr>tl_decode := \<lambda>token secret aud iss leeway now.
     if token = ''r2'' \<and> now \<le> 1000 + int leeway
     then Some (claims_of (ta_signing sample_token_app) 0 1000 ''refresh'' ''r2'' ''alice'' (Some ''t'') [''a'', ''b''] []) else None\<rparr>"

lemma login_then_refresh_witness:
  "\<exists>pair pair2 st1 st3.
     login_handler mem_ops renewing_lib sample_hash_lib sample_token_app 0 (sample_token_clock 5) (''a2'', ''r2'') sample_login
       (with_max_entries 0) = (Tokens pair, st1) \<and>
     refresh_handler mem_ops renewing_lib sample_token_app 0 (sample_token_clock 7) (''a3'', ''r3'') (tp_refresh_token pair)
       (with_max_entries 0) = (Tokens pair2, st3)"
proof -
  have same: "issue_token_pair mem_ops renewing_lib = issue_token_pair mem_ops sample_token_lib"
  proof -
    have e: "tl_encode renewing_lib = tl_encode sample_token_lib" by (simp add: renewing_lib_def)
    show ?thesis by (intro ext) (simp only: issue_token_pair_def e)
  qed
  obtain pair st1 where login: "login_handler mem_ops renewing_lib sample_hash_lib sample_token_app 0 (sample_token_clock 5) (''a2'', ''r2'')
      sample_login (with_max_entries 0) = (Tokens pair, st1)"
    using sample_login_answered unfolding login_handler_def same by blast
  have word: "is_word ''a''" "is_word ''b''" "trim ''alice '' = ''alice''" by (simp_all add: is_word_def is_ws_def) code_simp
  have lib: "signs renewing_lib" by (simp add: signs_def renewing_lib_def sample_token_lib_def)
  have payload: "trim (lr_username sample_login) = ''alice''" "lr_tenant_id sample_login = Some ''t''" "lr_scopes sample_login = [''a'', ''b'']"
    "lr_roles sample_login = []"
    using word(3) by (simp_all add: sample_login_def)
  have "\<exists>pair2 st3. refresh_handler mem_ops renewing_lib sample_token_app 0 (sample_token_clock 7) (''a3'', ''r3'') (tp_refresh_token pair)
      (with_max_entries 0) = (Tokens pair2, st3) \<and>
    signed_for renewing_lib sample_token_app (epoch_secs 0 (tk_issue (sample_token_clock 7))) (''a3'', ''r3'') (trim (lr_username sample_login))
      (lr_tenant_id sample_login) (lr_scopes sample_login) (lr_roles sample_login) pair2"
    by (rule login_then_refresh [OF lib login _ unlimited_empty, where ?t0.0 = 0, OF _ _ _ _ refl _ _ sample_decodes(2)])
       (simp_all add: word payload sample_in_order sample_empty sample_times claims_of_def reads_back_def renewing_lib_def
          sample_token_app_def sample_token_lib_def epoch_secs_def as_secs_def wrap_i64_def)
  with login show ?thesis by blast
qed


subsection \<open>Where single use ends\<close>

text \<open>
  The marker lives until the expiry of the token, but decoding allows half a minute more. A token that has
  been used is exchanged again in that half minute: here in second 1010, after its first use in second 0.
\<close>

lemma used_token_passes_in_the_leeway:
  "\<exists>pair st'. refresh_handler mem_ops sample_token_lib sample_token_app 0 (sample_token_clock (from_secs 1010)) (''a3'', ''r3'') ''r1''
     (snd (refresh_handler mem_ops sample_token_lib sample_token_app 0 (sample_token_clock 5) (''a2'', ''r2'') ''r1'' (with_max_entries 0))) =
     (Tokens pair, st')"
proof -
  obtain pair st where first: "refresh_handler mem_ops sample_token_lib sample_token_app 0 (sample_token_clock 5) (''a2'', ''r2'') ''r1''
      (with_max_entries 0) = (Tokens pair, st)"
    using sample_refreshed by blast
  have order: "in_order 5 (sample_token_clock 5)" by (simp add: sample_in_order)
  obtain st1 where checks: "refresh_checks mem_ops sample_token_lib sample_token_app 0 (sample_token_clock 5) ''r1'' (with_max_entries 0) =
      (Inr sample_claims, st1)" "unlimited_inv st1" "\<And>t k. 5 \<le> t \<Longrightarrow> live st1 t k = None"
  proof -
    obtain c st1 where c: "refresh_checks mem_ops sample_token_lib sample_token_app 0 (sample_token_clock 5) ''r1'' (with_max_entries 0) = (c, st1)"
      by fastforce
    have "c = Inr sample_claims" "unlimited_inv st1" "\<And>t k. 5 \<le> t \<Longrightarrow> live st1 t k = None"
      using unlimited.refresh_checks_spec [OF unlimited_empty _ c]
      by (simp_all add: sample_decodes sample_times sample_empty epoch_secs_def as_secs_def) (simp_all add: sample_claims_def)
    with c show ?thesis by (intro that) simp_all
  qed
  have "refresh_commit mem_ops sample_token_lib sample_token_app 0 (sample_token_clock 5) (''a2'', ''r2'') sample_claims st1 = (Tokens pair, st)"
    using first checks(1) by (simp add: refresh_handler_def)
  from unlimited.refresh_commit_spec [OF checks(2) _ this]
  have s: "unlimited_inv st"
    "\<And>t. 5 \<le> t \<Longrightarrow> live st t (used_key ''j1'') = (if alive (tk_mark (sample_token_clock 5)) (ttl_from_exp 0 (tk_ttl (sample_token_clock 5)) 1000) t then Some ''1'' else None)"
    "\<And>t. 5 \<le> t \<Longrightarrow> live st t (revoked_key ''j1'') = None"
    using checks(3) order by (simp_all add: in_order_def sample_times sample_claims_def)
  have "\<not> alive (tk_mark (sample_token_clock 5)) (ttl_from_exp 0 (tk_ttl (sample_token_clock 5)) 1000) (from_secs 1010)"
    by (simp add: sample_token_clock_def ttl_from_exp_def epoch_secs_def as_secs_def alive_def from_secs_def Let_def)
  then show ?thesis unfolding first snd_conv
    by (intro sample_refreshes s(1)) (simp_all add: s(2,3) epoch_secs_def as_secs_def from_secs_def)
qed

text \<open>The checks of a refresh claim nothing: a second refresh that checks before the first marks passes them too.\<close>

lemma checks_claim_nothing:
  assumes "unlimited_inv st" and "tk_used ck1 \<le> tk_revoked ck1" and "refresh_checks mem_ops lib app w ck1 token st = (c, st1)"
    and "tk_revoked ck1 \<le> tk_used ck2" and "tk_used ck2 \<le> tk_revoked ck2"
  shows "fst (refresh_checks mem_ops lib app w ck2 token st1) = fst (refresh_checks mem_ops lib app w ck2 token st)"
proof -
  note first = unlimited.refresh_checks_spec [OF assms(1-3)]
  have "fst (refresh_checks mem_ops lib app w ck2 token st1) = fst (refresh_checks mem_ops lib app w ck2 token st)"
    if "unlimited_inv st1" "\<And>t k. tk_revoked ck1 \<le> t \<Longrightarrow> live st1 t k = live st t k"
    using unlimited.refresh_checks_spec [OF that(1) assms(5) prod.collapse [symmetric], of lib app w token]
      unlimited.refresh_checks_spec [OF assms(1,5) prod.collapse [symmetric], of lib app w token] that(2) assms(4,5)
    by (simp split: sum.splits option.splits)
  then show ?thesis using first by blast
qed

end
