(* ===== verification/Protocol.thy ===== *)
theory Protocol
  imports AuthGate
begin

text \<open>
  Which API protocol a request is served with: the configuration of \<open>krab_core/src/protocol.rs\<close> and
  the resolution middleware of \<open>src/http_protocol.rs\<close>, with the errors of \<open>src/http_error.rs\<close>.

  A \<open>HashMap\<close> is an association list; the order in which \<open>validate\<close> reports problems is not
  specified. \<open>pj\<close> parses a JSON map of name lists (\<open>None\<close>: malformed). A request carries its query
  string, the identity the authentication gate attached, and the headers whose value is not visible
  ASCII.
\<close>

subsection \<open>Protocols and configuration\<close>

datatype protocol_kind = Rest | Graphql | Rpc

definition protocol_parse :: "string \<Rightarrow> protocol_kind option" where
  "protocol_parse s =
     (let v = ascii_lower (trim s)
      in if v = ''rest'' then Some Rest else if v = ''graphql'' then Some Graphql else if v = ''rpc'' then Some Rpc
         else None)"

definition protocol_as_str :: "protocol_kind \<Rightarrow> string" where
  "protocol_as_str p = (case p of Rest \<Rightarrow> ''rest'' | Graphql \<Rightarrow> ''graphql'' | Rpc \<Rightarrow> ''rpc'')"

datatype exposure_mode = Single | Multi

definition exposure_parse :: "string \<Rightarrow> exposure_mode option" where
  "exposure_parse s =
     (let v = ascii_lower (trim s) in if v = ''single'' then Some Single else if v = ''multi'' then Some Multi else None)"

datatype topology = SingleService | SplitServices

definition topology_parse :: "string \<Rightarrow> topology option" where
  "topology_parse s =
     (let v = ascii_lower (trim s)
      in if v = ''single_service'' then Some SingleService else if v = ''split_services'' then Some SplitServices else None)"

type_synonym protocol_map = "protocol_kind list hashmap"

record protocol_policy =
  pp_restricted_operations :: protocol_map
  pp_tenant_overrides :: protocol_map

record protocol_config =
  pc_exposure_mode :: exposure_mode
  pc_enabled_protocols :: "protocol_kind list"
  pc_default_protocol :: protocol_kind
  pc_topology :: topology
  pc_policy :: protocol_policy
  pc_allow_runtime_switch_header :: bool

definition default_policy :: protocol_policy where
  "default_policy = \<lparr>pp_restricted_operations = [], pp_tenant_overrides = []\<rparr>"

definition default_protocol_config :: protocol_config where
  "default_protocol_config =
     \<lparr>pc_exposure_mode = Single, pc_enabled_protocols = [Rest], pc_default_protocol = Rest, pc_topology = SingleService,
      pc_policy = default_policy, pc_allow_runtime_switch_header = False\<rparr>"

definition parse_bool :: "string \<Rightarrow> bool option" where
  "parse_bool value =
     (let v = trim value
      in if eq_ignore_ascii_case v ''true'' \<or> v = ''1'' then Some True
         else if eq_ignore_ascii_case v ''false'' \<or> v = ''0'' then Some False
         else None)"

fun collect_protocols :: "string list \<Rightarrow> protocol_kind list \<Rightarrow> protocol_kind list" where
  "collect_protocols [] out = out"
| "collect_protocols (name # names) out =
     (case protocol_parse name of
        None \<Rightarrow> collect_protocols names out
      | Some p \<Rightarrow> collect_protocols names (if p \<in> set out then out else out @ [p]))"

definition parse_protocol_csv :: "string \<Rightarrow> protocol_kind list" where
  "parse_protocol_csv value = collect_protocols (parse_csv_set value) []"

type_synonym map_parser = "string \<Rightarrow> string list hashmap option"

definition parse_protocol_map_json :: "map_parser \<Rightarrow> string \<Rightarrow> protocol_map option" where
  "parse_protocol_map_json pj value =
     map_option (map (\<lambda>(key, names). (key, collect_protocols names []))) (pj value)"

definition is_alnum :: "char \<Rightarrow> bool" where
  "is_alnum c =
     (let k = of_char c :: nat in (48 \<le> k \<and> k \<le> 57) \<or> (65 \<le> k \<and> k \<le> 90) \<or> (97 \<le> k \<and> k \<le> 122))"

definition parse_service_local_enabled :: "environment \<Rightarrow> string \<Rightarrow> protocol_kind list option" where
  "parse_service_local_enabled env service_name =
     (let suffix = ascii_upper (map (\<lambda>c. if is_alnum c then c else CHR ''_'') service_name)
      in case env (''KRAB_PROTOCOL_ENABLED_'' @ suffix) of
           None \<Rightarrow> None
         | Some raw \<Rightarrow> let parsed = parse_protocol_csv raw in if parsed = [] then None else Some parsed)"

definition env_parsed :: "environment \<Rightarrow> string \<Rightarrow> (string \<Rightarrow> 'a option) \<Rightarrow> 'a \<Rightarrow> 'a" where
  "env_parsed env name parse fallback =
     (case Option.bind (env name) parse of Some v \<Rightarrow> v | None \<Rightarrow> fallback)"

definition service_name_of :: "environment \<Rightarrow> string" where
  "service_name_of env =
     (case env ''KRAB_SERVICE_NAME'' of Some n \<Rightarrow> n
      | None \<Rightarrow> (case env ''KRAB_SERVICE'' of Some n \<Rightarrow> n | None \<Rightarrow> ''service''))"

definition enabled_from_env :: "environment \<Rightarrow> protocol_kind list" where
  "enabled_from_env env =
     (case parse_service_local_enabled env (service_name_of env) of
        Some service_local \<Rightarrow> service_local
      | None \<Rightarrow>
          (case env ''KRAB_PROTOCOL_ENABLED'' of
             Some raw \<Rightarrow> let parsed = parse_protocol_csv raw in if parsed \<noteq> [] then parsed else [Rest]
           | None \<Rightarrow> [Rest]))"

definition protocol_config_from_env :: "map_parser \<Rightarrow> environment \<Rightarrow> protocol_config" where
  "protocol_config_from_env pj env =
     (let dflt = env_parsed env ''KRAB_PROTOCOL_DEFAULT'' protocol_parse Rest;
          enabled = enabled_from_env env
      in \<lparr>pc_exposure_mode = env_parsed env ''KRAB_PROTOCOL_EXPOSURE_MODE'' exposure_parse Single,
          pc_enabled_protocols = (if dflt \<in> set enabled then enabled else enabled @ [dflt]),
          pc_default_protocol = dflt,
          pc_topology = env_parsed env ''KRAB_PROTOCOL_TOPOLOGY'' topology_parse SingleService,
          pc_policy =
            \<lparr>pp_restricted_operations = env_parsed env ''KRAB_PROTOCOL_RESTRICTED_OPS_JSON'' (parse_protocol_map_json pj) [],
             pp_tenant_overrides = env_parsed env ''KRAB_PROTOCOL_TENANT_OVERRIDES_JSON'' (parse_protocol_map_json pj) []\<rparr>,
          pc_allow_runtime_switch_header = env_parsed env ''KRAB_PROTOCOL_ALLOW_RUNTIME_SWITCH_HEADER'' parse_bool False\<rparr>)"

subsection \<open>Validation\<close>

datatype protocol_problem =
    NothingEnabled
  | DefaultNotEnabled protocol_kind
  | SingleNeedsOne nat
  | OperationUnsupported string protocol_kind
  | TenantUnsupported string protocol_kind
  | UnknownProtocolName string string string
  | PolicyNotJson string
  | SplitTargetsMissing

definition unsupported :: "(string \<Rightarrow> protocol_kind \<Rightarrow> protocol_problem) \<Rightarrow> protocol_kind list \<Rightarrow> protocol_map \<Rightarrow> protocol_problem list" where
  "unsupported report enabled m =
     concat (map (\<lambda>(name, ps). map (report name) (filter (\<lambda>p. p \<notin> set enabled) ps)) m)"

definition raw_problems :: "map_parser \<Rightarrow> environment \<Rightarrow> string \<Rightarrow> protocol_problem list" where
  "raw_problems pj env env_key =
     (case env env_key of
        None \<Rightarrow> []
      | Some raw \<Rightarrow>
          (case pj raw of
             None \<Rightarrow> [PolicyNotJson env_key]
           | Some m \<Rightarrow>
               concat (map (\<lambda>(entry, names).
                 map (UnknownProtocolName env_key entry) (filter (\<lambda>n. protocol_parse n = None) names)) m)))"

definition protocol_validate :: "map_parser \<Rightarrow> environment \<Rightarrow> protocol_config \<Rightarrow> protocol_problem list + unit" where
  "protocol_validate pj env cfg =
     (let enabled = pc_enabled_protocols cfg;
          errors =
            (if enabled = [] then [NothingEnabled] else []) @
            (if pc_default_protocol cfg \<notin> set enabled then [DefaultNotEnabled (pc_default_protocol cfg)] else []) @
            (if pc_exposure_mode cfg = Single \<and> length enabled \<noteq> 1 then [SingleNeedsOne (length enabled)] else []) @
            unsupported OperationUnsupported enabled (pp_restricted_operations (pc_policy cfg)) @
            unsupported TenantUnsupported enabled (pp_tenant_overrides (pc_policy cfg)) @
            concat (map (raw_problems pj env)
              [''KRAB_PROTOCOL_RESTRICTED_OPS_JSON'', ''KRAB_PROTOCOL_TENANT_OVERRIDES_JSON'']) @
            (if pc_topology cfg = SplitServices \<and>
                (case env ''KRAB_PROTOCOL_SPLIT_TARGETS_JSON'' of Some v \<Rightarrow> trim v = [] | None \<Rightarrow> True)
             then [SplitTargetsMissing] else [])
      in if errors = [] then Inr () else Inl errors)"

subsection \<open>Requests\<close>

record protocol_request = http_request +
  rq_query :: "string option"
  rq_auth :: "auth_context option"
  rq_opaque_headers :: "string list"

definition has_header :: "protocol_request \<Rightarrow> string \<Rightarrow> bool" where
  "has_header req name = (hm_contains (rq_headers req) name \<or> name \<in> set (rq_opaque_headers req))"

text \<open>Key and value of one pair of a query string.\<close>

definition query_pair :: "string \<Rightarrow> string \<times> string" where
  "query_pair pair = (case split_once (CHR ''='') pair of Some kv \<Rightarrow> kv | None \<Rightarrow> (pair, []))"

fun find_query :: "(string \<Rightarrow> string \<Rightarrow> 'a option) \<Rightarrow> string list \<Rightarrow> 'a option" where
  "find_query f [] = None"
| "find_query f (pair # pairs) =
     (case query_pair pair of (key, value) \<Rightarrow> (case f key value of Some r \<Rightarrow> Some r | None \<Rightarrow> find_query f pairs))"

definition query_pairs :: "string \<Rightarrow> string list" where
  "query_pairs q = split_on (\<lambda>c. c = CHR ''&'') q"

definition non_blank :: "string \<Rightarrow> string option" where
  "non_blank s = (if trim s \<noteq> [] then Some (trim s) else None)"

definition request_tenant_hint :: "environment \<Rightarrow> protocol_request \<Rightarrow> string option" where
  "request_tenant_hint env req =
     (case Option.bind (Option.bind (rq_auth req) ac_tenant_id) non_blank of
        Some t \<Rightarrow> Some t
      | None \<Rightarrow>
          if \<not> bool_env env ''KRAB_PROTOCOL_TENANT_HINT_UNTRUSTED'' False then None
          else case Option.bind (hm_get (rq_headers req) ''x-krab-tenant-id'') non_blank of
                 Some t \<Rightarrow> Some t
               | None \<Rightarrow>
                   Option.bind (rq_query req) (\<lambda>q. find_query (\<lambda>key value.
                     if eq_ignore_ascii_case key ''tenant_id'' \<or> eq_ignore_ascii_case key ''tid'' then non_blank value else None)
                     (query_pairs q)))"

definition extract_protocol_preference :: "protocol_request \<Rightarrow> protocol_kind option" where
  "extract_protocol_preference req =
     (case Option.bind (hm_get (rq_headers req) ''x-krab-protocol'') protocol_parse of
        Some p \<Rightarrow> Some p
      | None \<Rightarrow>
          Option.bind (rq_query req) (\<lambda>q. find_query (\<lambda>key value.
            if eq_ignore_ascii_case key ''protocol'' then protocol_parse value else None) (query_pairs q)))"

definition in_family :: "string \<Rightarrow> string \<Rightarrow> bool" where
  "in_family base path = (path = base \<or> starts_with path (base @ ''/''))"

definition route_family_protocol :: "string \<Rightarrow> protocol_kind option" where
  "route_family_protocol path =
     (if in_family ''/api/v1/graphql'' path then Some Graphql
      else if in_family ''/api/v1/rpc'' path then Some Rpc
      else if in_family ''/api/v1/users'' path then Some Rest
      else None)"

definition operation_label :: "string \<Rightarrow> string \<Rightarrow> string" where
  "operation_label m path =
     (if (m, path) = (''GET'', ''/api/v1/users/me'') then ''users.getMe''
      else if (m, path) = (''POST'', ''/api/v1/graphql'') then ''users.graphql''
      else if (m, path) = (''POST'', ''/api/v1/rpc'') then ''users.rpc''
      else if (m, path) = (''POST'', ''/api/v1/auth/login'') then ''auth.login''
      else if (m, path) = (''POST'', ''/api/v1/auth/refresh'') then ''auth.refresh''
      else if (m, path) = (''POST'', ''/api/v1/auth/revoke'') then ''auth.revoke''
      else if (m, path) = (''GET'', ''/api/v1/auth/jwks'') then ''auth.jwks''
      else if (m, path) = (''GET'', ''/api/v1/auth/status'') then ''auth.status''
      else if (m, path) = (''GET'', ''/api/v1/auth/capabilities'') then ''auth.capabilities''
      else ''http.request'')"

definition retain_listed :: "protocol_kind list option \<Rightarrow> protocol_kind list \<Rightarrow> protocol_kind list" where
  "retain_listed listed allowed =
     (case listed of Some ps \<Rightarrow> if ps \<noteq> [] then filter (\<lambda>p. p \<in> set ps) allowed else allowed | None \<Rightarrow> allowed)"

definition policy_allowed_protocols :: "string \<Rightarrow> string \<Rightarrow> string option \<Rightarrow> protocol_config \<Rightarrow> protocol_kind list" where
  "policy_allowed_protocols m path tenant cfg =
     retain_listed (Option.bind tenant (hm_get (pp_tenant_overrides (pc_policy cfg))))
       (retain_listed (hm_get (pp_restricted_operations (pc_policy cfg)) (operation_label m path)) (pc_enabled_protocols cfg))"

subsection \<open>Errors\<close>

datatype error_category = Validation | Unauthenticated | Authz | NotFound | Conflict | RateLimited | ServiceUnavailable | Internal

definition default_status :: "error_category \<Rightarrow> nat" where
  "default_status c =
     (case c of
        Validation \<Rightarrow> 400 | Unauthenticated \<Rightarrow> 401 | Authz \<Rightarrow> 403 | NotFound \<Rightarrow> 404 | Conflict \<Rightarrow> 409
      | RateLimited \<Rightarrow> 429 | ServiceUnavailable \<Rightarrow> 503 | Internal \<Rightarrow> 500)"

text \<open>What \<open>with_details\<close> attaches, in the two shapes that are used.\<close>

datatype error_details = NoDetails
  | WhereDetails string "string option"
  | ProtocolDetails string "string option" string "string list"

record api_error =
  ae_category :: error_category
  ae_code :: string
  ae_message :: string
  ae_details :: error_details

definition api_error_new :: "error_category \<Rightarrow> string \<Rightarrow> string \<Rightarrow> api_error" where
  "api_error_new c code message = \<lparr>ae_category = c, ae_code = code, ae_message = message, ae_details = NoDetails\<rparr>"

definition with_details :: "api_error \<Rightarrow> error_details \<Rightarrow> api_error" where
  "with_details e d = e\<lparr>ae_details := d\<rparr>"

subsection \<open>Resolution\<close>

definition resolve_protocol_for_request :: "environment \<Rightarrow> protocol_request \<Rightarrow> protocol_config \<Rightarrow> api_error + protocol_kind" where
  "resolve_protocol_for_request env req cfg =
     (let m = rq_method req; path = rq_path req; operation = operation_label m path;
          tenant = request_tenant_hint env req;
          allowed = policy_allowed_protocols m path tenant cfg;
          details = (\<lambda>p. ProtocolDetails operation tenant (protocol_as_str p) (map protocol_as_str allowed))
      in if allowed = [] then
           Inl (with_details (api_error_new Validation ''INVALID_PROTOCOL_HEADER''
             ''x-krab-protocol header contains invalid protocol'') (WhereDetails operation tenant))
         else case route_family_protocol path of
                Some p \<Rightarrow>
                  if p \<in> set allowed then Inr p
                  else Inl (with_details (api_error_new Validation ''PROTOCOL_NOT_SUPPORTED''
                         ''Requested protocol is not enabled for this service'') (details p))
              | None \<Rightarrow>
                  (case (if pc_allow_runtime_switch_header cfg then extract_protocol_preference req else None) of
                     Some p \<Rightarrow>
                       if p \<in> set allowed then Inr p
                       else Inl (with_details (api_error_new Authz ''PROTOCOL_RESTRICTED''
                              ''Requested protocol is restricted by operation or tenant policy'') (details p))
                   | None \<Rightarrow>
                       if pc_default_protocol cfg \<in> set allowed then Inr (pc_default_protocol cfg)
                       else Inr (allowed ! 0)))"

definition runtime_switch_header_rejected_by_default :: "protocol_request \<Rightarrow> protocol_config \<Rightarrow> bool" where
  "runtime_switch_header_rejected_by_default req cfg =
     (has_header req ''x-krab-protocol'' \<and> \<not> pc_allow_runtime_switch_header cfg)"

text \<open>
  The middleware: an error response with its status, or the request goes on with the protocol, which
  is also the \<open>x-krab-protocol\<close> header of the response. \<open>None\<close> is a state without a configuration.
\<close>

definition protocol_resolution_middleware ::
  "environment \<Rightarrow> protocol_config option \<Rightarrow> protocol_request \<Rightarrow> (nat \<times> api_error) + (protocol_kind \<times> string)" where
  "protocol_resolution_middleware env config req =
     (let cfg = (case config of Some c \<Rightarrow> c | None \<Rightarrow> default_protocol_config);
          respond = (\<lambda>e. Inl (default_status (ae_category e), e))
      in if runtime_switch_header_rejected_by_default req cfg then
           respond (api_error_new Validation ''BAD_REQUEST'' ''runtime protocol switching via x-krab-protocol is disabled'')
         else case resolve_protocol_for_request env req cfg of
                Inl e \<Rightarrow> respond e
              | Inr p \<Rightarrow> Inr (p, protocol_as_str p))"

subsection \<open>Labels and counters\<close>

definition selection_source_label :: "protocol_request \<Rightarrow> string \<Rightarrow> string" where
  "selection_source_label req path =
     (if has_header req ''x-krab-protocol'' then ''client''
      else if route_family_protocol path \<noteq> None then ''policy'' else ''default'')"

definition protocol_label :: "protocol_kind option \<Rightarrow> string" where
  "protocol_label p = (case p of Some q \<Rightarrow> protocol_as_str q | None \<Rightarrow> ''unknown'')"

definition protocol_metric_index :: "protocol_kind option \<Rightarrow> nat" where
  "protocol_metric_index p = (case p of Some Rest \<Rightarrow> 0 | Some Graphql \<Rightarrow> 1 | Some Rpc \<Rightarrow> 2 | None \<Rightarrow> 3)"

definition response_status_class_index :: "nat \<Rightarrow> nat option" where
  "response_status_class_index status =
     (if 200 \<le> status \<and> status < 300 then Some 0
      else if 400 \<le> status \<and> status < 500 then Some 1
      else if 500 \<le> status \<and> status < 600 then Some 2
      else None)"

definition response_metric_slot :: "nat \<Rightarrow> nat \<Rightarrow> nat" where
  "response_metric_slot class_index protocol_index = class_index * 4 + protocol_index"

subsection \<open>Lemmas\<close>

lemma protocol_parse_as_str [simp]: "protocol_parse (protocol_as_str p) = Some p"
  by (cases p)
    (simp_all add: protocol_parse_def protocol_as_str_def Let_def trim_id is_ws_def ascii_lower_def)

lemma retain_listed_mem: "p \<in> set (retain_listed listed allowed) \<longleftrightarrow>
    p \<in> set allowed \<and> (\<forall>ps. listed = Some ps \<and> ps \<noteq> [] \<longrightarrow> p \<in> set ps)"
  by (auto simp: retain_listed_def split: option.splits)

lemma allowed_mem:
  "p \<in> set (policy_allowed_protocols m path tenant cfg) \<longleftrightarrow>
     p \<in> set (pc_enabled_protocols cfg) \<and>
     (\<forall>ps. hm_get (pp_restricted_operations (pc_policy cfg)) (operation_label m path) = Some ps \<and> ps \<noteq> [] \<longrightarrow> p \<in> set ps) \<and>
     (\<forall>t ps. tenant = Some t \<and> hm_get (pp_tenant_overrides (pc_policy cfg)) t = Some ps \<and> ps \<noteq> [] \<longrightarrow> p \<in> set ps)"
  by (auto simp: policy_allowed_protocols_def retain_listed_mem bind_eq_Some_conv)

lemma metric_slots_distinct:
  "c < 3 \<Longrightarrow> c' < 3 \<Longrightarrow>
     response_metric_slot c (protocol_metric_index p) = response_metric_slot c' (protocol_metric_index q) \<Longrightarrow>
     response_metric_slot c (protocol_metric_index p) < 12 \<and> c = c' \<and> p = q"
  by (auto simp: response_metric_slot_def protocol_metric_index_def split: option.splits protocol_kind.splits; presburger)

lemma resolve_protocol_cases:
  assumes "resolve_protocol_for_request env req cfg = Inr p"
  shows "p \<in> set (policy_allowed_protocols (rq_method req) (rq_path req) (request_tenant_hint env req) cfg)"
    and "route_family_protocol (rq_path req) = Some q \<Longrightarrow> p = q"
    and "route_family_protocol (rq_path req) = None \<Longrightarrow> \<not> pc_allow_runtime_switch_header cfg \<or> extract_protocol_preference req = None \<Longrightarrow>
      p = pc_default_protocol cfg \<or>
      pc_default_protocol cfg \<notin> set (policy_allowed_protocols (rq_method req) (rq_path req) (request_tenant_hint env req) cfg)"
  using assms
  by (auto simp: resolve_protocol_for_request_def Let_def split: if_splits option.splits)

text \<open>
  the protocol a request is served with. It is enabled, the operation's and the tenant's policy
  lists, when they are not empty, contain it, and a route family is served with its own protocol only.
  A client can choose only when the operator allows it: otherwise a request with the protocol header
  does not pass, and elsewhere the default is taken whenever policy allows it. The response names it.
\<close>

theorem resolved_protocol_obeys_policy:
  assumes "protocol_resolution_middleware env (Some cfg) req = Inr (p, header)"
  shows "p \<in> set (pc_enabled_protocols cfg) \<and>
     (\<forall>ps. hm_get (pp_restricted_operations (pc_policy cfg)) (operation_label (rq_method req) (rq_path req)) = Some ps \<and> ps \<noteq> []
        \<longrightarrow> p \<in> set ps) \<and>
     (\<forall>t ps. request_tenant_hint env req = Some t \<and> hm_get (pp_tenant_overrides (pc_policy cfg)) t = Some ps \<and> ps \<noteq> []
        \<longrightarrow> p \<in> set ps) \<and>
     (\<forall>q. route_family_protocol (rq_path req) = Some q \<longrightarrow> p = q) \<and>
     (\<not> pc_allow_runtime_switch_header cfg \<longrightarrow> \<not> has_header req ''x-krab-protocol'' \<and>
        (route_family_protocol (rq_path req) = None \<longrightarrow>
           p = pc_default_protocol cfg \<or>
           pc_default_protocol cfg \<notin> set (policy_allowed_protocols (rq_method req) (rq_path req) (request_tenant_hint env req) cfg))) \<and>
     protocol_parse header = Some p"
proof -
  have r: "resolve_protocol_for_request env req cfg = Inr p" and h: "header = protocol_as_str p"
    and n: "\<not> runtime_switch_header_rejected_by_default req cfg"
    using assms by (auto simp: protocol_resolution_middleware_def Let_def split: if_splits sum.splits)
  have a: "p \<in> set (policy_allowed_protocols (rq_method req) (rq_path req) (request_tenant_hint env req) cfg)"
    by (rule resolve_protocol_cases(1) [OF r])
  show ?thesis
    using a [unfolded allowed_mem] resolve_protocol_cases(2,3) [OF r] n h
    by (auto simp: runtime_switch_header_rejected_by_default_def)
qed

definition sample_protocol_request :: protocol_request where
  "sample_protocol_request = \<lparr>rq_method = ''GET'', rq_path = ''/x'', rq_headers = [], rq_peer_ip = None,
     rq_query = Some ''protocol=rpc'', rq_auth = None, rq_opaque_headers = []\<rparr>"

lemma sample_resolution:
  "protocol_resolution_middleware (\<lambda>_. None) (Some default_protocol_config) sample_protocol_request = Inr (Rest, ''rest'')"
  by code_simp

theorem resolved_protocol_obeys_policy_witness:
  "protocol_parse ''rest'' = Some Rest \<and> Rest \<in> set (pc_enabled_protocols default_protocol_config)"
  using resolved_protocol_obeys_policy [OF sample_resolution] by blast

lemma collect_protocols_mem:
  "p \<in> set (collect_protocols names out) \<longleftrightarrow> p \<in> set out \<or> (\<exists>n \<in> set names. protocol_parse n = Some p)"
  by (induction names out rule: collect_protocols.induct) (auto split: option.splits)

lemma collect_protocols_known:
  assumes "names \<noteq> []" and "\<forall>n \<in> set names. protocol_parse n \<noteq> None"
  shows "collect_protocols names [] \<noteq> []"
proof -
  from assms obtain n p where "n \<in> set names" "protocol_parse n = Some p" by (cases names) auto
  then have "p \<in> set (collect_protocols names [])" using collect_protocols_mem [of p names "[]"] by blast
  then show ?thesis by auto
qed

lemma map_of_mapped: "map_of (map (\<lambda>(k, v). (k, f v)) m) x = map_option f (map_of m x)"
  by (induction m) auto

lemma raw_problems_none:
  assumes "raw_problems pj env key = []" and "env key = Some raw"
  shows "\<exists>m. pj raw = Some m \<and> (\<forall>entry names. hm_get m entry = Some names \<longrightarrow> (\<forall>n \<in> set names. protocol_parse n \<noteq> None))"
proof -
  from assms obtain m where m: "pj raw = Some m" by (cases "pj raw") (auto simp: raw_problems_def)
  have "\<forall>n \<in> set names. protocol_parse n \<noteq> None" if "hm_get m entry = Some names" for entry names
  proof -
    from assms m map_of_SomeD [OF that]
    have "map (UnknownProtocolName key entry) (filter (\<lambda>n. protocol_parse n = None) names) = []"
      by (fastforce simp: raw_problems_def)
    then show ?thesis by (simp add: filter_empty_conv)
  qed
  with m show ?thesis by blast
qed

lemma validated_sources:
  assumes "protocol_validate pj env cfg = Inr ()"
  shows "raw_problems pj env ''KRAB_PROTOCOL_RESTRICTED_OPS_JSON'' = []"
    and "raw_problems pj env ''KRAB_PROTOCOL_TENANT_OVERRIDES_JSON'' = []"
  using assms by (auto simp: protocol_validate_def Let_def split: if_splits)

text \<open>What a validated variable means for the lists of the configuration.\<close>

lemma validated_list:
  assumes "raw_problems pj env key = []" and "env key = Some raw" and "pj raw = Some m"
    and "hm_get m entry = Some names" and "names \<noteq> []"
  obtains ps where "hm_get (env_parsed env key (parse_protocol_map_json pj) []) entry = Some ps" and "ps \<noteq> []"
    and "\<forall>p \<in> set ps. \<exists>n \<in> set names. protocol_parse n = Some p"
proof -
  have "\<forall>n \<in> set names. protocol_parse n \<noteq> None" using raw_problems_none [OF assms(1,2)] assms(3,4) by auto
  then have ne: "collect_protocols names [] \<noteq> []" by (rule collect_protocols_known [OF assms(5)])
  have "hm_get (env_parsed env key (parse_protocol_map_json pj) []) entry = Some (collect_protocols names [])"
    using assms(2-4) by (simp add: env_parsed_def parse_protocol_map_json_def map_of_mapped)
  then show ?thesis
    by (rule that [OF _ ne]) (simp add: collect_protocols_mem)
qed

text \<open>
  a policy that passed validation at start-up is the policy that is enforced. If the operator's
  JSON lists protocol names for an operation, or for the tenant of the request, then a request is
  served with one of these names or not at all; no list is dropped, emptied or read differently.
\<close>

theorem validated_policies_are_enforced:
  assumes "protocol_validate pj env (protocol_config_from_env pj env) = Inr ()"
    and "resolve_protocol_for_request env req (protocol_config_from_env pj env) = Inr p"
  shows "(\<forall>raw m names. env ''KRAB_PROTOCOL_RESTRICTED_OPS_JSON'' = Some raw \<and> pj raw = Some m \<and>
            hm_get m (operation_label (rq_method req) (rq_path req)) = Some names \<and> names \<noteq> [] \<longrightarrow>
            (\<exists>n \<in> set names. protocol_parse n = Some p)) \<and>
         (\<forall>raw m t names. env ''KRAB_PROTOCOL_TENANT_OVERRIDES_JSON'' = Some raw \<and> pj raw = Some m \<and>
            request_tenant_hint env req = Some t \<and> hm_get m t = Some names \<and> names \<noteq> [] \<longrightarrow>
            (\<exists>n \<in> set names. protocol_parse n = Some p))"
proof -
  let ?cfg = "protocol_config_from_env pj env"
  have policy: "pc_policy ?cfg =
      \<lparr>pp_restricted_operations = env_parsed env ''KRAB_PROTOCOL_RESTRICTED_OPS_JSON'' (parse_protocol_map_json pj) [],
       pp_tenant_overrides = env_parsed env ''KRAB_PROTOCOL_TENANT_OVERRIDES_JSON'' (parse_protocol_map_json pj) []\<rparr>"
    by (simp add: protocol_config_from_env_def Let_def)
  note a = resolve_protocol_cases(1) [OF assms(2), unfolded allowed_mem policy protocol_policy.simps]
  have op: "\<exists>n \<in> set names. protocol_parse n = Some p"
    if "env ''KRAB_PROTOCOL_RESTRICTED_OPS_JSON'' = Some raw" "pj raw = Some m"
      "hm_get m (operation_label (rq_method req) (rq_path req)) = Some names" "names \<noteq> []" for raw m names
    using validated_list [OF validated_sources(1) [OF assms(1)] that] a by metis
  have tenant: "\<exists>n \<in> set names. protocol_parse n = Some p"
    if "env ''KRAB_PROTOCOL_TENANT_OVERRIDES_JSON'' = Some raw" "pj raw = Some m" "hm_get m t = Some names" "names \<noteq> []"
      "request_tenant_hint env req = Some t" for raw m t names
    using validated_list [OF validated_sources(2) [OF assms(1)] that(1-4)] that(5) a by metis
  show ?thesis using op tenant by blast
qed

definition sample_protocol_env :: environment where
  "sample_protocol_env = map_of [(''KRAB_PROTOCOL_RESTRICTED_OPS_JSON'', ''j''), (''KRAB_PROTOCOL_ENABLED'', ''rest,rpc''),
     (''KRAB_PROTOCOL_EXPOSURE_MODE'', ''multi'')]"

definition sample_map_parser :: map_parser where
  "sample_map_parser raw = Some [(''http.request'', [''rpc''])]"

lemma sample_protocol_valid:
  "protocol_validate sample_map_parser sample_protocol_env (protocol_config_from_env sample_map_parser sample_protocol_env) = Inr ()"
  by code_simp

lemma sample_protocol_resolved:
  "resolve_protocol_for_request sample_protocol_env sample_protocol_request
     (protocol_config_from_env sample_map_parser sample_protocol_env) = Inr Rpc"
  by code_simp

theorem validated_policies_are_enforced_witness:
  "\<exists>n \<in> {''rpc''}. protocol_parse n = Some Rpc"
  using validated_policies_are_enforced [OF sample_protocol_valid sample_protocol_resolved]
  by (simp add: sample_protocol_env_def sample_map_parser_def sample_protocol_request_def operation_label_def)

text \<open>
  Without the validation an unknown name lifts the restriction of its operation instead of denying it:
  the list becomes empty, and empty lists impose nothing.
\<close>

lemma unknown_names_lift_the_restriction:
  assumes "env ''KRAB_PROTOCOL_RESTRICTED_OPS_JSON'' = Some raw" and "pj raw = Some [(operation_label m path, [''grpc''])]"
  shows "policy_allowed_protocols m path None (protocol_config_from_env pj env) =
         pc_enabled_protocols (protocol_config_from_env pj env)"
proof -
  have "protocol_parse ''grpc'' = None" by code_simp
  with assms show ?thesis
    by (simp add: policy_allowed_protocols_def protocol_config_from_env_def Let_def env_parsed_def
        parse_protocol_map_json_def retain_listed_def)
qed

end
