(* ===== verification/TokenStartup.thy ===== *)
theory TokenStartup
  imports TokenService Protocol
begin

text \<open>
  How the token service starts: \<open>bootstrap_auth_service\<close> of \<open>service_auth/src/main.rs\<close>, which checks the
  protocols, loads and validates the configuration, refuses insecure secrets outside local environments,
  and builds the credential store the login handler verifies against.
\<close>

subsection \<open>Credentials\<close>

definition local_like_environment :: "environment \<Rightarrow> bool" where
  "local_like_environment env =
     (let e = env_or env ''KRAB_ENVIRONMENT'' ''dev'' in eq_ignore_ascii_case e ''dev'' \<or> eq_ignore_ascii_case e ''local'')"

datatype startup_error =
    NotRestOnly protocol_kind "protocol_kind list"
  | BadPort port_error
  | ConfigInvalid validate_error
  | VarMissing string
  | SecretUnreadable read_error
  | SecretsNotMounted "string list"
  | InsecureSecret string
  | UsersNotJson
  | PlaintextCredential string
  | StaticForbidden string
  | CredentialRejected credential_error

definition read_var :: "outside \<Rightarrow> string \<Rightarrow> startup_error + string option" where
  "read_var w name = map_sum SecretUnreadable id (read_env_or_file (out_env w) (out_fs w) name)"

definition login_users :: "auth_parsers \<Rightarrow> outside \<Rightarrow> startup_error + string hashmap option" where
  "login_users ps w =
     (case read_var w ''KRAB_AUTH_LOGIN_USERS_JSON'' of
        Inl e \<Rightarrow> Inl e
      | Inr None \<Rightarrow> Inr None
      | Inr (Some raw) \<Rightarrow> (case ps_string_map ps raw of None \<Rightarrow> Inl UsersNotJson | Some users \<Rightarrow> Inr (Some users)))"

definition enforce_hashed_credentials :: "hash_lib \<Rightarrow> auth_parsers \<Rightarrow> outside \<Rightarrow> startup_error + unit" where
  "enforce_hashed_credentials hl ps w =
     (case login_users ps w of
        Inl e \<Rightarrow> Inl e
      | Inr users \<Rightarrow>
          (case find (\<lambda>u. \<not> is_valid_password_hash hl (the (hm_get (case users of None \<Rightarrow> [] | Some m \<Rightarrow> m) u)))
                  (btree_keys (case users of None \<Rightarrow> [] | Some m \<Rightarrow> m)) of
             Some u \<Rightarrow> Inl (PlaintextCredential u)
           | None \<Rightarrow>
               (case read_var w ''KRAB_AUTH_BOOTSTRAP_PASSWORD'' of
                  Inl e \<Rightarrow> Inl e
                | Inr (Some password) \<Rightarrow>
                    if is_valid_password_hash hl password then Inr () else Inl (PlaintextCredential ''KRAB_AUTH_BOOTSTRAP_PASSWORD'')
                | Inr None \<Rightarrow> Inr ())))"

text \<open>\<open>salt\<close> is what the operating system draws for the credential.\<close>

definition normalize_credential :: "hash_lib \<Rightarrow> string \<Rightarrow> string \<Rightarrow> bool \<Rightarrow> startup_error + string" where
  "normalize_credential hl salt value allow_plaintext =
     (if is_valid_password_hash hl value then Inr value
      else if \<not> allow_plaintext then Inl (PlaintextCredential value)
      else map_sum CredentialRejected id (hash_password hl value salt))"

fun normalize_users ::
  "hash_lib \<Rightarrow> (string \<Rightarrow> string) \<Rightarrow> bool \<Rightarrow> string hashmap \<Rightarrow> string list \<Rightarrow> string hashmap \<Rightarrow> startup_error + string hashmap" where
  "normalize_users hl salts allow configured [] users = Inr users"
| "normalize_users hl salts allow configured (u # us) users =
     (case normalize_credential hl (salts u) (the (hm_get configured u)) allow of
        Inl e \<Rightarrow> Inl e
      | Inr h \<Rightarrow> normalize_users hl salts allow configured us (hm_insert u h users))"

definition resolve_credential_store ::
  "hash_lib \<Rightarrow> (string \<Rightarrow> string) \<Rightarrow> auth_parsers \<Rightarrow> outside \<Rightarrow> startup_error + credential_store" where
  "resolve_credential_store hl salts ps w =
     (let allow_plaintext = local_like_environment (out_env w);
          default_user = env_or (out_env w) ''KRAB_AUTH_BOOTSTRAP_USER'' ''admin'';
          store = (\<lambda>users. map_sum CredentialRejected id (credentials_from_map hl users))
      in case login_users ps w of
           Inl e \<Rightarrow> Inl e
         | Inr configured \<Rightarrow>
             (case (case configured of
                      None \<Rightarrow> Inr []
                    | Some m \<Rightarrow> normalize_users hl salts allow_plaintext m (btree_keys m) []) of
                Inl e \<Rightarrow> Inl e
              | Inr users \<Rightarrow>
                  if hm_contains users default_user then store users
                  else (case read_var w ''KRAB_AUTH_BOOTSTRAP_PASSWORD'' of
                          Inl e \<Rightarrow> Inl e
                        | Inr p \<Rightarrow>
                            (case normalize_credential hl (salts default_user)
                                    (case p of Some v \<Rightarrow> v | None \<Rightarrow> INSECURE_DEV_BOOTSTRAP_PASSWORD) allow_plaintext of
                               Inl e \<Rightarrow> Inl e
                             | Inr h \<Rightarrow> store (hm_insert default_user h users)))))"

subsection \<open>Bootstrap\<close>

record auth_service =
  as_name :: string
  as_host :: string
  as_port :: u16
  as_protocol :: protocol_config
  as_credentials :: credential_store

definition KEY_MOUNTS :: "string list" where
  "KEY_MOUNTS = [''KRAB_JWT_KEYS_JSON_FILE'', ''KRAB_JWT_SECRET_FILE'', ''KRAB_JWT_KEYS_JSON_VAULT_REF'', ''KRAB_JWT_SECRET_VAULT_REF'']"

definition LOGIN_MOUNTS :: "string list" where
  "LOGIN_MOUNTS = [''KRAB_AUTH_LOGIN_USERS_JSON_FILE'', ''KRAB_AUTH_BOOTSTRAP_PASSWORD_FILE'',
     ''KRAB_AUTH_LOGIN_USERS_JSON_VAULT_REF'', ''KRAB_AUTH_BOOTSTRAP_PASSWORD_VAULT_REF'']"

text \<open>A secret is read, must be mounted, and must be neither blank nor the built-in default.\<close>

definition check_mounted_secret :: "outside \<Rightarrow> string \<Rightarrow> string list \<Rightarrow> string \<Rightarrow> startup_error + unit" where
  "check_mounted_secret w name mounts insecure =
     (case read_var w name of
        Inl e \<Rightarrow> Inl e
      | Inr secret \<Rightarrow>
          if \<not> list_ex (\<lambda>v. env_non_empty (out_env w) v \<noteq> None) mounts then Inl (SecretsNotMounted mounts)
          else (case secret of
                  None \<Rightarrow> Inr ()
                | Some s \<Rightarrow> if trim s \<noteq> [] \<and> s \<noteq> insecure then Inr () else Inl (InsecureSecret name)))"

definition check_auth_mode :: "hash_lib \<Rightarrow> auth_parsers \<Rightarrow> outside \<Rightarrow> startup_error + unit" where
  "check_auth_mode hl ps w =
     (let env = out_env w; auth_mode = env_or env ''KRAB_AUTH_MODE'' ''jwt''; local_like_env = local_like_environment env
      in if eq_ignore_ascii_case auth_mode ''jwt'' \<or> eq_ignore_ascii_case auth_mode ''oidc''
         then if env ''KRAB_OIDC_ISSUER'' = None then Inl (VarMissing ''KRAB_OIDC_ISSUER'')
              else if env ''KRAB_OIDC_AUDIENCE'' = None then Inl (VarMissing ''KRAB_OIDC_AUDIENCE'')
              else if local_like_env then Inr ()
              else (case check_mounted_secret w ''KRAB_JWT_SECRET'' KEY_MOUNTS INSECURE_DEV_JWT_SECRET of
                      Inl e \<Rightarrow> Inl e
                    | Inr _ \<Rightarrow>
                        (case check_mounted_secret w ''KRAB_AUTH_BOOTSTRAP_PASSWORD'' LOGIN_MOUNTS INSECURE_DEV_BOOTSTRAP_PASSWORD of
                           Inl e \<Rightarrow> Inl e
                         | Inr _ \<Rightarrow> enforce_hashed_credentials hl ps w))
         else if eq_ignore_ascii_case auth_mode ''static'' \<and> \<not> local_like_env
         then Inl (StaticForbidden (env_or env ''KRAB_ENVIRONMENT'' ''dev''))
         else Inr ())"

definition bootstrap_auth_service ::
  "map_parser \<Rightarrow> hash_lib \<Rightarrow> (string \<Rightarrow> string) \<Rightarrow> auth_parsers \<Rightarrow> outside \<Rightarrow> startup_error + auth_service" where
  "bootstrap_auth_service pj hl salts ps w =
     (let protocol_cfg = protocol_config_from_env pj (out_env w)
      in if \<not> (pc_default_protocol protocol_cfg = Rest \<and> list_all (\<lambda>p. p = Rest) (pc_enabled_protocols protocol_cfg))
         then Inl (NotRestOnly (pc_default_protocol protocol_cfg) (pc_enabled_protocols protocol_cfg))
         else (case from_env_checked (out_env w) ''auth'' 3001 of
                 Inl e \<Rightarrow> Inl (BadPort e)
               | Inr cfg \<Rightarrow>
                   (case validate_all w cfg of
                      Inl e \<Rightarrow> Inl (ConfigInvalid e)
                    | Inr _ \<Rightarrow>
                        (case check_auth_mode hl ps w of
                           Inl e \<Rightarrow> Inl e
                         | Inr _ \<Rightarrow>
                             (case resolve_credential_store hl salts ps w of
                                Inl e \<Rightarrow> Inl e
                              | Inr store \<Rightarrow>
                                  Inr \<lparr>as_name = sc_service_name cfg, as_host = sc_host cfg, as_port = sc_port cfg,
                                       as_protocol = protocol_cfg, as_credentials = store\<rparr>)))))"


subsection \<open>What a started service relies on\<close>

lemma map_sum_Inr: "map_sum f g x = Inr y \<longleftrightarrow> (\<exists>v. x = Inr v \<and> g v = y)"
  by (cases x) auto

lemma local_like_iff: "local_like_environment env \<longleftrightarrow> deploy_env_from env = Dev"
  by (auto simp: local_like_environment_def deploy_env_from_def env_or_def eq_ignore_ascii_case_def Let_def split: option.splits)

lemma read_var_None:
  "read_var w name = Inr None \<Longrightarrow> env_non_empty (out_env w) (name @ FILE) = None \<and> env_non_empty (out_env w) (name @ VAULT_REF) = None"
  by (auto simp: read_var_def read_env_or_file_def Let_def split: option.splits if_splits)

lemma normalize_strict: "normalize_credential hl salt value False = Inr h \<longleftrightarrow> h = value \<and> is_valid_password_hash hl value"
  by (auto simp: normalize_credential_def)

lemma normalize_users_strict:
  assumes "normalize_users hl salts False configured us users = Inr users'" and "hm_get users' u = Some h"
  shows "hm_get users u = Some h \<or> u \<in> set us \<and> h = the (hm_get configured u)"
  using assms
proof (induction us arbitrary: users)
  case (Cons v us)
  then obtain h' where n: "normalize_credential hl (salts v) (the (hm_get configured v)) False = Inr h'"
    "normalize_users hl salts False configured us (hm_insert v h' users) = Inr users'"
    by (auto split: sum.splits)
  then show ?case using Cons.IH [OF n(2) Cons.prems(2)] by (auto simp: normalize_strict hm_get_insert split: if_splits)
qed simp

lemma btree_keys_set [simp]: "set (btree_keys m) = fst ` set m"
  by (simp add: btree_keys_def)

lemma store_entries_configured:
  assumes "resolve_credential_store hl salts ps w = Inr store" and "\<not> local_like_environment (out_env w)"
    and "hm_get store u = Some h"
  shows "is_valid_password_hash hl h \<and>
    ((\<exists>m. login_users ps w = Inr (Some m) \<and> hm_get m u = Some h) \<or>
     h = (case read_var w ''KRAB_AUTH_BOOTSTRAP_PASSWORD'' of Inr (Some v) \<Rightarrow> v | _ \<Rightarrow> INSECURE_DEV_BOOTSTRAP_PASSWORD))"
proof -
  obtain configured where c: "login_users ps w = Inr configured"
    using assms(1) by (auto simp: resolve_credential_store_def Let_def split: sum.splits)
  define base where "base = (case configured of None \<Rightarrow> Inr []
    | Some m \<Rightarrow> normalize_users hl salts False m (btree_keys m) [])"
  obtain users where b: "base = Inr users"
    using assms(1,2) c by (auto simp: resolve_credential_store_def Let_def base_def split: sum.splits)
  have from_users: "\<exists>m. login_users ps w = Inr (Some m) \<and> hm_get m u = Some h" if "hm_get users u = Some h"
  proof (cases configured)
    case None
    with b that show ?thesis by (simp add: base_def)
  next
    case (Some m)
    then have "u \<in> set (btree_keys m) \<and> h = the (hm_get m u)"
      using normalize_users_strict [of hl salts m "btree_keys m" "[]" users u h] b that by (simp add: base_def)
    then have "hm_get m u = Some h" by (metis btree_keys_set hm_contains_def hm_contains_iff option.exhaust_sel)
    with c Some show ?thesis by blast
  qed
  have step: "store = users \<or> (\<exists>du h'. store = hm_insert du h' users \<and>
      h' = (case read_var w ''KRAB_AUTH_BOOTSTRAP_PASSWORD'' of Inr (Some v) \<Rightarrow> v | _ \<Rightarrow> INSECURE_DEV_BOOTSTRAP_PASSWORD))"
    "credentials_from_map hl store = Inr store"
    using assms(1,2) c b
    by (auto simp: resolve_credential_store_def Let_def base_def [symmetric] normalize_strict credentials_from_map_def
        simp del: hm_contains_iff split: sum.splits option.splits if_splits prod.splits)
  have "is_valid_password_hash hl h" using credentials_from_map_valid [OF step(2) assms(3)] .
  then show ?thesis using step(1) assms(3) from_users by (auto simp: hm_get_insert split: if_splits)
qed


lemma mounted_secret:
  assumes "check_mounted_secret w name mounts insecure = Inr ()"
  shows "list_ex (\<lambda>v. env_non_empty (out_env w) v \<noteq> None) mounts \<and>
    (\<exists>secret. read_var w name = Inr secret \<and> (\<forall>s. secret = Some s \<longrightarrow> trim s \<noteq> [] \<and> s \<noteq> insecure))"
  using assms by (auto simp: check_mounted_secret_def split: sum.splits option.splits if_splits)

lemma started_checks:
  assumes "bootstrap_auth_service pj hl salts ps w = Inr svc" and "\<not> local_like_environment (out_env w)"
  shows "pc_default_protocol (as_protocol svc) = Rest \<and> list_all (\<lambda>p. p = Rest) (pc_enabled_protocols (as_protocol svc)) \<and>
    check_mounted_secret w ''KRAB_JWT_SECRET'' KEY_MOUNTS INSECURE_DEV_JWT_SECRET = Inr () \<and>
    check_mounted_secret w ''KRAB_AUTH_BOOTSTRAP_PASSWORD'' LOGIN_MOUNTS INSECURE_DEV_BOOTSTRAP_PASSWORD = Inr () \<and>
    resolve_credential_store hl salts ps w = Inr (as_credentials svc)"
proof -
  obtain cfg report where c: "from_env_checked (out_env w) ''auth'' 3001 = Inr cfg" "validate_all w cfg = Inr report"
    "check_auth_mode hl ps w = Inr ()" "resolve_credential_store hl salts ps w = Inr (as_credentials svc)"
    and p: "pc_default_protocol (as_protocol svc) = Rest" "list_all (\<lambda>p. p = Rest) (pc_enabled_protocols (as_protocol svc))"
    using assms(1) by (auto simp: bootstrap_auth_service_def Let_def split: sum.splits if_splits)
  have cfg: "sc_environment cfg \<noteq> Dev" "hc_auth_mode (sc_http cfg) = env_or (out_env w) ''KRAB_AUTH_MODE'' ''jwt''"
    using c(1) assms(2)
    by (auto simp: from_env_checked_def http_config_from_env_def local_like_iff map_sum_Inr)
  have "eq_ignore_ascii_case (env_or (out_env w) ''KRAB_AUTH_MODE'' ''jwt'') ''jwt'' \<or>
      eq_ignore_ascii_case (env_or (out_env w) ''KRAB_AUTH_MODE'' ''jwt'') ''oidc''"
    using c(2) cfg by (auto simp: validate_all_def validate_def Let_def split: sum.splits if_splits)
  with c(3) assms(2) have
    "check_mounted_secret w ''KRAB_JWT_SECRET'' KEY_MOUNTS INSECURE_DEV_JWT_SECRET = Inr ()"
    "check_mounted_secret w ''KRAB_AUTH_BOOTSTRAP_PASSWORD'' LOGIN_MOUNTS INSECURE_DEV_BOOTSTRAP_PASSWORD = Inr ()"
    by (auto simp: check_auth_mode_def Let_def split: sum.splits if_splits)
  with c(4) p show ?thesis by blast
qed

lemma mounted_key_ring:
  assumes "check_mounted_secret w ''KRAB_JWT_SECRET'' KEY_MOUNTS INSECURE_DEV_JWT_SECRET = Inr ()"
    and "key_ring_from_env ps w = Inr ring" and "read_var w ''KRAB_JWT_KEYS_JSON'' = Inr None" and "hm_get (kr_keys ring) k = Some secret"
  shows "trim secret \<noteq> [] \<and> secret \<noteq> INSECURE_DEV_JWT_SECRET"
proof -
  obtain s where s: "read_var w ''KRAB_JWT_SECRET'' = Inr s" "\<forall>v. s = Some v \<longrightarrow> trim v \<noteq> [] \<and> v \<noteq> INSECURE_DEV_JWT_SECRET"
    and m: "list_ex (\<lambda>v. env_non_empty (out_env w) v \<noteq> None) KEY_MOUNTS"
    using mounted_secret [OF assms(1)] by blast
  have "s \<noteq> None"
  proof
    assume "s = None"
    with s(1) have "read_var w ''KRAB_JWT_SECRET'' = Inr None" by simp
    from read_var_None [OF assms(3)] read_var_None [OF this] m show False by (simp add: KEY_MOUNTS_def)
  qed
  then obtain v where v: "s = Some v" by blast
  have r: "read_env_or_file (out_env w) (out_fs w) ''KRAB_JWT_KEYS_JSON'' = Inr None"
    "read_env_or_file (out_env w) (out_fs w) ''KRAB_JWT_SECRET'' = Inr (Some v)"
    using assms(3) s(1) v by (simp_all add: read_var_def map_sum_Inr)
  have "kr_keys ring = [(''default'', v)]" using assms(2) r by (auto simp: key_ring_from_env_def Let_def)
  then show ?thesis using assms(4) s(2) v by (auto split: if_splits)
qed

text \<open>
  a token service that starts outside a local environment has no built-in or plaintext secret to fall
  back on. Its users verify against Argon2 hashes that were configured as such (never one made from a
  plaintext at startup, never the default password); a key ring built from the single secret does not hold the
  default or a blank one; both kinds of secret are mounted; and only REST is enabled.
\<close>

theorem started_service_has_no_default_secret:
  assumes "bootstrap_auth_service pj hl salts ps w = Inr svc" and "\<not> local_like_environment (out_env w)"
    and "\<not> is_valid_password_hash hl INSECURE_DEV_BOOTSTRAP_PASSWORD"
  shows "(\<forall>u h. hm_get (as_credentials svc) u = Some h \<longrightarrow>
           is_valid_password_hash hl h \<and>
           ((\<exists>m. login_users ps w = Inr (Some m) \<and> hm_get m u = Some h) \<or> read_var w ''KRAB_AUTH_BOOTSTRAP_PASSWORD'' = Inr (Some h))) \<and>
         (\<forall>ring k secret. key_ring_from_env ps w = Inr ring \<and> read_var w ''KRAB_JWT_KEYS_JSON'' = Inr None \<and>
            hm_get (kr_keys ring) k = Some secret \<longrightarrow> trim secret \<noteq> [] \<and> secret \<noteq> INSECURE_DEV_JWT_SECRET) \<and>
         (\<exists>v \<in> set KEY_MOUNTS. env_non_empty (out_env w) v \<noteq> None) \<and> (\<exists>v \<in> set LOGIN_MOUNTS. env_non_empty (out_env w) v \<noteq> None) \<and>
         list_all (\<lambda>p. p = Rest) (pc_enabled_protocols (as_protocol svc))"
proof -
  note c = started_checks [OF assms(1,2)]
  have "is_valid_password_hash hl h \<and>
      ((\<exists>m. login_users ps w = Inr (Some m) \<and> hm_get m u = Some h) \<or> read_var w ''KRAB_AUTH_BOOTSTRAP_PASSWORD'' = Inr (Some h))"
    if "hm_get (as_credentials svc) u = Some h" for u h
    using store_entries_configured [of hl salts ps w "as_credentials svc" u h] c assms(2,3) that
    by (auto split: sum.splits option.splits)
  moreover have "trim secret \<noteq> [] \<and> secret \<noteq> INSECURE_DEV_JWT_SECRET"
    if "key_ring_from_env ps w = Inr ring \<and> read_var w ''KRAB_JWT_KEYS_JSON'' = Inr None \<and> hm_get (kr_keys ring) k = Some secret"
    for ring :: key_ring and k secret
    using mounted_key_ring [of w ps ring k secret] c that by blast
  moreover have "\<exists>v \<in> set KEY_MOUNTS. env_non_empty (out_env w) v \<noteq> None" "\<exists>v \<in> set LOGIN_MOUNTS. env_non_empty (out_env w) v \<noteq> None"
    unfolding list_ex_iff [symmetric]
    using c mounted_secret [of w "''KRAB_JWT_SECRET''" KEY_MOUNTS] mounted_secret [of w "''KRAB_AUTH_BOOTSTRAP_PASSWORD''" LOGIN_MOUNTS]
    by blast+
  ultimately show ?thesis using c by metis
qed


definition sample_auth_env :: environment where
  "sample_auth_env = map_of [(''KRAB_ENVIRONMENT'', ''prod''), (''KRAB_CORS_ORIGINS'', ''https://a''),
     (''KRAB_OIDC_ISSUER'', ''https://id''), (''KRAB_OIDC_AUDIENCE'', ''api''), (''KRAB_JWT_SECRET_FILE'', ''/s''),
     (''KRAB_AUTH_BOOTSTRAP_PASSWORD_FILE'', ''/p'')]"

definition sample_auth_world :: outside where
  "sample_auth_world = \<lparr>out_env = sample_auth_env, out_fs = map_of [(''/s'', ''k1''), (''/p'', ''h'')], out_json = \<lambda>_. None\<rparr>"

definition sample_parsers :: auth_parsers where
  "sample_parsers = \<lparr>ps_string_map = \<lambda>_. None, ps_value_map = \<lambda>_. None, ps_providers = \<lambda>_. None, ps_policies = \<lambda>_. None, ps_show_json = \<lambda>_. []\<rparr>"

lemma sample_started:
  "map_sum id as_credentials (bootstrap_auth_service (\<lambda>_. None) sample_hash_lib (\<lambda>_. ''salt'') sample_parsers sample_auth_world) =
     Inr [(''admin'', ''h'')]"
  by code_simp

lemma started_service_has_no_default_secret_witness:
  "is_valid_password_hash sample_hash_lib ''h'' \<and> read_var sample_auth_world ''KRAB_AUTH_BOOTSTRAP_PASSWORD'' = Inr (Some ''h'')"
proof -
  obtain svc where s: "bootstrap_auth_service (\<lambda>_. None) sample_hash_lib (\<lambda>_. ''salt'') sample_parsers sample_auth_world = Inr svc"
    "as_credentials svc = [(''admin'', ''h'')]"
    using sample_started by (auto simp: map_sum_Inr)
  have "\<not> local_like_environment (out_env sample_auth_world)"
    "\<not> is_valid_password_hash sample_hash_lib INSECURE_DEV_BOOTSTRAP_PASSWORD"
    "login_users sample_parsers sample_auth_world = Inr None"
    by code_simp+
  from started_service_has_no_default_secret [OF s(1) this(1,2)] this(3) s(2) show ?thesis by simp
qed

end
