(* ===== verification/HtmlEscape.thy ===== *)
theory HtmlEscape
  imports KrabPrelude
begin

text \<open>
  The escaping functions of \<open>krab_core/src/lib.rs\<close>: attribute values, text, the raw text of \<open>script\<close>
  and \<open>style\<close> elements, comments, and the names of attributes. A loop over byte offsets into a string
  is a recursion over the rest of that string.
\<close>

subsection \<open>Text and attribute values\<close>

text \<open>\<open>str::replace\<close> of a character, and of two dashes.\<close>

definition replace_char :: "char \<Rightarrow> string \<Rightarrow> string \<Rightarrow> string" where
  "replace_char c t s = concat (map (\<lambda>x. if x = c then t else [x]) s)"

definition escape_html_attr :: "string \<Rightarrow> string" where
  "escape_html_attr s =
     replace_char (CHR ''>'') ''&gt;''
       (replace_char (CHR ''<'') ''&lt;''
         (replace_char (CHR 0x22) ''&quot;''
           (replace_char (CHR ''&'') ''&amp;'' s)))"

definition escape_html_text :: "string \<Rightarrow> string" where
  "escape_html_text s =
     replace_char (CHR ''>'') ''&gt;''
       (replace_char (CHR ''<'') ''&lt;''
         (replace_char (CHR ''&'') ''&amp;'' s))"

subsection \<open>Raw text\<close>

definition is_raw_text_element :: "string \<Rightarrow> bool" where
  "is_raw_text_element tag = (eq_ignore_ascii_case tag ''script'' \<or> eq_ignore_ascii_case tag ''style'')"

text \<open>\<open>str::find\<close>: the offset of the first occurrence.\<close>

definition find_str :: "string \<Rightarrow> string \<Rightarrow> nat option" where
  "find_str pat s = map_option (\<lambda>(before, after). length before) (split_seq pat s)"

text \<open>The next place to rewrite: its offset, and whether it is a closing tag.\<close>

definition next_rewrite :: "string \<Rightarrow> bool \<Rightarrow> string \<Rightarrow> (nat \<times> bool) option" where
  "next_rewrite close is_script lower =
     (let next_close = map_option (\<lambda>i. (i, True)) (find_str close lower);
          next_comment = (if is_script then map_option (\<lambda>i. (i, False)) (find_str ''<!--'' lower) else None)
      in case (next_close, next_comment) of
           (Some a, Some b) \<Rightarrow> Some (if fst a \<le> fst b then a else b)
         | (a, b) \<Rightarrow> (case a of Some _ \<Rightarrow> a | None \<Rightarrow> b))"

lemma next_rewrite_eq:
  "next_rewrite close is_script lower =
     (case (find_str close lower, if is_script then find_str ''<!--'' lower else None) of
        (Some i, Some j) \<Rightarrow> Some (if i \<le> j then (i, True) else (j, False))
      | (Some i, None) \<Rightarrow> Some (i, True)
      | (None, Some j) \<Rightarrow> Some (j, False)
      | (None, None) \<Rightarrow> None)"
  by (auto simp: next_rewrite_def Let_def split: option.splits)

lemma split_seq_Some:
  "split_seq d s = Some (a, b) \<Longrightarrow> s = a @ d @ b"
  by (induction s arbitrary: a) (auto simp: prefix_def split: if_splits)

lemma find_str_bound: "find_str pat s = Some i \<Longrightarrow> i + length pat \<le> length s"
  by (auto simp: find_str_def dest!: split_seq_Some)

lemma next_rewrite_bound:
  "next_rewrite close is_script lower = Some (i, b) \<Longrightarrow> i + (if b then length close else 4) \<le> length lower"
  using find_str_bound [of close lower] find_str_bound [of "''<!--''" lower]
  by (auto simp: next_rewrite_eq split: option.splits if_splits)

text \<open>The loop of \<open>escape_raw_text\<close> on the content from the cursor on.\<close>

function escape_raw_loop :: "string \<Rightarrow> bool \<Rightarrow> string \<Rightarrow> string" where
  "escape_raw_loop tag_lower is_script content =
     (let close = ''</'' @ tag_lower
      in case next_rewrite close is_script (ascii_lower content) of
           None \<Rightarrow> content
         | Some (i, True) \<Rightarrow>
             take i content @ ''<'' @ [CHR 0x5C] @ ''/'' @ take (length close - 2) (drop (i + 2) content) @
             escape_raw_loop tag_lower is_script (drop (i + length close) content)
         | Some (i, False) \<Rightarrow>
             take i content @ [CHR 0x5C] @ ''u003C!--'' @ escape_raw_loop tag_lower is_script (drop (i + 4) content))"
  by pat_completeness auto

termination
proof (relation "measure (\<lambda>(_, _, content). length content)", goal_cases)
  case 1
  show ?case by simp
next
  case (2 tag_lower is_script content close x i b)
  then show ?case using next_rewrite_bound [of close is_script "ascii_lower content" i True]
    by (auto simp: ascii_lower_def)
next
  case (3 tag_lower is_script content close x i b)
  then show ?case using next_rewrite_bound [of close is_script "ascii_lower content" i False]
    by (auto simp: ascii_lower_def)
qed

declare escape_raw_loop.simps [simp del]

definition escape_raw_text :: "string \<Rightarrow> string \<Rightarrow> string" where
  "escape_raw_text tag content =
     (let tag_lower = ascii_lower tag in escape_raw_loop tag_lower (tag_lower = ''script'') content)"

subsection \<open>Comments\<close>

fun replace_dashes :: "string \<Rightarrow> string" where
  "replace_dashes (a # b # s) =
     (if a = CHR ''-'' \<and> b = CHR ''-'' then ''- -'' @ replace_dashes s else a # replace_dashes (b # s))"
| "replace_dashes s = s"

text \<open>The number of places where two dashes meet: each round of the loop lowers it.\<close>

fun dash_pairs :: "string \<Rightarrow> nat" where
  "dash_pairs (a # b # s) = (if a = CHR ''-'' \<and> b = CHR ''-'' then 1 else 0) + dash_pairs (b # s)"
| "dash_pairs s = 0"

lemma dash_pairs_Cons:
  "dash_pairs (a # s) = (if a = CHR ''-'' \<and> s \<noteq> [] \<and> hd s = CHR ''-'' then 1 else 0) + dash_pairs s"
  by (cases s) auto

lemma hd_replace_dashes: "s \<noteq> [] \<Longrightarrow> replace_dashes s \<noteq> [] \<and> hd (replace_dashes s) = hd s"
  by (induction s rule: replace_dashes.induct) auto

lemma str_contains_simps [simp]:
  "str_contains [] d \<longleftrightarrow> d = []"
  "str_contains (c # s) d \<longleftrightarrow> prefix d (c # s) \<or> str_contains s d"
  by (auto simp: str_contains_def)

lemma contains_dashes: "str_contains s ''--'' \<longleftrightarrow> dash_pairs s > 0"
  by (induction s rule: dash_pairs.induct) auto

lemma dash_pairs_replace: "dash_pairs (replace_dashes s) \<le> dash_pairs s"
proof (induction s rule: replace_dashes.induct)
  case (1 a b s)
  then show ?case using hd_replace_dashes [of s] hd_replace_dashes [of "b # s"]
    by (cases "s = []") (auto simp: dash_pairs_Cons)
qed auto

lemma dash_pairs_replace_less: "dash_pairs s > 0 \<Longrightarrow> dash_pairs (replace_dashes s) < dash_pairs s"
proof (induction s rule: replace_dashes.induct)
  case (1 a b s)
  then show ?case using hd_replace_dashes [of s] hd_replace_dashes [of "b # s"] dash_pairs_replace [of s]
    by (cases "s = []") (auto simp: dash_pairs_Cons split: if_splits)
qed auto

function split_dashes :: "string \<Rightarrow> string" where
  "split_dashes out = (if str_contains out ''--'' then split_dashes (replace_dashes out) else out)"
  by pat_completeness auto

termination
  by (relation "measure dash_pairs") (auto simp: contains_dashes dash_pairs_replace_less)

declare split_dashes.simps [simp del]

definition sanitize_comment :: "string \<Rightarrow> string" where
  "sanitize_comment text =
     (let out = split_dashes text;
          out = (if starts_with out ''>'' \<or> starts_with out ''->'' then CHR '' '' # out else out)
      in if ends_with out ''-'' \<or> ends_with out ''<!'' then out @ '' '' else out)"

subsection \<open>Attribute names\<close>

definition is_ascii_alpha :: "char \<Rightarrow> bool" where
  "is_ascii_alpha c = (let k = of_char c :: nat in (65 \<le> k \<and> k \<le> 90) \<or> (97 \<le> k \<and> k \<le> 122))"

definition is_ascii_alnum :: "char \<Rightarrow> bool" where
  "is_ascii_alnum c = (is_ascii_alpha c \<or> (let k = of_char c :: nat in 48 \<le> k \<and> k \<le> 57))"

definition is_valid_attr_name :: "string \<Rightarrow> bool" where
  "is_valid_attr_name name =
     (case name of
        [] \<Rightarrow> False
      | c # chars \<Rightarrow>
          (is_ascii_alpha c \<or> c = CHR ''_'' \<or> c = CHR '':'') \<and>
          list_all (\<lambda>c. is_ascii_alnum c \<or> c = CHR ''-'' \<or> c = CHR ''_'' \<or> c = CHR '':'' \<or> c = CHR ''.'') chars)"


subsection \<open>Escaped text\<close>

lemma replace_char_Nil [simp]: "replace_char c t [] = []"
  by (simp add: replace_char_def)

lemma replace_char_Cons [simp]: "replace_char c t (x # s) = (if x = c then t else [x]) @ replace_char c t s"
  by (simp add: replace_char_def)

lemma replace_char_append: "replace_char c t (a @ b) = replace_char c t a @ replace_char c t b"
  by (simp add: replace_char_def)

definition text_ref :: "char \<Rightarrow> string" where
  "text_ref c = (if c = CHR ''&'' then ''&amp;'' else if c = CHR ''<'' then ''&lt;'' else if c = CHR ''>'' then ''&gt;'' else [c])"

definition attr_ref :: "char \<Rightarrow> string" where
  "attr_ref c = (if c = CHR 0x22 then ''&quot;'' else text_ref c)"

lemma escape_html_text_refs: "escape_html_text s = concat (map text_ref s)"
  by (induction s) (simp_all add: escape_html_text_def text_ref_def replace_char_append)

lemma escape_html_attr_refs: "escape_html_attr s = concat (map attr_ref s)"
  by (induction s) (simp_all add: escape_html_attr_def attr_ref_def text_ref_def replace_char_append)

lemma escape_html_text_chars: "c \<in> set (escape_html_text s) \<Longrightarrow> c \<noteq> CHR ''<'' \<and> c \<noteq> CHR ''>''"
  by (auto simp: escape_html_text_refs text_ref_def split: if_splits)

lemma escape_html_attr_chars: "c \<in> set (escape_html_attr s) \<Longrightarrow> c \<noteq> CHR 0x22 \<and> c \<noteq> CHR ''<'' \<and> c \<noteq> CHR ''>''"
  by (auto simp: escape_html_attr_refs attr_ref_def text_ref_def split: if_splits)

subsection \<open>Occurrences\<close>

lemma str_contains_iff: "str_contains s d \<longleftrightarrow> (\<exists>a b. s = a @ d @ b)"
proof
  assume "\<exists>a b. s = a @ d @ b"
  then obtain a b where "s = a @ d @ b" by blast
  moreover have "str_contains (a @ d @ b) d" by (induction a) (cases d; simp; cases b; simp)+
  ultimately show "str_contains s d" by simp
qed (auto simp: str_contains_def dest: split_seq_Some)

lemma str_contains_set: "str_contains s d \<Longrightarrow> set d \<subseteq> set s"
  by (auto simp: str_contains_iff)

lemma find_str_None: "find_str d s = None \<longleftrightarrow> \<not> str_contains s d"
  by (cases "split_seq d s") (auto simp: find_str_def str_contains_def)

lemma str_contains_mono: "str_contains s d \<Longrightarrow> str_contains (a @ s @ b) d"
  unfolding str_contains_iff by (metis append.assoc)

lemma split_seq_first: "split_seq d s = Some (a, b) \<Longrightarrow> d \<noteq> [] \<Longrightarrow> \<not> str_contains a d"
proof (induction s arbitrary: a)
  case (Cons c s)
  show ?case
  proof (cases "prefix d (c # s)")
    case False
    with Cons.prems obtain a' where a': "a = c # a'" "split_seq d s = Some (a', b)" by auto
    have "s = a' @ d @ b" by (rule split_seq_Some [OF a'(2)])
    then have "\<not> prefix d (c # a')" using False prefix_prefix [of d "c # a'" "d @ b"] by auto
    with a' Cons.IH [OF a'(2) Cons.prems(2)] show ?thesis by simp
  qed (use Cons.prems in auto)
qed simp

lemma find_str_first:
  assumes "find_str d s = Some i" and "d \<noteq> []" and "k \<le> i"
  shows "\<not> str_contains (take k s) d"
proof -
  from assms(1) obtain a b where ab: "split_seq d s = Some (a, b)" "i = length a" by (auto simp: find_str_def)
  have "take k s = take k a" using split_seq_Some [OF ab(1)] ab(2) assms(3) by simp
  moreover have "\<not> str_contains (take k a) d"
    using split_seq_first [OF ab(1) assms(2)] str_contains_mono [of "take k a" d "[]" "drop k a"] by auto
  ultimately show ?thesis by simp
qed

text \<open>A character that a pattern has only at its start separates the occurrences on its two sides.\<close>

lemma prefix_barrier: "c \<notin> set p \<Longrightarrow> prefix p (a @ c # b) \<longleftrightarrow> prefix p a"
proof (induction p arbitrary: a)
  case (Cons x p)
  then show ?case by (cases a) auto
qed simp

lemma str_contains_barrier:
  assumes "c \<notin> set q"
  shows "str_contains (a @ c # b) (x # q) \<longleftrightarrow> str_contains a (x # q) \<or> str_contains (c # b) (x # q)"
proof (induction a)
  case (Cons y a)
  then show ?case using prefix_barrier [OF assms, of a b] by auto
qed simp

lemma str_contains_skip: "x \<notin> set a \<Longrightarrow> str_contains (a @ b) (x # q) \<longleftrightarrow> str_contains b (x # q)"
  by (induction a) auto

subsection \<open>Raw text cannot close its element\<close>

lemma ascii_lower_append [simp]: "ascii_lower (a @ b) = ascii_lower a @ ascii_lower b"
  by (simp add: ascii_lower_def)

lemma ascii_lower_Nil [simp]: "ascii_lower [] = []"
  by (simp add: ascii_lower_def)

lemma ascii_lower_Cons:
  "ascii_lower (c # s) = (let k = of_char c :: nat in if 65 \<le> k \<and> k \<le> 90 then char_of (k + 32) else c) # ascii_lower s"
  by (simp add: ascii_lower_def)

lemma char_of_99: "(char_of (99 :: nat) :: char) = CHR ''c''"
  by code_simp

lemma ascii_lower_take: "ascii_lower (take n s) = take n (ascii_lower s)"
  by (simp add: ascii_lower_def take_map)

lemma ascii_lower_drop: "ascii_lower (drop n s) = drop n (ascii_lower s)"
  by (simp add: ascii_lower_def drop_map)

lemma find_str_at:
  assumes "find_str d s = Some i"
  shows "take (length d) (drop i s) = d"
  using assms by (auto simp: find_str_def dest!: split_seq_Some)

text \<open>The sequences a tokenizer acts on inside the element.\<close>

definition raw_marker :: "string \<Rightarrow> bool \<Rightarrow> string \<Rightarrow> bool" where
  "raw_marker tag_lower is_script p = (p = ''</'' @ tag_lower \<or> is_script \<and> p = ''<!--'')"

lemma str_contains_take: "\<not> str_contains s d \<Longrightarrow> \<not> str_contains (take k s) d"
  using str_contains_mono [of "take k s" d "[]" "drop k s"] by auto

lemma next_rewrite_first:
  assumes "next_rewrite (''</'' @ tag) is_script lower = Some (i, b)" and "raw_marker tag is_script p"
  shows "\<not> str_contains (take i lower) p"
  using assms find_str_first [of "''</'' @ tag" lower _ i] find_str_first [of "''<!--''" lower _ i]
  by (auto simp: next_rewrite_eq raw_marker_def find_str_None str_contains_take split: option.splits if_splits)

lemma raw_marker_Cons:
  assumes "raw_marker tag is_script p" and "CHR ''<'' \<notin> set tag" and "CHR 0x5C \<notin> set tag"
  obtains x q where "p = CHR ''<'' # x # q" "CHR ''<'' \<notin> set (x # q)" "CHR 0x5C \<notin> set (x # q)"
proof (cases "p = ''<!--''")
  case True
  show ?thesis by (rule that [of "CHR ''!''" "''--''"]) (simp_all add: True)
next
  case False
  then have "p = CHR ''<'' # CHR ''/'' # tag" using assms(1) by (simp add: raw_marker_def)
  then show ?thesis by (rule that) (use assms(2,3) in simp_all)
qed

lemma escape_raw_loop_safe:
  assumes "raw_marker tag is_script p" and "CHR ''<'' \<notin> set tag" and "CHR 0x5C \<notin> set tag"
  shows "\<not> str_contains (ascii_lower (escape_raw_loop tag is_script content)) p"
  using assms
proof (induction tag is_script content rule: escape_raw_loop.induct)
  case (1 tag is_script content)
  let ?close = "''</'' @ tag" and ?lower = "ascii_lower content"
  obtain x q where p: "p = CHR ''<'' # x # q" "CHR ''<'' \<notin> set (x # q)" "CHR 0x5C \<notin> set (x # q)"
    using raw_marker_Cons [OF "1.prems"] .
  show ?case
  proof (cases "next_rewrite ?close is_script ?lower")
    case None
    then show ?thesis using "1.prems"(1)
      by (subst escape_raw_loop.simps)
        (auto simp: Let_def next_rewrite_eq raw_marker_def find_str_None split: option.splits if_splits)
  next
    case (Some r)
    then obtain i b where r: "next_rewrite ?close is_script ?lower = Some (i, b)" by (cases r) auto
    have start: "\<not> str_contains (take i ?lower) p" by (rule next_rewrite_first [OF r "1.prems"(1)])
    show ?thesis
    proof (cases b)
      case True
      then have True': "b = True" by simp
      let ?name = "take (length ?close - 2) (drop (i + 2) content)"
        and ?rest = "escape_raw_loop tag is_script (drop (i + length ?close) content)"
      from r True have "find_str ?close ?lower = Some i"
        by (auto simp: next_rewrite_eq split: option.splits if_splits)
      from find_str_at [OF this] have "take (length ?close - 2) (drop 2 (drop i ?lower)) = tag"
        by (metis append_eq_conv_conj drop_take length_Cons list.size(3) numeral_2_eq_2)
      then have name: "ascii_lower ?name = tag" by (simp add: ascii_lower_take ascii_lower_drop add.commute)
      have rest: "\<not> str_contains (ascii_lower ?rest) p"
        by (rule "1.IH"(1) [OF refl r [unfolded True'] refl]) (use "1.prems" in simp_all)
      have "str_contains (ascii_lower (escape_raw_loop tag is_script content)) p \<longleftrightarrow>
          str_contains (take i ?lower @ CHR ''<'' # (CHR 0x5C # CHR ''/'' # tag) @ ascii_lower ?rest) p"
        using r True name
        by (subst escape_raw_loop.simps) (simp add: Let_def ascii_lower_Cons flip: ascii_lower_take)
      also have "\<dots> \<longleftrightarrow> str_contains ((CHR 0x5C # CHR ''/'' # tag) @ ascii_lower ?rest) p"
        using start p by (simp add: str_contains_barrier del: str_contains_simps) auto
      also have "\<dots> \<longleftrightarrow> str_contains (ascii_lower ?rest) p"
        unfolding p by (rule str_contains_skip) (use "1.prems" in auto)
      finally show ?thesis using rest by simp
    next
      case False
      then have False': "b = False" by simp
      let ?rest = "escape_raw_loop tag is_script (drop (i + 4) content)"
      have rest: "\<not> str_contains (ascii_lower ?rest) p"
        by (rule "1.IH"(2) [OF refl r [unfolded False'] refl]) (use "1.prems" in simp_all)
      have "str_contains (ascii_lower (escape_raw_loop tag is_script content)) p \<longleftrightarrow>
          str_contains (take i ?lower @ CHR 0x5C # ''u003c!--'' @ ascii_lower ?rest) p"
        using r False
        by (subst escape_raw_loop.simps) (simp add: Let_def ascii_lower_Cons char_of_99 flip: ascii_lower_take)
      also have "\<dots> \<longleftrightarrow> str_contains ((CHR 0x5C # ''u003c!--'') @ ascii_lower ?rest) p"
        using start p by (simp add: str_contains_barrier del: str_contains_simps)
      also have "\<dots> \<longleftrightarrow> str_contains (ascii_lower ?rest) p"
        unfolding p by (rule str_contains_skip) simp
      finally show ?thesis using rest by simp
    qed
  qed
qed

text \<open>Lower-casing neither creates nor removes occurrences of a pattern without letters.\<close>

lemma ascii_lower_eq_char:
  assumes "(of_char c :: nat) < 65"
  shows "(let k = of_char d :: nat in if 65 \<le> k \<and> k \<le> 90 then char_of (k + 32) else d) = c \<longleftrightarrow> d = c"
proof (cases "65 \<le> (of_char d :: nat) \<and> (of_char d :: nat) \<le> 90")
  case True
  then have "(of_char (char_of (of_char d + 32 :: nat)) :: nat) = of_char d + 32" by simp
  then show ?thesis using True assms by (metis (full_types) not_less trans_le_add1)
qed auto

lemma prefix_ascii_lower: "\<forall>c \<in> set p. (of_char c :: nat) < 65 \<Longrightarrow> prefix p (ascii_lower s) \<longleftrightarrow> prefix p s"
proof (induction p arbitrary: s)
  case (Cons c p)
  then show ?case by (cases s) (simp_all add: ascii_lower_Cons ascii_lower_eq_char [of c] eq_commute [of c])
qed simp

lemma contains_ascii_lower:
  "\<forall>c \<in> set p. (of_char c :: nat) < 65 \<Longrightarrow> p \<noteq> [] \<Longrightarrow> str_contains (ascii_lower s) p \<longleftrightarrow> str_contains s p"
proof (induction s)
  case (Cons c s)
  then show ?case using prefix_ascii_lower [of p "c # s"] by (simp add: ascii_lower_Cons)
qed simp

lemma lower_marker: "str_contains (ascii_lower s) ''<!--'' \<longleftrightarrow> str_contains s ''<!--''"
  by (rule contains_ascii_lower) auto

lemma escape_raw_loop_id:
  assumes "\<And>p. raw_marker tag is_script p \<Longrightarrow> \<not> str_contains (ascii_lower content) p"
  shows "escape_raw_loop tag is_script content = content"
proof -
  have "next_rewrite (''</'' @ tag) is_script (ascii_lower content) = None"
    using assms [of "''</'' @ tag"] assms [of "''<!--''"] find_str_None [of "''</'' @ tag" "ascii_lower content"]
      find_str_None [of "''<!--''" "ascii_lower content"]
    by (auto simp: next_rewrite_eq raw_marker_def)
  then show ?thesis by (subst escape_raw_loop.simps) (simp add: Let_def)
qed

lemma raw_text_escaped:
  assumes "is_raw_text_element tag"
  shows "\<not> str_contains (ascii_lower (escape_raw_text tag content)) (''</'' @ ascii_lower tag)"
    and "ascii_lower tag = ''script'' \<longrightarrow> \<not> str_contains (escape_raw_text tag content) ''<!--''"
proof -
  let ?tag = "ascii_lower tag" and ?script = "ascii_lower tag = ''script''"
  have "ascii_lower ''script'' = ''script''" "ascii_lower ''style'' = ''style''" by code_simp+
  then have tag: "?tag = ''script'' \<or> ?tag = ''style''"
    using assms by (auto simp: is_raw_text_element_def eq_ignore_ascii_case_def)
  then have clean: "CHR ''<'' \<notin> set ?tag" "CHR 0x5C \<notin> set ?tag" by auto
  note safe = escape_raw_loop_safe [OF _ clean, of ?script]
  show "\<not> str_contains (ascii_lower (escape_raw_text tag content)) (''</'' @ ?tag)"
    unfolding escape_raw_text_def Let_def by (rule safe) (simp add: raw_marker_def)
  show "?script \<longrightarrow> \<not> str_contains (escape_raw_text tag content) ''<!--''"
    using safe [of "''<!--''" content] by (simp add: escape_raw_text_def Let_def raw_marker_def lower_marker)
qed

text \<open>
  Nothing written into a \<open>script\<close> or \<open>style\<close> element can end it or change how it is read. The
  emitted text contains no \<open></script\<close> (\<open></style\<close>) in any letter case, and inside a script no
  \<open><!--\<close>; content that has none of these is emitted unchanged.
\<close>

theorem raw_text_cannot_break_out:
  assumes "is_raw_text_element tag"
  shows "\<not> str_contains (ascii_lower (escape_raw_text tag content)) (''</'' @ ascii_lower tag) \<and>
    (ascii_lower tag = ''script'' \<longrightarrow> \<not> str_contains (escape_raw_text tag content) ''<!--'') \<and>
    (\<not> str_contains (ascii_lower content) (''</'' @ ascii_lower tag) \<and>
     (ascii_lower tag = ''script'' \<longrightarrow> \<not> str_contains content ''<!--'') \<longrightarrow> escape_raw_text tag content = content)"
proof -
  have "escape_raw_text tag content = content"
    if "\<not> str_contains (ascii_lower content) (''</'' @ ascii_lower tag)"
      "ascii_lower tag = ''script'' \<longrightarrow> \<not> str_contains content ''<!--''"
    unfolding escape_raw_text_def Let_def
    by (rule escape_raw_loop_id) (use that in \<open>auto simp: raw_marker_def lower_marker\<close>)
  with raw_text_escaped [OF assms] show ?thesis by blast
qed

lemma raw_text_cannot_break_out_witness:
  "\<not> str_contains (ascii_lower (escape_raw_text ''script'' ''a</SCRIPT>b'')) ''</script'' \<and>
   escape_raw_text ''style'' ''a > b'' = ''a > b''"
proof -
  have raw: "is_raw_text_element ''script''" "is_raw_text_element ''style''"
    and lower: "ascii_lower ''script'' = ''script''" "ascii_lower ''style'' = ''style''" "ascii_lower ''a > b'' = ''a > b''"
    by code_simp+
  show ?thesis
    using raw_text_cannot_break_out [OF raw(1), of "''a</SCRIPT>b''"] raw_text_cannot_break_out [OF raw(2), of "''a > b''"]
    by (simp add: lower)
qed

lemma raw_text_nothing: "escape_raw_text tag [] = []"
  by (simp add: escape_raw_text_def Let_def escape_raw_loop.simps next_rewrite_eq find_str_def)

subsection \<open>Comments cannot be left\<close>

lemma split_dashes_clean: "\<not> str_contains (split_dashes s) ''--''"
  by (induction s rule: split_dashes.induct) (subst split_dashes.simps; simp)

lemma replace_dashes_id: "\<not> str_contains s ''--'' \<Longrightarrow> replace_dashes s = s"
  by (induction s rule: replace_dashes.induct) auto

lemma sanitize_comment_safe:
  "\<not> str_contains (sanitize_comment s) ''--'' \<and> \<not> starts_with (sanitize_comment s) ''>'' \<and>
   \<not> starts_with (sanitize_comment s) ''->'' \<and> \<not> ends_with (sanitize_comment s) ''-'' \<and> \<not> ends_with (sanitize_comment s) ''<!''"
proof -
  define o1 where "o1 = split_dashes s"
  define o2 where "o2 = (if starts_with o1 ''>'' \<or> starts_with o1 ''->'' then CHR '' '' # o1 else o1)"
  have out: "sanitize_comment s = (if ends_with o2 ''-'' \<or> ends_with o2 ''<!'' then o2 @ '' '' else o2)"
    by (simp add: sanitize_comment_def o1_def o2_def Let_def)
  have o2: "\<not> str_contains o2 ''--''" "\<not> starts_with o2 ''>''" "\<not> starts_with o2 ''->''"
    using split_dashes_clean [of s] by (auto simp: o1_def o2_def starts_with_def)
  then have "\<not> str_contains (o2 @ '' '') ''--''"
    using str_contains_barrier [of "CHR '' ''" "''-''" o2 "[]" "CHR ''-''"] by simp
  with o2 show ?thesis by (auto simp: out starts_with_def ends_with_def prefix_append prefix_Cons Cons_eq_append_conv)
qed

end
