(* ===== verification/HtmlTokens.thy ===== *)
theory HtmlTokens
  imports HtmlEscape
begin

text \<open>
  The reference reading of HTML that the renderer is measured against: the tokenizer of the HTML
  standard, restricted to the syntax a renderer may use. Where the standard reports a parse error or
  enters a state outside this syntax (unquoted attribute values, processing instructions, abruptly
  closed comments, the escaped states of scripts) the reference gives up with \<open>None\<close>. Characters are
  tokens of their own, as in the standard, so text needs no merging.
\<close>

datatype token = StartTag string "(string \<times> string) list" | EndTag string | Char char | CommentToken string

definition html_space :: "char \<Rightarrow> bool" where
  "html_space c = (c \<in> {CHR '' '', CHR 0x09, CHR 0x0A, CHR 0x0C, CHR 0x0D})"

definition tag_char :: "char \<Rightarrow> bool" where
  "tag_char c = (\<not> html_space c \<and> c \<noteq> CHR ''/'' \<and> c \<noteq> CHR ''>'')"

definition attr_name_char :: "char \<Rightarrow> bool" where
  "attr_name_char c = (tag_char c \<and> c \<noteq> CHR ''='')"

subsection \<open>Character references\<close>

definition named_refs :: "(string \<times> char) list" where
  "named_refs = [(''amp;'', CHR ''&''), (''lt;'', CHR ''<''), (''gt;'', CHR ''>''), (''quot;'', CHR 0x22)]"

text \<open>The character a character starts to denote, and the rest.\<close>

fun read_ref :: "(string \<times> char) list \<Rightarrow> string \<Rightarrow> char \<times> string" where
  "read_ref [] s = (CHR ''&'', s)"
| "read_ref ((name, c) # refs) s = (case strip_prefix name s of Some r \<Rightarrow> (c, r) | None \<Rightarrow> read_ref refs s)"

definition read_char :: "char \<Rightarrow> string \<Rightarrow> char \<times> string" where
  "read_char c s = (if c = CHR ''&'' then read_ref named_refs s else (c, s))"

lemma strip_prefix_length: "strip_prefix p s = Some r \<Longrightarrow> length r \<le> length s"
  by (auto simp: strip_prefix_Some)

lemma read_ref_length: "length (snd (read_ref refs s)) \<le> length s"
  by (induction refs s rule: read_ref.induct) (auto split: option.splits dest: strip_prefix_length)

lemma read_char_length: "length (snd (read_char c s)) \<le> length s"
  by (simp add: read_char_def read_ref_length)

function decode :: "string \<Rightarrow> string" where
  "decode [] = []"
| "decode (c # s) = fst (read_char c s) # decode (snd (read_char c s))"
  by pat_completeness auto

termination
  by (relation "measure length") (simp_all add: read_char_length le_imp_less_Suc)

subsection \<open>Tags and comments\<close>

text \<open>The attributes of a tag up to its \<open>>\<close>.\<close>

definition skip_space :: "string \<Rightarrow> string" where
  "skip_space s = dropWhile (\<lambda>c. html_space c \<or> c = CHR ''/'') s"

definition read_value :: "string \<Rightarrow> (string \<times> string) option" where
  "read_value s =
     (case s of
        e # q # r \<Rightarrow>
          if e = CHR ''='' \<and> q = CHR 0x22
          then (case split_once (CHR 0x22) r of Some (v, r') \<Rightarrow> Some (decode v, r') | None \<Rightarrow> None)
          else if e = CHR ''='' then None
          else Some ([], s)
      | [e] \<Rightarrow> if e = CHR ''='' then None else Some ([], s)
      | [] \<Rightarrow> Some ([], s))"

lemma split_once_length: "split_once c s = Some (a, b) \<Longrightarrow> length b < length s"
  by (auto simp: split_once_Some)

lemma read_value_length: "read_value s = Some (v, r) \<Longrightarrow> length r \<le> length s"
  by (auto simp: read_value_def split: list.splits if_splits option.splits dest: split_once_length)

lemma skip_space_Cons:
  assumes "skip_space s = c # s'"
  shows "\<not> html_space c \<and> c \<noteq> CHR ''/'' \<and> length s' < length s"
proof -
  have "length (skip_space s) \<le> length s" by (simp add: skip_space_def length_dropWhile_le)
  then show ?thesis using assms hd_dropWhile [of "\<lambda>c. html_space c \<or> c = CHR ''/''" s]
    by (auto simp: skip_space_def)
qed

function read_attrs :: "string \<Rightarrow> ((string \<times> string) list \<times> string) option" where
  "read_attrs s =
     (case skip_space s of
        [] \<Rightarrow> None
      | c # s' \<Rightarrow>
          if c = CHR ''>'' then Some ([], s')
          else if c = CHR ''='' then None
          else case read_value (dropWhile attr_name_char (c # s')) of
                 None \<Rightarrow> None
               | Some (v, r) \<Rightarrow>
                   map_option (\<lambda>(attrs, r'). ((takeWhile attr_name_char (c # s'), v) # attrs, r')) (read_attrs r))"
  by pat_completeness auto

termination
proof (relation "measure length", goal_cases)
  case (2 s c s' x v r)
  then have "attr_name_char c" using skip_space_Cons [OF 2(1)] by (simp add: attr_name_char_def tag_char_def)
  then have "length r \<le> length s'"
    using read_value_length [of _ v r] 2(4,5) length_dropWhile_le [of attr_name_char s'] by fastforce
  then show ?case using skip_space_Cons [OF 2(1)] by simp
qed simp

declare read_attrs.simps [simp del]

lemma read_attrs_length: "read_attrs s = Some (attrs, r) \<Longrightarrow> length r < length s"
proof (induction s arbitrary: attrs r rule: read_attrs.induct)
  case (1 s)
  from "1.prems" obtain c s' where cs: "skip_space s = c # s'"
    by (subst (asm) read_attrs.simps) (auto split: list.splits)
  have len: "length s' < length s" using skip_space_Cons [OF cs] by simp
  show ?case
  proof (cases "c = CHR ''>''")
    case True
    with "1.prems" cs len show ?thesis by (subst (asm) read_attrs.simps) simp
  next
    case False
    with "1.prems" cs have eq: "c \<noteq> CHR ''=''" by (subst (asm) read_attrs.simps) (auto split: if_splits)
    with False "1.prems" cs obtain v q as where q: "read_value (dropWhile attr_name_char (c # s')) = Some (v, q)"
      and as: "read_attrs q = Some (as, r)"
      by (subst (asm) read_attrs.simps) (auto split: option.splits)
    have "length r < length q" by (rule "1.IH" [OF cs False eq q refl as])
    moreover have "attr_name_char c" using skip_space_Cons [OF cs] False eq by (simp add: attr_name_char_def tag_char_def)
    then have "length q \<le> length s'"
      using read_value_length [OF q] length_dropWhile_le [of attr_name_char s'] by simp
    ultimately show ?thesis using len by simp
  qed
qed

definition read_comment :: "string \<Rightarrow> (token list \<times> string) option" where
  "read_comment s =
     (if starts_with s ''>'' \<or> starts_with s ''->'' then None
      else case split_seq ''-->'' s of
             None \<Rightarrow> None
           | Some (text, r) \<Rightarrow> if str_contains text ''--'' then None else Some ([CommentToken text], r))"

definition read_end_tag :: "string \<Rightarrow> (token list \<times> string) option" where
  "read_end_tag s =
     (case s of
        [] \<Rightarrow> None
      | c # _ \<Rightarrow>
          if is_ascii_alpha c
          then (case dropWhile tag_char s of
                  [] \<Rightarrow> None
                | d # r \<Rightarrow> if d = CHR ''>'' then Some ([EndTag (takeWhile tag_char s)], r) else None)
          else None)"

text \<open>Raw text: up to the closing tag of its own element.\<close>

definition ends_raw :: "string \<Rightarrow> string \<Rightarrow> bool" where
  "ends_raw name s =
     (case strip_prefix (''</'' @ ascii_lower name) (ascii_lower s) of
        Some (d # _) \<Rightarrow> \<not> tag_char d
      | _ \<Rightarrow> False)"

fun read_raw :: "string \<Rightarrow> string \<Rightarrow> (string \<times> string) option" where
  "read_raw name [] = None"
| "read_raw name (c # s) =
     (if ends_raw name (c # s) then Some ([], c # s)
      else map_option (\<lambda>(t, r). (c # t, r)) (read_raw name s))"

definition read_start_tag :: "string \<Rightarrow> (token list \<times> string) option" where
  "read_start_tag s =
     (let name = takeWhile tag_char s
      in case read_attrs (dropWhile tag_char s) of
           None \<Rightarrow> None
         | Some (attrs, r) \<Rightarrow>
             if ascii_lower name = ''script'' \<or> ascii_lower name = ''style''
             then (case read_raw name r of
                     None \<Rightarrow> None
                   | Some (text, r') \<Rightarrow>
                       if ascii_lower name = ''script'' \<and> str_contains text ''<!--'' then None
                       else Some (StartTag name attrs # map Char text, r'))
             else Some ([StartTag name attrs], r))"

definition read_markup :: "string \<Rightarrow> (token list \<times> string) option" where
  "read_markup s =
     (case strip_prefix ''!--'' s of
        Some r \<Rightarrow> read_comment r
      | None \<Rightarrow>
          (case s of
             [] \<Rightarrow> None
           | c # r \<Rightarrow>
               if c = CHR ''/'' then read_end_tag r else if is_ascii_alpha c then read_start_tag s else None))"

lemma read_raw_length: "read_raw name s = Some (t, r) \<Longrightarrow> length r \<le> length s"
  by (induction name s arbitrary: t rule: read_raw.induct) (auto split: if_splits intro: le_SucI)

lemma read_comment_length: "read_comment s = Some (ts, r) \<Longrightarrow> length r \<le> length s"
  by (auto simp: read_comment_def split: if_splits option.splits dest!: split_seq_Some)

lemma read_end_tag_length: "read_end_tag s = Some (ts, r) \<Longrightarrow> length r \<le> length s"
proof -
  assume a: "read_end_tag s = Some (ts, r)"
  then obtain d where "dropWhile tag_char s = d # r" by (auto simp: read_end_tag_def split: list.splits if_splits)
  then show "length r \<le> length s" using length_dropWhile_le [of tag_char s] by simp
qed

lemma read_start_tag_length: "read_start_tag s = Some (ts, r) \<Longrightarrow> length r \<le> length s"
proof -
  assume a: "read_start_tag s = Some (ts, r)"
  then obtain attrs q where q: "read_attrs (dropWhile tag_char s) = Some (attrs, q)" and le: "length r \<le> length q"
    by (auto simp: read_start_tag_def Let_def split: option.splits if_splits dest!: read_raw_length)
  then show "length r \<le> length s" using read_attrs_length [OF q] length_dropWhile_le [of tag_char s] by simp
qed

lemma read_markup_length: "read_markup s = Some (ts, r) \<Longrightarrow> length r \<le> length s"
  by (auto simp: read_markup_def split: option.splits list.splits if_splits
      dest!: read_comment_length read_end_tag_length dest: read_start_tag_length strip_prefix_length)

subsection \<open>The data state\<close>

function tokenize :: "string \<Rightarrow> token list option" where
  "tokenize [] = Some []"
| "tokenize (c # s) =
     (if c = CHR ''<''
      then (case read_markup s of None \<Rightarrow> None | Some (ts, r) \<Rightarrow> map_option (append ts) (tokenize r))
      else map_option (Cons (Char (fst (read_char c s)))) (tokenize (snd (read_char c s))))"
  by pat_completeness auto

termination
  by (relation "measure length") (auto dest: read_markup_length simp: read_char_length le_imp_less_Suc)

declare tokenize.simps [simp del]

subsection \<open>Reading what the renderer writes\<close>

lemma append_single [simp]: "(@) [x] = (#) x"
  by auto

lemma tokenize_Nil [simp]: "tokenize [] = Some []"
  by (simp add: tokenize.simps)

lemma strip_prefix_Cons [simp]: "strip_prefix (x # p) (y # s) = (if x = y then strip_prefix p s else None)"
  by (simp add: strip_prefix_def)

lemma strip_prefix_Nil [simp]: "strip_prefix [] s = Some s" "strip_prefix (x # p) [] = None"
  by (simp_all add: strip_prefix_def)

lemma tokenize_ref: "tokenize (text_ref c @ s) = map_option (Cons (Char c)) (tokenize s)"
  by (simp add: text_ref_def tokenize.simps(2) read_char_def named_refs_def)

lemma tokenize_text: "tokenize (escape_html_text t @ s) = map_option (append (map Char t)) (tokenize s)"
proof (induction t)
  case (Cons c t)
  then show ?case by (simp add: escape_html_text_refs tokenize_ref option.map_comp o_def)
qed (simp add: escape_html_text_refs option.map_ident)

lemma decode_ref: "decode (attr_ref c @ s) = c # decode s"
  by (simp add: attr_ref_def text_ref_def read_char_def named_refs_def)

lemma decode_attr [simp]: "decode (escape_html_attr v) = v"
  by (induction v) (simp_all add: escape_html_attr_refs decode_ref)

lemma tokenize_attr_ref: "tokenize (attr_ref c @ s) = map_option (Cons (Char c)) (tokenize s)"
  by (simp add: attr_ref_def text_ref_def tokenize.simps(2) read_char_def named_refs_def)

lemma tokenize_attr_text: "tokenize (escape_html_attr t @ s) = map_option (append (map Char t)) (tokenize s)"
proof (induction t)
  case (Cons c t)
  then show ?case by (simp add: escape_html_attr_refs tokenize_attr_ref option.map_comp o_def)
qed (simp add: escape_html_attr_refs option.map_ident)

lemma split_seq_comment:
  "\<not> str_contains b ''--'' \<Longrightarrow> \<not> ends_with b ''-'' \<Longrightarrow> split_seq ''-->'' (b @ ''-->'' @ s) = Some (b, s)"
proof (induction b)
  case (Cons c b)
  have "\<not> prefix ''-->'' ((c # b) @ ''-->'' @ s)"
    using Cons.prems by (cases b) (auto simp: ends_with_def)
  with Cons show ?case by (cases b) (auto simp: ends_with_def suffix_Cons)
qed simp

lemma tokenize_comment:
  assumes "\<not> str_contains b ''--''" "\<not> starts_with b ''>''" "\<not> starts_with b ''->''" "\<not> ends_with b ''-''"
  shows "tokenize (''<!--'' @ b @ ''-->'' @ s) = map_option (Cons (CommentToken b)) (tokenize s)"
proof -
  have "\<not> starts_with (b @ ''-->'' @ s) ''>'' \<and> \<not> starts_with (b @ ''-->'' @ s) ''->''"
    using assms(2-4) by (cases b; cases "tl b") (auto simp: starts_with_def ends_with_def)
  then have "read_comment (b @ ''-->'' @ s) = Some ([CommentToken b], s)"
    using split_seq_comment [OF assms(1,4), of s] assms(1) by (simp add: read_comment_def)
  then show ?thesis by (simp add: tokenize.simps(2) read_markup_def)
qed

text \<open>Names that may stand in a tag.\<close>

definition valid_tag :: "string \<Rightarrow> bool" where
  "valid_tag tag =
     (case tag of [] \<Rightarrow> False | c # cs \<Rightarrow> is_ascii_alpha c \<and> list_all (\<lambda>c. is_ascii_alnum c \<or> c = CHR ''-'') cs)"

lemma alnum_chars:
  "is_ascii_alnum c \<Longrightarrow> attr_name_char c \<and> c \<noteq> CHR ''<'' \<and> c \<noteq> CHR ''!'' \<and> c \<noteq> CHR 0x5C"
  by (auto simp: is_ascii_alnum_def is_ascii_alpha_def attr_name_char_def tag_char_def html_space_def Let_def)

lemma valid_tag_chars: "valid_tag tag \<Longrightarrow> c \<in> set tag \<Longrightarrow> tag_char c"
  using alnum_chars
  by (auto simp: valid_tag_def list_all_iff is_ascii_alnum_def attr_name_char_def tag_char_def html_space_def split: list.splits)

lemma takeWhile_dropWhile_stop:
  assumes "\<forall>x \<in> set a. P x" and "\<not> P c"
  shows "takeWhile P (a @ c # b) = a \<and> dropWhile P (a @ c # b) = c # b"
  using assms by (induction a) auto

lemma tag_stop:
  assumes "valid_tag tag" and "\<not> tag_char c"
  shows "takeWhile tag_char (tag @ c # s) = tag" and "dropWhile tag_char (tag @ c # s) = c # s"
  using takeWhile_dropWhile_stop [of tag tag_char c s] valid_tag_chars [OF assms(1)] assms(2) by auto


lemma tokenize_end_tag:
  assumes "valid_tag tag"
  shows "tokenize (''</'' @ tag @ ''>'' @ s) = map_option (Cons (EndTag tag)) (tokenize s)"
proof -
  obtain c cs where tag: "tag = c # cs" "is_ascii_alpha c"
    using assms by (auto simp: valid_tag_def split: list.splits)
  have stop: "takeWhile tag_char (tag @ CHR ''>'' # s) = tag" "dropWhile tag_char (tag @ CHR ''>'' # s) = CHR ''>'' # s"
    by (rule tag_stop [OF assms]; simp add: tag_char_def)+
  have "read_end_tag (tag @ CHR ''>'' # s) = Some ([EndTag tag], s)"
    using stop tag by (simp add: read_end_tag_def)
  then show ?thesis by (simp add: tokenize.simps(2) read_markup_def)
qed

text \<open>The text of a list of attributes, with or without a value, and the values they are read as.\<close>

definition attr_item_text :: "string \<times> string option \<Rightarrow> string" where
  "attr_item_text a =
     '' '' @ fst a @ (case snd a of Some v \<Rightarrow> [CHR ''='', CHR 0x22] @ escape_html_attr v @ [CHR 0x22] | None \<Rightarrow> [])"

definition attr_text :: "(string \<times> string option) list \<Rightarrow> string" where
  "attr_text items = concat (map attr_item_text items)"

definition item_value :: "string \<times> string option \<Rightarrow> string \<times> string" where
  "item_value a = (fst a, case snd a of Some v \<Rightarrow> v | None \<Rightarrow> [])"

definition valid_items :: "(string \<times> string option) list \<Rightarrow> bool" where
  "valid_items items = list_all (\<lambda>a. is_valid_attr_name (fst a)) items"

lemma valid_attr_name_chars:
  assumes "is_valid_attr_name n" and "c \<in> set n"
  shows "attr_name_char c"
proof -
  have "is_ascii_alnum c \<or> c \<in> {CHR ''-'', CHR ''_'', CHR '':'', CHR ''.''}"
    using assms by (cases n) (auto simp: is_valid_attr_name_def list_all_iff is_ascii_alnum_def)
  then show ?thesis using alnum_chars [of c] by (auto simp: attr_name_char_def tag_char_def html_space_def)
qed

lemma is_valid_attr_name_plain:
  assumes "is_valid_attr_name n" and "c \<in> set n"
  shows "c \<noteq> CHR ''&'' \<and> c \<noteq> CHR ''<'' \<and> c \<noteq> CHR ''>'' \<and> c \<noteq> CHR 0x22"
proof -
  have "is_ascii_alnum c \<or> c \<in> {CHR ''-'', CHR ''_'', CHR '':'', CHR ''.''}"
    using assms by (cases n) (auto simp: is_valid_attr_name_def list_all_iff is_ascii_alnum_def)
  then show ?thesis by (auto simp: is_ascii_alnum_def is_ascii_alpha_def Let_def)
qed

lemma read_attrs_step:
  assumes "is_valid_attr_name n" and "c = CHR ''='' \<or> \<not> tag_char c" and "read_value (c # s) = Some (v, r)"
  shows "read_attrs ('' '' @ n @ c # s) = map_option (\<lambda>(attrs, r'). ((n, v) # attrs, r')) (read_attrs r)"
proof -
  obtain d n' where n: "n = d # n'" using assms(1) by (cases n) (auto simp: is_valid_attr_name_def)
  then have d: "attr_name_char d" using valid_attr_name_chars [OF assms(1)] by auto
  then have skip: "skip_space (CHR '' '' # n @ c # s) = n @ c # s"
    by (simp add: skip_space_def n attr_name_char_def tag_char_def html_space_def)
  have stop: "takeWhile attr_name_char (n @ c # s) = n" "dropWhile attr_name_char (n @ c # s) = c # s"
    using takeWhile_dropWhile_stop [of n attr_name_char c] valid_attr_name_chars [OF assms(1)] assms(2)
    by (auto simp: attr_name_char_def)
  with skip assms(3) d show ?thesis
    by (subst read_attrs.simps) (simp add: n attr_name_char_def tag_char_def del: takeWhile.simps dropWhile.simps)
qed

lemma read_attrs_one:
  assumes "is_valid_attr_name (fst a)" and "\<not> tag_char c" and "c \<noteq> CHR ''=''"
  shows "read_attrs (attr_item_text a @ c # s) =
    map_option (\<lambda>(attrs, r). (item_value a # attrs, r)) (read_attrs (c # s))"
proof (cases "snd a")
  case None
  have "read_value (c # s) = Some ([], c # s)" using assms(3) by (simp add: read_value_def split: list.splits)
  with None read_attrs_step [OF assms(1)] assms(2) show ?thesis by (simp add: attr_item_text_def item_value_def)
next
  case (Some v)
  have "split_once (CHR 0x22) (escape_html_attr v @ CHR 0x22 # c # s) = Some (escape_html_attr v, c # s)"
    using escape_html_attr_chars by (auto simp: split_once_Some)
  then have "read_value (CHR ''='' # CHR 0x22 # escape_html_attr v @ CHR 0x22 # c # s) = Some (v, c # s)"
    by (simp add: read_value_def)
  with Some read_attrs_step [OF assms(1)] show ?thesis by (simp add: attr_item_text_def item_value_def)
qed

lemma read_attrs_end [simp]: "read_attrs (CHR ''>'' # s) = Some ([], s)" "read_attrs (CHR ''/'' # CHR ''>'' # s) = Some ([], s)"
  by (simp_all add: read_attrs.simps skip_space_def html_space_def)

lemma attr_text_start:
  assumes "s \<in> {''>'', ''/>''}"
  obtains c t where "attr_text items @ s @ r = c # t" "\<not> tag_char c" "c \<noteq> CHR ''=''"
  using assms that by (cases items) (auto simp: attr_text_def attr_item_text_def tag_char_def html_space_def)

lemma read_attrs_text:
  assumes "valid_items items" and "s \<in> {''>'', ''/>''}"
  shows "read_attrs (attr_text items @ s @ r) = Some (map item_value items, r)"
  using assms(1)
proof (induction items)
  case Nil
  then show ?case using assms(2) by (auto simp: attr_text_def)
next
  case (Cons a items)
  obtain c t where ct: "attr_text items @ s @ r = c # t" "\<not> tag_char c" "c \<noteq> CHR ''=''"
    by (rule attr_text_start [OF assms(2)])
  have "read_attrs (attr_item_text a @ attr_text items @ s @ r) = Some (map item_value (a # items), r)"
    using read_attrs_one [of a c t] Cons ct by (simp add: valid_items_def)
  then show ?case by (simp add: attr_text_def)
qed

lemma read_start_attrs:
  assumes "valid_tag tag" and "valid_items items" and "s \<in> {''>'', ''/>''}"
  shows "takeWhile tag_char (tag @ attr_text items @ s @ r) = tag \<and>
         read_attrs (dropWhile tag_char (tag @ attr_text items @ s @ r)) = Some (map item_value items, r)"
proof -
  obtain c t where ct: "attr_text items @ s @ r = c # t" "\<not> tag_char c" "c \<noteq> CHR ''=''"
    by (rule attr_text_start [OF assms(3)])
  show ?thesis using tag_stop [OF assms(1) ct(2), of t] read_attrs_text [OF assms(2,3), of r] ct(1) by simp
qed

lemma raw_names: "ascii_lower ''script'' = ''script''" "ascii_lower ''style'' = ''style''"
  by code_simp+

lemma tokenize_markup:
  assumes "valid_tag tag" and "read_start_tag (tag @ s) = Some (ts, r)"
  shows "tokenize (''<'' @ tag @ s) = map_option (append ts) (tokenize r)"
  using assms
  by (auto simp: tokenize.simps(2) read_markup_def valid_tag_def is_ascii_alpha_def Let_def split: list.splits)

lemma tokenize_start_tag:
  assumes "valid_tag tag" and "valid_items items" and "s \<in> {''>'', ''/>''}"
    and "\<not> is_raw_text_element tag"
  shows "tokenize (''<'' @ tag @ attr_text items @ s @ r) = map_option (Cons (StartTag tag (map item_value items))) (tokenize r)"
proof -
  have "read_start_tag (tag @ attr_text items @ s @ r) = Some ([StartTag tag (map item_value items)], r)"
    using read_start_attrs [OF assms(1-3), of r] assms(4)
    by (simp add: read_start_tag_def Let_def is_raw_text_element_def eq_ignore_ascii_case_def raw_names)
  then show ?thesis using tokenize_markup [OF assms(1), of "attr_text items @ s @ r"] by simp
qed

lemma ends_raw_here: "ends_raw name (''</'' @ name @ ''>'' @ s)"
proof -
  have "ascii_lower (''</'' @ name @ ''>'' @ s) = (''</'' @ ascii_lower name) @ CHR ''>'' # ascii_lower s"
    by (simp add: ascii_lower_Cons)
  then have "strip_prefix (''</'' @ ascii_lower name) (ascii_lower (''</'' @ name @ ''>'' @ s)) = Some (CHR ''>'' # ascii_lower s)"
    by (simp only: strip_prefix_append)
  then show ?thesis unfolding ends_raw_def by (simp add: tag_char_def)
qed

lemma read_raw_content:
  assumes "CHR ''<'' \<notin> set (ascii_lower name)"
  shows "\<not> str_contains (ascii_lower content) (''</'' @ ascii_lower name) \<Longrightarrow>
    read_raw name (content @ ''</'' @ name @ ''>'' @ s) = Some (content, ''</'' @ name @ ''>'' @ s)"
proof (induction content)
  case Nil
  show ?case using ends_raw_here [of name s] by simp
next
  case (Cons c content)
  let ?tail = "''</'' @ name @ ''>'' @ s" and ?low = "\<lambda>c. let k = of_char c :: nat in if 65 \<le> k \<and> k \<le> 90 then char_of (k + 32) else c"
  have no: "\<not> prefix (''</'' @ ascii_lower name) (ascii_lower (c # content))"
    and later: "\<not> str_contains (ascii_lower content) (''</'' @ ascii_lower name)"
    using Cons.prems by (simp_all add: ascii_lower_Cons)
  have "ascii_lower (c # content @ ?tail) = ?low c # ascii_lower content @ CHR ''<'' # (CHR ''/'' # ascii_lower (name @ ''>'' @ s))"
    by (simp add: ascii_lower_Cons)
  then have "\<not> prefix (''</'' @ ascii_lower name) (ascii_lower (c # content @ ?tail))"
    using no prefix_barrier [of "CHR ''<''" "CHR ''/'' # ascii_lower name" "ascii_lower content"] assms
    by (simp add: ascii_lower_Cons)
  then have "\<not> ends_raw name (c # content @ ?tail)" by (simp add: ends_raw_def strip_prefix_def)
  with Cons.IH [OF later] show ?case by simp
qed

lemma tokenize_raw:
  assumes "valid_tag tag" and "valid_items items" and "is_raw_text_element tag"
    and "\<not> str_contains (ascii_lower text) (''</'' @ ascii_lower tag)"
    and "ascii_lower tag = ''script'' \<longrightarrow> \<not> str_contains text ''<!--''"
  shows "tokenize (''<'' @ tag @ attr_text items @ ''>'' @ text @ ''</'' @ tag @ ''>'' @ s) =
    map_option (append (StartTag tag (map item_value items) # map Char text @ [EndTag tag])) (tokenize s)"
proof -
  let ?tail = "''</'' @ tag @ ''>'' @ s"
  have raw: "ascii_lower tag = ''script'' \<or> ascii_lower tag = ''style''"
    using assms(3) by (simp add: is_raw_text_element_def eq_ignore_ascii_case_def raw_names)
  then have "CHR ''<'' \<notin> set (ascii_lower tag)" by auto
  from read_raw_content [OF this assms(4)]
  have body: "read_raw tag (text @ ?tail) = Some (text, ?tail)" .
  have start: "read_start_tag (tag @ attr_text items @ ''>'' @ text @ ?tail) = Some (StartTag tag (map item_value items) # map Char text, ?tail)"
    unfolding read_start_tag_def Let_def
    using read_start_attrs [OF assms(1,2), of "''>''" "text @ ?tail"] raw body assms(5) by simp
  have "tokenize (''<'' @ tag @ attr_text items @ ''>'' @ text @ ?tail) =
      map_option (append (StartTag tag (map item_value items) # map Char text)) (map_option (Cons (EndTag tag)) (tokenize s))"
    using tokenize_markup [OF assms(1) start] tokenize_end_tag [OF assms(1), of s] by simp
  then show ?thesis by (cases "tokenize s") simp_all
qed

end
