(* ===== verification/ViewTree.thy ===== *)
theory ViewTree
  imports HtmlTokens
begin

text \<open>
  The view tree of \<open>krab_core/src/lib.rs\<close> (\<open>Node\<close>, \<open>Element\<close>, \<open>Attribute\<close>) and its rendering to HTML.

  A closure of the tree (\<open>Node::Dynamic\<close>, the source of a reactive attribute) is a function of the
  reactive state \<open>'s\<close> it reads; rendering is done in one such state. An event listener is its name: the
  callback is never called when rendering.
\<close>

subsection \<open>The tree\<close>

record 's attribute =
  at_name :: string
  at_value :: string
  at_dynamic :: "('s \<Rightarrow> string option) option"

datatype 's node =
    Element "'s element"
  | Text string
  | Fragment "'s node list"
  | Dynamic "'s \<Rightarrow> 's node"
  | Comment string
and 's element =
  MkElement (el_tag: string) (el_attributes: "'s attribute list") (el_children: "'s node list") (el_events: "string list")

definition attribute_new :: "string \<Rightarrow> string \<Rightarrow> 's attribute" where
  "attribute_new name value = \<lparr>at_name = name, at_value = value, at_dynamic = None\<rparr>"

definition attribute_dynamic :: "string \<Rightarrow> ('s \<Rightarrow> 'v) \<Rightarrow> ('v \<Rightarrow> string option) \<Rightarrow> 's attribute" where
  "attribute_dynamic name source into_attribute_value =
     \<lparr>at_name = name, at_value = [], at_dynamic = Some (\<lambda>s. into_attribute_value (source s))\<rparr>"

definition is_dynamic :: "'s attribute \<Rightarrow> bool" where
  "is_dynamic a = (at_dynamic a \<noteq> None)"

definition current_value :: "'s \<Rightarrow> 's attribute \<Rightarrow> string option" where
  "current_value s a = (case at_dynamic a of Some source \<Rightarrow> source s | None \<Rightarrow> Some (at_value a))"

text \<open>\<open>IntoAttributeValue\<close> for strings, booleans and options.\<close>

definition string_attribute_value :: "string \<Rightarrow> string option" where
  "string_attribute_value v = Some v"

definition bool_attribute_value :: "bool \<Rightarrow> string option" where
  "bool_attribute_value b = (if b then Some [] else None)"

definition option_attribute_value :: "('v \<Rightarrow> string option) \<Rightarrow> 'v option \<Rightarrow> string option" where
  "option_attribute_value into v = Option.bind v into"

definition node_default :: "'s node" where
  "node_default = Fragment []"

subsection \<open>Recursion over the tree\<close>

text \<open>A closure makes the tree infinitely branching: the parts of a node are well founded, not sized.\<close>

inductive part_of :: "'s node \<Rightarrow> 's node \<Rightarrow> bool" where
  child: "n \<in> set (el_children e) \<Longrightarrow> part_of n (Element e)"
| item: "n \<in> set ns \<Longrightarrow> part_of n (Fragment ns)"
| result: "part_of (f s) (Dynamic f)"

inductive_simps part_of_simps:
  "part_of n (Element e)" "part_of n (Text t)" "part_of n (Fragment ns)" "part_of n (Dynamic f)" "part_of n (Comment t)"

lemma part_of_accp:
  fixes n :: "'s node" and e :: "'s element"
  shows "Wellfounded.accp part_of n" and "\<forall>c \<in> set (el_children e). Wellfounded.accp part_of c"
  by (induction n and e rule: node.induct element.induct) ((rule accp.accI; simp add: part_of_simps; blast)+, simp)

definition part_rel :: "('s node \<times> 's node) set" where
  "part_rel = {(n, m). part_of n m}"

lemma wf_part_rel [simp, intro]: "wf part_rel"
proof -
  have "wfp (part_of :: 's node \<Rightarrow> _)" by (rule accp_wfpI) (simp add: part_of_accp(1))
  then show "wf (part_rel :: ('s node \<times> 's node) set)" by (simp add: wfp_def part_rel_def)
qed

lemma part_rel_simps [simp]:
  "(n, Element e) \<in> part_rel \<longleftrightarrow> n \<in> set (el_children e)"
  "(n, Fragment ns) \<in> part_rel \<longleftrightarrow> n \<in> set ns"
  "(f s, Dynamic f) \<in> part_rel"
  by (auto simp: part_rel_def part_of_simps)

subsection \<open>Rendering\<close>

definition void_elements :: "string list" where
  "void_elements =
     [''area'', ''base'', ''br'', ''col'', ''embed'', ''hr'', ''img'', ''input'', ''link'', ''meta'', ''param'', ''source'',
      ''track'', ''wbr'']"

definition render_attributes :: "'s \<Rightarrow> 's attribute list \<Rightarrow> string" where
  "render_attributes s attrs =
     concat (map (\<lambda>a. case current_value s a of
         Some v \<Rightarrow> '' '' @ at_name a @ [CHR ''='', CHR 0x22] @ escape_html_attr v @ [CHR 0x22]
       | None \<Rightarrow> [])
       (filter (\<lambda>a. is_valid_attr_name (at_name a)) attrs))"

function render_node :: "'s \<Rightarrow> 's node \<Rightarrow> string"
  and render_element :: "'s \<Rightarrow> 's element \<Rightarrow> string"
  and raw_text_content :: "'s \<Rightarrow> 's node \<Rightarrow> string" where
  "render_node s (Element el) = render_element s el"
| "render_node s (Text t) = escape_html_text t"
| "render_node s (Comment t) = ''<!--'' @ sanitize_comment t @ ''-->''"
| "render_node s (Fragment nodes) = concat (map (render_node s) nodes)"
| "render_node s (Dynamic f) = render_node s (f s)"
| "render_element s el =
     (let tag = el_tag el;
          attrs = render_attributes s (el_attributes el);
          children =
            (if is_raw_text_element tag
             then escape_raw_text tag (concat (map (raw_text_content s) (el_children el)))
             else concat (map (render_node s) (el_children el)))
      in if tag \<in> set void_elements then ''<'' @ tag @ attrs @ ''/>'' @ children
         else if el_children el = [] then ''<'' @ tag @ attrs @ ''></'' @ tag @ ''>''
         else ''<'' @ tag @ attrs @ ''>'' @ children @ ''</'' @ tag @ ''>'')"
| "raw_text_content s (Text t) = t"
| "raw_text_content s (Comment t) = []"
| "raw_text_content s (Element el) = render_element s el"
| "raw_text_content s (Fragment nodes) = concat (map (raw_text_content s) nodes)"
| "raw_text_content s (Dynamic f) = raw_text_content s (f s)"
  by pat_completeness auto

termination
  by (relation "inv_image (part_rel <*lex*> less_than)
      (case_sum (\<lambda>(s, n). (n, 1 :: nat)) (case_sum (\<lambda>(s, e). (Element e, 0)) (\<lambda>(s, n). (n, 1))))") auto

declare render_element.simps [simp del]

subsection \<open>What a browser reads\<close>

text \<open>The token stream a tree stands for, in a reactive state.\<close>

definition attribute_values :: "'s \<Rightarrow> 's attribute list \<Rightarrow> (string \<times> string) list" where
  "attribute_values s attrs =
     concat (map (\<lambda>a. case current_value s a of Some v \<Rightarrow> [(at_name a, v)] | None \<Rightarrow> [])
       (filter (\<lambda>a. is_valid_attr_name (at_name a)) attrs))"

definition is_void :: "'s element \<Rightarrow> bool" where
  "is_void el = (el_tag el \<in> set void_elements)"

definition raw_text :: "'s \<Rightarrow> 's element \<Rightarrow> string" where
  "raw_text s el = escape_raw_text (el_tag el) (concat (map (raw_text_content s) (el_children el)))"

function node_tokens :: "'s \<Rightarrow> 's node \<Rightarrow> token list" where
  "node_tokens s (Text t) = map Char t"
| "node_tokens s (Comment t) = [CommentToken (sanitize_comment t)]"
| "node_tokens s (Fragment nodes) = concat (map (node_tokens s) nodes)"
| "node_tokens s (Dynamic f) = node_tokens s (f s)"
| "node_tokens s (Element el) =
     StartTag (el_tag el) (attribute_values s (el_attributes el)) #
     (if is_raw_text_element (el_tag el) then map Char (raw_text s el) else concat (map (node_tokens s) (el_children el))) @
     (if is_void el then [] else [EndTag (el_tag el)])"
  by pat_completeness auto

termination
  by (relation "inv_image part_rel snd") auto

text \<open>The tags of the tree are names, as those \<open>view!\<close> builds from literal tokens.\<close>

function well_tagged :: "'s \<Rightarrow> 's node \<Rightarrow> bool" where
  "well_tagged s (Text t) = True"
| "well_tagged s (Comment t) = True"
| "well_tagged s (Fragment nodes) = list_all (well_tagged s) nodes"
| "well_tagged s (Dynamic f) = well_tagged s (f s)"
| "well_tagged s (Element el) =
     (valid_tag (el_tag el) \<and> (is_raw_text_element (el_tag el) \<or> list_all (well_tagged s) (el_children el)))"
  by pat_completeness auto

termination
  by (relation "inv_image part_rel snd") (auto simp: list_all_iff)

lemma render_attributes_text: "render_attributes s attrs = attr_text (map (apsnd Some) (attribute_values s attrs))"
  by (induction attrs)
    (auto simp: render_attributes_def attribute_values_def attr_text_def attr_item_text_def split: option.splits)

lemma attribute_values_valid: "valid_items (map (apsnd Some) (attribute_values s attrs))"
  by (auto simp: attribute_values_def valid_items_def list_all_iff split: option.splits)

lemma item_value_Some [simp]: "map item_value (map (apsnd Some) avs) = avs"
  by (induction avs) (auto simp: item_value_def)

lemma void_not_raw: "is_void el \<Longrightarrow> \<not> is_raw_text_element (el_tag el)"
proof -
  have "list_all (\<lambda>t. \<not> is_raw_text_element t) void_elements" by code_simp
  then show "is_void el \<Longrightarrow> \<not> is_raw_text_element (el_tag el)" by (auto simp: is_void_def list_all_iff)
qed

text \<open>Rendering an element, without the special case of no children.\<close>

lemma render_element_eq:
  "render_element s el =
     ''<'' @ el_tag el @ attr_text (map (apsnd Some) (attribute_values s (el_attributes el))) @
     (if is_void el then ''/>'' @ concat (map (render_node s) (el_children el))
      else ''>'' @ (if is_raw_text_element (el_tag el) then raw_text s el else concat (map (render_node s) (el_children el))) @
           ''</'' @ el_tag el @ ''>'')"
proof -
  have "escape_raw_text (el_tag el) [] = []" if "is_raw_text_element (el_tag el)"
    using raw_text_nothing by simp
  then show ?thesis
    using void_not_raw [of el]
    by (auto simp: render_element.simps Let_def render_attributes_text is_void_def raw_text_def)
qed

lemma tokenize_concat:
  assumes "\<And>n r. n \<in> set ns \<Longrightarrow> tokenize (f n @ r) = map_option (append (g n)) (tokenize r)"
  shows "tokenize (concat (map f ns) @ r) = map_option (append (concat (map g ns))) (tokenize r)"
  using assms
proof (induction ns)
  case Nil
  show ?case by (simp add: option.map_ident)
next
  case (Cons n ns)
  have "tokenize (concat (map f ns) @ r) = map_option (append (concat (map g ns))) (tokenize r)"
    by (rule Cons.IH) (simp add: Cons.prems)
  with Cons.prems [of n] show ?case by (cases "tokenize r") simp_all
qed

lemma tokenize_raw_element:
  assumes "valid_tag (el_tag el)" and "is_raw_text_element (el_tag el)"
  shows "tokenize (render_element s el @ r) = map_option (append (node_tokens s (Element el))) (tokenize r)"
proof -
  let ?raw = "concat (map (raw_text_content s) (el_children el))"
  have nv: "\<not> is_void el" using void_not_raw [of el] assms(2) by blast
  have "\<not> str_contains (ascii_lower (raw_text s el)) (''</'' @ ascii_lower (el_tag el))"
    and "ascii_lower (el_tag el) = ''script'' \<longrightarrow> \<not> str_contains (raw_text s el) ''<!--''"
    using raw_text_escaped [OF assms(2), of ?raw] by (simp_all add: raw_text_def)
  from tokenize_raw [OF assms(1) attribute_values_valid assms(2) this, of s "el_attributes el" r] nv assms(2)
  show ?thesis by (simp add: render_element_eq del: map_map)
qed

lemma tokenize_plain_element:
  assumes "valid_tag (el_tag el)" and "\<not> is_raw_text_element (el_tag el)"
    and children: "\<And>n r. n \<in> set (el_children el) \<Longrightarrow> tokenize (render_node s n @ r) = map_option (append (node_tokens s n)) (tokenize r)"
  shows "tokenize (render_element s el @ r) = map_option (append (node_tokens s (Element el))) (tokenize r)"
proof -
  let ?avs = "attribute_values s (el_attributes el)" and ?body = "concat (map (render_node s) (el_children el))"
  note body = tokenize_concat [of "el_children el" "render_node s" "node_tokens s", OF children]
  have start: "tokenize (''<'' @ el_tag el @ attr_text (map (apsnd Some) ?avs) @ e @ q) = map_option (Cons (StartTag (el_tag el) ?avs)) (tokenize q)"
    if "e \<in> {''>'', ''/>''}" for e q
    using tokenize_start_tag [OF assms(1) attribute_values_valid that assms(2), of s "el_attributes el" q]
    by (simp only: item_value_Some)
  show ?thesis
  proof (cases "is_void el")
    case True
    have "tokenize (render_element s el @ r) = map_option (Cons (StartTag (el_tag el) ?avs)) (tokenize (?body @ r))"
      using start [of "''/>''" "?body @ r"] True by (simp add: render_element_eq)
    with body [of r] True assms(2) show ?thesis by (cases "tokenize r") simp_all
  next
    case False
    have "tokenize (render_element s el @ r) =
        map_option (Cons (StartTag (el_tag el) ?avs)) (tokenize (?body @ ''</'' @ el_tag el @ ''>'' @ r))"
      using start [of "''>''" "?body @ ''</'' @ el_tag el @ ''>'' @ r"] False assms(2) by (simp add: render_element_eq)
    with body [of "''</'' @ el_tag el @ ''>'' @ r"] tokenize_end_tag [OF assms(1), of r] False assms(2)
    show ?thesis by (cases "tokenize r") simp_all
  qed
qed

lemma tokenize_node:
  "well_tagged s n \<Longrightarrow> tokenize (render_node s n @ r) = map_option (append (node_tokens s n)) (tokenize r)"
proof (induction s n arbitrary: r rule: node_tokens.induct)
  case (1 s t)
  show ?case by (simp add: tokenize_text)
next
  case (2 s t)
  show ?case using tokenize_comment [of "sanitize_comment t" r] sanitize_comment_safe [of t] by simp
next
  case (3 s nodes)
  then show ?case using tokenize_concat [of nodes "render_node s" "node_tokens s" r] by (simp add: list_all_iff)
next
  case (4 s f)
  then show ?case by simp
next
  case (5 s el)
  show ?case
  proof (cases "is_raw_text_element (el_tag el)")
    case True
    with "5.prems" tokenize_raw_element [of el s r] show ?thesis by (cases "tokenize r") simp_all
  next
    case False
    with "5.prems" have tag: "valid_tag (el_tag el)" and children: "\<forall>n \<in> set (el_children el). well_tagged s n"
      by (auto simp: list_all_iff)
    show ?thesis unfolding render_node.simps
      by (rule tokenize_plain_element [OF tag False]) (rule "5.IH" [OF False], use children in auto)
  qed
qed

text \<open>
  C11: rendered HTML means the tree it was rendered from. Whatever the texts, attribute names and values,
  comments, scripts and reactive values contain, a browser that reads the markup finds exactly the
  elements, attributes, characters and comments of the tree: no data can open or close a tag, add an
  attribute or leave a comment. Only the tag names must be names.
\<close>

theorem rendered_html_reads_back_as_the_tree:
  assumes "well_tagged s n"
  shows "tokenize (render_node s n) = Some (node_tokens s n)"
  using tokenize_node [OF assms, of "[]"] by simp

definition sample_tree :: "string node" where
  "sample_tree = Element (MkElement ''p'' [attribute_new ''x y'' ''1'', attribute_new ''title'' [CHR 0x22, CHR ''>'']]
     [Text ''a<b&'', Dynamic (\<lambda>s. Text s), Comment ''-->'', Element (MkElement ''br'' [] [] []),
      Element (MkElement ''script'' [] [Text ''</script>''] [])] [])"

lemma sample_tree_tagged: "well_tagged ''<i>'' sample_tree"
  by code_simp

theorem rendered_html_reads_back_as_the_tree_witness:
  "tokenize (render_node ''<i>'' sample_tree) = Some (node_tokens ''<i>'' sample_tree)"
  by (rule rendered_html_reads_back_as_the_tree [OF sample_tree_tagged])

end
