(* ===== verification/Hydration.thy ===== *)
theory Hydration
  imports ViewTree
begin

text \<open>
  Hydration markers: the identity the server writes on every element of an island so that the browser
  finds it again (\<open>HydrationNodeMarker\<close> and \<open>annotate_hydration_tree\<close> of \<open>krab_core/src/lib.rs\<close>), and
  the keys \<open><For>\<close> stamps on its rows (\<open>src/control_flow.rs\<close>). The process-wide counter of boundary
  ids is a word that is passed on.
\<close>

subsection \<open>Markers\<close>

record marker =
  hm_boundary_id :: string
  hm_path :: string

definition HYDRATION_NODE_ID_ATTR :: string where
  "HYDRATION_NODE_ID_ATTR = ''data-krab-node-id''"

definition ISLAND_NAME_ATTR :: string where
  "ISLAND_NAME_ATTR = ''data-island''"

definition child_hydration_path :: "string \<Rightarrow> nat \<Rightarrow> string" where
  "child_hydration_path parent_path child_index =
     (if parent_path = [] then show_nat child_index else parent_path @ ''.'' @ show_nat child_index)"

definition marker_new :: "string \<Rightarrow> string \<Rightarrow> marker" where
  "marker_new boundary_id path = \<lparr>hm_boundary_id = boundary_id, hm_path = path\<rparr>"

definition marker_root :: "string \<Rightarrow> marker" where
  "marker_root boundary_id = marker_new boundary_id ''0''"

definition marker_child :: "marker \<Rightarrow> nat \<Rightarrow> marker" where
  "marker_child m child_index = marker_new (hm_boundary_id m) (child_hydration_path (hm_path m) child_index)"

definition marker_parse :: "string \<Rightarrow> marker option" where
  "marker_parse input =
     (case split_once (CHR ''/'') input of
        None \<Rightarrow> None
      | Some (boundary_id, path) \<Rightarrow>
          let boundary_id = trim boundary_id; path = trim path
          in if boundary_id = [] \<or> path = [] then None else Some (marker_new boundary_id path))"

definition as_attr_value :: "marker \<Rightarrow> string" where
  "as_attr_value m = hm_boundary_id m @ ''/'' @ hm_path m"

definition next_hydration_boundary_id :: "string \<Rightarrow> u64 \<Rightarrow> string \<times> u64" where
  "next_hydration_boundary_id scope counter = (scope @ '':'' @ show_word counter, counter + 1)"

subsection \<open>Stamping\<close>

definition stamp_if_absent :: "string \<Rightarrow> 's attribute list \<Rightarrow> 's attribute list" where
  "stamp_if_absent value attrs =
     (if \<not> list_ex (\<lambda>a. at_name a = HYDRATION_NODE_ID_ATTR) attrs
      then attrs @ [attribute_new HYDRATION_NODE_ID_ATTR value] else attrs)"

definition stamp_element :: "string \<Rightarrow> 's element \<Rightarrow> 's element" where
  "stamp_element value e = MkElement (el_tag e) (stamp_if_absent value (el_attributes e)) (el_children e) (el_events e)"

definition is_island :: "'s element \<Rightarrow> bool" where
  "is_island e = list_ex (\<lambda>a. at_name a = ISLAND_NAME_ATTR) (el_attributes e)"

lemma enumerate_mem: "(i, c) \<in> set (enumerate n cs) \<Longrightarrow> c \<in> set cs"
  by (metis enumerate_eq_zip set_zip_rightD)

function annotate_with_marker :: "'s node \<Rightarrow> marker \<Rightarrow> 's node" where
  "annotate_with_marker (Element e) m =
     (let e' = stamp_element (as_attr_value m) e
      in Element (MkElement (el_tag e') (el_attributes e')
           (if \<not> is_island e' then map (\<lambda>(i, c). annotate_with_marker c (marker_child m i)) (enumerate 0 (el_children e))
            else el_children e)
           (el_events e')))"
| "annotate_with_marker (Fragment children) m =
     Fragment (map (\<lambda>(i, c). annotate_with_marker c (marker_child m i)) (enumerate 0 children))"
| "annotate_with_marker (Dynamic f) m = Dynamic (\<lambda>s. annotate_with_marker (f s) m)"
| "annotate_with_marker (Text t) m = Text t"
| "annotate_with_marker (Comment t) m = Comment t"
  by pat_completeness auto

termination
  by (relation "inv_image part_rel fst") (auto dest: enumerate_mem)

definition annotate_hydration_tree :: "'s node \<Rightarrow> string \<Rightarrow> 's node" where
  "annotate_hydration_tree n boundary_id = annotate_with_marker n (marker_root boundary_id)"

subsection \<open>Control flow\<close>

definition show_node :: "('s \<Rightarrow> bool) \<Rightarrow> ('s \<Rightarrow> 's node) \<Rightarrow> ('s \<Rightarrow> 's node) \<Rightarrow> 's node" where
  "show_node when children fallback = Dynamic (\<lambda>s. if when s then children s else fallback s)"

function with_key :: "'s node \<Rightarrow> string \<Rightarrow> 's node" where
  "with_key (Element e) key = Element (stamp_element key e)"
| "with_key (Fragment children) key =
     Fragment (map (\<lambda>(i, c). with_key c (child_hydration_path key i)) (enumerate 0 children))"
| "with_key (Text t) key = Text t"
| "with_key (Comment t) key = Comment t"
| "with_key (Dynamic f) key = Dynamic f"
  by pat_completeness auto

termination
  by (relation "inv_image part_rel fst") (auto dest: enumerate_mem)

definition for_each :: "('s \<Rightarrow> 'a list) \<Rightarrow> ('a \<Rightarrow> string) \<Rightarrow> ('a \<Rightarrow> 's node) \<Rightarrow> 's node" where
  "for_each each key view = Dynamic (\<lambda>s. Fragment (map (\<lambda>item. with_key (view item) (key item)) (each s)))"

subsection \<open>The elements of a boundary\<close>

text \<open>
  What one reactive state shows: the elements in document order with their positions, where nested
  islands are listed and not entered.
\<close>

function boundary_elements :: "'s \<Rightarrow> 's node \<Rightarrow> string \<Rightarrow> (string \<times> 's element) list" where
  "boundary_elements s (Element e) p =
     (p, e) # (if is_island e then []
       else concat (map (\<lambda>(i, c). boundary_elements s c (child_hydration_path p i)) (enumerate 0 (el_children e))))"
| "boundary_elements s (Fragment ns) p =
     concat (map (\<lambda>(i, c). boundary_elements s c (child_hydration_path p i)) (enumerate 0 ns))"
| "boundary_elements s (Dynamic f) p = boundary_elements s (f s) p"
| "boundary_elements s (Text t) p = []"
| "boundary_elements s (Comment t) p = []"
  by pat_completeness auto

termination
  by (relation "inv_image part_rel (fst \<circ> snd)") (auto dest: enumerate_mem)

subsection \<open>Positions are distinct\<close>

definition path_below :: "string \<Rightarrow> string \<Rightarrow> bool" where
  "path_below p q = (q = p \<or> prefix (p @ ''.'') q)"

lemma path_below_trans: "path_below p q \<Longrightarrow> path_below q r \<Longrightarrow> path_below p r"
  by (auto simp: path_below_def prefix_def)

lemma path_below_child: "p \<noteq> [] \<Longrightarrow> path_below p (child_hydration_path p i)"
  by (simp add: path_below_def child_hydration_path_def)

lemma child_path_nonempty [simp]: "child_hydration_path p i \<noteq> []"
  by (simp add: child_hydration_path_def)

lemma inj_show_nat: "show_nat i = show_nat j \<Longrightarrow> i = j"
  by (metis option.inject parse_digits_show_nat)

lemma digit_val_dot: "digit_val (CHR ''.'') = None"
  by code_simp

lemma no_dot_show_nat: "CHR ''.'' \<notin> set (show_nat i)"
proof
  assume "CHR ''.'' \<in> set (show_nat i)"
  then obtain d where "d < 10" "CHR ''.'' = digit_char d" using set_show_nat by blast
  then show False by (metis digit_val_digit_char digit_val_dot option.distinct(1))
qed

text \<open>The next step of a path below \<open>p\<close>.\<close>

lemma step_of_path:
  assumes "p \<noteq> []" and "path_below (child_hydration_path p i) q"
  shows "takeWhile (\<lambda>c. c \<noteq> CHR ''.'') (drop (length p + 1) q) = show_nat i"
proof -
  have "\<exists>t. q = p @ ''.'' @ show_nat i @ t \<and> (t = [] \<or> hd t = CHR ''.'')"
    using assms by (auto simp: path_below_def child_hydration_path_def prefix_def)
  then obtain t where t: "q = p @ ''.'' @ show_nat i @ t" "t = [] \<or> hd t = CHR ''.''" by blast
  have "takeWhile (\<lambda>c. c \<noteq> CHR ''.'') (show_nat i @ t) = show_nat i"
    using no_dot_show_nat [of i] t(2) by (cases t) (auto simp: takeWhile_append)
  then show ?thesis by (simp add: t(1))
qed

lemma enumerate_ge: "(i, c) \<in> set (enumerate n cs) \<Longrightarrow> n \<le> i"
  by (induction cs arbitrary: n) fastforce+

lemma distinct_children:
  assumes "p \<noteq> []"
    and "\<And>i c. (i, c) \<in> set (enumerate n cs) \<Longrightarrow> distinct (map fst (f i c))"
    and "\<And>i c q. (i, c) \<in> set (enumerate n cs) \<Longrightarrow> q \<in> fst ` set (f i c) \<Longrightarrow> path_below (child_hydration_path p i) q"
  shows "distinct (map fst (concat (map (\<lambda>(i, c). f i c) (enumerate n cs))))"
  using assms(2,3)
proof (induction cs arbitrary: n)
  case (Cons c cs)
  have rest: "distinct (map fst (concat (map (\<lambda>(i, c). f i c) (enumerate (Suc n) cs))))"
  proof (rule Cons.IH)
    show "distinct (map fst (f i c'))" if "(i, c') \<in> set (enumerate (Suc n) cs)" for i c'
      by (rule Cons.prems(1)) (use that in simp)
    show "path_below (child_hydration_path p i) q" if "(i, c') \<in> set (enumerate (Suc n) cs)" "q \<in> fst ` set (f i c')" for i c' q
      by (rule Cons.prems(2) [OF _ that(2)]) (use that(1) in simp)
  qed
  have "q \<notin> fst ` set (f i d)" if q: "q \<in> fst ` set (f n c)" and d: "(i, d) \<in> set (enumerate (Suc n) cs)" for q i d
  proof
    assume "q \<in> fst ` set (f i d)"
    then have "path_below (child_hydration_path p i) q" by (rule Cons.prems(2) [rotated]) (use d in simp)
    moreover have "path_below (child_hydration_path p n) q" by (rule Cons.prems(2) [OF _ q]) simp
    ultimately have "i = n" using step_of_path [OF assms(1)] inj_show_nat by metis
    moreover have "i \<ge> Suc n" by (rule enumerate_ge [OF d])
    ultimately show False by simp
  qed
  with rest Cons.prems(1) [of n c] show ?case by (fastforce simp: image_iff)
qed simp

lemma path_not_below_child: "p \<noteq> [] \<Longrightarrow> \<not> path_below (child_hydration_path p i) p"
  by (auto simp: path_below_def child_hydration_path_def prefix_def)

lemma paths_Cons:
  "distinct (map fst kids) \<Longrightarrow> \<forall>q \<in> fst ` set kids. path_below p q \<and> q \<noteq> p \<Longrightarrow>
     distinct (map fst ((p, e) # kids)) \<and> (\<forall>q \<in> fst ` set ((p, e) # kids). path_below p q)"
  by (auto simp: path_below_def)

lemma boundary_elements_paths:
  assumes "p \<noteq> []"
  shows "distinct (map fst (boundary_elements s n p)) \<and> (\<forall>q \<in> fst ` set (boundary_elements s n p). path_below p q)"
  using assms
proof (induction s n p rule: boundary_elements.induct)
  case (1 s e p)
  let ?kids = "concat (map (\<lambda>(i, c). boundary_elements s c (child_hydration_path p i)) (enumerate 0 (el_children e)))"
  show ?case
  proof (cases "is_island e")
    case True
    then show ?thesis by (simp add: path_below_def)
  next
    case False
    note IH = "1.IH" [OF False _ refl child_path_nonempty]
    have d: "distinct (map fst ?kids)"
      by (rule distinct_children [OF "1.prems"]) (use IH in blast)+
    have below: "\<exists>i. path_below (child_hydration_path p i) q" if "q \<in> fst ` set ?kids" for q
      using that IH by fastforce
    then have "path_below p q \<and> q \<noteq> p" if "q \<in> fst ` set ?kids" for q
      using that path_below_trans [OF path_below_child [OF "1.prems"]] path_not_below_child [OF "1.prems"] by metis
    then have all: "\<forall>q \<in> fst ` set ?kids. path_below p q \<and> q \<noteq> p" by blast
    show ?thesis unfolding boundary_elements.simps if_not_P [OF False] by (rule paths_Cons [OF d all])
  qed
next
  case (2 s ns p)
  note IH = "2.IH" [OF _ refl child_path_nonempty]
  let ?kids = "concat (map (\<lambda>(i, c). boundary_elements s c (child_hydration_path p i)) (enumerate 0 ns))"
  have "distinct (map fst ?kids)"
    by (rule distinct_children [OF "2.prems"]) (use IH in blast)+
  moreover have "\<exists>i. path_below (child_hydration_path p i) q" if "q \<in> fst ` set ?kids" for q
    using that IH by fastforce
  then have "path_below p q" if "q \<in> fst ` set ?kids" for q
    using that path_below_trans [OF path_below_child [OF "2.prems"]] by metis
  ultimately show ?case by simp
qed simp_all

subsection \<open>What annotation does\<close>

definition marker_in :: "'s attribute list \<Rightarrow> string option" where
  "marker_in attrs = map_option at_value (find (\<lambda>a. at_name a = HYDRATION_NODE_ID_ATTR) attrs)"

definition marker_of :: "'s element \<Rightarrow> string option" where
  "marker_of e = marker_in (el_attributes e)"

text \<open>The part of an element that annotation keeps: everything but the added attribute and the children.\<close>

definition stamped :: "string \<Rightarrow> string \<times> 's element \<Rightarrow> string \<times> string \<times> 's attribute list \<times> string list" where
  "stamped b pe = (case pe of (p, e) \<Rightarrow> (p, el_tag e, stamp_if_absent (b @ ''/'' @ p) (el_attributes e), el_events e))"

definition shown :: "string \<times> 's element \<Rightarrow> string \<times> string \<times> 's attribute list \<times> string list" where
  "shown pe = (case pe of (p, e) \<Rightarrow> (p, el_tag e, el_attributes e, el_events e))"

lemma shown_simps [simp]:
  "shown (p, e) = (p, el_tag e, el_attributes e, el_events e)"
  "stamped b (p, e) = (p, el_tag e, stamp_if_absent (b @ ''/'' @ p) (el_attributes e), el_events e)"
  by (simp_all add: shown_def stamped_def)

lemma is_island_stamp: "is_island (MkElement t (stamp_if_absent v (el_attributes e)) cs ev) = is_island e"
  by (auto simp: is_island_def stamp_if_absent_def attribute_new_def HYDRATION_NODE_ID_ATTR_def ISLAND_NAME_ATTR_def)

lemma annotate_Element:
  "annotate_with_marker (Element e) m =
     Element (MkElement (el_tag e) (stamp_if_absent (as_attr_value m) (el_attributes e))
       (if is_island e then el_children e
        else map (\<lambda>(i, c). annotate_with_marker c (marker_child m i)) (enumerate 0 (el_children e)))
       (el_events e))"
  using is_island_stamp [of "el_tag e" "as_attr_value m" e "el_children e" "el_events e"]
  by (simp add: stamp_element_def Let_def)

lemma annotate_children_elements:
  assumes "\<And>i c. (i, c) \<in> set (enumerate n cs) \<Longrightarrow>
    map shown (boundary_elements s (g i c) (child_hydration_path p i)) =
    map (stamped b) (boundary_elements s c (child_hydration_path p i))"
  shows "map shown (concat (map (\<lambda>(i, c). boundary_elements s c (child_hydration_path p i))
           (enumerate n (map (\<lambda>(i, c). g i c) (enumerate n cs))))) =
         map (stamped b) (concat (map (\<lambda>(i, c). boundary_elements s c (child_hydration_path p i)) (enumerate n cs)))"
  using assms
proof (induction cs arbitrary: n)
  case (Cons c cs)
  have "map shown (concat (map (\<lambda>(i, c). boundary_elements s c (child_hydration_path p i))
           (enumerate (Suc n) (map (\<lambda>(i, c). g i c) (enumerate (Suc n) cs))))) =
         map (stamped b) (concat (map (\<lambda>(i, c). boundary_elements s c (child_hydration_path p i)) (enumerate (Suc n) cs)))"
    by (rule Cons.IH) (rule Cons.prems, simp)
  then show ?case using Cons.prems [of n c] by simp
qed simp

lemma marker_child_parts [simp]:
  "hm_path (marker_child m i) = child_hydration_path (hm_path m) i" "hm_boundary_id (marker_child m i) = hm_boundary_id m"
  by (simp_all add: marker_child_def marker_new_def)

lemma annotated_elements:
  "map shown (boundary_elements s (annotate_with_marker n m) (hm_path m)) =
   map (stamped (hm_boundary_id m)) (boundary_elements s n (hm_path m))"
proof (induction n m rule: annotate_with_marker.induct)
  case (1 e m)
  show ?case
  proof (cases "is_island e")
    case True
    then show ?thesis by (simp add: annotate_Element is_island_stamp as_attr_value_def del: annotate_with_marker.simps(1))
  next
    case False
    have "\<not> is_island (stamp_element (as_attr_value m) e)" using False by (simp add: stamp_element_def is_island_stamp)
    then have "map shown (boundary_elements s (annotate_with_marker c (marker_child m i)) (child_hydration_path (hm_path m) i)) =
        map (stamped (hm_boundary_id m)) (boundary_elements s c (child_hydration_path (hm_path m) i))"
      if "(i, c) \<in> set (enumerate 0 (el_children e))" for i c
      using "1.IH" [OF refl _ _ refl] that by (simp add: stamp_element_def)
    note kids = annotate_children_elements [of 0 "el_children e", OF this]
    show ?thesis using False kids
      by (simp add: annotate_Element is_island_stamp as_attr_value_def del: annotate_with_marker.simps(1))
  qed
next
  case (2 ns m)
  have "map shown (boundary_elements s (annotate_with_marker c (marker_child m i)) (child_hydration_path (hm_path m) i)) =
      map (stamped (hm_boundary_id m)) (boundary_elements s c (child_hydration_path (hm_path m) i))"
    if "(i, c) \<in> set (enumerate 0 ns)" for i c
    using "2.IH" [OF that refl] by simp
  from annotate_children_elements [of 0 ns, OF this] show ?case by simp
qed simp_all

lemma find_snoc: "find P (xs @ [x]) = (case find P xs of Some y \<Rightarrow> Some y | None \<Rightarrow> if P x then Some x else None)"
  by (induction xs) (auto split: option.splits)

lemma marker_stamp:
  "marker_in (stamp_if_absent v attrs) = (case marker_in attrs of Some w \<Rightarrow> Some w | None \<Rightarrow> Some v)"
proof (cases "find (\<lambda>a. at_name a = HYDRATION_NODE_ID_ATTR) attrs")
  case None
  then have "\<not> list_ex (\<lambda>a. at_name a = HYDRATION_NODE_ID_ATTR) attrs" by (auto simp: find_None_iff list_ex_iff)
  with None show ?thesis by (simp add: marker_in_def stamp_if_absent_def find_snoc attribute_new_def)
next
  case (Some a)
  then have "list_ex (\<lambda>a. at_name a = HYDRATION_NODE_ID_ATTR) attrs" by (auto simp: find_Some_iff list_ex_iff)
  with Some show ?thesis by (simp add: marker_in_def stamp_if_absent_def)
qed

lemma markers_of_annotated:
  "map (\<lambda>(p, e). marker_of e) (boundary_elements s (annotate_with_marker n m) (hm_path m)) =
   map (\<lambda>(p, e). case marker_of e of Some w \<Rightarrow> Some w | None \<Rightarrow> Some (hm_boundary_id m @ ''/'' @ p))
     (boundary_elements s n (hm_path m))"
proof -
  let ?f = "\<lambda>(p :: string, t :: string, as :: 's attribute list, ev :: string list). marker_in as"
  have read: "?f \<circ> shown = (\<lambda>(p, e). marker_of e)"
    by (rule ext) (auto simp: marker_of_def)
  have stamp: "?f \<circ> stamped b = (\<lambda>(p, e). case marker_of e of Some w \<Rightarrow> Some w | None \<Rightarrow> Some (b @ ''/'' @ p))" for b
    by (rule ext) (auto simp: marker_stamp marker_of_def split: option.splits)
  have "map (?f \<circ> shown) (boundary_elements s (annotate_with_marker n m) (hm_path m)) =
        map (?f \<circ> stamped (hm_boundary_id m)) (boundary_elements s n (hm_path m))"
    by (simp only: map_map [symmetric] annotated_elements)
  then show ?thesis unfolding read stamp .
qed

definition path_chars :: "string \<Rightarrow> bool" where
  "path_chars p = (p \<noteq> [] \<and> (\<forall>c \<in> set p. \<not> is_ws c))"

lemma path_chars_child: "path_chars p \<Longrightarrow> path_chars (child_hydration_path p i)"
proof -
  have "\<not> is_ws (CHR ''.'')" by code_simp
  then show "path_chars p \<Longrightarrow> path_chars (child_hydration_path p i)"
    by (auto simp: path_chars_def child_hydration_path_def dest: set_show_nat)
qed

lemma boundary_elements_chars: "path_chars p \<Longrightarrow> (q, e) \<in> set (boundary_elements s n p) \<Longrightarrow> path_chars q"
proof (induction s n p arbitrary: q e rule: boundary_elements.induct)
  case (1 s el p)
  show ?case
  proof (cases "(q, e) = (p, el)")
    case False
    with "1.prems" obtain i c where ic: "(i, c) \<in> set (enumerate 0 (el_children el))" "\<not> is_island el"
      "(q, e) \<in> set (boundary_elements s c (child_hydration_path p i))" by (auto split: if_splits)
    show ?thesis by (rule "1.IH" [OF ic(2,1) refl path_chars_child [OF "1.prems"(1)] ic(3)])
  qed (use "1.prems" in simp)
next
  case (2 s ns p)
  from "2.prems" obtain i c where ic: "(i, c) \<in> set (enumerate 0 ns)" "(q, e) \<in> set (boundary_elements s c (child_hydration_path p i))"
    by auto
  show ?case by (rule "2.IH" [OF ic(1) refl path_chars_child [OF "2.prems"(1)] ic(2)])
qed simp_all

lemma marker_round_trip:
  assumes "b \<noteq> []" "CHR ''/'' \<notin> set b" "trim b = b" "path_chars p"
  shows "marker_parse (as_attr_value (marker_new b p)) = Some (marker_new b p)"
proof -
  have "split_once (CHR ''/'') (b @ ''/'' @ p) = Some (b, p)" using assms(2) by (simp add: split_once_Some)
  moreover have "trim p = p" using assms(4) by (intro trim_id) (simp add: path_chars_def)
  ultimately show ?thesis using assms
    by (simp add: marker_parse_def as_attr_value_def marker_new_def Let_def path_chars_def)
qed

text \<open>
  What annotation of the boundary \<open>b\<close> is to make of an element \<open>e\<close> at position \<open>p\<close>: one that has a
  marker keeps its attributes as they are, any other gets one attribute more, at the end, from which
  the boundary and the position can be read back. Its tag and events stay.
\<close>

definition annotated_as :: "string \<Rightarrow> (string \<times> 's element) \<times> string \<times> 's element \<Rightarrow> bool" where
  "annotated_as b = (\<lambda>((p, e), (p', e')).
     p' = p \<and> el_tag e' = el_tag e \<and> el_events e' = el_events e \<and>
     (if marker_of e = None
      then el_attributes e' =
             el_attributes e @ [\<lparr>at_name = HYDRATION_NODE_ID_ATTR, at_value = b @ ''/'' @ p, at_dynamic = None\<rparr>] \<and>
           Option.bind (marker_of e') marker_parse = Some \<lparr>hm_boundary_id = b, hm_path = p\<rparr>
      else el_attributes e' = el_attributes e))"

lemma annotated_asI:
  assumes "shown (p', e') = stamped b (p, e)" and "marker_parse (b @ ''/'' @ p) = Some (marker_new b p)"
  shows "annotated_as b ((p, e), (p', e'))"
proof (cases "marker_of e")
  case None
  then have "\<not> list_ex (\<lambda>a. at_name a = HYDRATION_NODE_ID_ATTR) (el_attributes e)"
    by (auto simp: marker_of_def marker_in_def find_None_iff list_ex_iff)
  moreover have "marker_of e' = Some (b @ ''/'' @ p)"
    using assms(1) None by (simp add: marker_of_def marker_stamp)
  ultimately show ?thesis
    using assms None by (simp add: annotated_as_def stamp_if_absent_def attribute_new_def marker_new_def)
next
  case (Some w)
  then have "list_ex (\<lambda>a. at_name a = HYDRATION_NODE_ID_ATTR) (el_attributes e)"
    by (auto simp: marker_of_def marker_in_def find_Some_iff list_ex_iff)
  with assms Some show ?thesis by (simp add: annotated_as_def stamp_if_absent_def)
qed

lemma zip_same_map:
  assumes "map f ys = map g xs" and "(x, y) \<in> set (zip xs ys)"
  shows "f y = g x"
proof -
  obtain i where "i < length xs" "i < length ys" "x = xs ! i" "y = ys ! i"
    using assms(2) by (auto simp: set_zip)
  then show ?thesis using arg_cong [OF assms(1), of "\<lambda>zs. zs ! i"] by simp
qed

lemma distinct_filter_zip:
  assumes "distinct (map fst xs)" and "length ys = length xs"
    and "\<And>x y. (x, y) \<in> set (zip xs ys) \<Longrightarrow> P x \<Longrightarrow> h y = Some (b @ ''/'' @ fst x)"
  shows "distinct (map (\<lambda>(x, y). h y) (filter (\<lambda>(x, y). P x) (zip xs ys)))"
  using assms(2,1,3)
proof (induction ys xs rule: list_induct2)
  case Nil
  then show ?case by simp
next
  case (Cons y ys x xs)
  have "h y \<notin> (\<lambda>(x, y). h y) ` {z \<in> set (zip xs ys). case z of (x, y) \<Rightarrow> P x}" if "P x"
  proof
    assume "h y \<in> (\<lambda>(x, y). h y) ` {z \<in> set (zip xs ys). case z of (x, y) \<Rightarrow> P x}"
    then obtain x' y' where z: "(x', y') \<in> set (zip xs ys)" "P x'" "h y = h y'" by auto
    with Cons.prems(2) [of x' y'] Cons.prems(2) [of x y] that have "fst x = fst x'" by simp
    with z(1) Cons.prems(1) show False by (auto dest: set_zip_leftD)
  qed
  with Cons show ?case by auto
qed

text \<open>
  C12: an annotated island identifies its elements. Whatever state the tree is rendered in, through
  fragments and reactive parts, and whatever markers the tree already has (the keys of rows, the
  inside of islands nested in it): the elements of the boundary are the same, at the same positions
  and with the same tags and events; an element that has a marker keeps it and all its attributes;
  every other element gets exactly one attribute more, which parses back to the boundary and its own
  position, and no two of the markers given out are equal.
\<close>

theorem annotation_identifies_every_element:
  assumes "b \<noteq> []" "CHR ''/'' \<notin> set b" "trim b = b"
  defines "pairs \<equiv> \<lambda>s n. zip (boundary_elements s n ''0'') (boundary_elements s (annotate_hydration_tree n b) ''0'')"
  shows "length (boundary_elements s (annotate_hydration_tree n b) ''0'') = length (boundary_elements s n ''0'') \<and>
    list_all (annotated_as b) (pairs s n) \<and>
    distinct (map (\<lambda>(x, y). marker_of (snd y)) (filter (\<lambda>(x, y). marker_of (snd x) = None) (pairs s n)))"
proof -
  let ?before = "boundary_elements s n ''0''" and ?after = "boundary_elements s (annotate_hydration_tree n b) ''0''"
  have root: "hm_path (marker_root b) = ''0''" "hm_boundary_id (marker_root b) = b"
    by (simp_all add: marker_root_def marker_new_def)
  have same: "map shown ?after = map (stamped b) ?before"
    using annotated_elements [of s n "marker_root b"] by (simp add: annotate_hydration_tree_def root)
  have len: "length ?after = length ?before" using arg_cong [OF same, of length] by simp
  have "path_chars ''0''" by code_simp
  then have parse: "marker_parse (b @ ''/'' @ p) = Some (marker_new b p)" if "(p, e) \<in> set ?before" for p e
    using marker_round_trip [OF assms(1-3), of p] boundary_elements_chars that
    by (fastforce simp: as_attr_value_def marker_new_def)
  have as: "annotated_as b ((p, e), (p', e'))" if "((p, e), (p', e')) \<in> set (zip ?before ?after)" for p e p' e'
    using zip_same_map [OF same that] parse [OF set_zip_leftD [OF that]] by (rule annotated_asI)
  have new: "marker_of (snd y) = Some (b @ ''/'' @ fst x)"
    if "(x, y) \<in> set (zip ?before ?after)" "marker_of (snd x) = None" for x y
    using zip_same_map [OF same that(1)] that(2)
    by (cases x; cases y) (simp add: marker_of_def marker_stamp)
  have paths: "distinct (map fst ?before)" using boundary_elements_paths [of "''0''" s n] by simp
  have "distinct (map (\<lambda>(x, y). marker_of (snd y)) (filter (\<lambda>(x, y). marker_of (snd x) = None) (zip ?before ?after)))"
    by (rule distinct_filter_zip [OF paths len]) (rule new)
  with as len show ?thesis by (auto simp: pairs_def list_all_iff)
qed

text \<open>A list with two keyed rows, a cell in each, and an island nested in it.\<close>

definition sample_island :: "bool node" where
  "sample_island = Element (MkElement ''div'' [] [Text ''t'',
     with_key (Element (MkElement ''li'' [] [Element (MkElement ''i'' [] [] [])] [])) ''r1'',
     with_key (Element (MkElement ''li'' [] [Element (MkElement ''i'' [] [] [])] [])) ''r2'',
     Dynamic (\<lambda>s. Fragment (if s then [Element (MkElement ''b'' [] [] [])] else [])),
     Element (MkElement ''p'' [attribute_new ISLAND_NAME_ATTR ''nested''] [Element (MkElement ''u'' [] [] [])] [])] [])"

theorem annotation_identifies_every_element_witness:
  "map (\<lambda>(p, e). marker_of e) (boundary_elements True (annotate_hydration_tree sample_island ''a:1'') ''0'') =
     map Some [''a:1/0'', ''r1'', ''a:1/0.1.0'', ''r2'', ''a:1/0.2.0'', ''a:1/0.3.0'', ''a:1/0.4''] \<and>
   distinct [''a:1/0'', ''a:1/0.1.0'', ''a:1/0.2.0'', ''a:1/0.3.0'', ''a:1/0.4'']"
proof -
  have "trim ''a:1'' = ''a:1''" by code_simp
  from annotation_identifies_every_element [of "''a:1''" True sample_island, OF _ _ this]
  have "list_all (annotated_as ''a:1'') (zip (boundary_elements True sample_island ''0'')
      (boundary_elements True (annotate_hydration_tree sample_island ''a:1'') ''0''))" by simp
  moreover have "map (\<lambda>(p, e). marker_of e) (boundary_elements True (annotate_hydration_tree sample_island ''a:1'') ''0'') =
     map Some [''a:1/0'', ''r1'', ''a:1/0.1.0'', ''r2'', ''a:1/0.2.0'', ''a:1/0.3.0'', ''a:1/0.4'']"
    by code_simp
  ultimately show ?thesis by simp
qed

text \<open>The key of a row survives annotation.\<close>

lemma keyed_row_keeps_its_key:
  assumes "marker_of e = None"
  shows "boundary_elements s (annotate_with_marker (with_key (Element e) k) m) p \<noteq> [] \<and>
    marker_of (snd (hd (boundary_elements s (annotate_with_marker (with_key (Element e) k) m) p))) = Some k"
  using assms
  by (simp add: annotate_Element marker_of_def stamp_element_def marker_stamp del: annotate_with_marker.simps(1))

end
