(* ===== verification/PageHead.thy ===== *)
theory PageHead
  imports HtmlTokens
begin

text \<open>
  The \<open><head>\<close> of a page, \<open>krab_core/src/head.rs\<close>: its tags, the builder, the merge of a child route into
  its layout, and the rendering. The extra attributes of a tag are a \<open>HashMap\<close>, here an association list:
  whatever is proved holds for every order of it.
\<close>

subsection \<open>Tags\<close>

datatype meta_attr_type = Name | Property | HttpEquiv

record meta_tag =
  mt_attr_type :: meta_attr_type
  mt_key :: string
  mt_content :: string

record link_tag =
  lt_rel :: string
  lt_href :: string
  lt_extra_attrs :: "string hashmap"

record script_tag =
  st_src :: "string option"
  st_inline_content :: "string option"
  st_is_module :: bool
  st_is_async :: bool
  st_is_defer :: bool
  st_extra_attrs :: "string hashmap"

definition html_escape :: "string \<Rightarrow> string" where
  "html_escape s =
     replace_char (CHR ''>'') ''&gt;''
       (replace_char (CHR ''<'') ''&lt;''
         (replace_char (CHR 0x22) ''&quot;''
           (replace_char (CHR ''&'') ''&amp;'' s)))"

text \<open>The piece \<open>name="value"\<close> of the format strings.\<close>

definition fmt_attr :: "string \<Rightarrow> string \<Rightarrow> string" where
  "fmt_attr name escaped = name @ [CHR ''='', CHR 0x22] @ escaped @ [CHR 0x22]"

definition extra_attr_allowed :: "string \<Rightarrow> bool" where
  "extra_attr_allowed name =
     (is_valid_attr_name name \<and> \<not> (length name \<ge> 2 \<and> eq_ignore_ascii_case (take 2 name) ''on''))"

definition render_extra_attrs :: "string hashmap \<Rightarrow> string" where
  "render_extra_attrs extra =
     concat (map (\<lambda>(key, value). if \<not> extra_attr_allowed key then [] else '' '' @ fmt_attr (html_escape key) (html_escape value)) extra)"

definition render_meta :: "meta_tag \<Rightarrow> string" where
  "render_meta t =
     (let attr = (case mt_attr_type t of Name \<Rightarrow> ''name'' | Property \<Rightarrow> ''property'' | HttpEquiv \<Rightarrow> ''http-equiv'')
      in ''<meta '' @ fmt_attr attr (html_escape (mt_key t)) @ '' '' @ fmt_attr ''content'' (html_escape (mt_content t)) @ ''/>'')"

definition render_link :: "link_tag \<Rightarrow> string" where
  "render_link t =
     (let attrs = fmt_attr ''rel'' (html_escape (lt_rel t)) @ '' '' @ fmt_attr ''href'' (html_escape (lt_href t)) @
            render_extra_attrs (lt_extra_attrs t)
      in ''<link '' @ attrs @ ''/>'')"

definition escape_json_for_script :: "string \<Rightarrow> string" where
  "escape_json_for_script json =
     replace_char (CHR ''&'') (CHR 0x5C # ''u0026'')
       (replace_char (CHR ''>'') (CHR 0x5C # ''u003e'')
         (replace_char (CHR ''<'') (CHR 0x5C # ''u003c'') json))"

definition escape_inline_script :: "string \<Rightarrow> string" where
  "escape_inline_script content = escape_raw_text ''script'' content"

definition render_script :: "script_tag \<Rightarrow> string" where
  "render_script t =
     (let attrs =
        (case st_src t of Some src \<Rightarrow> '' '' @ fmt_attr ''src'' (html_escape src) | None \<Rightarrow> []) @
        (if st_is_module t then '' '' @ fmt_attr ''type'' ''module'' else []) @
        (if st_is_async t then '' async'' else []) @
        (if st_is_defer t then '' defer'' else []) @
        render_extra_attrs (st_extra_attrs t)
      in case st_inline_content t of
           Some content \<Rightarrow> ''<script'' @ attrs @ ''>'' @ escape_inline_script content @ ''</script>''
         | None \<Rightarrow> ''<script'' @ attrs @ ''></script>'')"

subsection \<open>The head context\<close>

record head_context =
  hc_title :: "string option"
  hc_description :: "string option"
  hc_canonical :: "string option"
  hc_og_type :: "string option"
  hc_og_image :: "string option"
  hc_robots :: "string option"
  hc_charset :: string
  hc_viewport :: string
  hc_meta_tags :: "meta_tag list"
  hc_link_tags :: "link_tag list"
  hc_script_tags :: "script_tag list"
  hc_json_ld :: "string option"

definition head_new :: head_context where
  "head_new =
     \<lparr>hc_title = None, hc_description = None, hc_canonical = None, hc_og_type = None, hc_og_image = None, hc_robots = None,
      hc_charset = ''utf-8'', hc_viewport = ''width=device-width, initial-scale=1.0'', hc_meta_tags = [], hc_link_tags = [],
      hc_script_tags = [], hc_json_ld = None\<rparr>"

definition title :: "string \<Rightarrow> head_context \<Rightarrow> head_context" where
  "title t h = h\<lparr>hc_title := Some t\<rparr>"

definition description :: "string \<Rightarrow> head_context \<Rightarrow> head_context" where
  "description d h = h\<lparr>hc_description := Some d\<rparr>"

definition canonical :: "string \<Rightarrow> head_context \<Rightarrow> head_context" where
  "canonical url h = h\<lparr>hc_canonical := Some url\<rparr>"

definition og_type :: "string \<Rightarrow> head_context \<Rightarrow> head_context" where
  "og_type og h = h\<lparr>hc_og_type := Some og\<rparr>"

definition og_image :: "string \<Rightarrow> head_context \<Rightarrow> head_context" where
  "og_image url h = h\<lparr>hc_og_image := Some url\<rparr>"

definition robots :: "string \<Rightarrow> head_context \<Rightarrow> head_context" where
  "robots directive h = h\<lparr>hc_robots := Some directive\<rparr>"

definition json_ld :: "string \<Rightarrow> head_context \<Rightarrow> head_context" where
  "json_ld json h = h\<lparr>hc_json_ld := Some json\<rparr>"

definition meta :: "string \<Rightarrow> string \<Rightarrow> head_context \<Rightarrow> head_context" where
  "meta name content h =
     h\<lparr>hc_meta_tags := hc_meta_tags h @ [\<lparr>mt_attr_type = Name, mt_key = name, mt_content = content\<rparr>]\<rparr>"

definition meta_property :: "string \<Rightarrow> string \<Rightarrow> head_context \<Rightarrow> head_context" where
  "meta_property property content h =
     h\<lparr>hc_meta_tags := hc_meta_tags h @ [\<lparr>mt_attr_type = Property, mt_key = property, mt_content = content\<rparr>]\<rparr>"

definition link :: "string \<Rightarrow> string \<Rightarrow> head_context \<Rightarrow> head_context" where
  "link rel href h = h\<lparr>hc_link_tags := hc_link_tags h @ [\<lparr>lt_rel = rel, lt_href = href, lt_extra_attrs = []\<rparr>]\<rparr>"

definition link_stylesheet :: "string \<Rightarrow> head_context \<Rightarrow> head_context" where
  "link_stylesheet href h =
     h\<lparr>hc_link_tags := hc_link_tags h @ [\<lparr>lt_rel = ''stylesheet'', lt_href = href, lt_extra_attrs = []\<rparr>]\<rparr>"

definition link_preload :: "string \<Rightarrow> string \<Rightarrow> head_context \<Rightarrow> head_context" where
  "link_preload href as_type h =
     h\<lparr>hc_link_tags := hc_link_tags h @
         [\<lparr>lt_rel = ''preload'', lt_href = href, lt_extra_attrs = hm_insert ''as'' as_type []\<rparr>]\<rparr>"

definition push_script :: "script_tag \<Rightarrow> head_context \<Rightarrow> head_context" where
  "push_script t h = h\<lparr>hc_script_tags := hc_script_tags h @ [t]\<rparr>"

definition script :: "string \<Rightarrow> head_context \<Rightarrow> head_context" where
  "script src = push_script
     \<lparr>st_src = Some src, st_inline_content = None, st_is_module = False, st_is_async = False, st_is_defer = True, st_extra_attrs = []\<rparr>"

definition script_module :: "string \<Rightarrow> head_context \<Rightarrow> head_context" where
  "script_module src = push_script
     \<lparr>st_src = Some src, st_inline_content = None, st_is_module = True, st_is_async = False, st_is_defer = False, st_extra_attrs = []\<rparr>"

definition script_inline :: "string \<Rightarrow> head_context \<Rightarrow> head_context" where
  "script_inline content = push_script
     \<lparr>st_src = None, st_inline_content = Some content, st_is_module = False, st_is_async = False, st_is_defer = False,
      st_extra_attrs = []\<rparr>"

subsection \<open>Merging a child route into its layout\<close>

definition child_wins :: "'a option \<Rightarrow> 'a option \<Rightarrow> 'a option" where
  "child_wins parent child = (case child of Some v \<Rightarrow> Some v | None \<Rightarrow> parent)"

definition same_meta :: "meta_tag \<Rightarrow> meta_tag \<Rightarrow> bool" where
  "same_meta t u = (mt_attr_type t = mt_attr_type u \<and> mt_key t = mt_key u)"

text \<open>Replace the first tag with the same attribute and key, or append.\<close>

fun put_meta :: "meta_tag \<Rightarrow> meta_tag list \<Rightarrow> meta_tag list" where
  "put_meta t [] = [t]"
| "put_meta t (u # us) = (if same_meta u t then t # us else u # put_meta t us)"

definition merge_head :: "head_context \<Rightarrow> head_context \<Rightarrow> head_context" where
  "merge_head h child =
     h\<lparr>hc_title := child_wins (hc_title h) (hc_title child),
       hc_description := child_wins (hc_description h) (hc_description child),
       hc_canonical := child_wins (hc_canonical h) (hc_canonical child),
       hc_og_type := child_wins (hc_og_type h) (hc_og_type child),
       hc_og_image := child_wins (hc_og_image h) (hc_og_image child),
       hc_robots := child_wins (hc_robots h) (hc_robots child),
       hc_json_ld := child_wins (hc_json_ld h) (hc_json_ld child),
       hc_meta_tags := fold put_meta (hc_meta_tags child) (hc_meta_tags h),
       hc_link_tags := hc_link_tags h @ hc_link_tags child,
       hc_script_tags := hc_script_tags h @ hc_script_tags child\<rparr>"

subsection \<open>Rendering\<close>

definition opt_part :: "'a option \<Rightarrow> ('a \<Rightarrow> string) \<Rightarrow> string list" where
  "opt_part v f = (case v of Some x \<Rightarrow> [f x] | None \<Rightarrow> [])"

definition meta_part :: "string \<Rightarrow> string \<Rightarrow> string \<Rightarrow> string" where
  "meta_part attr key content = ''<meta '' @ fmt_attr attr key @ '' '' @ fmt_attr ''content'' (html_escape content) @ ''/>''"

definition head_parts :: "head_context \<Rightarrow> string list" where
  "head_parts h =
     [''<meta '' @ fmt_attr ''charset'' (html_escape (hc_charset h)) @ ''/>''] @
     (if hc_viewport h \<noteq> [] then [meta_part ''name'' ''viewport'' (hc_viewport h)] else []) @
     opt_part (hc_title h) (\<lambda>t. ''<title>'' @ html_escape t @ ''</title>'') @
     opt_part (hc_description h) (meta_part ''name'' ''description'') @
     opt_part (hc_canonical h) (\<lambda>c. ''<link '' @ fmt_attr ''rel'' ''canonical'' @ '' '' @ fmt_attr ''href'' (html_escape c) @ ''/>'') @
     opt_part (hc_robots h) (meta_part ''name'' ''robots'') @
     opt_part (hc_title h) (meta_part ''property'' ''og:title'') @
     opt_part (hc_description h) (meta_part ''property'' ''og:description'') @
     opt_part (hc_og_type h) (meta_part ''property'' ''og:type'') @
     opt_part (hc_og_image h) (meta_part ''property'' ''og:image'') @
     opt_part (hc_canonical h) (meta_part ''property'' ''og:url'') @
     map render_meta (hc_meta_tags h) @
     map render_link (hc_link_tags h) @
     map render_script (hc_script_tags h) @
     opt_part (hc_json_ld h) (\<lambda>j.
       ''<script '' @ fmt_attr ''type'' ''application/ld+json'' @ ''>'' @ escape_json_for_script j @ ''</script>'')"

definition render_tags :: "head_context \<Rightarrow> string" where
  "render_tags h = join [CHR 0x0A] (head_parts h)"

subsection \<open>What a browser reads\<close>

definition allowed_extra :: "string hashmap \<Rightarrow> (string \<times> string) list" where
  "allowed_extra extra = filter (\<lambda>a. extra_attr_allowed (fst a)) extra"

definition meta_token :: "string \<Rightarrow> string \<Rightarrow> string \<Rightarrow> token list" where
  "meta_token attr key content = [StartTag ''meta'' [(attr, key), (''content'', content)]]"

definition meta_attr_name :: "meta_attr_type \<Rightarrow> string" where
  "meta_attr_name a = (case a of Name \<Rightarrow> ''name'' | Property \<Rightarrow> ''property'' | HttpEquiv \<Rightarrow> ''http-equiv'')"

definition link_token :: "link_tag \<Rightarrow> token list" where
  "link_token t = [StartTag ''link'' ((''rel'', lt_rel t) # (''href'', lt_href t) # allowed_extra (lt_extra_attrs t))]"

definition element_tokens :: "string \<Rightarrow> (string \<times> string) list \<Rightarrow> string \<Rightarrow> token list" where
  "element_tokens tag attrs body = StartTag tag attrs # map Char body @ [EndTag tag]"

definition script_attrs :: "script_tag \<Rightarrow> (string \<times> string) list" where
  "script_attrs t =
     (case st_src t of Some src \<Rightarrow> [(''src'', src)] | None \<Rightarrow> []) @
     (if st_is_module t then [(''type'', ''module'')] else []) @
     (if st_is_async t then [(''async'', [])] else []) @
     (if st_is_defer t then [(''defer'', [])] else []) @
     allowed_extra (st_extra_attrs t)"

definition script_tokens :: "script_tag \<Rightarrow> token list" where
  "script_tokens t =
     element_tokens ''script'' (script_attrs t) (case st_inline_content t of Some c \<Rightarrow> escape_inline_script c | None \<Rightarrow> [])"

definition opt_tokens :: "'a option \<Rightarrow> ('a \<Rightarrow> token list) \<Rightarrow> token list list" where
  "opt_tokens v f = (case v of Some x \<Rightarrow> [f x] | None \<Rightarrow> [])"

definition head_part_tokens :: "head_context \<Rightarrow> token list list" where
  "head_part_tokens h =
     [[StartTag ''meta'' [(''charset'', hc_charset h)]]] @
     (if hc_viewport h \<noteq> [] then [meta_token ''name'' ''viewport'' (hc_viewport h)] else []) @
     opt_tokens (hc_title h) (element_tokens ''title'' []) @
     opt_tokens (hc_description h) (meta_token ''name'' ''description'') @
     opt_tokens (hc_canonical h) (\<lambda>c. [StartTag ''link'' [(''rel'', ''canonical''), (''href'', c)]]) @
     opt_tokens (hc_robots h) (meta_token ''name'' ''robots'') @
     opt_tokens (hc_title h) (meta_token ''property'' ''og:title'') @
     opt_tokens (hc_description h) (meta_token ''property'' ''og:description'') @
     opt_tokens (hc_og_type h) (meta_token ''property'' ''og:type'') @
     opt_tokens (hc_og_image h) (meta_token ''property'' ''og:image'') @
     opt_tokens (hc_canonical h) (meta_token ''property'' ''og:url'') @
     map (\<lambda>t. meta_token (meta_attr_name (mt_attr_type t)) (mt_key t) (mt_content t)) (hc_meta_tags h) @
     map link_token (hc_link_tags h) @
     map script_tokens (hc_script_tags h) @
     opt_tokens (hc_json_ld h) (\<lambda>j. element_tokens ''script'' [(''type'', ''application/ld+json'')] (escape_json_for_script j))"

text \<open>Parts are on lines of their own.\<close>

fun on_lines :: "token list list \<Rightarrow> token list" where
  "on_lines [] = []"
| "on_lines [ts] = ts"
| "on_lines (ts # us # tss) = ts @ Char (CHR 0x0A) # on_lines (us # tss)"

definition head_tokens :: "head_context \<Rightarrow> token list" where
  "head_tokens h = on_lines (head_part_tokens h)"

definition reads :: "string \<Rightarrow> token list \<Rightarrow> bool" where
  "reads p ts = (\<forall>r. tokenize (p @ r) = map_option (append ts) (tokenize r))"

lemma readsD: "reads p ts \<Longrightarrow> tokenize (p @ r) = map_option (append ts) (tokenize r)"
  by (simp add: reads_def)

lemma append_nothing: "(@) [] = (\<lambda>x. x)"
  by auto

lemma reads_join: "list_all2 reads ps tss \<Longrightarrow> reads (join [CHR 0x0A] ps) (on_lines tss)"
proof (induction "[CHR 0x0A]" ps arbitrary: tss rule: join.induct)
  case (3 p q ps)
  then obtain ts us tss' where tss: "tss = ts # us # tss'" "reads p ts"
    and rest: "list_all2 reads (q # ps) (us # tss')" by (auto simp: list_all2_Cons1)
  have "reads (join [CHR 0x0A] (q # ps)) (on_lines (us # tss'))" using "3.hyps" rest by simp
  then have "tokenize (join [CHR 0x0A] (q # ps) @ r) = map_option (append (on_lines (us # tss'))) (tokenize r)" for r
    by (rule readsD)
  then have "tokenize (join [CHR 0x0A] (p # q # ps) @ r) = map_option (append (on_lines tss)) (tokenize r)" for r
    using readsD [OF tss(2)] tss(1)
    by (cases "tokenize r") (auto simp: tokenize.simps(2) [of "CHR 0x0A"] read_char_def)
  then show ?case by (simp add: reads_def)
qed (auto simp: reads_def list_all2_Cons1 append_nothing option.map_ident)

lemma html_escape_eq: "html_escape = escape_html_attr"
  by (rule ext) (simp add: html_escape_def escape_html_attr_def)

text \<open>Text that escaping leaves alone.\<close>

definition plain :: "string \<Rightarrow> bool" where
  "plain s = (escape_html_attr s = s)"

lemma plain_literals:
  "plain ''name''" "plain ''property''" "plain ''viewport''" "plain ''description''" "plain ''robots''" "plain ''canonical''"
  "plain ''og:title''" "plain ''og:description''" "plain ''og:type''" "plain ''og:image''" "plain ''og:url''" "plain ''module''"
  "plain ''application/ld+json''"
  by code_simp+

lemma head_names_valid:
  "is_valid_attr_name ''name''" "is_valid_attr_name ''property''" "is_valid_attr_name ''http-equiv''"
  "is_valid_attr_name ''content''" "is_valid_attr_name ''charset''" "is_valid_attr_name ''rel''" "is_valid_attr_name ''href''"
  "is_valid_attr_name ''src''" "is_valid_attr_name ''type''" "is_valid_attr_name ''async''" "is_valid_attr_name ''defer''"
  by code_simp+

lemma head_tags_valid:
  "valid_tag ''meta''" "valid_tag ''link''" "valid_tag ''title''" "valid_tag ''script''"
  "\<not> is_raw_text_element ''meta''" "\<not> is_raw_text_element ''link''" "\<not> is_raw_text_element ''title''"
  "is_raw_text_element ''script''"
  by code_simp+

lemma extra_items:
  "render_extra_attrs extra = attr_text (map (apsnd Some) (allowed_extra extra))"
  "valid_items (map (apsnd Some) (allowed_extra extra))"
proof -
  have name: "escape_html_attr k = k" if "is_valid_attr_name k" for k
  proof -
    have "attr_ref c = [c]" if "c \<in> set k" for c
      using valid_attr_name_chars [OF \<open>is_valid_attr_name k\<close> that] is_valid_attr_name_plain [OF \<open>is_valid_attr_name k\<close> that]
      by (auto simp: attr_ref_def text_ref_def)
    then show ?thesis unfolding escape_html_attr_refs by (induction k) simp_all
  qed
  show "render_extra_attrs extra = attr_text (map (apsnd Some) (allowed_extra extra))"
    by (induction extra)
      (auto simp: render_extra_attrs_def allowed_extra_def attr_text_def attr_item_text_def fmt_attr_def html_escape_eq
        extra_attr_allowed_def name)
  show "valid_items (map (apsnd Some) (allowed_extra extra))"
    by (auto simp: valid_items_def allowed_extra_def extra_attr_allowed_def list_all_iff)
qed

lemma reads_void:
  assumes "valid_tag tag" "\<not> is_raw_text_element tag" "valid_items items"
  shows "reads (''<'' @ tag @ attr_text items @ ''/>'') [StartTag tag (map item_value items)]"
  using tokenize_start_tag [OF assms(1,3) _ assms(2), of "''/>''"] by (simp add: reads_def)

lemma reads_script:
  assumes "valid_items items" "\<not> str_contains (ascii_lower body) ''</script''" "\<not> str_contains body ''<!--''"
  shows "reads (''<script'' @ attr_text items @ ''>'' @ body @ ''</script>'') (element_tokens ''script'' (map item_value items) body)"
  using tokenize_raw [OF head_tags_valid(4) assms(1) head_tags_valid(8), of body] assms(2,3) raw_names
  by (simp add: reads_def element_tokens_def)

lemma reads_title: "reads (''<title>'' @ html_escape t @ ''</title>'') (element_tokens ''title'' [] t)"
proof -
  have "tokenize (''<title>'' @ html_escape t @ ''</title>'' @ r) =
      map_option (append (element_tokens ''title'' [] t)) (tokenize r)" for r
    using tokenize_start_tag [OF head_tags_valid(3) _ _ head_tags_valid(7), of "[]" "''>''" "html_escape t @ ''</title>'' @ r"]
      tokenize_attr_text [of t "''</title>'' @ r"] tokenize_end_tag [OF head_tags_valid(3), of r]
    by (cases "tokenize r") (simp_all add: valid_items_def attr_text_def html_escape_eq element_tokens_def)
  then show ?thesis by (simp add: reads_def)
qed

lemma reads_meta_part:
  assumes "is_valid_attr_name attr"
  shows "reads (''<meta '' @ fmt_attr attr (html_escape key) @ '' '' @ fmt_attr ''content'' (html_escape c) @ ''/>'') (meta_token attr key c)"
  using reads_void [OF head_tags_valid(1,5), of "[(attr, Some key), (''content'', Some c)]"] assms head_names_valid
  by (simp add: valid_items_def attr_text_def attr_item_text_def item_value_def fmt_attr_def html_escape_eq meta_token_def)

lemma reads_meta_plain: "is_valid_attr_name attr \<Longrightarrow> plain key \<Longrightarrow> reads (meta_part attr key c) (meta_token attr key c)"
  using reads_meta_part [of attr key c] by (simp add: meta_part_def html_escape_eq plain_def)

lemma reads_meta: "reads (render_meta t) (meta_token (meta_attr_name (mt_attr_type t)) (mt_key t) (mt_content t))"
  using reads_meta_part head_names_valid
  by (cases "mt_attr_type t") (simp_all add: render_meta_def meta_attr_name_def)

lemma reads_charset: "reads (''<meta '' @ fmt_attr ''charset'' (html_escape c) @ ''/>'') [StartTag ''meta'' [(''charset'', c)]]"
  using reads_void [OF head_tags_valid(1,5), of "[(''charset'', Some c)]"] head_names_valid
  by (simp add: valid_items_def attr_text_def attr_item_text_def item_value_def fmt_attr_def html_escape_eq)

lemma reads_link: "reads (render_link t) (link_token t)"
proof -
  let ?items = "(''rel'', Some (lt_rel t)) # (''href'', Some (lt_href t)) # map (apsnd Some) (allowed_extra (lt_extra_attrs t))"
  have "valid_items ?items" using extra_items(2) [of "lt_extra_attrs t"] head_names_valid by (simp add: valid_items_def)
  from reads_void [OF head_tags_valid(2,6) this] show ?thesis
    by (simp add: render_link_def link_token_def extra_items(1) attr_text_def attr_item_text_def item_value_def fmt_attr_def
        html_escape_eq o_def)
qed

lemma reads_canonical:
  "reads (''<link '' @ fmt_attr ''rel'' ''canonical'' @ '' '' @ fmt_attr ''href'' (html_escape c) @ ''/>'')
     [StartTag ''link'' [(''rel'', ''canonical''), (''href'', c)]]"
  using reads_void [OF head_tags_valid(2,6), of "[(''rel'', Some ''canonical''), (''href'', Some c)]"] head_names_valid
    plain_literals(6)
  by (simp add: valid_items_def attr_text_def attr_item_text_def item_value_def fmt_attr_def html_escape_eq plain_def)

definition script_items :: "script_tag \<Rightarrow> (string \<times> string option) list" where
  "script_items t =
     (case st_src t of Some src \<Rightarrow> [(''src'', Some src)] | None \<Rightarrow> []) @
     (if st_is_module t then [(''type'', Some ''module'')] else []) @
     (if st_is_async t then [(''async'', None)] else []) @
     (if st_is_defer t then [(''defer'', None)] else []) @
     map (apsnd Some) (allowed_extra (st_extra_attrs t))"

lemma attr_text_append: "attr_text (a @ b) = attr_text a @ attr_text b"
  by (simp add: attr_text_def)

lemma script_items:
  "valid_items (script_items t)" "map item_value (script_items t) = script_attrs t"
  "attr_text (script_items t) =
     (case st_src t of Some src \<Rightarrow> '' '' @ fmt_attr ''src'' (html_escape src) | None \<Rightarrow> []) @
     (if st_is_module t then '' '' @ fmt_attr ''type'' ''module'' else []) @
     (if st_is_async t then '' async'' else []) @
     (if st_is_defer t then '' defer'' else []) @
     render_extra_attrs (st_extra_attrs t)"
proof -
  show "valid_items (script_items t)"
    using extra_items(2) [of "st_extra_attrs t"] head_names_valid
    by (simp add: script_items_def valid_items_def split: option.splits)
  show "map item_value (script_items t) = script_attrs t"
    by (simp add: script_items_def script_attrs_def item_value_def o_def split: option.splits)
  show "attr_text (script_items t) = (case st_src t of Some src \<Rightarrow> '' '' @ fmt_attr ''src'' (html_escape src) | None \<Rightarrow> []) @
     (if st_is_module t then '' '' @ fmt_attr ''type'' ''module'' else []) @
     (if st_is_async t then '' async'' else []) @
     (if st_is_defer t then '' defer'' else []) @
     render_extra_attrs (st_extra_attrs t)"
    using plain_literals(12)
    by (simp add: script_items_def attr_text_append extra_items(1) html_escape_eq plain_def split: option.splits)
       (simp add: attr_text_def attr_item_text_def fmt_attr_def)
qed

lemma reads_script_tag: "reads (render_script t) (script_tokens t)"
proof -
  let ?body = "case st_inline_content t of Some c \<Rightarrow> escape_inline_script c | None \<Rightarrow> []"
  have "\<not> str_contains (ascii_lower ?body) ''</script''" "\<not> str_contains ?body ''<!--''"
    using raw_text_escaped [OF head_tags_valid(8)] raw_names
    by (simp_all add: escape_inline_script_def split: option.splits)
  from reads_script [OF script_items(1) this, of t]
  have "reads (''<script'' @ attr_text (script_items t) @ ''>'' @ ?body @ ''</script>'') (script_tokens t)"
    by (simp only: script_tokens_def script_items(2))
  moreover have "render_script t = ''<script'' @ attr_text (script_items t) @ ''>'' @ ?body @ ''</script>''"
    by (cases "st_inline_content t") (simp_all add: render_script_def script_items(3) Let_def)
  ultimately show ?thesis by (simp only:)
qed

lemma replace_char_set: "c \<in> set (replace_char d t s) \<Longrightarrow> c \<in> set s \<and> c \<noteq> d \<or> c \<in> set t"
  by (induction s) (auto split: if_splits)

lemma json_chars: "CHR ''<'' \<notin> set (escape_json_for_script j)"
proof
  assume "CHR ''<'' \<in> set (escape_json_for_script j)"
  then have "CHR ''<'' \<in> set (replace_char (CHR ''<'') (CHR 0x5C # ''u003c'') j)"
    unfolding escape_json_for_script_def by (auto dest!: replace_char_set)
  then show False by (auto dest!: replace_char_set)
qed

lemma json_chars_lower: "CHR ''<'' \<notin> set (ascii_lower (escape_json_for_script j))"
proof
  assume "CHR ''<'' \<in> set (ascii_lower (escape_json_for_script j))"
  then obtain d where d: "d \<in> set (escape_json_for_script j)"
    "(let k = of_char d :: nat in if 65 \<le> k \<and> k \<le> 90 then char_of (k + 32) else d) = CHR ''<''"
    by (auto simp: ascii_lower_def)
  have "d = CHR ''<''" using ascii_lower_eq_char [of "CHR ''<''" d] d(2) by simp
  with d(1) json_chars show False by blast
qed

lemma reads_json_ld:
  "reads (''<script '' @ fmt_attr ''type'' ''application/ld+json'' @ ''>'' @ escape_json_for_script j @ ''</script>'')
     (element_tokens ''script'' [(''type'', ''application/ld+json'')] (escape_json_for_script j))"
proof -
  have "\<not> str_contains s (CHR ''<'' # p)" if "CHR ''<'' \<notin> set s" for s p
    using that str_contains_skip [of "CHR ''<''" s "[]" p] by simp
  then show ?thesis
    using reads_script [of "[(''type'', Some ''application/ld+json'')]" "escape_json_for_script j"] head_names_valid(9)
      plain_literals(13) json_chars json_chars_lower
    by (simp add: valid_items_def attr_text_def attr_item_text_def item_value_def fmt_attr_def plain_def)
qed

lemma reads_opt: "(\<And>x. reads (f x) (g x)) \<Longrightarrow> list_all2 reads (opt_part v f) (opt_tokens v g)"
  by (simp add: opt_part_def opt_tokens_def split: option.splits)

lemma reads_map: "(\<And>x. reads (f x) (g x)) \<Longrightarrow> list_all2 reads (map f xs) (map g xs)"
  by (induction xs) simp_all

lemma reads_head_parts: "list_all2 reads (head_parts h) (head_part_tokens h)"
  unfolding head_parts_def head_part_tokens_def
  by (intro list_all2_appendI reads_opt reads_map reads_title reads_canonical reads_meta reads_link reads_script_tag reads_json_ld
      reads_meta_plain head_names_valid plain_literals)
    (simp_all add: reads_charset [simplified] reads_meta_plain head_names_valid plain_literals)

definition event_handler :: "string \<Rightarrow> bool" where
  "event_handler n = (eq_ignore_ascii_case (take 2 n) ''on'')"

definition no_handlers :: "token list \<Rightarrow> bool" where
  "no_handlers ts = (\<forall>tag attrs n v. StartTag tag attrs \<in> set ts \<and> (n, v) \<in> set attrs \<longrightarrow> \<not> event_handler n)"

lemma event_handler_length: "event_handler n \<Longrightarrow> length n \<ge> 2"
proof -
  assume "event_handler n"
  then have "length (ascii_lower (take 2 n)) = length (ascii_lower ''on'')"
    by (simp add: event_handler_def eq_ignore_ascii_case_def)
  then show ?thesis by (simp add: ascii_lower_def)
qed

lemma allowed_no_handler: "(n, v) \<in> set (allowed_extra extra) \<Longrightarrow> \<not> event_handler n"
  using event_handler_length [of n] by (auto simp: allowed_extra_def extra_attr_allowed_def event_handler_def)

lemma literal_no_handler:
  "\<not> event_handler ''name''" "\<not> event_handler ''property''" "\<not> event_handler ''http-equiv''" "\<not> event_handler ''content''"
  "\<not> event_handler ''charset''" "\<not> event_handler ''rel''" "\<not> event_handler ''href''" "\<not> event_handler ''src''"
  "\<not> event_handler ''type''" "\<not> event_handler ''async''" "\<not> event_handler ''defer''"
  by code_simp+

lemma no_handlers_parts:
  "\<not> event_handler attr \<Longrightarrow> no_handlers (meta_token attr key c)"
  "no_handlers (link_token t)"
  "no_handlers (script_tokens u)"
  by (auto simp: no_handlers_def meta_token_def link_token_def script_tokens_def element_tokens_def script_attrs_def literal_no_handler
      dest: allowed_no_handler split: option.splits if_splits)

lemma no_handlers_simps:
  "no_handlers []"
  "no_handlers (a @ b) \<longleftrightarrow> no_handlers a \<and> no_handlers b"
  "no_handlers (Char c # b) \<longleftrightarrow> no_handlers b"
  by (simp_all add: no_handlers_def) blast

lemma no_handlers_on_lines: "\<forall>ts \<in> set tss. no_handlers ts \<Longrightarrow> no_handlers (on_lines tss)"
  by (induction tss rule: on_lines.induct) (simp_all add: no_handlers_simps)

lemma head_no_handlers: "no_handlers (head_tokens h)"
  unfolding head_tokens_def
proof (rule no_handlers_on_lines, rule ballI)
  fix ts assume "ts \<in> set (head_part_tokens h)"
  then show "no_handlers ts"
    by (auto simp: head_part_tokens_def opt_tokens_def no_handlers_parts literal_no_handler meta_attr_name_def
        split: option.splits if_splits meta_attr_type.splits)
      (auto simp: no_handlers_def element_tokens_def literal_no_handler)
qed

text \<open>
  C13: the head of a page is what the route declared. A browser that reads the rendered tags finds exactly
  the declared metadata, links and scripts, one per line, whatever the values contain: no title, key,
  URL or structured data can open another tag or end a script, and no attribute is an event handler.
\<close>

theorem rendered_head_reads_back:
  "tokenize (render_tags h) = Some (head_tokens h) \<and>
   (\<forall>tag attrs n v. StartTag tag attrs \<in> set (head_tokens h) \<and> (n, v) \<in> set attrs \<longrightarrow>
      \<not> eq_ignore_ascii_case (take 2 n) ''on'')"
proof -
  have "tokenize (render_tags h @ []) = map_option (append (head_tokens h)) (tokenize [])"
    unfolding render_tags_def head_tokens_def by (rule readsD [OF reads_join [OF reads_head_parts]])
  with head_no_handlers [of h] show ?thesis
    by (auto simp: no_handlers_def event_handler_def)
qed

definition sample_head :: head_context where
  "sample_head = script_inline ''x</script>'' (title ''a & b'' head_new)"

theorem rendered_head_reads_back_witness:
  "tokenize (render_tags sample_head) = Some (head_tokens sample_head) \<and> \<not> eq_ignore_ascii_case (take 2 ''content'') ''on''"
proof -
  have "StartTag ''meta'' [(''property'', ''og:title''), (''content'', ''a & b'')] \<in> set (head_tokens sample_head)"
    by code_simp
  then show ?thesis using rendered_head_reads_back [of sample_head] by (metis list.set_intros(1,2))
qed

subsection \<open>Merging\<close>

definition meta_key :: "meta_tag \<Rightarrow> meta_attr_type \<times> string" where
  "meta_key t = (mt_attr_type t, mt_key t)"

definition distinct_metas :: "meta_tag list \<Rightarrow> bool" where
  "distinct_metas ts = distinct (map meta_key ts)"

definition lookup_meta :: "meta_tag list \<Rightarrow> meta_attr_type \<times> string \<Rightarrow> string option" where
  "lookup_meta ts k = map_of (map (\<lambda>t. (meta_key t, mt_content t)) ts) k"

lemma same_meta_key: "same_meta t u \<longleftrightarrow> meta_key t = meta_key u"
  by (auto simp: same_meta_def meta_key_def)

lemma put_meta_keys:
  "map meta_key (put_meta t ts) = (if meta_key t \<in> meta_key ` set ts then map meta_key ts else map meta_key ts @ [meta_key t])"
  by (induction ts) (auto simp: same_meta_key)

lemma lookup_put_meta: "lookup_meta (put_meta t ts) k = (if k = meta_key t then Some (mt_content t) else lookup_meta ts k)"
  by (induction ts) (auto simp: lookup_meta_def same_meta_key)

lemma lookup_meta_append:
  "lookup_meta (a @ b) k = (case lookup_meta a k of Some v \<Rightarrow> Some v | None \<Rightarrow> lookup_meta b k)"
  by (simp add: lookup_meta_def map_add_def split: option.splits)

lemma lookup_meta_simps [simp]:
  "lookup_meta [] k = None" "lookup_meta [c] k = (if k = meta_key c then Some (mt_content c) else None)"
  by (simp_all add: lookup_meta_def)

lemma lookup_merged:
  "lookup_meta (fold put_meta cs ts) k = (case lookup_meta (rev cs) k of Some v \<Rightarrow> Some v | None \<Rightarrow> lookup_meta ts k)"
proof (induction cs arbitrary: ts)
  case (Cons c cs)
  show ?case
    using Cons.IH [of "put_meta c ts"]
    by (auto simp: lookup_put_meta lookup_meta_append split: option.splits)
qed simp

lemma distinct_put: "distinct_metas ts \<Longrightarrow> distinct_metas (put_meta t ts)"
  by (auto simp: distinct_metas_def put_meta_keys)

lemma distinct_merged: "distinct_metas ts \<Longrightarrow> distinct_metas (fold put_meta cs ts)"
  by (induction cs arbitrary: ts) (simp_all add: distinct_put)

lemma put_put_same: "meta_key t = meta_key u \<Longrightarrow> put_meta t (put_meta u ts) = put_meta t ts"
  by (induction ts) (auto simp: same_meta_key)

lemma put_put_comm:
  "meta_key t \<noteq> meta_key u \<Longrightarrow> meta_key t \<in> meta_key ` set ts \<Longrightarrow> put_meta t (put_meta u ts) = put_meta u (put_meta t ts)"
  by (induction ts) (auto simp: same_meta_key)

lemma put_fold_comm:
  "meta_key t \<notin> meta_key ` set cs \<Longrightarrow> meta_key t \<in> meta_key ` set ts \<Longrightarrow>
     put_meta t (fold put_meta cs ts) = fold put_meta cs (put_meta t ts)"
proof (induction cs arbitrary: ts)
  case (Cons c cs)
  have "meta_key t \<in> set (map meta_key (put_meta c ts))" using Cons.prems(2) by (simp add: put_meta_keys)
  then have "put_meta t (fold put_meta cs (put_meta c ts)) = fold put_meta cs (put_meta t (put_meta c ts))"
    using Cons by auto
  moreover have "put_meta t (put_meta c ts) = put_meta c (put_meta t ts)"
    by (rule put_put_comm) (use Cons.prems in auto)
  ultimately show ?case by simp
qed simp

lemma fold_put:
  "distinct_metas cs \<Longrightarrow> fold put_meta (put_meta t cs) ts = put_meta t (fold put_meta cs ts)"
proof (induction cs arbitrary: ts)
  case (Cons c cs)
  show ?case
  proof (cases "meta_key c = meta_key t")
    case True
    have "put_meta t (fold put_meta cs (put_meta c ts)) = fold put_meta cs (put_meta t (put_meta c ts))"
    proof (rule put_fold_comm)
      show "meta_key t \<notin> meta_key ` set cs" using Cons.prems True by (simp add: distinct_metas_def)
      have "meta_key c \<in> set (map meta_key (put_meta c ts))" by (simp add: put_meta_keys)
      then show "meta_key t \<in> meta_key ` set (put_meta c ts)" using True by simp
    qed
    then show ?thesis using True put_put_same [of t c ts] by (simp add: same_meta_key)
  next
    case False
    with Cons show ?thesis by (simp add: same_meta_key distinct_metas_def)
  qed
qed simp

lemma fold_fold_put:
  "distinct_metas cs \<Longrightarrow> fold put_meta (fold put_meta gs cs) ts = fold put_meta gs (fold put_meta cs ts)"
proof (induction gs arbitrary: cs)
  case (Cons g gs)
  then show ?case using Cons.IH [OF distinct_put [OF Cons.prems]] by (simp add: fold_put)
qed simp

lemma child_wins_assoc: "child_wins (child_wins a b) c = child_wins a (child_wins b c)"
  by (simp add: child_wins_def split: option.splits)

text \<open>
  nested layouts may merge their heads in any grouping. Merging a child whose metadata keys are
  distinct and then a grandchild is merging the merged pair at once. In a merged head every scalar and
  every metadata key has the child's value, the parent's where the child declares none; name and
  property tags with equal keys are different keys; all links and scripts of both stay, in order.
\<close>

theorem merging_heads_is_associative:
  assumes "distinct_metas (hc_meta_tags c)"
  shows "merge_head (merge_head p c) g = merge_head p (merge_head c g) \<and>
    lookup_meta (hc_meta_tags (merge_head p c)) k =
      (case lookup_meta (rev (hc_meta_tags c)) k of Some v \<Rightarrow> Some v | None \<Rightarrow> lookup_meta (hc_meta_tags p) k) \<and>
    hc_title (merge_head p c) = (if hc_title c = None then hc_title p else hc_title c) \<and>
    hc_link_tags (merge_head p c) = hc_link_tags p @ hc_link_tags c \<and>
    hc_script_tags (merge_head p c) = hc_script_tags p @ hc_script_tags c"
proof -
  have "merge_head (merge_head p c) g = merge_head p (merge_head c g)"
    using fold_fold_put [OF assms] by (simp add: merge_head_def child_wins_assoc)
  then show ?thesis
    by (simp add: merge_head_def lookup_merged child_wins_def split: option.splits)
qed

theorem merging_heads_is_associative_witness:
  "hc_title (merge_head (title ''p'' head_new) (meta ''a'' ''1'' head_new)) = Some ''p''"
proof -
  have "distinct_metas (hc_meta_tags (meta ''a'' ''1'' head_new))" by code_simp
  from merging_heads_is_associative [OF this, of "title ''p'' head_new"] show ?thesis
    by (simp add: meta_def title_def head_new_def)
qed

subsection \<open>Layouts\<close>

text \<open>
  \<open>krab_core/src/layout.rs\<close>: a layout wraps rendered content, a tree of layouts is resolved by path prefix.
  A render function is a function of the content of its outlet and the head.
\<close>

record layout =
  ly_name :: string
  ly_render_fn :: "string \<Rightarrow> head_context \<Rightarrow> string"

datatype layout_route = LayoutRoute (lr_path_prefix: string) (lr_layout: layout) (lr_children: "layout_route list")

definition route_child :: "layout_route \<Rightarrow> layout_route \<Rightarrow> layout_route" where
  "route_child route parent = LayoutRoute (lr_path_prefix parent) (lr_layout parent) (lr_children parent @ [route])"

definition layout_tree_new :: "layout \<Rightarrow> layout_route" where
  "layout_tree_new root = LayoutRoute ''/'' root []"

definition nest :: "string \<Rightarrow> layout \<Rightarrow> layout_route \<Rightarrow> layout_route" where
  "nest path_prefix l tree = route_child (LayoutRoute path_prefix l []) tree"

fun resolve_recursive :: "layout_route list \<Rightarrow> string \<Rightarrow> layout list" where
  "resolve_recursive [] path = []"
| "resolve_recursive (LayoutRoute path_prefix l children # routes) path =
     (if starts_with path path_prefix then l # resolve_recursive children path else resolve_recursive routes path)"

definition resolve_layouts :: "layout_route \<Rightarrow> string \<Rightarrow> layout list" where
  "resolve_layouts tree path = lr_layout tree # resolve_recursive (lr_children tree) path"

definition render_layouts :: "layout_route \<Rightarrow> string \<Rightarrow> string \<Rightarrow> head_context \<Rightarrow> string" where
  "render_layouts tree path page_content head = fold (\<lambda>l content. ly_render_fn l content head) (rev (resolve_layouts tree path)) page_content"

lemma render_layouts_nested:
  "render_layouts tree path page head =
     ly_render_fn (lr_layout tree) (foldr (\<lambda>l content. ly_render_fn l content head) (resolve_recursive (lr_children tree) path) page) head"
  by (simp add: render_layouts_def resolve_layouts_def foldr_conv_fold)

text \<open>Prefixes are not whole path segments: a layout for \<open>/blog\<close> wraps \<open>/blogger\<close> too.\<close>

lemma layout_prefix_is_not_segment_aware:
  "resolve_layouts (nest ''/blog'' blog (layout_tree_new root)) ''/blogger'' = [root, blog]"
  by (simp add: resolve_layouts_def nest_def route_child_def layout_tree_new_def starts_with_def)

end
