(* ===== verification/Reactive.thy ===== *)
theory Reactive
  imports KrabPrelude
begin

text \<open>
  The reactive runtime of \<open>krab_core/src/signal.rs\<close> on its native path: signals, memos, effects,
  batches and the synchronous delivery of writes.

  A closure of the application is the tree of the runtime calls it makes, branching on the values it
  reads. The thread-locals are one record that is passed on; signals, memos and effects are named by
  their index, an \<open>Rc\<close> or \<open>Weak\<close> handle is the index it points to. Effects and memos are created
  outside running effects, so the lists of children and owned memos are empty and left out. \<open>ef_log\<close> is a
  history variable: what the effect read, tracked, since its last run began. The events are those
  logged with \<open>tracing::error!\<close>. Panics are not modelled, and the guards restore on the normal path.
\<close>

subsection \<open>Application code\<close>

datatype source = Sig nat | Mem nat

datatype subscriber = SubEffect nat | SubMemo nat

text \<open>The computation of a memo, and the body of an effect (\<open>set\<close> and \<open>update\<close> are both \<open>Write\<close>).\<close>

datatype 'v comp = Return 'v | Read source "'v \<Rightarrow> 'v comp"

datatype 'v prog =
    Finish
  | Get source "'v \<Rightarrow> 'v prog"
  | Peek source "'v \<Rightarrow> 'v prog"
  | Write nat "'v \<Rightarrow> 'v" "'v prog"
  | Batch "'v prog" "'v prog"
  | OnCleanup "'v prog" "'v prog"

subsection \<open>State\<close>

record 'v signal_state =
  sg_value :: 'v
  sg_subscribers :: "subscriber list"

record 'v memo_state =
  me_dirty :: bool
  me_computing :: bool
  me_value :: 'v
  me_recompute :: "'v comp"
  me_subscribers :: "subscriber list"

record 'v effect_state =
  ef_execute :: "'v prog"
  ef_disposed :: bool
  ef_running :: bool
  ef_rerun_requested :: bool
  ef_cycle_reported :: bool
  ef_cleanups :: "'v prog list"
  ef_held :: bool
  ef_log :: "(source \<times> 'v) list"

datatype rt_event = MemoSelfReference | EffectCycle | FlushDepthExceeded | OutOfFuel

record 'v runtime =
  rt_signals :: "'v signal_state list"
  rt_memos :: "'v memo_state list"
  rt_effects :: "'v effect_state list"
  rt_current :: "subscriber option"
  rt_roots :: "nat list"
  rt_batch_depth :: nat
  rt_batched :: "nat list"
  rt_flush_depth :: nat
  rt_events :: "rt_event list"

definition MAX_FLUSH_DEPTH :: nat where
  "MAX_FLUSH_DEPTH = 64"

definition upd_signal :: "nat \<Rightarrow> ('v signal_state \<Rightarrow> 'v signal_state) \<Rightarrow> 'v runtime \<Rightarrow> 'v runtime" where
  "upd_signal i f rt = rt\<lparr>rt_signals := (rt_signals rt)[i := f (rt_signals rt ! i)]\<rparr>"

definition upd_memo :: "nat \<Rightarrow> ('v memo_state \<Rightarrow> 'v memo_state) \<Rightarrow> 'v runtime \<Rightarrow> 'v runtime" where
  "upd_memo m f rt = rt\<lparr>rt_memos := (rt_memos rt)[m := f (rt_memos rt ! m)]\<rparr>"

definition upd_effect :: "nat \<Rightarrow> ('v effect_state \<Rightarrow> 'v effect_state) \<Rightarrow> 'v runtime \<Rightarrow> 'v runtime" where
  "upd_effect e f rt = rt\<lparr>rt_effects := (rt_effects rt)[e := f (rt_effects rt ! e)]\<rparr>"

definition report :: "rt_event \<Rightarrow> 'v runtime \<Rightarrow> 'v runtime" where
  "report ev rt = rt\<lparr>rt_events := rt_events rt @ [ev]\<rparr>"

subsection \<open>Reading\<close>

text \<open>Whether a \<open>Weak\<close> still upgrades: effects live as long as a root entry or a handle holds them.\<close>

definition is_alive :: "'v runtime \<Rightarrow> subscriber \<Rightarrow> bool" where
  "is_alive rt s = (case s of SubEffect e \<Rightarrow> e \<in> set (rt_roots rt) \<or> ef_held (rt_effects rt ! e) | SubMemo m \<Rightarrow> True)"

definition push_subscriber :: "'v runtime \<Rightarrow> subscriber \<Rightarrow> subscriber list \<Rightarrow> subscriber list" where
  "push_subscriber rt s subs =
     (let kept = filter (is_alive rt) subs in if s \<in> set kept then kept else kept @ [s])"

definition subscribe :: "source \<Rightarrow> subscriber \<Rightarrow> 'v runtime \<Rightarrow> 'v runtime" where
  "subscribe src s rt =
     (case src of
        Sig i \<Rightarrow> upd_signal i (\<lambda>x. x\<lparr>sg_subscribers := push_subscriber rt s (sg_subscribers x)\<rparr>) rt
      | Mem m \<Rightarrow> upd_memo m (\<lambda>x. x\<lparr>me_subscribers := push_subscriber rt s (me_subscribers x)\<rparr>) rt)"

definition track :: "source \<Rightarrow> 'v runtime \<Rightarrow> 'v runtime" where
  "track src rt = (case rt_current rt of Some s \<Rightarrow> subscribe src s rt | None \<Rightarrow> rt)"

definition signal_get :: "nat \<Rightarrow> 'v runtime \<Rightarrow> 'v \<times> 'v runtime" where
  "signal_get i rt = (let rt' = track (Sig i) rt in (sg_value (rt_signals rt' ! i), rt'))"

type_synonym 'v reader = "source \<Rightarrow> 'v runtime \<Rightarrow> 'v \<times> 'v runtime"

primrec run_comp :: "'v reader \<Rightarrow> 'v comp \<Rightarrow> 'v runtime \<Rightarrow> 'v \<times> 'v runtime" where
  "run_comp rd (Return v) = (\<lambda>rt. (v, rt))"
| "run_comp rd (Read src k) = (\<lambda>rt. case rd src rt of (v, rt') \<Rightarrow> run_comp rd (k v) rt')"

definition recompute_now :: "'v reader \<Rightarrow> nat \<Rightarrow> 'v runtime \<Rightarrow> 'v runtime" where
  "recompute_now rd m rt =
     (let rt1 = (upd_memo m (\<lambda>x. x\<lparr>me_dirty := False, me_computing := True\<rparr>) rt)\<lparr>rt_current := Some (SubMemo m)\<rparr>
      in case run_comp rd (me_recompute (rt_memos rt ! m)) rt1 of
           (v, rt2) \<Rightarrow>
             (upd_memo m (\<lambda>x. x\<lparr>me_value := v, me_computing := False\<rparr>) rt2)\<lparr>rt_current := rt_current rt\<rparr>)"

text \<open>\<open>Memo::get\<close>; memos nest at most as deep as there are memos, which is the fuel.\<close>

fun memo_get :: "nat \<Rightarrow> nat \<Rightarrow> 'v runtime \<Rightarrow> 'v \<times> 'v runtime" where
  "memo_get 0 m rt = (me_value (rt_memos rt ! m), report OutOfFuel rt)"
| "memo_get (Suc n) m rt =
     (if me_computing (rt_memos rt ! m) then (me_value (rt_memos rt ! m), report MemoSelfReference rt)
      else let rt1 = track (Mem m) rt;
               rt2 = (if me_dirty (rt_memos rt1 ! m)
                      then recompute_now (\<lambda>src. case src of Sig i \<Rightarrow> signal_get i | Mem j \<Rightarrow> memo_get n j) m rt1
                      else rt1)
           in (me_value (rt_memos rt2 ! m), rt2))"

definition read_source :: "nat \<Rightarrow> 'v reader" where
  "read_source n src = (case src of Sig i \<Rightarrow> signal_get i | Mem j \<Rightarrow> memo_get n j)"

subsection \<open>Writing\<close>

definition push_unique :: "nat \<Rightarrow> nat list \<Rightarrow> nat list" where
  "push_unique e queue = (if e \<in> set queue then queue else queue @ [e])"

text \<open>\<open>collect_dependents\<close> on a list of subscribers: the subscribers of a memo come before the rest.\<close>

definition live :: "'v runtime \<Rightarrow> nat \<Rightarrow> bool" where
  "live rt e = (is_alive rt (SubEffect e) \<and> \<not> ef_disposed (rt_effects rt ! e))"

lemma sum_list_update_zero:
  "m < length xs \<Longrightarrow> sum_list (map (f :: 'a \<Rightarrow> nat) (xs[m := y])) + f (xs ! m) = sum_list (map f xs) + f y"
  by (induction xs arbitrary: m) (auto split: nat.splits)

function collect_dependents :: "'v runtime \<Rightarrow> subscriber list \<Rightarrow> nat list \<Rightarrow> 'v runtime \<times> nat list" where
  "collect_dependents rt [] effects = (rt, effects)"
| "collect_dependents rt (SubEffect e # ss) effects =
     (if live rt e then collect_dependents rt ss (push_unique e effects) else collect_dependents rt ss effects)"
| "collect_dependents rt (SubMemo m # ss) effects =
     (if m < length (rt_memos rt)
      then collect_dependents (upd_memo m (\<lambda>x. x\<lparr>me_dirty := True, me_subscribers := []\<rparr>) rt)
             (me_subscribers (rt_memos rt ! m) @ ss) effects
      else collect_dependents rt ss effects)"
  by pat_completeness auto

termination
proof (relation "measure (\<lambda>(rt, ss, _). sum_list (map (\<lambda>x. length (me_subscribers x)) (rt_memos rt)) + length ss)", goal_cases)
  case (4 rt m ss effects)
  then show ?case
    using sum_list_update_zero [of m "rt_memos rt" "\<lambda>x. length (me_subscribers x)"
        "(rt_memos rt ! m)\<lparr>me_dirty := True, me_subscribers := []\<rparr>"]
    by (simp add: upd_memo_def)
qed simp_all

type_synonym 'v runner = "nat \<Rightarrow> 'v runtime \<Rightarrow> 'v runtime"

definition run_now :: "'v runner \<Rightarrow> nat list \<Rightarrow> 'v runtime \<Rightarrow> 'v runtime" where
  "run_now run effects rt = fold run effects rt"

definition schedule_async :: "'v runner \<Rightarrow> nat list \<Rightarrow> 'v runtime \<Rightarrow> 'v runtime" where
  "schedule_async run effects rt =
     (if rt_flush_depth rt \<ge> MAX_FLUSH_DEPTH then report FlushDepthExceeded rt
      else let rt' = fold run effects (rt\<lparr>rt_flush_depth := rt_flush_depth rt + 1\<rparr>)
           in rt'\<lparr>rt_flush_depth := rt_flush_depth rt' - 1\<rparr>)"

definition schedule_effects :: "'v runner \<Rightarrow> nat list \<Rightarrow> 'v runtime \<Rightarrow> 'v runtime" where
  "schedule_effects run effects rt =
     (if rt_batch_depth rt > 0 then rt\<lparr>rt_batched := fold push_unique effects (rt_batched rt)\<rparr>
      else let pending = fold push_unique effects (rt_batched rt); rt' = rt\<lparr>rt_batched := []\<rparr>
           in if pending = [] then rt' else schedule_async run pending rt')"

definition notify :: "'v runner \<Rightarrow> nat \<Rightarrow> 'v runtime \<Rightarrow> 'v runtime" where
  "notify run i rt =
     (case collect_dependents (upd_signal i (\<lambda>x. x\<lparr>sg_subscribers := []\<rparr>) rt) (sg_subscribers (rt_signals rt ! i)) [] of
        (rt', to_run) \<Rightarrow> schedule_effects run to_run rt')"

definition write_signal :: "'v runner \<Rightarrow> nat \<Rightarrow> ('v \<Rightarrow> 'v) \<Rightarrow> 'v runtime \<Rightarrow> 'v runtime" where
  "write_signal run i f rt = notify run i (upd_signal i (\<lambda>x. x\<lparr>sg_value := f (sg_value x)\<rparr>) rt)"

subsection \<open>Running code\<close>

text \<open>A read by an effect is recorded in its history.\<close>

definition note_read :: "source \<Rightarrow> 'v \<Rightarrow> 'v runtime \<Rightarrow> 'v runtime" where
  "note_read src v rt =
     (case rt_current rt of
        Some (SubEffect e) \<Rightarrow> upd_effect e (\<lambda>x. x\<lparr>ef_log := ef_log x @ [(src, v)]\<rparr>) rt
      | _ \<Rightarrow> rt)"

definition flush_batch :: "'v runner \<Rightarrow> 'v runtime \<Rightarrow> 'v runtime" where
  "flush_batch run rt =
     (if rt_batch_depth rt = 0 then run_now run (rt_batched rt) (rt\<lparr>rt_batched := []\<rparr>) else rt)"

definition on_cleanup :: "'v prog \<Rightarrow> 'v runtime \<Rightarrow> 'v runtime" where
  "on_cleanup c rt =
     (case rt_current rt of
        Some (SubEffect e) \<Rightarrow> upd_effect e (\<lambda>x. x\<lparr>ef_cleanups := ef_cleanups x @ [c]\<rparr>) rt
      | _ \<Rightarrow> rt)"

definition untrack :: "('v runtime \<Rightarrow> 'a \<times> 'v runtime) \<Rightarrow> 'v runtime \<Rightarrow> 'a \<times> 'v runtime" where
  "untrack f rt = (case f (rt\<lparr>rt_current := None\<rparr>) of (v, rt') \<Rightarrow> (v, rt'\<lparr>rt_current := rt_current rt\<rparr>))"

primrec exec :: "'v runner \<Rightarrow> 'v prog \<Rightarrow> 'v runtime \<Rightarrow> 'v runtime" where
  "exec run Finish = (\<lambda>rt. rt)"
| "exec run (Get src k) =
     (\<lambda>rt. case read_source (length (rt_memos rt)) src rt of (v, rt') \<Rightarrow> exec run (k v) (note_read src v rt'))"
| "exec run (Peek src k) =
     (\<lambda>rt. case untrack (read_source (length (rt_memos rt)) src) rt of (v, rt') \<Rightarrow> exec run (k v) rt')"
| "exec run (Write i f k) = (\<lambda>rt. exec run k (write_signal run i f rt))"
| "exec run (Batch body k) =
     (\<lambda>rt. let rt1 = exec run body (rt\<lparr>rt_batch_depth := rt_batch_depth rt + 1\<rparr>);
               rt2 = rt1\<lparr>rt_batch_depth := rt_batch_depth rt1 - 1\<rparr>
           in exec run k (flush_batch run rt2))"
| "exec run (OnCleanup c k) = (\<lambda>rt. exec run k (on_cleanup c rt))"

definition dispose_children :: "'v runner \<Rightarrow> nat \<Rightarrow> 'v runtime \<Rightarrow> 'v runtime" where
  "dispose_children run e rt =
     fold (exec run) (ef_cleanups (rt_effects rt ! e)) (upd_effect e (\<lambda>x. x\<lparr>ef_cleanups := []\<rparr>) rt)"

text \<open>One iteration of the loop of \<open>run_effect\<close>; the history starts again.\<close>

definition run_body :: "'v runner \<Rightarrow> nat \<Rightarrow> 'v runtime \<Rightarrow> 'v runtime" where
  "run_body run e rt =
     (let rt1 = upd_effect e (\<lambda>x. x\<lparr>ef_rerun_requested := False, ef_running := True, ef_log := []\<rparr>) rt;
          rt2 = dispose_children run e rt1;
          rt3 = exec run (ef_execute (rt_effects rt2 ! e)) (rt2\<lparr>rt_current := Some (SubEffect e)\<rparr>)
      in upd_effect e (\<lambda>x. x\<lparr>ef_running := False\<rparr>) (rt3\<lparr>rt_current := rt_current rt2\<rparr>))"

fun rerun_loop :: "'v runner \<Rightarrow> nat \<Rightarrow> nat \<Rightarrow> 'v runtime \<Rightarrow> 'v runtime" where
  "rerun_loop run e 0 rt = rt"
| "rerun_loop run e (Suc k) rt =
     (let rt1 = run_body run e rt
      in if ef_disposed (rt_effects rt1 ! e) \<or> \<not> ef_rerun_requested (rt_effects rt1 ! e) then rt1
         else if k = 0 then upd_effect e (\<lambda>x. x\<lparr>ef_rerun_requested := False\<rparr>) (report FlushDepthExceeded rt1)
         else rerun_loop run e k rt1)"

definition refuse_reentry :: "nat \<Rightarrow> 'v runtime \<Rightarrow> 'v runtime" where
  "refuse_reentry e rt =
     upd_effect e (\<lambda>x. x\<lparr>ef_cycle_reported := True, ef_rerun_requested := True\<rparr>)
       (if ef_cycle_reported (rt_effects rt ! e) then rt else report EffectCycle rt)"

text \<open>Effects that run inside one another are different effects, so their number is fuel enough.\<close>

fun run_effect :: "nat \<Rightarrow> nat \<Rightarrow> 'v runtime \<Rightarrow> 'v runtime" where
  "run_effect 0 e rt = report OutOfFuel rt"
| "run_effect (Suc n) e rt =
     (if ef_disposed (rt_effects rt ! e) then rt
      else if ef_running (rt_effects rt ! e) then refuse_reentry e rt
      else rerun_loop (run_effect n) e MAX_FLUSH_DEPTH rt)"

subsection \<open>The interface of the application\<close>

definition create_signal :: "'v \<Rightarrow> 'v runtime \<Rightarrow> 'v runtime" where
  "create_signal v rt = rt\<lparr>rt_signals := rt_signals rt @ [\<lparr>sg_value = v, sg_subscribers = []\<rparr>]\<rparr>"

text \<open>The handle of a memo exists once its first computation is done.\<close>

definition create_memo :: "'v comp \<Rightarrow> 'v runtime \<Rightarrow> 'v runtime" where
  "create_memo f rt =
     (let m = length (rt_memos rt)
      in case run_comp (read_source m) f (rt\<lparr>rt_current := Some (SubMemo m)\<rparr>) of
           (v, rt') \<Rightarrow>
             rt'\<lparr>rt_current := rt_current rt,
                 rt_memos := rt_memos rt' @
                   [\<lparr>me_dirty = False, me_computing = False, me_value = v, me_recompute = f, me_subscribers = []\<rparr>]\<rparr>)"

definition runner :: "'v runtime \<Rightarrow> 'v runner" where
  "runner rt = run_effect (Suc (length (rt_effects rt)))"

definition new_effect_state :: "'v prog \<Rightarrow> bool \<Rightarrow> 'v effect_state" where
  "new_effect_state f held =
     \<lparr>ef_execute = f, ef_disposed = False, ef_running = False, ef_rerun_requested = False, ef_cycle_reported = False,
      ef_cleanups = [], ef_held = held, ef_log = []\<rparr>"

text \<open>\<open>create_effect\<close> (no handle) and \<open>create_effect_scoped\<close> (a handle) outside a running effect.\<close>

definition create_effect :: "'v prog \<Rightarrow> bool \<Rightarrow> 'v runtime \<Rightarrow> 'v runtime" where
  "create_effect f held rt =
     (let e = length (rt_effects rt);
          rt' = rt\<lparr>rt_effects := rt_effects rt @ [new_effect_state f held], rt_roots := rt_roots rt @ [e]\<rparr>
      in runner rt' e rt')"

definition dispose_effect :: "nat \<Rightarrow> 'v runtime \<Rightarrow> 'v runtime" where
  "dispose_effect e rt =
     (let rt1 = dispose_children (runner rt) e (upd_effect e (\<lambda>x. x\<lparr>ef_disposed := True\<rparr>) rt)
      in rt1\<lparr>rt_roots := filter (\<lambda>r. r \<noteq> e) (rt_roots rt1)\<rparr>)"

definition drop_handle :: "nat \<Rightarrow> 'v runtime \<Rightarrow> 'v runtime" where
  "drop_handle e rt = upd_effect e (\<lambda>x. x\<lparr>ef_held := False\<rparr>) rt"

definition runtime_init :: "'v runtime" where
  "runtime_init =
     \<lparr>rt_signals = [], rt_memos = [], rt_effects = [], rt_current = None, rt_roots = [], rt_batch_depth = 0, rt_batched = [],
      rt_flush_depth = 0, rt_events = []\<rparr>"

end
