(* ===== verification/ReactiveMemo.thy ===== *)
theory ReactiveMemo
  imports Reactive
begin

text \<open>
  Memos are transparent caches: reading one gives the value its computation has for the current signals,
  and leaves every reader subscribed to what it read.
\<close>

subsection \<open>Views of the state\<close>

definition src_value :: "'v runtime \<Rightarrow> source \<Rightarrow> 'v" where
  "src_value rt s = (case s of Sig i \<Rightarrow> sg_value (rt_signals rt ! i) | Mem m \<Rightarrow> me_value (rt_memos rt ! m))"

definition src_subs :: "'v runtime \<Rightarrow> source \<Rightarrow> subscriber list" where
  "src_subs rt s = (case s of Sig i \<Rightarrow> sg_subscribers (rt_signals rt ! i) | Mem m \<Rightarrow> me_subscribers (rt_memos rt ! m))"

definition src_clean :: "'v runtime \<Rightarrow> source \<Rightarrow> bool" where
  "src_clean rt s =
     (case s of Sig i \<Rightarrow> True | Mem m \<Rightarrow> \<not> me_dirty (rt_memos rt ! m) \<and> \<not> me_computing (rt_memos rt ! m))"

definition src_in :: "'v runtime \<Rightarrow> nat \<Rightarrow> source \<Rightarrow> bool" where
  "src_in rt b s = (case s of Sig i \<Rightarrow> i < length (rt_signals rt) | Mem m \<Rightarrow> m < b \<and> m < length (rt_memos rt))"

primrec comp_eval :: "(source \<Rightarrow> 'v) \<Rightarrow> 'v comp \<Rightarrow> 'v" where
  "comp_eval val (Return v) = v"
| "comp_eval val (Read s k) = comp_eval val (k (val s))"

primrec comp_reads :: "(source \<Rightarrow> 'v) \<Rightarrow> 'v comp \<Rightarrow> source list" where
  "comp_reads val (Return v) = []"
| "comp_reads val (Read s k) = s # comp_reads val (k (val s))"

text \<open>A computation can only name signals and memos that exist when it is created.\<close>

primrec wf_comp :: "nat \<Rightarrow> nat \<Rightarrow> 'v comp \<Rightarrow> bool" where
  "wf_comp ns b (Return v) = True"
| "wf_comp ns b (Read s k) = ((case s of Sig i \<Rightarrow> i < ns | Mem m \<Rightarrow> m < b) \<and> (\<forall>v. wf_comp ns b (k v)))"

lemma comp_cong:
  "\<forall>s \<in> set (comp_reads f c). g s = f s \<Longrightarrow> comp_reads g c = comp_reads f c \<and> comp_eval g c = comp_eval f c"
  by (induction c) auto

definition memo_good :: "'v runtime \<Rightarrow> nat \<Rightarrow> bool" where
  "memo_good rt m =
     (let c = me_recompute (rt_memos rt ! m)
      in me_value (rt_memos rt ! m) = comp_eval (src_value rt) c \<and>
         (\<forall>s \<in> set (comp_reads (src_value rt) c). SubMemo m \<in> set (src_subs rt s) \<and> src_clean rt s))"

definition memos_ok :: "'v runtime \<Rightarrow> bool" where
  "memos_ok rt = (\<forall>m < length (rt_memos rt). src_clean rt (Mem m) \<longrightarrow> memo_good rt m)"

definition memos_wf :: "'v runtime \<Rightarrow> bool" where
  "memos_wf rt = (\<forall>m < length (rt_memos rt). wf_comp (length (rt_signals rt)) m (me_recompute (rt_memos rt ! m)))"

definition computing_from :: "nat \<Rightarrow> 'v runtime \<Rightarrow> bool" where
  "computing_from b rt = (\<forall>c < length (rt_memos rt). me_computing (rt_memos rt ! c) \<longrightarrow> b \<le> c)"

definition valid_src :: "'v runtime \<Rightarrow> source \<Rightarrow> bool" where
  "valid_src rt s = src_in rt (length (rt_memos rt)) s"

lemma valid_src_simps [simp]:
  "valid_src rt (Sig i) \<longleftrightarrow> i < length (rt_signals rt)" "valid_src rt (Mem m) \<longleftrightarrow> m < length (rt_memos rt)"
  by (simp_all add: valid_src_def src_in_def)

text \<open>What reading changes: subscriptions are added, dirty memos become clean, everything else stays.\<close>

definition extends :: "'v runtime \<Rightarrow> 'v runtime \<Rightarrow> bool" where
  "extends rt rt' =
     (rt_effects rt' = rt_effects rt \<and> rt_current rt' = rt_current rt \<and> rt_roots rt' = rt_roots rt \<and>
      rt_batch_depth rt' = rt_batch_depth rt \<and> rt_batched rt' = rt_batched rt \<and>
      rt_flush_depth rt' = rt_flush_depth rt \<and> rt_events rt' = rt_events rt \<and>
      map sg_value (rt_signals rt') = map sg_value (rt_signals rt) \<and>
      map me_recompute (rt_memos rt') = map me_recompute (rt_memos rt) \<and>
      map me_computing (rt_memos rt') = map me_computing (rt_memos rt) \<and>
      (\<forall>s src. valid_src rt src \<and> is_alive rt s \<and> s \<in> set (src_subs rt src) \<longrightarrow> s \<in> set (src_subs rt' src)) \<and>
      (\<forall>m < length (rt_memos rt). \<not> me_dirty (rt_memos rt ! m) \<longrightarrow> \<not> me_dirty (rt_memos rt' ! m)) \<and>
      (\<forall>m < length (rt_memos rt). src_clean rt (Mem m) \<longrightarrow>
         src_clean rt' (Mem m) \<and> me_value (rt_memos rt' ! m) = me_value (rt_memos rt ! m)) \<and>
      (\<forall>src e. valid_src rt src \<and> SubEffect e \<in> set (src_subs rt' src) \<longrightarrow>
         SubEffect e \<in> set (src_subs rt src) \<or> rt_current rt = Some (SubEffect e)))"

lemma extends_refl [simp]: "extends rt rt"
  by (simp add: extends_def)

lemma map_eq_nth: "map f xs = map g ys \<Longrightarrow> i < length ys \<Longrightarrow> f (xs ! i) = g (ys ! i)"
  by (metis length_map nth_map)

lemma extendsD:
  assumes "extends rt rt'"
  shows "rt_effects rt' = rt_effects rt" "rt_current rt' = rt_current rt" "rt_roots rt' = rt_roots rt"
    "rt_batch_depth rt' = rt_batch_depth rt" "rt_batched rt' = rt_batched rt" "rt_flush_depth rt' = rt_flush_depth rt"
    "rt_events rt' = rt_events rt"
    "length (rt_signals rt') = length (rt_signals rt)" "length (rt_memos rt') = length (rt_memos rt)"
    "\<And>i. i < length (rt_signals rt) \<Longrightarrow> sg_value (rt_signals rt' ! i) = sg_value (rt_signals rt ! i)"
    "\<And>m. m < length (rt_memos rt) \<Longrightarrow> me_recompute (rt_memos rt' ! m) = me_recompute (rt_memos rt ! m)"
    "\<And>m. m < length (rt_memos rt) \<Longrightarrow> me_computing (rt_memos rt' ! m) = me_computing (rt_memos rt ! m)"
    "\<And>s src. valid_src rt src \<Longrightarrow> is_alive rt s \<Longrightarrow> s \<in> set (src_subs rt src) \<Longrightarrow> s \<in> set (src_subs rt' src)"
    "\<And>m. m < length (rt_memos rt) \<Longrightarrow> src_clean rt (Mem m) \<Longrightarrow> src_clean rt' (Mem m)"
    "\<And>m. m < length (rt_memos rt) \<Longrightarrow> src_clean rt (Mem m) \<Longrightarrow> me_value (rt_memos rt' ! m) = me_value (rt_memos rt ! m)"
    "\<And>m. m < length (rt_memos rt) \<Longrightarrow> \<not> me_dirty (rt_memos rt ! m) \<Longrightarrow> \<not> me_dirty (rt_memos rt' ! m)"
    "\<And>src e. valid_src rt src \<Longrightarrow> SubEffect e \<in> set (src_subs rt' src) \<Longrightarrow>
       SubEffect e \<in> set (src_subs rt src) \<or> rt_current rt = Some (SubEffect e)"
proof -
  note e = assms [unfolded extends_def]
  show "rt_effects rt' = rt_effects rt" "rt_current rt' = rt_current rt" "rt_roots rt' = rt_roots rt"
    "rt_batch_depth rt' = rt_batch_depth rt" "rt_batched rt' = rt_batched rt" "rt_flush_depth rt' = rt_flush_depth rt"
    "rt_events rt' = rt_events rt" using e by simp_all
  show "length (rt_signals rt') = length (rt_signals rt)" "length (rt_memos rt') = length (rt_memos rt)"
    using e by (metis length_map)+
  show "\<And>i. i < length (rt_signals rt) \<Longrightarrow> sg_value (rt_signals rt' ! i) = sg_value (rt_signals rt ! i)"
    "\<And>m. m < length (rt_memos rt) \<Longrightarrow> me_recompute (rt_memos rt' ! m) = me_recompute (rt_memos rt ! m)"
    "\<And>m. m < length (rt_memos rt) \<Longrightarrow> me_computing (rt_memos rt' ! m) = me_computing (rt_memos rt ! m)"
    using e map_eq_nth by metis+
  show "\<And>s src. valid_src rt src \<Longrightarrow> is_alive rt s \<Longrightarrow> s \<in> set (src_subs rt src) \<Longrightarrow> s \<in> set (src_subs rt' src)"
    "\<And>m. m < length (rt_memos rt) \<Longrightarrow> src_clean rt (Mem m) \<Longrightarrow> src_clean rt' (Mem m)"
    "\<And>m. m < length (rt_memos rt) \<Longrightarrow> src_clean rt (Mem m) \<Longrightarrow> me_value (rt_memos rt' ! m) = me_value (rt_memos rt ! m)"
    "\<And>m. m < length (rt_memos rt) \<Longrightarrow> \<not> me_dirty (rt_memos rt ! m) \<Longrightarrow> \<not> me_dirty (rt_memos rt' ! m)"
    "\<And>src e. valid_src rt src \<Longrightarrow> SubEffect e \<in> set (src_subs rt' src) \<Longrightarrow>
       SubEffect e \<in> set (src_subs rt src) \<or> rt_current rt = Some (SubEffect e)"
    using e by blast+
qed

lemma is_alive_cong: "rt_effects rt' = rt_effects rt \<Longrightarrow> rt_roots rt' = rt_roots rt \<Longrightarrow> is_alive rt' = is_alive rt"
  by (rule ext) (simp add: is_alive_def split: subscriber.splits)

lemma extends_alive: "extends rt rt' \<Longrightarrow> is_alive rt' = is_alive rt"
  by (rule is_alive_cong) (simp_all add: extendsD(1,3))

lemma extends_valid: "extends rt rt' \<Longrightarrow> valid_src rt' = valid_src rt"
  by (rule ext) (simp add: valid_src_def src_in_def extendsD(8,9) split: source.splits)

lemma extends_trans:
  assumes "extends a b" and "extends b c"
  shows "extends a c"
proof -
  note ab = extendsD [OF assms(1)] and bc = extendsD [OF assms(2)]
  have "\<forall>s src. valid_src a src \<and> is_alive a s \<and> s \<in> set (src_subs a src) \<longrightarrow> s \<in> set (src_subs c src)"
    using ab(13) bc(13) extends_alive [OF assms(1)] extends_valid [OF assms(1)] by metis
  moreover have "\<forall>m < length (rt_memos a). src_clean a (Mem m) \<longrightarrow>
      src_clean c (Mem m) \<and> me_value (rt_memos c ! m) = me_value (rt_memos a ! m)"
    using ab(14,15) bc(14,15) ab(9) by metis
  moreover have "\<forall>m < length (rt_memos a). \<not> me_dirty (rt_memos a ! m) \<longrightarrow> \<not> me_dirty (rt_memos c ! m)"
    using ab(16) bc(16) ab(9) by metis
  moreover have "\<forall>src e. valid_src a src \<and> SubEffect e \<in> set (src_subs c src) \<longrightarrow>
      SubEffect e \<in> set (src_subs a src) \<or> rt_current a = Some (SubEffect e)"
    using ab(17) bc(17) ab(2) extends_valid [OF assms(1)] by metis
  ultimately show ?thesis using assms by (simp add: extends_def)
qed

lemma extends_clean_source:
  assumes "extends rt rt'" and "valid_src rt s" and "src_clean rt s"
  shows "src_clean rt' s \<and> src_value rt' s = src_value rt s"
  using assms extendsD(10,14,15) [OF assms(1)] by (cases s) (simp_all add: src_clean_def src_value_def)

subsection \<open>Tracking\<close>

lemma push_subscriber_mem: "s \<in> set (push_subscriber rt s subs)"
  by (simp add: push_subscriber_def Let_def)

lemma push_subscriber_from: "t \<in> set (push_subscriber rt s subs) \<Longrightarrow> t = s \<or> t \<in> set subs"
  by (auto simp: push_subscriber_def Let_def split: if_splits)

lemma push_subscriber_keeps: "is_alive rt t \<Longrightarrow> t \<in> set subs \<Longrightarrow> t \<in> set (push_subscriber rt s subs)"
  by (simp add: push_subscriber_def Let_def)

lemma nth_update_field: "g (f (xs ! i)) = g (xs ! i) \<Longrightarrow> g (xs[i := f (xs ! i)] ! m) = g (xs ! m)"
  by (cases "i < length xs") (auto simp: nth_list_update list_update_beyond)

lemma map_update_field: "g (f (xs ! i)) = g (xs ! i) \<Longrightarrow> map g (xs[i := f (xs ! i)]) = map g xs"
  by (simp add: map_update list_update_same_conv) (metis length_map list_update_beyond list_update_id map_update not_le nth_map)

lemma subscribe_subs:
  assumes "valid_src rt src"
  shows "src_subs (subscribe src s rt) x = (if x = src then push_subscriber rt s (src_subs rt src) else src_subs rt x)"
  using assms
  by (cases src; cases x) (auto simp: subscribe_def upd_signal_def upd_memo_def src_subs_def nth_list_update)

lemma subscribe_frame [simp]:
  "map sg_value (rt_signals (subscribe src s rt)) = map sg_value (rt_signals rt)"
  "map me_recompute (rt_memos (subscribe src s rt)) = map me_recompute (rt_memos rt)"
  "map me_computing (rt_memos (subscribe src s rt)) = map me_computing (rt_memos rt)"
  "src_value (subscribe src s rt) = src_value rt"
  "src_clean (subscribe src s rt) = src_clean rt"
  "me_value (rt_memos (subscribe src s rt) ! m) = me_value (rt_memos rt ! m)"
  "me_dirty (rt_memos (subscribe src s rt) ! m) = me_dirty (rt_memos rt ! m)"
  "me_computing (rt_memos (subscribe src s rt) ! m) = me_computing (rt_memos rt ! m)"
  "me_recompute (rt_memos (subscribe src s rt) ! m) = me_recompute (rt_memos rt ! m)"
  "length (rt_memos (subscribe src s rt)) = length (rt_memos rt)"
  "length (rt_signals (subscribe src s rt)) = length (rt_signals rt)"
  "rt_effects (subscribe src s rt) = rt_effects rt" "rt_current (subscribe src s rt) = rt_current rt"
  "rt_roots (subscribe src s rt) = rt_roots rt" "rt_batch_depth (subscribe src s rt) = rt_batch_depth rt"
  "rt_batched (subscribe src s rt) = rt_batched rt" "rt_flush_depth (subscribe src s rt) = rt_flush_depth rt"
  "rt_events (subscribe src s rt) = rt_events rt"
  by (cases src; (rule ext)?;
      simp add: subscribe_def upd_signal_def upd_memo_def src_value_def src_clean_def map_update_field
        nth_update_field [of sg_value] nth_update_field [of me_value] nth_update_field [of me_dirty]
        nth_update_field [of me_computing] nth_update_field [of me_recompute] split: source.splits)+

lemma subscribe_extends: "valid_src rt src \<Longrightarrow> rt_current rt = Some s \<Longrightarrow> extends rt (subscribe src s rt)"
  by (auto simp: extends_def subscribe_subs push_subscriber_keeps dest: push_subscriber_from split: if_splits)

lemma subscribe_memos_ok:
  assumes "valid_src rt src" and "memos_ok rt"
  shows "memos_ok (subscribe src s rt)"
proof -
  have "SubMemo m \<in> set (src_subs rt x) \<Longrightarrow> SubMemo m \<in> set (src_subs (subscribe src s rt) x)" for m x
    using assms(1) by (auto simp: subscribe_subs is_alive_def intro: push_subscriber_keeps)
  then show ?thesis using assms(2) by (auto simp: memos_ok_def memo_good_def Let_def)
qed

lemma track_ok:
  assumes "valid_src rt src" and "memos_ok rt" and "track src rt = rt'"
  shows "extends rt rt'" "memos_ok rt'" "\<And>s. rt_current rt = Some s \<Longrightarrow> s \<in> set (src_subs rt' src)"
    "src_value rt' = src_value rt" "src_clean rt' = src_clean rt"
  using assms subscribe_extends [OF assms(1)] subscribe_memos_ok [OF assms(1,2)]
  by (auto simp: track_def subscribe_subs push_subscriber_mem split: option.splits)

subsection \<open>Computations\<close>

text \<open>What a reader of sources below \<open>b\<close> guarantees.\<close>

definition read_pre :: "nat \<Rightarrow> 'v runtime \<Rightarrow> bool" where
  "read_pre b rt = (memos_wf rt \<and> memos_ok rt \<and> computing_from b rt)"

definition reader_ok :: "'v reader \<Rightarrow> nat \<Rightarrow> bool" where
  "reader_ok rd b =
     (\<forall>src rt v rt'. src_in rt b src \<and> read_pre b rt \<and> rd src rt = (v, rt') \<longrightarrow>
        extends rt rt' \<and> memos_ok rt' \<and> src_clean rt' src \<and> v = src_value rt' src \<and>
        (\<forall>s. rt_current rt = Some s \<and> is_alive rt s \<longrightarrow> s \<in> set (src_subs rt' src)))"

lemma reader_okD:
  assumes "reader_ok rd b" "src_in rt b src" "read_pre b rt" "rd src rt = (v, rt')"
  shows "extends rt rt'" "memos_ok rt'" "src_clean rt' src" "v = src_value rt' src"
    "\<And>s. rt_current rt = Some s \<Longrightarrow> is_alive rt s \<Longrightarrow> s \<in> set (src_subs rt' src)"
  using assms unfolding reader_ok_def by blast+

lemma read_pre_extends: "read_pre b rt \<Longrightarrow> extends rt rt' \<Longrightarrow> memos_ok rt' \<Longrightarrow> read_pre b rt'"
  by (auto simp: read_pre_def memos_wf_def computing_from_def extendsD)

lemma src_in_valid: "src_in rt b s \<Longrightarrow> valid_src rt s"
  by (auto simp: src_in_def valid_src_def split: source.splits)

lemma run_comp_ok:
  assumes "reader_ok rd b" and "b \<le> length (rt_memos rt)"
  shows "wf_comp (length (rt_signals rt)) b c \<Longrightarrow> read_pre b rt \<Longrightarrow> rt_current rt = Some s \<Longrightarrow> is_alive rt s \<Longrightarrow>
    run_comp rd c rt = (v, rt') \<Longrightarrow>
    extends rt rt' \<and> memos_ok rt' \<and> v = comp_eval (src_value rt') c \<and>
    (\<forall>x \<in> set (comp_reads (src_value rt') c). valid_src rt x \<and> src_clean rt' x \<and> s \<in> set (src_subs rt' x))"
  using assms(2)
proof (induction c arbitrary: rt)
  case (Return w)
  then show ?case by (auto simp: read_pre_def)
next
  case (Read src k)
  obtain w rt1 where rd: "rd src rt = (w, rt1)" by (cases "rd src rt") auto
  have src: "src_in rt b src" using Read.prems(1,6) by (auto simp: src_in_def split: source.splits)
  note r = reader_okD [OF assms(1) src Read.prems(2) rd]
  note e1 = extendsD [OF r(1)]
  have pre1: "read_pre b rt1" by (rule read_pre_extends [OF Read.prems(2) r(1,2)])
  have step: "extends rt1 rt' \<and> memos_ok rt' \<and> v = comp_eval (src_value rt') (k w) \<and>
      (\<forall>x \<in> set (comp_reads (src_value rt') (k w)). valid_src rt1 x \<and> src_clean rt' x \<and> s \<in> set (src_subs rt' x))"
    by (rule Read.IH [OF rangeI]) (use Read.prems rd pre1 e1 extends_alive [OF r(1)] in \<open>auto\<close>)
  have valid: "valid_src rt1 src" "valid_src rt src"
    using src_in_valid [OF src] by (simp_all add: extends_valid [OF r(1)])
  have keep: "src_clean rt' src \<and> src_value rt' src = w"
    using extends_clean_source [of rt1 rt' src] step valid r(3,4) by simp
  have "s \<in> set (src_subs rt' src)"
    using step extendsD(13) [of rt1 rt'] r(5) [OF Read.prems(3,4)] valid Read.prems(4) extends_alive [OF r(1)] by auto
  with step keep extends_trans [OF r(1)] valid extends_valid [OF r(1)] show ?case by auto
qed

text \<open>The states just before and just after the computation runs.\<close>

lemma memos_ok_transfer:
  assumes "memos_ok rt" and "length (rt_memos rt') = length (rt_memos rt)"
    and "\<And>x. x < length (rt_memos rt) \<Longrightarrow> src_clean rt' (Mem x) \<Longrightarrow> src_clean rt (Mem x) \<and>
      me_recompute (rt_memos rt' ! x) = me_recompute (rt_memos rt ! x) \<and> src_value rt' (Mem x) = src_value rt (Mem x)"
    and "\<And>x s. x < length (rt_memos rt) \<Longrightarrow> src_clean rt' (Mem x) \<Longrightarrow> src_clean rt s \<Longrightarrow> SubMemo x \<in> set (src_subs rt s) \<Longrightarrow>
      src_clean rt' s \<and> src_value rt' s = src_value rt s \<and> SubMemo x \<in> set (src_subs rt' s)"
  shows "memos_ok rt'"
  unfolding memos_ok_def
proof (intro allI impI)
  fix x assume x: "x < length (rt_memos rt')" "src_clean rt' (Mem x)"
  then have xl: "x < length (rt_memos rt)" using assms(2) by simp
  note old = assms(3) [OF xl x(2)]
  let ?c = "me_recompute (rt_memos rt ! x)"
  have good: "me_value (rt_memos rt ! x) = comp_eval (src_value rt) ?c"
    "\<forall>s \<in> set (comp_reads (src_value rt) ?c). SubMemo x \<in> set (src_subs rt s) \<and> src_clean rt s"
    using assms(1) old xl by (simp_all add: memos_ok_def memo_good_def Let_def)
  have same: "comp_reads (src_value rt') ?c = comp_reads (src_value rt) ?c \<and> comp_eval (src_value rt') ?c = comp_eval (src_value rt) ?c"
    by (rule comp_cong) (use good(2) assms(4) [OF xl x(2)] in blast)
  show "memo_good rt' x" unfolding memo_good_def Let_def
    using old good same assms(4) [OF xl x(2)] by (auto simp: src_value_def)
qed

lemma recompute_ok:
  assumes rd: "reader_ok rd m" and m: "m < length (rt_memos rt)" and wf: "memos_wf rt" and ok: "memos_ok rt"
    and comp: "computing_from (Suc m) rt" and dirty: "me_dirty (rt_memos rt ! m)"
  shows "extends rt (recompute_now rd m rt) \<and> memos_ok (recompute_now rd m rt) \<and> src_clean (recompute_now rd m rt) (Mem m)"
proof -
  let ?c = "me_recompute (rt_memos rt ! m)"
  define rt1 where "rt1 = (upd_memo m (\<lambda>x. x\<lparr>me_dirty := False, me_computing := True\<rparr>) rt)\<lparr>rt_current := Some (SubMemo m)\<rparr>"
  obtain v rt2 where run: "run_comp rd ?c rt1 = (v, rt2)" by (cases "run_comp rd ?c rt1") auto
  define rt3 where "rt3 = (upd_memo m (\<lambda>x. x\<lparr>me_value := v, me_computing := False\<rparr>) rt2)\<lparr>rt_current := rt_current rt\<rparr>"
  have rec: "recompute_now rd m rt = rt3"
    using run by (simp add: recompute_now_def rt1_def rt3_def Let_def)
  have val1: "src_value rt1 s = src_value rt s" and sub1: "src_subs rt1 s = src_subs rt s" and cl1: "src_clean rt1 s = src_clean rt s" for s
    using m dirty
    by (auto simp: rt1_def upd_memo_def src_value_def src_subs_def src_clean_def nth_list_update split: source.splits)
  have fr1: "length (rt_memos rt1) = length (rt_memos rt)" "rt_signals rt1 = rt_signals rt"
    "\<And>x. me_recompute (rt_memos rt1 ! x) = me_recompute (rt_memos rt ! x)"
    "\<And>x. me_computing (rt_memos rt1 ! x) = (x = m \<or> me_computing (rt_memos rt ! x))"
    "rt_effects rt1 = rt_effects rt" "rt_roots rt1 = rt_roots rt" "rt_batch_depth rt1 = rt_batch_depth rt"
    "rt_batched rt1 = rt_batched rt" "rt_flush_depth rt1 = rt_flush_depth rt" "rt_events rt1 = rt_events rt"
    "rt_current rt1 = Some (SubMemo m)" "\<not> me_dirty (rt_memos rt1 ! m)" "\<And>x. me_dirty (rt_memos rt1 ! x) \<Longrightarrow> me_dirty (rt_memos rt ! x)"
    using m by (auto simp: rt1_def upd_memo_def nth_list_update split: if_splits)
  have "memos_ok rt1"
    by (rule memos_ok_transfer [OF ok]) (simp_all add: fr1 val1 sub1 cl1)
  then have pre1: "read_pre m rt1"
    using wf comp by (auto simp: read_pre_def memos_wf_def computing_from_def fr1)
  have wfc: "wf_comp (length (rt_signals rt1)) m ?c" using wf m by (simp add: memos_wf_def fr1)
  have ran: "extends rt1 rt2 \<and> memos_ok rt2 \<and> v = comp_eval (src_value rt2) ?c \<and>
      (\<forall>x \<in> set (comp_reads (src_value rt2) ?c). valid_src rt1 x \<and> src_clean rt2 x \<and> SubMemo m \<in> set (src_subs rt2 x))"
    by (rule run_comp_ok [OF rd _ wfc pre1 fr1(11) _ run]) (use m in \<open>simp_all add: fr1 is_alive_def\<close>)
  then have ext: "extends rt1 rt2" by simp
  note e2 = extendsD [OF ext]
  have m2: "m < length (rt_memos rt2)" "me_computing (rt_memos rt2 ! m)" "\<not> me_dirty (rt_memos rt2 ! m)"
    using m e2(9,12,16) fr1 by simp_all
  have val3: "src_value rt3 s = (if s = Mem m then v else src_value rt2 s)" and sub3: "src_subs rt3 s = src_subs rt2 s"
    and cl3: "src_clean rt3 s = (s = Mem m \<or> src_clean rt2 s)" for s
    using m2
    by (auto simp: rt3_def upd_memo_def src_value_def src_subs_def src_clean_def nth_list_update split: source.splits)
  have not_m: "\<not> src_clean rt2 (Mem m)" using m2 by (simp add: src_clean_def)
  have fr3: "length (rt_memos rt3) = length (rt_memos rt2)" "rt_signals rt3 = rt_signals rt2"
    "\<And>x. me_recompute (rt_memos rt3 ! x) = me_recompute (rt_memos rt2 ! x)"
    "\<And>x. me_computing (rt_memos rt3 ! x) = (x \<noteq> m \<and> me_computing (rt_memos rt2 ! x))"
    "\<And>x. me_dirty (rt_memos rt3 ! x) = me_dirty (rt_memos rt2 ! x)"
    "me_value (rt_memos rt3 ! m) = v"
    using m2 by (auto simp: rt3_def upd_memo_def nth_list_update)
  have "memos_ok rt3" unfolding memos_ok_def
  proof (intro allI impI)
    fix x assume x: "x < length (rt_memos rt3)" "src_clean rt3 (Mem x)"
    have good: "memo_good rt3 y" if "me_value (rt_memos rt3 ! y) = comp_eval (src_value rt2) (me_recompute (rt_memos rt2 ! y))"
      "\<forall>s \<in> set (comp_reads (src_value rt2) (me_recompute (rt_memos rt2 ! y))). SubMemo y \<in> set (src_subs rt2 s) \<and> src_clean rt2 s" for y
    proof -
      have "comp_reads (src_value rt3) (me_recompute (rt_memos rt2 ! y)) = comp_reads (src_value rt2) (me_recompute (rt_memos rt2 ! y)) \<and>
            comp_eval (src_value rt3) (me_recompute (rt_memos rt2 ! y)) = comp_eval (src_value rt2) (me_recompute (rt_memos rt2 ! y))"
        by (rule comp_cong) (use that(2) not_m in \<open>auto simp: val3\<close>)
      with that show ?thesis by (simp add: memo_good_def Let_def fr3 sub3 cl3)
    qed
    show "memo_good rt3 x"
    proof (cases "x = m")
      case True
      have "me_recompute (rt_memos rt2 ! m) = ?c" using e2(11) m by (simp add: fr1)
      with ran True show ?thesis by (intro good) (simp_all add: fr3)
    next
      case False
      then have "memo_good rt2 x" using ran x by (simp add: memos_ok_def fr3 cl3)
      then show ?thesis using False m2 by (intro good)
          (auto simp: memo_good_def Let_def rt3_def upd_memo_def)
    qed
  qed
  moreover have "extends rt rt3"
  proof -
    have "map sg_value (rt_signals rt3) = map sg_value (rt_signals rt)"
      using ext by (simp add: extends_def fr3 fr1)
    moreover have "map me_recompute (rt_memos rt3) = map me_recompute (rt_memos rt)"
      "map me_computing (rt_memos rt3) = map me_computing (rt_memos rt)"
      using comp m e2(9,11,12) by (auto simp: list_eq_iff_nth_eq fr3 fr1 computing_from_def)
    moreover have "s \<in> set (src_subs rt3 src)" if "valid_src rt src" "is_alive rt s" "s \<in> set (src_subs rt src)" for s src
      using e2(13) [of src s] that is_alive_cong [of rt1 rt] by (simp add: sub1 sub3 fr1 valid_src_def src_in_def split: source.splits)
    moreover have "\<not> me_dirty (rt_memos rt3 ! x)" if "x < length (rt_memos rt)" "\<not> me_dirty (rt_memos rt ! x)" for x
      using e2(16) [of x] that fr1(13) [of x] by (auto simp: fr1 fr3)
    moreover have "src_clean rt3 (Mem x) \<and> me_value (rt_memos rt3 ! x) = me_value (rt_memos rt ! x)"
      if "x < length (rt_memos rt)" "src_clean rt (Mem x)" for x
    proof -
      have "x \<noteq> m" using that dirty by (auto simp: src_clean_def)
      have c2: "src_clean rt2 (Mem x) \<and> me_value (rt_memos rt2 ! x) = me_value (rt_memos rt1 ! x)"
        using e2(14,15) [of x] that cl1 [of "Mem x"] by (simp add: fr1)
      have "me_value (rt_memos rt3 ! x) = me_value (rt_memos rt2 ! x)"
        using \<open>x \<noteq> m\<close> by (simp add: rt3_def upd_memo_def)
      with c2 val1 [of "Mem x"] show ?thesis by (simp add: cl3 src_value_def)
    qed
    moreover have "SubEffect e \<in> set (src_subs rt src)" if "valid_src rt src" "SubEffect e \<in> set (src_subs rt3 src)" for src e
      using e2(17) [of src e] that by (simp add: sub1 sub3 fr1 valid_src_def src_in_def split: source.splits)
    moreover have "rt_effects rt3 = rt_effects rt" "rt_current rt3 = rt_current rt" "rt_roots rt3 = rt_roots rt"
      "rt_batch_depth rt3 = rt_batch_depth rt" "rt_batched rt3 = rt_batched rt" "rt_flush_depth rt3 = rt_flush_depth rt"
      "rt_events rt3 = rt_events rt"
      using e2(1-7) by (simp_all add: rt3_def upd_memo_def fr1)
    ultimately show ?thesis by (simp add: extends_def)
  qed
  ultimately show ?thesis by (simp add: rec cl3)
qed

subsection \<open>Every read is right\<close>

lemma memo_get_ok:
  fixes rt :: "'v runtime"
  assumes IH: "\<And>b. b \<le> n \<Longrightarrow> reader_ok (read_source n :: 'v reader) b" and b: "b \<le> Suc n"
    and m: "m < b" "m < length (rt_memos rt)" and pre: "read_pre b rt" and run: "memo_get (Suc n) m rt = (v, rt')"
  shows "extends rt rt' \<and> memos_ok rt' \<and> src_clean rt' (Mem m) \<and> v = src_value rt' (Mem m) \<and>
    (\<forall>s. rt_current rt = Some s \<and> is_alive rt s \<longrightarrow> s \<in> set (src_subs rt' (Mem m)))"
proof -
  define rt1 where "rt1 = track (Mem m) rt"
  have valid: "valid_src rt (Mem m)" using m by simp
  have wf: "memos_wf rt" and ok: "memos_ok rt" and comp: "computing_from b rt" using pre by (simp_all add: read_pre_def)
  note t = track_ok [OF valid ok rt1_def [symmetric]]
  note e1 = extendsD [OF t(1)]
  have not_computing: "\<not> me_computing (rt_memos rt ! m)" using comp m by (auto simp: computing_from_def)
  have rd: "case_source signal_get (memo_get n) = read_source n"
    by (rule ext) (simp add: read_source_def split: source.splits)
  define rt2 where "rt2 = (if me_dirty (rt_memos rt1 ! m) then recompute_now (read_source n) m rt1 else rt1)"
  have result: "v = me_value (rt_memos rt2 ! m)" "rt' = rt2"
    using run not_computing by (auto simp: rt1_def [symmetric] rt2_def rd Let_def)
  have "extends rt1 rt2 \<and> memos_ok rt2 \<and> src_clean rt2 (Mem m)"
  proof (cases "me_dirty (rt_memos rt1 ! m)")
    case True
    have "computing_from (Suc m) rt1" using comp m by (fastforce simp: computing_from_def e1)
    moreover have "memos_wf rt1" using wf by (simp add: memos_wf_def e1)
    moreover have "reader_ok (read_source n :: 'v reader) m" using m b by (intro IH) simp
    ultimately show ?thesis using recompute_ok [of "read_source n" m rt1] True m t(2) e1(9) by (simp add: rt2_def)
  next
    case False
    then show ?thesis using t(2) not_computing e1(12) m by (simp add: rt2_def src_clean_def)
  qed
  then have two: "extends rt1 rt2" "memos_ok rt2" "src_clean rt2 (Mem m)" by simp_all
  have "s \<in> set (src_subs rt2 (Mem m))" if "rt_current rt = Some s" "is_alive rt s" for s
    using extendsD(13) [OF two(1), of "Mem m" s] t(3) [OF that(1)] that(2) valid
    by (simp add: extends_alive [OF t(1)] extends_valid [OF t(1)])
  with two extends_trans [OF t(1) two(1)] show ?thesis by (simp add: result src_value_def)
qed

lemma signal_get_ok:
  assumes "i < length (rt_signals rt)" and "memos_ok rt" and "signal_get i rt = (v, rt')"
  shows "extends rt rt' \<and> memos_ok rt' \<and> src_clean rt' (Sig i) \<and> v = src_value rt' (Sig i) \<and>
    (\<forall>s. rt_current rt = Some s \<and> is_alive rt s \<longrightarrow> s \<in> set (src_subs rt' (Sig i)))"
proof -
  have track: "track (Sig i) rt = rt'" "v = src_value rt' (Sig i)"
    using assms(3) by (auto simp: signal_get_def Let_def src_value_def)
  show ?thesis using track_ok [OF _ assms(2) track(1)] track(2) assms(1) by (simp add: src_clean_def)
qed

lemma read_source_ok: "b \<le> n \<Longrightarrow> reader_ok (read_source n) b"
proof (induction n arbitrary: b)
  case 0
  have "\<And>src rt v rt'. src_in rt 0 src \<Longrightarrow> \<exists>i. src = Sig i \<and> i < length (rt_signals rt)"
    by (simp add: src_in_def split: source.splits)
  then show ?case using 0 signal_get_ok by (fastforce simp: reader_ok_def read_source_def read_pre_def)
next
  case (Suc n)
  show ?case unfolding reader_ok_def
  proof (intro allI impI, elim conjE)
    fix src v and rt rt' :: "'a runtime"
    assume a: "src_in rt b src" "read_pre b rt" "read_source (Suc n) src rt = (v, rt')"
    show "extends rt rt' \<and> memos_ok rt' \<and> src_clean rt' src \<and> v = src_value rt' src \<and>
      (\<forall>s. rt_current rt = Some s \<and> is_alive rt s \<longrightarrow> s \<in> set (src_subs rt' src))"
    proof (cases src)
      case (Sig i)
      with a show ?thesis using signal_get_ok [of i rt v rt'] by (simp add: src_in_def read_pre_def read_source_def)
    next
      case (Mem m)
      with a memo_get_ok [OF Suc.IH Suc.prems, of m rt v rt'] show ?thesis
        by (simp add: src_in_def read_source_def del: memo_get.simps)
    qed
  qed
qed

subsection \<open>Reference semantics\<close>

text \<open>The values the memos have for the current signals, in the order of creation.\<close>

primrec denote :: "'v runtime \<Rightarrow> nat \<Rightarrow> 'v list" where
  "denote rt 0 = []"
| "denote rt (Suc j) =
     denote rt j @
       [comp_eval (\<lambda>s. case s of Sig i \<Rightarrow> sg_value (rt_signals rt ! i) | Mem k \<Rightarrow> denote rt j ! k) (me_recompute (rt_memos rt ! j))]"

definition meaning :: "'v runtime \<Rightarrow> source \<Rightarrow> 'v" where
  "meaning rt s = (case s of Sig i \<Rightarrow> sg_value (rt_signals rt ! i) | Mem m \<Rightarrow> denote rt (Suc m) ! m)"

lemma denote_length [simp]: "length (denote rt j) = j"
  by (induction j) simp_all

lemma denote_nth: "m < j \<Longrightarrow> denote rt j ! m = meaning rt (Mem m)"
proof (induction j)
  case (Suc j)
  then show ?case by (cases "m = j") (simp_all add: nth_append meaning_def)
qed simp

lemma comp_eval_cong:
  "wf_comp ns b c \<Longrightarrow> (\<And>i. i < ns \<Longrightarrow> f (Sig i) = g (Sig i)) \<Longrightarrow> (\<And>m. m < b \<Longrightarrow> f (Mem m) = g (Mem m)) \<Longrightarrow>
   comp_eval f c = comp_eval g c"
  by (induction c) (simp_all split: source.splits)

lemma comp_reads_below: "wf_comp ns b c \<Longrightarrow> Mem k \<in> set (comp_reads val c) \<Longrightarrow> k < b"
  by (induction c) auto

lemma comp_reads_valid:
  "wf_comp ns b c \<Longrightarrow> s \<in> set (comp_reads val c) \<Longrightarrow> (case s of Sig i \<Rightarrow> i < ns | Mem k \<Rightarrow> k < b)"
  by (induction c) auto

lemma meaning_memo:
  assumes "memos_wf rt" and "m < length (rt_memos rt)"
  shows "meaning rt (Mem m) = comp_eval (meaning rt) (me_recompute (rt_memos rt ! m))"
proof -
  have "comp_eval (\<lambda>s. case s of Sig i \<Rightarrow> sg_value (rt_signals rt ! i) | Mem k \<Rightarrow> denote rt m ! k) (me_recompute (rt_memos rt ! m)) =
        comp_eval (meaning rt) (me_recompute (rt_memos rt ! m))"
    by (rule comp_eval_cong [of "length (rt_signals rt)" m])
       (use assms in \<open>simp_all add: memos_wf_def denote_nth, simp add: meaning_def\<close>)
  then show ?thesis by (simp add: meaning_def nth_append)
qed

lemma meaning_cong:
  assumes "length (rt_memos rt') = length (rt_memos rt)" and "length (rt_signals rt') = length (rt_signals rt)"
    and "\<And>i. i < length (rt_signals rt) \<Longrightarrow> sg_value (rt_signals rt' ! i) = sg_value (rt_signals rt ! i)"
    and "\<And>m. m < length (rt_memos rt) \<Longrightarrow> me_recompute (rt_memos rt' ! m) = me_recompute (rt_memos rt ! m)"
    and "memos_wf rt" and "valid_src rt s"
  shows "meaning rt' s = meaning rt s"
proof -
  have wf': "memos_wf rt'" using assms(1,2,4,5) by (simp add: memos_wf_def)
  have memo: "m < length (rt_memos rt) \<Longrightarrow> meaning rt' (Mem m) = meaning rt (Mem m)" for m
  proof (induction m rule: less_induct)
    case (less m)
    have "comp_eval (meaning rt') (me_recompute (rt_memos rt ! m)) = comp_eval (meaning rt) (me_recompute (rt_memos rt ! m))"
      by (rule comp_eval_cong [of "length (rt_signals rt)" m])
         (use less assms(3,5) in \<open>simp_all add: memos_wf_def, simp add: meaning_def\<close>)
    then show ?case using less.prems assms(1,4,5) wf' by (simp add: meaning_memo)
  qed
  then show ?thesis using assms(3,6) by (cases s) (simp_all add: meaning_def)
qed

text \<open>A clean memo holds its meaning.\<close>

lemma clean_memo_meaning:
  assumes "memos_wf rt" and "memos_ok rt"
  shows "m < length (rt_memos rt) \<Longrightarrow> src_clean rt (Mem m) \<Longrightarrow> src_value rt (Mem m) = meaning rt (Mem m)"
proof (induction m rule: less_induct)
  case (less m)
  let ?c = "me_recompute (rt_memos rt ! m)"
  have good: "src_value rt (Mem m) = comp_eval (src_value rt) ?c" "\<forall>s \<in> set (comp_reads (src_value rt) ?c). src_clean rt s"
    using assms(2) less.prems by (simp_all add: memos_ok_def memo_good_def Let_def src_value_def)
  have "meaning rt s = src_value rt s" if s: "s \<in> set (comp_reads (src_value rt) ?c)" for s
  proof (cases s)
    case (Sig i)
    then show ?thesis by (simp add: meaning_def src_value_def)
  next
    case (Mem k)
    then have "k < m" "src_clean rt (Mem k)"
      using comp_reads_below [of "length (rt_signals rt)" m ?c k] bspec [OF good(2) s] s assms(1) less.prems(1)
      by (simp_all add: memos_wf_def)
    then show ?thesis using less.IH [of k] less.prems(1) Mem by simp
  qed
  then have "comp_eval (meaning rt) ?c = comp_eval (src_value rt) ?c"
    using comp_cong [of "src_value rt" ?c "meaning rt"] by blast
  then show ?case using good(1) meaning_memo [OF assms(1) less.prems(1)] by simp
qed

lemma clean_source_meaning:
  "memos_wf rt \<Longrightarrow> memos_ok rt \<Longrightarrow> valid_src rt s \<Longrightarrow> src_clean rt s \<Longrightarrow> src_value rt s = meaning rt s"
  by (cases s) (simp_all add: clean_memo_meaning, simp add: src_value_def meaning_def)

lemma extends_meaning: "extends rt rt' \<Longrightarrow> memos_wf rt \<Longrightarrow> valid_src rt s \<Longrightarrow> meaning rt' s = meaning rt s"
  by (rule meaning_cong) (simp_all add: extendsD)

lemma read_source_meaning:
  assumes "memos_wf rt" and "memos_ok rt" and "\<forall>m < length (rt_memos rt). \<not> me_computing (rt_memos rt ! m)"
    and "valid_src rt src" and "read_source (length (rt_memos rt)) src rt = (v, rt')"
  shows "extends rt rt'" "memos_ok rt'" "src_clean rt' src" "v = src_value rt' src" "v = meaning rt src"
    "\<And>s. rt_current rt = Some s \<Longrightarrow> is_alive rt s \<Longrightarrow> s \<in> set (src_subs rt' src)"
proof -
  have "read_pre (length (rt_memos rt)) rt" using assms(1-3) by (simp add: read_pre_def computing_from_def)
  note r = reader_okD [OF read_source_ok [OF order_refl] assms(4) [unfolded valid_src_def] this assms(5)]
  show "extends rt rt'" "memos_ok rt'" "src_clean rt' src" "v = src_value rt' src"
    "\<And>s. rt_current rt = Some s \<Longrightarrow> is_alive rt s \<Longrightarrow> s \<in> set (src_subs rt' src)" by (fact r)+
  have "memos_wf rt'" using assms(1) extendsD(8,9,11) [OF r(1)] by (simp add: memos_wf_def)
  then show "v = meaning rt src"
    using clean_source_meaning [of rt' src] r assms(4) extends_meaning [OF r(1) assms(1,4)] extends_valid [OF r(1)] by simp
qed

end
