(* ===== verification/ReactiveRun.thy ===== *)
theory ReactiveRun
  imports ReactiveMemo
begin

text \<open>
  The invariant of the runtime and what running effects keeps of it: every effect either has read the
  current values, or is in a queue, or has been asked to run again. The effect runner is an interface;
  code that writes is verified against its contract and the contract is then proved of \<open>run_effect\<close>.
\<close>

subsection \<open>The invariant\<close>

primrec wf_prog :: "nat \<Rightarrow> nat \<Rightarrow> 'v prog \<Rightarrow> bool" where
  "wf_prog ns nm Finish = True"
| "wf_prog ns nm (Get s k) = ((case s of Sig i \<Rightarrow> i < ns | Mem m \<Rightarrow> m < nm) \<and> (\<forall>v. wf_prog ns nm (k v)))"
| "wf_prog ns nm (Peek s k) = ((case s of Sig i \<Rightarrow> i < ns | Mem m \<Rightarrow> m < nm) \<and> (\<forall>v. wf_prog ns nm (k v)))"
| "wf_prog ns nm (Write i f k) = (i < ns \<and> wf_prog ns nm k)"
| "wf_prog ns nm (Batch b k) = (wf_prog ns nm b \<and> wf_prog ns nm k)"
| "wf_prog ns nm (OnCleanup c k) = (wf_prog ns nm c \<and> wf_prog ns nm k)"

definition wf_in :: "'v runtime \<Rightarrow> 'v prog \<Rightarrow> bool" where
  "wf_in rt p = wf_prog (length (rt_signals rt)) (length (rt_memos rt)) p"

definition fresh :: "'v runtime \<Rightarrow> nat \<Rightarrow> bool" where
  "fresh rt e =
     (\<forall>(s, v) \<in> set (ef_log (rt_effects rt ! e)). SubEffect e \<in> set (src_subs rt s) \<and> src_clean rt s \<and> v = src_value rt s)"

definition accounted :: "nat set \<Rightarrow> 'v runtime \<Rightarrow> nat \<Rightarrow> bool" where
  "accounted W rt e =
     (fresh rt e \<or> e \<in> W \<or> e \<in> set (rt_batched rt) \<or>
      ef_running (rt_effects rt ! e) \<and> ef_rerun_requested (rt_effects rt ! e) \<or>
      FlushDepthExceeded \<in> set (rt_events rt))"

definition graph_ok :: "'v runtime \<Rightarrow> bool" where
  "graph_ok rt =
     (memos_ok rt \<and> memos_wf rt \<and> (\<forall>m < length (rt_memos rt). \<not> me_computing (rt_memos rt ! m)) \<and>
      (\<forall>src e. valid_src rt src \<and> SubEffect e \<in> set (src_subs rt src) \<longrightarrow> e < length (rt_effects rt)))"

definition effect_ok :: "'v runtime \<Rightarrow> nat \<Rightarrow> bool" where
  "effect_ok rt e =
     (wf_in rt (ef_execute (rt_effects rt ! e)) \<and> (\<forall>c \<in> set (ef_cleanups (rt_effects rt ! e)). wf_in rt c) \<and>
      (\<not> ef_disposed (rt_effects rt ! e) \<longrightarrow> e \<in> set (rt_roots rt)) \<and>
      (\<forall>(s, v) \<in> set (ef_log (rt_effects rt ! e)). valid_src rt s))"

definition queue_ok :: "'v runtime \<Rightarrow> bool" where
  "queue_ok rt = ((\<forall>e \<in> set (rt_batched rt). e < length (rt_effects rt)) \<and> (rt_batch_depth rt = 0 \<longrightarrow> rt_batched rt = []))"

definition current_ok :: "'v runtime \<Rightarrow> bool" where
  "current_ok rt =
     (case rt_current rt of
        None \<Rightarrow> True
      | Some (SubEffect a) \<Rightarrow> a < length (rt_effects rt) \<and> ef_running (rt_effects rt ! a) \<and> \<not> ef_disposed (rt_effects rt ! a)
      | Some (SubMemo m) \<Rightarrow> False)"

definition settled :: "nat set \<Rightarrow> 'v runtime \<Rightarrow> bool" where
  "settled W rt = (\<forall>e < length (rt_effects rt). \<not> ef_disposed (rt_effects rt ! e) \<longrightarrow> accounted W rt e)"

definition rt_inv :: "nat set \<Rightarrow> 'v runtime \<Rightarrow> bool" where
  "rt_inv W rt =
     (graph_ok rt \<and> (\<forall>e < length (rt_effects rt). effect_ok rt e) \<and> queue_ok rt \<and> current_ok rt \<and> settled W rt)"

text \<open>What a run leaves alone.\<close>

definition frame :: "'v runtime \<Rightarrow> 'v runtime \<Rightarrow> bool" where
  "frame rt rt' =
     (rt_current rt' = rt_current rt \<and> rt_roots rt' = rt_roots rt \<and> rt_batch_depth rt' = rt_batch_depth rt \<and>
      rt_flush_depth rt' = rt_flush_depth rt \<and> length (rt_signals rt') = length (rt_signals rt) \<and>
      map me_recompute (rt_memos rt') = map me_recompute (rt_memos rt) \<and>
      map ef_execute (rt_effects rt') = map ef_execute (rt_effects rt) \<and>
      map ef_disposed (rt_effects rt') = map ef_disposed (rt_effects rt) \<and>
      map ef_running (rt_effects rt') = map ef_running (rt_effects rt) \<and>
      map ef_held (rt_effects rt') = map ef_held (rt_effects rt) \<and>
      set (rt_events rt') \<subseteq> set (rt_events rt) \<union> {EffectCycle, FlushDepthExceeded})"

lemma frame_refl [simp]: "frame rt rt"
  by (auto simp: frame_def)

lemma frame_trans: "frame a b \<Longrightarrow> frame b c \<Longrightarrow> frame a c"
  by (auto simp: frame_def)

lemma frame_lengths:
  assumes "frame rt rt'"
  shows "length (rt_signals rt') = length (rt_signals rt)" "length (rt_memos rt') = length (rt_memos rt)"
    "length (rt_effects rt') = length (rt_effects rt)"
  using assms by (auto simp: frame_def dest: map_eq_imp_length_eq)

lemma frame_fields:
  assumes "frame rt rt'"
  shows "rt_current rt' = rt_current rt" "rt_roots rt' = rt_roots rt" "rt_batch_depth rt' = rt_batch_depth rt"
    "rt_flush_depth rt' = rt_flush_depth rt"
    "\<And>e. e < length (rt_effects rt) \<Longrightarrow> ef_running (rt_effects rt' ! e) = ef_running (rt_effects rt ! e)"
    "\<And>e. e < length (rt_effects rt) \<Longrightarrow> ef_disposed (rt_effects rt' ! e) = ef_disposed (rt_effects rt ! e)"
    "\<And>e. e < length (rt_effects rt) \<Longrightarrow> ef_execute (rt_effects rt' ! e) = ef_execute (rt_effects rt ! e)"
    "\<And>p. wf_in rt' p = wf_in rt p"
    "\<And>e. e < length (rt_effects rt) \<Longrightarrow> ef_held (rt_effects rt' ! e) = ef_held (rt_effects rt ! e)"
  using assms frame_lengths [OF assms] by (auto simp: frame_def wf_in_def dest: map_eq_nth)

definition free :: "'v runtime \<Rightarrow> nat" where
  "free rt = length (filter Not (map ef_running (rt_effects rt)))"

lemma free_frame: "frame rt rt' \<Longrightarrow> free rt' = free rt"
  by (simp add: frame_def free_def)

lemma inv_mono: "rt_inv W rt \<Longrightarrow> W \<subseteq> W' \<Longrightarrow> rt_inv W' rt"
  by (auto simp: rt_inv_def settled_def accounted_def)

lemma invD:
  assumes "rt_inv W rt"
  shows "graph_ok rt" "\<And>e. e < length (rt_effects rt) \<Longrightarrow> effect_ok rt e" "queue_ok rt" "current_ok rt"
    "\<And>e. e < length (rt_effects rt) \<Longrightarrow> \<not> ef_disposed (rt_effects rt ! e) \<Longrightarrow> accounted W rt e"
  using assms by (simp_all add: rt_inv_def settled_def)

subsection \<open>States with the same graph\<close>

lemma views_cong:
  assumes "rt_signals rt' = rt_signals rt" and "rt_memos rt' = rt_memos rt"
  shows "src_value rt' = src_value rt" "src_subs rt' = src_subs rt" "src_clean rt' = src_clean rt" "valid_src rt' = valid_src rt"
    "wf_in rt' = wf_in rt" "memos_ok rt' = memos_ok rt" "memos_wf rt' = memos_wf rt" "meaning rt' = meaning rt"
proof -
  show views: "src_value rt' = src_value rt" "src_subs rt' = src_subs rt" "src_clean rt' = src_clean rt" "valid_src rt' = valid_src rt"
    "wf_in rt' = wf_in rt"
    using assms
    by (simp_all add: fun_eq_iff src_value_def src_subs_def src_clean_def valid_src_def src_in_def wf_in_def split: source.splits)
  show "memos_ok rt' = memos_ok rt" "memos_wf rt' = memos_wf rt"
    by (simp_all add: memos_ok_def memo_good_def memos_wf_def views assms)
  have den: "denote rt' j = denote rt j" for j
  proof (induction j)
    case (Suc j)
    show ?case unfolding denote.simps Suc assms ..
  qed simp
  show "meaning rt' = meaning rt" unfolding meaning_def den assms ..
qed

lemma views_current [simp]:
  "src_value (rt\<lparr>rt_current := c\<rparr>) = src_value rt" "src_subs (rt\<lparr>rt_current := c\<rparr>) = src_subs rt"
  "src_clean (rt\<lparr>rt_current := c\<rparr>) = src_clean rt" "valid_src (rt\<lparr>rt_current := c\<rparr>) = valid_src rt"
  "wf_in (rt\<lparr>rt_current := c\<rparr>) = wf_in rt" "memos_ok (rt\<lparr>rt_current := c\<rparr>) = memos_ok rt"
  "memos_wf (rt\<lparr>rt_current := c\<rparr>) = memos_wf rt" "meaning (rt\<lparr>rt_current := c\<rparr>) = meaning rt"
  using views_cong [of "rt\<lparr>rt_current := c\<rparr>" rt] by simp_all

lemma graph_ok_cong:
  assumes "rt_signals rt' = rt_signals rt" and "rt_memos rt' = rt_memos rt" and "length (rt_effects rt') = length (rt_effects rt)"
  shows "graph_ok rt' = graph_ok rt"
  by (simp add: graph_ok_def views_cong [OF assms(1,2)] assms)

lemma fresh_cong:
  assumes "rt_signals rt' = rt_signals rt" and "rt_memos rt' = rt_memos rt" and "ef_log (rt_effects rt' ! e) = ef_log (rt_effects rt ! e)"
  shows "fresh rt' e = fresh rt e"
  by (simp add: fresh_def views_cong [OF assms(1,2)] assms)

lemma inv_current:
  assumes "rt_inv W rt" and "current_ok (rt\<lparr>rt_current := c\<rparr>)"
  shows "rt_inv W (rt\<lparr>rt_current := c\<rparr>)"
proof -
  have "graph_ok (rt\<lparr>rt_current := c\<rparr>)" using assms(1) graph_ok_cong [of "rt\<lparr>rt_current := c\<rparr>" rt] by (simp add: rt_inv_def)
  moreover have "effect_ok (rt\<lparr>rt_current := c\<rparr>) e = effect_ok rt e" for e
    by (simp add: effect_ok_def views_cong [of "rt\<lparr>rt_current := c\<rparr>" rt])
  moreover have "accounted W (rt\<lparr>rt_current := c\<rparr>) e = accounted W rt e" for e
    using fresh_cong [of "rt\<lparr>rt_current := c\<rparr>" rt e] by (simp add: accounted_def)
  ultimately show ?thesis using assms by (simp add: rt_inv_def settled_def queue_ok_def)
qed

text \<open>A change of one effect.\<close>

lemma upd_effect_simps [simp]:
  "rt_signals (upd_effect e f rt) = rt_signals rt" "rt_memos (upd_effect e f rt) = rt_memos rt"
  "rt_current (upd_effect e f rt) = rt_current rt" "rt_roots (upd_effect e f rt) = rt_roots rt"
  "rt_batch_depth (upd_effect e f rt) = rt_batch_depth rt" "rt_batched (upd_effect e f rt) = rt_batched rt"
  "rt_flush_depth (upd_effect e f rt) = rt_flush_depth rt" "rt_events (upd_effect e f rt) = rt_events rt"
  "length (rt_effects (upd_effect e f rt)) = length (rt_effects rt)"
  "e < length (rt_effects rt) \<Longrightarrow> rt_effects (upd_effect e f rt) ! x = (if x = e then f (rt_effects rt ! e) else rt_effects rt ! x)"
  by (simp_all add: upd_effect_def)

lemma upd_effect_views [simp]:
  "src_value (upd_effect e f rt) = src_value rt" "src_subs (upd_effect e f rt) = src_subs rt"
  "src_clean (upd_effect e f rt) = src_clean rt" "valid_src (upd_effect e f rt) = valid_src rt"
  "wf_in (upd_effect e f rt) = wf_in rt"
  using views_cong [of "upd_effect e f rt" rt] by simp_all

lemma current_ok_iff:
  "current_ok rt \<longleftrightarrow> (\<forall>s. rt_current rt = Some s \<longrightarrow>
     (\<exists>a < length (rt_effects rt). s = SubEffect a \<and> ef_running (rt_effects rt ! a) \<and> \<not> ef_disposed (rt_effects rt ! a)))"
  by (auto simp: current_ok_def split: option.splits subscriber.splits)

lemma inv_upd_effect:
  assumes "rt_inv W rt" and "e < length (rt_effects rt)"
    and "effect_ok (upd_effect e f rt) e"
    and "\<not> ef_disposed (f (rt_effects rt ! e)) \<Longrightarrow> accounted W' (upd_effect e f rt) e"
    and "\<And>x. x \<noteq> e \<Longrightarrow> x \<in> W \<Longrightarrow> x \<in> W'"
    and "current_ok (upd_effect e f rt)"
  shows "rt_inv W' (upd_effect e f rt)"
proof -
  let ?rt = "upd_effect e f rt"
  note i = invD [OF assms(1)]
  have "effect_ok ?rt x" if "x < length (rt_effects rt)" for x
    using assms(2,3) i(2) [OF that] by (cases "x = e") (simp_all add: effect_ok_def views_cong [of ?rt rt])
  moreover have "accounted W' ?rt x" if "x < length (rt_effects rt)" "\<not> ef_disposed (rt_effects ?rt ! x)" for x
  proof (cases "x = e")
    case True
    then show ?thesis using that assms(2,4) by simp
  next
    case False
    then have "fresh ?rt x = fresh rt x" using assms(2) by (intro fresh_cong) simp_all
    then show ?thesis using False that assms(2,5) i(5) [of x] by (auto simp: accounted_def)
  qed
  moreover have "graph_ok ?rt" using i(1) graph_ok_cong [of ?rt rt] by simp
  ultimately show ?thesis using i(3) assms(6) by (simp add: rt_inv_def settled_def queue_ok_def)
qed

subsection \<open>Reads\<close>

lemma inv_extends:
  assumes "rt_inv W rt" and more: "extends rt rt'" and "memos_ok rt'"
  shows "rt_inv W rt' \<and> frame rt rt'"
proof -
  note i = invD [OF assms(1)] and x = extendsD [OF more]
  have g: "memos_wf rt" "\<forall>m < length (rt_memos rt). \<not> me_computing (rt_memos rt ! m)"
    "\<forall>src e. valid_src rt src \<and> SubEffect e \<in> set (src_subs rt src) \<longrightarrow> e < length (rt_effects rt)"
    using i(1) by (simp_all add: graph_ok_def)
  have cur: "rt_current rt = Some (SubEffect e) \<Longrightarrow> e < length (rt_effects rt)" for e
    using i(4) by (simp add: current_ok_def)
  have subs: "\<forall>src e. valid_src rt' src \<and> SubEffect e \<in> set (src_subs rt' src) \<longrightarrow> e < length (rt_effects rt')"
    using x(17) g(3) cur x(1) extends_valid [OF more] by metis
  have "memos_wf rt'" using g(1) x(8,9,11) by (simp add: memos_wf_def)
  then have "graph_ok rt'" using assms(3) g(2) x(9,12) subs by (simp add: graph_ok_def)
  moreover have wf: "wf_in rt' = wf_in rt" by (rule ext) (simp add: wf_in_def x)
  then have "effect_ok rt' e = effect_ok rt e" for e
    by (simp add: effect_ok_def x extends_valid [OF more])
  moreover have "fresh rt' e" if "fresh rt e" "effect_ok rt e" "\<not> ef_disposed (rt_effects rt ! e)" for e
    unfolding fresh_def
  proof (clarify, goal_cases)
    case (1 s v)
    then have old: "SubEffect e \<in> set (src_subs rt s) \<and> src_clean rt s \<and> v = src_value rt s" and valid: "valid_src rt s"
      using that by (auto simp: fresh_def effect_ok_def x)
    have "is_alive rt (SubEffect e)" using that by (simp add: effect_ok_def is_alive_def)
    with old valid x(13) [OF valid, of "SubEffect e"] extends_clean_source [OF more valid] show ?case by simp
  qed
  then have "settled W rt'"
    using i(2,5) by (simp add: settled_def accounted_def x) blast
  moreover have "current_ok rt'" using i(4) unfolding current_ok_def x(1,2) .
  ultimately have "rt_inv W rt'" using i(2,3) by (simp add: rt_inv_def queue_ok_def x)
  moreover have "frame rt rt'"
    using more x(8) by (auto simp: frame_def extends_def)
  ultimately show ?thesis by simp
qed

lemma inv_read:
  assumes "rt_inv W rt" and "valid_src rt src" and "read_source (length (rt_memos rt)) src rt = (v, rt')"
  shows "rt_inv W rt' \<and> frame rt rt' \<and> extends rt rt'"
proof -
  have "memos_wf rt" "memos_ok rt" "\<forall>m < length (rt_memos rt). \<not> me_computing (rt_memos rt ! m)"
    using assms(1) by (simp_all add: rt_inv_def graph_ok_def)
  from read_source_meaning [OF this assms(2,3)] inv_extends [OF assms(1)] show ?thesis by blast
qed

subsection \<open>Collecting the dependents of a write\<close>

text \<open>
  While the graph is walked, a clean memo that is not right has its entry in the work list, and so has a
  live effect that has read an old value, unless it is already collected or in \<open>K\<close>.
\<close>

definition walk :: "nat set \<Rightarrow> 'v runtime \<Rightarrow> subscriber list \<Rightarrow> nat list \<Rightarrow> bool" where
  "walk K rt ss out =
     (memos_wf rt \<and> (\<forall>m < length (rt_memos rt). \<not> me_computing (rt_memos rt ! m)) \<and>
      (\<forall>src e. valid_src rt src \<and> SubEffect e \<in> set (src_subs rt src) \<longrightarrow> e < length (rt_effects rt)) \<and>
      (\<forall>e. SubEffect e \<in> set ss \<longrightarrow> e < length (rt_effects rt)) \<and> (\<forall>e \<in> set out. e < length (rt_effects rt)) \<and>
      (\<forall>m < length (rt_memos rt). src_clean rt (Mem m) \<and> SubMemo m \<notin> set ss \<longrightarrow> memo_good rt m) \<and>
      (\<forall>e < length (rt_effects rt). live rt e \<longrightarrow> fresh rt e \<or> SubEffect e \<in> set ss \<or> e \<in> set out \<or> e \<in> K))"

lemma push_unique_set [simp]: "set (push_unique e q) = insert e (set q)"
  by (auto simp: push_unique_def)

lemma fold_push_unique_set [simp]: "set (fold push_unique es q) = set es \<union> set q"
  by (induction es arbitrary: q) auto

lemma walk_effect:
  "walk K rt (SubEffect e # ss) out \<Longrightarrow> walk K rt ss (if live rt e then push_unique e out else out)"
  by (auto simp: walk_def)

lemma walk_gone: "walk K rt (SubMemo m # ss) out \<Longrightarrow> \<not> m < length (rt_memos rt) \<Longrightarrow> walk K rt ss out"
  by (auto simp: walk_def)

lemma walk_memo:
  assumes w: "walk K rt (SubMemo m # ss) out" and m: "m < length (rt_memos rt)"
  defines "rt' \<equiv> upd_memo m (\<lambda>x. x\<lparr>me_dirty := True, me_subscribers := []\<rparr>) rt"
  shows "walk K rt' (me_subscribers (rt_memos rt ! m) @ ss) out"
proof -
  note d = w [unfolded walk_def]
  have other: "src_value rt' s = src_value rt s" "src_subs rt' s = (if s = Mem m then [] else src_subs rt s)"
    "src_clean rt' s = (s \<noteq> Mem m \<and> src_clean rt s)" for s
    using m by (auto simp: rt'_def upd_memo_def src_value_def src_subs_def src_clean_def nth_list_update split: source.splits)
  have same: "rt_effects rt' = rt_effects rt" "rt_roots rt' = rt_roots rt" "rt_signals rt' = rt_signals rt"
    "length (rt_memos rt') = length (rt_memos rt)"
    "\<And>x. me_recompute (rt_memos rt' ! x) = me_recompute (rt_memos rt ! x)"
    "\<And>x. me_computing (rt_memos rt' ! x) = me_computing (rt_memos rt ! x)"
    "\<And>x. me_value (rt_memos rt' ! x) = me_value (rt_memos rt ! x)"
    using m by (auto simp: rt'_def upd_memo_def nth_list_update)
  have sv: "src_value rt' = src_value rt" by (rule ext) (rule other(1))
  have live: "live rt' = live rt" by (rule ext) (simp add: live_def is_alive_def same)
  have valid: "valid_src rt' = valid_src rt" by (rule ext) (simp add: valid_src_def src_in_def same split: source.splits)
  have subs: "me_subscribers (rt_memos rt ! m) = src_subs rt (Mem m)" by (simp add: src_subs_def)
  have mine: "SubEffect e \<in> set (src_subs rt (Mem m)) \<Longrightarrow> e < length (rt_effects rt)" for e
    using d m valid_src_simps(2) by blast
  have "memo_good rt' x" if x: "x < length (rt_memos rt)" "src_clean rt' (Mem x)" "SubMemo x \<notin> set (src_subs rt (Mem m) @ ss)" for x
  proof -
    have "memo_good rt x" using d x other(3) [of "Mem x"] by simp
    then show ?thesis using x(3) by (auto simp: memo_good_def Let_def same sv other)
  qed
  moreover have "fresh rt' e \<or> SubEffect e \<in> set (src_subs rt (Mem m) @ ss) \<or> e \<in> set out \<or> e \<in> K"
    if e: "e < length (rt_effects rt)" "live rt e" for e
  proof -
    have "fresh rt e \<or> SubEffect e \<in> set ss \<or> e \<in> set out \<or> e \<in> K" using d e by simp
    moreover have "fresh rt' e" if "fresh rt e" "SubEffect e \<notin> set (src_subs rt (Mem m))"
      using that by (fastforce simp: fresh_def same sv other)
    ultimately show ?thesis by auto
  qed
  ultimately show ?thesis
    using d mine by (simp add: walk_def same live valid subs memos_wf_def other(2))
qed

definition same_but_memos :: "'v runtime \<Rightarrow> 'v runtime \<Rightarrow> bool" where
  "same_but_memos rt rt' =
     (rt' = rt\<lparr>rt_memos := rt_memos rt'\<rparr> \<and> map me_recompute (rt_memos rt') = map me_recompute (rt_memos rt) \<and>
      map me_value (rt_memos rt') = map me_value (rt_memos rt))"

lemma collect_dependents_frame: "same_but_memos rt (fst (collect_dependents rt ss out))"
proof (induction rt ss out rule: collect_dependents.induct)
  case (1 rt effects)
  then show ?case by (simp add: same_but_memos_def)
next
  case (2 rt e ss effects)
  then show ?case by (cases "live rt e") simp_all
next
  case (3 rt m ss effects)
  show ?case
  proof (cases "m < length (rt_memos rt)")
    case True
    let ?rt = "upd_memo m (\<lambda>x. x\<lparr>me_dirty := True, me_subscribers := []\<rparr>) rt"
    have "same_but_memos rt ?rt" using True
      by (auto simp: same_but_memos_def upd_memo_def list_eq_iff_nth_eq nth_list_update)
    then have "same_but_memos rt (fst (collect_dependents ?rt (me_subscribers (rt_memos rt ! m) @ ss) effects))"
      using "3.IH"(1) [OF True] by (auto simp: same_but_memos_def upd_memo_def)
    then show ?thesis using True by simp
  next
    case False
    then show ?thesis using "3.IH"(2) [OF False] by simp
  qed
qed

lemma same_but_memos_fields:
  assumes "same_but_memos rt rt'"
  shows "rt_signals rt' = rt_signals rt" "rt_effects rt' = rt_effects rt" "rt_batch_depth rt' = rt_batch_depth rt"
    "rt_flush_depth rt' = rt_flush_depth rt"
proof -
  have e: "rt' = rt\<lparr>rt_memos := rt_memos rt'\<rparr>" using assms by (simp add: same_but_memos_def)
  show "rt_signals rt' = rt_signals rt" "rt_effects rt' = rt_effects rt" "rt_batch_depth rt' = rt_batch_depth rt"
    "rt_flush_depth rt' = rt_flush_depth rt"
    by (subst e, simp)+
qed

lemma collect_dependents_walk:
  "walk K rt ss out \<Longrightarrow> walk K (fst (collect_dependents rt ss out)) [] (snd (collect_dependents rt ss out))"
proof (induction rt ss out rule: collect_dependents.induct)
  case (2 rt e ss effects)
  show ?case using 2(1,2) walk_effect [OF "2.prems"] by (cases "live rt e") simp_all
next
  case (3 rt m ss effects)
  show ?case using "3.IH" walk_memo [OF "3.prems"] walk_gone [OF "3.prems"] by (cases "m < length (rt_memos rt)") simp_all
qed simp

lemma collect_dependents_ok:
  "walk K rt ss out \<Longrightarrow> collect_dependents rt ss out = (rt', out') \<Longrightarrow> walk K rt' [] out' \<and> same_but_memos rt rt'"
  using collect_dependents_walk [of K rt ss out] collect_dependents_frame [of rt ss out] by simp

lemma collect_start:
  fixes f :: "'v \<Rightarrow> 'v"
  assumes "rt_inv W rt" and "i < length (rt_signals rt)"
  defines "rt1 \<equiv> upd_signal i (\<lambda>x. x\<lparr>sg_subscribers := []\<rparr>) (upd_signal i (\<lambda>x. x\<lparr>sg_value := f (sg_value x)\<rparr>) rt)"
  defines "K \<equiv> {e. accounted W rt e \<and> \<not> fresh rt e}"
  shows "walk K rt1 (sg_subscribers (rt_signals rt ! i)) []"
proof -
  note v = invD [OF assms(1)]
  have g: "memos_wf rt" "memos_ok rt" "\<forall>m < length (rt_memos rt). \<not> me_computing (rt_memos rt ! m)"
    "\<forall>src e. valid_src rt src \<and> SubEffect e \<in> set (src_subs rt src) \<longrightarrow> e < length (rt_effects rt)"
    using v(1) by (simp_all add: graph_ok_def)
  have other: "s \<noteq> Sig i \<Longrightarrow> src_value rt1 s = src_value rt s" "src_subs rt1 s = (if s = Sig i then [] else src_subs rt s)"
    "src_clean rt1 s = src_clean rt s" for s
    using assms(2) by (auto simp: rt1_def upd_signal_def src_value_def src_subs_def src_clean_def nth_list_update split: source.splits)
  have same: "rt_effects rt1 = rt_effects rt" "rt_roots rt1 = rt_roots rt" "rt_memos rt1 = rt_memos rt"
    "length (rt_signals rt1) = length (rt_signals rt)"
    by (simp_all add: rt1_def upd_signal_def)
  have live: "live rt1 = live rt" by (rule ext) (simp add: live_def is_alive_def same)
  have valid: "valid_src rt1 = valid_src rt" by (rule ext) (simp add: valid_src_def src_in_def same split: source.splits)
  have subs: "sg_subscribers (rt_signals rt ! i) = src_subs rt (Sig i)" by (simp add: src_subs_def)
  have mine: "SubEffect e \<in> set (src_subs rt (Sig i)) \<Longrightarrow> e < length (rt_effects rt)" for e
    using g(4) assms(2) valid_src_simps(1) by blast
  have "memo_good rt1 x" if x: "x < length (rt_memos rt)" "src_clean rt1 (Mem x)" "SubMemo x \<notin> set (src_subs rt (Sig i))" for x
  proof -
    let ?c = "me_recompute (rt_memos rt ! x)"
    have good: "memo_good rt x" using g(2) x(1,2) other(3) by (simp add: memos_ok_def)
    then have "\<forall>s \<in> set (comp_reads (src_value rt) ?c). s \<noteq> Sig i" using x(3) by (auto simp: memo_good_def Let_def)
    then have ne: "\<forall>s \<in> set (comp_reads (src_value rt) ?c). src_value rt1 s = src_value rt s \<and> s \<noteq> Sig i"
      using other(1) by blast
    then have "comp_reads (src_value rt1) ?c = comp_reads (src_value rt) ?c \<and> comp_eval (src_value rt1) ?c = comp_eval (src_value rt) ?c"
      by (intro comp_cong) blast
    then show ?thesis using good ne by (auto simp: memo_good_def Let_def same other(2,3))
  qed
  moreover have "fresh rt1 e \<or> SubEffect e \<in> set (src_subs rt (Sig i)) \<or> e \<in> K"
    if e: "e < length (rt_effects rt)" "live rt e" for e
  proof -
    have "accounted W rt e" using v(5) e by (simp add: live_def)
    moreover have "fresh rt1 e" if "fresh rt e" "SubEffect e \<notin> set (src_subs rt (Sig i))"
      unfolding fresh_def same
    proof clarify
      fix s v assume "(s, v) \<in> set (ef_log (rt_effects rt ! e))"
      then have "SubEffect e \<in> set (src_subs rt s) \<and> src_clean rt s \<and> v = src_value rt s" "s \<noteq> Sig i"
        using that by (auto simp: fresh_def)
      then show "SubEffect e \<in> set (src_subs rt1 s) \<and> src_clean rt1 s \<and> v = src_value rt1 s"
        by (simp add: other)
    qed
    ultimately show ?thesis by (auto simp: K_def)
  qed
  ultimately show ?thesis
    using g mine by (simp add: walk_def same live valid subs memos_wf_def other(2))
qed

subsection \<open>Queues\<close>

lemma inv_queues:
  assumes "rt_inv V rt"
    and "rt_signals rt' = rt_signals rt" "rt_memos rt' = rt_memos rt" "rt_effects rt' = rt_effects rt"
      "rt_current rt' = rt_current rt" "rt_roots rt' = rt_roots rt" and "queue_ok rt'"
    and "\<And>e. e < length (rt_effects rt) \<Longrightarrow> \<not> ef_disposed (rt_effects rt ! e) \<Longrightarrow>
      e \<in> V \<or> e \<in> set (rt_batched rt) \<or> FlushDepthExceeded \<in> set (rt_events rt) \<Longrightarrow>
      e \<in> W \<or> e \<in> set (rt_batched rt') \<or> FlushDepthExceeded \<in> set (rt_events rt')"
  shows "rt_inv W rt'"
proof -
  note i = invD [OF assms(1)]
  note views = views_cong [OF assms(2,3)]
  have "graph_ok rt'" using i(1) graph_ok_cong [OF assms(2,3)] assms(4) by simp
  moreover have "effect_ok rt' e" if "e < length (rt_effects rt)" for e
    using i(2) [OF that] by (simp add: effect_ok_def views assms(4,6))
  moreover have "current_ok rt'" using i(4) unfolding current_ok_def assms(4,5) .
  moreover have "accounted W rt' e" if "e < length (rt_effects rt)" "\<not> ef_disposed (rt_effects rt ! e)" for e
  proof -
    have "fresh rt' e = fresh rt e" by (rule fresh_cong) (simp_all add: assms)
    then show ?thesis using i(5) [OF that] assms(8) [OF that] by (auto simp: accounted_def assms(4))
  qed
  ultimately show ?thesis using assms(4,7) by (simp add: rt_inv_def settled_def)
qed

lemma inv_exceeded: "rt_inv V rt \<Longrightarrow> rt_inv W (report FlushDepthExceeded rt)"
  by (rule inv_queues) (auto simp: report_def queue_ok_def rt_inv_def)

lemma inv_report: "rt_inv W rt \<Longrightarrow> rt_inv W (report ev rt)"
  by (rule inv_queues) (auto simp: report_def queue_ok_def rt_inv_def)

lemma frame_report: "ev \<in> {EffectCycle, FlushDepthExceeded} \<Longrightarrow> frame rt (report ev rt)"
  by (auto simp: frame_def report_def)

lemma inv_depths: "rt_inv W rt \<Longrightarrow> d = 0 \<longrightarrow> rt_batched rt = [] \<Longrightarrow> rt_inv W (rt\<lparr>rt_batch_depth := d, rt_flush_depth := f\<rparr>)"
  by (rule inv_queues) (auto simp: queue_ok_def rt_inv_def)

lemma inv_queue: "rt_inv (W \<union> set es) rt \<Longrightarrow> \<forall>e \<in> set es. e < length (rt_effects rt) \<Longrightarrow> 0 < rt_batch_depth rt \<Longrightarrow>
   rt_inv W (rt\<lparr>rt_batched := fold push_unique es (rt_batched rt)\<rparr>)"
  by (rule inv_queues) (auto simp: queue_ok_def rt_inv_def)

lemma inv_take: "rt_inv W rt \<Longrightarrow> rt_inv (W \<union> set (rt_batched rt)) (rt\<lparr>rt_batched := []\<rparr>)"
  by (rule inv_queues) (auto simp: queue_ok_def rt_inv_def)

subsection \<open>Code that writes, over the contract of the effect runner\<close>

text \<open>The runner takes one effect out of the pending ones; \<open>n\<close> bounds the effects that are not running.\<close>

locale effect_runner =
  fixes run :: "'v runner" and n :: nat
  assumes run_ok: "rt_inv (insert e W) rt \<Longrightarrow> e < length (rt_effects rt) \<Longrightarrow> free rt < n \<Longrightarrow>
    rt_inv W (run e rt) \<and> frame rt (run e rt)"
begin

lemma fold_run:
  "rt_inv (W \<union> set es) rt \<Longrightarrow> \<forall>e \<in> set es. e < length (rt_effects rt) \<Longrightarrow> free rt < n \<Longrightarrow>
   rt_inv W (fold run es rt) \<and> frame rt (fold run es rt)"
proof (induction es arbitrary: rt)
  case (Cons e es)
  have "rt_inv (insert e (W \<union> set es)) rt" using Cons.prems(1) by simp
  then have r: "rt_inv (W \<union> set es) (run e rt)" "frame rt (run e rt)" using run_ok Cons.prems by auto
  have "rt_inv W (fold run es (run e rt)) \<and> frame (run e rt) (fold run es (run e rt))"
    using r Cons.prems by (intro Cons.IH) (simp_all add: frame_lengths(3) [OF r(2)] free_frame)
  then show ?case using frame_trans [OF r(2)] by simp
qed simp

lemma schedule_async_ok:
  assumes "rt_inv (W \<union> set es) rt" and "\<forall>e \<in> set es. e < length (rt_effects rt)" and "free rt < n"
  shows "rt_inv W (schedule_async run es rt) \<and> frame rt (schedule_async run es rt)"
proof (cases "rt_flush_depth rt \<ge> MAX_FLUSH_DEPTH")
  case True
  then show ?thesis using inv_exceeded [OF assms(1)] by (simp add: schedule_async_def frame_report)
next
  case False
  define rt1 where "rt1 = rt\<lparr>rt_flush_depth := rt_flush_depth rt + 1\<rparr>"
  define rt2 where "rt2 = fold run es rt1"
  have "rt_inv (W \<union> set es) rt1"
    using assms(1) unfolding rt1_def by (rule inv_queues) (use assms(1) in \<open>auto simp: rt_inv_def queue_ok_def\<close>)
  then have two: "rt_inv W rt2" "frame rt1 rt2"
    unfolding rt2_def using fold_run [of W es rt1] assms(2,3) by (simp_all add: rt1_def free_def)
  define rt3 where "rt3 = rt2\<lparr>rt_flush_depth := rt_flush_depth rt2 - 1\<rparr>"
  have "rt_inv W rt3"
    using two(1) unfolding rt3_def by (rule inv_queues) (use two(1) in \<open>auto simp: rt_inv_def queue_ok_def\<close>)
  moreover have "frame rt rt3"
    using two(2) by (simp add: frame_def rt1_def rt3_def)
  ultimately show ?thesis using False by (simp add: schedule_async_def Let_def rt1_def rt2_def rt3_def)
qed

lemma schedule_effects_ok:
  assumes "rt_inv (W \<union> set es) rt" and "\<forall>e \<in> set es. e < length (rt_effects rt)" and "free rt < n"
  shows "rt_inv W (schedule_effects run es rt) \<and> frame rt (schedule_effects run es rt)"
proof (cases "rt_batch_depth rt > 0")
  case True
  then show ?thesis using inv_queue [OF assms(1,2)] by (auto simp: schedule_effects_def frame_def)
next
  case False
  then have none: "rt_batched rt = []" using invD(3) [OF assms(1)] by (simp add: queue_ok_def)
  then have same: "rt\<lparr>rt_batched := []\<rparr> = rt" by simp
  let ?p = "fold push_unique es []"
  have p: "rt_inv (W \<union> set ?p) rt" "\<forall>e \<in> set ?p. e < length (rt_effects rt)" using assms by simp_all
  show ?thesis
  proof (cases "?p = []")
    case True
    then show ?thesis using p(1) False none by (simp add: schedule_effects_def same)
  next
    case ne: False
    then show ?thesis using schedule_async_ok [OF p assms(3)] False none by (simp add: schedule_effects_def same)
  qed
qed

end

subsection \<open>Steps of a body\<close>

lemma note_read_ok:
  assumes "rt_inv W rt" and "valid_src rt src" and "read_source (length (rt_memos rt)) src rt = (v, rt')"
  shows "rt_inv W (note_read src v rt') \<and> frame rt (note_read src v rt')"
proof -
  have r: "rt_inv W rt'" "frame rt rt'" "extends rt rt'" using inv_read [OF assms] by auto
  note i = invD [OF r(1)]
  show ?thesis
  proof (cases "rt_current rt'")
    case None
    then show ?thesis using r by (simp add: note_read_def)
  next
    case (Some s)
    then obtain a where s: "s = SubEffect a" and a: "a < length (rt_effects rt')" "ef_running (rt_effects rt' ! a)" "\<not> ef_disposed (rt_effects rt' ! a)"
      using i(4) by (auto simp: current_ok_def split: subscriber.splits)
    let ?f = "\<lambda>x. x\<lparr>ef_log := ef_log x @ [(src, v)]\<rparr>"
    let ?rt = "upd_effect a ?f rt'"
    have noted: "note_read src v rt' = ?rt" using Some s by (simp add: note_read_def)
    have g: "memos_wf rt" "memos_ok rt" "\<forall>m < length (rt_memos rt). \<not> me_computing (rt_memos rt ! m)"
      using assms(1) by (simp_all add: rt_inv_def graph_ok_def)
    have ok: "effect_ok rt a" "rt_current rt = Some (SubEffect a)"
      using invD(2) [OF assms(1)] a(1) Some s by (simp_all add: extendsD(1,2) [OF r(3)])
    have "is_alive rt (SubEffect a)" using ok(1) a(3) by (simp add: is_alive_def effect_ok_def extendsD(1) [OF r(3)])
    then have read: "SubEffect a \<in> set (src_subs rt' src)" "src_clean rt' src" "v = src_value rt' src"
      using read_source_meaning(3,4,6) [OF g(1,2,3) assms(2,3)] ok(2) by simp_all
    have "effect_ok ?rt a"
      using i(2) [OF a(1)] assms(2) a(1) extends_valid [OF r(3)] by (auto simp: effect_ok_def)
    moreover have "accounted W ?rt a"
    proof -
      have "fresh rt' a \<Longrightarrow> fresh ?rt a" using read a(1) by (auto simp: fresh_def)
      then show ?thesis using i(5) [OF a(1,3)] a(1) by (auto simp: accounted_def)
    qed
    moreover have "current_ok ?rt" using a Some s by (simp add: current_ok_def)
    ultimately have "rt_inv W ?rt" using r(1) a(1) by (intro inv_upd_effect) simp_all
    moreover have "frame rt' ?rt" using a(1) by (auto simp: frame_def upd_effect_def list_eq_iff_nth_eq nth_list_update)
    ultimately show ?thesis using frame_trans [OF r(2)] by (simp add: noted)
  qed
qed

lemma peek_ok:
  assumes "rt_inv W rt" and "valid_src rt src" and "untrack (read_source (length (rt_memos rt)) src) rt = (v, rt')"
  shows "rt_inv W rt' \<and> frame rt rt'"
proof -
  let ?rt = "rt\<lparr>rt_current := None\<rparr>"
  obtain rt1 where r: "read_source (length (rt_memos rt)) src ?rt = (v, rt1)" and rt': "rt' = rt1\<lparr>rt_current := rt_current rt\<rparr>"
    using assms(3) by (auto simp: untrack_def split: prod.splits)
  have none: "rt_inv W ?rt" by (rule inv_current [OF assms(1)]) (simp add: current_ok_def)
  have "valid_src ?rt src" using assms(2) views_cong(4) [of ?rt rt] by simp
  then have one: "rt_inv W rt1" "frame ?rt rt1" "extends ?rt rt1" using inv_read [OF none, of src v rt1] r by auto
  have "current_ok rt'"
    using invD(4) [OF assms(1)] extendsD(1) [OF one(3)] by (simp add: rt' current_ok_iff)
  then have "rt_inv W rt'" unfolding rt' by (rule inv_current [OF one(1)])
  moreover have "frame rt rt'" using one(2) by (simp add: frame_def rt')
  ultimately show ?thesis by simp
qed

lemma on_cleanup_ok:
  assumes "rt_inv W rt" and "wf_in rt c"
  shows "rt_inv W (on_cleanup c rt) \<and> frame rt (on_cleanup c rt)"
proof (cases "rt_current rt")
  case None
  then show ?thesis using assms by (simp add: on_cleanup_def)
next
  case (Some s)
  note i = invD [OF assms(1)]
  from Some obtain a where s: "s = SubEffect a" and a: "a < length (rt_effects rt)" "ef_running (rt_effects rt ! a)" "\<not> ef_disposed (rt_effects rt ! a)"
    using i(4) by (auto simp: current_ok_def split: subscriber.splits)
  let ?f = "\<lambda>x. x\<lparr>ef_cleanups := ef_cleanups x @ [c]\<rparr>"
  let ?rt = "upd_effect a ?f rt"
  have "effect_ok ?rt a"
    using i(2) [OF a(1)] assms(2) a(1) by (auto simp: effect_ok_def)
  moreover have "accounted W ?rt a"
    using i(5) [OF a(1,3)] a(1) fresh_cong [of ?rt rt a] by (auto simp: accounted_def)
  moreover have "current_ok ?rt" using a Some s by (simp add: current_ok_def)
  ultimately have "rt_inv W ?rt" using assms(1) a(1) by (intro inv_upd_effect) simp_all
  moreover have "frame rt ?rt" using a(1) by (auto simp: frame_def upd_effect_def list_eq_iff_nth_eq nth_list_update)
  ultimately show ?thesis using Some s by (simp add: on_cleanup_def)
qed

context effect_runner
begin

lemma write_signal_ok:
  assumes "rt_inv W rt" and "i < length (rt_signals rt)" and "free rt < n"
  shows "rt_inv W (write_signal run i f rt) \<and> frame rt (write_signal run i f rt)"
proof -
  define rt0 where "rt0 = upd_signal i (\<lambda>x. x\<lparr>sg_value := f (sg_value x)\<rparr>) rt"
  define rt1 where "rt1 = upd_signal i (\<lambda>x. x\<lparr>sg_subscribers := []\<rparr>) rt0"
  define K where "K = {e. accounted W rt e \<and> \<not> fresh rt e}"
  have subs: "sg_subscribers (rt_signals rt0 ! i) = sg_subscribers (rt_signals rt ! i)"
    using assms(2) by (simp add: rt0_def upd_signal_def)
  obtain rt2 es where c: "collect_dependents rt1 (sg_subscribers (rt_signals rt ! i)) [] = (rt2, es)" by fastforce
  have result: "write_signal run i f rt = schedule_effects run es rt2"
    using c by (simp add: write_signal_def notify_def rt0_def [symmetric] rt1_def [symmetric] subs)
  have "walk K rt1 (sg_subscribers (rt_signals rt ! i)) []"
    unfolding rt1_def rt0_def K_def by (rule collect_start [OF assms(1,2)])
  note w = collect_dependents_ok [OF this c]
  have m: "rt2 = rt1\<lparr>rt_memos := rt_memos rt2\<rparr>" "map me_recompute (rt_memos rt2) = map me_recompute (rt_memos rt1)"
    using w by (simp_all add: same_but_memos_def)
  have one: "rt_effects rt1 = rt_effects rt" "rt_current rt1 = rt_current rt" "rt_roots rt1 = rt_roots rt"
    "rt_batch_depth rt1 = rt_batch_depth rt" "rt_batched rt1 = rt_batched rt" "rt_flush_depth rt1 = rt_flush_depth rt"
    "rt_events rt1 = rt_events rt" "length (rt_signals rt1) = length (rt_signals rt)" "rt_memos rt1 = rt_memos rt"
    by (simp_all add: rt1_def rt0_def upd_signal_def)
  have two: "rt_effects rt2 = rt_effects rt" "rt_current rt2 = rt_current rt" "rt_roots rt2 = rt_roots rt"
    "rt_batch_depth rt2 = rt_batch_depth rt" "rt_batched rt2 = rt_batched rt" "rt_flush_depth rt2 = rt_flush_depth rt"
    "rt_events rt2 = rt_events rt" "length (rt_signals rt2) = length (rt_signals rt)" "length (rt_memos rt2) = length (rt_memos rt)"
    using map_eq_imp_length_eq [OF m(2)] one by (subst m(1), simp)+
  have valid: "valid_src rt2 = valid_src rt"
    by (rule ext) (simp add: valid_src_def src_in_def two split: source.splits)
  note i = invD [OF assms(1)]
  have "graph_ok rt2" using w by (simp add: walk_def graph_ok_def memos_ok_def)
  moreover have "effect_ok rt2 e" if "e < length (rt_effects rt)" for e
    using i(2) [OF that] by (simp add: effect_ok_def wf_in_def two valid)
  moreover have "current_ok rt2" using i(4) unfolding current_ok_def two .
  moreover have "accounted (W \<union> set es) rt2 e" if e: "e < length (rt_effects rt)" "\<not> ef_disposed (rt_effects rt ! e)" for e
  proof -
    have "live rt2 e" using i(2) [OF e(1)] e(2) by (simp add: live_def is_alive_def effect_ok_def two)
    then have "fresh rt2 e \<or> e \<in> set es \<or> e \<in> K" using w e(1) by (simp add: walk_def two)
    then show ?thesis by (auto simp: accounted_def K_def two)
  qed
  ultimately have "rt_inv (W \<union> set es) rt2"
    using i(3) by (simp add: rt_inv_def settled_def queue_ok_def two)
  moreover have "\<forall>e \<in> set es. e < length (rt_effects rt2)" using w by (simp add: walk_def)
  moreover have "free rt2 < n" using assms(3) by (simp add: free_def two)
  moreover have "frame rt rt2" using m(2) by (auto simp: frame_def two one)
  ultimately show ?thesis using schedule_effects_ok [of W es rt2] frame_trans result by auto
qed

end

context effect_runner
begin

lemma flush_batch_ok:
  assumes "rt_inv W rt" and "rt_batch_depth rt = Suc d" and "free rt < n"
  defines "rt2 \<equiv> rt\<lparr>rt_batch_depth := d\<rparr>"
  shows "rt_inv W (flush_batch run rt2) \<and> frame rt2 (flush_batch run rt2)"
proof (cases "d = 0")
  case True
  let ?rt = "rt2\<lparr>rt_batched := []\<rparr>"
  have q: "queue_ok rt" using assms(1) by (simp add: rt_inv_def)
  have "rt_inv (W \<union> set (rt_batched rt)) ?rt"
    using assms(1) unfolding rt2_def by (rule inv_queues) (auto simp: queue_ok_def)
  moreover have "\<forall>e \<in> set (rt_batched rt). e < length (rt_effects ?rt)"
    using q by (simp add: queue_ok_def rt2_def)
  moreover have "free ?rt < n" using assms(3) by (simp add: free_def rt2_def)
  ultimately have "rt_inv W (fold run (rt_batched rt) ?rt) \<and> frame ?rt (fold run (rt_batched rt) ?rt)"
    by (rule fold_run)
  moreover have "frame rt2 ?rt" by (auto simp: frame_def)
  ultimately show ?thesis
    using True frame_trans [of rt2 ?rt] by (simp add: flush_batch_def run_now_def rt2_def)
next
  case False
  have "rt_inv W rt2"
    using assms(1) unfolding rt2_def
    by (rule inv_queues) (use assms(1) False in \<open>auto simp: rt_inv_def queue_ok_def\<close>)
  then show ?thesis using False by (simp add: flush_batch_def rt2_def)
qed

lemma batch_ok:
  assumes body: "\<And>rt. rt_inv W rt \<Longrightarrow> wf_in rt b \<Longrightarrow> free rt < n \<Longrightarrow> rt_inv W (exec run b rt) \<and> frame rt (exec run b rt)"
    and "rt_inv W rt" and "wf_in rt b" and "free rt < n"
  defines "rt1 \<equiv> exec run b (rt\<lparr>rt_batch_depth := rt_batch_depth rt + 1\<rparr>)"
  defines "rt3 \<equiv> flush_batch run (rt1\<lparr>rt_batch_depth := rt_batch_depth rt1 - 1\<rparr>)"
  shows "rt_inv W rt3 \<and> frame rt rt3"
proof -
  let ?rt0 = "rt\<lparr>rt_batch_depth := rt_batch_depth rt + 1\<rparr>"
  have "rt_inv W ?rt0"
    using assms(2) by (rule inv_queues) (use assms(2) in \<open>auto simp: rt_inv_def queue_ok_def\<close>)
  then have one: "rt_inv W rt1" "frame ?rt0 rt1"
    unfolding rt1_def using body [of ?rt0] assms(3,4) by (simp_all add: wf_in_def free_def)
  have d: "rt_batch_depth rt1 = Suc (rt_batch_depth rt)" using one(2) by (simp add: frame_def)
  have "free rt1 < n" using free_frame [OF one(2)] assms(4) by (simp add: free_def)
  from flush_batch_ok [OF one(1) d this]
  have "rt_inv W rt3" "frame (rt1\<lparr>rt_batch_depth := rt_batch_depth rt\<rparr>) rt3" by (simp_all add: rt3_def d)
  moreover have "frame rt (rt1\<lparr>rt_batch_depth := rt_batch_depth rt\<rparr>)" using one(2) by (simp add: frame_def)
  ultimately show ?thesis using frame_trans by blast
qed

lemma exec_ok:
  "rt_inv W rt \<Longrightarrow> wf_in rt p \<Longrightarrow> free rt < n \<Longrightarrow> rt_inv W (exec run p rt) \<and> frame rt (exec run p rt)"
proof (induction p arbitrary: rt)
  case Finish
  then show ?case by simp
next
  case (Get src k)
  obtain v rt' where r: "read_source (length (rt_memos rt)) src rt = (v, rt')" by fastforce
  have "valid_src rt src" using Get.prems(2) by (cases src) (simp_all add: wf_in_def)
  note s = note_read_ok [OF Get.prems(1) this r, THEN conjunct1] note_read_ok [OF Get.prems(1) this r, THEN conjunct2]
  have "wf_in (note_read src v rt') (k v)" using Get.prems(2) frame_fields(8) [OF s(2)] by (simp add: wf_in_def)
  from Get.IH [OF rangeI s(1) this] frame_trans [OF s(2)] Get.prems(3) free_frame [OF s(2)] r show ?case by simp
next
  case (Peek src k)
  obtain v rt' where r: "untrack (read_source (length (rt_memos rt)) src) rt = (v, rt')" by fastforce
  have "valid_src rt src" using Peek.prems(2) by (cases src) (simp_all add: wf_in_def)
  note s = peek_ok [OF Peek.prems(1) this r, THEN conjunct1] peek_ok [OF Peek.prems(1) this r, THEN conjunct2]
  have "wf_in rt' (k v)" using Peek.prems(2) frame_fields(8) [OF s(2)] by (simp add: wf_in_def)
  from Peek.IH [OF rangeI s(1) this] frame_trans [OF s(2)] Peek.prems(3) free_frame [OF s(2)] r show ?case by simp
next
  case (Write i f k)
  have "i < length (rt_signals rt)" using Write.prems(2) by (simp add: wf_in_def)
  from write_signal_ok [OF Write.prems(1) this Write.prems(3)]
  have s: "rt_inv W (write_signal run i f rt)" "frame rt (write_signal run i f rt)" by auto
  have "wf_in (write_signal run i f rt) k" using Write.prems(2) frame_fields(8) [OF s(2)] by (simp add: wf_in_def)
  from Write.IH [OF s(1) this] frame_trans [OF s(2)] Write.prems(3) free_frame [OF s(2)] show ?case by simp
next
  case (Batch b k)
  let ?rt1 = "exec run b (rt\<lparr>rt_batch_depth := rt_batch_depth rt + 1\<rparr>)"
  let ?rt3 = "flush_batch run (?rt1\<lparr>rt_batch_depth := rt_batch_depth ?rt1 - 1\<rparr>)"
  have "wf_in rt b" using Batch.prems(2) by (simp add: wf_in_def)
  from batch_ok [OF Batch.IH(1) Batch.prems(1) this Batch.prems(3)]
  have s: "rt_inv W ?rt3" "frame rt ?rt3" by auto
  have "wf_in ?rt3 k" using Batch.prems(2) frame_fields(8) [OF s(2)] by (simp add: wf_in_def)
  from Batch.IH(2) [OF s(1) this] frame_trans [OF s(2)] Batch.prems(3) free_frame [OF s(2)] show ?case by (simp add: Let_def)
next
  case (OnCleanup c k)
  have "wf_in rt c" using OnCleanup.prems(2) by (simp add: wf_in_def)
  from on_cleanup_ok [OF OnCleanup.prems(1) this]
  have s: "rt_inv W (on_cleanup c rt)" "frame rt (on_cleanup c rt)" by auto
  have "wf_in (on_cleanup c rt) k" using OnCleanup.prems(2) frame_fields(8) [OF s(2)] by (simp add: wf_in_def)
  from OnCleanup.IH(2) [OF s(1) this] frame_trans [OF s(2)] OnCleanup.prems(3) free_frame [OF s(2)] show ?case by simp
qed

lemma fold_exec_ok:
  "rt_inv W rt \<Longrightarrow> \<forall>p \<in> set ps. wf_in rt p \<Longrightarrow> free rt < n \<Longrightarrow>
   rt_inv W (fold (exec run) ps rt) \<and> frame rt (fold (exec run) ps rt)"
proof (induction ps arbitrary: rt)
  case (Cons p ps)
  then have s: "rt_inv W (exec run p rt)" "frame rt (exec run p rt)" using exec_ok by auto
  have "rt_inv W (fold (exec run) ps (exec run p rt)) \<and> frame (exec run p rt) (fold (exec run) ps (exec run p rt))"
    using Cons.prems frame_fields(8) [OF s(2)] free_frame [OF s(2)] by (intro Cons.IH s(1)) simp_all
  then show ?case using frame_trans [OF s(2)] by simp
qed simp

end

subsection \<open>Running an effect\<close>

lemma frame_upd_effect:
  assumes "e < length (rt_effects rt)"
    and "ef_execute (f (rt_effects rt ! e)) = ef_execute (rt_effects rt ! e)"
      "ef_disposed (f (rt_effects rt ! e)) = ef_disposed (rt_effects rt ! e)"
      "ef_running (f (rt_effects rt ! e)) = ef_running (rt_effects rt ! e)"
      "ef_held (f (rt_effects rt ! e)) = ef_held (rt_effects rt ! e)"
  shows "frame rt (upd_effect e f rt)"
  using assms by (auto simp: frame_def upd_effect_def list_eq_iff_nth_eq nth_list_update)

lemma filter_not_update: "e < length bs \<Longrightarrow> \<not> bs ! e \<Longrightarrow> Suc (length (filter Not (bs[e := True]))) = length (filter Not bs)"
  by (induction bs arbitrary: e) (auto split: nat.splits)

lemma free_start:
  assumes "e < length (rt_effects rt)" and "\<not> ef_running (rt_effects rt ! e)" and "ef_running (f (rt_effects rt ! e))"
  shows "Suc (free (upd_effect e f rt)) = free rt"
  using filter_not_update [of e "map ef_running (rt_effects rt)"] assms by (simp add: free_def upd_effect_def map_update)

lemma current_ok_upd:
  assumes "current_ok rt" and "e < length (rt_effects rt)"
    and "rt_current rt = Some (SubEffect e) \<Longrightarrow> ef_running (f (rt_effects rt ! e)) \<and> \<not> ef_disposed (f (rt_effects rt ! e))"
  shows "current_ok (upd_effect e f rt)"
  using assms by (auto simp: current_ok_iff)

text \<open>A run sets the flag of its effect and takes it back.\<close>

lemma frame_bracket:
  assumes e: "e < length (rt_effects rt)" "\<not> ef_running (rt_effects rt ! e)" and "frame (upd_effect e f rt) rt'"
    and "ef_execute (f (rt_effects rt ! e)) = ef_execute (rt_effects rt ! e)"
      "ef_disposed (f (rt_effects rt ! e)) = ef_disposed (rt_effects rt ! e)"
      "ef_held (f (rt_effects rt ! e)) = ef_held (rt_effects rt ! e)"
  shows "frame rt (upd_effect e (\<lambda>x. x\<lparr>ef_running := False\<rparr>) rt')"
proof -
  note l = frame_lengths(3) [OF assms(3), simplified] and f = frame_fields [OF assms(3), simplified]
  have at: "ef_execute (rt_effects rt' ! x) = ef_execute (rt_effects rt ! x)"
    "ef_disposed (rt_effects rt' ! x) = ef_disposed (rt_effects rt ! x)"
    "ef_held (rt_effects rt' ! x) = ef_held (rt_effects rt ! x)"
    "x \<noteq> e \<Longrightarrow> ef_running (rt_effects rt' ! x) = ef_running (rt_effects rt ! x)"
    if "x < length (rt_effects rt)" for x
    using f(5,6,7,9) [OF that] assms(1,4-6) by (auto split: if_splits)
  have "map ef_execute (rt_effects (upd_effect e (\<lambda>x. x\<lparr>ef_running := False\<rparr>) rt')) = map ef_execute (rt_effects rt)"
    "map ef_disposed (rt_effects (upd_effect e (\<lambda>x. x\<lparr>ef_running := False\<rparr>) rt')) = map ef_disposed (rt_effects rt)"
    "map ef_held (rt_effects (upd_effect e (\<lambda>x. x\<lparr>ef_running := False\<rparr>) rt')) = map ef_held (rt_effects rt)"
    "map ef_running (rt_effects (upd_effect e (\<lambda>x. x\<lparr>ef_running := False\<rparr>) rt')) = map ef_running (rt_effects rt)"
    using e l at by (auto simp: list_eq_iff_nth_eq)
  then show ?thesis using assms(3) by (simp add: frame_def)
qed

context effect_runner
begin

lemma dispose_children_ok:
  assumes "rt_inv W rt" and "e < length (rt_effects rt)" and "free rt < n"
  shows "rt_inv W (dispose_children run e rt) \<and> frame rt (dispose_children run e rt)"
proof -
  let ?rt = "upd_effect e (\<lambda>x. x\<lparr>ef_cleanups := []\<rparr>) rt"
  note i = invD [OF assms(1)]
  have ok: "effect_ok rt e" using i(2) assms(2) .
  have "rt_inv W ?rt"
  proof (rule inv_upd_effect [OF assms(1,2)])
    show "effect_ok ?rt e" using ok assms(2) by (simp add: effect_ok_def)
    show "accounted W ?rt e" if "\<not> ef_disposed ((rt_effects rt ! e)\<lparr>ef_cleanups := []\<rparr>)"
      using i(5) [OF assms(2)] that assms(2) by (simp add: accounted_def fresh_def)
    show "current_ok ?rt" using i(4) assms(2) by (rule current_ok_upd) (use i(4) in \<open>simp add: current_ok_iff\<close>)
  qed simp
  moreover have f: "frame rt ?rt" using assms(2) by (rule frame_upd_effect) simp_all
  moreover have "\<forall>c \<in> set (ef_cleanups (rt_effects rt ! e)). wf_in ?rt c" using ok by (simp add: effect_ok_def)
  ultimately have "rt_inv W (dispose_children run e rt)" "frame ?rt (dispose_children run e rt)"
    unfolding dispose_children_def using fold_exec_ok [of W ?rt] free_frame [OF f] assms(3) by simp_all
  then show ?thesis using frame_trans [OF f] by blast
qed

lemma run_body_ok:
  assumes inv: "rt_inv (insert e W) rt" and e: "e < length (rt_effects rt)"
    and idle: "\<not> ef_running (rt_effects rt ! e)" "\<not> ef_disposed (rt_effects rt ! e)" and free: "free rt < Suc n"
  defines "rt' \<equiv> run_body run e rt"
  shows "frame rt rt' \<and> rt_inv (insert e W) rt' \<and> (\<not> ef_rerun_requested (rt_effects rt' ! e) \<longrightarrow> rt_inv W rt')"
proof -
  let ?f1 = "\<lambda>x. x\<lparr>ef_rerun_requested := False, ef_running := True, ef_log := []\<rparr>"
  define rt1 where "rt1 = upd_effect e ?f1 rt"
  define rt2 where "rt2 = dispose_children run e rt1"
  define rt2c where "rt2c = rt2\<lparr>rt_current := Some (SubEffect e)\<rparr>"
  define rt3 where "rt3 = exec run (ef_execute (rt_effects rt2 ! e)) rt2c"
  define rt3c where "rt3c = rt3\<lparr>rt_current := rt_current rt2\<rparr>"
  have result: "rt' = upd_effect e (\<lambda>x. x\<lparr>ef_running := False\<rparr>) rt3c"
    by (simp add: rt'_def run_body_def Let_def rt1_def rt2_def rt2c_def rt3_def rt3c_def)
  note i = invD [OF inv]
  have ok: "effect_ok rt e" using i(2) e .
  have inv1: "rt_inv W rt1" unfolding rt1_def
  proof (rule inv_upd_effect [OF inv e])
    show "effect_ok (upd_effect e ?f1 rt) e" using ok e by (simp add: effect_ok_def)
    show "accounted W (upd_effect e ?f1 rt) e" using e by (simp add: accounted_def fresh_def)
    show "current_ok (upd_effect e ?f1 rt)" using i(4) e idle by (intro current_ok_upd) simp_all
  qed auto
  have free1: "free rt1 < n" using free_start [OF e idle(1), of ?f1] free by (simp add: rt1_def)
  have e1: "e < length (rt_effects rt1)" using e by (simp add: rt1_def)
  have two: "rt_inv W rt2" "frame rt1 rt2" using dispose_children_ok [OF inv1 e1 free1] by (simp_all add: rt2_def)
  note f2 = frame_lengths [OF two(2)] frame_fields [OF two(2)]
  have run2: "ef_running (rt_effects rt2 ! e)" "\<not> ef_disposed (rt_effects rt2 ! e)" "e < length (rt_effects rt2)"
    using e idle f2(3) f2(8,9) [OF e1] by (simp_all add: rt1_def)
  have "rt_inv W rt2c" unfolding rt2c_def using run2 by (intro inv_current [OF two(1)]) (simp add: current_ok_iff)
  moreover have "wf_in rt2c (ef_execute (rt_effects rt2 ! e))"
    using invD(2) [OF two(1) run2(3)] by (simp add: effect_ok_def rt2c_def wf_in_def)
  moreover have "free rt2c < n" using free1 free_frame [OF two(2)] by (simp add: rt2c_def free_def)
  ultimately have three: "rt_inv W rt3" "frame rt2c rt3" using exec_ok by (simp_all add: rt3_def)
  have eff: "rt_effects rt2c = rt_effects rt2" by (simp add: rt2c_def)
  note f3 = frame_lengths [OF three(2), unfolded eff] frame_fields [OF three(2), unfolded eff]
  have e3: "e < length (rt_effects rt3)" using run2(3) f3(3) by simp
  have e3c: "e < length (rt_effects rt3c)" using e3 by (simp add: rt3c_def)
  have dis: "\<not> ef_disposed (rt_effects rt3c ! e)" using f3(9) [OF run2(3)] run2(2) by (simp add: rt3c_def)
  have "current_ok rt3c"
  proof -
    have "current_ok rt2" using two(1) by (simp add: rt_inv_def)
    then show ?thesis using f3(3) f3(8,9) by (auto simp: rt3c_def current_ok_iff)
  qed
  then have inv3: "rt_inv W rt3c" unfolding rt3c_def by (rule inv_current [OF three(1)])
  have cur: "rt_current rt3c \<noteq> Some (SubEffect e)"
    using i(4) idle f2(4) by (auto simp: rt3c_def rt1_def current_ok_iff)
  have finish: "rt_inv V rt'"
    if "\<And>x. x \<noteq> e \<Longrightarrow> x \<in> W \<Longrightarrow> x \<in> V" and "e \<in> V \<or> accounted V rt' e" for V
    unfolding result
  proof (rule inv_upd_effect [OF inv3 e3c])
    show "effect_ok (upd_effect e (\<lambda>x. x\<lparr>ef_running := False\<rparr>) rt3c) e"
      using invD(2) [OF inv3 e3c] e3c by (simp add: effect_ok_def)
    show "accounted V (upd_effect e (\<lambda>x. x\<lparr>ef_running := False\<rparr>) rt3c) e"
      using that(2) by (auto simp: result accounted_def)
    show "current_ok (upd_effect e (\<lambda>x. x\<lparr>ef_running := False\<rparr>) rt3c)"
      using invD(4) [OF inv3] e3c cur by (intro current_ok_upd) simp_all
  qed (rule that(1))
  have "rt_inv (insert e W) rt'" by (rule finish) auto
  moreover have "rt_inv W rt'" if norerun: "\<not> ef_rerun_requested (rt_effects rt' ! e)"
  proof (rule finish)
    have acc: "accounted W rt3c e" using invD(5) [OF inv3 e3c dis] .
    then show "e \<in> W \<or> accounted W rt' e" using norerun e3c by (auto simp: result accounted_def fresh_def)
  qed
  moreover have "frame rt rt'"
  proof -
    have "frame rt1 rt3c" using two(2) three(2) by (auto simp: frame_def rt2c_def rt3c_def)
    then show ?thesis
      unfolding result by (intro frame_bracket [OF e idle(1), of ?f1]) (simp_all add: rt1_def)
  qed
  ultimately show ?thesis by blast
qed

end

context effect_runner
begin

lemma rerun_loop_ok:
  assumes "e < length (rt_effects rt)"
  shows "rt_inv (insert e W) rt \<Longrightarrow> \<not> ef_running (rt_effects rt ! e) \<Longrightarrow> \<not> ef_disposed (rt_effects rt ! e) \<Longrightarrow> free rt < Suc n \<Longrightarrow>
    rt_inv W (rerun_loop run e (Suc k) rt) \<and> frame rt (rerun_loop run e (Suc k) rt)"
  using assms
proof (induction k arbitrary: rt)
  case 0
  let ?rt = "run_body run e rt"
  from run_body_ok [OF 0(1,5,2,3,4)]
  have b: "frame rt ?rt" "rt_inv (insert e W) ?rt" "\<not> ef_rerun_requested (rt_effects ?rt ! e) \<Longrightarrow> rt_inv W ?rt" by auto
  have dis: "\<not> ef_disposed (rt_effects ?rt ! e)" using frame_fields(6) [OF b(1)] 0 by simp
  show ?case
  proof (cases "ef_rerun_requested (rt_effects ?rt ! e)")
    case False
    then show ?thesis using b by simp
  next
    case True
    let ?s = "upd_effect e (\<lambda>x. x\<lparr>ef_rerun_requested := False\<rparr>) (report FlushDepthExceeded ?rt)"
    have e: "e < length (rt_effects (report FlushDepthExceeded ?rt))"
      using 0 frame_lengths(3) [OF b(1)] by (simp add: report_def)
    have r: "rt_inv W (report FlushDepthExceeded ?rt)" using inv_exceeded [OF b(2)] .
    have "rt_inv W ?s"
    proof (rule inv_upd_effect [OF r e])
      show "effect_ok ?s e" using invD(2) [OF r e] e by (simp add: effect_ok_def)
      show "accounted W ?s e" by (simp add: accounted_def report_def)
      show "current_ok ?s" using invD(4) [OF r] e by (rule current_ok_upd) (use invD(4) [OF r] in \<open>simp add: current_ok_iff\<close>)
    qed simp
    moreover have "frame rt ?s"
      by (rule frame_trans [OF b(1) frame_trans [OF frame_report frame_upd_effect [OF e]]]) simp_all
    ultimately show ?thesis using True dis by (simp add: Let_def)
  qed
next
  case (Suc k)
  let ?rt = "run_body run e rt"
  from run_body_ok [OF Suc(2,6,3,4,5)]
  have b: "frame rt ?rt" "rt_inv (insert e W) ?rt" "\<not> ef_rerun_requested (rt_effects ?rt ! e) \<Longrightarrow> rt_inv W ?rt" by auto
  have dis: "\<not> ef_disposed (rt_effects ?rt ! e)" "\<not> ef_running (rt_effects ?rt ! e)" "e < length (rt_effects ?rt)" "free ?rt < Suc n"
    using frame_fields(5,6) [OF b(1)] frame_lengths(3) [OF b(1)] free_frame [OF b(1)] Suc.prems by simp_all
  show ?case
  proof (cases "ef_rerun_requested (rt_effects ?rt ! e)")
    case False
    then show ?thesis using b by simp
  next
    case True
    have "rerun_loop run e (Suc (Suc k)) rt = rerun_loop run e (Suc k) ?rt"
      using True dis by (subst rerun_loop.simps(2)) (simp add: Let_def del: rerun_loop.simps)
    with Suc.IH [OF b(2) dis(2,1,4,3)] frame_trans [OF b(1)] show ?thesis by simp
  qed
qed

end

lemma refuse_reentry_ok:
  assumes "rt_inv (insert e W) rt" and e: "e < length (rt_effects rt)" and "ef_running (rt_effects rt ! e)"
  shows "rt_inv W (refuse_reentry e rt) \<and> frame rt (refuse_reentry e rt)"
proof -
  define rt1 where "rt1 = (if ef_cycle_reported (rt_effects rt ! e) then rt else report EffectCycle rt)"
  let ?s = "upd_effect e (\<lambda>x. x\<lparr>ef_cycle_reported := True, ef_rerun_requested := True\<rparr>) rt1"
  have r: "rt_inv (insert e W) rt1" "frame rt rt1" using assms(1) inv_report frame_report [of EffectCycle rt] by (auto simp: rt1_def)
  have same: "rt_effects rt1 = rt_effects rt" by (simp add: rt1_def report_def)
  have e1: "e < length (rt_effects rt1)" using e by (simp add: same)
  have "rt_inv W ?s"
  proof (rule inv_upd_effect [OF r(1) e1])
    show "effect_ok ?s e" using invD(2) [OF r(1) e1] e1 by (simp add: effect_ok_def)
    show "accounted W ?s e" using assms(3) e1 by (simp add: accounted_def same)
    show "current_ok ?s" using invD(4) [OF r(1)] e1 by (rule current_ok_upd) (use invD(4) [OF r(1)] in \<open>simp add: current_ok_iff\<close>)
  qed auto
  moreover have "frame rt1 ?s" using e1 by (rule frame_upd_effect) simp_all
  ultimately show ?thesis using frame_trans [OF r(2)] by (simp add: refuse_reentry_def rt1_def)
qed

text \<open>The contract holds of the runner of the code, at every fuel.\<close>

lemma run_effect_runner: "effect_runner (run_effect n :: 'v runner) n"
proof (induction n)
  case 0
  show ?case by unfold_locales simp
next
  case (Suc n)
  show ?case
  proof
    fix e W and rt :: "'v runtime"
    assume a: "rt_inv (insert e W) rt" "e < length (rt_effects rt)" "free rt < Suc n"
    show "rt_inv W (run_effect (Suc n) e rt) \<and> frame rt (run_effect (Suc n) e rt)"
    proof (cases "ef_disposed (rt_effects rt ! e)")
      case True
      then have "rt_inv W rt" using a(1) by (auto simp: rt_inv_def settled_def accounted_def)
      then show ?thesis using True by simp
    next
      case False
      then show ?thesis
        using refuse_reentry_ok [OF a(1,2)] effect_runner.rerun_loop_ok [OF Suc a(2,1) _ _ a(3), of 63]
        by (simp add: MAX_FLUSH_DEPTH_def del: rerun_loop.simps)
    qed
  qed
qed

interpretation effects: effect_runner "run_effect n" n for n
  by (rule run_effect_runner)

end
