(* ===== verification/ReactiveApp.thy ===== *)
theory ReactiveApp
  imports ReactiveRun
begin

text \<open>
  Everything an application can do between two returns to its event loop, and what holds after any
  sequence of it: reads give the meaning of the source, effects have seen the current values unless a
  cut-off was reported, and every delivery ends with the runtime at rest.
\<close>

subsection \<open>Reachable states\<close>

inductive reachable :: "'v runtime \<Rightarrow> bool" where
  Start: "reachable runtime_init"
| Signal: "reachable rt \<Longrightarrow> reachable (create_signal v rt)"
| Memo: "reachable rt \<Longrightarrow> wf_comp (length (rt_signals rt)) (length (rt_memos rt)) f \<Longrightarrow> reachable (create_memo f rt)"
| Effect: "reachable rt \<Longrightarrow> wf_in rt f \<Longrightarrow> reachable (create_effect f held rt)"
| Run: "reachable rt \<Longrightarrow> wf_in rt p \<Longrightarrow> reachable (exec (runner rt) p rt)"
| Dispose: "reachable rt \<Longrightarrow> e < length (rt_effects rt) \<Longrightarrow> reachable (dispose_effect e rt)"
| Drop: "reachable rt \<Longrightarrow> e < length (rt_effects rt) \<Longrightarrow> reachable (drop_handle e rt)"

definition at_rest :: "'v runtime \<Rightarrow> bool" where
  "at_rest rt =
     (rt_inv {} rt \<and> rt_current rt = None \<and> rt_batch_depth rt = 0 \<and> rt_flush_depth rt = 0 \<and>
      (\<forall>e < length (rt_effects rt). \<not> ef_running (rt_effects rt ! e)) \<and>
      set (rt_events rt) \<subseteq> {EffectCycle, FlushDepthExceeded})"

lemma frame_at_rest:
  assumes "frame rt rt'" and "at_rest rt" and "rt_inv {} rt'"
  shows "at_rest rt'"
  using assms frame_lengths(3) [OF assms(1)] frame_fields [OF assms(1)]
  by (auto simp: at_rest_def frame_def)

lemma free_all: "free rt \<le> length (rt_effects rt)"
  by (metis free_def length_filter_le length_map)

lemma wf_comp_mono: "wf_comp ns b c \<Longrightarrow> ns \<le> ns' \<Longrightarrow> b \<le> b' \<Longrightarrow> wf_comp ns' b' c"
  by (induction c) (auto split: source.splits)

lemma wf_prog_mono: "wf_prog ns nm p \<Longrightarrow> ns \<le> ns' \<Longrightarrow> nm \<le> nm' \<Longrightarrow> wf_prog ns' nm' p"
  by (induction p) (auto split: source.splits)

text \<open>A larger graph in which the old sources are as they were.\<close>

lemma inv_grow:
  assumes "rt_inv W rt" and "rt_effects rt' = rt_effects rt" "rt_current rt' = rt_current rt" "rt_roots rt' = rt_roots rt"
      "rt_batch_depth rt' = rt_batch_depth rt" "rt_batched rt' = rt_batched rt" "rt_events rt' = rt_events rt"
    and "length (rt_signals rt) \<le> length (rt_signals rt')" "length (rt_memos rt) \<le> length (rt_memos rt')"
    and "\<And>s. valid_src rt s \<Longrightarrow> src_value rt' s = src_value rt s \<and> src_subs rt' s = src_subs rt s \<and> src_clean rt' s = src_clean rt s"
    and "graph_ok rt'"
  shows "rt_inv W rt'"
proof -
  note i = invD [OF assms(1)]
  have valid: "valid_src rt s \<Longrightarrow> valid_src rt' s" for s
    using assms(8,9) by (cases s) simp_all
  have wf: "wf_in rt p \<Longrightarrow> wf_in rt' p" for p
    unfolding wf_in_def by (rule wf_prog_mono) (use assms(8,9) in auto)
  have "effect_ok rt' e" if "e < length (rt_effects rt)" for e
    using i(2) [OF that] wf valid by (auto simp: effect_ok_def assms(2,4))
  moreover have "accounted W rt' e" if "e < length (rt_effects rt)" "\<not> ef_disposed (rt_effects rt ! e)" for e
  proof -
    have "fresh rt' e" if "fresh rt e" "effect_ok rt e"
      using that assms(10) by (fastforce simp: fresh_def effect_ok_def assms(2))
    then show ?thesis using i(5) [OF that] i(2) [OF that(1)] by (auto simp: accounted_def assms(2,6,7))
  qed
  moreover have "current_ok rt'" using i(4) unfolding current_ok_def assms(2,3) .
  ultimately show ?thesis using i(3) assms(2,5,6,11) by (simp add: rt_inv_def settled_def queue_ok_def)
qed

lemma create_signal_ok:
  assumes "rt_inv W rt"
  shows "rt_inv W (create_signal v rt)"
proof -
  let ?rt = "create_signal v rt"
  note g = invD(1) [OF assms, unfolded graph_ok_def]
  have old: "valid_src rt s \<Longrightarrow> src_value ?rt s = src_value rt s \<and> src_subs ?rt s = src_subs rt s \<and> src_clean ?rt s = src_clean rt s" for s
    by (cases s) (simp_all add: create_signal_def src_value_def src_subs_def src_clean_def nth_append)
  have wf: "memos_wf ?rt"
    using g by (auto simp: memos_wf_def create_signal_def intro: wf_comp_mono)
  have new: "valid_src ?rt s \<Longrightarrow> valid_src rt s \<or> (s = Sig (length (rt_signals rt)) \<and> src_subs ?rt s = [])" for s
    by (cases s) (auto simp: create_signal_def src_subs_def nth_append)
  have good: "memo_good ?rt m" if m: "m < length (rt_memos rt)" "src_clean rt (Mem m)" for m
  proof -
    let ?c = "me_recompute (rt_memos rt ! m)"
    have mg: "memo_good rt m" using g m by (simp add: memos_ok_def)
    have "valid_src rt s" if "s \<in> set (comp_reads (src_value rt) ?c)" for s
      using g m(1) that comp_reads_valid [of "length (rt_signals rt)" m ?c s "src_value rt"]
      by (cases s) (simp_all add: memos_wf_def)
    note valid = this
    then have same: "comp_reads (src_value ?rt) ?c = comp_reads (src_value rt) ?c \<and> comp_eval (src_value ?rt) ?c = comp_eval (src_value rt) ?c"
      using old by (intro comp_cong) blast
    show ?thesis
      using mg same valid old by (simp add: memo_good_def Let_def create_signal_def)
  qed
  have "memos_ok ?rt" using good by (simp add: memos_ok_def create_signal_def src_clean_def)
  moreover have "e < length (rt_effects rt)" if "valid_src ?rt src" "SubEffect e \<in> set (src_subs ?rt src)" for src e
    using new [OF that(1)] that(2) old g by auto
  ultimately have "graph_ok ?rt" using g wf by (auto simp: graph_ok_def create_signal_def)
  then show ?thesis
    by (intro inv_grow [OF assms]) (use old in \<open>simp_all add: create_signal_def\<close>)
qed

lemma add_memo_ok:
  assumes inv: "rt_inv W rt" and wf: "wf_comp (length (rt_signals rt)) (length (rt_memos rt)) f"
    and v: "v = comp_eval (src_value rt) f"
    and reads: "\<forall>s \<in> set (comp_reads (src_value rt) f). src_clean rt s \<and> SubMemo (length (rt_memos rt)) \<in> set (src_subs rt s)"
  defines "rt' \<equiv> rt\<lparr>rt_memos := rt_memos rt @
      [\<lparr>me_dirty = False, me_computing = False, me_value = v, me_recompute = f, me_subscribers = []\<rparr>]\<rparr>"
  shows "rt_inv W rt'"
proof -
  let ?m = "length (rt_memos rt)"
  note g = invD(1) [OF inv, unfolded graph_ok_def]
  have old: "valid_src rt s \<Longrightarrow> src_value rt' s = src_value rt s \<and> src_subs rt' s = src_subs rt s \<and> src_clean rt' s = src_clean rt s" for s
    by (cases s) (simp_all add: rt'_def src_value_def src_subs_def src_clean_def nth_append)
  have new: "valid_src rt' s \<Longrightarrow> valid_src rt s \<or> (s = Mem ?m \<and> src_subs rt' s = [])" for s
    by (cases s) (auto simp: rt'_def src_subs_def nth_append)
  have good: "memo_good rt' x"
    if c: "me_recompute (rt_memos rt' ! x) = c" "wf_comp (length (rt_signals rt)) b c" "b \<le> ?m"
      "me_value (rt_memos rt' ! x) = comp_eval (src_value rt) c"
      "\<forall>s \<in> set (comp_reads (src_value rt) c). SubMemo x \<in> set (src_subs rt s) \<and> src_clean rt s" for x b c
  proof -
    have valid: "valid_src rt s" if "s \<in> set (comp_reads (src_value rt) c)" for s
      using comp_reads_valid [OF c(2) that] c(3) by (cases s) simp_all
    then have "comp_reads (src_value rt') c = comp_reads (src_value rt) c \<and> comp_eval (src_value rt') c = comp_eval (src_value rt) c"
      using old by (intro comp_cong) blast
    then show ?thesis using c valid old by (simp add: memo_good_def Let_def)
  qed
  have "memo_good rt' x" if x: "x < Suc ?m" "src_clean rt' (Mem x)" for x
  proof (cases "x = ?m")
    case True
    then show ?thesis using wf v reads by (intro good [of _ f ?m]) (simp_all add: rt'_def)
  next
    case False
    then have xl: "x < ?m" using x by simp
    then have "memo_good rt x" using g old [of "Mem x"] x(2) by (simp add: memos_ok_def)
    then show ?thesis using xl g
      by (intro good [of _ "me_recompute (rt_memos rt ! x)" x]) (simp_all add: rt'_def nth_append memo_good_def Let_def memos_wf_def)
  qed
  then have "memos_ok rt'" by (simp add: memos_ok_def rt'_def)
  moreover have "memos_wf rt'" using g wf by (auto simp: memos_wf_def rt'_def nth_append less_Suc_eq)
  moreover have "e < length (rt_effects rt)" if "valid_src rt' src" "SubEffect e \<in> set (src_subs rt' src)" for src e
    using new [OF that(1)] that(2) old g by auto
  ultimately have "graph_ok rt'" using g by (auto simp: graph_ok_def rt'_def nth_append less_Suc_eq)
  then show ?thesis
    by (intro inv_grow [OF inv]) (use old in \<open>simp_all add: rt'_def\<close>)
qed

lemma create_memo_ok:
  assumes inv: "rt_inv W rt" and wf: "wf_comp (length (rt_signals rt)) (length (rt_memos rt)) f"
  shows "rt_inv W (create_memo f rt)" "rt_effects (create_memo f rt) = rt_effects rt"
    "rt_current (create_memo f rt) = rt_current rt" "rt_batch_depth (create_memo f rt) = rt_batch_depth rt"
    "rt_flush_depth (create_memo f rt) = rt_flush_depth rt" "rt_events (create_memo f rt) = rt_events rt"
proof -
  let ?m = "length (rt_memos rt)"
  let ?rt0 = "rt\<lparr>rt_current := Some (SubMemo ?m)\<rparr>"
  obtain v rt1 where run: "run_comp (read_source ?m) f ?rt0 = (v, rt1)" by fastforce
  define rt2 where "rt2 = rt1\<lparr>rt_current := rt_current rt\<rparr>"
  note g = invD(1) [OF inv, unfolded graph_ok_def]
  have "read_pre ?m ?rt0" using g by (simp add: read_pre_def computing_from_def)
  with run_comp_ok [OF read_source_ok [OF order_refl], where rt = ?rt0 and b = ?m and c = f and s = "SubMemo ?m" and v = v and rt' = rt1] wf run
  have r: "extends ?rt0 rt1" "memos_ok rt1" "v = comp_eval (src_value rt1) f"
    "\<forall>x \<in> set (comp_reads (src_value rt1) f). src_clean rt1 x \<and> SubMemo ?m \<in> set (src_subs rt1 x)"
    by (auto simp: is_alive_def)
  note x = extendsD [OF r(1), simplified]
  have "is_alive ?rt0 = is_alive rt" by (rule is_alive_cong) simp_all
  then have ext: "extends rt rt2"
    using r(1) by (auto simp: extends_def rt2_def)
  have two: "rt_inv W rt2" using inv_extends [OF inv ext] r(2) by (simp add: rt2_def)
  have len: "length (rt_memos rt2) = ?m" "length (rt_signals rt2) = length (rt_signals rt)"
    using x(8,9) by (simp_all add: rt2_def)
  have new: "create_memo f rt = rt2\<lparr>rt_memos := rt_memos rt2 @
      [\<lparr>me_dirty = False, me_computing = False, me_value = v, me_recompute = f, me_subscribers = []\<rparr>]\<rparr>"
    using run by (simp add: create_memo_def Let_def rt2_def)
  show "rt_inv W (create_memo f rt)"
    unfolding new by (rule add_memo_ok [OF two]) (use wf r(3,4) len in \<open>simp_all add: rt2_def\<close>)
  show "rt_effects (create_memo f rt) = rt_effects rt"
    "rt_current (create_memo f rt) = rt_current rt" "rt_batch_depth (create_memo f rt) = rt_batch_depth rt"
    "rt_flush_depth (create_memo f rt) = rt_flush_depth rt" "rt_events (create_memo f rt) = rt_events rt"
    using x(1,4,6,7) by (simp_all add: new rt2_def)
qed

subsection \<open>Effects\<close>

lemma add_effect_ok:
  fixes held :: bool
  assumes inv: "rt_inv {} rt" and rest: "rt_current rt = None" "rt_batch_depth rt = 0" and wf: "wf_in rt f"
  defines "e \<equiv> length (rt_effects rt)"
  defines "rt' \<equiv> rt\<lparr>rt_effects := rt_effects rt @ [new_effect_state f held], rt_roots := rt_roots rt @ [e]\<rparr>"
  shows "rt_inv {e} rt'"
proof -
  note i = invD [OF inv]
  have views: "src_value rt' = src_value rt" "src_subs rt' = src_subs rt" "src_clean rt' = src_clean rt"
    "valid_src rt' = valid_src rt" "wf_in rt' = wf_in rt" "memos_ok rt' = memos_ok rt" "memos_wf rt' = memos_wf rt"
    by (rule views_cong; simp add: rt'_def)+
  have len: "length (rt_effects rt') = Suc e" by (simp add: rt'_def e_def)
  have nth: "rt_effects rt' ! x = (if x < e then rt_effects rt ! x else new_effect_state f held)" if "x \<le> e" for x
    using that by (auto simp: rt'_def e_def nth_append)
  have roots: "set (rt_roots rt') = insert e (set (rt_roots rt))" by (auto simp: rt'_def)
  have other: "rt_memos rt' = rt_memos rt" "rt_current rt' = None" "rt_batch_depth rt' = 0" "rt_batched rt' = rt_batched rt"
    "rt_events rt' = rt_events rt"
    using rest by (simp_all add: rt'_def)
  have "graph_ok rt'"
    using i(1) by (auto simp: graph_ok_def views len other e_def less_Suc_eq)
  moreover have "effect_ok rt' x" if "x < Suc e" for x
    using i(2) [of x] wf that nth [of x] by (auto simp: effect_ok_def views roots e_def new_effect_state_def less_Suc_eq split: if_splits)
  moreover have "accounted {e} rt' x" if "x < Suc e" "\<not> ef_disposed (rt_effects rt' ! x)" for x
    using i(5) [of x] that nth [of x] by (auto simp: accounted_def fresh_def views other e_def less_Suc_eq split: if_splits)
  ultimately show ?thesis
    using i(3) rest(2) by (auto simp: rt_inv_def settled_def queue_ok_def current_ok_def len other e_def)
qed

lemma create_effect_ok:
  assumes "at_rest rt" and "wf_in rt f"
  shows "at_rest (create_effect f held rt)"
proof -
  let ?e = "length (rt_effects rt)"
  define rt' where "rt' = rt\<lparr>rt_effects := rt_effects rt @ [new_effect_state f held], rt_roots := rt_roots rt @ [?e]\<rparr>"
  have i: "rt_inv {?e} rt'"
    unfolding rt'_def by (rule add_effect_ok) (use assms in \<open>simp_all add: at_rest_def\<close>)
  have "?e < length (rt_effects rt')" by (simp add: rt'_def)
  then have r: "rt_inv {} (runner rt' ?e rt')" "frame rt' (runner rt' ?e rt')"
    using effects.run_ok [of ?e "{}" rt' "Suc (length (rt_effects rt'))"] i free_all [of rt']
    by (simp_all add: runner_def del: run_effect.simps)
  have "at_rest (runner rt' ?e rt')"
  proof -
    have idle: "rt_current rt' = None" "rt_batch_depth rt' = 0" "rt_flush_depth rt' = 0" "set (rt_events rt') \<subseteq> {EffectCycle, FlushDepthExceeded}"
      "\<And>e. e < length (rt_effects rt') \<Longrightarrow> \<not> ef_running (rt_effects rt' ! e)"
      using assms(1) by (auto simp: at_rest_def rt'_def nth_append new_effect_state_def less_Suc_eq)
    then show ?thesis
      using r frame_lengths(3) [OF r(2)] frame_fields [OF r(2)] by (auto simp: at_rest_def frame_def)
  qed
  then show ?thesis by (simp add: create_effect_def Let_def rt'_def)
qed

lemma run_ok_at_rest:
  assumes "at_rest rt" and "wf_in rt p"
  shows "at_rest (exec (runner rt) p rt)"
proof -
  have "rt_inv {} (exec (runner rt) p rt) \<and> frame rt (exec (runner rt) p rt)"
    unfolding runner_def using assms free_all [of rt]
    by (intro effects.exec_ok) (simp_all add: at_rest_def)
  then show ?thesis using frame_at_rest assms(1) by blast
qed

lemma dispose_effect_ok:
  assumes "at_rest rt" and e: "e < length (rt_effects rt)"
  shows "at_rest (dispose_effect e rt)"
proof -
  define rt1 where "rt1 = upd_effect e (\<lambda>x. x\<lparr>ef_disposed := True\<rparr>) rt"
  define rt2 where "rt2 = dispose_children (runner rt) e rt1"
  have inv: "rt_inv {} rt" and cur: "rt_current rt = None" using assms(1) by (simp_all add: at_rest_def)
  have "rt_inv {} rt1" unfolding rt1_def
  proof (rule inv_upd_effect [OF inv e])
    show "effect_ok (upd_effect e (\<lambda>x. x\<lparr>ef_disposed := True\<rparr>) rt) e"
      using invD(2) [OF inv e] e by (simp add: effect_ok_def)
    show "current_ok (upd_effect e (\<lambda>x. x\<lparr>ef_disposed := True\<rparr>) rt)" using cur by (simp add: current_ok_def)
  qed simp_all
  moreover have rest1: "rt_current rt1 = None" "rt_batch_depth rt1 = 0" "rt_flush_depth rt1 = 0"
    "set (rt_events rt1) \<subseteq> {EffectCycle, FlushDepthExceeded}"
    "\<And>x. x < length (rt_effects rt1) \<Longrightarrow> \<not> ef_running (rt_effects rt1 ! x)"
    using assms(1) e by (auto simp: at_rest_def rt1_def)
  ultimately have one: "at_rest rt1" by (simp add: at_rest_def)
  have len: "length (rt_effects rt1) = length (rt_effects rt)" by (simp add: rt1_def)
  have two: "rt_inv {} rt2" "frame rt1 rt2"
    using effects.dispose_children_ok [OF \<open>rt_inv {} rt1\<close>, of e "Suc (length (rt_effects rt))"] free_all [of rt1] e
    by (simp_all add: rt2_def runner_def len)
  have rest2: "at_rest rt2" by (rule frame_at_rest [OF two(2) one two(1)])
  have dis: "ef_disposed (rt_effects rt2 ! e)" using frame_fields(6) [OF two(2)] e len by (simp add: rt1_def)
  define rt3 where "rt3 = rt2\<lparr>rt_roots := filter (\<lambda>r. r \<noteq> e) (rt_roots rt2)\<rparr>"
  note i = invD [OF two(1)]
  have views: "src_value rt3 = src_value rt2" "src_subs rt3 = src_subs rt2" "src_clean rt3 = src_clean rt2"
    "valid_src rt3 = valid_src rt2" "wf_in rt3 = wf_in rt2"
    by (rule views_cong; simp add: rt3_def)+
  have "graph_ok rt3" using i(1) graph_ok_cong [of rt3 rt2] by (simp add: rt3_def)
  moreover have "effect_ok rt3 x" if "x < length (rt_effects rt2)" for x
    using i(2) [OF that] dis by (cases "x = e") (auto simp: effect_ok_def views, auto simp: rt3_def)
  moreover have "accounted {} rt3 x = accounted {} rt2 x" for x
    by (simp add: accounted_def fresh_def views) (simp add: rt3_def)
  ultimately have "rt_inv {} rt3"
    using i(3,4,5) by (auto simp: rt_inv_def settled_def queue_ok_def current_ok_iff, simp_all add: rt3_def)
  then have "at_rest rt3" using rest2 by (simp add: at_rest_def rt3_def)
  then show ?thesis by (simp add: dispose_effect_def Let_def rt1_def rt2_def rt3_def)
qed

lemma drop_handle_ok:
  assumes "at_rest rt" and e: "e < length (rt_effects rt)"
  shows "at_rest (drop_handle e rt)"
proof -
  have inv: "rt_inv {} rt" and cur: "rt_current rt = None" using assms(1) by (simp_all add: at_rest_def)
  have "rt_inv {} (upd_effect e (\<lambda>x. x\<lparr>ef_held := False\<rparr>) rt)"
  proof (rule inv_upd_effect [OF inv e])
    show "effect_ok (upd_effect e (\<lambda>x. x\<lparr>ef_held := False\<rparr>) rt) e"
      using invD(2) [OF inv e] e by (simp add: effect_ok_def)
    show "accounted {} (upd_effect e (\<lambda>x. x\<lparr>ef_held := False\<rparr>) rt) e"
      if "\<not> ef_disposed ((rt_effects rt ! e)\<lparr>ef_held := False\<rparr>)"
      using invD(5) [OF inv e] that e by (simp add: accounted_def fresh_def)
    show "current_ok (upd_effect e (\<lambda>x. x\<lparr>ef_held := False\<rparr>) rt)" using cur by (simp add: current_ok_def)
  qed simp_all
  then show ?thesis using assms by (auto simp: at_rest_def drop_handle_def)
qed

lemma reachable_at_rest: "reachable rt \<Longrightarrow> at_rest rt"
proof (induction rule: reachable.induct)
  case Start
  show ?case
    by (auto simp: at_rest_def runtime_init_def rt_inv_def graph_ok_def memos_ok_def memos_wf_def queue_ok_def
        current_ok_def settled_def valid_src_def src_in_def split: source.splits)
next
  case (Signal rt v)
  then show ?case using create_signal_ok [of "{}" rt v] by (simp add: at_rest_def) (simp add: create_signal_def)
next
  case (Memo rt f)
  then show ?case using create_memo_ok [of "{}" rt f] by (simp add: at_rest_def)
qed (simp_all add: create_effect_ok run_ok_at_rest dispose_effect_ok drop_handle_ok)

subsection \<open>What applications rely on\<close>

text \<open>
  C14: a memo is a transparent cache. In every reachable state, whatever was written, batched, disposed and
  recomputed before, reading a signal or memo gives the value that evaluating every computation afresh for
  the current signals gives, and the read changes no meaning.
\<close>

theorem reads_give_the_meaning:
  assumes "reachable rt" and "valid_src rt src" and "read_source (length (rt_memos rt)) src rt = (v, rt')"
  shows "v = meaning rt src \<and> (\<forall>s. valid_src rt s \<longrightarrow> meaning rt' s = meaning rt s)"
proof -
  have g: "memos_wf rt" "memos_ok rt" "\<forall>m < length (rt_memos rt). \<not> me_computing (rt_memos rt ! m)"
    using reachable_at_rest [OF assms(1)] by (simp_all add: at_rest_def rt_inv_def graph_ok_def)
  show ?thesis
    using read_source_meaning(1,5) [OF g assms(2,3)] extends_meaning g(1) by blast
qed

text \<open>
  C15: no stale effect. Unless the runtime has reported that a chain of writes was cut off at the flush
  limit, every effect that is not disposed has, in its last run, read exactly the values its sources have now.
\<close>

theorem effects_have_seen_current_values:
  assumes "reachable rt" and "FlushDepthExceeded \<notin> set (rt_events rt)" and "e < length (rt_effects rt)"
    and "\<not> ef_disposed (rt_effects rt ! e)" and "(s, v) \<in> set (ef_log (rt_effects rt ! e))"
  shows "v = meaning rt s \<and> SubEffect e \<in> set (src_subs rt s)"
proof -
  have r: "rt_inv {} rt" "rt_batch_depth rt = 0" "\<not> ef_running (rt_effects rt ! e)"
    using reachable_at_rest [OF assms(1)] assms(3) by (simp_all add: at_rest_def)
  have "rt_batched rt = []" using invD(3) [OF r(1)] r(2) by (simp add: queue_ok_def)
  then have "fresh rt e" using invD(5) [OF r(1) assms(3,4)] assms(2) r(3) by (simp add: accounted_def)
  then have f: "SubEffect e \<in> set (src_subs rt s)" "src_clean rt s" "v = src_value rt s"
    using assms(5) by (auto simp: fresh_def)
  have "valid_src rt s" using invD(2) [OF r(1) assms(3)] assms(5) by (auto simp: effect_ok_def)
  then show ?thesis using clean_source_meaning [of rt s] f invD(1) [OF r(1)] by (simp add: graph_ok_def)
qed

text \<open>
  C16: every delivery ends, and at rest. However effects write to their own and to each other's sources, the
  runner never needs more nesting than there are effects, no memo is read while it computes, and the
  current subscriber, the batch depth, the flush depth and the running flags are all restored.
\<close>

theorem every_delivery_ends_at_rest:
  assumes "reachable rt"
  shows "set (rt_events rt) \<subseteq> {EffectCycle, FlushDepthExceeded} \<and> rt_current rt = None \<and> rt_batch_depth rt = 0 \<and>
    rt_flush_depth rt = 0 \<and> rt_batched rt = [] \<and> (\<forall>x \<in> set (rt_effects rt). ef_running x = False)"
proof -
  note r = reachable_at_rest [OF assms, unfolded at_rest_def]
  have "rt_batched rt = []" using r by (auto simp: rt_inv_def queue_ok_def)
  then show ?thesis using r by (auto simp: in_set_conv_nth)
qed

subsection \<open>A program that writes its own dependency\<close>

definition clamp_base :: "nat runtime" where
  "clamp_base = create_memo (Read (Sig 0) (\<lambda>x. Return (x + 1))) (create_signal 5 runtime_init)"

definition clamp_demo :: "nat runtime" where
  "clamp_demo = create_effect (Get (Mem 0) (\<lambda>v. if v > 3 then Write 0 (\<lambda>x. x - 1) Finish else Finish)) False clamp_base"

lemma clamp_demo_reachable: "reachable clamp_demo"
proof -
  have "reachable clamp_base" unfolding clamp_base_def
    by (intro reachable.intros) (simp add: create_signal_def runtime_init_def)
  moreover have "length (rt_signals clamp_base) = 1" "length (rt_memos clamp_base) = 1" by code_simp+
  ultimately show ?thesis unfolding clamp_demo_def by (intro reachable.Effect) (simp_all add: wf_in_def)
qed

lemma clamp_demo_runs:
  "rt_events clamp_demo = [EffectCycle]" "length (rt_effects clamp_demo) = 1" "length (rt_memos clamp_demo) = 1"
  "length (rt_signals clamp_demo) = 1" "ef_disposed (rt_effects clamp_demo ! 0) = False"
  "ef_log (rt_effects clamp_demo ! 0) = [(Mem 0, 3)]" "fst (read_source 1 (Mem 0) clamp_demo) = 3"
  by code_simp+

lemma reads_give_the_meaning_witness: "fst (read_source 1 (Mem 0) clamp_demo) = meaning clamp_demo (Mem 0) \<and> meaning clamp_demo (Mem 0) = 3"
proof -
  obtain v rt' where r: "read_source 1 (Mem 0) clamp_demo = (v, rt')" by fastforce
  then show ?thesis
    using reads_give_the_meaning [OF clamp_demo_reachable, of "Mem 0" v rt'] clamp_demo_runs by simp
qed

lemma effects_have_seen_current_values_witness: "3 = meaning clamp_demo (Mem 0)"
  using effects_have_seen_current_values [OF clamp_demo_reachable, of 0 "Mem 0" 3] clamp_demo_runs by simp

lemma every_delivery_ends_at_rest_witness: "rt_flush_depth clamp_demo = 0 \<and> rt_events clamp_demo = [EffectCycle]"
  using every_delivery_ends_at_rest [OF clamp_demo_reachable] clamp_demo_runs by simp

subsection \<open>A delivery that is cut off\<close>

text \<open>
  The subscribers of a signal are drained before the flush limit is checked, so an effect whose delivery is
  dropped is no longer subscribed: it has not run, and later writes of that signal alone do not reach it.
\<close>

lemma dropped_delivery_unsubscribes:
  assumes "rt_batch_depth rt = 0" and "rt_flush_depth rt \<ge> MAX_FLUSH_DEPTH" and "i < length (rt_signals rt)"
  shows "sg_subscribers (rt_signals (write_signal run i f rt) ! i) = [] \<and> rt_effects (write_signal run i f rt) = rt_effects rt"
proof -
  define rt1 where "rt1 = upd_signal i (\<lambda>x. x\<lparr>sg_subscribers := []\<rparr>) (upd_signal i (\<lambda>x. x\<lparr>sg_value := f (sg_value x)\<rparr>) rt)"
  obtain rt2 es where c: "collect_dependents rt1 (sg_subscribers (rt_signals (upd_signal i (\<lambda>x. x\<lparr>sg_value := f (sg_value x)\<rparr>) rt) ! i)) [] = (rt2, es)"
    by fastforce
  note two = same_but_memos_fields [OF collect_dependents_frame [of rt1 "sg_subscribers (rt_signals (upd_signal i (\<lambda>x. x\<lparr>sg_value := f (sg_value x)\<rparr>) rt) ! i)" "[]"], unfolded c, simplified]
  have one: "sg_subscribers (rt_signals rt1 ! i) = []" "rt_effects rt1 = rt_effects rt" "rt_batch_depth rt1 = 0" "rt_flush_depth rt1 = rt_flush_depth rt"
    using assms by (simp_all add: rt1_def upd_signal_def)
  have deep: "rt_batch_depth rt2 = 0 \<and> rt_flush_depth rt2 \<ge> MAX_FLUSH_DEPTH" using two one assms(2) by simp
  show ?thesis
    using c two one deep
    by (simp add: write_signal_def notify_def rt1_def [symmetric] schedule_effects_def schedule_async_def Let_def report_def)
qed

end
