(* ===== verification/Reconcile.thy ===== *)
theory Reconcile
  imports KrabPrelude
begin

text \<open>
  Patching the DOM after hydration: \<open>krab_client/src/reconcile.rs\<close>, on nodes without \<open>Dynamic\<close> parts
  (no nested regions and no dynamic attributes). The document is a value: a node carries an identity, which
  is what focus, selection and listeners hang on, and an element its children. The calls of the browser
  are functions on the children of one element; what the browser accepts as a tag or an attribute name,
  and how it folds attribute names, are parameters.
\<close>

subsection \<open>Nodes\<close>

type_synonym attr_list = "(string \<times> string) list"
type_synonym listeners = "(string \<times> nat) list"

datatype vnode =
    VElement string attr_list listeners "vnode list"
  | VText string
  | VComment string
  | VFragment "vnode list"

datatype dom =
    DElement nat string attr_list listeners "dom list"
  | DText nat string
  | DComment nat string

fun dom_id :: "dom \<Rightarrow> nat" where
  "dom_id (DElement i _ _ _ _) = i"
| "dom_id (DText i _) = i"
| "dom_id (DComment i _) = i"

record browser =
  br_tag_ok :: "string \<Rightarrow> bool"
  br_name_ok :: "string \<Rightarrow> bool"
  br_fold :: "string \<Rightarrow> string"

definition set_attribute :: "browser \<Rightarrow> string \<Rightarrow> string \<Rightarrow> attr_list \<Rightarrow> attr_list" where
  "set_attribute br name value attrs = (if br_name_ok br name then AList.update (br_fold br name) value attrs else attrs)"

definition remove_attribute :: "browser \<Rightarrow> string \<Rightarrow> attr_list \<Rightarrow> attr_list" where
  "remove_attribute br name attrs = AList.delete (br_fold br name) attrs"

subsection \<open>The children of one element\<close>

definition kid :: "dom list \<Rightarrow> nat \<Rightarrow> dom option" where
  "kid ks i = find (\<lambda>d. dom_id d = i) ks"

definition remove_child :: "nat \<Rightarrow> dom list \<Rightarrow> dom list" where
  "remove_child i ks = filter (\<lambda>d. dom_id d \<noteq> i) ks"

fun next_sibling :: "dom list \<Rightarrow> nat \<Rightarrow> nat option" where
  "next_sibling [] i = None"
| "next_sibling (d # ks) i =
     (if dom_id d = i then (case ks of [] \<Rightarrow> None | e # _ \<Rightarrow> Some (dom_id e)) else next_sibling ks i)"

definition replace_child :: "dom \<Rightarrow> nat \<Rightarrow> dom list \<Rightarrow> dom list" where
  "replace_child new i ks = map (\<lambda>d. if dom_id d = i then new else d) ks"

fun put_before :: "dom \<Rightarrow> nat \<Rightarrow> dom list \<Rightarrow> dom list" where
  "put_before d t [] = [d]"
| "put_before d t (e # ks) = (if dom_id e = t then d # e # ks else e # put_before d t ks)"

text \<open>\<open>insertBefore\<close>: a node that is already a child moves; a reference that is no child is an error, which the code drops.\<close>

definition insert_before :: "dom \<Rightarrow> nat option \<Rightarrow> dom list \<Rightarrow> dom list" where
  "insert_before d target ks =
     (case target of
        None \<Rightarrow> remove_child (dom_id d) ks @ [d]
      | Some t \<Rightarrow> if t \<in> dom_id ` set ks then put_before d t (remove_child (dom_id d) ks) else ks)"

definition first_child :: "dom list \<Rightarrow> nat option" where
  "first_child ks = (case ks of [] \<Rightarrow> None | d # _ \<Rightarrow> Some (dom_id d))"

definition place_before :: "dom \<Rightarrow> nat option \<Rightarrow> nat option \<Rightarrow> dom list \<Rightarrow> dom list" where
  "place_before d previous run_start ks =
     (let target = (case previous of
                      Some p \<Rightarrow> next_sibling ks p
                    | None \<Rightarrow> (case run_start of Some s \<Rightarrow> Some s | None \<Rightarrow> first_child ks))
      in if target = Some (dom_id d) then ks else insert_before d target ks)"

text \<open>\<open>set_text_content\<close>; on an element it replaces the children by one text.\<close>

fun set_text_content :: "string \<Rightarrow> nat \<Rightarrow> dom \<Rightarrow> dom \<times> nat" where
  "set_text_content s n (DText i _) = (DText i s, n)"
| "set_text_content s n (DComment i _) = (DComment i s, n)"
| "set_text_content s n (DElement i t as es _) = (if s = [] then (DElement i t as es [], n) else (DElement i t as es [DText n s], Suc n))"

subsection \<open>Building\<close>

fun create_dom :: "browser \<Rightarrow> nat \<Rightarrow> vnode \<Rightarrow> dom list \<times> nat"
  and create_all :: "browser \<Rightarrow> nat \<Rightarrow> vnode list \<Rightarrow> dom list \<times> nat" where
  "create_dom br n (VElement tag attrs events children) =
     (if br_tag_ok br tag then
        let (ks, n') = create_all br (Suc n) children
        in ([DElement n tag (fold (\<lambda>(name, value). set_attribute br name value) attrs []) events ks], n')
      else ([DComment n ''krab-create-element-error''], Suc n))"
| "create_dom br n (VText s) = ([DText n s], Suc n)"
| "create_dom br n (VComment s) = ([DComment n s], Suc n)"
| "create_dom br n (VFragment nodes) = create_all br n nodes"
| "create_all br n [] = ([], n)"
| "create_all br n (v # vs) = (let (ds, n1) = create_dom br n v; (es, n2) = create_all br n1 vs in (ds @ es, n2))"

fun flatten :: "vnode \<Rightarrow> vnode list" and flatten_children :: "vnode list \<Rightarrow> vnode list" where
  "flatten (VFragment children) = flatten_children children"
| "flatten v = [v]"
| "flatten_children [] = []"
| "flatten_children (v # vs) = flatten v @ flatten_children vs"

definition HYDRATION_NODE_ID_ATTR :: string where
  "HYDRATION_NODE_ID_ATTR = ''data-krab-node-id''"

fun reconcile_key :: "vnode \<Rightarrow> string option" where
  "reconcile_key (VElement _ attrs _ _) = map_of attrs HYDRATION_NODE_ID_ATTR"
| "reconcile_key _ = None"

subsection \<open>Patching\<close>

definition patch_attributes :: "browser \<Rightarrow> attr_list \<Rightarrow> attr_list \<Rightarrow> attr_list \<Rightarrow> attr_list" where
  "patch_attributes br old new attrs =
     fold (\<lambda>(name, value) as. if map_of old name = Some value then as else set_attribute br name value as) new
       (fold (\<lambda>(name, _) as. if name \<in> fst ` set new then as else remove_attribute br name as) old attrs)"

record run_state =
  rs_kids :: "dom list"
  rs_next :: nat
  rs_existing :: "nat list"
  rs_consumed :: "bool list"
  rs_queues :: "nat list hashmap"
  rs_placed :: "nat list"

definition keyed_sources :: "vnode list \<Rightarrow> nat list hashmap" where
  "keyed_sources old =
     fold (\<lambda>(i, v) qs. case reconcile_key v of
             None \<Rightarrow> qs
           | Some k \<Rightarrow> hm_insert k ((case hm_get qs k of Some q \<Rightarrow> q | None \<Rightarrow> []) @ [i]) qs)
       (enumerate 0 old) []"

text \<open>The source of a new child: popped from the queue of its key, else the unkeyed node at its position.\<close>

definition pick_source :: "vnode list \<Rightarrow> nat \<Rightarrow> vnode \<Rightarrow> run_state \<Rightarrow> nat option \<times> run_state" where
  "pick_source old target_index new st =
     (let positional =
            (if target_index < length (rs_consumed st) \<and> \<not> rs_consumed st ! target_index \<and>
                target_index < length old \<and> reconcile_key (old ! target_index) = None
             then Some target_index else None)
      in case reconcile_key new of
           None \<Rightarrow> (positional, st)
         | Some k \<Rightarrow>
             (case hm_get (rs_queues st) k of
                Some (s # q) \<Rightarrow> (Some s, st\<lparr>rs_queues := hm_insert k q (rs_queues st)\<rparr>)
              | _ \<Rightarrow> (positional, st)))"

definition last_placed :: "run_state \<Rightarrow> nat option" where
  "last_placed st = (if rs_placed st = [] then None else Some (last (rs_placed st)))"

definition place_child :: "dom \<Rightarrow> nat option \<Rightarrow> run_state \<Rightarrow> run_state" where
  "place_child d run_start st =
     st\<lparr>rs_kids := place_before d (last_placed st) run_start (rs_kids st), rs_placed := rs_placed st @ [dom_id d]\<rparr>"

definition create_and_place :: "browser \<Rightarrow> nat option \<Rightarrow> vnode \<Rightarrow> run_state \<Rightarrow> run_state" where
  "create_and_place br run_start new st =
     (let (ds, n) = create_dom br (rs_next st) new in place_child (hd ds) run_start (st\<lparr>rs_next := n\<rparr>))"

text \<open>A source that could not be patched is replaced.\<close>

definition swap_source :: "browser \<Rightarrow> nat \<Rightarrow> nat \<Rightarrow> vnode \<Rightarrow> run_state \<Rightarrow> dom \<times> run_state" where
  "swap_source br source node new st =
     (let (ds, n) = create_dom br (rs_next st) new; r = hd ds
      in (r, st\<lparr>rs_kids := replace_child r node (rs_kids st), rs_next := n, rs_existing := (rs_existing st)[source := dom_id r]\<rparr>))"

definition begin_run :: "vnode list \<Rightarrow> nat list \<Rightarrow> dom list \<Rightarrow> nat \<Rightarrow> run_state" where
  "begin_run old existing ks n =
     \<lparr>rs_kids = ks, rs_next = n, rs_existing = existing, rs_consumed = replicate (length existing) False,
      rs_queues = keyed_sources old, rs_placed = []\<rparr>"

definition end_run :: "run_state \<Rightarrow> dom list" where
  "end_run st =
     fold (\<lambda>(node, used) ks. if used then ks else remove_child node ks) (zip (rs_existing st) (rs_consumed st)) (rs_kids st)"

definition run_start_of :: "nat list \<Rightarrow> nat option \<Rightarrow> nat option" where
  "run_start_of existing anchor = (case existing of i # _ \<Rightarrow> Some i | [] \<Rightarrow> anchor)"

lemma size_flatten: "size_list size (flatten v) \<le> Suc (size v)" "size_list size (flatten_children vs) \<le> size_list size vs"
  by (induction v and vs rule: flatten_flatten_children.induct) simp_all


text \<open>
  \<open>patch_dom\<close> with \<open>patch_children\<close>, and \<open>reconcile_range\<close> with its loop. \<open>None\<close> is the answer that the
  caller has to rebuild. A tracked node that is no longer a child of the element is outside the model.
\<close>

function patch_dom :: "browser \<Rightarrow> nat \<Rightarrow> dom \<Rightarrow> vnode \<Rightarrow> vnode \<Rightarrow> dom option \<times> nat"
  and reconcile_loop :: "browser \<Rightarrow> vnode list \<Rightarrow> nat option \<Rightarrow> nat \<Rightarrow> vnode list \<Rightarrow> run_state \<Rightarrow> run_state option" where
  "patch_dom br n real old new =
     (case (old, new) of
        (VText s, VText t) \<Rightarrow> if s \<noteq> t then map_prod Some id (set_text_content t n real) else (Some real, n)
      | (VComment s, VComment t) \<Rightarrow> if s \<noteq> t then map_prod Some id (set_text_content t n real) else (Some real, n)
      | (VElement tag attrs events children, VElement tag' attrs' events' children') \<Rightarrow>
          if tag = tag' then
            (case real of
               DElement i t as es ks \<Rightarrow>
                 let as' = patch_attributes br attrs attrs' as;
                     es' = (if events \<noteq> [] \<or> events' \<noteq> [] then events' else es);
                     existing = map dom_id ks; old_flat = flatten_children children
                 in if length existing \<noteq> length old_flat then (None, n)
                    else (case reconcile_loop br old_flat (run_start_of existing None) 0 (flatten_children children')
                                 (begin_run old_flat existing ks n) of
                            None \<Rightarrow> (None, n)
                          | Some st \<Rightarrow> (Some (DElement i t as' es' (end_run st)), rs_next st))
             | _ \<Rightarrow> (None, n))
          else (None, n)
      | _ \<Rightarrow> (None, n))"
| "reconcile_loop br old run_start target [] st = Some st"
| "reconcile_loop br old run_start target (new # news) st =
     (case pick_source old target new st of
        (Some source, st1) \<Rightarrow>
          (let node = rs_existing st1 ! source; st2 = st1\<lparr>rs_consumed := (rs_consumed st1)[source := True]\<rparr>
           in (case kid (rs_kids st2) node of
                 None \<Rightarrow> None
               | Some d \<Rightarrow>
                   (case patch_dom br (rs_next st2) d (old ! source) new of
                      (Some d', n) \<Rightarrow>
                        reconcile_loop br old run_start (Suc target) news
                          (place_child d' run_start (st2\<lparr>rs_kids := replace_child d' node (rs_kids st2), rs_next := n\<rparr>))
                    | (None, n) \<Rightarrow>
                        let (r, st3) = swap_source br source node new (st2\<lparr>rs_next := n\<rparr>)
                        in reconcile_loop br old run_start (Suc target) news (place_child r run_start st3))))
      | (None, st1) \<Rightarrow> reconcile_loop br old run_start (Suc target) news (create_and_place br run_start new st1))"
  by pat_completeness auto

termination
proof (relation "measure (\<lambda>x. case x of Inl (_, _, _, _, new) \<Rightarrow> size new | Inr (_, _, _, _, news, _) \<Rightarrow> size_list size news)", goal_cases)
  case (2 br n real old new a b x11 x12 x13 x14 x11a x12a x13a x14a)
  then show ?case using size_flatten(2) [of x14a] by auto
qed simp_all


declare patch_dom.simps [simp del]

text \<open>\<open>reconcile_range\<close>: the children of the element and the tracked run after it. \<open>patch_children\<close> is the case of all children.\<close>

definition reconcile_range ::
  "browser \<Rightarrow> dom list \<Rightarrow> nat \<Rightarrow> nat list \<Rightarrow> vnode list \<Rightarrow> vnode list \<Rightarrow> nat option \<Rightarrow> (dom list \<times> nat \<times> nat list) option" where
  "reconcile_range br ks n existing old_children new_children anchor =
     (let old_flat = flatten_children old_children
      in if length existing \<noteq> length old_flat then None
         else map_option (\<lambda>st. (end_run st, rs_next st, rs_placed st))
                (reconcile_loop br old_flat (run_start_of existing anchor) 0 (flatten_children new_children)
                  (begin_run old_flat existing ks n)))"

subsection \<open>Regions\<close>

text \<open>A region of a parent element: its tracked run, the render it shows, its trailing anchor, and where an empty run goes.\<close>

record region =
  rg_rendered :: "nat list"
  rg_current :: "vnode option"
  rg_anchor :: "nat option"
  rg_empty_position :: "nat option option"

definition create_run_nodes :: "browser \<Rightarrow> nat \<Rightarrow> vnode \<Rightarrow> dom list \<times> nat" where
  "create_run_nodes br n v = create_all br n (flatten v)"

definition anchor_insert :: "region \<Rightarrow> dom \<Rightarrow> dom list \<Rightarrow> dom list option" where
  "anchor_insert rg created ks =
     (if rg_rendered rg \<noteq> [] then
        (let l = last (rg_rendered rg) in if l \<in> dom_id ` set ks then Some (insert_before created (next_sibling ks l) ks) else None)
      else map_option (\<lambda>next. insert_before created
                         (case next of Some i \<Rightarrow> if i \<in> dom_id ` set ks then Some i else None | None \<Rightarrow> None) ks)
             (rg_empty_position rg))"

definition region_anchor :: "region \<Rightarrow> dom list \<Rightarrow> nat \<Rightarrow> (nat \<times> dom list \<times> nat) option" where
  "region_anchor rg ks n =
     (case rg_anchor rg of
        Some a \<Rightarrow> Some (a, ks, n)
      | None \<Rightarrow> map_option (\<lambda>ks'. (n, ks', Suc n)) (anchor_insert rg (DComment n ''krab-dynamic'') ks))"

definition rebuild_run :: "browser \<Rightarrow> nat \<Rightarrow> nat list \<Rightarrow> vnode \<Rightarrow> dom list \<Rightarrow> nat \<Rightarrow> dom list \<times> nat \<times> nat list" where
  "rebuild_run br anchor stale new ks n =
     (let ks1 = fold remove_child stale ks; (ds, n') = create_run_nodes br n new
      in (fold (\<lambda>d. insert_before d (Some anchor)) ds ks1, n', map dom_id ds))"

definition update_dynamic_region :: "browser \<Rightarrow> region \<Rightarrow> vnode \<Rightarrow> dom list \<Rightarrow> nat \<Rightarrow> region \<times> dom list \<times> nat" where
  "update_dynamic_region br rg new ks n =
     (case region_anchor rg ks n of
        None \<Rightarrow> (rg\<lparr>rg_current := Some new\<rparr>, ks, n)
      | Some (anchor, ks1, n1) \<Rightarrow>
          if anchor \<notin> dom_id ` set ks1 then (rg\<lparr>rg_anchor := Some anchor, rg_current := Some new\<rparr>, ks1, n1)
          else
            (let (ks2, n2, nodes) =
               (case reconcile_range br ks1 n1 (rg_rendered rg) (case rg_current rg of Some v \<Rightarrow> [v] | None \<Rightarrow> []) [new] (Some anchor) of
                  Some r \<Rightarrow> r
                | None \<Rightarrow> rebuild_run br anchor (rg_rendered rg) new ks1 n1)
             in (rg\<lparr>rg_rendered := nodes, rg_current := Some new, rg_anchor := Some anchor\<rparr>, ks2, n2)))"

subsection \<open>What a document shows\<close>

definition fresh_attributes :: "browser \<Rightarrow> attr_list \<Rightarrow> attr_list" where
  "fresh_attributes br attrs = fold (\<lambda>(name, value). set_attribute br name value) attrs []"

fun mirrors :: "browser \<Rightarrow> dom \<Rightarrow> vnode \<Rightarrow> bool" and mirrors_all :: "browser \<Rightarrow> dom list \<Rightarrow> vnode list \<Rightarrow> bool" where
  "mirrors br (DElement i t as es ks) (VElement tag attrs events children) =
     (br_tag_ok br tag \<and> t = tag \<and> map_of as = map_of (fresh_attributes br attrs) \<and> es = events \<and>
      mirrors_all br ks (flatten_children children))"
| "mirrors br (DComment i s) (VElement tag attrs events children) = (\<not> br_tag_ok br tag \<and> s = ''krab-create-element-error'')"
| "mirrors br (DText i s) (VText t) = (s = t)"
| "mirrors br (DComment i s) (VComment t) = (s = t)"
| "mirrors br _ _ = False"
| "mirrors_all br [] [] = True"
| "mirrors_all br (d # ds) (v # vs) = (mirrors br d v \<and> mirrors_all br ds vs)"
| "mirrors_all br _ _ = False"

text \<open>Attribute names of one element are distinct for the browser.\<close>

fun names_distinct :: "browser \<Rightarrow> vnode \<Rightarrow> bool" and names_distinct_all :: "browser \<Rightarrow> vnode list \<Rightarrow> bool" where
  "names_distinct br (VElement tag attrs events children) =
     (distinct (map (br_fold br \<circ> fst) attrs) \<and> names_distinct_all br children)"
| "names_distinct br (VFragment children) = names_distinct_all br children"
| "names_distinct br _ = True"
| "names_distinct_all br [] = True"
| "names_distinct_all br (v # vs) = (names_distinct br v \<and> names_distinct_all br vs)"

text \<open>Identities below \<open>n\<close>, and distinct among siblings.\<close>

fun ids_ok :: "nat \<Rightarrow> dom \<Rightarrow> bool" and ids_ok_all :: "nat \<Rightarrow> dom list \<Rightarrow> bool" where
  "ids_ok n (DElement i t as es ks) = (i < n \<and> distinct (map dom_id ks) \<and> ids_ok_all n ks)"
| "ids_ok n (DText i s) = (i < n)"
| "ids_ok n (DComment i s) = (i < n)"
| "ids_ok_all n [] = True"
| "ids_ok_all n (d # ds) = (ids_ok n d \<and> ids_ok_all n ds)"


subsection \<open>Attributes\<close>

lemma map_of_removed:
  "map_of (fold (\<lambda>(name, _) as. if name \<in> S then as else remove_attribute br name as) old as) k =
     (if \<exists>(name, v) \<in> set old. name \<notin> S \<and> br_fold br name = k then None else map_of as k)"
  by (induction old arbitrary: as) (auto simp: remove_attribute_def delete_conv split: if_splits)

lemma map_of_written:
  assumes "distinct (map (br_fold br \<circ> fst) new)"
  shows "map_of (fold (\<lambda>(name, v) as. if P name v then as else set_attribute br name v as) new as) k =
     (case find (\<lambda>(name, v). br_fold br name = k \<and> br_name_ok br name \<and> \<not> P name v) new of
        Some (_, v) \<Rightarrow> Some v | None \<Rightarrow> map_of as k)"
  using assms
proof (induction new arbitrary: as)
  case (Cons nv new)
  obtain name v where nv: "nv = (name, v)" by fastforce
  have later: "find (\<lambda>(name', v). br_fold br name' = br_fold br name \<and> Q name' v) new = None" for Q
    using Cons.prems nv by (force simp: find_None_iff)
  have tail: "distinct (map (br_fold br \<circ> fst) new)" using Cons.prems by (simp add: comp_def)
  show ?case
    using later [of "\<lambda>name' v. br_name_ok br name' \<and> \<not> P name' v"]
    by (auto simp: nv Cons.IH [OF tail] set_attribute_def update_conv split: option.splits)
qed simp

lemma map_of_fresh:
  assumes "distinct (map (br_fold br \<circ> fst) attrs)"
  shows "map_of (fresh_attributes br attrs) k =
     (case find (\<lambda>(name, v). br_fold br name = k \<and> br_name_ok br name) attrs of Some (_, v) \<Rightarrow> Some v | None \<Rightarrow> None)"
  using map_of_written [OF assms, of "\<lambda>_ _. False" "[]" k] by (simp add: fresh_attributes_def split: option.splits)

lemma find_distinct:
  assumes "distinct (map (br_fold br \<circ> fst) attrs)" and "(name, v) \<in> set attrs" and "br_fold br name = k \<and> Q name v"
  shows "find (\<lambda>(name, v). br_fold br name = k \<and> Q name v) attrs = Some (name, v)"
  using assms by (induction attrs) (auto simp: rev_image_eqI)

lemma folds_inj:
  assumes "distinct (map (br_fold br \<circ> fst) attrs)" and "(a, b) \<in> set attrs" and "(a', b') \<in> set attrs" and "br_fold br a = br_fold br a'"
  shows "(a', b') = (a, b)"
  using assms inj_onD [of "br_fold br \<circ> fst" "set attrs" "(a', b')" "(a, b)"] by (simp add: distinct_map)

lemma patch_attributes_correct:
  assumes old: "distinct (map (br_fold br \<circ> fst) old)" and new: "distinct (map (br_fold br \<circ> fst) new)"
    and as: "map_of as = map_of (fresh_attributes br old)"
  shows "map_of (patch_attributes br old new as) = map_of (fresh_attributes br new)"
proof
  fix k
  let ?skip = "\<lambda>name v. map_of old name = Some v"
  have lhs: "map_of (patch_attributes br old new as) k =
      (case find (\<lambda>(name, v). br_fold br name = k \<and> br_name_ok br name \<and> \<not> ?skip name v) new of
         Some (_, v) \<Rightarrow> Some v
       | None \<Rightarrow> if \<exists>(name, v) \<in> set old. name \<notin> fst ` set new \<and> br_fold br name = k then None
                 else map_of (fresh_attributes br old) k)"
    unfolding patch_attributes_def by (simp add: map_of_written [OF new] map_of_removed as split: option.splits)
  show "map_of (patch_attributes br old new as) k = map_of (fresh_attributes br new) k"
  proof (cases "\<exists>(name, v) \<in> set new. br_fold br name = k \<and> br_name_ok br name")
    case True
    then obtain name v where nv: "(name, v) \<in> set new" "br_fold br name = k \<and> br_name_ok br name" by blast
    have rhs: "map_of (fresh_attributes br new) k = Some v"
      unfolding map_of_fresh [OF new] using find_distinct [OF new nv(1), of k "\<lambda>name _. br_name_ok br name"] nv(2) by simp
    show ?thesis
    proof (cases "?skip name v")
      case False
      then show ?thesis
        unfolding lhs rhs using find_distinct [OF new nv(1), of k "\<lambda>name v. br_name_ok br name \<and> \<not> ?skip name v"] nv(2) by simp
    next
      case True
      then have o: "(name, v) \<in> set old" by (rule map_of_SomeD)
      have none: "find (\<lambda>(name, v). br_fold br name = k \<and> br_name_ok br name \<and> \<not> ?skip name v) new = None"
      proof -
        have "(name', v') = (name, v)" if "(name', v') \<in> set new" "br_fold br name' = k" for name' v'
          using folds_inj [OF new nv(1) that(1)] nv(2) that(2) by simp
        with True show ?thesis by (auto simp: find_None_iff)
      qed
      have kept: "\<not> (\<exists>(name', v') \<in> set old. name' \<notin> fst ` set new \<and> br_fold br name' = k)"
      proof
        assume "\<exists>(name', v') \<in> set old. name' \<notin> fst ` set new \<and> br_fold br name' = k"
        then obtain name' v' where "(name', v') \<in> set old" "name' \<notin> fst ` set new" "br_fold br name' = k" by blast
        moreover from this have "(name', v') = (name, v)" using folds_inj [OF old o] nv(2) by metis
        ultimately show False using nv(1) by force
      qed
      have "map_of (fresh_attributes br old) k = Some v"
        unfolding map_of_fresh [OF old] using find_distinct [OF old o, of k "\<lambda>name _. br_name_ok br name"] nv(2) by simp
      with none kept show ?thesis unfolding lhs rhs by simp
    qed
  next
    case False
    then have "find (\<lambda>(name, v). br_fold br name = k \<and> br_name_ok br name) new = None" by (auto simp: find_None_iff)
    then have rhs: "map_of (fresh_attributes br new) k = None" unfolding map_of_fresh [OF new] by simp
    have none: "find (\<lambda>(name, v). br_fold br name = k \<and> br_name_ok br name \<and> \<not> ?skip name v) new = None"
      using False by (auto simp: find_None_iff)
    have "map_of (fresh_attributes br old) k = None"
      if kept: "\<not> (\<exists>(name, v) \<in> set old. name \<notin> fst ` set new \<and> br_fold br name = k)"
    proof -
      have "find (\<lambda>(name, v). br_fold br name = k \<and> br_name_ok br name) old = None"
        using False kept by (force simp: find_None_iff)
      then show ?thesis unfolding map_of_fresh [OF old] by simp
    qed
    with none show ?thesis unfolding lhs rhs by simp
  qed
qed


subsection \<open>Fresh nodes\<close>

lemma mirrors_all_append: "mirrors_all br (ds @ es) (vs @ ws) \<longleftrightarrow> mirrors_all br ds vs \<and> mirrors_all br es ws" if "length ds = length vs"
  using that by (induction ds vs rule: list_induct2) simp_all

lemma mirrors_all_iff: "mirrors_all br ds vs \<longleftrightarrow> list_all2 (mirrors br) ds vs"
  by (induction br ds vs rule: mirrors_mirrors_all.induct(2) [where P = "\<lambda>_ _ _. True"]) simp_all

lemma ids_ok_all_iff: "ids_ok_all n ds \<longleftrightarrow> (\<forall>d \<in> set ds. ids_ok n d)"
  by (induction ds) simp_all

lemma ids_ok_mono: "ids_ok n d \<Longrightarrow> n \<le> m \<Longrightarrow> ids_ok m d" "ids_ok_all n ds \<Longrightarrow> n \<le> m \<Longrightarrow> ids_ok_all m ds"
  by (induction n d and n ds rule: ids_ok_ids_ok_all.induct) auto

lemma ids_ok_less: "ids_ok n d \<Longrightarrow> dom_id d < n"
  by (cases d) auto

lemma create_fresh:
  "create_dom br n v = (ds, n') \<Longrightarrow> n \<le> n' \<and> ids_ok_all n' ds \<and> distinct (map dom_id ds) \<and> (\<forall>d \<in> set ds. n \<le> dom_id d) \<and>
     mirrors_all br ds (flatten v)"
  "create_all br n vs = (ds, n') \<Longrightarrow> n \<le> n' \<and> ids_ok_all n' ds \<and> distinct (map dom_id ds) \<and> (\<forall>d \<in> set ds. n \<le> dom_id d) \<and>
     mirrors_all br ds (flatten_children vs)"
proof (induction br n v and br n vs arbitrary: ds n' and ds n' rule: create_dom_create_all.induct)
  case (1 br n tag attrs events children)
  show ?case
  proof (cases "br_tag_ok br tag")
    case True
    obtain ks m where c: "create_all br (Suc n) children = (ks, m)" by fastforce
    note IH = "1.IH" [OF True c]
    show ?thesis using "1.prems" True c IH by (auto simp: fresh_attributes_def)
  next
    case False
    then show ?thesis using "1.prems" by auto
  qed
next
  case (6 br n v vs)
  obtain ds1 n1 where c1: "create_dom br n v = (ds1, n1)" by fastforce
  obtain ds2 n2 where c2: "create_all br n1 vs = (ds2, n2)" by fastforce
  note IH1 = "6.IH"(1) [OF c1]
  note IH2 = "6.IH"(2) [OF c1 [symmetric] refl c2]
  have r: "ds = ds1 @ ds2" "n' = n2" using "6.prems" c1 c2 by simp_all
  have "dom_id ` set ds1 \<inter> dom_id ` set ds2 = {}"
    using IH1 IH2 by (fastforce simp: ids_ok_all_iff dest: ids_ok_less)
  moreover have "length ds1 = length (flatten v)" using IH1 by (auto simp: mirrors_all_iff dest: list_all2_lengthD)
  ultimately show ?case
    using IH1 IH2 ids_ok_mono(2) [of n1 ds1 n2] by (auto simp: r mirrors_all_append ids_ok_all_iff)
qed auto

lemma create_one:
  assumes "create_dom br n v = (ds, n')" and "flatten v = [v]"
  shows "\<exists>d. ds = [d] \<and> n \<le> n' \<and> n \<le> dom_id d \<and> ids_ok n' d \<and> mirrors br d v"
proof -
  have "mirrors_all br ds [v]" using create_fresh(1) [OF assms(1)] assms(2) by simp
  then obtain d where "ds = [d]" by (auto simp: mirrors_all_iff list_all2_Cons2)
  with create_fresh(1) [OF assms(1)] assms(2) show ?thesis by simp
qed

lemma flatten_flat: "v \<in> set (flatten w) \<Longrightarrow> flatten v = [v]" "v \<in> set (flatten_children ws) \<Longrightarrow> flatten v = [v]"
  by (induction w and ws rule: flatten_flatten_children.induct) auto

lemma names_distinct_all_iff: "names_distinct_all br vs \<longleftrightarrow> (\<forall>v \<in> set vs. names_distinct br v)"
  by (induction vs) simp_all

lemma names_distinct_flatten:
  "v \<in> set (flatten w) \<Longrightarrow> names_distinct br w \<Longrightarrow> names_distinct br v"
  "v \<in> set (flatten_children ws) \<Longrightarrow> names_distinct_all br ws \<Longrightarrow> names_distinct br v"
  by (induction w and ws rule: flatten_flatten_children.induct) auto

lemma size_flatten_mem: "v \<in> set (flatten_children ws) \<Longrightarrow> size v < size_list size ws"
proof -
  have mem: "v \<in> set vs \<Longrightarrow> size v < size_list size vs" for vs by (induction vs) auto
  assume "v \<in> set (flatten_children ws)"
  from mem [OF this] show ?thesis using size_flatten(2) [of ws] by simp
qed

subsection \<open>Moving children\<close>

lemma next_sibling_append:
  assumes "P \<noteq> []" and "distinct (map dom_id (pre @ P @ R))"
  shows "next_sibling (pre @ P @ R) (dom_id (last P)) = first_child R"
proof -
  obtain P' p where P: "P = P' @ [p]" using assms(1) by (cases P rule: rev_cases) auto
  have "next_sibling (L @ p # R) (dom_id p) = first_child R" if "dom_id p \<notin> dom_id ` set L" for L
    using that by (induction L) (auto simp: first_child_def split: list.splits)
  from this [of "pre @ P'"] assms(2) show ?thesis by (simp add: P image_Un)
qed

lemma put_before_append:
  "t \<notin> dom_id ` set L \<Longrightarrow> dom_id e = t \<Longrightarrow> put_before d t (L @ e # R) = L @ d # e # R"
  by (induction L) auto

lemma remove_child_absent: "i \<notin> dom_id ` set ks \<Longrightarrow> remove_child i ks = ks"
  by (auto simp: remove_child_def filter_id_conv)

lemma remove_child_split:
  assumes "distinct (map dom_id (L @ d # R))"
  shows "remove_child (dom_id d) (L @ d # R) = L @ R"
proof -
  have "dom_id d \<notin> dom_id ` set L" "dom_id d \<notin> dom_id ` set R" using assms by auto
  from remove_child_absent [OF this(1)] remove_child_absent [OF this(2)] show ?thesis by (simp add: remove_child_def)
qed

lemma insert_at:
  assumes "remove_child (dom_id d) ks = L @ R" and "distinct (map dom_id (L @ R))" and "dom_id ` set (L @ R) \<subseteq> dom_id ` set ks"
  shows "insert_before d (first_child R) ks = L @ d # R"
proof (cases R)
  case Nil
  then show ?thesis using assms by (simp add: insert_before_def first_child_def)
next
  case (Cons e R')
  have "put_before d (dom_id e) (L @ e # R') = L @ d # e # R'"
    using assms(2) Cons by (intro put_before_append) auto
  then show ?thesis using assms(1,3) Cons by (simp add: insert_before_def first_child_def)
qed

text \<open>A node moves behind the run placed so far, or stays when it is there already.\<close>

lemma place_child_moves:
  assumes "distinct (map dom_id (pre @ P @ A @ d # B))"
    and "P = [] \<Longrightarrow> A \<noteq> [] \<Longrightarrow> run_start = Some (dom_id (hd A))"
    and "P = [] \<Longrightarrow> A = [] \<Longrightarrow> run_start = Some (dom_id d) \<or> (\<exists>s. run_start = Some s \<and> s \<notin> dom_id ` set (pre @ d # B))"
  shows "place_before d (if P = [] then None else Some (dom_id (last P))) run_start (pre @ P @ A @ d # B) = pre @ P @ d # A @ B"
proof (cases "A = []")
  case True
  then show ?thesis
    using assms next_sibling_append [of P pre "d # B"]
    by (cases "P = []") (auto simp: place_before_def insert_before_def first_child_def)
next
  case False
  have t: "(if P = [] then run_start else next_sibling (pre @ P @ A @ d # B) (dom_id (last P))) = first_child A"
    using assms(1,2) False next_sibling_append [of P pre "A @ d # B"] by (cases A) (auto simp: first_child_def)
  have "first_child A \<noteq> Some (dom_id d)" using assms(1) False by (cases A) (auto simp: first_child_def)
  moreover have "insert_before d (first_child (A @ B)) (pre @ P @ A @ d # B) = (pre @ P) @ d # A @ B"
    using assms(1) remove_child_split [of "pre @ P @ A" d B] by (intro insert_at) auto
  moreover have "first_child (A @ B) = first_child A" using False by (cases A) (auto simp: first_child_def)
  ultimately show ?thesis using t False by (cases "P = []") (auto simp: place_before_def first_child_def split: list.splits)
qed

lemma place_child_inserts:
  assumes "distinct (map dom_id (pre @ P @ R))" and "dom_id d \<notin> dom_id ` set (pre @ P @ R)"
    and "P = [] \<Longrightarrow> (run_start = first_child R \<and> R \<noteq> []) \<or> (run_start = None \<and> pre = [] \<and> R = [])"
  shows "place_before d (if P = [] then None else Some (dom_id (last P))) run_start (pre @ P @ R) = pre @ P @ d # R"
proof -
  have i: "insert_before d (first_child R) (pre @ P @ R) = (pre @ P) @ d # R"
    using assms(1,2) remove_child_absent [OF assms(2)] by (intro insert_at) auto
  have t: "place_before d (if P = [] then None else Some (dom_id (last P))) run_start (pre @ P @ R) =
      (if first_child R = Some (dom_id d) then pre @ P @ R else insert_before d (first_child R) (pre @ P @ R))"
    using assms(1,3) next_sibling_append [of P pre R] by (cases "P = []") (auto simp: place_before_def first_child_def split: list.splits)
  have "first_child R \<noteq> Some (dom_id d)" using assms(2) by (auto simp: first_child_def split: list.splits)
  with i t show ?thesis by simp
qed


subsection \<open>Sources\<close>

definition queue_of :: "nat list hashmap \<Rightarrow> string \<Rightarrow> nat list" where
  "queue_of qs k = (case hm_get qs k of Some q \<Rightarrow> q | None \<Rightarrow> [])"

definition keyed_with :: "vnode list \<Rightarrow> string \<Rightarrow> nat list \<Rightarrow> nat list" where
  "keyed_with old k is = filter (\<lambda>i. reconcile_key (old ! i) = Some k) is"

lemma queue_of_insert: "queue_of (hm_insert k q qs) k' = (if k' = k then q else queue_of qs k')"
  by (simp add: queue_of_def hm_get_insert)

lemma keyed_sources_in_order: "queue_of (keyed_sources old) k = keyed_with old k [0..<length old]"
proof (induction old rule: rev_induct)
  case Nil
  then show ?case by (simp add: keyed_sources_def queue_of_def keyed_with_def)
next
  case (snoc v old)
  have step: "keyed_sources (old @ [v]) = (case reconcile_key v of None \<Rightarrow> keyed_sources old
      | Some k \<Rightarrow> hm_insert k (queue_of (keyed_sources old) k @ [length old]) (keyed_sources old))"
    by (simp add: keyed_sources_def enumerate_append_eq queue_of_def split: option.splits)
  have old: "keyed_with (old @ [v]) k [0..<length old] = keyed_with old k [0..<length old]"
    unfolding keyed_with_def by (rule filter_cong) (auto simp: nth_append)
  have last: "keyed_with (old @ [v]) k [0..<length (old @ [v])] =
      keyed_with old k [0..<length old] @ (if reconcile_key v = Some k then [length old] else [])"
    using old by (simp add: keyed_with_def)
  show ?case unfolding step last by (simp add: snoc queue_of_insert split: option.splits)
qed

text \<open>The children of the run that nobody has claimed yet.\<close>

definition unclaimed :: "run_state \<Rightarrow> nat list" where
  "unclaimed st = filter (\<lambda>i. \<not> rs_consumed st ! i) [0..<length (rs_consumed st)]"

text \<open>The node a new child keeps: the first with its key if it is the first with that key, or the unkeyed one at its place.\<close>

definition first_match :: "vnode list \<Rightarrow> vnode list \<Rightarrow> nat \<Rightarrow> nat option" where
  "first_match old new i =
     (case reconcile_key (new ! i) of
        None \<Rightarrow> if i < length old \<and> reconcile_key (old ! i) = None then Some i else None
      | Some k \<Rightarrow>
          if Some k \<in> reconcile_key ` set (take i new) then None
          else (case keyed_with old k [0..<length old] of [] \<Rightarrow> None | j # _ \<Rightarrow> Some j))"

fun patchable :: "browser \<Rightarrow> vnode \<Rightarrow> vnode \<Rightarrow> bool" where
  "patchable br (VElement tag _ _ _) (VElement tag' _ _ _) = (tag = tag' \<and> br_tag_ok br tag)"
| "patchable br (VText _) (VText _) = True"
| "patchable br (VComment _) (VComment _) = True"
| "patchable br _ _ = False"

definition sources_inv :: "vnode list \<Rightarrow> vnode list \<Rightarrow> run_state \<Rightarrow> bool" where
  "sources_inv old past st =
     (length (rs_consumed st) = length old \<and>
      (\<forall>k. queue_of (rs_queues st) k = keyed_with old k (unclaimed st)) \<and>
      (\<forall>i < length old. i \<notin> set (unclaimed st) \<longrightarrow>
         (case reconcile_key (old ! i) of Some k \<Rightarrow> Some k \<in> reconcile_key ` set past | None \<Rightarrow> i < length past)))"

lemma unclaimed_set: "i \<in> set (unclaimed st) \<longleftrightarrow> i < length (rs_consumed st) \<and> \<not> rs_consumed st ! i"
  by (auto simp: unclaimed_def)

lemma distinct_unclaimed [simp]: "distinct (unclaimed st)"
  by (simp add: unclaimed_def)

lemma unclaimed_claim:
  assumes "rs_consumed st' = (rs_consumed st)[s := True]"
  shows "unclaimed st' = filter (\<lambda>i. i \<noteq> s) (unclaimed st)"
proof -
  have "filter (\<lambda>i. \<not> (rs_consumed st)[s := True] ! i) [0..<length (rs_consumed st)] =
      filter (\<lambda>i. i \<noteq> s \<and> \<not> rs_consumed st ! i) [0..<length (rs_consumed st)]"
    by (cases "s < length (rs_consumed st)") (auto intro!: filter_cong simp: nth_list_update)
  then show ?thesis using assms by (simp add: unclaimed_def conj_commute)
qed

lemma pick_source_spec:
  assumes "sources_inv old past st" and "pick_source old (length past) new st = (r, st1)"
  shows "st1 = st\<lparr>rs_queues := rs_queues st1\<rparr> \<and>
    (\<forall>s. r = Some s \<longrightarrow> s \<in> set (unclaimed st) \<and> sources_inv old (past @ [new]) (st1\<lparr>rs_consumed := (rs_consumed st)[s := True]\<rparr>)) \<and>
    (r = None \<longrightarrow> st1 = st \<and> sources_inv old (past @ [new]) st) \<and>
    (\<forall>j. first_match old (past @ [new]) (length past) = Some j \<longrightarrow> r = Some j)"
proof -
  have len: "length (rs_consumed st) = length old" and q: "queue_of (rs_queues st) k = keyed_with old k (unclaimed st)" for k
    using assms(1) by (auto simp: sources_inv_def)
  have gone: "case reconcile_key (old ! i) of Some k \<Rightarrow> Some k \<in> reconcile_key ` set past | None \<Rightarrow> i < length past"
    if "i < length old" "i \<notin> set (unclaimed st)" for i
    using assms(1) that by (auto simp: sources_inv_def)
  have gone': "case reconcile_key (old ! i) of Some k \<Rightarrow> Some k \<in> reconcile_key ` set (past @ [new]) | None \<Rightarrow> i < length (past @ [new])"
    if "i < length old" "i \<notin> set (unclaimed st)" for i
    using gone [OF that] by (auto split: option.splits)
  define positional where "positional = (if length past < length (rs_consumed st) \<and> \<not> rs_consumed st ! length past \<and>
      length past < length old \<and> reconcile_key (old ! length past) = None then Some (length past) else None)"
  have pick: "(r, st1) = (case reconcile_key new of
       None \<Rightarrow> (positional, st)
     | Some k \<Rightarrow> (case hm_get (rs_queues st) k of
                   Some (s # q) \<Rightarrow> (Some s, st\<lparr>rs_queues := hm_insert k q (rs_queues st)\<rparr>)
                 | _ \<Rightarrow> (positional, st)))"
    unfolding assms(2) [symmetric] pick_source_def Let_def positional_def ..
  have pos: "s = length past \<and> s \<in> set (unclaimed st) \<and> reconcile_key (old ! s) = None" if "positional = Some s" for s
    using that len by (auto simp: positional_def unclaimed_set split: if_splits)
  have none_inv: "sources_inv old (past @ [new]) st"
    using len q gone' by (simp add: sources_inv_def)
  have claim_inv: "sources_inv old (past @ [new]) (st\<lparr>rs_queues := qs, rs_consumed := (rs_consumed st)[s := True]\<rparr>)"
    if "\<And>k. queue_of qs k = keyed_with old k (filter (\<lambda>i. i \<noteq> s) (unclaimed st))"
      "case reconcile_key (old ! s) of Some k \<Rightarrow> Some k = reconcile_key new | None \<Rightarrow> s = length past" for s qs
  proof -
    have u: "unclaimed (st\<lparr>rs_queues := qs, rs_consumed := (rs_consumed st)[s := True]\<rparr>) = filter (\<lambda>i. i \<noteq> s) (unclaimed st)"
      by (rule unclaimed_claim) simp
    have "case reconcile_key (old ! i) of Some k \<Rightarrow> Some k \<in> reconcile_key ` set (past @ [new]) | None \<Rightarrow> i < length (past @ [new])"
      if "i < length old" "i \<notin> set (filter (\<lambda>i. i \<noteq> s) (unclaimed st))" for i
    proof (cases "i = s")
      case True
      then show ?thesis using \<open>case reconcile_key (old ! s) of Some k \<Rightarrow> Some k = reconcile_key new | None \<Rightarrow> s = length past\<close>
        by (auto split: option.splits)
    qed (use gone' [of i] that in simp)
    with u len that(1) show ?thesis by (simp add: sources_inv_def)
  qed
  have pos_inv: "sources_inv old (past @ [new]) (st\<lparr>rs_consumed := (rs_consumed st)[s := True]\<rparr>)" if "positional = Some s" for s
  proof -
    have "keyed_with old k (filter (\<lambda>i. i \<noteq> s) (unclaimed st)) = keyed_with old k (unclaimed st)" for k
      using pos [OF that] unfolding keyed_with_def filter_filter by (intro filter_cong) auto
    moreover have "reconcile_key (old ! s) = None" "s = length past" using pos [OF that] by blast+
    ultimately show ?thesis using claim_inv [of "rs_queues st" s] q by auto
  qed
  have same: "positional = Some s \<Longrightarrow> s \<in> set (unclaimed st) \<and> sources_inv old (past @ [new]) (st\<lparr>rs_consumed := (rs_consumed st)[s := True]\<rparr>)" for s
    using pos pos_inv by blast
  have by_position: ?thesis
    if "r = positional" "st1 = st" "\<And>j. first_match old (past @ [new]) (length past) = Some j \<Longrightarrow> positional = Some j"
    unfolding that(1,2) using none_inv same that(3) by (metis (no_types, lifting) run_state.surjective run_state.update_convs(5))
  show ?thesis
  proof (cases "reconcile_key new")
    case None
    then have r: "r = positional" "st1 = st" using pick by simp_all
    have "positional = Some j" if "first_match old (past @ [new]) (length past) = Some j" for j
    proof -
      have j: "j = length past" "j < length old" "reconcile_key (old ! j) = None"
        using that None by (auto simp: first_match_def split: if_splits)
      then have "j \<in> set (unclaimed st)" using gone [of j] by auto
      with j show ?thesis unfolding positional_def using len by (simp add: unclaimed_set)
    qed
    with r show ?thesis by (rule by_position)
  next
    case (Some k)
    show ?thesis
    proof (cases "queue_of (rs_queues st) k")
      case Nil
      then have r: "r = positional" "st1 = st"
        using pick Some by (auto simp: queue_of_def split: option.splits list.splits)
      have "first_match old (past @ [new]) (length past) = None"
      proof (rule ccontr)
        assume "first_match old (past @ [new]) (length past) \<noteq> None"
        then obtain j js where fresh: "Some k \<notin> reconcile_key ` set past" and j: "keyed_with old k [0..<length old] = j # js"
          using Some by (auto simp: first_match_def split: if_splits list.splits)
        have "j \<in> set (keyed_with old k [0..<length old])" using j by simp
        then have "j < length old" "reconcile_key (old ! j) = Some k" by (auto simp: keyed_with_def)
        moreover from this have "j \<in> set (unclaimed st)" using gone [of j] fresh by auto
        ultimately have "j \<in> set (keyed_with old k (unclaimed st))" by (simp add: keyed_with_def)
        with q [of k] Nil show False by simp
      qed
      then show ?thesis by (intro by_position r) simp
    next
      case (Cons s rest)
      then have r: "r = Some s" "st1 = st\<lparr>rs_queues := hm_insert k rest (rs_queues st)\<rparr>"
        using pick Some by (auto simp: queue_of_def split: option.splits)
      have kw: "keyed_with old k (unclaimed st) = s # rest" using q [of k] Cons by simp
      then have s: "s \<in> set (unclaimed st)" "reconcile_key (old ! s) = Some k" by (auto simp: keyed_with_def filter_eq_Cons_iff)
      have d: "distinct (s # rest)" using kw distinct_filter [OF distinct_unclaimed] unfolding keyed_with_def by metis
      have "queue_of (hm_insert k rest (rs_queues st)) k' = keyed_with old k' (filter (\<lambda>i. i \<noteq> s) (unclaimed st))" for k'
      proof (cases "k' = k")
        case True
        have "keyed_with old k (filter (\<lambda>i. i \<noteq> s) (unclaimed st)) = filter (\<lambda>i. i \<noteq> s) (keyed_with old k (unclaimed st))"
          by (simp add: keyed_with_def conj_commute)
        moreover have "filter (\<lambda>i. i \<noteq> s) rest = rest" using d by (auto simp: filter_id_conv)
        ultimately show ?thesis using True kw by (simp add: queue_of_insert)
      next
        case False
        have "keyed_with old k' (filter (\<lambda>i. i \<noteq> s) (unclaimed st)) = keyed_with old k' (unclaimed st)"
          using False s(2) unfolding keyed_with_def filter_filter by (intro filter_cong) auto
        then show ?thesis using False q by (simp add: queue_of_insert)
      qed
      then have "sources_inv old (past @ [new]) (st\<lparr>rs_queues := hm_insert k rest (rs_queues st), rs_consumed := (rs_consumed st)[s := True]\<rparr>)"
        using claim_inv s(2) Some by simp
      moreover have "s = j" if fm: "first_match old (past @ [new]) (length past) = Some j" for j
      proof -
        obtain js where fresh: "Some k \<notin> reconcile_key ` set past" and j: "keyed_with old k [0..<length old] = j # js"
          using fm Some by (auto simp: first_match_def split: if_splits list.splits)
        have "keyed_with old k [0..<length old] = keyed_with old k (unclaimed st)"
          unfolding keyed_with_def unclaimed_def len filter_filter
          using gone fresh by (intro filter_cong) (force simp: unclaimed_set len split: option.splits)+
        with kw j show ?thesis by simp
      qed
      ultimately show ?thesis unfolding r using s(1) by (intro conjI allI impI) simp_all
    qed
  qed
qed


subsection \<open>The run while it is reconciled\<close>

text \<open>
  The run stands between \<open>pre\<close> and \<open>post\<close>: first the nodes \<open>P\<close> placed for the children handled so far
  (\<open>past\<close>), then what is unclaimed of the original run \<open>E\<close>, in its old order.
\<close>

definition keeps_matches :: "browser \<Rightarrow> vnode list \<Rightarrow> dom list \<Rightarrow> vnode list \<Rightarrow> nat list \<Rightarrow> bool" where
  "keeps_matches br old E new placed =
     (\<forall>i < length new. \<forall>j. first_match old new i = Some j \<longrightarrow> patchable br (old ! j) (new ! i) \<longrightarrow> placed ! i = dom_id (E ! j))"

definition run_inv ::
  "browser \<Rightarrow> vnode list \<Rightarrow> dom list \<Rightarrow> dom list \<Rightarrow> dom list \<Rightarrow> vnode list \<Rightarrow> dom list \<Rightarrow> run_state \<Rightarrow> bool" where
  "run_inv br old E pre post past P st =
     (rs_kids st = pre @ P @ map ((!) E) (unclaimed st) @ post \<and> distinct (map dom_id (rs_kids st)) \<and>
      ids_ok_all (rs_next st) (rs_kids st) \<and> map dom_id P = rs_placed st \<and> list_all2 (mirrors br) P past \<and>
      length (rs_existing st) = length old \<and> (\<forall>i \<in> set (unclaimed st). rs_existing st ! i = dom_id (E ! i)) \<and>
      (past = [] \<longrightarrow> unclaimed st = [0..<length old]) \<and> sources_inv old past st \<and> keeps_matches br old E past (rs_placed st))"

lemma kid_found: "distinct (map dom_id ks) \<Longrightarrow> d \<in> set ks \<Longrightarrow> kid ks (dom_id d) = Some d"
  unfolding kid_def by (induction ks) (auto simp: image_iff)

lemma replace_child_split:
  assumes "distinct (map dom_id (L @ y # R))"
  shows "replace_child x (dom_id y) (L @ y # R) = L @ x # R"
proof -
  have "dom_id y \<notin> dom_id ` set L" "dom_id y \<notin> dom_id ` set R" using assms by auto
  then have "map (\<lambda>d. if dom_id d = dom_id y then x else d) L = L" "map (\<lambda>d. if dom_id d = dom_id y then x else d) R = R"
    by (intro map_idI; metis image_eqI)+
  then show ?thesis by (simp add: replace_child_def)
qed

lemma sources_inv_cong:
  "rs_consumed st = rs_consumed st' \<Longrightarrow> rs_queues st = rs_queues st' \<Longrightarrow> sources_inv old past st \<longleftrightarrow> sources_inv old past st'"
  by (simp add: sources_inv_def unclaimed_def)

lemma first_match_append: "i < length past \<Longrightarrow> first_match old (past @ news) i = first_match old past i"
  by (simp add: first_match_def nth_append split: option.splits)

lemma keeps_matches_snoc:
  assumes "keeps_matches br old E past placed" and "length placed = length past"
    and "\<And>j. first_match old (past @ [new]) (length past) = Some j \<Longrightarrow> patchable br (old ! j) new \<Longrightarrow> x = dom_id (E ! j)"
  shows "keeps_matches br old E (past @ [new]) (placed @ [x])"
  unfolding keeps_matches_def
proof (intro allI impI)
  fix i j
  assume i: "i < length (past @ [new])" and f: "first_match old (past @ [new]) i = Some j" "patchable br (old ! j) ((past @ [new]) ! i)"
  show "(placed @ [x]) ! i = dom_id (E ! j)"
  proof (cases "i < length past")
    case True
    then show ?thesis using assms(1,2) f by (simp add: keeps_matches_def first_match_append nth_append)
  next
    case False
    then show ?thesis using assms(2,3) i f by (simp add: nth_append not_less less_Suc_eq)
  qed
qed

lemma last_placed_eq: "map dom_id P = rs_placed st \<Longrightarrow> last_placed st = (if P = [] then None else Some (dom_id (last P)))"
  unfolding last_placed_def by (auto simp: last_map dest: sym)

lemma last_placed_upd [simp]:
  "last_placed (st\<lparr>rs_next := n\<rparr>) = last_placed st" "last_placed (st\<lparr>rs_kids := ks\<rparr>) = last_placed st"
  "last_placed (st\<lparr>rs_existing := es\<rparr>) = last_placed st" "last_placed (st\<lparr>rs_consumed := bs\<rparr>) = last_placed st"
  "last_placed (st\<lparr>rs_queues := qs\<rparr>) = last_placed st"
  by (simp_all add: last_placed_def)

lemma upt_prefix:
  assumes "[0..<m] = A @ s # B"
  shows "A = [0..<s]"
proof -
  have len: "length A < m" using arg_cong [OF assms, of length] by simp
  have "s = length A" using arg_cong [OF assms, of "\<lambda>xs. xs ! length A"] len by simp
  moreover have "A = [0..<length A]" using arg_cong [OF assms, of "take (length A)"] len by (simp add: take_upt)
  ultimately show ?thesis by simp
qed

lemma run_inv_claim:
  assumes inv: "run_inv br old E pre post past P st" and len: "length E = length old"
    and s: "s \<in> set (unclaimed st)"
    and start: "E \<noteq> [] \<Longrightarrow> run_start = Some (dom_id (hd E))"
    and x: "ids_ok n x" "mirrors br x new" "rs_next st \<le> n" "dom_id x = dom_id (E ! s) \<or> rs_next st \<le> dom_id x"
    and st': "rs_kids st' = place_before x (last_placed st) run_start (replace_child x (dom_id (E ! s)) (rs_kids st))"
      "rs_next st' = n" "rs_placed st' = rs_placed st @ [dom_id x]" "length (rs_existing st') = length old"
      "\<And>i. i \<noteq> s \<Longrightarrow> rs_existing st' ! i = rs_existing st ! i" "rs_consumed st' = (rs_consumed st)[s := True]"
    and sources: "sources_inv old (past @ [new]) st'"
    and match: "\<And>j. first_match old (past @ [new]) (length past) = Some j \<Longrightarrow> patchable br (old ! j) new \<Longrightarrow> dom_id x = dom_id (E ! j)"
  shows "run_inv br old E pre post (past @ [new]) (P @ [x]) st'"
proof -
  have kids: "rs_kids st = pre @ P @ map ((!) E) (unclaimed st) @ post" and dist: "distinct (map dom_id (rs_kids st))"
    and ids: "ids_ok_all (rs_next st) (rs_kids st)" and placed: "map dom_id P = rs_placed st" and P: "list_all2 (mirrors br) P past"
    and first: "past = [] \<Longrightarrow> unclaimed st = [0..<length old]" and src: "sources_inv old past st"
    and ex: "\<forall>i \<in> set (unclaimed st). rs_existing st ! i = dom_id (E ! i)" and km: "keeps_matches br old E past (rs_placed st)"
    using inv unfolding run_inv_def by blast+
  obtain A B where AB: "unclaimed st = A @ s # B" using split_list [OF s] by blast
  have sAB: "s \<notin> set A" "s \<notin> set B" using distinct_unclaimed [of st] AB by auto
  have u': "unclaimed st' = A @ B"
  proof -
    have "filter (\<lambda>i. i \<noteq> s) A = A" "filter (\<lambda>i. i \<noteq> s) B = B" using sAB by (auto simp: filter_id_conv)
    then show ?thesis using unclaimed_claim [OF st'(6)] AB by simp
  qed
  let ?A = "map ((!) E) A" and ?B = "map ((!) E) B"
  have split: "rs_kids st = (pre @ P @ ?A) @ E ! s # (?B @ post)" using kids AB by simp
  then have K: "replace_child x (dom_id (E ! s)) (rs_kids st) = pre @ P @ ?A @ x # ?B @ post"
    using replace_child_split [of "pre @ P @ ?A" "E ! s" "?B @ post" x] dist by simp
  have fresh: "dom_id x \<notin> dom_id ` set (pre @ P @ ?A @ ?B @ post)"
    using x(4)
  proof
    assume "dom_id x = dom_id (E ! s)"
    then show ?thesis using dist split by (auto simp: image_Un)
  next
    assume "rs_next st \<le> dom_id x"
    moreover have "\<forall>d \<in> set (rs_kids st). dom_id d < rs_next st" using ids ids_ok_less by (auto simp: ids_ok_all_iff)
    moreover have "set (pre @ P @ ?A @ ?B @ post) \<subseteq> set (rs_kids st)" using split by auto
    ultimately show ?thesis by (metis imageE leD subsetD)
  qed
  have distK: "distinct (map dom_id (pre @ P @ ?A @ x # ?B @ post))"
    using dist fresh unfolding split by (auto simp: image_Un)
  have m: "s < length old" using s src by (auto simp: unclaimed_set sources_inv_def)
  have PE: "P = [] \<Longrightarrow> A = [0..<s]"
  proof -
    assume "P = []"
    then have "past = []" using P by simp
    from first [OF this] have "[0..<length old] = A @ s # B" unfolding AB [symmetric] ..
    from upt_prefix [OF this] show "A = [0..<s]" .
  qed
  have place: "place_before x (if P = [] then None else Some (dom_id (last P))) run_start (pre @ P @ ?A @ x # (?B @ post)) =
      pre @ P @ x # ?A @ (?B @ post)"
  proof (rule place_child_moves)
    show "distinct (map dom_id (pre @ P @ ?A @ x # ?B @ post))" by (rule distK)
    have E: "E \<noteq> []" "hd E = E ! 0" using m len by (cases E; simp)+
    show "run_start = Some (dom_id (hd ?A))" if "P = []" "?A \<noteq> []"
    proof -
      have "hd A = 0" using that PE by (cases s) (auto simp del: upt_Suc simp: upt_conv_Cons)
      then show ?thesis using that start E by (simp add: hd_map)
    qed
    show "run_start = Some (dom_id x) \<or> (\<exists>t. run_start = Some t \<and> t \<notin> dom_id ` set (pre @ x # ?B @ post))" if "P = []" "?A = []"
    proof -
      have "s = 0" using that PE by (cases s) auto
      then have rs: "run_start = Some (dom_id (E ! s))" using start E by simp
      show ?thesis
      proof (cases "dom_id x = dom_id (E ! s)")
        case False
        moreover have "dom_id (E ! s) \<notin> dom_id ` set (pre @ ?B @ post)" using dist split that by (auto simp: image_Un)
        ultimately show ?thesis using rs by auto
      qed (use rs in simp)
    qed
  qed
  have kids': "rs_kids st' = pre @ (P @ [x]) @ map ((!) E) (unclaimed st') @ post"
    using st'(1) K place u' last_placed_eq [OF placed] by simp
  have "distinct (map dom_id (rs_kids st'))" unfolding kids' u' using distK by (auto simp: image_Un)
  moreover have "ids_ok_all (rs_next st') (rs_kids st')"
    unfolding kids' u' st'(2) using ids_ok_mono(2) [OF ids x(3)] x(1) unfolding split by (auto simp: ids_ok_all_iff)
  moreover have "keeps_matches br old E (past @ [new]) (rs_placed st')"
    unfolding st'(3) using match list_all2_lengthD [OF P] placed [symmetric] by (intro keeps_matches_snoc km) auto
  moreover have "\<forall>i \<in> set (unclaimed st'). rs_existing st' ! i = dom_id (E ! i)"
  proof
    fix i
    assume "i \<in> set (unclaimed st')"
    then have "i \<noteq> s" "i \<in> set (unclaimed st)" using u' sAB AB by auto
    then show "rs_existing st' ! i = dom_id (E ! i)" using ex st'(5) [of i] by simp
  qed
  ultimately show ?thesis
    using kids' placed P x(2) st'(3,4) sources by (simp add: run_inv_def list_all2_appendI)
qed


lemma run_inv_create:
  assumes inv: "run_inv br old E pre post past P st" and len: "length E = length old"
    and start: "E \<noteq> [] \<Longrightarrow> run_start = Some (dom_id (hd E))"
      "E = [] \<Longrightarrow> (run_start = first_child post \<and> post \<noteq> []) \<or> (run_start = None \<and> pre = [] \<and> post = [])"
    and c: "create_dom br (rs_next st) new = (ds, n)" "flatten new = [new]"
    and sources: "sources_inv old (past @ [new]) st"
    and match: "first_match old (past @ [new]) (length past) = None"
  shows "run_inv br old E pre post (past @ [new]) (P @ [hd ds]) (create_and_place br run_start new st)"
proof -
  obtain x where x: "ds = [x]" "rs_next st \<le> n" "rs_next st \<le> dom_id x" "ids_ok n x" "mirrors br x new"
    using create_one [OF c] by blast
  have kids: "rs_kids st = pre @ P @ map ((!) E) (unclaimed st) @ post" and dist: "distinct (map dom_id (rs_kids st))"
    and ids: "ids_ok_all (rs_next st) (rs_kids st)" and placed: "map dom_id P = rs_placed st" and P: "list_all2 (mirrors br) P past"
    and first: "past = [] \<Longrightarrow> unclaimed st = [0..<length old]"
    and ex: "\<forall>i \<in> set (unclaimed st). rs_existing st ! i = dom_id (E ! i)" "length (rs_existing st) = length old"
    and km: "keeps_matches br old E past (rs_placed st)"
    using inv unfolding run_inv_def by blast+
  have fresh: "dom_id x \<notin> dom_id ` set (rs_kids st)"
  proof
    assume "dom_id x \<in> dom_id ` set (rs_kids st)"
    then obtain d where "d \<in> set (rs_kids st)" "dom_id d = dom_id x" by auto
    then show False using ids x(3) ids_ok_less [of "rs_next st" d] by (simp add: ids_ok_all_iff)
  qed
  have place: "place_before x (if P = [] then None else Some (dom_id (last P))) run_start (pre @ P @ (map ((!) E) (unclaimed st) @ post)) =
      pre @ P @ x # (map ((!) E) (unclaimed st) @ post)"
  proof (rule place_child_inserts)
    assume "P = []"
    then have "past = []" using P by simp
    from first [OF this] have u: "unclaimed st = [0..<length E]" using len by simp
    show "(run_start = first_child (map ((!) E) (unclaimed st) @ post) \<and> map ((!) E) (unclaimed st) @ post \<noteq> []) \<or>
        (run_start = None \<and> pre = [] \<and> map ((!) E) (unclaimed st) @ post = [])"
    proof (cases E)
      case Nil
      then show ?thesis using start(2) u by simp
    next
      case (Cons e E')
      have "map ((!) E) (unclaimed st) = E" unfolding u by (rule map_nth)
      then show ?thesis using start(1) Cons by (simp add: first_child_def)
    qed
  qed (use dist kids fresh in simp_all)
  have st': "create_and_place br run_start new st =
      st\<lparr>rs_next := n, rs_kids := pre @ (P @ [x]) @ map ((!) E) (unclaimed st) @ post, rs_placed := rs_placed st @ [dom_id x]\<rparr>"
    using c(1) x(1) place kids last_placed_eq [OF placed] by (simp add: create_and_place_def place_child_def)
  have u': "unclaimed (create_and_place br run_start new st) = unclaimed st" by (simp add: st' unclaimed_def)
  have "distinct (map dom_id (pre @ (P @ [x]) @ map ((!) E) (unclaimed st) @ post))"
    using dist fresh unfolding kids by (auto simp: image_Un)
  moreover have "ids_ok_all n (pre @ (P @ [x]) @ map ((!) E) (unclaimed st) @ post)"
    using ids_ok_mono(2) [OF ids x(2)] x(4) unfolding kids by (auto simp: ids_ok_all_iff)
  moreover have "keeps_matches br old E (past @ [new]) (rs_placed st @ [dom_id x])"
    using match list_all2_lengthD [OF P] placed [symmetric] by (intro keeps_matches_snoc km) auto
  moreover have "sources_inv old (past @ [new]) (create_and_place br run_start new st)"
    using sources sources_inv_cong [of "create_and_place br run_start new st" st] by (simp add: st')
  ultimately show ?thesis
    using u' placed P x(1,5) ex unfolding run_inv_def by (simp add: st' list_all2_appendI)
qed


text \<open>What patching a node promises.\<close>

definition patches :: "browser \<Rightarrow> vnode \<Rightarrow> bool" where
  "patches br new =
     (\<forall>n real old r n'. mirrors br real old \<longrightarrow> ids_ok n real \<longrightarrow> names_distinct br old \<longrightarrow> patch_dom br n real old new = (r, n') \<longrightarrow>
        n \<le> n' \<and>
        (case r of
           Some d \<Rightarrow> patchable br old new \<and> mirrors br d new \<and> dom_id d = dom_id real \<and> ids_ok n' d
         | None \<Rightarrow> \<not> patchable br old new))"

lemma loop_keeps_inv:
  assumes E: "list_all2 (mirrors br) E old" and names: "\<forall>v \<in> set old. names_distinct br v"
    and start: "E \<noteq> [] \<Longrightarrow> run_start = Some (dom_id (hd E))"
      "E = [] \<Longrightarrow> (run_start = first_child post \<and> post \<noteq> []) \<or> (run_start = None \<and> pre = [] \<and> post = [])"
  shows "run_inv br old E pre post past P st \<Longrightarrow> \<forall>new \<in> set news. patches br new \<and> flatten new = [new] \<Longrightarrow>
    \<exists>st' P'. reconcile_loop br old run_start (length past) news st = Some st' \<and> run_inv br old E pre post (past @ news) P' st' \<and>
      rs_next st \<le> rs_next st'"
proof (induction news arbitrary: past P st)
  case Nil
  then show ?case by auto
next
  case (Cons new news)
  have len: "length E = length old" using E by (rule list_all2_lengthD)
  have new: "patches br new" "flatten new = [new]" "\<forall>v \<in> set news. patches br v \<and> flatten v = [v]" using Cons.prems by auto
  have continue: "\<exists>st' P'. reconcile_loop br old run_start (length past) (new # news) st = Some st' \<and>
      run_inv br old E pre post (past @ new # news) P' st' \<and> rs_next st \<le> rs_next st'"
    if "reconcile_loop br old run_start (length past) (new # news) st = reconcile_loop br old run_start (Suc (length past)) news st1"
      "run_inv br old E pre post (past @ [new]) P1 st1" "rs_next st \<le> rs_next st1" for st1 P1
    using Cons.IH [OF that(2) new(3)] that(1,3) order_trans by force
  obtain r st1 where pick: "pick_source old (length past) new st = (r, st1)" by fastforce
  have src: "sources_inv old past st" using Cons.prems(1) by (simp add: run_inv_def)
  note ps = pick_source_spec [OF src pick]
  show ?case
  proof (cases r)
    case None
    obtain ds n where c: "create_dom br (rs_next st) new = (ds, n)" by fastforce
    have "sources_inv old (past @ [new]) st" "first_match old (past @ [new]) (length past) = None" "st1 = st"
      using ps None by (auto simp: not_Some_eq [symmetric] simp del: not_Some_eq)
    moreover have "rs_next st \<le> rs_next (create_and_place br run_start new st)"
      using create_one [OF c new(2)] by (auto simp: create_and_place_def place_child_def c)
    ultimately show ?thesis
      using run_inv_create [OF Cons.prems(1) len start c new(2)] by (intro continue) (simp_all add: pick None)
  next
    case (Some s)
    have s: "s \<in> set (unclaimed st)" "sources_inv old (past @ [new]) (st1\<lparr>rs_consumed := (rs_consumed st)[s := True]\<rparr>)"
      and q: "st1 = st\<lparr>rs_queues := rs_queues st1\<rparr>" and match: "first_match old (past @ [new]) (length past) = Some j \<Longrightarrow> j = s" for j
      using ps Some by auto
    have fields: "rs_kids st1 = rs_kids st" "rs_next st1 = rs_next st" "rs_existing st1 = rs_existing st" "rs_placed st1 = rs_placed st"
      "rs_consumed st1 = rs_consumed st" "last_placed st1 = last_placed st"
      by (subst q; simp)+
    have kids: "rs_kids st = pre @ P @ map ((!) E) (unclaimed st) @ post" "distinct (map dom_id (rs_kids st))"
      and ids: "ids_ok_all (rs_next st) (rs_kids st)" and ex: "rs_existing st ! s = dom_id (E ! s)" "length (rs_existing st) = length old"
      using Cons.prems(1) s(1) unfolding run_inv_def by blast+
    have sl: "s < length old" using s(1) src by (simp add: unclaimed_set sources_inv_def)
    have Es: "E ! s \<in> set (rs_kids st)" using kids(1) s(1) by auto
    have kd: "kid (rs_kids st) (dom_id (E ! s)) = Some (E ! s)" using kid_found [OF kids(2) Es] .
    have real: "mirrors br (E ! s) (old ! s)" "ids_ok (rs_next st) (E ! s)" "names_distinct br (old ! s)"
      using list_all2_nthD2 [OF E sl] ids Es names sl by (auto simp: ids_ok_all_iff)
    obtain r' n where p: "patch_dom br (rs_next st) (E ! s) (old ! s) new = (r', n)" by fastforce
    have pat: "rs_next st \<le> n" "case r' of Some d \<Rightarrow> patchable br (old ! s) new \<and> mirrors br d new \<and> dom_id d = dom_id (E ! s) \<and> ids_ok n d
        | None \<Rightarrow> \<not> patchable br (old ! s) new"
      using new(1) real p unfolding patches_def by blast+
    show ?thesis
    proof (cases r')
      case d: (Some d)
      let ?st = "place_child d run_start (st1\<lparr>rs_consumed := (rs_consumed st)[s := True],
          rs_kids := replace_child d (dom_id (E ! s)) (rs_kids st), rs_next := n\<rparr>)"
      have "run_inv br old E pre post (past @ [new]) (P @ [d]) ?st"
      proof (rule run_inv_claim [OF Cons.prems(1) len s(1) start(1)])
        show "sources_inv old (past @ [new]) ?st"
          using s(2) sources_inv_cong [of ?st "st1\<lparr>rs_consumed := (rs_consumed st)[s := True]\<rparr>"] by (simp add: place_child_def)
      qed (use pat d ex fields match in \<open>auto simp: place_child_def\<close>)
      moreover have "rs_next st \<le> rs_next ?st" using pat(1) by (simp add: place_child_def)
      ultimately show ?thesis by (intro continue) (simp_all add: pick Some fields ex kd p d Let_def)
    next
      case None
      obtain ds n2 where c: "create_dom br n new = (ds, n2)" by fastforce
      then obtain x where x: "ds = [x]" "n \<le> n2" "n \<le> dom_id x" "ids_ok n2 x" "mirrors br x new"
        using create_one [OF c new(2)] by blast
      let ?st = "place_child x run_start (st1\<lparr>rs_consumed := (rs_consumed st)[s := True],
          rs_kids := replace_child x (dom_id (E ! s)) (rs_kids st), rs_next := n2, rs_existing := (rs_existing st)[s := dom_id x]\<rparr>)"
      have "run_inv br old E pre post (past @ [new]) (P @ [x]) ?st"
      proof (rule run_inv_claim [OF Cons.prems(1) len s(1) start(1)])
        show "sources_inv old (past @ [new]) ?st"
          using s(2) sources_inv_cong [of ?st "st1\<lparr>rs_consumed := (rs_consumed st)[s := True]\<rparr>"] by (simp add: place_child_def)
      qed (use pat None x ex fields match in \<open>auto simp: place_child_def\<close>)
      moreover have "rs_next st \<le> rs_next ?st" using pat(1) x(2) by (simp add: place_child_def)
      ultimately show ?thesis
        by (intro continue) (simp_all add: pick Some fields ex kd p None Let_def swap_source_def c x(1))
    qed
  qed
qed


lemma begin_run_inv:
  assumes "distinct (map dom_id (pre @ E @ post))" and "ids_ok_all n (pre @ E @ post)" and "length E = length old"
  shows "run_inv br old E pre post [] [] (begin_run old (map dom_id E) (pre @ E @ post) n)"
  (is "run_inv _ _ _ _ _ _ _ ?st")
proof -
  have u: "unclaimed ?st = [0..<length old]"
    using assms(3) by (simp add: unclaimed_def begin_run_def filter_id_conv)
  have "map ((!) E) [0..<length old] = E" using assms(3) map_nth [of E] by simp
  with u have kids: "rs_kids ?st = pre @ [] @ map ((!) E) (unclaimed ?st) @ post" by (simp add: begin_run_def)
  have "sources_inv old [] ?st"
    unfolding sources_inv_def u using assms(3) keyed_sources_in_order [of old] by (simp add: begin_run_def)
  moreover have "keeps_matches br old E [] (rs_placed ?st)" by (simp add: keeps_matches_def)
  ultimately show ?thesis
    unfolding run_inv_def using kids assms u by (simp add: begin_run_def)
qed

lemma end_run_filter: "end_run st = filter (\<lambda>d. \<forall>(node, used) \<in> set (zip (rs_existing st) (rs_consumed st)). used \<or> dom_id d \<noteq> node) (rs_kids st)"
proof -
  have "fold (\<lambda>(node, used) ks. if used then ks else remove_child node ks) zs ks =
      filter (\<lambda>d. \<forall>(node, used) \<in> set zs. used \<or> dom_id d \<noteq> node) ks" for zs ks
  proof (induction zs arbitrary: ks)
    case (Cons z zs)
    obtain node used where z: "z = (node, used)" by fastforce
    show ?case unfolding z fold_simps by (cases used) (simp_all add: Cons.IH remove_child_def conj_commute)
  qed simp
  then show ?thesis by (simp add: end_run_def)
qed

lemma end_run_inv:
  assumes "run_inv br old E pre post past P st"
  shows "end_run st = pre @ P @ post"
proof -
  have kids: "rs_kids st = pre @ P @ map ((!) E) (unclaimed st) @ post" and dist: "distinct (map dom_id (rs_kids st))"
    and ex: "\<forall>i \<in> set (unclaimed st). rs_existing st ! i = dom_id (E ! i)" "length (rs_existing st) = length (rs_consumed st)"
    using assms unfolding run_inv_def sources_inv_def by (blast, blast, blast, metis)
  define gone where "gone d \<longleftrightarrow> (\<exists>i \<in> set (unclaimed st). dom_id d = dom_id (E ! i))" for d
  have z: "(\<forall>(node, used) \<in> set (zip (rs_existing st) (rs_consumed st)). used \<or> dom_id d \<noteq> node) \<longleftrightarrow>
      (\<forall>i < length (rs_consumed st). rs_consumed st ! i \<or> dom_id d \<noteq> rs_existing st ! i)" for d
    using ex(2) by (auto simp: set_zip)
  have g: "(\<forall>(node, used) \<in> set (zip (rs_existing st) (rs_consumed st)). used \<or> dom_id d \<noteq> node) \<longleftrightarrow> \<not> gone d" for d
    unfolding z gone_def using ex(1) unclaimed_set [of _ st] by metis
  have keep: "filter (\<lambda>d. \<not> gone d) ds = ds" if "dom_id ` set ds \<inter> (\<lambda>i. dom_id (E ! i)) ` set (unclaimed st) = {}" for ds
    using that by (auto simp: filter_id_conv gone_def)
  have "filter (\<lambda>d. \<not> gone d) (map ((!) E) (unclaimed st)) = []" by (auto simp: filter_empty_conv gone_def)
  moreover have "filter (\<lambda>d. \<not> gone d) pre = pre" "filter (\<lambda>d. \<not> gone d) P = P" "filter (\<lambda>d. \<not> gone d) post = post"
    by (rule keep, use dist in \<open>auto simp: kids image_image\<close>)+
  ultimately show ?thesis unfolding end_run_filter g kids by simp
qed

lemma run_reconciled:
  assumes E: "list_all2 (mirrors br) E old" and names: "\<forall>v \<in> set old. names_distinct br v"
    and dist: "distinct (map dom_id (pre @ E @ post))" "ids_ok_all n (pre @ E @ post)"
    and anchor: "E = [] \<Longrightarrow> (anchor = first_child post \<and> post \<noteq> []) \<or> (anchor = None \<and> pre = [] \<and> post = [])"
    and news: "\<forall>new \<in> set news. patches br new \<and> flatten new = [new]"
  shows "\<exists>st P. reconcile_loop br old (run_start_of (map dom_id E) anchor) 0 news (begin_run old (map dom_id E) (pre @ E @ post) n) = Some st \<and>
    end_run st = pre @ P @ post \<and> map dom_id P = rs_placed st \<and> list_all2 (mirrors br) P news \<and> n \<le> rs_next st \<and>
    distinct (map dom_id (pre @ P @ post)) \<and> ids_ok_all (rs_next st) (pre @ P @ post) \<and> keeps_matches br old E news (map dom_id P)"
proof -
  note len = list_all2_lengthD [OF E]
  have start: "E \<noteq> [] \<Longrightarrow> run_start_of (map dom_id E) anchor = Some (dom_id (hd E))"
    "E = [] \<Longrightarrow> (run_start_of (map dom_id E) anchor = first_child post \<and> post \<noteq> []) \<or> (run_start_of (map dom_id E) anchor = None \<and> pre = [] \<and> post = [])"
    using anchor by (cases E; simp add: run_start_of_def)+
  obtain st P where l: "reconcile_loop br old (run_start_of (map dom_id E) anchor) (length ([] :: vnode list)) news
      (begin_run old (map dom_id E) (pre @ E @ post) n) = Some st" "run_inv br old E pre post ([] @ news) P st"
      "rs_next (begin_run old (map dom_id E) (pre @ E @ post) n) \<le> rs_next st"
    using loop_keeps_inv [OF E names start begin_run_inv [OF dist len] news] by blast
  have inv: "run_inv br old E pre post news P st" and n: "n \<le> rs_next st" using l(2,3) by (simp_all add: begin_run_def)
  have r: "map dom_id P = rs_placed st" "list_all2 (mirrors br) P news" "keeps_matches br old E news (rs_placed st)"
    "rs_kids st = pre @ P @ map ((!) E) (unclaimed st) @ post" "distinct (map dom_id (rs_kids st))" "ids_ok_all (rs_next st) (rs_kids st)"
    using inv unfolding run_inv_def by blast+
  have "distinct (map dom_id (pre @ P @ post))" "ids_ok_all (rs_next st) (pre @ P @ post)"
    using r(5,6) unfolding r(4) by (auto simp: ids_ok_all_iff)
  then show ?thesis using l(1) end_run_inv [OF inv] r(1-3) n by (intro exI [of _ st] exI [of _ P]) simp
qed


lemma patch_element:
  assumes "tag = tag'" and "mirrors br (DElement i tag as es ks) (VElement tag attrs events children)"
    and "names_distinct br (VElement tag attrs events children)" and "names_distinct br (VElement tag' attrs' events' children')"
    and "ids_ok n (DElement i tag as es ks)" and "\<And>v. v \<in> set (flatten_children children') \<Longrightarrow> patches br v"
  shows "\<exists>d n'. patch_dom br n (DElement i tag as es ks) (VElement tag attrs events children) (VElement tag' attrs' events' children') = (Some d, n') \<and>
    n \<le> n' \<and> mirrors br d (VElement tag' attrs' events' children') \<and> dom_id d = i \<and> ids_ok n' d"
proof -
  have m: "list_all2 (mirrors br) ks (flatten_children children)" "map_of as = map_of (fresh_attributes br attrs)" "es = events" "br_tag_ok br tag"
    using assms(2) by (simp_all add: mirrors_all_iff)
  have names: "\<forall>v \<in> set (flatten_children children). names_distinct br v" using names_distinct_flatten(2) assms(3) by simp
  have ids: "distinct (map dom_id ([] @ ks @ []))" "ids_ok_all n ([] @ ks @ [])" using assms(5) by simp_all
  have news: "\<forall>v \<in> set (flatten_children children'). patches br v \<and> flatten v = [v]" using assms(6) flatten_flat(2) by blast
  obtain st P where r: "reconcile_loop br (flatten_children children) (run_start_of (map dom_id ks) None) 0 (flatten_children children')
      (begin_run (flatten_children children) (map dom_id ks) ks n) = Some st" "end_run st = P"
    "list_all2 (mirrors br) P (flatten_children children')" "n \<le> rs_next st" "distinct (map dom_id P)" "ids_ok_all (rs_next st) P"
    using run_reconciled [OF m(1) names ids, of None "flatten_children children'"] news by auto
  have "map_of (patch_attributes br attrs attrs' as) = map_of (fresh_attributes br attrs')"
    using assms(3,4) m(2) by (intro patch_attributes_correct) simp_all
  moreover have "length ks = length (flatten_children children)" using m(1) by (rule list_all2_lengthD)
  ultimately show ?thesis
    using r m assms(1,5) by (simp add: patch_dom.simps Let_def mirrors_all_iff)
qed

lemma patches_all: "names_distinct br new \<Longrightarrow> patches br new"
proof (induction "size new" arbitrary: new rule: less_induct)
  case less
  show ?case unfolding patches_def
  proof (intro allI impI)
    fix n real old r n'
    assume a: "mirrors br real old" "ids_ok n real" "names_distinct br old" and p: "patch_dom br n real old new = (r, n')"
    show "n \<le> n' \<and> (case r of Some d \<Rightarrow> patchable br old new \<and> mirrors br d new \<and> dom_id d = dom_id real \<and> ids_ok n' d
        | None \<Rightarrow> \<not> patchable br old new)"
    proof (cases "\<exists>tag attrs events children attrs' events' children' i as es ks. old = VElement tag attrs events children \<and>
        new = VElement tag attrs' events' children' \<and> real = DElement i tag as es ks")
      case True
      then obtain tag attrs events children attrs' events' children' i as es ks
        where e: "old = VElement tag attrs events children" "new = VElement tag attrs' events' children'" "real = DElement i tag as es ks"
        by blast
      have "patches br v" if "v \<in> set (flatten_children children')" for v
        using less.hyps [of v] size_flatten_mem [OF that] names_distinct_flatten(2) [OF that, of br] less.prems e(2) by simp
      then obtain d m where "patch_dom br n real old new = (Some d, m)" "n \<le> m" "mirrors br d new" "dom_id d = i" "ids_ok m d"
        using patch_element [OF refl, of br i tag as es ks attrs events children attrs' events' children' n] a less.prems unfolding e by blast
      moreover have "br_tag_ok br tag" using a(1) e by simp
      ultimately show ?thesis using p e by auto
    next
      case False
      show ?thesis
        using a p False by (cases old; cases new; cases real) (auto simp: patch_dom.simps split: if_splits)
    qed
  qed
qed

lemma reconcile_range_correct:
  assumes E: "mirrors_all br E (flatten_children old)" and names: "names_distinct_all br old" "names_distinct_all br new"
    and dist: "distinct (map dom_id (pre @ E @ post))" "ids_ok_all n (pre @ E @ post)"
    and anchor: "E = [] \<Longrightarrow> (anchor = first_child post \<and> post \<noteq> []) \<or> (anchor = None \<and> pre = [] \<and> post = [])"
  shows "\<exists>P n'. reconcile_range br (pre @ E @ post) n (map dom_id E) old new anchor = Some (pre @ P @ post, n', map dom_id P) \<and>
    mirrors_all br P (flatten_children new) \<and> n \<le> n' \<and> distinct (map dom_id (pre @ P @ post)) \<and> ids_ok_all n' (pre @ P @ post) \<and>
    keeps_matches br (flatten_children old) E (flatten_children new) (map dom_id P)"
proof -
  have E': "list_all2 (mirrors br) E (flatten_children old)" using E by (simp add: mirrors_all_iff)
  have "\<forall>v \<in> set (flatten_children new). patches br v \<and> flatten v = [v]"
    using patches_all names_distinct_flatten(2) names(2) flatten_flat(2) by blast
  then obtain st P where r: "reconcile_loop br (flatten_children old) (run_start_of (map dom_id E) anchor) 0 (flatten_children new)
      (begin_run (flatten_children old) (map dom_id E) (pre @ E @ post) n) = Some st" "end_run st = pre @ P @ post"
    "map dom_id P = rs_placed st" "list_all2 (mirrors br) P (flatten_children new)" "n \<le> rs_next st"
    "distinct (map dom_id (pre @ P @ post))" "ids_ok_all (rs_next st) (pre @ P @ post)"
    "keeps_matches br (flatten_children old) E (flatten_children new) (map dom_id P)"
    using run_reconciled [OF E' _ dist anchor, of "flatten_children new"] names_distinct_flatten(2) names(1) by blast
  then show ?thesis
    using list_all2_lengthD [OF E'] by (intro exI [of _ P] exI [of _ "rs_next st"]) (simp add: reconcile_range_def mirrors_all_iff)
qed


subsection \<open>A sample list\<close>

definition sample_browser :: browser where
  "sample_browser = \<lparr>br_tag_ok = \<lambda>_. True, br_name_ok = \<lambda>_. True, br_fold = ascii_lower\<rparr>"

definition sample_row :: "string \<Rightarrow> string \<Rightarrow> vnode" where
  "sample_row key txt = VElement ''li'' [(HYDRATION_NODE_ID_ATTR, key)] [] [VText txt]"

definition sample_rows :: "dom list" where
  "sample_rows =
     [DElement 1 ''li'' [(HYDRATION_NODE_ID_ATTR, ''a'')] [] [DText 2 ''A''],
      DElement 3 ''li'' [(HYDRATION_NODE_ID_ATTR, ''b'')] [] [DText 4 ''B'']]"

definition sample_old :: "vnode list" where
  "sample_old = [VFragment [sample_row ''a'' ''A'', sample_row ''b'' ''B'']]"

definition sample_new :: "vnode list" where
  "sample_new = [VFragment [sample_row ''c'' ''C'', sample_row ''b'' ''B!'']]"

lemma sample_run:
  "mirrors_all sample_browser sample_rows (flatten_children sample_old)" "names_distinct_all sample_browser sample_old"
  "names_distinct_all sample_browser sample_new" "distinct (map dom_id ([DText 0 ''x''] @ sample_rows @ [DComment 5 ''y'']))"
  "ids_ok_all 6 ([DText 0 ''x''] @ sample_rows @ [DComment 5 ''y''])" "sample_rows \<noteq> []"
  by (simp_all add: sample_browser_def sample_rows_def sample_old_def sample_new_def sample_row_def fresh_attributes_def
      set_attribute_def HYDRATION_NODE_ID_ATTR_def ascii_lower_def)

subsection \<open>Reconciling a run\<close>

text \<open>
  C20: patching shows the new render, and nothing else changes. When the run between two pieces of an element
  mirrors the old children, reconciling it succeeds, and the run then mirrors the new children (tags,
  attributes, listeners, texts and nested children), exactly as if it had been built afresh; the siblings before
  and after it are untouched, and the run that is reported is the run that is there.
\<close>

theorem reconciled_run_shows_the_new_render:
  assumes "mirrors_all br E (flatten_children old)" and "names_distinct_all br old" and "names_distinct_all br new"
    and "distinct (map dom_id (pre @ E @ post))" and "ids_ok_all n (pre @ E @ post)"
    and "E = [] \<Longrightarrow> (anchor = first_child post \<and> post \<noteq> []) \<or> (anchor = None \<and> pre = [] \<and> post = [])"
  shows "\<exists>P n'. reconcile_range br (pre @ E @ post) n (map dom_id E) old new anchor = Some (pre @ P @ post, n', map dom_id P) \<and>
    mirrors_all br P (flatten_children new) \<and> distinct (map dom_id (pre @ P @ post)) \<and> ids_ok_all n' (pre @ P @ post)"
  using reconcile_range_correct [OF assms] by blast

lemma reconciled_run_shows_the_new_render_witness:
  "\<exists>P n'. reconcile_range sample_browser ([DText 0 ''x''] @ sample_rows @ [DComment 5 ''y'']) 6 (map dom_id sample_rows) sample_old sample_new
       (Some 5) = Some ([DText 0 ''x''] @ P @ [DComment 5 ''y''], n', map dom_id P) \<and>
     mirrors_all sample_browser P (flatten_children sample_new)"
  using reconciled_run_shows_the_new_render [OF sample_run(1-5), of "Some 5"] sample_run(6) by blast

text \<open>
  C21: nodes keep their identity. The first new child with a key keeps the node of the first old child with that
  key, wherever either stands, and an unkeyed child keeps the node of an unkeyed one at its position, whenever
  the two can be patched into each other (same element tag, or both texts, or both comments).
\<close>

theorem matched_nodes_keep_their_identity:
  assumes "mirrors_all br E (flatten_children old)" and "names_distinct_all br old" and "names_distinct_all br new"
    and "distinct (map dom_id (pre @ E @ post))" and "ids_ok_all n (pre @ E @ post)"
    and "E = [] \<Longrightarrow> (anchor = first_child post \<and> post \<noteq> []) \<or> (anchor = None \<and> pre = [] \<and> post = [])"
    and r: "reconcile_range br (pre @ E @ post) n (map dom_id E) old new anchor = Some (ks', n', placed)"
    and i: "i < length (flatten_children new)" and j: "j < length (flatten_children old)"
    and match: "(\<exists>k. reconcile_key (flatten_children new ! i) = Some k \<and> (\<forall>i' < i. reconcile_key (flatten_children new ! i') \<noteq> Some k) \<and>
             reconcile_key (flatten_children old ! j) = Some k \<and> (\<forall>j' < j. reconcile_key (flatten_children old ! j') \<noteq> Some k)) \<or>
           (i = j \<and> reconcile_key (flatten_children new ! i) = None \<and> reconcile_key (flatten_children old ! j) = None)"
    and "patchable br (flatten_children old ! j) (flatten_children new ! i)"
  shows "placed ! i = dom_id (E ! j)"
proof -
  have "keeps_matches br (flatten_children old) E (flatten_children new) placed"
    using reconcile_range_correct [OF assms(1-6)] r by auto
  moreover have "first_match (flatten_children old) (flatten_children new) i = Some j"
    using match
  proof (elim disjE exE conjE)
    fix k
    assume k: "reconcile_key (flatten_children new ! i) = Some k" "\<forall>i' < i. reconcile_key (flatten_children new ! i') \<noteq> Some k"
      "reconcile_key (flatten_children old ! j) = Some k" "\<forall>j' < j. reconcile_key (flatten_children old ! j') \<noteq> Some k"
    have "Some k \<notin> reconcile_key ` set (take i (flatten_children new))"
    proof
      assume "Some k \<in> reconcile_key ` set (take i (flatten_children new))"
      then obtain i' where "i' < i" "reconcile_key (flatten_children new ! i') = Some k" using i by (auto simp: in_set_conv_nth)
      with k(2) show False by blast
    qed
    moreover have "[0..<length (flatten_children old)] = [0..<j] @ j # [Suc j..<length (flatten_children old)]"
      using j by (metis less_imp_le upt_add_eq_append upt_conv_Cons zero_le le_add_diff_inverse)
    then have "keyed_with (flatten_children old) k [0..<length (flatten_children old)] =
        j # keyed_with (flatten_children old) k [Suc j..<length (flatten_children old)]"
      using k(3,4) by (simp add: keyed_with_def filter_empty_conv)
    ultimately show ?thesis using k(1) by (simp add: first_match_def)
  next
    assume "i = j" "reconcile_key (flatten_children new ! i) = None" "reconcile_key (flatten_children old ! j) = None"
    then show ?thesis using j by (simp add: first_match_def)
  qed
  ultimately show ?thesis using i assms(11) unfolding keeps_matches_def by blast
qed


lemma matched_nodes_keep_their_identity_witness:
  "map_option (\<lambda>(ks, n, placed). placed ! 1)
     (reconcile_range sample_browser ([DText 0 ''x''] @ sample_rows @ [DComment 5 ''y'']) 6 (map dom_id sample_rows) sample_old sample_new (Some 5)) =
   Some 3"
proof -
  obtain P n' where r: "reconcile_range sample_browser ([DText 0 ''x''] @ sample_rows @ [DComment 5 ''y'']) 6 (map dom_id sample_rows)
      sample_old sample_new (Some 5) = Some ([DText 0 ''x''] @ P @ [DComment 5 ''y''], n', map dom_id P)"
    using reconcile_range_correct [OF sample_run(1-5), of "Some 5"] sample_run(6) by blast
  have "map dom_id P ! 1 = dom_id (sample_rows ! 1)"
    by (rule matched_nodes_keep_their_identity [OF sample_run(1-5) _ r])
       (use sample_run(6) in \<open>simp_all add: sample_old_def sample_new_def sample_row_def HYDRATION_NODE_ID_ATTR_def sample_browser_def\<close>)
  with r show ?thesis by (simp add: sample_rows_def)
qed

subsection \<open>Regions over time\<close>

text \<open>
  A region in its element: its run \<open>E\<close> between \<open>pre\<close> and \<open>post\<close> shows its current render, if it has one, and is
  followed by its anchor, or by the place where the anchor will go.
\<close>

definition region_inv :: "browser \<Rightarrow> region \<Rightarrow> dom list \<Rightarrow> dom list \<Rightarrow> dom list \<Rightarrow> dom list \<Rightarrow> nat \<Rightarrow> bool" where
  "region_inv br rg pre E post ks n =
     (ks = pre @ E @ post \<and> distinct (map dom_id ks) \<and> ids_ok_all n ks \<and> rg_rendered rg = map dom_id E \<and>
      (case rg_current rg of Some v \<Rightarrow> mirrors_all br E (flatten v) \<and> names_distinct br v | None \<Rightarrow> True) \<and>
      (case rg_anchor rg of
         Some a \<Rightarrow> first_child post = Some a
       | None \<Rightarrow> E \<noteq> [] \<or> rg_empty_position rg = Some (first_child post)))"

lemma anchored:
  assumes "region_inv br rg pre E post ks n"
  shows "\<exists>a post' n1. region_anchor rg ks n = Some (a, pre @ E @ post', n1) \<and> first_child post' = Some a \<and>
    (post' = post \<or> post' = DComment a ''krab-dynamic'' # post) \<and>
    region_inv br (rg\<lparr>rg_anchor := Some a\<rparr>) pre E post' (pre @ E @ post') n1 \<and> n \<le> n1"
proof (cases "rg_anchor rg")
  case (Some a)
  then show ?thesis
    using assms by (rule_tac x = a in exI, rule_tac x = post in exI, rule_tac x = n in exI) (simp add: region_anchor_def region_inv_def)
next
  case None
  let ?c = "DComment n ''krab-dynamic''"
  have inv: "ks = pre @ E @ post" "distinct (map dom_id ks)" "ids_ok_all n ks" "rg_rendered rg = map dom_id E"
    and place: "E \<noteq> [] \<or> rg_empty_position rg = Some (first_child post)"
    using assms None unfolding region_inv_def by (blast, blast, blast, blast, simp)
  have fresh: "dom_id ?c \<notin> dom_id ` set ks"
  proof
    assume "dom_id ?c \<in> dom_id ` set ks"
    then obtain d where "d \<in> set ks" "dom_id d = n" by auto
    then show False using inv(3) ids_ok_less [of n d] by (simp add: ids_ok_all_iff)
  qed
  have ins: "insert_before ?c (first_child post) ks = (pre @ E) @ ?c # post"
    using inv(1,2) remove_child_absent [OF fresh] by (intro insert_at) simp_all
  have "anchor_insert rg ?c ks = Some (pre @ E @ ?c # post)"
  proof (cases "E = []")
    case True
    then have "rg_rendered rg = []" "rg_empty_position rg = Some (first_child post)" using inv(4) place by simp_all
    moreover have "(case first_child post of Some i \<Rightarrow> if i \<in> dom_id ` set ks then Some i else None | None \<Rightarrow> None) = first_child post"
      using inv(1) by (cases post) (simp_all add: first_child_def)
    ultimately show ?thesis using ins True by (simp add: anchor_insert_def)
  next
    case False
    then have "last (rg_rendered rg) = dom_id (last E)" "rg_rendered rg \<noteq> []" using inv(4) by (simp_all add: last_map)
    moreover have "dom_id (last E) \<in> dom_id ` set ks" using inv(1) False by simp
    moreover have "next_sibling ks (dom_id (last E)) = first_child post"
      using next_sibling_append [OF False, of pre post] inv(1,2) by simp
    ultimately show ?thesis using ins by (simp add: anchor_insert_def)
  qed
  then have "region_anchor rg ks n = Some (n, pre @ E @ ?c # post, Suc n)" using None by (simp add: region_anchor_def)
  moreover have "region_inv br (rg\<lparr>rg_anchor := Some n\<rparr>) pre E (?c # post) (pre @ E @ ?c # post) (Suc n)"
    using assms fresh inv ids_ok_mono(2) [OF inv(3), of "Suc n"]
    by (auto simp: region_inv_def first_child_def image_Un ids_ok_all_iff)
  ultimately show ?thesis by (intro exI [of _ n] exI [of _ "?c # post"] exI [of _ "Suc n"]) (simp add: first_child_def)
qed

lemma flatten_idem: "flatten_children (flatten v) = flatten v" "flatten_children (flatten_children vs) = flatten_children vs"
proof -
  have "flatten_children ws = ws" if "\<forall>w \<in> set ws. flatten w = [w]" for ws
    using that by (induction ws) auto
  then show "flatten_children (flatten v) = flatten v" "flatten_children (flatten_children vs) = flatten_children vs"
    using flatten_flat by blast+
qed

lemma rebuilt:
  assumes "region_inv br rg pre E post ks n" and "first_child post = Some a"
  shows "\<exists>P n'. rebuild_run br a (rg_rendered rg) new ks n = (pre @ P @ post, n', map dom_id P) \<and> mirrors_all br P (flatten new) \<and>
    n \<le> n' \<and> distinct (map dom_id (pre @ P @ post)) \<and> ids_ok_all n' (pre @ P @ post)"
proof -
  have inv: "ks = pre @ E @ post" "distinct (map dom_id ks)" "ids_ok_all n ks" "rg_rendered rg = map dom_id E"
    using assms(1) unfolding region_inv_def by blast+
  obtain c post' where post: "post = c # post'" "dom_id c = a" using assms(2) by (cases post) (auto simp: first_child_def)
  have remove: "fold remove_child is ds = filter (\<lambda>d. dom_id d \<notin> set is) ds" for "is" ds
    by (induction "is" arbitrary: ds) (auto simp: remove_child_def intro!: filter_cong)
  have keep: "filter (\<lambda>d. dom_id d \<notin> set (map dom_id E)) ds = ds" if "dom_id ` set ds \<inter> dom_id ` set E = {}" for ds
    using that by (auto simp: filter_id_conv)
  have gone: "fold remove_child (rg_rendered rg) ks = pre @ post"
  proof -
    have "filter (\<lambda>d. dom_id d \<notin> set (map dom_id E)) E = []" by (simp add: filter_empty_conv)
    moreover have "filter (\<lambda>d. dom_id d \<notin> set (map dom_id E)) pre = pre" "filter (\<lambda>d. dom_id d \<notin> set (map dom_id E)) post = post"
      by (rule keep, use inv(2) in \<open>simp add: inv(1) image_Un Int_Un_distrib Int_commute\<close>)+
    ultimately show ?thesis unfolding remove inv(4) inv(1) filter_append by simp
  qed
  obtain ds n' where c: "create_all br n (flatten new) = (ds, n')" by fastforce
  note fresh = create_fresh(2) [OF c]
  have lt: "\<forall>d \<in> set (pre @ post). dom_id d < n" using inv(1,3) ids_ok_less by (auto simp: ids_ok_all_iff)
  have insert: "fold (\<lambda>d. insert_before d (Some a)) es (L @ c # post') = L @ es @ c # post'"
    if "distinct (map dom_id (L @ es @ c # post'))" for L es
    using that
  proof (induction es arbitrary: L)
    case (Cons e es)
    have "insert_before e (first_child (c # post')) (L @ c # post') = L @ e # c # post'"
      using Cons.prems by (intro insert_at remove_child_absent) (auto simp: image_Un)
    then have "insert_before e (Some a) (L @ c # post') = (L @ [e]) @ c # post'" using post(2) by (simp add: first_child_def)
    then show ?case using Cons.IH [of "L @ [e]"] Cons.prems by simp
  qed simp
  have ord: "distinct (map dom_id (pre @ ds @ post))"
  proof -
    have "dom_id ` set ds \<inter> dom_id ` set (pre @ post) = {}"
    proof (rule ccontr)
      assume "dom_id ` set ds \<inter> dom_id ` set (pre @ post) \<noteq> {}"
      then obtain i where i: "i \<in> dom_id ` set ds" "i \<in> dom_id ` set (pre @ post)" by blast
      obtain d where d: "d \<in> set ds" "i = dom_id d" using i(1) by (rule imageE)
      obtain e where e: "e \<in> set (pre @ post)" "i = dom_id e" using i(2) by (rule imageE)
      from fresh d(1) have "n \<le> dom_id d" by blast
      moreover from lt e(1) have "dom_id e < n" by blast
      ultimately show False using d(2) e(2) by simp
    qed
    moreover have "distinct (map dom_id ds)" using fresh by blast
    ultimately show ?thesis using inv(2) unfolding inv(1) by (simp add: image_Un Int_Un_distrib Int_commute)
  qed
  have "rebuild_run br a (rg_rendered rg) new ks n = (pre @ ds @ post, n', map dom_id ds)"
    using insert [of pre ds] ord c gone by (simp add: rebuild_run_def create_run_nodes_def Let_def post(1))
  moreover have "ids_ok_all n' (pre @ ds @ post)" using fresh ids_ok_mono(2) [OF inv(3), of n'] inv(1) by (auto simp: ids_ok_all_iff)
  ultimately show ?thesis using fresh ord by (auto simp: flatten_idem)
qed


text \<open>
  C22: a region always shows its latest render. Whatever state it is in (freshly hydrated and still without an
  anchor, empty, or never patched so that its run is rebuilt), an update puts the run of the new render in
  place of the old run, keeps every sibling outside of the region, and leaves the region ready for the next
  update: the run tracked is the run in the document, and the anchor follows it.
\<close>

theorem region_shows_its_latest_render:
  assumes "region_inv br rg pre E post ks n" and "names_distinct br new"
  shows "\<exists>rg' P post' ks' n'. update_dynamic_region br rg new ks n = (rg', ks', n') \<and> region_inv br rg' pre P post' ks' n' \<and>
    rg_current rg' = Some new \<and> mirrors_all br P (flatten new) \<and>
    (post' = post \<or> (rg_anchor rg = None \<and> (\<exists>a. post' = DComment a ''krab-dynamic'' # post)))"
proof -
  obtain a post1 n1 where a: "region_anchor rg ks n = Some (a, pre @ E @ post1, n1)" "first_child post1 = Some a"
    "post1 = post \<or> post1 = DComment a ''krab-dynamic'' # post"
    "region_inv br (rg\<lparr>rg_anchor := Some a\<rparr>) pre E post1 (pre @ E @ post1) n1"
    using anchored [OF assms(1)] by blast
  let ?old = "case rg_current rg of Some v \<Rightarrow> [v] | None \<Rightarrow> []" and ?ks = "pre @ E @ post1"
  have inv: "distinct (map dom_id ?ks)" "ids_ok_all n1 ?ks" "rg_rendered rg = map dom_id E"
    "case rg_current rg of Some v \<Rightarrow> mirrors_all br E (flatten v) \<and> names_distinct br v | None \<Rightarrow> True"
    using a(4) unfolding region_inv_def by simp_all
  have attached: "a \<in> dom_id ` set ?ks" and post1: "post1 \<noteq> []" using a(2) by (auto simp: first_child_def split: list.splits)
  have "\<exists>P n2. (case reconcile_range br ?ks n1 (rg_rendered rg) ?old [new] (Some a) of
        Some r \<Rightarrow> r | None \<Rightarrow> rebuild_run br a (rg_rendered rg) new ?ks n1) = (pre @ P @ post1, n2, map dom_id P) \<and>
      mirrors_all br P (flatten new) \<and> distinct (map dom_id (pre @ P @ post1)) \<and> ids_ok_all n2 (pre @ P @ post1)"
  proof (cases "rg_current rg = None \<and> E \<noteq> []")
    case True
    then have "reconcile_range br ?ks n1 (rg_rendered rg) ?old [new] (Some a) = None" using inv(3) by (simp add: reconcile_range_def)
    with rebuilt [OF a(4,2), of new] inv(3) show ?thesis by auto
  next
    case False
    then have m: "mirrors_all br E (flatten_children ?old)" "names_distinct_all br ?old"
      using inv(4) by (auto split: option.splits)
    have n: "names_distinct_all br [new]" using assms(2) by simp
    obtain P n2 where "reconcile_range br ?ks n1 (map dom_id E) ?old [new] (Some a) = Some (pre @ P @ post1, n2, map dom_id P)"
      "mirrors_all br P (flatten_children [new])" "distinct (map dom_id (pre @ P @ post1))" "ids_ok_all n2 (pre @ P @ post1)"
      using reconcile_range_correct [OF m n inv(1,2), of "Some a"] a(2) post1 by auto
    then show ?thesis using inv(3) by auto
  qed
  then obtain P n2 where P: "(case reconcile_range br ?ks n1 (rg_rendered rg) ?old [new] (Some a) of
        Some r \<Rightarrow> r | None \<Rightarrow> rebuild_run br a (rg_rendered rg) new ?ks n1) = (pre @ P @ post1, n2, map dom_id P)"
    "mirrors_all br P (flatten new)" "distinct (map dom_id (pre @ P @ post1))" "ids_ok_all n2 (pre @ P @ post1)"
    by blast
  let ?rg = "rg\<lparr>rg_rendered := map dom_id P, rg_current := Some new, rg_anchor := Some a\<rparr>"
  have "update_dynamic_region br rg new ks n = (?rg, pre @ P @ post1, n2)"
    unfolding update_dynamic_region_def a(1) using attached P(1) by (simp add: Let_def)
  moreover have "region_inv br ?rg pre P post1 (pre @ P @ post1) n2"
    unfolding region_inv_def using P(2-4) a(2) assms(2) by simp
  moreover have "post1 = post \<or> (rg_anchor rg = None \<and> (\<exists>a. post1 = DComment a ''krab-dynamic'' # post))"
    using a(1,3) assms(1) by (cases "rg_anchor rg") (auto simp: region_anchor_def region_inv_def)
  ultimately show ?thesis using P(2) by (intro exI [of _ ?rg] exI [of _ P] exI [of _ post1] exI [of _ "pre @ P @ post1"] exI [of _ n2]) simp
qed

definition sample_region :: region where
  "sample_region = \<lparr>rg_rendered = [1, 3], rg_current = Some (VFragment [sample_row ''a'' ''A'', sample_row ''b'' ''B'']),
     rg_anchor = None, rg_empty_position = None\<rparr>"

lemma region_shows_its_latest_render_witness:
  "\<exists>rg' P post' n'. update_dynamic_region sample_browser sample_region (VText ''none'') ([DText 0 ''x''] @ sample_rows @ [DComment 5 ''y'']) 6 =
     (rg', [DText 0 ''x''] @ P @ post', n') \<and> mirrors_all sample_browser P [VText ''none'']"
proof -
  have "region_inv sample_browser sample_region [DText 0 ''x''] sample_rows [DComment 5 ''y''] ([DText 0 ''x''] @ sample_rows @ [DComment 5 ''y'']) 6"
    using sample_run unfolding region_inv_def by (simp add: sample_region_def sample_old_def) (simp add: sample_rows_def)
  from region_shows_its_latest_render [OF this, of "VText ''none''"]
  obtain rg' P post' ks' n' where "update_dynamic_region sample_browser sample_region (VText ''none'')
      ([DText 0 ''x''] @ sample_rows @ [DComment 5 ''y'']) 6 = (rg', ks', n')"
    "region_inv sample_browser rg' [DText 0 ''x''] P post' ks' n'" "mirrors_all sample_browser P [VText ''none'']"
    by auto
  then show ?thesis unfolding region_inv_def by blast
qed

subsection \<open>Two limits\<close>

text \<open>
  Nodes that nobody claims are removed only at the end, and until then they stand in the way: with the first
  row gone, the second is moved in front of it, and so on through the list.
\<close>

lemma dropping_the_first_row_moves_the_second:
  "map_option (\<lambda>st. map dom_id (rs_kids st))
     (reconcile_loop sample_browser [sample_row ''a'' ''A'', sample_row ''b'' ''B''] (Some 1) 0 [sample_row ''b'' ''B'']
       (begin_run [sample_row ''a'' ''A'', sample_row ''b'' ''B''] [1, 3] sample_rows 5)) = Some [3, 1]"
  by code_simp

text \<open>With one attribute name twice, patching leaves the first value where a fresh build has the last.\<close>

lemma repeated_attributes_differ:
  "patch_attributes sample_browser [(''c'', ''2'')] [(''c'', ''1''), (''c'', ''2'')] [(''c'', ''2'')] = [(''c'', ''1'')] \<and>
   fresh_attributes sample_browser [(''c'', ''1''), (''c'', ''2'')] = [(''c'', ''2'')]"
  by code_simp

end
