(* ===== verification/Migrations.thy ===== *)
theory Migrations
  imports KrabPrelude
begin

text \<open>
  Versioned schema migrations: \<open>krab_core/src/db/postgres.rs\<close>. The database is a schema and the table
  \<open>krab_migrations\<close>; what an SQL text does to the schema and the two hash functions are parameters, and so
  is the network: every statement may be answered, may fail, or may take effect with its answer lost. The
  advisory lock makes runs and rollbacks exclude each other, so they appear here one after the other.
\<close>

subsection \<open>Migrations and their ledger\<close>

record migration =
  mg_version :: int
  mg_name :: string
  mg_sql :: string
  mg_rollback_sql :: "string option"
  mg_critical :: bool
  mg_destructive :: bool

record migration_record =
  mr_version :: int
  mr_name :: string
  mr_checksum :: string

datatype failure_policy = Halt | ContinueNonCritical

definition migration_failure_policy_from_env :: "environment \<Rightarrow> failure_policy" where
  "migration_failure_policy_from_env env =
     (case env ''DB_MIGRATION_FAILURE_POLICY'' of
        Some v \<Rightarrow> if eq_ignore_ascii_case v ''continue_non_critical'' then ContinueNonCritical else Halt
      | None \<Rightarrow> Halt)"

record migration_report =
  rp_applied_versions :: "int list"
  rp_skipped_versions :: "int list"

record drift_report =
  dr_missing_versions :: "int list"
  dr_unexpected_versions :: "int list"
  dr_checksum_mismatches :: "int list"

datatype db_error =
    DbUnavailable
  | NoLedger
  | DestructiveWithoutRollback int
  | ChecksumMismatch int string string
  | MigrationFailed int
  | RollbackSqlMissing int
  | RollbackFailed int
  | DriftMissing "int list"
  | DriftMismatch "int list"
  | DriftUnexpected nat nat

subsection \<open>The database\<close>

record 'd sql_engine =
  sq_exec :: "string \<Rightarrow> 'd \<Rightarrow> 'd option"
  sq_sha256 :: "string \<Rightarrow> string"
  sq_default_hasher :: "string \<Rightarrow> string"

text \<open>The table does not exist until the first run creates it; \<open>db_step\<close> counts the statements sent.\<close>

record 'd database =
  db_schema :: 'd
  db_ledger :: "migration_record list option"
  db_step :: nat

datatype reply = Answered | AnswerLost | NotDone

type_synonym network = "nat \<Rightarrow> reply"

definition rows :: "'d database \<Rightarrow> migration_record list" where
  "rows db = (case db_ledger db of Some l \<Rightarrow> l | None \<Rightarrow> [])"

text \<open>A statement of its own: whether it was answered, and the database after it.\<close>

definition statement :: "network \<Rightarrow> ('d database \<Rightarrow> 'd database) \<Rightarrow> 'd database \<Rightarrow> bool \<times> 'd database" where
  "statement net f db =
     (let db' = db\<lparr>db_step := Suc (db_step db)\<rparr>
      in case net (db_step db) of
           Answered \<Rightarrow> (True, f db')
         | AnswerLost \<Rightarrow> (False, f db')
         | NotDone \<Rightarrow> (False, db'))"

definition select_version :: "network \<Rightarrow> int \<Rightarrow> 'd database \<Rightarrow> (db_error + migration_record option) \<times> 'd database" where
  "select_version net v db =
     (case statement net (\<lambda>db. db) db of
        (False, db') \<Rightarrow> (Inl DbUnavailable, db')
      | (True, db') \<Rightarrow>
          (case db_ledger db' of
             None \<Rightarrow> (Inl NoLedger, db')
           | Some l \<Rightarrow> (Inr (find (\<lambda>r. mr_version r = v) l), db')))"

definition checksum :: "'d sql_engine \<Rightarrow> string \<Rightarrow> string" where
  "checksum e sql = sq_sha256 e sql"

definition legacy_checksum :: "'d sql_engine \<Rightarrow> string \<Rightarrow> string" where
  "legacy_checksum e sql = sq_default_hasher e sql"

datatype checksum_status = Current | Legacy | Mismatch

definition classify_checksum :: "'d sql_engine \<Rightarrow> string \<Rightarrow> string \<Rightarrow> checksum_status" where
  "classify_checksum e stored sql =
     (if stored = checksum e sql then Current else if stored = legacy_checksum e sql then Legacy else Mismatch)"

definition set_checksum :: "int \<Rightarrow> string \<Rightarrow> migration_record list \<Rightarrow> migration_record list" where
  "set_checksum v c = map (\<lambda>r. if mr_version r = v then r\<lparr>mr_checksum := c\<rparr> else r)"

definition upgrade_legacy_checksum_row ::
  "'d sql_engine \<Rightarrow> network \<Rightarrow> int \<Rightarrow> string \<Rightarrow> 'd database \<Rightarrow> bool \<times> 'd database" where
  "upgrade_legacy_checksum_row e net v sql =
     statement net (\<lambda>db. db\<lparr>db_ledger := map_option (set_checksum v (checksum e sql)) (db_ledger db)\<rparr>)"

text \<open>
  A transaction: \<open>begin\<close>, an SQL text, a change of the ledger, \<open>commit\<close>. It ends early with the state it began
  with; \<open>SqlRefused\<close> is a failure of the SQL text, which the caller may tolerate.
\<close>

datatype tx_result = TxDone | TxSqlRefused | TxBroken

definition transaction ::
  "'d sql_engine \<Rightarrow> network \<Rightarrow> string \<Rightarrow> (migration_record list \<Rightarrow> migration_record list) \<Rightarrow> 'd database \<Rightarrow> tx_result \<times> 'd database" where
  "transaction e net sql change db =
     (let n = db_step db; sent = (\<lambda>k. db\<lparr>db_step := n + k\<rparr>)
      in if net n \<noteq> Answered then (TxBroken, sent 1)
         else (case (net (n + 1), sq_exec e sql (db_schema db)) of
                 (Answered, Some s) \<Rightarrow>
                   if net (n + 2) \<noteq> Answered then (TxBroken, sent 3)
                   else (let after = (sent 4)\<lparr>db_schema := s, db_ledger := map_option change (db_ledger db)\<rparr>
                         in case net (n + 3) of
                              Answered \<Rightarrow> (TxDone, after)
                            | AnswerLost \<Rightarrow> (TxBroken, after)
                            | NotDone \<Rightarrow> (TxBroken, sent 4))
               | _ \<Rightarrow> (TxSqlRefused, sent 2)))"

subsection \<open>Running migrations\<close>

definition record_of :: "'d sql_engine \<Rightarrow> migration \<Rightarrow> migration_record" where
  "record_of e m = \<lparr>mr_version = mg_version m, mr_name = mg_name m, mr_checksum = checksum e (mg_sql m)\<rparr>"

datatype migration_step = Applied | Skipped | Tolerated

definition migrate_one ::
  "'d sql_engine \<Rightarrow> network \<Rightarrow> failure_policy \<Rightarrow> migration \<Rightarrow> 'd database \<Rightarrow> (db_error + migration_step) \<times> 'd database" where
  "migrate_one e net policy m db =
     (if mg_destructive m \<and> mg_rollback_sql m = None then (Inl (DestructiveWithoutRollback (mg_version m)), db)
      else case select_version net (mg_version m) db of
             (Inl err, db1) \<Rightarrow> (Inl err, db1)
           | (Inr (Some r), db1) \<Rightarrow>
               (case classify_checksum e (mr_checksum r) (mg_sql m) of
                  Current \<Rightarrow> (Inr Skipped, db1)
                | Legacy \<Rightarrow>
                    (case upgrade_legacy_checksum_row e net (mg_version m) (mg_sql m) db1 of
                       (True, db2) \<Rightarrow> (Inr Skipped, db2)
                     | (False, db2) \<Rightarrow> (Inl DbUnavailable, db2))
                | Mismatch \<Rightarrow> (Inl (ChecksumMismatch (mg_version m) (checksum e (mg_sql m)) (mr_checksum r)), db1))
           | (Inr None, db1) \<Rightarrow>
               (case transaction e net (mg_sql m) (\<lambda>l. l @ [record_of e m]) db1 of
                  (TxDone, db2) \<Rightarrow> (Inr Applied, db2)
                | (TxBroken, db2) \<Rightarrow> (Inl DbUnavailable, db2)
                | (TxSqlRefused, db2) \<Rightarrow>
                    if policy = ContinueNonCritical \<and> \<not> mg_critical m then (Inr Tolerated, db2)
                    else (Inl (MigrationFailed (mg_version m)), db2)))"

definition note_step :: "int \<Rightarrow> migration_step \<Rightarrow> migration_report \<Rightarrow> migration_report" where
  "note_step v step report =
     (case step of
        Applied \<Rightarrow> report\<lparr>rp_applied_versions := rp_applied_versions report @ [v]\<rparr>
      | Skipped \<Rightarrow> report\<lparr>rp_skipped_versions := rp_skipped_versions report @ [v]\<rparr>
      | Tolerated \<Rightarrow> report)"

fun migrate_all ::
  "'d sql_engine \<Rightarrow> network \<Rightarrow> failure_policy \<Rightarrow> migration list \<Rightarrow> migration_report \<Rightarrow> 'd database \<Rightarrow>
     (db_error + migration_report) \<times> 'd database" where
  "migrate_all e net policy [] report db = (Inr report, db)"
| "migrate_all e net policy (m # ms) report db =
     (case migrate_one e net policy m db of
        (Inl err, db') \<Rightarrow> (Inl err, db')
      | (Inr step, db') \<Rightarrow> migrate_all e net policy ms (note_step (mg_version m) step report) db')"

definition create_ledger :: "'d database \<Rightarrow> 'd database" where
  "create_ledger db = db\<lparr>db_ledger := Some (rows db)\<rparr>"

definition run_versioned_migrations ::
  "'d sql_engine \<Rightarrow> network \<Rightarrow> failure_policy \<Rightarrow> migration list \<Rightarrow> 'd database \<Rightarrow> (db_error + migration_report) \<times> 'd database" where
  "run_versioned_migrations e net policy ms db =
     (case statement net create_ledger db of
        (False, db') \<Rightarrow> (Inl DbUnavailable, db')
      | (True, db') \<Rightarrow> migrate_all e net policy (sort_key mg_version ms) \<lparr>rp_applied_versions = [], rp_skipped_versions = []\<rparr> db')"

subsection \<open>Rolling back\<close>

definition rollback_one ::
  "'d sql_engine \<Rightarrow> network \<Rightarrow> int \<Rightarrow> migration \<Rightarrow> 'd database \<Rightarrow> (db_error + unit) \<times> 'd database" where
  "rollback_one e net target m db =
     (if mg_version m \<le> target then (Inr (), db)
      else case select_version net (mg_version m) db of
             (Inl err, db1) \<Rightarrow> (Inl err, db1)
           | (Inr None, db1) \<Rightarrow> (Inr (), db1)
           | (Inr (Some _), db1) \<Rightarrow>
               (case mg_rollback_sql m of
                  None \<Rightarrow> (Inl (RollbackSqlMissing (mg_version m)), db1)
                | Some sql \<Rightarrow>
                    (case transaction e net sql (filter (\<lambda>r. mr_version r \<noteq> mg_version m)) db1 of
                       (TxDone, db2) \<Rightarrow> (Inr (), db2)
                     | (TxBroken, db2) \<Rightarrow> (Inl DbUnavailable, db2)
                     | (TxSqlRefused, db2) \<Rightarrow> (Inl (RollbackFailed (mg_version m)), db2))))"

fun rollback_all ::
  "'d sql_engine \<Rightarrow> network \<Rightarrow> int \<Rightarrow> migration list \<Rightarrow> 'd database \<Rightarrow> (db_error + unit) \<times> 'd database" where
  "rollback_all e net target [] db = (Inr (), db)"
| "rollback_all e net target (m # ms) db =
     (case rollback_one e net target m db of
        (Inl err, db') \<Rightarrow> (Inl err, db')
      | (Inr _, db') \<Rightarrow> rollback_all e net target ms db')"

definition rollback_to_version ::
  "'d sql_engine \<Rightarrow> network \<Rightarrow> migration list \<Rightarrow> int \<Rightarrow> 'd database \<Rightarrow> (db_error + unit) \<times> 'd database" where
  "rollback_to_version e net ms target db = rollback_all e net target (rev (sort_key mg_version ms)) db"

subsection \<open>Drift\<close>

text \<open>The maps of \<open>detect_migration_drift\<close> are ordered by version; of two migrations with one version the later counts.\<close>

definition expected_sql :: "migration list \<Rightarrow> (int \<times> string) list" where
  "expected_sql ms = map (\<lambda>v. (v, the (map_of (rev (map (\<lambda>m. (mg_version m, mg_sql m)) ms)) v))) (sort (remdups (map mg_version ms)))"

fun compare_all ::
  "'d sql_engine \<Rightarrow> network \<Rightarrow> migration_record list \<Rightarrow> (int \<times> string) list \<Rightarrow> int list \<Rightarrow> 'd database \<Rightarrow> (db_error + int list) \<times> 'd database" where
  "compare_all e net applied [] mismatches db = (Inr mismatches, db)"
| "compare_all e net applied ((v, sql) # rest) mismatches db =
     (case find (\<lambda>r. mr_version r = v) applied of
        None \<Rightarrow> compare_all e net applied rest mismatches db
      | Some r \<Rightarrow>
          (case classify_checksum e (mr_checksum r) sql of
             Current \<Rightarrow> compare_all e net applied rest mismatches db
           | Legacy \<Rightarrow>
               (case upgrade_legacy_checksum_row e net v sql db of
                  (False, db') \<Rightarrow> (Inl DbUnavailable, db')
                | (True, db') \<Rightarrow> compare_all e net applied rest mismatches db')
           | Mismatch \<Rightarrow> compare_all e net applied rest (mismatches @ [v]) db))"

definition detect_migration_drift ::
  "'d sql_engine \<Rightarrow> network \<Rightarrow> migration list \<Rightarrow> 'd database \<Rightarrow> (db_error + drift_report) \<times> 'd database" where
  "detect_migration_drift e net ms db =
     (case statement net (\<lambda>db. db) db of
        (False, db') \<Rightarrow> (Inl DbUnavailable, db')
      | (True, db') \<Rightarrow>
          (case db_ledger db' of
             None \<Rightarrow> (Inl NoLedger, db')
           | Some applied \<Rightarrow>
               let expected = expected_sql ms; found = sort (map mr_version applied);
                   missing = filter (\<lambda>v. v \<notin> set found) (map fst expected);
                   unexpected = filter (\<lambda>v. v \<notin> set (map fst expected)) found
               in (case compare_all e net applied expected [] db' of
                     (Inl err, db'') \<Rightarrow> (Inl err, db'')
                   | (Inr mismatches, db'') \<Rightarrow>
                       (Inr \<lparr>dr_missing_versions = missing, dr_unexpected_versions = unexpected,
                             dr_checksum_mismatches = mismatches\<rparr>, db''))))"

definition enforce_drift_policy :: "drift_report \<Rightarrow> nat \<Rightarrow> db_error + unit" where
  "enforce_drift_policy report max_unexpected =
     (if dr_missing_versions report \<noteq> [] then Inl (DriftMissing (dr_missing_versions report))
      else if dr_checksum_mismatches report \<noteq> [] then Inl (DriftMismatch (dr_checksum_mismatches report))
      else if max_unexpected < length (dr_unexpected_versions report)
      then Inl (DriftUnexpected (length (dr_unexpected_versions report)) max_unexpected)
      else Inr ())"


subsection \<open>Schema and ledger in lockstep\<close>

text \<open>
  From a schema \<open>s0\<close> with ledger \<open>l0\<close>, the states reached by applying unrecorded migrations and recording
  them, undoing recorded ones and striking them out, and rewriting legacy checksums.
\<close>

inductive lockstep ::
  "'d sql_engine \<Rightarrow> migration set \<Rightarrow> 'd \<Rightarrow> migration_record list \<Rightarrow> 'd \<Rightarrow> migration_record list \<Rightarrow> bool"
  for e ms s0 l0 where
  start: "lockstep e ms s0 l0 s0 l0"
| applied: "lockstep e ms s0 l0 s l \<Longrightarrow> m \<in> ms \<Longrightarrow> mg_version m \<notin> mr_version ` set l \<Longrightarrow> sq_exec e (mg_sql m) s = Some s' \<Longrightarrow>
    lockstep e ms s0 l0 s' (l @ [record_of e m])"
| undone: "lockstep e ms s0 l0 s l \<Longrightarrow> m \<in> ms \<Longrightarrow> mg_version m \<in> mr_version ` set l \<Longrightarrow> mg_rollback_sql m = Some sql \<Longrightarrow>
    sq_exec e sql s = Some s' \<Longrightarrow> lockstep e ms s0 l0 s' (filter (\<lambda>r. mr_version r \<noteq> mg_version m) l)"
| upgraded: "lockstep e ms s0 l0 s l \<Longrightarrow> m \<in> ms \<Longrightarrow> r \<in> set l \<Longrightarrow> mr_version r = mg_version m \<Longrightarrow>
    mr_checksum r = legacy_checksum e (mg_sql m) \<Longrightarrow> lockstep e ms s0 l0 s (set_checksum (mg_version m) (checksum e (mg_sql m)) l)"

lemma set_checksum_versions [simp]: "map mr_version (set_checksum v c l) = map mr_version l"
  by (simp add: set_checksum_def)

lemma lockstep_distinct: "lockstep e ms s0 l0 s l \<Longrightarrow> distinct (map mr_version l0) \<Longrightarrow> distinct (map mr_version l)"
proof (induction rule: lockstep.induct)
  case (undone s l m sql s')
  then show ?case by (simp add: distinct_map_filter)
qed (auto simp: record_of_def)

lemma statement_cases:
  assumes "statement net f db = (b, db')"
  shows "(db' = db\<lparr>db_step := Suc (db_step db)\<rparr> \<and> \<not> b) \<or> db' = f (db\<lparr>db_step := Suc (db_step db)\<rparr>)"
  using assms by (auto simp: statement_def Let_def split: reply.splits)

lemma select_frame:
  "select_version net v db = (r, db') \<Longrightarrow> db_schema db' = db_schema db \<and> db_ledger db' = db_ledger db \<and>
     (\<forall>x. r = Inr x \<longrightarrow> (\<exists>l. db_ledger db = Some l \<and> x = find (\<lambda>r. mr_version r = v) l))"
  by (auto simp: select_version_def statement_def Let_def split: reply.splits option.splits prod.splits)

lemma transaction_cases:
  assumes "transaction e net sql change db = (r, db')"
  shows "(r \<noteq> TxDone \<and> db_schema db' = db_schema db \<and> db_ledger db' = db_ledger db) \<or>
    (\<exists>s. sq_exec e sql (db_schema db) = Some s \<and> db_schema db' = s \<and> db_ledger db' = map_option change (db_ledger db))"
  using assms by (auto simp: transaction_def Let_def split: if_splits reply.splits option.splits)

lemma find_version_None: "find (\<lambda>r. mr_version r = v) l = None \<longleftrightarrow> v \<notin> mr_version ` set l"
  by (auto simp: find_None_iff)

lemma find_version_Some: "find (\<lambda>r. mr_version r = v) l = Some r \<Longrightarrow> r \<in> set l \<and> mr_version r = v"
  by (auto simp: find_Some_iff)

lemma rows_of: "db_ledger db = Some l \<Longrightarrow> rows db = l"
  by (simp add: rows_def)

lemma lockstep_upgrade:
  assumes "lockstep e ms s0 l0 (db_schema db) (rows db)" and "m \<in> ms" and "find (\<lambda>r. mr_version r = mg_version m) (rows db) = Some r"
    and "classify_checksum e (mr_checksum r) (mg_sql m) = Legacy"
    and "upgrade_legacy_checksum_row e net (mg_version m) (mg_sql m) db = (b, db')"
  shows "lockstep e ms s0 l0 (db_schema db') (rows db')"
proof -
  have "mr_checksum r = legacy_checksum e (mg_sql m)" using assms(4) by (auto simp: classify_checksum_def split: if_splits)
  with lockstep.upgraded [OF assms(1,2)] find_version_Some [OF assms(3)]
  have "lockstep e ms s0 l0 (db_schema db) (set_checksum (mg_version m) (checksum e (mg_sql m)) (rows db))" by blast
  with assms(1) statement_cases [OF assms(5) [unfolded upgrade_legacy_checksum_row_def]] show ?thesis
    by (auto simp: rows_def set_checksum_def split: option.splits)
qed

lemma migrate_one_lockstep:
  assumes "lockstep e ms s0 l0 (db_schema db) (rows db)" and "m \<in> ms" and "migrate_one e net policy m db = (r, db')"
  shows "lockstep e ms s0 l0 (db_schema db') (rows db')"
proof (cases "mg_destructive m \<and> mg_rollback_sql m = None")
  case True
  then show ?thesis using assms by (simp add: migrate_one_def)
next
  case False
  obtain x db1 where sel: "select_version net (mg_version m) db = (x, db1)" by fastforce
  note f = select_frame [OF sel]
  have ls1: "lockstep e ms s0 l0 (db_schema db1) (rows db1)" using assms(1) f by (simp add: rows_def)
  show ?thesis
  proof (cases x)
    case (Inl err)
    then show ?thesis using assms(3) False sel ls1 by (simp add: migrate_one_def)
  next
    case (Inr found)
    then have found: "found = find (\<lambda>r. mr_version r = mg_version m) (rows db1)" using f by (auto simp: rows_def)
    show ?thesis
    proof (cases found)
      case None
      obtain t db2 where tx: "transaction e net (mg_sql m) (\<lambda>l. l @ [record_of e m]) db1 = (t, db2)" by fastforce
      have "db' = db2" using assms(3) False sel Inr None tx by (auto simp: migrate_one_def split: tx_result.splits if_splits)
      moreover have fresh: "mg_version m \<notin> mr_version ` set (rows db1)" using found None find_version_None by metis
      moreover obtain l where "db_ledger db1 = Some l" using f Inr by auto
      ultimately show ?thesis
        using transaction_cases [OF tx] ls1 lockstep.applied [OF ls1 assms(2) fresh] by (auto simp: rows_def)
    next
      case (Some rec)
      show ?thesis
      proof (cases "classify_checksum e (mr_checksum rec) (mg_sql m)")
        case Legacy
        obtain b db2 where up: "upgrade_legacy_checksum_row e net (mg_version m) (mg_sql m) db1 = (b, db2)" by fastforce
        have "db' = db2" using assms(3) False sel Inr Some Legacy up by (auto simp: migrate_one_def split: bool.splits)
        then show ?thesis using lockstep_upgrade [OF ls1 assms(2) _ Legacy up] found Some by simp
      qed (use assms(3) False sel Inr Some ls1 in \<open>auto simp: migrate_one_def\<close>)
    qed
  qed
qed

lemma migrate_all_lockstep:
  "lockstep e ms s0 l0 (db_schema db) (rows db) \<Longrightarrow> set ns \<subseteq> ms \<Longrightarrow> migrate_all e net policy ns report db = (r, db') \<Longrightarrow>
     lockstep e ms s0 l0 (db_schema db') (rows db')"
proof (induction ns arbitrary: report db)
  case (Cons m ns)
  obtain x db1 where one: "migrate_one e net policy m db = (x, db1)" by fastforce
  have ls: "lockstep e ms s0 l0 (db_schema db1) (rows db1)" using migrate_one_lockstep [OF Cons.prems(1) _ one] Cons.prems(2) by simp
  show ?case using Cons.prems one ls Cons.IH [OF ls] by (cases x) auto
qed simp

lemma run_lockstep:
  assumes "lockstep e ms s0 l0 (db_schema db) (rows db)" and "set ns \<subseteq> ms" and "run_versioned_migrations e net policy ns db = (r, db')"
  shows "lockstep e ms s0 l0 (db_schema db') (rows db')"
proof -
  obtain b db1 where c: "statement net create_ledger db = (b, db1)" by fastforce
  have ls: "lockstep e ms s0 l0 (db_schema db1) (rows db1)"
    using statement_cases [OF c] assms(1) by (auto simp: create_ledger_def rows_def)
  show ?thesis
    using assms(2,3) c ls migrate_all_lockstep [OF ls, of "sort_key mg_version ns" net policy]
    by (auto simp: run_versioned_migrations_def split: bool.splits)
qed

lemma rollback_one_lockstep:
  assumes "lockstep e ms s0 l0 (db_schema db) (rows db)" and "m \<in> ms" and "rollback_one e net target m db = (r, db')"
  shows "lockstep e ms s0 l0 (db_schema db') (rows db')"
proof (cases "mg_version m \<le> target")
  case True
  then show ?thesis using assms by (simp add: rollback_one_def)
next
  case False
  obtain x db1 where sel: "select_version net (mg_version m) db = (x, db1)" by fastforce
  note f = select_frame [OF sel]
  have ls1: "lockstep e ms s0 l0 (db_schema db1) (rows db1)" using assms(1) f by (simp add: rows_def)
  show ?thesis
  proof (cases "\<exists>rec sql. x = Inr (Some rec) \<and> mg_rollback_sql m = Some sql")
    case True
    then obtain rec sql where x: "x = Inr (Some rec)" and sql: "mg_rollback_sql m = Some sql" by blast
    obtain t db2 where tx: "transaction e net sql (filter (\<lambda>r. mr_version r \<noteq> mg_version m)) db1 = (t, db2)" by fastforce
    have "db' = db2" using assms(3) False sel x sql tx by (auto simp: rollback_one_def split: tx_result.splits)
    moreover obtain l where l: "db_ledger db1 = Some l" "find (\<lambda>r. mr_version r = mg_version m) l = Some rec" using f x by auto
    moreover have "mg_version m \<in> mr_version ` set (rows db1)" using find_version_Some [OF l(2)] l(1) by (metis imageI rows_of)
    ultimately show ?thesis
      using transaction_cases [OF tx] ls1 lockstep.undone [OF ls1 assms(2) _ sql] by (auto simp: rows_def)
  next
    case no: False
    then show ?thesis using assms(3) False sel ls1 by (auto simp: rollback_one_def split: sum.splits option.splits)
  qed
qed

lemma rollback_all_lockstep:
  "lockstep e ms s0 l0 (db_schema db) (rows db) \<Longrightarrow> set ns \<subseteq> ms \<Longrightarrow> rollback_all e net target ns db = (r, db') \<Longrightarrow>
     lockstep e ms s0 l0 (db_schema db') (rows db')"
proof (induction ns arbitrary: db)
  case (Cons m ns)
  obtain x db1 where one: "rollback_one e net target m db = (x, db1)" by fastforce
  have ls: "lockstep e ms s0 l0 (db_schema db1) (rows db1)" using rollback_one_lockstep [OF Cons.prems(1) _ one] Cons.prems(2) by simp
  show ?case using Cons.prems one ls Cons.IH [OF ls] by (cases x) auto
qed simp


lemma find_set_checksum: "v \<noteq> v' \<Longrightarrow> find (\<lambda>r. mr_version r = v) (set_checksum v' c l) = find (\<lambda>r. mr_version r = v) l"
  by (induction l) (auto simp: set_checksum_def)

lemma expected_sql_from:
  assumes "(v, sql) \<in> set (expected_sql ms)"
  shows "\<exists>m \<in> set ms. mg_version m = v \<and> mg_sql m = sql"
proof -
  have v: "v \<in> mg_version ` set ms" and sql: "sql = the (map_of (rev (map (\<lambda>m. (mg_version m, mg_sql m)) ms)) v)"
    using assms by (auto simp: expected_sql_def)
  from v have "map_of (rev (map (\<lambda>m. (mg_version m, mg_sql m)) ms)) v \<noteq> None" by (auto simp: map_of_eq_None_iff image_image)
  then have "(v, sql) \<in> set (rev (map (\<lambda>m. (mg_version m, mg_sql m)) ms))" using sql map_of_SomeD by fastforce
  then show ?thesis by auto
qed

lemma expected_versions: "map fst (expected_sql ms) = sort (remdups (map mg_version ms))"
  by (simp add: expected_sql_def comp_def)

lemma compare_all_lockstep:
  "lockstep e ms s0 l0 (db_schema db) (rows db) \<Longrightarrow> \<forall>(v, sql) \<in> set es. \<exists>m \<in> ms. mg_version m = v \<and> mg_sql m = sql \<Longrightarrow>
     distinct (map fst es) \<Longrightarrow> \<forall>(v, sql) \<in> set es. find (\<lambda>r. mr_version r = v) (rows db) = find (\<lambda>r. mr_version r = v) applied \<Longrightarrow>
     compare_all e net applied es mis db = (r, db') \<Longrightarrow> lockstep e ms s0 l0 (db_schema db') (rows db')"
proof (induction es arbitrary: mis db)
  case (Cons x es)
  obtain v sql where x: "x = (v, sql)" by fastforce
  obtain m where m: "m \<in> ms" "mg_version m = v" "mg_sql m = sql" using Cons.prems(2) x by auto
  have rest: "\<forall>(v, sql) \<in> set es. \<exists>m \<in> ms. mg_version m = v \<and> mg_sql m = sql" "distinct (map fst es)" "v \<notin> fst ` set es"
    "\<forall>(v, sql) \<in> set es. find (\<lambda>r. mr_version r = v) (rows db) = find (\<lambda>r. mr_version r = v) applied"
    using Cons.prems(2-4) x by auto
  show ?case
  proof (cases "\<exists>rec. find (\<lambda>r. mr_version r = v) applied = Some rec \<and> classify_checksum e (mr_checksum rec) sql = Legacy")
    case True
    then obtain rec where rec: "find (\<lambda>r. mr_version r = v) applied = Some rec" "classify_checksum e (mr_checksum rec) sql = Legacy" by blast
    obtain b db1 where up: "upgrade_legacy_checksum_row e net v sql db = (b, db1)" by fastforce
    have found: "find (\<lambda>r. mr_version r = mg_version m) (rows db) = Some rec" using Cons.prems(4) x rec(1) m(2) by auto
    have ls: "lockstep e ms s0 l0 (db_schema db1) (rows db1)"
      by (rule lockstep_upgrade [OF Cons.prems(1) m(1) found]) (use rec(2) up m in simp_all)
    have "rows db1 = rows db \<or> rows db1 = set_checksum v (checksum e sql) (rows db)"
      using statement_cases [OF up [unfolded upgrade_legacy_checksum_row_def]]
      by (auto simp: rows_def set_checksum_def split: option.splits)
    then have same: "find (\<lambda>r. mr_version r = w) (rows db1) = find (\<lambda>r. mr_version r = w) (rows db)" if "w \<noteq> v" for w
      using find_set_checksum [OF that] by auto
    have keep: "\<forall>(v, sql) \<in> set es. find (\<lambda>r. mr_version r = v) (rows db1) = find (\<lambda>r. mr_version r = v) applied"
    proof clarify
      fix w sql'
      assume w: "(w, sql') \<in> set es"
      then have "w \<noteq> v" using rest(3) by (metis fst_conv imageI)
      then show "find (\<lambda>r. mr_version r = w) (rows db1) = find (\<lambda>r. mr_version r = w) applied"
        using same rest(4) w by auto
    qed
    show ?thesis
      using Cons.prems(5) x rec up ls Cons.IH [OF ls rest(1,2) keep] by (cases b) auto
  next
    case False
    then have "\<exists>mis'. compare_all e net applied (x # es) mis db = compare_all e net applied es mis' db"
      by (auto simp: x split: option.splits checksum_status.splits)
    then show ?thesis using Cons.prems(5) Cons.IH [OF Cons.prems(1) rest(1,2,4)] by auto
  qed
qed simp

lemma drift_lockstep:
  assumes "lockstep e ms s0 l0 (db_schema db) (rows db)" and "set ns \<subseteq> ms" and "detect_migration_drift e net ns db = (r, db')"
  shows "lockstep e ms s0 l0 (db_schema db') (rows db')"
proof -
  obtain b db1 where c: "statement net (\<lambda>db. db) db = (b, db1)" by fastforce
  have ls: "lockstep e ms s0 l0 (db_schema db1) (rows db1)" using statement_cases [OF c] assms(1) by (auto simp: rows_def)
  show ?thesis
  proof (cases "db_ledger db1")
    case None
    then show ?thesis using assms(3) c ls by (auto simp: detect_migration_drift_def split: bool.splits)
  next
    case (Some applied)
    have es: "\<forall>(v, sql) \<in> set (expected_sql ns). \<exists>m \<in> ms. mg_version m = v \<and> mg_sql m = sql"
      using expected_sql_from assms(2) by blast
    have d: "distinct (map fst (expected_sql ns))" by (simp add: expected_versions)
    obtain y db2 where cmp: "compare_all e net applied (expected_sql ns) [] db1 = (y, db2)" by fastforce
    have "lockstep e ms s0 l0 (db_schema db2) (rows db2)"
      by (rule compare_all_lockstep [OF ls es d _ cmp]) (simp add: rows_def Some)
    then show ?thesis using assms(3) c ls Some cmp by (auto simp: detect_migration_drift_def Let_def split: bool.splits sum.splits)
  qed
qed

subsection \<open>Any sequence of operations\<close>

datatype db_op =
    OpMigrate failure_policy "migration list"
  | OpRollback "migration list" int
  | OpDrift "migration list"

fun op_migrations :: "db_op \<Rightarrow> migration list" where
  "op_migrations (OpMigrate policy ms) = ms"
| "op_migrations (OpRollback ms target) = ms"
| "op_migrations (OpDrift ms) = ms"

definition db_apply :: "'d sql_engine \<Rightarrow> network \<Rightarrow> 'd database \<Rightarrow> db_op \<Rightarrow> 'd database" where
  "db_apply e net db op =
     (case op of
        OpMigrate policy ms \<Rightarrow> snd (run_versioned_migrations e net policy ms db)
      | OpRollback ms target \<Rightarrow> snd (rollback_to_version e net ms target db)
      | OpDrift ms \<Rightarrow> snd (detect_migration_drift e net ms db))"

text \<open>
  C23: schema and ledger never part, whatever fails. Through any sequence of runs, rollbacks and drift checks, on
  a network that may refuse any statement or lose any answer (of a commit too), the schema is what applying and
  undoing migrations one by one gives, each recorded exactly while it is applied: no SQL text takes effect
  without its row, no row stands without its SQL, no version is applied twice, and no version has two rows.
\<close>

theorem schema_and_ledger_stay_in_lockstep:
  assumes "\<forall>op \<in> set ops. set (op_migrations op) \<subseteq> ms" and "distinct (map mr_version (rows db))"
  shows "lockstep e ms (db_schema db) (rows db) (db_schema (foldl (db_apply e net) db ops)) (rows (foldl (db_apply e net) db ops)) \<and>
    distinct (map mr_version (rows (foldl (db_apply e net) db ops)))"
proof -
  have "lockstep e ms s0 l0 (db_schema (foldl (db_apply e net) db ops)) (rows (foldl (db_apply e net) db ops))"
    if "lockstep e ms s0 l0 (db_schema db) (rows db)" for s0 l0
    using assms(1) that
  proof (induction ops arbitrary: db)
    case (Cons op ops)
    have "lockstep e ms s0 l0 (db_schema (db_apply e net db op)) (rows (db_apply e net db op))"
    proof (cases op)
      case (OpMigrate policy ns)
      then show ?thesis
        using run_lockstep [OF Cons.prems(2) _ prod.collapse [symmetric]] Cons.prems(1) by (simp add: db_apply_def)
    next
      case (OpRollback ns target)
      then show ?thesis
        using rollback_all_lockstep [OF Cons.prems(2) _ prod.collapse [symmetric]] Cons.prems(1)
        by (simp add: db_apply_def rollback_to_version_def)
    next
      case (OpDrift ns)
      then show ?thesis
        using drift_lockstep [OF Cons.prems(2) _ prod.collapse [symmetric]] Cons.prems(1) by (simp add: db_apply_def)
    qed
    then show ?case using Cons.IH Cons.prems(1) by simp
  qed simp
  from this [OF lockstep.start] lockstep_distinct [OF this [OF lockstep.start] assms(2)] show ?thesis ..
qed


subsection \<open>A run that succeeds\<close>

definition recorded :: "'d sql_engine \<Rightarrow> migration_record list \<Rightarrow> migration \<Rightarrow> bool" where
  "recorded e l m =
     (case find (\<lambda>r. mr_version r = mg_version m) l of Some r \<Rightarrow> mr_checksum r = checksum e (mg_sql m) | None \<Rightarrow> False)"

definition safe :: "migration \<Rightarrow> bool" where
  "safe m = (mg_destructive m \<longrightarrow> mg_rollback_sql m \<noteq> None)"

definition pending :: "migration_record list \<Rightarrow> migration list \<Rightarrow> migration list" where
  "pending l ms = filter (\<lambda>m. mg_version m \<notin> mr_version ` set l) ms"

text \<open>The SQL texts of a list of migrations, one after the other.\<close>

fun exec_all :: "'d sql_engine \<Rightarrow> migration list \<Rightarrow> 'd \<Rightarrow> 'd option" where
  "exec_all e [] s = Some s"
| "exec_all e (m # ms) s = (case sq_exec e (mg_sql m) s of Some s' \<Rightarrow> exec_all e ms s' | None \<Rightarrow> None)"

lemma exec_all_snoc:
  "exec_all e (ms @ [m]) s = (case exec_all e ms s of Some s' \<Rightarrow> sq_exec e (mg_sql m) s' | None \<Rightarrow> None)"
  by (induction ms arbitrary: s) (auto split: option.splits)

lemma find_set_checksum_same:
  "find (\<lambda>r. mr_version r = v) l = Some r \<Longrightarrow> find (\<lambda>r. mr_version r = v) (set_checksum v c l) = Some (r\<lparr>mr_checksum := c\<rparr>)"
  by (induction l) (auto simp: set_checksum_def split: if_splits)

lemma migrate_one_success:
  assumes "migrate_one e net Halt m db = (Inr step, db')"
  shows "safe m \<and> db_ledger db \<noteq> None \<and> db_ledger db' \<noteq> None \<and> recorded e (rows db') m \<and>
    (\<forall>w. w \<noteq> mg_version m \<longrightarrow> find (\<lambda>r. mr_version r = w) (rows db') = find (\<lambda>r. mr_version r = w) (rows db)) \<and>
    (if mg_version m \<in> mr_version ` set (rows db)
     then step = Skipped \<and> db_schema db' = db_schema db \<and> map mr_version (rows db') = map mr_version (rows db)
     else step = Applied \<and> sq_exec e (mg_sql m) (db_schema db) = Some (db_schema db') \<and>
       map mr_version (rows db') = map mr_version (rows db) @ [mg_version m])"
proof -
  have s: "safe m" using assms by (auto simp: migrate_one_def safe_def split: if_splits)
  obtain x db1 where sel: "select_version net (mg_version m) db = (x, db1)" by fastforce
  note f = select_frame [OF sel]
  have go: "\<not> (mg_destructive m \<and> mg_rollback_sql m = None)" using s by (auto simp: safe_def)
  obtain found where x: "x = Inr found" using assms go sel by (cases x) (auto simp: migrate_one_def)
  obtain l where l: "db_ledger db = Some l" "found = find (\<lambda>r. mr_version r = mg_version m) l" using f x by auto
  have l1: "db_ledger db1 = Some l" "db_schema db1 = db_schema db" using f l(1) by simp_all
  show ?thesis
  proof (cases found)
    case None
    then have v: "mg_version m \<notin> mr_version ` set l" using l(2) find_version_None by metis
    obtain t db2 where tx: "transaction e net (mg_sql m) (\<lambda>l. l @ [record_of e m]) db1 = (t, db2)" by fastforce
    then have "t = TxDone" "db' = db2" "step = Applied"
      using assms go sel x None by (auto simp: migrate_one_def split: tx_result.splits if_splits)
    then have d: "sq_exec e (mg_sql m) (db_schema db) = Some (db_schema db')" "db_ledger db' = Some (l @ [record_of e m])" "step = Applied"
      using transaction_cases [OF tx] l1 by auto
    have "recorded e (l @ [record_of e m]) m"
      using v find_version_None [of "mg_version m" l] by (simp add: recorded_def find_append record_of_def)
    then show ?thesis using s l(1) d v by (auto simp: rows_def find_append record_of_def split: option.splits)
  next
    case (Some rec)
    then have v: "find (\<lambda>r. mr_version r = mg_version m) l = Some rec" "mg_version m \<in> mr_version ` set l"
      using l(2) find_version_Some by (simp, metis imageI)
    show ?thesis
    proof (cases "classify_checksum e (mr_checksum rec) (mg_sql m)")
      case Current
      then have "db' = db1" "step = Skipped" using assms go sel x Some by (simp_all add: migrate_one_def)
      moreover have "mr_checksum rec = checksum e (mg_sql m)" using Current by (auto simp: classify_checksum_def split: if_splits)
      ultimately show ?thesis using s l(1) l1 v by (simp add: rows_def recorded_def)
    next
      case Legacy
      obtain b db2 where up: "upgrade_legacy_checksum_row e net (mg_version m) (mg_sql m) db1 = (b, db2)" by fastforce
      then have b: "b" "db' = db2" "step = Skipped"
        using assms go sel x Some Legacy by (auto simp: migrate_one_def split: bool.splits)
      then have d: "db_schema db' = db_schema db" "db_ledger db' = Some (set_checksum (mg_version m) (checksum e (mg_sql m)) l)"
        using statement_cases [OF up [unfolded upgrade_legacy_checksum_row_def]] l1 by auto
      then show ?thesis
        using s l(1) v find_set_checksum_same [OF v(1)] find_set_checksum b(3) by (simp add: rows_def recorded_def)
    next
      case Mismatch
      then show ?thesis using assms go sel x Some by (simp add: migrate_one_def)
    qed
  qed
qed

text \<open>A step under either policy: one that \<open>halt\<close> would take too, or a failure that is tolerated.\<close>

lemma migrate_one_policy:
  assumes "migrate_one e net policy m db = (Inr step, db')"
  shows "migrate_one e net Halt m db = (Inr step, db') \<or>
    (step = Tolerated \<and> policy = ContinueNonCritical \<and> \<not> mg_critical m \<and> safe m \<and> rows db' = rows db \<and>
     db_schema db' = db_schema db \<and> db_ledger db' = db_ledger db \<and> mg_version m \<notin> mr_version ` set (rows db))"
proof -
  have s: "safe m" using assms by (auto simp: migrate_one_def safe_def split: if_splits)
  then have go: "\<not> (mg_destructive m \<and> mg_rollback_sql m = None)" by (auto simp: safe_def)
  obtain x db1 where sel: "select_version net (mg_version m) db = (x, db1)" by fastforce
  note f = select_frame [OF sel]
  show ?thesis
  proof (cases "x = Inr None")
    case True
    obtain t db2 where tx: "transaction e net (mg_sql m) (\<lambda>l. l @ [record_of e m]) db1 = (t, db2)" by fastforce
    obtain l where l: "db_ledger db = Some l" "None = find (\<lambda>r. mr_version r = mg_version m) l" using f True by auto
    then have v: "mg_version m \<notin> mr_version ` set (rows db)" using find_version_None [of "mg_version m" l] by (simp add: rows_def)
    show ?thesis
    proof (cases t)
      case TxSqlRefused
      then have d: "step = Tolerated" "policy = ContinueNonCritical" "\<not> mg_critical m" "db' = db2"
        using assms go sel True tx by (auto simp: migrate_one_def split: if_splits)
      have "db_schema db2 = db_schema db1 \<and> db_ledger db2 = db_ledger db1"
        using tx TxSqlRefused by (auto simp: transaction_def Let_def split: if_splits reply.splits option.splits)
      then show ?thesis using d s v f by (simp add: rows_def)
    qed (use assms go sel True tx in \<open>simp_all add: migrate_one_def\<close>)
  next
    case False
    then show ?thesis using assms go sel
      by (auto simp: migrate_one_def split: sum.splits option.splits checksum_status.splits prod.splits bool.splits)
  qed
qed

text \<open>The pending migrations that the run has carried out.\<close>

definition carried_out :: "migration_record list \<Rightarrow> migration list \<Rightarrow> migration_record list \<Rightarrow> migration list" where
  "carried_out before ms after = filter (\<lambda>m. mg_version m \<in> mr_version ` set after) (pending before ms)"

lemma versions_after_one:
  assumes "map mr_version (rows db1) = map mr_version (rows db) @ vs"
  shows "mr_version ` set (rows db1) = mr_version ` set (rows db) \<union> set vs"
  using arg_cong [OF assms, of set] by simp

lemma carried_out_Cons:
  "carried_out before (m # ms) after =
     (if mg_version m \<notin> mr_version ` set before \<and> mg_version m \<in> mr_version ` set after then [m] else []) @
     carried_out before ms after"
  by (simp add: carried_out_def pending_def)

lemma carried_out_extend:
  assumes "mg_version m \<notin> mg_version ` set ms"
    and "mr_version ` set before' = mr_version ` set before \<union> A" and "A \<subseteq> {mg_version m}"
  shows "carried_out before' ms after = carried_out before ms after"
proof -
  have "mg_version x \<noteq> mg_version m" if "x \<in> set ms" for x using assms(1) that by (metis imageI)
  then show ?thesis using assms(3) unfolding carried_out_def pending_def filter_filter assms(2) by (intro filter_cong) auto
qed

lemma recorded_version: "recorded e l m \<Longrightarrow> mg_version m \<in> mr_version ` set l"
  using find_version_None [of "mg_version m" l] by (auto simp: recorded_def split: option.splits)

lemma version_kept:
  assumes "find (\<lambda>r. mr_version r = w) l' = find (\<lambda>r. mr_version r = w) l"
  shows "w \<in> mr_version ` set l' \<longleftrightarrow> w \<in> mr_version ` set l"
  using assms find_version_None [of w l] find_version_None [of w l'] by metis

lemma carried_out_all:
  assumes "\<forall>m \<in> set ms. recorded e after m"
  shows "carried_out before ms after = pending before ms"
proof -
  have "mg_version m \<in> mr_version ` set after" if "m \<in> set (pending before ms)" for m
    using assms that by (intro recorded_version [of e]) (simp add: pending_def)
  then show ?thesis unfolding carried_out_def by (intro filter_True) blast
qed

lemma migrate_all_any:
  "migrate_all e net policy ms report db = (Inr report', db') \<Longrightarrow> distinct (map mg_version ms) \<Longrightarrow>
     (\<forall>m \<in> set ms. safe m \<and> (recorded e (rows db') m \<or>
        policy = ContinueNonCritical \<and> \<not> mg_critical m \<and> mg_version m \<notin> mr_version ` set (rows db'))) \<and>
     (\<forall>w. w \<notin> mg_version ` set ms \<longrightarrow> find (\<lambda>r. mr_version r = w) (rows db') = find (\<lambda>r. mr_version r = w) (rows db)) \<and>
     map mr_version (rows db') = map mr_version (rows db) @ map mg_version (carried_out (rows db) ms (rows db')) \<and>
     rp_applied_versions report' = rp_applied_versions report @ map mg_version (carried_out (rows db) ms (rows db')) \<and>
     exec_all e (carried_out (rows db) ms (rows db')) (db_schema db) = Some (db_schema db') \<and>
     (db_ledger db \<noteq> None \<longrightarrow> db_ledger db' \<noteq> None)"
proof (induction ms arbitrary: report db)
  case Nil
  then show ?case by (auto simp: carried_out_def pending_def)
next
  case (Cons m ms)
  obtain x db1 where one: "migrate_one e net policy m db = (x, db1)" by fastforce
  then obtain step where x: "x = Inr step"
    and all: "migrate_all e net policy ms (note_step (mg_version m) step report) db1 = (Inr report', db')"
    using Cons.prems(1) by (cases x) auto
  have dm: "mg_version m \<notin> mg_version ` set ms" "distinct (map mg_version ms)" using Cons.prems(2) by auto
  note IH = Cons.IH [OF all dm(2)]
  have same: "find (\<lambda>r. mr_version r = mg_version m) (rows db') = find (\<lambda>r. mr_version r = mg_version m) (rows db1)"
    using IH dm(1) by blast
  consider (halt) "migrate_one e net Halt m db = (Inr step, db1)"
    | (tolerated) "step = Tolerated" "policy = ContinueNonCritical" "\<not> mg_critical m" "safe m" "rows db1 = rows db"
        "db_schema db1 = db_schema db" "db_ledger db1 = db_ledger db" "mg_version m \<notin> mr_version ` set (rows db)"
    using migrate_one_policy [OF one [unfolded x]] by blast
  then show ?case
  proof cases
    case halt
    note s = migrate_one_success [OF halt]
    have rec: "recorded e (rows db') m" using s same by (simp add: recorded_def)
    have frame: "\<forall>w. w \<notin> mg_version ` set (m # ms) \<longrightarrow> find (\<lambda>r. mr_version r = w) (rows db') = find (\<lambda>r. mr_version r = w) (rows db)"
      using IH s by simp
    have ledger: "db_ledger db' \<noteq> None" using IH s by blast
    show ?thesis
    proof (cases "mg_version m \<in> mr_version ` set (rows db)")
      case True
      then have "map mr_version (rows db1) = map mr_version (rows db) @ []" using s by simp
      note c = carried_out_extend [OF dm(1) versions_after_one [OF this], of "rows db'", simplified]
      show ?thesis using True s IH rec frame ledger unfolding carried_out_Cons c by (simp add: note_step_def)
    next
      case False
      then have "map mr_version (rows db1) = map mr_version (rows db) @ [mg_version m]" using s by simp
      note c = carried_out_extend [OF dm(1) versions_after_one [OF this], of "rows db'", simplified]
      show ?thesis using False s IH rec recorded_version [OF rec] frame ledger unfolding carried_out_Cons c
        by (simp add: note_step_def)
    qed
  next
    case tolerated
    have "mg_version m \<notin> mr_version ` set (rows db')" using version_kept [OF same] tolerated(5,8) by simp
    with tolerated IH dm(1) show ?thesis unfolding carried_out_Cons by (simp add: note_step_def)
  qed
qed

abbreviation reliable :: network where "reliable \<equiv> (\<lambda>_. Answered)"

lemma migrate_recorded:
  assumes "\<forall>m \<in> set ms. safe m \<and> recorded e (rows db) m" and "db_ledger db \<noteq> None"
  shows "\<exists>n. migrate_all e reliable policy ms report db =
    (Inr (report\<lparr>rp_skipped_versions := rp_skipped_versions report @ map mg_version ms\<rparr>), db\<lparr>db_step := n\<rparr>)"
  using assms
proof (induction ms arbitrary: report db)
  case Nil
  then show ?case by (intro exI [of _ "db_step db"]) simp
next
  case (Cons m ms)
  obtain l where l: "db_ledger db = Some l" using Cons.prems(2) by auto
  obtain r where r: "find (\<lambda>r. mr_version r = mg_version m) l = Some r" "mr_checksum r = checksum e (mg_sql m)"
    using Cons.prems(1) l by (auto simp: recorded_def rows_def split: option.splits)
  have one: "migrate_one e reliable policy m db = (Inr Skipped, db\<lparr>db_step := Suc (db_step db)\<rparr>)"
    using Cons.prems(1) l r by (auto simp: migrate_one_def safe_def select_version_def statement_def classify_checksum_def)
  have "\<forall>m \<in> set ms. safe m \<and> recorded e (rows (db\<lparr>db_step := Suc (db_step db)\<rparr>)) m" using Cons.prems(1) by (simp add: rows_def)
  then obtain n where "migrate_all e reliable policy ms (note_step (mg_version m) Skipped report) (db\<lparr>db_step := Suc (db_step db)\<rparr>) =
      (Inr (note_step (mg_version m) Skipped report\<lparr>rp_skipped_versions := rp_skipped_versions (note_step (mg_version m) Skipped report) @
         map mg_version ms\<rparr>), db\<lparr>db_step := n\<rparr>)"
    using Cons.IH [of "db\<lparr>db_step := Suc (db_step db)\<rparr>" "note_step (mg_version m) Skipped report"] Cons.prems(2) by auto
  then show ?case by (intro exI [of _ n]) (simp add: one note_step_def)
qed


lemma compare_recorded:
  assumes "\<forall>(v, sql) \<in> set es. \<exists>r. find (\<lambda>r. mr_version r = v) applied = Some r \<and> mr_checksum r = checksum e sql"
  shows "compare_all e net applied es mis db = (Inr mis, db)"
  using assms by (induction es) (auto simp: classify_checksum_def)

lemma expected_sql_unique:
  assumes "distinct (map mg_version ms)" and "m \<in> set ms" and "(mg_version m, sql) \<in> set (expected_sql ms)"
  shows "sql = mg_sql m"
proof -
  obtain m' where "m' \<in> set ms" "mg_version m' = mg_version m" "mg_sql m' = sql" using expected_sql_from [OF assms(3)] by blast
  with assms(1,2) show ?thesis by (auto simp: distinct_map inj_on_def)
qed

lemma run_any:
  assumes "run_versioned_migrations e net policy ms db = (Inr report, db')" and "distinct (map mg_version ms)"
  shows "(\<forall>m \<in> set ms. safe m \<and> (recorded e (rows db') m \<or>
        policy = ContinueNonCritical \<and> \<not> mg_critical m \<and> mg_version m \<notin> mr_version ` set (rows db'))) \<and>
     db_ledger db' \<noteq> None \<and>
     map mr_version (rows db') =
       map mr_version (rows db) @ map mg_version (carried_out (rows db) (sort_key mg_version ms) (rows db')) \<and>
     rp_applied_versions report = map mg_version (carried_out (rows db) (sort_key mg_version ms) (rows db')) \<and>
     exec_all e (carried_out (rows db) (sort_key mg_version ms) (rows db')) (db_schema db) = Some (db_schema db')"
proof -
  obtain db1 where c: "statement net create_ledger db = (True, db1)"
    and all: "migrate_all e net policy (sort_key mg_version ms) \<lparr>rp_applied_versions = [], rp_skipped_versions = []\<rparr> db1 = (Inr report, db')"
    using assms(1) by (auto simp: run_versioned_migrations_def split: prod.splits bool.splits)
  have db1: "db1 = create_ledger (db\<lparr>db_step := Suc (db_step db)\<rparr>)" using statement_cases [OF c] by simp
  have d1: "rows db1 = rows db" "db_schema db1 = db_schema db" "db_ledger db1 \<noteq> None"
    by (simp_all add: db1 create_ledger_def rows_def)
  have "distinct (map mg_version (sort_key mg_version ms))"
    using assms(2) by (simp add: distinct_map)
  from migrate_all_any [OF all this] d1 show ?thesis by simp
qed

lemma run_success:
  assumes "run_versioned_migrations e net Halt ms db = (Inr report, db')" and "distinct (map mg_version ms)"
  shows "(\<forall>m \<in> set ms. safe m \<and> recorded e (rows db') m) \<and> db_ledger db' \<noteq> None \<and>
     map mr_version (rows db') = map mr_version (rows db) @ map mg_version (pending (rows db) (sort_key mg_version ms)) \<and>
     rp_applied_versions report = map mg_version (pending (rows db) (sort_key mg_version ms)) \<and>
     exec_all e (pending (rows db) (sort_key mg_version ms)) (db_schema db) = Some (db_schema db')"
proof -
  note r = run_any [OF assms]
  then have "carried_out (rows db) (sort_key mg_version ms) (rows db') = pending (rows db) (sort_key mg_version ms)"
    by (intro carried_out_all [of _ e]) simp
  with r show ?thesis by simp
qed

lemma drift_recorded:
  assumes r: "\<forall>m \<in> set ms. recorded e l m" and l: "db_ledger db = Some l"
  shows "detect_migration_drift e net ms db =
    (if net (db_step db) = Answered
     then (Inr \<lparr>dr_missing_versions = [], dr_unexpected_versions = filter (\<lambda>v. v \<notin> mg_version ` set ms) (sort (map mr_version l)),
                dr_checksum_mismatches = []\<rparr>, db\<lparr>db_step := Suc (db_step db)\<rparr>)
     else (Inl DbUnavailable, db\<lparr>db_step := Suc (db_step db)\<rparr>))"
proof -
  let ?db = "db\<lparr>db_step := Suc (db_step db)\<rparr>"
  have found: "\<forall>(v, sql) \<in> set (expected_sql ms). \<exists>r. find (\<lambda>r. mr_version r = v) l = Some r \<and> mr_checksum r = checksum e sql"
  proof clarify
    fix v sql
    assume vs: "(v, sql) \<in> set (expected_sql ms)"
    then obtain m where m: "m \<in> set ms" "mg_version m = v" "mg_sql m = sql" using expected_sql_from by blast
    then have "recorded e l m" using r by simp
    with m show "\<exists>r. find (\<lambda>r. mr_version r = v) l = Some r \<and> mr_checksum r = checksum e sql"
      by (auto simp: recorded_def split: option.splits)
  qed
  have "v \<in> mr_version ` set l" if mem: "v \<in> mg_version ` set ms" for v
  proof -
    obtain m where m: "m \<in> set ms" "v = mg_version m" using mem by auto
    then have "recorded e l m" using r by simp
    then obtain rec where "find (\<lambda>r. mr_version r = v) l = Some rec" using m by (auto simp: recorded_def split: option.splits)
    from find_version_Some [OF this] show ?thesis by (metis imageI)
  qed
  then have missing: "filter (\<lambda>v. v \<notin> set (sort (map mr_version l))) (map fst (expected_sql ms)) = []"
    by (auto simp: expected_versions filter_empty_conv)
  have unexpected: "filter (\<lambda>v. v \<notin> set (map fst (expected_sql ms))) (sort (map mr_version l)) =
      filter (\<lambda>v. v \<notin> mg_version ` set ms) (sort (map mr_version l))"
    by (simp add: expected_versions)
  have l': "db_ledger ?db = Some l" using l by simp
  show ?thesis
  proof (cases "net (db_step db)")
    case Answered
    show ?thesis
      by (simp only: detect_migration_drift_def statement_def Let_def Answered reply.case prod.case bool.case l' option.case sum.case
          missing unexpected compare_recorded [OF found, of net "[]" ?db] if_True refl)
  qed (simp_all add: detect_migration_drift_def statement_def)
qed

text \<open>
  C24: a run that reports success has brought the schema up to date, once. Whatever the policy: the
  migrations executed are pending ones, in ascending version order, and they are the ones reported and
  newly recorded; every migration is safe and is recorded with the checksum of its SQL, except that
  under \<open>continue_non_critical\<close>, and only there, one that is not critical may have been given up: it
  has no row then. Under \<open>halt\<close> nothing pending is left out. When all are recorded, a second run
  executes nothing and skips them all, under either policy, and a drift check finds nothing missing and
  nothing changed, and as unexpected exactly the recorded versions that are not compiled in. (The
  versions compiled in are distinct.)
\<close>

theorem successful_run_is_complete:
  assumes "run_versioned_migrations e net policy ms db = (Inr report, db')" and "distinct (map mg_version ms)"
  shows "rp_applied_versions report = map mg_version (carried_out (rows db) (sort_key mg_version ms) (rows db')) \<and>
    exec_all e (carried_out (rows db) (sort_key mg_version ms) (rows db')) (db_schema db) = Some (db_schema db') \<and>
    map mr_version (rows db') = map mr_version (rows db) @ rp_applied_versions report \<and>
    (\<forall>m \<in> set ms. safe m \<and> (recorded e (rows db') m \<or>
       policy = ContinueNonCritical \<and> \<not> mg_critical m \<and> mg_version m \<notin> mr_version ` set (rows db'))) \<and>
    (policy = Halt \<longrightarrow> rp_applied_versions report = map mg_version (pending (rows db) (sort_key mg_version ms))) \<and>
    ((\<forall>m \<in> set ms. recorded e (rows db') m) \<longrightarrow>
      (\<exists>n. run_versioned_migrations e reliable policy' ms db' =
         (Inr \<lparr>rp_applied_versions = [], rp_skipped_versions = map mg_version (sort_key mg_version ms)\<rparr>, db'\<lparr>db_step := n\<rparr>)) \<and>
      (\<exists>n. detect_migration_drift e reliable ms db' =
         (Inr \<lparr>dr_missing_versions = [],
               dr_unexpected_versions = filter (\<lambda>v. v \<notin> mg_version ` set ms) (sort (map mr_version (rows db'))),
               dr_checksum_mismatches = []\<rparr>, db'\<lparr>db_step := n\<rparr>)))"
proof -
  note r = run_any [OF assms]
  obtain l where l: "db_ledger db' = Some l" using r by auto
  have halt: "rp_applied_versions report = map mg_version (pending (rows db) (sort_key mg_version ms))" if "policy = Halt"
    using run_success [OF assms(1) [unfolded that] assms(2)] by simp
  have settled: "(\<exists>n. run_versioned_migrations e reliable policy' ms db' =
         (Inr \<lparr>rp_applied_versions = [], rp_skipped_versions = map mg_version (sort_key mg_version ms)\<rparr>, db'\<lparr>db_step := n\<rparr>)) \<and>
      (\<exists>n. detect_migration_drift e reliable ms db' =
         (Inr \<lparr>dr_missing_versions = [],
               dr_unexpected_versions = filter (\<lambda>v. v \<notin> mg_version ` set ms) (sort (map mr_version (rows db'))),
               dr_checksum_mismatches = []\<rparr>, db'\<lparr>db_step := n\<rparr>))"
    if all: "\<forall>m \<in> set ms. recorded e (rows db') m"
  proof -
    let ?db = "db'\<lparr>db_step := Suc (db_step db')\<rparr>"
    have rows: "rows ?db = l" "rows db' = l" "create_ledger ?db = ?db" using l by (simp_all add: rows_def create_ledger_def)
    have "\<forall>m \<in> set (sort_key mg_version ms). safe m \<and> recorded e (rows ?db) m" "db_ledger ?db \<noteq> None"
      using r all l rows by simp_all
    then obtain n where "migrate_all e reliable policy' (sort_key mg_version ms) \<lparr>rp_applied_versions = [], rp_skipped_versions = []\<rparr> ?db =
        (Inr \<lparr>rp_applied_versions = [], rp_skipped_versions = map mg_version (sort_key mg_version ms)\<rparr>, ?db\<lparr>db_step := n\<rparr>)"
      using migrate_recorded [of "sort_key mg_version ms" e ?db policy' "\<lparr>rp_applied_versions = [], rp_skipped_versions = []\<rparr>"] by auto
    then have again: "run_versioned_migrations e reliable policy' ms db' =
        (Inr \<lparr>rp_applied_versions = [], rp_skipped_versions = map mg_version (sort_key mg_version ms)\<rparr>, db'\<lparr>db_step := n\<rparr>)"
      by (simp add: run_versioned_migrations_def statement_def rows(3))
    have drift: "detect_migration_drift e reliable ms db' =
        (Inr \<lparr>dr_missing_versions = [], dr_unexpected_versions = filter (\<lambda>v. v \<notin> mg_version ` set ms) (sort (map mr_version (rows db'))),
              dr_checksum_mismatches = []\<rparr>, ?db)"
      using drift_recorded [OF _ l, of ms e reliable] all rows(2) by simp
    show ?thesis using again drift
      by (intro conjI) (rule exI [of _ n], simp, rule exI [of _ "Suc (db_step db')"], simp)
  qed
  show ?thesis using r halt settled by simp
qed


subsection \<open>Rolling a run back\<close>

text \<open>What the rollback leaves of the ledger, whatever the network does.\<close>

lemma rollback_one_success:
  assumes "rollback_one e net target m db = (Inr (), db')"
  shows "(mg_version m \<le> target \<and> db' = db) \<or>
    (target < mg_version m \<and> rows db' = filter (\<lambda>r. mr_version r \<noteq> mg_version m) (rows db))"
proof (cases "mg_version m \<le> target")
  case True
  then show ?thesis using assms by (simp add: rollback_one_def)
next
  case False
  obtain x db1 where sel: "select_version net (mg_version m) db = (x, db1)" by fastforce
  note f = select_frame [OF sel]
  obtain found where x: "x = Inr found" using assms False sel by (cases x) (auto simp: rollback_one_def)
  obtain l where l: "db_ledger db = Some l" "found = find (\<lambda>r. mr_version r = mg_version m) l" using f x by auto
  show ?thesis
  proof (cases found)
    case None
    then have "mg_version m \<notin> mr_version ` set l" using l(2) find_version_None by metis
    then have "filter (\<lambda>r. mr_version r \<noteq> mg_version m) l = l" by (metis (mono_tags, lifting) filter_True imageI)
    moreover have "db' = db1" using assms False sel x None by (simp add: rollback_one_def)
    ultimately show ?thesis using l f False by (simp add: rows_def)
  next
    case (Some rec)
    obtain sql where sql: "mg_rollback_sql m = Some sql"
      using assms False sel x Some by (cases "mg_rollback_sql m") (auto simp: rollback_one_def)
    obtain t db2 where tx: "transaction e net sql (filter (\<lambda>r. mr_version r \<noteq> mg_version m)) db1 = (t, db2)" by fastforce
    then have "t = TxDone" "db' = db2"
      using assms False sel x Some sql by (auto simp: rollback_one_def split: tx_result.splits)
    then show ?thesis using transaction_cases [OF tx] l f False by (auto simp: rows_def)
  qed
qed

lemma rollback_all_success:
  "rollback_all e net target ms db = (Inr (), db') \<Longrightarrow>
     rows db' = filter (\<lambda>r. \<not> (target < mr_version r \<and> mr_version r \<in> mg_version ` set ms)) (rows db)"
proof (induction ms arbitrary: db)
  case (Cons m ms)
  obtain x db1 where one: "rollback_one e net target m db = (x, db1)" by fastforce
  then have x: "x = Inr ()" and all: "rollback_all e net target ms db1 = (Inr (), db')" using Cons.prems by (cases x; simp)+
  note IH = Cons.IH [OF all]
  from rollback_one_success [OF one [unfolded x]] show ?case
  proof
    assume c: "mg_version m \<le> target \<and> db1 = db"
    show ?thesis unfolding IH using c by (auto intro: filter_cong)
  next
    assume c: "target < mg_version m \<and> rows db1 = filter (\<lambda>r. mr_version r \<noteq> mg_version m) (rows db)"
    then have rows: "rows db1 = filter (\<lambda>r. mr_version r \<noteq> mg_version m) (rows db)" ..
    show ?thesis unfolding IH rows filter_filter by (rule filter_cong [OF refl]) (use c in auto)
  qed
qed simp

lemma rollback_all_above:
  "rollback_all e net target ms db = rollback_all e net target (filter (\<lambda>m. target < mg_version m) ms) db"
  by (induction ms arbitrary: db) (auto simp: rollback_one_def split: prod.splits sum.splits)

lemma rollback_undoes:
  assumes "\<forall>m \<in> set ps. target < mg_version m \<and> (\<exists>sql. mg_rollback_sql m = Some sql \<and>
      (\<forall>s s'. sq_exec e (mg_sql m) s = Some s' \<longrightarrow> sq_exec e sql s' = Some s))"
    and "distinct (map mg_version ps)" and "exec_all e ps s0 = Some (db_schema db)" and "db_ledger db \<noteq> None"
    and "mg_version ` set ps \<subseteq> mr_version ` set (rows db)"
  shows "\<exists>db'. rollback_all e reliable target (rev ps) db = (Inr (), db') \<and> db_schema db' = s0"
  using assms
proof (induction ps arbitrary: db rule: rev_induct)
  case Nil
  then show ?case by simp
next
  case (snoc m ps)
  obtain l where l: "db_ledger db = Some l" using snoc.prems(4) by auto
  have "mg_version m \<in> mr_version ` set l" using snoc.prems(5) l by (simp add: rows_def)
  then obtain rec where rec: "find (\<lambda>r. mr_version r = mg_version m) l = Some rec"
    using find_version_None [of "mg_version m" l] by (cases "find (\<lambda>r. mr_version r = mg_version m) l") auto
  obtain sql where sql: "mg_rollback_sql m = Some sql" "target < mg_version m"
    and undo: "\<forall>s s'. sq_exec e (mg_sql m) s = Some s' \<longrightarrow> sq_exec e sql s' = Some s" using snoc.prems(1) by auto
  obtain s1 where s1: "exec_all e ps s0 = Some s1" "sq_exec e (mg_sql m) s1 = Some (db_schema db)"
    using snoc.prems(3) by (auto simp: exec_all_snoc split: option.splits)
  let ?db1 = "db\<lparr>db_schema := s1, db_ledger := Some (filter (\<lambda>r. mr_version r \<noteq> mg_version m) l), db_step := db_step db + 5\<rparr>"
  have undone: "sq_exec e sql (db_schema db) = Some s1" using undo s1(2) by blast
  have one: "rollback_one e reliable target m db = (Inr (), ?db1)"
    using sql undone l rec by (simp add: rollback_one_def select_version_def statement_def transaction_def)
  have "mg_version ` set ps \<subseteq> mr_version ` set (rows ?db1)"
  proof
    fix v
    assume v: "v \<in> mg_version ` set ps"
    have "mg_version m \<notin> mg_version ` set ps" using snoc.prems(2) by simp
    then have "v \<noteq> mg_version m" using v by blast
    moreover have "v \<in> mr_version ` set l" using v snoc.prems(5) l by (auto simp: rows_def)
    ultimately show "v \<in> mr_version ` set (rows ?db1)" by (auto simp: rows_def)
  qed
  then obtain db' where "rollback_all e reliable target (rev ps) ?db1 = (Inr (), db') \<and> db_schema db' = s0"
    using snoc.IH [of ?db1] snoc.prems(1,2) s1(1) by auto
  then show ?case by (simp add: one)
qed

lemma rollback_strikes_out:
  assumes "rollback_to_version e net ms target db = (Inr (), db')"
  shows "rows db' = filter (\<lambda>r. \<not> (target < mr_version r \<and> mr_version r \<in> mg_version ` set ms)) (rows db)"
  using rollback_all_success [OF assms [unfolded rollback_to_version_def]] by simp

lemma run_rolled_back:
  assumes "run_versioned_migrations e net Halt ms db = (Inr report, db1)" and "distinct (map mg_version ms)"
    and "\<forall>r \<in> set (rows db). mr_version r \<le> target"
    and "\<forall>m \<in> set (pending (rows db) ms). target < mg_version m \<and> (\<exists>sql. mg_rollback_sql m = Some sql \<and>
      (\<forall>s s'. sq_exec e (mg_sql m) s = Some s' \<longrightarrow> sq_exec e sql s' = Some s))"
  shows "\<exists>db2. rollback_to_version e reliable ms target db1 = (Inr (), db2) \<and> db_schema db2 = db_schema db \<and>
      map mr_version (rows db2) = map mr_version (rows db)"
proof -
  note r = run_success [OF assms(1,2)]
  let ?ps = "pending (rows db) (sort_key mg_version ms)"
  have strike: "rows db2 = filter (\<lambda>r. \<not> (target < mr_version r \<and> mr_version r \<in> mg_version ` set ms)) (rows db1)"
    if "rollback_to_version e net' ms target db1 = (Inr (), db2)" for net' db2
    by (rule rollback_strikes_out [OF that])
  have ps: "set ?ps = set (pending (rows db) ms)" by (auto simp: pending_def)
  have above: "filter (\<lambda>m. target < mg_version m) (sort_key mg_version ms) = ?ps"
    unfolding pending_def
  proof (rule filter_cong [OF refl])
    fix m
    assume "m \<in> set (sort_key mg_version ms)"
    then show "(target < mg_version m) = (mg_version m \<notin> mr_version ` set (rows db))"
      using assms(3,4) by (force simp: pending_def)
  qed
  have d: "distinct (map mg_version ?ps)" using assms(2) by (simp add: pending_def distinct_map inj_on_def)
  have "mg_version ` set ?ps \<subseteq> mr_version ` set (rows db1)"
  proof -
    have "set (map mr_version (rows db1)) = set (map mr_version (rows db)) \<union> set (map mg_version ?ps)" using r by simp
    then show ?thesis by auto
  qed
  then obtain db2 where db2: "rollback_all e reliable target (rev ?ps) db1 = (Inr (), db2)" "db_schema db2 = db_schema db"
    using rollback_undoes [of ?ps target e "db_schema db" db1] assms(4) ps d r by auto
  then have undone: "rollback_to_version e reliable ms target db1 = (Inr (), db2)"
    by (simp add: rollback_to_version_def rollback_all_above [of _ _ _ "rev (sort_key mg_version ms)"] rev_filter [symmetric] above)
  have "map mr_version (rows db2) = filter (\<lambda>v. \<not> (target < v \<and> v \<in> mg_version ` set ms)) (map mr_version (rows db1))"
    using strike [OF undone] by (simp add: filter_map comp_def)
  also have "\<dots> = map mr_version (rows db)"
  proof -
    have vs: "map mr_version (rows db1) = map mr_version (rows db) @ map mg_version ?ps" using r by simp
    have low: "filter (\<lambda>v. \<not> (target < v \<and> v \<in> mg_version ` set ms)) (map mr_version (rows db)) = map mr_version (rows db)"
      using assms(3) by (intro filter_True) auto
    have "target < mg_version m \<and> mg_version m \<in> mg_version ` set ms" if "m \<in> set ?ps" for m
      using assms(4) ps that by (auto simp: pending_def)
    then have "filter (\<lambda>v. \<not> (target < v \<and> v \<in> mg_version ` set ms)) (map mg_version ?ps) = []"
      by (intro filter_False) auto
    with low show ?thesis by (simp add: vs)
  qed
  finally show ?thesis using undone db2(2) by blast
qed

text \<open>
  C25: a rollback undoes a run. From any state of the database and whatever the network does, a rollback
  to \<open>target\<close> that succeeds strikes out exactly the recorded versions above \<open>target\<close> that are compiled in.
  And after a successful run under the policy \<open>halt\<close> of migrations with distinct versions, when every
  migration it applied is above \<open>target\<close> with a \<open>rollback_sql\<close> that undoes its \<open>sql\<close> and everything
  recorded before the run is at or below \<open>target\<close>, an undisturbed rollback to \<open>target\<close> succeeds and
  restores the schema and the recorded versions the run began with.
\<close>

theorem rollback_undoes_a_run:
  "(rollback_to_version e net' ms' target' db0 = (Inr (), db2) \<longrightarrow>
      rows db2 = filter (\<lambda>r. \<not> (target' < mr_version r \<and> mr_version r \<in> mg_version ` set ms')) (rows db0)) \<and>
   (run_versioned_migrations e net Halt ms db = (Inr report, db1) \<and> distinct (map mg_version ms) \<and>
    (\<forall>r \<in> set (rows db). mr_version r \<le> target) \<and>
    (\<forall>m \<in> set (pending (rows db) ms). target < mg_version m \<and> (\<exists>sql. mg_rollback_sql m = Some sql \<and>
       (\<forall>s s'. sq_exec e (mg_sql m) s = Some s' \<longrightarrow> sq_exec e sql s' = Some s))) \<longrightarrow>
    (\<exists>db3. rollback_to_version e reliable ms target db1 = (Inr (), db3) \<and> db_schema db3 = db_schema db \<and>
       map mr_version (rows db3) = map mr_version (rows db)))"
  using rollback_strikes_out [of e net' ms' target' db0 db2] run_rolled_back [of e net ms db report db1 target] by blast


subsection \<open>Witnesses\<close>
text \<open>An engine whose schema lists its tables: \<open>x\<close> creates \<open>x\<close>, \<open>-x\<close> drops it if it is the newest.\<close>

definition demo_engine :: "string list sql_engine" where
  "demo_engine = \<lparr>sq_exec = (\<lambda>sql s. case sql of
      [] \<Rightarrow> None
    | c # t \<Rightarrow> if c = CHR ''-'' then (case s of x # xs \<Rightarrow> if x = t then Some xs else None | [] \<Rightarrow> None) else Some (sql # s)),
    sq_sha256 = (\<lambda>sql. ''sha '' @ sql), sq_default_hasher = (\<lambda>sql. ''old '' @ sql)\<rparr>"

definition demo_users :: migration where
  "demo_users = \<lparr>mg_version = 1, mg_name = ''users'', mg_sql = ''users'', mg_rollback_sql = Some ''-users'',
     mg_critical = True, mg_destructive = False\<rparr>"

definition demo_posts :: migration where
  "demo_posts = \<lparr>mg_version = 2, mg_name = ''posts'', mg_sql = ''posts'', mg_rollback_sql = Some ''-posts'',
     mg_critical = True, mg_destructive = True\<rparr>"

text \<open>The database holds \<open>users\<close>, recorded with its legacy checksum.\<close>

definition demo_db :: "string list database" where
  "demo_db = \<lparr>db_schema = [''users''], db_ledger = Some [\<lparr>mr_version = 1, mr_name = ''users'', mr_checksum = ''old users''\<rparr>], db_step = 0\<rparr>"

definition demo_db_after :: "string list database" where
  "demo_db_after = \<lparr>db_schema = [''posts'', ''users''], db_ledger = Some [record_of demo_engine demo_users, record_of demo_engine demo_posts],
     db_step = 8\<rparr>"

lemmas demo_defs = demo_engine_def demo_users_def demo_posts_def demo_db_def demo_db_after_def

lemma demo_run:
  "run_versioned_migrations demo_engine reliable Halt [demo_posts, demo_users] demo_db =
     (Inr \<lparr>rp_applied_versions = [2], rp_skipped_versions = [1]\<rparr>, demo_db_after)"
  by code_simp

lemma demo_distinct: "distinct (map mg_version [demo_posts, demo_users])"
  by code_simp

text \<open>The answer of the commit is lost: the run fails, and the migration stands with its row.\<close>

lemma demo_lost_commit:
  "foldl (db_apply demo_engine (\<lambda>n. if n = 7 then AnswerLost else Answered)) demo_db [OpMigrate Halt [demo_posts, demo_users]] = demo_db_after"
  by code_simp

lemma schema_and_ledger_stay_in_lockstep_witness:
  "lockstep demo_engine {demo_users, demo_posts} (db_schema demo_db) (rows demo_db) (db_schema demo_db_after) (rows demo_db_after)"
proof -
  have "\<forall>op \<in> set [OpMigrate Halt [demo_posts, demo_users]]. set (op_migrations op) \<subseteq> {demo_users, demo_posts}" by simp
  moreover have "distinct (map mr_version (rows demo_db))" by code_simp
  ultimately show ?thesis
    using schema_and_ledger_stay_in_lockstep [of "[OpMigrate Halt [demo_posts, demo_users]]" "{demo_users, demo_posts}" demo_db
        demo_engine "\<lambda>n. if n = 7 then AnswerLost else Answered"]
    unfolding demo_lost_commit by blast
qed

lemma successful_run_is_complete_witness:
  "recorded demo_engine (rows demo_db_after) demo_posts \<and> recorded demo_engine (rows demo_db_after) demo_users \<and>
   exec_all demo_engine (carried_out (rows demo_db) [demo_users, demo_posts] (rows demo_db_after)) (db_schema demo_db) =
     Some [''posts'', ''users'']"
proof -
  have "sort_key mg_version [demo_posts, demo_users] = [demo_users, demo_posts]" by code_simp
  then show ?thesis using successful_run_is_complete [OF demo_run demo_distinct] by (simp add: demo_db_after_def)
qed

lemma rollback_undoes_a_run_witness:
  "\<exists>db2. rollback_to_version demo_engine reliable [demo_posts, demo_users] 1 demo_db_after = (Inr (), db2) \<and>
     db_schema db2 = [''users''] \<and> map mr_version (rows db2) = [1] \<and> length (rows db2) = 1"
proof -
  have "\<forall>r \<in> set (rows demo_db). mr_version r \<le> 1" by (simp add: rows_def demo_db_def)
  moreover have "\<forall>m \<in> set (pending (rows demo_db) [demo_posts, demo_users]). 1 < mg_version m \<and> (\<exists>sql. mg_rollback_sql m = Some sql \<and>
      (\<forall>s s'. sq_exec demo_engine (mg_sql m) s = Some s' \<longrightarrow> sq_exec demo_engine sql s' = Some s))"
    by (simp add: pending_def rows_def demo_defs)
  ultimately obtain db2 where db2: "rollback_to_version demo_engine reliable [demo_posts, demo_users] 1 demo_db_after = (Inr (), db2)"
    "db_schema db2 = db_schema demo_db" "map mr_version (rows db2) = map mr_version (rows demo_db)"
    using rollback_undoes_a_run [of demo_engine reliable "[]" 0 demo_db demo_db reliable "[demo_posts, demo_users]" demo_db _ demo_db_after 1]
      demo_run demo_distinct by blast
  moreover have "map mr_version (rows demo_db) = [1]" by (simp add: rows_def demo_db_def)
  moreover have "length (rows db2) = 1" using arg_cong [OF db2(3), of length] by (simp add: rows_def demo_db_def)
  ultimately show ?thesis by (auto simp: demo_db_def)
qed

end
