(* ===== verification/DbGovernance.thy ===== *)
theory DbGovernance
  imports Migrations
begin

text \<open>
  Promotion and governance of migrations, \<open>krab_core/src/db/postgres.rs\<close>, and the migration life cycle of
  \<open>service_users/src/db/migrations.rs\<close> built on them. The policy tables are lists, the newest row first:
  \<open>updated_at\<close> and the serial keys grow with every write. Every statement may fail or lose its answer.
\<close>

subsection \<open>The policy tables\<close>

record audit_row =
  au_service_name :: string
  au_environment :: string
  au_allow :: bool

record rehearsal_row =
  rh_service_name :: string
  rh_environment :: string
  rh_rollback_target :: int
  rh_artifact_uri :: string
  rh_succeeded :: bool

record policy_db =
  pd_environments :: "string list"
  pd_owners :: "string hashmap"
  pd_audit :: "audit_row list"
  pd_rehearsals :: "rehearsal_row list"
  pd_step :: nat

definition send :: "network \<Rightarrow> (policy_db \<Rightarrow> policy_db) \<Rightarrow> policy_db \<Rightarrow> bool \<times> policy_db" where
  "send net f db =
     (let db' = db\<lparr>pd_step := Suc (pd_step db)\<rparr>
      in case net (pd_step db) of
           Answered \<Rightarrow> (True, f db')
         | AnswerLost \<Rightarrow> (False, f db')
         | NotDone \<Rightarrow> (False, db'))"

datatype policy_error =
    PolicyUnavailable
  | UnknownTarget string
  | UnknownRecorded string
  | PromotionBackwards string string
  | MissingRehearsal
  | ApplyDenied

subsection \<open>Configuration\<close>

definition bool_env :: "environment \<Rightarrow> string \<Rightarrow> bool \<Rightarrow> bool" where
  "bool_env env name dflt = (case env name of Some v \<Rightarrow> v = ''1'' \<or> eq_ignore_ascii_case v ''true'' | None \<Rightarrow> dflt)"

definition csv_env :: "environment \<Rightarrow> string \<Rightarrow> string \<Rightarrow> string list" where
  "csv_env env name dflt =
     filter (\<lambda>v. v \<noteq> []) (map trim (split_on (\<lambda>c. c = CHR '','') (case env name of Some v \<Rightarrow> v | None \<Rightarrow> dflt)))"

record promotion_config =
  pc_environment :: string
  pc_allow_apply :: bool

definition promotion_config_from_env :: "environment \<Rightarrow> promotion_config" where
  "promotion_config_from_env env =
     \<lparr>pc_environment = (case env ''KRAB_ENVIRONMENT'' of Some v \<Rightarrow> v | None \<Rightarrow> ''dev''),
      pc_allow_apply = (case env ''DB_MIGRATION_ALLOW_APPLY'' of
         Some v \<Rightarrow> v = ''1'' \<or> eq_ignore_ascii_case v ''true'' | None \<Rightarrow> True)\<rparr>"

record governance_config =
  gc_service_name :: string
  gc_environment :: string
  gc_allow_apply :: bool
  gc_release_environments :: "string list"
  gc_require_rollback_rehearsal_in_release :: bool
  gc_drift_tolerance_threshold :: nat

definition governance_config_from_env :: "environment \<Rightarrow> governance_config" where
  "governance_config_from_env env =
     \<lparr>gc_service_name = (case env ''KRAB_SERVICE_NAME'' of Some v \<Rightarrow> v | None \<Rightarrow> ''unknown''),
      gc_environment = (case env ''KRAB_ENVIRONMENT'' of Some v \<Rightarrow> v | None \<Rightarrow> ''dev''),
      gc_allow_apply = bool_env env ''DB_MIGRATION_ALLOW_APPLY'' True,
      gc_release_environments = csv_env env ''DB_MIGRATION_RELEASE_ENVIRONMENTS'' ''staging,prod'',
      gc_require_rollback_rehearsal_in_release = bool_env env ''DB_MIGRATION_REQUIRE_REHEARSAL_IN_RELEASE'' True,
      gc_drift_tolerance_threshold =
        (case env ''DB_MIGRATION_DRIFT_THRESHOLD'' of
           Some v \<Rightarrow> (case parse_u64 v of Some n \<Rightarrow> unat n | None \<Rightarrow> 0)
         | None \<Rightarrow> 0)\<rparr>"

subsection \<open>Promotion\<close>

definition PROMOTION_LADDER :: "string list" where
  "PROMOTION_LADDER = [''local'', ''dev'', ''staging'', ''prod'']"

fun position :: "'a \<Rightarrow> 'a list \<Rightarrow> nat option" where
  "position x [] = None"
| "position x (y # ys) = (if x = y then Some 0 else map_option Suc (position x ys))"

definition promotion_stage_index :: "string \<Rightarrow> nat option" where
  "promotion_stage_index environment = position (ascii_lower (trim environment)) PROMOTION_LADDER"

text \<open>\<open>INSERT ... ON CONFLICT DO UPDATE SET updated_at = now()\<close>: the row becomes the newest.\<close>

definition record_environment :: "string \<Rightarrow> policy_db \<Rightarrow> policy_db" where
  "record_environment target db = db\<lparr>pd_environments := target # removeAll target (pd_environments db)\<rparr>"

definition enforce_promotion_policy :: "network \<Rightarrow> promotion_config \<Rightarrow> policy_db \<Rightarrow> (policy_error + unit) \<times> policy_db" where
  "enforce_promotion_policy net cfg db =
     (case send net id db of
        (False, db1) \<Rightarrow> (Inl PolicyUnavailable, db1)
      | (True, db1) \<Rightarrow>
          (let target = ascii_lower (trim (pc_environment cfg)) in
           case promotion_stage_index target of
             None \<Rightarrow> (Inl (UnknownTarget target), db1)
           | Some target_idx \<Rightarrow>
               (case send net id db1 of
                  (False, db2) \<Rightarrow> (Inl PolicyUnavailable, db2)
                | (True, db2) \<Rightarrow>
                    (let store = (case send net (record_environment target) db2 of
                                    (False, db3) \<Rightarrow> (Inl PolicyUnavailable, db3)
                                  | (True, db3) \<Rightarrow> (Inr (), db3))
                     in case pd_environments db2 of
                          [] \<Rightarrow> store
                        | previous_raw # _ \<Rightarrow>
                            (let previous = ascii_lower (trim previous_raw) in
                             case promotion_stage_index previous of
                               None \<Rightarrow> (Inl (UnknownRecorded previous), db2)
                             | Some prev_idx \<Rightarrow>
                                 if target_idx < prev_idx then (Inl (PromotionBackwards previous target), db2)
                                 else if previous \<noteq> target then store
                                 else (Inr (), db2))))))"

subsection \<open>Governance\<close>

definition record_rollback_rehearsal :: "network \<Rightarrow> rehearsal_row \<Rightarrow> policy_db \<Rightarrow> (policy_error + unit) \<times> policy_db" where
  "record_rollback_rehearsal net row db =
     (case send net id db of
        (False, db1) \<Rightarrow> (Inl PolicyUnavailable, db1)
      | (True, db1) \<Rightarrow>
          (case send net (\<lambda>db. db\<lparr>pd_rehearsals := row # pd_rehearsals db\<rparr>) db1 of
             (False, db2) \<Rightarrow> (Inl PolicyUnavailable, db2)
           | (True, db2) \<Rightarrow> (Inr (), db2)))"

definition is_release :: "governance_config \<Rightarrow> bool" where
  "is_release cfg = list_ex (\<lambda>e. eq_ignore_ascii_case e (gc_environment cfg)) (gc_release_environments cfg)"

definition rehearsed :: "string \<Rightarrow> policy_db \<Rightarrow> bool" where
  "rehearsed service db = list_ex (\<lambda>r. rh_service_name r = service \<and> rh_succeeded r) (pd_rehearsals db)"

text \<open>The statements before the decision: two tables created, the owner recorded.\<close>

definition record_owner :: "network \<Rightarrow> governance_config \<Rightarrow> policy_db \<Rightarrow> bool \<times> policy_db" where
  "record_owner net cfg db =
     (case send net id db of
        (False, db1) \<Rightarrow> (False, db1)
      | (True, db1) \<Rightarrow>
          (case send net id db1 of
             (False, db2) \<Rightarrow> (False, db2)
           | (True, db2) \<Rightarrow>
               send net (\<lambda>db. db\<lparr>pd_owners := hm_insert (gc_service_name cfg) (gc_environment cfg) (pd_owners db)\<rparr>) db2))"

definition check_rehearsal :: "network \<Rightarrow> governance_config \<Rightarrow> policy_db \<Rightarrow> (policy_error + unit) \<times> policy_db" where
  "check_rehearsal net cfg db =
     (if is_release cfg \<and> gc_require_rollback_rehearsal_in_release cfg then
        (case send net id db of
           (False, db1) \<Rightarrow> (Inl PolicyUnavailable, db1)
         | (True, db1) \<Rightarrow>
             (case send net id db1 of
                (False, db2) \<Rightarrow> (Inl PolicyUnavailable, db2)
              | (True, db2) \<Rightarrow> if rehearsed (gc_service_name cfg) db2 then (Inr (), db2) else (Inl MissingRehearsal, db2)))
      else (Inr (), db))"

definition enforce_migration_governance :: "network \<Rightarrow> governance_config \<Rightarrow> policy_db \<Rightarrow> (policy_error + unit) \<times> policy_db" where
  "enforce_migration_governance net cfg db =
     (case record_owner net cfg db of
        (False, db1) \<Rightarrow> (Inl PolicyUnavailable, db1)
      | (True, db1) \<Rightarrow>
          (case check_rehearsal net cfg db1 of
             (Inl err, db2) \<Rightarrow> (Inl err, db2)
           | (Inr _, db2) \<Rightarrow>
               (let row = \<lparr>au_service_name = gc_service_name cfg, au_environment = gc_environment cfg, au_allow = gc_allow_apply cfg\<rparr>
                in case send net (\<lambda>db. db\<lparr>pd_audit := row # pd_audit db\<rparr>) db2 of
                     (False, db3) \<Rightarrow> (Inl PolicyUnavailable, db3)
                   | (True, db3) \<Rightarrow> if gc_allow_apply cfg then (Inr (), db3) else (Inl ApplyDenied, db3))))"

subsection \<open>The life cycle of the users service\<close>

definition users_service_migrations :: "migration list" where
  "users_service_migrations =
     [\<lparr>mg_version = 1, mg_name = ''create_users'',
       mg_sql = ''CREATE TABLE IF NOT EXISTS users (id TEXT PRIMARY KEY, username TEXT NOT NULL UNIQUE, email TEXT NOT NULL UNIQUE, created_at TIMESTAMPTZ NOT NULL DEFAULT now(), updated_at TIMESTAMPTZ NOT NULL DEFAULT now())'',
       mg_rollback_sql = Some ''DROP TABLE IF EXISTS users'', mg_critical = True, mg_destructive = False\<rparr>,
      \<lparr>mg_version = 2, mg_name = ''create_users_created_at_index'',
       mg_sql = ''CREATE INDEX IF NOT EXISTS idx_users_created_at ON users(created_at)'',
       mg_rollback_sql = Some ''DROP INDEX IF EXISTS idx_users_created_at'', mg_critical = False, mg_destructive = False\<rparr>,
      \<lparr>mg_version = 3, mg_name = ''create_user_profiles'',
       mg_sql = ''CREATE TABLE IF NOT EXISTS user_profiles (user_id TEXT PRIMARY KEY REFERENCES users(id) ON DELETE CASCADE, display_name TEXT, bio TEXT, avatar_url TEXT, updated_at TIMESTAMPTZ NOT NULL DEFAULT now())'',
       mg_rollback_sql = Some ''DROP TABLE IF EXISTS user_profiles'', mg_critical = False, mg_destructive = False\<rparr>,
      \<lparr>mg_version = 4, mg_name = ''create_user_audit_log'',
       mg_sql = ''CREATE TABLE IF NOT EXISTS user_audit_log (id BIGSERIAL PRIMARY KEY, user_id TEXT NOT NULL REFERENCES users(id) ON DELETE CASCADE, action TEXT NOT NULL, actor_sub TEXT, created_at TIMESTAMPTZ NOT NULL DEFAULT now())'',
       mg_rollback_sql = Some ''DROP TABLE IF EXISTS user_audit_log'', mg_critical = False, mg_destructive = False\<rparr>,
      \<lparr>mg_version = 5, mg_name = ''create_user_audit_log_created_at_index'',
       mg_sql = ''CREATE INDEX IF NOT EXISTS idx_user_audit_log_created_at ON user_audit_log(created_at)'',
       mg_rollback_sql = Some ''DROP INDEX IF EXISTS idx_user_audit_log_created_at'', mg_critical = False, mg_destructive = False\<rparr>,
      \<lparr>mg_version = 6, mg_name = ''add_tenant_id_to_users'',
       mg_sql = ''ALTER TABLE users ADD COLUMN IF NOT EXISTS tenant_id TEXT'',
       mg_rollback_sql = Some ''ALTER TABLE users DROP COLUMN IF EXISTS tenant_id'', mg_critical = True, mg_destructive = False\<rparr>,
      \<lparr>mg_version = 7, mg_name = ''create_users_tenant_id_index'',
       mg_sql = ''CREATE INDEX IF NOT EXISTS idx_users_tenant_id ON users(tenant_id)'',
       mg_rollback_sql = Some ''DROP INDEX IF EXISTS idx_users_tenant_id'', mg_critical = False, mg_destructive = False\<rparr>]"

datatype lifecycle_error = PolicyFailed policy_error | MigrationsFailed db_error

text \<open>The policy tables and the application's schema: one network each, as their steps are counted apart.\<close>

definition run_postgres_migration_lifecycle ::
  "'d sql_engine \<Rightarrow> network \<Rightarrow> network \<Rightarrow> environment \<Rightarrow> policy_db \<times> 'd database \<Rightarrow> (lifecycle_error + drift_report) \<times> policy_db \<times> 'd database" where
  "run_postgres_migration_lifecycle e pnet net env = (\<lambda>(pd, db).
     case enforce_promotion_policy pnet (promotion_config_from_env env) pd of
       (Inl err, pd1) \<Rightarrow> (Inl (PolicyFailed err), pd1, db)
     | (Inr _, pd1) \<Rightarrow>
         (case enforce_migration_governance pnet (governance_config_from_env env) pd1 of
            (Inl err, pd2) \<Rightarrow> (Inl (PolicyFailed err), pd2, db)
          | (Inr _, pd2) \<Rightarrow>
              (case run_versioned_migrations e net (migration_failure_policy_from_env env) users_service_migrations db of
                 (Inl err, db1) \<Rightarrow> (Inl (MigrationsFailed err), pd2, db1)
               | (Inr _, db1) \<Rightarrow>
                   (case detect_migration_drift e net users_service_migrations db1 of
                      (Inl err, db2) \<Rightarrow> (Inl (MigrationsFailed err), pd2, db2)
                    | (Inr drift, db2) \<Rightarrow> (Inr drift, pd2, db2)))))"


subsection \<open>Names of environments\<close>

lemma is_ws_lower: "map is_ws (ascii_lower s) = map is_ws s"
  by (induction s) (simp_all add: ascii_lower_def Let_def is_ws_def)

lemma dropWhile_lower: "dropWhile is_ws (ascii_lower s) = ascii_lower (dropWhile is_ws s)"
proof (induction s)
  case (Cons c s)
  have "is_ws (hd (ascii_lower (c # s))) = is_ws c" using arg_cong [OF is_ws_lower [of "c # s"], of hd] by (simp add: ascii_lower_def)
  then show ?case using Cons by (simp add: ascii_lower_def)
qed (simp add: ascii_lower_def)

lemma ascii_lower_rev: "ascii_lower (rev s) = rev (ascii_lower s)"
  by (simp add: ascii_lower_def rev_map)

lemma trim_lower: "trim (ascii_lower s) = ascii_lower (trim s)"
  by (simp add: trim_def trim_start_def trim_end_def dropWhile_lower ascii_lower_rev [symmetric])

lemma normal_name: "ascii_lower (trim (ascii_lower (trim s))) = ascii_lower (trim s)"
  by (simp add: trim_lower trim_idem ascii_lower_idem)

lemma stage_normal [simp]: "promotion_stage_index (ascii_lower (trim s)) = promotion_stage_index s"
  by (simp add: promotion_stage_index_def normal_name)

subsection \<open>Promotion only goes forward\<close>

text \<open>The stage of a name; one that is off the ladder is above every stage.\<close>

definition stage :: "string \<Rightarrow> nat" where
  "stage e = (case promotion_stage_index e of Some i \<Rightarrow> i | None \<Rightarrow> length PROMOTION_LADDER)"

definition level :: "policy_db \<Rightarrow> nat" where
  "level db = (case pd_environments db of [] \<Rightarrow> 0 | e # _ \<Rightarrow> stage e)"

text \<open>A sequence of promotions: the targets that were accepted, and the tables after it.\<close>

fun promotions :: "network \<Rightarrow> promotion_config list \<Rightarrow> policy_db \<Rightarrow> string list \<times> policy_db" where
  "promotions net [] db = ([], db)"
| "promotions net (cfg # cfgs) db =
     (case enforce_promotion_policy net cfg db of
        (Inr _, db') \<Rightarrow> (case promotions net cfgs db' of (accepted, db'') \<Rightarrow> (pc_environment cfg # accepted, db''))
      | (Inl _, db') \<Rightarrow> promotions net cfgs db')"

lemma send_cases:
  assumes "send net f db = (b, db')"
  shows "(\<not> b \<and> db' = db\<lparr>pd_step := Suc (pd_step db)\<rparr>) \<or> db' = f (db\<lparr>pd_step := Suc (pd_step db)\<rparr>)"
  using assms by (auto simp: send_def Let_def split: reply.splits)

lemma send_frame:
  assumes "send net id db = (b, db')"
  shows "db' = db\<lparr>pd_step := Suc (pd_step db)\<rparr>"
  using send_cases [OF assms] by auto

lemma position_less: "position x ys = Some i \<Longrightarrow> i < length ys"
  by (induction ys arbitrary: i) (auto split: if_splits)

lemma stage_name: "stage (ascii_lower (trim e)) = stage e"
  by (simp add: stage_def)

lemma stage_known: "promotion_stage_index e = Some i \<Longrightarrow> stage e = i \<and> i < length PROMOTION_LADDER"
  by (auto simp: stage_def promotion_stage_index_def dest: position_less)

lemma level_step [simp]: "level (db\<lparr>pd_step := n\<rparr>) = level db"
  by (simp add: level_def)

lemma level_record [simp]: "level (record_environment target db) = stage target"
  by (simp add: level_def record_environment_def)

text \<open>An attempt at a promotion, successful or not, leaves the recorded stage or raises it.\<close>

lemma promotion_level:
  assumes "enforce_promotion_policy net cfg db = (r, db')"
  shows "level db \<le> level db' \<and> pd_rehearsals db' = pd_rehearsals db \<and> pd_audit db' = pd_audit db \<and>
    (r = Inr () \<longrightarrow> level db' = stage (pc_environment cfg) \<and> stage (pc_environment cfg) < length PROMOTION_LADDER)"
proof -
  let ?target = "ascii_lower (trim (pc_environment cfg))"
  obtain b1 db1 where s1: "send net id db = (b1, db1)" by fastforce
  note f1 = send_frame [OF s1]
  show ?thesis
  proof (cases "b1 \<and> promotion_stage_index (pc_environment cfg) \<noteq> None")
    case False
    then show ?thesis using assms s1 f1 by (cases b1) (auto simp: enforce_promotion_policy_def Let_def)
  next
    case True
    then obtain ti where b1: "b1" and ti: "promotion_stage_index (pc_environment cfg) = Some ti" by blast
    note ti' = stage_known [OF ti]
    obtain b2 db2 where s2: "send net id db1 = (b2, db2)" by fastforce
    note f2 = send_frame [OF s2]
    obtain b3 db3 where s3: "send net (record_environment ?target) db2 = (b3, db3)" by fastforce
    have lv: "level db2 = level db" "pd_environments db2 = pd_environments db" "pd_rehearsals db2 = pd_rehearsals db" "pd_audit db2 = pd_audit db"
      using f1 f2 by simp_all
    have f3: "pd_rehearsals db3 = pd_rehearsals db \<and> pd_audit db3 = pd_audit db \<and> (level db3 = stage (pc_environment cfg) \<or> \<not> b3 \<and> level db3 = level db)"
      using send_cases [OF s3] lv by (auto simp: stage_name) (simp_all add: record_environment_def)
    show ?thesis
    proof (cases "b2")
      case False
      then show ?thesis using assms s1 b1 ti s2 lv by (auto simp: enforce_promotion_policy_def Let_def)
    next
      case b2: True
      show ?thesis
      proof (cases "pd_environments db")
        case Nil
        then show ?thesis using assms s1 b1 ti s2 b2 s3 lv f3 ti'
          by (cases b3) (auto simp: enforce_promotion_policy_def Let_def level_def)
      next
        case (Cons prev rest)
        show ?thesis
        proof (cases "promotion_stage_index prev")
          case None
          then show ?thesis using assms s1 b1 ti s2 b2 lv Cons by (auto simp: enforce_promotion_policy_def Let_def)
        next
          case (Some pi)
          have lp: "level db = pi" using Cons stage_known [OF Some] by (simp add: level_def)
          consider "ti < pi" | "\<not> ti < pi" "ascii_lower (trim prev) = ?target" | "\<not> ti < pi" "ascii_lower (trim prev) \<noteq> ?target" by blast
          then show ?thesis
          proof cases
            case 1
            then show ?thesis using assms s1 b1 ti s2 b2 lv Cons Some by (auto simp: enforce_promotion_policy_def Let_def)
          next
            case 2
            have "stage prev = stage (pc_environment cfg)" using 2(2) stage_name by metis
            then show ?thesis using 2 assms s1 b1 ti s2 b2 lv Cons Some ti'
              by (simp add: enforce_promotion_policy_def Let_def level_def)
          next
            case 3
            then show ?thesis using assms s1 b1 ti s2 b2 lv Cons Some s3 f3 ti' lp
              by (cases b3) (auto simp: enforce_promotion_policy_def Let_def)
          qed
        qed
      qed
    qed
  qed
qed

text \<open>
  promotion is forward only. Over any sequence of promotions, on a network that may refuse statements or
  lose answers, the accepted targets are all on the ladder and climb it: none is below an earlier accepted one
  nor below the environment recorded at the start, and the recorded stage never sinks, whatever fails.
\<close>

theorem promotion_is_forward_only:
  "sorted (level db # map stage (fst (promotions net cfgs db))) \<and>
   (\<forall>t \<in> set (fst (promotions net cfgs db)). t \<in> pc_environment ` set cfgs \<and> stage t < length PROMOTION_LADDER \<and> stage t \<le> level (snd (promotions net cfgs db))) \<and>
   level db \<le> level (snd (promotions net cfgs db))"
proof (induction cfgs arbitrary: db)
  case (Cons cfg cfgs)
  obtain r db1 where one: "enforce_promotion_policy net cfg db = (r, db1)" by fastforce
  note p = promotion_level [OF one]
  obtain ts db2 where rest: "promotions net cfgs db1 = (ts, db2)" by fastforce
  note IH = Cons.IH [of db1, unfolded rest fst_conv snd_conv]
  show ?case
  proof (cases r)
    case (Inl err)
    then show ?thesis using IH p one rest by auto
  next
    case (Inr u)
    then show ?thesis using IH p one rest by auto
  qed
qed simp


subsection \<open>What governance lets through\<close>

definition verdict :: "governance_config \<Rightarrow> audit_row" where
  "verdict cfg = \<lparr>au_service_name = gc_service_name cfg, au_environment = gc_environment cfg, au_allow = gc_allow_apply cfg\<rparr>"

lemma record_owner_frame:
  assumes "record_owner net cfg db = (b, db')"
  shows "pd_environments db' = pd_environments db \<and> pd_rehearsals db' = pd_rehearsals db \<and> pd_audit db' = pd_audit db"
proof -
  obtain b1 db1 where s1: "send net id db = (b1, db1)" by fastforce
  obtain b2 db2 where s2: "send net id db1 = (b2, db2)" by fastforce
  obtain b3 db3 where s3: "send net (\<lambda>db. db\<lparr>pd_owners := hm_insert (gc_service_name cfg) (gc_environment cfg) (pd_owners db)\<rparr>) db2 = (b3, db3)"
    by fastforce
  show ?thesis using assms s1 s2 s3 send_frame [OF s1] send_frame [OF s2] send_cases [OF s3]
    by (auto simp: record_owner_def split: bool.splits)
qed

lemma check_rehearsal_frame:
  assumes "check_rehearsal net cfg db = (r, db')"
  shows "(\<exists>n. db' = db\<lparr>pd_step := n\<rparr>) \<and> r \<noteq> Inl ApplyDenied \<and>
    (r = Inr () \<longrightarrow> is_release cfg \<and> gc_require_rollback_rehearsal_in_release cfg \<longrightarrow> rehearsed (gc_service_name cfg) db)"
proof (cases "is_release cfg \<and> gc_require_rollback_rehearsal_in_release cfg")
  case True
  obtain b1 db1 where s1: "send net id db = (b1, db1)" by fastforce
  obtain b2 db2 where s2: "send net id db1 = (b2, db2)" by fastforce
  have d: "db1 = db\<lparr>pd_step := Suc (pd_step db)\<rparr>" "db2 = db\<lparr>pd_step := Suc (Suc (pd_step db))\<rparr>"
    using send_frame [OF s1] send_frame [OF s2] by simp_all
  have rh: "rehearsed (gc_service_name cfg) db2 = rehearsed (gc_service_name cfg) db" by (simp add: d rehearsed_def)
  have ex: "\<exists>n. db1 = db\<lparr>pd_step := n\<rparr>" "\<exists>n. db2 = db\<lparr>pd_step := n\<rparr>" using d by blast+
  show ?thesis using assms True s1 s2 rh ex
    by (cases b1; cases b2; cases "rehearsed (gc_service_name cfg) db") (auto simp: check_rehearsal_def)
next
  case False
  then show ?thesis using assms by (auto simp: check_rehearsal_def intro: exI [of _ "pd_step db"])
qed

lemma governance_cases:
  assumes "enforce_migration_governance net cfg db = (r, db')"
  shows "pd_environments db' = pd_environments db \<and> pd_rehearsals db' = pd_rehearsals db \<and>
    (r = Inr () \<longrightarrow> gc_allow_apply cfg \<and> pd_audit db' = verdict cfg # pd_audit db \<and>
      (is_release cfg \<and> gc_require_rollback_rehearsal_in_release cfg \<longrightarrow> rehearsed (gc_service_name cfg) db)) \<and>
    (r = Inl ApplyDenied \<longrightarrow> \<not> gc_allow_apply cfg \<and> pd_audit db' = verdict cfg # pd_audit db)"
proof -
  obtain b1 db1 where s1: "record_owner net cfg db = (b1, db1)" by fastforce
  note f1 = record_owner_frame [OF s1]
  obtain x db2 where s2: "check_rehearsal net cfg db1 = (x, db2)" by fastforce
  have f2: "pd_environments db2 = pd_environments db" "pd_rehearsals db2 = pd_rehearsals db" "pd_audit db2 = pd_audit db"
    using check_rehearsal_frame [OF s2] f1 by auto
  have rh: "rehearsed (gc_service_name cfg) db1 = rehearsed (gc_service_name cfg) db" using f1 by (simp add: rehearsed_def)
  obtain b3 db3 where s3: "send net (\<lambda>db. db\<lparr>pd_audit := verdict cfg # pd_audit db\<rparr>) db2 = (b3, db3)" by fastforce
  have f3: "pd_environments db3 = pd_environments db" "pd_rehearsals db3 = pd_rehearsals db" "b3 \<Longrightarrow> pd_audit db3 = verdict cfg # pd_audit db"
    using send_cases [OF s3] f2 by auto
  have step: "enforce_migration_governance net cfg db =
      (if \<not> b1 then (Inl PolicyUnavailable, db1)
       else case x of Inl err \<Rightarrow> (Inl err, db2)
         | Inr _ \<Rightarrow> if \<not> b3 then (Inl PolicyUnavailable, db3) else if gc_allow_apply cfg then (Inr (), db3) else (Inl ApplyDenied, db3))"
    using s1 s2 s3 [unfolded verdict_def] by (auto simp: enforce_migration_governance_def Let_def split: sum.splits bool.splits)
  show ?thesis
  proof (cases "b1")
    case False
    then show ?thesis using assms step f1 by auto
  next
    case b1: True
    show ?thesis
    proof (cases x)
      case (Inl err)
      then show ?thesis using assms step b1 f2 check_rehearsal_frame [OF s2] by auto
    next
      case (Inr u)
      then show ?thesis using assms step b1 f3 check_rehearsal_frame [OF s2] rh
        by (cases b3; cases "gc_allow_apply cfg") auto
    qed
  qed
qed

lemma users_migrations_distinct: "distinct (map mg_version users_service_migrations)"
  by (simp add: users_service_migrations_def)

lemma drift_keeps:
  assumes "\<forall>m \<in> set ms. recorded e (rows db) m" and "db_ledger db \<noteq> None" and "detect_migration_drift e net ms db = (Inr drift, db')"
  shows "rows db' = rows db \<and> dr_missing_versions drift = [] \<and> dr_checksum_mismatches drift = []"
proof -
  obtain l where l: "db_ledger db = Some l" using assms(2) by auto
  then show ?thesis using drift_recorded [of ms e l db net] assms(1,3) by (auto simp: rows_def split: if_splits)
qed

text \<open>
  C26: the schema changes only when it may. If the life cycle of the users service succeeds, or has changed
  the schema or the ledger at all, then applying is allowed, the environment is on the ladder and not below the
  recorded one, a release environment has a successful rehearsal on record where one is required, and the
  decision stands in the audit table; a denial is recorded there too and leaves the schema alone. And under
  the halting policy a success means that every migration of the service is recorded and nothing has drifted.
\<close>

theorem schema_changes_only_when_allowed:
  assumes "run_postgres_migration_lifecycle e pnet net env (pd, db) = (r, pd', db')"
  shows "(db' \<noteq> db \<or> (\<exists>drift. r = Inr drift) \<longrightarrow>
      gc_allow_apply (governance_config_from_env env) \<and>
      level pd \<le> level pd' \<and> level pd' = stage (gc_environment (governance_config_from_env env)) \<and> level pd' < length PROMOTION_LADDER \<and>
      (is_release (governance_config_from_env env) \<and> gc_require_rollback_rehearsal_in_release (governance_config_from_env env) \<longrightarrow>
        rehearsed (gc_service_name (governance_config_from_env env)) pd) \<and>
      pd_audit pd' = verdict (governance_config_from_env env) # pd_audit pd) \<and>
    (r = Inl (PolicyFailed ApplyDenied) \<longrightarrow>
      db' = db \<and> pd_audit pd' = verdict (governance_config_from_env env) # pd_audit pd \<and> \<not> gc_allow_apply (governance_config_from_env env)) \<and>
    (\<forall>drift. r = Inr drift \<and> migration_failure_policy_from_env env = Halt \<longrightarrow>
      (\<forall>m \<in> set users_service_migrations. recorded e (rows db') m) \<and> dr_missing_versions drift = [] \<and> dr_checksum_mismatches drift = [])"
proof -
  let ?g = "governance_config_from_env env" and ?p = "promotion_config_from_env env"
  have name: "pc_environment ?p = gc_environment ?g" by (simp add: promotion_config_from_env_def governance_config_from_env_def)
  obtain x pd1 where pr: "enforce_promotion_policy pnet ?p pd = (x, pd1)" by fastforce
  note p = promotion_level [OF pr, unfolded name]
  obtain y pd2 where go: "enforce_migration_governance pnet ?g pd1 = (y, pd2)" by fastforce
  note g = governance_cases [OF go]
  show ?thesis
  proof (cases "\<exists>err. x = Inl err")
    case True
    have "x \<noteq> Inl ApplyDenied" using pr
      by (auto simp: enforce_promotion_policy_def Let_def split: prod.splits bool.splits option.splits list.splits if_splits)
    then show ?thesis using True assms pr by (auto simp: run_postgres_migration_lifecycle_def)
  next
    case False
    then have x: "x = Inr ()" by (cases x) auto
    show ?thesis
    proof (cases "\<exists>err. y = Inl err")
      case True
      then show ?thesis using assms pr go x g p by (auto simp: run_postgres_migration_lifecycle_def)
    next
      case False
      then have y: "y = Inr ()" by (cases y) auto
      have ok: "gc_allow_apply ?g" "level pd \<le> level pd2" "level pd2 = stage (gc_environment ?g)" "level pd2 < length PROMOTION_LADDER"
        "is_release ?g \<and> gc_require_rollback_rehearsal_in_release ?g \<longrightarrow> rehearsed (gc_service_name ?g) pd"
        "pd_audit pd2 = verdict ?g # pd_audit pd"
        using p g x y by (simp_all add: level_def rehearsed_def)
      obtain z db1 where run: "run_versioned_migrations e net (migration_failure_policy_from_env env) users_service_migrations db = (z, db1)"
        by fastforce
      obtain d db2 where dr: "detect_migration_drift e net users_service_migrations db1 = (d, db2)" by fastforce
      have res: "pd' = pd2" "r \<noteq> Inl (PolicyFailed ApplyDenied)"
        "\<And>drift. r = Inr drift \<Longrightarrow> (\<exists>report. z = Inr report) \<and> d = Inr drift \<and> db' = db2"
        using assms pr go x y run dr by (auto simp: run_postgres_migration_lifecycle_def split: sum.splits)
      have "(\<forall>m \<in> set users_service_migrations. recorded e (rows db') m) \<and> dr_missing_versions drift = [] \<and> dr_checksum_mismatches drift = []"
        if drift: "r = Inr drift" and halt: "migration_failure_policy_from_env env = Halt" for drift
      proof -
        obtain report where z: "z = Inr report" using res(3) [OF drift] by blast
        note s = run_success [OF run [unfolded z halt] users_migrations_distinct]
        then have "\<forall>m \<in> set users_service_migrations. recorded e (rows db1) m" "db_ledger db1 \<noteq> None" by blast+
        from drift_keeps [OF this] dr res(3) [OF drift] s show ?thesis by simp
      qed
      then show ?thesis using ok res by simp
    qed
  qed
qed


subsection \<open>Witnesses\<close>

definition demo_env :: "string \<Rightarrow> environment" where
  "demo_env here = (\<lambda>k. if k = ''KRAB_ENVIRONMENT'' then Some here else if k = ''KRAB_SERVICE_NAME'' then Some ''users'' else None)"

definition demo_policy_db :: "rehearsal_row list \<Rightarrow> policy_db" where
  "demo_policy_db rehearsals = \<lparr>pd_environments = [''dev''], pd_owners = [], pd_audit = [], pd_rehearsals = rehearsals, pd_step = 0\<rparr>"

definition demo_rehearsal :: rehearsal_row where
  "demo_rehearsal = \<lparr>rh_service_name = ''users'', rh_environment = ''staging'', rh_rollback_target = 0, rh_artifact_uri = ''s3'', rh_succeeded = True\<rparr>"

text \<open>An engine that accepts every SQL text and counts them.\<close>

definition counting_engine :: "nat sql_engine" where
  "counting_engine = \<lparr>sq_exec = (\<lambda>_ n. Some (Suc n)), sq_sha256 = (\<lambda>sql. take 30 sql), sq_default_hasher = (\<lambda>sql. '''')\<rparr>"

definition empty_db :: "nat database" where
  "empty_db = \<lparr>db_schema = 0, db_ledger = None, db_step = 0\<rparr>"

lemma demo_lifecycle:
  "fst (run_postgres_migration_lifecycle counting_engine reliable reliable (demo_env ''prod'') (demo_policy_db [demo_rehearsal], empty_db)) =
     Inr \<lparr>dr_missing_versions = [], dr_unexpected_versions = [], dr_checksum_mismatches = []\<rparr>"
  by code_simp

lemma schema_changes_only_when_allowed_witness:
  "\<exists>pd' db'. run_postgres_migration_lifecycle counting_engine reliable reliable (demo_env ''prod'') (demo_policy_db [demo_rehearsal], empty_db) =
      (Inr \<lparr>dr_missing_versions = [], dr_unexpected_versions = [], dr_checksum_mismatches = []\<rparr>, pd', db') \<and>
    level pd' = stage (gc_environment (governance_config_from_env (demo_env ''prod''))) \<and>
    list_all (recorded counting_engine (rows db')) users_service_migrations"
proof -
  obtain r pd' db' where run: "run_postgres_migration_lifecycle counting_engine reliable reliable (demo_env ''prod'')
      (demo_policy_db [demo_rehearsal], empty_db) = (r, pd', db')"
    by (cases "run_postgres_migration_lifecycle counting_engine reliable reliable (demo_env ''prod'') (demo_policy_db [demo_rehearsal], empty_db)") auto
  have r: "r = Inr \<lparr>dr_missing_versions = [], dr_unexpected_versions = [], dr_checksum_mismatches = []\<rparr>" using demo_lifecycle by (simp add: run)
  have halt: "migration_failure_policy_from_env (demo_env ''prod'') = Halt" by code_simp
  show ?thesis using schema_changes_only_when_allowed [OF run] run r halt by (simp add: list_all_iff)
qed

lemma promotion_is_forward_only_witness:
  "sorted (0 # map stage [''Dev'', ''prod'']) \<and> stage ''prod'' \<le> 3"
proof -
  let ?run = "promotions (\<lambda>n. if n = 8 then NotDone else Answered) [\<lparr>pc_environment = ''Dev'', pc_allow_apply = True\<rparr>,
      \<lparr>pc_environment = ''local'', pc_allow_apply = True\<rparr>, \<lparr>pc_environment = ''prod'', pc_allow_apply = True\<rparr>,
      \<lparr>pc_environment = ''staging'', pc_allow_apply = True\<rparr>]
      \<lparr>pd_environments = [], pd_owners = [], pd_audit = [], pd_rehearsals = [], pd_step = 0\<rparr>"
  have run: "fst ?run = [''Dev'', ''prod'']" "level (snd ?run) = 3"
    "level \<lparr>pd_environments = [], pd_owners = [], pd_audit = [], pd_rehearsals = [], pd_step = 0\<rparr> = 0" by code_simp+
  show ?thesis
    using promotion_is_forward_only [of "\<lparr>pd_environments = [], pd_owners = [], pd_audit = [], pd_rehearsals = [], pd_step = 0\<rparr>"
        "\<lambda>n. if n = 8 then NotDone else Answered" "[\<lparr>pc_environment = ''Dev'', pc_allow_apply = True\<rparr>,
      \<lparr>pc_environment = ''local'', pc_allow_apply = True\<rparr>, \<lparr>pc_environment = ''prod'', pc_allow_apply = True\<rparr>,
      \<lparr>pc_environment = ''staging'', pc_allow_apply = True\<rparr>]"] unfolding run by simp
qed

text \<open>
  The promotion is recorded before governance decides: a life cycle refused in \<open>prod\<close> for want of a rehearsal has
  changed no schema, and yet the database now counts as promoted and refuses to go back to \<open>staging\<close>.
\<close>

lemma refused_release_is_promoted:
  "case run_postgres_migration_lifecycle counting_engine reliable reliable (demo_env ''prod'') (demo_policy_db [], empty_db) of
     (r, pd, db) \<Rightarrow> r = Inl (PolicyFailed MissingRehearsal) \<and> db = empty_db \<and>
       fst (run_postgres_migration_lifecycle counting_engine reliable reliable (demo_env ''staging'') (pd, db)) =
         Inl (PolicyFailed (PromotionBackwards ''prod'' ''staging''))"
  by code_simp

end
