(* ===== verification/DbConnect.thy ===== *)
theory DbConnect
  imports ServiceConfig "HOL-Library.Word"
begin

text \<open>
  Reaching the database: driver selection (\<open>krab_core/src/db/driver.rs\<close>), the pool configuration, the
  redaction of connection URLs and the connection with retries (\<open>krab_core/src/db/postgres.rs\<close>). What one
  attempt to connect yields is a parameter, as is the hash the jitter comes from.
\<close>

subsection \<open>Drivers\<close>

datatype db_driver = Postgres | Sqlite

definition driver_as_str :: "db_driver \<Rightarrow> string" where
  "driver_as_str d = (case d of Postgres \<Rightarrow> ''postgres'' | Sqlite \<Rightarrow> ''sqlite'')"

definition supports_migration_governance :: "db_driver \<Rightarrow> bool" where
  "supports_migration_governance d = (d = Postgres)"

definition parse_driver :: "string \<Rightarrow> string + db_driver" where
  "parse_driver input =
     (let v = ascii_lower (trim input)
      in if v = ''postgres'' then Inr Postgres else if v = ''sqlite'' then Inr Sqlite else Inl v)"

definition resolve_db_driver :: "environment \<Rightarrow> string + db_driver" where
  "resolve_db_driver env =
     (case env ''KRAB_DB_DRIVER'' of
        Some raw \<Rightarrow> if trim raw \<noteq> [] then parse_driver raw else Inr Postgres
      | None \<Rightarrow> Inr Postgres)"

definition default_db_url_for_driver :: "db_driver \<Rightarrow> string" where
  "default_db_url_for_driver d =
     (case d of Postgres \<Rightarrow> ''postgres://postgres@localhost:5432/krab_users'' | Sqlite \<Rightarrow> ''sqlite://krab.sqlite?mode=rwc'')"

subsection \<open>The pool configuration\<close>

record db_config =
  dc_url :: string
  dc_max_connections :: u32
  dc_min_connections :: u32
  dc_acquire_timeout :: duration
  dc_max_lifetime :: duration
  dc_idle_timeout :: duration
  dc_connect_retries :: u32
  dc_connect_retry_delay :: duration

definition db_config_default :: db_config where
  "db_config_default =
     \<lparr>dc_url = ''postgres://postgres@localhost:5432/krab'', dc_max_connections = 10, dc_min_connections = 1,
      dc_acquire_timeout = from_secs 5, dc_max_lifetime = from_secs (30 * 60), dc_idle_timeout = from_secs (10 * 60),
      dc_connect_retries = 5, dc_connect_retry_delay = from_millis 750\<rparr>"

datatype db_config_error =
    UrlUnreadable read_error
  | InvalidValue string string
  | MaxConnectionsZero
  | MinAboveMax u32 u32
  | ZeroDuration string
  | UrlMissing string
  | DefaultCredentials string

definition parse_u32_env :: "environment \<Rightarrow> string \<Rightarrow> u32 \<Rightarrow> db_config_error + u32" where
  "parse_u32_env env name dflt =
     (case env name of
        Some raw \<Rightarrow> (case parse_unsigned (2 ^ 32 - 1) (trim raw) of
                     Some n \<Rightarrow> Inr (of_nat n)
                   | None \<Rightarrow> Inl (InvalidValue name raw))
      | None \<Rightarrow> Inr dflt)"

definition validate_db_config :: "db_config \<Rightarrow> db_config_error + unit" where
  "validate_db_config cfg =
     (if \<not> 1 \<le> dc_max_connections cfg then Inl MaxConnectionsZero
      else if \<not> dc_min_connections cfg \<le> dc_max_connections cfg then Inl (MinAboveMax (dc_min_connections cfg) (dc_max_connections cfg))
      else if dc_acquire_timeout cfg = 0 then Inl (ZeroDuration ''DB_ACQUIRE_TIMEOUT_SECS'')
      else if dc_max_lifetime cfg = 0 then Inl (ZeroDuration ''DB_MAX_LIFETIME_SECS'')
      else if dc_idle_timeout cfg = 0 then Inl (ZeroDuration ''DB_IDLE_TIMEOUT_SECS'')
      else if dc_connect_retry_delay cfg = 0 then Inl (ZeroDuration ''DB_CONNECT_RETRY_DELAY_MS'')
      else Inr ())"

definition db_config_from_env :: "environment \<Rightarrow> (string \<Rightarrow> string option) \<Rightarrow> string \<Rightarrow> db_config_error + db_config" where
  "db_config_from_env env fs default_url =
     (case read_env_or_file env fs ''DATABASE_URL'' of
        Inl err \<Rightarrow> Inl (UrlUnreadable err)
      | Inr found \<Rightarrow>
     (case parse_u32_env env ''DB_MAX_CONNECTIONS'' (dc_max_connections db_config_default) of
        Inl err \<Rightarrow> Inl err
      | Inr max_conn \<Rightarrow>
     (case parse_u32_env env ''DB_MIN_CONNECTIONS'' (dc_min_connections db_config_default) of
        Inl err \<Rightarrow> Inl err
      | Inr min_conn \<Rightarrow>
     (case parse_u32_env env ''DB_CONNECT_RETRIES'' (dc_connect_retries db_config_default) of
        Inl err \<Rightarrow> Inl err
      | Inr retries \<Rightarrow>
     (case parse_u32_env env ''DB_CONNECT_RETRY_DELAY_MS'' (of_nat (as_millis (dc_connect_retry_delay db_config_default))) of
        Inl err \<Rightarrow> Inl err
      | Inr delay \<Rightarrow>
     (case parse_u32_env env ''DB_ACQUIRE_TIMEOUT_SECS'' (of_nat (as_secs (dc_acquire_timeout db_config_default))) of
        Inl err \<Rightarrow> Inl err
      | Inr acquire \<Rightarrow>
     (case parse_u32_env env ''DB_MAX_LIFETIME_SECS'' (of_nat (as_secs (dc_max_lifetime db_config_default))) of
        Inl err \<Rightarrow> Inl err
      | Inr lifetime \<Rightarrow>
     (case parse_u32_env env ''DB_IDLE_TIMEOUT_SECS'' (of_nat (as_secs (dc_idle_timeout db_config_default))) of
        Inl err \<Rightarrow> Inl err
      | Inr idle \<Rightarrow>
          let cfg = \<lparr>dc_url = (case found of Some u \<Rightarrow> u | None \<Rightarrow> default_url),
                     dc_max_connections = max_conn, dc_min_connections = min_conn,
                     dc_acquire_timeout = from_secs (unat acquire), dc_max_lifetime = from_secs (unat lifetime),
                     dc_idle_timeout = from_secs (unat idle), dc_connect_retries = retries,
                     dc_connect_retry_delay = from_millis (unat delay)\<rparr>
          in (case validate_db_config cfg of Inl err \<Rightarrow> Inl err | Inr _ \<Rightarrow> Inr cfg)))))))))"

definition validate_security :: "environment \<Rightarrow> db_config \<Rightarrow> db_config_error + unit" where
  "validate_security env cfg =
     (let e = (case env ''KRAB_ENVIRONMENT'' of Some v \<Rightarrow> v | None \<Rightarrow> ''dev'')
      in if eq_ignore_ascii_case e ''local'' \<or> eq_ignore_ascii_case e ''dev'' then Inr ()
         else if trim (dc_url cfg) = [] then Inl (UrlMissing e)
         else if str_contains (trim (dc_url cfg)) ''postgres:password@'' then Inl (DefaultCredentials e)
         else Inr ())"

subsection \<open>Redaction\<close>

definition redact_db_url :: "string \<Rightarrow> string" where
  "redact_db_url url =
     (case split_seq ''//'' url of
        None \<Rightarrow> url
      | Some (scheme, rest) \<Rightarrow>
          (case rsplit_once (CHR ''@'') (takeWhile (\<lambda>c. c \<noteq> CHR ''/'') rest) of
             Some (_, host) \<Rightarrow> scheme @ ''//'' @ ''***@'' @ host @ dropWhile (\<lambda>c. c \<noteq> CHR ''/'') rest
           | None \<Rightarrow> url))"

subsection \<open>Connecting\<close>

datatype connect_error = Io | PoolTimedOut | Tls | Configuration | DatabaseError "string option" | OtherError

definition is_transient_connect_error :: "connect_error \<Rightarrow> bool" where
  "is_transient_connect_error err =
     (case err of
        Io \<Rightarrow> True
      | PoolTimedOut \<Rightarrow> True
      | Tls \<Rightarrow> False
      | Configuration \<Rightarrow> False
      | DatabaseError code \<Rightarrow> \<not> (case code of Some c \<Rightarrow> starts_with c ''28'' | None \<Rightarrow> False)
      | OtherError \<Rightarrow> True)"

datatype 'p connect_result = Connected 'p | FailFast connect_error string | GaveUp connect_error | Insecure db_config_error

text \<open>The pause after the failed attempt number \<open>attempt\<close>, in milliseconds.\<close>

definition retry_pause :: "(string \<Rightarrow> u32 \<Rightarrow> u64) \<Rightarrow> db_config \<Rightarrow> u32 \<Rightarrow> u64" where
  "retry_pause hash cfg attempt =
     (let ex = min (saturating_sub attempt 1) 6;
          multiplier = push_bit (unat ex) (1 :: u64);
          base_ms = of_nat (as_millis (dc_connect_retry_delay cfg)) :: u64;
          backoff_ms = min (saturating_mul base_ms multiplier) 30000;
          jitter_ms = hash (dc_url cfg) attempt mod 250
      in saturating_add backoff_ms jitter_ms)"

text \<open>
  The loop: \<open>tries n\<close> is the outcome of attempt \<open>n\<close> (from 0), and the result is returned with the pauses made.
\<close>

function connect_loop ::
  "(string \<Rightarrow> u32 \<Rightarrow> u64) \<Rightarrow> (nat \<Rightarrow> connect_error + 'p) \<Rightarrow> db_config \<Rightarrow> nat \<Rightarrow> u64 list \<Rightarrow> 'p connect_result \<times> u64 list" where
  "connect_loop hash tries cfg attempt pauses =
     (case tries attempt of
        Inr pool \<Rightarrow> (Connected pool, pauses)
      | Inl err \<Rightarrow>
          if \<not> is_transient_connect_error err then (FailFast err (redact_db_url (dc_url cfg)), pauses)
          else if unat (dc_connect_retries cfg) \<le> Suc attempt then (GaveUp err, pauses)
          else connect_loop hash tries cfg (Suc attempt) (pauses @ [retry_pause hash cfg (of_nat (Suc attempt))]))"
  by pat_completeness auto

termination
  by (relation "measure (\<lambda>(hash, tries, cfg, attempt, pauses). unat (dc_connect_retries cfg) - attempt)") auto

definition connect_with_config ::
  "environment \<Rightarrow> (string \<Rightarrow> u32 \<Rightarrow> u64) \<Rightarrow> (nat \<Rightarrow> connect_error + 'p) \<Rightarrow> db_config \<Rightarrow> 'p connect_result \<times> u64 list" where
  "connect_with_config env hash tries cfg =
     (case validate_security env cfg of
        Inl err \<Rightarrow> (Insecure err, [])
      | Inr _ \<Rightarrow> connect_loop hash tries cfg 0 [])"

definition connect ::
  "environment \<Rightarrow> (string \<Rightarrow> u32 \<Rightarrow> u64) \<Rightarrow> (nat \<Rightarrow> connect_error + 'p) \<Rightarrow> string \<Rightarrow> 'p connect_result \<times> u64 list" where
  "connect env hash tries database_url = connect_with_config env hash tries (db_config_default\<lparr>dc_url := database_url\<rparr>)"


declare connect_loop.simps [simp del]

lemma parse_driver_as_str: "parse_driver (driver_as_str d) = Inr d"
proof (cases d)
  case Postgres
  show ?thesis unfolding Postgres by code_simp
next
  case Sqlite
  show ?thesis unfolding Sqlite by code_simp
qed

lemma unset_driver_is_governed:
  "trim (case env ''KRAB_DB_DRIVER'' of Some raw \<Rightarrow> raw | None \<Rightarrow> '''') = '''' \<Longrightarrow> resolve_db_driver env = Inr Postgres"
  by (auto simp: resolve_db_driver_def split: option.splits)

subsection \<open>Credentials stay out of the logs\<close>

lemma split_seq_slashes: "CHR ''/'' \<notin> set a \<Longrightarrow> split_seq ''//'' (a @ ''//'' @ b) = Some (a, b)"
  by (induction a) auto

text \<open>
  a connection URL is logged without its credentials. Whatever stands between \<open>//\<close> and the last \<open>@\<close> of the
  authority is replaced by \<open>***\<close>, an \<open>@\<close> inside the password included, and scheme, host and path are kept; so
  two URLs that differ in their credentials only are printed alike. A \<open>/\<close> in the credentials is excluded.
\<close>

theorem credentials_are_redacted:
  assumes "CHR ''/'' \<notin> set scheme" and "CHR ''/'' \<notin> set userinfo" and "CHR ''/'' \<notin> set host" and "CHR ''@'' \<notin> set host"
    and "tail = [] \<or> hd tail = CHR ''/''"
  shows "redact_db_url (scheme @ ''//'' @ userinfo @ ''@'' @ host @ tail) = scheme @ ''//'' @ ''***@'' @ host @ tail"
proof -
  let ?auth = "userinfo @ CHR ''@'' # host"
  have all: "\<forall>c \<in> set ?auth. c \<noteq> CHR ''/''" using assms(2,3) by auto
  have "takeWhile (\<lambda>c. c \<noteq> CHR ''/'') (?auth @ tail) = ?auth" "dropWhile (\<lambda>c. c \<noteq> CHR ''/'') (?auth @ tail) = tail"
    using all assms(5) by (cases tail; simp add: takeWhile_tail)+
  moreover have "rsplit_once (CHR ''@'') ?auth = Some (userinfo, host)" by (simp add: rsplit_once_Some assms(4))
  ultimately show ?thesis
    using split_seq_slashes [OF assms(1), of "?auth @ tail"] by (simp add: redact_db_url_def)
qed

lemma credentials_are_redacted_witness:
  "redact_db_url ''postgres://svc:p@ss@db:5432/krab'' = ''postgres://***@db:5432/krab''"
  using credentials_are_redacted [of "''postgres:''" "''svc:p@ss''" "''db:5432''" "''/krab''"] by simp

text \<open>A password with a \<open>/\<close> ends the authority before its \<open>@\<close>: nothing is redacted.\<close>

lemma slash_in_password_is_printed: "redact_db_url ''postgres://svc:s3/cret@db:5432/krab'' = ''postgres://svc:s3/cret@db:5432/krab''"
  by code_simp

subsection \<open>Retries\<close>

lemma unat_min: "unat (min a b) = min (unat a) (unat b)"
  by (simp add: min_def word_le_nat_alt)

lemma unat_small_power:
  assumes "n \<le> 6"
  shows "unat (2 ^ n :: u64) = 2 ^ n"
proof -
  have "n = 0 \<or> n = 1 \<or> n = 2 \<or> n = 3 \<or> n = 4 \<or> n = 5 \<or> n = 6" using assms by linarith
  then show ?thesis by (elim disjE) simp_all
qed

lemma retry_pause_value:
  assumes "as_millis (dc_connect_retry_delay cfg) < 2 ^ 64" and "Suc i < 2 ^ 32"
  shows "unat (retry_pause hash cfg (of_nat (Suc i))) =
    min (as_millis (dc_connect_retry_delay cfg) * 2 ^ min i 6) 30000 + unat (hash (dc_url cfg) (of_nat (Suc i))) mod 250"
proof -
  let ?base = "as_millis (dc_connect_retry_delay cfg)" and ?h = "hash (dc_url cfg) (of_nat (Suc i))"
  let ?jitter = "?h mod 250" and ?raw = "saturating_mul (of_nat ?base) (push_bit (min i 6) (1 :: u64))"
  have "unat (of_nat (Suc i) :: u32) = Suc i" using assms(2) by (simp only: unat_of_nat) simp
  then have ex: "unat (min (saturating_sub (of_nat (Suc i)) 1) 6 :: u32) = min i 6"
    by (simp add: unat_min unat_saturating_sub del: of_nat_Suc)
  have base: "unat (of_nat ?base :: u64) = ?base" using assms(1) by (simp only: unat_of_nat) simp
  have "unat ?raw = min (?base * 2 ^ min i 6) (2 ^ 64 - 1)"
    by (simp add: unat_saturating_mul base unat_small_power)
  then have backoff: "unat (min ?raw 30000) = min (?base * 2 ^ min i 6) 30000"
    by (simp add: unat_min)
  have jitter: "unat ?jitter = unat ?h mod 250" by (simp add: unat_mod_distrib)
  then have small: "unat ?jitter < 250" by simp
  have "unat (saturating_add (min ?raw 30000) ?jitter) = unat (min ?raw 30000) + unat ?jitter"
    using small backoff by (simp add: unat_saturating_add)
  moreover have "retry_pause hash cfg (of_nat (Suc i)) = saturating_add (min ?raw 30000) ?jitter"
    by (simp add: retry_pause_def ex del: of_nat_Suc)
  ultimately show ?thesis using backoff jitter by simp
qed

lemma connect_loop_spec:
  assumes "length pauses = attempt" and "attempt < max 1 (unat (dc_connect_retries cfg))"
    and "\<forall>i < attempt. \<exists>err. tries i = Inl err \<and> is_transient_connect_error err"
    and "\<forall>i < attempt. pauses ! i = retry_pause hash cfg (of_nat (Suc i))"
    and "connect_loop hash tries cfg attempt pauses = (r, ps)"
  shows "length ps < max 1 (unat (dc_connect_retries cfg)) \<and>
    (\<forall>i < length ps. (\<exists>err. tries i = Inl err \<and> is_transient_connect_error err) \<and> ps ! i = retry_pause hash cfg (of_nat (Suc i))) \<and>
    (case tries (length ps) of
       Inr pool \<Rightarrow> r = Connected pool
     | Inl err \<Rightarrow> if is_transient_connect_error err then r = GaveUp err \<and> Suc (length ps) = max 1 (unat (dc_connect_retries cfg))
                else r = FailFast err (redact_db_url (dc_url cfg)))"
  using assms
proof (induction hash tries cfg attempt pauses rule: connect_loop.induct)
  case (1 hash tries cfg attempt pauses)
  show ?case
  proof (cases "tries attempt")
    case (Inr pool)
    then show ?thesis using "1.prems" by (auto simp: connect_loop.simps [of hash tries cfg attempt])
  next
    case (Inl err)
    show ?thesis
    proof (cases "is_transient_connect_error err \<and> Suc attempt < unat (dc_connect_retries cfg)")
      case False
      then show ?thesis using "1.prems" Inl
        by (auto simp: connect_loop.simps [of hash tries cfg attempt] split: if_splits)
    next
      case True
      let ?ps = "pauses @ [retry_pause hash cfg (of_nat (Suc attempt))]"
      have loop: "connect_loop hash tries cfg (Suc attempt) ?ps = (r, ps)"
        using "1.prems"(5) Inl True by (simp add: connect_loop.simps [of hash tries cfg attempt] del: of_nat_Suc)
      have tr: "\<forall>i < Suc attempt. \<exists>err. tries i = Inl err \<and> is_transient_connect_error err"
        using "1.prems"(3) Inl True by (auto simp: less_Suc_eq)
      have pa: "\<forall>i < Suc attempt. ?ps ! i = retry_pause hash cfg (of_nat (Suc i))"
        using "1.prems"(1,4) by (auto simp: less_Suc_eq nth_append simp del: of_nat_Suc)
      show ?thesis
        by (rule "1.IH" [OF Inl _ _ _ _ tr pa loop]) (use True "1.prems"(1) in auto)
    qed
  qed
qed

text \<open>
  C27: the retries of a connection. Past the security check, a connection is tried until it succeeds or fails
  with an error that no retry can cure, at most \<open>connect_retries\<close> times and at least once; the last answer is
  the result. After the failed attempt \<open>i\<close> the pause is the base delay doubled \<open>min i 6\<close> times, capped at 30
  seconds, and less than 250 ms of jitter more: the product saturates instead of wrapping around.
\<close>

theorem connection_attempts_are_bounded:
  assumes "validate_security env cfg = Inr ()" and "as_millis (dc_connect_retry_delay cfg) < 2 ^ 64"
    and "connect_with_config env hash tries cfg = (r, ps)"
  shows "length ps < max 1 (unat (dc_connect_retries cfg)) \<and>
    (\<forall>i < length ps. (\<exists>err. tries i = Inl err \<and> is_transient_connect_error err) \<and>
      unat (ps ! i) = min (as_millis (dc_connect_retry_delay cfg) * 2 ^ min i 6) 30000 + unat (hash (dc_url cfg) (of_nat (Suc i))) mod 250) \<and>
    (case tries (length ps) of
       Inr pool \<Rightarrow> r = Connected pool
     | Inl err \<Rightarrow> if is_transient_connect_error err then r = GaveUp err \<and> Suc (length ps) = max 1 (unat (dc_connect_retries cfg))
                else r = FailFast err (redact_db_url (dc_url cfg)))"
proof -
  have loop: "connect_loop hash tries cfg 0 [] = (r, ps)" using assms(1,3) by (simp add: connect_with_config_def)
  have "length [] = (0 :: nat)" "0 < max 1 (unat (dc_connect_retries cfg))" by simp_all
  note s = connect_loop_spec [OF this _ _ loop]
  have "unat (ps ! i) = min (as_millis (dc_connect_retry_delay cfg) * 2 ^ min i 6) 30000 + unat (hash (dc_url cfg) (of_nat (Suc i))) mod 250"
    if i: "i < length ps" for i
  proof -
    have "length ps < max 1 (unat (dc_connect_retries cfg))" using s by simp
    then have "Suc i < 2 ^ 32" using i unat_lt_u32 [of "dc_connect_retries cfg"] by linarith
    from retry_pause_value [OF assms(2) this] show ?thesis using s i by simp
  qed
  with s show ?thesis by (simp del: of_nat_Suc)
qed


lemma connection_attempts_are_bounded_witness:
  "\<exists>ps. connect (\<lambda>_. None) (\<lambda>_ n. 7) (\<lambda>n. if n < 2 then Inl Io else Inr ''pool'') ''postgres://db/krab'' = (Connected ''pool'', ps) \<and>
     length ps = 2 \<and> unat (ps ! 1) = 1507"
proof -
  let ?cfg = "db_config_default\<lparr>dc_url := ''postgres://db/krab''\<rparr>"
  obtain r ps where run: "connect_with_config (\<lambda>_. None) (\<lambda>_ n. 7) (\<lambda>n. if n < 2 then Inl Io else Inr ''pool'') ?cfg = (r, ps)" by fastforce
  have cfg: "validate_security (\<lambda>_. None) ?cfg = Inr ()" by (simp add: validate_security_def eq_ignore_ascii_case_def)
  have delay: "as_millis (dc_connect_retry_delay ?cfg) = 750" "unat (dc_connect_retries ?cfg) = 5"
    by (simp_all add: db_config_default_def as_millis_def from_millis_def)
  then have small: "as_millis (dc_connect_retry_delay ?cfg) < 2 ^ 64" by simp
  note s = connection_attempts_are_bounded [OF cfg small run, unfolded delay]
  have two: "length ps = 2"
  proof (rule ccontr)
    assume "length ps \<noteq> 2"
    then consider "length ps < 2" | "2 < length ps" by linarith
    then show False
    proof cases
      case 1
      then show ?thesis using s by (auto simp: is_transient_connect_error_def)
    next
      case 2
      then have "\<exists>err. (if (2 :: nat) < 2 then Inl Io else Inr ''pool'') = Inl err" using s by blast
      then show ?thesis by simp
    qed
  qed
  have "unat (ps ! 1) = 1507" using s two by simp
  moreover have "r = Connected ''pool''" using s two by simp
  ultimately show ?thesis using run two by (simp add: connect_def)
qed

subsection \<open>Settings are never defaulted silently\<close>

text \<open>A value honours its variable: unset and the default, or set and what the text says.\<close>

definition honours :: "environment \<Rightarrow> string \<Rightarrow> nat \<Rightarrow> nat \<Rightarrow> bool" where
  "honours env name dflt v =
     (case env name of None \<Rightarrow> v = dflt | Some raw \<Rightarrow> parse_unsigned (2 ^ 32 - 1) (trim raw) = Some v)"

lemma parse_unsigned_le: "parse_unsigned b s = Some n \<Longrightarrow> n \<le> b"
  by (auto simp: parse_unsigned_def Let_def split: if_splits option.splits)

lemma parse_u32_honours: "parse_u32_env env name dflt = Inr v \<Longrightarrow> honours env name (unat dflt) (unat v)"
  using parse_unsigned_le
  by (fastforce simp: parse_u32_env_def honours_def unat_of_nat split: option.splits)

lemma default_settings:
  "unat (dc_max_connections db_config_default) = 10" "unat (dc_min_connections db_config_default) = 1"
  "unat (dc_connect_retries db_config_default) = 5"
  "unat (of_nat (as_millis (dc_connect_retry_delay db_config_default)) :: u32) = 750"
  "unat (of_nat (as_secs (dc_acquire_timeout db_config_default)) :: u32) = 5"
  "unat (of_nat (as_secs (dc_max_lifetime db_config_default)) :: u32) = 1800"
  "unat (of_nat (as_secs (dc_idle_timeout db_config_default)) :: u32) = 600"
  by (simp_all add: db_config_default_def as_millis_def from_millis_def as_secs_def from_secs_def)

text \<open>
  The pool configuration is what the environment says, or the start-up fails. A configuration that is
  returned has a usable pool (at least one connection, a minimum within the maximum, no zero time limit), and
  each number is the default of an unset variable or exactly what the variable says; the URL is the default only
  when no source of \<open>DATABASE_URL\<close> is set at all, never because one is broken.
\<close>

theorem pool_settings_are_never_defaulted_silently:
  assumes "db_config_from_env env fs default_url = Inr cfg"
  shows "1 \<le> unat (dc_max_connections cfg) \<and> dc_min_connections cfg \<le> dc_max_connections cfg \<and>
    dc_acquire_timeout cfg \<noteq> 0 \<and> dc_max_lifetime cfg \<noteq> 0 \<and> dc_idle_timeout cfg \<noteq> 0 \<and> dc_connect_retry_delay cfg \<noteq> 0 \<and>
    honours env ''DB_MAX_CONNECTIONS'' 10 (unat (dc_max_connections cfg)) \<and>
    honours env ''DB_MIN_CONNECTIONS'' 1 (unat (dc_min_connections cfg)) \<and>
    honours env ''DB_CONNECT_RETRIES'' 5 (unat (dc_connect_retries cfg)) \<and>
    (\<exists>n. dc_connect_retry_delay cfg = from_millis n \<and> honours env ''DB_CONNECT_RETRY_DELAY_MS'' 750 n) \<and>
    (\<exists>n. dc_acquire_timeout cfg = from_secs n \<and> honours env ''DB_ACQUIRE_TIMEOUT_SECS'' 5 n) \<and>
    (\<exists>n. dc_max_lifetime cfg = from_secs n \<and> honours env ''DB_MAX_LIFETIME_SECS'' 1800 n) \<and>
    (\<exists>n. dc_idle_timeout cfg = from_secs n \<and> honours env ''DB_IDLE_TIMEOUT_SECS'' 600 n) \<and>
    (\<exists>found. read_env_or_file env fs ''DATABASE_URL'' = Inr found \<and> dc_url cfg = (case found of Some u \<Rightarrow> u | None \<Rightarrow> default_url))"
proof -
  obtain found a b c d f g h where p: "read_env_or_file env fs ''DATABASE_URL'' = Inr found"
    "parse_u32_env env ''DB_MAX_CONNECTIONS'' (dc_max_connections db_config_default) = Inr a"
    "parse_u32_env env ''DB_MIN_CONNECTIONS'' (dc_min_connections db_config_default) = Inr b"
    "parse_u32_env env ''DB_CONNECT_RETRIES'' (dc_connect_retries db_config_default) = Inr c"
    "parse_u32_env env ''DB_CONNECT_RETRY_DELAY_MS'' (of_nat (as_millis (dc_connect_retry_delay db_config_default))) = Inr d"
    "parse_u32_env env ''DB_ACQUIRE_TIMEOUT_SECS'' (of_nat (as_secs (dc_acquire_timeout db_config_default))) = Inr f"
    "parse_u32_env env ''DB_MAX_LIFETIME_SECS'' (of_nat (as_secs (dc_max_lifetime db_config_default))) = Inr g"
    "parse_u32_env env ''DB_IDLE_TIMEOUT_SECS'' (of_nat (as_secs (dc_idle_timeout db_config_default))) = Inr h"
    using assms unfolding db_config_from_env_def by (auto split: sum.splits)
  let ?cfg = "\<lparr>dc_url = (case found of Some u \<Rightarrow> u | None \<Rightarrow> default_url), dc_max_connections = a, dc_min_connections = b,
    dc_acquire_timeout = from_secs (unat f), dc_max_lifetime = from_secs (unat g), dc_idle_timeout = from_secs (unat h),
    dc_connect_retries = c, dc_connect_retry_delay = from_millis (unat d)\<rparr>"
  have cfg: "cfg = ?cfg" and ok: "validate_db_config ?cfg = Inr ()"
    using assms unfolding db_config_from_env_def by (auto simp: p Let_def split: sum.splits)
  note h = p(2-8) [THEN parse_u32_honours, unfolded default_settings]
  from ok have "1 \<le> a" "b \<le> a" "from_secs (unat f) \<noteq> 0" "from_secs (unat g) \<noteq> 0" "from_secs (unat h) \<noteq> 0" "from_millis (unat d) \<noteq> 0"
    by (auto simp: validate_db_config_def split: if_splits)
  moreover have "1 \<le> unat a" using \<open>1 \<le> a\<close> by (simp add: word_le_nat_alt)
  ultimately show ?thesis using h p(1) unfolding cfg by auto
qed

lemma pool_settings_are_never_defaulted_silently_witness:
  "\<exists>cfg. db_config_from_env (\<lambda>k. if k = ''DB_MAX_CONNECTIONS'' then Some '' 20 '' else None) (\<lambda>_. None) ''postgres://db'' = Inr cfg \<and>
     unat (dc_max_connections cfg) = 20 \<and> dc_url cfg = ''postgres://db''"
proof -
  let ?env = "\<lambda>k. if k = ''DB_MAX_CONNECTIONS'' then Some '' 20 '' else None"
  have twenty: "parse_unsigned (2 ^ 32 - 1) (trim '' 20 '') = Some 20"
    by (simp add: parse_unsigned_def trim_def trim_start_def trim_end_def is_ws_def digit_val_def)
  have url: "read_env_or_file ?env (\<lambda>_. None) ''DATABASE_URL'' = Inr None" by (simp add: read_env_or_file_def env_non_empty_def)
  obtain cfg where cfg: "db_config_from_env ?env (\<lambda>_. None) ''postgres://db'' = Inr cfg"
    unfolding db_config_from_env_def url
    by (simp add: parse_u32_env_def twenty [simplified] validate_db_config_def Let_def db_config_default_def
        as_millis_def from_millis_def as_secs_def from_secs_def word_le_nat_alt)
  have "honours ?env ''DB_MAX_CONNECTIONS'' 10 (unat (dc_max_connections cfg))"
    and "\<exists>found. read_env_or_file ?env (\<lambda>_. None) ''DATABASE_URL'' = Inr found \<and> dc_url cfg = (case found of Some u \<Rightarrow> u | None \<Rightarrow> ''postgres://db'')"
    using pool_settings_are_never_defaulted_silently [OF cfg] by blast+
  then show ?thesis using cfg twenty url by (auto simp: honours_def)
qed

end
