(* ===== verification/AsyncValues.thy ===== *)
theory AsyncValues
  imports KrabPrelude
begin

text \<open>
  Asynchronous writes and reads: \<open>Action\<close> (\<open>krab_core/src/action.rs\<close>) and \<open>Resource\<close>
  (\<open>krab_core/src/resource.rs\<close>), and the generation-guarded run they share. The signals are their values;
  a future is a task of the executor with an identity, and the world decides when a task finishes, in any
  order, and with what.
\<close>

subsection \<open>The guarded run\<close>

text \<open>A pending task: its identity and the generation it captured.\<close>

record 's guarded =
  gd_generation :: u64
  gd_tasks :: "(nat \<times> u64) list"
  gd_spawned :: nat
  gd_signals :: 's

datatype panic_payload = StrPayload string | StringPayload string | OtherPayload

text \<open>How polling a future ends; \<open>CatchUnwind\<close> turns a panic into the error outcome.\<close>

datatype 'o poll_end = Finished "string + 'o" | Panicked panic_payload

definition panic_message :: "panic_payload \<Rightarrow> string" where
  "panic_message payload =
     (case payload of StrPayload m \<Rightarrow> m | StringPayload m \<Rightarrow> m | OtherPayload \<Rightarrow> ''operation panicked'')"

definition catch_unwind :: "'o poll_end \<Rightarrow> string + 'o" where
  "catch_unwind r = (case r of Finished outcome \<Rightarrow> outcome | Panicked payload \<Rightarrow> Inl (panic_message payload))"

text \<open>
  \<open>run_on_executor\<close> up to its first return: the flag says whether building the future succeeds, \<open>False\<close> being a
  panic of the factory, which leaves the function at that point.
\<close>

definition run_on_executor :: "('s \<Rightarrow> 's) \<Rightarrow> bool \<Rightarrow> 's guarded \<Rightarrow> 's guarded" where
  "run_on_executor begin_run made g =
     (let current = gd_generation g + 1; g1 = g\<lparr>gd_generation := current\<rparr>
      in if \<not> made then g1
         else g1\<lparr>gd_signals := begin_run (gd_signals g1), gd_tasks := gd_tasks g1 @ [(gd_spawned g1, current)],
                gd_spawned := Suc (gd_spawned g1)\<rparr>)"

definition run_guarded :: "bool \<Rightarrow> ('s \<Rightarrow> 's) \<Rightarrow> bool \<Rightarrow> 's guarded \<Rightarrow> 's guarded" where
  "run_guarded has_executor begin_run made g = (if \<not> has_executor then g else run_on_executor begin_run made g)"

text \<open>The task \<open>t\<close> finishes: what follows the \<open>await\<close> in \<open>run_on_executor\<close>.\<close>

definition finish_task :: "(string + 'o \<Rightarrow> 's \<Rightarrow> 's) \<Rightarrow> nat \<Rightarrow> 'o poll_end \<Rightarrow> 's guarded \<Rightarrow> 's guarded" where
  "finish_task apply_run t r g =
     (case map_of (gd_tasks g) t of
        None \<Rightarrow> g
      | Some current \<Rightarrow>
          let g' = g\<lparr>gd_tasks := filter (\<lambda>(k, _). k \<noteq> t) (gd_tasks g)\<rparr>
          in if gd_generation g' \<noteq> current then g'
             else g'\<lparr>gd_signals := apply_run (catch_unwind r) (gd_signals g')\<rparr>)"

subsection \<open>Actions\<close>

record 'o action =
  ac_pending :: bool
  ac_value :: "'o option"
  ac_error :: "string option"

definition create_action :: "'o action guarded" where
  "create_action = \<lparr>gd_generation = 0, gd_tasks = [], gd_spawned = 0,
     gd_signals = \<lparr>ac_pending = False, ac_value = None, ac_error = None\<rparr>\<rparr>"

definition dispatch_begin :: "'o action \<Rightarrow> 'o action" where
  "dispatch_begin s = s\<lparr>ac_pending := True, ac_error := None\<rparr>"

definition dispatch_apply :: "string + 'o \<Rightarrow> 'o action \<Rightarrow> 'o action" where
  "dispatch_apply outcome s =
     (let s' = s\<lparr>ac_pending := False\<rparr>
      in case outcome of Inr v \<Rightarrow> s'\<lparr>ac_value := Some v\<rparr> | Inl message \<Rightarrow> s'\<lparr>ac_error := Some message\<rparr>)"

definition dispatch :: "bool \<Rightarrow> bool \<Rightarrow> 'o action guarded \<Rightarrow> 'o action guarded" where
  "dispatch has_executor made g = run_guarded has_executor dispatch_begin made g"

subsection \<open>Resources\<close>

datatype resource_state = Pending | Ready | ResourceError string

record 'o resource =
  rs_state :: resource_state
  rs_value :: "'o option"

definition fetch_begin :: "'o resource \<Rightarrow> 'o resource" where
  "fetch_begin s = s\<lparr>rs_state := Pending\<rparr>"

definition fetch_apply :: "string + 'o \<Rightarrow> 'o resource \<Rightarrow> 'o resource" where
  "fetch_apply outcome s =
     (case outcome of
        Inr v \<Rightarrow> s\<lparr>rs_value := Some v, rs_state := Ready\<rparr>
      | Inl message \<Rightarrow> s\<lparr>rs_state := ResourceError message\<rparr>)"

definition fetch :: "bool \<Rightarrow> bool \<Rightarrow> 'o resource guarded \<Rightarrow> 'o resource guarded" where
  "fetch has_executor made g = run_guarded has_executor fetch_begin made g"

text \<open>
  Construction: the tracking effect runs once; with an initial value its first run does not fetch. Later runs
  of the effect, after a change of the source, and \<open>refetch\<close> are a \<open>fetch\<close> each.
\<close>

definition create_resource :: "bool \<Rightarrow> bool \<Rightarrow> 'o option \<Rightarrow> 'o resource guarded" where
  "create_resource has_executor made initial =
     (let g = \<lparr>gd_generation = 0, gd_tasks = [], gd_spawned = 0,
        gd_signals = \<lparr>rs_state = (if initial \<noteq> None then Ready else Pending), rs_value = initial\<rparr>\<rparr>
      in if initial \<noteq> None then g else fetch has_executor made g)"

text \<open>A boundary counts a resource as pending while it has no first value: the closure \<open>build\<close> registers.\<close>

definition source_is_pending :: "'o resource \<Rightarrow> bool" where
  "source_is_pending s = (rs_state s = Pending \<and> rs_value s = None)"

subsection \<open>What the world does\<close>

text \<open>A run is started (\<open>Start False\<close>: its factory panics), or a task finishes.\<close>

datatype 'o async_event = Start bool | Settle nat "'o poll_end"

fun async_step :: "bool \<Rightarrow> ('s \<Rightarrow> 's) \<Rightarrow> (string + 'o \<Rightarrow> 's \<Rightarrow> 's) \<Rightarrow> 's guarded \<Rightarrow> 'o async_event \<Rightarrow> 's guarded" where
  "async_step x b a g (Start made) = run_guarded x b made g"
| "async_step x b a g (Settle t r) = finish_task a t r g"

definition async_run :: "bool \<Rightarrow> ('s \<Rightarrow> 's) \<Rightarrow> (string + 'o \<Rightarrow> 's \<Rightarrow> 's) \<Rightarrow> 'o async_event list \<Rightarrow> 's guarded \<Rightarrow> 's guarded" where
  "async_run x b a es g = foldl (async_step x b a) g es"

definition is_start :: "'o async_event \<Rightarrow> bool" where
  "is_start e = (case e of Start _ \<Rightarrow> True | Settle _ _ \<Rightarrow> False)"

definition starts :: "'o async_event list \<Rightarrow> nat" where
  "starts es = length (filter is_start es)"

text \<open>The first end of the task \<open>t\<close> in a list of events.\<close>

fun end_of :: "nat \<Rightarrow> 'o async_event list \<Rightarrow> 'o poll_end option" where
  "end_of t [] = None"
| "end_of t (Start _ # es) = end_of t es"
| "end_of t (Settle k r # es) = (if k = t then Some r else end_of t es)"

subsection \<open>The latest run decides\<close>

text \<open>The tasks' generations are those of past starts, and all differ, as long as the counter has not wrapped around.\<close>

definition guarded_ok :: "nat \<Rightarrow> 's guarded \<Rightarrow> bool" where
  "guarded_ok n g \<longleftrightarrow>
     unat (gd_generation g) = n \<and> distinct (map fst (gd_tasks g)) \<and>
     (\<forall>(k, c) \<in> set (gd_tasks g). k < gd_spawned g \<and> unat c \<le> n)"

lemma guarded_ok_finish:
  assumes "guarded_ok n g"
  shows "guarded_ok n (finish_task a t r g)"
proof -
  have "distinct (map fst (filter (\<lambda>(k, _). k \<noteq> t) (gd_tasks g)))"
    using assms by (simp add: guarded_ok_def distinct_map_filter)
  then show ?thesis using assms by (auto simp: guarded_ok_def finish_task_def Let_def split: option.splits)
qed

lemma guarded_ok_run:
  assumes "guarded_ok n g" and "Suc n < 2 ^ 64"
  shows "guarded_ok (Suc n) (run_on_executor b made g)"
proof -
  have gen: "unat (gd_generation g + 1) = Suc n"
    using assms by (simp add: guarded_ok_def unat_word_ariths)
  have "gd_spawned g \<notin> fst ` set (gd_tasks g)" using assms(1) by (auto simp: guarded_ok_def)
  then show ?thesis using assms(1) gen by (auto simp: guarded_ok_def run_on_executor_def Let_def)
qed

lemma async_run_ok:
  "guarded_ok n g \<Longrightarrow> n + starts es < 2 ^ 64 \<Longrightarrow> guarded_ok (n + starts es) (async_run True b a es g)"
proof (induction es arbitrary: n g)
  case (Cons e es)
  show ?case
  proof (cases e)
    case (Start made)
    then have "guarded_ok (Suc n) (async_step True b a g e)" using Cons.prems guarded_ok_run [of n g b made]
      by (simp add: run_guarded_def starts_def is_start_def)
    then show ?thesis using Cons.IH [of "Suc n"] Cons.prems(2) Start by (simp add: async_run_def starts_def is_start_def)
  next
    case (Settle t r)
    then have "guarded_ok n (async_step True b a g e)" using Cons.prems guarded_ok_finish by simp
    then show ?thesis using Cons.IH [of n] Cons.prems(2) Settle by (simp add: async_run_def starts_def is_start_def)
  qed
qed (simp add: async_run_def starts_def)

text \<open>Once the latest task \<open>t\<close> has captured the current generation, only its own end moves the signals.\<close>

definition latest :: "nat \<Rightarrow> 's guarded \<Rightarrow> bool" where
  "latest t g \<longleftrightarrow> (\<forall>(k, c) \<in> set (gd_tasks g). c = gd_generation g \<longleftrightarrow> k = t)"

lemma map_of_drop_other: "t \<noteq> k \<Longrightarrow> map_of (filter (\<lambda>(j, _). j \<noteq> k) xs) t = map_of xs t"
  by (induction xs) auto

lemma finish_other:
  assumes "latest t g" and "k \<noteq> t"
  shows "gd_signals (finish_task a k r g) = gd_signals g \<and> latest t (finish_task a k r g) \<and>
    map_of (gd_tasks (finish_task a k r g)) t = map_of (gd_tasks g) t"
proof -
  have "map_of (gd_tasks g) k = Some c \<Longrightarrow> c \<noteq> gd_generation g" for c
    using assms by (auto simp: latest_def dest: map_of_SomeD)
  moreover have "map_of (filter (\<lambda>(j, _). j \<noteq> k) (gd_tasks g)) t = map_of (gd_tasks g) t"
    using map_of_drop_other assms(2) by metis
  ultimately show ?thesis using assms(1)
    by (auto simp: finish_task_def Let_def latest_def split: option.splits)
qed
lemma finish_done:
  assumes "t \<notin> fst ` set (gd_tasks g)"
  shows "finish_task a t r g = g"
  using assms by (simp add: finish_task_def map_of_eq_None_iff [symmetric])

lemma settles_quiet:
  assumes "t \<notin> fst ` set (gd_tasks h)" "\<forall>(j, c) \<in> set (gd_tasks h). c \<noteq> gd_generation h" "\<forall>e \<in> set fs. \<not> is_start e"
  shows "gd_signals (async_run x b a fs h) = gd_signals h \<and> t \<notin> fst ` set (gd_tasks (async_run x b a fs h))"
  using assms
proof (induction fs arbitrary: h)
  case (Cons e fs)
  obtain j q where e: "e = Settle j q" using Cons.prems(3) by (cases e) (auto simp: is_start_def)
  let ?h = "finish_task a j q h"
  have f: "gd_signals ?h = gd_signals h" "gd_generation ?h = gd_generation h" "set (gd_tasks ?h) \<subseteq> set (gd_tasks h)"
    using Cons.prems(2) by (auto simp: finish_task_def Let_def split: option.splits dest: map_of_SomeD)
  have "t \<notin> fst ` set (gd_tasks ?h)" "\<forall>(j, c) \<in> set (gd_tasks ?h). c \<noteq> gd_generation ?h" using f Cons.prems(1,2) by auto
  with Cons.IH [of ?h] Cons.prems(3) f(1) e show ?case by (simp add: async_run_def)
qed (simp add: async_run_def)

text \<open>From the moment the task \<open>t\<close> is the latest: what a list of ends does to the signals.\<close>

lemma settles_decide:
  assumes "latest t g" and "map_of (gd_tasks g) t = Some (gd_generation g)" and "\<forall>e \<in> set fs. \<not> is_start e"
  shows "gd_signals (async_run x b a fs g) =
      (case end_of t fs of None \<Rightarrow> gd_signals g | Some r \<Rightarrow> a (catch_unwind r) (gd_signals g)) \<and>
    (t \<in> fst ` set (gd_tasks (async_run x b a fs g)) \<longleftrightarrow> end_of t fs = None)"
  using assms
proof (induction fs arbitrary: g)
  case Nil
  then have "t \<in> fst ` set (gd_tasks g)" by (metis map_of_eq_None_iff option.distinct(1))
  then show ?case by (simp add: async_run_def)
next
  case (Cons e fs)
  obtain k r where e: "e = Settle k r" using Cons.prems(3) by (cases e) (auto simp: is_start_def)
  let ?g = "finish_task a k r g"
  have run: "async_run x b a (e # fs) g = async_run x b a fs ?g" by (simp add: async_run_def e)
  show ?case
  proof (cases "k = t")
    case True
    then have g': "?g = g\<lparr>gd_tasks := filter (\<lambda>(j, _). j \<noteq> t) (gd_tasks g), gd_signals := a (catch_unwind r) (gd_signals g)\<rparr>"
      using Cons.prems(2) by (simp add: finish_task_def)
    have "t \<notin> fst ` set (gd_tasks ?g)" "\<forall>(j, c) \<in> set (gd_tasks ?g). c \<noteq> gd_generation ?g"
      using Cons.prems(1) by (auto simp: g' latest_def)
    then have q: "gd_signals (async_run x b a fs ?g) = gd_signals ?g \<and> t \<notin> fst ` set (gd_tasks (async_run x b a fs ?g))"
      using settles_quiet [of t ?g fs] Cons.prems(3) by simp
    have "gd_signals ?g = a (catch_unwind r) (gd_signals g)" by (simp add: g')
    then show ?thesis unfolding run using q e True by simp
  next
    case False
    note o = finish_other [OF Cons.prems(1) False, of a r]
    have "gd_generation ?g = gd_generation g" by (simp add: finish_task_def Let_def split: option.splits)
    then have "map_of (gd_tasks ?g) t = Some (gd_generation ?g)" using o Cons.prems(2) by simp
    moreover have "\<forall>e \<in> set fs. \<not> is_start e" "latest t ?g" using Cons.prems(3) o by simp_all
    ultimately have IH: "gd_signals (async_run x b a fs ?g) =
        (case end_of t fs of None \<Rightarrow> gd_signals ?g | Some r \<Rightarrow> a (catch_unwind r) (gd_signals ?g)) \<and>
      (t \<in> fst ` set (gd_tasks (async_run x b a fs ?g)) \<longleftrightarrow> end_of t fs = None)"
      by (intro Cons.IH)
    have "end_of t (e # fs) = end_of t fs" using False e by simp
    then show ?thesis unfolding run using IH [unfolded conjunct1 [OF o]] by (simp only:)
  qed
qed

lemma start_is_latest:
  fixes b :: "'s \<Rightarrow> 's"
  assumes "guarded_ok n g" and "Suc n < 2 ^ 64"
  defines "h \<equiv> run_on_executor b True g"
  shows "latest (gd_spawned g) h \<and> map_of (gd_tasks h) (gd_spawned g) = Some (gd_generation h) \<and> gd_signals h = b (gd_signals g)"
proof -
  have gen: "unat (gd_generation g + 1) = Suc n"
    using assms(1,2) by (simp add: guarded_ok_def unat_word_ariths)
  have old: "k \<noteq> gd_spawned g \<and> c \<noteq> gd_generation g + 1" if "(k, c) \<in> set (gd_tasks g)" for k c
    using assms(1) that gen by (fastforce simp: guarded_ok_def)
  then have "map_of (gd_tasks g) (gd_spawned g) = None" unfolding map_of_eq_None_iff by fastforce
  then show ?thesis using old by (auto simp: h_def run_on_executor_def Let_def latest_def map_add_def)
qed

text \<open>
  The contract of an asynchronous value: beginning a run makes it busy, applying an outcome ends that.
\<close>

locale async_value =
  fixes begin_run :: "'s \<Rightarrow> 's" and apply_run :: "string + 'o \<Rightarrow> 's \<Rightarrow> 's" and busy :: "'s \<Rightarrow> bool"
  assumes busy_begin: "busy (begin_run s)"
    and idle_apply: "\<not> busy (apply_run r s)"
begin

lemma latest_run_decides:
  assumes "guarded_ok 0 g" and "Suc (starts es) < 2 ^ 64" and "\<forall>e \<in> set fs. \<not> is_start e"
  defines "g0 \<equiv> async_run True begin_run apply_run es g"
    and "h \<equiv> async_run True begin_run apply_run (es @ Start True # fs) g"
  shows "gd_signals h = (case end_of (gd_spawned g0) fs of None \<Rightarrow> begin_run (gd_signals g0)
      | Some r \<Rightarrow> apply_run (catch_unwind r) (begin_run (gd_signals g0))) \<and>
    (busy (gd_signals h) \<longleftrightarrow> end_of (gd_spawned g0) fs = None) \<and>
    (gd_spawned g0 \<in> fst ` set (gd_tasks h) \<longleftrightarrow> end_of (gd_spawned g0) fs = None)"
proof -
  have ok: "guarded_ok (starts es) g0" using async_run_ok [OF assms(1), of es begin_run apply_run] assms(2) by (simp add: g0_def)
  let ?g1 = "run_on_executor begin_run True g0"
  note l = start_is_latest [OF ok assms(2), of begin_run]
  have h: "h = async_run True begin_run apply_run fs ?g1"
    by (simp add: h_def g0_def async_run_def run_guarded_def)
  have d: "gd_signals h = (case end_of (gd_spawned g0) fs of None \<Rightarrow> gd_signals ?g1 | Some r \<Rightarrow> apply_run (catch_unwind r) (gd_signals ?g1))"
    "gd_spawned g0 \<in> fst ` set (gd_tasks h) \<longleftrightarrow> end_of (gd_spawned g0) fs = None"
    using settles_decide [of "gd_spawned g0" ?g1 fs True begin_run apply_run] l assms(3) by (simp_all add: h)
  then show ?thesis using l busy_begin idle_apply by (auto split: option.splits)
qed

text \<open>With no task left in flight, and no factory having panicked, the value is idle.\<close>

lemma idle_when_drained:
  assumes "guarded_ok 0 g" and "starts es < 2 ^ 64" and "Start False \<notin> set es" and "Start True \<in> set es"
    and "gd_tasks (async_run True begin_run apply_run es g) = []"
  shows "\<not> busy (gd_signals (async_run True begin_run apply_run es g))"
proof -
  obtain as bs where es: "es = as @ Start True # bs" "Start True \<notin> set bs"
    using split_list_last [OF assms(4)] by blast
  have bs: "\<forall>e \<in> set bs. \<not> is_start e"
  proof
    fix e
    assume e: "e \<in> set bs"
    have ne: "e \<noteq> Start True" "e \<noteq> Start False" using e es assms(3) by auto
    show "\<not> is_start e"
    proof (cases e)
      case (Start made)
      then show ?thesis using ne by (cases made) simp_all
    qed (simp add: is_start_def)
  qed
  have "Suc (starts as) < 2 ^ 64" using assms(2) by (simp add: es starts_def is_start_def)
  note d = latest_run_decides [OF assms(1) this bs, folded es(1), THEN conjunct2]
  from conjunct2 [OF d] have "end_of (gd_spawned (async_run True begin_run apply_run as g)) bs \<noteq> None"
    by (simp only: assms(5)) simp
  with conjunct1 [OF d] show ?thesis by simp
qed

end

interpretation act: async_value dispatch_begin dispatch_apply ac_pending
  by unfold_locales (auto simp: dispatch_begin_def dispatch_apply_def Let_def split: sum.splits)

interpretation res: async_value fetch_begin fetch_apply "\<lambda>s. rs_state s = Pending"
  by unfold_locales (auto simp: fetch_begin_def fetch_apply_def split: sum.splits)

lemma create_action_ok: "guarded_ok 0 create_action"
  by (simp add: guarded_ok_def create_action_def)

text \<open>Where there is no executor nothing ever moves.\<close>

lemma inert_on_the_server:
  "gd_tasks g = [] \<Longrightarrow> async_run False b a es g = g"
proof (induction es)
  case (Cons e es)
  have "async_step False b a g e = g" using Cons.prems by (cases e) (simp_all add: run_guarded_def finish_task_def)
  then show ?case using Cons by (simp add: async_run_def)
qed (simp add: async_run_def)

text \<open>
  C28: an action shows its latest dispatch, whatever overtakes it. Let any sequence of dispatches and finished
  tasks be followed by one more dispatch and by further tasks finishing, in any order. Then \<open>pending\<close> holds until
  the task of that dispatch has finished; the outcomes of earlier dispatches, whenever they arrive, change
  nothing; and once it has finished, a success is the value with no error, and a failure or a panic is the error
  beside the value there was.
\<close>

theorem action_shows_its_latest_dispatch:
  assumes "Suc (starts es) < 2 ^ 64" and "\<forall>e \<in> set fs. \<not> is_start e"
  defines "before \<equiv> async_run True dispatch_begin dispatch_apply es create_action"
    and "after \<equiv> gd_signals (async_run True dispatch_begin dispatch_apply (es @ Start True # fs) create_action)"
  shows "(ac_pending after \<longleftrightarrow> end_of (gd_spawned before) fs = None) \<and>
    (case map_option catch_unwind (end_of (gd_spawned before) fs) of
       None \<Rightarrow> ac_value after = ac_value (gd_signals before) \<and> ac_error after = None
     | Some (Inr v) \<Rightarrow> ac_value after = Some v \<and> ac_error after = None
     | Some (Inl message) \<Rightarrow> ac_value after = ac_value (gd_signals before) \<and> ac_error after = Some message)"
  using act.latest_run_decides [OF create_action_ok assms(1,2)] unfolding before_def after_def
  by (auto simp: dispatch_begin_def dispatch_apply_def Let_def split: option.splits sum.splits)

lemma action_shows_its_latest_dispatch_witness:
  "ac_value (gd_signals (async_run True dispatch_begin dispatch_apply
     [Start True, Start True, Settle 1 (Finished (Inr 20)), Settle 0 (Finished (Inr (10 :: nat)))] create_action)) = Some 20"
proof -
  have "Suc (starts [Start True :: nat async_event]) < 2 ^ 64" by (simp add: starts_def is_start_def)
  moreover have "\<forall>e \<in> set [Settle 1 (Finished (Inr 20)), Settle 0 (Finished (Inr (10 :: nat)))]. \<not> is_start e" by (simp add: is_start_def)
  ultimately show ?thesis
    using action_shows_its_latest_dispatch [of "[Start True]" "[Settle 1 (Finished (Inr 20)), Settle 0 (Finished (Inr (10 :: nat)))]"]
    by (simp add: async_run_def create_action_def run_guarded_def run_on_executor_def catch_unwind_def)
qed

text \<open>
  A factory that panics takes the pending run's turn: the run of the first dispatch is superseded by one that
  never began, its outcome is discarded, and \<open>pending\<close> stays set with no task left that could clear it.
\<close>

lemma panicking_factory_latches_pending:
  "let g = async_run True dispatch_begin dispatch_apply [Start True, Start False, Settle 0 (Finished (Inr (1 :: nat)))] create_action
   in ac_pending (gd_signals g) \<and> gd_tasks g = [] \<and> ac_value (gd_signals g) = None"
  by code_simp

lemma create_resource_ok: "initial \<noteq> None \<Longrightarrow> guarded_ok 0 (create_resource True made initial)"
  by (simp add: guarded_ok_def create_resource_def)

text \<open>Without an initial value the construction is the first fetch of an empty resource.\<close>

definition empty_resource :: "'o option \<Rightarrow> 'o resource guarded" where
  "empty_resource initial = \<lparr>gd_generation = 0, gd_tasks = [], gd_spawned = 0,
     gd_signals = \<lparr>rs_state = (if initial \<noteq> None then Ready else Pending), rs_value = initial\<rparr>\<rparr>"

definition resource_events :: "'o option \<Rightarrow> 'o async_event list \<Rightarrow> 'o async_event list" where
  "resource_events initial es = (if initial \<noteq> None then es else Start True # es)"

lemma resource_run:
  "async_run True fetch_begin fetch_apply es (create_resource True True initial) =
     async_run True fetch_begin fetch_apply (resource_events initial es) (empty_resource initial)"
  by (cases initial) (simp_all add: async_run_def create_resource_def resource_events_def empty_resource_def fetch_def)

lemma empty_resource_ok: "guarded_ok 0 (empty_resource initial)"
  by (simp add: guarded_ok_def empty_resource_def)

text \<open>A value that has been shown is never taken away, and its boundary never returns to the fallback.\<close>

lemma value_stays:
  "rs_value (gd_signals g) \<noteq> None \<Longrightarrow> rs_value (gd_signals (async_run x fetch_begin fetch_apply es g)) \<noteq> None"
proof (induction es arbitrary: g)
  case (Cons e es)
  have "rs_value (gd_signals (async_step x fetch_begin fetch_apply g e)) \<noteq> None" using Cons.prems
    by (cases e) (auto simp: run_guarded_def run_on_executor_def fetch_begin_def finish_task_def fetch_apply_def Let_def split: option.splits sum.splits)
  then show ?case using Cons.IH by (simp add: async_run_def)
qed (simp add: async_run_def)

lemma async_run_append: "async_run x b a (es @ fs) g = async_run x b a fs (async_run x b a es g)"
  by (simp add: async_run_def)

text \<open>
  C29: a resource comes to rest. However many source changes and refetches there are, and in whatever order
  their futures finish, as long as no factory panics: when the last future has finished the resource is not
  pending, and a resource that is ready has a value. And once a value has been there, the enclosing
  \<open>Suspense\<close> boundary never shows its fallback again.
\<close>

theorem resource_settles:
  fixes initial :: "'a option" and es fs :: "'a async_event list"
  assumes "Suc (starts es) < 2 ^ 64" and "Start False \<notin> set es"
  defines "g \<equiv> async_run True fetch_begin fetch_apply es (create_resource True True initial)"
  shows "(gd_tasks g = [] \<longrightarrow> rs_state (gd_signals g) \<noteq> Pending) \<and>
    (rs_state (gd_signals g) = Ready \<longrightarrow> rs_value (gd_signals g) \<noteq> None) \<and>
    (rs_value (gd_signals g) \<noteq> None \<longrightarrow> \<not> source_is_pending (gd_signals (async_run True fetch_begin fetch_apply fs g)))"
proof -
  let ?es = "resource_events initial es"
  have run: "g = async_run True fetch_begin fetch_apply ?es (empty_resource initial)" unfolding g_def by (rule resource_run)
  have few: "starts ?es < 2 ^ 64" using assms(1) by (simp add: resource_events_def starts_def is_start_def)
  have calm: "Start False \<notin> set ?es" using assms(2) by (simp add: resource_events_def)
  have "rs_state (gd_signals g) \<noteq> Pending" if drained: "gd_tasks g = []"
  proof (cases "Start True \<in> set ?es")
    case True
    show ?thesis using res.idle_when_drained [OF empty_resource_ok few calm True] drained by (simp add: run)
  next
    case False
    then obtain v where v: "initial = Some v" by (cases initial) (simp_all add: resource_events_def)
    have "\<forall>e \<in> set ?es. \<exists>t r. e = Settle t r"
    proof
      fix e
      assume e: "e \<in> set ?es"
      show "\<exists>t r. e = Settle t r"
      proof (cases e)
        case (Start made)
        then show ?thesis using e False calm by (cases made) simp_all
      qed simp
    qed
    moreover have "async_run True fetch_begin fetch_apply us (empty_resource initial) = empty_resource initial"
      if "\<forall>e \<in> set us. \<exists>t r. e = Settle t r" for us :: "'a async_event list"
      using that by (induction us) (auto simp: async_run_def finish_task_def empty_resource_def)
    ultimately show ?thesis by (simp add: run empty_resource_def v)
  qed
  moreover have "rs_state (gd_signals (async_run True fetch_begin fetch_apply us h)) = Ready \<longrightarrow>
      rs_value (gd_signals (async_run True fetch_begin fetch_apply us h)) \<noteq> None"
    if "rs_state (gd_signals h) = Ready \<longrightarrow> rs_value (gd_signals h) \<noteq> None" for us and h :: "'a resource guarded"
    using that
  proof (induction us arbitrary: h)
    case (Cons e us)
    have "rs_state (gd_signals (async_step True fetch_begin fetch_apply h e)) = Ready \<longrightarrow>
        rs_value (gd_signals (async_step True fetch_begin fetch_apply h e)) \<noteq> None" using Cons.prems
      by (cases e) (auto simp: run_guarded_def run_on_executor_def fetch_begin_def finish_task_def fetch_apply_def Let_def split: option.splits sum.splits)
    then show ?case using Cons.IH by (simp add: async_run_def)
  qed (simp add: async_run_def)
  then have "rs_state (gd_signals g) = Ready \<longrightarrow> rs_value (gd_signals g) \<noteq> None" by (simp add: run empty_resource_def)
  moreover have "rs_value (gd_signals g) \<noteq> None \<longrightarrow> \<not> source_is_pending (gd_signals (async_run True fetch_begin fetch_apply fs g))"
    using value_stays [of g True fs] by (auto simp: source_is_pending_def)
  ultimately show ?thesis by blast
qed

lemma resource_settles_witness:
  "rs_state (gd_signals (async_run True fetch_begin fetch_apply
     [Settle 0 (Finished (Inr (5 :: nat))), Start True, Settle 1 (Panicked OtherPayload)] (create_resource True True None))) \<noteq> Pending"
proof -
  let ?es = "[Settle 0 (Finished (Inr (5 :: nat))), Start True, Settle 1 (Panicked OtherPayload)]"
  have "Suc (starts ?es) < 2 ^ 64" "Start False \<notin> set ?es" by (simp_all add: starts_def is_start_def)
  moreover have "gd_tasks (async_run True fetch_begin fetch_apply ?es (create_resource True True None)) = []" by code_simp
  ultimately show ?thesis using resource_settles [of ?es None "[]"] by blast
qed

text \<open>Before the first value it can return: a failed load shows the children, and a refetch takes them away again.\<close>

lemma refetch_after_failure_shows_the_fallback:
  "let g = async_run True fetch_begin fetch_apply [Settle 0 (Finished (Inl ''offline''))] (create_resource True True (None :: nat option))
   in \<not> source_is_pending (gd_signals g) \<and> source_is_pending (gd_signals (fetch True True g))"
  by code_simp

end
