(* ===== verification/Suspense.thy ===== *)
theory Suspense
  imports HtmlEscape
begin

text \<open>
  \<open>Suspense\<close> boundaries (\<open>krab_core/src/suspense.rs\<close>) and the markers they leave in the HTML, with the
  check that a page has no boundary still waiting (\<open>is_finalized_ssr_snapshot\<close> of
  \<open>krab_core/src/render_stream.rs\<close>). The reactive state is a type \<open>'s\<close> that sources read.
\<close>

subsection \<open>Boundaries\<close>

record 's source_reg =
  so_is_pending :: "'s \<Rightarrow> bool"
  so_streamable :: bool

record 's suspense_context =
  sc_id :: string
  sc_sources :: "'s source_reg list"

text \<open>The counter is process wide and wraps around.\<close>

definition next_suspense_id :: "u64 \<Rightarrow> string \<times> u64" where
  "next_suspense_id n = (CHR ''s'' # show_word n, n + 1)"

definition suspense_context_new :: "u64 \<Rightarrow> 's suspense_context \<times> u64" where
  "suspense_context_new n = (case next_suspense_id n of (i, n') \<Rightarrow> (\<lparr>sc_id = i, sc_sources = []\<rparr>, n'))"

definition register_source :: "('s \<Rightarrow> bool) \<Rightarrow> 's suspense_context \<Rightarrow> 's suspense_context \<times> nat" where
  "register_source p ctx =
     (ctx\<lparr>sc_sources := sc_sources ctx @ [\<lparr>so_is_pending = p, so_streamable = False\<rparr>]\<rparr>, length (sc_sources ctx))"

definition mark_streamable :: "nat \<Rightarrow> 's suspense_context \<Rightarrow> 's suspense_context" where
  "mark_streamable i ctx = ctx\<lparr>sc_sources := (sc_sources ctx)[i := (sc_sources ctx ! i)\<lparr>so_streamable := True\<rparr>]\<rparr>"

definition is_pending :: "'s suspense_context \<Rightarrow> 's \<Rightarrow> bool" where
  "is_pending ctx s = foldl (\<lambda>pending src. so_is_pending src s \<or> pending) False (sc_sources ctx)"

definition pending_sources_are_streamable :: "'s suspense_context \<Rightarrow> 's \<Rightarrow> bool" where
  "pending_sources_are_streamable ctx s = list_all (\<lambda>src. so_streamable src \<or> \<not> so_is_pending src s) (sc_sources ctx)"

definition source_count :: "'s suspense_context \<Rightarrow> nat" where
  "source_count ctx = length (sc_sources ctx)"

subsection \<open>Markers\<close>

datatype suspense_state = StPending | StResolved | StError

definition state_as_str :: "suspense_state \<Rightarrow> string" where
  "state_as_str st = (case st of StPending \<Rightarrow> ''pending'' | StResolved \<Rightarrow> ''resolved'' | StError \<Rightarrow> ''error'')"

definition state_parse :: "string \<Rightarrow> suspense_state option" where
  "state_parse v =
     (if v = ''pending'' then Some StPending
      else if v = ''resolved'' then Some StResolved
      else if v = ''error'' then Some StError
      else None)"

definition open_marker :: "string \<Rightarrow> string" where
  "open_marker i = ''krab:suspense:'' @ i @ '':pending''"

definition resolved_marker :: "string \<Rightarrow> string" where
  "resolved_marker i = ''krab:suspense:'' @ i @ '':resolved''"

definition deferred_end_marker :: "string \<Rightarrow> string" where
  "deferred_end_marker i = ''/krab:suspense:'' @ i"

definition parse_suspense_marker :: "string \<Rightarrow> (string \<times> suspense_state) option" where
  "parse_suspense_marker input =
     (let trimmed = trim input;
          body = (case strip_prefix ''<!--'' trimmed of
                    Some v \<Rightarrow> (case strip_suffix ''-->'' v of Some w \<Rightarrow> w | None \<Rightarrow> trimmed)
                  | None \<Rightarrow> trimmed)
      in case split_on (\<lambda>c. c = CHR '':'') body of
           pre # kind # boundary_id # state_raw # _ \<Rightarrow>
             if pre \<noteq> ''krab'' \<or> kind \<noteq> ''suspense'' \<or> trim boundary_id = [] then None
             else map_option (\<lambda>st. (trim boundary_id, st)) (state_parse (trim state_raw))
         | _ \<Rightarrow> None)"

text \<open>\<open>str::split\<close> on a string.\<close>

function split_str :: "string \<Rightarrow> string \<Rightarrow> string list" where
  "split_str d s =
     (if d = [] then [s] else case split_seq d s of None \<Rightarrow> [s] | Some (a, b) \<Rightarrow> a # split_str d b)"
  by pat_completeness auto

termination
  by (relation "measure (\<lambda>(d, s). length s)") (auto dest!: split_seq_Some)

declare split_str.simps [simp del]

definition segment_marker :: "string \<Rightarrow> (string \<times> suspense_state) option" where
  "segment_marker segment =
     (case split_seq ''-->'' segment of None \<Rightarrow> None | Some (body, _) \<Rightarrow> parse_suspense_marker body)"

definition marks :: "string \<Rightarrow> (string \<times> suspense_state) list" where
  "marks html = List.map_filter segment_marker (tl (split_str ''<!--'' html))"

definition count_mark :: "string \<times> suspense_state \<Rightarrow> (nat \<times> nat \<times> nat) hashmap \<Rightarrow> (nat \<times> nat \<times> nat) hashmap" where
  "count_mark m h =
     (let (p, r, e) = (case hm_get h (fst m) of Some c \<Rightarrow> c | None \<Rightarrow> (0, 0, 0))
      in hm_insert (fst m)
           (case snd m of StPending \<Rightarrow> (Suc p, r, e) | StResolved \<Rightarrow> (p, Suc r, e) | StError \<Rightarrow> (p, r, Suc e)) h)"

definition is_finalized_ssr_snapshot :: "string \<Rightarrow> bool" where
  "is_finalized_ssr_snapshot html =
     list_all (\<lambda>(_, p, r, e). 0 < p \<and> p = r + e) (fold count_mark (marks html) [])"

subsection \<open>Pages with boundaries\<close>

text \<open>
  What a renderer meets: markup (any nodes without a boundary, as the HTML they render to), sequences, and
  boundaries with their children and fallback.
\<close>

datatype 's part =
    Markup "'s \<Rightarrow> string"
  | Parts "'s part list"
  | Boundary "'s suspense_context" "'s part" "'s part"

definition comment_node :: "string \<Rightarrow> string" where
  "comment_node t = ''<!--'' @ sanitize_comment t @ ''-->''"

fun render_part :: "'s \<Rightarrow> 's part \<Rightarrow> string" where
  "render_part s (Markup f) = f s"
| "render_part s (Parts ps) = concat (map (render_part s) ps)"
| "render_part s (Boundary ctx content fallback) =
     (if is_pending ctx s
      then comment_node (open_marker (sc_id ctx)) @ render_part s fallback @ comment_node (resolved_marker (sc_id ctx))
      else comment_node (open_marker (sc_id ctx)) @ render_part s content @ comment_node (resolved_marker (sc_id ctx)))"

subsection \<open>Counting markers\<close>

definition balanced :: "(string \<times> suspense_state) list \<Rightarrow> bool" where
  "balanced ms \<longleftrightarrow>
     (\<forall>i \<in> fst ` set ms. 0 < count_list ms (i, StPending) \<and>
        count_list ms (i, StPending) = count_list ms (i, StResolved) + count_list ms (i, StError))"

lemma fold_count_mark:
  "hm_get (fold count_mark ms h) i =
     (if i \<in> fst ` set ms \<or> hm_get h i \<noteq> None
      then (let (p, r, e) = (case hm_get h i of Some c \<Rightarrow> c | None \<Rightarrow> (0, 0, 0))
            in Some (p + count_list ms (i, StPending), r + count_list ms (i, StResolved), e + count_list ms (i, StError)))
      else None)"
proof (induction ms arbitrary: h)
  case Nil
  then show ?case by (auto split: option.splits)
next
  case (Cons m ms)
  obtain j st where m: "m = (j, st)" by fastforce
  show ?case
    using Cons [of "count_mark m h"]
    by (cases st; cases "i = j"; cases "hm_get h j") (auto simp: m count_mark_def hm_simps Let_def split: prod.splits option.splits)
qed

lemma count_mark_distinct: "distinct (map fst h) \<Longrightarrow> distinct (map fst (count_mark m h))"
  by (auto simp: count_mark_def Let_def distinct_update split: prod.splits)

lemma fold_count_mark_distinct: "distinct (map fst h) \<Longrightarrow> distinct (map fst (fold count_mark ms h))"
  by (induction ms arbitrary: h) (auto intro: count_mark_distinct)

text \<open>The table of the code says exactly that the markers are balanced.\<close>

lemma finalized_balanced: "is_finalized_ssr_snapshot html \<longleftrightarrow> balanced (marks html)"
proof -
  let ?h = "fold count_mark (marks html) []"
  have d: "distinct (map fst ?h)" by (rule fold_count_mark_distinct) simp
  have mem: "(i, c) \<in> set ?h \<longleftrightarrow> hm_get ?h i = Some c" for i c using d by simp
  have "is_finalized_ssr_snapshot html \<longleftrightarrow> (\<forall>i p r e. (i, p, r, e) \<in> set ?h \<longrightarrow> 0 < p \<and> p = r + e)"
    unfolding is_finalized_ssr_snapshot_def list_all_iff by (auto split: prod.splits)
  also have "\<dots> \<longleftrightarrow> (\<forall>i p r e. hm_get ?h i = Some (p, r, e) \<longrightarrow> 0 < p \<and> p = r + e)" by (simp only: mem)
  also have "\<dots> \<longleftrightarrow> balanced (marks html)"
    unfolding balanced_def fold_count_mark by (auto split: if_splits)
  finally show ?thesis .
qed

subsection \<open>Markers of concatenations\<close>

lemma split_seq_here: "split_seq d (d @ x) = Some ([], x)"
proof (cases "d @ x")
  case (Cons c cs)
  then have "prefix d (c # cs)" "drop (length d) (c # cs) = x" by (metis prefixI, metis append_eq_conv_conj)
  then show ?thesis by (simp add: Cons)
qed simp

lemma split_seq_append: "split_seq d s = Some (a, b) \<Longrightarrow> split_seq d (s @ t) = Some (a, b @ t)"
proof (induction s arbitrary: a)
  case Nil
  then show ?case by (cases t) (auto split: if_splits)
next
  case (Cons c s)
  show ?case
  proof (cases "prefix d (c # s)")
    case True
    then obtain z where z: "c # s = d @ z" by (auto simp: prefix_def)
    then have z': "c # s @ t = d @ z @ t" by (metis append.assoc append_Cons)
    have "a = []" "b = drop (length d) (c # s)" using Cons.prems True by auto
    then have "a = []" "b = z" unfolding z by simp_all
    then show ?thesis using split_seq_here [of d "z @ t"] z' by simp
  next
    case False
    then obtain a' where a': "a = c # a'" "split_seq d s = Some (a', b)" using Cons.prems by auto
    have "s = a' @ d @ b" by (rule split_seq_Some [OF a'(2)])
    then have "\<not> prefix d (c # (s @ t))" using False prefix_length_prefix [of d "c # s @ t" "c # s"] by (auto simp: prefix_def)
    then show ?thesis using Cons.IH [OF a'(2)] a'(1) by simp
  qed
qed

lemma split_seq_at_comment: "split_seq ''<!--'' a = None \<Longrightarrow> split_seq ''<!--'' (a @ ''<!--'' @ b) = Some (a, b)"
proof (induction a)
  case (Cons c a)
  have no: "\<not> prefix ''<!--'' (c # a)" and rest: "split_seq ''<!--'' a = None" using Cons.prems by (auto split: if_splits)
  have "\<not> prefix ''<!--'' (c # a @ ''<!--'' @ b)"
    using no by (cases a; cases "tl a"; cases "tl (tl a)") auto
  then show ?case using Cons.IH [OF rest] by simp
qed simp

lemma split_str_comment: "split_str ''<!--'' (a @ ''<!--'' @ b) = split_str ''<!--'' a @ split_str ''<!--'' b"
proof (induction "length a" arbitrary: a rule: less_induct)
  case less
  show ?case
  proof (cases "split_seq ''<!--'' a")
    case None
    then show ?thesis
      using split_seq_at_comment [OF None, of b] split_str.simps [of "''<!--''" a] split_str.simps [of "''<!--''" "a @ ''<!--'' @ b"] by simp
  next
    case (Some xy)
    obtain x y where xy: "xy = (x, y)" by fastforce
    have s: "split_seq ''<!--'' (a @ ''<!--'' @ b) = Some (x, y @ ''<!--'' @ b)"
      using split_seq_append [of "''<!--''" a x y "''<!--'' @ b"] Some xy by simp
    have "length y < length a" using split_seq_Some [of "''<!--''" a x y] Some xy by simp
    from less.hyps [OF this] show ?thesis
      using Some xy s split_str.simps [of "''<!--''" a] split_str.simps [of "''<!--''" "a @ ''<!--'' @ b"] by simp
  qed
qed

lemma split_str_nonempty: "split_str d s \<noteq> []"
  by (simp add: split_str.simps [of d s] split: option.splits)

lemma map_filter_append: "List.map_filter f (xs @ ys) = List.map_filter f xs @ List.map_filter f ys"
  by (simp add: List.map_filter_def)

lemma map_filter_Cons: "List.map_filter f (x # xs) = (case f x of Some y \<Rightarrow> [y] | None \<Rightarrow> []) @ List.map_filter f xs"
  by (simp add: List.map_filter_def split: option.splits)

lemma split_str_after: "\<not> str_contains v ''<!--'' \<Longrightarrow>
    split_str ''<!--'' (v @ CHR ''>'' # b) = (v @ CHR ''>'' # hd (split_str ''<!--'' b)) # tl (split_str ''<!--'' b)"
proof -
  assume v: "\<not> str_contains v ''<!--''"
  have bar: "prefix ''<!--'' (u @ CHR ''>'' # b) \<longleftrightarrow> prefix ''<!--'' u" for u b by (rule prefix_barrier) simp
  have "split_seq ''<!--'' (v @ CHR ''>'' # b) = map_option (\<lambda>(x, y). (v @ CHR ''>'' # x, y)) (split_seq ''<!--'' b)" using v
  proof (induction v)
    case Nil
    then show ?case using bar [of "[]" b] by simp
  next
    case (Cons c v)
    have "\<not> prefix ''<!--'' (c # v)" using Cons.prems by (auto simp: str_contains_def)
    then have "\<not> prefix ''<!--'' ((c # v) @ CHR ''>'' # b)" using bar by blast
    moreover have "\<not> str_contains v ''<!--''" using Cons.prems str_contains_mono [of v _ "[c]" "[]"] by auto
    ultimately show ?case using Cons.IH by (cases "split_seq ''<!--'' b") auto
  qed
  then show ?thesis
    using split_str.simps [of "''<!--''" "v @ CHR ''>'' # b"] split_str.simps [of "''<!--''" b] by (auto split: option.splits)
qed

lemma split_seq_close:
  "\<not> str_contains (body @ ''--'') ''-->'' \<Longrightarrow> split_seq ''-->'' (body @ ''-->'' @ x) = Some (body, x)"
proof (induction body)
  case (Cons c body)
  have "\<not> prefix ''-->'' (c # body @ ''--'')" using Cons.prems by (auto simp: str_contains_def)
  then have "\<not> prefix ''-->'' (c # body @ ''-->'' @ x)"
    by (cases body; cases "tl body"; cases "tl (tl body)") auto
  moreover have "\<not> str_contains (body @ ''--'') ''-->''" using Cons.prems str_contains_mono [of "body @ ''--''" _ "[c]" "[]"] by auto
  ultimately show ?case using Cons.IH by simp
qed simp

text \<open>A comment in between: what stands before it and what stands after it are scanned on their own.\<close>

lemma marks_comment:
  assumes "\<not> str_contains (body @ ''--'') ''-->''" and "\<not> str_contains (body @ ''--'') ''<!--''"
  shows "marks (a @ ''<!--'' @ body @ ''-->'' @ b) =
    marks a @ (case parse_suspense_marker body of Some m \<Rightarrow> [m] | None \<Rightarrow> []) @ marks b"
proof -
  have rest: "split_str ''<!--'' (body @ ''-->'' @ b) = (body @ ''-->'' @ hd (split_str ''<!--'' b)) # tl (split_str ''<!--'' b)"
    using split_str_after [OF assms(2), of b] by simp
  have "segment_marker (body @ ''-->'' @ hd (split_str ''<!--'' b)) = parse_suspense_marker body"
    by (simp add: segment_marker_def split_seq_close [OF assms(1)] del: append_Cons)
  moreover have "tl (split_str ''<!--'' (a @ ''<!--'' @ body @ ''-->'' @ b)) =
      tl (split_str ''<!--'' a) @ split_str ''<!--'' (body @ ''-->'' @ b)"
    unfolding split_str_comment using split_str_nonempty by simp
  ultimately show ?thesis unfolding marks_def rest
    by (simp only: map_filter_append map_filter_Cons append_assoc)
qed

subsection \<open>Pages whose boundaries balance\<close>

text \<open>Markup that contributes no marker, whatever follows it.\<close>

definition inert :: "string \<Rightarrow> bool" where
  "inert w \<longleftrightarrow> (\<forall>rest. marks (w @ rest) = marks rest)"

definition id_ok :: "string \<Rightarrow> bool" where
  "id_ok i \<longleftrightarrow> i \<noteq> [] \<and> (\<forall>c \<in> set i. c = CHR ''s'' \<or> digit_val c \<noteq> None)"

lemma suspense_ids_ok: "id_ok (fst (next_suspense_id n))"
proof -
  have "digit_val c \<noteq> None" if c: "c \<in> set (show_nat m)" for c m
    using set_show_nat [OF c] by auto
  then show ?thesis by (auto simp: id_ok_def next_suspense_id_def show_word_def)
qed

primrec ids :: "'s part \<Rightarrow> string list" where
  "ids (Markup f) = []"
| "ids (Parts ps) = concat (map ids ps)"
| "ids (Boundary ctx content fallback) = sc_id ctx # ids content @ ids fallback"

primrec part_ok :: "'s part \<Rightarrow> bool" where
  "part_ok (Markup f) = (\<forall>s. inert (f s))"
| "part_ok (Parts ps) = list_all (\<lambda>b. b) (map part_ok ps)"
| "part_ok (Boundary ctx content fallback) = (id_ok (sc_id ctx) \<and> part_ok content \<and> part_ok fallback)"

text \<open>The characters of the identifiers are harmless in a comment and in the parts of a marker.\<close>

definition plain_char :: "char \<Rightarrow> bool" where
  "plain_char c \<longleftrightarrow> c \<noteq> CHR ''-'' \<and> c \<noteq> CHR ''<'' \<and> c \<noteq> CHR ''>'' \<and> c \<noteq> CHR ''!'' \<and> c \<noteq> CHR '':'' \<and> \<not> is_ws c"

lemma plain_digit:
  assumes "digit_val c \<noteq> None"
  shows "plain_char c"
proof -
  have k: "48 \<le> (of_char c :: nat)" "(of_char c :: nat) \<le> 57"
    using assms unfolding digit_val_def Let_def by (metis option.distinct(1))+
  have ne: "c \<noteq> x" if "(of_char x :: nat) < 48 \<or> 57 < (of_char x :: nat)" for x
    using k that by auto
  have "\<not> is_ws c" using k by (simp add: is_ws_def)
  moreover have "c \<noteq> CHR ''-''" "c \<noteq> CHR ''<''" "c \<noteq> CHR ''>''" "c \<noteq> CHR ''!''" "c \<noteq> CHR '':''"
    by (rule ne; simp)+
  ultimately show ?thesis by (simp add: plain_char_def)
qed

lemma plain_s: "plain_char (CHR ''s'')"
  by (simp add: plain_char_def is_ws_def)

lemma plain_id: "id_ok i \<Longrightarrow> c \<in> set i \<Longrightarrow> plain_char c"
  using plain_digit plain_s by (auto simp: id_ok_def)

lemma sanitize_plain:
  assumes "CHR ''-'' \<notin> set m" and "CHR ''>'' \<notin> set m" and "CHR ''!'' \<notin> set m"
  shows "sanitize_comment m = m"
proof -
  have "\<not> str_contains m ''--''" using assms(1) str_contains_set by fastforce
  then have d: "split_dashes m = m" by (simp add: split_dashes.simps [of m])
  have s: "\<not> starts_with m ''>''" "\<not> starts_with m ''->''" using assms(1,2) by (auto simp: starts_with_def prefix_def)
  have e: "\<not> ends_with m ''-''" "\<not> ends_with m ''<!''" using assms(1,3) by (auto simp: ends_with_def suffix_def)
  show ?thesis unfolding sanitize_comment_def Let_def d using s e by simp
qed

lemma marker_plain:
  assumes "id_ok i" and "m \<in> {open_marker i, resolved_marker i, ''krab:suspense:'' @ i @ '':error'', deferred_end_marker i}"
  shows "sanitize_comment m = m \<and> \<not> str_contains (m @ ''--'') ''-->'' \<and> \<not> str_contains (m @ ''--'') ''<!--''"
proof -
  have "CHR ''-'' \<notin> set i \<and> CHR ''<'' \<notin> set i \<and> CHR ''>'' \<notin> set i \<and> CHR ''!'' \<notin> set i"
    using plain_id [OF assms(1)] by (auto simp: plain_char_def)
  then have m: "CHR ''-'' \<notin> set m" "CHR ''<'' \<notin> set m" "CHR ''>'' \<notin> set m" "CHR ''!'' \<notin> set m"
    using assms(2) by (auto simp: open_marker_def resolved_marker_def deferred_end_marker_def)
  moreover have "\<not> str_contains (m @ ''--'') ''-->''" using m(3) str_contains_set by fastforce
  moreover have "\<not> str_contains (m @ ''--'') ''<!--''" using m(2) str_contains_set by fastforce
  ultimately show ?thesis using sanitize_plain by blast
qed

lemma parse_marker_parts:
  assumes "id_ok i" and "st \<in> {''pending'', ''resolved'', ''error''}"
  shows "parse_suspense_marker (''krab:suspense:'' @ i @ '':'' @ st) = map_option (\<lambda>st. (i, st)) (state_parse st)"
proof -
  define m where "m = ''krab:suspense:'' @ i @ '':'' @ st"
  have plain: "plain_char c" if "c \<in> set i" for c using plain_id assms(1) that by blast
  have "\<forall>c \<in> set m. \<not> is_ws c" using plain assms(2) unfolding m_def by (auto simp: plain_char_def is_ws_def)
  then have trim: "trim m = m" by (rule trim_id)
  have ti: "trim i = i" "trim st = st" using plain assms(2) by (auto intro!: trim_id simp: plain_char_def is_ws_def)
  have none: "strip_prefix ''<!--'' m = None" by (simp add: m_def strip_prefix_def)
  have "split_on (\<lambda>c. c = CHR '':'') i = [i]" using plain by (intro split_on_none) (auto simp: plain_char_def)
  moreover have "split_on (\<lambda>c. c = CHR '':'') st = [st]" using assms(2) by (intro split_on_none) auto
  ultimately have "split_on (\<lambda>c. c = CHR '':'') (i @ '':'' @ st) = [i, st]"
    using split_on_append [of "\<lambda>c. c = CHR '':''" "CHR '':''" i st] by simp
  then have parts: "split_on (\<lambda>c. c = CHR '':'') m = [''krab'', ''suspense'', i, st]" by (simp add: m_def)
  have "i \<noteq> []" using assms(1) by (simp add: id_ok_def)
  then have "parse_suspense_marker m = map_option (\<lambda>st. (i, st)) (state_parse st)"
    by (simp add: parse_suspense_marker_def trim none parts ti Let_def)
  then show ?thesis by (simp only: m_def)
qed

lemma parse_markers:
  assumes "id_ok i"
  shows "parse_suspense_marker (open_marker i) = Some (i, StPending)"
    and "parse_suspense_marker (resolved_marker i) = Some (i, StResolved)"
    and "parse_suspense_marker (''krab:suspense:'' @ i @ '':error'') = Some (i, StError)"
    and "parse_suspense_marker (deferred_end_marker i) = None"
proof -
  show "parse_suspense_marker (open_marker i) = Some (i, StPending)" "parse_suspense_marker (resolved_marker i) = Some (i, StResolved)"
    "parse_suspense_marker (''krab:suspense:'' @ i @ '':error'') = Some (i, StError)"
    using parse_marker_parts [OF assms, of "''pending''"] parse_marker_parts [OF assms, of "''resolved''"] parse_marker_parts [OF assms, of "''error''"]
    by (simp_all add: open_marker_def resolved_marker_def state_parse_def)
  define m where "m = deferred_end_marker i"
  have plain: "plain_char c" if "c \<in> set i" for c using plain_id assms that by blast
  have "\<forall>c \<in> set m. \<not> is_ws c" using plain by (auto simp: m_def plain_char_def is_ws_def deferred_end_marker_def)
  then have trim: "trim m = m" by (rule trim_id)
  have "split_on (\<lambda>c. c = CHR '':'') i = [i]" using plain by (intro split_on_none) (auto simp: plain_char_def)
  then have parts: "split_on (\<lambda>c. c = CHR '':'') m = [''/krab'', ''suspense'', i]" by (simp add: m_def deferred_end_marker_def)
  have "strip_prefix ''<!--'' m = None" by (simp add: m_def deferred_end_marker_def strip_prefix_def)
  then have "parse_suspense_marker m = None" by (simp add: parse_suspense_marker_def trim parts Let_def)
  then show "parse_suspense_marker (deferred_end_marker i) = None" by (simp only: m_def)
qed

lemma marks_Nil [simp]: "marks [] = []"
  by (simp add: marks_def split_str.simps [of _ "[]"] List.map_filter_def)

lemma marks_marker:
  assumes "id_ok i"
  shows "marks (comment_node (open_marker i) @ b) = (i, StPending) # marks b"
    and "marks (comment_node (resolved_marker i) @ b) = (i, StResolved) # marks b"
    and "marks (''<!--krab:suspense:'' @ i @ '':error-->'' @ b) = (i, StError) # marks b"
    and "marks (comment_node (deferred_end_marker i) @ b) = marks b"
proof -
  have go: "marks (''<!--'' @ m @ ''-->'' @ b) = (case parse_suspense_marker m of Some x \<Rightarrow> [x] | None \<Rightarrow> []) @ marks b" and san: "sanitize_comment m = m"
    if "m \<in> {open_marker i, resolved_marker i, ''krab:suspense:'' @ i @ '':error'', deferred_end_marker i}" for m
    using marks_comment [of m "[]" b] marker_plain [OF assms that] by (simp_all del: append_Cons)
  show "marks (comment_node (open_marker i) @ b) = (i, StPending) # marks b"
    "marks (comment_node (resolved_marker i) @ b) = (i, StResolved) # marks b"
    "marks (comment_node (deferred_end_marker i) @ b) = marks b"
    using go [of "open_marker i"] go [of "resolved_marker i"] go [of "deferred_end_marker i"]
      san [of "open_marker i"] san [of "resolved_marker i"] san [of "deferred_end_marker i"] parse_markers [OF assms]
    by (simp_all add: comment_node_def del: append_Cons)
  show "marks (''<!--krab:suspense:'' @ i @ '':error-->'' @ b) = (i, StError) # marks b"
    using go [of "''krab:suspense:'' @ i @ '':error''"] parse_markers(3) [OF assms] by simp
qed

lemma inert_Nil [simp]: "inert []"
  by (simp add: inert_def)

lemma inert_append: "inert a \<Longrightarrow> inert b \<Longrightarrow> inert (a @ b)"
  by (simp add: inert_def)

lemma inert_tags: "\<not> str_contains v ''<!--'' \<Longrightarrow> inert (v @ ''>'')"
  by (simp add: inert_def marks_def split_str_after)

lemma inert_text:
  assumes "CHR ''<'' \<notin> set w"
  shows "inert w"
proof -
  have "split_seq ''<!--'' (w @ b) = map_option (\<lambda>(x, y). (w @ x, y)) (split_seq ''<!--'' b)" for b
    using assms by (induction w) (cases "split_seq ''<!--'' b"; auto)+
  then have "tl (split_str ''<!--'' (w @ b)) = tl (split_str ''<!--'' b)" for b
    using split_str.simps [of "''<!--''" "w @ b"] split_str.simps [of "''<!--''" b] by (auto split: option.splits)
  then show ?thesis by (simp add: inert_def marks_def)
qed

fun part_marks :: "'s \<Rightarrow> 's part \<Rightarrow> (string \<times> suspense_state) list" where
  "part_marks s (Markup f) = []"
| "part_marks s (Parts ps) = concat (map (part_marks s) ps)"
| "part_marks s (Boundary ctx content fallback) =
     (sc_id ctx, StPending) # part_marks s (if is_pending ctx s then fallback else content) @ [(sc_id ctx, StResolved)]"

lemma marks_render: "part_ok p \<Longrightarrow> marks (render_part s p @ rest) = part_marks s p @ marks rest"
proof (induction p arbitrary: rest rule: part.induct)
  case (Markup f)
  then show ?case by (simp add: inert_def)
next
  case (Parts ps)
  then show ?case by (induction ps) (auto simp: list_all_iff)
next
  case (Boundary ctx content fallback)
  then show ?case by (simp add: marks_marker)
qed

lemma part_marks_balance: "count_list (part_marks s p) (i, StPending) = count_list (part_marks s p) (i, StResolved) \<and>
    count_list (part_marks s p) (i, StError) = 0"
proof (induction p rule: part.induct)
  case (Parts ps)
  then show ?case by (induction ps) auto
qed auto

lemma mark_pending: "m \<in> set (part_marks s p) \<Longrightarrow> (fst m, StPending) \<in> set (part_marks s p)"
proof (induction p rule: part.induct)
  case (Parts ps)
  then show ?case by auto
qed auto

text \<open>A page rendered in one go is final, whether its boundaries show children or fallbacks.\<close>

lemma rendered_page_is_final:
  assumes "part_ok p"
  shows "is_finalized_ssr_snapshot (render_part s p)"
proof -
  have "marks (render_part s p) = part_marks s p" using marks_render [OF assms, of s "[]"] by simp
  moreover have "0 < count_list (part_marks s p) (i, StPending)" if i: "i \<in> fst ` set (part_marks s p)" for i
  proof -
    obtain m where m: "i = fst m" "m \<in> set (part_marks s p)" using i by (rule imageE)
    have "(i, StPending) \<in> set (part_marks s p)" unfolding m(1) by (rule mark_pending [OF m(2)])
    then have "count_list (part_marks s p) (i, StPending) \<noteq> 0" by (simp add: count_list_0_iff)
    then show ?thesis by linarith
  qed
  moreover have "count_list (part_marks s p) (i, StPending) =
      count_list (part_marks s p) (i, StResolved) + count_list (part_marks s p) (i, StError)" for i
    using part_marks_balance [of s p i] by linarith
  ultimately show ?thesis unfolding finalized_balanced balanced_def by simp
qed

end
