(* ===== verification/ProgressiveStream.thy ===== *)
theory ProgressiveStream
  imports Suspense
begin

text \<open>
  Progressive streaming of a page, \<open>krab_core/src/render_stream/progressive.rs\<close>: the shell with fallbacks
  first, then every deferred boundary as it resolves, and an error marker for those that never do. Loaders
  report in any order or not at all; the connection may fail at any send. Resources and their loaders are
  created while the page is built, so that all loaders are known when the shell is rendered.
\<close>

subsection \<open>Deferring\<close>

record 's deferred =
  df_context :: "'s suspense_context"
  df_content :: "'s part"
  df_emitted :: bool

definition defer_boundary :: "bool \<Rightarrow> 's \<Rightarrow> 's suspense_context \<Rightarrow> 's part \<Rightarrow> 's deferred list \<Rightarrow> 's deferred list option" where
  "defer_boundary active s ctx content ds =
     (if \<not> active then None
      else if \<not> pending_sources_are_streamable ctx s then None
      else if list_ex (\<lambda>d. sc_id (df_context d) = sc_id ctx) ds then Some ds
      else Some (ds @ [\<lparr>df_context = ctx, df_content = content, df_emitted = False\<rparr>]))"

text \<open>Rendering while a stream is active threads the list of deferred boundaries.\<close>

fun stream_part :: "bool \<Rightarrow> 's \<Rightarrow> 's part \<Rightarrow> 's deferred list \<Rightarrow> string \<times> 's deferred list"
  and stream_parts :: "bool \<Rightarrow> 's \<Rightarrow> 's part list \<Rightarrow> 's deferred list \<Rightarrow> string \<times> 's deferred list" where
  "stream_part active s (Markup f) ds = (f s, ds)"
| "stream_part active s (Parts ps) ds = stream_parts active s ps ds"
| "stream_part active s (Boundary ctx content fallback) ds =
     (if is_pending ctx s then
        (case defer_boundary active s ctx content ds of
           Some ds1 \<Rightarrow>
             (case stream_part active s fallback ds1 of
                (html, ds2) \<Rightarrow> (comment_node (open_marker (sc_id ctx)) @ html @ comment_node (deferred_end_marker (sc_id ctx)), ds2))
         | None \<Rightarrow>
             (case stream_part active s fallback ds of
                (html, ds1) \<Rightarrow> (comment_node (open_marker (sc_id ctx)) @ html @ comment_node (resolved_marker (sc_id ctx)), ds1)))
      else (case stream_part active s content ds of
              (html, ds1) \<Rightarrow> (comment_node (open_marker (sc_id ctx)) @ html @ comment_node (resolved_marker (sc_id ctx)), ds1)))"
| "stream_parts active s [] ds = ([], ds)"
| "stream_parts active s (p # ps) ds =
     (case stream_part active s p ds of
        (a, ds1) \<Rightarrow> (case stream_parts active s ps ds1 of (b, ds2) \<Rightarrow> (a @ b, ds2)))"

text \<open>What is left to render of a part, and of the boundaries that were not emitted.\<close>

primrec part_weight :: "'s part \<Rightarrow> nat" where
  "part_weight (Markup f) = 0"
| "part_weight (Parts ps) = sum_list (map part_weight ps)"
| "part_weight (Boundary ctx content fallback) = Suc (part_weight content + part_weight fallback)"

definition open_weight :: "'s deferred list \<Rightarrow> nat" where
  "open_weight ds = sum_list (map (\<lambda>d. if df_emitted d then 0 else Suc (part_weight (df_content d))) ds)"

lemma stream_part_new:
  shows "stream_part active s p ds = (html, ds') \<Longrightarrow> \<exists>new. ds' = ds @ new \<and> sum_list (map (\<lambda>d. Suc (part_weight (df_content d))) new) \<le> part_weight p \<and>
      list_all (\<lambda>d. \<not> df_emitted d) new"
    and "stream_parts active s ps ds = (html, ds') \<Longrightarrow> \<exists>new. ds' = ds @ new \<and> sum_list (map (\<lambda>d. Suc (part_weight (df_content d))) new) \<le> sum_list (map part_weight ps) \<and>
      list_all (\<lambda>d. \<not> df_emitted d) new"
proof (induction active s p ds and active s ps ds arbitrary: html ds' and html ds' rule: stream_part_stream_parts.induct)
  case (3 active s ctx content fallback ds)
  show ?case
  proof (cases "is_pending ctx s")
    case False
    then show ?thesis using "3.prems" "3.IH"(3) by (fastforce split: prod.splits)
  next
    case pending: True
    show ?thesis
    proof (cases "defer_boundary active s ctx content ds")
      case None
      then show ?thesis using "3.prems" "3.IH"(1) pending by (fastforce split: prod.splits)
    next
      case (Some ds1)
      obtain h2 ds2 where f: "stream_part active s fallback ds1 = (h2, ds2)" by fastforce
      obtain new where new: "ds2 = ds1 @ new" "sum_list (map (\<lambda>d. Suc (part_weight (df_content d))) new) \<le> part_weight fallback"
        "list_all (\<lambda>d. \<not> df_emitted d) new" using "3.IH"(2) [OF pending Some f] by blast
      have "ds' = ds2" using "3.prems" pending Some f by simp
      moreover have "ds1 = ds \<or> ds1 = ds @ [\<lparr>df_context = ctx, df_content = content, df_emitted = False\<rparr>]"
        using Some by (auto simp: defer_boundary_def split: if_splits)
      ultimately show ?thesis using new by auto
    qed
  qed
next
  case (5 active s p ps ds)
  then show ?case by (fastforce split: prod.splits)
qed auto

subsection \<open>Emitting\<close>

definition template_of :: "string \<Rightarrow> string \<Rightarrow> string" where
  "template_of i body =
     ''<template data-krab-suspense=\"'' @ i @ ''\">'' @ body @ ''<!--'' @ resolved_marker i @ ''--></template><span data-krab-suspense-ready=\"'' @ i @
     ''\" hidden></span>''"

text \<open>The boundaries from an index on, with what rendering them may append.\<close>

definition tail_weight :: "nat \<Rightarrow> 's deferred list \<Rightarrow> nat" where
  "tail_weight i ds = sum_list (map (\<lambda>d. Suc (part_weight (df_content d))) (drop i ds))"

lemma tail_weight_step: "i < length ds \<Longrightarrow> tail_weight i ds = Suc (part_weight (df_content (ds ! i))) + tail_weight (Suc i) ds"
  by (simp add: tail_weight_def Cons_nth_drop_Suc [symmetric])

lemma tail_weight_emit:
  assumes "i < length ds" and "(body, ds1) = stream_part active s (df_content (ds ! i)) ds"
  shows "tail_weight (Suc i) (ds1[i := d]) < Suc (part_weight (df_content (ds ! i)) + tail_weight (Suc i) ds)"
proof -
  obtain new where new: "ds1 = ds @ new" "sum_list (map (\<lambda>d. Suc (part_weight (df_content d))) new) \<le> part_weight (df_content (ds ! i))"
    using stream_part_new(1) [OF assms(2) [symmetric]] by blast
  have "tail_weight (Suc i) (ds1[i := d]) = tail_weight (Suc i) ds + sum_list (map (\<lambda>d. Suc (part_weight (df_content d))) new)"
    using assms(1) by (simp add: tail_weight_def new(1) drop_update_cancel)
  then show ?thesis using new(2) by simp
qed

text \<open>One pass over the boundaries, by index: rendering one may append others to the list.\<close>

function emit_pass :: "bool \<Rightarrow> 's \<Rightarrow> nat \<Rightarrow> 's deferred list \<Rightarrow> string \<Rightarrow> string \<times> 's deferred list" where
  "emit_pass active s i ds chunk =
     (if i < length ds then
        (if \<not> df_emitted (ds ! i) \<and> \<not> is_pending (df_context (ds ! i)) s then
           (case stream_part active s (df_content (ds ! i)) ds of
              (body, ds1) \<Rightarrow>
                emit_pass active s (Suc i) (ds1[i := (ds1 ! i)\<lparr>df_emitted := True\<rparr>])
                  (chunk @ template_of (sc_id (df_context (ds ! i))) body))
         else emit_pass active s (Suc i) ds chunk)
      else (chunk, ds))"
  by pat_completeness auto

termination
  by (relation "measure (\<lambda>(active, s, i, ds, chunk). tail_weight i ds)") (auto simp: tail_weight_emit tail_weight_step)

declare emit_pass.simps [simp del]

lemma open_weight_emit:
  assumes "i < length ds" and "\<not> df_emitted (ds ! i)" and "(body, ds1) = stream_part active s (df_content (ds ! i)) ds"
  shows "open_weight (ds1[i := (ds1 ! i)\<lparr>df_emitted := True\<rparr>]) < open_weight ds"
proof -
  obtain new where new: "ds1 = ds @ new" "sum_list (map (\<lambda>d. Suc (part_weight (df_content d))) new) \<le> part_weight (df_content (ds ! i))"
    "list_all (\<lambda>d. \<not> df_emitted d) new"
    using stream_part_new(1) [OF assms(3) [symmetric]] by blast
  define w :: "'a deferred \<Rightarrow> nat" where "w = (\<lambda>d. if df_emitted d then 0 else Suc (part_weight (df_content d)))"
  have "sum_list (map w new) = sum_list (map (\<lambda>d. Suc (part_weight (df_content d))) new)"
    using new(3) by (induction new) (auto simp: w_def)
  moreover have "ds = take i ds @ ds ! i # drop (Suc i) ds" by (rule id_take_nth_drop [OF assms(1)])
  then have "sum_list (map w ds) = sum_list (map w (take i ds)) + w (ds ! i) + sum_list (map w (drop (Suc i) ds))"
    by (metis (no_types, lifting) list.simps(9) map_append sum_list.Cons sum_list_append add.assoc)
  moreover have "ds1[i := (ds1 ! i)\<lparr>df_emitted := True\<rparr>] = take i ds @ (ds ! i)\<lparr>df_emitted := True\<rparr> # drop (Suc i) ds @ new"
    using assms(1) by (simp add: new(1) nth_append upd_conv_take_nth_drop)
  moreover have "w (ds ! i) = Suc (part_weight (df_content (ds ! i)))" "w ((ds ! i)\<lparr>df_emitted := True\<rparr>) = 0"
    using assms(2) by (simp_all add: w_def)
  ultimately show ?thesis using new(2) unfolding open_weight_def w_def [symmetric] by simp
qed

lemma emit_pass_weight:
  "emit_pass active s i ds chunk = (chunk', ds') \<Longrightarrow> open_weight ds' \<le> open_weight ds \<and> (chunk' = chunk \<or> open_weight ds' < open_weight ds)"
proof (induction active s i ds chunk rule: emit_pass.induct)
  case (1 active s i ds chunk)
  show ?case
  proof (cases "i < length ds \<and> \<not> df_emitted (ds ! i) \<and> \<not> is_pending (df_context (ds ! i)) s")
    case True
    obtain body ds1 where b: "stream_part active s (df_content (ds ! i)) ds = (body, ds1)" by fastforce
    have "emit_pass active s (Suc i) (ds1[i := (ds1 ! i)\<lparr>df_emitted := True\<rparr>])
        (chunk @ template_of (sc_id (df_context (ds ! i))) body) = (chunk', ds')"
      using "1.prems" True b by (simp add: emit_pass.simps [of active s i])
    then have "open_weight ds' \<le> open_weight (ds1[i := (ds1 ! i)\<lparr>df_emitted := True\<rparr>])"
      using "1.IH"(1) [OF _ _ b [symmetric]] True by blast
    moreover have "open_weight (ds1[i := (ds1 ! i)\<lparr>df_emitted := True\<rparr>]) < open_weight ds"
      using open_weight_emit True b by metis
    ultimately show ?thesis by linarith
  next
    case False
    then show ?thesis using "1.prems" "1.IH"(2) by (cases "i < length ds") (auto simp: emit_pass.simps [of active s i])
  qed
qed

subsection \<open>The render thread\<close>

text \<open>What comes back from the loaders: a value to apply, or a panic. The list ends at the deadline.\<close>

datatype 's loader_report = Loaded nat "'s \<Rightarrow> 's" | LoaderPanicked nat

function stream_loop ::
  "(nat \<Rightarrow> bool) \<Rightarrow> bool \<Rightarrow> 's loader_report list \<Rightarrow> 's \<Rightarrow> nat list \<Rightarrow> 's deferred list \<Rightarrow> string list \<Rightarrow> bool \<times> 's deferred list \<times> string list" where
  "stream_loop send_ok active reports s applies ds sent =
     (case emit_pass active s 0 ds [] of
        (chunk, ds1) \<Rightarrow>
          if chunk \<noteq> [] then
            (if send_ok (length sent) then stream_loop send_ok active reports s applies ds1 (sent @ [chunk]) else (True, ds1, sent))
          else if list_all df_emitted ds1 \<or> applies = [] then (False, ds1, sent)
          else (case reports of
                  [] \<Rightarrow> (False, ds1, sent)
                | Loaded k f # rest \<Rightarrow>
                    stream_loop send_ok active rest (if k \<in> set applies then f s else s) (removeAll k applies) ds1 sent
                | LoaderPanicked k # rest \<Rightarrow> stream_loop send_ok active rest s (removeAll k applies) ds1 sent))"
  by pat_completeness auto

termination
  by (relation "measures [\<lambda>(send_ok, active, reports, s, applies, ds, sent). length reports,
    \<lambda>(send_ok, active, reports, s, applies, ds, sent). open_weight ds]") (auto dest!: sym [of "(_, _)"] emit_pass_weight)

declare stream_loop.simps [simp del]

record stream_options =
  op_swap_script_src :: string
  op_doctype :: bool

definition STREAM_SWAP_SCRIPT_PATH :: string where
  "STREAM_SWAP_SCRIPT_PATH = ''/_krab/stream.js''"

definition stream_options_default :: stream_options where
  "stream_options_default = \<lparr>op_swap_script_src = STREAM_SWAP_SCRIPT_PATH, op_doctype = True\<rparr>"

definition escape_attr :: "string \<Rightarrow> string" where
  "escape_attr v =
     replace_char (CHR ''>'') ''&gt;'' (replace_char (CHR ''<'') ''&lt;''
       (replace_char (CHR 0x22) ''&quot;'' (replace_char (CHR ''&'') ''&amp;'' v)))"

text \<open>The document up to the last \<open>body\<close> end tag, and the rest.\<close>

definition split_tail :: "string \<Rightarrow> string \<times> string" where
  "split_tail doc =
     (case find (\<lambda>i. prefix ''</body>'' (drop i (ascii_lower doc))) (rev [0..<length doc]) of
        Some i \<Rightarrow> (take i doc, drop i doc)
      | None \<Rightarrow> (doc, []))"

definition swap_script :: "stream_options \<Rightarrow> string" where
  "swap_script opts = ''<script src=\"'' @ escape_attr (op_swap_script_src opts) @ ''\"></script>''"

definition shell :: "stream_options \<Rightarrow> string \<Rightarrow> bool \<Rightarrow> string \<times> string" where
  "shell opts html has_deferred =
     (case split_tail ((if op_doctype opts then ''<!DOCTYPE html>'' else []) @ html) of
        (document, tail) \<Rightarrow> (document @ (if has_deferred then swap_script opts else []), tail))"

definition closing :: "'s deferred list \<Rightarrow> string \<Rightarrow> string" where
  "closing ds tail =
     concat (map (\<lambda>d. ''<!--krab:suspense:'' @ sc_id (df_context d) @ '':error-->'') (filter (\<lambda>d. \<not> df_emitted d) ds)) @ tail"

text \<open>\<open>run_stream\<close>: the chunks that were sent. \<open>None\<close> is a page whose rendering panics.\<close>

definition run_stream ::
  "stream_options \<Rightarrow> (nat \<Rightarrow> bool) \<Rightarrow> bool \<Rightarrow> 's loader_report list \<Rightarrow> 's \<Rightarrow> nat list \<Rightarrow> 's part option \<Rightarrow> string list" where
  "run_stream opts send_ok active reports s applies render =
     (case render of
        None \<Rightarrow> []
      | Some page \<Rightarrow>
          (case stream_part active s page [] of
             (html, ds) \<Rightarrow>
               (case shell opts html (ds \<noteq> []) of
                  (document, tail) \<Rightarrow>
                    if \<not> send_ok 0 then []
                    else (case stream_loop send_ok active reports s applies ds [document] of
                            (client_gone, ds', sent) \<Rightarrow>
                              if client_gone then sent
                              else if send_ok (length sent) then sent @ [closing ds' tail]
                              else sent))))"

subsection \<open>Markers of the parts\<close>

definition gives :: "string \<Rightarrow> (string \<times> suspense_state) list \<Rightarrow> bool" where
  "gives x m \<longleftrightarrow> (\<forall>rest. marks (x @ rest) = m @ marks rest)"

lemma gives_append: "gives x m \<Longrightarrow> gives y n \<Longrightarrow> gives (x @ y) (m @ n)"
  by (simp add: gives_def)

lemma gives_inert: "gives x [] \<longleftrightarrow> inert x"
  by (simp add: gives_def inert_def)

lemma gives_self: "gives x m \<Longrightarrow> marks x = m"
  unfolding gives_def by (metis append_Nil2 marks_Nil)

lemma gives_marker:
  assumes "id_ok i"
  shows "gives (comment_node (open_marker i)) [(i, StPending)]" "gives (comment_node (resolved_marker i)) [(i, StResolved)]"
    "gives (comment_node (deferred_end_marker i)) []" "gives (''<!--krab:suspense:'' @ i @ '':error-->'') [(i, StError)]"
    "gives (''<!--'' @ resolved_marker i @ ''-->'') [(i, StResolved)]"
proof -
  show "gives (comment_node (open_marker i)) [(i, StPending)]" "gives (comment_node (resolved_marker i)) [(i, StResolved)]"
    "gives (comment_node (deferred_end_marker i)) []" "gives (''<!--krab:suspense:'' @ i @ '':error-->'') [(i, StError)]"
    using marks_marker [OF assms] by (simp_all add: gives_def)
  moreover have "sanitize_comment (resolved_marker i) = resolved_marker i" using marker_plain [OF assms, of "resolved_marker i"] by simp
  ultimately show "gives (''<!--'' @ resolved_marker i @ ''-->'') [(i, StResolved)]" by (simp add: comment_node_def)
qed

lemma marks_skip: "\<not> prefix ''<!--'' (c # u) \<Longrightarrow> marks (c # u) = marks u"
proof -
  assume "\<not> prefix ''<!--'' (c # u)"
  then have "split_seq ''<!--'' (c # u) = map_option (\<lambda>(x, y). (c # x, y)) (split_seq ''<!--'' u)"
    by (simp only: split_seq.simps if_False)
  then have "tl (split_str ''<!--'' (c # u)) = tl (split_str ''<!--'' u)"
    using split_str.simps [of "''<!--''" "c # u"] split_str.simps [of "''<!--''" u] by (auto split: option.splits)
  then show ?thesis by (simp add: marks_def)
qed

lemma inert_Cons: "c \<noteq> CHR ''<'' \<Longrightarrow> inert w \<Longrightarrow> inert (c # w)"
  by (simp add: inert_def marks_skip)

lemma inert_lt: "x \<noteq> CHR ''!'' \<Longrightarrow> inert (x # w) \<Longrightarrow> inert (CHR ''<'' # x # w)"
  by (simp add: inert_def marks_skip)

lemmas inert_intros = inert_Nil inert_Cons inert_lt inert_append inert_text

lemma inert_id: "id_ok i \<Longrightarrow> inert i"
  using plain_id by (intro inert_text) (auto simp: plain_char_def)

lemma inert_escaped: "inert (escape_attr v)"
proof (rule inert_text)
  have no: "CHR ''<'' \<notin> set (replace_char c t w)" if "c = CHR ''<'' \<or> CHR ''<'' \<notin> set w" "CHR ''<'' \<notin> set t" for c t w
    using that by (auto simp: replace_char_def)
  show "CHR ''<'' \<notin> set (escape_attr v)" unfolding escape_attr_def by (rule no, rule disjI2, rule no) simp_all
qed

lemma gives_template:
  assumes "id_ok i" and "gives body m"
  shows "gives (template_of i body) (m @ [(i, StResolved)])"
proof -
  have a: "gives (''<template data-krab-suspense=\"'' @ i @ ''\">'') []"
    unfolding gives_inert by (simp, intro inert_intros inert_id [OF assms(1)]; simp)
  have z: "gives (''</template><span data-krab-suspense-ready=\"'' @ i @ ''\" hidden></span>'') []"
    unfolding gives_inert by (simp, intro inert_intros inert_id [OF assms(1)]; simp)
  have "template_of i body = (''<template data-krab-suspense=\"'' @ i @ ''\">'') @ body @ (''<!--'' @ resolved_marker i @ ''-->'') @
      (''</template><span data-krab-suspense-ready=\"'' @ i @ ''\" hidden></span>'')"
    by (simp add: template_of_def)
  then show ?thesis using gives_append [OF a gives_append [OF assms(2) gives_append [OF gives_marker(5) [OF assms(1)] z]]] by simp
qed

subsection \<open>What the stream owes\<close>

text \<open>The boundaries a deferred one still stands for: itself, and those of its children until it is emitted.\<close>

definition owned :: "'s deferred \<Rightarrow> string list" where
  "owned d = sc_id (df_context d) # (if df_emitted d then [] else ids (df_content d))"

definition open_ids :: "'s deferred list \<Rightarrow> string list" where
  "open_ids ds = map (\<lambda>d. sc_id (df_context d)) (filter (\<lambda>d. \<not> df_emitted d) ds)"

definition owed :: "'s deferred list \<Rightarrow> (string \<times> suspense_state) list \<Rightarrow> bool" where
  "owed ds m \<longleftrightarrow>
     (\<forall>i. count_list m (i, StPending) = count_list m (i, StResolved) + count_list m (i, StError) + count_list (open_ids ds) i) \<and>
     (\<forall>x \<in> set m. (fst x, StPending) \<in> set m)"

definition deferred_ok :: "'s deferred list \<Rightarrow> bool" where
  "deferred_ok ds \<longleftrightarrow> distinct (concat (map owned ds)) \<and> list_all (\<lambda>d. id_ok (sc_id (df_context d)) \<and> part_ok (df_content d)) ds"

lemma open_ids_append [simp]: "open_ids (a @ b) = open_ids a @ open_ids b"
  by (simp add: open_ids_def)

lemma owed_balanced: "owed ds m \<Longrightarrow> open_ids ds = [] \<Longrightarrow> balanced m"
proof -
  assume o: "owed ds m" "open_ids ds = []"
  have "0 < count_list m (i, StPending)" if i: "i \<in> fst ` set m" for i
  proof -
    obtain x where x: "i = fst x" "x \<in> set m" using i by (rule imageE)
    then have "(i, StPending) \<in> set m" using o(1) by (simp add: owed_def)
    then have "count_list m (i, StPending) \<noteq> 0" by (simp add: count_list_0_iff)
    then show ?thesis by linarith
  qed
  then show ?thesis using o by (simp add: balanced_def owed_def)
qed

lemma owed_open: "owed ds m \<Longrightarrow> balanced m \<Longrightarrow> open_ids ds = []"
proof (rule ccontr)
  assume o: "owed ds m" "balanced m" "open_ids ds \<noteq> []"
  then obtain i where i: "i \<in> set (open_ids ds)" by (cases "open_ids ds") auto
  then have "count_list (open_ids ds) i \<noteq> 0" by (simp add: count_list_0_iff)
  then have c: "count_list m (i, StPending) \<noteq> count_list m (i, StResolved) + count_list m (i, StError)" "count_list m (i, StPending) \<noteq> 0"
    using o(1) by (simp_all add: owed_def)
  then have "(i, StPending) \<in> set m" by (simp add: count_list_0_iff)
  then have "i \<in> fst ` set m" by force
  then show False using o(2) c(1) unfolding balanced_def by blast
qed

text \<open>Rendering a part while streaming: the markers it gives, and the boundaries it defers.\<close>

definition renders :: "string list \<Rightarrow> 's deferred list \<Rightarrow> string \<Rightarrow> 's deferred list \<Rightarrow> bool" where
  "renders is ds html ds' \<longleftrightarrow>
     (\<exists>m new. ds' = ds @ new \<and> gives html m \<and> owed new m \<and> list_all (\<lambda>d. \<not> df_emitted d) new \<and> deferred_ok new \<and>
        set (concat (map owned new)) \<subseteq> set is)"

lemma renders_wrap:
  assumes "renders is ds html ds'" and "id_ok i" and "set is \<subseteq> set js"
  shows "renders js ds (comment_node (open_marker i) @ html @ comment_node (resolved_marker i)) ds'"
proof -
  obtain m new where r: "ds' = ds @ new" "gives html m" "owed new m" "list_all (\<lambda>d. \<not> df_emitted d) new" "deferred_ok new"
    "set (concat (map owned new)) \<subseteq> set is" using assms(1) unfolding renders_def by blast
  have "gives (comment_node (open_marker i) @ html @ comment_node (resolved_marker i)) ([(i, StPending)] @ m @ [(i, StResolved)])"
    using gives_append gives_marker(1,2) [OF assms(2)] r(2) by blast
  moreover have "owed new ([(i, StPending)] @ m @ [(i, StResolved)])" using r(3) by (auto simp: owed_def)
  ultimately show ?thesis using r assms(3) unfolding renders_def by blast
qed

lemma stream_part_renders:
  shows "stream_part active s p ds = (html, ds') \<Longrightarrow> part_ok p \<Longrightarrow> distinct (ids p) \<Longrightarrow>
      set (ids p) \<inter> (\<lambda>d. sc_id (df_context d)) ` set ds = {} \<Longrightarrow> renders (ids p) ds html ds'"
    and "stream_parts active s ps ds = (html, ds') \<Longrightarrow> list_all part_ok ps \<Longrightarrow> distinct (concat (map ids ps)) \<Longrightarrow>
      set (concat (map ids ps)) \<inter> (\<lambda>d. sc_id (df_context d)) ` set ds = {} \<Longrightarrow> renders (concat (map ids ps)) ds html ds'"
proof (induction active s p ds and active s ps ds arbitrary: html ds' and html ds' rule: stream_part_stream_parts.induct)
  case (1 active s f ds)
  have "gives (f s) []" using 1(2) by (simp add: gives_inert)
  moreover have "owed [] []" "deferred_ok []" by (simp_all add: owed_def open_ids_def deferred_ok_def)
  ultimately show ?case using 1 unfolding renders_def by (intro exI [of _ "[]"]) simp
next
  case (2 active s ps ds)
  then show ?case by (simp add: list_all_iff)
next
  case (3 active s ctx content fallback ds)
  have ok: "id_ok (sc_id ctx)" "part_ok content" "part_ok fallback" using "3.prems"(2) by simp_all
  have d: "distinct (ids content)" "distinct (ids fallback)" "sc_id ctx \<notin> set (ids content)" "sc_id ctx \<notin> set (ids fallback)"
    "set (ids content) \<inter> set (ids fallback) = {}" using "3.prems"(3) by auto
  have fresh: "sc_id ctx \<notin> (\<lambda>d. sc_id (df_context d)) ` set ds" "set (ids content) \<inter> (\<lambda>d. sc_id (df_context d)) ` set ds = {}"
    "set (ids fallback) \<inter> (\<lambda>d. sc_id (df_context d)) ` set ds = {}" using "3.prems"(4) by auto
  show ?case
  proof (cases "is_pending ctx s")
    case False
    obtain h where h: "stream_part active s content ds = (h, ds')"
      "html = comment_node (open_marker (sc_id ctx)) @ h @ comment_node (resolved_marker (sc_id ctx))"
      using "3.prems"(1) False by (auto split: prod.splits)
    have "renders (ids content) ds h ds'" by (rule "3.IH"(3) [OF False h(1) ok(2) d(1) fresh(2)])
    from renders_wrap [OF this ok(1), of "ids (Boundary ctx content fallback)"] show ?thesis using h(2) by auto
  next
    case pending: True
    show ?thesis
    proof (cases "defer_boundary active s ctx content ds")
      case None
      obtain h where h: "stream_part active s fallback ds = (h, ds')"
        "html = comment_node (open_marker (sc_id ctx)) @ h @ comment_node (resolved_marker (sc_id ctx))"
        using "3.prems"(1) pending None by (auto split: prod.splits)
      have "renders (ids fallback) ds h ds'" by (rule "3.IH"(1) [OF pending None h(1) ok(3) d(2) fresh(3)])
      from renders_wrap [OF this ok(1), of "ids (Boundary ctx content fallback)"] show ?thesis using h(2) by auto
    next
      case (Some ds1)
      let ?new = "\<lparr>df_context = ctx, df_content = content, df_emitted = False\<rparr>"
      have ds1: "ds1 = ds @ [?new]"
      proof -
        have "\<not> list_ex (\<lambda>d. sc_id (df_context d) = sc_id ctx) ds" unfolding list_ex_iff using fresh(1) by (metis imageI)
        then show ?thesis using Some by (simp add: defer_boundary_def split: if_splits)
      qed
      obtain h where h: "stream_part active s fallback ds1 = (h, ds')"
        "html = comment_node (open_marker (sc_id ctx)) @ h @ comment_node (deferred_end_marker (sc_id ctx))"
        using "3.prems"(1) pending Some by (auto split: prod.splits)
      have "set (ids fallback) \<inter> (\<lambda>d. sc_id (df_context d)) ` set ds1 = {}" using fresh(3) d(4) by (auto simp: ds1)
      from "3.IH"(2) [OF pending Some h(1) ok(3) d(2) this] obtain m new where r: "ds' = ds1 @ new" "gives h m" "owed new m"
        "list_all (\<lambda>d. \<not> df_emitted d) new" "deferred_ok new" "set (concat (map owned new)) \<subseteq> set (ids fallback)"
        unfolding renders_def by blast
      have "gives html ([(sc_id ctx, StPending)] @ m @ [])"
        unfolding h(2) using gives_append gives_marker(1,3) [OF ok(1)] r(2) by blast
      moreover have "owed (?new # new) ([(sc_id ctx, StPending)] @ m @ [])"
        using r(3) by (auto simp: owed_def open_ids_def)
      moreover have "deferred_ok (?new # new)"
      proof -
        have "sc_id ctx \<notin> set (concat (map owned new))" "set (ids content) \<inter> set (concat (map owned new)) = {}"
          using r(6) d(4,5) by blast+
        moreover have "owned ?new = sc_id ctx # ids content" by (simp add: owned_def)
        ultimately have "distinct (concat (map owned (?new # new)))" using r(5) d(1,3) by (simp add: deferred_ok_def)
        then show ?thesis using r(5) ok(1,2) by (simp add: deferred_ok_def)
      qed
      moreover have "set (concat (map owned (?new # new))) \<subseteq> set (ids (Boundary ctx content fallback))"
        using r(6) by (auto simp: owned_def)
      ultimately show ?thesis using r(1,4) ds1 unfolding renders_def
        by (intro exI [of _ "[(sc_id ctx, StPending)] @ m @ []"] exI [of _ "?new # new"]) simp
    qed
  qed
next
  case (4 active s ds)
  have "owed [] []" "deferred_ok []" "gives [] []" by (simp_all add: owed_def open_ids_def deferred_ok_def gives_def)
  then show ?case using 4 unfolding renders_def by (intro exI [of _ "[]"]) simp
next
  case (5 active s p ps ds)
  obtain a ds1 where a: "stream_part active s p ds = (a, ds1)" by fastforce
  obtain b where b: "stream_parts active s ps ds1 = (b, ds')" "html = a @ b" using "5.prems"(1) a by (auto split: prod.splits)
  have d: "distinct (ids p)" "distinct (concat (map ids ps))" "set (ids p) \<inter> set (concat (map ids ps)) = {}"
    using "5.prems"(3) by auto
  obtain m1 new1 where r1: "ds1 = ds @ new1" "gives a m1" "owed new1 m1" "list_all (\<lambda>d. \<not> df_emitted d) new1" "deferred_ok new1"
    "set (concat (map owned new1)) \<subseteq> set (ids p)"
    using "5.IH"(1) [OF a _ d(1)] "5.prems"(2,4) unfolding renders_def by auto
  have sub: "(\<lambda>d. sc_id (df_context d)) ` set new1 \<subseteq> set (ids p)" using r1(6) by (auto simp: owned_def)
  have "set (concat (map ids ps)) \<inter> (\<lambda>d. sc_id (df_context d)) ` set ds1 = {}"
  proof -
    have "set (concat (map ids ps)) \<inter> (\<lambda>d. sc_id (df_context d)) ` set ds = {}" using "5.prems"(4) by auto
    then show ?thesis using sub d(3) unfolding r1(1) set_append image_Un by blast
  qed
  with "5.IH"(2) [OF a [symmetric] b(1) _ d(2)] "5.prems"(2) obtain m2 new2 where r2: "ds' = ds1 @ new2" "gives b m2"
    "owed new2 m2" "list_all (\<lambda>d. \<not> df_emitted d) new2" "deferred_ok new2" "set (concat (map owned new2)) \<subseteq> set (concat (map ids ps))"
    unfolding renders_def by auto
  have "owed (new1 @ new2) (m1 @ m2)" using r1(3) r2(3) by (auto simp: owed_def)
  moreover have "deferred_ok (new1 @ new2)"
    using r1(5,6) r2(5,6) d(3) by (auto simp: deferred_ok_def)
  moreover have "set (concat (map owned (new1 @ new2))) \<subseteq> set (concat (map ids (p # ps)))" using r1(6) r2(6) by auto
  ultimately show ?case using r1(1,4) r2(1,4) gives_append [OF r1(2) r2(2)] b(2) unfolding renders_def
    by (intro exI [of _ "m1 @ m2"] exI [of _ "new1 @ new2"]) simp
qed

lemma emit_one:
  assumes "i < length ds" and "\<not> df_emitted (ds ! i)" and "stream_part active s (df_content (ds ! i)) ds = (body, ds1)"
    and "deferred_ok ds" and "owed ds m"
  shows "\<exists>m'. gives (template_of (sc_id (df_context (ds ! i))) body) m' \<and> deferred_ok (ds1[i := (ds1 ! i)\<lparr>df_emitted := True\<rparr>]) \<and>
    owed (ds1[i := (ds1 ! i)\<lparr>df_emitted := True\<rparr>]) (m @ m')"
proof -
  let ?d = "ds ! i" and ?a = "take i ds" and ?z = "drop (Suc i) ds"
  let ?i = "sc_id (df_context ?d)" and ?e = "?d\<lparr>df_emitted := True\<rparr>"
  have ds: "ds = ?a @ ?d # ?z" by (rule id_take_nth_drop [OF assms(1)])
  have owned: "owned ?d = ?i # ids (df_content ?d)" using assms(2) by (simp add: owned_def)
  have dist: "distinct (concat (map owned ?a) @ owned ?d @ concat (map owned ?z))"
    using assms(4) ds unfolding deferred_ok_def by (metis concat.simps(2) concat_append list.simps(9) map_append)
  have ok: "id_ok ?i" "part_ok (df_content ?d)" using assms(1,4) by (simp_all add: deferred_ok_def list_all_length)
  have "sc_id (df_context x) \<in> set (owned x)" for x by (simp add: owned_def)
  then have heads: "(\<lambda>d. sc_id (df_context d)) ` set xs \<subseteq> set (concat (map owned xs))" for xs by auto
  have "set (ids (df_content ?d)) \<inter> set (concat (map owned ?a)) = {}" "set (ids (df_content ?d)) \<inter> set (concat (map owned ?z)) = {}"
    "?i \<notin> set (ids (df_content ?d))" using dist unfolding owned distinct_append set_append by auto
  then have "set (ids (df_content ?d)) \<inter> (\<lambda>d. sc_id (df_context d)) ` set (?a @ ?d # ?z) = {}"
    unfolding set_append image_Un list.set image_insert using heads [of ?a] heads [of ?z] by blast
  then have fresh: "set (ids (df_content ?d)) \<inter> (\<lambda>d. sc_id (df_context d)) ` set ds = {}" by (simp only: ds [symmetric])
  have "distinct (ids (df_content ?d))" using dist owned by simp
  from stream_part_renders(1) [OF assms(3) ok(2) this fresh]
  obtain mb new where r: "ds1 = ds @ new" "gives body mb" "owed new mb" "deferred_ok new" "set (concat (map owned new)) \<subseteq> set (ids (df_content ?d))"
    unfolding renders_def by blast
  have after: "ds1[i := (ds1 ! i)\<lparr>df_emitted := True\<rparr>] = ?a @ ?e # ?z @ new"
    using assms(1) by (simp add: r(1) nth_append upd_conv_take_nth_drop)
  have open_before: "open_ids ds = open_ids ?a @ ?i # open_ids ?z"
    using assms(2) arg_cong [OF ds, of open_ids] by (simp add: open_ids_def)
  have open_after: "open_ids (?a @ ?e # ?z @ new) = open_ids ?a @ open_ids ?z @ open_ids new" by (simp add: open_ids_def)
  have "count_list m (?i, StPending) \<noteq> 0" using assms(5) by (simp add: owed_def open_before)
  then have "(?i, StPending) \<in> set m" by (simp add: count_list_0_iff)
  then have "owed (?a @ ?e # ?z @ new) (m @ mb @ [(?i, StResolved)])"
    using assms(5) r(3) unfolding owed_def open_before open_after by auto
  moreover have "deferred_ok (?a @ ?e # ?z @ new)"
  proof -
    let ?A = "concat (map owned ?a)" and ?Z = "concat (map owned ?z)" and ?N = "concat (map owned new)"
    have dd: "distinct ?A" "distinct ?Z" "?i \<notin> set ?A" "?i \<notin> set ?Z" "set ?A \<inter> set ?Z = {}" "set ?A \<inter> set (ids (df_content ?d)) = {}"
      "set ?Z \<inter> set (ids (df_content ?d)) = {}" "?i \<notin> set (ids (df_content ?d))"
      using dist unfolding owned distinct_append set_append list.set by auto
    have "distinct ?N" using r(4) by (simp add: deferred_ok_def)
    moreover have "set ?A \<inter> set ?N = {}" "set ?Z \<inter> set ?N = {}" "?i \<notin> set ?N" using dd r(5) by blast+
    ultimately have "distinct (?A @ [?i] @ ?Z @ ?N)" using dd unfolding distinct_append set_append by auto
    moreover have "owned ?e = [?i]" by (simp add: owned_def)
    ultimately have "distinct (concat (map owned (?a @ ?e # ?z @ new)))" by simp
    moreover have "list_all (\<lambda>d. id_ok (sc_id (df_context d)) \<and> part_ok (df_content d)) (?a @ ?d # ?z)"
      using assms(4) unfolding ds [symmetric] deferred_ok_def by simp
    ultimately show ?thesis using r(4) by (simp add: deferred_ok_def)
  qed
  moreover have "gives (template_of ?i body) (mb @ [(?i, StResolved)])" by (rule gives_template [OF ok(1) r(2)])
  ultimately show ?thesis unfolding after by blast
qed

lemma emit_pass_owed:
  "emit_pass active s i ds chunk = (chunk', ds') \<Longrightarrow> gives chunk c \<Longrightarrow> deferred_ok ds \<Longrightarrow> owed ds (m @ c) \<Longrightarrow>
     \<exists>c'. gives chunk' c' \<and> deferred_ok ds' \<and> owed ds' (m @ c')"
proof (induction active s i ds chunk arbitrary: c rule: emit_pass.induct)
  case (1 active s i ds chunk)
  show ?case
  proof (cases "i < length ds \<and> \<not> df_emitted (ds ! i) \<and> \<not> is_pending (df_context (ds ! i)) s")
    case True
    obtain body ds1 where b: "stream_part active s (df_content (ds ! i)) ds = (body, ds1)" by fastforce
    let ?t = "template_of (sc_id (df_context (ds ! i))) body" and ?ds = "ds1[i := (ds1 ! i)\<lparr>df_emitted := True\<rparr>]"
    have rest: "emit_pass active s (Suc i) ?ds (chunk @ ?t) = (chunk', ds')"
      using "1.prems"(1) True b by (simp add: emit_pass.simps [of active s i])
    obtain m' where m': "gives ?t m'" "deferred_ok ?ds" "owed ?ds ((m @ c) @ m')"
      using emit_one [OF _ _ b "1.prems"(3,4)] True by blast
    have "owed ?ds (m @ c @ m')" using m'(3) by simp
    with "1.IH"(1) [OF _ _ b [symmetric] rest gives_append [OF "1.prems"(2) m'(1)] m'(2)] True show ?thesis by blast
  next
    case False
    then show ?thesis using "1.prems" "1.IH"(2) by (cases "i < length ds") (auto simp: emit_pass.simps [of active s i])
  qed
qed

lemma stream_loop_owed:
  "stream_loop send_ok active reports s applies ds sent = (gone, ds', sent') \<Longrightarrow> gives (concat sent) m \<Longrightarrow> deferred_ok ds \<Longrightarrow> owed ds m \<Longrightarrow>
     (\<exists>more. sent' = sent @ more) \<and> (\<not> gone \<longrightarrow> (\<exists>m'. gives (concat sent') m' \<and> deferred_ok ds' \<and> owed ds' m'))"
proof (induction send_ok active reports s applies ds sent arbitrary: m rule: stream_loop.induct)
  case (1 send_ok active reports s applies ds sent)
  obtain chunk ds1 where e: "emit_pass active s 0 ds [] = (chunk, ds1)" by fastforce
  have "gives [] []" by (simp add: gives_def)
  from emit_pass_owed [OF e this "1.prems"(3), of m] "1.prems"(4)
  obtain c where c: "gives chunk c" "deferred_ok ds1" "owed ds1 (m @ c)" by auto
  note step = "1.prems"(1) [unfolded stream_loop.simps [of send_ok active reports s applies ds sent] e prod.case]
  show ?case
  proof (cases "chunk = []")
    case False
    show ?thesis
    proof (cases "send_ok (length sent)")
      case True
      have "stream_loop send_ok active reports s applies ds1 (sent @ [chunk]) = (gone, ds', sent')" using step False True by simp
      moreover have "gives (concat (sent @ [chunk])) (m @ c)" using gives_append [OF "1.prems"(2) c(1)] by simp
      ultimately show ?thesis using "1.IH"(1) [OF e [symmetric] False True _ _ c(2,3)] by fastforce
    next
      case no: False
      then show ?thesis using step False by simp
    qed
  next
    case True
    have "c = []" using c(1) True by (simp add: gives_def)
    then have o: "owed ds1 m" using c(3) by simp
    show ?thesis
    proof (cases "list_all df_emitted ds1 \<or> applies = [] \<or> reports = []")
      case True
      then have "gone = False \<and> ds' = ds1 \<and> sent' = sent" using step \<open>chunk = []\<close> by (auto split: if_splits list.splits)
      then show ?thesis using "1.prems"(2) c(2) o by auto
    next
      case False
      then obtain r rest where r: "reports = r # rest" by (cases reports) auto
      show ?thesis
      proof (cases r)
        case (Loaded k f)
        then show ?thesis
          using step \<open>chunk = []\<close> False r "1.IH"(2) [OF e [symmetric] _ _ r Loaded _ "1.prems"(2) c(2) o] by simp
      next
        case (LoaderPanicked k)
        then show ?thesis
          using step \<open>chunk = []\<close> False r "1.IH"(3) [OF e [symmetric] _ _ r LoaderPanicked _ "1.prems"(2) c(2) o] by simp
      qed
    qed
  qed
qed

lemma stream_loop_connected:
  "stream_loop send_ok active reports s applies ds sent = (gone, ds', sent') \<Longrightarrow> \<forall>n. send_ok n \<Longrightarrow> \<not> gone"
proof (induction send_ok active reports s applies ds sent rule: stream_loop.induct)
  case (1 send_ok active reports s applies ds sent)
  obtain chunk ds1 where e: "emit_pass active s 0 ds [] = (chunk, ds1)" by fastforce
  have ok: "send_ok n" for n using "1.prems"(2) by blast
  note step = "1.prems"(1) [unfolded stream_loop.simps [of send_ok active reports s applies ds sent] e prod.case]
  show ?case
  proof (cases "chunk = []")
    case False
    then have "stream_loop send_ok active reports s applies ds1 (sent @ [chunk]) = (gone, ds', sent')" using step ok by simp
    then show ?thesis by (rule "1.IH"(1) [OF e [symmetric] False ok _ "1.prems"(2)])
  next
    case True
    show ?thesis
    proof (cases "list_all df_emitted ds1 \<or> applies = [] \<or> reports = []")
      case True
      then show ?thesis using step \<open>chunk = []\<close> by (auto split: if_splits list.splits)
    next
      case False
      then obtain r rest where r: "reports = r # rest" by (cases reports) auto
      show ?thesis
      proof (cases r)
        case (Loaded k f)
        then show ?thesis using step \<open>chunk = []\<close> False r "1.IH"(2) [OF e [symmetric] _ _ r Loaded _ "1.prems"(2)] by simp
      next
        case (LoaderPanicked k)
        then show ?thesis using step \<open>chunk = []\<close> False r "1.IH"(3) [OF e [symmetric] _ _ r LoaderPanicked _ "1.prems"(2)] by simp
      qed
    qed
  qed
qed

subsection \<open>A complete stream is final\<close>

lemma closing_owed:
  assumes "deferred_ok ds" and "owed ds m" and "inert tail"
  shows "\<exists>c. gives (closing ds tail) c \<and> balanced (m @ c)"
proof -
  let ?es = "map (\<lambda>i. (i, StError)) (open_ids ds)"
  have "gives (concat (map (\<lambda>i. ''<!--krab:suspense:'' @ i @ '':error-->'') is)) (map (\<lambda>i. (i, StError)) is)"
    if "list_all id_ok is" for "is"
    using that
  proof (induction "is")
    case (Cons i "is")
    have "gives (''<!--krab:suspense:'' @ i @ '':error-->'') [(i, StError)]" using Cons.prems gives_marker(4) [of i] by simp
    from gives_append [OF this, of "concat (map (\<lambda>i. ''<!--krab:suspense:'' @ i @ '':error-->'') is)"] Cons show ?case by simp
  qed (simp add: gives_def)
  moreover have "list_all id_ok (open_ids ds)" using assms(1) by (auto simp: deferred_ok_def open_ids_def list_all_iff)
  moreover have "closing ds tail = concat (map (\<lambda>i. ''<!--krab:suspense:'' @ i @ '':error-->'') (open_ids ds)) @ tail"
    by (simp add: closing_def open_ids_def comp_def)
  ultimately have g: "gives (closing ds tail) (?es @ [])" using gives_append assms(3) gives_inert by metis
  have cl: "count_list (map (\<lambda>i. (i, StError)) is) (i, StError) = count_list is i" "count_list (map (\<lambda>i. (i, StError)) is) (i, StPending) = 0"
    "count_list (map (\<lambda>i. (i, StError)) is) (i, StResolved) = 0" for "is" and i :: string
    by (induction "is") auto
  have opened: "(i, StPending) \<in> set m" if i: "i \<in> set (open_ids ds)" for i
  proof -
    have "count_list (open_ids ds) i \<noteq> 0" using i by (simp add: count_list_0_iff)
    then have "count_list m (i, StPending) \<noteq> 0" using assms(2) by (simp add: owed_def)
    then show ?thesis by (simp add: count_list_0_iff)
  qed
  have "owed [] (m @ ?es)"
    using assms(2) cl opened by (auto simp: owed_def open_ids_def [of "[]"])
  from owed_balanced [OF this] show ?thesis using g by (intro exI [of _ ?es]) (simp add: open_ids_def)
qed

lemma split_tail_at:
  assumes "prefix ''</body>'' (ascii_lower tail)" and "\<forall>k \<in> {1..<length tail}. \<not> prefix ''</body>'' (drop k (ascii_lower tail))"
  shows "split_tail (a @ tail) = (a, tail)"
proof -
  have len: "0 < length tail" using assms(1) by (auto simp: prefix_def ascii_lower_def)
  let ?P = "\<lambda>i. prefix ''</body>'' (drop i (ascii_lower (a @ tail)))"
  have low: "length (ascii_lower a) = length a" by (simp add: ascii_lower_def)
  have at: "?P (length a)" using assms(1) low by simp
  have later: "\<not> ?P i" if i: "length a < i" "i < length (a @ tail)" for i
  proof -
    have "drop i (ascii_lower a) = []" using i(1) low by simp
    then have "drop i (ascii_lower (a @ tail)) = drop (i - length a) (ascii_lower tail)" using low by simp
    moreover have "i - length a \<in> {1..<length tail}" using i by auto
    ultimately show ?thesis using assms(2) by metis
  qed
  have "rev [0..<length (a @ tail)] = rev [Suc (length a)..<length (a @ tail)] @ length a # rev [0..<length a]"
    using len upt_add_eq_append [of 0 "length a" "length tail"] by (simp add: upt_rec [of "length a"])
  moreover have "find ?P (rev [Suc (length a)..<length (a @ tail)]) = None" using later by (auto simp: find_None_iff)
  ultimately have "find ?P (rev [0..<length (a @ tail)]) = Some (length a)"
    using at by (simp only: find_append option.case find.simps if_True)
  then show ?thesis by (simp add: split_tail_def)
qed

text \<open>
  C31: a complete stream reads as a final page. Let a page be built of markup that leaves no comment open, with
  every boundary in it once, and end in its one last \<open>body\<close> end tag. Then whatever the loaders do (report in any
  order, panic, miss the deadline) and however boundaries are nested, the whole response closes every boundary it
  opened, with content or with an error marker, so that it counts as final; and the shell alone counts as
  final exactly if nothing in it was deferred, so that no half-streamed shell can be cached.
\<close>

theorem complete_stream_is_final:
  fixes page :: "'s part" and s :: 's and reports :: "'s loader_report list" and opts :: stream_options and active :: bool
    and applies :: "nat list" and send_ok :: "nat \<Rightarrow> bool" and tail :: string
  assumes "part_ok page" and "distinct (ids page)"
    and "prefix ''</body>'' (ascii_lower tail)" and "\<forall>k \<in> {1..<length tail}. \<not> prefix ''</body>'' (drop k (ascii_lower tail))" and "inert tail"
    and "\<forall>n. send_ok n"
  defines "chunks \<equiv> run_stream opts send_ok active reports s applies (Some (Parts [page, Markup (\<lambda>_. tail)]))"
  shows "is_finalized_ssr_snapshot (concat chunks) \<and>
    (is_finalized_ssr_snapshot (hd chunks) \<longleftrightarrow> snd (stream_part active s page []) = [])"
proof -
  obtain html ds where h: "stream_part active s page [] = (html, ds)" by fastforce
  let ?doc = "(if op_doctype opts then ''<!DOCTYPE html>'' else []) @ html"
  let ?shell = "?doc @ (if ds \<noteq> [] then swap_script opts else [])"
  have shell: "shell opts (html @ tail) (ds \<noteq> []) = (?shell, tail)"
    using split_tail_at [OF assms(3,4), of ?doc] by (simp add: shell_def)
  have page: "stream_part active s (Parts [page, Markup (\<lambda>_. tail)]) [] = (html @ tail, ds)" by (simp add: h)
  obtain m where m: "gives html m" "owed ds m" "deferred_ok ds" "list_all (\<lambda>d. \<not> df_emitted d) ds"
    using stream_part_renders(1) [OF h assms(1,2)] unfolding renders_def by auto
  have "gives ''<!DOCTYPE html>'' []"
  proof -
    show ?thesis unfolding gives_inert inert_def by (simp add: marks_skip)
  qed
  moreover have "gives (swap_script opts) []"
    unfolding gives_inert swap_script_def by (simp, intro inert_intros inert_escaped; simp)
  moreover have "gives [] []" by (simp add: gives_def)
  ultimately have "gives (if op_doctype opts then ''<!DOCTYPE html>'' else []) []" "gives (if ds \<noteq> [] then swap_script opts else []) []"
    by simp_all
  from gives_append [OF gives_append [OF this(1) m(1)] this(2)] have g: "gives ?shell m" by (simp only: append_Nil append_Nil2)
  obtain gone ds' sent where loop: "stream_loop send_ok active reports s applies ds [?shell] = (gone, ds', sent)"
    by (cases "stream_loop send_ok active reports s applies ds [?shell]") auto
  have "gives (concat [?shell]) m" using g by simp
  note l = stream_loop_owed [OF loop this m(3,2)]
  then obtain more where more: "sent = ?shell # more" by auto
  have "\<not> gone" by (rule stream_loop_connected [OF loop assms(6)])
  then obtain m' where m': "gives (concat sent) m'" "deferred_ok ds'" "owed ds' m'" using l by blast
  obtain c where c: "gives (closing ds' tail) c" "balanced (m' @ c)" using closing_owed [OF m'(2,3) assms(5)] by blast
  have chunks: "chunks = sent @ [closing ds' tail]"
    unfolding chunks_def run_stream_def option.case page prod.case shell loop using \<open>\<not> gone\<close> assms(6) by simp
  have "marks (concat chunks) = m' @ c" using gives_self [OF gives_append [OF m'(1) c(1)]] by (simp add: chunks)
  then have "is_finalized_ssr_snapshot (concat chunks)" using c(2) by (simp add: finalized_balanced)
  moreover have "is_finalized_ssr_snapshot (hd chunks) \<longleftrightarrow> ds = []"
  proof -
    have "hd chunks = ?shell" by (simp add: chunks more)
    then have "marks (hd chunks) = m" using gives_self [OF g] by simp
    moreover have "open_ids ds = [] \<longleftrightarrow> ds = []" using m(4) by (cases ds) (simp_all add: open_ids_def)
    moreover have "balanced m \<longleftrightarrow> open_ids ds = []" using owed_balanced [OF m(2)] owed_open [OF m(2)] by blast
    ultimately show ?thesis by (simp only: finalized_balanced)
  qed
  ultimately show ?thesis by (simp add: h)
qed

text \<open>
  A page with one boundary that waits for a value and shows another, waiting too, once it is there. The second
  loader reports first; the boundary inside is only met, and emitted at once, when the first one has reported.
\<close>

definition demo_context :: "string \<Rightarrow> nat \<Rightarrow> nat set suspense_context" where
  "demo_context i k = \<lparr>sc_id = i, sc_sources = [\<lparr>so_is_pending = (\<lambda>s. k \<notin> s), so_streamable = True\<rparr>]\<rparr>"

definition demo_page :: "nat set part" where
  "demo_page =
     Parts [Markup (\<lambda>_. ''<html><body>''),
       Boundary (demo_context ''s0'' 0)
         (Parts [Markup (\<lambda>_. ''<p>''), Boundary (demo_context ''s1'' 1) (Markup (\<lambda>_. ''deep'')) (Markup (\<lambda>_. ''wait'')), Markup (\<lambda>_. ''</p>'')])
         (Markup (\<lambda>_. ''loading''))]"

definition demo_stream :: "nat set loader_report list \<Rightarrow> string list" where
  "demo_stream reports =
     run_stream \<lparr>op_swap_script_src = STREAM_SWAP_SCRIPT_PATH, op_doctype = False\<rparr> (\<lambda>_. True) True reports {} [0, 1]
       (Some (Parts [demo_page, Markup (\<lambda>_. ''</body></html>'')]))"

lemma demo_page_ok: "part_ok demo_page" "distinct (ids demo_page)"
proof -
  have "inert ''<html><body>''" "inert ''<p>''" "inert ''deep''" "inert ''wait''" "inert ''</p>''" "inert ''loading''"
    by (intro inert_intros; simp)+
  moreover have "id_ok ''s0''" "id_ok ''s1''" by (simp_all add: id_ok_def digit_val_def)
  ultimately show "part_ok demo_page" by (simp add: demo_page_def demo_context_def)
qed (simp add: demo_page_def demo_context_def)

lemma complete_stream_is_final_witness:
  "is_finalized_ssr_snapshot (concat (demo_stream [Loaded 1 (insert 1), Loaded 0 (insert 0)])) \<and>
   is_finalized_ssr_snapshot (concat (demo_stream [Loaded 0 (insert 0), LoaderPanicked 1])) \<and>
   \<not> is_finalized_ssr_snapshot (hd (demo_stream []))"
proof -
  have low: "ascii_lower ''</body></html>'' = ''</body></html>''" by code_simp
  have tail: "prefix ''</body>'' (ascii_lower ''</body></html>'')"
    "\<forall>k \<in> {1..<length ''</body></html>''}. \<not> prefix ''</body>'' (drop k (ascii_lower ''</body></html>''))"
    unfolding low by (simp, simp add: atLeastLessThan_upt upt_rec)
  have inert: "inert ''</body></html>''" by (intro inert_intros; simp)
  have deferred: "snd (stream_part True {} demo_page []) \<noteq> []"
    by (simp add: demo_page_def demo_context_def is_pending_def defer_boundary_def pending_sources_are_streamable_def split: prod.splits)
  have "is_finalized_ssr_snapshot (concat (demo_stream reports)) \<and> \<not> is_finalized_ssr_snapshot (hd (demo_stream reports))" for reports
    using complete_stream_is_final [OF demo_page_ok tail inert, where send_ok = "\<lambda>_. True" and active = True and s = "{}" and reports = reports
        and applies = "[0, 1]" and opts = "\<lparr>op_swap_script_src = STREAM_SWAP_SCRIPT_PATH, op_doctype = False\<rparr>"] deferred
    unfolding demo_stream_def by blast
  then show ?thesis by blast
qed

end
