(* ===== verification/StreamWriter.thy ===== *)
theory StreamWriter
  imports Suspense
begin

text \<open>
  Chunked delivery of a finished render, \<open>ChunkedStreamWriter\<close> of \<open>krab_core/src/render_stream.rs\<close>: output is
  buffered and cut into chunks at character boundaries, under a byte budget, until the stream is cancelled. The
  instants kept for telemetry are left out. \<open>None\<close> is a call that does not return.
\<close>

subsection \<open>Character boundaries\<close>

definition is_continuation :: "char \<Rightarrow> bool" where
  "is_continuation c = (let n = of_char c :: nat in 128 \<le> n \<and> n < 192)"

definition is_char_boundary :: "string \<Rightarrow> nat \<Rightarrow> bool" where
  "is_char_boundary s i = (i = 0 \<or> i = length s \<or> (i < length s \<and> \<not> is_continuation (s ! i)))"

fun boundary_below :: "string \<Rightarrow> nat \<Rightarrow> nat" where
  "boundary_below s 0 = 0"
| "boundary_below s (Suc i) = (if is_char_boundary s (Suc i) then Suc i else boundary_below s i)"

definition nearest_char_boundary :: "string \<Rightarrow> nat \<Rightarrow> nat" where
  "nearest_char_boundary s target = (if length s \<le> target then length s else boundary_below s target)"

subsection \<open>The writer\<close>

record stream_writer =
  sw_chunk_size :: nat
  sw_flush_threshold :: nat
  sw_pending :: string
  sw_chunks :: "string list"
  sw_flush_count :: nat
  sw_emitted_bytes :: nat
  sw_suspense_marker_count :: nat
  sw_boundary_events :: "nat hashmap"
  sw_max_total_bytes :: "nat option"
  sw_budget_exceeded :: bool
  sw_stream_cancelled :: bool
  sw_cancel_reason :: "string option"

definition stream_writer_new :: "nat \<Rightarrow> nat \<Rightarrow> stream_writer" where
  "stream_writer_new chunk_size flush_threshold =
     \<lparr>sw_chunk_size = max chunk_size 128, sw_flush_threshold = max flush_threshold (max chunk_size 128), sw_pending = [], sw_chunks = [],
      sw_flush_count = 0, sw_emitted_bytes = 0, sw_suspense_marker_count = 0, sw_boundary_events = [], sw_max_total_bytes = None,
      sw_budget_exceeded = False, sw_stream_cancelled = False, sw_cancel_reason = None\<rparr>"

definition stream_writer_default :: stream_writer where
  "stream_writer_default = stream_writer_new 1024 4096"

definition set_max_total_bytes :: "nat \<Rightarrow> stream_writer \<Rightarrow> stream_writer" where
  "set_max_total_bytes n w = w\<lparr>sw_max_total_bytes := Some (max n 1)\<rparr>"

text \<open>The loop of \<open>flush\<close> over the pending text, the chunks and the emitted bytes.\<close>

partial_function (option) cut_chunks :: "nat \<Rightarrow> string \<Rightarrow> string list \<Rightarrow> nat \<Rightarrow> (string \<times> string list \<times> nat) option" where
  "cut_chunks n pending chunks emitted =
     (if n < length pending then
        (let k = nearest_char_boundary pending n
         in cut_chunks n (drop k pending) (chunks @ [take k pending]) (emitted + k))
      else Some (pending, chunks, emitted))"

definition stream_flush :: "stream_writer \<Rightarrow> stream_writer option" where
  "stream_flush w =
     (if sw_pending w = [] \<or> sw_stream_cancelled w then Some w
      else (case cut_chunks (sw_chunk_size w) (sw_pending w) (sw_chunks w) (sw_emitted_bytes w) of
              None \<Rightarrow> None
            | Some (pending, chunks, emitted) \<Rightarrow>
                Some (w\<lparr>sw_pending := [], sw_chunks := (if pending \<noteq> [] then chunks @ [pending] else chunks),
                        sw_emitted_bytes := emitted + length pending, sw_flush_count := Suc (sw_flush_count w)\<rparr>)))"

definition flush_if_ready :: "stream_writer \<Rightarrow> stream_writer option" where
  "flush_if_ready w = (if sw_flush_threshold w \<le> length (sw_pending w) then stream_flush w else Some w)"

definition exceeds_limit :: "string \<Rightarrow> stream_writer \<Rightarrow> bool" where
  "exceeds_limit input w =
     (case sw_max_total_bytes w of
        None \<Rightarrow> False
      | Some limit \<Rightarrow> limit < sw_emitted_bytes w + length (sw_pending w) + length input)"

definition stream_write :: "string \<Rightarrow> stream_writer \<Rightarrow> (bool \<times> stream_writer) option" where
  "stream_write input w =
     (if sw_budget_exceeded w \<or> sw_stream_cancelled w then Some (False, w)
      else if exceeds_limit input w then Some (False, w\<lparr>sw_budget_exceeded := True\<rparr>)
      else map_option (Pair True) (flush_if_ready (w\<lparr>sw_pending := sw_pending w @ input\<rparr>)))"

definition marker_text :: "string \<Rightarrow> suspense_state \<Rightarrow> string" where
  "marker_text boundary_id st = ''<!--krab:suspense:'' @ boundary_id @ '':'' @ state_as_str st @ ''-->''"

definition write_suspense_marker :: "string \<Rightarrow> suspense_state \<Rightarrow> stream_writer \<Rightarrow> (bool \<times> stream_writer) option" where
  "write_suspense_marker boundary_id st w =
     (case stream_write (marker_text boundary_id st) w of
        None \<Rightarrow> None
      | Some (accepted, w') \<Rightarrow>
          Some (accepted,
            if accepted
            then w'\<lparr>sw_suspense_marker_count := Suc (sw_suspense_marker_count w'),
                    sw_boundary_events := hm_insert boundary_id (Suc (case hm_get (sw_boundary_events w') boundary_id of Some n \<Rightarrow> n | None \<Rightarrow> 0))
                      (sw_boundary_events w')\<rparr>
            else w'))"

definition stream_cancel :: "string \<Rightarrow> stream_writer \<Rightarrow> stream_writer option" where
  "stream_cancel reason w =
     map_option (\<lambda>w'. w'\<lparr>sw_stream_cancelled := True, sw_cancel_reason := Some reason\<rparr>)
       (if sw_pending w \<noteq> [] then stream_flush w else Some w)"

record finished_stream =
  fs_chunks :: "string list"
  fs_budget_exceeded :: bool
  fs_cancelled :: bool

definition stream_finish :: "stream_writer \<Rightarrow> finished_stream option" where
  "stream_finish w =
     map_option (\<lambda>w'. \<lparr>fs_chunks = sw_chunks w', fs_budget_exceeded = sw_budget_exceeded w', fs_cancelled = sw_stream_cancelled w'\<rparr>)
       (stream_flush w)"

definition is_complete :: "finished_stream \<Rightarrow> bool" where
  "is_complete f = (\<not> fs_budget_exceeded f \<and> \<not> fs_cancelled f)"

subsection \<open>Clients\<close>

datatype writer_op = WriteText string | WriteMarker string suspense_state | FlushNow | CancelStream string | SetBudget nat

definition writer_step :: "writer_op \<Rightarrow> stream_writer \<Rightarrow> stream_writer option" where
  "writer_step op w =
     (case op of
        WriteText input \<Rightarrow> map_option snd (stream_write input w)
      | WriteMarker i st \<Rightarrow> map_option snd (write_suspense_marker i st w)
      | FlushNow \<Rightarrow> stream_flush w
      | CancelStream reason \<Rightarrow> stream_cancel reason w
      | SetBudget n \<Rightarrow> Some (set_max_total_bytes n w))"

fun writer_run :: "writer_op list \<Rightarrow> stream_writer \<Rightarrow> stream_writer option" where
  "writer_run [] w = Some w"
| "writer_run (op # ops) w = (case writer_step op w of None \<Rightarrow> None | Some w' \<Rightarrow> writer_run ops w')"

subsection \<open>What a writer promises\<close>

text \<open>The contract knows no chunks: a text that grows by whole writes, until the budget or a cancellation closes it.\<close>

record stream_text =
  st_text :: string
  st_limit :: "nat option"
  st_exceeded :: bool
  st_cancelled :: bool

definition text_write :: "string \<Rightarrow> stream_text \<Rightarrow> stream_text" where
  "text_write input t =
     (if st_exceeded t \<or> st_cancelled t then t
      else if st_limit t \<noteq> None \<and> the (st_limit t) < length (st_text t) + length input then t\<lparr>st_exceeded := True\<rparr>
      else t\<lparr>st_text := st_text t @ input\<rparr>)"

definition text_step :: "writer_op \<Rightarrow> stream_text \<Rightarrow> stream_text" where
  "text_step op t =
     (case op of
        WriteText input \<Rightarrow> text_write input t
      | WriteMarker i st \<Rightarrow> text_write (marker_text i st) t
      | FlushNow \<Rightarrow> t
      | CancelStream reason \<Rightarrow> t\<lparr>st_cancelled := True\<rparr>
      | SetBudget n \<Rightarrow> t\<lparr>st_limit := Some (max n 1)\<rparr>)"

definition empty_text :: stream_text where
  "empty_text = \<lparr>st_text = [], st_limit = None, st_exceeded = False, st_cancelled = False\<rparr>"

definition text_of :: "stream_writer \<Rightarrow> stream_text" where
  "text_of w = \<lparr>st_text = concat (sw_chunks w) @ sw_pending w, st_limit = sw_max_total_bytes w,
     st_exceeded = sw_budget_exceeded w, st_cancelled = sw_stream_cancelled w\<rparr>"

text \<open>Text of whole characters: every byte is within three of the first byte of its character.\<close>

definition whole_chars :: "string \<Rightarrow> bool" where
  "whole_chars s = list_all (\<lambda>i. list_ex (\<lambda>j. j \<le> i \<and> \<not> is_continuation (s ! (i - j))) [0..<4]) [0..<length s]"

definition op_ok :: "writer_op \<Rightarrow> bool" where
  "op_ok op = (case op of WriteText input \<Rightarrow> whole_chars input | WriteMarker i st \<Rightarrow> whole_chars i | _ \<Rightarrow> True)"

lemma whole_chars_iff: "whole_chars s \<longleftrightarrow> (\<forall>i < length s. \<exists>j < 4. j \<le> i \<and> \<not> is_continuation (s ! (i - j)))"
  by (simp add: whole_chars_def list_all_iff list_ex_iff Bex_def conj_commute) (metis atLeast0LessThan atLeastLessThan_upt lessThan_iff)

subsection \<open>Cutting at boundaries\<close>

lemma whole_chars_append: "whole_chars s \<Longrightarrow> whole_chars t \<Longrightarrow> whole_chars (s @ t)"
  unfolding whole_chars_iff
proof (intro allI impI)
  fix i
  assume s: "\<forall>i < length s. \<exists>j < 4. j \<le> i \<and> \<not> is_continuation (s ! (i - j))"
    and t: "\<forall>i < length t. \<exists>j < 4. j \<le> i \<and> \<not> is_continuation (t ! (i - j))" and i: "i < length (s @ t)"
  show "\<exists>j < 4. j \<le> i \<and> \<not> is_continuation ((s @ t) ! (i - j))"
  proof (cases "i < length s")
    case True
    then obtain j where "j < 4" "j \<le> i" "\<not> is_continuation (s ! (i - j))" using s by blast
    then show ?thesis using True by (intro exI [of _ j]) (simp add: nth_append less_imp_diff_less)
  next
    case False
    then have "i - length s < length t" using i by simp
    then obtain j where "j < 4" "j \<le> i - length s" "\<not> is_continuation (t ! (i - length s - j))" using t by blast
    then show ?thesis using False by (intro exI [of _ j]) (auto simp: nth_append add.commute)
  qed
qed

lemma whole_chars_take: "whole_chars s \<Longrightarrow> whole_chars (take k s)"
  unfolding whole_chars_iff by (metis length_take less_imp_diff_less min_less_iff_conj nth_take)

lemma whole_chars_drop:
  assumes "whole_chars s" and "k < length s" and "\<not> is_continuation (s ! k)"
  shows "whole_chars (drop k s)"
  unfolding whole_chars_iff
proof (intro allI impI)
  fix i
  assume "i < length (drop k s)"
  then have "k + i < length s" by simp
  then obtain j where j: "j < 4" "j \<le> k + i" "\<not> is_continuation (s ! (k + i - j))" using assms(1) unfolding whole_chars_iff by blast
  show "\<exists>j < 4. j \<le> i \<and> \<not> is_continuation (drop k s ! (i - j))"
  proof (cases "j \<le> i")
    case True
    then show ?thesis using j assms(2) by (intro exI [of _ j]) simp
  next
    case False
    then show ?thesis using j(1) assms(2,3) by (intro exI [of _ i]) simp
  qed
qed

lemma boundary_below_bounds: "boundary_below s i \<le> i \<and> is_char_boundary s (boundary_below s i) \<and> (is_char_boundary s j \<and> j \<le> i \<longrightarrow> j \<le> boundary_below s i)"
proof (induction i)
  case 0
  then show ?case by (simp add: is_char_boundary_def)
next
  case (Suc i)
  then show ?case by (cases "j = Suc i") auto
qed

lemma cut_position:
  assumes "whole_chars s" and "n < length s" and "4 \<le> n"
  defines "k \<equiv> nearest_char_boundary s n"
  shows "0 < k \<and> k \<le> n \<and> \<not> is_continuation (s ! k)"
proof -
  obtain j where j: "j < 4" "j \<le> n" "\<not> is_continuation (s ! (n - j))" using assms(1,2) unfolding whole_chars_iff by blast
  moreover have "n - j < length s" using assms(2) by linarith
  ultimately have "is_char_boundary s (n - j)" by (simp add: is_char_boundary_def)
  then have "n - j \<le> boundary_below s n" using boundary_below_bounds [of s n "n - j"] by simp
  moreover have "k = boundary_below s n" using assms(2) by (simp add: k_def nearest_char_boundary_def)
  ultimately have "0 < k" "k \<le> n" "is_char_boundary s k" using boundary_below_bounds [of s n 0] j(1) assms(3) by auto
  then show ?thesis using assms(2) by (simp add: is_char_boundary_def)
qed

definition chunk_ok :: "nat \<Rightarrow> string \<Rightarrow> bool" where
  "chunk_ok n c \<longleftrightarrow> c \<noteq> [] \<and> length c \<le> n \<and> whole_chars c"

lemma cut_chunks_whole:
  assumes "whole_chars p" and "p \<noteq> []" and "4 \<le> n"
  shows "\<exists>p' cs' e'. cut_chunks n p cs e = Some (p', cs @ cs', e') \<and> concat cs' @ p' = p \<and> e' = e + length (concat cs') \<and>
    chunk_ok n p' \<and> list_all (chunk_ok n) cs'"
  using assms(1,2)
proof (induction "length p" arbitrary: p cs e rule: less_induct)
  case less
  show ?case
  proof (cases "n < length p")
    case True
    let ?k = "nearest_char_boundary p n"
    have k: "0 < ?k" "?k \<le> n" "\<not> is_continuation (p ! ?k)" using cut_position [OF less.prems(1) True assms(3)] by simp_all
    have len: "?k < length p" using k(2) True by simp
    have "whole_chars (drop ?k p)" by (rule whole_chars_drop [OF less.prems(1) len k(3)])
    moreover have "length (drop ?k p) < length p" "drop ?k p \<noteq> []" using k(1) len by simp_all
    ultimately obtain p' cs' e' where r: "cut_chunks n (drop ?k p) (cs @ [take ?k p]) (e + ?k) = Some (p', (cs @ [take ?k p]) @ cs', e')"
      "concat cs' @ p' = drop ?k p" "e' = e + ?k + length (concat cs')" "chunk_ok n p'" "list_all (chunk_ok n) cs'"
      using less.hyps [of "drop ?k p" "cs @ [take ?k p]" "e + ?k"] by blast
    have "cut_chunks n p cs e = Some (p', cs @ (take ?k p # cs'), e')"
      using r(1) True by (subst cut_chunks.simps) (simp add: Let_def)
    moreover have "chunk_ok n (take ?k p)" using k(1,2) len whole_chars_take [OF less.prems(1)] by (auto simp: chunk_ok_def)
    moreover have "concat (take ?k p # cs') @ p' = p" using r(2) by simp
    moreover have "e' = e + length (concat (take ?k p # cs'))" using r(3) len by simp
    ultimately show ?thesis using r(4,5) by (intro exI [of _ p'] exI [of _ "take ?k p # cs'"] exI [of _ e']) simp
  next
    case False
    then have "cut_chunks n p cs e = Some (p, cs @ [], e)" by (subst cut_chunks.simps) simp
    moreover have "chunk_ok n p" using False less.prems by (simp add: chunk_ok_def)
    ultimately show ?thesis by (intro exI [of _ p] exI [of _ "[]"] exI [of _ e]) simp
  qed
qed

subsection \<open>The writer keeps the contract\<close>

definition writer_ok :: "stream_writer \<Rightarrow> bool" where
  "writer_ok w \<longleftrightarrow>
     128 \<le> sw_chunk_size w \<and> sw_chunk_size w \<le> sw_flush_threshold w \<and> whole_chars (sw_pending w) \<and>
     length (sw_pending w) < sw_flush_threshold w \<and> list_all (chunk_ok (sw_chunk_size w)) (sw_chunks w) \<and>
     sw_emitted_bytes w = length (concat (sw_chunks w)) \<and> (sw_stream_cancelled w \<longrightarrow> sw_pending w = [])"

lemma whole_chars_Nil [simp]: "whole_chars []"
  by (simp add: whole_chars_def)

text \<open>A flush always ends; the text stays what it was.\<close>

lemma flush_ok:
  assumes "128 \<le> sw_chunk_size w" and "sw_chunk_size w \<le> sw_flush_threshold w" and "whole_chars (sw_pending w)"
    and "list_all (chunk_ok (sw_chunk_size w)) (sw_chunks w)" and "sw_emitted_bytes w = length (concat (sw_chunks w))"
    and "sw_stream_cancelled w \<longrightarrow> sw_pending w = []"
  shows "\<exists>w'. stream_flush w = Some w' \<and> writer_ok w' \<and> text_of w' = text_of w \<and> sw_pending w' = [] \<and> sw_chunk_size w' = sw_chunk_size w \<and>
    sw_flush_threshold w' = sw_flush_threshold w"
proof (cases "sw_pending w = []")
  case True
  then show ?thesis using assms by (intro exI [of _ w]) (simp add: stream_flush_def writer_ok_def)
next
  case False
  have "4 \<le> sw_chunk_size w" using assms(1) by simp
  from cut_chunks_whole [OF assms(3) False this, of "sw_chunks w" "sw_emitted_bytes w"]
  obtain p' cs' e' where r: "cut_chunks (sw_chunk_size w) (sw_pending w) (sw_chunks w) (sw_emitted_bytes w) = Some (p', sw_chunks w @ cs', e')"
    "concat cs' @ p' = sw_pending w" "e' = sw_emitted_bytes w + length (concat cs')" "chunk_ok (sw_chunk_size w) p'"
    "list_all (chunk_ok (sw_chunk_size w)) cs'" by blast
  have "p' \<noteq> []" using r(4) by (simp add: chunk_ok_def)
  moreover have "length (concat cs') + length p' = length (sw_pending w)" using arg_cong [OF r(2), of length] by simp
  ultimately show ?thesis using False assms r
    by (auto simp: stream_flush_def writer_ok_def text_of_def)
qed

lemma writer_ok_flush: "writer_ok w \<Longrightarrow> \<exists>w'. stream_flush w = Some w' \<and> writer_ok w' \<and> text_of w' = text_of w \<and> sw_pending w' = [] \<and>
    sw_chunk_size w' = sw_chunk_size w \<and> sw_flush_threshold w' = sw_flush_threshold w"
  by (rule flush_ok) (simp_all add: writer_ok_def)

definition same_sizes :: "stream_writer \<Rightarrow> stream_writer \<Rightarrow> bool" where
  "same_sizes w w' \<longleftrightarrow> sw_chunk_size w' = sw_chunk_size w \<and> sw_flush_threshold w' = sw_flush_threshold w"

lemma writer_ok_write:
  assumes "writer_ok w" and "whole_chars input"
  shows "\<exists>b w'. stream_write input w = Some (b, w') \<and> writer_ok w' \<and> text_of w' = text_write input (text_of w) \<and> same_sizes w w'"
proof (cases "sw_budget_exceeded w \<or> sw_stream_cancelled w")
  case True
  then show ?thesis using assms(1) by (auto simp: stream_write_def text_write_def text_of_def same_sizes_def)
next
  case False
  have over: "exceeds_limit input w \<longleftrightarrow> st_limit (text_of w) \<noteq> None \<and> the (st_limit (text_of w)) < length (st_text (text_of w)) + length input"
    using assms(1) by (auto simp: exceeds_limit_def text_of_def writer_ok_def split: option.splits)
  show ?thesis
  proof (cases "exceeds_limit input w")
    case True
    then have "text_of (w\<lparr>sw_budget_exceeded := True\<rparr>) = text_write input (text_of w)" using False over by (simp add: text_write_def) (simp add: text_of_def)
    moreover have "writer_ok (w\<lparr>sw_budget_exceeded := True\<rparr>)" using assms(1) by (simp add: writer_ok_def)
    moreover have "stream_write input w = Some (False, w\<lparr>sw_budget_exceeded := True\<rparr>)" using True False by (simp add: stream_write_def)
    ultimately show ?thesis by (auto simp: same_sizes_def)
  next
    case fits: False
    let ?w = "w\<lparr>sw_pending := sw_pending w @ input\<rparr>"
    have t: "text_of ?w = text_write input (text_of w)" using False fits over by (simp add: text_write_def) (simp add: text_of_def)
    have whole: "whole_chars (sw_pending ?w)" using assms whole_chars_append by (simp add: writer_ok_def)
    have "\<exists>w'. flush_if_ready ?w = Some w' \<and> writer_ok w' \<and> text_of w' = text_of ?w \<and> same_sizes w w'"
    proof (cases "sw_flush_threshold ?w \<le> length (sw_pending ?w)")
      case True
      have "\<exists>w'. stream_flush ?w = Some w' \<and> writer_ok w' \<and> text_of w' = text_of ?w \<and> sw_pending w' = [] \<and>
          sw_chunk_size w' = sw_chunk_size ?w \<and> sw_flush_threshold w' = sw_flush_threshold ?w"
        by (rule flush_ok) (use assms(1) whole False in \<open>simp_all add: writer_ok_def\<close>)
      then show ?thesis using True by (auto simp: flush_if_ready_def same_sizes_def)
    next
      case short: False
      then show ?thesis using assms(1) whole False by (simp add: flush_if_ready_def writer_ok_def same_sizes_def)
    qed
    then show ?thesis using False fits t by (auto simp: stream_write_def)
  qed
qed

lemma plain_whole: "list_all (\<lambda>c. \<not> is_continuation c) s \<Longrightarrow> whole_chars s"
  unfolding whole_chars_iff by (metis diff_zero le0 list_all_length zero_less_numeral)

lemma whole_marker: "whole_chars i \<Longrightarrow> whole_chars (marker_text i st)"
proof -
  assume i: "whole_chars i"
  have "whole_chars ''<!--krab:suspense:''" by (rule plain_whole) code_simp
  moreover have "whole_chars ('':'' @ state_as_str st @ ''-->'')" 
  proof (rule plain_whole)
    have "list_all (\<lambda>c. \<not> is_continuation c) ('':'' @ state_as_str StPending @ ''-->'')"
      "list_all (\<lambda>c. \<not> is_continuation c) ('':'' @ state_as_str StResolved @ ''-->'')"
      "list_all (\<lambda>c. \<not> is_continuation c) ('':'' @ state_as_str StError @ ''-->'')" by code_simp+
    then show "list_all (\<lambda>c. \<not> is_continuation c) ('':'' @ state_as_str st @ ''-->'')" by (cases st) simp_all
  qed
  ultimately show ?thesis using i whole_chars_append unfolding marker_text_def by blast
qed

lemma writer_step_ok:
  assumes "writer_ok w" and "op_ok op"
  shows "\<exists>w'. writer_step op w = Some w' \<and> writer_ok w' \<and> text_of w' = text_step op (text_of w) \<and> same_sizes w w'"
proof (cases op)
  case (WriteText input)
  then show ?thesis using writer_ok_write [OF assms(1), of input] assms(2) by (auto simp: writer_step_def text_step_def op_ok_def)
next
  case (WriteMarker i st)
  then have "whole_chars (marker_text i st)" using assms(2) whole_marker by (simp add: op_ok_def)
  from writer_ok_write [OF assms(1) this] show ?thesis
    by (auto simp: WriteMarker writer_step_def text_step_def write_suspense_marker_def writer_ok_def text_of_def same_sizes_def)
next
  case FlushNow
  then show ?thesis using writer_ok_flush [OF assms(1)] by (auto simp: writer_step_def text_step_def same_sizes_def)
next
  case (CancelStream reason)
  then show ?thesis using writer_ok_flush [OF assms(1)] assms(1)
    by (auto simp: writer_step_def text_step_def stream_cancel_def same_sizes_def writer_ok_def text_of_def)
next
  case (SetBudget n)
  then show ?thesis using assms(1)
    by (auto simp: writer_step_def text_step_def set_max_total_bytes_def writer_ok_def text_of_def same_sizes_def)
qed

lemma writer_run_ok:
  "writer_ok w \<Longrightarrow> list_all op_ok ops \<Longrightarrow>
     \<exists>w'. writer_run ops w = Some w' \<and> writer_ok w' \<and> text_of w' = fold text_step ops (text_of w) \<and> same_sizes w w'"
proof (induction ops arbitrary: w)
  case (Cons op ops)
  obtain w1 where w1: "writer_step op w = Some w1" "writer_ok w1" "text_of w1 = text_step op (text_of w)" "same_sizes w w1"
    using writer_step_ok [of w op] Cons.prems by auto
  then show ?case using Cons.IH [of w1] Cons.prems(2) by (auto simp: same_sizes_def)
qed (simp add: same_sizes_def)

lemma new_writer_ok: "writer_ok (stream_writer_new n t)" "text_of (stream_writer_new n t) = empty_text"
  by (simp_all add: writer_ok_def stream_writer_new_def text_of_def empty_text_def)

text \<open>
  C30: the chunked writer is a text with a budget. Whatever sizes it is created with and whatever sequence of
  writes, markers, flushes, budgets and a cancellation it is given, every call returns; what it holds is the text
  of the contract, which takes every write whole or not at all, and at any moment less than the flush threshold
  waits in the buffer; and finishing yields chunks that are not empty, are no longer than the chunk size, split no
  character, and together are that text, with the two flags saying whether anything was dropped.
\<close>

theorem chunks_carry_the_text:
  assumes "list_all op_ok ops"
  shows "\<exists>w f. writer_run ops (stream_writer_new n t) = Some w \<and> text_of w = fold text_step ops empty_text \<and>
    length (sw_pending w) < max t (max n 128) \<and>
    stream_finish w = Some f \<and> list_all (chunk_ok (max n 128)) (fs_chunks f) \<and> concat (fs_chunks f) = st_text (text_of w) \<and>
    (is_complete f \<longleftrightarrow> \<not> st_exceeded (text_of w) \<and> \<not> st_cancelled (text_of w))"
proof -
  obtain w where w: "writer_run ops (stream_writer_new n t) = Some w" "writer_ok w" "text_of w = fold text_step ops empty_text"
    "same_sizes (stream_writer_new n t) w" using writer_run_ok [OF new_writer_ok(1) assms, of n t] by (auto simp: new_writer_ok(2))
  obtain w' where w': "stream_flush w = Some w'" "writer_ok w'" "text_of w' = text_of w" "sw_pending w' = []" "sw_chunk_size w' = sw_chunk_size w"
    using writer_ok_flush [OF w(2)] by blast
  have sizes: "sw_chunk_size w = max n 128" "sw_flush_threshold w = max t (max n 128)"
    using w(4) by (simp_all add: same_sizes_def stream_writer_new_def)
  have "concat (sw_chunks w') = st_text (text_of w)" "sw_budget_exceeded w' = st_exceeded (text_of w)" "sw_stream_cancelled w' = st_cancelled (text_of w)"
    unfolding w'(3) [symmetric] using w'(4) by (simp_all add: text_of_def)
  moreover have "list_all (chunk_ok (max n 128)) (sw_chunks w')" using w'(2,5) sizes(1) by (simp add: writer_ok_def)
  moreover have "length (sw_pending w) < max t (max n 128)" using w(2) sizes(2) by (simp add: writer_ok_def)
  ultimately show ?thesis using w(1,3) w'(1) by (intro exI [of _ w]) (simp add: stream_finish_def is_complete_def)
qed

lemma chunks_carry_the_text_witness:
  "\<exists>w f. writer_run [SetBudget 6, WriteText ''abc'', WriteText ''defg'', FlushNow, WriteText ''h''] (stream_writer_new 0 0) = Some w \<and>
     stream_finish w = Some f \<and> concat (fs_chunks f) = ''abc'' \<and> \<not> is_complete f"
proof -
  let ?ops = "[SetBudget 6, WriteText ''abc'', WriteText ''defg'', FlushNow, WriteText ''h'']"
  have "list_all op_ok ?ops" by code_simp
  moreover have "st_text (fold text_step ?ops empty_text) = ''abc''" "st_exceeded (fold text_step ?ops empty_text)"
    by (simp_all add: text_step_def text_write_def empty_text_def)
  ultimately show ?thesis using chunks_carry_the_text [of ?ops 0 0] by force
qed

end
