(* ===== verification/OutletScan.thy ===== *)
theory OutletScan
  imports ViewTree
begin

text \<open>
  The markup scanner of the client router (\<open>krab_client/src/router.rs\<close>): the contents of the outlet and the
  title of a page that was fetched as text. A byte offset into the document is the rest of the document from
  there; the scanner is measured against pages as the server renders them.
\<close>

subsection \<open>Tags\<close>

definition OUTLET_ATTR :: string where
  "OUTLET_ATTR = ''data-krab-router-outlet''"

datatype tag_kind = TagStart bool bool | TagEnd

record scan_tag =
  sg_name :: string
  sg_start :: string
  sg_end :: string
  sg_kind :: tag_kind

definition is_raw_text :: "string \<Rightarrow> bool" where
  "is_raw_text name = (name \<in> {''script'', ''style'', ''textarea'', ''title''})"

text \<open>After the name of an attribute.\<close>

definition skip_attribute_value :: "string \<Rightarrow> string" where
  "skip_attribute_value from_here =
     (case dropWhile html_space from_here of
        [] \<Rightarrow> from_here
      | e # r \<Rightarrow>
          if e \<noteq> CHR ''='' then from_here
          else (case dropWhile html_space r of
                  [] \<Rightarrow> []
                | q # r' \<Rightarrow>
                    if q = CHR 0x22 \<or> q = CHR 0x27 then drop 1 (dropWhile (\<lambda>c. c \<noteq> q) r')
                    else dropWhile (\<lambda>c. \<not> html_space c \<and> c \<noteq> CHR ''>'') (q # r')))"

definition scan_name_char :: "char \<Rightarrow> bool" where
  "scan_name_char c = (\<not> html_space c \<and> c \<noteq> CHR ''='' \<and> c \<noteq> CHR ''>'' \<and> c \<noteq> CHR ''/'')"

lemma dropWhile_Cons: "dropWhile P s = c # r \<Longrightarrow> \<not> P c \<and> length r < length s"
proof -
  assume d: "dropWhile P s = c # r"
  then have "length (c # r) \<le> length s" using length_dropWhile_le [of P s] by simp
  then show ?thesis using hd_dropWhile [of P s] d by simp
qed

lemma skip_attribute_value_length: "length (skip_attribute_value s) \<le> length s"
proof (cases "dropWhile html_space s")
  case (Cons e r)
  have r: "length r < length s" using dropWhile_Cons [OF Cons] by simp
  show ?thesis
  proof (cases "dropWhile html_space r")
    case inner: (Cons q r')
    have "length r' < length r" using dropWhile_Cons [OF inner] by simp
    then have "length (dropWhile P (q # r')) \<le> length s" "length (drop 1 (dropWhile P r')) \<le> length s" for P
      using length_dropWhile_le [of P "q # r'"] length_dropWhile_le [of P r'] r by (simp_all del: dropWhile.simps)
    then show ?thesis using Cons inner by (simp add: skip_attribute_value_def del: dropWhile.simps)
  next
    case Nil
    show ?thesis unfolding skip_attribute_value_def Cons list.case Nil by simp
  qed
next
  case Nil
  show ?thesis unfolding skip_attribute_value_def Nil by simp
qed

function scan_attributes :: "bool \<Rightarrow> string \<Rightarrow> (string \<times> bool \<times> bool) option" where
  "scan_attributes outlet s =
     (case dropWhile html_space s of
        [] \<Rightarrow> None
      | c # r \<Rightarrow>
          if c = CHR ''>'' then Some (r, False, outlet)
          else if c = CHR ''/'' then
            (case r of d # r' \<Rightarrow> if d = CHR ''>'' then Some (r', True, outlet) else scan_attributes outlet r | [] \<Rightarrow> scan_attributes outlet r)
          else if c = CHR ''='' then scan_attributes outlet r
          else scan_attributes (outlet \<or> eq_ignore_ascii_case (takeWhile scan_name_char (c # r)) OUTLET_ATTR)
                 (skip_attribute_value (dropWhile scan_name_char (c # r))))"
  by pat_completeness auto

termination
proof (relation "measure (\<lambda>(outlet, s). length s)", goal_cases)
  case (5 outlet s c r)
  have "scan_name_char c" using dropWhile_Cons [OF 5(1)] 5(2-4) by (simp add: scan_name_char_def)
  then have "length (skip_attribute_value (dropWhile scan_name_char (c # r))) \<le> length r"
    using skip_attribute_value_length [of "dropWhile scan_name_char r"] length_dropWhile_le [of scan_name_char r] by simp
  then show ?case using dropWhile_Cons [OF 5(1)] by simp
qed (auto dest!: dropWhile_Cons)

declare scan_attributes.simps [simp del]

lemma scan_attributes_length: "scan_attributes outlet s = Some (r, x) \<Longrightarrow> length r < length s"
proof (induction outlet s rule: scan_attributes.induct)
  case (1 outlet s)
  obtain c q where d: "dropWhile html_space s = c # q"
    using "1.prems" by (subst (asm) scan_attributes.simps) (auto split: list.splits)
  have len: "length q < length s" using dropWhile_Cons [OF d] by simp
  note eq = "1.prems" [unfolded scan_attributes.simps [of outlet s] d list.case]
  consider "c = CHR ''>''" | "c = CHR ''/''" | "c = CHR ''=''" | "c \<notin> {CHR ''>'', CHR ''/'', CHR ''=''}" by blast
  then show ?case
  proof cases
    case 1
    then show ?thesis using eq len by simp
  next
    case 2
    then show ?thesis using eq len "1.IH"(1,2) [OF d] by (cases q) (auto split: if_splits)
  next
    case 3
    then show ?thesis using eq len "1.IH"(3) [OF d] by simp
  next
    case 4
    then have "scan_name_char c" using dropWhile_Cons [OF d] by (simp add: scan_name_char_def)
    then have "length (skip_attribute_value (dropWhile scan_name_char (c # q))) \<le> length q"
      using skip_attribute_value_length [of "dropWhile scan_name_char q"] length_dropWhile_le [of scan_name_char q] by simp
    moreover have "length r < length (skip_attribute_value (dropWhile scan_name_char (c # q)))"
      using 4 eq "1.IH"(4) [OF d] by simp
    ultimately show ?thesis using len by simp
  qed
qed

definition tag_name_char :: "char \<Rightarrow> bool" where
  "tag_name_char c = (is_ascii_alnum c \<or> c = CHR ''-'')"

text \<open>The tag whose \<open><\<close> is at the head.\<close>

definition parse_tag :: "string \<Rightarrow> scan_tag option" where
  "parse_tag here =
     (let after = drop 1 here;
          is_end = starts_with after ''/'';
          from_name = (if is_end then drop 1 after else after);
          name = takeWhile tag_name_char from_name
      in case name of
           [] \<Rightarrow> None
         | c # _ \<Rightarrow>
             if \<not> is_ascii_alpha c then None
             else (case scan_attributes False (dropWhile tag_name_char from_name) of
                     None \<Rightarrow> None
                   | Some (r, self_closing, outlet) \<Rightarrow>
                       Some \<lparr>sg_name = ascii_lower name, sg_start = here, sg_end = r,
                             sg_kind = (if is_end then TagEnd else TagStart self_closing outlet)\<rparr>))"

function next_tag :: "string \<Rightarrow> scan_tag option" where
  "next_tag s =
     (case dropWhile (\<lambda>c. c \<noteq> CHR ''<'') s of
        [] \<Rightarrow> None
      | c # r \<Rightarrow>
          (case strip_prefix ''<!--'' (c # r) of
             Some body \<Rightarrow> (case map_option snd (split_seq ''-->'' body) of None \<Rightarrow> None | Some q \<Rightarrow> next_tag q)
           | None \<Rightarrow>
               if starts_with (c # r) ''<!'' \<or> starts_with (c # r) ''<?'' then
                 (case dropWhile (\<lambda>c. c \<noteq> CHR ''>'') (c # r) of [] \<Rightarrow> None | _ # q \<Rightarrow> next_tag q)
               else (case parse_tag (c # r) of Some t \<Rightarrow> Some t | None \<Rightarrow> next_tag r)))"
  by pat_completeness auto

termination
proof (relation "measure length", goal_cases)
  case (2 s c r x q)
  then show ?case using dropWhile_Cons [OF 2(1)] dropWhile_Cons [OF 2(4)] by simp
next
  case (3 s c r)
  then show ?case using dropWhile_Cons [OF 3(1)] by simp
next
  case (4 s c r body q)
  then show ?case using dropWhile_Cons [OF 4(1)] by (auto simp: strip_prefix_Some dest!: split_seq_Some)
qed simp

declare next_tag.simps [simp del]

lemma parse_tag_length: "parse_tag s = Some t \<Longrightarrow> length (sg_end t) < length s"
proof -
  assume t: "parse_tag s = Some t"
  define u where "u = (if starts_with (drop 1 s) ''/'' then drop 1 (drop 1 s) else drop 1 s)"
  obtain r x where r: "scan_attributes False (dropWhile tag_name_char u) = Some (r, x)" "sg_end t = r"
    using t unfolding parse_tag_def Let_def u_def [symmetric] by (auto split: list.splits if_splits option.splits)
  have "length r < length (dropWhile tag_name_char u)" by (rule scan_attributes_length [OF r(1)])
  also have "\<dots> \<le> length u" by (rule length_dropWhile_le)
  also have "\<dots> \<le> length s" by (simp add: u_def)
  finally show ?thesis using r(2) by simp
qed

lemma next_tag_length: "next_tag s = Some t \<Longrightarrow> length (sg_end t) < length s"
proof (induction s rule: next_tag.induct)
  case (1 s)
  obtain c r where d: "dropWhile (\<lambda>c. c \<noteq> CHR ''<'') s = c # r"
    using "1.prems" by (subst (asm) next_tag.simps) (auto split: list.splits)
  have len: "length r < length s" using dropWhile_Cons [OF d] by simp
  note eq = "1.prems" [unfolded next_tag.simps [of s] d list.case]
  show ?case
  proof (cases "strip_prefix ''<!--'' (c # r)")
    case (Some body)
    obtain q where q: "map_option snd (split_seq ''-->'' body) = Some q" using eq Some by (auto split: option.splits)
    have "length (sg_end t) < length q" by (rule "1.IH"(3) [OF d Some q eq [unfolded Some option.case q option.case]])
    moreover have "c # r = ''<!--'' @ body" using Some by (simp only: strip_prefix_Some)
    from arg_cong [OF this, of length] have "length q < length s" using q len by (auto dest!: split_seq_Some)
    ultimately show ?thesis by simp
  next
    case None
    show ?thesis
    proof (cases "starts_with (c # r) ''<!'' \<or> starts_with (c # r) ''<?''")
      case True
      obtain x q where q: "dropWhile (\<lambda>c. c \<noteq> CHR ''>'') (c # r) = x # q" using eq None True by (auto split: list.splits)
      have "length (sg_end t) < length q" using "1.IH"(1) [OF d None True q] eq None True q by simp
      then show ?thesis using dropWhile_Cons [OF q] len by simp
    next
      case False
      then show ?thesis
        using eq None "1.IH"(2) [OF d None False] parse_tag_length [of "c # r" t] len by (cases "parse_tag (c # r)") auto
    qed
  qed
qed

subsection \<open>Searching the document\<close>

text \<open>The rest of the text from the first occurrence on, letter case aside.\<close>

fun find_ignore_ascii_case :: "string \<Rightarrow> string \<Rightarrow> string option" where
  "find_ignore_ascii_case needle [] = None"
| "find_ignore_ascii_case needle (c # s) =
     (if needle \<noteq> [] \<and> prefix (ascii_lower needle) (ascii_lower (c # s)) then Some (c # s) else find_ignore_ascii_case needle s)"

definition skip_raw_text :: "string \<Rightarrow> string \<Rightarrow> string" where
  "skip_raw_text name s = (case find_ignore_ascii_case (''</'' @ name) s of Some r \<Rightarrow> r | None \<Rightarrow> [])"

lemma find_ignore_length: "find_ignore_ascii_case needle s = Some r \<Longrightarrow> length r \<le> length s"
  by (induction needle s rule: find_ignore_ascii_case.induct) (auto split: if_splits)

lemma skip_raw_length: "length (skip_raw_text name s) \<le> length s"
  by (auto simp: skip_raw_text_def dest: find_ignore_length split: option.splits)

definition after_tag :: "scan_tag \<Rightarrow> string" where
  "after_tag t =
     (case sg_kind t of
        TagStart self_closing _ \<Rightarrow> if \<not> self_closing \<and> is_raw_text (sg_name t) then skip_raw_text (sg_name t) (sg_end t) else sg_end t
      | TagEnd \<Rightarrow> sg_end t)"

lemma after_tag_length: "length (after_tag t) \<le> length (sg_end t)"
  using skip_raw_length by (auto simp: after_tag_def split: tag_kind.splits)

function scan_for :: "(scan_tag \<Rightarrow> bool) \<Rightarrow> string \<Rightarrow> scan_tag option" where
  "scan_for accept s =
     (case next_tag s of
        None \<Rightarrow> None
      | Some t \<Rightarrow> if accept t then Some t else scan_for accept (after_tag t))"
  by pat_completeness auto

termination
  by (relation "measure (\<lambda>(accept, s). length s)") (auto dest!: next_tag_length intro: le_less_trans [OF after_tag_length])

declare scan_for.simps [simp del]

definition is_outlet_tag :: "scan_tag \<Rightarrow> bool" where
  "is_outlet_tag t = (case sg_kind t of TagStart _ outlet \<Rightarrow> outlet | TagEnd \<Rightarrow> False)"

definition is_title_tag :: "scan_tag \<Rightarrow> bool" where
  "is_title_tag t = (sg_name t = ''title'' \<and> sg_kind t \<noteq> TagEnd)"

text \<open>The extent of the outlet: \<open>content\<close> is the document from its opening tag on.\<close>

function outlet_extent :: "string \<Rightarrow> string \<Rightarrow> nat \<Rightarrow> string \<Rightarrow> string option" where
  "outlet_extent name content depth s =
     (case next_tag s of
        None \<Rightarrow> None
      | Some t \<Rightarrow>
          (case sg_kind t of
             TagStart self_closing _ \<Rightarrow>
               if self_closing then outlet_extent name content depth (sg_end t)
               else if sg_name t = name then outlet_extent name content (depth + 1) (sg_end t)
               else if is_raw_text (sg_name t) then outlet_extent name content depth (skip_raw_text (sg_name t) (sg_end t))
               else outlet_extent name content depth (sg_end t)
           | TagEnd \<Rightarrow>
               if sg_name t = name then
                 (if depth - 1 = 0 then Some (take (length content - length (sg_start t)) content)
                  else outlet_extent name content (depth - 1) (sg_end t))
               else outlet_extent name content depth (sg_end t)))"
  by pat_completeness auto

termination
  by (relation "measure (\<lambda>(name, content, depth, s). length s)")
    (auto dest!: next_tag_length intro: le_less_trans [OF skip_raw_length])

declare outlet_extent.simps [simp del]

definition extract_outlet_html :: "string \<Rightarrow> string option" where
  "extract_outlet_html doc =
     (case scan_for is_outlet_tag doc of
        None \<Rightarrow> None
      | Some opening \<Rightarrow>
          (case sg_kind opening of
             TagStart True _ \<Rightarrow> Some []
           | _ \<Rightarrow> outlet_extent (sg_name opening) (sg_end opening) 1 (sg_end opening)))"

subsection \<open>The title\<close>

definition hex_val :: "char \<Rightarrow> nat option" where
  "hex_val c =
     (let k = of_char c :: nat
      in if 48 \<le> k \<and> k \<le> 57 then Some (k - 48)
         else if 65 \<le> k \<and> k \<le> 70 then Some (k - 55)
         else if 97 \<le> k \<and> k \<le> 102 then Some (k - 87)
         else None)"

fun parse_hex_digits :: "nat \<Rightarrow> string \<Rightarrow> nat option" where
  "parse_hex_digits acc [] = Some acc"
| "parse_hex_digits acc (c # cs) = (case hex_val c of None \<Rightarrow> None | Some d \<Rightarrow> parse_hex_digits (16 * acc + d) cs)"

definition u32_from_hex :: "string \<Rightarrow> nat option" where
  "u32_from_hex s =
     (let body = (case s of c # cs \<Rightarrow> if c = CHR ''+'' then cs else s | [] \<Rightarrow> [])
      in if body = [] then None
         else case parse_hex_digits 0 body of None \<Rightarrow> None | Some n \<Rightarrow> if n < 2 ^ 32 then Some n else None)"

text \<open>\<open>char::from_u32\<close>, and the bytes that pushing the character appends.\<close>

definition char_from_u32 :: "nat \<Rightarrow> string option" where
  "char_from_u32 n =
     (if 0xD800 \<le> n \<and> n < 0xE000 \<or> 0x10FFFF < n then None
      else Some (map char_of
        (if n < 0x80 then [n]
         else if n < 0x800 then [0xC0 + n div 64, 0x80 + n mod 64]
         else if n < 0x10000 then [0xE0 + n div 4096, 0x80 + n div 64 mod 64, 0x80 + n mod 64]
         else [0xF0 + n div 262144, 0x80 + n div 4096 mod 64, 0x80 + n div 64 mod 64, 0x80 + n mod 64])))"

definition decode_entity :: "string \<Rightarrow> string option" where
  "decode_entity name =
     (if name = ''amp'' then Some ''&''
      else if name = ''lt'' then Some ''<''
      else if name = ''gt'' then Some ''>''
      else if name = ''quot'' then Some [CHR 0x22]
      else if name = ''apos'' then Some [CHR 0x27]
      else if name = ''nbsp'' then char_from_u32 0xA0
      else case strip_prefix ''#'' name of
             None \<Rightarrow> None
           | Some digits \<Rightarrow>
               (case (case strip_prefix ''x'' digits of Some h \<Rightarrow> Some h | None \<Rightarrow> strip_prefix ''X'' digits) of
                  Some h \<Rightarrow> Option.bind (u32_from_hex h) char_from_u32
                | None \<Rightarrow> Option.bind (parse_unsigned (2 ^ 32 - 1) digits) char_from_u32))"

function decode_html_entities :: "string \<Rightarrow> string" where
  "decode_html_entities rest =
     (case split_once (CHR ''&'') rest of
        None \<Rightarrow> rest
      | Some (before, after) \<Rightarrow>
          before @
          (case split_once (CHR '';'') after of
             None \<Rightarrow> CHR ''&'' # decode_html_entities after
           | Some (name, behind) \<Rightarrow>
               if 8 < length name then CHR ''&'' # decode_html_entities after
               else (case decode_entity name of
                       Some decoded \<Rightarrow> decoded @ decode_html_entities behind
                     | None \<Rightarrow> CHR ''&'' # decode_html_entities after)))"
  by pat_completeness auto

termination
  by (relation "measure length") (auto dest!: split_once_length)

declare decode_html_entities.simps [simp del]

definition extract_title :: "string \<Rightarrow> string option" where
  "extract_title doc =
     (case scan_for is_title_tag doc of
        None \<Rightarrow> None
      | Some opening \<Rightarrow>
          (case find_ignore_ascii_case ''</title'' (sg_end opening) of
             None \<Rightarrow> None
           | Some r \<Rightarrow> Some (decode_html_entities (trim (take (length (sg_end opening) - length r) (sg_end opening))))))"

subsection \<open>Scanning a rendered page\<close>

text \<open>A page as the client must be able to read it: tags are names, and \<open>title\<close> and \<open>textarea\<close> hold text only.\<close>

function text_only :: "'s \<Rightarrow> 's node \<Rightarrow> bool" where
  "text_only s (Text t) = True"
| "text_only s (Comment t) = False"
| "text_only s (Fragment nodes) = list_all (text_only s) nodes"
| "text_only s (Dynamic f) = text_only s (f s)"
| "text_only s (Element el) = False"
  by pat_completeness auto

termination
  by (relation "inv_image part_rel snd") (auto simp: list_all_iff)

function readable :: "'s \<Rightarrow> 's node \<Rightarrow> bool" where
  "readable s (Text t) = True"
| "readable s (Comment t) = True"
| "readable s (Fragment nodes) = list_all (readable s) nodes"
| "readable s (Dynamic f) = readable s (f s)"
| "readable s (Element el) =
     (valid_tag (el_tag el) \<and>
      (if is_raw_text_element (el_tag el) then True
       else if is_raw_text (ascii_lower (el_tag el)) then list_all (text_only s) (el_children el)
       else list_all (readable s) (el_children el)))"
  by pat_completeness auto

termination
  by (relation "inv_image part_rel snd") (auto simp: list_all_iff)

definition has_outlet_attr :: "'s \<Rightarrow> 's element \<Rightarrow> bool" where
  "has_outlet_attr s el = list_ex (\<lambda>(n, v). eq_ignore_ascii_case n OUTLET_ATTR) (attribute_values s (el_attributes el))"

text \<open>The elements the scanner meets, in document order, with the property asked for.\<close>

function elements :: "('s element \<Rightarrow> bool) \<Rightarrow> 's \<Rightarrow> 's node \<Rightarrow> 's element list" where
  "elements p s (Text t) = []"
| "elements p s (Comment t) = []"
| "elements p s (Fragment nodes) = concat (map (elements p s) nodes)"
| "elements p s (Dynamic f) = elements p s (f s)"
| "elements p s (Element el) =
     (if p el then [el] else []) @
     (if is_raw_text (ascii_lower (el_tag el)) then [] else concat (map (elements p s) (el_children el)))"
  by pat_completeness auto

termination
  by (relation "inv_image part_rel (\<lambda>(p, s, n). n)") auto

lemma next_tag_text: "CHR ''<'' \<notin> set a \<Longrightarrow> next_tag (a @ r) = next_tag r"
proof -
  assume "CHR ''<'' \<notin> set a"
  then have "dropWhile (\<lambda>c. c \<noteq> CHR ''<'') (a @ r) = dropWhile (\<lambda>c. c \<noteq> CHR ''<'') r" by (induction a) auto
  then show ?thesis unfolding next_tag.simps [of "a @ r"] next_tag.simps [of r] by simp
qed

lemma next_tag_Nil [simp]: "next_tag [] = None"
  by (simp add: next_tag.simps)

lemma next_tag_comment:
  assumes "\<not> str_contains b ''--''" "\<not> ends_with b ''-''"
  shows "next_tag (''<!--'' @ b @ ''-->'' @ r) = next_tag r"
  using split_seq_comment [OF assms, of r] by (subst next_tag.simps) simp

lemma next_tag_start:
  assumes "parse_tag (CHR ''<'' # c # s) = Some t" and "c \<noteq> CHR ''!''" and "c \<noteq> CHR ''?''"
  shows "next_tag (CHR ''<'' # c # s) = Some t"
  using assms by (subst next_tag.simps) (simp add: starts_with_def)

lemma scan_char: "scan_name_char c \<longleftrightarrow> attr_name_char c"
  by (auto simp: scan_name_char_def attr_name_char_def tag_char_def)

lemma scan_one:
  assumes "is_valid_attr_name n"
  shows "scan_attributes o1 ('' '' @ n @ [CHR ''='', CHR 0x22] @ escape_html_attr v @ [CHR 0x22] @ r) =
    scan_attributes (o1 \<or> eq_ignore_ascii_case n OUTLET_ATTR) r"
proof -
  obtain d n' where n: "n = d # n'" using assms(1) by (cases n) (auto simp: is_valid_attr_name_def)
  have chars: "\<forall>x \<in> set n. scan_name_char x" using valid_attr_name_chars [OF assms(1)] by (simp add: scan_char)
  then have d: "scan_name_char d" "\<not> html_space d" by (auto simp: n scan_name_char_def)
  let ?tail = "CHR ''='' # CHR 0x22 # escape_html_attr v @ CHR 0x22 # r"
  have stop: "takeWhile scan_name_char (n @ ?tail) = n" "dropWhile scan_name_char (n @ ?tail) = ?tail"
    using takeWhile_dropWhile_stop [of n scan_name_char "CHR ''=''"] chars by (simp_all add: scan_name_char_def)
  have "dropWhile (\<lambda>c. c \<noteq> CHR 0x22) (escape_html_attr v @ CHR 0x22 # r) = CHR 0x22 # r"
    using takeWhile_dropWhile_stop [of "escape_html_attr v" "\<lambda>c. c \<noteq> CHR 0x22" "CHR 0x22" r] escape_html_attr_chars by auto
  then have val: "skip_attribute_value ?tail = r" by (simp add: skip_attribute_value_def html_space_def)
  have "dropWhile html_space (CHR '' '' # n @ ?tail) = d # n' @ ?tail" using d(2) by (simp add: html_space_def n)
  then have "scan_attributes o1 (CHR '' '' # n @ ?tail) =
      scan_attributes (o1 \<or> eq_ignore_ascii_case (takeWhile scan_name_char (n @ ?tail)) OUTLET_ATTR)
        (skip_attribute_value (dropWhile scan_name_char (n @ ?tail)))"
    using d(1) by (subst scan_attributes.simps) (simp add: n scan_name_char_def del: takeWhile.simps dropWhile.simps)
  then show ?thesis by (simp add: stop val)
qed

lemma scan_items:
  assumes "valid_items (map (apsnd Some) avs)"
  shows "scan_attributes o1 (attr_text (map (apsnd Some) avs) @ ''>'' @ r) =
      Some (r, False, o1 \<or> list_ex (\<lambda>(n, v). eq_ignore_ascii_case n OUTLET_ATTR) avs)"
    and "scan_attributes o1 (attr_text (map (apsnd Some) avs) @ ''/>'' @ r) =
      Some (r, True, o1 \<or> list_ex (\<lambda>(n, v). eq_ignore_ascii_case n OUTLET_ATTR) avs)"
proof -
  have ends: "scan_attributes o1 (''>'' @ r) = Some (r, False, o1)" "scan_attributes o1 (''/>'' @ r) = Some (r, True, o1)" for o1
    by (simp_all add: scan_attributes.simps html_space_def)
  have "scan_attributes o1 (attr_text (map (apsnd Some) avs) @ q) = scan_attributes (o1 \<or> list_ex (\<lambda>(n, v). eq_ignore_ascii_case n OUTLET_ATTR) avs) q" for q
    using assms
  proof (induction avs arbitrary: o1)
    case (Cons a avs)
    obtain n v where a: "a = (n, v)" by fastforce
    have "is_valid_attr_name n" using Cons.prems by (simp add: a valid_items_def)
    from scan_one [OF this, of o1 v "attr_text (map (apsnd Some) avs) @ q"] Cons show ?case
      by (simp add: a attr_text_def attr_item_text_def valid_items_def disj_assoc)
  qed (simp add: attr_text_def)
  then show "scan_attributes o1 (attr_text (map (apsnd Some) avs) @ ''>'' @ r) =
      Some (r, False, o1 \<or> list_ex (\<lambda>(n, v). eq_ignore_ascii_case n OUTLET_ATTR) avs)"
    "scan_attributes o1 (attr_text (map (apsnd Some) avs) @ ''/>'' @ r) =
      Some (r, True, o1 \<or> list_ex (\<lambda>(n, v). eq_ignore_ascii_case n OUTLET_ATTR) avs)"
    using ends by metis+
qed

lemma name_char_tag: "tag_name_char c \<Longrightarrow> tag_char c"
  using alnum_chars [of c] by (auto simp: tag_name_char_def attr_name_char_def tag_char_def html_space_def)

lemma tag_name_stop:
  assumes "valid_tag tag" and "\<not> tag_char c"
  shows "takeWhile tag_name_char (tag @ c # s) = tag \<and> dropWhile tag_name_char (tag @ c # s) = c # s"
proof (rule takeWhile_dropWhile_stop)
  show "\<forall>x \<in> set tag. tag_name_char x"
    using assms(1) by (auto simp: valid_tag_def list_all_iff tag_name_char_def is_ascii_alnum_def split: list.splits)
  show "\<not> tag_name_char c" using assms(2) name_char_tag by blast
qed

definition opening_text :: "'s \<Rightarrow> 's element \<Rightarrow> string" where
  "opening_text s el = ''<'' @ el_tag el @ attr_text (map (apsnd Some) (attribute_values s (el_attributes el)))"

lemma alpha_not: "is_ascii_alpha c \<Longrightarrow> c \<noteq> CHR ''!'' \<and> c \<noteq> CHR ''?'' \<and> c \<noteq> CHR ''/''"
  by (auto simp: is_ascii_alpha_def Let_def)

lemma next_tag_opening:
  assumes "valid_tag (el_tag el)" and "e = (if sc then ''/>'' else ''>'')"
  shows "next_tag (opening_text s el @ e @ r) =
    Some \<lparr>sg_name = ascii_lower (el_tag el), sg_start = opening_text s el @ e @ r, sg_end = r,
          sg_kind = TagStart sc (has_outlet_attr s el)\<rparr>"
proof -
  let ?items = "map (apsnd Some) (attribute_values s (el_attributes el))"
  obtain c cs where tag: "el_tag el = c # cs" "is_ascii_alpha c" using assms(1) by (auto simp: valid_tag_def split: list.splits)
  obtain d t where ct: "attr_text ?items @ e @ r = d # t" "\<not> tag_char d"
    using attr_text_start [of e ?items r thesis] assms(2) by (cases sc) simp_all
  have attrs: "scan_attributes False (d # t) = Some (r, sc, has_outlet_attr s el)"
    using scan_items [OF attribute_values_valid, of False s "el_attributes el" r] assms(2) ct(1)
    by (cases sc) (simp_all add: has_outlet_attr_def del: append_Cons)
  note stop = tag_name_stop [OF assms(1) ct(2), of t]
  have "parse_tag (CHR ''<'' # el_tag el @ d # t) =
      Some \<lparr>sg_name = ascii_lower (el_tag el), sg_start = CHR ''<'' # el_tag el @ d # t, sg_end = r, sg_kind = TagStart sc (has_outlet_attr s el)\<rparr>"
  proof -
    have "\<not> starts_with (el_tag el @ d # t) ''/''" using alpha_not [OF tag(2)] by (auto simp: starts_with_def tag(1))
    then show ?thesis using stop attrs tag by (simp add: parse_tag_def Let_def del: takeWhile.simps dropWhile.simps)
  qed
  then have "next_tag (CHR ''<'' # el_tag el @ d # t) =
      Some \<lparr>sg_name = ascii_lower (el_tag el), sg_start = CHR ''<'' # el_tag el @ d # t, sg_end = r, sg_kind = TagStart sc (has_outlet_attr s el)\<rparr>"
    using next_tag_start [of c "cs @ d # t"] alpha_not [OF tag(2)] by (simp add: tag(1))
  then show ?thesis by (simp add: opening_text_def ct(1))
qed

lemma next_tag_closing:
  assumes "valid_tag tag"
  shows "next_tag (''</'' @ tag @ ''>'' @ r) =
    Some \<lparr>sg_name = ascii_lower tag, sg_start = ''</'' @ tag @ ''>'' @ r, sg_end = r, sg_kind = TagEnd\<rparr>"
proof -
  obtain c cs where tag: "tag = c # cs" "is_ascii_alpha c" using assms by (auto simp: valid_tag_def split: list.splits)
  have stop: "takeWhile tag_name_char (tag @ CHR ''>'' # r) = tag \<and> dropWhile tag_name_char (tag @ CHR ''>'' # r) = CHR ''>'' # r"
    by (rule tag_name_stop [OF assms]) (simp add: tag_char_def)
  have "scan_attributes False (CHR ''>'' # r) = Some (r, False, False)" by (simp add: scan_attributes.simps html_space_def)
  then have "parse_tag (CHR ''<'' # CHR ''/'' # tag @ CHR ''>'' # r) =
      Some \<lparr>sg_name = ascii_lower tag, sg_start = CHR ''<'' # CHR ''/'' # tag @ CHR ''>'' # r, sg_end = r, sg_kind = TagEnd\<rparr>"
    using stop tag by (simp add: parse_tag_def starts_with_def Let_def del: takeWhile.simps dropWhile.simps)
  then show ?thesis using next_tag_start [of "CHR ''/''" "tag @ CHR ''>'' # r"] by simp
qed

text \<open>The contents of a raw element are skipped up to its own closing tag.\<close>

lemma find_closing:
  assumes "CHR ''<'' \<notin> set (ascii_lower tag)"
  shows "\<not> str_contains (ascii_lower content) (''</'' @ ascii_lower tag) \<Longrightarrow>
    find_ignore_ascii_case (''</'' @ ascii_lower tag) (content @ ''</'' @ tag @ ''>'' @ r) = Some (''</'' @ tag @ ''>'' @ r)"
proof -
  let ?tail = "''</'' @ tag @ ''>'' @ r" and ?needle = "''</'' @ ascii_lower tag"
  have needle: "ascii_lower ?needle = ?needle" by (simp add: ascii_lower_Cons ascii_lower_idem)
  have tail: "ascii_lower ?tail = ?needle @ CHR ''>'' # ascii_lower r" by (simp add: ascii_lower_Cons)
  show "find_ignore_ascii_case ?needle (content @ ?tail) = Some ?tail" if "\<not> str_contains (ascii_lower content) ?needle"
    using that
  proof (induction content)
    case Nil
    have "prefix (ascii_lower ?needle) (ascii_lower ?tail)" unfolding needle tail by simp
    then show ?case by simp
  next
    case (Cons c content)
    have "ascii_lower (c # content @ ?tail) = ascii_lower (c # content) @ CHR ''<'' # CHR ''/'' # ascii_lower (tag @ ''>'' @ r)"
      by (simp add: ascii_lower_Cons)
    moreover have "ascii_lower (c # content) \<noteq> []" by (simp add: ascii_lower_Cons)
    moreover have no: "\<not> prefix ?needle (ascii_lower (c # content))" "\<not> str_contains (ascii_lower content) ?needle"
      using Cons.prems by (simp_all add: ascii_lower_Cons)
    ultimately have "\<not> prefix ?needle (ascii_lower (c # content @ ?tail))"
      using prefix_barrier [of "CHR ''<''" "CHR ''/'' # ascii_lower tag" "tl (ascii_lower (c # content))" "CHR ''/'' # ascii_lower (tag @ ''>'' @ r)"] assms
      by (cases "ascii_lower (c # content)") simp_all
    then have "\<not> prefix (ascii_lower ?needle) (ascii_lower (c # content @ ?tail))" unfolding needle .
    then show ?case using Cons.IH [OF no(2)] by (simp only: append_Cons find_ignore_ascii_case.simps if_False simp_thms)
  qed
qed

subsection \<open>Rendered trees are transparent to the scanner\<close>

lemma render_void: "is_void el \<Longrightarrow> render_element s el = opening_text s el @ ''/>'' @ concat (map (render_node s) (el_children el))"
  by (simp add: render_element_eq opening_text_def)

lemma render_plain: "\<not> is_void el \<Longrightarrow> \<not> is_raw_text_element (el_tag el) \<Longrightarrow>
    render_element s el = opening_text s el @ ''>'' @ concat (map (render_node s) (el_children el)) @ ''</'' @ el_tag el @ ''>''"
  by (simp add: render_element_eq opening_text_def)

lemma render_raw: "is_raw_text_element (el_tag el) \<Longrightarrow>
    render_element s el = opening_text s el @ ''>'' @ raw_text s el @ ''</'' @ el_tag el @ ''>''"
  using void_not_raw [of el] by (auto simp: render_element_eq opening_text_def)

lemma raw_element_scan: "is_raw_text_element tag \<Longrightarrow> is_raw_text (ascii_lower tag)"
  by (auto simp: is_raw_text_element_def is_raw_text_def eq_ignore_ascii_case_def raw_names)

lemma void_not_raw_text: "is_void el \<Longrightarrow> \<not> is_raw_text (ascii_lower (el_tag el))"
proof -
  have "list_all (\<lambda>t. \<not> is_raw_text (ascii_lower t)) void_elements" by code_simp
  then show "is_void el \<Longrightarrow> \<not> is_raw_text (ascii_lower (el_tag el))" by (auto simp: is_void_def list_all_iff)
qed

lemma text_only_render: "text_only s n \<Longrightarrow> CHR ''<'' \<notin> set (render_node s n)"
proof (induction s n rule: text_only.induct)
  case (1 s t)
  then show ?case using escape_html_text_chars by auto
qed (auto simp: list_all_iff)

lemma no_angle_lower: "CHR ''<'' \<notin> set t \<Longrightarrow> CHR ''<'' \<notin> set (ascii_lower t)"
proof (induction t)
  case (Cons c t)
  have "(let k = of_char c :: nat in if 65 \<le> k \<and> k \<le> 90 then char_of (k + 32) else c) \<noteq> CHR ''<''"
    using ascii_lower_eq_char [of "CHR ''<''" c] Cons.prems by auto
  then show ?case using Cons by (simp only: ascii_lower_Cons list.set insert_iff) auto
qed simp

text \<open>What stands between the tags of a raw element hides its end, whoever wrote it.\<close>

definition inner_text :: "'s \<Rightarrow> 's element \<Rightarrow> string" where
  "inner_text s el = (if is_raw_text_element (el_tag el) then raw_text s el else concat (map (render_node s) (el_children el)))"

lemma render_inner: "\<not> is_void el \<Longrightarrow> render_element s el = opening_text s el @ ''>'' @ inner_text s el @ ''</'' @ el_tag el @ ''>''"
  using render_plain [of el s] render_raw [of el s] by (auto simp: inner_text_def)

lemma render_inner_on: "\<not> is_void el \<Longrightarrow> render_element s el @ r = opening_text s el @ ''>'' @ inner_text s el @ ''</'' @ el_tag el @ ''>'' @ r"
  by (simp add: render_inner)

lemma raw_inner:
  assumes "readable s (Element el)" and "is_raw_text (ascii_lower (el_tag el))"
  shows "skip_raw_text (ascii_lower (el_tag el)) (inner_text s el @ ''</'' @ el_tag el @ ''>'' @ r) = ''</'' @ el_tag el @ ''>'' @ r"
proof -
  have tag: "CHR ''<'' \<notin> set (ascii_lower (el_tag el))" using assms(2) by (auto simp: is_raw_text_def)
  have "\<not> str_contains (ascii_lower (inner_text s el)) (''</'' @ ascii_lower (el_tag el))"
  proof (cases "is_raw_text_element (el_tag el)")
    case True
    then show ?thesis using raw_text_escaped(1) [OF True] by (simp add: inner_text_def raw_text_def)
  next
    case False
    then have "CHR ''<'' \<notin> set (inner_text s el)" using assms text_only_render [of s] by (auto simp: inner_text_def list_all_iff)
    then have "CHR ''<'' \<notin> set (ascii_lower (inner_text s el))" by (rule no_angle_lower)
    then show ?thesis using str_contains_set by fastforce
  qed
  then show ?thesis using find_closing [OF tag] by (simp add: skip_raw_text_def)
qed

text \<open>The depth after a tree is the depth before it.\<close>

definition balanced_at :: "string \<Rightarrow> string \<Rightarrow> string \<Rightarrow> bool" where
  "balanced_at name content x \<longleftrightarrow> (\<forall>d r. outlet_extent name content (Suc d) (x @ r) = outlet_extent name content (Suc d) r)"

lemma balanced_at_append: "balanced_at name content x \<Longrightarrow> balanced_at name content y \<Longrightarrow> balanced_at name content (x @ y)"
  by (simp add: balanced_at_def)

lemma balanced_at_concat: "(\<And>x. x \<in> set xs \<Longrightarrow> balanced_at name content x) \<Longrightarrow> balanced_at name content (concat xs)"
  by (induction xs) (simp_all add: balanced_at_append, simp add: balanced_at_def)

lemma extent_cong: "next_tag x = next_tag y \<Longrightarrow> outlet_extent name content d x = outlet_extent name content d y"
  unfolding outlet_extent.simps [of name content d x] outlet_extent.simps [of name content d y] by simp

lemma extent_opening:
  assumes "valid_tag (el_tag el)"
  shows "outlet_extent name content d (opening_text s el @ ''/>'' @ r) = outlet_extent name content d r"
    and "outlet_extent name content d (opening_text s el @ ''>'' @ r) =
      (if ascii_lower (el_tag el) = name then outlet_extent name content (d + 1) r
       else if is_raw_text (ascii_lower (el_tag el)) then outlet_extent name content d (skip_raw_text (ascii_lower (el_tag el)) r)
       else outlet_extent name content d r)"
  using next_tag_opening [OF assms, of "''/>''" True s r] next_tag_opening [OF assms, of "''>''" False s r]
  by (simp_all add: outlet_extent.simps [of name content d "opening_text s el @ _"])

lemma extent_closing:
  assumes "valid_tag tag"
  shows "outlet_extent name content (Suc d) (''</'' @ tag @ ''>'' @ r) =
    (if ascii_lower tag = name then
       (if d = 0 then Some (take (length content - length (''</'' @ tag @ ''>'' @ r)) content) else outlet_extent name content d r)
     else outlet_extent name content (Suc d) r)"
  using next_tag_closing [OF assms, of r] by (subst outlet_extent.simps) simp

lemma element_balanced:
  assumes "readable s (Element el)" and "\<not> is_raw_text name"
    and children: "\<And>n. \<not> is_raw_text (ascii_lower (el_tag el)) \<Longrightarrow> n \<in> set (el_children el) \<Longrightarrow> readable s n \<Longrightarrow> balanced_at name content (render_node s n)"
  shows "balanced_at name content (render_element s el)"
proof -
  have tag: "valid_tag (el_tag el)" using assms(1) by simp
  have inner: "balanced_at name content (concat (map (render_node s) (el_children el)))" if "\<not> is_raw_text (ascii_lower (el_tag el))"
  proof (rule balanced_at_concat)
    fix x
    assume "x \<in> set (map (render_node s) (el_children el))"
    moreover have "list_all (readable s) (el_children el)" using assms(1) that raw_element_scan [of "el_tag el"] by (auto split: if_splits)
    ultimately show "balanced_at name content x" using children [OF that] by (auto simp: list_all_iff)
  qed
  show ?thesis
  proof (cases "is_void el")
    case True
    then show ?thesis using inner [OF void_not_raw_text [OF True]] extent_opening(1) [OF tag, of name content]
      by (simp add: balanced_at_def render_void del: append_Cons)
  next
    case False
    show ?thesis unfolding balanced_at_def
    proof (intro allI)
      fix d r
      have close: "outlet_extent name content (Suc (Suc d)) (''</'' @ el_tag el @ ''>'' @ r) = outlet_extent name content (Suc d) r" if "ascii_lower (el_tag el) = name"
        using extent_closing [OF tag, of name content "Suc d" r] that by (simp del: append_Cons)
      have close': "outlet_extent name content (Suc d) (''</'' @ el_tag el @ ''>'' @ r) = outlet_extent name content (Suc d) r" if "ascii_lower (el_tag el) \<noteq> name"
        using extent_closing [OF tag, of name content d r] that by (simp del: append_Cons)
      show "outlet_extent name content (Suc d) (render_element s el @ r) = outlet_extent name content (Suc d) r"
      proof (cases "is_raw_text (ascii_lower (el_tag el))")
        case True
        then have "ascii_lower (el_tag el) \<noteq> name" using assms(2) by auto
        then show ?thesis
          using extent_opening(2) [OF tag, of name content "Suc d" s "inner_text s el @ ''</'' @ el_tag el @ ''>'' @ r"] True
            raw_inner [OF assms(1) True, of r] close' unfolding render_inner_on [OF False] by (simp del: append_Cons)
      next
        case plain: False
        then have it: "inner_text s el = concat (map (render_node s) (el_children el))" using raw_element_scan [of "el_tag el"] by (auto simp: inner_text_def)
        show ?thesis
          using extent_opening(2) [OF tag, of name content "Suc d" s "inner_text s el @ ''</'' @ el_tag el @ ''>'' @ r"] plain
            inner [OF plain] close close' unfolding render_inner_on [OF False] it balanced_at_def by (simp del: append_Cons)
      qed
    qed
  qed
qed

lemma node_balanced: "readable s n \<Longrightarrow> \<not> is_raw_text name \<Longrightarrow> balanced_at name content (render_node s n)"
proof (induction s n rule: readable.induct)
  case (1 s t)
  have "CHR ''<'' \<notin> set (escape_html_text t)" using escape_html_text_chars by auto
  then show ?case by (auto simp: balanced_at_def intro!: extent_cong next_tag_text)
next
  case (2 s t)
  show ?case using next_tag_comment sanitize_comment_safe [of t]
    by (auto simp: balanced_at_def intro!: extent_cong simp del: append_Cons)
next
  case (3 s nodes)
  then show ?case by (auto simp: list_all_iff intro!: balanced_at_concat)
next
  case (4 s f)
  then show ?case by simp
next
  case (5 s el)
  then show ?case unfolding render_node.simps using raw_element_scan [of "el_tag el"] by (intro element_balanced) auto
qed

subsection \<open>Searching for an element\<close>

text \<open>A search for the elements of a tree with the property \<open>p\<close>, as a test of the tags that are met.\<close>

locale tag_search =
  fixes accept :: "scan_tag \<Rightarrow> bool" and p :: "'s element \<Rightarrow> bool" and s :: 's
  assumes accept_start: "accept \<lparr>sg_name = ascii_lower (el_tag el), sg_start = here, sg_end = r, sg_kind = TagStart sc (has_outlet_attr s el)\<rparr> \<longleftrightarrow> p el"
    and accept_end: "\<not> accept \<lparr>sg_name = name, sg_start = here, sg_end = r, sg_kind = TagEnd\<rparr>"
begin

definition skipped :: "string \<Rightarrow> bool" where
  "skipped x \<longleftrightarrow> (\<forall>r. scan_for accept (x @ r) = scan_for accept r)"

definition found :: "'s element \<Rightarrow> string \<Rightarrow> bool" where
  "found el x \<longleftrightarrow> readable s (Element el) \<and> p el \<and> (\<forall>r. \<exists>t r'. scan_for accept (x @ r) = Some t \<and> sg_name t = ascii_lower (el_tag el) \<and>
     sg_kind t = TagStart (is_void el) (has_outlet_attr s el) \<and>
     (\<not> is_void el \<longrightarrow> sg_end t = inner_text s el @ ''</'' @ el_tag el @ ''>'' @ r'))"

lemma skipped_append: "skipped x \<Longrightarrow> skipped y \<Longrightarrow> skipped (x @ y)"
  by (simp add: skipped_def)

lemma found_skip: "skipped x \<Longrightarrow> found el y \<Longrightarrow> found el (x @ y)"
  by (simp add: skipped_def found_def)

lemma found_more: "found el x \<Longrightarrow> found el (x @ y)"
  by (simp add: found_def)

lemma scan_cong: "next_tag x = next_tag y \<Longrightarrow> scan_for accept x = scan_for accept y"
  unfolding scan_for.simps [of accept x] scan_for.simps [of accept y] by simp

lemma scan_opening:
  assumes "valid_tag (el_tag el)" and "e = (if sc then ''/>'' else ''>'')" and "\<not> p el"
  shows "scan_for accept (opening_text s el @ e @ r) =
    scan_for accept (if \<not> sc \<and> is_raw_text (ascii_lower (el_tag el)) then skip_raw_text (ascii_lower (el_tag el)) r else r)"
  using next_tag_opening [OF assms(1,2), of s r] assms(3)
  by (subst scan_for.simps) (simp add: accept_start after_tag_def)

lemma scan_closing: "valid_tag tag \<Longrightarrow> scan_for accept (''</'' @ tag @ ''>'' @ r) = scan_for accept r"
  using next_tag_closing [of tag r] by (subst scan_for.simps) (simp add: accept_end after_tag_def)

text \<open>What a tree of a concatenation yields.\<close>

definition yields :: "'s element list \<Rightarrow> string \<Rightarrow> bool" where
  "yields es x \<longleftrightarrow> (case es of [] \<Rightarrow> skipped x | el # _ \<Rightarrow> found el x)"

lemma yields_append: "yields es x \<Longrightarrow> yields fs y \<Longrightarrow> yields (es @ fs) (x @ y)"
  by (cases es) (auto simp: yields_def skipped_append found_skip found_more split: list.splits)

lemma yields_concat: "(\<And>n. n \<in> set ns \<Longrightarrow> yields (f n) (g n)) \<Longrightarrow> yields (concat (map f ns)) (concat (map g ns))"
proof (induction ns)
  case Nil
  show ?case by (simp add: yields_def skipped_def)
next
  case (Cons n ns)
  have "yields (concat (map f ns)) (concat (map g ns))" by (rule Cons.IH) (simp add: Cons.prems)
  then show ?case using yields_append [OF Cons.prems [of n]] by simp
qed

lemma element_found:
  assumes "readable s (Element el)" and "p el"
  shows "found el (render_element s el)"
proof -
  have tag: "valid_tag (el_tag el)" using assms(1) by simp
  have "\<exists>t r'. scan_for accept (render_element s el @ r) = Some t \<and> sg_name t = ascii_lower (el_tag el) \<and>
      sg_kind t = TagStart (is_void el) (has_outlet_attr s el) \<and>
      (\<not> is_void el \<longrightarrow> sg_end t = inner_text s el @ ''</'' @ el_tag el @ ''>'' @ r')" for r
  proof (cases "is_void el")
    case True
    have "next_tag (render_element s el @ r) = next_tag (opening_text s el @ ''/>'' @ concat (map (render_node s) (el_children el)) @ r)"
      by (simp add: render_void [OF True])
    then show ?thesis using True assms(2) next_tag_opening [OF tag, of "''/>''" True s "concat (map (render_node s) (el_children el)) @ r"]
      by (subst scan_for.simps) (simp add: accept_start)
  next
    case False
    show ?thesis unfolding render_inner_on [OF False]
      using False assms(2) next_tag_opening [OF tag, of "''>''" False s "inner_text s el @ ''</'' @ el_tag el @ ''>'' @ r"]
      by (subst scan_for.simps) (auto simp: accept_start)
  qed
  then show ?thesis using assms by (simp add: found_def)
qed

lemma element_yields:
  assumes "readable s (Element el)"
    and children: "\<And>n. \<not> is_raw_text (ascii_lower (el_tag el)) \<Longrightarrow> n \<in> set (el_children el) \<Longrightarrow> readable s n \<Longrightarrow>
      yields (elements p s n) (render_node s n)"
  shows "yields (elements p s (Element el)) (render_element s el)"
proof (cases "p el")
  case True
  then show ?thesis using element_found [OF assms(1) True] by (simp add: yields_def)
next
  case no: False
  have tag: "valid_tag (el_tag el)" using assms(1) by simp
  let ?body = "concat (map (render_node s) (el_children el))" and ?es = "concat (map (elements p s) (el_children el))"
  have inner: "yields ?es ?body" if plain: "\<not> is_raw_text (ascii_lower (el_tag el))"
  proof (rule yields_concat)
    fix n
    assume n: "n \<in> set (el_children el)"
    have "list_all (readable s) (el_children el)" using assms(1) plain raw_element_scan [of "el_tag el"] by (auto split: if_splits)
    then show "yields (elements p s n) (render_node s n)" using children [OF plain n] n by (simp add: list_all_iff)
  qed
  have skip_open: "skipped (opening_text s el @ e)" if "\<not> is_raw_text (ascii_lower (el_tag el))" "e \<in> {''>'', ''/>''}" for e
    using scan_opening [OF tag _ no, of e "e = ''/>''"] that by (auto simp: skipped_def)
  have skip_close: "skipped (''</'' @ el_tag el @ ''>'')" using scan_closing [OF tag] by (simp add: skipped_def)
  have none: "yields [] x \<longleftrightarrow> skipped x" for x by (simp add: yields_def)
  show ?thesis
  proof (cases "is_raw_text (ascii_lower (el_tag el))")
    case True
    then have nv: "\<not> is_void el" using void_not_raw_text by blast
    have "scan_for accept (render_element s el @ r) = scan_for accept r" for r
      unfolding render_inner_on [OF nv]
      using scan_opening [OF tag _ no, of "''>''" False "inner_text s el @ ''</'' @ el_tag el @ ''>'' @ r"] True
        raw_inner [OF assms(1) True, of r] scan_closing [OF tag, of r] by (simp del: append_Cons)
    then show ?thesis using no True by (simp add: none skipped_def)
  next
    case plain: False
    have "yields ?es ((opening_text s el @ e) @ ?body)" if "e \<in> {''>'', ''/>''}" for e
      using yields_append [of "[]" "opening_text s el @ e" ?es ?body] inner [OF plain] skip_open [OF plain that] none by simp
    note a = this
    show ?thesis
    proof (cases "is_void el")
      case True
      then show ?thesis using a [of "''/>''"] no plain by (simp add: render_void)
    next
      case False
      have "yields (?es @ []) (((opening_text s el @ ''>'') @ ?body) @ ''</'' @ el_tag el @ ''>'')"
        using a [of "''>''"] skip_close none by (intro yields_append) simp_all
      then show ?thesis using no plain False render_inner [OF False, of s] raw_element_scan [of "el_tag el"] by (auto simp: inner_text_def)
    qed
  qed
qed

lemma tree_yields: "readable s n \<Longrightarrow> yields (elements p s n) (render_node s n)"
proof (induction n rule: wf_induct_rule [OF wf_part_rel])
  case (1 n)
  show ?case
  proof (cases n)
    case (Text t)
    have "CHR ''<'' \<notin> set (escape_html_text t)" using escape_html_text_chars by auto
    then show ?thesis by (auto simp: Text yields_def skipped_def intro!: scan_cong next_tag_text)
  next
    case (Comment t)
    then show ?thesis using next_tag_comment sanitize_comment_safe [of t]
      by (auto simp: yields_def skipped_def intro!: scan_cong simp del: append_Cons)
  next
    case (Fragment nodes)
    show ?thesis unfolding Fragment render_node.simps elements.simps
      by (rule yields_concat) (use 1 in \<open>auto simp: Fragment list_all_iff\<close>)
  next
    case (Dynamic f)
    then show ?thesis using 1 by simp
  next
    case (Element el)
    have "readable s (Element el)" using "1.prems" by (simp only: Element)
    then show ?thesis unfolding Element render_node.simps
      by (rule element_yields) (use "1.IH" in \<open>simp add: Element\<close>)
  qed
qed

lemma nothing_found: "readable s n \<Longrightarrow> elements p s n = [] \<Longrightarrow> scan_for accept (render_node s n) = None"
  using tree_yields [of n] by (simp add: yields_def skipped_def) (metis append_Nil2 next_tag_Nil option.simps(4) scan_for.simps)

lemma first_found: "readable s n \<Longrightarrow> elements p s n = el # es \<Longrightarrow> found el (render_node s n)"
  using tree_yields [of n] by (simp add: yields_def)

end

interpretation outlets: tag_search is_outlet_tag "has_outlet_attr s" s for s :: 's
  by unfold_locales (simp_all add: is_outlet_tag_def)

interpretation titles: tag_search is_title_tag "\<lambda>el. ascii_lower (el_tag el) = ''title''" s for s :: 's
  by unfold_locales (simp_all add: is_title_tag_def)

text \<open>Entities: decoding undoes what the renderer escaped.\<close>

lemma decode_plain: "CHR ''&'' \<notin> set a \<Longrightarrow> decode_html_entities (a @ r) = a @ decode_html_entities r"
proof -
  assume a: "CHR ''&'' \<notin> set a"
  show ?thesis
  proof (cases "split_once (CHR ''&'') r")
    case None
    then have "split_once (CHR ''&'') (a @ r) = None" using a by (simp add: split_once_None)
    then show ?thesis using None by (simp add: decode_html_entities.simps [of "a @ r"] decode_html_entities.simps [of r])
  next
    case (Some x)
    then obtain b c where x: "x = (b, c)" "split_once (CHR ''&'') r = Some (b, c)" by (cases x) auto
    then have "split_once (CHR ''&'') (a @ r) = Some (a @ b, c)" using a by (simp add: split_once_Some)
    then show ?thesis using x by (simp add: decode_html_entities.simps [of "a @ r"] decode_html_entities.simps [of r])
  qed
qed

lemma decode_text_ref: "decode_html_entities (text_ref c @ r) = c # decode_html_entities r"
proof -
  have ref: "decode_html_entities (CHR ''&'' # name @ CHR '';'' # r) = d @ decode_html_entities r"
    if "decode_entity name = Some d" "CHR '';'' \<notin> set name" "length name \<le> 8" for name d
  proof -
    have "split_once (CHR '';'') (name @ CHR '';'' # r) = Some (name, r)" using that(2) by (simp add: split_once_Some)
    then show ?thesis using that by (simp add: decode_html_entities.simps [of "CHR ''&'' # name @ CHR '';'' # r"])
  qed
  show ?thesis
    using ref [of "''amp''" "''&''"] ref [of "''lt''" "''<''"] ref [of "''gt''" "''>''"] decode_plain [of "[c]" r]
    by (auto simp: text_ref_def decode_entity_def)
qed

lemma decode_escaped: "decode_html_entities (escape_html_text t) = t"
proof (induction t)
  case Nil
  show ?case by (simp add: escape_html_text_refs decode_html_entities.simps)
next
  case (Cons c t)
  then show ?case using decode_text_ref [of c "escape_html_text t"] by (simp add: escape_html_text_refs)
qed

text \<open>Text as the reader sees it: of the text nodes, in order.\<close>

function node_text :: "'s \<Rightarrow> 's node \<Rightarrow> string" where
  "node_text s (Text t) = t"
| "node_text s (Comment t) = []"
| "node_text s (Fragment nodes) = concat (map (node_text s) nodes)"
| "node_text s (Dynamic f) = node_text s (f s)"
| "node_text s (Element el) = concat (map (node_text s) (el_children el))"
  by pat_completeness auto

termination
  by (relation "inv_image part_rel snd") auto

lemma escape_append: "escape_html_text (a @ b) = escape_html_text a @ escape_html_text b"
  by (simp add: escape_html_text_refs)

lemma escape_concat: "concat (map (\<lambda>n. escape_html_text (f n)) ns) = escape_html_text (concat (map f ns))"
  by (induction ns) (simp_all add: escape_append, simp add: escape_html_text_refs)

lemma text_only_text: "text_only s n \<Longrightarrow> render_node s n = escape_html_text (node_text s n)"
proof (induction s n rule: text_only.induct)
  case (3 s nodes)
  then have "map (render_node s) nodes = map (\<lambda>n. escape_html_text (node_text s n)) nodes" by (auto simp: list_all_iff)
  then show ?case by (simp only: render_node.simps node_text.simps escape_concat)
qed auto

lemma dropWhile_refs:
  assumes "\<And>c. is_ws c \<Longrightarrow> g c = [c]" and "\<And>c. \<not> is_ws c \<Longrightarrow> g c \<noteq> [] \<and> \<not> is_ws (hd (g c))"
  shows "dropWhile is_ws (concat (map g t)) = concat (map g (dropWhile is_ws t))"
proof (induction t)
  case (Cons c t)
  show ?case
  proof (cases "is_ws c")
    case False
    then obtain x y where "g c = x # y" "\<not> is_ws x" using assms(2) [of c] by (cases "g c") auto
    then show ?thesis using False by simp
  qed (use assms(1) [of c] Cons in simp)
qed simp

lemma trim_escaped: "trim (escape_html_text t) = escape_html_text (trim t)"
proof -
  have ref: "is_ws c \<Longrightarrow> text_ref c = [c]" "\<not> is_ws c \<Longrightarrow> text_ref c \<noteq> [] \<and> \<not> is_ws (hd (text_ref c)) \<and> \<not> is_ws (last (text_ref c))" for c
    by (auto simp: text_ref_def is_ws_def)
  have start: "dropWhile is_ws (escape_html_text u) = escape_html_text (dropWhile is_ws u)" for u
    unfolding escape_html_text_refs by (rule dropWhile_refs) (use ref in auto)
  have rev: "rev (escape_html_text u) = concat (map (\<lambda>c. rev (text_ref c)) (rev u))" for u
    by (induction u) (simp_all add: escape_html_text_refs)
  have "dropWhile is_ws (rev (escape_html_text u)) = rev (escape_html_text (rev (dropWhile is_ws (rev u))))" for u
    unfolding rev rev_rev_ident by (rule dropWhile_refs) (use ref in \<open>auto simp: hd_rev\<close>)
  then show ?thesis using start by (simp add: trim_def trim_start_def trim_end_def)
qed

text \<open>
  C32: the router reads from a page what the server put there. For every page the server renders (tags that are
  names; \<open>title\<close> and \<open>textarea\<close> holding text), the scanner that runs over the fetched markup finds an outlet exactly
  if an element of the tree carries the marker as an attribute, and then its contents, the first such element's
  in document order, are cut out exactly: no text, comment, script, attribute value or nested element of the
  same name makes the scanner miss the outlet, find another one, or end it too early or too late. And the title it
  announces is the text of the first title, as it was before escaping.
\<close>

theorem router_reads_the_rendered_page:
  assumes "readable s page" and "list_all (\<lambda>el. \<not> is_raw_text (ascii_lower (el_tag el))) (elements (has_outlet_attr s) s page)"
  shows "extract_outlet_html (render_node s page) =
      (case elements (has_outlet_attr s) s page of
         [] \<Rightarrow> None
       | el # _ \<Rightarrow> Some (if is_void el then [] else concat (map (render_node s) (el_children el)))) \<and>
    extract_title (render_node s page) =
      (case elements (\<lambda>el. ascii_lower (el_tag el) = ''title'') s page of
         [] \<Rightarrow> None
       | el # _ \<Rightarrow> Some (trim (node_text s (Element el))))"
proof
  show "extract_outlet_html (render_node s page) =
      (case elements (has_outlet_attr s) s page of
         [] \<Rightarrow> None
       | el # _ \<Rightarrow> Some (if is_void el then [] else concat (map (render_node s) (el_children el))))"
  proof (cases "elements (has_outlet_attr s) s page")
    case Nil
    then show ?thesis using outlets.nothing_found [OF assms(1) Nil] by (simp add: extract_outlet_html_def)
  next
    case (Cons el es)
    then have plain: "\<not> is_raw_text (ascii_lower (el_tag el))" using assms(2) by simp
    have f: "readable s (Element el)" "\<exists>t r'. scan_for is_outlet_tag (render_node s page) = Some t \<and> sg_name t = ascii_lower (el_tag el) \<and>
        sg_kind t = TagStart (is_void el) (has_outlet_attr s el) \<and>
        (\<not> is_void el \<longrightarrow> sg_end t = inner_text s el @ ''</'' @ el_tag el @ ''>'' @ r')"
      using outlets.first_found [OF assms(1) Cons] unfolding outlets.found_def by (simp, metis append_Nil2)
    then obtain t r' where t: "scan_for is_outlet_tag (render_node s page) = Some t" "sg_name t = ascii_lower (el_tag el)"
      "sg_kind t = TagStart (is_void el) (has_outlet_attr s el)" "\<not> is_void el \<longrightarrow> sg_end t = inner_text s el @ ''</'' @ el_tag el @ ''>'' @ r'" by blast
    show ?thesis
    proof (cases "is_void el")
      case True
      then show ?thesis using t by (simp add: extract_outlet_html_def Cons)
    next
      case False
      let ?tail = "''</'' @ el_tag el @ ''>'' @ r'" and ?name = "ascii_lower (el_tag el)"
      have inner: "inner_text s el = concat (map (render_node s) (el_children el))"
        using plain raw_element_scan [of "el_tag el"] by (auto simp: inner_text_def)
      have "balanced_at ?name (inner_text s el @ ?tail) (inner_text s el)" unfolding inner
      proof (rule balanced_at_concat)
        fix x
        assume "x \<in> set (map (render_node s) (el_children el))"
        then obtain n where n: "x = render_node s n" "n \<in> set (el_children el)" by auto
        have "list_all (readable s) (el_children el)" using f(1) plain raw_element_scan [of "el_tag el"] by (auto split: if_splits)
        then have "readable s n" using n(2) by (simp add: list_all_iff)
        then show "balanced_at ?name (concat (map (render_node s) (el_children el)) @ ?tail) x" unfolding n(1) by (rule node_balanced [OF _ plain])
      qed
      then have "outlet_extent ?name (inner_text s el @ ?tail) (Suc 0) (inner_text s el @ ?tail) = Some (inner_text s el)"
        using extent_closing [of "el_tag el" ?name "inner_text s el @ ?tail" 0 r'] f(1) by (simp add: balanced_at_def del: append_Cons)
      then show ?thesis using t False by (simp add: extract_outlet_html_def Cons inner)
    qed
  qed
  show "extract_title (render_node s page) =
      (case elements (\<lambda>el. ascii_lower (el_tag el) = ''title'') s page of
         [] \<Rightarrow> None
       | el # _ \<Rightarrow> Some (trim (node_text s (Element el))))"
  proof (cases "elements (\<lambda>el. ascii_lower (el_tag el) = ''title'') s page")
    case Nil
    then show ?thesis using titles.nothing_found [OF assms(1) Nil] by (simp add: extract_title_def)
  next
    case (Cons el es)
    have f: "readable s (Element el)" "ascii_lower (el_tag el) = ''title''"
      "\<exists>t r'. scan_for is_title_tag (render_node s page) = Some t \<and>
        (\<not> is_void el \<longrightarrow> sg_end t = inner_text s el @ ''</'' @ el_tag el @ ''>'' @ r')"
      using titles.first_found [OF assms(1) Cons] unfolding titles.found_def by (simp, simp, metis append_Nil2)
    have kind: "\<not> is_raw_text_element (el_tag el)" "\<not> is_void el"
      using f(2) void_not_raw_text [of el] by (auto simp: is_raw_text_element_def eq_ignore_ascii_case_def raw_names is_raw_text_def)
    then obtain t r' where t: "scan_for is_title_tag (render_node s page) = Some t" "sg_end t = inner_text s el @ ''</'' @ el_tag el @ ''>'' @ r'"
      using f(3) by blast
    have only: "list_all (text_only s) (el_children el)" using f(1,2) kind by (simp add: is_raw_text_def)
    then have eq: "map (render_node s) (el_children el) = map (\<lambda>n. escape_html_text (node_text s n)) (el_children el)"
      by (intro map_cong refl text_only_text) (use only in \<open>simp add: list_all_iff\<close>)
    have inner: "inner_text s el = escape_html_text (node_text s (Element el))"
      using kind by (simp only: inner_text_def if_False eq escape_concat node_text.simps)
    have "CHR ''<'' \<notin> set (inner_text s el)" unfolding inner using escape_html_text_chars by auto
    then have "CHR ''<'' \<notin> set (ascii_lower (inner_text s el))" by (rule no_angle_lower)
    then have "\<not> str_contains (ascii_lower (inner_text s el)) (''</'' @ ascii_lower (el_tag el))" using str_contains_set by fastforce
    from find_closing [OF _ this, of r'] have "find_ignore_ascii_case ''</title'' (sg_end t) = Some (''</'' @ el_tag el @ ''>'' @ r')"
      using f(2) by (simp add: t(2))
    then show ?thesis
      by (simp add: extract_title_def t Cons inner trim_escaped decode_escaped del: node_text.simps)
  qed
qed

definition sample_page :: "unit node" where
  "sample_page =
     Element (MkElement ''html'' []
       [Element (MkElement ''title'' [] [Text ''Q & A''] []),
        Element (MkElement ''p'' [attribute_new ''title'' OUTLET_ATTR] [Comment ''<main data-krab-router-outlet>''] []),
        Element (MkElement ''main'' [attribute_new OUTLET_ATTR []]
          [Text ''a'', Element (MkElement ''main'' [] [Text ''b''] []), Element (MkElement ''script'' [] [Text ''</main>''] [])] [])] [])"

lemma router_reads_the_rendered_page_witness:
  "extract_outlet_html (render_node () sample_page) = Some ''a<main>b</main><script></main></script>'' \<and>
   extract_title (render_node () sample_page) = Some ''Q & A''"
proof -
  let ?outlet = "MkElement ''main'' [attribute_new OUTLET_ATTR []]
    [Text ''a'', Element (MkElement ''main'' [] [Text ''b''] []), Element (MkElement ''script'' [] [Text ''</main>''] [])] [] :: unit element"
  have "readable () sample_page" by code_simp
  moreover have "list_all (\<lambda>el. \<not> is_raw_text (ascii_lower (el_tag el))) (elements (has_outlet_attr ()) () sample_page)" by code_simp
  moreover have "elements (has_outlet_attr ()) () sample_page = [?outlet]" by code_simp
  moreover have "elements (\<lambda>el. ascii_lower (el_tag el) = ''title'') () sample_page = [MkElement ''title'' [] [Text ''Q & A''] []]" by code_simp
  moreover have "\<not> is_void ?outlet" "concat (map (render_node ()) (el_children ?outlet)) = ''a<main>b</main><script></main></script>''" by code_simp+
  moreover have "trim (node_text () (Element (MkElement ''title'' [] [Text ''Q & A''] []))) = ''Q & A''" by code_simp
  ultimately show ?thesis using router_reads_the_rendered_page [of "()" sample_page] by simp
qed

end
