(* ===== verification/Navigation.thy ===== *)
theory Navigation
  imports OutletScan
begin

text \<open>
  Client-side navigation (\<open>krab_client/src/router.rs\<close>): which clicks are taken over, and the life of a
  navigation from the click, over the fetch, to the swap of the outlet and the history entry. The browser is
  state of the model: the session history, the outlet element, the scroll position. What it decides by itself is
  a parameter: which URLs \<open>pushState\<close> accepts, where a fragment's element is. Scroll coordinates are only stored
  and restored.
\<close>

subsection \<open>Clicks\<close>

record link_click =
  lc_href :: string
  lc_link_origin :: string
  lc_document_origin :: string
  lc_target :: "string option"
  lc_has_download :: bool
  lc_opted_out :: bool
  lc_button :: int
  lc_modifier_held :: bool
  lc_default_prevented :: bool

definition should_intercept :: "link_click \<Rightarrow> bool" where
  "should_intercept c =
     (if lc_default_prevented c \<or> lc_opted_out c \<or> lc_has_download c then False
      else if lc_button c \<noteq> 0 \<or> lc_modifier_held c then False
      else if (case lc_target c of Some t \<Rightarrow> t \<noteq> [] \<and> t \<noteq> ''_self'' | None \<Rightarrow> False) then False
      else if lc_link_origin c \<noteq> lc_document_origin c then False
      else if starts_with (lc_href c) ''#'' then False
      else True)"

definition strip_fragment :: "string \<Rightarrow> string" where
  "strip_fragment url = (case split_once (CHR ''#'') url of Some (base, _) \<Rightarrow> base | None \<Rightarrow> url)"

definition is_same_document_fragment :: "string \<Rightarrow> string \<Rightarrow> bool" where
  "is_same_document_fragment current next_url = (strip_fragment current = strip_fragment next_url \<and> CHR ''#'' \<in> set next_url)"

datatype fragment_target = FragmentTop | FragmentElement string

definition fragment_target_of :: "string \<Rightarrow> fragment_target option" where
  "fragment_target_of url =
     (case split_once (CHR ''#'') url of
        None \<Rightarrow> None
      | Some (_, fragment) \<Rightarrow>
          if fragment = [] \<or> eq_ignore_ascii_case fragment ''top'' then Some FragmentTop else Some (FragmentElement fragment))"

subsection \<open>The browser\<close>

type_synonym position = "int \<times> int"

record history_entry =
  he_url :: string
  he_scroll :: "position option"

record fetched_document =
  fd_html :: string
  fd_final_url :: "string option"

text \<open>
  \<open>nv_outlet\<close> is the contents of the outlet element, if the document has one; \<open>nv_hydrated\<close> the contents whose
  islands are mounted; \<open>nv_unloaded\<close> the URL of a full page load, which ends the life of this document. A
  flight is a navigation that waits for its document.
\<close>

record flight =
  fl_generation :: u64
  fl_href :: string
  fl_push :: bool

record navigator =
  nv_generation :: u64
  nv_rendered_url :: "string option"
  nv_flights :: "(nat \<times> flight) list"
  nv_issued :: nat
  nv_outlet :: "string option"
  nv_hydrated :: "string option"
  nv_title :: string
  nv_announced :: "string option"
  nv_entries :: "history_entry list"
  nv_at :: nat
  nv_scroll :: position
  nv_unloaded :: "string option"

text \<open>What the browser answers: whether \<open>pushState\<close> takes a URL, the element of a name, percent-decoding.\<close>

record browser =
  br_push_ok :: "string \<Rightarrow> bool"
  br_element :: "string option \<Rightarrow> string \<Rightarrow> position option"
  br_decode :: "string \<Rightarrow> string option"

definition current_href :: "navigator \<Rightarrow> string" where
  "current_href v = he_url (nv_entries v ! nv_at v)"

definition rendered_url :: "navigator \<Rightarrow> string" where
  "rendered_url v = (case nv_rendered_url v of Some u \<Rightarrow> u | None \<Rightarrow> current_href v)"

definition set_rendered_url :: "string \<Rightarrow> navigator \<Rightarrow> navigator" where
  "set_rendered_url u v = v\<lparr>nv_rendered_url := Some u\<rparr>"

definition begin_navigation :: "navigator \<Rightarrow> u64 \<times> navigator" where
  "begin_navigation v = (let n = nv_generation v + 1 in (n, v\<lparr>nv_generation := n\<rparr>))"

definition is_current :: "u64 \<Rightarrow> navigator \<Rightarrow> bool" where
  "is_current generation v = (nv_generation v = generation)"

definition hard_navigate :: "string \<Rightarrow> navigator \<Rightarrow> navigator" where
  "hard_navigate href v = v\<lparr>nv_unloaded := Some href\<rparr>"

definition push_entry :: "string \<Rightarrow> navigator \<Rightarrow> navigator" where
  "push_entry url v =
     v\<lparr>nv_entries := take (Suc (nv_at v)) (nv_entries v) @ [\<lparr>he_url = url, he_scroll = None\<rparr>], nv_at := Suc (nv_at v)\<rparr>"

definition push_history :: "browser \<Rightarrow> string \<Rightarrow> string \<Rightarrow> navigator \<Rightarrow> navigator" where
  "push_history br url requested v =
     (if br_push_ok br url then push_entry url v
      else if br_push_ok br requested then push_entry requested v
      else v)"

definition remember_scroll :: "navigator \<Rightarrow> navigator" where
  "remember_scroll v = v\<lparr>nv_entries := (nv_entries v)[nv_at v := (nv_entries v ! nv_at v)\<lparr>he_scroll := Some (nv_scroll v)\<rparr>]\<rparr>"

definition saved_scroll :: "navigator \<Rightarrow> position option" where
  "saved_scroll v = he_scroll (nv_entries v ! nv_at v)"

definition fragment_element :: "browser \<Rightarrow> navigator \<Rightarrow> string \<Rightarrow> position option" where
  "fragment_element br v raw =
     (case br_element br (nv_outlet v) raw of
        Some p \<Rightarrow> Some p
      | None \<Rightarrow> (case br_decode br raw of Some name \<Rightarrow> br_element br (nv_outlet v) name | None \<Rightarrow> None))"

definition scroll_to_fragment :: "browser \<Rightarrow> string \<Rightarrow> navigator \<Rightarrow> bool \<times> navigator" where
  "scroll_to_fragment br href v =
     (case fragment_target_of href of
        None \<Rightarrow> (False, v)
      | Some FragmentTop \<Rightarrow>
          let raw = (case split_once (CHR ''#'') href of Some (_, fragment) \<Rightarrow> fragment | None \<Rightarrow> [])
          in (case (if raw \<noteq> [] then fragment_element br v raw else None) of
                Some p \<Rightarrow> (True, v\<lparr>nv_scroll := p\<rparr>)
              | None \<Rightarrow> (True, v\<lparr>nv_scroll := (0, 0)\<rparr>))
      | Some (FragmentElement raw) \<Rightarrow>
          (case fragment_element br v raw of Some p \<Rightarrow> (True, v\<lparr>nv_scroll := p\<rparr>) | None \<Rightarrow> (False, v)))"

subsection \<open>A navigation\<close>

text \<open>\<open>navigate_to\<close> up to the fetch.\<close>

definition fragment_navigation :: "browser \<Rightarrow> string \<Rightarrow> bool \<Rightarrow> navigator \<Rightarrow> navigator" where
  "fragment_navigation br href push v =
     (let v = set_rendered_url href v
      in if push then snd (scroll_to_fragment br href (push_history br href href (remember_scroll v)))
         else (case saved_scroll v of
                 Some p \<Rightarrow> v\<lparr>nv_scroll := p\<rparr>
               | None \<Rightarrow> snd (scroll_to_fragment br href v)))"

definition navigate_to :: "browser \<Rightarrow> string \<Rightarrow> bool \<Rightarrow> navigator \<Rightarrow> navigator" where
  "navigate_to br href push v =
     (if is_same_document_fragment (rendered_url v) href then fragment_navigation br href push v
      else if nv_outlet v = None then hard_navigate href v
      else (case begin_navigation v of
              (generation, v') \<Rightarrow>
                v'\<lparr>nv_flights := nv_flights v' @ [(nv_issued v', \<lparr>fl_generation = generation, fl_href = href, fl_push = push\<rparr>)],
                   nv_issued := Suc (nv_issued v')\<rparr>))"

text \<open>From the fetched document on, for the navigation that is still the newest.\<close>

definition swap_outlet :: "browser \<Rightarrow> string \<Rightarrow> bool \<Rightarrow> fetched_document \<Rightarrow> string \<Rightarrow> navigator \<Rightarrow> navigator" where
  "swap_outlet br href push fetched next_html v =
     (let final_url = (case fd_final_url fetched of Some u \<Rightarrow> u | None \<Rightarrow> href);
          title = extract_title (fd_html fetched);
          v = (if push then remember_scroll v else v);
          v = v\<lparr>nv_hydrated := None, nv_outlet := Some next_html\<rparr>;
          v = set_rendered_url final_url v;
          v = (case title of Some t \<Rightarrow> v\<lparr>nv_title := t\<rparr> | None \<Rightarrow> v);
          v = (if push then push_history br final_url href v else v);
          v = v\<lparr>nv_hydrated := nv_outlet v, nv_announced := Some (case title of Some t \<Rightarrow> t | None \<Rightarrow> href)\<rparr>
      in if push then
           (case scroll_to_fragment br href v of (there, v) \<Rightarrow> if there then v else v\<lparr>nv_scroll := (0, 0)\<rparr>)
         else (case saved_scroll v of Some p \<Rightarrow> v\<lparr>nv_scroll := p\<rparr> | None \<Rightarrow> v))"

definition finish_navigation :: "browser \<Rightarrow> nat \<Rightarrow> fetched_document option \<Rightarrow> navigator \<Rightarrow> navigator" where
  "finish_navigation br k response v =
     (case map_of (nv_flights v) k of
        None \<Rightarrow> v
      | Some fl \<Rightarrow>
          let v = v\<lparr>nv_flights := filter (\<lambda>(j, _). j \<noteq> k) (nv_flights v)\<rparr>; href = fl_href fl
          in (case response of
                None \<Rightarrow> if is_current (fl_generation fl) v then hard_navigate href v else v
              | Some fetched \<Rightarrow>
                  if \<not> is_current (fl_generation fl) v then v
                  else (case extract_outlet_html (fd_html fetched) of
                          None \<Rightarrow> hard_navigate href v
                        | Some next_html \<Rightarrow>
                            if nv_outlet v = None then hard_navigate href v
                            else swap_outlet br href (fl_push fl) fetched next_html v)))"

subsection \<open>What happens to a document\<close>

text \<open>
  A click, a step through the history (the browser moves first, then fires \<open>popstate\<close>), the answer to a
  fetch, scrolling by the user. A document that was left is not touched again.
\<close>

datatype nav_event = Click link_click | Traverse nat | Answer nat "fetched_document option" | UserScroll position

fun nav_step :: "browser \<Rightarrow> navigator \<Rightarrow> nav_event \<Rightarrow> navigator" where
  "nav_step br v (Click c) =
     (if nv_unloaded v \<noteq> None then v else if should_intercept c then navigate_to br (lc_href c) True v else v)"
| "nav_step br v (Traverse i) =
     (if nv_unloaded v \<noteq> None \<or> length (nv_entries v) \<le> i then v
      else let v = v\<lparr>nv_at := i\<rparr> in navigate_to br (current_href v) False v)"
| "nav_step br v (Answer k response) = (if nv_unloaded v \<noteq> None then v else finish_navigation br k response v)"
| "nav_step br v (UserScroll p) = (if nv_unloaded v \<noteq> None then v else v\<lparr>nv_scroll := p\<rparr>)"

definition nav_run :: "browser \<Rightarrow> navigator \<Rightarrow> nav_event list \<Rightarrow> navigator" where
  "nav_run br v es = foldl (nav_step br) v es"

text \<open>A document that has just been loaded, at its place in the session history.\<close>

definition document_start :: "history_entry list \<Rightarrow> nat \<Rightarrow> string option \<Rightarrow> navigator" where
  "document_start entries i outlet =
     \<lparr>nv_generation = 0, nv_rendered_url = None, nv_flights = [], nv_issued = 0, nv_outlet = outlet, nv_hydrated = outlet, nv_title = [],
      nv_announced = None, nv_entries = entries, nv_at = i, nv_scroll = (0, 0), nv_unloaded = None\<rparr>"

text \<open>The navigation an event starts: its destination, whether it pushes, and the state it starts in.\<close>

definition taken :: "navigator \<Rightarrow> nav_event \<Rightarrow> (string \<times> bool \<times> navigator) option" where
  "taken v e =
     (case e of
        Click c \<Rightarrow> if should_intercept c then Some (lc_href c, True, v) else None
      | Traverse i \<Rightarrow> if i < length (nv_entries v) then (let v' = v\<lparr>nv_at := i\<rparr> in Some (current_href v', False, v')) else None
      | _ \<Rightarrow> None)"

lemma nav_step_taken: "nv_unloaded v = None \<Longrightarrow> taken v e = Some (href, push, u) \<Longrightarrow> nav_step br v e = navigate_to br href push u"
  by (cases e) (auto simp: taken_def Let_def split: if_splits)

definition is_answer :: "nav_event \<Rightarrow> bool" where
  "is_answer e = (case e of Answer _ _ \<Rightarrow> True | _ \<Rightarrow> False)"

fun first_answer :: "nat \<Rightarrow> nav_event list \<Rightarrow> fetched_document option option" where
  "first_answer k [] = None"
| "first_answer k (Answer j r # es) = (if j = k then Some r else first_answer k es)"
| "first_answer k (e # es) = first_answer k es"

subsection \<open>Flights do not disturb each other\<close>

lemma flights_simps [simp]:
  "nv_flights (set_rendered_url u v) = nv_flights v" "nv_flights (hard_navigate h v) = nv_flights v"
  "nv_flights (push_history br u r v) = nv_flights v" "nv_flights (remember_scroll v) = nv_flights v"
  "nv_flights (snd (scroll_to_fragment br h v)) = nv_flights v"
  by (simp_all add: set_rendered_url_def hard_navigate_def push_history_def push_entry_def remember_scroll_def scroll_to_fragment_def Let_def
      split: option.splits fragment_target.splits)

lemma generation_simps [simp]:
  "nv_generation (set_rendered_url u v) = nv_generation v" "nv_generation (hard_navigate h v) = nv_generation v"
  "nv_generation (push_history br u r v) = nv_generation v" "nv_generation (remember_scroll v) = nv_generation v"
  "nv_generation (snd (scroll_to_fragment br h v)) = nv_generation v"
  by (simp_all add: set_rendered_url_def hard_navigate_def push_history_def push_entry_def remember_scroll_def scroll_to_fragment_def Let_def
      split: option.splits fragment_target.splits)

lemma issued_simps [simp]:
  "nv_issued (set_rendered_url u v) = nv_issued v" "nv_issued (hard_navigate h v) = nv_issued v"
  "nv_issued (push_history br u r v) = nv_issued v" "nv_issued (remember_scroll v) = nv_issued v"
  "nv_issued (snd (scroll_to_fragment br h v)) = nv_issued v"
  by (simp_all add: set_rendered_url_def hard_navigate_def push_history_def push_entry_def remember_scroll_def scroll_to_fragment_def Let_def
      split: option.splits fragment_target.splits)

lemma page_simps [simp]:
  "nv_outlet (set_rendered_url u v) = nv_outlet v" "nv_outlet (hard_navigate h v) = nv_outlet v"
  "nv_outlet (push_history br u r v) = nv_outlet v" "nv_outlet (remember_scroll v) = nv_outlet v"
  "nv_outlet (snd (scroll_to_fragment br h v)) = nv_outlet v"
  "nv_hydrated (set_rendered_url u v) = nv_hydrated v" "nv_hydrated (hard_navigate h v) = nv_hydrated v"
  "nv_hydrated (push_history br u r v) = nv_hydrated v" "nv_hydrated (remember_scroll v) = nv_hydrated v"
  "nv_hydrated (snd (scroll_to_fragment br h v)) = nv_hydrated v"
  "nv_rendered_url (set_rendered_url u v) = Some u" "nv_rendered_url (hard_navigate h v) = nv_rendered_url v"
  "nv_rendered_url (push_history br u r v) = nv_rendered_url v" "nv_rendered_url (remember_scroll v) = nv_rendered_url v"
  "nv_rendered_url (snd (scroll_to_fragment br h v)) = nv_rendered_url v"
  "nv_unloaded (set_rendered_url u v) = nv_unloaded v" "nv_unloaded (hard_navigate h v) = Some h"
  "nv_unloaded (push_history br u r v) = nv_unloaded v" "nv_unloaded (remember_scroll v) = nv_unloaded v"
  "nv_unloaded (snd (scroll_to_fragment br h v)) = nv_unloaded v"
  "nv_title (set_rendered_url u v) = nv_title v" "nv_title (push_history br u r v) = nv_title v" "nv_title (remember_scroll v) = nv_title v"
  "nv_title (snd (scroll_to_fragment br h v)) = nv_title v"
  by (simp_all add: set_rendered_url_def hard_navigate_def push_history_def push_entry_def remember_scroll_def scroll_to_fragment_def Let_def
      split: option.splits fragment_target.splits)

lemma scroll_moves: "\<exists>there p. scroll_to_fragment br href v = (there, v\<lparr>nv_scroll := p\<rparr>)"
proof (cases "fragment_target_of href")
  case None
  then show ?thesis by (intro exI [of _ False] exI [of _ "nv_scroll v"]) (simp add: scroll_to_fragment_def)
next
  case (Some t)
  show ?thesis
  proof (cases t)
    case FragmentTop
    define raw where "raw = (case split_once (CHR ''#'') href of Some (_, fragment) \<Rightarrow> fragment | None \<Rightarrow> [])"
    show ?thesis
      by (cases "if raw \<noteq> [] then fragment_element br v raw else None")
        (auto simp: scroll_to_fragment_def Some FragmentTop raw_def [symmetric] Let_def simp del: split_paired_Ex)
  next
    case (FragmentElement raw)
    show ?thesis
    proof (cases "fragment_element br v raw")
      case None
      then show ?thesis by (intro exI [of _ False] exI [of _ "nv_scroll v"]) (simp add: scroll_to_fragment_def Some FragmentElement)
    next
      case (Some p)
      then show ?thesis using \<open>fragment_target_of href = Some t\<close>
        by (intro exI [of _ True] exI [of _ p]) (simp add: scroll_to_fragment_def FragmentElement)
    qed
  qed
qed

lemma swap_outlet_page:
  "nv_flights (swap_outlet br href push f html v) = nv_flights v" "nv_generation (swap_outlet br href push f html v) = nv_generation v"
  "nv_issued (swap_outlet br href push f html v) = nv_issued v" "nv_unloaded (swap_outlet br href push f html v) = nv_unloaded v"
  "nv_outlet (swap_outlet br href push f html v) = Some html" "nv_hydrated (swap_outlet br href push f html v) = Some html"
  "nv_rendered_url (swap_outlet br href push f html v) = Some (case fd_final_url f of Some u \<Rightarrow> u | None \<Rightarrow> href)"
  "nv_title (swap_outlet br href push f html v) = (case extract_title (fd_html f) of Some t \<Rightarrow> t | None \<Rightarrow> nv_title v)"
proof -
  define g where "g = (\<lambda>v :: navigator. if push then (case scroll_to_fragment br href v of (there, v) \<Rightarrow> if there then v else v\<lparr>nv_scroll := (0, 0)\<rparr>)
         else (case saved_scroll v of Some p \<Rightarrow> v\<lparr>nv_scroll := p\<rparr> | None \<Rightarrow> v))"
  have scrolled: "\<exists>p. g v = v\<lparr>nv_scroll := p\<rparr>" for v
  proof (cases push)
    case True
    obtain there p where p: "scroll_to_fragment br href v = (there, v\<lparr>nv_scroll := p\<rparr>)" using scroll_moves by blast
    then show ?thesis using True by (cases there) (auto simp: g_def simp del: split_paired_Ex)
  next
    case False
    show ?thesis
    proof (cases "saved_scroll v")
      case None
      then show ?thesis using False by (intro exI [of _ "nv_scroll v"]) (simp add: g_def)
    qed (use False in \<open>auto simp: g_def simp del: split_paired_Ex\<close>)
  qed
  have same: "nv_flights (g v) = nv_flights v" "nv_generation (g v) = nv_generation v" "nv_issued (g v) = nv_issued v"
    "nv_unloaded (g v) = nv_unloaded v" "nv_outlet (g v) = nv_outlet v" "nv_hydrated (g v) = nv_hydrated v"
    "nv_rendered_url (g v) = nv_rendered_url v" "nv_title (g v) = nv_title v" for v
    using scrolled [of v] by (auto simp del: split_paired_Ex)
  show "nv_flights (swap_outlet br href push f html v) = nv_flights v" "nv_generation (swap_outlet br href push f html v) = nv_generation v"
    "nv_issued (swap_outlet br href push f html v) = nv_issued v" "nv_unloaded (swap_outlet br href push f html v) = nv_unloaded v"
    "nv_outlet (swap_outlet br href push f html v) = Some html" "nv_hydrated (swap_outlet br href push f html v) = Some html"
    "nv_rendered_url (swap_outlet br href push f html v) = Some (case fd_final_url f of Some u \<Rightarrow> u | None \<Rightarrow> href)"
    "nv_title (swap_outlet br href push f html v) = (case extract_title (fd_html f) of Some t \<Rightarrow> t | None \<Rightarrow> nv_title v)"
    unfolding swap_outlet_def Let_def g_def [symmetric] same by (auto split: option.splits)
qed

text \<open>The flights carry their numbers as generations, as long as the counter has not wrapped around.\<close>

definition nav_ok :: "navigator \<Rightarrow> bool" where
  "nav_ok v \<longleftrightarrow> unat (nv_generation v) = nv_issued v \<and> distinct (map fst (nv_flights v)) \<and>
     list_all (\<lambda>(k, fl). k < nv_issued v \<and> unat (fl_generation fl) = Suc k) (nv_flights v)"

lemma navigate_cases:
  obtains (fragment) "navigate_to br href push v = fragment_navigation br href push v" "is_same_document_fragment (rendered_url v) href"
  | (hard) "navigate_to br href push v = hard_navigate href v" "\<not> is_same_document_fragment (rendered_url v) href" "nv_outlet v = None"
  | (flight) "navigate_to br href push v = v\<lparr>nv_generation := nv_generation v + 1,
        nv_flights := nv_flights v @ [(nv_issued v, \<lparr>fl_generation = nv_generation v + 1, fl_href = href, fl_push = push\<rparr>)],
        nv_issued := Suc (nv_issued v)\<rparr>" "\<not> is_same_document_fragment (rendered_url v) href" "nv_outlet v \<noteq> None"
  by (cases "is_same_document_fragment (rendered_url v) href"; cases "nv_outlet v = None")
    (auto simp: navigate_to_def begin_navigation_def Let_def)

lemma fragment_keeps:
  "nv_flights (fragment_navigation br href push v) = nv_flights v" "nv_generation (fragment_navigation br href push v) = nv_generation v"
  "nv_issued (fragment_navigation br href push v) = nv_issued v" "nv_outlet (fragment_navigation br href push v) = nv_outlet v"
  "nv_hydrated (fragment_navigation br href push v) = nv_hydrated v" "nv_unloaded (fragment_navigation br href push v) = nv_unloaded v"
  "nv_rendered_url (fragment_navigation br href push v) = Some href"
  by (auto simp: fragment_navigation_def Let_def split: option.splits)

lemma finish_cases:
  obtains (stale) "finish_navigation br k r v = v\<lparr>nv_flights := filter (\<lambda>(j, _). j \<noteq> k) (nv_flights v)\<rparr>"
  | (hard) h where "finish_navigation br k r v = hard_navigate h (v\<lparr>nv_flights := filter (\<lambda>(j, _). j \<noteq> k) (nv_flights v)\<rparr>)"
  | (swap) fl f html where "finish_navigation br k r v = swap_outlet br (fl_href fl) (fl_push fl) f html (v\<lparr>nv_flights := filter (\<lambda>(j, _). j \<noteq> k) (nv_flights v)\<rparr>)"
      "map_of (nv_flights v) k = Some fl" "r = Some f" "extract_outlet_html (fd_html f) = Some html" "is_current (fl_generation fl) v" "nv_outlet v \<noteq> None"
proof (cases "map_of (nv_flights v) k")
  case None
  then have "k \<notin> fst ` set (nv_flights v)" by (simp add: map_of_eq_None_iff)
  then have "filter (\<lambda>(j, _). j \<noteq> k) (nv_flights v) = nv_flights v" by (intro filter_True) force
  then show thesis using stale None by (simp add: finish_navigation_def)
next
  case (Some fl)
  let ?v = "v\<lparr>nv_flights := filter (\<lambda>(j, _). j \<noteq> k) (nv_flights v)\<rparr>"
  have cur: "is_current g ?v = is_current g v" for g by (simp add: is_current_def)
  show thesis
  proof (cases r)
    case None
    then show thesis using Some stale hard [of "fl_href fl"] by (cases "is_current (fl_generation fl) v") (simp_all add: finish_navigation_def Let_def cur)
  next
    case f: (Some f)
    show thesis
    proof (cases "is_current (fl_generation fl) v")
      case False
      then show thesis using Some f stale by (simp add: finish_navigation_def Let_def cur)
    next
      case True
      show thesis
      proof (cases "extract_outlet_html (fd_html f)")
        case None
        then show thesis using Some f True hard [of "fl_href fl"] by (simp add: finish_navigation_def Let_def cur)
      next
        case html: (Some html)
        show thesis
        proof (cases "nv_outlet v = None")
          case True
          then show thesis using Some f \<open>is_current (fl_generation fl) v\<close> html hard [of "fl_href fl"] by (simp add: finish_navigation_def Let_def cur)
        next
          case False
          then have "finish_navigation br k r v = swap_outlet br (fl_href fl) (fl_push fl) f html ?v"
            using Some f True html by (auto simp: finish_navigation_def Let_def cur)
          then show thesis using swap Some f html True False by blast
        qed
      qed
    qed
  qed
qed

lemma nav_ok_cong: "nv_flights w = nv_flights v \<Longrightarrow> nv_generation w = nv_generation v \<Longrightarrow> nv_issued w = nv_issued v \<Longrightarrow> nav_ok w = nav_ok v"
  by (simp add: nav_ok_def)

lemma nav_ok_drop: "nav_ok v \<Longrightarrow> nav_ok (v\<lparr>nv_flights := filter (\<lambda>(j, _). j \<noteq> k) (nv_flights v)\<rparr>)"
  by (auto simp: nav_ok_def distinct_map_filter list_all_iff)

lemma nav_ok_navigate: "nav_ok v \<Longrightarrow> Suc (nv_issued v) < 2 ^ 64 \<Longrightarrow> nav_ok (navigate_to br href push v) \<and> nv_issued (navigate_to br href push v) \<le> Suc (nv_issued v)"
proof -
  assume v: "nav_ok v" "Suc (nv_issued v) < 2 ^ 64"
  show ?thesis
  proof (cases rule: navigate_cases [of br href push v])
    case fragment
    then show ?thesis using v nav_ok_cong [of "fragment_navigation br href push v" v] by (simp add: fragment_keeps)
  next
    case hard
    then show ?thesis using v nav_ok_cong [of "hard_navigate href v" v] by simp
  next
    case flight
    have gen: "unat (nv_generation v + 1) = Suc (nv_issued v)" using v by (simp add: nav_ok_def unat_word_ariths)
    have "nv_issued v \<notin> fst ` set (nv_flights v)" using v(1) by (auto simp: nav_ok_def list_all_iff)
    then show ?thesis using v(1) gen unfolding flight by (auto simp: nav_ok_def list_all_iff)
  qed
qed

lemma nav_ok_finish: "nav_ok v \<Longrightarrow> nav_ok (finish_navigation br k r v) \<and> nv_issued (finish_navigation br k r v) = nv_issued v"
proof -
  assume v: "nav_ok v"
  let ?v = "v\<lparr>nv_flights := filter (\<lambda>(j, _). j \<noteq> k) (nv_flights v)\<rparr>"
  have d: "nav_ok ?v" by (rule nav_ok_drop [OF v])
  show ?thesis
  proof (cases rule: finish_cases [of br k r v])
    case stale
    then show ?thesis using d by simp
  next
    case (hard h)
    then show ?thesis using d nav_ok_cong [of "hard_navigate h ?v" ?v] by simp
  next
    case (swap fl f html)
    then show ?thesis using d nav_ok_cong [of "swap_outlet br (fl_href fl) (fl_push fl) f html ?v" ?v] by (simp add: swap_outlet_page)
  qed
qed

lemma nav_step_ok:
  assumes "nav_ok v" and "Suc (nv_issued v) < 2 ^ 64"
  shows "nav_ok (nav_step br v e) \<and> nv_issued (nav_step br v e) \<le> Suc (nv_issued v)"
proof (cases "nv_unloaded v")
  case (Some u)
  then show ?thesis using assms by (cases e) simp_all
next
  case None
  show ?thesis
  proof (cases e)
    case (Click c)
    then show ?thesis using None assms nav_ok_navigate [OF assms, of br "lc_href c" True] by simp
  next
    case (Traverse i)
    let ?v = "v\<lparr>nv_at := i\<rparr>"
    have "nav_ok ?v" "Suc (nv_issued ?v) < 2 ^ 64" using assms nav_ok_cong [of ?v v] by simp_all
    then show ?thesis using None Traverse assms nav_ok_navigate [of ?v br "current_href ?v" False] by (simp add: Let_def)
  next
    case (Answer k r)
    then show ?thesis using None assms nav_ok_finish [OF assms(1), of br k r] by simp
  next
    case (UserScroll p)
    then show ?thesis using None assms nav_ok_cong [of "v\<lparr>nv_scroll := p\<rparr>" v] by simp
  qed
qed

lemma nav_run_ok: "nav_ok v \<Longrightarrow> nv_issued v + length es < 2 ^ 64 \<Longrightarrow>
    nav_ok (nav_run br v es) \<and> nv_issued (nav_run br v es) \<le> nv_issued v + length es"
proof (induction es arbitrary: v)
  case (Cons e es)
  have "nav_ok (nav_step br v e)" "nv_issued (nav_step br v e) \<le> Suc (nv_issued v)" using nav_step_ok [of v br e] Cons.prems by simp_all
  then show ?case using Cons.IH [of "nav_step br v e"] Cons.prems(2) by (simp add: nav_run_def)
qed (simp add: nav_run_def)

lemma document_start_ok: "nav_ok (document_start entries i outlet)" "nv_issued (document_start entries i outlet) = 0"
  by (simp_all add: nav_ok_def document_start_def)

subsection \<open>The latest navigation decides\<close>

text \<open>What an answer does not change, unless it is the newest navigation's.\<close>

definition same_page :: "navigator \<Rightarrow> navigator \<Rightarrow> bool" where
  "same_page v w \<longleftrightarrow> (\<exists>fls. w = v\<lparr>nv_flights := fls\<rparr>)"

lemma same_page_refl: "same_page v v"
  unfolding same_page_def by (intro exI [of _ "nv_flights v"]) simp

lemma same_page_trans: "same_page u v \<Longrightarrow> same_page v w \<Longrightarrow> same_page u w"
  by (auto simp: same_page_def)

lemma other_answer:
  assumes "nav_ok v" and "Suc k \<noteq> nv_issued v"
  shows "finish_navigation br k r v = v\<lparr>nv_flights := filter (\<lambda>(j, _). j \<noteq> k) (nv_flights v)\<rparr>"
proof (cases "map_of (nv_flights v) k")
  case None
  then have "k \<notin> fst ` set (nv_flights v)" by (simp add: map_of_eq_None_iff)
  then have "filter (\<lambda>(j, _). j \<noteq> k) (nv_flights v) = nv_flights v" by (intro filter_True) force
  then show ?thesis using None by (simp add: finish_navigation_def)
next
  case (Some fl)
  then have "(k, fl) \<in> set (nv_flights v)" by (rule map_of_SomeD)
  then have "unat (fl_generation fl) = Suc k" using assms(1) by (auto simp: nav_ok_def list_all_iff)
  then have "\<not> is_current (fl_generation fl) (v\<lparr>nv_flights := filter (\<lambda>(j, _). j \<noteq> k) (nv_flights v)\<rparr>)"
    using assms by (auto simp: nav_ok_def is_current_def)
  then show ?thesis using Some by (simp add: finish_navigation_def Let_def split: option.splits)
qed

lemma answers_after_unload: "nv_unloaded v \<noteq> None \<Longrightarrow> nav_run br v es = v"
proof (induction es)
  case (Cons e es)
  have "nav_step br v e = v" using Cons.prems by (cases e) auto
  then show ?case using Cons by (simp add: nav_run_def)
qed (simp add: nav_run_def)

lemma other_answers:
  "nav_ok v \<Longrightarrow> nv_issued v = Suc t \<Longrightarrow> t \<notin> fst ` set (nv_flights v) \<Longrightarrow> list_all is_answer fs \<Longrightarrow> same_page v (nav_run br v fs)"
proof (induction fs arbitrary: v)
  case Nil
  then show ?case by (simp add: nav_run_def same_page_refl)
next
  case (Cons e fs)
  obtain k r where e: "e = Answer k r" using Cons.prems(4) by (cases e) (auto simp: is_answer_def)
  show ?case
  proof (cases "nv_unloaded v")
    case (Some u)
    then show ?thesis using answers_after_unload [of v br "e # fs"] same_page_refl by simp
  next
    case None
    let ?v = "v\<lparr>nv_flights := filter (\<lambda>(j, _). j \<noteq> k) (nv_flights v)\<rparr>"
    have step: "nav_step br v e = ?v"
    proof (cases "k = t")
      case True
      then have "map_of (nv_flights v) k = None" using Cons.prems(3) by (simp add: map_of_eq_None_iff)
      moreover have "filter (\<lambda>(j, _). j \<noteq> k) (nv_flights v) = nv_flights v" using Cons.prems(3) True by (intro filter_True) force
      ultimately show ?thesis using None by (simp add: e finish_navigation_def)
    next
      case False
      then show ?thesis using None other_answer [OF Cons.prems(1), of k br r] Cons.prems(2) by (simp add: e)
    qed
    have "same_page ?v (nav_run br ?v fs)" using Cons.IH [of ?v] Cons.prems nav_ok_drop [OF Cons.prems(1), of k] by auto
    moreover have "same_page v ?v" unfolding same_page_def by blast
    ultimately show ?thesis using step same_page_trans by (simp add: nav_run_def)
  qed
qed

lemma newest_answer:
  assumes "nav_ok v" and "nv_issued v = Suc t" and "map_of (nv_flights v) t = Some fl" and "nv_unloaded v = None" and "list_all is_answer fs"
  shows "case first_answer t fs of
      None \<Rightarrow> same_page v (nav_run br v fs)
    | Some r \<Rightarrow> \<exists>u. same_page v u \<and> nav_ok u \<and> map_of (nv_flights u) t = Some fl \<and> same_page (finish_navigation br t r u) (nav_run br v fs)"
  using assms
proof (induction fs arbitrary: v)
  case Nil
  then show ?case by (simp add: nav_run_def same_page_refl)
next
  case (Cons e fs)
  obtain k r where e: "e = Answer k r" using Cons.prems(5) by (cases e) (auto simp: is_answer_def)
  show ?case
  proof (cases "k = t")
    case True
    let ?w = "finish_navigation br t r v"
    have w: "nav_ok ?w" "nv_issued ?w = Suc t" using nav_ok_finish [OF Cons.prems(1), of br t r] Cons.prems(2) by simp_all
    have "nv_flights ?w = filter (\<lambda>(j, _). j \<noteq> t) (nv_flights v)"
      by (cases rule: finish_cases [of br t r v]) (simp_all add: swap_outlet_page)
    then have "t \<notin> fst ` set (nv_flights ?w)" by auto
    then have "same_page ?w (nav_run br ?w fs)" using other_answers [OF w] Cons.prems(5) by simp
    moreover have "nav_run br v (e # fs) = nav_run br ?w fs" using Cons.prems(4) True by (simp add: nav_run_def e)
    ultimately show ?thesis using True e Cons.prems(1,3) same_page_refl [of v] by auto
  next
    case False
    let ?v = "v\<lparr>nv_flights := filter (\<lambda>(j, _). j \<noteq> k) (nv_flights v)\<rparr>"
    have run: "nav_run br v (e # fs) = nav_run br ?v fs"
      using Cons.prems(4) other_answer [OF Cons.prems(1), of k br r] Cons.prems(2) False by (simp add: nav_run_def e)
    have first: "first_answer t (e # fs) = first_answer t fs" using False by (simp add: e)
    have "map_of (filter (\<lambda>(j, _). j \<noteq> k) fls) t = map_of fls t" for fls :: "(nat \<times> flight) list" using False by (induction fls) auto
    then have "case first_answer t fs of
        None \<Rightarrow> same_page ?v (nav_run br ?v fs)
      | Some r \<Rightarrow> \<exists>u. same_page ?v u \<and> nav_ok u \<and> map_of (nv_flights u) t = Some fl \<and> same_page (finish_navigation br t r u) (nav_run br ?v fs)"
      using Cons.IH [of ?v] Cons.prems nav_ok_drop [OF Cons.prems(1), of k] by simp
    moreover have "same_page v ?v" unfolding same_page_def by blast
    ultimately show ?thesis unfolding first run 
      by (cases "first_answer t fs") (auto intro: same_page_trans)
  qed
qed

lemma same_page_fields: "same_page v w \<Longrightarrow>
    nv_outlet w = nv_outlet v \<and> nv_hydrated w = nv_hydrated v \<and> nv_rendered_url w = nv_rendered_url v \<and> nv_unloaded w = nv_unloaded v \<and>
    nv_title w = nv_title v \<and> nv_generation w = nv_generation v \<and> nv_issued w = nv_issued v \<and> nv_entries w = nv_entries v \<and> nv_at w = nv_at v"
  by (auto simp: same_page_def)

text \<open>
  C33: the latest navigation decides what is on the page. Let anything have happened in a document, and then a click
  that is taken over or a step through the history start a navigation; only answers to fetches follow, to this
  navigation's and to earlier ones', in any order. Until its own answer is there the page is untouched, whatever
  else arrives. If its fetch fails or the document has no outlet, the browser loads the destination itself.
  Otherwise the outlet holds the contents of the fetched document's outlet, with its islands alive, and the page
  counts as the one the document came from; later answers change nothing.
\<close>

theorem latest_navigation_wins:
  fixes entries :: "history_entry list" and i :: nat and outlet :: "string option" and br :: browser
  assumes "length es + 1 < 2 ^ 64" and "taken (nav_run br (document_start entries i outlet) es) e = Some (href, push, u)"
    and "nv_unloaded u = None" and "\<not> is_same_document_fragment (rendered_url u) href" and "nv_outlet u \<noteq> None" and "list_all is_answer fs"
  defines "w \<equiv> nav_run br (document_start entries i outlet) (es @ e # fs)"
  shows "case first_answer (nv_issued u) fs of
      None \<Rightarrow> nv_outlet w = nv_outlet u \<and> nv_entries w = nv_entries u \<and> nv_rendered_url w = nv_rendered_url u \<and> nv_unloaded w = None
    | Some response \<Rightarrow>
        (case Option.bind response (\<lambda>f. map_option (Pair f) (extract_outlet_html (fd_html f))) of
           None \<Rightarrow> nv_unloaded w = Some href
         | Some (f, html) \<Rightarrow>
             nv_unloaded w = None \<and> nv_outlet w = Some html \<and> nv_hydrated w = Some html \<and>
             nv_rendered_url w = Some (case fd_final_url f of Some url \<Rightarrow> url | None \<Rightarrow> href))"
proof -
  let ?v = "nav_run br (document_start entries i outlet) es" and ?t = "nv_issued u"
  have v: "nav_ok ?v" "nv_issued ?v \<le> length es" using nav_run_ok [OF document_start_ok(1), of entries i outlet es br] assms(1)
    by (simp_all add: document_start_ok(2))
  have u: "u = ?v \<or> (\<exists>k. u = ?v\<lparr>nv_at := k\<rparr>)" using assms(2) by (cases e) (auto simp: taken_def Let_def split: if_splits)
  then have "nav_ok u \<and> nv_issued u = nv_issued ?v \<and> nv_unloaded u = nv_unloaded ?v" using v(1) nav_ok_cong [of "?v\<lparr>nv_at := _\<rparr>" ?v] by auto
  then have uok: "nav_ok u" "nv_issued u \<le> length es" "nv_unloaded ?v = None" using v(2) assms(3) by auto
  define fl where "fl = \<lparr>fl_generation = nv_generation u + 1, fl_href = href, fl_push = push\<rparr>"
  define x where "x = u\<lparr>nv_generation := nv_generation u + 1, nv_flights := nv_flights u @ [(nv_issued u, fl)], nv_issued := Suc (nv_issued u)\<rparr>"
  have x: "navigate_to br href push u = x"
    by (cases rule: navigate_cases [of br href push u]) (use assms(4,5) in \<open>simp_all add: x_def fl_def\<close>)
  have w: "w = nav_run br x fs"
    unfolding w_def using nav_step_taken [OF uok(3) assms(2), of br] x by (simp add: nav_run_def)
  have xok: "nav_ok x" "nv_issued x = Suc ?t" "nv_unloaded x = None" using nav_ok_navigate [OF uok(1), of br href push] uok(2) assms(1,3) x
    by (simp_all add: x_def)
  have "nv_issued u \<notin> fst ` set (nv_flights u)" using uok(1) by (auto simp: nav_ok_def list_all_iff)
  then have "map_of (nv_flights u) ?t = None" by (simp add: map_of_eq_None_iff)
  then have flight: "map_of (nv_flights x) ?t = Some fl" by (simp add: x_def map_add_def)
  note a = newest_answer [OF xok(1,2) flight xok(3) assms(6), of br, folded w]
  show ?thesis
  proof (cases "first_answer ?t fs")
    case None
    then show ?thesis using a same_page_fields [of x w] assms(3) by (simp add: x_def)
  next
    case (Some r)
    then obtain y where y: "same_page x y" "nav_ok y" "map_of (nv_flights y) ?t = Some fl" "same_page (finish_navigation br ?t r y) w"
      using a by auto
    let ?y = "y\<lparr>nv_flights := filter (\<lambda>(j, _). j \<noteq> ?t) (nv_flights y)\<rparr>"
    have cur: "is_current (fl_generation fl) ?y" using same_page_fields [OF y(1)] by (simp add: is_current_def x_def fl_def)
    have out: "nv_outlet ?y \<noteq> None" "nv_unloaded ?y = None" using same_page_fields [OF y(1)] assms(3,5) by (simp_all add: x_def)
    have href: "fl_href fl = href" by (simp add: fl_def)
    show ?thesis
    proof (cases "Option.bind r (\<lambda>f. map_option (Pair f) (extract_outlet_html (fd_html f)))")
      case None
      then have "finish_navigation br ?t r y = hard_navigate href ?y"
        using y(3) cur by (cases r) (simp_all add: finish_navigation_def Let_def href split: option.splits)
      then show ?thesis using Some None same_page_fields [OF y(4)] by simp
    next
      case bound: (Some fh)
      then obtain f html where f: "fh = (f, html)" "r = Some f" "extract_outlet_html (fd_html f) = Some html" by (cases r) auto
      then have "finish_navigation br ?t r y = swap_outlet br href (fl_push fl) f html ?y"
        using y(3) cur out(1) by (auto simp: finish_navigation_def Let_def href)
      then show ?thesis using Some bound f out(2) same_page_fields [OF y(4)] by (simp add: swap_outlet_page)
    qed
  qed
qed

definition demo_browser :: browser where
  "demo_browser = \<lparr>br_push_ok = (\<lambda>url. url \<noteq> []), br_element = (\<lambda>outlet name. None), br_decode = (\<lambda>raw. Some raw)\<rparr>"

definition demo_click :: "string \<Rightarrow> link_click" where
  "demo_click href = \<lparr>lc_href = href, lc_link_origin = ''o'', lc_document_origin = ''o'', lc_target = Some [], lc_has_download = False,
     lc_opted_out = False, lc_button = 0, lc_modifier_held = False, lc_default_prevented = False\<rparr>"

definition demo_answer :: "string \<Rightarrow> fetched_document option" where
  "demo_answer body = Some \<lparr>fd_html = ''<main data-krab-router-outlet>'' @ body @ ''</main>'', fd_final_url = None\<rparr>"

lemma latest_navigation_wins_witness:
  "nv_outlet (nav_run demo_browser (document_start [\<lparr>he_url = ''/'', he_scroll = None\<rparr>] 0 (Some ''home''))
     [Click (demo_click ''/a''), Click (demo_click ''/b''), Answer 1 (demo_answer ''B''), Answer 0 (demo_answer ''A'')]) = Some ''B''"
proof -
  let ?start = "document_start [\<lparr>he_url = ''/'', he_scroll = None\<rparr>] 0 (Some ''home'')" and ?es = "[Click (demo_click ''/a'')]"
  let ?u = "nav_run demo_browser ?start ?es" and ?fs = "[Answer 1 (demo_answer ''B''), Answer 0 (demo_answer ''A'')]"
  have "length ?es + 1 < 2 ^ 64" by simp
  moreover have "taken ?u (Click (demo_click ''/b'')) = Some (''/b'', True, ?u)"
    by (simp add: taken_def demo_click_def should_intercept_def starts_with_def)
  moreover have "nv_unloaded ?u = None" "nv_outlet ?u \<noteq> None" "\<not> is_same_document_fragment (rendered_url ?u) ''/b''" "nv_issued ?u = 1"
    by code_simp+
  moreover have "list_all is_answer ?fs" by (simp add: is_answer_def)
  moreover have "extract_outlet_html (fd_html (the (demo_answer ''B''))) = Some ''B''" by code_simp
  ultimately show ?thesis
    using latest_navigation_wins [of ?es demo_browser "[\<lparr>he_url = ''/'', he_scroll = None\<rparr>]" 0 "Some ''home''" "Click (demo_click ''/b'')" "''/b''" True ?u ?fs]
    by (simp add: demo_answer_def)
qed

subsection \<open>What is on the page came from its URL\<close>

text \<open>
  The router knows what it has rendered only once it has navigated in this document; until then it goes
  by the address bar. The runs considered start from a document loaded anywhere in a session history, and
  before the first navigation of the router they step only to entries of the same document, which differ
  in their fragment. (The steps this leaves out are those of \<open>traversal_after_reload_is_dead\<close> below.)
\<close>

definition within_document :: "navigator \<Rightarrow> nav_event \<Rightarrow> bool" where
  "within_document v e =
     (case e of
        Traverse i \<Rightarrow> nv_rendered_url v \<noteq> None \<or> length (nv_entries v) \<le> i \<or>
          strip_fragment (he_url (nv_entries v ! i)) = strip_fragment (current_href v)
      | _ \<Rightarrow> True)"

text \<open>Runs against a server: an answer is a failure, or what the server has for the URL that was asked for.\<close>

inductive nav_reach ::
  "browser \<Rightarrow> (string \<Rightarrow> fetched_document option) \<Rightarrow> history_entry list \<Rightarrow> nat \<Rightarrow> string option \<Rightarrow> navigator \<Rightarrow> bool"
  for br :: browser and serve :: "string \<Rightarrow> fetched_document option" and entries :: "history_entry list" and i :: nat
    and outlet :: "string option" where
  loaded: "i < length entries \<Longrightarrow> nav_reach br serve entries i outlet (document_start entries i outlet)"
| event: "nav_reach br serve entries i outlet v \<Longrightarrow>
    (case e of Answer k response \<Rightarrow> (case map_of (nv_flights v) k of Some fl \<Rightarrow> response = None \<or> response = serve (fl_href fl) | None \<Rightarrow> True)
       | _ \<Rightarrow> True) \<Longrightarrow>
    within_document v e \<Longrightarrow>
    nav_reach br serve entries i outlet (nav_step br v e)"

definition came_from :: "(string \<Rightarrow> fetched_document option) \<Rightarrow> string \<Rightarrow> string option \<Rightarrow> string \<Rightarrow> string option \<Rightarrow> bool" where
  "came_from serve url outlet rendered shown \<longleftrightarrow>
     strip_fragment rendered = strip_fragment url \<and> shown = outlet \<or>
     (\<exists>href f. serve href = Some f \<and> shown = extract_outlet_html (fd_html f) \<and>
        strip_fragment rendered = strip_fragment (case fd_final_url f of Some u \<Rightarrow> u | None \<Rightarrow> href))"

lemma came_from_cong:
  "strip_fragment rendered = strip_fragment rendered' \<Longrightarrow>
     came_from serve url outlet rendered shown = came_from serve url outlet rendered' shown"
  by (simp add: came_from_def)

definition page_inv ::
  "(string \<Rightarrow> fetched_document option) \<Rightarrow> history_entry list \<Rightarrow> string \<Rightarrow> string option \<Rightarrow> navigator \<Rightarrow> bool" where
  "page_inv serve entries url outlet v \<longleftrightarrow>
     came_from serve url outlet (rendered_url v) (nv_outlet v) \<and> nv_hydrated v = nv_outlet v \<and>
     (nv_rendered_url v = None \<longrightarrow> nv_entries v = entries \<and> nv_at v < length entries)"

lemma page_inv_same:
  assumes "page_inv serve entries url outlet v" and "strip_fragment (rendered_url w) = strip_fragment (rendered_url v)"
    and "nv_outlet w = nv_outlet v" and "nv_hydrated w = nv_hydrated v"
    and "nv_rendered_url w = None \<Longrightarrow> nv_rendered_url v = None \<and> nv_entries w = nv_entries v \<and> nv_at w < length (nv_entries v)"
  shows "page_inv serve entries url outlet w"
  using assms came_from_cong [OF assms(2), of serve url outlet] by (auto simp: page_inv_def)

lemma page_inv_navigate:
  assumes "page_inv serve entries url outlet v"
  shows "page_inv serve entries url outlet (navigate_to br href push v)"
proof (cases rule: navigate_cases [of br href push v])
  case fragment
  then have "strip_fragment href = strip_fragment (rendered_url v)" by (simp add: is_same_document_fragment_def)
  then show ?thesis using assms unfolding fragment page_inv_def by (simp add: fragment_keeps rendered_url_def came_from_def)
next
  case hard
  have "nv_rendered_url v = None \<Longrightarrow> nv_at v < length (nv_entries v)" using assms by (simp add: page_inv_def)
  then show ?thesis unfolding hard
    by (intro page_inv_same [OF assms]) (simp_all add: rendered_url_def current_href_def hard_navigate_def split: option.split)
next
  case flight
  have "nv_rendered_url v = None \<Longrightarrow> nv_at v < length (nv_entries v)" using assms by (simp add: page_inv_def)
  then show ?thesis unfolding flight
    by (intro page_inv_same [OF assms]) (simp_all add: rendered_url_def current_href_def split: option.split)
qed

lemma page_inv_finish:
  assumes "page_inv serve entries url outlet v"
    and "case map_of (nv_flights v) k of Some fl \<Rightarrow> r = None \<or> r = serve (fl_href fl) | None \<Rightarrow> True"
  shows "page_inv serve entries url outlet (finish_navigation br k r v)"
proof -
  have at: "nv_rendered_url v = None \<Longrightarrow> nv_at v < length (nv_entries v)" using assms(1) by (simp add: page_inv_def)
  show ?thesis
  proof (cases rule: finish_cases [of br k r v])
    case stale
    show ?thesis unfolding stale using at
      by (intro page_inv_same [OF assms(1)]) (simp_all add: rendered_url_def current_href_def split: option.split)
  next
    case (hard h)
    show ?thesis unfolding hard using at
      by (intro page_inv_same [OF assms(1)]) (simp_all add: rendered_url_def current_href_def hard_navigate_def split: option.split)
  next
    case (swap fl f html)
    have "serve (fl_href fl) = Some f" using assms(2) swap by auto
    then have "came_from serve url outlet (case fd_final_url f of Some u \<Rightarrow> u | None \<Rightarrow> fl_href fl) (Some html)"
      using swap(4) unfolding came_from_def by metis
    then show ?thesis unfolding swap(1) page_inv_def by (simp add: swap_outlet_page rendered_url_def)
  qed
qed

lemma page_inv_step:
  assumes "page_inv serve entries url outlet v" and "within_document v e"
    and "case e of Answer k response \<Rightarrow> (case map_of (nv_flights v) k of Some fl \<Rightarrow> response = None \<or> response = serve (fl_href fl) | None \<Rightarrow> True)
       | _ \<Rightarrow> True"
  shows "page_inv serve entries url outlet (nav_step br v e)"
proof (cases "nv_unloaded v")
  case (Some u)
  then have "nav_step br v e = v" by (cases e) simp_all
  then show ?thesis using assms(1) by simp
next
  case None
  show ?thesis
  proof (cases e)
    case (Click c)
    then show ?thesis using None assms(1) page_inv_navigate by simp
  next
    case (Traverse i)
    have "page_inv serve entries url outlet (v\<lparr>nv_at := i\<rparr>)" if "i < length (nv_entries v)"
    proof (rule page_inv_same [OF assms(1)])
      show "strip_fragment (rendered_url (v\<lparr>nv_at := i\<rparr>)) = strip_fragment (rendered_url v)"
        using assms(2) Traverse that
        by (cases "nv_rendered_url v") (simp_all add: within_document_def rendered_url_def current_href_def)
    qed (use that in simp_all)
    then show ?thesis using None Traverse assms(1) page_inv_navigate by (simp add: Let_def not_le)
  next
    case (Answer k r)
    then show ?thesis using None assms(3) page_inv_finish [OF assms(1)] by simp
  next
    case (UserScroll p)
    have "nv_rendered_url v = None \<Longrightarrow> nv_at v < length (nv_entries v)" using assms(1) by (simp add: page_inv_def)
    then show ?thesis unfolding UserScroll nav_step.simps None
      by (simp, intro page_inv_same [OF assms(1)]) (simp_all add: rendered_url_def current_href_def split: option.split)
  qed
qed

text \<open>
  C34: the page shows what its URL stands for. A document is loaded at any place of any session history, and
  runs through clicks, steps through the history, answers of the server in any order, failures and redirects,
  except that before the router's first navigation no step leads to the entry of another document. In every
  state the outlet holds the document's own contents, under a URL that differs at most in its fragment, or
  else the contents of the outlet of a document the server sent, under the URL it came from; and the islands
  that are alive are those of that contents. When the history held this one entry at first, the exception
  excludes nothing. (After a reload in the middle of a session it does, and the page can then differ from
  its URL: \<open>traversal_after_reload_is_dead\<close>.)
\<close>

theorem page_shows_what_its_url_stands_for:
  assumes "nav_reach br serve entries i outlet v"
  shows "came_from serve (he_url (entries ! i)) outlet (rendered_url v) (nv_outlet v) \<and> nv_hydrated v = nv_outlet v \<and>
    (length entries = 1 \<longrightarrow> within_document v e)"
proof -
  have inv: "page_inv serve entries (he_url (entries ! i)) outlet v" using assms
  proof (induction rule: nav_reach.induct)
    case loaded
    then show ?case by (simp add: page_inv_def came_from_def document_start_def rendered_url_def current_href_def)
  next
    case (event v e)
    show ?case by (rule page_inv_step [OF event.IH event.hyps(3,2)])
  qed
  then have "within_document v e" if "length entries = 1"
  proof (cases e)
    case (Traverse j)
    with inv that show ?thesis by (cases j) (auto simp: page_inv_def within_document_def current_href_def)
  qed (simp_all add: within_document_def)
  with inv show ?thesis by (simp add: page_inv_def)
qed

inductive_cases nav_reach_ends: "nav_reach br serve entries i outlet v"

text \<open>A document loaded in the middle of a session: a step to another fragment of it, two clicks, a late answer.\<close>

definition demo_history :: "history_entry list" where
  "demo_history = [\<lparr>he_url = ''/p'', he_scroll = None\<rparr>, \<lparr>he_url = ''/#x'', he_scroll = None\<rparr>, \<lparr>he_url = ''/'', he_scroll = None\<rparr>]"

definition demo_server :: "string \<Rightarrow> fetched_document option" where
  "demo_server href = (if href = ''/a'' then demo_answer ''A'' else if href = ''/b'' then demo_answer ''B'' else None)"

definition demo_nav_events :: "nav_event list" where
  "demo_nav_events = [Traverse 1, Click (demo_click ''/a''), Click (demo_click ''/b''), Answer 0 (demo_answer ''A''), Answer 1 (demo_answer ''B'')]"

lemma page_shows_what_its_url_stands_for_witness:
  "let v = nav_run demo_browser (document_start demo_history 2 (Some ''home'')) demo_nav_events
   in rendered_url v = ''/b'' \<and> came_from demo_server ''/'' (Some ''home'') ''/b'' (nv_outlet v)"
proof -
  let ?reach = "nav_reach demo_browser demo_server demo_history 2 (Some ''home'')"
  define v0 where "v0 = document_start demo_history 2 (Some ''home'')"
  define v1 where "v1 = nav_step demo_browser v0 (Traverse 1)"
  define v2 where "v2 = nav_step demo_browser v1 (Click (demo_click ''/a''))"
  define v3 where "v3 = nav_step demo_browser v2 (Click (demo_click ''/b''))"
  define v4 where "v4 = nav_step demo_browser v3 (Answer 0 (demo_answer ''A''))"
  define v5 where "v5 = nav_step demo_browser v4 (Answer 1 (demo_answer ''B''))"
  have "2 < length demo_history" by (simp add: demo_history_def)
  then have "?reach v0" unfolding v0_def by (rule loaded)
  moreover have "within_document v0 (Traverse 1)" unfolding v0_def by code_simp
  ultimately have "?reach v1" unfolding v1_def by (intro event) simp_all
  then have "?reach v2" unfolding v2_def by (intro event) (simp_all add: within_document_def)
  then have "?reach v3" unfolding v3_def by (intro event) (simp_all add: within_document_def)
  moreover have f3: "map_option fl_href (map_of (nv_flights v3) 0) = Some ''/a''" unfolding v3_def v2_def v1_def v0_def by code_simp
  ultimately have "?reach v4" unfolding v4_def
    by (intro event) (auto simp: demo_server_def within_document_def split: option.splits)
  moreover have f4: "map_option fl_href (map_of (nv_flights v4) 1) = Some ''/b''" unfolding v4_def v3_def v2_def v1_def v0_def by code_simp
  ultimately have "?reach v5" unfolding v5_def
    by (intro event) (auto simp: demo_server_def within_document_def split: option.splits)
  from page_shows_what_its_url_stands_for [OF this]
  have "came_from demo_server ''/'' (Some ''home'') (rendered_url v5) (nv_outlet v5)" by (simp add: demo_history_def)
  moreover have "rendered_url v5 = ''/b''" unfolding v5_def v4_def v3_def v2_def v1_def v0_def by code_simp
  ultimately show ?thesis
    by (simp add: nav_run_def Let_def demo_nav_events_def v5_def v4_def v3_def v2_def v1_def v0_def del: nav_step.simps)
qed

subsection \<open>Three ways in which the address bar and the page part\<close>

text \<open>
  A fragment link on the old page does not count as a navigation: the step back that it should supersede goes on,
  swaps the page, and leaves the fragment link's URL in the address bar.
\<close>

lemma fragment_link_does_not_supersede:
  "let v = nav_run demo_browser (document_start [\<lparr>he_url = ''/'', he_scroll = None\<rparr>] 0 (Some ''home''))
     [Click (demo_click ''/a''), Answer 0 (demo_answer ''A''), Traverse 0, Click (demo_click ''/a#top''), Answer 1 (demo_answer ''H'')]
   in current_href v = ''/a#top'' \<and> nv_outlet v = Some ''H'' \<and> rendered_url v = ''/''"
  by code_simp

text \<open>
  \<open>RENDERED_URL\<close> is empty in a document that was just loaded, also by a reload in the middle of a session. A step to
  an entry with a fragment is then compared with the address bar, which already shows it, and nothing is fetched.
\<close>

lemma traversal_after_reload_is_dead:
  "let v = nav_run demo_browser
     (document_start [\<lparr>he_url = ''/a#x'', he_scroll = None\<rparr>, \<lparr>he_url = ''/b'', he_scroll = None\<rparr>] 1 (Some ''B'')) [Traverse 0]
   in current_href v = ''/a#x'' \<and> nv_outlet v = Some ''B'' \<and> nv_flights v = [] \<and> nv_unloaded v = None"
  by code_simp

text \<open>
  The URL that is pushed is that of the response. Responses carry no fragment in their URL, so that a link to a
  section of another page scrolls to the section but loses it from the address bar.
\<close>

lemma section_is_lost_from_the_address:
  "let v = nav_run demo_browser (document_start [\<lparr>he_url = ''/'', he_scroll = None\<rparr>] 0 (Some ''home''))
     [Click (demo_click ''/a#s''), Answer 0 (Some \<lparr>fd_html = ''<main data-krab-router-outlet>A</main>'', fd_final_url = Some ''/a''\<rparr>)]
   in current_href v = ''/a'' \<and> nv_outlet v = Some ''A''"
  by code_simp

end
