(* ===== verification/Adopt.thy ===== *)
theory Adopt
  imports Reconcile
begin

text \<open>
  Hydration: \<open>krab_client/src/hydration.rs\<close> adopts the markup the server rendered. The walk meets the children of
  a parent element by position in the live node list and reuses, moves, patches, replaces, inserts or removes
  nodes until they are the ones the virtual tree asks for; what a boundary reports is counted on the way. Nodes
  have no \<open>Dynamic\<close> parts here, as in \<open>Reconcile\<close> (a region is set up by the walk over its first render);
  listeners are those this crate bound. Diagnostics are left out.
\<close>

subsection \<open>Counting\<close>

record hydration_stats =
  hs_consumed :: nat
  hs_replacements :: nat
  hs_appends :: nat
  hs_removals :: nat
  hs_reorders :: nat
  hs_text_patches :: nat
  hs_marker_mismatches :: nat

definition no_stats :: hydration_stats where
  "no_stats = \<lparr>hs_consumed = 0, hs_replacements = 0, hs_appends = 0, hs_removals = 0, hs_reorders = 0, hs_text_patches = 0, hs_marker_mismatches = 0\<rparr>"

definition with_consumed :: "nat \<Rightarrow> hydration_stats \<Rightarrow> hydration_stats" where
  "with_consumed n s = s\<lparr>hs_consumed := n\<rparr>"

definition merge_stats :: "hydration_stats \<Rightarrow> hydration_stats \<Rightarrow> hydration_stats" where
  "merge_stats a b =
     \<lparr>hs_consumed = hs_consumed a + hs_consumed b, hs_replacements = hs_replacements a + hs_replacements b,
      hs_appends = hs_appends a + hs_appends b, hs_removals = hs_removals a + hs_removals b, hs_reorders = hs_reorders a + hs_reorders b,
      hs_text_patches = hs_text_patches a + hs_text_patches b, hs_marker_mismatches = hs_marker_mismatches a + hs_marker_mismatches b\<rparr>"

definition mismatch_count :: "hydration_stats \<Rightarrow> nat" where
  "mismatch_count s =
     hs_replacements s + hs_appends s + hs_removals s + hs_reorders s + hs_text_patches s + hs_marker_mismatches s"

definition classify_boundary_state :: "string option \<Rightarrow> nat \<Rightarrow> string" where
  "classify_boundary_state factory_state mismatches =
     (if factory_state = Some ''decode-error'' then ''decode-error''
      else if factory_state = Some ''error'' then ''error''
      else if 0 < mismatches then ''patched''
      else ''ok'')"

subsection \<open>Alignment\<close>

fun node_hydration_id :: "vnode \<Rightarrow> string option" where
  "node_hydration_id (VElement _ attrs _ _) = map_of attrs HYDRATION_NODE_ID_ATTR"
| "node_hydration_id _ = None"

fun dom_hydration_id :: "dom \<Rightarrow> string option" where
  "dom_hydration_id (DElement _ _ as _ _) = map_of as HYDRATION_NODE_ID_ATTR"
| "dom_hydration_id _ = None"

definition item :: "dom list \<Rightarrow> nat \<Rightarrow> dom option" where
  "item ks i = (if i < length ks then Some (ks ! i) else None)"

definition find_dom_node_with_hydration_id :: "dom list \<Rightarrow> nat \<Rightarrow> string \<Rightarrow> nat option" where
  "find_dom_node_with_hydration_id ks start expected = find (\<lambda>i. dom_hydration_id (ks ! i) = Some expected) [start..<length ks]"

text \<open>\<open>insertBefore\<close> of the node at \<open>j\<close>, moved in front of the one at \<open>i\<close>; a new node in front of the one at \<open>i\<close>, or at the end.\<close>

definition move_before :: "nat \<Rightarrow> nat \<Rightarrow> dom list \<Rightarrow> dom list" where
  "move_before j i ks = take i ks @ ks ! j # drop i (take j ks) @ drop (Suc j) ks"

definition put_at :: "nat \<Rightarrow> dom \<Rightarrow> dom list \<Rightarrow> dom list" where
  "put_at i d ks = take i ks @ d # drop i ks"

definition realign_node_by_hydration_id :: "dom list \<Rightarrow> nat \<Rightarrow> string \<Rightarrow> dom list \<times> hydration_stats" where
  "realign_node_by_hydration_id ks i expected =
     (if Option.bind (item ks i) dom_hydration_id = Some expected then (ks, no_stats)
      else case find_dom_node_with_hydration_id ks (Suc i) expected of
             Some j \<Rightarrow> (move_before j i ks, no_stats\<lparr>hs_reorders := 1\<rparr>)
           | None \<Rightarrow>
               if Option.bind (item ks i) dom_hydration_id \<noteq> None then (ks, no_stats\<lparr>hs_marker_mismatches := 1\<rparr>)
               else (ks, no_stats))"

subsection \<open>The walk\<close>

definition hydrate_text :: "dom list \<Rightarrow> nat \<Rightarrow> nat \<Rightarrow> string \<Rightarrow> dom list \<times> nat \<times> hydration_stats" where
  "hydrate_text ks n i text =
     (case item ks i of
        None \<Rightarrow> (ks @ [DText n text], Suc n, no_stats\<lparr>hs_consumed := 1, hs_appends := 1\<rparr>)
      | Some real \<Rightarrow>
          (case real of
             DText k actual \<Rightarrow>
               if actual = text then (ks, n, no_stats\<lparr>hs_consumed := 1\<rparr>)
               else (ks[i := DText k text], n, no_stats\<lparr>hs_consumed := 1, hs_text_patches := 1\<rparr>)
           | _ \<Rightarrow> (ks[i := DText n text], Suc n, no_stats\<lparr>hs_consumed := 1, hs_replacements := 1\<rparr>)))"

definition hydrate_comment :: "dom list \<Rightarrow> nat \<Rightarrow> nat \<Rightarrow> string \<Rightarrow> dom list \<times> nat \<times> hydration_stats" where
  "hydrate_comment ks n i text =
     (case item ks i of
        Some (DComment _ _) \<Rightarrow> (ks, n, no_stats\<lparr>hs_consumed := 1\<rparr>)
      | _ \<Rightarrow> (put_at i (DComment n text) ks, Suc n, no_stats\<lparr>hs_consumed := 1, hs_appends := 1\<rparr>))"

definition adopts_as_is :: "string \<Rightarrow> bool" where
  "adopts_as_is tag = (eq_ignore_ascii_case tag ''script'' \<or> eq_ignore_ascii_case tag ''style'')"

text \<open>What a parent's children need once all of the virtual ones have been met: nothing may follow.\<close>

definition drop_extra :: "nat \<Rightarrow> dom list \<Rightarrow> dom list \<times> nat" where
  "drop_extra i ks = (take i ks, length ks - i)"

fun hydrate_recursive :: "browser \<Rightarrow> dom list \<Rightarrow> nat \<Rightarrow> nat \<Rightarrow> vnode \<Rightarrow> dom list \<times> nat \<times> hydration_stats"
  and hydrate_run :: "browser \<Rightarrow> dom list \<Rightarrow> nat \<Rightarrow> nat \<Rightarrow> vnode list \<Rightarrow> dom list \<times> nat \<times> hydration_stats" where
  "hydrate_recursive br ks n i (VElement tag attrs events children) =
     (case (case node_hydration_id (VElement tag attrs events children) of
              Some expected \<Rightarrow> realign_node_by_hydration_id ks i expected
            | None \<Rightarrow> (ks, no_stats)) of
        (ks1, aligned) \<Rightarrow>
          (case item ks1 i of
             None \<Rightarrow>
               (case create_dom br n (VElement tag attrs events children) of
                  (ds, n') \<Rightarrow> (ks1 @ ds, n', merge_stats (no_stats\<lparr>hs_consumed := 1, hs_appends := 1\<rparr>) aligned))
           | Some real \<Rightarrow>
               (case real of
                  DElement k t as es inner \<Rightarrow>
                    if eq_ignore_ascii_case t tag then
                      (if adopts_as_is tag then (ks1[i := DElement k t as events inner], n, merge_stats (with_consumed 1 no_stats) aligned)
                       else (case hydrate_run br inner n 0 children of
                               (inner', n', s) \<Rightarrow>
                                 (case drop_extra (hs_consumed s) inner' of
                                    (rest, removed) \<Rightarrow>
                                      (ks1[i := DElement k t as events rest], n',
                                       merge_stats (with_consumed 1 (s\<lparr>hs_removals := hs_removals s + removed\<rparr>)) aligned))))
                    else (case create_dom br n (VElement tag attrs events children) of
                            (ds, n') \<Rightarrow> (ks1[i := hd ds], n', merge_stats (no_stats\<lparr>hs_consumed := 1, hs_replacements := 1\<rparr>) aligned))
                | _ \<Rightarrow>
                    (case create_dom br n (VElement tag attrs events children) of
                       (ds, n') \<Rightarrow> (ks1[i := hd ds], n', merge_stats (no_stats\<lparr>hs_consumed := 1, hs_replacements := 1\<rparr>) aligned)))))"
| "hydrate_recursive br ks n i (VText text) = hydrate_text ks n i text"
| "hydrate_recursive br ks n i (VComment text) = hydrate_comment ks n i text"
| "hydrate_recursive br ks n i (VFragment children) = hydrate_run br ks n i children"
| "hydrate_run br ks n i [] = (ks, n, no_stats)"
| "hydrate_run br ks n i (v # vs) =
     (case hydrate_recursive br ks n i v of
        (ks1, n1, s1) \<Rightarrow>
          (case hydrate_run br ks1 n1 (i + hs_consumed s1) vs of (ks2, n2, s2) \<Rightarrow> (ks2, n2, merge_stats s1 s2)))"

text \<open>\<open>hydrate_children\<close>, and the root of a boundary.\<close>

definition hydrate_children :: "browser \<Rightarrow> dom list \<Rightarrow> nat \<Rightarrow> vnode list \<Rightarrow> dom list \<times> nat \<times> hydration_stats" where
  "hydrate_children br ks n vs =
     (case hydrate_run br ks n 0 vs of
        (ks', n', s) \<Rightarrow>
          (case drop_extra (hs_consumed s) ks' of (rest, removed) \<Rightarrow> (rest, n', s\<lparr>hs_removals := hs_removals s + removed\<rparr>)))"

definition hydrate_node :: "browser \<Rightarrow> dom list \<Rightarrow> nat \<Rightarrow> vnode \<Rightarrow> dom list \<times> nat \<times> hydration_stats" where
  "hydrate_node br ks n v = hydrate_children br ks n [v]"

subsection \<open>Boundaries\<close>

text \<open>An island's element: its attributes, by name, and its content. A factory that panics is \<open>None\<close>.\<close>

record island_element =
  ie_attrs :: attr_list
  ie_content :: "dom list"

definition BOUNDARY_STATE_ATTR :: string where
  "BOUNDARY_STATE_ATTR = ''data-krab-boundary-state''"

definition BOUNDARY_STATE_SSR :: string where
  "BOUNDARY_STATE_SSR = ''ssr''"

definition boundary_is_hydrated :: "island_element \<Rightarrow> bool" where
  "boundary_is_hydrated e = (case map_of (ie_attrs e) BOUNDARY_STATE_ATTR of Some state \<Rightarrow> state \<noteq> BOUNDARY_STATE_SSR | None \<Rightarrow> False)"

definition stamp :: "string \<Rightarrow> string \<Rightarrow> island_element \<Rightarrow> island_element" where
  "stamp name v e = e\<lparr>ie_attrs := AList.update name v (ie_attrs e)\<rparr>"

fun boundary_state_from_factory_node :: "vnode \<Rightarrow> string option" where
  "boundary_state_from_factory_node (VElement _ attrs _ _) = map_of attrs BOUNDARY_STATE_ATTR"
| "boundary_state_from_factory_node _ = None"

text \<open>
  The boundary runs off wasm: the panic of a factory is caught on the spot. \<open>annotate\<close> is
  \<open>annotate_hydration_tree\<close>, and the content of the fallback is a node with its text.
\<close>

definition fallback_content :: "nat \<Rightarrow> dom list" where
  "fallback_content n = [DElement n ''div'' [(''role'', ''alert'')] [] [DText (Suc n) ''Hydration fallback rendered.'']]"

definition boundary_id :: "string \<Rightarrow> nat \<Rightarrow> island_element \<Rightarrow> string" where
  "boundary_id name ordinal e =
     (case map_of (ie_attrs e) ''data-krab-boundary-id'' of Some b \<Rightarrow> b | None \<Rightarrow> name @ '':legacy-'' @ show_nat ordinal)"

definition boundary_props :: "island_element \<Rightarrow> string" where
  "boundary_props e = (case map_of (ie_attrs e) ''data-props'' of Some p \<Rightarrow> p | None \<Rightarrow> ''{}'')"

definition hydrate_boundary ::
  "browser \<Rightarrow> (string \<Rightarrow> (string \<Rightarrow> vnode option) option) \<Rightarrow> (vnode \<Rightarrow> string \<Rightarrow> vnode) \<Rightarrow> nat \<Rightarrow> island_element \<Rightarrow> nat \<Rightarrow> island_element \<times> nat" where
  "hydrate_boundary br factories annotate ordinal e n =
     (if boundary_is_hydrated e then (e, n)
      else case map_of (ie_attrs e) ''data-island'' of
        None \<Rightarrow> (e, n)
      | Some name \<Rightarrow>
          let bid = boundary_id name ordinal e;
              e1 = stamp BOUNDARY_STATE_ATTR ''hydrating'' (stamp ''data-krab-boundary-mismatches'' ''0''
                     (stamp ''data-krab-boundary-id'' bid (stamp ''data-krab-boundary'' name e)))
          in (case factories name of
                None \<Rightarrow> (stamp BOUNDARY_STATE_ATTR ''missing-definition'' e1, n)
              | Some factory \<Rightarrow>
                  (case factory (boundary_props e1) of
                     None \<Rightarrow> ((stamp BOUNDARY_STATE_ATTR ''error'' e1)\<lparr>ie_content := fallback_content n\<rparr>, n + 2)
                   | Some node \<Rightarrow>
                       let v = annotate node bid
                       in (case hydrate_node br (ie_content e1) n v of
                             (content, n', s) \<Rightarrow>
                               (stamp BOUNDARY_STATE_ATTR (classify_boundary_state (boundary_state_from_factory_node v) (mismatch_count s))
                                  (stamp ''data-krab-boundary-mismatches'' (show_nat (mismatch_count s)) (e1\<lparr>ie_content := content\<rparr>)), n')))))"

subsection \<open>Adopted trees\<close>

text \<open>
  What hydration guarantees: the elements, texts and comments of the tree in their order, with the tree's
  listeners. An adopted element keeps the attributes and the comment texts the server sent, and the text of a
  script.
\<close>

fun adopted :: "browser \<Rightarrow> dom \<Rightarrow> vnode \<Rightarrow> bool" and adopted_all :: "browser \<Rightarrow> dom list \<Rightarrow> vnode list \<Rightarrow> bool" where
  "adopted br (DElement i t as es ks) (VElement tag attrs events children) =
     (eq_ignore_ascii_case t tag \<and> es = events \<and> (adopts_as_is tag \<or> adopted_all br ks (flatten_children children)))"
| "adopted br (DComment i s) (VElement tag attrs events children) = (\<not> br_tag_ok br tag)"
| "adopted br (DText i s) (VText t) = (s = t)"
| "adopted br (DComment i s) (VComment t) = True"
| "adopted br _ _ = False"
| "adopted_all br [] [] = True"
| "adopted_all br (d # ds) (v # vs) = (adopted br d v \<and> adopted_all br ds vs)"
| "adopted_all br _ _ = False"

lemma adopted_all_iff: "adopted_all br ds vs \<longleftrightarrow> list_all2 (adopted br) ds vs"
  by (induction ds arbitrary: vs) (case_tac vs; simp)+


lemma adopted_all_append:
  "adopted_all br ds vs \<Longrightarrow> adopted_all br es ws \<Longrightarrow> adopted_all br (ds @ es) (vs @ ws)"
  by (simp add: adopted_all_iff list_all2_appendI)

lemma eq_ignore_ascii_case_refl [simp]: "eq_ignore_ascii_case t t"
  by (simp add: eq_ignore_ascii_case_def)

lemma created_adopted:
  "create_dom br n v = (ds, n') \<Longrightarrow> adopted_all br ds (flatten v)"
  "create_all br n vs = (ds, n') \<Longrightarrow> adopted_all br ds (flatten_children vs)"
proof (induction br n v and br n vs arbitrary: ds n' and ds n' rule: create_dom_create_all.induct)
  case (6 br n v vs)
  then show ?case by (auto split: prod.splits intro: adopted_all_append)
qed (auto split: prod.splits if_splits)

lemma created_single: "create_dom br n (VElement tag attrs events children) = (ds, n') \<Longrightarrow> \<exists>d. ds = [d]"
  by (auto split: if_splits prod.splits)

text \<open>One step of the walk: the nodes before its index stay, the ones it consumed stand for the tree.\<close>

definition walked :: "browser \<Rightarrow> dom list \<Rightarrow> nat \<Rightarrow> dom list \<Rightarrow> hydration_stats \<Rightarrow> vnode list \<Rightarrow> bool" where
  "walked br ks i ks' s vs \<longleftrightarrow>
     take i ks' = take i ks \<and> i + hs_consumed s \<le> length ks' \<and> adopted_all br (drop i (take (i + hs_consumed s) ks')) vs"

lemma walked_one:
  "i < length ks' \<Longrightarrow> take i ks' = take i ks \<Longrightarrow> hs_consumed s = 1 \<Longrightarrow> adopted br (ks' ! i) v \<Longrightarrow> walked br ks i ks' s [v]"
  by (cases "drop i ks'") (simp_all add: walked_def drop_take take_Suc hd_drop_conv_nth[symmetric])

lemma walked_two:
  assumes "walked br ks i ks1 s1 vs" "walked br ks1 (i + hs_consumed s1) ks2 s2 ws"
  shows "walked br ks i ks2 (merge_stats s1 s2) (vs @ ws)"
proof -
  let ?c = "hs_consumed s1" and ?d = "hs_consumed s2"
  have l: "i + ?c \<le> length ks1" "i + ?c + ?d \<le> length ks2" and same: "take (i + ?c) ks2 = take (i + ?c) ks1"
    using assms by (simp_all add: walked_def)
  have "take i ks2 = take i (take (i + ?c) ks2)" by (simp add: min_def)
  also have "\<dots> = take i ks1" by (simp add: same min_def)
  finally have pre: "take i ks2 = take i ks" using assms(1) by (simp add: walked_def)
  have "take (i + ?c + ?d) ks2 = take (i + ?c) ks2 @ drop (i + ?c) (take (i + ?c + ?d) ks2)"
    by (metis append_take_drop_id le_add1 min.absorb1 take_take)
  then have "drop i (take (i + ?c + ?d) ks2) = drop i (take (i + ?c) ks1 @ drop (i + ?c) (take (i + ?c + ?d) ks2))"
    by (metis same)
  then have "drop i (take (i + ?c + ?d) ks2) = drop i (take (i + ?c) ks1) @ drop (i + ?c) (take (i + ?c + ?d) ks2)"
    using l by simp
  then show ?thesis
    using assms l pre by (simp add: walked_def merge_stats_def adopted_all_append add.assoc)
qed


lemma item_None: "item ks i = None \<longleftrightarrow> length ks \<le> i"
  by (auto simp: item_def)

lemma item_Some: "item ks i = Some d \<longleftrightarrow> i < length ks \<and> ks ! i = d"
  by (auto simp: item_def)

lemma moved_before:
  assumes "i \<le> j" "j < length ks"
  shows "length (move_before j i ks) = length ks" "take i (move_before j i ks) = take i ks"
  using assms by (auto simp: move_before_def)

lemma realigned:
  assumes "realign_node_by_hydration_id ks i expected = (ks1, s)" "i \<le> length ks"
  shows "take i ks1 = take i ks \<and> length ks1 = length ks \<and> hs_consumed s = 0"
proof -
  have "find_dom_node_with_hydration_id ks (Suc i) expected = Some j \<Longrightarrow> i \<le> j \<and> j < length ks" for j
    by (auto simp: find_dom_node_with_hydration_id_def find_Some_iff simp del: upt_Suc)
  then show ?thesis
    using assms by (auto simp: realign_node_by_hydration_id_def no_stats_def moved_before split: if_splits option.splits)
qed

lemma text_walked: "hydrate_text ks n i t = (ks', n', s) \<Longrightarrow> i \<le> length ks \<Longrightarrow> walked br ks i ks' s [VText t]"
  by (rule walked_one) (auto simp: hydrate_text_def item_None item_Some no_stats_def nth_append split: option.splits dom.splits if_splits)

lemma comment_walked: "hydrate_comment ks n i t = (ks', n', s) \<Longrightarrow> i \<le> length ks \<Longrightarrow> walked br ks i ks' s [VComment t]"
  by (rule walked_one)
    (auto simp: hydrate_comment_def item_None item_Some no_stats_def put_at_def nth_append split: option.splits dom.splits)

lemma nothing_walked: "i \<le> length ks \<Longrightarrow> walked br ks i ks no_stats []"
  by (simp add: walked_def no_stats_def)

text \<open>What the children of an adopted element are left with.\<close>

lemma extras_dropped:
  "walked br inner 0 inner' s vs \<Longrightarrow> drop_extra (hs_consumed s) inner' = (rest, removed) \<Longrightarrow> adopted_all br rest vs"
  by (auto simp: walked_def drop_extra_def)


lemma element_walked:
  assumes "i \<le> length ks1" "take i ks1 = take i ks" "hs_consumed aligned = 0"
    and "case item ks1 i of
           None \<Rightarrow> \<exists>d. ks' = ks1 @ [d] \<and> adopted br d v
         | Some real \<Rightarrow> \<exists>d. ks' = ks1[i := d] \<and> adopted br d v"
    and "hs_consumed s = 1"
  shows "walked br ks i ks' (merge_stats s aligned) [v]"
  using assms by (intro walked_one) (auto simp: item_def nth_append merge_stats_def split: option.splits if_splits)

lemma walk_adopts:
  "hydrate_recursive br ks n i v = (ks', n', s) \<Longrightarrow> i \<le> length ks \<Longrightarrow> walked br ks i ks' s (flatten v)"
  "hydrate_run br ks n i vs = (ks', n', s) \<Longrightarrow> i \<le> length ks \<Longrightarrow> walked br ks i ks' s (flatten_children vs)"
proof (induction br ks n i v and br ks n i vs arbitrary: ks' n' s and ks' n' s rule: hydrate_recursive_hydrate_run.induct)
  case (1 br ks n i tag attrs events children)
  let ?v = "VElement tag attrs events children"
  obtain ks1 aligned where al: "(case node_hydration_id ?v of Some expected \<Rightarrow> realign_node_by_hydration_id ks i expected
      | None \<Rightarrow> (ks, no_stats)) = (ks1, aligned)" by fastforce
  have pre: "i \<le> length ks1" "take i ks1 = take i ks" "hs_consumed aligned = 0"
    using al realigned [OF _ "1.prems"(2)] "1.prems"(2) by (auto simp: no_stats_def split: option.splits)
  obtain ds m where made: "create_dom br n ?v = (ds, m)" by fastforce
  obtain d where d: "ds = [d]" using created_single [OF made] by blast
  have new: "adopted br d ?v" using created_adopted(1) [OF made] by (simp add: d)
  note unfolded = "1.prems"(1) [unfolded hydrate_recursive.simps(1) al prod.case made]
  show ?case
  proof (cases "item ks1 i")
    case None
    with unfolded d new show ?thesis
      by (auto intro!: element_walked [OF pre] simp: no_stats_def)
  next
    case (Some real)
    show ?thesis
    proof (cases "\<exists>k t as es inner. real = DElement k t as es inner \<and> eq_ignore_ascii_case t tag")
      case False
      with unfolded d new Some show ?thesis
        by (auto intro!: element_walked [OF pre] simp: no_stats_def split: dom.splits if_splits)
    next
      case True
      then obtain k t as es inner where real: "real = DElement k t as es inner" "eq_ignore_ascii_case t tag" by blast
      show ?thesis
      proof (cases "adopts_as_is tag")
        case True
        with unfolded Some real show ?thesis
          by (auto intro!: element_walked [OF pre] exI [of _ "DElement k t as events inner"] simp: no_stats_def with_consumed_def)
      next
        case False
        obtain inner' n2 s2 where walk: "hydrate_run br inner n 0 children = (inner', n2, s2)" by (metis prod_cases3)
        obtain rest removed where dropped: "drop_extra (hs_consumed s2) inner' = (rest, removed)" by fastforce
        have "walked br inner 0 inner' s2 (flatten_children children)"
          using "1.IH" [OF al [symmetric] Some real(1) real(2) False walk] by simp
        from extras_dropped [OF this dropped] False unfolded Some real walk dropped show ?thesis
          by (auto intro!: element_walked [OF pre] exI [of _ "DElement k t as events rest"] simp: with_consumed_def)
      qed
    qed
  qed
next
  case (6 br ks n i v vs)
  obtain ks1 n1 s1 where one: "hydrate_recursive br ks n i v = (ks1, n1, s1)" by (metis prod_cases3)
  obtain ks2 n2 s2 where rest: "hydrate_run br ks1 n1 (i + hs_consumed s1) vs = (ks2, n2, s2)" by (metis prod_cases3)
  have w: "walked br ks i ks1 s1 (flatten v)" by (rule "6.IH"(1) [OF one "6.prems"(2)])
  then have "i + hs_consumed s1 \<le> length ks1" by (simp add: walked_def)
  from walked_two [OF w "6.IH"(2) [OF one [symmetric] refl rest this]] show ?case
    using "6.prems"(1) one rest by simp
qed (auto simp: text_walked comment_walked nothing_walked)


subsection \<open>What the report is worth\<close>

text \<open>A document without its listeners, and markup the walk has nothing to say about.\<close>

fun bare :: "dom \<Rightarrow> dom" where
  "bare (DElement k t as es ks) = DElement k t as [] (map bare ks)"
| "bare (DText k s) = DText k s"
| "bare (DComment k s) = DComment k s"

fun agrees :: "dom \<Rightarrow> vnode \<Rightarrow> bool" and agrees_all :: "dom list \<Rightarrow> vnode list \<Rightarrow> bool" where
  "agrees (DElement k t as es ks) (VElement tag attrs events children) =
     (eq_ignore_ascii_case t tag \<and> (case map_of attrs HYDRATION_NODE_ID_ATTR of Some x \<Rightarrow> map_of as HYDRATION_NODE_ID_ATTR = Some x | None \<Rightarrow> True)
      \<and> (adopts_as_is tag \<or> agrees_all ks (flatten_children children)))"
| "agrees (DText k s) (VText t) = (s = t)"
| "agrees (DComment k s) (VComment t) = True"
| "agrees _ _ = False"
| "agrees_all [] [] = True"
| "agrees_all (d # ds) (v # vs) = (agrees d v \<and> agrees_all ds vs)"
| "agrees_all _ _ = False"

lemma agrees_all_iff: "agrees_all ds vs \<longleftrightarrow> list_all2 agrees ds vs"
  by (induction ds arbitrary: vs) (case_tac vs; simp)+

lemma agrees_all_split:
  assumes "agrees_all ds (vs @ ws)"
  obtains es fs where "ds = es @ fs" "agrees_all es vs" "agrees_all fs ws"
proof -
  obtain es fs where "ds = es @ fs" "list_all2 agrees es vs" "list_all2 agrees fs ws"
    using assms unfolding agrees_all_iff list_all2_append2 by blast
  then show ?thesis by (intro that) (simp_all add: agrees_all_iff)
qed

lemma mismatches [simp]:
  "mismatch_count no_stats = 0"
  "mismatch_count (merge_stats a b) = mismatch_count a + mismatch_count b"
  "mismatch_count (with_consumed n s) = mismatch_count s"
  "mismatch_count (s\<lparr>hs_consumed := n\<rparr>) = mismatch_count s"
  by (simp_all add: mismatch_count_def no_stats_def merge_stats_def with_consumed_def)

lemma consumed_merged: "hs_consumed (merge_stats a b) = hs_consumed a + hs_consumed b"
  by (simp add: merge_stats_def)

lemma mismatches_removed [simp]:
  "mismatch_count (s\<lparr>hs_removals := hs_removals s + r\<rparr>) = mismatch_count s + r"
  by (simp add: mismatch_count_def)

lemma nothing_dropped: "drop_extra c ks = (rest, 0) \<Longrightarrow> rest = ks"
  by (auto simp: drop_extra_def)

lemma quiet_walk_leaves_the_document:
  "hydrate_recursive br ks n i v = (ks', n', s) \<Longrightarrow> mismatch_count s = 0 \<Longrightarrow> n' = n \<and> map bare ks' = map bare ks"
  "hydrate_run br ks n i vs = (ks', n', s) \<Longrightarrow> mismatch_count s = 0 \<Longrightarrow> n' = n \<and> map bare ks' = map bare ks"
proof (induction br ks n i v and br ks n i vs arbitrary: ks' n' s and ks' n' s rule: hydrate_recursive_hydrate_run.induct)
  case (1 br ks n i tag attrs events children)
  let ?v = "VElement tag attrs events children"
  obtain ks1 aligned where al: "(case node_hydration_id ?v of Some expected \<Rightarrow> realign_node_by_hydration_id ks i expected
      | None \<Rightarrow> (ks, no_stats)) = (ks1, aligned)" by fastforce
  have still: "mismatch_count aligned = 0 \<Longrightarrow> ks1 = ks"
    using al by (auto simp: realign_node_by_hydration_id_def mismatch_count_def no_stats_def split: option.splits if_splits)
  obtain ds m where made: "create_dom br n ?v = (ds, m)" by fastforce
  note unfolded = "1.prems"(1) [unfolded hydrate_recursive.simps(1) al prod.case made]
  show ?case
  proof (cases "\<exists>k t as es inner. item ks1 i = Some (DElement k t as es inner) \<and> eq_ignore_ascii_case t tag")
    case False
    with unfolded "1.prems"(2) show ?thesis
      by (auto simp: mismatch_count_def merge_stats_def no_stats_def split: option.splits dom.splits if_splits)
  next
    case True
    then obtain k t as es inner where real: "item ks1 i = Some (DElement k t as es inner)" "eq_ignore_ascii_case t tag" by blast
    then have at: "i < length ks1" "ks1 ! i = DElement k t as es inner" by (simp_all add: item_Some)
    have keep: "map bare (ks1[i := DElement k t as events rest]) = map bare ks1" if "map bare rest = map bare inner" for rest
      using at that by (simp add: map_update list_update_same_conv)
    show ?thesis
    proof (cases "adopts_as_is tag")
      case True
      with unfolded real "1.prems"(2) still keep show ?thesis by auto
    next
      case False
      obtain inner' n2 s2 where walk: "hydrate_run br inner n 0 children = (inner', n2, s2)" by (metis prod_cases3)
      obtain rest removed where dropped: "drop_extra (hs_consumed s2) inner' = (rest, removed)" by fastforce
      have eqs: "ks' = ks1[i := DElement k t as events rest]" "n' = n2" "mismatch_count s2 = 0" "removed = 0" "mismatch_count aligned = 0"
        using unfolded real False walk dropped "1.prems"(2) by (auto simp: with_consumed_def)
      have "n2 = n \<and> map bare inner' = map bare inner"
        using "1.IH" [OF al [symmetric] real(1) refl real(2) False walk eqs(3)] by simp
      moreover have "rest = inner'" using dropped eqs(4) nothing_dropped by simp
      ultimately show ?thesis using eqs keep still by simp
    qed
  qed
next
  case (6 br ks n i v vs)
  obtain ks1 n1 s1 where one: "hydrate_recursive br ks n i v = (ks1, n1, s1)" by (metis prod_cases3)
  obtain ks2 n2 s2 where rest: "hydrate_run br ks1 n1 (i + hs_consumed s1) vs = (ks2, n2, s2)" by (metis prod_cases3)
  have "mismatch_count s1 = 0" "mismatch_count s2 = 0" using "6.prems" one rest by auto
  with "6.IH"(1) [OF one] "6.IH"(2) [OF one [symmetric] refl rest] show ?case
    using "6.prems"(1) one rest by simp
qed (auto simp: hydrate_text_def hydrate_comment_def mismatch_count_def no_stats_def split: option.splits dom.splits if_splits)


text \<open>The walk over markup that agrees: it stays in step, and says nothing.\<close>

definition in_step :: "dom list \<Rightarrow> dom list \<Rightarrow> dom list \<Rightarrow> dom list \<times> nat \<times> hydration_stats \<Rightarrow> bool" where
  "in_step pre ds rest r \<longleftrightarrow>
     (case r of (ks', _, s) \<Rightarrow>
        mismatch_count s = 0 \<and> hs_consumed s = length ds \<and> (\<exists>ds'. length ds' = length ds \<and> ks' = pre @ ds' @ rest))"

lemma in_stepI: "mismatch_count s = 0 \<Longrightarrow> hs_consumed s = length ds \<Longrightarrow> length ds' = length ds \<Longrightarrow> in_step pre ds rest (pre @ ds' @ rest, n, s)"
  by (auto simp: in_step_def)

lemma in_step_one: "mismatch_count s = 0 \<Longrightarrow> hs_consumed s = 1 \<Longrightarrow> in_step pre [d] rest (pre @ e # rest, n, s)"
  using in_stepI [of s "[d]" "[e]"] by simp

lemma item_at: "i = length pre \<Longrightarrow> item (pre @ d # rest) i = Some d"
  by (simp add: item_def)

lemma agreeing_walk_is_in_step:
  "ks = pre @ ds @ rest \<Longrightarrow> i = length pre \<Longrightarrow> agrees_all ds (flatten v) \<Longrightarrow> in_step pre ds rest (hydrate_recursive br ks n i v)"
  "ks = pre @ ds @ rest \<Longrightarrow> i = length pre \<Longrightarrow> agrees_all ds (flatten_children vs) \<Longrightarrow> in_step pre ds rest (hydrate_run br ks n i vs)"
proof (induction br ks n i v and br ks n i vs arbitrary: pre ds rest and pre ds rest rule: hydrate_recursive_hydrate_run.induct)
  case (1 br ks n i tag attrs events children)
  let ?v = "VElement tag attrs events children"
  obtain d where ds: "ds = [d]" and d: "agrees d ?v" using "1.prems"(3) by (cases ds) (auto simp: agrees_all_iff)
  obtain k t as es inner where D: "d = DElement k t as es inner" using d by (cases d) auto
  have tag: "eq_ignore_ascii_case t tag" and below: "\<not> adopts_as_is tag \<Longrightarrow> agrees_all inner (flatten_children children)"
    using d D by auto
  have it: "item ks i = Some (DElement k t as es inner)" using "1.prems" ds D by (simp add: item_at)
  have al: "(case node_hydration_id ?v of Some expected \<Rightarrow> realign_node_by_hydration_id ks i expected
      | None \<Rightarrow> (ks, no_stats)) = (ks, no_stats)"
    using d D it by (auto simp: realign_node_by_hydration_id_def split: option.splits)
  have swapped: "ks[i := e] = pre @ [e] @ rest" for e using "1.prems" ds by simp
  show ?case
  proof (cases "adopts_as_is tag")
    case True
    then show ?thesis
      unfolding hydrate_recursive.simps(1) al using it tag
      by (auto simp: swapped ds with_consumed_def no_stats_def merge_stats_def mismatch_count_def intro!: in_step_one)
  next
    case False
    obtain inner' n2 s2 where walk: "hydrate_run br inner n 0 children = (inner', n2, s2)" by (metis prod_cases3)
    have "in_step [] inner [] (inner', n2, s2)"
      using "1.IH" [OF al [symmetric] it refl tag False _ _ below [OF False], of "[]" "[]"] walk by simp
    then have "mismatch_count s2 = 0" "hs_consumed s2 = length inner'" by (auto simp: in_step_def)
    then show ?thesis
      unfolding hydrate_recursive.simps(1) al using it tag False walk
      by (auto simp: swapped ds with_consumed_def no_stats_def merge_stats_def mismatch_count_def drop_extra_def intro!: in_step_one)
  qed
next
  case (6 br ks n i v vs)
  obtain es fs where split: "ds = es @ fs" and e: "agrees_all es (flatten v)" and f: "agrees_all fs (flatten_children vs)"
    using "6.prems"(3) agrees_all_split by (metis flatten_children.simps(2))
  obtain ks1 n1 s1 where one: "hydrate_recursive br ks n i v = (ks1, n1, s1)" by (metis prod_cases3)
  have "in_step pre es (fs @ rest) (ks1, n1, s1)" using "6.IH"(1) [OF _ "6.prems"(2) e] "6.prems"(1) split one by simp
  then obtain es' where s1: "mismatch_count s1 = 0" "hs_consumed s1 = length es" "length es' = length es" "ks1 = pre @ es' @ fs @ rest"
    by (auto simp: in_step_def)
  have "in_step (pre @ es') fs rest (hydrate_run br ks1 n1 (i + hs_consumed s1) vs)"
    using "6.IH"(2) [OF one [symmetric] refl _ _ f, of "pre @ es'" rest] s1 "6.prems"(2) by simp
  then show ?case
    using one s1 split by (auto simp: in_step_def consumed_merged split: prod.splits intro: exI [of _ "es' @ _"])
qed (auto simp: hydrate_text_def hydrate_comment_def item_at in_step_def no_stats_def mismatch_count_def agrees_all_iff list_all2_Cons2
       elim!: agrees.elims)


subsection \<open>Properties\<close>

lemma children_walk:
  assumes "hydrate_children br ks n vs = (ks', n', s)"
  obtains ks1 s1 removed where "hydrate_run br ks n 0 vs = (ks1, n', s1)"
    "drop_extra (hs_consumed s1) ks1 = (ks', removed)" "mismatch_count s = mismatch_count s1 + removed"
  using assms by (auto simp: hydrate_children_def split: prod.splits)

lemma children_adopted:
  assumes "hydrate_children br ks n vs = (ks', n', s)"
  shows "adopted_all br ks' (flatten_children vs)"
  using assms by (rule children_walk) (metis extras_dropped walk_adopts(2) zero_le)

lemma quiet_children:
  assumes "hydrate_children br ks n vs = (ks', n', s)" and "mismatch_count s = 0"
  shows "n' = n \<and> map bare ks' = map bare ks"
  using assms(1)
proof (rule children_walk)
  fix ks1 s1 removed
  assume walk: "hydrate_run br ks n 0 vs = (ks1, n', s1)" "drop_extra (hs_consumed s1) ks1 = (ks', removed)"
    "mismatch_count s = mismatch_count s1 + removed"
  then have "mismatch_count s1 = 0" "ks' = ks1" using assms(2) nothing_dropped by auto
  then show ?thesis using quiet_walk_leaves_the_document(2) [OF walk(1)] by simp
qed

lemma agreeing_children:
  assumes "hydrate_children br ks n vs = (ks', n', s)" and "agrees_all ks (flatten_children vs)"
  shows "mismatch_count s = 0"
  using assms(1)
proof (rule children_walk)
  fix ks1 s1 removed
  assume walk: "hydrate_run br ks n 0 vs = (ks1, n', s1)" "drop_extra (hs_consumed s1) ks1 = (ks', removed)"
    "mismatch_count s = mismatch_count s1 + removed"
  have "in_step [] ks [] (ks1, n', s1)" using agreeing_walk_is_in_step(2) [of ks "[]" ks "[]" 0 vs br n] assms(2) walk(1) by simp
  then show ?thesis using walk by (auto simp: in_step_def drop_extra_def)
qed

text \<open>
  C35: hydration. Whatever the children of the element were before, afterwards they are the tree's: its elements,
  texts and comments in order, each element with the tree's listeners and, below it, its children; nothing else is
  left. A walk that counts no mismatch built no node and changed nothing but listeners, so the state \<open>ok\<close> is
  honest; and markup that agrees with the tree is adopted without a mismatch.
\<close>

theorem hydration_shows_the_tree:
  assumes "hydrate_children br ks n vs = (ks', n', s)"
  shows "adopted_all br ks' (flatten_children vs) \<and>
    (mismatch_count s = 0 \<longrightarrow> n' = n \<and> map bare ks' = map bare ks) \<and>
    (agrees_all ks (flatten_children vs) \<longrightarrow> mismatch_count s = 0)"
  using children_adopted [OF assms] quiet_children [OF assms] agreeing_children [OF assms] by blast

definition sample_counter :: vnode where
  "sample_counter = VElement ''div'' [(''class'', ''counter'')] [] [VElement ''button'' [] [(''click'', 7)] [VText ''+''], VText ''3'']"

definition sample_markup :: "dom list" where
  "sample_markup = [DElement 0 ''DIV'' [(''class'', ''counter'')] [] [DElement 1 ''BUTTON'' [] [] [DText 2 ''+''], DText 3 ''2'', DElement 4 ''BR'' [] [] []]]"

lemma sample_hydrated:
  "hydrate_children sample_browser sample_markup 5 [sample_counter] =
     ([DElement 0 ''DIV'' [(''class'', ''counter'')] [] [DElement 1 ''BUTTON'' [] [(''click'', 7)] [DText 2 ''+''], DText 3 ''3'']], 5,
      \<lparr>hs_consumed = 1, hs_replacements = 0, hs_appends = 0, hs_removals = 1, hs_reorders = 0, hs_text_patches = 1, hs_marker_mismatches = 0\<rparr>)"
  by code_simp

lemma hydration_shows_the_tree_witness:
  "adopted_all sample_browser
     [DElement 0 ''DIV'' [(''class'', ''counter'')] [] [DElement 1 ''BUTTON'' [] [(''click'', 7)] [DText 2 ''+''], DText 3 ''3'']]
     (flatten_children [sample_counter])"
  using hydration_shows_the_tree [OF sample_hydrated] by (rule conjunct1)

lemma stamped: "map_of (ie_attrs (stamp k v e)) = (map_of (ie_attrs e))(k \<mapsto> v)" "ie_content (stamp k v e) = ie_content e"
  by (auto simp: stamp_def AList.update_conv')

lemma props_stamped: "k \<noteq> ''data-props'' \<Longrightarrow> boundary_props (stamp k v e) = boundary_props e"
  by (simp add: boundary_props_def stamped)

lemma hydrated_again: "boundary_is_hydrated e \<Longrightarrow> hydrate_boundary br factories annotate ordinal e m = (e, m)"
  by (simp add: hydrate_boundary_def)

lemma hydrated_state: "map_of (ie_attrs e) BOUNDARY_STATE_ATTR = Some state \<Longrightarrow> state \<noteq> BOUNDARY_STATE_SSR \<Longrightarrow> boundary_is_hydrated e"
  by (simp add: boundary_is_hydrated_def)

definition final_states :: "string set" where
  "final_states = {''ok'', ''patched'', ''error'', ''decode-error''}"

lemma classified: "classify_boundary_state st m \<in> final_states" "classify_boundary_state st m = ''ok'' \<Longrightarrow> m = 0"
  "state \<in> final_states \<Longrightarrow> state \<noteq> BOUNDARY_STATE_SSR"
  by (auto simp: classify_boundary_state_def final_states_def BOUNDARY_STATE_SSR_def split: if_splits)

text \<open>
  C36: a boundary is hydrated once, and what it then says holds. The first pass over a waiting island leaves it in
  one of the final states, and every later pass leaves the island as it is. A factory that answers has its tree on
  show; \<open>ok\<close> means the server's markup was kept; an island with no factory keeps
  its content; a factory that fails leaves the fallback.
\<close>

theorem boundary_is_hydrated_once:
  assumes "\<not> boundary_is_hydrated e" and "map_of (ie_attrs e) ''data-island'' = Some name"
    and "hydrate_boundary br factories annotate ordinal e n = (e', n')"
  shows "hydrate_boundary br factories annotate ordinal' e' m = (e', m) \<and>
    (case factories name of
       None \<Rightarrow> map_of (ie_attrs e') BOUNDARY_STATE_ATTR = Some ''missing-definition'' \<and> ie_content e' = ie_content e
     | Some factory \<Rightarrow>
         (case factory (boundary_props e) of
            None \<Rightarrow> map_of (ie_attrs e') BOUNDARY_STATE_ATTR = Some ''error'' \<and> ie_content e' = fallback_content n
          | Some node \<Rightarrow>
              adopted_all br (ie_content e') (flatten (annotate node (boundary_id name ordinal e))) \<and>
              (\<exists>state \<in> final_states.
                map_of (ie_attrs e') BOUNDARY_STATE_ATTR = Some state \<and>
                (state = ''ok'' \<longrightarrow> map bare (ie_content e') = map bare (ie_content e)))))"
proof -
  let ?e1 = "stamp BOUNDARY_STATE_ATTR ''hydrating'' (stamp ''data-krab-boundary-mismatches'' ''0''
               (stamp ''data-krab-boundary-id'' (boundary_id name ordinal e) (stamp ''data-krab-boundary'' name e)))"
  have e1: "boundary_props ?e1 = boundary_props e" "ie_content ?e1 = ie_content e"
    by (simp_all add: props_stamped stamped BOUNDARY_STATE_ATTR_def)
  note result = assms(3) [unfolded hydrate_boundary_def, simplified assms(1,2) if_False option.case Let_def e1]
  show ?thesis
  proof (cases "factories name")
    case None
    then have e': "e' = stamp BOUNDARY_STATE_ATTR ''missing-definition'' ?e1" using result by simp
    then have "boundary_is_hydrated e'" by (intro hydrated_state) (auto simp: stamped BOUNDARY_STATE_SSR_def)
    then show ?thesis using None e' by (simp add: hydrated_again stamped)
  next
    case (Some factory)
    show ?thesis
    proof (cases "factory (boundary_props e)")
      case None
      then have e': "e' = (stamp BOUNDARY_STATE_ATTR ''error'' ?e1)\<lparr>ie_content := fallback_content n\<rparr>"
        using result Some by simp
      then have "boundary_is_hydrated e'" by (intro hydrated_state) (auto simp: stamped BOUNDARY_STATE_SSR_def)
      then show ?thesis using None Some e' by (simp add: hydrated_again stamped)
    next
      case answer: (Some node)
      let ?v = "annotate node (boundary_id name ordinal e)"
      obtain content n1 s where walk: "hydrate_children br (ie_content e) n [?v] = (content, n1, s)" by (metis prod_cases3)
      define state where "state = classify_boundary_state (boundary_state_from_factory_node ?v) (mismatch_count s)"
      have e': "e' = stamp BOUNDARY_STATE_ATTR state (stamp ''data-krab-boundary-mismatches'' (show_nat (mismatch_count s)) (?e1\<lparr>ie_content := content\<rparr>))"
        using result Some answer walk by (simp add: hydrate_node_def state_def Let_def)
      have st: "map_of (ie_attrs e') BOUNDARY_STATE_ATTR = Some state" "ie_content e' = content" by (simp_all add: e' stamped)
      moreover have "state \<in> final_states" by (simp add: state_def classified)
      moreover have "boundary_is_hydrated e'" using st classified(3) [OF calculation(3)] by (intro hydrated_state)
      moreover have "state = ''ok'' \<Longrightarrow> mismatch_count s = 0" using classified(2) by (simp add: state_def)
      ultimately show ?thesis
        using children_adopted [OF walk] quiet_children [OF walk] Some answer by (auto simp: hydrated_again)
    qed
  qed
qed


definition sample_island :: island_element where
  "sample_island = \<lparr>ie_attrs = [(''data-island'', ''Counter''), (BOUNDARY_STATE_ATTR, BOUNDARY_STATE_SSR), (''data-krab-boundary-id'', ''b1'')], ie_content = sample_markup\<rparr>"

definition sample_factories :: "string \<Rightarrow> (string \<Rightarrow> vnode option) option" where
  "sample_factories name = (if name = ''Counter'' then Some (\<lambda>props. Some sample_counter) else None)"

lemma sample_island_hydrated:
  "hydrate_boundary sample_browser sample_factories (\<lambda>v _. v) 0 sample_island 5 =
     (\<lparr>ie_attrs = [(''data-island'', ''Counter''), (''data-krab-boundary-state'', ''patched''), (''data-krab-boundary-id'', ''b1''),
        (''data-krab-boundary'', ''Counter''), (''data-krab-boundary-mismatches'', ''2'')],
       ie_content = [DElement 0 ''DIV'' [(''class'', ''counter'')] [] [DElement 1 ''BUTTON'' [] [(''click'', 7)] [DText 2 ''+''], DText 3 ''3'']]\<rparr>, 5)"
  by code_simp

lemma boundary_is_hydrated_once_witness:
  "hydrate_boundary sample_browser sample_factories (\<lambda>v _. v) 9
     \<lparr>ie_attrs = [(''data-island'', ''Counter''), (''data-krab-boundary-state'', ''patched''), (''data-krab-boundary-id'', ''b1''),
        (''data-krab-boundary'', ''Counter''), (''data-krab-boundary-mismatches'', ''2'')],
       ie_content = [DElement 0 ''DIV'' [(''class'', ''counter'')] [] [DElement 1 ''BUTTON'' [] [(''click'', 7)] [DText 2 ''+''], DText 3 ''3'']]\<rparr> 9 =
     (\<lparr>ie_attrs = [(''data-island'', ''Counter''), (''data-krab-boundary-state'', ''patched''), (''data-krab-boundary-id'', ''b1''),
        (''data-krab-boundary'', ''Counter''), (''data-krab-boundary-mismatches'', ''2'')],
       ie_content = [DElement 0 ''DIV'' [(''class'', ''counter'')] [] [DElement 1 ''BUTTON'' [] [(''click'', 7)] [DText 2 ''+''], DText 3 ''3'']]\<rparr>, 9)"
proof -
  have "\<not> boundary_is_hydrated sample_island" "map_of (ie_attrs sample_island) ''data-island'' = Some ''Counter''"
    by (simp_all add: boundary_is_hydrated_def sample_island_def BOUNDARY_STATE_ATTR_def)
  from boundary_is_hydrated_once [OF this sample_island_hydrated, of 9 9] show ?thesis by (rule conjunct1)
qed

subsection \<open>Limits\<close>

text \<open>
  A parser joins neighbouring texts and drops an empty one. Two text children that the server rendered next to each
  other are one node on the page: the walk patches it, adds the second, and reports two mismatches for correct
  markup. An empty text in front of an element takes the element's place: the element is thrown away with its
  identity (what the user typed into it, say), and built anew.
\<close>

lemma neighbouring_texts_are_patched:
  "hydrate_children sample_browser [DText 0 ''Count: 3''] 1 [VText ''Count: '', VText ''3''] =
     ([DText 0 ''Count: '', DText 1 ''3''], 2,
      \<lparr>hs_consumed = 2, hs_replacements = 0, hs_appends = 1, hs_removals = 0, hs_reorders = 0, hs_text_patches = 1, hs_marker_mismatches = 0\<rparr>)"
  by code_simp

lemma empty_text_takes_the_element:
  "hydrate_children sample_browser [DElement 0 ''INPUT'' [(''name'', ''q'')] [] []] 1 [VText [], VElement ''input'' [(''name'', ''q'')] [] []] =
     ([DText 1 [], DElement 2 ''input'' [(''name'', ''q'')] [] []], 3,
      \<lparr>hs_consumed = 2, hs_replacements = 1, hs_appends = 1, hs_removals = 0, hs_reorders = 0, hs_text_patches = 0, hs_marker_mismatches = 0\<rparr>)"
  by code_simp

end
