(* ===== verification/EventStream.thy ===== *)
theory EventStream
  imports KrabPrelude
begin

text \<open>
  Server-sent events on the client: the streaming half of \<open>krab_core/src/server_fn.rs\<close>. The body of a response
  arrives as chunks of bytes; \<open>take_complete_utf8\<close> holds back a character that is not complete, the parser turns
  text into events, and \<open>next\<close> hands them out one by one. Characters are the bytes of the encoded text.
\<close>

subsection \<open>Decoding\<close>

text \<open>What a decoder finds at the head of a text: a character of so many bytes, so many bytes of an invalid one, or the start of one.\<close>

datatype utf8_step = Whole nat | Broken nat | Short

definition byte_in :: "nat \<Rightarrow> nat \<Rightarrow> char \<Rightarrow> bool" where
  "byte_in lo hi c = (lo \<le> (of_char c :: nat) \<and> (of_char c :: nat) \<le> hi)"

definition second_ok :: "char \<Rightarrow> char \<Rightarrow> bool" where
  "second_ok b0 b1 =
     (if byte_in 0xE0 0xE0 b0 then byte_in 0xA0 0xBF b1
      else if byte_in 0xED 0xED b0 then byte_in 0x80 0x9F b1
      else if byte_in 0xF0 0xF0 b0 then byte_in 0x90 0xBF b1
      else if byte_in 0xF4 0xF4 b0 then byte_in 0x80 0x8F b1
      else byte_in 0x80 0xBF b1)"

definition utf8_width :: "char \<Rightarrow> nat" where
  "utf8_width b =
     (if byte_in 0 0x7F b then 1 else if byte_in 0xC2 0xDF b then 2
      else if byte_in 0xE0 0xEF b then 3 else if byte_in 0xF0 0xF4 b then 4 else 0)"

text \<open>The bytes after the second, of which \<open>k\<close> are wanted and \<open>have\<close> precede them.\<close>

fun utf8_tail :: "nat \<Rightarrow> nat \<Rightarrow> string \<Rightarrow> utf8_step" where
  "utf8_tail got 0 s = Whole got"
| "utf8_tail got (Suc k) [] = Short"
| "utf8_tail got (Suc k) (b # s) = (if byte_in 0x80 0xBF b then utf8_tail (Suc got) k s else Broken got)"

fun utf8_next :: "string \<Rightarrow> utf8_step" where
  "utf8_next [] = Short"
| "utf8_next (b # s) =
     (if utf8_width b = 0 then Broken 1
      else if utf8_width b = 1 then Whole 1
      else (case s of
              [] \<Rightarrow> Short
            | c # t \<Rightarrow> if second_ok b c then utf8_tail 2 (utf8_width b - 2) t else Broken 1))"

lemma utf8_tail_bounds:
  "utf8_tail got k s = Whole n \<Longrightarrow> got \<le> n \<and> n \<le> got + length s" "utf8_tail got k s = Broken n \<Longrightarrow> got \<le> n \<and> n \<le> got + length s"
  by (induction got k s rule: utf8_tail.induct) (auto split: if_splits)

lemma utf8_next_bounds:
  "utf8_next s = Whole n \<Longrightarrow> 0 < n \<and> n \<le> length s" "utf8_next s = Broken n \<Longrightarrow> 0 < n \<and> n \<le> length s"
  by (cases s; auto split: if_splits list.splits dest: utf8_tail_bounds)+

lemma utf8_tail_extends: "utf8_tail got k s \<noteq> Short \<Longrightarrow> utf8_tail got k (s @ t) = utf8_tail got k s"
  by (induction got k s rule: utf8_tail.induct) auto

lemma utf8_next_extends: "utf8_next s \<noteq> Short \<Longrightarrow> utf8_next (s @ t) = utf8_next s"
  by (cases s) (auto simp: utf8_tail_extends split: list.splits if_splits)

text \<open>The longest valid prefix and what follows; decoding with replacements.\<close>

function valid_part :: "string \<Rightarrow> string \<times> string" where
  "valid_part s =
     (case utf8_next s of
        Whole k \<Rightarrow> (case valid_part (drop k s) of (a, b) \<Rightarrow> (take k s @ a, b))
      | _ \<Rightarrow> ([], s))"
  by auto
termination by (relation "measure length") (auto dest: utf8_next_bounds)

declare valid_part.simps [simp del]

definition REPLACEMENT :: string where
  "REPLACEMENT = [CHR 0xEF, CHR 0xBF, CHR 0xBD]"

function from_utf8_lossy :: "string \<Rightarrow> string" where
  "from_utf8_lossy s =
     (if s = [] then []
      else case utf8_next s of
        Whole k \<Rightarrow> take k s @ from_utf8_lossy (drop k s)
      | Broken k \<Rightarrow> REPLACEMENT @ from_utf8_lossy (drop k s)
      | Short \<Rightarrow> REPLACEMENT)"
  by auto
termination by (relation "measure length") (auto dest: utf8_next_bounds)

declare from_utf8_lossy.simps [simp del]

definition take_complete_utf8 :: "string \<Rightarrow> string \<times> string" where
  "take_complete_utf8 buf =
     (case valid_part buf of
        (text, rest) \<Rightarrow>
          if rest = [] then (text, [])
          else if utf8_next rest = Short then (text, rest)
          else (from_utf8_lossy buf, []))"

subsection \<open>The parser\<close>

record server_event =
  ev_event :: "string option"
  ev_data :: string
  ev_id :: "string option"

record sse_parser =
  sp_line :: string
  sp_pending_cr :: bool
  sp_event :: "string option"
  sp_data :: "string list"
  sp_id :: "string option"

definition sse_parser_default :: sse_parser where
  "sse_parser_default = \<lparr>sp_line = [], sp_pending_cr = False, sp_event = None, sp_data = [], sp_id = None\<rparr>"

definition sse_field :: "string \<Rightarrow> string \<times> string" where
  "sse_field line =
     (case split_once (CHR '':'') line of
        Some (field, value) \<Rightarrow> (field, case strip_prefix '' '' value of Some v \<Rightarrow> v | None \<Rightarrow> value)
      | None \<Rightarrow> (line, []))"

definition end_line :: "sse_parser \<Rightarrow> server_event list \<times> sse_parser" where
  "end_line p0 =
     (let line = sp_line p0; p = p0\<lparr>sp_line := []\<rparr>
      in if line = [] then
           (if sp_data p \<noteq> [] then
              ([\<lparr>ev_event = sp_event p, ev_data = join [CHR 0x0A] (sp_data p), ev_id = sp_id p\<rparr>], p\<lparr>sp_event := None, sp_data := []\<rparr>)
            else ([], p\<lparr>sp_event := None\<rparr>))
         else if starts_with line '':'' then ([], p)
         else (case sse_field line of
                 (field, value) \<Rightarrow>
                   ([], if field = ''event'' then p\<lparr>sp_event := Some value\<rparr>
                        else if field = ''data'' then p\<lparr>sp_data := sp_data p @ [value]\<rparr>
                        else if field = ''id'' \<and> CHR 0x00 \<notin> set value then p\<lparr>sp_id := Some value\<rparr>
                        else p)))"

definition push_char :: "sse_parser \<Rightarrow> char \<Rightarrow> server_event list \<times> sse_parser" where
  "push_char p0 ch =
     (let p = p0\<lparr>sp_pending_cr := False\<rparr>
      in if sp_pending_cr p0 \<and> ch = CHR 0x0A then ([], p)
         else if ch = CHR 0x0D then end_line (p\<lparr>sp_pending_cr := True\<rparr>)
         else if ch = CHR 0x0A then end_line p
         else ([], p\<lparr>sp_line := sp_line p @ [ch]\<rparr>))"

fun push :: "sse_parser \<Rightarrow> string \<Rightarrow> server_event list \<times> sse_parser" where
  "push p [] = ([], p)"
| "push p (ch # text) =
     (case push_char p ch of (out, p1) \<Rightarrow> (case push p1 text of (later, p2) \<Rightarrow> (out @ later, p2)))"

definition finish :: "sse_parser \<Rightarrow> server_event list \<times> sse_parser" where
  "finish p = ([], sse_parser_default)"

subsection \<open>The stream\<close>

text \<open>What a read of the response body answers.\<close>

datatype read_reply = ReadFailed | ReadDone | ReadNoValue | ReadBytes string

record event_stream =
  es_parser :: sse_parser
  es_ready :: "server_event list"
  es_utf8_carry :: string
  es_done :: bool

definition event_stream_new :: event_stream where
  "event_stream_new = \<lparr>es_parser = sse_parser_default, es_ready = [], es_utf8_carry = [], es_done = False\<rparr>"

definition absorb :: "string \<Rightarrow> event_stream \<Rightarrow> event_stream" where
  "absorb bytes st =
     (case take_complete_utf8 (es_utf8_carry st @ bytes) of
        (text, carry) \<Rightarrow>
          (case push (es_parser st) text of
             (events, parser) \<Rightarrow> st\<lparr>es_utf8_carry := carry, es_parser := parser, es_ready := es_ready st @ events\<rparr>))"

text \<open>\<open>next\<close>, given the answers of the reads to come. \<open>None\<close>: it is still waiting when they are used up.\<close>

fun next_event :: "event_stream \<Rightarrow> read_reply list \<Rightarrow> ((string + server_event) option \<times> event_stream \<times> read_reply list) option" where
  "next_event st [] =
     (case es_ready st of
        event # ready \<Rightarrow> Some (Some (Inr event), st\<lparr>es_ready := ready\<rparr>, [])
      | [] \<Rightarrow> if es_done st then Some (None, st, []) else None)"
| "next_event st (reply # replies) =
     (case es_ready st of
        event # ready \<Rightarrow> Some (Some (Inr event), st\<lparr>es_ready := ready\<rparr>, reply # replies)
      | [] \<Rightarrow>
          if es_done st then Some (None, st, reply # replies)
          else (case reply of
                  ReadFailed \<Rightarrow> Some (Some (Inl ''failed to read event stream''), st\<lparr>es_done := True\<rparr>, replies)
                | ReadDone \<Rightarrow>
                    (case finish (es_parser st) of
                       (events, parser) \<Rightarrow> next_event (st\<lparr>es_done := True, es_parser := parser, es_ready := events\<rparr>) replies)
                | ReadNoValue \<Rightarrow> next_event st replies
                | ReadBytes bytes \<Rightarrow> next_event (absorb bytes st) replies))"

text \<open>The answers of the first \<open>n\<close> calls.\<close>

fun poll :: "nat \<Rightarrow> event_stream \<Rightarrow> read_reply list \<Rightarrow> (string + server_event) option list" where
  "poll 0 st replies = []"
| "poll (Suc n) st replies =
     (case next_event st replies of Some (r, st', replies') \<Rightarrow> r # poll n st' replies' | None \<Rightarrow> [])"


subsection \<open>Chunks do not matter\<close>

lemma valid_part_whole:
  "utf8_next s = Whole k \<Longrightarrow> valid_part s = (take k s @ fst (valid_part (drop k s)), snd (valid_part (drop k s)))"
  by (subst valid_part.simps) (simp split: prod.splits)

lemma valid_part_stop: "(\<And>k. utf8_next s \<noteq> Whole k) \<Longrightarrow> valid_part s = ([], s)"
  by (subst valid_part.simps) (auto split: utf8_step.splits)

lemma rest_stops: "utf8_next (snd (valid_part s)) \<noteq> Whole k"
proof (induction s rule: valid_part.induct)
  case (1 s)
  show ?case
  proof (cases "\<exists>k. utf8_next s = Whole k")
    case True
    then show ?thesis using "1.IH" by (auto simp: valid_part_whole)
  qed (simp add: valid_part_stop)
qed

lemma valid_part_append:
  "valid_part (s @ t) = (fst (valid_part s) @ fst (valid_part (snd (valid_part s) @ t)), snd (valid_part (snd (valid_part s) @ t)))"
proof (induction s rule: valid_part.induct)
  case (1 s)
  show ?case
  proof (cases "\<exists>k. utf8_next s = Whole k")
    case True
    then obtain k where k: "utf8_next s = Whole k" by blast
    then have "k \<le> length s" "utf8_next (s @ t) = Whole k"
      using utf8_next_bounds(1) utf8_next_extends [of s t] by auto
    then show ?thesis using "1.IH" [OF k] by (simp add: valid_part_whole [of s] valid_part_whole [of "s @ t"] k)
  qed (simp add: valid_part_stop [of s])
qed

text \<open>A text is good when it is valid but for the start of a last character.\<close>

definition good_text :: "string \<Rightarrow> bool" where
  "good_text s = (utf8_next (snd (valid_part s)) = Short)"

lemma good_text_prefix:
  assumes "good_text (s @ t)"
  shows "good_text s"
proof (rule ccontr)
  assume bad: "\<not> good_text s"
  let ?r = "snd (valid_part s)"
  obtain k where "utf8_next ?r = Broken k" using bad rest_stops [of s] by (cases "utf8_next ?r") (auto simp: good_text_def)
  then have "utf8_next (?r @ t) = Broken k" using utf8_next_extends [of ?r t] by simp
  then have "snd (valid_part (?r @ t)) = ?r @ t" by (intro arg_cong [OF valid_part_stop, of _ snd, simplified]) simp
  with \<open>utf8_next (?r @ t) = Broken k\<close> assms show False by (simp add: good_text_def valid_part_append [of s t])
qed

lemma take_complete_good: "good_text s \<Longrightarrow> take_complete_utf8 s = valid_part s"
  by (auto simp: take_complete_utf8_def good_text_def split: prod.splits)

lemma push_append:
  "push p (s @ t) = (case push p s of (out, p1) \<Rightarrow> (case push p1 t of (later, p2) \<Rightarrow> (out @ later, p2)))"
  by (induction s arbitrary: p) (auto split: prod.splits)

text \<open>The events of a list of chunks that arrive after a carry.\<close>

fun read_chunks :: "string \<Rightarrow> sse_parser \<Rightarrow> string list \<Rightarrow> server_event list" where
  "read_chunks carry p [] = []"
| "read_chunks carry p (chunk # chunks) =
     (case take_complete_utf8 (carry @ chunk) of
        (text, rest) \<Rightarrow> (case push p text of (events, p') \<Rightarrow> events @ read_chunks rest p' chunks))"

lemma carry_is_rest: "valid_part (snd (valid_part s)) = ([], snd (valid_part s))"
  by (rule valid_part_stop) (rule rest_stops)

lemma read_chunks_whole:
  assumes "good_text (concat chunks)"
  shows "read_chunks [] p chunks = fst (push p (fst (valid_part (concat chunks))))"
proof -
  have "good_text (seen @ concat chunks) \<Longrightarrow>
    fst (valid_part (seen @ concat chunks)) = fst (valid_part seen) @ fst (valid_part (snd (valid_part seen) @ concat chunks)) \<and>
    read_chunks (snd (valid_part seen)) p chunks = fst (push p (fst (valid_part (snd (valid_part seen) @ concat chunks))))" for seen
  proof (induction chunks arbitrary: seen p)
    case Nil
    then show ?case by (simp add: carry_is_rest)
  next
    case (Cons c cs)
    let ?r = "snd (valid_part seen)"
    have "good_text (seen @ c)" using Cons.prems good_text_prefix [of "seen @ c" "concat cs"] by simp
    then have tc: "take_complete_utf8 (?r @ c) = valid_part (?r @ c)"
      by (intro take_complete_good) (simp add: good_text_def valid_part_append [of seen c])
    have later: "snd (valid_part (seen @ c)) = snd (valid_part (?r @ c))" by (simp add: valid_part_append [of seen c])
    obtain t r2 where vp: "valid_part (?r @ c) = (t, r2)" by fastforce
    obtain es p' where step: "push p t = (es, p')" by fastforce
    obtain fs p2 where after: "push p' (fst (valid_part (r2 @ concat cs))) = (fs, p2)" by fastforce
    have "read_chunks r2 p' cs = fs"
      using Cons.IH [of "seen @ c" p'] Cons.prems later vp after by simp
    then show ?case
      using tc step vp after valid_part_append [of "?r @ c" "concat cs"] valid_part_append [of seen "c @ concat cs"]
      by (simp add: push_append)
  qed
  from this [of "[]"] assms show ?thesis by (simp add: valid_part.simps)
qed


subsection \<open>Reading back\<close>

definition LF :: char where "LF = CHR 0x0A"
definition CR :: char where "CR = CHR 0x0D"

definition line_breaks :: "string set" where
  "line_breaks = {[LF], [CR], [CR, LF]}"

text \<open>What a server sends: events, and comments that keep the connection alive.\<close>

datatype stream_item = SendEvent server_event | SendComment string

fun item_lines :: "stream_item \<Rightarrow> string list" where
  "item_lines (SendEvent e) =
     (case ev_event e of Some name \<Rightarrow> [''event: '' @ name] | None \<Rightarrow> [])
     @ map (\<lambda>d. ''data: '' @ d) (split_on (\<lambda>c. c = LF) (ev_data e))
     @ (case ev_id e of Some i \<Rightarrow> [''id: '' @ i] | None \<Rightarrow> []) @ [[]]"
| "item_lines (SendComment c) = [CHR '':'' # c, []]"

definition sent_text :: "string \<Rightarrow> stream_item list \<Rightarrow> string" where
  "sent_text brk items = concat (map (\<lambda>l. l @ brk) (concat (map item_lines items)))"

definition one_line :: "string \<Rightarrow> bool" where
  "one_line s = (LF \<notin> set s \<and> CR \<notin> set s)"

fun item_ok :: "stream_item \<Rightarrow> bool" where
  "item_ok (SendEvent e) =
     ((case ev_event e of Some name \<Rightarrow> one_line name | None \<Rightarrow> True) \<and> CR \<notin> set (ev_data e)
      \<and> (case ev_id e of Some i \<Rightarrow> one_line i \<and> CHR 0x00 \<notin> set i | None \<Rightarrow> True))"
| "item_ok (SendComment c) = one_line c"

text \<open>What is heard of it: the last id holds until another one is sent.\<close>

fun heard :: "string option \<Rightarrow> stream_item list \<Rightarrow> server_event list" where
  "heard i [] = []"
| "heard i (SendEvent e # items) =
     (let i' = (case ev_id e of Some j \<Rightarrow> Some j | None \<Rightarrow> i) in e\<lparr>ev_id := i'\<rparr> # heard i' items)"
| "heard i (SendComment c # items) = heard i items"

fun end_lines :: "sse_parser \<Rightarrow> string list \<Rightarrow> server_event list \<times> sse_parser" where
  "end_lines p [] = ([], p)"
| "end_lines p (l # ls) =
     (case end_line (p\<lparr>sp_line := l\<rparr>) of (out, p1) \<Rightarrow> (case end_lines p1 ls of (later, p2) \<Rightarrow> (out @ later, p2)))"

lemma end_lines_append:
  "end_lines p (ls @ ms) = (case end_lines p ls of (out, p1) \<Rightarrow> (case end_lines p1 ms of (later, p2) \<Rightarrow> (out @ later, p2)))"
  by (induction ls arbitrary: p) (auto split: prod.splits)

lemma end_line_pending: "end_line (p\<lparr>sp_pending_cr := b\<rparr>) = (case end_line p of (out, q) \<Rightarrow> (out, q\<lparr>sp_pending_cr := b\<rparr>))"
  by (cases p) (auto simp: end_line_def Let_def split: prod.splits)

lemma end_lines_pending: "end_lines (p\<lparr>sp_pending_cr := b\<rparr>) ls = (case end_lines p ls of (out, q) \<Rightarrow> (out, q\<lparr>sp_pending_cr := b\<rparr>))"
proof (induction ls arbitrary: p)
  case (Cons l ls)
  obtain out q where one: "end_line (p\<lparr>sp_line := l\<rparr>) = (out, q)" by fastforce
  have "p\<lparr>sp_pending_cr := b, sp_line := l\<rparr> = p\<lparr>sp_line := l, sp_pending_cr := b\<rparr>" by simp
  then have "end_line (p\<lparr>sp_pending_cr := b, sp_line := l\<rparr>) = (out, q\<lparr>sp_pending_cr := b\<rparr>)"
    using end_line_pending [of b "p\<lparr>sp_line := l\<rparr>"] one by (simp only: prod.case)
  then show ?case using Cons.IH [of q] one by (auto split: prod.splits)
qed simp

lemma end_line_empties: "end_line p = (out, q) \<Longrightarrow> sp_line q = [] \<and> sp_pending_cr q = sp_pending_cr p"
  by (auto simp: end_line_def Let_def split: prod.splits if_splits)

lemma push_line_chars: "one_line l \<Longrightarrow> l \<noteq> [] \<Longrightarrow> push p l = ([], p\<lparr>sp_line := sp_line p @ l, sp_pending_cr := False\<rparr>)"
proof (induction l arbitrary: p)
  case (Cons c l)
  have "push_char p c = ([], p\<lparr>sp_line := sp_line p @ [c], sp_pending_cr := False\<rparr>)"
    using Cons.prems by (auto simp: push_char_def one_line_def LF_def CR_def)
  then show ?case using Cons by (cases "l = []") (simp_all add: one_line_def)
qed simp

lemma push_line:
  assumes "one_line l" "sp_line p = []" "brk \<in> line_breaks" "sp_pending_cr p \<Longrightarrow> brk = [CR]"
    and "end_line (p\<lparr>sp_line := l\<rparr>) = (out, q)"
  shows "push p (l @ brk) = (out, q\<lparr>sp_pending_cr := (brk = [CR])\<rparr>)"
proof -
  have brk: "push (p\<lparr>sp_line := l, sp_pending_cr := b\<rparr>) brk = (out, q\<lparr>sp_pending_cr := (brk = [CR])\<rparr>)" if "b \<longrightarrow> brk = [CR]" for b
    using assms(3) that end_line_pending [where p = "p\<lparr>sp_line := l\<rparr>"] assms(5)
    by (auto simp: line_breaks_def push_char_def LF_def CR_def)
  show ?thesis
  proof (cases "l = []")
    case True
    then have "p\<lparr>sp_line := l, sp_pending_cr := sp_pending_cr p\<rparr> = p" using assms(2) by (cases p) simp
    then show ?thesis using brk [of "sp_pending_cr p"] assms(4) True by simp
  next
    case False
    then show ?thesis using brk [of False] push_line_chars [OF assms(1)] assms(2) by (simp add: push_append)
  qed
qed

lemma push_lines:
  assumes "\<forall>l \<in> set ls. one_line l" "sp_line p = []" "brk \<in> line_breaks" "sp_pending_cr p \<Longrightarrow> brk = [CR]"
    and "end_lines p ls = (out, q)"
  shows "\<exists>b. push p (concat (map (\<lambda>l. l @ brk) ls)) = (out, q\<lparr>sp_pending_cr := b\<rparr>) \<and> (b \<longrightarrow> brk = [CR])"
  using assms(1,2,4,5)
proof (induction ls arbitrary: p out q)
  case Nil
  then show ?case by (auto intro: exI [of _ "sp_pending_cr p"])
next
  case (Cons l ls)
  obtain o1 p1 where one: "end_line (p\<lparr>sp_line := l\<rparr>) = (o1, p1)" by fastforce
  obtain o2 where rest: "end_lines p1 ls = (o2, q)" "out = o1 @ o2" using Cons.prems(4) one by (auto split: prod.splits)
  let ?p = "p1\<lparr>sp_pending_cr := (brk = [CR])\<rparr>"
  have "sp_line p1 = []" using end_line_empties [OF one] by simp
  moreover have "end_lines ?p ls = (o2, q\<lparr>sp_pending_cr := (brk = [CR])\<rparr>)" using rest(1) by (simp add: end_lines_pending)
  ultimately obtain b where "push ?p (concat (map (\<lambda>l. l @ brk) ls)) = (o2, q\<lparr>sp_pending_cr := b\<rparr>)" "b \<longrightarrow> brk = [CR]"
    using Cons.IH [of ?p] Cons.prems(1) by fastforce
  then show ?case
    using push_line [OF _ Cons.prems(2) assms(3) Cons.prems(3) one] Cons.prems(1) rest(2)
      push_append [of p "l @ brk"] by (auto simp del: append_assoc)
qed

text \<open>Each item leaves the parser between events, with the id that was last sent.\<close>

definition between :: "string option \<Rightarrow> sse_parser \<Rightarrow> bool" where
  "between i p \<longleftrightarrow> sp_line p = [] \<and> sp_event p = None \<and> sp_data p = [] \<and> sp_id p = i"

lemma read_field:
  "end_lines p [''event: '' @ v] = ([], p\<lparr>sp_line := [], sp_event := Some v\<rparr>)"
  "CHR 0x00 \<notin> set v \<Longrightarrow> end_lines p [''id: '' @ v] = ([], p\<lparr>sp_line := [], sp_id := Some v\<rparr>)"
  "end_line (p\<lparr>sp_line := ''data: '' @ v\<rparr>) = ([], p\<lparr>sp_line := [], sp_data := sp_data p @ [v]\<rparr>)"
  by (simp_all add: end_line_def sse_field_def starts_with_def strip_prefix_def)

lemma read_data:
  "sp_line p = [] \<Longrightarrow> end_lines p (map (\<lambda>d. ''data: '' @ d) ds) = ([], p\<lparr>sp_data := sp_data p @ ds\<rparr>)"
proof (induction ds arbitrary: p)
  case (Cons d ds)
  then show ?case using read_field(3) [of d p] by simp
qed simp

lemma join_split: "join [d] (split_on (\<lambda>c. c = d) s) = s"
proof (induction s)
  case (Cons c s)
  then show ?case by (cases "split_on (\<lambda>c. c = d) s"; cases "tl (split_on (\<lambda>c. c = d) s)") auto
qed simp

lemma item_heard:
  assumes "item_ok item" "between i p"
  shows "\<exists>out q j. end_lines p (item_lines item) = (out, q) \<and> between j q \<and> (\<forall>items. heard i (item # items) = out @ heard j items)"
proof (cases item)
  case (SendComment c)
  then show ?thesis using assms(2) by (auto simp: end_line_def between_def starts_with_def intro!: exI [of _ i])
next
  case (SendEvent e)
  let ?ds = "split_on (\<lambda>c. c = LF) (ev_data e)"
  define ids where "ids = (case ev_id e of Some j \<Rightarrow> [''id: '' @ j] | None \<Rightarrow> [])"
  define names where "names = (case ev_event e of Some name \<Rightarrow> [''event: '' @ name] | None \<Rightarrow> [])"
  let ?j = "case ev_id e of Some j \<Rightarrow> Some j | None \<Rightarrow> i"
  let ?p1 = "p\<lparr>sp_event := ev_event e\<rparr>" and ?p2 = "p\<lparr>sp_event := ev_event e, sp_data := ?ds\<rparr>"
    and ?p3 = "p\<lparr>sp_event := ev_event e, sp_data := ?ds, sp_id := ?j\<rparr>"
  have p: "p\<lparr>sp_line := []\<rparr> = p" "p\<lparr>sp_event := None\<rparr> = p" "p\<lparr>sp_id := i\<rparr> = p" using assms(2) by (cases p; simp add: between_def)+
  have 1: "end_lines p names = ([], ?p1)"
    using read_field(1) [where p = p] p by (auto simp: names_def split: option.splits)
  have 2: "end_lines ?p1 (map (\<lambda>d. ''data: '' @ d) ?ds) = ([], ?p2)"
    using read_data [of ?p1 ?ds] assms(2) by (simp add: between_def)
  have 3: "end_lines ?p2 ids = ([], ?p3)"
    using read_field(2) [where p = ?p2] assms p SendEvent by (auto simp: ids_def between_def split: option.splits)
  have 4: "end_lines ?p3 [[]] = ([e\<lparr>ev_id := ?j\<rparr>], ?p3\<lparr>sp_line := [], sp_event := None, sp_data := []\<rparr>)"
    using join_split [of LF "ev_data e"] by (cases e) (simp add: end_line_def LF_def)
  have "end_lines p (item_lines item) = ([e\<lparr>ev_id := ?j\<rparr>], ?p3\<lparr>sp_line := [], sp_event := None, sp_data := []\<rparr>)"
    unfolding SendEvent item_lines.simps ids_def [symmetric] names_def [symmetric] by (simp only: end_lines_append 1 2 3 4 prod.case append_Nil)
  moreover have "between ?j (?p3\<lparr>sp_line := [], sp_event := None, sp_data := []\<rparr>)" by (simp add: between_def)
  ultimately show ?thesis using SendEvent by (auto simp: Let_def intro!: exI [of _ ?j])
qed

lemma items_heard:
  "\<forall>item \<in> set items. item_ok item \<Longrightarrow> between i p \<Longrightarrow> fst (end_lines p (concat (map item_lines items))) = heard i items"
proof (induction items arbitrary: i p)
  case (Cons item items)
  obtain out q j where "end_lines p (item_lines item) = (out, q)" "between j q" "heard i (item # items) = out @ heard j items"
    using item_heard [of item i p] Cons.prems by auto
  then show ?case using Cons.IH [of j q] Cons.prems by (auto simp: end_lines_append split: prod.splits)
qed simp

lemma item_lines_are_lines: "item_ok item \<Longrightarrow> l \<in> set (item_lines item) \<Longrightarrow> one_line l"
proof (cases item)
  case (SendEvent e)
  have "d \<in> set (split_on (\<lambda>c. c = LF) s) \<Longrightarrow> LF \<notin> set d \<and> set d \<subseteq> set s" for d s
    by (induction s arbitrary: d) (fastforce split: list.splits if_splits)+
  then show "item_ok item \<Longrightarrow> l \<in> set (item_lines item) \<Longrightarrow> one_line l"
    using SendEvent by (fastforce simp: one_line_def LF_def CR_def split: option.splits)
qed (auto simp: one_line_def LF_def CR_def)

lemma sent_text_heard:
  assumes "brk \<in> line_breaks" "\<forall>item \<in> set items. item_ok item"
  shows "fst (push sse_parser_default (sent_text brk items)) = heard None items"
proof -
  let ?ls = "concat (map item_lines items)"
  obtain out q where lines: "end_lines sse_parser_default ?ls = (out, q)" by fastforce
  have "\<forall>l \<in> set ?ls. one_line l" using assms(2) item_lines_are_lines by auto
  then obtain b where "push sse_parser_default (sent_text brk items) = (out, q\<lparr>sp_pending_cr := b\<rparr>)"
    using push_lines [OF _ _ assms(1) _ lines] by (auto simp: sent_text_def sse_parser_default_def)
  moreover have "out = heard None items"
    using items_heard [OF assms(2), of None sse_parser_default] lines by (simp add: between_def sse_parser_default_def)
  ultimately show ?thesis by simp
qed

lemma next_event_reads:
  assumes "\<not> es_done st"
  shows "case es_ready st @ read_chunks (es_utf8_carry st) (es_parser st) chunks of
      [] \<Rightarrow> \<exists>st'. next_event st (map ReadBytes chunks @ ReadDone # rest) = Some (None, st', rest) \<and> es_done st' \<and> es_ready st' = []
    | e # es \<Rightarrow> \<exists>st' cs. next_event st (map ReadBytes chunks @ ReadDone # rest) = Some (Some (Inr e), st', map ReadBytes cs @ ReadDone # rest) \<and>
        \<not> es_done st' \<and> es = es_ready st' @ read_chunks (es_utf8_carry st') (es_parser st') cs"
  using assms
proof (induction chunks arbitrary: st)
  case Nil
  show ?case
  proof (cases "es_ready st")
    case Nil
    then show ?thesis using Nil.prems by (cases rest) (simp_all add: finish_def)
  next
    case (Cons e es)
    then show ?thesis using Nil.prems by (auto intro!: exI [of _ "st\<lparr>es_ready := es\<rparr>"] exI [of _ "[]"])
  qed
next
  case step: (Cons c cs)
  show ?case
  proof (cases "es_ready st")
    case Nil
    have "es_ready (absorb c st) @ read_chunks (es_utf8_carry (absorb c st)) (es_parser (absorb c st)) cs =
        read_chunks (es_utf8_carry st) (es_parser st) (c # cs)" "\<not> es_done (absorb c st)"
      using Nil step.prems by (auto simp: absorb_def split: prod.splits)
    moreover have "next_event st (map ReadBytes (c # cs) @ ReadDone # rest) = next_event (absorb c st) (map ReadBytes cs @ ReadDone # rest)"
      using Nil step.prems by simp
    ultimately show ?thesis using step.IH [of "absorb c st"] Nil by (simp only: append_Nil not_False_eq_True)
  next
    case (Cons e es)
    then show ?thesis using step.prems by (auto intro!: exI [of _ "st\<lparr>es_ready := es\<rparr>"] exI [of _ "c # cs"])
  qed
qed

lemma polled_out: "es_done st \<Longrightarrow> es_ready st = [] \<Longrightarrow> poll n st rest = replicate n None"
  by (induction n) (cases rest; simp)+

lemma polled:
  assumes "\<not> es_done st"
  shows "poll n st (map ReadBytes chunks @ ReadDone # rest) =
    take n (map (\<lambda>e. Some (Inr e)) (es_ready st @ read_chunks (es_utf8_carry st) (es_parser st) chunks) @ replicate n None)"
  using assms
proof (induction n arbitrary: st chunks)
  case (Suc n)
  show ?case
  proof (cases "es_ready st @ read_chunks (es_utf8_carry st) (es_parser st) chunks")
    case Nil
    then obtain st' where "next_event st (map ReadBytes chunks @ ReadDone # rest) = Some (None, st', rest)" "es_done st'" "es_ready st' = []"
      using next_event_reads [OF Suc.prems, of chunks rest] by auto
    then show ?thesis using polled_out [of st' n rest] Nil by simp
  next
    case (Cons e es)
    then obtain st' cs where "next_event st (map ReadBytes chunks @ ReadDone # rest) = Some (Some (Inr e), st', map ReadBytes cs @ ReadDone # rest)"
        "\<not> es_done st'" "es = es_ready st' @ read_chunks (es_utf8_carry st') (es_parser st') cs"
      using next_event_reads [OF Suc.prems, of chunks rest] by auto
    then show ?thesis using Suc.IH [of st' cs] Cons
      by (simp del: map_append) (simp add: replicate_append_same [symmetric])
  qed
qed simp

text \<open>
  C37: what a server sends is what the caller hears, however the network cuts it. Events and comments, written with
  any of the three line breaks and cut into chunks anywhere, even inside a character, are handed out in order,
  each exactly once, with the id that was last sent; then the stream is over. An unfinished character at the end
  is dropped.
\<close>

theorem stream_is_heard_as_sent:
  assumes "brk \<in> line_breaks" and "list_all item_ok items" and "valid_part (sent_text brk items) = (sent_text brk items, [])"
    and "concat chunks = sent_text brk items @ tail" and "utf8_next tail = Short"
  shows "poll n event_stream_new (map ReadBytes chunks @ ReadDone # replies) =
    take n (map (\<lambda>e. Some (Inr e)) (heard None items) @ replicate n None)"
proof -
  have "valid_part (concat chunks) = (sent_text brk items, tail)"
    using valid_part_append [of "sent_text brk items" tail] assms(3-5) valid_part_stop [of tail] by simp
  then have "read_chunks [] sse_parser_default chunks = heard None items"
    using read_chunks_whole [of chunks] sent_text_heard [OF assms(1), of items] assms(2,5) by (simp add: list_all_iff good_text_def)
  then show ?thesis using polled [of event_stream_new n chunks replies] by (simp add: event_stream_new_def)
qed

definition demo_items :: "stream_item list" where
  "demo_items =
     [SendEvent \<lparr>ev_event = Some ''tick'', ev_data = ''a'' @ [LF] @ ''b'', ev_id = Some ''7''\<rparr>, SendComment ''ping'',
      SendEvent \<lparr>ev_event = None, ev_data = [CHR 0xC3, CHR 0xA9], ev_id = None\<rparr>]"

definition demo_chunks :: "string list" where
  "demo_chunks = [take 49 (sent_text [CR] demo_items), drop 49 (sent_text [CR] demo_items) @ [CHR 0xC3]]"

text \<open>The cut is inside the last character that was sent, and another one is never finished.\<close>

lemma demo_sent:
  "valid_part (sent_text [CR] demo_items) = (sent_text [CR] demo_items, [])" "list_all item_ok demo_items"
  "concat demo_chunks = sent_text [CR] demo_items @ [CHR 0xC3]" "utf8_next [CHR 0xC3] = Short" "[CR] \<in> line_breaks"
  "utf8_next (demo_chunks ! 1) = Broken 1"
  by code_simp+

lemma demo_heard:
  "take 4 (map (\<lambda>e. Some (Inr e)) (heard None demo_items) @ replicate 4 None) =
   [Some (Inr \<lparr>ev_event = Some ''tick'', ev_data = ''a'' @ [LF] @ ''b'', ev_id = Some ''7''\<rparr>),
    Some (Inr \<lparr>ev_event = None, ev_data = [CHR 0xC3, CHR 0xA9], ev_id = Some ''7''\<rparr>), None, None :: (string + server_event) option]"
  by code_simp

lemma stream_is_heard_as_sent_witness:
  "poll 4 event_stream_new (map ReadBytes demo_chunks @ [ReadDone]) =
   [Some (Inr \<lparr>ev_event = Some ''tick'', ev_data = ''a'' @ [LF] @ ''b'', ev_id = Some ''7''\<rparr>),
    Some (Inr \<lparr>ev_event = None, ev_data = [CHR 0xC3, CHR 0xA9], ev_id = Some ''7''\<rparr>), None, None]"
  using stream_is_heard_as_sent [OF demo_sent(5,2,1,3,4), of 4 "[]"] unfolding demo_heard .

subsection \<open>Limits\<close>

text \<open>
  The parser follows the event-stream format but for a byte order mark, which the format says to skip: it becomes
  part of the first field name, and the first field is lost. And one invalid byte in a chunk gives up the character
  that the chunk cuts at its end: both halves are replaced.
\<close>

lemma byte_order_mark_hides_the_first_field:
  "fst (push sse_parser_default ([CHR 0xEF, CHR 0xBB, CHR 0xBF] @ ''data: x'' @ [LF, LF])) = []"
  by code_simp

lemma invalid_byte_spoils_the_split_character:
  "take_complete_utf8 [CHR 0xFF, CHR 0xC3] = (REPLACEMENT @ REPLACEMENT, [])" "take_complete_utf8 [CHR 0xA9] = (REPLACEMENT, [])"
  by code_simp+

end
