(* ===== verification/ServerFn.thy ===== *)
theory ServerFn
  imports HtmlEscape StreamWriter
begin

text \<open>
  Server functions: the error contract of \<open>krab_core/src/server_fn.rs\<close>, the guards a function calls, the dispatch
  of a request to a registered function, and the removal of submitted values from a deserializer's message before
  it goes back to the caller. JSON is \<open>serde_json\<close>'s: the two readings of a body are parameters.
\<close>

subsection \<open>Errors\<close>

datatype server_fn_error_code = CodeBadRequest | CodeValidation | CodeUnauthorized | CodeForbidden | CodeNotFound | CodeConflict | CodeInternal

record server_fn_error =
  sf_message :: string
  sf_status_code :: u16
  sf_code :: server_fn_error_code

record server_fn_error_envelope =
  en_error :: string
  en_message :: "string option"
  en_status_code :: u16
  en_code :: server_fn_error_code

definition envelope_from_error :: "server_fn_error \<Rightarrow> server_fn_error_envelope" where
  "envelope_from_error e =
     \<lparr>en_error = sf_message e, en_message = Some (sf_message e), en_status_code = sf_status_code e, en_code = sf_code e\<rparr>"

definition error_from_envelope :: "server_fn_error_envelope \<Rightarrow> server_fn_error" where
  "error_from_envelope en =
     \<lparr>sf_message = (case en_message en of Some m \<Rightarrow> m | None \<Rightarrow> en_error en), sf_status_code = en_status_code en, sf_code = en_code en\<rparr>"

definition sf_with_code :: "string \<Rightarrow> u16 \<Rightarrow> server_fn_error_code \<Rightarrow> server_fn_error" where
  "sf_with_code message status code = \<lparr>sf_message = message, sf_status_code = status, sf_code = code\<rparr>"

definition sf_new :: "string \<Rightarrow> server_fn_error" where "sf_new message = sf_with_code message 500 CodeInternal"
definition sf_bad_request :: "string \<Rightarrow> server_fn_error" where "sf_bad_request message = sf_with_code message 400 CodeBadRequest"
definition sf_validation :: "string \<Rightarrow> server_fn_error" where "sf_validation message = sf_with_code message 400 CodeValidation"
definition sf_unauthorized :: "string \<Rightarrow> server_fn_error" where "sf_unauthorized message = sf_with_code message 401 CodeUnauthorized"
definition sf_forbidden :: "string \<Rightarrow> server_fn_error" where "sf_forbidden message = sf_with_code message 403 CodeForbidden"
definition sf_not_found :: "string \<Rightarrow> server_fn_error" where "sf_not_found message = sf_with_code message 404 CodeNotFound"
definition sf_conflict :: "string \<Rightarrow> server_fn_error" where "sf_conflict message = sf_with_code message 409 CodeConflict"

definition sf_from_status :: "u16 \<Rightarrow> string \<Rightarrow> server_fn_error" where
  "sf_from_status status message =
     sf_with_code message status
       (if status = 400 then CodeBadRequest else if status = 401 then CodeUnauthorized else if status = 403 then CodeForbidden
        else if status = 404 then CodeNotFound else if status = 409 then CodeConflict else CodeInternal)"

definition validate_server_fn :: "bool \<Rightarrow> string \<Rightarrow> server_fn_error + unit" where
  "validate_server_fn condition message = (if condition then Inr () else Inl (sf_validation message))"

definition require_server_fn_auth :: "bool \<Rightarrow> string \<Rightarrow> server_fn_error + unit" where
  "require_server_fn_auth authenticated message = (if authenticated then Inr () else Inl (sf_unauthorized message))"

definition require_server_fn_scope :: "string list \<Rightarrow> string \<Rightarrow> server_fn_error + unit" where
  "require_server_fn_scope scopes required =
     (if list_ex (\<lambda>s. s = required) scopes then Inr ()
      else Inl (sf_forbidden (''missing required scope '' @ [CHR 0x27] @ required @ [CHR 0x27])))"

definition MAX_FALLBACK_ERROR_BODY_LEN :: nat where
  "MAX_FALLBACK_ERROR_BODY_LEN = 2048"

definition decode_server_fn_error_body ::
  "(string \<Rightarrow> server_fn_error_envelope option) \<Rightarrow> (string \<Rightarrow> server_fn_error option) \<Rightarrow> string \<Rightarrow> u16 \<Rightarrow> server_fn_error" where
  "decode_server_fn_error_body read_envelope read_error body fallback_status =
     (case read_envelope body of
        Some en \<Rightarrow> error_from_envelope en
      | None \<Rightarrow>
          (case read_error body of
             Some e \<Rightarrow> e
           | None \<Rightarrow>
               sf_from_status fallback_status
                 (if MAX_FALLBACK_ERROR_BODY_LEN < length body then take (boundary_below body MAX_FALLBACK_ERROR_BODY_LEN) body else body)))"

text \<open>The dispatch by name; \<open>handler args\<close> is the response. A response of an error is its status and its envelope.\<close>

definition dispatch_server_fn ::
  "(string \<times> ('a \<Rightarrow> nat \<times> 'b)) list \<Rightarrow> (server_fn_error_envelope \<Rightarrow> 'b) \<Rightarrow> string \<Rightarrow> 'a \<Rightarrow> nat \<times> 'b" where
  "dispatch_server_fn registrations json fn_name args =
     (case find (\<lambda>reg. fst reg = fn_name) registrations of
        Some reg \<Rightarrow> snd reg args
      | None \<Rightarrow>
          let e = sf_not_found (''server function '' @ [CHR 0x27] @ fn_name @ [CHR 0x27] @ '' not found'')
          in (unat (sf_status_code e), json (envelope_from_error e)))"

subsection \<open>Redaction\<close>

definition REDACTED :: string where
  "REDACTED = ''<redacted>''"

definition VALUE_PREFIXES :: "string list" where
  "VALUE_PREFIXES = [''unknown variant `'', ''unknown field `'', ''integer `'', ''boolean `'', ''floating point `'', ''character `'']"

text \<open>\<open>min_by_key\<close>: the first of the least.\<close>

fun min_by_fst :: "(nat \<times> 'a) list \<Rightarrow> (nat \<times> 'a) option" where
  "min_by_fst [] = None"
| "min_by_fst (x # xs) = (case min_by_fst xs of None \<Rightarrow> Some x | Some y \<Rightarrow> Some (if fst y < fst x then y else x))"

definition next_value :: "string \<Rightarrow> (nat \<times> string) option" where
  "next_value rest =
     min_by_fst (List.map_filter (\<lambda>p. map_option (\<lambda>i. (i, p)) (find_str p rest)) VALUE_PREFIXES)"

lemma min_by_fst_mem: "min_by_fst xs = Some x \<Longrightarrow> x \<in> set xs"
  by (induction xs arbitrary: x) (auto split: option.splits if_splits)

lemma next_value_mem: "next_value rest = Some (i, p) \<Longrightarrow> p \<in> set VALUE_PREFIXES \<and> find_str p rest = Some i"
  unfolding next_value_def by (drule min_by_fst_mem) (auto simp: map_filter_def)

lemma prefixes_long: "p \<in> set VALUE_PREFIXES \<Longrightarrow> 0 < length p"
  by (auto simp: VALUE_PREFIXES_def)

lemma next_value_bound: "next_value rest = Some (i, p) \<Longrightarrow> 0 < length p \<and> i + length p \<le> length rest"
  using next_value_mem [of rest i p] find_str_bound [of p rest i] prefixes_long [of p] by simp

function redact_ticked :: "string \<Rightarrow> string" where
  "redact_ticked rest =
     (case next_value rest of
        None \<Rightarrow> rest
      | Some (i, p) \<Rightarrow>
          let after = i + length p
          in (case find_str ''`'' (drop after rest) of
                None \<Rightarrow> rest
              | Some len \<Rightarrow> take after rest @ REDACTED @ redact_ticked (drop (after + len) rest)))"
  by auto
termination
proof (relation "measure length")
  fix rest x y i p after len
  assume "next_value rest = Some x" "(i, p) = x" "after = i + length p" "find_str ''`'' (drop after rest) = Some len"
  then have "0 < length p \<and> i + length p \<le> length rest" "len + 1 \<le> length rest - after" "after = i + length p"
    using next_value_bound [of rest i p] find_str_bound [of "''`''" "drop after rest" len] by auto
  then have "after + len \<le> length rest \<and> 0 < after + len" by linarith
  then show "(drop (after + len) rest, rest) \<in> measure length" unfolding in_measure length_drop by linarith
qed simp

declare redact_ticked.simps [simp del]

fun redact_quoted :: "bool \<Rightarrow> string \<Rightarrow> string" where
  "redact_quoted in_quotes [] = (if in_quotes then REDACTED else [])"
| "redact_quoted in_quotes (ch # chars) =
     (if ch = CHR 0x5C \<and> in_quotes then (case chars of [] \<Rightarrow> redact_quoted in_quotes [] | _ # rest \<Rightarrow> redact_quoted in_quotes rest)
      else if ch = CHR 0x22 \<and> in_quotes then REDACTED @ CHR 0x22 # redact_quoted False chars
      else if ch = CHR 0x22 then CHR 0x22 # redact_quoted True chars
      else if in_quotes then redact_quoted in_quotes chars
      else ch # redact_quoted in_quotes chars)"

definition redact_submitted_values :: "string \<Rightarrow> string" where
  "redact_submitted_values message = redact_quoted False (redact_ticked message)"

definition from_deserialization_error :: "string \<Rightarrow> string \<Rightarrow> server_fn_error" where
  "from_deserialization_error function_name message =
     sf_validation (''Validation failed for '' @ [CHR 0x27] @ function_name @ [CHR 0x27] @ '': '' @ redact_submitted_values message)"


subsection \<open>Where a prefix can occur\<close>

text \<open>No value prefix starts in the first part of a text.\<close>

definition clear :: "string \<Rightarrow> string \<Rightarrow> bool" where
  "clear a m \<longleftrightarrow> (\<forall>p \<in> set VALUE_PREFIXES. \<forall>i < length a. \<not> prefix p (drop i (a @ m)))"

lemma find_str_shift:
  "\<forall>i < length a. \<not> prefix p (drop i (a @ m)) \<Longrightarrow> find_str p (a @ m) = map_option (\<lambda>i. length a + i) (find_str p m)"
proof (induction a)
  case (Cons c a)
  have "\<forall>i < length a. \<not> prefix p (drop i (a @ m))" using Cons.prems by (metis Suc_less_eq append_Cons drop_Suc_Cons length_Cons)
  moreover have "\<not> prefix p (c # a @ m)" using Cons.prems by (metis append_Cons drop0 length_Cons zero_less_Suc)
  ultimately show ?case using Cons.IH by (cases "split_seq p m") (auto simp: find_str_def split: prod.splits option.splits)
qed (cases "find_str p m"; simp)

lemma min_by_fst_shift: "min_by_fst (map (\<lambda>(i, p). (k + i, p)) xs) = map_option (\<lambda>(i, p). (k + i, p)) (min_by_fst xs)"
  by (induction xs) (auto split: option.splits)

lemma map_filter_shift:
  "(\<And>p. p \<in> set ps \<Longrightarrow> f p = map_option g (h p)) \<Longrightarrow> List.map_filter f ps = map g (List.map_filter h ps)"
  by (induction ps) (auto simp: map_filter_simps split: option.splits)

lemma next_value_shift: "clear a m \<Longrightarrow> next_value (a @ m) = map_option (\<lambda>(i, p). (length a + i, p)) (next_value m)"
  unfolding next_value_def
  by (subst map_filter_shift [where g = "\<lambda>(i, p). (length a + i, p)" and h = "\<lambda>p. map_option (\<lambda>i. (i, p)) (find_str p m)"])
    (auto simp: clear_def find_str_shift option.map_comp comp_def min_by_fst_shift)

lemma redact_ticked_skip: "clear a m \<Longrightarrow> redact_ticked (a @ m) = a @ redact_ticked m"
  by (subst (1 2) redact_ticked.simps) (auto simp: next_value_shift Let_def drop_append add.assoc split: option.splits)

text \<open>Every prefix is letters and blanks, then one backtick.\<close>

lemma prefix_shape:
  assumes "p \<in> set VALUE_PREFIXES"
  obtains q where "p = q @ ''`''" "q \<noteq> []" "set q \<inter> {CHR ''`'', CHR 0x22, CHR 0x5C} = {}"
  using assms by (auto simp: VALUE_PREFIXES_def intro: that [of "butlast p"])

lemma prefix_hits_barrier:
  assumes "prefix p (drop i (a @ c # m))" and "i < length a" and "c \<notin> set p"
  shows "prefix p (drop i a)"
  using assms prefix_barrier [of c p "drop i a" m] by simp

lemma no_occurrence: "\<not> str_contains a p \<Longrightarrow> \<not> prefix p (drop i a)"
proof
  assume "\<not> str_contains a p" "prefix p (drop i a)"
  then obtain r where "drop i a = p @ r" by (auto simp: prefix_def)
  then have "a = take i a @ p @ r" by (metis append_take_drop_id)
  with \<open>\<not> str_contains a p\<close> show False unfolding str_contains_iff by blast
qed

text \<open>Text that ends in a quote or a backtick and contains no prefix is clear of them, whatever follows.\<close>

definition schema :: "string \<Rightarrow> bool" where
  "schema s \<longleftrightarrow> CHR 0x22 \<notin> set s \<and> list_all (\<lambda>p. \<not> str_contains s p) VALUE_PREFIXES"

lemma clear_quote:
  assumes "\<forall>p \<in> set VALUE_PREFIXES. \<not> str_contains s p"
  shows "clear (s @ [CHR 0x22]) m"
  unfolding clear_def
proof (intro ballI allI impI notI)
  fix p i
  assume p: "p \<in> set VALUE_PREFIXES" and i: "i < length (s @ [CHR 0x22])" and pre: "prefix p (drop i ((s @ [CHR 0x22]) @ m))"
  obtain q where q: "p = q @ ''`''" "q \<noteq> []" "CHR 0x22 \<notin> set p" using p by (rule prefix_shape) auto
  show False
  proof (cases "i < length s")
    case True
    then show False using prefix_hits_barrier [of p i s "CHR 0x22" m] pre q(3) no_occurrence assms p by auto
  next
    case False
    then have "prefix p (CHR 0x22 # m)" using i pre by (simp add: less_Suc_eq)
    then show False using q by (cases q) auto
  qed
qed

lemma clear_tick: "clear ''`'' m"
  by (auto simp: clear_def VALUE_PREFIXES_def)


lemma first_tick:
  assumes "a @ CHR ''`'' # x = b @ CHR ''`'' # y" and "CHR ''`'' \<notin> set a" and "CHR ''`'' \<notin> set b"
  shows "a = b \<and> x = y"
  using assms split_once_Some [of "CHR ''`''" "a @ CHR ''`'' # x"] by (metis option.inject prod.inject)

lemma prefixes_end_apart: "list_all (\<lambda>p. list_all (\<lambda>p'. suffix p p' \<longrightarrow> p = p') VALUE_PREFIXES) VALUE_PREFIXES"
  by code_simp

lemma clear_before_prefix:
  assumes s: "\<forall>p \<in> set VALUE_PREFIXES. \<not> str_contains s p" and p: "p \<in> set VALUE_PREFIXES"
  shows "clear s (p @ m)"
  unfolding clear_def
proof (intro ballI allI impI notI)
  fix p' i
  assume p': "p' \<in> set VALUE_PREFIXES" and i: "i < length s" and pre: "prefix p' (drop i (s @ p @ m))"
  obtain q where q: "p = q @ ''`''" "CHR ''`'' \<notin> set q" using p by (rule prefix_shape) auto
  obtain q' where q': "p' = q' @ ''`''" "CHR ''`'' \<notin> set q'" using p' by (rule prefix_shape) auto
  obtain r where r: "q' @ CHR ''`'' # r = drop i s @ q @ CHR ''`'' # m" using pre i q(1) q'(1) by (auto simp: prefix_def)
  show False
  proof (cases "CHR ''`'' \<in> set (drop i s)")
    case True
    then obtain u w where u: "drop i s = u @ CHR ''`'' # w" "CHR ''`'' \<notin> set u" using split_list_first by metis
    then have "q' = u" using first_tick [of q' r u] r q'(2) by simp
    then have "prefix p' (drop i s)" using u q'(1) by (simp add: prefix_def)
    then show False using no_occurrence s p' by blast
  next
    case False
    then have "q' = drop i s @ q" using first_tick [of q' r "drop i s @ q"] r q(2) q'(2) by simp
    then have "suffix p p'" "p \<noteq> p'" using q q' i by (auto simp: suffix_def)
    then show False using prefixes_end_apart p p' by (auto simp: list_all_iff)
  qed
qed

lemma min_by_fst_least: "x \<in> set xs \<Longrightarrow> \<exists>y. min_by_fst xs = Some y \<and> fst y \<le> fst x"
  by (induction xs) (auto split: option.splits)

lemma find_str_0: "find_str p s = Some 0 \<longleftrightarrow> prefix p s"
  by (cases s) (auto simp: find_str_def)

lemma next_value_here:
  assumes p: "p \<in> set VALUE_PREFIXES"
  shows "next_value (p @ m) = Some (0, p)"
proof -
  have "(0, p) \<in> set (List.map_filter (\<lambda>p'. map_option (\<lambda>i. (i, p')) (find_str p' (p @ m))) VALUE_PREFIXES)"
    using p find_str_0 [of p "p @ m"] by (auto simp: map_filter_def image_iff intro!: bexI [of _ p])
  then obtain y where y: "next_value (p @ m) = Some y" "fst y = 0"
    using min_by_fst_least unfolding next_value_def by fastforce
  then have p': "snd y \<in> set VALUE_PREFIXES" "prefix (snd y) (p @ m)"
    using next_value_mem [of "p @ m" 0 "snd y"] find_str_0 by (cases y; auto)+
  obtain q where q: "p = q @ ''`''" "CHR ''`'' \<notin> set q" using p by (rule prefix_shape) auto
  obtain q' where q': "snd y = q' @ ''`''" "CHR ''`'' \<notin> set q'" using p'(1) by (rule prefix_shape) auto
  have "q' = q" using p'(2) q q' first_tick [of q _ q'] by (auto simp: prefix_def)
  then show ?thesis using y q q' by (cases y) auto
qed

subsection \<open>Messages\<close>

text \<open>
  A deserializer's message: words of its own, between them the values the caller sent, each in one of the two
  spellings. A quoted value is escaped: no quote of its own, and a backslash comes with the character it escapes.
\<close>

datatype submitted = Quoted string | Ticked string string

fun escape_ok :: "bool \<Rightarrow> string \<Rightarrow> bool" where
  "escape_ok open_escape [] = (\<not> open_escape)"
| "escape_ok True (c # s) = (c \<noteq> CHR ''`'' \<and> escape_ok False s)"
| "escape_ok False (c # s) = (if c = CHR 0x5C then escape_ok True s else c \<noteq> CHR 0x22 \<and> escape_ok False s)"

abbreviation escaped :: "string \<Rightarrow> bool" where
  "escaped \<equiv> escape_ok False"

fun value_text :: "submitted \<Rightarrow> string" where
  "value_text (Quoted v) = [CHR 0x22] @ v @ [CHR 0x22]"
| "value_text (Ticked p tok) = p @ tok @ ''`''"

fun value_hidden :: "submitted \<Rightarrow> string" where
  "value_hidden (Quoted v) = [CHR 0x22] @ REDACTED @ [CHR 0x22]"
| "value_hidden (Ticked p tok) = p @ REDACTED @ ''`''"

fun value_ok :: "submitted \<Rightarrow> bool" where
  "value_ok (Quoted v) = (escaped v \<and> CHR ''`'' \<notin> set v)"
| "value_ok (Ticked p tok) = (p \<in> set VALUE_PREFIXES \<and> CHR ''`'' \<notin> set tok)"

definition diagnostic :: "(submitted \<Rightarrow> string) \<Rightarrow> (string \<times> submitted) list \<Rightarrow> string \<Rightarrow> string" where
  "diagnostic spell parts rest = concat (map (\<lambda>(s, v). s @ spell v) parts) @ rest"

text \<open>After the first pass.\<close>

fun value_half :: "submitted \<Rightarrow> string" where
  "value_half (Quoted v) = [CHR 0x22] @ v @ [CHR 0x22]"
| "value_half (Ticked p tok) = p @ REDACTED @ ''`''"

lemma schema_prefixes: "schema s \<longleftrightarrow> CHR 0x22 \<notin> set s \<and> (\<forall>p \<in> set VALUE_PREFIXES. \<not> str_contains s p)"
  by (simp add: schema_def list_all_iff)

lemma redact_ticked_none: "\<forall>p \<in> set VALUE_PREFIXES. \<not> str_contains s p \<Longrightarrow> redact_ticked s = s"
  by (subst redact_ticked.simps) (auto dest!: next_value_mem simp: find_str_None [symmetric] split: option.splits)

lemma prefix_needs_tick: "p \<in> set VALUE_PREFIXES \<Longrightarrow> str_contains s p \<Longrightarrow> CHR ''`'' \<in> set s"
  by (drule str_contains_set) (auto simp: VALUE_PREFIXES_def)

lemma contains_across_quote:
  assumes "p \<in> set VALUE_PREFIXES" "str_contains (s @ CHR 0x22 # v) p"
  shows "str_contains s p \<or> str_contains v p"
  using assms(1)
proof (rule prefix_shape)
  fix q
  assume q: "p = q @ ''`''" "q \<noteq> []" "set q \<inter> {CHR ''`'', CHR 0x22, CHR 0x5C} = {}"
  then obtain x q2 where "p = x # q2" "CHR 0x22 \<notin> set q2" "x \<noteq> CHR 0x22" by (cases q) auto
  then show ?thesis using assms(2) str_contains_barrier [of "CHR 0x22" q2 s v x] by auto
qed

lemma find_tick: "CHR ''`'' \<notin> set a \<Longrightarrow> find_str ''`'' (a @ CHR ''`'' # b) = Some (length a)"
  by (induction a) (auto simp: find_str_def)

lemma first_pass:
  "\<forall>(s, v) \<in> set parts. schema s \<and> value_ok v \<Longrightarrow> schema rest \<Longrightarrow>
   redact_ticked (diagnostic value_text parts rest) = diagnostic value_half parts rest"
proof (induction parts)
  case Nil
  then show ?case by (simp add: diagnostic_def redact_ticked_none schema_prefixes)
next
  case (Cons sv parts)
  obtain s v where sv: "sv = (s, v)" by fastforce
  let ?m = "diagnostic value_text parts rest"
  have IH: "redact_ticked ?m = diagnostic value_half parts rest" and s: "schema s" and v: "value_ok v" using Cons sv by auto
  have split: "diagnostic spell (sv # parts) rest = s @ spell v @ diagnostic spell parts rest" for spell
    by (simp add: diagnostic_def sv)
  show ?case
  proof (cases v)
    case (Quoted w)
    have "\<forall>p \<in> set VALUE_PREFIXES. \<not> str_contains (s @ CHR 0x22 # w) p"
    proof
      fix p
      assume p: "p \<in> set VALUE_PREFIXES"
      then have "\<not> str_contains s p" "\<not> str_contains w p" using s v Quoted prefix_needs_tick [of p w] by (auto simp: schema_prefixes)
      then show "\<not> str_contains (s @ CHR 0x22 # w) p" using contains_across_quote [OF p] by blast
    qed
    then have "clear ((s @ CHR 0x22 # w) @ [CHR 0x22]) ?m" by (rule clear_quote)
    then show ?thesis using redact_ticked_skip [of "(s @ CHR 0x22 # w) @ [CHR 0x22]" ?m] IH Quoted by (simp add: split)
  next
    case (Ticked p tok)
    then have p: "p \<in> set VALUE_PREFIXES" and tok: "CHR ''`'' \<notin> set tok" using v by auto
    note find = find_tick [OF tok, of ?m]
    have "redact_ticked (p @ tok @ ''`'' @ ?m) = p @ REDACTED @ redact_ticked (''`'' @ ?m)"
      by (subst redact_ticked.simps) (simp add: next_value_here [OF p] find Let_def)
    also have "redact_ticked (''`'' @ ?m) = ''`'' @ redact_ticked ?m" by (rule redact_ticked_skip) (rule clear_tick)
    finally show ?thesis
      using redact_ticked_skip [OF clear_before_prefix [of s p "tok @ ''`'' @ ?m"]] s p IH Ticked by (simp add: split schema_prefixes)
  qed
qed


lemma redact_quoted_plain: "CHR 0x22 \<notin> set s \<Longrightarrow> redact_quoted False (s @ m) = s @ redact_quoted False m"
  by (induction s) auto

lemma redact_quoted_value: "escaped v \<Longrightarrow> redact_quoted True (v @ CHR 0x22 # m) = REDACTED @ CHR 0x22 # redact_quoted False m"
proof -
  have "escape_ok k v \<Longrightarrow> redact_quoted True ((if k then tl else id) (v @ CHR 0x22 # m)) = REDACTED @ CHR 0x22 # redact_quoted False m" for k
    by (induction k v rule: escape_ok.induct) (auto split: list.splits if_splits)
  from this [of False] show "escaped v \<Longrightarrow> ?thesis" by simp
qed

lemma redact_quoted_open: "escaped v \<Longrightarrow> CHR 0x22 \<notin> set m \<Longrightarrow> redact_quoted True (v @ m) = REDACTED"
proof -
  have never: "CHR 0x22 \<notin> set m \<Longrightarrow> redact_quoted True m = REDACTED" for m
    by (induction m rule: length_induct) (case_tac xs, auto split: list.splits)
  have "escape_ok k v \<Longrightarrow> CHR 0x22 \<notin> set m \<Longrightarrow> redact_quoted True ((if k then tl else id) (v @ m)) = REDACTED" for k
    by (induction k v rule: escape_ok.induct) (auto simp: never split: list.splits if_splits)
  from this [of False] show "escaped v \<Longrightarrow> CHR 0x22 \<notin> set m \<Longrightarrow> ?thesis" by simp
qed

lemma REDACTED_plain: "CHR 0x22 \<notin> set REDACTED" "escaped REDACTED"
  by (simp_all add: REDACTED_def)

lemma second_pass:
  "\<forall>(s, v) \<in> set parts. schema s \<and> value_ok v \<Longrightarrow> schema rest \<Longrightarrow>
   redact_quoted False (diagnostic value_half parts rest) = diagnostic value_hidden parts rest"
proof (induction parts)
  case Nil
  then show ?case using redact_quoted_plain [of rest "[]"] by (simp add: diagnostic_def schema_def)
next
  case (Cons sv parts)
  obtain s v where sv: "sv = (s, v)" by fastforce
  let ?m = "diagnostic value_half parts rest"
  have IH: "redact_quoted False ?m = diagnostic value_hidden parts rest" and s: "CHR 0x22 \<notin> set s" and v: "value_ok v"
    using Cons sv by (auto simp: schema_def)
  have split: "diagnostic spell (sv # parts) rest = s @ spell v @ diagnostic spell parts rest" for spell
    by (simp add: diagnostic_def sv)
  show ?case
  proof (cases v)
    case (Quoted w)
    then show ?thesis using redact_quoted_plain [OF s] redact_quoted_value [of w ?m] IH v by (simp add: split)
  next
    case (Ticked p tok)
    then have "CHR 0x22 \<notin> set (p @ REDACTED @ ''`'')" using v REDACTED_plain by (auto simp: VALUE_PREFIXES_def)
    from redact_quoted_plain [OF this, of ?m] show ?thesis using redact_quoted_plain [OF s] IH Ticked by (simp add: split)
  qed
qed

text \<open>
  C38: values without a backtick do not come back. A deserializer's message is redacted to its own words with the
  same placeholder for every value, quoted or in backticks, however many there are and whatever they are otherwise
  (quotes and backslashes in a quoted value are escaped, as the deserializer spells it); so the answer to a
  request does not depend on the values that were rejected. A backtick in a value is excluded, for good reason:
  with one, other values can show (\<open>quoted_prefix_exposes_the_next_value\<close>) or the rest of the value itself
  (\<open>backtick_in_a_name_exposes_the_rest\<close>).
\<close>

theorem redaction_hides_submitted_values:
  assumes "list_all (\<lambda>(s, v). schema s \<and> value_ok v) parts" and "schema rest"
  shows "sf_message (from_deserialization_error name (diagnostic value_text parts rest)) =
    ''Validation failed for '' @ [CHR 0x27] @ name @ [CHR 0x27] @ '': '' @ diagnostic value_hidden parts rest"
  using first_pass second_pass assms
  by (simp add: from_deserialization_error_def sf_validation_def sf_with_code_def redact_submitted_values_def list_all_iff)

definition demo_parts :: "(string \<times> submitted) list" where
  "demo_parts =
     [(''invalid type: string '', Quoted (''hunter2'' @ [CHR 0x5C, CHR 0x22] @ ''x'')), ('', expected `u64`, or '', Ticked ''integer `'' ''4711'')]"

lemma redaction_hides_submitted_values_witness:
  "sf_message (from_deserialization_error ''login'' (diagnostic value_text demo_parts '', expected one of `a`, `b`'')) =
     ''Validation failed for '' @ [CHR 0x27] @ ''login'' @ [CHR 0x27] @ '': invalid type: string '' @ [CHR 0x22] @ ''<redacted>'' @ [CHR 0x22]
       @ '', expected `u64`, or integer `<redacted>`, expected one of `a`, `b`''"
proof -
  have ok: "list_all (\<lambda>(s, v). schema s \<and> value_ok v) demo_parts" "schema '', expected one of `a`, `b`''" by code_simp+
  have "diagnostic value_hidden demo_parts '', expected one of `a`, `b`'' =
      ''invalid type: string '' @ [CHR 0x22] @ ''<redacted>'' @ [CHR 0x22] @ '', expected `u64`, or integer `<redacted>`, expected one of `a`, `b`''"
    by code_simp
  then show ?thesis using redaction_hides_submitted_values [OF ok, of "''login''"] by (simp only: append_assoc append.simps)
qed

subsection \<open>One quoted value\<close>

text \<open>A message with one quoted value hides it whatever it is; at worst the words after it are lost.\<close>

lemma escape_ok_append: "escape_ok k a \<Longrightarrow> escaped b \<Longrightarrow> escape_ok k (a @ b)"
  by (induction k a rule: escape_ok.induct) auto

lemma escape_tick: "escape_ok k (CHR ''`'' # b) \<longleftrightarrow> \<not> k \<and> escaped b"
  by (cases k) auto

lemma escape_split: "escape_ok k (a @ CHR ''`'' # b) \<Longrightarrow> escape_ok k a \<and> escaped b"
  by (induction k a rule: escape_ok.induct) (auto simp: escape_tick split: if_splits)

lemma find_str_prefix: "find_str p s = Some i \<Longrightarrow> prefix p (drop i s)"
  by (auto simp: find_str_def dest!: split_seq_Some)

lemma schema_tail: "schema (a @ b) \<Longrightarrow> schema b"
  using str_contains_mono [of b _ a "[]"] by (auto simp: schema_prefixes)

lemma one_value_first_pass:
  assumes "escaped v" "schema post"
  shows "(\<exists>w. escaped w \<and> redact_ticked (v @ CHR 0x22 # post) = w @ CHR 0x22 # post) \<or>
    (\<exists>w m. escaped w \<and> CHR 0x22 \<notin> set m \<and> redact_ticked (v @ CHR 0x22 # post) = w @ m)"
  using assms(1)
proof (induction "length v" arbitrary: v rule: less_induct)
  case less
  let ?t = "v @ CHR 0x22 # post"
  show ?case
  proof (cases "next_value ?t")
    case None
    then show ?thesis using less.prems by (subst (1 2) redact_ticked.simps) auto
  next
    case (Some ip)
    obtain i p where ip: "ip = (i, p)" by fastforce
    have p: "p \<in> set VALUE_PREFIXES" "find_str p ?t = Some i" using next_value_mem [of ?t i p] Some ip by auto
    obtain q where q: "p = q @ ''`''" "CHR 0x22 \<notin> set p" using p(1) by (rule prefix_shape) auto
    have "prefix p (drop i ?t)" using find_str_prefix [OF p(2)] .
    moreover have "\<not> prefix p (CHR 0x22 # post)" using q by (cases q) auto
    moreover have "\<not> prefix p (drop j post)" for j using no_occurrence assms(2) p(1) by (auto simp: schema_prefixes)
    ultimately have "\<not> length v \<le> i" by (cases "i - length v") auto
    then have "i < length v" by simp
    then have "prefix p (drop i v)" using prefix_hits_barrier [of p i v "CHR 0x22" post] \<open>prefix p (drop i ?t)\<close> q(2) by simp
    then obtain y where "drop i v = p @ y" by (auto simp: prefix_def)
    then have y: "v = take i v @ p @ y" using append_take_drop_id [of i v] by simp
    define x where "x = take i v"
    have v: "v = x @ q @ CHR ''`'' # y" "i = length x" using y q(1) \<open>i < length v\<close> by (simp_all add: x_def)
    then have e: "escaped (x @ q)" "escaped y" using escape_split [of False "x @ q" y] less.prems by auto
    have head: "escaped (x @ q @ ''`'' @ REDACTED @ ''`'')"
      using escape_ok_append [OF e(1), of "''`'' @ REDACTED @ ''`''"] by (simp add: REDACTED_def)
    have t: "?t = (x @ p) @ y @ CHR 0x22 # post" using v q(1) by simp
    have step: "redact_ticked ?t = x @ p @ REDACTED @ redact_ticked (drop len (y @ CHR 0x22 # post))"
      if "find_str ''`'' (y @ CHR 0x22 # post) = Some len" for len
      using that Some ip v(2) by (subst redact_ticked.simps) (simp add: t Let_def)
    have tick: "redact_ticked (CHR ''`'' # m) = CHR ''`'' # redact_ticked m" for m
      using redact_ticked_skip [OF clear_tick, of m] by simp
    consider "CHR ''`'' \<in> set y" | "CHR ''`'' \<notin> set y" "CHR ''`'' \<in> set post" | "CHR ''`'' \<notin> set y" "CHR ''`'' \<notin> set post" by blast
    then show ?thesis
    proof cases
      case 1
      then obtain z y2 where z: "y = z @ CHR ''`'' # y2" "CHR ''`'' \<notin> set z" using split_list_first by metis
      have "escaped y2" using e(2) z escape_split by blast
      moreover have "length y2 < length v" using v z by simp
      ultimately have IH: "(\<exists>w. escaped w \<and> redact_ticked (y2 @ CHR 0x22 # post) = w @ CHR 0x22 # post) \<or>
          (\<exists>w m. escaped w \<and> CHR 0x22 \<notin> set m \<and> redact_ticked (y2 @ CHR 0x22 # post) = w @ m)" using less.hyps by blast
      have all: "redact_ticked ?t = (x @ q @ ''`'' @ REDACTED @ ''`'') @ redact_ticked (y2 @ CHR 0x22 # post)"
        using step [of "length z"] find_tick [OF z(2), of "y2 @ CHR 0x22 # post"] z(1) q(1) by (simp add: tick)
      from IH show ?thesis unfolding all using escape_ok_append [OF head] by (metis append.assoc)
    next
      case 2
      then obtain z m where z: "post = z @ CHR ''`'' # m" "CHR ''`'' \<notin> set z" using split_list_first by metis
      have m: "schema m" using assms(2) z(1) schema_tail [of "z @ ''`''" m] by simp
      have "redact_ticked ?t = (x @ q @ ''`'' @ REDACTED @ ''`'') @ m"
        using step [of "length (y @ CHR 0x22 # z)"] find_tick [of "y @ CHR 0x22 # z" m] 2(1) z q(1) redact_ticked_none [of m] m
        by (simp add: tick schema_prefixes)
      then show ?thesis using head m by (auto simp: schema_def)
    next
      case 3
      then have "find_str ''`'' (y @ CHR 0x22 # post) = None" by (auto simp: find_str_None dest!: str_contains_set)
      then have "redact_ticked ?t = ?t" using Some ip v(2) by (subst redact_ticked.simps) (simp add: t Let_def)
      then show ?thesis using less.prems by blast
    qed
  qed
qed

lemma one_quoted_value_is_hidden:
  assumes "schema pre" "escaped v" "schema post"
  shows "redact_submitted_values (pre @ [CHR 0x22] @ v @ [CHR 0x22] @ post) \<in>
    {pre @ [CHR 0x22] @ REDACTED @ [CHR 0x22] @ post, pre @ [CHR 0x22] @ REDACTED}"
proof -
  have post: "redact_quoted False post = post" using redact_quoted_plain [of post "[]"] assms(3) by (simp add: schema_def)
  have "redact_ticked ((pre @ [CHR 0x22]) @ v @ CHR 0x22 # post) = (pre @ [CHR 0x22]) @ redact_ticked (v @ CHR 0x22 # post)"
    using assms(1) by (intro redact_ticked_skip clear_quote) (simp add: schema_prefixes)
  then show ?thesis
    using one_value_first_pass [OF assms(2,3)] assms(1) post
    by (auto simp: redact_submitted_values_def redact_quoted_plain redact_quoted_value redact_quoted_open schema_def)
qed

text \<open>
  The two passes do not know of each other: a quoted value that spells one of the prefixes makes the first pass cut
  out the quote that closes it, and then the second pass hides the message's words and shows the next quoted value.
  A backtick in a value that is spelled in backticks ends it, and the rest of the value comes back.
\<close>

lemma quoted_prefix_exposes_the_next_value:
  "redact_submitted_values (''string '' @ [CHR 0x22] @ ''integer `'' @ [CHR 0x22] @ '', expected `a`, not '' @ [CHR 0x22] @ ''hunter2'' @ [CHR 0x22]) =
     ''string '' @ [CHR 0x22] @ ''<redacted>'' @ [CHR 0x22] @ ''hunter2'' @ [CHR 0x22] @ ''<redacted>''"
  by code_simp

lemma backtick_in_a_name_exposes_the_rest:
  "redact_submitted_values ''unknown field `x`hunter2`, expected `a`'' = ''unknown field `<redacted>`hunter2`, expected `a`''"
  by code_simp

end
