(* ===== verification/Dotenv.thy ===== *)
theory Dotenv
  imports HtmlEscape
begin

text \<open>
  The \<open>.env\<close> reader of the command line tool, \<open>krab_cli/src/dotenv.rs\<close>: the value syntax, the lines, and loading
  a file under the process environment. A \<open>String\<close> is its bytes; the file is given by its text.
\<close>

subsection \<open>Lines\<close>

definition LF :: char where "LF = CHR 0x0A"
definition CR :: char where "CR = CHR 0x0D"

text \<open>\<open>str::lines\<close>: a carriage return belongs to the line feed after it; no line after the last line feed.\<close>

definition chomp :: "string \<Rightarrow> string" where
  "chomp s = (case strip_suffix [CR] s of Some r \<Rightarrow> r | None \<Rightarrow> s)"

definition str_lines :: "string \<Rightarrow> string list" where
  "str_lines s =
     (let ws = split_on (\<lambda>c. c = LF) s; body = map chomp (butlast ws)
      in if last ws = [] then body else body @ [last ws])"

subsection \<open>Values\<close>

definition is_valid_key :: "string \<Rightarrow> bool" where
  "is_valid_key key =
     (case key of
        [] \<Rightarrow> False
      | first # rest \<Rightarrow> (is_ascii_alpha first \<or> first = CHR ''_'') \<and> list_all (\<lambda>c. is_ascii_alnum c \<or> c = CHR ''_'' \<or> c = CHR ''.'') rest)"

definition is_trailing_comment_or_blank :: "string \<Rightarrow> bool" where
  "is_trailing_comment_or_blank rest = (let rest = trim_start rest in rest = [] \<or> starts_with rest ''#'')"

definition unescape :: "char \<Rightarrow> string" where
  "unescape e =
     (if e = CHR ''n'' then [LF] else if e = CHR ''t'' then [CHR 0x09] else if e = CHR ''r'' then [CR]
      else if e = CHR 0x22 then [CHR 0x22] else if e = CHR 0x5C then [CHR 0x5C]
      else [CHR 0x5C, e])"

fun parse_double :: "string \<Rightarrow> string \<Rightarrow> string + string" where
  "parse_double value [] = Inl ''unterminated double-quoted value''"
| "parse_double value (c # body) =
     (if c = CHR 0x22 then
        (if is_trailing_comment_or_blank body then Inr value else Inl ''unexpected text after the closing double quote'')
      else if c = CHR 0x5C then
        (case body of
           [] \<Rightarrow> Inl ''unterminated double-quoted value''
         | e # rest \<Rightarrow> parse_double (value @ unescape e) rest)
      else parse_double (value @ [c]) body)"

text \<open>\<open>u8::is_ascii_whitespace\<close>, which leaves out the vertical tab; the text up to a comment.\<close>

definition is_ascii_ws :: "char \<Rightarrow> bool" where
  "is_ascii_ws c = (c \<in> {CHR '' '', CHR 0x09, LF, CHR 0x0C, CR})"

fun before_comment :: "bool \<Rightarrow> string \<Rightarrow> string" where
  "before_comment may_start [] = []"
| "before_comment may_start (c # s) = (if c = CHR ''#'' \<and> may_start then [] else c # before_comment (is_ascii_ws c) s)"

definition parse_value :: "string \<Rightarrow> string + string" where
  "parse_value raw0 =
     (let raw = trim_start raw0
      in case strip_prefix [CHR 0x22] raw of
           Some body \<Rightarrow> parse_double [] body
         | None \<Rightarrow>
             (case strip_prefix [CHR 0x27] raw of
                Some body \<Rightarrow>
                  (case split_once (CHR 0x27) body of
                     Some (inner, rest) \<Rightarrow>
                       if is_trailing_comment_or_blank rest then Inr inner else Inl ''unexpected text after the closing single quote''
                   | None \<Rightarrow> Inl ''unterminated single-quoted value'')
              | None \<Rightarrow> Inr (trim_end (before_comment True raw))))"

subsection \<open>A file\<close>

type_synonym dotenv_entry = "string \<times> string"

record parsed_dotenv =
  pd_entries :: "dotenv_entry list"
  pd_warnings :: "string list"

definition parse_line :: "nat \<Rightarrow> string \<Rightarrow> parsed_dotenv \<Rightarrow> parsed_dotenv" where
  "parse_line line_no line parsed =
     (let trimmed = trim line
      in if trimmed = [] \<or> starts_with trimmed ''#'' then parsed
         else
           let assignment =
                 (case strip_prefix ''export'' trimmed of
                    Some rest \<Rightarrow> if rest \<noteq> [] \<and> is_ws (hd rest) then trim_start rest else trimmed
                  | None \<Rightarrow> trimmed);
               warn = (\<lambda>text. parsed\<lparr>pd_warnings := pd_warnings parsed @ [''line '' @ show_nat line_no @ '': '' @ text]\<rparr>)
           in case split_once (CHR ''='') assignment of
                None \<Rightarrow> warn ''expected KEY=VALUE, skipped''
              | Some (key0, raw_value) \<Rightarrow>
                  let key = trim key0
                  in if \<not> is_valid_key key then warn (''`'' @ key @ ''` is not a valid variable name, skipped'')
                     else (case parse_value raw_value of
                             Inr v \<Rightarrow> parsed\<lparr>pd_entries := filter (\<lambda>(k, _). k \<noteq> key) (pd_entries parsed) @ [(key, v)]\<rparr>
                           | Inl reason \<Rightarrow> warn (reason @ '' for `'' @ key @ ''`, skipped'')))"

definition parse_dotenv :: "string \<Rightarrow> parsed_dotenv" where
  "parse_dotenv content0 =
     (let content = (case strip_prefix [CHR 0xEF, CHR 0xBB, CHR 0xBF] content0 of Some c \<Rightarrow> c | None \<Rightarrow> content0)
      in fold (\<lambda>(index, line). parse_line (index + 1) line) (enumerate 0 (str_lines content)) \<lparr>pd_entries = [], pd_warnings = []\<rparr>)"

definition entries_to_apply :: "dotenv_entry list \<Rightarrow> (string \<Rightarrow> bool) \<Rightarrow> dotenv_entry list \<times> nat" where
  "entries_to_apply entries is_set =
     fold (\<lambda>e (apply_list, kept). if is_set (fst e) then (apply_list, kept + 1) else (apply_list @ [e], kept)) entries ([], 0)"

text \<open>\<open>std::env::set_var\<close> panics on a value that holds a NUL; \<open>None\<close> is the panic.\<close>

definition set_var :: "dotenv_entry \<Rightarrow> environment \<Rightarrow> environment option" where
  "set_var e env = (if CHR 0x00 \<in> set (snd e) then None else Some (env(fst e \<mapsto> snd e)))"

fun set_vars :: "dotenv_entry list \<Rightarrow> environment \<Rightarrow> environment option" where
  "set_vars [] env = Some env"
| "set_vars (e # es) env = Option.bind (set_var e env) (set_vars es)"

record dotenv_load =
  dl_applied :: nat
  dl_kept_from_environment :: nat
  dl_warnings :: "string list"

text \<open>The file is \<open>None\<close> when there is none, and \<open>Inl\<close> when it cannot be read; the result is \<open>None\<close> when the loader panics.\<close>

definition load_dotenv_file :: "(string + string) option \<Rightarrow> environment \<Rightarrow> (string + (dotenv_load option \<times> environment)) option" where
  "load_dotenv_file file env =
     (case file of
        None \<Rightarrow> Some (Inr (None, env))
      | Some (Inl err) \<Rightarrow> Some (Inl err)
      | Some (Inr content) \<Rightarrow>
          let parsed = parse_dotenv content;
              (apply_list, kept) = entries_to_apply (pd_entries parsed) (\<lambda>key. env key \<noteq> None)
          in case set_vars apply_list env of
               None \<Rightarrow> None
             | Some env' \<Rightarrow>
                 Some (Inr (Some \<lparr>dl_applied = length apply_list, dl_kept_from_environment = kept, dl_warnings = pd_warnings parsed\<rparr>, env')))"

text \<open>\<open>load_project_dotenv\<close>: an unreadable file leaves the environment alone.\<close>

definition load_project_dotenv :: "(string + string) option \<Rightarrow> environment \<Rightarrow> environment option" where
  "load_project_dotenv file env =
     (case load_dotenv_file file env of
        None \<Rightarrow> None
      | Some (Inr (_, env')) \<Rightarrow> Some env'
      | Some (Inl _) \<Rightarrow> Some env)"

subsection \<open>Writing a file\<close>

text \<open>
  The accepted syntax as a grammar: an assignment spells its value in one of three ways and may be exported and
  commented. Anything can be written in double quotes.
\<close>

datatype spelling = Bare | SingleQuoted | DoubleQuoted

datatype dotenv_line =
    BlankLine string
  | CommentLine string
  | AssignLine bool string string spelling "string option"

definition escape_char :: "char \<Rightarrow> string" where
  "escape_char c =
     (if c = LF then [CHR 0x5C, CHR ''n''] else if c = CHR 0x09 then [CHR 0x5C, CHR ''t''] else if c = CR then [CHR 0x5C, CHR ''r'']
      else if c = CHR 0x22 \<or> c = CHR 0x5C then [CHR 0x5C, c] else [c])"

fun spelled :: "spelling \<Rightarrow> string \<Rightarrow> string" where
  "spelled Bare v = v"
| "spelled SingleQuoted v = CHR 0x27 # v @ [CHR 0x27]"
| "spelled DoubleQuoted v = CHR 0x22 # concat (map escape_char v) @ [CHR 0x22]"

fun line_text :: "dotenv_line \<Rightarrow> string" where
  "line_text (BlankLine ws) = ws"
| "line_text (CommentLine c) = CHR ''#'' # c"
| "line_text (AssignLine exported key v sp comment) =
     (if exported then ''export '' else []) @ key @ CHR ''='' # spelled sp v @ (case comment of Some c \<Rightarrow> '' #'' @ c | None \<Rightarrow> [])"

definition ends_plain :: "string \<Rightarrow> bool" where
  "ends_plain s = (s = [] \<or> \<not> is_ws (last s))"

text \<open>
  A bare value is one line with no white space at its ends and no quote at its start. A number sign in it stands
  neither at the start nor after white space (a blank, a tab, a form feed or a carriage return).
\<close>

fun spelling_ok :: "spelling \<Rightarrow> string \<Rightarrow> bool" where
  "spelling_ok Bare v =
     (LF \<notin> set v \<and> ends_plain v \<and>
      (v = [] \<or> \<not> is_ws (hd v) \<and> hd v \<noteq> CHR 0x22 \<and> hd v \<noteq> CHR 0x27 \<and> hd v \<noteq> CHR ''#'') \<and>
      successively (\<lambda>a b. b = CHR ''#'' \<longrightarrow> a \<notin> {CHR '' '', CHR 0x09, CHR 0x0C, CR}) v)"
| "spelling_ok SingleQuoted v = (LF \<notin> set v \<and> CHR 0x27 \<notin> set v)"
| "spelling_ok DoubleQuoted v = True"

fun line_ok :: "dotenv_line \<Rightarrow> bool" where
  "line_ok (BlankLine ws) = list_all (\<lambda>c. is_ws c \<and> c \<noteq> LF \<and> c \<noteq> CR) ws"
| "line_ok (CommentLine c) = (LF \<notin> set c \<and> CR \<notin> set c)"
| "line_ok (AssignLine exported key v sp comment) =
     (is_valid_key key \<and> spelling_ok sp v \<and> CHR 0x00 \<notin> set v \<and> (case comment of Some c \<Rightarrow> LF \<notin> set c \<and> ends_plain c | None \<Rightarrow> True))"

fun assignments :: "dotenv_line list \<Rightarrow> dotenv_entry list" where
  "assignments [] = []"
| "assignments (AssignLine exported key v sp comment # ls) = (key, v) # assignments ls"
| "assignments (_ # ls) = assignments ls"

definition file_text :: "bool \<Rightarrow> string \<Rightarrow> dotenv_line list \<Rightarrow> string" where
  "file_text bom brk ls = (if bom then [CHR 0xEF, CHR 0xBB, CHR 0xBF] else []) @ concat (map (\<lambda>l. line_text l @ brk) ls)"

subsection \<open>Trimming\<close>

lemma trim_start_plain: "s = [] \<or> \<not> is_ws (hd s) \<Longrightarrow> trim_start s = s"
  by (cases s) (auto simp: trim_start_def)

lemma trim_end_plain: "ends_plain s \<Longrightarrow> trim_end s = s"
  by (cases s rule: rev_cases) (auto simp: trim_end_def ends_plain_def)

lemma trim_end_append: "ends_plain s \<Longrightarrow> \<forall>c \<in> set t. is_ws c \<Longrightarrow> trim_end (s @ t) = s"
proof -
  assume "ends_plain s" and t: "\<forall>c \<in> set t. is_ws c"
  moreover have "dropWhile is_ws (rev t @ rev s) = dropWhile is_ws (rev s)" using t by (intro dropWhile_append2) simp
  ultimately show ?thesis using trim_end_plain [of s] by (simp add: trim_end_def)
qed

lemma trim_ends_plain: "s = [] \<or> \<not> is_ws (hd s) \<Longrightarrow> ends_plain s \<Longrightarrow> trim s = s"
  by (simp add: trim_def trim_start_plain trim_end_plain)

lemma key_char: "is_ascii_alnum c \<or> c = CHR ''_'' \<or> c = CHR ''.'' \<Longrightarrow> \<not> is_ws c \<and> c \<noteq> CHR ''='' \<and> c \<noteq> LF \<and> c \<noteq> CHR ''#'' \<and> c \<noteq> CHR 0xEF"
  by (auto simp: is_ascii_alnum_def is_ascii_alpha_def is_ws_def LF_def Let_def)

lemma valid_key:
  assumes "is_valid_key key"
  shows "key \<noteq> []" "\<forall>c \<in> set key. \<not> is_ws c \<and> c \<noteq> CHR ''='' \<and> c \<noteq> LF \<and> c \<noteq> CHR ''#'' \<and> c \<noteq> CHR 0xEF"
proof -
  show "key \<noteq> []" using assms by (auto simp: is_valid_key_def)
  have "is_ascii_alnum c \<or> c = CHR ''_'' \<or> c = CHR ''.''" if "c \<in> set key" for c
    using assms that by (auto simp: is_valid_key_def is_ascii_alnum_def list_all_iff split: list.splits)
  then show "\<forall>c \<in> set key. \<not> is_ws c \<and> c \<noteq> CHR ''='' \<and> c \<noteq> LF \<and> c \<noteq> CHR ''#'' \<and> c \<noteq> CHR 0xEF" using key_char by blast
qed

subsection \<open>One line\<close>

text \<open>What may follow a value: nothing, or a comment after a space.\<close>

definition comment_text :: "string option \<Rightarrow> string" where
  "comment_text comment = (case comment of Some c \<Rightarrow> '' #'' @ c | None \<Rightarrow> [])"

lemma trailing_comment: "is_trailing_comment_or_blank (comment_text comment)"
  by (auto simp: is_trailing_comment_or_blank_def comment_text_def trim_start_def is_ws_def starts_with_def split: option.splits)

lemma parse_double_escaped:
  "parse_double acc (concat (map escape_char v) @ CHR 0x22 # rest) =
     (if is_trailing_comment_or_blank rest then Inr (acc @ v) else Inl ''unexpected text after the closing double quote'')"
proof (induction v arbitrary: acc)
  case (Cons c v)
  show ?case using Cons.IH by (auto simp: escape_char_def unescape_def LF_def CR_def)
qed simp

lemma before_comment_append:
  "before_comment b v = v \<Longrightarrow> before_comment b (v @ '' #'' @ c) = v @ '' ''"
  by (induction b v rule: before_comment.induct) (auto simp: is_ascii_ws_def split: if_splits)

lemma no_comment:
  assumes "successively (\<lambda>a b. b = CHR ''#'' \<longrightarrow> a \<notin> {CHR '' '', CHR 0x09, CHR 0x0C, CR}) v" and "LF \<notin> set v"
    and "v = [] \<or> hd v \<noteq> CHR ''#'' \<or> \<not> may_start"
  shows "before_comment may_start v = v"
  using assms
proof (induction v arbitrary: may_start)
  case (Cons c v)
  have "before_comment (is_ascii_ws c) v = v"
    using Cons.prems by (intro Cons.IH) (auto simp: successively_Cons is_ascii_ws_def)
  then show ?case using Cons.prems(3) by auto
qed simp

lemma parse_spelled:
  assumes "spelling_ok sp v"
  shows "parse_value (spelled sp v @ comment_text comment) = Inr v"
proof (cases sp)
  case Bare
  show ?thesis
  proof (cases "v = []")
    case True
    then show ?thesis
      using Bare by (auto simp: parse_value_def comment_text_def trim_start_def is_ws_def strip_prefix_def trim_end_def split: option.splits)
  next
    case False
    let ?t = "v @ comment_text comment"
    have v: "\<not> is_ws (hd v)" "hd v \<noteq> CHR 0x22" "hd v \<noteq> CHR 0x27" "ends_plain v" using assms Bare False by auto
    have plain: "before_comment True v = v" using assms Bare by (intro no_comment) auto
    have "trim_start ?t = ?t" "strip_prefix [CHR 0x22] ?t = None" "strip_prefix [CHR 0x27] ?t = None"
      using v False by (cases v; simp add: trim_start_def strip_prefix_def)+
    moreover have "before_comment True ?t = v @ (if comment = None then [] else '' '')"
      using plain before_comment_append [OF plain] by (auto simp: comment_text_def split: option.splits)
    moreover have "trim_end (v @ (if comment = None then [] else '' '')) = v"
      using v(4) by (intro trim_end_append) (auto simp: is_ws_def)
    ultimately show ?thesis by (simp only: parse_value_def Bare spelled.simps Let_def option.case)
  qed
next
  case SingleQuoted
  have "split_once (CHR 0x27) (v @ CHR 0x27 # comment_text comment) = Some (v, comment_text comment)"
    using assms SingleQuoted by (simp add: split_once_Some)
  then show ?thesis
    using SingleQuoted by (simp add: parse_value_def trim_start_def is_ws_def strip_prefix_def trailing_comment)
next
  case DoubleQuoted
  then show ?thesis
    by (simp add: parse_value_def trim_start_def is_ws_def strip_prefix_def parse_double_escaped trailing_comment)
qed


definition assign :: "dotenv_entry \<Rightarrow> dotenv_entry list \<Rightarrow> dotenv_entry list" where
  "assign e entries = filter (\<lambda>(k, _). k \<noteq> fst e) entries @ [e]"

lemma parse_assignment:
  assumes "line_ok (AssignLine exported key v sp comment)"
  shows "parse_line n (line_text (AssignLine exported key v sp comment)) p = p\<lparr>pd_entries := assign (key, v) (pd_entries p)\<rparr>"
proof -
  let ?a = "key @ CHR ''='' # spelled sp v @ comment_text comment" and ?l = "line_text (AssignLine exported key v sp comment)"
  have key: "is_valid_key key" and sp: "spelling_ok sp v" and com: "\<And>c. comment = Some c \<Longrightarrow> ends_plain c"
    using assms by (auto split: option.splits)
  note k = valid_key [OF key]
  have l: "?l = (if exported then ''export '' else []) @ ?a" by (simp add: comment_text_def)
  have "ends_plain (CHR ''='' # spelled sp v @ comment_text comment)"
    using sp com by (cases sp; cases comment) (auto simp: ends_plain_def comment_text_def is_ws_def)
  then have "ends_plain ?l" unfolding l by (simp add: ends_plain_def)
  moreover have "\<not> is_ws (hd ?l)" "hd ?l \<noteq> CHR ''#''" "?l \<noteq> []" using k by (cases key; auto simp: l is_ws_def)+
  ultimately have t: "trim ?l = ?l" "?l \<noteq> []" "\<not> starts_with ?l ''#''"
    by (auto simp: trim_ends_plain starts_with_def prefix_def)
  have a: "trim_start ?a = ?a" using k by (intro trim_start_plain) (cases key; auto)
  have strip: "(case strip_prefix ''export'' ?l of
      Some rest \<Rightarrow> if rest \<noteq> [] \<and> is_ws (hd rest) then trim_start rest else ?l | None \<Rightarrow> ?l) = ?a"
  proof (cases exported)
    case True
    then have "strip_prefix ''export'' ?l = Some (CHR '' '' # ?a)" unfolding l by (simp add: strip_prefix_Some)
    moreover have "trim_start (CHR '' '' # ?a) = ?a" using a by (simp add: trim_start_def is_ws_def)
    ultimately show ?thesis by (simp add: is_ws_def)
  next
    case False
    have "\<not> is_ws (hd rest)" if "strip_prefix ''export'' ?a = Some rest" for rest
    proof -
      have "key @ CHR ''='' # spelled sp v @ comment_text comment = ''export'' @ rest" using that by (simp only: strip_prefix_Some)
      then obtain us where "key = ''export'' @ us \<and> us @ CHR ''='' # spelled sp v @ comment_text comment = rest \<or>
          key @ us = ''export'' \<and> CHR ''='' # spelled sp v @ comment_text comment = us @ rest"
        by (rule iffD1 [OF append_eq_append_conv2, elim_format]) (elim exE, rule that)
      then consider "key = ''export'' @ us" "us @ CHR ''='' # spelled sp v @ comment_text comment = rest"
        | "key @ us = ''export''" "CHR ''='' # spelled sp v @ comment_text comment = us @ rest" by blast
      then show ?thesis
      proof cases
        case 1
        have "\<not> is_ws (hd (us @ [CHR ''='']))"
        proof (cases us)
          case Nil
          then show ?thesis by (simp add: is_ws_def)
        next
          case (Cons u vs)
          then have "u \<in> set key" by (simp add: 1(1))
          then show ?thesis using k(2) Cons by simp
        qed
        then show ?thesis unfolding 1(2) [symmetric] by (cases us) simp_all
      next
        case 2
        have "CHR ''='' \<notin> set (key @ us)" by (simp add: 2(1))
        then have "us = []" using 2(2) by (cases us) auto
        then show ?thesis using 2(2) by (auto simp: is_ws_def)
      qed
    qed
    then show ?thesis unfolding l using False by (auto split: option.splits)
  qed
  have once: "split_once (CHR ''='') ?a = Some (key, spelled sp v @ comment_text comment)"
    using k by (auto simp: split_once_Some)
  have "trim key = key" using k by (intro trim_id) auto
  then show ?thesis
    using t key
    by (simp only: parse_line_def Let_def t strip once option.case prod.case if_False not_True_eq_False parse_spelled [OF sp] sum.case)
      (simp add: assign_def)
qed

lemma parse_line_ok:
  assumes "line_ok l"
  shows "parse_line n (line_text l) p = p\<lparr>pd_entries := fold assign (assignments [l]) (pd_entries p)\<rparr>"
proof (cases l)
  case (BlankLine ws)
  then have "dropWhile is_ws ws = []" using assms by (simp add: list_all_iff)
  then have "trim ws = []" by (simp add: trim_def trim_start_def trim_end_def del: dropWhile_eq_Nil_conv)
  then show ?thesis using BlankLine by (simp add: parse_line_def)
next
  case (CommentLine c)
  have "\<exists>r. trim (CHR ''#'' # c) = CHR ''#'' # r"
    by (intro exI [of _ "rev (dropWhile is_ws (rev c))"]) (auto simp: trim_def trim_start_def trim_end_def is_ws_def dropWhile_append)
  then show ?thesis using CommentLine by (auto simp: parse_line_def starts_with_def)
next
  case (AssignLine exported key v sp comment)
  then show ?thesis using parse_assignment assms by simp
qed


subsection \<open>A whole file\<close>

lemma assign_text:
  assumes "line_ok (AssignLine exported key v sp comment)"
  shows "LF \<notin> set (line_text (AssignLine exported key v sp comment))" "ends_plain (line_text (AssignLine exported key v sp comment))"
    "hd (line_text (AssignLine exported key v sp comment)) \<noteq> CHR 0xEF \<and> line_text (AssignLine exported key v sp comment) \<noteq> []"
proof -
  have l: "line_text (AssignLine exported key v sp comment) = (if exported then ''export '' else []) @ key @ CHR ''='' # spelled sp v @ comment_text comment"
    by (simp add: comment_text_def)
  have key: "is_valid_key key" and sp: "spelling_ok sp v" and com: "\<And>c. comment = Some c \<Longrightarrow> ends_plain c \<and> LF \<notin> set c"
    using assms by (auto split: option.splits)
  note k = valid_key [OF key]
  have "LF \<notin> set (concat (map escape_char v))" by (auto simp: escape_char_def LF_def CR_def)
  then have "LF \<notin> set (spelled sp v)" using sp by (cases sp) (auto simp: LF_def)
  moreover have "LF \<notin> set (comment_text comment)" using com by (auto simp: comment_text_def LF_def split: option.splits)
  ultimately show "LF \<notin> set (line_text (AssignLine exported key v sp comment))" unfolding l using k by (auto simp: LF_def)
  have "ends_plain (CHR ''='' # spelled sp v @ comment_text comment)"
    using sp com by (cases sp; cases comment) (auto simp: ends_plain_def comment_text_def is_ws_def)
  then show "ends_plain (line_text (AssignLine exported key v sp comment))" unfolding l by (simp add: ends_plain_def)
  show "hd (line_text (AssignLine exported key v sp comment)) \<noteq> CHR 0xEF \<and> line_text (AssignLine exported key v sp comment) \<noteq> []"
    unfolding l using k by (cases key) auto
qed

lemma line_text_ends:
  assumes "line_ok l"
  shows "LF \<notin> set (line_text l)" "chomp (line_text l) = line_text l" "chomp (line_text l @ [CR]) = line_text l"
proof -
  show "LF \<notin> set (line_text l)"
  proof (cases l)
    case (AssignLine exported key v sp comment)
    then show ?thesis using assign_text(1) assms by blast
  qed (use assms in \<open>auto simp: list_all_iff LF_def\<close>)
  have "ends_plain (line_text l) \<or> CR \<notin> set (line_text l)"
  proof (cases l)
    case (AssignLine exported key v sp comment)
    then show ?thesis using assign_text(2) assms by blast
  qed (use assms in \<open>auto simp: list_all_iff CR_def\<close>)
  then have "strip_suffix [CR] (line_text l) = None"
    by (auto simp: strip_suffix_def suffix_def ends_plain_def is_ws_def CR_def)
  then show "chomp (line_text l) = line_text l" by (simp add: chomp_def)
  show "chomp (line_text l @ [CR]) = line_text l" by (simp add: chomp_def strip_suffix_def)
qed

lemma lines_of_file:
  assumes "\<forall>l \<in> set ls. line_ok l" "brk \<in> {[LF], [CR, LF]}"
  shows "str_lines (concat (map (\<lambda>l. line_text l @ brk) ls)) = map line_text ls"
proof -
  obtain cr where brk: "brk = cr @ [LF]" "cr = [] \<or> cr = [CR]" using assms(2) by auto
  have "split_on (\<lambda>c. c = LF) (concat (map (\<lambda>l. line_text l @ brk) ls)) = map (\<lambda>l. line_text l @ cr) ls @ [[]]"
    using assms(1)
  proof (induction ls)
    case (Cons l ls)
    have none: "split_on (\<lambda>c. c = LF) (line_text l @ cr) = [line_text l @ cr]"
      using Cons.prems brk(2) line_text_ends(1) [of l] by (intro split_on_none) (auto simp: LF_def CR_def)
    show ?case using Cons split_on_append [of "\<lambda>c. c = LF" LF "line_text l @ cr"] none by (simp add: brk(1))
  qed simp
  moreover have "map chomp (map (\<lambda>l. line_text l @ cr) ls) = map line_text ls"
    using assms(1) brk(2) line_text_ends by auto
  ultimately show ?thesis by (simp add: str_lines_def)
qed

lemma no_mark:
  assumes "\<forall>l \<in> set ls. line_ok l" "brk \<in> {[LF], [CR, LF]}"
  shows "strip_prefix [CHR 0xEF, CHR 0xBB, CHR 0xBF] (concat (map (\<lambda>l. line_text l @ brk) ls)) = None"
proof (cases ls)
  case (Cons l ls')
  then have ok: "line_ok l" using assms(1) by simp
  have "hd (line_text l @ brk) \<noteq> CHR 0xEF \<and> line_text l @ brk \<noteq> []"
  proof (cases l)
    case (BlankLine ws)
    then show ?thesis using ok assms(2) by (cases ws) (auto simp: is_ws_def LF_def CR_def)
  next
    case (AssignLine exported key v sp comment)
    then have "hd (line_text l) \<noteq> CHR 0xEF \<and> line_text l \<noteq> []" using ok assign_text(3) by blast
    then show ?thesis by (simp del: line_text.simps)
  qed (use assms(2) in auto)
  then have "hd (concat (map (\<lambda>l. line_text l @ brk) ls)) \<noteq> CHR 0xEF \<and> concat (map (\<lambda>l. line_text l @ brk) ls) \<noteq> []"
    unfolding Cons by (cases "line_text l @ brk") auto
  then show ?thesis by (auto simp: strip_prefix_def prefix_def)
qed (simp add: strip_prefix_def)

lemma parsed_file:
  assumes "\<forall>l \<in> set ls. line_ok l" "brk \<in> {[LF], [CR, LF]}"
  shows "parse_dotenv (file_text bom brk ls) = \<lparr>pd_entries = fold assign (assignments ls) [], pd_warnings = []\<rparr>"
proof -
  let ?t = "concat (map (\<lambda>l. line_text l @ brk) ls)"
  have split: "assignments (l # ls) = assignments [l] @ assignments ls" for l ls by (cases l) auto
  have "\<forall>l \<in> set ls. line_ok l \<Longrightarrow> fold (\<lambda>(index, line). parse_line (index + 1) line) (enumerate n (map line_text ls)) p =
      p\<lparr>pd_entries := fold assign (assignments ls) (pd_entries p)\<rparr>" for n p
  proof (induction ls arbitrary: n p)
    case (Cons l ls)
    show ?case using Cons.IH [of "Suc n"] Cons.prems by (subst split) (simp add: parse_line_ok)
  qed simp
  from this [OF assms(1), of 0] have lines: "fold (\<lambda>(index, line). parse_line (index + 1) line) (enumerate 0 (map line_text ls))
      \<lparr>pd_entries = [], pd_warnings = []\<rparr> = \<lparr>pd_entries = fold assign (assignments ls) [], pd_warnings = []\<rparr>" by simp
  have "(case strip_prefix [CHR 0xEF, CHR 0xBB, CHR 0xBF] (file_text bom brk ls) of Some c \<Rightarrow> c | None \<Rightarrow> file_text bom brk ls) = ?t"
    using no_mark [OF assms] strip_prefix_append [of "[CHR 0xEF, CHR 0xBB, CHR 0xBF]" ?t] by (cases bom) (simp_all add: file_text_def)
  then show ?thesis unfolding parse_dotenv_def Let_def using lines lines_of_file [OF assms] by simp
qed

lemma assigned: "map_of (assign e acc) = (map_of acc)(fst e \<mapsto> snd e)"
proof
  fix k
  have "map_of (filter (\<lambda>(k, _). k \<noteq> fst e) acc) k = (if k = fst e then None else map_of acc k)" by (induction acc) auto
  then show "map_of (assign e acc) k = ((map_of acc)(fst e \<mapsto> snd e)) k"
    by (cases e) (auto simp: assign_def map_add_def split: option.splits)
qed

lemma assigned_last: "map_of (fold assign es acc) = map_of acc ++ map_of (rev es)"
proof (induction es arbitrary: acc)
  case (Cons e es)
  have "map_of (rev (e # es)) = (\<lambda>k. if k = fst e \<and> map_of (rev es) k = None then Some (snd e) else map_of (rev es) k)"
    by (cases e) (auto simp: map_add_def split: option.splits)
  then show ?case using Cons.IH [of "assign e acc"] by (auto simp: assigned map_add_def split: option.splits)
qed simp

lemma entries_applied_from:
  "fold (\<lambda>e (apply_list, kept). if is_set (fst e) then (apply_list, kept + 1) else (apply_list @ [e], kept)) es (a, k) =
     (a @ filter (\<lambda>e. \<not> is_set (fst e)) es, k + length (filter (\<lambda>e. is_set (fst e)) es))"
  by (induction es arbitrary: a k) auto


lemma entries_applied: "entries_to_apply es is_set = (filter (\<lambda>e. \<not> is_set (fst e)) es, length (filter (\<lambda>e. is_set (fst e)) es))"
  by (simp add: entries_to_apply_def entries_applied_from)

subsection \<open>Properties\<close>

lemma env_filled:
  "distinct (map fst es) \<Longrightarrow> \<forall>e \<in> set es. env (fst e) = None \<and> CHR 0x00 \<notin> set (snd e) \<Longrightarrow>
   \<exists>env'. set_vars es env = Some env' \<and> (\<forall>k. env' k = (case env k of Some v \<Rightarrow> Some v | None \<Rightarrow> map_of es k))"
proof (induction es arbitrary: env)
  case (Cons e es)
  have new: "fst e \<notin> fst ` set es" and set: "set_var e env = Some (env(fst e \<mapsto> snd e))" and free: "env (fst e) = None"
    using Cons.prems by (simp_all add: set_var_def)
  have "\<forall>e' \<in> set es. (env(fst e \<mapsto> snd e)) (fst e') = None \<and> CHR 0x00 \<notin> set (snd e')"
    using Cons.prems new by (auto simp: image_iff)
  moreover have "distinct (map fst es)" using Cons.prems(1) by simp
  ultimately obtain env' where env': "set_vars es (env(fst e \<mapsto> snd e)) = Some env'"
    "\<And>k. env' k = (case (env(fst e \<mapsto> snd e)) k of Some v \<Rightarrow> Some v | None \<Rightarrow> map_of es k)"
    using Cons.IH by blast
  show ?case
  proof (intro exI conjI allI)
    show "set_vars (e # es) env = Some env'" using set env'(1) by simp
    show "env' k = (case env k of Some v \<Rightarrow> Some v | None \<Rightarrow> map_of (e # es) k)" for k
      unfolding env'(2) using free by (cases e) (auto split: option.splits)
  qed
qed (auto split: option.splits)

lemma assigned_from: "set (fold assign es acc) \<subseteq> set acc \<union> set es"
  by (induction es arbitrary: acc) (fastforce simp: assign_def split: prod.splits)+

lemma assigned_values: "list_all line_ok ls \<Longrightarrow> e \<in> set (assignments ls) \<Longrightarrow> CHR 0x00 \<notin> set (snd e)"
  by (induction ls rule: assignments.induct) auto

lemma distinct_assigned: "distinct (map fst acc) \<Longrightarrow> distinct (map fst (fold assign es acc))"
proof (induction es arbitrary: acc)
  case (Cons e es)
  have "distinct (map fst (assign e acc))"
    using Cons.prems by (induction acc) (auto simp: assign_def)
  then show ?case using Cons.IH by simp
qed simp

lemma map_of_unset: "map_of (filter (\<lambda>e. \<not> p (fst e)) es) k = (if p k then None else map_of es k)"
  by (induction es) auto

text \<open>
  C39: a file that follows the syntax is read as it was meant, and never overrides the process. Whatever the
  spelling of each value, the line breaks, the comments, the exports and a byte order mark, no warning is given,
  a variable that was set keeps its value, and any other one has the value of its last assignment in the file.
  In a bare value a number sign is kept where it follows anything but white space, as in a URL or a password;
  one at the start is not in the syntax (\<open>value_that_starts_with_a_number_sign_is_lost\<close>). Every value without a
  NUL can be written in double quotes.
\<close>

theorem dotenv_fills_in_what_is_unset:
  assumes "list_all line_ok ls" and "brk \<in> {[LF], [CR, LF]}"
  shows "\<exists>l env'. load_dotenv_file (Some (Inr (file_text bom brk ls))) env = Some (Inr (Some l, env')) \<and>
    (\<forall>k. env' k = (case env k of Some v \<Rightarrow> Some v | None \<Rightarrow> map_of (rev (assignments ls)) k)) \<and>
    dl_warnings l = [] \<and> dl_applied l + dl_kept_from_environment l = card (set (map fst (assignments ls)))"
proof -
  let ?es = "fold assign (assignments ls) []"
  let ?apply = "filter (\<lambda>e. env (fst e) = None) ?es"
  have parsed: "parse_dotenv (file_text bom brk ls) = \<lparr>pd_entries = ?es, pd_warnings = []\<rparr>"
    using assms(1,2) by (intro parsed_file) (auto simp: list_all_iff)
  have d: "distinct (map fst ?es)" by (rule distinct_assigned) simp
  have da: "distinct (map fst ?apply)" using d by (rule distinct_map_filter)
  have "\<forall>e \<in> set ?apply. env (fst e) = None \<and> CHR 0x00 \<notin> set (snd e)"
    using assigned_from [of "assignments ls" "[]"] assigned_values [OF assms(1)] by auto
  from env_filled [OF da this] obtain env' where env': "set_vars ?apply env = Some env'" "\<And>k. env' k = (case env k of Some v \<Rightarrow> Some v | None \<Rightarrow> map_of ?apply k)"
    by (elim exE conjE) (rule that, assumption, erule spec)
  have "map_of ?apply k = (if env k \<noteq> None then None else map_of ?es k)" for k using map_of_unset [of "\<lambda>k. env k \<noteq> None" ?es k] by simp
  then have filled: "env' k = (case env k of Some v \<Rightarrow> Some v | None \<Rightarrow> map_of (rev (assignments ls)) k)" for k
    using assigned_last [of "assignments ls" "[]"] env'(2) [of k] by (auto split: option.splits)
  have "length ?apply + length (filter (\<lambda>e. env (fst e) \<noteq> None) ?es) = length ?es"
    using sum_length_filter_compl [of "\<lambda>e. env (fst e) \<noteq> None" ?es] by simp
  also have "\<dots> = card (fst ` set ?es)" using d distinct_card by fastforce
  also have "fst ` set ?es = set (map fst (assignments ls))"
    using dom_map_of_conv_image_fst [of ?es] dom_map_of_conv_image_fst [of "rev (assignments ls)"] assigned_last [of "assignments ls" "[]"] by simp
  finally have counted: "length ?apply + length (filter (\<lambda>e. env (fst e) \<noteq> None) ?es) = card (set (map fst (assignments ls)))" .
  let ?load = "\<lparr>dl_applied = length ?apply, dl_kept_from_environment = length (filter (\<lambda>e. env (fst e) \<noteq> None) ?es), dl_warnings = []\<rparr>"
  have "load_dotenv_file (Some (Inr (file_text bom brk ls))) env = Some (Inr (Some ?load, env'))"
    using env'(1) by (simp add: load_dotenv_file_def Let_def parsed entries_applied)
  moreover have "dl_warnings ?load = []" "dl_applied ?load + dl_kept_from_environment ?load = card (set (map fst (assignments ls)))"
    using counted by simp_all
  ultimately show ?thesis using filled by blast
qed

definition demo_lines :: "dotenv_line list" where
  "demo_lines =
     [CommentLine '' local settings'', AssignLine True ''DB_URL'' ''postgres://u:p#1@h/db'' Bare (Some '' default''), BlankLine '' '',
      AssignLine False ''GREETING'' (''say '' @ [CHR 0x22] @ ''hi'' @ [CHR 0x22, LF]) DoubleQuoted None, AssignLine False ''PORT'' ''1'' SingleQuoted None,
      AssignLine False ''PORT'' ''8080'' Bare None]"

definition demo_env :: environment where
  "demo_env = [''GREETING'' \<mapsto> ''kept'']"

lemma dotenv_fills_in_what_is_unset_witness:
  "\<exists>l env'. load_dotenv_file (Some (Inr (file_text True [CR, LF] demo_lines))) demo_env = Some (Inr (l, env')) \<and>
     env' ''PORT'' = Some ''8080'' \<and> env' ''GREETING'' = Some ''kept'' \<and> env' ''DB_URL'' = Some ''postgres://u:p#1@h/db'' \<and> env' ''HOME'' = None"
proof -
  have ok: "list_all line_ok demo_lines" "[CR, LF] \<in> {[LF], [CR, LF]}" by code_simp+
  from dotenv_fills_in_what_is_unset [OF ok, of True demo_env] obtain l env' where
    load: "load_dotenv_file (Some (Inr (file_text True [CR, LF] demo_lines))) demo_env = Some (Inr (Some l, env'))" and
    env': "\<And>k. env' k = (case demo_env k of Some v \<Rightarrow> Some v | None \<Rightarrow> map_of (rev (assignments demo_lines)) k)"
    by blast
  have "env' ''PORT'' = Some ''8080'' \<and> env' ''GREETING'' = Some ''kept'' \<and> env' ''DB_URL'' = Some ''postgres://u:p#1@h/db'' \<and> env' ''HOME'' = None"
    unfolding env' by (simp add: demo_lines_def demo_env_def)
  with load show ?thesis by blast
qed

subsection \<open>Limits\<close>

text \<open>The comment in the code lets a number sign start a comment only after white space; it also does where the value starts.\<close>

lemma value_that_starts_with_a_number_sign_is_lost:
  "pd_entries (parse_dotenv (''COLOR=#ff0000'' @ [LF])) = [(''COLOR'', [])]"
  by code_simp

text \<open>A file with a NUL in a value ends the command instead of giving a warning.\<close>

lemma nul_in_a_value_panics:
  "load_project_dotenv (Some (Inr (''A=x'' @ [CHR 0x00, LF]))) (\<lambda>_. None) = None"
  by code_simp

end
