(* ===== verification/Doctor.thy ===== *)
theory Doctor
  imports Dotenv StartupOrder
begin

text \<open>
  \<open>krab doctor\<close>: the checks of \<open>krab_cli/src/doctor.rs\<close> with the environment policy of \<open>krab_cli/src/env_policy.rs\<close>,
  run on what \<open>dotenv.rs\<close> made of the environment. The project model, the parsed \<open>krab.toml\<close> and the report of the
  topology checks are given, as is which paths exist; a path is its text.
\<close>

subsection \<open>Levels\<close>

datatype check_level = LevelOk | LevelSkip | LevelWarn | LevelFail

text \<open>The derived order: that of the declaration.\<close>

fun level_rank :: "check_level \<Rightarrow> nat" where
  "level_rank LevelOk = 0"
| "level_rank LevelSkip = 1"
| "level_rank LevelWarn = 2"
| "level_rank LevelFail = 3"

instantiation check_level :: linorder
begin

definition less_eq_check_level :: "check_level \<Rightarrow> check_level \<Rightarrow> bool" where
  "less_eq_check_level a b = (level_rank a \<le> level_rank b)"

definition less_check_level :: "check_level \<Rightarrow> check_level \<Rightarrow> bool" where
  "less_check_level a b = (level_rank a < level_rank b)"

instance
proof
  show "x \<le> y \<Longrightarrow> y \<le> x \<Longrightarrow> x = y" for x y :: check_level
    by (cases x; cases y) (simp_all add: less_eq_check_level_def)
qed (auto simp: less_eq_check_level_def less_check_level_def)

end

fun level_label :: "check_level \<Rightarrow> string" where
  "level_label LevelOk = ''OK''"
| "level_label LevelSkip = ''SKIP''"
| "level_label LevelWarn = ''WARN''"
| "level_label LevelFail = ''FAIL''"

record doctor_check =
  dk_name :: string
  dk_level :: check_level
  dk_details :: "string list"

definition choose_level :: "string list \<Rightarrow> string list \<Rightarrow> check_level" where
  "choose_level failures warnings = (if failures \<noteq> [] then LevelFail else if warnings \<noteq> [] then LevelWarn else LevelOk)"

definition check_or_failure :: "string \<Rightarrow> string + doctor_check \<Rightarrow> doctor_check" where
  "check_or_failure name result =
     (case result of
        Inr check \<Rightarrow> check
      | Inl err \<Rightarrow> \<lparr>dk_name = name, dk_level = LevelFail, dk_details = [''check could not run: '' @ err]\<rparr>)"

subsection \<open>The environment policy\<close>

record environment_inputs =
  ei_auth_mode :: "string option"
  ei_oidc_issuer :: "string option"
  ei_oidc_audience :: "string option"
  ei_environment :: "string option"

definition inputs_from_process_env :: "environment \<Rightarrow> environment_inputs" where
  "inputs_from_process_env env =
     \<lparr>ei_auth_mode = env ''KRAB_AUTH_MODE'', ei_oidc_issuer = env ''KRAB_OIDC_ISSUER'',
      ei_oidc_audience = env ''KRAB_OIDC_AUDIENCE'', ei_environment = env ''KRAB_ENVIRONMENT''\<rparr>"

definition KNOWN_ENVIRONMENTS :: "string list" where
  "KNOWN_ENVIRONMENTS = [''local'', ''dev'', ''staging'', ''prod'']"

definition evaluate_environment_policy :: "environment_inputs \<Rightarrow> string list" where
  "evaluate_environment_policy inputs =
     (let auth_mode = (case ei_auth_mode inputs of Some m \<Rightarrow> m | None \<Rightarrow> ''jwt'');
          env = (case ei_environment inputs of Some e \<Rightarrow> e | None \<Rightarrow> ''dev'')
      in (if eq_ignore_ascii_case auth_mode ''jwt'' \<or> eq_ignore_ascii_case auth_mode ''oidc'' then
            (if ei_oidc_issuer inputs = None then [''KRAB_OIDC_ISSUER is required when KRAB_AUTH_MODE=jwt''] else [])
            @ (if ei_oidc_audience inputs = None then [''KRAB_OIDC_AUDIENCE is required when KRAB_AUTH_MODE=jwt''] else [])
          else if eq_ignore_ascii_case auth_mode ''static'' then
            (if \<not> eq_ignore_ascii_case env ''local'' \<and> \<not> eq_ignore_ascii_case env ''dev''
             then [''KRAB_AUTH_MODE=static is forbidden outside local/dev; use jwt or oidc''] else [])
          else [''Unsupported KRAB_AUTH_MODE='' @ [CHR 0x27] @ auth_mode @ [CHR 0x27] @ ''; expected static|jwt|oidc''])
         @ (if env \<notin> set KNOWN_ENVIRONMENTS
            then [''KRAB_ENVIRONMENT should be one of local|dev|staging|prod, found: '' @ env] else []))"

definition environment_policy_check :: "environment \<Rightarrow> doctor_check" where
  "environment_policy_check env =
     (let warnings = evaluate_environment_policy (inputs_from_process_env env)
      in \<lparr>dk_name = ''environment-policy'', dk_level = (if warnings = [] then LevelOk else LevelWarn),
          dk_details = (if warnings = [] then [''environment policy checks produced no warnings''] else warnings)\<rparr>)"

subsection \<open>The project model\<close>

record project_model =
  pm_frontend_bin :: string
  pm_bootstrap_bin :: string
  pm_dist_dir :: string
  pm_client_package :: "string option"
  pm_client_crate_dir :: "string option"
  pm_server_paths :: "string list"
  pm_client_paths :: "string list"
  pm_public_paths :: "string list"

definition has_client_build :: "project_model \<Rightarrow> bool" where
  "has_client_build m = (pm_client_package m \<noteq> None \<and> pm_client_crate_dir m \<noteq> None)"

definition missing :: "(string \<Rightarrow> bool) \<Rightarrow> string \<Rightarrow> string list \<Rightarrow> string list" where
  "missing path_exists what paths = map (\<lambda>p. what @ p) (filter (\<lambda>p. \<not> path_exists p) paths)"

definition evaluate_project_model :: "(string \<Rightarrow> bool) \<Rightarrow> string + project_model \<Rightarrow> string + doctor_check" where
  "evaluate_project_model path_exists loaded =
     (case loaded of
        Inl err \<Rightarrow> Inl err
      | Inr model \<Rightarrow>
          let toml_warnings = (if path_exists ''krab.toml'' then []
                               else [''krab.toml not found; CLI will fall back to workspace-default project model'']);
              failures = (if trim (pm_frontend_bin model) = [] then [''frontend_bin is empty''] else [])
                @ (if trim (pm_bootstrap_bin model) = [] then [''bootstrap_bin is empty''] else [])
                @ (if pm_server_paths model = [] then [''server_paths is empty''] else [])
                @ missing path_exists ''configured server path does not exist: '' (pm_server_paths model);
              warnings = toml_warnings @ missing path_exists ''configured public path does not exist: '' (pm_public_paths model);
              notes = [''frontend_bin='' @ pm_frontend_bin model, ''bootstrap_bin='' @ pm_bootstrap_bin model, ''dist_dir='' @ pm_dist_dir model];
              (client_failures, client_notes) =
                (if has_client_build model then
                   (case (case pm_client_crate_dir model of
                            Some path \<Rightarrow>
                              if \<not> path_exists path then ([''configured client crate directory does not exist: '' @ path], [])
                              else ([], [''client_crate_dir='' @ path])
                          | None \<Rightarrow> ([''client build configured without client_crate_dir''], [])) of
                      (fs, ns) \<Rightarrow> (fs @ missing path_exists ''configured client path does not exist: '' (pm_client_paths model), ns))
                 else ([], []));
              all_failures = failures @ client_failures
          in Inr \<lparr>dk_name = ''project-model'', dk_level = choose_level all_failures warnings,
                  dk_details = notes @ client_notes @ all_failures @ warnings\<rparr>)"


subsection \<open>The service manifest\<close>

record doctor_service =
  ds_command :: "string option"
  ds_cwd :: "string option"
  ds_depends_on :: "string list"
  ds_startup_dependencies :: "string list"
  ds_healthcheck_url :: "string option"
  ds_healthcheck :: "string option option"

text \<open>The services in the order of their names; whether there is a \<open>[project]\<close> table.\<close>

record doctor_toml =
  dt_services :: "doctor_service hashmap"
  dt_project :: bool

definition ready_probe :: "doctor_service \<Rightarrow> string option" where
  "ready_probe service =
     (case Option.bind (ds_healthcheck service) id of Some url \<Rightarrow> Some url | None \<Rightarrow> ds_healthcheck_url service)"

definition service_failures :: "(string \<Rightarrow> bool) \<Rightarrow> doctor_service hashmap \<Rightarrow> string \<Rightarrow> doctor_service \<Rightarrow> string list" where
  "service_failures path_exists services name service =
     (if (case ds_command service of Some c \<Rightarrow> trim c = [] | None \<Rightarrow> True) then [''service `'' @ name @ ''` has no command configured''] else [])
     @ (case ds_cwd service of
          Some cwd \<Rightarrow> if path_exists cwd then [] else [''service `'' @ name @ ''` cwd does not exist: '' @ cwd]
        | None \<Rightarrow> [])
     @ map (\<lambda>d. ''service `'' @ name @ ''` references unknown dependency `'' @ d @ ''`'')
         (filter (\<lambda>d. \<not> hm_contains services d) (ds_depends_on service @ ds_startup_dependencies service))
     @ (case ready_probe service of
          Some _ \<Rightarrow> []
        | None \<Rightarrow> [''service `'' @ name @ ''` has no readiness probe configured in krab.toml''])"

definition service_warnings :: "string \<Rightarrow> doctor_service \<Rightarrow> string list" where
  "service_warnings name service =
     (case ready_probe service of
        Some url \<Rightarrow> if str_contains url ''/ready'' then [] else [''service `'' @ name @ ''` readiness probe should target `/ready`, found `'' @ url @ ''`'']
      | None \<Rightarrow> [])"

text \<open>\<open>None\<close> is a missing file, \<open>Inl\<close> one that cannot be read or parsed.\<close>

definition evaluate_service_configuration :: "(string \<Rightarrow> bool) \<Rightarrow> (string + doctor_toml) option \<Rightarrow> string + doctor_check" where
  "evaluate_service_configuration path_exists file =
     (case file of
        None \<Rightarrow> Inr \<lparr>dk_name = ''service-config'', dk_level = LevelSkip,
                      dk_details = [''krab.toml missing; service configuration checks skipped'']\<rparr>
      | Some (Inl err) \<Rightarrow> Inl err
      | Some (Inr parsed) \<Rightarrow>
          if dt_services parsed = [] \<and> dt_project parsed then
            Inr \<lparr>dk_name = ''service-config'', dk_level = LevelSkip,
                 dk_details = [''skipped: krab.toml declares [project] and no [services.*]; orchestrator service checks do not apply to a single-service project'']\<rparr>
          else
            let warnings = (if dt_services parsed = [] then [''no [services.*] entries found in krab.toml''] else [])
                  @ concat (map (\<lambda>(name, service). service_warnings name service) (dt_services parsed));
                failures = concat (map (\<lambda>(name, service). service_failures path_exists (dt_services parsed) name service) (dt_services parsed));
                notes = [''services='' @ show_nat (length (dt_services parsed))]
            in Inr \<lparr>dk_name = ''service-config'', dk_level = choose_level failures warnings, dk_details = notes @ failures @ warnings\<rparr>)"

subsection \<open>Topology\<close>

record topology_report =
  tr_checked_rust_files :: nat
  tr_contract_path :: string
  tr_violations :: "string list"
  tr_skipped :: "(string \<times> string) list"

definition topology_ran :: "topology_report \<Rightarrow> string \<Rightarrow> bool" where
  "topology_ran r check = (\<not> list_ex (\<lambda>entry. fst entry = check) (tr_skipped r))"

definition CHECK_SERVICE_SOURCE_SCAN :: string where "CHECK_SERVICE_SOURCE_SCAN = ''service-source-scan''"
definition CHECK_CONTRACT_PAYLOAD_DERIVES :: string where "CHECK_CONTRACT_PAYLOAD_DERIVES = ''contract-payload-derives''"

definition evaluate_topology :: "string + topology_report \<Rightarrow> string + doctor_check" where
  "evaluate_topology result =
     (case result of
        Inl err \<Rightarrow> Inl err
      | Inr report \<Rightarrow>
          Inr \<lparr>dk_name = ''topology-boundaries'',
               dk_level = (if tr_violations report \<noteq> [] then LevelFail else if tr_skipped report \<noteq> [] then LevelSkip else LevelOk),
               dk_details = (if topology_ran report CHECK_SERVICE_SOURCE_SCAN then [''checked_rust_files='' @ show_nat (tr_checked_rust_files report)] else [])
                 @ (if topology_ran report CHECK_CONTRACT_PAYLOAD_DERIVES then [''contract_path='' @ tr_contract_path report] else [])
                 @ map (\<lambda>(check, reason). ''skipped '' @ check @ '': '' @ reason) (tr_skipped report) @ tr_violations report\<rparr>)"

subsection \<open>The command\<close>

definition collect_doctor_report ::
  "(string \<Rightarrow> bool) \<Rightarrow> environment \<Rightarrow> string + project_model \<Rightarrow> (string + doctor_toml) option \<Rightarrow> string + topology_report \<Rightarrow> doctor_check list" where
  "collect_doctor_report path_exists env loaded file topology =
     [check_or_failure ''project-model'' (evaluate_project_model path_exists loaded),
      check_or_failure ''service-config'' (evaluate_service_configuration path_exists file),
      environment_policy_check env,
      check_or_failure ''topology-boundaries'' (evaluate_topology topology)]"

definition doctor_success :: "nat \<Rightarrow> nat \<Rightarrow> bool \<Rightarrow> bool" where
  "doctor_success failures warnings strict = (\<not> (0 < failures \<or> strict \<and> 0 < warnings))"

text \<open>What is printed on a terminal, and the result.\<close>

definition doctor_lines :: "bool \<Rightarrow> doctor_check list \<Rightarrow> string list" where
  "doctor_lines diagnostics checks =
     concat (map (\<lambda>c. [''['' @ level_label (dk_level c) @ ''] '' @ dk_name c]
       @ (if diagnostics \<or> dk_level c \<noteq> LevelOk then map (\<lambda>d. ''  - '' @ d) (dk_details c) else [])) checks)"

definition level_count :: "check_level \<Rightarrow> doctor_check list \<Rightarrow> nat" where
  "level_count l checks = length (filter (\<lambda>c. dk_level c = l) checks)"

definition dispatch_doctor_command :: "bool \<Rightarrow> doctor_check list \<Rightarrow> string + unit" where
  "dispatch_doctor_command strict checks =
     (if \<not> doctor_success (level_count LevelFail checks) (level_count LevelWarn checks) strict
      then Inl (''workspace doctor found '' @ show_nat (level_count LevelFail checks) @ '' failing check(s) and ''
                @ show_nat (level_count LevelWarn checks) @ '' warning check(s)'')
      else Inr ())"

text \<open>\<open>krab doctor\<close>: the \<open>.env\<close> file first; \<open>None\<close> when loading it panics.\<close>

definition run_doctor ::
  "bool \<Rightarrow> (string + string) option \<Rightarrow> environment \<Rightarrow> (string \<Rightarrow> bool) \<Rightarrow> string + project_model \<Rightarrow> (string + doctor_toml) option \<Rightarrow> string + topology_report \<Rightarrow> (string + unit) option" where
  "run_doctor strict dotenv env path_exists loaded file topology =
     map_option (\<lambda>env'. dispatch_doctor_command strict (collect_doctor_report path_exists env' loaded file topology))
       (load_project_dotenv dotenv env)"

subsection \<open>Properties\<close>

lemma doctor_verdict: "dispatch_doctor_command strict checks = Inr () \<longleftrightarrow> (\<forall>c \<in> set checks. dk_level c \<le> (if strict then LevelSkip else LevelWarn))"
proof -
  have le: "l \<le> (if strict then LevelSkip else LevelWarn) \<longleftrightarrow> l \<noteq> LevelFail \<and> (strict \<longrightarrow> l \<noteq> LevelWarn)" for l
    by (cases l) (simp_all add: less_eq_check_level_def)
  show ?thesis
    unfolding le by (auto simp: dispatch_doctor_command_def doctor_success_def level_count_def filter_empty_conv)
qed

lemma choose_level_below: "choose_level fs ws \<le> LevelWarn \<longleftrightarrow> fs = []" "choose_level fs ws \<le> LevelSkip \<longleftrightarrow> fs = [] \<and> ws = []"
  by (auto simp: choose_level_def less_eq_check_level_def)

lemma check_that_ran: "dk_level (check_or_failure n r) \<le> LevelWarn \<Longrightarrow> \<exists>c. r = Inr c \<and> check_or_failure n r = c"
  by (cases r) (auto simp: check_or_failure_def less_eq_check_level_def)

text \<open>The orchestrator and the doctor read the same tables.\<close>

definition same_tables :: "service_definition hashmap \<Rightarrow> doctor_service hashmap \<Rightarrow> bool" where
  "same_tables services tables \<longleftrightarrow>
     map (\<lambda>(n, sd). (n, dependencies sd)) services = map (\<lambda>(n, d). (n, ds_depends_on d @ ds_startup_dependencies d)) tables"

lemma same_tables_names:
  assumes "same_tables services tables"
  shows "map fst services = map fst tables"
proof -
  have "map fst (map (\<lambda>(n, x). (n, g x)) xs) = map fst xs" for g :: "'a \<Rightarrow> 'b" and xs :: "(string \<times> 'a) list"
    by (induction xs) auto
  note both = this [of dependencies services] this [of "\<lambda>d. ds_depends_on d @ ds_startup_dependencies d" tables]
  show ?thesis using arg_cong [OF assms [unfolded same_tables_def], of "map fst"] unfolding both .
qed

lemma same_tables_entry:
  assumes "same_tables services tables" "(n, sd) \<in> set services"
  obtains d where "(n, d) \<in> set tables" "dependencies sd = ds_depends_on d @ ds_startup_dependencies d"
proof -
  have "(n, dependencies sd) \<in> (\<lambda>(n, d). (n, ds_depends_on d @ ds_startup_dependencies d)) ` set tables"
    using arg_cong [OF assms(1) [unfolded same_tables_def], of set] imageI [OF assms(2), of "\<lambda>(n, sd). (n, dependencies sd)"]
    by simp
  then show ?thesis by (auto intro: that)
qed

lemma same_tables_known:
  assumes "same_tables services tables"
    and "\<And>n d. (n, d) \<in> set tables \<Longrightarrow> set (ds_depends_on d @ ds_startup_dependencies d) \<subseteq> fst ` set tables"
  shows "deps_known services"
proof -
  have names: "fst ` set services = fst ` set tables"
    using arg_cong [OF same_tables_names [OF assms(1)], of set] by simp
  have "b \<in> fst ` set services" if "hm_get services a = Some sd" "b \<in> set (dependencies sd)" for a b sd
  proof -
    have "(a, sd) \<in> set services" using that(1) by (rule map_of_SomeD)
    then obtain d where d: "(a, d) \<in> set tables" "dependencies sd = ds_depends_on d @ ds_startup_dependencies d"
      by (rule same_tables_entry [OF assms(1)])
    show ?thesis using assms(2) [OF d(1)] that(2) unfolding names d(2) by blast
  qed
  then show ?thesis by (auto simp: deps_known_def dep_rel_def)
qed


subsection \<open>What a passing report shows\<close>

lemma service_failures_none:
  "service_failures path_exists tables name d = [] \<longleftrightarrow>
     (\<exists>c. ds_command d = Some c \<and> trim c \<noteq> []) \<and> (\<forall>cwd. ds_cwd d = Some cwd \<longrightarrow> path_exists cwd) \<and>
     set (ds_depends_on d @ ds_startup_dependencies d) \<subseteq> fst ` set tables \<and> ready_probe d \<noteq> None"
  by (auto simp: service_failures_def filter_empty_conv split: option.splits if_splits)

lemma missing_none: "missing path_exists what paths = [] \<longleftrightarrow> (\<forall>p \<in> set paths. path_exists p)"
  by (auto simp: missing_def filter_empty_conv)

lemma services_that_pass:
  assumes "dk_level (check_or_failure ''service-config'' (evaluate_service_configuration path_exists (Some (Inr t)))) \<le> LevelWarn"
    and "(n, d) \<in> set (dt_services t)"
  shows "service_failures path_exists (dt_services t) n d = []"
proof -
  have "dt_services t \<noteq> []" using assms(2) by auto
  then show ?thesis
    using assms by (auto simp: evaluate_service_configuration_def check_or_failure_def Let_def choose_level_below)
qed

lemma topology_that_passes:
  assumes "dk_level (check_or_failure n (evaluate_topology result)) \<le> LevelWarn"
  shows "\<exists>r. result = Inr r \<and> tr_violations r = []"
  using assms by (cases result) (auto simp: evaluate_topology_def check_or_failure_def less_eq_check_level_def split: if_splits)

definition sound_model :: "(string \<Rightarrow> bool) \<Rightarrow> project_model \<Rightarrow> bool" where
  "sound_model path_exists m \<longleftrightarrow>
     trim (pm_frontend_bin m) \<noteq> [] \<and> trim (pm_bootstrap_bin m) \<noteq> [] \<and> pm_server_paths m \<noteq> [] \<and> list_all path_exists (pm_server_paths m) \<and>
     (has_client_build m \<longrightarrow> path_exists (the (pm_client_crate_dir m)) \<and> list_all path_exists (pm_client_paths m))"

lemma project_model_that_passes:
  assumes "dk_level (check_or_failure n (evaluate_project_model path_exists loaded)) \<le> LevelWarn"
  shows "\<exists>m. loaded = Inr m \<and> sound_model path_exists m"
proof (cases loaded)
  case (Inl err)
  with assms show ?thesis by (simp add: evaluate_project_model_def check_or_failure_def less_eq_check_level_def)
next
  case (Inr m)
  show ?thesis
    using assms unfolding Inr evaluate_project_model_def check_or_failure_def sound_model_def list_all_iff
    by (auto simp: Let_def choose_level_below missing_none has_client_build_def split: if_splits)
qed

lemma environment_that_passes:
  "dk_level (environment_policy_check env) \<le> LevelSkip \<longleftrightarrow> evaluate_environment_policy (inputs_from_process_env env) = []"
  by (auto simp: environment_policy_check_def Let_def less_eq_check_level_def)


text \<open>
  C40: a project that \<open>krab doctor\<close> passes is one the orchestrator can order. If the report does not fail, the services of the
  manifest each have a command, a readiness probe and an existing working directory, the project model is sound, the topology
  shows no violation, and the start-up search ends with every service in order or with a real dependency cycle, never with an
  unknown dependency. With \<open>--strict\<close> the environment, as completed by \<open>.env\<close>, has no warning of the policy either.
\<close>

theorem doctor_passes_only_sound_projects:
  assumes passed: "run_doctor strict dotenv env path_exists loaded (Some (Inr t)) topology = Some (Inr ())"
    and same: "same_tables services (dt_services t)"
  shows "(case resolve_startup_order services of
            Inr order \<Rightarrow> distinct order \<and> set order = fst ` set (dt_services t)
          | Inl e \<Rightarrow> \<exists>n. e = DependencyCycle n \<and> (n, n) \<in> (dep_rel services)\<^sup>+)
       \<and> list_all (\<lambda>(n, d). (\<exists>c. ds_command d = Some c \<and> trim c \<noteq> []) \<and> ready_probe d \<noteq> None
                      \<and> (case ds_cwd d of Some cwd \<Rightarrow> path_exists cwd | None \<Rightarrow> True)) (dt_services t)
       \<and> (\<exists>m. loaded = Inr m \<and> sound_model path_exists m) \<and> (\<exists>r. topology = Inr r \<and> tr_violations r = [])
       \<and> (\<exists>env'. load_project_dotenv dotenv env = Some env' \<and> (strict \<longrightarrow> evaluate_environment_policy (inputs_from_process_env env') = []))"
proof -
  let ?limit = "if strict then LevelSkip else LevelWarn"
  have weak: "l \<le> ?limit \<Longrightarrow> l \<le> LevelWarn" for l by (cases l) (auto simp: less_eq_check_level_def split: if_splits)
  obtain env' where env': "load_project_dotenv dotenv env = Some env'"
    and report: "dispatch_doctor_command strict (collect_doctor_report path_exists env' loaded (Some (Inr t)) topology) = Inr ()"
    using passed by (auto simp: run_doctor_def)
  have all: "\<forall>c \<in> set (collect_doctor_report path_exists env' loaded (Some (Inr t)) topology). dk_level c \<le> ?limit"
    using report by (rule iffD1 [OF doctor_verdict])
  note each = all [unfolded collect_doctor_report_def list.set ball_simps]
  have ok: "service_failures path_exists (dt_services t) n d = []" if "(n, d) \<in> set (dt_services t)" for n d
    using each that by (intro services_that_pass [OF weak]) simp_all
  note sound = ok [unfolded service_failures_none]
  have known: "deps_known services"
    by (rule same_tables_known [OF same]) (use sound in simp)
  have order: "case resolve_startup_order services of
      Inr order \<Rightarrow> distinct order \<and> set order = fst ` set (dt_services t)
    | Inl e \<Rightarrow> \<exists>n. e = DependencyCycle n \<and> (n, n) \<in> (dep_rel services)\<^sup>+"
    using resolve_cases [of services] known arg_cong [OF same_tables_names [OF same], of set]
    by (auto simp: honest_error_def deps_known_def split: sum.splits order_error.splits)
  moreover have "list_all (\<lambda>(n, d). (\<exists>c. ds_command d = Some c \<and> trim c \<noteq> []) \<and> ready_probe d \<noteq> None
                      \<and> (case ds_cwd d of Some cwd \<Rightarrow> path_exists cwd | None \<Rightarrow> True)) (dt_services t)"
    unfolding list_all_iff using sound by (auto split: option.splits)
  moreover have "\<exists>m. loaded = Inr m \<and> sound_model path_exists m"
    using each by (intro project_model_that_passes [where n = "''project-model''", OF weak]) simp
  moreover have "\<exists>r. topology = Inr r \<and> tr_violations r = []"
    using each by (intro topology_that_passes [where n = "''topology-boundaries''" , OF weak]) simp
  moreover have "evaluate_environment_policy (inputs_from_process_env env') = []" if strict
    using each that by (intro iffD1 [OF environment_that_passes]) simp
  ultimately show ?thesis using env' by blast
qed

definition sample_tables :: "doctor_service hashmap" where
  "sample_tables =
     [(''api'', \<lparr>ds_command = Some ''cargo run'', ds_cwd = Some ''crates/api'', ds_depends_on = [''web''], ds_startup_dependencies = [],
                 ds_healthcheck_url = Some ''http://127.0.0.1:1/ready'', ds_healthcheck = None\<rparr>),
      (''web'', \<lparr>ds_command = Some ''cargo run'', ds_cwd = None, ds_depends_on = [''api''], ds_startup_dependencies = [],
                 ds_healthcheck_url = None, ds_healthcheck = Some (Some ''http://127.0.0.1:2/ready'')\<rparr>)]"

definition sample_definition :: "string list \<Rightarrow> service_definition" where
  "sample_definition deps =
     \<lparr>sd_command = ''cargo run'', sd_args = [], sd_port = None, sd_service_name = None, sd_env = [], sd_cwd = None, sd_watch = False,
      sd_restart_on_exit = False, sd_restart_backoff_ms = 0, sd_max_restart_attempts = 0, sd_healthcheck_url = None,
      sd_healthcheck_timeout_ms = 0, sd_shutdown_timeout_ms = 0, sd_depends_on = deps, sd_startup_dependencies = [],
      sd_restart_policy = None, sd_healthcheck = None\<rparr>"

definition sample_services :: "service_definition hashmap" where
  "sample_services = [(''api'', sample_definition [''web'']), (''web'', sample_definition [''api''])]"

definition sample_project :: project_model where
  "sample_project =
     \<lparr>pm_frontend_bin = ''web'', pm_bootstrap_bin = ''boot'', pm_dist_dir = ''dist'', pm_client_package = None, pm_client_crate_dir = None,
      pm_server_paths = [''crates/api''], pm_client_paths = [], pm_public_paths = []\<rparr>"

definition sample_topology :: "string + topology_report" where
  "sample_topology = Inr \<lparr>tr_checked_rust_files = 3, tr_contract_path = [], tr_violations = [], tr_skipped = []\<rparr>"

definition sample_dotenv :: "(string + string) option" where
  "sample_dotenv = Some (Inr (''KRAB_AUTH_MODE=static'' @ [LF]))"

text \<open>The doctor passes two services that depend on each other; the orchestrator then refuses to start them.\<close>

lemma sample_passes:
  "run_doctor True sample_dotenv (\<lambda>_. None) (\<lambda>_. True) (Inr sample_project) (Some (Inr \<lparr>dt_services = sample_tables, dt_project = True\<rparr>))
     sample_topology = Some (Inr ())"
  "same_tables sample_services sample_tables"
  "resolve_startup_order sample_services = Inl (DependencyCycle ''api'')"
  by code_simp+

lemma doctor_passes_only_sound_projects_witness:
  "(\<exists>env'. load_project_dotenv sample_dotenv (\<lambda>_. None) = Some env' \<and> evaluate_environment_policy (inputs_from_process_env env') = []) \<and>
   (''api'', ''api'') \<in> (dep_rel sample_services)\<^sup>+"
  using doctor_passes_only_sound_projects [OF sample_passes(1)] sample_passes(2,3) by fastforce

text \<open>The report of a client build without a crate directory cannot be made: such a model has no client build.\<close>

lemma client_build_without_directory_is_passed:
  "pm_client_crate_dir m = None \<Longrightarrow> \<not> has_client_build m"
  by (simp add: has_client_build_def)

end
