(* ===== verification/Spec2Isabelle.thy ===== *)
theory Spec2Isabelle
  imports KrabPrelude CircuitBreaker IsrCache SupervisorLoop HealthProbe AuthGate TokenStartup Hydration PageHead ReactiveApp Reconcile DbGovernance DbConnect AsyncValues ProgressiveStream StreamWriter OutletScan Navigation Adopt EventStream ServerFn Dotenv Doctor
begin

text \<open>
  Krab is a full-stack web framework in Rust. This development models its core: rendering a page on the server, reactive
  state, streaming and hydration in the browser, client-side navigation, the HTTP services with their authentication,
  tokens, protocols and page cache, the store and the database behind them, the orchestrator that supervises a set
  of services, and the checks of the command line tool. Paths below are under \<open>src/crates/framework\<close>
  (\<open>krab_core\<close>, \<open>krab_client\<close>), \<open>src/crates/tooling\<close> (\<open>krab_orchestrator\<close>, \<open>krab_cli\<close>) and \<open>src/services\<close>.

  \<^bold>\<open>How the parts interact.\<close> A service starts by reading its configuration (\<open>ServiceConfig\<close>) and its protocols
  (\<open>Protocol\<close>). Each request passes the guards (\<open>HttpGuards\<close>), the authentication gate (\<open>AuthGate\<close>, which verifies
  bearer tokens through \<open>JwtVerify\<close>, \<open>JwksSource\<close> and \<open>AuthPolicy\<close>) and protocol resolution before its handler. Rate limits, failure
  counters, revocation markers and cached pages all live in one key-value store (\<open>KvStore\<close>, implemented by \<open>MemStore\<close>).
  A handler renders a tree of nodes (\<open>ViewTree\<close>) that reads signals (\<open>Reactive\<close>), below a head (\<open>PageHead\<close>), with markers
  (\<open>Hydration\<close>, \<open>Suspense\<close>) that let the browser adopt the markup (\<open>Adopt\<close>) and patch it (\<open>Reconcile\<close>); the
  page is cached (\<open>IsrCache\<close>) or streamed (\<open>StreamWriter\<close>, \<open>ProgressiveStream\<close>). In the browser links are followed without a
  reload (\<open>Navigation\<close>, over \<open>OutletScan\<close>) and server functions called (\<open>ServerFn\<close>, \<open>EventStream\<close>, \<open>AsyncValues\<close>). The orchestrator
  orders (\<open>StartupOrder\<close>), starts, probes (\<open>HealthProbe\<close>) and supervises (\<open>Supervision\<close>, \<open>SupervisorLoop\<close>) the services of a
  manifest (\<open>OrchConfig\<close>); the probe and the services use the circuit breaker (\<open>CircuitBreaker\<close>).

  \<^bold>\<open>Conventions.\<close> \<open>KrabPrelude\<close> has the shared vocabulary and the part of the Rust standard library the code calls. A \<open>u8\<close>
  to \<open>u64\<close> or \<open>i64\<close> is a word of that width, with saturating and checked operations written out. A \<open>String\<close> is the list
  of its bytes, so lengths and offsets are those of the code. A \<open>struct\<close> is a record, an \<open>enum\<close> a datatype, a \<open>Result\<close> a sum
  whose left side is the error, a panic the value \<open>None\<close> of an option where the code can panic. A hash map is an association
  list: nothing proved depends on its order. Time is a number of nanoseconds, and every reading of a clock is an
  argument. State is a record that each operation takes and returns; tasks that interleave are lists of events, or a
  step relation. Code that is not in the repository (JSON and TOML parsers, JWT and password libraries, hash functions,
  the browser, the operating system, SQL) is an argument of the definitions, and what is relied on is a
  hypothesis.

  \<^bold>\<open>Theories, their sources and what is shown.\<close>

  Store and cache. \<open>KvStore\<close> and \<open>MemStore\<close>: the trait \<open>DistributedStore\<close> and \<open>MemoryStore\<close>, \<open>krab_core/src/store.rs\<close>. The laws of
  the trait are the locale \<open>distributed_store\<close>, extended by \<open>durable_store\<close> for stores that drop nothing; they are proved of the
  in-memory store by the interpretations \<open>mem\<close> and \<open>unlimited\<close>, and the clients of the store are verified from them.
  \<open>IsrCache\<close>: \<open>isr.rs\<close>; a cold burst renders once, stale pages stay servable, failures are errors.

  Resilience. \<open>Float64\<close> and \<open>CircuitBreaker\<close>: \<open>resilience.rs\<close>; the ring buffer refines the list of all samples in the
  window, and the breaker follows its state machine. Doubles are rationals, rounded as IEEE 754 rounds normal numbers.

  HTTP and authentication. \<open>ServiceConfig\<close>: \<open>config.rs\<close>. \<open>HttpGuards\<close>: \<open>http.rs\<close>, \<open>http_security.rs\<close>, \<open>csrf.rs\<close>.
  \<open>JwksSource\<close> and \<open>RetirementTime\<close>: \<open>jwks.rs\<close>; fetches are limited and single, failures keep the keys, and the
  calendar arithmetic agrees with the calendar. \<open>JwtPolicy\<close>, \<open>AuthPolicy\<close>, \<open>JwtVerify\<close>, \<open>AuthGate\<close>: \<open>http_auth.rs\<close> and \<open>http_runtime.rs\<close>; what
  is forwarded was verified by an unretired key of its provider, is not revoked and satisfies the policy, and failures are
  counted. \<open>Protocol\<close>: \<open>protocol.rs\<close>, \<open>http_protocol.rs\<close>, \<open>http_error.rs\<close>. \<open>Credentials\<close>: \<open>credentials.rs\<close>. \<open>TokenService\<close> and
  \<open>TokenStartup\<close>: \<open>service_auth/src/main.rs\<close>; refresh tokens work once, revoking is effective, tokens are for their caller.

  Rendering. \<open>HtmlEscape\<close>, \<open>ViewTree\<close>, \<open>Hydration\<close>: \<open>lib.rs\<close> and \<open>control_flow.rs\<close>; \<open>PageHead\<close>: \<open>head.rs\<close> and \<open>layout.rs\<close>. The specification is
  \<open>HtmlTokens\<close>, a tokenizer after the HTML standard for the syntax a renderer may use: the output reads back as the tree that
  was rendered, whatever its texts and attribute values. \<open>Suspense\<close>: \<open>suspense.rs\<close>. \<open>StreamWriter\<close> and \<open>ProgressiveStream\<close>:
  \<open>render_stream.rs\<close> and \<open>render_stream/progressive.rs\<close>; chunks carry the text, a complete stream leaves no placeholder.

  Reactivity. \<open>Reactive\<close>, \<open>ReactiveMemo\<close>, \<open>ReactiveRun\<close>, \<open>ReactiveApp\<close>: \<open>signal.rs\<close>; after any sequence of calls of an application
  reads have the meaning of the source, effects have seen current values, and the runtime is at rest. Running effects is the locale
  \<open>effect_runner\<close>, with the interpretation \<open>effects\<close>. \<open>AsyncValues\<close>: \<open>action.rs\<close> and \<open>resource.rs\<close>, two interpretations (\<open>act\<close>, \<open>res\<close>) of
  \<open>async_value\<close>: of overlapping runs only the latest counts.

  Browser. \<open>Reconcile\<close> and \<open>Adopt\<close>: \<open>krab_client/src/reconcile.rs\<close> and \<open>hydration.rs\<close>; the document ends up showing the tree, and
  matched nodes keep their identity. \<open>OutletScan\<close> and \<open>Navigation\<close>: \<open>router.rs\<close>; the scanner finds what the renderer wrote (\<open>tag_search\<close>,
  with \<open>outlets\<close> and \<open>titles\<close>), and the page shown is that of the URL. \<open>EventStream\<close> and \<open>ServerFn\<close>:
  \<open>krab_core/src/server_fn.rs\<close>; events are heard as sent however they are cut, and errors do not carry
  submitted values (those without a backtick; with one the code leaks, which is shown).

  Database. \<open>Migrations\<close> and \<open>DbGovernance\<close>: \<open>db/postgres.rs\<close> and \<open>service_users/src/db/migrations.rs\<close>, over a network that may refuse a
  statement or lose its answer: schema and ledger stay in step, and the schema changes only when allowed. \<open>DbConnect\<close>: \<open>db/postgres.rs\<close>
  and \<open>db/driver.rs\<close>.

  Tooling. \<open>OrchConfig\<close>: \<open>krab_orchestrator/src/configuration.rs\<close>; \<open>StartupOrder\<close>: \<open>main.rs\<close>, an order exactly when dependencies are known
  and acyclic; \<open>Supervision\<close>, \<open>SupervisorLoop\<close>, \<open>HealthProbe\<close>: \<open>process_runtime.rs\<close>, \<open>main.rs\<close>, \<open>watch_runtime.rs\<close>; restart budgets bound crash
  loops, and whatever ends the supervisor has put down every child. \<open>Dotenv\<close> and \<open>Doctor\<close>: \<open>krab_cli/src/dotenv.rs\<close>, \<open>doctor.rs\<close>, \<open>env_policy.rs\<close>; a file is read as meant
  and overrides nothing, and what the doctor passes the orchestrator can order.

  \<^bold>\<open>Bounds, fuel and termination.\<close> The start-up search has fuel, the number of services, and \<open>OutOfFuel\<close> is proved not to occur.
  The reactive runtime has three: the number of memos for nested memo reads, the number of effects plus one for nested runs, and
  the code's own \<open>MAX_FLUSH_DEPTH\<close> (64) for deliveries; enough for every state that its operations reach. Reconciling and adopting
  recurse on the size of the virtual tree; connecting on the retries left; the probe on the attempts left; a progressive stream on the
  reports to come and the boundaries still open; the event stream on the replies of the reader; redaction and UTF-8 decoding on the
  length of the text. Cutting chunks need not end for a limit below the size of a character, so it is a partial function into
  options; the constructor raises the limit to 128 bytes, and from four bytes on it is proved to return.

  \<^bold>\<open>Not modelled.\<close> System calls and I/O (processes, files, sockets, signals, the HTTP server and client, Redis), logging, metrics and
  tracing, WASM glue, and libraries outside the repository. Of the framework: scoped styles, error boundaries (unwinding), and
  the ownership of effects created inside effects with context scopes. Trees are patched and adopted without \<open>Dynamic\<close> parts. Of the tools:
  code generation, project templates, release operations and the topology scanner, which produce or search text. The example services
  other than the token service and the migrations of the users service are route tables over the framework.
\<close>

end
